(* ===== verification/Prelude.thy ===== *)
theory Prelude
  imports Main "HOL-Library.Word" "HOL-Library.Sublist"
begin

text \<open>
  Shared vocabulary of the development: the machine integers of the C code, the ways a
  run of the program can be stopped, the result type of fallible operations with its
  sequencing operator and a total-correctness predicate over it, and generic facts on
  lists and words that several components use.
\<close>

section \<open>Machine integers\<close>

text \<open>
  \<open>src/src/include/types.h\<close> and \<open>src/src/include/kernel/types.h\<close>: \<open>unsigned\<close> and
  \<open>cblock_t\<close> are 32 bits wide, \<open>block_t\<close>, \<open>oblock_t\<close> and \<open>uint64_t\<close> are 64 bits wide.
\<close>

type_synonym u32 = "32 word"
type_synonym u64 = "64 word"
type_synonym cblock = "32 word"
type_synonym oblock = "64 word"

section \<open>Faults and results\<close>

text \<open>
  How a run of the program is stopped, or what makes its behaviour undefined:
  \<open>AssertFail\<close> is a failed \<open>LOG_ASSERT\<close> (it aborts), \<open>NullDeref\<close> the use of a null or
  poisoned pointer, \<open>DivByZero\<close> an integer division or remainder by zero,
  \<open>OutOfBounds\<close> a read or write outside an array, \<open>Corrupt\<close> the linking of a list node that
  is linked already (the C code does not notice it and destroys the list), \<open>BadShift\<close> a
  shift by at least the width of the operand, \<open>Fatal\<close> a \<open>LOG_FATAL\<close> (it aborts), \<open>Undefined\<close> the reading of a
  number that does not fit its type or of a variable that was never written, \<open>Endless\<close> a
  loop that never ends.
\<close>

datatype fault =
    AssertFail
  | NullDeref
  | DivByZero
  | OutOfBounds
  | Corrupt
  | BadShift
  | Fatal
  | Undefined
  | Endless

type_synonym 'a res = "fault + 'a"

fun rbind :: "'a res \<Rightarrow> ('a \<Rightarrow> 'b res) \<Rightarrow> 'b res" where
  "rbind (Inl f) k = Inl f"
| "rbind (Inr x) k = k x"

definition log_assert :: "bool \<Rightarrow> unit res" where
  "log_assert b = (if b then Inr () else Inl AssertFail)"

definition deref :: "'a option \<Rightarrow> 'a res" where
  "deref p = (case p of None \<Rightarrow> Inl NullDeref | Some x \<Rightarrow> Inr x)"

definition udiv :: "'w::len word \<Rightarrow> 'w word \<Rightarrow> 'w word res" where
  "udiv a b = (if b = 0 then Inl DivByZero else Inr (a div b))"

definition umod :: "'w::len word \<Rightarrow> 'w word \<Rightarrow> 'w word res" where
  "umod a b = (if b = 0 then Inl DivByZero else Inr (a mod b))"

text \<open>A loop is a partial function whose result is \<open>None\<close> if it never ends.\<close>

definition finished :: "'a res option \<Rightarrow> 'a res" where
  "finished m = (case m of None \<Rightarrow> Inl Endless | Some r \<Rightarrow> r)"

lemma finished_simps [simp]: "finished None = Inl Endless" "finished (Some r) = r"
  by (simp_all add: finished_def)

text \<open>
  \<open>succeeds m P\<close>: the operation \<open>m\<close> runs to its end without a fault and its result
  satisfies \<open>P\<close>. It is a total-correctness predicate: a faulting run never satisfies it.
\<close>

definition succeeds :: "'a res \<Rightarrow> ('a \<Rightarrow> bool) \<Rightarrow> bool" where
  "succeeds m P = (case m of Inl _ \<Rightarrow> False | Inr x \<Rightarrow> P x)"

named_theorems wp \<open>rewrite rules that push the success predicate through an operation\<close>

lemma succeeds_Inr [simp, wp]: "succeeds (Inr x) P \<longleftrightarrow> P x"
  by (simp add: succeeds_def)

lemma succeeds_Inl [simp, wp]: "\<not> succeeds (Inl f) P"
  by (simp add: succeeds_def)

lemma succeeds_rbind [wp]: "succeeds (rbind m k) P \<longleftrightarrow> succeeds m (\<lambda>x. succeeds (k x) P)"
  by (cases m) auto

lemma succeeds_if [wp]:
  "succeeds (if b then m else n) P \<longleftrightarrow> (if b then succeeds m P else succeeds n P)"
  by simp

lemma succeeds_log_assert [wp]: "succeeds (log_assert b) P \<longleftrightarrow> b \<and> P ()"
  by (simp add: log_assert_def)

lemma succeeds_deref [wp]: "succeeds (deref p) P \<longleftrightarrow> (\<exists>x. p = Some x \<and> P x)"
  by (cases p) (auto simp: deref_def)

lemma succeeds_udiv [wp]: "succeeds (udiv a b) P \<longleftrightarrow> b \<noteq> 0 \<and> P (a div b)"
  by (simp add: udiv_def)

lemma succeeds_umod [wp]: "succeeds (umod a b) P \<longleftrightarrow> b \<noteq> 0 \<and> P (a mod b)"
  by (simp add: umod_def)

lemma succeeds_mono: "succeeds m P \<Longrightarrow> (\<And>x. P x \<Longrightarrow> Q x) \<Longrightarrow> succeeds m Q"
  by (cases m) auto

lemma succeeds_conj: "succeeds m P \<Longrightarrow> succeeds m Q \<Longrightarrow> succeeds m (\<lambda>x. P x \<and> Q x)"
  by (cases m) auto

lemma succeeds_iff_Inr: "succeeds m P \<longleftrightarrow> (\<exists>x. m = Inr x \<and> P x)"
  by (cases m) auto

lemma succeedsI: "m = Inr x \<Longrightarrow> P x \<Longrightarrow> succeeds m P"
  by simp

lemma succeedsE: "succeeds m P \<Longrightarrow> (\<And>x. m = Inr x \<Longrightarrow> P x \<Longrightarrow> thesis) \<Longrightarrow> thesis"
  by (cases m) auto

lemma rbind_eq_Inr [simp]: "rbind m k = Inr y \<longleftrightarrow> (\<exists>x. m = Inr x \<and> k x = Inr y)"
  by (cases m) auto

lemma rbind_Inr_right [simp]: "rbind m Inr = m"
  by (cases m) auto

lemma rbind_cong [fundef_cong]:
  "m = m' \<Longrightarrow> (\<And>x. m' = Inr x \<Longrightarrow> k x = k' x) \<Longrightarrow> rbind m k = rbind m' k'"
  by (cases m') auto

lemma rbind_assoc: "rbind (rbind m f) g = rbind m (\<lambda>x. rbind (f x) g)"
  by (cases m) auto

section \<open>Lists\<close>

lemma remove1_notin [simp]: "distinct xs \<Longrightarrow> x \<notin> set (remove1 x xs)"
  by simp

lemma length_remove1_in: "x \<in> set xs \<Longrightarrow> length (remove1 x xs) = length xs - 1"
  by (simp add: length_remove1)

lemma remove1_split: "x \<notin> set ys \<Longrightarrow> remove1 x (ys @ x # zs) = ys @ zs"
  by (simp add: remove1_append)

lemma remove1_hd: "xs \<noteq> [] \<Longrightarrow> remove1 (hd xs) xs = tl xs"
  by (cases xs) auto

lemma of_nat_length_remove1:
  "x \<in> set xs \<Longrightarrow> (of_nat (length (remove1 x xs)) :: 'a::len word) = of_nat (length xs) - 1"
  by (induction xs) auto

lemma distinct_map_remove1:
  "distinct (map f xs) \<Longrightarrow> x \<in> set xs \<Longrightarrow> map f (remove1 x xs) = remove1 (f x) (map f xs)"
  by (induction xs) (auto simp: image_iff)

lemma find_SomeD: "find P xs = Some x \<Longrightarrow> x \<in> set xs \<and> P x"
  by (induction xs) (auto split: if_splits)

lemma find_key_iff:
  assumes "distinct (map f xs)"
  shows "find (\<lambda>x. f x = k) xs = Some x \<longleftrightarrow> x \<in> set xs \<and> f x = k"
  using assms by (induction xs) (auto simp: image_iff)

lemma find_key_None: "find (\<lambda>x. f x = k) xs = None \<longleftrightarrow> k \<notin> f ` set xs"
  by (auto simp: find_None_iff)

lemma find_cong: "(\<And>x. x \<in> set xs \<Longrightarrow> P x = Q x) \<Longrightarrow> find P xs = find Q xs"
  by (induction xs) auto

section \<open>Words\<close>

lemma unat_of_nat_small: "n < 2 ^ LENGTH('a) \<Longrightarrow> unat (of_nat n :: 'a::len word) = n"
  by (simp add: unat_of_nat)

lemma of_nat_eq_small:
  assumes "m < 2 ^ LENGTH('a)" "n < 2 ^ LENGTH('a)"
  shows "(of_nat m :: 'a::len word) = of_nat n \<longleftrightarrow> m = n"
  by (simp add: assms word_unat_eq_iff unat_of_nat)

lemma of_nat_eq_0_small:
  "n < 2 ^ LENGTH('a) \<Longrightarrow> (of_nat n :: 'a::len word) = 0 \<longleftrightarrow> n = 0"
  by (simp add: word_unat_eq_iff unat_of_nat)

lemma of_nat_less_small:
  assumes "m < 2 ^ LENGTH('a)" "n < 2 ^ LENGTH('a)"
  shows "(of_nat m :: 'a::len word) < of_nat n \<longleftrightarrow> m < n"
  by (simp add: assms word_less_nat_alt unat_of_nat)

lemma of_nat_pos_small:
  "n < 2 ^ LENGTH('a) \<Longrightarrow> (0 :: 'a::len word) < of_nat n \<longleftrightarrow> 0 < n"
  by (simp add: word_less_nat_alt unat_of_nat)

lemma unat_pow2: "k < LENGTH('a) \<Longrightarrow> unat (2 ^ k :: 'a::len word) = 2 ^ k"
  using unat_of_nat_small [of "2 ^ k", where 'a = 'a] by simp

lemma unat_less_exp: "unat (w :: 'a::len word) < 2 ^ LENGTH('a)"
  by (rule unsigned_less)

lemma ucast_of_nat_small:
  assumes "n < 2 ^ LENGTH('a)" "n < 2 ^ LENGTH('b)"
  shows "(ucast (of_nat n :: 'a::len word) :: 'b::len word) = of_nat n"
proof -
  have "(of_nat (unat (of_nat n :: 'a word)) :: 'b word) = of_nat n"
    using assms by (simp add: unat_of_nat)
  then show ?thesis by simp
qed

text \<open>The 32-bit \<open>max\<close> and \<open>min\<close> of \<open>src/src/include/kernel/common.h\<close>.\<close>

definition max_u :: "u32 \<Rightarrow> u32 \<Rightarrow> u32" where
  "max_u a b = (if a > b then a else b)"

definition min_u :: "u32 \<Rightarrow> u32 \<Rightarrow> u32" where
  "min_u a b = (if a > b then b else a)"

lemma max_u_eq: "max_u a b = max a b"
  by (auto simp: max_u_def max_def not_le)

lemma min_u_eq: "min_u a b = min a b"
  by (auto simp: min_u_def min_def not_le)

lemma unat_add_small:
  "unat a + unat b < 2 ^ LENGTH('a) \<Longrightarrow> unat (a + b :: 'a::len word) = unat a + unat b"
  by (rule unat_add_lem [THEN iffD1])

lemma unat_mult_small:
  "unat a * unat b < 2 ^ LENGTH('a) \<Longrightarrow> unat (a * b :: 'a::len word) = unat a * unat b"
  by (rule unat_mult_lem [THEN iffD1])

lemma unat_ucast_up:
  assumes "LENGTH('a) \<le> LENGTH('b)"
  shows "unat (ucast (w :: 'a::len word) :: 'b::len word) = unat w"
proof -
  have "unat w < 2 ^ LENGTH('b)"
    by (rule order_less_le_trans [OF unat_less_exp power_increasing [OF assms]]) simp
  then have "unat (of_nat (unat w) :: 'b word) = unat w" by (rule unat_of_nat_small)
  then show ?thesis by simp
qed

end
