(* ===== verification/Kernel_List.thy ===== *)
theory Kernel_List
  imports Prelude
begin

text \<open>
  The circular doubly linked lists of \<open>src/src/include/kernel/list.h\<close>, at the level of
  the pointers: a memory of \<open>struct list_head\<close> nodes with their \<open>next\<close> and \<open>prev\<close>
  fields, the operations of the header as the sequences of pointer writes they are, and the
  abstraction of a list head to the HOL list of the nodes that hang off it. A write through
  a null or poisoned pointer is the fault \<open>NullDeref\<close>.
\<close>

section \<open>Nodes, pointers and memory\<close>

text \<open>
  \<open>'a\<close> is the type of node addresses, list heads included. \<open>LIST_POISON1\<close> and
  \<open>LIST_POISON2\<close> are the non-null values that \<open>list_del\<close> leaves behind.
\<close>

datatype 'a lptr = Null | Poison1 | Poison2 | Ref 'a

record 'a list_mem =
  nxt :: "'a \<Rightarrow> 'a lptr"
  prv :: "'a \<Rightarrow> 'a lptr"

text \<open>The writes \<open>p->next = q\<close> and \<open>p->prev = q\<close> through a pointer \<open>p\<close>.\<close>

fun set_next :: "'a lptr \<Rightarrow> 'a lptr \<Rightarrow> ('a, 'm) list_mem_scheme \<Rightarrow> ('a, 'm) list_mem_scheme res" where
  "set_next (Ref p) q m = Inr (m\<lparr>nxt := (nxt m)(p := q)\<rparr>)"
| "set_next _ q m = Inl NullDeref"

fun set_prev :: "'a lptr \<Rightarrow> 'a lptr \<Rightarrow> ('a, 'm) list_mem_scheme \<Rightarrow> ('a, 'm) list_mem_scheme res" where
  "set_prev (Ref p) q m = Inr (m\<lparr>prv := (prv m)(p := q)\<rparr>)"
| "set_prev _ q m = Inl NullDeref"

section \<open>The operations of the header\<close>

definition INIT_LIST_HEAD :: "'a \<Rightarrow> ('a, 'm) list_mem_scheme \<Rightarrow> ('a, 'm) list_mem_scheme" where
  "INIT_LIST_HEAD l m = m\<lparr>nxt := (nxt m)(l := Ref l), prv := (prv m)(l := Ref l)\<rparr>"

definition list_add_between ::
  "'a \<Rightarrow> 'a lptr \<Rightarrow> 'a lptr \<Rightarrow> ('a, 'm) list_mem_scheme \<Rightarrow> ('a, 'm) list_mem_scheme res" where
  "list_add_between new prev next m =
     rbind (set_prev next (Ref new) m) (\<lambda>m.
     rbind (set_next (Ref new) next m) (\<lambda>m.
     rbind (set_prev (Ref new) prev m) (\<lambda>m.
     set_next prev (Ref new) m)))"

definition list_add :: "'a \<Rightarrow> 'a \<Rightarrow> ('a, 'm) list_mem_scheme \<Rightarrow> ('a, 'm) list_mem_scheme res" where
  "list_add new head m = list_add_between new (Ref head) (nxt m head) m"

definition list_add_tail :: "'a \<Rightarrow> 'a \<Rightarrow> ('a, 'm) list_mem_scheme \<Rightarrow> ('a, 'm) list_mem_scheme res" where
  "list_add_tail new head m = list_add_between new (prv m head) (Ref head) m"

definition list_del_between ::
  "'a lptr \<Rightarrow> 'a lptr \<Rightarrow> ('a, 'm) list_mem_scheme \<Rightarrow> ('a, 'm) list_mem_scheme res" where
  "list_del_between prev next m =
     rbind (set_prev next prev m) (\<lambda>m. set_next prev next m)"

definition list_del :: "'a \<Rightarrow> ('a, 'm) list_mem_scheme \<Rightarrow> ('a, 'm) list_mem_scheme res" where
  "list_del entry m =
     rbind (list_del_between (prv m entry) (nxt m entry) m) (\<lambda>m.
     rbind (set_next (Ref entry) Poison1 m) (\<lambda>m.
     set_prev (Ref entry) Poison2 m))"

definition list_del_init :: "'a \<Rightarrow> ('a, 'm) list_mem_scheme \<Rightarrow> ('a, 'm) list_mem_scheme res" where
  "list_del_init entry m =
     rbind (list_del_between (prv m entry) (nxt m entry) m) (\<lambda>m.
     Inr (INIT_LIST_HEAD entry m))"

definition list_move :: "'a \<Rightarrow> 'a \<Rightarrow> ('a, 'm) list_mem_scheme \<Rightarrow> ('a, 'm) list_mem_scheme res" where
  "list_move l head m =
     rbind (list_del_between (prv m l) (nxt m l) m) (\<lambda>m. list_add l head m)"

definition list_move_tail :: "'a \<Rightarrow> 'a \<Rightarrow> ('a, 'm) list_mem_scheme \<Rightarrow> ('a, 'm) list_mem_scheme res" where
  "list_move_tail l head m =
     rbind (list_del_between (prv m l) (nxt m l) m) (\<lambda>m. list_add_tail l head m)"

definition list_is_last :: "'a \<Rightarrow> 'a \<Rightarrow> ('a, 'm) list_mem_scheme \<Rightarrow> bool" where
  "list_is_last l head m = (nxt m l = Ref head)"

definition list_empty :: "'a \<Rightarrow> ('a, 'm) list_mem_scheme \<Rightarrow> bool" where
  "list_empty head m = (nxt m head = Ref head)"

text \<open>\<open>list_first_entry_or_null\<close>, up to the constant offset of \<open>container_of\<close>.\<close>

definition list_first_entry_or_null :: "'a \<Rightarrow> ('a, 'm) list_mem_scheme \<Rightarrow> 'a lptr" where
  "list_first_entry_or_null head m = (if list_empty head m then Null else nxt m head)"

definition list_is_singular :: "'a \<Rightarrow> ('a, 'm) list_mem_scheme \<Rightarrow> bool" where
  "list_is_singular head m = (\<not> list_empty head m \<and> nxt m head = prv m head)"

definition list_rotate_left :: "'a \<Rightarrow> ('a, 'm) list_mem_scheme \<Rightarrow> ('a, 'm) list_mem_scheme res" where
  "list_rotate_left head m =
     (if list_empty head m then Inr m
      else case nxt m head of
             Ref first \<Rightarrow> list_move_tail first head m
           | _ \<Rightarrow> Inl NullDeref)"

definition list_replace :: "'a \<Rightarrow> 'a \<Rightarrow> ('a, 'm) list_mem_scheme \<Rightarrow> ('a, 'm) list_mem_scheme res" where
  "list_replace old new m =
     rbind (set_next (Ref new) (nxt m old) m) (\<lambda>m.
     rbind (set_prev (nxt m new) (Ref new) m) (\<lambda>m.
     rbind (set_prev (Ref new) (prv m old) m) (\<lambda>m.
     set_next (prv m new) (Ref new) m)))"

section \<open>Paths and rings\<close>

text \<open>
  \<open>path m a xs b\<close>: following \<open>next\<close> from \<open>a\<close> visits exactly \<open>xs\<close> and then reaches
  \<open>b\<close>, and every \<open>prev\<close> on the way points back. \<open>ring m h xs\<close>: the circular list with
  head \<open>h\<close> holds the nodes \<open>xs\<close>, in this order and without repetition.
\<close>

fun path :: "('a, 'm) list_mem_scheme \<Rightarrow> 'a \<Rightarrow> 'a list \<Rightarrow> 'a \<Rightarrow> bool" where
  "path m a [] b \<longleftrightarrow> nxt m a = Ref b \<and> prv m b = Ref a"
| "path m a (x # xs) b \<longleftrightarrow> nxt m a = Ref x \<and> prv m x = Ref a \<and> path m x xs b"

definition ring :: "('a, 'm) list_mem_scheme \<Rightarrow> 'a \<Rightarrow> 'a list \<Rightarrow> bool" where
  "ring m h xs \<longleftrightarrow> path m h xs h \<and> distinct (h # xs)"

lemma path_append: "path m a (xs @ y # ys) b \<longleftrightarrow> path m a xs y \<and> path m y ys b"
  by (induction xs arbitrary: a) auto

lemma path_last_prv: "path m a xs b \<Longrightarrow> prv m b = Ref (last (a # xs))"
  by (induction xs arbitrary: a) auto

lemma path_first_nxt: "path m a xs b \<Longrightarrow> nxt m a = Ref (hd (xs @ [b]))"
  by (cases xs) auto

text \<open>A path only reads \<open>next\<close> of its start and nodes and \<open>prev\<close> of its nodes and end.\<close>

lemma path_frame:
  assumes "path m a xs b"
    and "\<And>x. x \<in> insert a (set xs) \<Longrightarrow> nxt m' x = nxt m x"
    and "\<And>x. x \<in> insert b (set xs) \<Longrightarrow> prv m' x = prv m x"
  shows "path m' a xs b"
  using assms by (induction xs arbitrary: a) auto

lemma ring_frame:
  assumes "ring m h xs"
    and "\<And>x. x \<in> insert h (set xs) \<Longrightarrow> nxt m' x = nxt m x \<and> prv m' x = prv m x"
  shows "ring m' h xs"
  using assms unfolding ring_def by (auto intro!: path_frame [of m h xs h m'])

lemma ring_unique:
  assumes "ring m h xs" "ring m h ys"
  shows "xs = ys"
proof -
  have "path m a xs b \<Longrightarrow> path m a ys b \<Longrightarrow> b \<notin> set xs \<Longrightarrow> b \<notin> set ys \<Longrightarrow> xs = ys" for a b
  proof (induction xs arbitrary: a ys)
    case Nil
    then show ?case by (cases ys) auto
  next
    case (Cons x xs)
    then show ?case by (cases ys) auto
  qed
  then show ?thesis using assms by (auto simp: ring_def)
qed

lemma ring_empty_iff: "ring m h xs \<Longrightarrow> list_empty h m \<longleftrightarrow> xs = []"
  by (cases xs) (auto simp: ring_def list_empty_def)

lemma ring_first: "ring m h xs \<Longrightarrow>
  list_first_entry_or_null h m = (case xs of [] \<Rightarrow> Null | x # _ \<Rightarrow> Ref x)"
  by (cases xs) (auto simp: ring_def list_empty_def list_first_entry_or_null_def)

lemma ring_singular_iff: "ring m h xs \<Longrightarrow> list_is_singular h m \<longleftrightarrow> (\<exists>x. xs = [x])"
proof -
  assume r: "ring m h xs"
  have "prv m h = Ref (last (h # xs))" "nxt m h = Ref (hd (xs @ [h]))" "distinct (h # xs)"
    using r path_last_prv path_first_nxt unfolding ring_def by fast+
  then show ?thesis using ring_empty_iff [OF r]
    by (cases xs rule: list.exhaust; cases "tl xs" rule: rev_cases)
       (auto simp: list_is_singular_def)
qed

section \<open>What the operations do to rings\<close>

lemma INIT_LIST_HEAD_ring: "ring (INIT_LIST_HEAD l m) l []"
  by (simp add: INIT_LIST_HEAD_def ring_def)

lemma list_add_between_eq:
  "list_add_between new (Ref p) (Ref n) m =
     Inr (m\<lparr>nxt := (nxt m)(new := Ref n, p := Ref new),
            prv := (prv m)(n := Ref new, new := Ref p)\<rparr>)"
  by (simp add: list_add_between_def)

lemma list_del_between_eq:
  "list_del_between (Ref p) (Ref n) m =
     Inr (m\<lparr>nxt := (nxt m)(p := Ref n), prv := (prv m)(n := Ref p)\<rparr>)"
  by (simp add: list_del_between_def)

text \<open>
  A ring cut at two neighbours \<open>p\<close> and \<open>n\<close>: the path from the head to \<open>p\<close>, the
  link, and the path from \<open>n\<close> back to the head.
\<close>

lemma ring_cut:
  assumes "ring m h (xs @ ys)" "p = last (h # xs)" "n = hd (ys @ [h])"
  shows "path m h xs n" "nxt m p = Ref n" "prv m n = Ref p"
proof -
  have pth: "path m h (xs @ ys) h" using assms(1) by (simp add: ring_def)
  show "path m h xs n"
    using pth assms(3) by (cases ys) (auto simp: path_append)
  then show "prv m n = Ref p" using path_last_prv assms(2) by fast
  show "nxt m p = Ref n"
    using pth assms(2,3) by (cases xs rule: rev_cases; cases ys) (auto simp: path_append)
qed

lemma list_add_between_ring:
  assumes r: "ring m h (xs @ ys)" and p: "p = last (h # xs)" and n: "n = hd (ys @ [h])"
    and new: "new \<notin> insert h (set (xs @ ys))"
  shows "ring (m\<lparr>nxt := (nxt m)(new := Ref n, p := Ref new),
                prv := (prv m)(n := Ref new, new := Ref p)\<rparr>) h (xs @ new # ys)"
    (is "ring ?m h _")
proof -
  have d: "distinct (h # xs @ ys)" using r by (simp add: ring_def)
  have left: "path ?m h xs new"
  proof (cases xs rule: rev_cases)
    case Nil
    then show ?thesis using p new by simp
  next
    case (snoc xs' x)
    then have "path m h xs' p" using r p by (auto simp: ring_def path_append)
    then have "path ?m h xs' p"
      by (rule path_frame) (use snoc p n d new in \<open>cases ys; auto\<close>)+
    then show ?thesis using snoc p by (simp add: path_append)
  qed
  have right: "path ?m new ys h"
  proof (cases ys)
    case Nil
    then show ?thesis using n new p by (cases xs rule: rev_cases) auto
  next
    case (Cons y ys')
    then have "path m n ys' h" using r n by (auto simp: ring_def path_append)
    then have "path ?m n ys' h"
      by (rule path_frame) (use Cons p n d new in \<open>cases xs rule: rev_cases; auto\<close>)+
    then show ?thesis using Cons n p new d by (cases xs rule: rev_cases) auto
  qed
  show ?thesis using left right d new by (auto simp: ring_def path_append)
qed

lemma list_del_between_ring:
  assumes r: "ring m h (xs @ x # ys)" and p: "p = last (h # xs)" and n: "n = hd (ys @ [h])"
  shows "ring (m\<lparr>nxt := (nxt m)(p := Ref n), prv := (prv m)(n := Ref p)\<rparr>) h (xs @ ys)"
    (is "ring ?m h _")
proof -
  have d: "distinct (h # xs @ x # ys)" using r by (simp add: ring_def)
  have left: "path ?m h xs n"
  proof (cases xs rule: rev_cases)
    case Nil
    then show ?thesis using p by simp
  next
    case (snoc xs' z)
    then have "path m h xs' p" using r p by (auto simp: ring_def path_append)
    then have "path ?m h xs' p"
      by (rule path_frame) (use snoc p n d in \<open>cases ys; auto\<close>)+
    then show ?thesis using snoc p by (simp add: path_append)
  qed
  show ?thesis
  proof (cases ys)
    case Nil
    then show ?thesis using left n d by (simp add: ring_def)
  next
    case (Cons y ys')
    then have "path m n ys' h" using r n by (auto simp: ring_def path_append)
    then have "path ?m n ys' h"
      by (rule path_frame) (use Cons p n d in \<open>cases xs rule: rev_cases; auto\<close>)+
    then show ?thesis using left Cons n d by (auto simp: ring_def path_append)
  qed
qed

text \<open>Nodes that an operation touches: everything else keeps its pointers.\<close>

definition untouched :: "'a set \<Rightarrow> ('a, 'm) list_mem_scheme \<Rightarrow> ('a, 'm) list_mem_scheme \<Rightarrow> bool" where
  "untouched A m m' \<longleftrightarrow>
     (\<forall>x. x \<notin> A \<longrightarrow> nxt m' x = nxt m x \<and> prv m' x = prv m x) \<and>
     list_mem.more m' = list_mem.more m"

lemma untouched_ring:
  assumes "untouched A m m'" "ring m h xs" "insert h (set xs) \<inter> A = {}"
  shows "ring m' h xs"
  using assms(2) by (rule ring_frame) (use assms(1,3) in \<open>auto simp: untouched_def\<close>)

lemma ring_last_in: "last (h # xs) \<in> insert h (set xs)"
  by (cases xs rule: rev_cases) auto

lemma ring_hd_in: "hd (ys @ [h]) \<in> insert h (set ys)"
  by (cases ys) auto

theorem list_add_ring:
  assumes "ring m h xs" "new \<notin> insert h (set xs)"
  shows "succeeds (list_add new h m)
           (\<lambda>m'. ring m' h (new # xs) \<and> untouched (insert new (insert h (set xs))) m m')"
proof -
  let ?n = "hd (xs @ [h])"
  have "nxt m h = Ref ?n" using assms(1) path_first_nxt unfolding ring_def by fast
  moreover have "ring (m\<lparr>nxt := (nxt m)(new := Ref ?n, h := Ref new),
                        prv := (prv m)(?n := Ref new, new := Ref h)\<rparr>) h ([] @ new # xs)"
    by (rule list_add_between_ring) (use assms in auto)
  ultimately show ?thesis
    using ring_hd_in [of xs h] by (auto simp: list_add_def list_add_between_eq untouched_def)
qed

theorem list_add_tail_ring:
  assumes "ring m h xs" "new \<notin> insert h (set xs)"
  shows "succeeds (list_add_tail new h m)
           (\<lambda>m'. ring m' h (xs @ [new]) \<and> untouched (insert new (insert h (set xs))) m m')"
proof -
  let ?p = "last (h # xs)"
  have "prv m h = Ref ?p" using assms(1) path_last_prv unfolding ring_def by fast
  moreover have "ring (m\<lparr>nxt := (nxt m)(new := Ref h, ?p := Ref new),
                        prv := (prv m)(h := Ref new, new := Ref ?p)\<rparr>) h (xs @ new # [])"
    by (rule list_add_between_ring) (use assms in auto)
  ultimately show ?thesis
    using ring_last_in [of h xs] by (auto simp: list_add_tail_def list_add_between_eq untouched_def)
qed

text \<open>The common part of the deleting operations.\<close>

lemma list_unlink_ring:
  assumes r: "ring m h xs" and x: "x \<in> set xs"
  shows "succeeds (list_del_between (prv m x) (nxt m x) m)
           (\<lambda>m'. ring m' h (remove1 x xs) \<and> untouched (insert h (set (remove1 x xs))) m m')"
proof -
  obtain ys zs where xs: "xs = ys @ x # zs" using x by (auto simp: in_set_conv_decomp)
  have d: "distinct (h # ys @ x # zs)" using r xs by (simp add: ring_def)
  have rm: "remove1 x xs = ys @ zs" using d xs by (simp add: remove1_append)
  obtain p where p: "p = last (h # ys)" by blast
  obtain n where n: "n = hd (zs @ [h])" by blast
  have "prv m x = Ref p" using r xs p path_last_prv by (fastforce simp: ring_def path_append)
  moreover have "nxt m x = Ref n"
    using r xs n path_first_nxt by (fastforce simp: ring_def path_append)
  moreover have "ring (m\<lparr>nxt := (nxt m)(p := Ref n), prv := (prv m)(n := Ref p)\<rparr>) h (ys @ zs)"
    by (rule list_del_between_ring) (use r xs p n in auto)
  moreover have "p \<in> insert h (set (ys @ zs))" "n \<in> insert h (set (ys @ zs))"
    using ring_last_in [of h ys] ring_hd_in [of zs h] p n by auto
  ultimately show ?thesis
    unfolding rm by (auto simp: list_del_between_eq untouched_def)
qed

theorem list_del_ring:
  assumes r: "ring m h xs" and x: "x \<in> set xs"
  shows "succeeds (list_del x m)
           (\<lambda>m'. ring m' h (remove1 x xs) \<and> nxt m' x = Poison1 \<and> prv m' x = Poison2 \<and>
                 untouched (insert h (set xs)) m m')"
proof -
  have nin: "x \<notin> insert h (set (remove1 x xs))" using r x by (auto simp: ring_def)
  have sub: "set (remove1 x xs) \<subseteq> set xs" by (rule set_remove1_subset)
  show ?thesis
    unfolding list_del_def succeeds_rbind
  proof (rule succeeds_mono [OF list_unlink_ring [OF assms]], elim conjE)
    fix m1
    assume r1: "ring m1 h (remove1 x xs)" and u1: "untouched (insert h (set (remove1 x xs))) m m1"
    have "ring (m1\<lparr>nxt := (nxt m1)(x := Poison1), prv := (prv m1)(x := Poison2)\<rparr>) h (remove1 x xs)"
      using r1 by (rule ring_frame) (use nin in auto)
    then show "succeeds (set_next (Ref x) Poison1 m1) (\<lambda>y. succeeds (set_prev (Ref x) Poison2 y)
        (\<lambda>m'. ring m' h (remove1 x xs) \<and> nxt m' x = Poison1 \<and> prv m' x = Poison2 \<and>
              untouched (insert h (set xs)) m m'))"
      using u1 x sub by (auto simp: untouched_def)
  qed
qed

theorem list_del_init_ring:
  assumes r: "ring m h xs" and x: "x \<in> set xs"
  shows "succeeds (list_del_init x m)
           (\<lambda>m'. ring m' h (remove1 x xs) \<and> ring m' x [] \<and> untouched (insert h (set xs)) m m')"
proof -
  have nin: "x \<notin> insert h (set (remove1 x xs))" using r x by (auto simp: ring_def)
  have sub: "set (remove1 x xs) \<subseteq> set xs" by (rule set_remove1_subset)
  show ?thesis
    unfolding list_del_init_def succeeds_rbind
  proof (rule succeeds_mono [OF list_unlink_ring [OF assms]], elim conjE)
    fix m1
    assume r1: "ring m1 h (remove1 x xs)" and u1: "untouched (insert h (set (remove1 x xs))) m m1"
    have "ring (INIT_LIST_HEAD x m1) h (remove1 x xs)"
      using r1 by (rule ring_frame) (use nin in \<open>auto simp: INIT_LIST_HEAD_def\<close>)
    then show "succeeds (Inr (INIT_LIST_HEAD x m1))
        (\<lambda>m'. ring m' h (remove1 x xs) \<and> ring m' x [] \<and> untouched (insert h (set xs)) m m')"
      using u1 x sub INIT_LIST_HEAD_ring [of x m1]
      by (auto simp: untouched_def INIT_LIST_HEAD_def)
  qed
qed

text \<open>Deleting a node that is its own ring, as \<open>list_pop\<close> followed by an allocation does,
  changes nothing.\<close>

lemma list_del_init_singleton:
  "ring m x [] \<Longrightarrow> list_del_init x m = Inr m"
  by (simp add: ring_def list_del_init_def list_del_between_def INIT_LIST_HEAD_def
      fun_upd_idem)

theorem list_move_tail_ring:
  assumes r: "ring m h xs" and x: "x \<in> set xs"
  shows "succeeds (list_move_tail x h m)
           (\<lambda>m'. ring m' h (remove1 x xs @ [x]) \<and> untouched (insert h (set xs)) m m')"
proof -
  have nin: "x \<notin> insert h (set (remove1 x xs))" using r x by (auto simp: ring_def)
  have sub: "set (remove1 x xs) \<subseteq> set xs" by (rule set_remove1_subset)
  show ?thesis
    unfolding list_move_tail_def succeeds_rbind
  proof (rule succeeds_mono [OF list_unlink_ring [OF assms]], elim conjE)
    fix m1
    assume r1: "ring m1 h (remove1 x xs)" and u1: "untouched (insert h (set (remove1 x xs))) m m1"
    show "succeeds (list_add_tail x h m1)
        (\<lambda>m'. ring m' h (remove1 x xs @ [x]) \<and> untouched (insert h (set xs)) m m')"
      by (rule succeeds_mono [OF list_add_tail_ring [OF r1 nin]])
         (use u1 x sub in \<open>auto simp: untouched_def\<close>)
  qed
qed

theorem list_rotate_left_ring:
  assumes r: "ring m h xs"
  shows "succeeds (list_rotate_left h m) (\<lambda>m'. ring m' h (rotate1 xs))"
proof (cases xs)
  case Nil
  then show ?thesis using r ring_empty_iff [OF r] by (simp add: list_rotate_left_def)
next
  case (Cons x ys)
  then have "nxt m h = Ref x" using r by (simp add: ring_def)
  then show ?thesis
    using Cons ring_empty_iff [OF r] succeeds_mono [OF list_move_tail_ring [OF r, of x]]
    by (auto simp: list_rotate_left_def)
qed

end
