(* ===== verification/Queue.thy ===== *)
theory Queue
  imports Kernel_List
begin

text \<open>
  The FIFO queues of \<open>src/src/include/tools/queue.h\<close>: a \<open>struct queue\<close> is a ring head
  with a 32-bit length, a \<open>struct queue_head\<close> is a ring node with a pointer to the queue it
  is in. First the operations as the header writes them, over the memory of
  \<open>Kernel_List\<close>; then the relation \<open>queues\<close> between such a memory and a function from
  queues to the HOL lists of their items; then the list-level queue operations that the
  cache policies of this development use, and the theorems that the pointer-level
  operations implement them.
\<close>

section \<open>The operations of the header\<close>

text \<open>
  Queues and queue heads live in one address space \<open>'a\<close>. \<open>qlen q\<close> is \<open>q->len\<close>,
  \<open>parent_queue x\<close> is \<open>x->parent_queue\<close> (\<open>None\<close> for \<open>NULL\<close>).
\<close>

record 'a queue_mem = "'a list_mem" +
  qlen :: "'a \<Rightarrow> u32"
  parent_queue :: "'a \<Rightarrow> 'a option"

definition queue_init :: "'a \<Rightarrow> 'a queue_mem \<Rightarrow> 'a queue_mem" where
  "queue_init q m = (INIT_LIST_HEAD q m)\<lparr>qlen := (qlen m)(q := 0)\<rparr>"

definition queue_head_init :: "'a \<Rightarrow> 'a queue_mem \<Rightarrow> 'a queue_mem" where
  "queue_head_init x m = (INIT_LIST_HEAD x m)\<lparr>parent_queue := (parent_queue m)(x := None)\<rparr>"

definition queue_empty :: "'a \<Rightarrow> 'a queue_mem \<Rightarrow> bool" where
  "queue_empty q m = list_empty q m"

definition queue_push :: "'a \<Rightarrow> 'a \<Rightarrow> 'a queue_mem \<Rightarrow> 'a queue_mem res" where
  "queue_push q x m =
     (let m = m\<lparr>parent_queue := (parent_queue m)(x := Some q)\<rparr> in
      rbind (list_add_tail x q m) (\<lambda>m.
      Inr (m\<lparr>qlen := (qlen m)(q := qlen m q + 1)\<rparr>)))"

definition queue_remove :: "'a \<Rightarrow> 'a queue_mem \<Rightarrow> 'a queue_mem res" where
  "queue_remove x m =
     (case parent_queue m x of
        None \<Rightarrow> Inr m
      | Some q \<Rightarrow>
          rbind (list_del x m) (\<lambda>m.
          Inr (m\<lparr>qlen := (qlen m)(q := qlen m q - 1),
                 parent_queue := (parent_queue m)(x := None)\<rparr>)))"

text \<open>
  \<open>queue_swap\<close> uses two place holders on the stack, whose addresses \<open>t_old\<close> and
  \<open>t_new\<close> are arguments here.
\<close>

definition queue_swap :: "'a \<Rightarrow> 'a \<Rightarrow> 'a \<Rightarrow> 'a \<Rightarrow> 'a queue_mem \<Rightarrow> 'a queue_mem res" where
  "queue_swap t_old t_new item_old item_new m =
     (let old_queue = parent_queue m item_old;
          new_queue = parent_queue m item_new in
      rbind (list_add t_old item_old m) (\<lambda>m.
      rbind (list_add t_new item_new m) (\<lambda>m.
      rbind (list_del item_old m) (\<lambda>m.
      rbind (list_del item_new m) (\<lambda>m.
      rbind (list_add item_new t_old m) (\<lambda>m.
      rbind (list_add item_old t_new m) (\<lambda>m.
      rbind (list_del t_old m) (\<lambda>m.
      rbind (list_del t_new m) (\<lambda>m.
      Inr (m\<lparr>parent_queue :=
               (parent_queue m)(item_old := new_queue, item_new := old_queue)\<rparr>))))))))))"

definition queue_peek :: "'a \<Rightarrow> 'a queue_mem \<Rightarrow> 'a lptr" where
  "queue_peek q m = list_first_entry_or_null q m"

definition queue_pop :: "'a \<Rightarrow> 'a queue_mem \<Rightarrow> ('a lptr \<times> 'a queue_mem) res" where
  "queue_pop q m =
     (let item = queue_peek q m in
      case item of
        Null \<Rightarrow> Inr (item, m)
      | Ref x \<Rightarrow> rbind (queue_remove x m) (\<lambda>m. Inr (item, m))
      | _ \<Rightarrow> Inl NullDeref)"

definition queue_length :: "'a \<Rightarrow> 'a queue_mem \<Rightarrow> u32" where
  "queue_length q m = qlen m q"

definition in_queue :: "'a \<Rightarrow> 'a \<Rightarrow> 'a queue_mem \<Rightarrow> bool" where
  "in_queue q x m = (parent_queue m x = Some q)"

section \<open>Queues as lists\<close>

text \<open>
  \<open>queues m Q f\<close>: the queues at the addresses \<open>Q\<close> hold the item lists \<open>f\<close>. Every
  queue is a ring whose length field agrees with the list, no node is in two places, and a
  node points to its queue exactly when it is in its list.
\<close>

definition queues :: "'a queue_mem \<Rightarrow> 'a set \<Rightarrow> ('a \<Rightarrow> 'a list) \<Rightarrow> bool" where
  "queues m Q f \<longleftrightarrow>
     (\<forall>q\<in>Q. ring m q (f q) \<and> qlen m q = of_nat (length (f q)) \<and> set (f q) \<inter> Q = {}) \<and>
     (\<forall>q\<in>Q. \<forall>r\<in>Q. q \<noteq> r \<longrightarrow> set (f q) \<inter> set (f r) = {}) \<and>
     (\<forall>x q. parent_queue m x = Some q \<longleftrightarrow> q \<in> Q \<and> x \<in> set (f q))"

text \<open>
  The operations the policies use on the lists themselves. \<open>others\<close> are the further
  queues the same \<open>queue_head\<close> field could be linked into. Pushing a node that is linked
  already is the fault \<open>Corrupt\<close>: the header links it a second time and loses the ring.
\<close>

definition q_push :: "'a list list \<Rightarrow> 'a list \<Rightarrow> 'a \<Rightarrow> 'a list res" where
  "q_push others q x =
     (if x \<in> set (concat others) \<or> x \<in> set q then Inl Corrupt else Inr (q @ [x]))"

definition q_remove :: "'a \<Rightarrow> 'a list \<Rightarrow> 'a list" where
  "q_remove x q = remove1 x q"

definition q_peek :: "'a list \<Rightarrow> 'a option" where
  "q_peek q = (case q of [] \<Rightarrow> None | x # _ \<Rightarrow> Some x)"

definition q_length :: "'a list \<Rightarrow> u32" where
  "q_length q = of_nat (length q)"

lemma q_peek_simps [simp]: "q_peek [] = None" "q_peek (x # xs) = Some x"
  by (simp_all add: q_peek_def)

lemma q_peek_None [simp]: "q_peek q = None \<longleftrightarrow> q = []"
  by (simp add: q_peek_def split: list.splits)

lemma q_peek_Some: "q_peek q = Some x \<longleftrightarrow> q \<noteq> [] \<and> x = hd q"
  by (cases q) auto

lemma succeeds_q_push [wp]:
  "succeeds (q_push others q x) P \<longleftrightarrow> x \<notin> set (concat others) \<and> x \<notin> set q \<and> P (q @ [x])"
  by (simp add: q_push_def)

lemma set_q_remove: "distinct q \<Longrightarrow> set (q_remove x q) = set q - {x}"
  by (simp add: q_remove_def)

lemma distinct_q_remove: "distinct q \<Longrightarrow> distinct (q_remove x q)"
  by (simp add: q_remove_def)

section \<open>The header implements the lists\<close>

text \<open>Field updates outside the list nodes do not change rings.\<close>

lemma ring_more [simp]:
  "ring (m\<lparr>qlen := l\<rparr>) h xs = ring m h xs"
  "ring (m\<lparr>parent_queue := g\<rparr>) h xs = ring m h xs"
proof -
  have "ring (m\<lparr>qlen := l\<rparr>) h xs \<Longrightarrow> ring m h xs" "ring m h xs \<Longrightarrow> ring (m\<lparr>qlen := l\<rparr>) h xs"
    by (erule ring_frame, simp)+
  then show "ring (m\<lparr>qlen := l\<rparr>) h xs = ring m h xs" by blast
  have "ring (m\<lparr>parent_queue := g\<rparr>) h xs \<Longrightarrow> ring m h xs"
    "ring m h xs \<Longrightarrow> ring (m\<lparr>parent_queue := g\<rparr>) h xs"
    by (erule ring_frame, simp)+
  then show "ring (m\<lparr>parent_queue := g\<rparr>) h xs = ring m h xs" by blast
qed

lemma untouched_fields:
  assumes "untouched A (m :: 'a queue_mem) m'"
  shows "qlen m' = qlen m" "parent_queue m' = parent_queue m"
  using assms by (cases m; cases m'; simp add: untouched_def)+

lemma queues_ring: "queues m Q f \<Longrightarrow> q \<in> Q \<Longrightarrow> ring m q (f q)"
  by (simp add: queues_def)

lemma queues_distinct: "queues m Q f \<Longrightarrow> q \<in> Q \<Longrightarrow> distinct (f q)"
  using queues_ring by (fastforce simp: ring_def)

lemma queues_inj: "queues m Q f \<Longrightarrow> p \<in> Q \<Longrightarrow> q \<in> Q \<Longrightarrow> y \<in> set (f p) \<Longrightarrow> y \<in> set (f q) \<Longrightarrow> p = q"
  unfolding queues_def by (metis option.inject)

lemma queues_item_out: "queues m Q f \<Longrightarrow> q \<in> Q \<Longrightarrow> y \<in> set (f q) \<Longrightarrow> y \<notin> Q"
  unfolding queues_def by blast

lemma queues_len: "queues m Q f \<Longrightarrow> q \<in> Q \<Longrightarrow> qlen m q = of_nat (length (f q))"
  unfolding queues_def by blast

lemma queues_parent: "queues m Q f \<Longrightarrow> parent_queue m y = Some q \<longleftrightarrow> q \<in> Q \<and> y \<in> set (f q)"
  unfolding queues_def by blast

lemma queues_cong:
  assumes "\<And>q. q \<in> Q \<Longrightarrow> f q = g q"
  shows "queues m Q f \<longleftrightarrow> queues m Q g"
proof -
  have "(q \<in> Q \<and> x \<in> set (f q)) \<longleftrightarrow> (q \<in> Q \<and> x \<in> set (g q))" for x q
    using assms by auto
  then show ?thesis using assms by (simp add: queues_def)
qed

text \<open>A queue that is initialised at a fresh address joins the others empty.\<close>

theorem queue_init_list:
  assumes qs: "queues m Q f" and q: "q \<notin> Q" "\<forall>r\<in>Q. q \<notin> set (f r)"
  shows "queues (queue_init q m) (insert q Q) (f(q := []))"
proof -
  have r: "ring (queue_init q m) p (f p)" if "p \<in> Q" for p
    using queues_ring [OF qs that] by (rule ring_frame)
      (use q that in \<open>auto simp: queue_init_def INIT_LIST_HEAD_def\<close>)
  have "ring (queue_init q m) q []" by (simp add: queue_init_def INIT_LIST_HEAD_ring)
  then show ?thesis
    using q r qs unfolding queues_def
    by (auto simp: queue_init_def INIT_LIST_HEAD_def)
qed

text \<open>Replacing the items of one queue, with the other queues left as they are.\<close>

lemma queues_updI:
  assumes qs: "queues m Q f" and q: "q \<in> Q"
    and r: "ring m' q ys" and rs: "\<And>p. p \<in> Q \<Longrightarrow> p \<noteq> q \<Longrightarrow> ring m' p (f p)"
    and len: "qlen m' = (qlen m)(q := of_nat (length ys))"
    and par: "\<And>y. parent_queue m' y =
      (if y \<in> set ys then Some q else if parent_queue m y = Some q then None else parent_queue m y)"
    and disj: "set ys \<inter> Q = {}" "\<And>p. p \<in> Q \<Longrightarrow> p \<noteq> q \<Longrightarrow> set ys \<inter> set (f p) = {}"
  shows "queues m' Q (f(q := ys))"
proof -
  have parents: "parent_queue m' y = Some p \<longleftrightarrow> p \<in> Q \<and> y \<in> set ((f(q := ys)) p)" for y p
    using q disj(2) [of p] queues_inj [OF qs, of p q y] by (auto simp: par queues_parent [OF qs])
  have lens: "qlen m' p = of_nat (length ((f(q := ys)) p))" if "p \<in> Q" for p
    using queues_len [OF qs that] by (simp add: len)
  have ints: "set ((f(q := ys)) p) \<inter> set ((f(q := ys)) p') = {}"
    if "p \<in> Q" "p' \<in> Q" "p \<noteq> p'" for p p'
    using that disj(2) [of p] disj(2) [of p'] queues_inj [OF qs that(1,2)]
    by (cases "p = q"; cases "p' = q") auto
  have outs: "set ((f(q := ys)) p) \<inter> Q = {}" if "p \<in> Q" for p
    using queues_item_out [OF qs that] disj(1) by auto
  have rings: "ring m' p ((f(q := ys)) p)" if "p \<in> Q" for p
    using r rs [OF that] by simp
  show ?thesis
    unfolding queues_def using parents lens ints outs rings by blast
qed

lemma queues_other_ring:
  assumes qs: "queues m Q f" and "q \<in> Q" "p \<in> Q" "p \<noteq> q"
    and "untouched A m1 m2" "A \<subseteq> insert x (insert q (set (f q)))" "x \<notin> insert p (set (f p))"
    and "ring m1 p (f p)"
  shows "ring m2 p (f p)"
proof -
  have "insert p (set (f p)) \<inter> insert q (set (f q)) = {}"
    using assms(2-4) queues_inj [OF qs, of p q] queues_item_out [OF qs] by auto
  then have "insert p (set (f p)) \<inter> A = {}" using assms(6,7) by auto
  then show ?thesis by (rule untouched_ring [OF assms(5,8)])
qed

theorem queue_push_list:
  assumes qs: "queues m Q f" and q: "q \<in> Q"
    and x: "x \<notin> Q" "\<forall>r\<in>Q. x \<notin> set (f r)"
  shows "succeeds (queue_push q x m) (\<lambda>m'. queues m' Q (f(q := f q @ [x])))"
proof -
  let ?m = "m\<lparr>parent_queue := (parent_queue m)(x := Some q)\<rparr>"
  have r: "ring ?m q (f q)" using queues_ring [OF qs q] by simp
  have new: "x \<notin> insert q (set (f q))" using q x by auto
  have xq: "parent_queue m x \<noteq> Some p" for p using qs x(2) unfolding queues_def by blast
  have inq: "parent_queue m y = Some q \<longleftrightarrow> y \<in> set (f q)" for y
    using q by (simp add: queues_parent [OF qs])
  show ?thesis
    unfolding queue_push_def Let_def succeeds_rbind
  proof (rule succeeds_mono [OF list_add_tail_ring [OF r new]], elim conjE)
    fix m1 assume r1: "ring m1 q (f q @ [x])"
      and u: "untouched (insert x (insert q (set (f q)))) ?m m1"
    have fr: "qlen m1 = qlen m" "parent_queue m1 = (parent_queue m)(x := Some q)"
      using untouched_fields [OF u] by simp_all
    have "ring m1 p (f p)" if "p \<in> Q" "p \<noteq> q" for p
      by (rule queues_other_ring [OF qs q that u subset_refl])
         (use x that queues_ring [OF qs] in auto)
    then have "queues (m1\<lparr>qlen := (qlen m1)(q := qlen m1 q + 1)\<rparr>) Q (f(q := f q @ [x]))"
    proof (intro queues_updI [OF qs q])
      show "qlen (m1\<lparr>qlen := (qlen m1)(q := qlen m1 q + 1)\<rparr>) = (qlen m)(q := of_nat (length (f q @ [x])))"
        using queues_len [OF qs q] by (simp add: fr add.commute)
      show "parent_queue (m1\<lparr>qlen := (qlen m1)(q := qlen m1 q + 1)\<rparr>) y =
        (if y \<in> set (f q @ [x]) then Some q
         else if parent_queue m y = Some q then None else parent_queue m y)" for y
        using inq by (simp add: fr)
      show "set (f q @ [x]) \<inter> Q = {}" using queues_item_out [OF qs q] x by auto
      show "p \<in> Q \<Longrightarrow> p \<noteq> q \<Longrightarrow> set (f q @ [x]) \<inter> set (f p) = {}" for p
        using queues_inj [OF qs _ q] x by auto
    qed (use r1 in simp_all)
    then show "succeeds (Inr (m1\<lparr>qlen := (qlen m1)(q := qlen m1 q + 1)\<rparr>))
                 (\<lambda>m'. queues m' Q (f(q := f q @ [x])))" by simp
  qed
qed

theorem queue_remove_list:
  assumes qs: "queues m Q f"
  shows "succeeds (queue_remove x m) (\<lambda>m'. queues m' Q (\<lambda>q. q_remove x (f q)))"
proof (cases "parent_queue m x")
  case None
  then have "\<forall>q\<in>Q. x \<notin> set (f q)" using qs unfolding queues_def by (metis option.distinct(1))
  then have "queues m Q (\<lambda>q. q_remove x (f q)) \<longleftrightarrow> queues m Q f"
    by (intro queues_cong) (simp add: q_remove_def remove1_idem)
  then show ?thesis using None qs by (simp add: queue_remove_def)
next
  case (Some q)
  then have q: "q \<in> Q" and x: "x \<in> set (f q)" using queues_parent [OF qs] by auto
  have oth: "x \<notin> set (f p)" if "p \<in> Q" "p \<noteq> q" for p
    using queues_inj [OF qs _ q _ x] that by blast
  have d: "distinct (f q)" using queues_distinct [OF qs q] .
  have set_rm: "set (remove1 x (f q)) = set (f q) - {x}" using d by (rule set_remove1_eq)
  have inq: "parent_queue m y = Some q \<longleftrightarrow> y \<in> set (f q)" for y
    using q by (simp add: queues_parent [OF qs])
  show ?thesis
    unfolding queue_remove_def Some option.case succeeds_rbind
  proof (rule succeeds_mono [OF list_del_ring [OF queues_ring [OF qs q] x]], elim conjE)
    fix m1 assume r1: "ring m1 q (remove1 x (f q))"
      and u: "untouched (insert q (set (f q))) m m1"
    have fr: "qlen m1 = qlen m" "parent_queue m1 = parent_queue m"
      using untouched_fields [OF u] by simp_all
    let ?m2 = "m1\<lparr>qlen := (qlen m1)(q := qlen m1 q - 1),
                  parent_queue := (parent_queue m1)(x := None)\<rparr>"
    have "ring m1 p (f p)" if "p \<in> Q" "p \<noteq> q" for p
      by (rule queues_other_ring [OF qs q that u, of x])
         (use x q that oth queues_item_out [OF qs q] queues_ring [OF qs] in auto)
    then have "queues ?m2 Q (f(q := remove1 x (f q)))"
    proof (intro queues_updI [OF qs q])
      show "qlen ?m2 = (qlen m)(q := of_nat (length (remove1 x (f q))))"
        using queues_len [OF qs q] of_nat_length_remove1 [OF x, where 'a = 32] by (simp add: fr)
      show "parent_queue ?m2 y = (if y \<in> set (remove1 x (f q)) then Some q
          else if parent_queue m y = Some q then None else parent_queue m y)" for y
        using inq x by (auto simp: fr set_rm)
      show "set (remove1 x (f q)) \<inter> Q = {}" using queues_item_out [OF qs q] by (auto simp: set_rm)
      show "p \<in> Q \<Longrightarrow> p \<noteq> q \<Longrightarrow> set (remove1 x (f q)) \<inter> set (f p) = {}" for p
        using queues_inj [OF qs _ q] by (auto simp: set_rm)
    qed (use r1 in simp_all)
    moreover have "queues m' Q (\<lambda>p. q_remove x (f p)) \<longleftrightarrow> queues m' Q (f(q := remove1 x (f q)))" for m'
      by (rule queues_cong) (use oth in \<open>auto simp: q_remove_def remove1_idem\<close>)
    ultimately show "succeeds (Inr (m1\<lparr>qlen := (qlen m1)(q := qlen m1 q - 1),
        parent_queue := (parent_queue m1)(x := None)\<rparr>)) (\<lambda>m'. queues m' Q (\<lambda>q. q_remove x (f q)))"
      by simp
  qed
qed

lemma queue_peek_list:
  "queues m Q f \<Longrightarrow> q \<in> Q \<Longrightarrow>
     queue_peek q m = (case q_peek (f q) of None \<Rightarrow> Null | Some x \<Rightarrow> Ref x)"
  using ring_first [OF queues_ring] by (fastforce simp: queue_peek_def split: list.splits)

theorem queue_pop_list:
  assumes qs: "queues m Q f" and q: "q \<in> Q"
  shows "succeeds (queue_pop q m) (\<lambda>(p, m').
           p = (case q_peek (f q) of None \<Rightarrow> Null | Some x \<Rightarrow> Ref x) \<and>
           queues m' Q (f(q := tl (f q))))"
proof (cases "f q")
  case Nil
  then have "f(q := tl (f q)) = f" by auto
  then show ?thesis using Nil queue_peek_list [OF qs q] qs by (simp add: queue_pop_def)
next
  case (Cons x xs)
  then have pk: "queue_peek q m = Ref x" using queue_peek_list [OF qs q] by simp
  have oth: "x \<notin> set (f p)" if "p \<in> Q" "p \<noteq> q" for p
    using queues_inj [OF qs that(1) q, of x] that(2) Cons by auto
  have "queues m' Q (\<lambda>p. q_remove x (f p)) \<longleftrightarrow> queues m' Q (f(q := tl (f q)))" for m'
    by (rule queues_cong) (use oth Cons in \<open>auto simp: q_remove_def remove1_idem\<close>)
  then show ?thesis
    using Cons succeeds_mono [OF queue_remove_list [OF qs, of x]]
    by (simp add: queue_pop_def Let_def pk succeeds_rbind)
qed

lemma queue_empty_list: "queues m Q f \<Longrightarrow> q \<in> Q \<Longrightarrow> queue_empty q m \<longleftrightarrow> f q = []"
  using ring_empty_iff [OF queues_ring] by (simp add: queue_empty_def)

lemma queue_length_list: "queues m Q f \<Longrightarrow> q \<in> Q \<Longrightarrow> queue_length q m = q_length (f q)"
  by (simp add: queue_length_def q_length_def queues_def)

lemma in_queue_list: "queues m Q f \<Longrightarrow> q \<in> Q \<Longrightarrow> in_queue q x m \<longleftrightarrow> x \<in> set (f q)"
  by (simp add: in_queue_def queues_def)

end
