(* ===== verification/Epool.thy ===== *)
theory Epool
  imports Queue
begin

text \<open>
  Cache entries (\<open>src/src/include/entry.h\<close>) and the pools they are preallocated in
  (\<open>src/src/include/tools/epool.h\<close>): the pool record and its operations, the invariant
  \<open>pool_ok\<close> that ties the free list, the migrating list and the two counters to the flags
  of the entries, and what every operation does under it.
\<close>

section \<open>Entries and their memory\<close>

text \<open>
  \<open>epool_create\<close> allocates one block of entries per pool: an entry pointer is the block
  and the index in it. The blocks of the cache pool and of the meta pool of a policy are
  different blocks.
\<close>

datatype region = CacheRegion | MetaRegion

type_synonym eptr = "region \<times> nat"

text \<open>
  \<open>struct entry\<close>. A policy's own entry type extends the record. The list nodes
  \<open>ht_list\<close>, \<open>pool_list\<close> and \<open>wb_list\<close> have no field here: a node is linked when the
  entry is a member of the list in question, and initialising a node that is not linked
  changes nothing.
\<close>

record entry =
  e_oblock :: oblock
  e_time :: u32
  e_dirty :: bool
  e_allocated :: bool
  e_migrating :: bool

text \<open>The three queues of a \<open>writeback_tracker\<close>, which the \<open>wb_list\<close> nodes link into.\<close>

datatype wb_queue = WB_CLEAN | WB_DIRTY | WB_META

definition wb_queues :: "wb_queue list" where
  "wb_queues = [WB_CLEAN, WB_DIRTY, WB_META]"

record 'e entry_mem =
  store :: "eptr \<Rightarrow> 'e entry_scheme"
  wb :: "wb_queue \<Rightarrow> eptr list"

definition wb_linked :: "('e, 'm) entry_mem_scheme \<Rightarrow> eptr \<Rightarrow> bool" where
  "wb_linked s e = (e \<in> set (concat (map (wb s) wb_queues)))"

abbreviation upd_entry ::
  "eptr \<Rightarrow> ('e entry_scheme \<Rightarrow> 'e entry_scheme) \<Rightarrow> ('e, 'm) entry_mem_scheme \<Rightarrow> ('e, 'm) entry_mem_scheme" where
  "upd_entry e f s \<equiv> s\<lparr>store := (store s)(e := f (store s e))\<rparr>"

section \<open>Pools\<close>

text \<open>
  \<open>entries_begin\<close>, \<open>entries_end\<close> and the pointer array \<open>entries\<close> are determined by the
  block \<open>ep_region\<close> and the number of entries: \<open>entries[i]\<close> is the entry with index \<open>i\<close>.
\<close>

record entry_pool =
  ep_region :: region
  ep_nr_entries :: u32
  ep_starting_index :: u32
  ep_free :: "eptr list"
  ep_migrating :: "eptr list"
  ep_nr_allocated :: u32
  ep_nr_migrating :: u32

definition epool_create :: "region \<Rightarrow> u32 \<Rightarrow> entry_pool" where
  "epool_create r nr =
     \<lparr>ep_region = r, ep_nr_entries = nr, ep_starting_index = 0, ep_free = [],
      ep_migrating = [], ep_nr_allocated = 0, ep_nr_migrating = 0\<rparr>"

definition epool_at :: "entry_pool \<Rightarrow> cblock \<Rightarrow> eptr option" where
  "epool_at ep index =
     (let converted_index = index - ep_starting_index ep in
      if converted_index \<ge> ep_nr_entries ep then None
      else Some (ep_region ep, unat converted_index))"

text \<open>
  The loop of \<open>epool_init\<close> over the remaining indices. The entry pointer comes from
  \<open>epool_at\<close>, with the starting index the pool has before the call.
\<close>

fun epool_init_loop ::
  "nat list \<Rightarrow> entry_pool \<Rightarrow> ('e, 'm) entry_mem_scheme \<Rightarrow> (entry_pool \<times> ('e, 'm) entry_mem_scheme) res" where
  "epool_init_loop [] ep s = Inr (ep, s)"
| "epool_init_loop (i # is) ep s =
     rbind (deref (epool_at ep (of_nat i))) (\<lambda>e.
     if wb_linked s e \<or> e \<in> set (ep_free ep) then Inl Corrupt
     else epool_init_loop is
            (ep\<lparr>ep_free := e # ep_free ep\<rparr>)
            (upd_entry e (\<lambda>x. x\<lparr>e_dirty := False, e_allocated := False, e_migrating := False\<rparr>) s))"

definition epool_init ::
  "u32 \<Rightarrow> entry_pool \<Rightarrow> ('e, 'm) entry_mem_scheme \<Rightarrow> (entry_pool \<times> ('e, 'm) entry_mem_scheme) res" where
  "epool_init starting_index ep s =
     rbind (epool_init_loop [0..<unat (ep_nr_entries ep)]
              (ep\<lparr>ep_free := [], ep_migrating := []\<rparr>) s) (\<lambda>(ep, s).
     Inr (ep\<lparr>ep_nr_allocated := 0, ep_nr_migrating := 0, ep_starting_index := starting_index\<rparr>, s))"

fun in_pool :: "entry_pool \<Rightarrow> eptr option \<Rightarrow> bool" where
  "in_pool ep None = False"
| "in_pool ep (Some (r, i)) = (r = ep_region ep \<and> i < unat (ep_nr_entries ep))"

definition pool_linked :: "entry_pool \<Rightarrow> eptr \<Rightarrow> bool" where
  "pool_linked ep e = (e \<in> set (ep_free ep) \<or> e \<in> set (ep_migrating ep))"

definition alloc_this_entry ::
  "entry_pool \<Rightarrow> eptr \<Rightarrow> ('e, 'm) entry_mem_scheme \<Rightarrow> (entry_pool \<times> ('e, 'm) entry_mem_scheme) res" where
  "alloc_this_entry ep e s =
     (if wb_linked s e then Inl Corrupt
      else Inr (ep\<lparr>ep_free := remove1 e (ep_free ep),
                   ep_migrating := remove1 e (ep_migrating ep),
                   ep_nr_allocated := ep_nr_allocated ep + 1\<rparr>,
                upd_entry e (\<lambda>x. x\<lparr>e_allocated := True\<rparr>) s))"

definition alloc_entry ::
  "entry_pool \<Rightarrow> ('e, 'm) entry_mem_scheme \<Rightarrow> (eptr option \<times> entry_pool \<times> ('e, 'm) entry_mem_scheme) res" where
  "alloc_entry ep s =
     (case ep_free ep of
        [] \<Rightarrow> Inr (None, ep, s)
      | e # rest \<Rightarrow>
          rbind (alloc_this_entry (ep\<lparr>ep_free := rest\<rparr>) e s) (\<lambda>(ep, s). Inr (Some e, ep, s)))"

definition alloc_particular_entry ::
  "entry_pool \<Rightarrow> cblock \<Rightarrow> ('e, 'm) entry_mem_scheme \<Rightarrow> (eptr \<times> entry_pool \<times> ('e, 'm) entry_mem_scheme) res" where
  "alloc_particular_entry ep cblock s =
     rbind (deref (epool_at ep cblock)) (\<lambda>e.
     rbind (log_assert (\<not> e_allocated (store s e))) (\<lambda>_.
     rbind (alloc_this_entry ep e s) (\<lambda>(ep, s). Inr (e, ep, s))))"

definition epool_find :: "entry_pool \<Rightarrow> cblock \<Rightarrow> ('e, 'm) entry_mem_scheme \<Rightarrow> eptr option res" where
  "epool_find ep cblock s =
     rbind (deref (epool_at ep cblock)) (\<lambda>e.
     Inr (if e_allocated (store s e) then Some e else None))"

definition epool_empty :: "entry_pool \<Rightarrow> bool" where
  "epool_empty ep = (ep_free ep = [])"

text \<open>
  \<open>infer_cblock\<close> divides the distance from \<open>entries[0]\<close> by the distance from
  \<open>entries[0]\<close> to \<open>entries[1]\<close>: with fewer than two entries the second read is outside
  the array.
\<close>

definition infer_cblock :: "entry_pool \<Rightarrow> eptr \<Rightarrow> cblock res" where
  "infer_cblock ep e =
     rbind (log_assert (in_pool ep (Some e))) (\<lambda>_.
     if ep_nr_entries ep < 2 then Inl OutOfBounds
     else Inr (of_nat (snd e) + ep_starting_index ep))"

definition migrating_entry ::
  "entry_pool \<Rightarrow> eptr \<Rightarrow> ('e, 'm) entry_mem_scheme \<Rightarrow> (entry_pool \<times> ('e, 'm) entry_mem_scheme) res" where
  "migrating_entry ep e s =
     rbind (log_assert (in_pool ep (Some e))) (\<lambda>_.
     rbind (log_assert (ep_nr_allocated ep > 0)) (\<lambda>_.
     rbind (log_assert (e_allocated (store s e))) (\<lambda>_.
     if pool_linked ep e then Inl Corrupt
     else Inr (ep\<lparr>ep_nr_migrating := ep_nr_migrating ep + 1,
                  ep_migrating := e # ep_migrating ep\<rparr>,
               upd_entry e (\<lambda>x. x\<lparr>e_migrating := True\<rparr>) s))))"

definition migrated_entry ::
  "entry_pool \<Rightarrow> eptr \<Rightarrow> ('e, 'm) entry_mem_scheme \<Rightarrow> (entry_pool \<times> ('e, 'm) entry_mem_scheme) res" where
  "migrated_entry ep e s =
     rbind (log_assert (in_pool ep (Some e))) (\<lambda>_.
     rbind (log_assert (ep_nr_allocated ep > 0)) (\<lambda>_.
     rbind (log_assert (e_allocated (store s e))) (\<lambda>_.
     rbind (log_assert (e_migrating (store s e))) (\<lambda>_.
     Inr (ep\<lparr>ep_nr_migrating := ep_nr_migrating ep - 1,
             ep_free := remove1 e (ep_free ep),
             ep_migrating := remove1 e (ep_migrating ep)\<rparr>,
          upd_entry e (\<lambda>x. x\<lparr>e_migrating := False\<rparr>) s)))))"

definition free_entry ::
  "entry_pool \<Rightarrow> eptr \<Rightarrow> ('e, 'm) entry_mem_scheme \<Rightarrow> (entry_pool \<times> ('e, 'm) entry_mem_scheme) res" where
  "free_entry ep e s =
     rbind (log_assert (in_pool ep (Some e))) (\<lambda>_.
     rbind (log_assert (ep_nr_allocated ep > 0)) (\<lambda>_.
     let ep = ep\<lparr>ep_nr_allocated := ep_nr_allocated ep - 1\<rparr>;
         ep = (if e_migrating (store s e)
               then ep\<lparr>ep_nr_migrating := ep_nr_migrating ep - 1,
                       ep_free := remove1 e (ep_free ep),
                       ep_migrating := remove1 e (ep_migrating ep)\<rparr>
               else ep) in
     if pool_linked ep e then Inl Corrupt
     else Inr (ep\<lparr>ep_free := e # ep_free ep\<rparr>,
               upd_entry e (\<lambda>x. x\<lparr>e_allocated := False, e_migrating := False\<rparr>) s)))"

section \<open>The pool invariant\<close>

definition alloc_set :: "entry_pool \<Rightarrow> (eptr \<Rightarrow> 'e entry_scheme) \<Rightarrow> eptr set" where
  "alloc_set ep st = {e. in_pool ep (Some e) \<and> e_allocated (st e)}"

definition pool_ok :: "entry_pool \<Rightarrow> (eptr \<Rightarrow> 'e entry_scheme) \<Rightarrow> bool" where
  "pool_ok ep st \<longleftrightarrow>
     distinct (ep_free ep) \<and> distinct (ep_migrating ep) \<and>
     set (ep_free ep) = {e. in_pool ep (Some e) \<and> \<not> e_allocated (st e)} \<and>
     set (ep_migrating ep) = {e \<in> alloc_set ep st. e_migrating (st e)} \<and>
     (\<forall>e \<in> set (ep_free ep). \<not> e_migrating (st e)) \<and>
     ep_nr_allocated ep = ep_nr_entries ep - of_nat (length (ep_free ep)) \<and>
     ep_nr_migrating ep = of_nat (length (ep_migrating ep))"

lemma in_pool_Some: "in_pool ep (Some e) \<longleftrightarrow> fst e = ep_region ep \<and> snd e < unat (ep_nr_entries ep)"
  by (cases e) simp

lemma pool_set: "{e. in_pool ep (Some e)} = {ep_region ep} \<times> {..<unat (ep_nr_entries ep)}"
  by (auto simp: in_pool_Some)

lemma finite_pool: "finite {e. in_pool ep (Some e)}"
  by (simp add: pool_set)

lemma card_pool: "card {e. in_pool ep (Some e)} = unat (ep_nr_entries ep)"
  by (simp add: pool_set card_cartesian_product)

lemma finite_alloc_set: "finite (alloc_set ep st)"
  by (rule finite_subset [OF _ finite_pool [of ep]]) (auto simp: alloc_set_def)

lemma pool_ok_free: "pool_ok ep st \<Longrightarrow> e \<in> set (ep_free ep) \<longleftrightarrow> in_pool ep (Some e) \<and> \<not> e_allocated (st e)"
  unfolding pool_ok_def by blast

lemma pool_ok_migrating: "pool_ok ep st \<Longrightarrow>
  e \<in> set (ep_migrating ep) \<longleftrightarrow> e \<in> alloc_set ep st \<and> e_migrating (st e)"
  unfolding pool_ok_def by blast

lemma pool_partition:
  assumes "pool_ok ep st"
  shows "length (ep_free ep) + card (alloc_set ep st) = unat (ep_nr_entries ep)"
proof -
  have "set (ep_free ep) \<union> alloc_set ep st = {e. in_pool ep (Some e)}"
    "set (ep_free ep) \<inter> alloc_set ep st = {}"
    using assms by (auto simp: pool_ok_def alloc_set_def)
  then have "card (set (ep_free ep)) + card (alloc_set ep st) = unat (ep_nr_entries ep)"
    using card_Un_disjoint [OF finite_set finite_alloc_set] card_pool by metis
  moreover have "card (set (ep_free ep)) = length (ep_free ep)"
    using assms by (intro distinct_card) (simp add: pool_ok_def)
  ultimately show ?thesis by simp
qed

text \<open>The counter \<open>nr_allocated\<close> counts the allocated entries.\<close>

lemma nr_allocated_card:
  assumes "pool_ok ep st"
  shows "ep_nr_allocated ep = of_nat (card (alloc_set ep st))"
proof -
  have "ep_nr_entries ep = of_nat (length (ep_free ep) + card (alloc_set ep st))"
    by (simp add: pool_partition [OF assms] del: of_nat_add)
  then show ?thesis using assms by (simp add: pool_ok_def)
qed

lemma card_alloc_bound: "pool_ok ep st \<Longrightarrow> card (alloc_set ep st) \<le> unat (ep_nr_entries ep)"
  using pool_partition by fastforce

lemma card_alloc_small: "pool_ok ep st \<Longrightarrow> card (alloc_set ep st) < 2 ^ 32"
  using card_alloc_bound unat_less_exp [of "ep_nr_entries ep"] by fastforce

lemma nr_allocated_pos:
  assumes "pool_ok ep st" "e \<in> alloc_set ep st"
  shows "ep_nr_allocated ep > 0"
proof -
  have "0 < card (alloc_set ep st)" using assms(2) finite_alloc_set card_gt_0_iff by blast
  then show ?thesis
    using nr_allocated_card [OF assms(1)] card_alloc_small [OF assms(1)]
    by (simp add: of_nat_pos_small)
qed

lemma epool_empty_iff: "pool_ok ep st \<Longrightarrow>
  epool_empty ep \<longleftrightarrow> card (alloc_set ep st) = unat (ep_nr_entries ep)"
  using pool_partition [of ep st] by (auto simp: epool_empty_def)

lemma pool_ok_cong:
  assumes "pool_ok ep st" "\<And>e. in_pool ep (Some e) \<Longrightarrow>
    e_allocated (st' e) = e_allocated (st e) \<and> e_migrating (st' e) = e_migrating (st e)"
  shows "pool_ok ep st'" "alloc_set ep st' = alloc_set ep st"
proof -
  show a: "alloc_set ep st' = alloc_set ep st" using assms(2) by (auto simp: alloc_set_def)
  have "{e. in_pool ep (Some e) \<and> \<not> e_allocated (st' e)} = {e. in_pool ep (Some e) \<and> \<not> e_allocated (st e)}"
    using assms(2) by blast
  moreover have "{e \<in> alloc_set ep st. e_migrating (st' e)} = {e \<in> alloc_set ep st. e_migrating (st e)}"
    using assms(2) by (auto simp: alloc_set_def)
  moreover have "\<forall>e \<in> set (ep_free ep). \<not> e_migrating (st' e)"
    using assms by (auto simp: pool_ok_def)
  ultimately show "pool_ok ep st'" using assms(1) a by (simp add: pool_ok_def)
qed

section \<open>The operations on a pool in order\<close>

text \<open>
  Each operation on a pool that satisfies the invariant: its result, the invariant of the
  new pool, the allocated entries afterwards. Which list node is linked elsewhere
  (\<open>wb_linked\<close>) is a premise where the operation initialises the node.
\<close>

lemma pool_ok_allocate:
  assumes ok: "pool_ok ep st" and e: "e \<in> set (ep_free ep)"
  shows "pool_ok (ep\<lparr>ep_free := remove1 e (ep_free ep), ep_nr_allocated := ep_nr_allocated ep + 1\<rparr>)
           (st(e := x\<lparr>e_allocated := True, e_migrating := False\<rparr>))"
    and "alloc_set (ep\<lparr>ep_free := remove1 e (ep_free ep), ep_nr_allocated := ep_nr_allocated ep + 1\<rparr>)
           (st(e := x\<lparr>e_allocated := True, e_migrating := False\<rparr>)) = insert e (alloc_set ep st)"
proof -
  have ip: "in_pool (ep\<lparr>ep_free := r, ep_nr_allocated := n\<rparr>) p = in_pool ep p" for r n p
    by (cases "(ep, p)" rule: in_pool.cases) auto
  have pool: "in_pool ep (Some e)" "\<not> e_allocated (st e)" using pool_ok_free [OF ok] e by auto
  show a: "alloc_set (ep\<lparr>ep_free := remove1 e (ep_free ep), ep_nr_allocated := ep_nr_allocated ep + 1\<rparr>)
           (st(e := x\<lparr>e_allocated := True, e_migrating := False\<rparr>)) = insert e (alloc_set ep st)"
    using pool by (auto simp: alloc_set_def ip)
  have l: "(of_nat (length (remove1 e (ep_free ep))) :: u32) = of_nat (length (ep_free ep)) - 1"
    by (rule of_nat_length_remove1 [OF e])
  have n: "e \<notin> alloc_set ep st" using pool by (simp add: alloc_set_def)
  show "pool_ok (ep\<lparr>ep_free := remove1 e (ep_free ep), ep_nr_allocated := ep_nr_allocated ep + 1\<rparr>)
           (st(e := x\<lparr>e_allocated := True, e_migrating := False\<rparr>))"
    unfolding pool_ok_def a using ok n e
    by (auto simp: pool_ok_def ip l)
qed

lemma alloc_entry_ok:
  assumes ok: "pool_ok ep (store s)" and free: "ep_free ep = e # rest"
    and wb: "\<not> wb_linked s e"
  shows "alloc_entry ep s =
    Inr (Some e, ep\<lparr>ep_free := remove1 e (ep_free ep), ep_nr_allocated := ep_nr_allocated ep + 1\<rparr>,
         upd_entry e (\<lambda>x. x\<lparr>e_allocated := True\<rparr>) s)"
proof -
  have "e \<notin> set rest" using ok free by (auto simp: pool_ok_def)
  moreover have "e \<notin> set (ep_migrating ep)"
    using pool_ok_free [OF ok, of e] pool_ok_migrating [OF ok, of e] free by (auto simp: alloc_set_def)
  ultimately show ?thesis
    using free wb by (simp add: alloc_entry_def alloc_this_entry_def remove1_idem)
qed

lemma alloc_entry_full: "epool_empty ep \<Longrightarrow> alloc_entry ep s = Inr (None, ep, s)"
  by (simp add: alloc_entry_def epool_empty_def)

lemma free_not_migrating: "pool_ok ep st \<Longrightarrow> e \<in> set (ep_free ep) \<Longrightarrow> \<not> e_migrating (st e)"
  by (simp add: pool_ok_def)

lemma alloc_particular_entry_ok:
  assumes ok: "pool_ok ep (store s)" and e: "epool_at ep cb = Some e"
    and free: "e \<in> set (ep_free ep)" and wb: "\<not> wb_linked s e"
  shows "alloc_particular_entry ep cb s =
    Inr (e, ep\<lparr>ep_free := remove1 e (ep_free ep), ep_nr_allocated := ep_nr_allocated ep + 1\<rparr>,
         upd_entry e (\<lambda>x. x\<lparr>e_allocated := True\<rparr>) s)"
proof -
  have "e \<notin> set (ep_migrating ep)" "\<not> e_allocated (store s e)"
    using pool_ok_free [OF ok, of e] pool_ok_migrating [OF ok, of e] free by (auto simp: alloc_set_def)
  then show ?thesis
    using e wb by (simp add: alloc_particular_entry_def alloc_this_entry_def remove1_idem
        deref_def log_assert_def)
qed

lemma migrating_entry_ok:
  assumes ok: "pool_ok ep (store s)" and e: "e \<in> alloc_set ep (store s)"
    and nm: "\<not> e_migrating (store s e)"
  shows "\<exists>ep'. migrating_entry ep e s = Inr (ep', upd_entry e (\<lambda>x. x\<lparr>e_migrating := True\<rparr>) s) \<and>
    pool_ok ep' ((store s)(e := (store s e)\<lparr>e_migrating := True\<rparr>)) \<and>
    alloc_set ep' ((store s)(e := (store s e)\<lparr>e_migrating := True\<rparr>)) = alloc_set ep (store s) \<and>
    ep_region ep' = ep_region ep \<and> ep_nr_entries ep' = ep_nr_entries ep \<and>
    ep_starting_index ep' = ep_starting_index ep \<and> ep_free ep' = ep_free ep \<and>
    ep_nr_allocated ep' = ep_nr_allocated ep"
proof -
  let ?ep = "ep\<lparr>ep_nr_migrating := ep_nr_migrating ep + 1, ep_migrating := e # ep_migrating ep\<rparr>"
  let ?st = "(store s)(e := (store s e)\<lparr>e_migrating := True\<rparr>)"
  have ip: "in_pool ?ep p = in_pool ep p" for p
    by (cases "(ep, p)" rule: in_pool.cases) auto
  have p: "in_pool ep (Some e)" "e_allocated (store s e)" using e by (auto simp: alloc_set_def)
  have "\<not> pool_linked ep e"
    using pool_ok_free [OF ok, of e] pool_ok_migrating [OF ok, of e] p nm by (auto simp: pool_linked_def)
  then have "migrating_entry ep e s = Inr (?ep, upd_entry e (\<lambda>x. x\<lparr>e_migrating := True\<rparr>) s)"
    using p nr_allocated_pos [OF ok e] by (simp add: migrating_entry_def log_assert_def)
  moreover have a: "alloc_set ?ep ?st = alloc_set ep (store s)"
    using p by (auto simp: alloc_set_def ip)
  moreover have "e \<notin> set (ep_free ep)" using pool_ok_free [OF ok, of e] p by simp
  then have "pool_ok ?ep ?st"
    unfolding pool_ok_def a using ok e nm p by (auto simp: pool_ok_def ip)
  ultimately show ?thesis by auto
qed

lemma migrated_entry_ok:
  assumes ok: "pool_ok ep (store s)" and e: "e \<in> alloc_set ep (store s)"
    and mig: "e_migrating (store s e)"
  shows "\<exists>ep'. migrated_entry ep e s = Inr (ep', upd_entry e (\<lambda>x. x\<lparr>e_migrating := False\<rparr>) s) \<and>
    pool_ok ep' ((store s)(e := (store s e)\<lparr>e_migrating := False\<rparr>)) \<and>
    alloc_set ep' ((store s)(e := (store s e)\<lparr>e_migrating := False\<rparr>)) = alloc_set ep (store s) \<and>
    ep_region ep' = ep_region ep \<and> ep_nr_entries ep' = ep_nr_entries ep \<and>
    ep_starting_index ep' = ep_starting_index ep \<and> ep_free ep' = ep_free ep \<and>
    ep_nr_allocated ep' = ep_nr_allocated ep"
proof -
  let ?ep = "ep\<lparr>ep_nr_migrating := ep_nr_migrating ep - 1, ep_free := remove1 e (ep_free ep),
    ep_migrating := remove1 e (ep_migrating ep)\<rparr>"
  let ?st = "(store s)(e := (store s e)\<lparr>e_migrating := False\<rparr>)"
  have ip: "in_pool ?ep p = in_pool ep p" for p
    by (cases "(ep, p)" rule: in_pool.cases) auto
  have p: "in_pool ep (Some e)" "e_allocated (store s e)" using e by (auto simp: alloc_set_def)
  have nf: "remove1 e (ep_free ep) = ep_free ep"
    using pool_ok_free [OF ok, of e] p by (simp add: remove1_idem)
  have m: "e \<in> set (ep_migrating ep)" using pool_ok_migrating [OF ok] e mig by simp
  have "migrated_entry ep e s = Inr (?ep, upd_entry e (\<lambda>x. x\<lparr>e_migrating := False\<rparr>) s)"
    using p mig nr_allocated_pos [OF ok e] by (simp add: migrated_entry_def log_assert_def)
  moreover have a: "alloc_set ?ep ?st = alloc_set ep (store s)"
    using p by (auto simp: alloc_set_def ip)
  moreover have "pool_ok ?ep ?st"
    unfolding pool_ok_def a using ok e p m
    by (auto simp: pool_ok_def ip nf of_nat_length_remove1 [OF m])
  ultimately show ?thesis using nf by auto
qed

lemma free_entry_ok:
  assumes ok: "pool_ok ep (store s)" and e: "e \<in> alloc_set ep (store s)"
  shows "\<exists>ep'. free_entry ep e s =
      Inr (ep', upd_entry e (\<lambda>x. x\<lparr>e_allocated := False, e_migrating := False\<rparr>) s) \<and>
    pool_ok ep' ((store s)(e := (store s e)\<lparr>e_allocated := False, e_migrating := False\<rparr>)) \<and>
    alloc_set ep' ((store s)(e := (store s e)\<lparr>e_allocated := False, e_migrating := False\<rparr>)) =
      alloc_set ep (store s) - {e} \<and>
    ep_region ep' = ep_region ep \<and> ep_nr_entries ep' = ep_nr_entries ep \<and>
    ep_starting_index ep' = ep_starting_index ep \<and> ep_free ep' = e # ep_free ep"
proof -
  let ?ep = "ep\<lparr>ep_nr_allocated := ep_nr_allocated ep - 1,
    ep_nr_migrating := (if e_migrating (store s e) then ep_nr_migrating ep - 1 else ep_nr_migrating ep),
    ep_migrating := remove1 e (ep_migrating ep), ep_free := e # ep_free ep\<rparr>"
  let ?st = "(store s)(e := (store s e)\<lparr>e_allocated := False, e_migrating := False\<rparr>)"
  have ip: "in_pool ?ep p = in_pool ep p" for p
    by (cases "(ep, p)" rule: in_pool.cases) auto
  have p: "in_pool ep (Some e)" "e_allocated (store s e)" using e by (auto simp: alloc_set_def)
  have nf: "e \<notin> set (ep_free ep)" using pool_ok_free [OF ok, of e] p by simp
  have m: "e \<in> set (ep_migrating ep) \<longleftrightarrow> e_migrating (store s e)"
    using pool_ok_migrating [OF ok] e by simp
  have d: "distinct (ep_migrating ep)" using ok by (simp add: pool_ok_def)
  have "free_entry ep e s = Inr (?ep, upd_entry e (\<lambda>x. x\<lparr>e_allocated := False, e_migrating := False\<rparr>) s)"
    using p nf m d nr_allocated_pos [OF ok e]
    by (simp add: free_entry_def log_assert_def pool_linked_def remove1_idem)
  moreover have a: "alloc_set ?ep ?st = alloc_set ep (store s) - {e}"
    by (auto simp: alloc_set_def ip)
  moreover have "pool_ok ?ep ?st"
    unfolding pool_ok_def a using ok e p m nf
    by (auto simp: pool_ok_def ip remove1_idem of_nat_length_remove1)
  ultimately show ?thesis by auto
qed

lemma epool_find_ok:
  "epool_at ep cb = Some e \<Longrightarrow>
   epool_find ep cb s = Inr (if e_allocated (store s e) then Some e else None)"
  by (simp add: epool_find_def deref_def)

section \<open>Initialisation and addresses\<close>

lemma epool_at_index: "i < unat (ep_nr_entries ep) \<Longrightarrow> ep_starting_index ep = 0 \<Longrightarrow>
  epool_at ep (of_nat i) = Some (ep_region ep, i)"
  using unat_less_exp [of "ep_nr_entries ep"]
  by (auto simp: epool_at_def Let_def word_le_nat_alt unat_of_nat_small)

lemma epool_init_loop_ok:
  assumes "\<forall>i \<in> set is. i < unat (ep_nr_entries ep)" "distinct is" "ep_starting_index ep = 0"
    "\<forall>i \<in> set is. \<not> wb_linked s (ep_region ep, i) \<and> (ep_region ep, i) \<notin> set (ep_free ep)"
  shows "epool_init_loop is ep s =
    Inr (ep\<lparr>ep_free := map (Pair (ep_region ep)) (rev is) @ ep_free ep\<rparr>,
         s\<lparr>store := (\<lambda>e. if e \<in> Pair (ep_region ep) ` set is
            then (store s e)\<lparr>e_dirty := False, e_allocated := False, e_migrating := False\<rparr>
            else store s e)\<rparr>)"
  using assms
proof (induction "is" arbitrary: ep s)
  case (Cons i js)
  let ?e = "(ep_region ep, i)"
  let ?ep = "ep\<lparr>ep_free := ?e # ep_free ep\<rparr>"
  let ?s = "upd_entry ?e (\<lambda>x. x\<lparr>e_dirty := False, e_allocated := False, e_migrating := False\<rparr>) s"
  let ?f = "\<lambda>e. if e \<in> Pair (ep_region ep) ` set (i # js)
            then (store s e)\<lparr>e_dirty := False, e_allocated := False, e_migrating := False\<rparr>
            else store s e"
  have f: "(\<lambda>e. if e \<in> Pair (ep_region ?ep) ` set js
            then (store ?s e)\<lparr>e_dirty := False, e_allocated := False, e_migrating := False\<rparr>
            else store ?s e) = ?f"
    by (rule ext) auto
  have "epool_init_loop (i # js) ep s = epool_init_loop js ?ep ?s"
    using Cons.prems by (simp add: epool_at_index deref_def)
  also have "\<dots> = Inr (?ep\<lparr>ep_free := map (Pair (ep_region ?ep)) (rev js) @ ep_free ?ep\<rparr>,
         ?s\<lparr>store := (\<lambda>e. if e \<in> Pair (ep_region ?ep) ` set js
            then (store ?s e)\<lparr>e_dirty := False, e_allocated := False, e_migrating := False\<rparr>
            else store ?s e)\<rparr>)"
    using Cons.prems by (intro Cons.IH) (auto simp: wb_linked_def)
  finally show ?case unfolding f by simp
qed simp

definition cleared :: "entry_pool \<Rightarrow> (eptr \<Rightarrow> 'e entry_scheme) \<Rightarrow> eptr \<Rightarrow> 'e entry_scheme" where
  "cleared ep st e = (if in_pool ep (Some e)
     then (st e)\<lparr>e_dirty := False, e_allocated := False, e_migrating := False\<rparr> else st e)"

text \<open>
  Initialising a pool that was just created: every entry is free, the highest index in
  front.
\<close>

lemma epool_init_ok:
  assumes start: "ep_starting_index ep = 0"
    and wb: "\<And>e. in_pool ep (Some e) \<Longrightarrow> \<not> wb_linked s e"
  shows "epool_init i0 ep s =
    Inr (ep\<lparr>ep_starting_index := i0,
            ep_free := map (Pair (ep_region ep)) (rev [0..<unat (ep_nr_entries ep)]),
            ep_migrating := [], ep_nr_allocated := 0, ep_nr_migrating := 0\<rparr>,
         s\<lparr>store := cleared ep (store s)\<rparr>)"
proof -
  let ?is = "[0..<unat (ep_nr_entries ep)]"
  have "(\<lambda>e. if e \<in> Pair (ep_region ep) ` set ?is
      then (store s e)\<lparr>e_dirty := False, e_allocated := False, e_migrating := False\<rparr>
      else store s e) = cleared ep (store s)"
    by (rule ext) (auto simp: cleared_def in_pool_Some prod_eq_iff image_iff)
  moreover have "epool_init_loop ?is (ep\<lparr>ep_free := [], ep_migrating := []\<rparr>) s =
    Inr (ep\<lparr>ep_free := map (Pair (ep_region ep)) (rev ?is), ep_migrating := []\<rparr>,
      s\<lparr>store := (\<lambda>e. if e \<in> Pair (ep_region ep) ` set ?is
        then (store s e)\<lparr>e_dirty := False, e_allocated := False, e_migrating := False\<rparr>
        else store s e)\<rparr>)"
    by (subst epool_init_loop_ok) (use start wb in auto)
  ultimately show ?thesis by (simp add: epool_init_def)
qed

lemma epool_init_pool_ok:
  assumes "ep' = ep\<lparr>ep_starting_index := i0,
            ep_free := map (Pair (ep_region ep)) (rev [0..<unat (ep_nr_entries ep)]),
            ep_migrating := [], ep_nr_allocated := 0, ep_nr_migrating := 0\<rparr>"
    and st: "\<And>e. in_pool ep (Some e) \<Longrightarrow> \<not> e_allocated (st e) \<and> \<not> e_migrating (st e)"
  shows "pool_ok ep' st" "alloc_set ep' st = {}" "\<not> epool_empty ep' \<longleftrightarrow> ep_nr_entries ep \<noteq> 0"
proof -
  have ip: "in_pool ep' p = in_pool ep p" for p
    unfolding assms(1) by (cases "(ep, p)" rule: in_pool.cases) auto
  show a: "alloc_set ep' st = {}" using st by (auto simp: alloc_set_def ip)
  have f: "ep_free ep' = map (Pair (ep_region ep)) (rev [0..<unat (ep_nr_entries ep)])"
    by (simp add: assms(1))
  have "set (ep_free ep') = {e. in_pool ep (Some e)}" by (auto simp: f pool_set)
  then have "set (ep_free ep') = {e. in_pool ep' (Some e) \<and> \<not> e_allocated (st e)}"
    using st by (auto simp: ip)
  moreover have "distinct (ep_free ep')" by (simp add: f distinct_map inj_on_def)
  moreover have "\<forall>e \<in> set (ep_free ep'). \<not> e_migrating (st e)"
    using st by (auto simp: f in_pool_Some)
  ultimately show "pool_ok ep' st" unfolding pool_ok_def a by (simp add: assms(1))
  show "\<not> epool_empty ep' \<longleftrightarrow> ep_nr_entries ep \<noteq> 0"
    by (auto simp: epool_empty_def f unat_eq_0)
qed

text \<open>The cache address inferred from an entry is the one at which the pool finds it.\<close>

lemma infer_cblock_ok:
  assumes "in_pool ep (Some e)" "2 \<le> ep_nr_entries ep"
  shows "infer_cblock ep e = Inr (of_nat (snd e) + ep_starting_index ep)"
    and "epool_at ep (of_nat (snd e) + ep_starting_index ep) = Some e"
proof -
  show "infer_cblock ep e = Inr (of_nat (snd e) + ep_starting_index ep)"
    using assms by (simp add: infer_cblock_def log_assert_def not_less)
  have "snd e < 2 ^ 32"
    using assms unat_less_exp [of "ep_nr_entries ep"] by (auto simp: in_pool_Some)
  then show "epool_at ep (of_nat (snd e) + ep_starting_index ep) = Some e"
    using assms
    by (auto simp: epool_at_def Let_def in_pool_Some word_le_nat_alt unat_of_nat_small prod_eq_iff)
qed

lemma epool_at_in_pool: "epool_at ep cb = Some e \<Longrightarrow> in_pool ep (Some e)"
  by (auto simp: epool_at_def Let_def word_le_nat_alt split: if_splits)

lemma epool_at_infer:
  assumes "epool_at ep cb = Some e" "2 \<le> ep_nr_entries ep"
  shows "infer_cblock ep e = Inr cb"
proof -
  have "snd e = unat (cb - ep_starting_index ep)"
    using assms(1) by (auto simp: epool_at_def Let_def split: if_splits)
  then have "of_nat (snd e) = cb - ep_starting_index ep" by simp
  then show ?thesis
    using infer_cblock_ok(1) [OF epool_at_in_pool [OF assms(1)] assms(2)] by simp
qed

end
