(* ===== verification/Hash.thy ===== *)
theory Hash
  imports Prelude
begin

text \<open>
  The multiplicative hash of \<open>src/src/include/kernel/hash.h\<close> and the sizing of the hash
  table in \<open>src/src/include/tools/hashtable.h\<close>. Outside the kernel \<open>BITS_PER_LONG\<close> is
  not defined, so \<open>hash_64\<close> is the variant built from 32-bit multiplications. The main
  result is that the bucket index computed with the \<open>hash_bits\<close> that \<open>ht_init\<close> stores is
  always below the \<open>nr_buckets\<close> it allocates.
\<close>

unbundle bit_operations_syntax

section \<open>kernel/hash.h\<close>

definition GOLDEN_RATIO_32 :: u32 where
  "GOLDEN_RATIO_32 = 0x61C88647"

definition hash_32_mul :: "u32 \<Rightarrow> u32" where
  "hash_32_mul val = val * GOLDEN_RATIO_32"

text \<open>The shift distance is the 32-bit value \<open>32 - bits\<close>; 32 or more is undefined.\<close>

definition hash_32 :: "u32 \<Rightarrow> u32 \<Rightarrow> u32 res" where
  "hash_32 val bits =
     (if unat (32 - bits) \<ge> 32 then Inl BadShift
      else Inr (drop_bit (unat (32 - bits)) (hash_32_mul val)))"

definition hash_64 :: "u64 \<Rightarrow> u32 \<Rightarrow> u32 res" where
  "hash_64 val bits =
     hash_32 ((ucast val :: u32) XOR hash_32_mul (ucast (drop_bit 32 val))) bits"

section \<open>Sizing the table\<close>

text \<open>
  \<open>while (x > 1 << pow) ++pow; return 1 << pow;\<close> on \<open>unsigned\<close>: a shift by 32 or more is
  undefined.
\<close>

function next_power_from :: "u32 \<Rightarrow> nat \<Rightarrow> u32 res" where
  "next_power_from x pow =
     (if 32 \<le> pow then Inl BadShift
      else if x > push_bit pow 1 then next_power_from x (Suc pow)
      else Inr (push_bit pow 1))"
  by pat_completeness auto

termination
  by (relation "measure (\<lambda>(x, pow). 33 - pow)") auto

declare next_power_from.simps [simp del]

definition next_power :: "u32 \<Rightarrow> u32 \<Rightarrow> u32 res" where
  "next_power n least = next_power_from (max_u n least) 0"

text \<open>The C library's \<open>ffs\<close>: one plus the index of the lowest set bit, 0 if there is none.\<close>

definition ffs :: "u32 \<Rightarrow> nat" where
  "ffs w = (case find (bit w) [0..<32] of None \<Rightarrow> 0 | Some i \<Rightarrow> Suc i)"

text \<open>
  \<open>ht_init\<close>: the block count is truncated to 32 bits by \<open>from_cblock\<close>. The result holds
  \<open>nr_buckets\<close> and \<open>hash_bits\<close>; the allocation itself is taken to succeed.
\<close>

definition ht_init :: "u64 \<Rightarrow> (u32 \<times> u64) res" where
  "ht_init nr =
     rbind (next_power ((ucast nr :: u32) div 2) 16) (\<lambda>nr_buckets.
     Inr (nr_buckets, of_nat (ffs nr_buckets) - 1))"

section \<open>Properties\<close>

lemma push_bit_1_unat: "pow < 32 \<Longrightarrow> unat (push_bit pow (1 :: u32)) = 2 ^ pow"
  by (simp add: push_bit_eq_mult unat_pow2)

lemma push_bit_1_pow: "push_bit pow (1 :: u32) = 2 ^ pow"
  by (simp add: push_bit_eq_mult)

lemma next_power_from_spec:
  assumes "pow \<le> 31" "unat x \<le> 2 ^ 31"
  shows "\<exists>k. pow \<le> k \<and> k \<le> 31 \<and> next_power_from x pow = Inr (2 ^ k) \<and> unat x \<le> 2 ^ k \<and>
             (pow < k \<longrightarrow> 2 ^ (k - 1) < unat x)"
  using assms
proof (induction x pow rule: next_power_from.induct)
  case (1 x pow)
  have u: "unat (push_bit pow (1 :: u32)) = 2 ^ pow"
    using "1.prems" by (intro push_bit_1_unat) simp
  show ?case
  proof (cases "x > push_bit pow 1")
    case True
    then have gt: "2 ^ pow < unat x" using u by (simp add: word_less_nat_alt)
    then have "(2::nat) ^ pow < 2 ^ 31" using "1.prems" by simp
    then have "Suc pow \<le> 31" using power_strict_increasing_iff [of "2::nat" pow 31] by simp
    with "1.IH" True "1.prems" obtain k where k: "Suc pow \<le> k" "k \<le> 31"
      "next_power_from x (Suc pow) = Inr (2 ^ k)" "unat x \<le> 2 ^ k"
      "Suc pow < k \<longrightarrow> 2 ^ (k - 1) < unat x" by auto
    then have "next_power_from x pow = Inr (2 ^ k)"
      using True "1.prems" by (subst next_power_from.simps) simp
    moreover have "2 ^ (k - 1) < unat x" using k gt by (cases "Suc pow = k") auto
    ultimately show ?thesis using k by (intro exI [of _ k]) auto
  next
    case False
    then have "next_power_from x pow = Inr (2 ^ pow)"
      using "1.prems" by (subst next_power_from.simps) (simp add: push_bit_1_pow)
    moreover have "unat x \<le> 2 ^ pow" using False u by (simp add: word_less_nat_alt)
    ultimately show ?thesis using "1.prems" by (intro exI [of _ pow]) simp
  qed
qed

lemma bit_pow2_iff: "k < 32 \<Longrightarrow> bit (2 ^ k :: u32) i \<longleftrightarrow> i = k"
  by (auto simp: bit_exp_iff)

lemma ffs_pow2:
  assumes "k < 32"
  shows "ffs (2 ^ k) = Suc k"
proof -
  have "[0..<32] = [0..<k] @ k # [Suc k..<32]"
    using assms by (metis less_imp_le_nat upt_conv_Cons upt_add_eq_append le_add_diff_inverse zero_le)
  moreover have "find (bit (2 ^ k :: u32)) [0..<k] = None"
    using assms by (auto simp: find_None_iff bit_pow2_iff)
  moreover have "find P (xs @ ys) = (case find P xs of None \<Rightarrow> find P ys | Some x \<Rightarrow> Some x)"
    for P :: "nat \<Rightarrow> bool" and xs ys
    by (induction xs) auto
  ultimately show ?thesis using assms by (simp add: ffs_def bit_pow2_iff)
qed

text \<open>The sizes \<open>ht_init\<close> chooses: a power of two, between 16 and 2^31.\<close>

lemma ht_init_spec:
  "\<exists>k. 4 \<le> k \<and> k \<le> 31 \<and> ht_init nr = Inr (2 ^ k, of_nat k) \<and>
       unat ((ucast nr :: u32) div 2) \<le> 2 ^ k"
proof -
  let ?n = "(ucast nr :: u32) div 2"
  let ?x = "max_u ?n 16"
  have n: "unat ?n < 2 ^ 31" using unat_less_exp [of "ucast nr :: u32"] by (simp add: unat_div)
  have x: "unat ?x \<le> 2 ^ 31" "16 \<le> unat ?x" "unat ?n \<le> unat ?x"
    using n by (auto simp: max_u_def word_less_nat_alt)
  obtain k where k: "k \<le> 31" "next_power_from ?x 0 = Inr (2 ^ k)" "unat ?x \<le> 2 ^ k"
    using next_power_from_spec [of 0 ?x] x(1) by auto
  have "(2::nat) ^ 4 \<le> 2 ^ k" using x(2) k(3) by simp
  then have "4 \<le> k" using power_increasing_iff [of "2::nat" 4 k] by simp
  moreover have "ht_init nr = Inr (2 ^ k, of_nat k)"
    using k by (simp add: ht_init_def next_power_def ffs_pow2)
  ultimately show ?thesis using k x by auto
qed

lemma hash_32_bound:
  assumes "1 \<le> k" "k \<le> 31"
  shows "\<exists>h. hash_32 val (of_nat k) = Inr h \<and> unat h < 2 ^ k"
proof -
  have u: "unat (32 - of_nat k :: u32) = 32 - k"
    using assms by (subst unat_sub) (simp_all add: word_le_nat_alt unat_of_nat)
  have "unat (drop_bit (32 - k) (hash_32_mul val)) = unat (hash_32_mul val) div 2 ^ (32 - k)"
    by (simp add: unat_drop_bit_eq) (simp add: drop_bit_eq_div)
  also have "\<dots> < 2 ^ k"
  proof -
    have "unat (hash_32_mul val) < 2 ^ (32 - k) * 2 ^ k"
      using unat_less_exp [of "hash_32_mul val"] assms by (simp flip: power_add)
    then show ?thesis by (simp add: less_mult_imp_div_less mult.commute)
  qed
  finally show ?thesis using assms u by (simp add: hash_32_def)
qed

text \<open>Every key hashes into the table that \<open>ht_init\<close> sized.\<close>

lemma hash_64_in_table:
  assumes "ht_init nr = Inr (nr_buckets, hash_bits)"
  shows "succeeds (hash_64 val (ucast hash_bits)) (\<lambda>h. h < nr_buckets)"
proof -
  obtain k where k: "4 \<le> k" "k \<le> 31" "nr_buckets = 2 ^ k" "hash_bits = of_nat k"
    using ht_init_spec [of nr] assms by auto
  have hb: "(ucast hash_bits :: u32) = of_nat k"
    using k by (simp add: ucast_of_nat_small)
  have "1 \<le> k" using k by simp
  then obtain h where "hash_64 val (of_nat k) = Inr h" "unat h < 2 ^ k"
    using hash_32_bound k(2) unfolding hash_64_def by blast
  then show ?thesis using k hb by (simp add: word_less_nat_alt unat_pow2)
qed

end
