(* ===== verification/Hashtable.thy ===== *)
theory Hashtable
  imports Kernel_List Hash
begin

text \<open>
  The chained hash table of \<open>src/src/include/tools/hashtable.h\<close> over the \<open>hlist\<close>s of
  \<open>src/src/include/kernel/list.h\<close>, at the level of the pointers; the relation \<open>table\<close>
  between such a memory and the list of the entries the table holds; the list-level
  operations that the rest of the development uses, and the theorems that the pointer-level
  operations implement them.
\<close>

section \<open>hlist\<close>

text \<open>
  \<open>'a\<close> is the type of entry addresses, bucket heads are numbered. \<open>pprev\<close> points to the
  pointer that points to the node: the \<open>first\<close> field of a bucket or the \<open>next\<close> field of
  another node.
\<close>

datatype 'a pptr = PNull | PPoison | FirstOf u32 | NextOf 'a

record 'a hlist_mem =
  hnext :: "'a \<Rightarrow> 'a lptr"
  pprev :: "'a \<Rightarrow> 'a pptr"
  first :: "u32 \<Rightarrow> 'a lptr"

fun read_pp :: "('a, 'm) hlist_mem_scheme \<Rightarrow> 'a pptr \<Rightarrow> 'a lptr" where
  "read_pp m (FirstOf b) = first m b"
| "read_pp m (NextOf x) = hnext m x"
| "read_pp m _ = Poison1"

fun write_pp :: "'a pptr \<Rightarrow> 'a lptr \<Rightarrow> ('a, 'm) hlist_mem_scheme \<Rightarrow> ('a, 'm) hlist_mem_scheme res" where
  "write_pp (FirstOf b) p m = Inr (m\<lparr>first := (first m)(b := p)\<rparr>)"
| "write_pp (NextOf x) p m = Inr (m\<lparr>hnext := (hnext m)(x := p)\<rparr>)"
| "write_pp _ p m = Inl NullDeref"

fun set_pprev :: "'a lptr \<Rightarrow> 'a pptr \<Rightarrow> ('a, 'm) hlist_mem_scheme \<Rightarrow> ('a, 'm) hlist_mem_scheme res" where
  "set_pprev (Ref x) pp m = Inr (m\<lparr>pprev := (pprev m)(x := pp)\<rparr>)"
| "set_pprev _ pp m = Inl NullDeref"

definition INIT_HLIST_NODE :: "'a \<Rightarrow> ('a, 'm) hlist_mem_scheme \<Rightarrow> ('a, 'm) hlist_mem_scheme" where
  "INIT_HLIST_NODE h m = m\<lparr>hnext := (hnext m)(h := Null), pprev := (pprev m)(h := PNull)\<rparr>"

definition hlist_unhashed :: "'a \<Rightarrow> ('a, 'm) hlist_mem_scheme \<Rightarrow> bool" where
  "hlist_unhashed h m = (pprev m h = PNull)"

definition hlist_empty :: "u32 \<Rightarrow> ('a, 'm) hlist_mem_scheme \<Rightarrow> bool" where
  "hlist_empty b m = (first m b = Null)"

definition hlist_unlink :: "'a \<Rightarrow> ('a, 'm) hlist_mem_scheme \<Rightarrow> ('a, 'm) hlist_mem_scheme res" where
  "hlist_unlink n m =
     (let next = hnext m n; pp = pprev m n in
      rbind (write_pp pp next m) (\<lambda>m.
      if next \<noteq> Null then set_pprev next pp m else Inr m))"

definition hlist_del :: "'a \<Rightarrow> ('a, 'm) hlist_mem_scheme \<Rightarrow> ('a, 'm) hlist_mem_scheme res" where
  "hlist_del n m =
     rbind (hlist_unlink n m) (\<lambda>m.
     Inr (m\<lparr>hnext := (hnext m)(n := Poison1), pprev := (pprev m)(n := PPoison)\<rparr>))"

definition hlist_del_init :: "'a \<Rightarrow> ('a, 'm) hlist_mem_scheme \<Rightarrow> ('a, 'm) hlist_mem_scheme res" where
  "hlist_del_init n m =
     (if \<not> hlist_unhashed n m
      then rbind (hlist_unlink n m) (\<lambda>m. Inr (INIT_HLIST_NODE n m))
      else Inr m)"

definition hlist_add_head :: "'a \<Rightarrow> u32 \<Rightarrow> ('a, 'm) hlist_mem_scheme \<Rightarrow> ('a, 'm) hlist_mem_scheme res" where
  "hlist_add_head n b m =
     (let f = first m b;
          m = m\<lparr>hnext := (hnext m)(n := f)\<rparr> in
      rbind (if f \<noteq> Null then set_pprev f (NextOf n) m else Inr m) (\<lambda>m.
      Inr (m\<lparr>first := (first m)(b := Ref n), pprev := (pprev m)(n := FirstOf b)\<rparr>)))"

section \<open>The hash table\<close>

text \<open>
  \<open>key x\<close> is the \<open>oblock\<close> of the entry at \<open>x\<close>. The buckets are the \<open>first\<close> fields
  with index below \<open>nr_buckets\<close>.
\<close>

record 'a hash_mem = "'a hlist_mem" +
  key :: "'a \<Rightarrow> oblock"
  nr_buckets :: u32
  hash_bits :: u64

text \<open>\<open>ht->table + h\<close>: a read or write of a bucket beyond the array is a fault.\<close>

definition bucket_of :: "'a hash_mem \<Rightarrow> oblock \<Rightarrow> u32 res" where
  "bucket_of m ob = rbind (hash_64 ob (ucast (hash_bits m))) (\<lambda>h.
     if h < nr_buckets m then Inr h else Inl OutOfBounds)"

definition hash_insert :: "'a \<Rightarrow> 'a hash_mem \<Rightarrow> 'a hash_mem res" where
  "hash_insert e m = rbind (bucket_of m (key m e)) (\<lambda>h. hlist_add_head e h m)"

text \<open>
  The search loop of \<open>hash_lookup\<close>. Following a chain that was destroyed may run for ever:
  the result \<open>None\<close>.
\<close>

partial_function (option) chain_find :: "'a hash_mem \<Rightarrow> oblock \<Rightarrow> 'a lptr \<Rightarrow> 'a option res option" where
  "chain_find m ob p =
     (case p of
        Null \<Rightarrow> Some (Inr None)
      | Ref e \<Rightarrow> if key m e = ob then Some (Inr (Some e)) else chain_find m ob (hnext m e)
      | Poison1 \<Rightarrow> Some (Inl NullDeref)
      | Poison2 \<Rightarrow> Some (Inl NullDeref))"

text \<open>A found entry is moved to the front of its bucket.\<close>

definition hash_lookup :: "oblock \<Rightarrow> 'a hash_mem \<Rightarrow> ('a option \<times> 'a hash_mem) res option" where
  "hash_lookup ob m =
     (case bucket_of m ob of
        Inl f \<Rightarrow> Some (Inl f)
      | Inr h \<Rightarrow>
          (case chain_find m ob (first m h) of
             None \<Rightarrow> None
           | Some (Inl f) \<Rightarrow> Some (Inl f)
           | Some (Inr None) \<Rightarrow> Some (Inr (None, m))
           | Some (Inr (Some e)) \<Rightarrow>
               Some (rbind (hlist_del e m) (\<lambda>m.
                     rbind (hlist_add_head e h m) (\<lambda>m. Inr (Some e, m))))))"

definition hash_remove :: "'a \<Rightarrow> 'a hash_mem \<Rightarrow> 'a hash_mem res" where
  "hash_remove e m = hlist_del e m"

section \<open>Chains\<close>

text \<open>
  \<open>hpath m pp xs qq\<close>: from the pointer \<open>pp\<close> the chain runs through \<open>xs\<close>, with every
  \<open>pprev\<close> pointing back, and \<open>qq\<close> is the pointer after the last of them. A \<open>chain\<close> ends
  in \<open>NULL\<close>.
\<close>

fun hpath :: "('a, 'm) hlist_mem_scheme \<Rightarrow> 'a pptr \<Rightarrow> 'a list \<Rightarrow> 'a pptr \<Rightarrow> bool" where
  "hpath m pp [] qq \<longleftrightarrow> pp = qq"
| "hpath m pp (x # xs) qq \<longleftrightarrow>
     read_pp m pp = Ref x \<and> pprev m x = pp \<and> hpath m (NextOf x) xs qq"

definition chain :: "('a, 'm) hlist_mem_scheme \<Rightarrow> u32 \<Rightarrow> 'a list \<Rightarrow> bool" where
  "chain m b xs \<longleftrightarrow>
     (\<exists>qq. hpath m (FirstOf b) xs qq \<and> read_pp m qq = Null) \<and> distinct xs"

definition end_pp :: "'a pptr \<Rightarrow> 'a list \<Rightarrow> 'a pptr" where
  "end_pp pp xs = (if xs = [] then pp else NextOf (last xs))"

lemma end_pp_simps [simp]: "end_pp pp [] = pp" "end_pp pp (xs @ [x]) = NextOf x"
  "end_pp pp (x # xs) = end_pp (NextOf x) xs"
  by (simp_all add: end_pp_def)

lemma hpath_end: "hpath m pp xs qq \<Longrightarrow> qq = end_pp pp xs"
  by (induction xs arbitrary: pp) auto

lemma hpath_append:
  "hpath m pp (xs @ ys) qq \<longleftrightarrow> hpath m pp xs (end_pp pp xs) \<and> hpath m (end_pp pp xs) ys qq"
  by (induction xs arbitrary: pp) auto

lemma end_pp_in: "end_pp pp xs \<in> insert pp (NextOf ` set xs)"
  by (cases xs rule: rev_cases) auto

lemma chain_iff: "chain m b xs \<longleftrightarrow>
  hpath m (FirstOf b) xs (end_pp (FirstOf b) xs) \<and> read_pp m (end_pp (FirstOf b) xs) = Null \<and>
  distinct xs"
  unfolding chain_def using hpath_end by blast

text \<open>What a path reads: the pointers before its end and the \<open>pprev\<close> of its nodes.\<close>

lemma hpath_frame:
  assumes "hpath m pp xs qq" "qq \<notin> insert pp (NextOf ` set xs) \<or> xs = [] \<or> distinct xs \<and> pp \<notin> NextOf ` set xs"
    and "\<And>c. c \<in> insert pp (NextOf ` set xs) \<Longrightarrow> c \<noteq> qq \<Longrightarrow> read_pp m' c = read_pp m c"
    and "\<And>x. x \<in> set xs \<Longrightarrow> pprev m' x = pprev m x"
  shows "hpath m' pp xs qq"
  using assms
proof (induction xs arbitrary: pp)
  case Nil
  then show ?case by simp
next
  case (Cons x xs)
  have qq: "qq = end_pp (NextOf x) xs" using Cons.prems(1) hpath_end by fastforce
  then have in': "qq \<in> NextOf ` set (x # xs)" using end_pp_in [of "NextOf x" xs] by auto
  then have d: "distinct (x # xs)" "pp \<notin> NextOf ` set (x # xs)" using Cons.prems(2) by auto
  then have "pp \<noteq> qq" using in' by blast
  then have "read_pp m' pp = Ref x" using Cons.prems(1,3) by simp
  moreover have "hpath m' (NextOf x) xs qq"
    by (rule Cons.IH) (use Cons.prems d in auto)
  ultimately show ?case using Cons.prems by simp
qed

lemma hpath_frame_all:
  assumes "hpath m pp xs qq"
    and "\<And>c. c \<in> insert pp (NextOf ` set xs) \<Longrightarrow> read_pp m' c = read_pp m c"
    and "\<And>x. x \<in> set xs \<Longrightarrow> pprev m' x = pprev m x"
  shows "hpath m' pp xs qq"
  using assms by (induction xs arbitrary: pp) auto

lemma chain_frame:
  assumes "chain m b xs" "first m' b = first m b"
    and "\<And>x. x \<in> set xs \<Longrightarrow> hnext m' x = hnext m x \<and> pprev m' x = pprev m x"
  shows "chain m' b xs"
proof -
  have rd: "read_pp m' c = read_pp m c" if "c \<in> insert (FirstOf b) (NextOf ` set xs)" for c
    using that assms(2,3) by auto
  then show ?thesis
    using assms(1) hpath_frame_all [OF _ rd] assms(3) end_pp_in [of "FirstOf b" xs]
    unfolding chain_iff by metis
qed

lemma chain_Cons: "chain m b (x # xs) \<Longrightarrow> first m b = Ref x \<and> pprev m x = FirstOf b"
  by (simp add: chain_iff)

lemma chain_Nil: "chain m b [] \<longleftrightarrow> first m b = Null"
  by (simp add: chain_iff)

text \<open>Nodes and buckets an operation leaves alone.\<close>

definition hkept :: "'a set \<Rightarrow> u32 \<Rightarrow> ('a, 'm) hlist_mem_scheme \<Rightarrow> ('a, 'm) hlist_mem_scheme \<Rightarrow> bool" where
  "hkept A b m m' \<longleftrightarrow>
     (\<forall>x. x \<notin> A \<longrightarrow> hnext m' x = hnext m x \<and> pprev m' x = pprev m x) \<and>
     (\<forall>c. c \<noteq> b \<longrightarrow> first m' c = first m c) \<and>
     hlist_mem.more m' = hlist_mem.more m"

theorem hlist_add_head_chain:
  assumes c: "chain m b xs" and x: "x \<notin> set xs"
  shows "succeeds (hlist_add_head x b m)
           (\<lambda>m'. chain m' b (x # xs) \<and> hkept (insert x (set xs)) b m m')"
proof (cases xs)
  case Nil
  then show ?thesis using c
    by (simp add: hlist_add_head_def chain_iff hkept_def Let_def)
next
  case (Cons y ys)
  have f: "first m b = Ref y" using c Cons chain_Cons by fast
  let ?m = "m\<lparr>hnext := (hnext m)(x := Ref y), pprev := (pprev m)(y := NextOf x, x := FirstOf b),
              first := (first m)(b := Ref x)\<rparr>"
  have eq: "hlist_add_head x b m = Inr ?m"
    by (simp add: hlist_add_head_def f Let_def)
  have d: "distinct (y # ys)" "x \<noteq> y" "x \<notin> set ys" using c x Cons by (auto simp: chain_iff)
  have "hpath m (NextOf y) ys (end_pp (NextOf y) ys)" using c Cons by (simp add: chain_iff)
  then have "hpath ?m (NextOf y) ys (end_pp (NextOf y) ys)"
    by (rule hpath_frame_all) (use d in auto)
  moreover have "read_pp ?m (end_pp (NextOf y) ys) = Null"
    using c Cons d end_pp_in [of "NextOf y" ys] by (auto simp: chain_iff)
  ultimately have "chain ?m b (x # y # ys)" using d by (simp add: chain_iff)
  then show ?thesis using Cons eq by (simp add: hkept_def)
qed

lemma write_pp_spec:
  assumes "pp = FirstOf b \<or> (\<exists>y. pp = NextOf y)"
  shows "\<exists>m'. write_pp pp p m = Inr m' \<and> pprev m' = pprev m \<and>
           hlist_mem.more m' = hlist_mem.more m \<and>
           (\<forall>c. read_pp m' c = (if c = pp then p else read_pp m c))"
proof -
  have "read_pp (m\<lparr>first := (first m)(b := p)\<rparr>) c = (if c = FirstOf b then p else read_pp m c)"
    "read_pp (m\<lparr>hnext := (hnext m)(y := p)\<rparr>) c = (if c = NextOf y then p else read_pp m c)" for c y
    by (cases c; simp)+
  then show ?thesis using assms by auto
qed

theorem hlist_del_chain:
  assumes c: "chain m b xs" and x: "x \<in> set xs"
  shows "succeeds (hlist_del x m)
           (\<lambda>m'. chain m' b (remove1 x xs) \<and> hkept (set xs) b m m')"
proof -
  obtain ys zs where xs: "xs = ys @ x # zs" using x by (auto simp: in_set_conv_decomp)
  obtain qq where qq: "qq = end_pp (FirstOf b) ys" by blast
  have d: "distinct (ys @ x # zs)" using c xs by (simp add: chain_iff)
  have rm: "remove1 x xs = ys @ zs" using d xs by (simp add: remove1_append)
  have left: "hpath m (FirstOf b) ys qq" and pp: "pprev m x = qq" and
    right: "hpath m (NextOf x) zs (end_pp (NextOf x) zs)" and
    nul: "read_pp m (end_pp (NextOf x) zs) = Null"
    using c xs qq by (auto simp: chain_iff hpath_append end_pp_def split: if_splits)
  have qin: "qq = FirstOf b \<or> (\<exists>y\<in>set ys. qq = NextOf y)"
    using qq end_pp_in [of "FirstOf b" ys] by auto
  obtain m1 where m1: "write_pp qq (hnext m x) m = Inr m1" "pprev m1 = pprev m"
    "hlist_mem.more m1 = hlist_mem.more m"
    and rd1: "\<And>c. read_pp m1 c = (if c = qq then hnext m x else read_pp m c)"
    using write_pp_spec [of qq b "hnext m x" m] qin by auto
  have hn: "hnext m' y = read_pp m' (NextOf y)" "first m' c = read_pp m' (FirstOf c)"
    for m' :: "('a, 'b) hlist_mem_scheme" and y c by simp_all
  obtain m2 where m2: "hlist_unlink x m = Inr m2" "hnext m2 = hnext m1" "first m2 = first m1"
    "hlist_mem.more m2 = hlist_mem.more m"
    and pp2: "\<And>y. pprev m2 y = (if zs \<noteq> [] \<and> y = hd zs then qq else pprev m y)"
  proof (cases zs)
    case Nil
    then have "hnext m x = Null" using nul by simp
    then show ?thesis using that [of m1] m1 pp Nil by (simp add: hlist_unlink_def Let_def)
  next
    case (Cons z zs')
    then have "hnext m x = Ref z" using right by simp
    then show ?thesis
      using that [of "m1\<lparr>pprev := (pprev m1)(z := qq)\<rparr>"] m1 pp Cons
      by (simp add: hlist_unlink_def Let_def)
  qed
  obtain m' where m': "m' = m2\<lparr>hnext := (hnext m2)(x := Poison1), pprev := (pprev m2)(x := PPoison)\<rparr>"
    by blast
  have rd: "read_pp m' c = (if c = qq then hnext m x else read_pp m c)" if "c \<noteq> NextOf x" for c
    using that rd1 [of c] m2 by (cases c) (auto simp: m')
  have ppm: "pprev m' y = (if y = x then PPoison else if zs \<noteq> [] \<and> y = hd zs then qq else pprev m y)" for y
    using pp2 by (simp add: m')
  have xz: "x \<noteq> hd zs" if "zs \<noteq> []" using d that by (cases zs) auto
  have rdy: "read_pp m' c = read_pp m c" if "c \<in> insert (FirstOf b) (NextOf ` set ys)" "c \<noteq> qq" for c
    using that d rd [of c] by auto
  have "pprev m' y = pprev m y" if "y \<in> set ys" for y
    using that d hd_in_set [of zs] ppm [of y] by (auto simp del: hd_in_set)
  then have L: "hpath m' (FirstOf b) ys qq"
    using left rdy d by (intro hpath_frame [of m _ ys qq m']) auto
  have R: "hpath m' qq zs (end_pp qq zs) \<and> read_pp m' (end_pp qq zs) = Null"
  proof (cases zs)
    case Nil
    then show ?thesis using nul rd [of qq] qin d by (auto simp del: read_pp.simps simp: hn)
  next
    case (Cons z zs')
    have z: "hnext m x = Ref z" using right Cons by simp
    have nq: "NextOf y \<noteq> qq" if "y \<in> set zs" for y using qin d that by auto
    have rdz: "read_pp m' c = read_pp m c" if "c \<in> NextOf ` set zs" for c
    proof -
      obtain y where y: "c = NextOf y" "y \<in> set zs" using \<open>c \<in> NextOf ` set zs\<close> by blast
      then have "y \<noteq> x" using d by auto
      then show ?thesis using nq [OF y(2)] rd [of c] y(1) by auto
    qed
    have ppz: "pprev m' y = pprev m y" if "y \<in> set zs'" for y
      using that d Cons ppm [of y] by auto
    have "hpath m (NextOf z) zs' (end_pp (NextOf z) zs')" using right Cons by simp
    then have "hpath m' (NextOf z) zs' (end_pp (NextOf z) zs')"
      using rdz ppz Cons by (intro hpath_frame_all [of m _ zs' _ m']) auto
    moreover have "end_pp (NextOf z) zs' \<in> NextOf ` set zs" using end_pp_in [of "NextOf z" zs'] Cons by auto
    then have "read_pp m' (end_pp (NextOf z) zs') = read_pp m (end_pp (NextOf z) zs')"
      using rdz by blast
    moreover have "qq \<noteq> NextOf x" using qin d by auto
    ultimately show ?thesis
      using Cons z xz rd [of qq] ppm [of z] nul d by (simp del: read_pp.simps)
  qed
  have "chain m' b (ys @ zs)"
    using L R d qq by (simp add: chain_iff hpath_append end_pp_def split: if_splits)
  moreover have "hkept (set xs) b m m'"
    unfolding hkept_def
  proof (intro conjI allI impI)
    fix y assume y: "y \<notin> set xs"
    then have "NextOf y \<noteq> qq" "NextOf y \<noteq> NextOf x" using qin xs by auto
    then show "hnext m' y = hnext m y" using rd [of "NextOf y"] by simp
    show "pprev m' y = pprev m y" using y xs ppm [of y] hd_in_set [of zs] by (auto simp del: hd_in_set)
  next
    fix c assume "c \<noteq> b"
    then have "FirstOf c \<noteq> qq" using qin by auto
    then show "first m' c = first m c" using rd [of "FirstOf c"] by simp
  next
    show "hlist_mem.more m' = hlist_mem.more m" using m2 m' by simp
  qed
  ultimately show ?thesis using m2 by (simp add: hlist_del_def rm m')
qed

section \<open>The table as a list of entries\<close>

text \<open>
  The operations the rest of the development uses work on the list of the entries in the
  table, most recently inserted first; \<open>k\<close> gives the key of an entry. Inserting an entry that
  is linked already is the fault \<open>Corrupt\<close>, removing one that is not is \<open>NullDeref\<close>.
\<close>

definition tbl_lookup :: "('a \<Rightarrow> oblock) \<Rightarrow> 'a list \<Rightarrow> oblock \<Rightarrow> 'a option" where
  "tbl_lookup k t ob = find (\<lambda>e. k e = ob) t"

definition tbl_insert :: "'a \<Rightarrow> 'a list \<Rightarrow> 'a list res" where
  "tbl_insert e t = (if e \<in> set t then Inl Corrupt else Inr (e # t))"

definition tbl_remove :: "'a \<Rightarrow> 'a list \<Rightarrow> 'a list res" where
  "tbl_remove e t = (if e \<in> set t then Inr (remove1 e t) else Inl NullDeref)"

lemma succeeds_tbl_insert [wp]: "succeeds (tbl_insert e t) P \<longleftrightarrow> e \<notin> set t \<and> P (e # t)"
  by (simp add: tbl_insert_def)

lemma succeeds_tbl_remove [wp]: "succeeds (tbl_remove e t) P \<longleftrightarrow> e \<in> set t \<and> P (remove1 e t)"
  by (simp add: tbl_remove_def)

text \<open>
  \<open>table m t\<close>: the memory holds a well-sized table whose buckets are chains, every entry is
  in the bucket of its key, and for each key the entries of that key stand in the bucket in
  the order of the list \<open>t\<close>.
\<close>

definition table :: "'a hash_mem \<Rightarrow> 'a list \<Rightarrow> bool" where
  "table m t \<longleftrightarrow>
     (\<exists>nr. ht_init nr = Inr (nr_buckets m, hash_bits m)) \<and> distinct t \<and>
     (\<exists>B. (\<forall>b < nr_buckets m. chain m b (B b)) \<and>
          (\<forall>b < nr_buckets m. \<forall>x \<in> set (B b). x \<in> set t \<and> bucket_of m (key m x) = Inr b) \<and>
          (\<forall>b < nr_buckets m. \<forall>ob. bucket_of m ob = Inr b \<longrightarrow>
             filter (\<lambda>x. key m x = ob) (B b) = filter (\<lambda>x. key m x = ob) t))"

lemma bucket_of_ok:
  assumes "ht_init nr = Inr (nr_buckets m, hash_bits m)"
  shows "\<exists>b. bucket_of m ob = Inr b \<and> b < nr_buckets m"
  using hash_64_in_table [OF assms, of ob]
  by (auto simp: bucket_of_def succeeds_iff_Inr)

lemma chain_find_path:
  assumes "hpath m pp xs qq" "read_pp m qq = Null"
  shows "chain_find m ob (read_pp m pp) = Some (Inr (find (\<lambda>x. key m x = ob) xs))"
  using assms
proof (induction xs arbitrary: pp)
  case Nil
  then show ?case by (simp add: chain_find.simps)
next
  case (Cons x xs)
  then show ?case using Cons.IH [of "NextOf x"] by (simp add: chain_find.simps)
qed

lemma chain_find_chain:
  "chain m b xs \<Longrightarrow> chain_find m ob (first m b) = Some (Inr (find (\<lambda>x. key m x = ob) xs))"
  using chain_find_path [of m "FirstOf b" xs _ ob] by (auto simp: chain_def)

lemma find_filter_hd:
  "find P xs = (case filter P xs of [] \<Rightarrow> None | x # _ \<Rightarrow> Some x)"
  by (induction xs) auto

lemma hkept_fields:
  assumes "hkept A b (m :: 'a hash_mem) m'"
  shows "key m' = key m" "nr_buckets m' = nr_buckets m" "hash_bits m' = hash_bits m"
    "bucket_of m' ob = bucket_of m ob"
proof -
  show "key m' = key m" "nr_buckets m' = nr_buckets m" "hash_bits m' = hash_bits m"
    using assms by (cases m; cases m'; simp add: hkept_def)+
  then show "bucket_of m' ob = bucket_of m ob" by (simp add: bucket_of_def)
qed

text \<open>Replacing the contents of one bucket, in memory and in the list.\<close>

lemma table_updI:
  assumes t: "ht_init nr = Inr (nr_buckets m, hash_bits m)"
    and ch: "\<forall>b < nr_buckets m. chain m b (B b)"
    and mem: "\<forall>b < nr_buckets m. \<forall>x \<in> set (B b). x \<in> set t \<and> bucket_of m (key m x) = Inr b"
    and flt: "\<forall>b < nr_buckets m. \<forall>ob. bucket_of m ob = Inr b \<longrightarrow>
        filter (\<lambda>x. key m x = ob) (B b) = filter (\<lambda>x. key m x = ob) t"
    and h: "h < nr_buckets m"
    and kept: "hkept (insert x (set (B h))) h m m'" and x: "\<forall>b < nr_buckets m. b \<noteq> h \<longrightarrow> x \<notin> set (B b)"
    and ch': "chain m' h ys" and d: "distinct t'"
    and ys: "\<forall>y \<in> set ys. y \<in> set t' \<and> bucket_of m (key m y) = Inr h"
    and sub: "\<forall>b < nr_buckets m. b \<noteq> h \<longrightarrow> set (B b) \<subseteq> set t'"
    and flt': "\<And>ob. bucket_of m ob = Inr h \<Longrightarrow>
        filter (\<lambda>x. key m x = ob) ys = filter (\<lambda>x. key m x = ob) t'"
      "\<And>ob b. bucket_of m ob = Inr b \<Longrightarrow> b \<noteq> h \<Longrightarrow>
        filter (\<lambda>x. key m x = ob) t' = filter (\<lambda>x. key m x = ob) t"
  shows "table m' t'"
proof -
  note fl = hkept_fields [OF kept]
  have other: "chain m' b (B b)" if "b < nr_buckets m" "b \<noteq> h" for b
  proof (rule chain_frame)
    show "chain m b (B b)" using ch that by simp
    show "first m' b = first m b" using kept that by (simp add: hkept_def)
    fix y assume y: "y \<in> set (B b)"
    then have "bucket_of m (key m y) = Inr b" using mem that by blast
    then have "y \<notin> set (B h)" using mem h that by force
    moreover have "y \<noteq> x" using x y that by blast
    ultimately show "hnext m' y = hnext m y \<and> pprev m' y = pprev m y"
      using kept by (simp add: hkept_def)
  qed
  show ?thesis
    unfolding table_def fl
  proof (intro conjI exI [of _ "B(h := ys)"] allI ballI impI)
    show "\<exists>nr. ht_init nr = Inr (nr_buckets m, hash_bits m)" using t by blast
    show "distinct t'" by (rule d)
  next
    fix b assume b: "b < nr_buckets m"
    show "chain m' b ((B(h := ys)) b)" using other [OF b] ch' by simp
    show "filter (\<lambda>x. key m x = ob) ((B(h := ys)) b) = filter (\<lambda>x. key m x = ob) t'"
      if "bucket_of m ob = Inr b" for ob
      using that b flt flt' by (cases "b = h") auto
    fix y assume y: "y \<in> set ((B(h := ys)) b)"
    show "y \<in> set t'" using y b ys sub by (cases "b = h") auto
    show "bucket_of m (key m y) = Inr b" using y b ys mem by (cases "b = h") auto
  qed
qed

theorem hash_insert_list:
  assumes tab: "table m t" and e: "e \<notin> set t"
  shows "succeeds (hash_insert e m) (\<lambda>m'. table m' (e # t) \<and> key m' = key m)"
proof -
  obtain nr B where t: "ht_init nr = Inr (nr_buckets m, hash_bits m)"
    and ch: "\<forall>b < nr_buckets m. chain m b (B b)"
    and mem: "\<forall>b < nr_buckets m. \<forall>x \<in> set (B b). x \<in> set t \<and> bucket_of m (key m x) = Inr b"
    and flt: "\<forall>b < nr_buckets m. \<forall>ob. bucket_of m ob = Inr b \<longrightarrow>
        filter (\<lambda>x. key m x = ob) (B b) = filter (\<lambda>x. key m x = ob) t" and d: "distinct t"
    using tab unfolding table_def by blast
  obtain h where h: "bucket_of m (key m e) = Inr h" "h < nr_buckets m"
    using bucket_of_ok [OF t] by blast
  have out: "\<forall>b < nr_buckets m. e \<notin> set (B b)" using mem e by blast
  have cB: "chain m h (B h)" and eB: "e \<notin> set (B h)" using ch h out by auto
  show ?thesis
    unfolding hash_insert_def succeeds_rbind h(1) succeeds_Inr
  proof (rule succeeds_mono [OF hlist_add_head_chain [OF cB eB]], elim conjE)
    fix m' assume c: "chain m' h (e # B h)" and k: "hkept (insert e (set (B h))) h m m'"
    have "table m' (e # t)"
    proof (rule table_updI [OF t ch mem flt h(2) k _ c])
      show "\<forall>b < nr_buckets m. b \<noteq> h \<longrightarrow> e \<notin> set (B b)" using out by blast
      show "distinct (e # t)" using d e by simp
      show "\<forall>y \<in> set (e # B h). y \<in> set (e # t) \<and> bucket_of m (key m y) = Inr h"
        using mem h by auto
      show "\<forall>b < nr_buckets m. b \<noteq> h \<longrightarrow> set (B b) \<subseteq> set (e # t)" using mem by auto
    qed (use flt h in auto)
    then show "table m' (e # t) \<and> key m' = key m" using hkept_fields [OF k] by simp
  qed
qed

lemma filter_remove1_other: "\<not> P x \<Longrightarrow> filter P (remove1 x xs) = filter P xs"
  by (induction xs) auto

lemma filter_remove1: "distinct xs \<Longrightarrow> filter P (remove1 x xs) = remove1 x (filter P xs)"
  by (induction xs) (auto simp: remove1_idem)

theorem hash_remove_list:
  assumes tab: "table m t" and e: "e \<in> set t"
  shows "succeeds (hash_remove e m) (\<lambda>m'. table m' (remove1 e t) \<and> key m' = key m)"
proof -
  obtain nr B where t: "ht_init nr = Inr (nr_buckets m, hash_bits m)"
    and ch: "\<forall>b < nr_buckets m. chain m b (B b)"
    and mem: "\<forall>b < nr_buckets m. \<forall>x \<in> set (B b). x \<in> set t \<and> bucket_of m (key m x) = Inr b"
    and flt: "\<forall>b < nr_buckets m. \<forall>ob. bucket_of m ob = Inr b \<longrightarrow>
        filter (\<lambda>x. key m x = ob) (B b) = filter (\<lambda>x. key m x = ob) t" and d: "distinct t"
    using tab unfolding table_def by blast
  obtain h where h: "bucket_of m (key m e) = Inr h" "h < nr_buckets m"
    using bucket_of_ok [OF t] by blast
  have "e \<in> set (filter (\<lambda>x. key m x = key m e) (B h))"
    using flt h e by simp
  then have inB: "e \<in> set (B h)" by simp
  have out: "\<forall>b < nr_buckets m. b \<noteq> h \<longrightarrow> e \<notin> set (B b)" using mem h by force
  have cB: "chain m h (B h)" using ch h by auto
  then have dB: "distinct (B h)" by (auto simp: chain_def)
  show ?thesis
    unfolding hash_remove_def
  proof (rule succeeds_mono [OF hlist_del_chain [OF cB inB]], elim conjE)
    fix m' assume c: "chain m' h (remove1 e (B h))" and k: "hkept (set (B h)) h m m'"
    have k': "hkept (insert e (set (B h))) h m m'" using k inB by (simp add: insert_absorb)
    have "table m' (remove1 e t)"
    proof (rule table_updI [OF t ch mem flt h(2) k' out c])
      show "distinct (remove1 e t)" using d by simp
      show "\<forall>y \<in> set (remove1 e (B h)). y \<in> set (remove1 e t) \<and> bucket_of m (key m y) = Inr h"
        using mem h d dB by auto
      show "\<forall>b < nr_buckets m. b \<noteq> h \<longrightarrow> set (B b) \<subseteq> set (remove1 e t)"
        using mem out d by auto
      show "filter (\<lambda>x. key m x = ob) (remove1 e (B h)) = filter (\<lambda>x. key m x = ob) (remove1 e t)"
        if "bucket_of m ob = Inr h" for ob
        using flt h that d dB by (simp add: filter_remove1)
      show "filter (\<lambda>x. key m x = ob) (remove1 e t) = filter (\<lambda>x. key m x = ob) t"
        if "bucket_of m ob = Inr b" "b \<noteq> h" for ob b
        by (rule filter_remove1_other) (use that h in auto)
    qed
    then show "table m' (remove1 e t) \<and> key m' = key m" using hkept_fields [OF k] by simp
  qed
qed

lemma hkept_trans:
  assumes "hkept A b m m1" "hkept A' b m1 m2" "A \<union> A' \<subseteq> C"
  shows "hkept C b m m2"
proof -
  have "x \<notin> A \<and> x \<notin> A'" if "x \<notin> C" for x using that assms(3) by blast
  then show ?thesis using assms(1,2) by (simp add: hkept_def)
qed

text \<open>
  A lookup finds what the list lookup finds. The move to the front of the bucket keeps the
  order of the entries of every single key, so the table still stands for the same list.
\<close>

theorem hash_lookup_list:
  assumes tab: "table m t"
  shows "\<exists>m'. hash_lookup ob m = Some (Inr (tbl_lookup (key m) t ob, m')) \<and>
              table m' t \<and> key m' = key m"
proof -
  obtain nr B where t: "ht_init nr = Inr (nr_buckets m, hash_bits m)"
    and ch: "\<forall>b < nr_buckets m. chain m b (B b)"
    and mem: "\<forall>b < nr_buckets m. \<forall>x \<in> set (B b). x \<in> set t \<and> bucket_of m (key m x) = Inr b"
    and flt: "\<forall>b < nr_buckets m. \<forall>ob. bucket_of m ob = Inr b \<longrightarrow>
        filter (\<lambda>x. key m x = ob) (B b) = filter (\<lambda>x. key m x = ob) t" and d: "distinct t"
    using tab unfolding table_def by blast
  obtain h where h: "bucket_of m ob = Inr h" "h < nr_buckets m"
    using bucket_of_ok [OF t] by blast
  have cB: "chain m h (B h)" using ch h by auto
  have fnd: "chain_find m ob (first m h) = Some (Inr (tbl_lookup (key m) t ob))"
    using chain_find_chain [OF cB, of ob] flt h by (simp add: tbl_lookup_def find_filter_hd)
  show ?thesis
  proof (cases "tbl_lookup (key m) t ob")
    case None
    then show ?thesis using fnd h tab by (simp add: hash_lookup_def)
  next
    case (Some e)
    then obtain rest where rest: "filter (\<lambda>x. key m x = ob) (B h) = e # rest"
      using flt h by (auto simp: tbl_lookup_def find_filter_hd split: list.splits)
    then have "e \<in> set (filter (\<lambda>x. key m x = ob) (B h))" by simp
    then have eB: "e \<in> set (B h)" and ke: "key m e = ob" by auto
    have dB: "distinct (B h)" using cB by (auto simp: chain_def)
    obtain m1 where m1: "hlist_del e m = Inr m1" "chain m1 h (remove1 e (B h))"
      "hkept (set (B h)) h m m1"
      using hlist_del_chain [OF cB eB] by (auto simp: succeeds_iff_Inr)
    have "e \<notin> set (remove1 e (B h))" using dB by simp
    from hlist_add_head_chain [OF m1(2) this]
    obtain m2 where m2: "hlist_add_head e h m1 = Inr m2" "chain m2 h (e # remove1 e (B h))"
      "hkept (insert e (set (remove1 e (B h)))) h m1 m2"
      by (auto simp: succeeds_iff_Inr)
    have k: "hkept (insert e (set (B h))) h m m2"
      by (rule hkept_trans [OF m1(3) m2(3)]) (use set_remove1_subset in fastforce)
    have "table m2 t"
    proof (rule table_updI [OF t ch mem flt h(2) k _ m2(2) d])
      show "\<forall>b < nr_buckets m. b \<noteq> h \<longrightarrow> e \<notin> set (B b)" using mem h ke by force
      show "\<forall>y \<in> set (e # remove1 e (B h)). y \<in> set t \<and> bucket_of m (key m y) = Inr h"
        using mem h eB dB by auto
      show "\<forall>b < nr_buckets m. b \<noteq> h \<longrightarrow> set (B b) \<subseteq> set t" using mem by auto
      show "filter (\<lambda>x. key m x = ob') (e # remove1 e (B h)) = filter (\<lambda>x. key m x = ob') t"
        if "bucket_of m ob' = Inr h" for ob'
      proof (cases "ob' = ob")
        case True
        then show ?thesis using rest flt h ke dB by (simp add: filter_remove1)
      next
        case False
        then show ?thesis using flt h ke that by (simp add: filter_remove1_other)
      qed
    qed simp
    then show ?thesis
      using fnd h Some m1 m2 hkept_fields [OF k] by (simp add: hash_lookup_def)
  qed
qed

text \<open>The empty table that \<open>ht_init\<close> and the zeroed allocation of its buckets give.\<close>

lemma table_empty:
  assumes "ht_init nr = Inr (nr_buckets m, hash_bits m)" "\<forall>b < nr_buckets m. first m b = Null"
  shows "table m []"
  unfolding table_def using assms by (auto intro!: exI [of _ "\<lambda>_. []"] simp: chain_Nil)

text \<open>Lookup after the list operations.\<close>

lemma tbl_lookup_Some:
  "distinct (map k t) \<Longrightarrow> tbl_lookup k t ob = Some e \<longleftrightarrow> e \<in> set t \<and> k e = ob"
  unfolding tbl_lookup_def by (rule find_key_iff)

lemma tbl_lookup_None: "tbl_lookup k t ob = None \<longleftrightarrow> ob \<notin> k ` set t"
  unfolding tbl_lookup_def by (rule find_key_None)

lemma tbl_lookup_SomeD: "tbl_lookup k t ob = Some e \<Longrightarrow> e \<in> set t \<and> k e = ob"
  unfolding tbl_lookup_def by (rule find_SomeD)

lemma tbl_lookup_Cons: "tbl_lookup k (e # t) ob = (if k e = ob then Some e else tbl_lookup k t ob)"
  by (simp add: tbl_lookup_def)

lemma tbl_lookup_cong: "(\<And>e. e \<in> set t \<Longrightarrow> k e = k' e) \<Longrightarrow> tbl_lookup k t ob = tbl_lookup k' t ob"
  unfolding tbl_lookup_def by (rule find_cong) simp

end
