(* ===== verification/Nucleus.thy ===== *)
theory Nucleus
  imports Epool Hashtable
begin

text \<open>
  The nucleus every policy is built on: the statistics (\<open>src/src/include/policy_stats.h\<close>), the
  operations and results (\<open>cache_nucleus_struct.h\<close>), the writeback tracker
  (\<open>writeback_tracker.h\<close>), the internal functions and the default API functions
  (\<open>cache_nucleus_internal.h\<close>); the invariant \<open>cn_ok\<close> of the nucleus, what each function
  does under it, and the view \<open>cview\<close> of the blocks the cache holds.
\<close>

section \<open>Statistics, operations and results\<close>

record policy_stats =
  st_ios :: u32
  st_hits :: u32
  st_misses :: u32
  st_filters :: u32
  st_promotions :: u32
  st_demotions :: u32
  st_private_stat :: u32

definition stats_init :: policy_stats where
  "stats_init = \<lparr>st_ios = 0, st_hits = 0, st_misses = 0, st_filters = 0, st_promotions = 0,
                 st_demotions = 0, st_private_stat = 0\<rparr>"

datatype cache_nucleus_operation =
    CACHE_NUCLEUS_HIT
  | CACHE_NUCLEUS_FILTER
  | CACHE_NUCLEUS_NEW
  | CACHE_NUCLEUS_REPLACE
  | CACHE_NUCLEUS_FAIL

datatype thread_support = CACHE_NUCLEUS_SINGLE_THREAD | CACHE_NUCLEUS_MULTI_THREAD

record cn_result =
  r_op :: cache_nucleus_operation
  r_old_oblock :: oblock
  r_cblock :: cblock
  r_dirty_eviction :: bool

text \<open>
  \<open>struct cache_nucleus\<close>. The policies extend the record, as the C structures contain it.
  The hashtable is the list of its entries, most recently inserted first: the theory
  \<open>Hashtable\<close> shows that the chains of the buckets implement that list.
\<close>

record 'e cache_nucleus = "'e entry_mem" +
  thread_support :: thread_support
  meta_size :: cblock
  cache_size :: cblock
  meta_pool :: entry_pool
  cache_pool :: entry_pool
  stats :: policy_stats
  ht :: "eptr list"
  cn_time :: u32

abbreviation upd_stats ::
  "(policy_stats \<Rightarrow> policy_stats) \<Rightarrow> ('e, 'm) cache_nucleus_scheme \<Rightarrow> ('e, 'm) cache_nucleus_scheme" where
  "upd_stats f s \<equiv> s\<lparr>stats := f (stats s)\<rparr>"

definition inc_ios where "inc_ios st = st\<lparr>st_ios := st_ios st + 1\<rparr>"
definition inc_hits where "inc_hits st = st\<lparr>st_hits := st_hits st + 1\<rparr>"
definition inc_misses where "inc_misses st = st\<lparr>st_misses := st_misses st + 1\<rparr>"
definition inc_filters where "inc_filters st = st\<lparr>st_filters := st_filters st + 1\<rparr>"
definition inc_promotions where "inc_promotions st = st\<lparr>st_promotions := st_promotions st + 1\<rparr>"
definition inc_demotions where "inc_demotions st = st\<lparr>st_demotions := st_demotions st + 1\<rparr>"
definition inc_private_stat where
  "inc_private_stat st = st\<lparr>st_private_stat := st_private_stat st + 1\<rparr>"

section \<open>The writeback tracker\<close>

definition wb_init :: "('e, 'm) entry_mem_scheme \<Rightarrow> ('e, 'm) entry_mem_scheme" where
  "wb_init s = s\<lparr>wb := (\<lambda>_. [])\<rparr>"

definition wb_push :: "wb_queue \<Rightarrow> eptr \<Rightarrow> ('e, 'm) entry_mem_scheme \<Rightarrow> ('e, 'm) entry_mem_scheme res" where
  "wb_push q e s =
     rbind (q_push (map (wb s) (remove1 q wb_queues)) (wb s q) e) (\<lambda>l.
     Inr (s\<lparr>wb := (wb s)(q := l)\<rparr>))"

definition wb_push_cache :: "eptr \<Rightarrow> ('e, 'm) entry_mem_scheme \<Rightarrow> ('e, 'm) entry_mem_scheme res" where
  "wb_push_cache e s = wb_push (if e_dirty (store s e) then WB_DIRTY else WB_CLEAN) e s"

definition wb_push_meta :: "eptr \<Rightarrow> ('e, 'm) entry_mem_scheme \<Rightarrow> ('e, 'm) entry_mem_scheme res" where
  "wb_push_meta e s = wb_push WB_META e s"

definition wb_remove :: "eptr \<Rightarrow> ('e, 'm) entry_mem_scheme \<Rightarrow> ('e, 'm) entry_mem_scheme" where
  "wb_remove e s = s\<lparr>wb := (\<lambda>q. q_remove e (wb s q))\<rparr>"

definition wb_pop_dirty ::
  "('e, 'm) entry_mem_scheme \<Rightarrow> eptr option \<times> ('e, 'm) entry_mem_scheme" where
  "wb_pop_dirty s =
     (case q_peek (wb s WB_DIRTY) of
        None \<Rightarrow> (None, s)
      | Some e \<Rightarrow> (Some e, wb_remove e s))"

section \<open>Internal functions\<close>

abbreviation key_of :: "(eptr \<Rightarrow> 'e entry_scheme) \<Rightarrow> eptr \<Rightarrow> oblock" where
  "key_of st \<equiv> \<lambda>e. e_oblock (st e)"

definition ht_lookup :: "oblock \<Rightarrow> ('e, 'm) cache_nucleus_scheme \<Rightarrow> eptr option" where
  "ht_lookup ob s = tbl_lookup (key_of (store s)) (ht s) ob"

definition ht_insert :: "eptr \<Rightarrow> ('e, 'm) cache_nucleus_scheme \<Rightarrow> ('e, 'm) cache_nucleus_scheme res" where
  "ht_insert e s = rbind (tbl_insert e (ht s)) (\<lambda>t. Inr (s\<lparr>ht := t\<rparr>))"

definition ht_remove :: "eptr \<Rightarrow> ('e, 'm) cache_nucleus_scheme \<Rightarrow> ('e, 'm) cache_nucleus_scheme res" where
  "ht_remove e s = rbind (tbl_remove e (ht s)) (\<lambda>t. Inr (s\<lparr>ht := t\<rparr>))"

text \<open>The pool argument of the C functions is \<open>&bp->cache_pool\<close> or \<open>&bp->meta_pool\<close>.\<close>

fun pool_of :: "region \<Rightarrow> ('e, 'm) cache_nucleus_scheme \<Rightarrow> entry_pool" where
  "pool_of CacheRegion s = cache_pool s"
| "pool_of MetaRegion s = meta_pool s"

fun set_pool :: "region \<Rightarrow> entry_pool \<Rightarrow> ('e, 'm) cache_nucleus_scheme \<Rightarrow> ('e, 'm) cache_nucleus_scheme" where
  "set_pool CacheRegion ep s = s\<lparr>cache_pool := ep\<rparr>"
| "set_pool MetaRegion ep s = s\<lparr>meta_pool := ep\<rparr>"

definition alloc_pool_entry ::
  "region \<Rightarrow> oblock \<Rightarrow> ('e, 'm) cache_nucleus_scheme \<Rightarrow> (eptr \<times> ('e, 'm) cache_nucleus_scheme) res" where
  "alloc_pool_entry r ob s =
     rbind (alloc_entry (pool_of r s) s) (\<lambda>(ptr, ep, s).
     let s = set_pool r ep s in
     rbind (log_assert (ptr \<noteq> None)) (\<lambda>_.
     rbind (deref ptr) (\<lambda>e.
     rbind (ht_insert e (upd_entry e (\<lambda>x. x\<lparr>e_oblock := ob, e_dirty := False\<rparr>) s)) (\<lambda>s.
     Inr (e, s)))))"

definition alloc_pool_entry_at ::
  "region \<Rightarrow> oblock \<Rightarrow> cblock \<Rightarrow> ('e, 'm) cache_nucleus_scheme \<Rightarrow>
   (eptr \<times> ('e, 'm) cache_nucleus_scheme) res" where
  "alloc_pool_entry_at r ob cb s =
     rbind (alloc_particular_entry (pool_of r s) cb s) (\<lambda>(e, ep, s).
     let s = set_pool r ep s in
     rbind (ht_insert e (upd_entry e (\<lambda>x. x\<lparr>e_oblock := ob, e_dirty := False\<rparr>) s)) (\<lambda>s.
     Inr (e, s)))"

definition insert_in_meta ::
  "oblock \<Rightarrow> ('e, 'm) cache_nucleus_scheme \<Rightarrow> (eptr \<times> ('e, 'm) cache_nucleus_scheme) res" where
  "insert_in_meta ob s = alloc_pool_entry MetaRegion ob s"

definition in_meta :: "('e, 'm) cache_nucleus_scheme \<Rightarrow> eptr option \<Rightarrow> bool" where
  "in_meta s p = in_pool (meta_pool s) p"

definition meta_is_full :: "('e, 'm) cache_nucleus_scheme \<Rightarrow> bool" where
  "meta_is_full s = epool_empty (meta_pool s)"

text \<open>The result pointer of the two insertions into the cache may be null.\<close>

definition insert_in_cache ::
  "oblock \<Rightarrow> cn_result option \<Rightarrow> ('e, 'm) cache_nucleus_scheme \<Rightarrow>
   (eptr \<times> cn_result option \<times> ('e, 'm) cache_nucleus_scheme) res" where
  "insert_in_cache ob result s =
     rbind (alloc_pool_entry CacheRegion ob s) (\<lambda>(e, s).
     case result of
       None \<Rightarrow> Inr (e, None, s)
     | Some r \<Rightarrow>
         rbind (infer_cblock (cache_pool s) e) (\<lambda>cb. Inr (e, Some (r\<lparr>r_cblock := cb\<rparr>), s)))"

definition insert_in_cache_at ::
  "oblock \<Rightarrow> cblock \<Rightarrow> cn_result option \<Rightarrow> ('e, 'm) cache_nucleus_scheme \<Rightarrow>
   (eptr \<times> cn_result option \<times> ('e, 'm) cache_nucleus_scheme) res" where
  "insert_in_cache_at ob cb result s =
     rbind (alloc_pool_entry_at CacheRegion ob cb s) (\<lambda>(e, s).
     Inr (e, map_option (\<lambda>r. r\<lparr>r_cblock := cb\<rparr>) result, s))"

definition in_cache :: "('e, 'm) cache_nucleus_scheme \<Rightarrow> eptr option \<Rightarrow> bool" where
  "in_cache s p = in_pool (cache_pool s) p"

definition cache_is_full :: "('e, 'm) cache_nucleus_scheme \<Rightarrow> bool" where
  "cache_is_full s = epool_empty (cache_pool s)"

definition cache_nucleus_remove ::
  "eptr \<Rightarrow> ('e, 'm) cache_nucleus_scheme \<Rightarrow> ('e, 'm) cache_nucleus_scheme res" where
  "cache_nucleus_remove e s =
     rbind (ht_remove e (wb_remove e s)) (\<lambda>s.
     let r = (if in_pool (cache_pool s) (Some e) then CacheRegion else MetaRegion) in
     rbind (free_entry (pool_of r s) e s) (\<lambda>(ep, s). Inr (set_pool r ep s)))"

text \<open>The two migration functions on the cache pool, as the policies call them.\<close>

definition cn_migrating_entry ::
  "eptr \<Rightarrow> ('e, 'm) cache_nucleus_scheme \<Rightarrow> ('e, 'm) cache_nucleus_scheme res" where
  "cn_migrating_entry e s =
     rbind (migrating_entry (cache_pool s) e s) (\<lambda>(ep, s). Inr (s\<lparr>cache_pool := ep\<rparr>))"

definition cn_migrated_entry ::
  "eptr \<Rightarrow> ('e, 'm) cache_nucleus_scheme \<Rightarrow> ('e, 'm) cache_nucleus_scheme res" where
  "cn_migrated_entry e s =
     rbind (migrated_entry (cache_pool s) e s) (\<lambda>(ep, s). Inr (s\<lparr>cache_pool := ep\<rparr>))"

text \<open>
  The two searches of a queue. The match function may change the policy (it may remove the
  entry it looks at: the next one is fetched before the call).
\<close>

fun queue_find_first_match ::
  "eptr list \<Rightarrow> ('s \<Rightarrow> eptr \<Rightarrow> (bool \<times> 's) res) \<Rightarrow> 's \<Rightarrow> (eptr option \<times> 's) res" where
  "queue_find_first_match [] match s = Inr (None, s)"
| "queue_find_first_match (qh # next) match s =
     rbind (match s qh) (\<lambda>(found, s).
     if found then Inr (Some qh, s) else queue_find_first_match next match s)"

definition queue_find_last_match ::
  "eptr list \<Rightarrow> ('s \<Rightarrow> eptr \<Rightarrow> (bool \<times> 's) res) \<Rightarrow> 's \<Rightarrow> (eptr option \<times> 's) res" where
  "queue_find_last_match q match s = queue_find_first_match (rev q) match s"

section \<open>Default API functions\<close>

definition default_cache_lookup :: "oblock \<Rightarrow> ('e, 'm) cache_nucleus_scheme \<Rightarrow> eptr option" where
  "default_cache_lookup ob s =
     (let e = ht_lookup ob s in if in_cache s e then e else None)"

definition default_meta_lookup :: "oblock \<Rightarrow> ('e, 'm) cache_nucleus_scheme \<Rightarrow> eptr option" where
  "default_meta_lookup ob s =
     (let e = ht_lookup ob s in if in_meta s e then e else None)"

definition default_cblock_lookup :: "cblock \<Rightarrow> ('e, 'm) cache_nucleus_scheme \<Rightarrow> eptr option" where
  "default_cblock_lookup cb s = epool_at (cache_pool s) cb"

definition default_remap ::
  "oblock \<Rightarrow> oblock \<Rightarrow> ('e, 'm) cache_nucleus_scheme \<Rightarrow> ('e, 'm) cache_nucleus_scheme res" where
  "default_remap current new s =
     rbind (deref (ht_lookup current s)) (\<lambda>e.
     rbind (ht_remove e s) (\<lambda>s.
     ht_insert e (upd_entry e (\<lambda>x. x\<lparr>e_oblock := new\<rparr>) s)))"

definition default_get_stats :: "('e, 'm) cache_nucleus_scheme \<Rightarrow> policy_stats \<Rightarrow> policy_stats" where
  "default_get_stats s st =
     st\<lparr>st_ios := st_ios st + st_ios (stats s),
        st_hits := st_hits st + st_hits (stats s),
        st_misses := st_misses st + st_misses (stats s),
        st_filters := st_filters st + st_filters (stats s),
        st_promotions := st_promotions st + st_promotions (stats s),
        st_demotions := st_demotions st + st_demotions (stats s),
        st_private_stat := st_private_stat st + st_private_stat (stats s)\<rparr>"

definition default_set_time :: "u32 \<Rightarrow> ('e, 'm) cache_nucleus_scheme \<Rightarrow> ('e, 'm) cache_nucleus_scheme" where
  "default_set_time time s = s\<lparr>cn_time := time\<rparr>"

definition default_residency :: "('e, 'm) cache_nucleus_scheme \<Rightarrow> cblock" where
  "default_residency s = ep_nr_allocated (cache_pool s)"

definition default_cache_is_full :: "('e, 'm) cache_nucleus_scheme \<Rightarrow> bool" where
  "default_cache_is_full s = cache_is_full s"

definition default_infer_cblock :: "('e, 'm) cache_nucleus_scheme \<Rightarrow> eptr \<Rightarrow> cblock res" where
  "default_infer_cblock s e = infer_cblock (cache_pool s) e"

text \<open>
  \<open>policy_init\<close>. The two pools have been created by the policy, or are zeroed memory (a pool
  without entries); the allocation of the buckets does not fail in the model. It returns 0.
\<close>

definition policy_init ::
  "cblock \<Rightarrow> cblock \<Rightarrow> thread_support \<Rightarrow> ('e, 'm) cache_nucleus_scheme \<Rightarrow>
   ('e, 'm) cache_nucleus_scheme res" where
  "policy_init csize msize thr s =
     rbind (epool_init 0 (cache_pool s) s) (\<lambda>(ep, s).
     rbind (epool_init 0 (meta_pool s) (s\<lparr>cache_pool := ep\<rparr>)) (\<lambda>(ep, s).
     rbind (ht_init (ucast (csize + msize))) (\<lambda>_.
     Inr (s\<lparr>meta_pool := ep, stats := stats_init, ht := [], cache_size := csize,
            meta_size := msize, thread_support := thr, cn_time := 0\<rparr>))))"

section \<open>The invariant of the nucleus\<close>

text \<open>
  The two pools are in order and are blocks of their own, the hashtable holds exactly the
  allocated entries, no two of them for the same block of the origin device, and the
  writeback queues are disjoint and hold only entries that are in the hashtable.
\<close>

definition wb_ok :: "(wb_queue \<Rightarrow> eptr list) \<Rightarrow> eptr list \<Rightarrow> bool" where
  "wb_ok w t \<longleftrightarrow> (\<forall>q. distinct (w q)) \<and> (\<forall>q. set (w q) \<subseteq> set t) \<and>
     (\<forall>q q' e. e \<in> set (w q) \<longrightarrow> e \<in> set (w q') \<longrightarrow> q = q')"

definition nuc_ok ::
  "(eptr \<Rightarrow> 'e entry_scheme) \<Rightarrow> (wb_queue \<Rightarrow> eptr list) \<Rightarrow> entry_pool \<Rightarrow> entry_pool \<Rightarrow> eptr list \<Rightarrow> bool" where
  "nuc_ok st w cp mp t \<longleftrightarrow>
     pool_ok cp st \<and> pool_ok mp st \<and> ep_region cp = CacheRegion \<and> ep_region mp = MetaRegion \<and>
     distinct (map (key_of st) t) \<and> set t = alloc_set cp st \<union> alloc_set mp st \<and> wb_ok w t"

definition cn_ok :: "('e, 'm) cache_nucleus_scheme \<Rightarrow> bool" where
  "cn_ok s = nuc_ok (store s) (wb s) (cache_pool s) (meta_pool s) (ht s)"

named_theorems nuc \<open>what the functions of the nucleus do under its invariant\<close>

lemma cn_ok_fields [simp]:
  "cn_ok (s\<lparr>stats := a\<rparr>) = cn_ok s" "cn_ok (s\<lparr>cn_time := b\<rparr>) = cn_ok s"
  "cn_ok (s\<lparr>meta_size := c\<rparr>) = cn_ok s" "cn_ok (s\<lparr>cache_size := c\<rparr>) = cn_ok s"
  "cn_ok (s\<lparr>thread_support := d\<rparr>) = cn_ok s" "cn_ok (cache_nucleus.more_update g s) = cn_ok s"
  by (simp_all add: cn_ok_def)

lemma nuc_okD:
  assumes "nuc_ok st w cp mp t"
  shows "pool_ok cp st" "pool_ok mp st" "ep_region cp = CacheRegion" "ep_region mp = MetaRegion"
    "distinct (map (key_of st) t)" "set t = alloc_set cp st \<union> alloc_set mp st" "wb_ok w t"
  using assms by (simp_all add: nuc_ok_def)

lemma nuc_distinct: "nuc_ok st w cp mp t \<Longrightarrow> distinct t"
  by (drule nuc_okD(5)) (simp add: distinct_map)

lemma nuc_mem:
  assumes "nuc_ok st w cp mp t" "e \<in> set t"
  shows "e \<in> alloc_set cp st \<longleftrightarrow> fst e = CacheRegion" "e \<in> alloc_set mp st \<longleftrightarrow> fst e = MetaRegion"
    "in_pool cp (Some e) \<longleftrightarrow> fst e = CacheRegion" "in_pool mp (Some e) \<longleftrightarrow> fst e = MetaRegion"
    "e_allocated (st e)"
  using nuc_okD [OF assms(1)] assms(2) by (auto simp: alloc_set_def in_pool_Some)

lemma nuc_not_mem:
  assumes "nuc_ok st w cp mp t" "e \<in> set (ep_free cp) \<or> e \<in> set (ep_free mp)"
  shows "e \<notin> set t" "\<not> e_migrating (st e)"
  using nuc_okD [OF assms(1)] assms(2)
  by (auto simp: alloc_set_def in_pool_Some pool_ok_def)

lemma alloc_set_regions:
  "ep_region ep \<noteq> ep_region ep' \<Longrightarrow> in_pool ep' (Some e) \<Longrightarrow> \<not> in_pool ep (Some e)"
  by (auto simp: in_pool_Some)

text \<open>Changing an entry outside a pool leaves the pool in order.\<close>

lemma pool_ok_other:
  assumes "pool_ok ep st" "fst e \<noteq> ep_region ep"
  shows "pool_ok ep (st(e := x))" "alloc_set ep (st(e := x)) = alloc_set ep st"
proof -
  have "in_pool ep (Some p) \<Longrightarrow> p \<noteq> e" for p using assms(2) by (auto simp: in_pool_Some)
  then have a: "in_pool ep (Some p) \<Longrightarrow> e_allocated ((st(e := x)) p) = e_allocated (st p) \<and>
      e_migrating ((st(e := x)) p) = e_migrating (st p)" for p by auto
  show "pool_ok ep (st(e := x))" by (rule pool_ok_cong(1) [OF assms(1) a])
  show "alloc_set ep (st(e := x)) = alloc_set ep st" by (rule pool_ok_cong(2) [OF assms(1) a])
qed

lemma map_key_upd: "e \<notin> set t \<Longrightarrow> map (key_of (st(e := x))) t = map (key_of st) t"
  by auto

lemma distinct_key_Cons:
  assumes "e \<notin> set t" "distinct (map (key_of st) t)" "e_oblock x \<notin> key_of st ` set t"
  shows "distinct (map (key_of (st(e := x))) (e # t))"
  unfolding list.map distinct.simps map_key_upd [OF assms(1)] using assms by simp

text \<open>A new entry of either pool.\<close>

lemma nuc_ok_insert_cache:
  assumes ok: "nuc_ok st w cp mp t" and e: "e \<in> set (ep_free cp)"
    and new: "ob \<notin> key_of st ` set t" and x: "e_oblock x = ob" "e_allocated x" "\<not> e_migrating x"
  shows "nuc_ok (st(e := x)) w (cp\<lparr>ep_free := remove1 e (ep_free cp), ep_nr_allocated := ep_nr_allocated cp + 1\<rparr>)
           mp (e # t)"
proof -
  let ?cp = "cp\<lparr>ep_free := remove1 e (ep_free cp), ep_nr_allocated := ep_nr_allocated cp + 1\<rparr>"
  have xx: "x = x\<lparr>e_allocated := True, e_migrating := False\<rparr>" using x by simp
  have nt: "e \<notin> set t" using nuc_not_mem [OF ok] e by blast
  have reg: "fst e \<noteq> ep_region mp"
    using nuc_okD [OF ok] e by (auto simp: pool_ok_def in_pool_Some)
  have "pool_ok ?cp (st(e := x))" "alloc_set ?cp (st(e := x)) = insert e (alloc_set cp st)"
    using pool_ok_allocate [OF nuc_okD(1) [OF ok] e, of x] xx by simp_all
  moreover have "distinct (map (key_of (st(e := x))) (e # t))"
    using distinct_key_Cons [OF nt nuc_okD(5) [OF ok]] new x by blast
  moreover have "wb_ok w (e # t)" using nuc_okD(7) [OF ok] by (auto simp: wb_ok_def)
  ultimately show ?thesis
    using nuc_okD [OF ok] pool_ok_other [OF nuc_okD(2) [OF ok] reg]
    by (simp add: nuc_ok_def del: distinct.simps list.map fun_upd_apply)
qed

lemma nuc_ok_insert_meta:
  assumes ok: "nuc_ok st w cp mp t" and e: "e \<in> set (ep_free mp)"
    and new: "ob \<notin> key_of st ` set t" and x: "e_oblock x = ob" "e_allocated x" "\<not> e_migrating x"
  shows "nuc_ok (st(e := x)) w cp
           (mp\<lparr>ep_free := remove1 e (ep_free mp), ep_nr_allocated := ep_nr_allocated mp + 1\<rparr>) (e # t)"
proof -
  let ?mp = "mp\<lparr>ep_free := remove1 e (ep_free mp), ep_nr_allocated := ep_nr_allocated mp + 1\<rparr>"
  have xx: "x = x\<lparr>e_allocated := True, e_migrating := False\<rparr>" using x by simp
  have nt: "e \<notin> set t" using nuc_not_mem [OF ok] e by blast
  have reg: "fst e \<noteq> ep_region cp"
    using nuc_okD [OF ok] e by (auto simp: pool_ok_def in_pool_Some)
  have "pool_ok ?mp (st(e := x))" "alloc_set ?mp (st(e := x)) = insert e (alloc_set mp st)"
    using pool_ok_allocate [OF nuc_okD(2) [OF ok] e, of x] xx by simp_all
  moreover have "distinct (map (key_of (st(e := x))) (e # t))"
    using distinct_key_Cons [OF nt nuc_okD(5) [OF ok]] new x by blast
  moreover have "wb_ok w (e # t)" using nuc_okD(7) [OF ok] by (auto simp: wb_ok_def)
  ultimately show ?thesis
    using nuc_okD [OF ok] pool_ok_other [OF nuc_okD(1) [OF ok] reg]
    by (simp add: nuc_ok_def del: distinct.simps list.map fun_upd_apply)
qed

text \<open>A change of an entry that keeps its key and its flags, and a change of one pool.\<close>

lemma nuc_ok_upd:
  assumes ok: "nuc_ok st w cp mp t"
    and x: "e_oblock x = e_oblock (st e)" "e_allocated x = e_allocated (st e)"
      "e_migrating x = e_migrating (st e)"
  shows "nuc_ok (st(e := x)) w cp mp t"
proof -
  have f: "e_allocated ((st(e := x)) p) = e_allocated (st p) \<and>
      e_migrating ((st(e := x)) p) = e_migrating (st p)" for p using x by auto
  have "key_of (st(e := x)) = key_of st" using x by auto
  then have "distinct (map (key_of (st(e := x))) t)" using nuc_okD(5) [OF ok] by argo
  then show ?thesis
    using ok pool_ok_cong [OF nuc_okD(1) [OF ok] f] pool_ok_cong [OF nuc_okD(2) [OF ok] f]
    by (simp add: nuc_ok_def del: fun_upd_apply)
qed

lemma nuc_ok_pool:
  assumes ok: "nuc_ok st w cp mp t" and e: "fst e = CacheRegion" "e_oblock x = e_oblock (st e)"
    and cp: "pool_ok cp' (st(e := x))" "alloc_set cp' (st(e := x)) = alloc_set cp st"
      "ep_region cp' = CacheRegion"
  shows "nuc_ok (st(e := x)) w cp' mp t"
proof -
  have "key_of (st(e := x)) = key_of st" using e by auto
  then have "distinct (map (key_of (st(e := x))) t)" using nuc_okD(5) [OF ok] by argo
  then show ?thesis
    using pool_ok_other [OF nuc_okD(2) [OF ok], of e x] nuc_okD [OF ok] e cp
    by (simp add: nuc_ok_def del: fun_upd_apply)
qed

lemma nuc_ok_remove:
  assumes ok: "nuc_ok st w cp mp t" and e: "e \<in> set t"
    and cp: "pool_ok cp' (st(e := x))" "alloc_set cp' (st(e := x)) = alloc_set cp st - {e}"
      "ep_region cp' = CacheRegion"
    and mp: "pool_ok mp' (st(e := x))" "alloc_set mp' (st(e := x)) = alloc_set mp st - {e}"
      "ep_region mp' = MetaRegion"
  shows "nuc_ok (st(e := x)) (\<lambda>q. q_remove e (w q)) cp' mp' (remove1 e t)"
proof -
  have d: "distinct t" "distinct (map (key_of st) t)" using nuc_distinct [OF ok] nuc_okD(5) [OF ok] by auto
  have "distinct (map (key_of st) (remove1 e t))" using d e by (simp add: distinct_map_remove1)
  moreover have "e \<notin> set (remove1 e t)" using d by simp
  ultimately have "distinct (map (key_of (st(e := x))) (remove1 e t))"
    by (metis map_key_upd)
  moreover have "set (remove1 e t) = alloc_set cp' (st(e := x)) \<union> alloc_set mp' (st(e := x))"
    using d cp mp nuc_okD(6) [OF ok] by auto
  moreover have "wb_ok (\<lambda>q. q_remove e (w q)) (remove1 e t)"
    using nuc_okD(7) [OF ok] d by (auto simp: wb_ok_def q_remove_def)
  ultimately show ?thesis using cp mp by (simp add: nuc_ok_def del: fun_upd_apply)
qed

lemma wb_linked_ht: "wb_ok (wb s) t \<Longrightarrow> e \<notin> set t \<Longrightarrow> \<not> wb_linked s e"
  by (auto simp: wb_linked_def wb_queues_def wb_ok_def)

section \<open>The functions under the invariant\<close>

text \<open>
  The addresses of a pool depend only on its block, its size and its starting index, which
  no operation changes.
\<close>

definition pool_geo :: "entry_pool \<Rightarrow> region \<times> u32 \<times> u32" where
  "pool_geo ep = (ep_region ep, ep_nr_entries ep, ep_starting_index ep)"

lemma pool_geo_eq:
  "pool_geo ep' = pool_geo ep \<longleftrightarrow> ep_region ep' = ep_region ep \<and>
     ep_nr_entries ep' = ep_nr_entries ep \<and> ep_starting_index ep' = ep_starting_index ep"
  by (simp add: pool_geo_def)

lemma pool_geo_cong:
  assumes "pool_geo ep' = pool_geo ep"
  shows "epool_at ep' = epool_at ep" "in_pool ep' = in_pool ep" "infer_cblock ep' = infer_cblock ep"
    "ep_nr_entries ep' = ep_nr_entries ep"
proof -
  have a: "ep_region ep' = ep_region ep" "ep_nr_entries ep' = ep_nr_entries ep"
    "ep_starting_index ep' = ep_starting_index ep"
    using assms by (simp_all add: pool_geo_eq)
  show "epool_at ep' = epool_at ep" using a by (simp add: epool_at_def fun_eq_iff Let_def)
  show i: "in_pool ep' = in_pool ep"
  proof
    show "in_pool ep' p = in_pool ep p" for p
      using a by (cases "(ep, p)" rule: in_pool.cases) auto
  qed
  show "infer_cblock ep' = infer_cblock ep" using a by (simp add: infer_cblock_def fun_eq_iff i)
  show "ep_nr_entries ep' = ep_nr_entries ep" by (rule a)
qed

definition cached :: "eptr list \<Rightarrow> eptr set" where
  "cached t = {e \<in> set t. fst e = CacheRegion}"

definition metas :: "eptr list \<Rightarrow> eptr set" where
  "metas t = {e \<in> set t. fst e = MetaRegion}"

lemma cached_Cons: "cached (e # t) = (if fst e = CacheRegion then insert e (cached t) else cached t)"
  by (auto simp: cached_def)

lemma metas_Cons: "metas (e # t) = (if fst e = MetaRegion then insert e (metas t) else metas t)"
  by (auto simp: metas_def)

lemma finite_cached [simp]: "finite (cached t)" "finite (metas t)"
  by (simp_all add: cached_def metas_def)

lemma cn_alloc_sets:
  assumes "cn_ok s"
  shows "alloc_set (cache_pool s) (store s) = cached (ht s)"
    "alloc_set (meta_pool s) (store s) = metas (ht s)"
proof -
  have ok: "nuc_ok (store s) (wb s) (cache_pool s) (meta_pool s) (ht s)" using assms by (simp add: cn_ok_def)
  show "alloc_set (cache_pool s) (store s) = cached (ht s)"
    "alloc_set (meta_pool s) (store s) = metas (ht s)"
    using nuc_okD [OF ok] nuc_mem(1,2) [OF ok] unfolding cached_def metas_def by blast+
qed

lemma cn_facts:
  assumes "cn_ok s"
  shows "distinct (ht s)" "distinct (map (key_of (store s)) (ht s))"
    "pool_ok (cache_pool s) (store s)" "pool_ok (meta_pool s) (store s)"
    "wb_ok (wb s) (ht s)"
  using nuc_okD [OF assms [unfolded cn_ok_def]] nuc_distinct [OF assms [unfolded cn_ok_def]]
  by simp_all

lemma cn_region:
  assumes "cn_ok s"
  shows "ep_region (cache_pool s) = CacheRegion" "ep_region (meta_pool s) = MetaRegion"
  using nuc_okD [OF assms [unfolded cn_ok_def]] by simp_all

lemma cn_in_cache: "cn_ok s \<Longrightarrow> e \<in> set (ht s) \<Longrightarrow> in_cache s (Some e) \<longleftrightarrow> fst e = CacheRegion"
  unfolding cn_ok_def in_cache_def by (rule nuc_mem(3))

lemma cn_in_meta: "cn_ok s \<Longrightarrow> e \<in> set (ht s) \<Longrightarrow> in_meta s (Some e) \<longleftrightarrow> fst e = MetaRegion"
  unfolding cn_ok_def in_meta_def by (rule nuc_mem(4))

lemma cache_is_full_iff: "cn_ok s \<Longrightarrow>
  cache_is_full s \<longleftrightarrow> card (cached (ht s)) = unat (ep_nr_entries (cache_pool s))"
  unfolding cache_is_full_def
  by (simp add: epool_empty_iff [OF cn_facts(3)] cn_alloc_sets(1))

lemma meta_is_full_iff: "cn_ok s \<Longrightarrow>
  meta_is_full s \<longleftrightarrow> card (metas (ht s)) = unat (ep_nr_entries (meta_pool s))"
  unfolding meta_is_full_def
  by (simp add: epool_empty_iff [OF cn_facts(4)] cn_alloc_sets(2))

lemma card_cached_le: "cn_ok s \<Longrightarrow> card (cached (ht s)) \<le> unat (ep_nr_entries (cache_pool s))"
  using card_alloc_bound [OF cn_facts(3)] cn_alloc_sets(1) by metis

lemma card_metas_le: "cn_ok s \<Longrightarrow> card (metas (ht s)) \<le> unat (ep_nr_entries (meta_pool s))"
  using card_alloc_bound [OF cn_facts(4)] cn_alloc_sets(2) by metis

lemma residency_card: "cn_ok s \<Longrightarrow> default_residency s = of_nat (card (cached (ht s)))"
  unfolding default_residency_def 
  by (simp add: nr_allocated_card [OF cn_facts(3)] cn_alloc_sets(1))

lemma lookup_Some: "cn_ok s \<Longrightarrow>
  ht_lookup ob s = Some e \<longleftrightarrow> e \<in> set (ht s) \<and> e_oblock (store s e) = ob"
  unfolding ht_lookup_def by (rule tbl_lookup_Some [OF cn_facts(2)])

lemma lookup_None: "ht_lookup ob s = None \<longleftrightarrow> ob \<notin> key_of (store s) ` set (ht s)"
  unfolding ht_lookup_def by (rule tbl_lookup_None)

text \<open>Insertion into either pool.\<close>

abbreviation fresh_entry :: "oblock \<Rightarrow> 'e entry_scheme \<Rightarrow> 'e entry_scheme" where
  "fresh_entry ob x \<equiv> x\<lparr>e_allocated := True, e_oblock := ob, e_dirty := False\<rparr>"

lemma free_in_pool: "pool_ok ep st \<Longrightarrow> e \<in> set (ep_free ep) \<Longrightarrow>
  in_pool ep (Some e) \<and> \<not> e_allocated (st e) \<and> \<not> e_migrating (st e)"
  by (auto simp: pool_ok_def)

lemma insert_in_meta_ok:
  assumes ok: "cn_ok s" and nf: "\<not> meta_is_full s" and new: "ht_lookup ob s = None"
  shows "\<exists>e mp s'. s' = s\<lparr>store := (store s)(e := fresh_entry ob (store s e)),
        meta_pool := mp, ht := e # ht s\<rparr> \<and> insert_in_meta ob s = Inr (e, s') \<and> cn_ok s' \<and>
     pool_geo mp = pool_geo (meta_pool s) \<and> fst e = MetaRegion \<and> e \<notin> set (ht s) \<and>
     \<not> e_migrating (store s e)"
proof -
  obtain e rest where free: "ep_free (meta_pool s) = e # rest"
    using nf by (auto simp: meta_is_full_def epool_empty_def neq_Nil_conv)
  have nuc: "nuc_ok (store s) (wb s) (cache_pool s) (meta_pool s) (ht s)" using ok by (simp add: cn_ok_def)
  have ef: "e \<in> set (ep_free (meta_pool s))" using free by simp
  have nt: "e \<notin> set (ht s)" "\<not> e_migrating (store s e)" using nuc_not_mem [OF nuc] ef by blast+
  have reg: "fst e = MetaRegion"
    using free_in_pool [OF cn_facts(4) [OF ok] ef] cn_region [OF ok] by (simp add: in_pool_Some)
  let ?mp = "(meta_pool s)\<lparr>ep_free := remove1 e (ep_free (meta_pool s)),
    ep_nr_allocated := ep_nr_allocated (meta_pool s) + 1\<rparr>"
  let ?x = "fresh_entry ob (store s e)"
  let ?s = "s\<lparr>store := (store s)(e := ?x), meta_pool := ?mp, ht := e # ht s\<rparr>"
  have wb: "\<not> wb_linked s e" using wb_linked_ht [OF cn_facts(5) [OF ok] nt(1)] .
  have "insert_in_meta ob s = Inr (e, ?s)"
    using alloc_entry_ok [OF cn_facts(4) [OF ok] free wb] nt
    by (simp add: insert_in_meta_def alloc_pool_entry_def log_assert_def deref_def ht_insert_def
        tbl_insert_def)
  moreover have "cn_ok ?s"
    using nuc_ok_insert_meta [OF nuc ef, of ob ?x] new nt by (simp add: cn_ok_def lookup_None)
  ultimately show ?thesis using reg nt
    by (intro exI [of _ e] exI [of _ ?mp] exI [of _ ?s]) (simp add: pool_geo_eq)
qed

lemma insert_in_cache_ok:
  assumes ok: "cn_ok s" and nf: "\<not> cache_is_full s" and new: "ht_lookup ob s = None"
    and two: "2 \<le> ep_nr_entries (cache_pool s)"
  shows "\<exists>e cb cp s'. s' = s\<lparr>store := (store s)(e := fresh_entry ob (store s e)),
        cache_pool := cp, ht := e # ht s\<rparr> \<and>
     insert_in_cache ob (Some r) s = Inr (e, Some (r\<lparr>r_cblock := cb\<rparr>), s') \<and> cn_ok s' \<and>
     pool_geo cp = pool_geo (cache_pool s) \<and> epool_at (cache_pool s) cb = Some e \<and>
     fst e = CacheRegion \<and> e \<notin> set (ht s) \<and> \<not> e_migrating (store s e)"
proof -
  obtain e rest where free: "ep_free (cache_pool s) = e # rest"
    using nf by (auto simp: cache_is_full_def epool_empty_def neq_Nil_conv)
  have nuc: "nuc_ok (store s) (wb s) (cache_pool s) (meta_pool s) (ht s)" using ok by (simp add: cn_ok_def)
  have ef: "e \<in> set (ep_free (cache_pool s))" using free by simp
  have nt: "e \<notin> set (ht s)" "\<not> e_migrating (store s e)" using nuc_not_mem [OF nuc] ef by blast+
  have ip: "in_pool (cache_pool s) (Some e)" using free_in_pool [OF cn_facts(3) [OF ok] ef] by simp
  then have reg: "fst e = CacheRegion" using cn_region [OF ok] by (simp add: in_pool_Some)
  define cb where "cb = of_nat (snd e) + ep_starting_index (cache_pool s)"
  let ?cp = "(cache_pool s)\<lparr>ep_free := remove1 e (ep_free (cache_pool s)),
    ep_nr_allocated := ep_nr_allocated (cache_pool s) + 1\<rparr>"
  let ?x = "fresh_entry ob (store s e)"
  let ?s = "s\<lparr>store := (store s)(e := ?x), cache_pool := ?cp, ht := e # ht s\<rparr>"
  have geo: "pool_geo ?cp = pool_geo (cache_pool s)" by (simp add: pool_geo_eq)
  have wb: "\<not> wb_linked s e" using wb_linked_ht [OF cn_facts(5) [OF ok] nt(1)] .
  have "alloc_pool_entry CacheRegion ob s = Inr (e, ?s)"
    using alloc_entry_ok [OF cn_facts(3) [OF ok] free wb] nt
    by (simp add: alloc_pool_entry_def log_assert_def deref_def ht_insert_def tbl_insert_def)
  then have "insert_in_cache ob (Some r) s = Inr (e, Some (r\<lparr>r_cblock := cb\<rparr>), ?s)"
    using infer_cblock_ok(1) [OF ip two]
    by (simp add: insert_in_cache_def pool_geo_cong(3) [OF geo] cb_def)
  moreover have "cn_ok ?s"
    using nuc_ok_insert_cache [OF nuc ef, of ob ?x] new nt by (simp add: cn_ok_def lookup_None)
  moreover have "epool_at (cache_pool s) cb = Some e"
    unfolding cb_def by (rule infer_cblock_ok(2) [OF ip two])
  ultimately show ?thesis using reg nt geo
    by (intro exI [of _ e] exI [of _ cb] exI [of _ ?cp] exI [of _ ?s]) simp
qed

lemma insert_in_cache_at_ok:
  assumes ok: "cn_ok s" and new: "ht_lookup ob s = None"
    and e: "epool_at (cache_pool s) cb = Some e" "e \<notin> set (ht s)"
  shows "\<exists>cp s'. s' = s\<lparr>store := (store s)(e := fresh_entry ob (store s e)),
        cache_pool := cp, ht := e # ht s\<rparr> \<and>
     insert_in_cache_at ob cb None s = Inr (e, None, s') \<and> cn_ok s' \<and>
     pool_geo cp = pool_geo (cache_pool s) \<and> fst e = CacheRegion \<and> \<not> e_migrating (store s e)"
proof -
  have nuc: "nuc_ok (store s) (wb s) (cache_pool s) (meta_pool s) (ht s)" using ok by (simp add: cn_ok_def)
  have ip: "in_pool (cache_pool s) (Some e)" by (rule epool_at_in_pool [OF e(1)])
  then have reg: "fst e = CacheRegion" using cn_region [OF ok] by (simp add: in_pool_Some)
  then have "e \<notin> alloc_set (cache_pool s) (store s)"
    using e(2) cn_alloc_sets(1) [OF ok] by (simp add: cached_def)
  then have ef: "e \<in> set (ep_free (cache_pool s))"
    using pool_ok_free [OF cn_facts(3) [OF ok]] ip by (simp add: alloc_set_def)
  have nm: "\<not> e_migrating (store s e)" using nuc_not_mem [OF nuc] ef by blast
  let ?cp = "(cache_pool s)\<lparr>ep_free := remove1 e (ep_free (cache_pool s)),
    ep_nr_allocated := ep_nr_allocated (cache_pool s) + 1\<rparr>"
  let ?x = "fresh_entry ob (store s e)"
  let ?s = "s\<lparr>store := (store s)(e := ?x), cache_pool := ?cp, ht := e # ht s\<rparr>"
  have wb: "\<not> wb_linked s e" using wb_linked_ht [OF cn_facts(5) [OF ok] e(2)] .
  have "insert_in_cache_at ob cb None s = Inr (e, None, ?s)"
    using alloc_particular_entry_ok [OF cn_facts(3) [OF ok] e(1) ef wb] e
    by (simp add: insert_in_cache_at_def alloc_pool_entry_at_def ht_insert_def tbl_insert_def)
  moreover have "cn_ok ?s"
    using nuc_ok_insert_cache [OF nuc ef, of ob ?x] new nm by (simp add: cn_ok_def lookup_None)
  ultimately show ?thesis using reg nm
    by (intro exI [of _ ?cp] exI [of _ ?s]) (simp add: pool_geo_eq)
qed

text \<open>Migration of an entry of the cache.\<close>

lemma cn_migrating_entry_ok:
  assumes ok: "cn_ok s" and e: "e \<in> cached (ht s)" and nm: "\<not> e_migrating (store s e)"
  shows "\<exists>cp s'. s' = s\<lparr>store := (store s)(e := (store s e)\<lparr>e_migrating := True\<rparr>), cache_pool := cp\<rparr> \<and>
     cn_migrating_entry e s = Inr s' \<and> cn_ok s' \<and> pool_geo cp = pool_geo (cache_pool s)"
proof -
  have a: "e \<in> alloc_set (cache_pool s) (store s)" using e cn_alloc_sets(1) [OF ok] by simp
  have nuc: "nuc_ok (store s) (wb s) (cache_pool s) (meta_pool s) (ht s)" using ok by (simp add: cn_ok_def)
  from migrating_entry_ok [OF cn_facts(3) [OF ok] a nm]
  obtain cp where cp: "migrating_entry (cache_pool s) e s =
      Inr (cp, upd_entry e (\<lambda>x. x\<lparr>e_migrating := True\<rparr>) s)"
    "pool_ok cp ((store s)(e := (store s e)\<lparr>e_migrating := True\<rparr>))"
    "alloc_set cp ((store s)(e := (store s e)\<lparr>e_migrating := True\<rparr>)) = alloc_set (cache_pool s) (store s)"
    "pool_geo cp = pool_geo (cache_pool s)"
    by (auto simp: pool_geo_eq)
  have "ep_region cp = CacheRegion" using cp(4) cn_region [OF ok] by (simp add: pool_geo_eq)
  with nuc_ok_pool [OF nuc _ _ cp(2,3)] e
  have "cn_ok (s\<lparr>store := (store s)(e := (store s e)\<lparr>e_migrating := True\<rparr>), cache_pool := cp\<rparr>)"
    by (simp add: cn_ok_def cached_def)
  then show ?thesis using cp by (simp add: cn_migrating_entry_def) blast
qed

lemma cn_migrated_entry_ok:
  assumes ok: "cn_ok s" and e: "e \<in> cached (ht s)" and nm: "e_migrating (store s e)"
  shows "\<exists>cp s'. s' = s\<lparr>store := (store s)(e := (store s e)\<lparr>e_migrating := False\<rparr>), cache_pool := cp\<rparr> \<and>
     cn_migrated_entry e s = Inr s' \<and> cn_ok s' \<and> pool_geo cp = pool_geo (cache_pool s)"
proof -
  have a: "e \<in> alloc_set (cache_pool s) (store s)" using e cn_alloc_sets(1) [OF ok] by simp
  have nuc: "nuc_ok (store s) (wb s) (cache_pool s) (meta_pool s) (ht s)" using ok by (simp add: cn_ok_def)
  from migrated_entry_ok [OF cn_facts(3) [OF ok] a nm]
  obtain cp where cp: "migrated_entry (cache_pool s) e s =
      Inr (cp, upd_entry e (\<lambda>x. x\<lparr>e_migrating := False\<rparr>) s)"
    "pool_ok cp ((store s)(e := (store s e)\<lparr>e_migrating := False\<rparr>))"
    "alloc_set cp ((store s)(e := (store s e)\<lparr>e_migrating := False\<rparr>)) = alloc_set (cache_pool s) (store s)"
    "pool_geo cp = pool_geo (cache_pool s)"
    by (auto simp: pool_geo_eq)
  have "ep_region cp = CacheRegion" using cp(4) cn_region [OF ok] by (simp add: pool_geo_eq)
  with nuc_ok_pool [OF nuc _ _ cp(2,3)] e
  have "cn_ok (s\<lparr>store := (store s)(e := (store s e)\<lparr>e_migrating := False\<rparr>), cache_pool := cp\<rparr>)"
    by (simp add: cn_ok_def cached_def)
  then show ?thesis using cp by (simp add: cn_migrated_entry_def) blast
qed

text \<open>Removal of an entry of either pool.\<close>

abbreviation freed_entry :: "'e entry_scheme \<Rightarrow> 'e entry_scheme" where
  "freed_entry x \<equiv> x\<lparr>e_allocated := False, e_migrating := False\<rparr>"

lemma cache_nucleus_remove_ok:
  assumes ok: "cn_ok s" and e: "e \<in> set (ht s)"
  shows "\<exists>cp mp s'. s' = s\<lparr>store := (store s)(e := freed_entry (store s e)),
        wb := (\<lambda>q. q_remove e (wb s q)), cache_pool := cp, meta_pool := mp, ht := remove1 e (ht s)\<rparr> \<and>
     cache_nucleus_remove e s = Inr s' \<and> cn_ok s' \<and>
     pool_geo cp = pool_geo (cache_pool s) \<and> pool_geo mp = pool_geo (meta_pool s)"
proof -
  let ?s1 = "s\<lparr>wb := (\<lambda>q. q_remove e (wb s q)), ht := remove1 e (ht s)\<rparr>"
  let ?st = "(store s)(e := freed_entry (store s e))"
  have nuc: "nuc_ok (store s) (wb s) (cache_pool s) (meta_pool s) (ht s)" using ok by (simp add: cn_ok_def)
  note oks = cn_facts(3,4) [OF ok]
  note fin = nuc_ok_remove [OF nuc e, where x = "freed_entry (store s e)"]
  have tr: "ht_remove e (wb_remove e s) = Inr ?s1"
    using e by (simp add: ht_remove_def tbl_remove_def wb_remove_def)
  note diff = cn_alloc_sets [OF ok] cached_def metas_def
  show ?thesis
  proof (cases "fst e")
    case CacheRegion
    then have a: "e \<in> alloc_set (cache_pool ?s1) (store ?s1)" using e by (simp add: diff)
    from free_entry_ok [of _ ?s1, OF _ a] oks obtain cp where cp:
      "free_entry (cache_pool s) e ?s1 = Inr (cp, upd_entry e freed_entry ?s1)"
      "pool_ok cp ?st" "alloc_set cp ?st = alloc_set (cache_pool s) (store s) - {e}"
      "pool_geo cp = pool_geo (cache_pool s)" by (auto simp: pool_geo_eq)
    have reg: "fst e \<noteq> ep_region (meta_pool s)" using CacheRegion cn_region [OF ok] by simp
    have mp: "alloc_set (meta_pool s) ?st = alloc_set (meta_pool s) (store s) - {e}"
      using pool_ok_other(2) [OF oks(2) reg] CacheRegion by (auto simp: diff)
    have "nuc_ok ?st (\<lambda>q. q_remove e (wb s q)) cp (meta_pool s) (remove1 e (ht s))"
      using cp mp cn_region [OF ok] pool_ok_other(1) [OF oks(2) reg]
      by (intro fin) (simp_all add: pool_geo_eq)
    moreover have "cache_nucleus_remove e s = Inr (upd_entry e freed_entry ?s1\<lparr>cache_pool := cp\<rparr>)"
      using cp tr CacheRegion nuc_mem(3) [OF nuc e] by (simp add: cache_nucleus_remove_def)
    ultimately show ?thesis using cp
      by (intro exI [of _ cp] exI [of _ "meta_pool s"] exI [of _ "upd_entry e freed_entry ?s1\<lparr>cache_pool := cp\<rparr>"])
        (simp add: cn_ok_def)
  next
    case MetaRegion
    then have a: "e \<in> alloc_set (meta_pool ?s1) (store ?s1)" using e by (simp add: diff)
    from free_entry_ok [of _ ?s1, OF _ a] oks obtain mp where mp:
      "free_entry (meta_pool s) e ?s1 = Inr (mp, upd_entry e freed_entry ?s1)"
      "pool_ok mp ?st" "alloc_set mp ?st = alloc_set (meta_pool s) (store s) - {e}"
      "pool_geo mp = pool_geo (meta_pool s)" by (auto simp: pool_geo_eq)
    have reg: "fst e \<noteq> ep_region (cache_pool s)" using MetaRegion cn_region [OF ok] by simp
    have cp: "alloc_set (cache_pool s) ?st = alloc_set (cache_pool s) (store s) - {e}"
      using pool_ok_other(2) [OF oks(1) reg] MetaRegion by (auto simp: diff)
    have "nuc_ok ?st (\<lambda>q. q_remove e (wb s q)) (cache_pool s) mp (remove1 e (ht s))"
      using cp mp cn_region [OF ok] pool_ok_other(1) [OF oks(1) reg]
      by (intro fin) (simp_all add: pool_geo_eq)
    moreover have "cache_nucleus_remove e s = Inr (upd_entry e freed_entry ?s1\<lparr>meta_pool := mp\<rparr>)"
      using mp tr MetaRegion nuc_mem(3) [OF nuc e] by (simp add: cache_nucleus_remove_def)
    ultimately show ?thesis using mp
      by (intro exI [of _ "cache_pool s"] exI [of _ mp] exI [of _ "upd_entry e freed_entry ?s1\<lparr>meta_pool := mp\<rparr>"])
        (simp add: cn_ok_def)
  qed
qed

text \<open>A change of an entry that keeps its key and its flags.\<close>

lemma cn_ok_upd:
  assumes "cn_ok s" "e_oblock x = e_oblock (store s e)" "e_allocated x = e_allocated (store s e)"
    "e_migrating x = e_migrating (store s e)"
  shows "cn_ok (s\<lparr>store := (store s)(e := x)\<rparr>)"
  using nuc_ok_upd [of "store s" "wb s" "cache_pool s" "meta_pool s" "ht s" x e] assms
  by (simp add: cn_ok_def)

lemma wb_push_ok:
  assumes "wb_ok (wb s) t" "e \<in> set t" "\<not> wb_linked s e"
  shows "\<exists>w. wb_push q e s = Inr (s\<lparr>wb := w\<rparr>) \<and> w = (wb s)(q := wb s q @ [e]) \<and> wb_ok w t"
proof -
  have n: "e \<notin> set (wb s q')" for q'
    using assms(3) by (cases q') (auto simp: wb_linked_def wb_queues_def)
  then have "wb_push q e s = Inr (s\<lparr>wb := (wb s)(q := wb s q @ [e])\<rparr>)"
    by (simp add: wb_push_def q_push_def)
  moreover have "wb_ok ((wb s)(q := wb s q @ [e])) t"
    using assms(1,2) n by (auto simp: wb_ok_def split: if_splits)
  ultimately show ?thesis by blast
qed

text \<open>
  Remapping an entry to a block that is not in the hashtable.
\<close>

lemma default_remap_ok:
  assumes ok: "cn_ok s" and e: "e \<in> set (ht s)" and new: "ht_lookup nob s = None"
  shows "\<exists>s'. s' = s\<lparr>store := (store s)(e := (store s e)\<lparr>e_oblock := nob\<rparr>), ht := e # remove1 e (ht s)\<rparr> \<and>
    default_remap (e_oblock (store s e)) nob s = Inr s' \<and> cn_ok s'"
proof -
  have l: "ht_lookup (e_oblock (store s e)) s = Some e" using lookup_Some [OF ok] e by simp
  note f = cn_facts [OF ok]
  have nuc: "nuc_ok (store s) (wb s) (cache_pool s) (meta_pool s) (ht s)" using ok by (simp add: cn_ok_def)
  let ?x = "(store s e)\<lparr>e_oblock := nob\<rparr>"
  let ?s = "s\<lparr>store := (store s)(e := ?x), ht := e # remove1 e (ht s)\<rparr>"
  have nt: "e \<notin> set (remove1 e (ht s))" using f(1) by simp
  have "default_remap (e_oblock (store s e)) nob s = Inr ?s"
    using e nt
    by (simp add: default_remap_def l deref_def ht_remove_def ht_insert_def tbl_remove_def tbl_insert_def)
  moreover have "cn_ok ?s"
  proof -
    have fl: "e_allocated (((store s)(e := ?x)) p) = e_allocated (store s p) \<and>
       e_migrating (((store s)(e := ?x)) p) = e_migrating (store s p)" for p by simp
    have "nob \<notin> key_of (store s) ` set (remove1 e (ht s))"
      using new f(1) by (auto simp: lookup_None)
    then have "distinct (map (key_of ((store s)(e := ?x))) (e # remove1 e (ht s)))"
      using f e by (intro distinct_key_Cons nt) (simp_all add: distinct_map_remove1)
    moreover have "set (e # remove1 e (ht s)) = set (ht s)" using e f(1) by auto
    moreover have "wb_ok (wb s) (e # remove1 e (ht s))"
      using f(5) e f(1) by (auto simp: wb_ok_def)
    ultimately show ?thesis
      using nuc_okD [OF nuc] pool_ok_cong [OF f(3) fl] pool_ok_cong [OF f(4) fl]
      by (simp add: cn_ok_def nuc_ok_def del: fun_upd_apply list.map distinct.simps list.set)
  qed
  ultimately show ?thesis by blast
qed

section \<open>The view of the cached blocks\<close>

text \<open>
  For a block of the origin device that the cache holds: its entry (the place in the cache),
  is the entry still migrating, and is it dirty?
\<close>

definition cview ::
  "eptr list \<Rightarrow> (eptr \<Rightarrow> 'e entry_scheme) \<Rightarrow> oblock \<Rightarrow> (eptr \<times> bool \<times> bool) option" where
  "cview t st ob =
     (case tbl_lookup (key_of st) t ob of
        None \<Rightarrow> None
      | Some e \<Rightarrow> if fst e = CacheRegion then Some (e, e_migrating (st e), e_dirty (st e)) else None)"

lemma cview_Nil [simp]: "cview [] st = Map.empty"
  by (simp add: cview_def tbl_lookup_def fun_eq_iff)

lemma cview_Cons:
  "cview (e # t) st = (cview t st)(e_oblock (st e) :=
     (if fst e = CacheRegion then Some (e, e_migrating (st e), e_dirty (st e)) else None))"
  by (rule ext) (simp add: cview_def tbl_lookup_Cons)

lemma cview_upd_notin: "e \<notin> set t \<Longrightarrow> cview t (st(e := x)) = cview t st"
proof (rule ext)
  fix ob assume n: "e \<notin> set t"
  have "tbl_lookup (key_of (st(e := x))) t ob = tbl_lookup (key_of st) t ob"
    by (rule tbl_lookup_cong) (use n in auto)
  moreover have "tbl_lookup (key_of st) t ob = Some p \<Longrightarrow> p \<noteq> e" for p
    using n by (auto dest: tbl_lookup_SomeD)
  ultimately show "cview t (st(e := x)) ob = cview t st ob" by (auto simp: cview_def split: option.splits)
qed

lemma inj_keys: "distinct (map (key_of st) t) \<Longrightarrow> e \<in> set t \<Longrightarrow> e' \<in> set t \<Longrightarrow>
  e_oblock (st e) = e_oblock (st e') \<Longrightarrow> e = e'"
  by (auto simp: distinct_map dest: inj_onD)

lemma cview_entry:
  assumes "distinct (map (key_of st) t)" "e \<in> set t"
  shows "cview t st (e_oblock (st e)) =
    (if fst e = CacheRegion then Some (e, e_migrating (st e), e_dirty (st e)) else None)"
proof -
  have "tbl_lookup (key_of st) t (e_oblock (st e)) = Some e"
    using tbl_lookup_Some [OF assms(1)] assms(2) by blast
  then show ?thesis by (simp add: cview_def)
qed

lemma cview_SomeD: "cview t st ob = Some v \<Longrightarrow>
  \<exists>e \<in> cached t. e_oblock (st e) = ob \<and> v = (e, e_migrating (st e), e_dirty (st e))"
  unfolding cview_def cached_def
  by (auto dest!: tbl_lookup_SomeD split: option.splits if_splits)

lemma cview_Some:
  assumes "distinct (map (key_of st) t)"
  shows "cview t st ob = Some v \<longleftrightarrow>
    (\<exists>e \<in> cached t. e_oblock (st e) = ob \<and> v = (e, e_migrating (st e), e_dirty (st e)))"
  using cview_entry [OF assms] cview_SomeD [of t st ob v] by (auto simp: cached_def)

lemma cview_None:
  assumes "distinct (map (key_of st) t)"
  shows "cview t st ob = None \<longleftrightarrow> (\<forall>e \<in> cached t. e_oblock (st e) \<noteq> ob)"
  using cview_Some [OF assms] by (metis not_None_eq)

lemma option_eqI: "(\<And>v. x = Some v \<longleftrightarrow> y = Some v) \<Longrightarrow> x = y"
  by (cases x; cases y) auto

lemma cview_remove1:
  assumes d: "distinct (map (key_of st) t)" and e: "e \<in> set t"
  shows "cview (remove1 e t) st = (cview t st)(e_oblock (st e) := None)"
proof (rule ext, rule option_eqI)
  fix ob v
  have dd: "distinct (map (key_of st) (remove1 e t))" using d e by (simp add: distinct_map_remove1)
  have s: "set (remove1 e t) = set t - {e}" using d by (simp add: distinct_map)
  then have c: "cached (remove1 e t) = cached t - {e}" by (auto simp: cached_def)
  have "p \<in> cached t \<Longrightarrow> e_oblock (st p) = e_oblock (st e) \<Longrightarrow> p = e" for p
    using inj_keys [OF d _ e] by (auto simp: cached_def)
  then show "cview (remove1 e t) st ob = Some v \<longleftrightarrow> ((cview t st)(e_oblock (st e) := None)) ob = Some v"
    by (cases "ob = e_oblock (st e)") (auto simp: cview_Some [OF d] cview_Some [OF dd] c)
qed

lemma cview_upd:
  assumes d: "distinct (map (key_of st) t)" and e: "e \<in> set t" and k: "e_oblock x = e_oblock (st e)"
  shows "cview t (st(e := x)) = (cview t st)(e_oblock (st e) :=
    (if fst e = CacheRegion then Some (e, e_migrating x, e_dirty x) else None))"
proof (rule ext)
  fix ob
  have ks: "key_of (st(e := x)) = key_of st" using k by auto
  have l: "tbl_lookup (key_of (st(e := x))) t ob = tbl_lookup (key_of st) t ob" for ob
    by (simp only: ks)
  have le: "tbl_lookup (key_of st) t (e_oblock (st e)) = Some e"
    using tbl_lookup_Some [OF d] e by blast
  show "cview t (st(e := x)) ob = ((cview t st)(e_oblock (st e) :=
    (if fst e = CacheRegion then Some (e, e_migrating x, e_dirty x) else None))) ob"
  proof (cases "ob = e_oblock (st e)")
    case True
    then show ?thesis unfolding cview_def l by (simp add: le)
  next
    case False
    then have "tbl_lookup (key_of st) t ob = Some p \<Longrightarrow> p \<noteq> e" for p
      by (auto dest: tbl_lookup_SomeD)
    then show ?thesis using False unfolding cview_def l by (auto split: option.splits)
  qed
qed

text \<open>Freeing an entry: the view forgets its block.\<close>

lemma cview_freed:
  assumes "distinct (map (key_of st) t)" "e \<in> set t"
  shows "cview (remove1 e t) (st(e := x)) = (cview t st)(e_oblock (st e) := None)"
proof -
  have "e \<notin> set (remove1 e t)" using assms by (simp add: distinct_map)
  then show ?thesis using cview_upd_notin cview_remove1 [OF assms] by metis
qed

text \<open>A new entry: the view gains its block, if it is an entry of the cache.\<close>

lemma cview_fresh:
  assumes "e \<notin> set t"
  shows "cview (e # t) (st(e := x)) = (cview t st)(e_oblock x :=
    (if fst e = CacheRegion then Some (e, e_migrating x, e_dirty x) else None))"
  by (simp add: cview_Cons cview_upd_notin [OF assms])

lemma dom_cview: "distinct (map (key_of st) t) \<Longrightarrow> dom (cview t st) = key_of st ` cached t"
  by (auto simp: dom_def cview_Some)

lemma card_dom_cview:
  assumes "distinct (map (key_of st) t)"
  shows "card (dom (cview t st)) = card (cached t)"
proof -
  have "inj_on (key_of st) (cached t)"
    using inj_keys [OF assms] by (auto simp: inj_on_def cached_def)
  then show ?thesis by (simp add: dom_cview [OF assms] card_image)
qed

section \<open>Initialisation\<close>

lemma policy_init_ok:
  assumes cp: "cache_pool s = epool_create CacheRegion nc" and mp: "meta_pool s = epool_create MetaRegion nm"
    and wb: "wb s = (\<lambda>_. [])"
  shows "\<exists>s' cp' mp'. policy_init csize msize thr s = Inr s' \<and> cn_ok s' \<and> ht s' = [] \<and>
    s' = s\<lparr>store := store s', cache_pool := cp', meta_pool := mp', stats := stats_init, ht := [],
           cache_size := csize, meta_size := msize, thread_support := thr, cn_time := 0\<rparr> \<and>
    ep_nr_entries cp' = nc \<and> ep_nr_entries mp' = nm"
proof -
  have nwb: "\<not> wb_linked (s :: ('a, 'b) cache_nucleus_scheme) e" "\<not> wb_linked (s\<lparr>store := f, cache_pool := c\<rparr>) e" for e f c
    using wb by (simp_all add: wb_linked_def wb_queues_def)
  define ini :: "entry_pool \<Rightarrow> entry_pool" where "ini ep = ep\<lparr>ep_starting_index := 0,
            ep_free := map (Pair (ep_region ep)) (rev [0..<unat (ep_nr_entries ep)]),
            ep_migrating := [], ep_nr_allocated := 0, ep_nr_migrating := 0\<rparr>" for ep
  define st1 where "st1 = cleared (cache_pool s) (store s)"
  define st2 where "st2 = cleared (meta_pool s) st1"
  let ?s1 = "s\<lparr>store := st1, cache_pool := ini (cache_pool s)\<rparr>"
  have 1: "epool_init 0 (cache_pool s) s = Inr (ini (cache_pool s), s\<lparr>store := st1\<rparr>)"
    unfolding ini_def st1_def by (rule epool_init_ok) (simp_all add: cp epool_create_def nwb)
  have 2: "epool_init 0 (meta_pool s) ?s1 = Inr (ini (meta_pool s), ?s1\<lparr>store := st2\<rparr>)"
    unfolding ini_def st2_def by (subst epool_init_ok) (simp_all add: mp epool_create_def nwb)
  obtain k where 3: "ht_init (ucast (csize + msize)) = Inr k" using ht_init_spec by blast
  let ?s' = "s\<lparr>store := st2, cache_pool := ini (cache_pool s), meta_pool := ini (meta_pool s),
     stats := stats_init, ht := [], cache_size := csize, meta_size := msize,
     thread_support := thr, cn_time := 0\<rparr>"
  have init: "policy_init csize msize thr s = Inr ?s'"
    using 1 2 3 by (simp add: policy_init_def)
  have cl: "in_pool (cache_pool s) (Some e) \<Longrightarrow> \<not> e_allocated (st2 e) \<and> \<not> e_migrating (st2 e)"
    "in_pool (meta_pool s) (Some e) \<Longrightarrow> \<not> e_allocated (st2 e) \<and> \<not> e_migrating (st2 e)" for e
    by (simp_all add: st1_def st2_def cleared_def)
  have "pool_ok (ini (cache_pool s)) st2" "alloc_set (ini (cache_pool s)) st2 = {}"
    "pool_ok (ini (meta_pool s)) st2" "alloc_set (ini (meta_pool s)) st2 = {}"
    unfolding ini_def
    by (rule epool_init_pool_ok(1,2) [OF refl], use cl in blast)+
  then have "cn_ok ?s'" using cp mp wb
    by (simp add: cn_ok_def nuc_ok_def wb_ok_def ini_def epool_create_def)
  moreover have "ep_nr_entries (ini (cache_pool s)) = nc" "ep_nr_entries (ini (meta_pool s)) = nm"
    by (simp_all add: ini_def cp mp epool_create_def)
  ultimately show ?thesis using init
    by (intro exI [of _ ?s'] exI [of _ "ini (cache_pool s)"] exI [of _ "ini (meta_pool s)"]) simp
qed

text \<open>What the default functions read is a part of the view.\<close>

lemma default_cache_lookup_view:
  assumes "cn_ok s"
  shows "default_cache_lookup ob s = map_option fst (cview (ht s) (store s) ob)"
proof (cases "ht_lookup ob s")
  case None
  then show ?thesis
    by (simp add: default_cache_lookup_def in_cache_def cview_def ht_lookup_def)
next
  case (Some e)
  then have "e \<in> set (ht s)" using lookup_Some [OF assms] by blast
  then show ?thesis
    using Some cn_in_cache [OF assms]
    by (simp add: default_cache_lookup_def cview_def ht_lookup_def [symmetric])
qed

lemma view_key: "cview t st ob = Some (e, m, d) \<Longrightarrow>
  e \<in> cached t \<and> e_oblock (st e) = ob \<and> m = e_migrating (st e) \<and> d = e_dirty (st e)"
  using cview_SomeD by fastforce

text \<open>A full cache: its entries are all the entries of the pool.\<close>

lemma full_cached:
  assumes ok: "cn_ok s" and full: "cache_is_full s"
  shows "cached (ht s) = {e. in_pool (cache_pool s) (Some e)}"
proof -
  have "ep_free (cache_pool s) = []" using full by (simp add: cache_is_full_def epool_empty_def)
  then have "{e. in_pool (cache_pool s) (Some e)} \<subseteq> alloc_set (cache_pool s) (store s)"
    using pool_ok_free [OF cn_facts(3) [OF ok]] by (auto simp: alloc_set_def)
  then show ?thesis using cn_alloc_sets(1) [OF ok] by (auto simp: alloc_set_def)
qed

end
