(* ===== verification/Policy.thy ===== *)
theory Policy
  imports Nucleus
begin

text \<open>
  The interface of a policy: the table of function pointers in \<open>struct cache_nucleus\<close>
  (\<open>src/src/include/cache_nucleus_struct.h\<close>), the functions that call through it
  (\<open>cache_nucleus_api.h\<close>), and the contract of a policy as the locale \<open>cache_policy\<close>: what its
  clients (the admission filters, the simulator) may rely on. The contract is
  stated on the view of the cached blocks, a map from blocks to the entry that holds them.
\<close>

section \<open>The function table\<close>

text \<open>
  The state type \<open>'s\<close> is the policy with everything it contains. The functions that return
  an entry return its address; \<open>fn_entry\<close> is the memory behind the address, which callers read
  (\<open>e->migrating\<close>). \<open>fn_pool_full\<close> is \<open>cache_is_full\<close> on the nucleus of the policy, as opposed to the
  function pointer \<open>cache_is_full\<close>, and \<open>fn_cache_size\<close> its field \<open>cache_size\<close>.
\<close>

record 's policy_api =
  fn_map :: "oblock \<Rightarrow> bool \<Rightarrow> cn_result \<Rightarrow> 's \<Rightarrow> (int \<times> cn_result \<times> 's) res"
  fn_remove :: "oblock \<Rightarrow> bool \<Rightarrow> 's \<Rightarrow> 's res"
  fn_insert :: "oblock \<Rightarrow> cblock \<Rightarrow> 's \<Rightarrow> 's res"
  fn_migrated :: "oblock \<Rightarrow> 's \<Rightarrow> 's res"
  fn_cache_lookup :: "oblock \<Rightarrow> 's \<Rightarrow> eptr option"
  fn_meta_lookup :: "oblock \<Rightarrow> 's \<Rightarrow> eptr option"
  fn_cblock_lookup :: "cblock \<Rightarrow> 's \<Rightarrow> eptr option"
  fn_remap :: "oblock \<Rightarrow> oblock \<Rightarrow> 's \<Rightarrow> 's res"
  fn_get_stats :: "'s \<Rightarrow> policy_stats \<Rightarrow> policy_stats"
  fn_set_time :: "u32 \<Rightarrow> 's \<Rightarrow> 's"
  fn_residency :: "'s \<Rightarrow> cblock"
  fn_cache_is_full :: "'s \<Rightarrow> bool"
  fn_infer_cblock :: "'s \<Rightarrow> eptr \<Rightarrow> cblock res"
  fn_next_victim :: "oblock \<Rightarrow> 's \<Rightarrow> (cache_nucleus_operation \<times> eptr option) res"
  fn_entry :: "'s \<Rightarrow> eptr \<Rightarrow> entry"
  fn_pool_full :: "'s \<Rightarrow> bool"
  fn_cache_size :: "'s \<Rightarrow> cblock"

definition policy_remove where "policy_remove P ob hist s = fn_remove P ob hist s"
definition policy_insert where "policy_insert P ob cb s = fn_insert P ob cb s"
definition policy_migrated where "policy_migrated P ob s = fn_migrated P ob s"
definition policy_cache_lookup where "policy_cache_lookup P ob s = fn_cache_lookup P ob s"
definition policy_meta_lookup where "policy_meta_lookup P ob s = fn_meta_lookup P ob s"
definition policy_cblock_lookup where "policy_cblock_lookup P cb s = fn_cblock_lookup P cb s"
definition policy_map where "policy_map P ob write result s = fn_map P ob write result s"
definition policy_remap where "policy_remap P cur new s = fn_remap P cur new s"
definition policy_get_stats where "policy_get_stats P s st = fn_get_stats P s st"
definition policy_set_time where "policy_set_time P time s = fn_set_time P time s"
definition policy_residency where "policy_residency P s = fn_residency P s"
definition policy_cache_is_full where "policy_cache_is_full P s = fn_cache_is_full P s"
definition policy_infer_cblock where "policy_infer_cblock P s e = fn_infer_cblock P s e"
definition policy_next_victim where "policy_next_victim P ob s = fn_next_victim P ob s"

lemmas policy_calls = policy_remove_def policy_insert_def policy_migrated_def
  policy_cache_lookup_def policy_meta_lookup_def policy_cblock_lookup_def policy_map_def
  policy_remap_def policy_get_stats_def policy_set_time_def policy_residency_def
  policy_cache_is_full_def policy_infer_cblock_def policy_next_victim_def

text \<open>
  The table that \<open>cache_nucleus_init_api\<close> fills in for a policy that keeps its blocks in its own
  nucleus: the five functions every policy has of its own, and the default ones.
\<close>

definition nucleus_api ::
  "(oblock \<Rightarrow> bool \<Rightarrow> cn_result \<Rightarrow> ('e, 'm) cache_nucleus_scheme \<Rightarrow> (int \<times> cn_result \<times> ('e, 'm) cache_nucleus_scheme) res) \<Rightarrow>
   (oblock \<Rightarrow> bool \<Rightarrow> ('e, 'm) cache_nucleus_scheme \<Rightarrow> ('e, 'm) cache_nucleus_scheme res) \<Rightarrow>
   (oblock \<Rightarrow> cblock \<Rightarrow> ('e, 'm) cache_nucleus_scheme \<Rightarrow> ('e, 'm) cache_nucleus_scheme res) \<Rightarrow>
   (oblock \<Rightarrow> ('e, 'm) cache_nucleus_scheme \<Rightarrow> ('e, 'm) cache_nucleus_scheme res) \<Rightarrow>
   (oblock \<Rightarrow> ('e, 'm) cache_nucleus_scheme \<Rightarrow> (cache_nucleus_operation \<times> eptr option) res) \<Rightarrow>
   ('e, 'm) cache_nucleus_scheme policy_api" where
  "nucleus_api map_f remove_f insert_f migrated_f next_victim_f =
     \<lparr>fn_map = map_f, fn_remove = remove_f, fn_insert = insert_f, fn_migrated = migrated_f,
      fn_cache_lookup = default_cache_lookup, fn_meta_lookup = default_meta_lookup,
      fn_cblock_lookup = default_cblock_lookup, fn_remap = default_remap,
      fn_get_stats = default_get_stats, fn_set_time = default_set_time,
      fn_residency = default_residency, fn_cache_is_full = default_cache_is_full,
      fn_infer_cblock = default_infer_cblock, fn_next_victim = next_victim_f,
      fn_entry = (\<lambda>s e. entry.truncate (store s e)), fn_pool_full = cache_is_full,
      fn_cache_size = cache_size\<rparr>"

section \<open>The view of a policy\<close>

type_synonym full_view = "oblock \<Rightarrow> (eptr \<times> bool \<times> bool) option"
type_synonym view = "oblock \<Rightarrow> (eptr \<times> bool) option"

text \<open>The entry that holds a block, is it migrating, is it dirty.\<close>

definition pview :: "'s policy_api \<Rightarrow> 's \<Rightarrow> full_view" where
  "pview P s ob =
     (case policy_cache_lookup P ob s of
        None \<Rightarrow> None
      | Some e \<Rightarrow> Some (e, e_migrating (fn_entry P s e), e_dirty (fn_entry P s e)))"

definition clean_view :: "full_view \<Rightarrow> view" where
  "clean_view v ob = map_option (\<lambda>(e, m, d). (e, m)) (v ob)"

abbreviation mview :: "'s policy_api \<Rightarrow> 's \<Rightarrow> view" where
  "mview P s \<equiv> clean_view (pview P s)"

text \<open>The lookups of a client, on the view.\<close>

lemma lookup_view: "policy_cache_lookup P ob s = map_option fst (mview P s ob)"
  by (simp add: clean_view_def pview_def split: option.splits)

lemma migrating_view: "policy_cache_lookup P ob s = Some e \<Longrightarrow>
  mview P s ob = Some (e, e_migrating (fn_entry P s e))"
  by (simp add: clean_view_def pview_def)

lemma clean_view_upd [simp]:
  "clean_view (v(ob \<mapsto> (e, m, d))) = (clean_view v)(ob \<mapsto> (e, m))"
  "clean_view (v(ob := None)) = (clean_view v)(ob := None)"
  by (auto simp: clean_view_def)

lemma clean_view_None [simp]: "clean_view v ob = None \<longleftrightarrow> v ob = None"
  by (simp add: clean_view_def)

lemma clean_view_Some: "clean_view v ob = Some (e, m) \<longleftrightarrow> (\<exists>d. v ob = Some (e, m, d))"
  by (cases "v ob") (auto simp: clean_view_def)

lemma dom_clean_view [simp]: "dom (clean_view v) = dom v"
  by (auto simp: dom_def)

text \<open>
  What an access does to the view: a hit and a filtered or failed access leave the
  blocks where they are, a new block gets an entry that held none, a replaced block was
  not migrating and its entry goes to the new block. The access marks the block it
  leaves in the cache dirty if it is a write, and reports whether the replaced one was.
\<close>

definition map_effect :: "oblock \<Rightarrow> cn_result \<Rightarrow> view \<Rightarrow> view \<Rightarrow> bool" where
  "map_effect ob r v v' \<longleftrightarrow>
     (case r_op r of
        CACHE_NUCLEUS_HIT \<Rightarrow> v ob \<noteq> None \<and> v' = v
      | CACHE_NUCLEUS_FILTER \<Rightarrow> v ob = None \<and> v' = v
      | CACHE_NUCLEUS_NEW \<Rightarrow>
          v ob = None \<and> (\<exists>e. (\<forall>ob' m. v ob' \<noteq> Some (e, m)) \<and> v' = v(ob \<mapsto> (e, True)))
      | CACHE_NUCLEUS_REPLACE \<Rightarrow>
          v ob = None \<and> (\<exists>e. v (r_old_oblock r) = Some (e, False) \<and>
            v' = v(r_old_oblock r := None, ob \<mapsto> (e, True)))
      | CACHE_NUCLEUS_FAIL \<Rightarrow> v ob = None \<and> v' = v)"

definition write_effect :: "oblock \<Rightarrow> bool \<Rightarrow> cn_result \<Rightarrow> full_view \<Rightarrow> full_view \<Rightarrow> bool" where
  "write_effect ob w r v v' \<longleftrightarrow>
     (case r_op r of
        CACHE_NUCLEUS_HIT \<Rightarrow> (\<exists>e m d. v ob = Some (e, m, d) \<and> v' = v(ob \<mapsto> (e, m, d \<or> w)))
      | CACHE_NUCLEUS_FILTER \<Rightarrow> v ob = None \<and> v' = v
      | CACHE_NUCLEUS_NEW \<Rightarrow>
          v ob = None \<and> (\<exists>e. (\<forall>ob' x. v ob' \<noteq> Some (e, x)) \<and> v' = v(ob \<mapsto> (e, True, w)))
      | CACHE_NUCLEUS_REPLACE \<Rightarrow>
          v ob = None \<and> (\<exists>e. v (r_old_oblock r) = Some (e, False, r_dirty_eviction r) \<and>
            v' = v(r_old_oblock r := None, ob \<mapsto> (e, True, w)))
      | CACHE_NUCLEUS_FAIL \<Rightarrow> v ob = None \<and> v' = v)"

lemma map_effect_NEW: "map_effect ob r v v' \<Longrightarrow> r_op r = CACHE_NUCLEUS_NEW \<Longrightarrow>
    v ob = None \<and> (\<exists>e. (\<forall>ob' m. v ob' \<noteq> Some (e, m)) \<and> v' = v(ob \<mapsto> (e, True)))"
  by (simp add: map_effect_def)

lemma map_effect_REPLACE: "map_effect ob r v v' \<Longrightarrow> r_op r = CACHE_NUCLEUS_REPLACE \<Longrightarrow>
    v ob = None \<and> (\<exists>e. v (r_old_oblock r) = Some (e, False) \<and>
      v' = v(r_old_oblock r := None, ob \<mapsto> (e, True)))"
  by (simp add: map_effect_def)

lemma write_effect_map:
  assumes "write_effect ob w r v v'"
  shows "map_effect ob r (clean_view v) (clean_view v')"
proof (cases "r_op r")
  case CACHE_NUCLEUS_HIT
  then obtain e m d where "v ob = Some (e, m, d)" "v' = v(ob \<mapsto> (e, m, d \<or> w))"
    using assms by (auto simp: write_effect_def)
  moreover have "(clean_view v)(ob \<mapsto> (e, m)) = clean_view v"
    using calculation(1) by (auto simp: clean_view_def)
  ultimately show ?thesis using CACHE_NUCLEUS_HIT by (simp add: map_effect_def)
next
  case CACHE_NUCLEUS_NEW
  then obtain e where "v ob = None" "\<forall>ob' x. v ob' \<noteq> Some (e, x)" "v' = v(ob \<mapsto> (e, True, w))"
    using assms by (auto simp: write_effect_def)
  then show ?thesis using CACHE_NUCLEUS_NEW
    by (auto simp: map_effect_def clean_view_Some intro!: exI [of _ "fst e"] exI [of _ "snd e"])
next
  case CACHE_NUCLEUS_REPLACE
  then obtain e where "v ob = None" "v (r_old_oblock r) = Some (e, False, r_dirty_eviction r)"
    "v' = v(r_old_oblock r := None, ob \<mapsto> (e, True, w))"
    using assms unfolding write_effect_def by auto
  then show ?thesis using CACHE_NUCLEUS_REPLACE
    by (auto simp: map_effect_def clean_view_Some)
qed (use assms in \<open>auto simp: write_effect_def map_effect_def\<close>)

text \<open>The block an access evicted, read off its result.\<close>

definition evicted :: "cn_result \<Rightarrow> oblock option" where
  "evicted r = (if r_op r = CACHE_NUCLEUS_REPLACE then Some (r_old_oblock r) else None)"

text \<open>The address an access reports is the one of the entry that holds the block afterwards.\<close>

definition located :: "'s policy_api \<Rightarrow> oblock \<Rightarrow> cn_result \<Rightarrow> 's \<Rightarrow> bool" where
  "located P ob r s \<longleftrightarrow>
     (r_op r \<in> {CACHE_NUCLEUS_HIT, CACHE_NUCLEUS_NEW, CACHE_NUCLEUS_REPLACE} \<longrightarrow>
        policy_cblock_lookup P (r_cblock r) s = policy_cache_lookup P ob s)"

section \<open>Policies that use the default functions\<close>

text \<open>
  The block at the end of every \<open>map\<close> function: a written block that is in the cache
  becomes dirty.
\<close>

definition mark_dirty :: "oblock \<Rightarrow> bool \<Rightarrow> ('e, 'm) cache_nucleus_scheme \<Rightarrow> ('e, 'm) cache_nucleus_scheme" where
  "mark_dirty ob write s =
     (case ht_lookup ob s of
        None \<Rightarrow> s
      | Some e \<Rightarrow>
          if in_cache s (Some e) then upd_entry e (\<lambda>x. x\<lparr>e_dirty := e_dirty x \<or> write\<rparr>) s else s)"

lemma mark_dirty_cached:
  assumes "cn_ok s" "e \<in> cached (ht s)" "e_oblock (store s e) = ob"
  shows "mark_dirty ob w s = upd_entry e (\<lambda>x. x\<lparr>e_dirty := e_dirty x \<or> w\<rparr>) s"
    "cn_ok (upd_entry e (\<lambda>x. x\<lparr>e_dirty := e_dirty x \<or> w\<rparr>) s)"
proof -
  have "ht_lookup ob s = Some e" "in_cache s (Some e)"
    using assms lookup_Some [OF assms(1)] cn_in_cache [OF assms(1)] by (auto simp: cached_def)
  then show "mark_dirty ob w s = upd_entry e (\<lambda>x. x\<lparr>e_dirty := e_dirty x \<or> w\<rparr>) s"
    by (simp add: mark_dirty_def)
  show "cn_ok (upd_entry e (\<lambda>x. x\<lparr>e_dirty := e_dirty x \<or> w\<rparr>) s)"
    by (rule cn_ok_upd [OF assms(1)]) simp_all
qed

lemma mark_dirty_meta:
  assumes "cn_ok s" "e \<in> metas (ht s)" "e_oblock (store s e) = ob"
  shows "mark_dirty ob w s = s"
proof -
  have "ht_lookup ob s = Some e" "\<not> in_cache s (Some e)"
    using assms lookup_Some [OF assms(1)] cn_in_cache [OF assms(1)] by (auto simp: metas_def)
  then show ?thesis by (simp add: mark_dirty_def)
qed

lemma pview_nucleus:
  assumes "cn_ok s"
  shows "pview (nucleus_api mp rm ins mg nv) s = cview (ht s) (store s)"
proof
  fix ob
  show "pview (nucleus_api mp rm ins mg nv) s ob = cview (ht s) (store s) ob"
  proof (cases "cview (ht s) (store s) ob")
    case None
    then show ?thesis using default_cache_lookup_view [OF assms, of ob]
      by (simp add: pview_def nucleus_api_def policy_cache_lookup_def)
  next
    case (Some v)
    then obtain e m d where v: "cview (ht s) (store s) ob = Some (e, m, d)" by (cases v) auto
    then show ?thesis using default_cache_lookup_view [OF assms, of ob] view_key [OF v]
      by (simp add: pview_def nucleus_api_def policy_cache_lookup_def entry.defs)
  qed
qed

lemma nucleus_inj:
  assumes "cn_ok s" "clean_view (cview (ht s) (store s)) ob = Some (e, m)"
    "clean_view (cview (ht s) (store s)) ob' = Some (e, m')"
  shows "ob = ob'"
  using assms view_key unfolding clean_view_Some by blast

lemma nucleus_finite: "cn_ok s \<Longrightarrow> finite (dom (cview (ht s) (store s)))"
  by (simp add: dom_cview cn_facts)

lemma nucleus_residency: "cn_ok s \<Longrightarrow> default_residency s = of_nat (card (dom (cview (ht s) (store s))))"
  by (simp add: residency_card card_dom_cview cn_facts)

lemma nucleus_cap: "cn_ok s \<Longrightarrow>
  card (dom (cview (ht s) (store s))) \<le> unat (ep_nr_entries (cache_pool s))"
  by (simp add: card_dom_cview cn_facts card_cached_le)

lemma nucleus_full: "cn_ok s \<Longrightarrow>
  default_cache_is_full s \<longleftrightarrow> card (dom (cview (ht s) (store s))) = unat (ep_nr_entries (cache_pool s))"
  by (simp add: default_cache_is_full_def card_dom_cview cn_facts cache_is_full_iff)

text \<open>Insertion of a block followed by the mark that it is migrating.\<close>

abbreviation promoted :: "oblock \<Rightarrow> bool \<Rightarrow> 'e entry_scheme \<Rightarrow> 'e entry_scheme" where
  "promoted ob w x \<equiv> x\<lparr>e_allocated := True, e_oblock := ob, e_migrating := True, e_dirty := w\<rparr>"

lemma insert_migrating_ok:
  assumes ok: "cn_ok s" and nf: "\<not> cache_is_full s" and new: "ht_lookup ob s = None"
    and two: "2 \<le> ep_nr_entries (cache_pool s)"
  shows "\<exists>e cb cp s1 s'. s' = s\<lparr>store := (store s)(e := (fresh_entry ob (store s e))\<lparr>e_migrating := True\<rparr>),
        cache_pool := cp, ht := e # ht s\<rparr> \<and>
     insert_in_cache ob (Some r) s = Inr (e, Some (r\<lparr>r_cblock := cb\<rparr>), s1) \<and>
     cn_migrating_entry e s1 = Inr s' \<and> cn_ok s' \<and>
     pool_geo cp = pool_geo (cache_pool s) \<and> epool_at (cache_pool s) cb = Some e \<and>
     fst e = CacheRegion \<and> e \<notin> set (ht s)"
proof -
  obtain e cb cp1 s1 where 1: "s1 = s\<lparr>store := (store s)(e := fresh_entry ob (store s e)),
        cache_pool := cp1, ht := e # ht s\<rparr>"
    "insert_in_cache ob (Some r) s = Inr (e, Some (r\<lparr>r_cblock := cb\<rparr>), s1)" "cn_ok s1"
    "pool_geo cp1 = pool_geo (cache_pool s)" "epool_at (cache_pool s) cb = Some e"
    "fst e = CacheRegion" "e \<notin> set (ht s)" "\<not> e_migrating (store s e)"
    using insert_in_cache_ok [OF assms, of r] by blast
  have "e \<in> cached (ht s1)" "\<not> e_migrating (store s1 e)" using 1 by (simp_all add: cached_def)
  from cn_migrating_entry_ok [OF 1(3) this] obtain cp s2 where 2:
    "s2 = s1\<lparr>store := (store s1)(e := (store s1 e)\<lparr>e_migrating := True\<rparr>), cache_pool := cp\<rparr>"
    "cn_migrating_entry e s1 = Inr s2" "cn_ok s2" "pool_geo cp = pool_geo (cache_pool s1)" by blast
  have "pool_geo cp = pool_geo (cache_pool s)" using 1(1,4) 2(4) by simp
  moreover have "s2 = s\<lparr>store := (store s)(e := (fresh_entry ob (store s e))\<lparr>e_migrating := True\<rparr>),
        cache_pool := cp, ht := e # ht s\<rparr>"
    unfolding 2(1) 1(1) by simp
  ultimately show ?thesis using 1(2,5,6,7) 2(2,3) by blast
qed

section \<open>The contract\<close>

text \<open>
  The contract of a policy that serves a bounded number of accesses: \<open>binv n\<close> is its invariant while at
  least \<open>n\<close> more can come. Only \<open>map\<close> spends one. It is what the simulator needs; \<open>metered_policy\<close> also promises that
  \<open>next_victim\<close> predicts which accesses fail.
\<close>

locale runnable_policy =
  fixes P :: "'s policy_api" and binv :: "nat \<Rightarrow> 's \<Rightarrow> bool" and cap :: nat
  assumes spend_law: "binv (Suc n) s \<Longrightarrow> binv n s"
    and served_law: "binv (Suc n) s \<Longrightarrow> succeeds (policy_map P ob w r0 s) (\<lambda>(rc, r, s').
      rc = 0 \<and> binv n s' \<and> map_effect ob r (mview P s) (mview P s') \<and> located P ob r s')"
    and settled_law: "binv n s \<Longrightarrow> mview P s ob = Some (e, True) \<Longrightarrow>
      succeeds (policy_migrated P ob s) (\<lambda>s'. binv n s' \<and> mview P s' = (mview P s)(ob \<mapsto> (e, False)))"
    and clocked_law: "binv n s \<Longrightarrow>
      binv n (policy_set_time P time s) \<and> mview P (policy_set_time P time s) = mview P s"
    and single_law: "binv n s \<Longrightarrow> mview P s ob = Some (e, m) \<Longrightarrow> mview P s ob' = Some (e, m') \<Longrightarrow> ob = ob'"
    and room_law: "binv n s \<Longrightarrow> finite (dom (mview P s)) \<and> card (dom (mview P s)) \<le> cap"
    and counted_law: "binv n s \<Longrightarrow> policy_residency P s = of_nat (card (dom (mview P s)))"
    and filled_law: "binv n s \<Longrightarrow> policy_cache_is_full P s \<longleftrightarrow> card (dom (mview P s)) = cap"

locale metered_policy = runnable_policy +
  assumes foreseen_law: "binv (Suc n) s \<Longrightarrow> succeeds (policy_next_victim P ob s) (\<lambda>(op, v).
      succeeds (policy_map P ob w r0 s) (\<lambda>(rc, r, s').
        op = CACHE_NUCLEUS_FAIL \<longleftrightarrow> r_op r = CACHE_NUCLEUS_FAIL))"

text \<open>The contract of a policy that serves any number of accesses.\<close>

locale access_policy =
  fixes P :: "'s policy_api" and inv :: "'s \<Rightarrow> bool" and cap :: nat
  assumes map_law: "inv s \<Longrightarrow> succeeds (policy_map P ob w r0 s) (\<lambda>(rc, r, s').
      rc = 0 \<and> inv s' \<and> map_effect ob r (mview P s) (mview P s') \<and> located P ob r s')"
    and migrated_law: "inv s \<Longrightarrow> mview P s ob = Some (e, True) \<Longrightarrow>
      succeeds (policy_migrated P ob s) (\<lambda>s'. inv s' \<and> mview P s' = (mview P s)(ob \<mapsto> (e, False)))"
    and time_law: "inv s \<Longrightarrow> inv (policy_set_time P time s) \<and> mview P (policy_set_time P time s) = mview P s"
    and victim_law: "inv s \<Longrightarrow> succeeds (policy_next_victim P ob s) (\<lambda>(op, v).
      succeeds (policy_map P ob w r0 s) (\<lambda>(rc, r, s').
        op = CACHE_NUCLEUS_FAIL \<longleftrightarrow> r_op r = CACHE_NUCLEUS_FAIL))"
    and inj_law: "inv s \<Longrightarrow> mview P s ob = Some (e, m) \<Longrightarrow> mview P s ob' = Some (e, m') \<Longrightarrow> ob = ob'"
    and cap_law: "inv s \<Longrightarrow> finite (dom (mview P s)) \<and> card (dom (mview P s)) \<le> cap"
    and residency_law: "inv s \<Longrightarrow> policy_residency P s = of_nat (card (dom (mview P s)))"
    and full_law: "inv s \<Longrightarrow> policy_cache_is_full P s \<longleftrightarrow> card (dom (mview P s)) = cap"

sublocale access_policy \<subseteq> metered: metered_policy P "\<lambda>_. inv" cap
  by unfold_locales (fact map_law migrated_law time_law victim_law inj_law cap_law residency_law full_law | assumption)+

text \<open>A policy from which blocks can be removed without being remembered.\<close>

locale cache_policy = access_policy +
  assumes remove_law: "inv s \<Longrightarrow> mview P s ob \<noteq> None \<Longrightarrow>
      succeeds (policy_remove P ob False s) (\<lambda>s'. inv s' \<and> mview P s' = (mview P s)(ob := None))"

text \<open>A policy that also keeps track of the written blocks.\<close>

locale write_policy = cache_policy +
  assumes write_law: "inv s \<Longrightarrow> succeeds (policy_map P ob w r0 s) (\<lambda>(rc, r, s').
      write_effect ob w r (pview P s) (pview P s'))"

context access_policy
begin

lemma map_lawD:
  assumes "inv s" "policy_map P ob w r0 s = Inr (rc, r, s')"
  shows "rc = 0" "inv s'" "map_effect ob r (mview P s) (mview P s')" "located P ob r s'"
  using map_law [OF assms(1), of ob w r0] assms(2) by simp_all

text \<open>The number of blocks changes by what the operation says.\<close>

lemma map_residency:
  assumes "inv s" "policy_map P ob w r0 s = Inr (rc, r, s')"
  shows "card (dom (mview P s')) =
    card (dom (mview P s)) + (if r_op r = CACHE_NUCLEUS_NEW then 1 else 0)"
proof -
  have eff: "map_effect ob r (mview P s) (mview P s')" by (rule map_lawD(3) [OF assms])
  have fin: "finite (dom (mview P s))" using cap_law [OF assms(1)] by blast
  show ?thesis
  proof (cases "r_op r")
    case CACHE_NUCLEUS_NEW
    then obtain e where "mview P s ob = None" "mview P s' = (mview P s)(ob \<mapsto> (e, True))"
      using eff by (auto simp: map_effect_def)
    moreover from this(1) have "ob \<notin> dom (mview P s)" by blast
    ultimately show ?thesis using CACHE_NUCLEUS_NEW fin by simp
  next
    case CACHE_NUCLEUS_REPLACE
    with eff obtain e where e: "mview P s ob = None" "mview P s (r_old_oblock r) = Some (e, False)"
      "mview P s' = (mview P s)(r_old_oblock r := None, ob \<mapsto> (e, True))"
      using map_effect_REPLACE by blast
    have "ob \<noteq> r_old_oblock r" using e(1,2) by (metis option.distinct(1))
    have "dom (mview P s') = insert ob (dom (mview P s) - {r_old_oblock r})"
      unfolding e(3) using \<open>ob \<noteq> r_old_oblock r\<close> by (simp del: dom_clean_view)
    moreover have "r_old_oblock r \<in> dom (mview P s)" "ob \<notin> dom (mview P s)" using e(1,2) by blast+
    ultimately show ?thesis using CACHE_NUCLEUS_REPLACE fin card_Suc_Diff1 [OF fin] by simp
  qed (use eff in \<open>simp_all add: map_effect_def\<close>)
qed

text \<open>A full cache never reports a new block without an eviction.\<close>

lemma full_not_new:
  assumes "inv s" "policy_cache_is_full P s" "policy_map P ob w r0 s = Inr (rc, r, s')"
  shows "r_op r \<noteq> CACHE_NUCLEUS_NEW"
proof
  assume "r_op r = CACHE_NUCLEUS_NEW"
  then have "card (dom (mview P s')) = Suc cap"
    using map_residency [OF assms(1,3)] full_law [OF assms(1)] assms(2) by simp
  moreover have "inv s'" by (rule map_lawD(2) [OF assms(1,3)])
  ultimately show False using cap_law [of s'] by simp
qed

lemma cached_hits:
  assumes "inv s" "policy_map P ob w r0 s = Inr (rc, r, s')"
  shows "mview P s ob \<noteq> None \<longleftrightarrow> r_op r = CACHE_NUCLEUS_HIT"
proof -
  have eff: "map_effect ob r (mview P s) (mview P s')" by (rule map_lawD(3) [OF assms])
  then show ?thesis by (cases "r_op r") (auto simp: map_effect_def)
qed

end

end
