(* ===== verification/Lru.thy ===== *)
theory Lru
  imports Policy
begin

text \<open>
  The LRU policy (\<open>src/src/algs/lru/lru_policy.c\<close>, \<open>lru_policy_struct.h\<close>): its transactions and API
  functions, its invariant, what every branch of an access does, the contract of a
  policy, and the refinement of an abstract LRU cache.
\<close>

section \<open>The policy\<close>

text \<open>\<open>lru_entry\<close> adds to \<open>entry\<close> only the queue node.\<close>

record lru_policy = "unit cache_nucleus" +
  lru_q :: "eptr list"

record lru_transaction =
  lt_oblock :: oblock
  lt_evict :: bool
  lt_hit :: bool

definition lru_transaction_init :: "oblock \<Rightarrow> lru_transaction" where
  "lru_transaction_init ob = \<lparr>lt_oblock = ob, lt_evict = False, lt_hit = False\<rparr>"

definition lru_transaction_set :: "lru_policy \<Rightarrow> lru_transaction \<Rightarrow> lru_transaction" where
  "lru_transaction_set s lt =
     (if ht_lookup (lt_oblock lt) s \<noteq> None then lt\<lparr>lt_hit := True\<rparr>
      else lt\<lparr>lt_evict := cache_is_full s\<rparr>)"

definition lru_transaction_is_legal :: "lru_policy \<Rightarrow> lru_transaction \<Rightarrow> bool" where
  "lru_transaction_is_legal s lt = (if lt_evict lt then q_length (lru_q s) > 0 else True)"

definition lru_remove_entry :: "eptr \<Rightarrow> lru_policy \<Rightarrow> lru_policy res" where
  "lru_remove_entry e s =
     (let s = (if \<not> e_migrating (store s e)
               then upd_stats inc_demotions (s\<lparr>lru_q := q_remove e (lru_q s)\<rparr>) else s)
      in cache_nucleus_remove e s)"

definition lru_evict :: "cn_result \<Rightarrow> lru_policy \<Rightarrow> (cn_result \<times> lru_policy) res" where
  "lru_evict result s =
     rbind (deref (q_peek (lru_q s))) (\<lambda>demoted.
     let s = s\<lparr>lru_q := q_remove demoted (lru_q s)\<rparr>;
         result = result\<lparr>r_old_oblock := e_oblock (store s demoted),
                         r_dirty_eviction := e_dirty (store s demoted)\<rparr> in
     rbind (lru_remove_entry demoted s) (\<lambda>s. Inr (result, s)))"

definition lru_insert :: "oblock \<Rightarrow> cn_result \<Rightarrow> lru_policy \<Rightarrow> (cn_result \<times> lru_policy) res" where
  "lru_insert ob result s =
     rbind (insert_in_cache ob (Some result) s) (\<lambda>(e, res, s).
     rbind (deref res) (\<lambda>result.
     rbind (cn_migrating_entry e s) (\<lambda>s. Inr (result, s))))"

definition lru_hit :: "oblock \<Rightarrow> cn_result \<Rightarrow> lru_policy \<Rightarrow> (cn_result \<times> lru_policy) res" where
  "lru_hit ob result s =
     rbind (deref (ht_lookup ob s)) (\<lambda>e.
     rbind (infer_cblock (cache_pool s) e) (\<lambda>cb.
     let result = result\<lparr>r_cblock := cb\<rparr> in
     if \<not> e_migrating (store s e) then
       rbind (q_push [] (q_remove e (lru_q s)) e) (\<lambda>q. Inr (result, s\<lparr>lru_q := q\<rparr>))
     else Inr (result, s)))"

definition lru_transaction_commit ::
  "lru_transaction \<Rightarrow> cn_result \<Rightarrow> lru_policy \<Rightarrow> (cn_result \<times> lru_policy) res" where
  "lru_transaction_commit lt result s =
     (if lt_hit lt then
        let result = result\<lparr>r_op := CACHE_NUCLEUS_HIT\<rparr> in
        rbind (lru_hit (lt_oblock lt) result s) (\<lambda>(result, s).
        Inr (result, upd_stats inc_hits s))
      else
        let result = result\<lparr>r_op := CACHE_NUCLEUS_NEW\<rparr> in
        rbind (if lt_evict lt then lru_evict (result\<lparr>r_op := CACHE_NUCLEUS_REPLACE\<rparr>) s
               else Inr (result, s)) (\<lambda>(result, s).
        rbind (lru_insert (lt_oblock lt) result s) (\<lambda>(result, s).
        Inr (result, upd_stats inc_misses s))))"

definition lru_remove_api :: "oblock \<Rightarrow> bool \<Rightarrow> lru_policy \<Rightarrow> lru_policy res" where
  "lru_remove_api ob remove_to_history s =
     rbind (log_assert (ht_lookup ob s \<noteq> None)) (\<lambda>_.
     rbind (deref (ht_lookup ob s)) (\<lambda>e. lru_remove_entry e s))"

definition lru_insert_api :: "oblock \<Rightarrow> cblock \<Rightarrow> lru_policy \<Rightarrow> lru_policy res" where
  "lru_insert_api ob cb s =
     rbind (insert_in_cache_at ob cb None s) (\<lambda>(e, _, s).
     rbind (q_push [] (lru_q s) e) (\<lambda>q. Inr (s\<lparr>lru_q := q\<rparr>)))"

definition lru_migrated_api :: "oblock \<Rightarrow> lru_policy \<Rightarrow> lru_policy res" where
  "lru_migrated_api ob s =
     rbind (log_assert (in_pool (cache_pool s) (ht_lookup ob s))) (\<lambda>_.
     rbind (deref (ht_lookup ob s)) (\<lambda>e.
     rbind (cn_migrated_entry e s) (\<lambda>s.
     rbind (q_push [] (lru_q s) e) (\<lambda>q.
     Inr (upd_stats inc_promotions (s\<lparr>lru_q := q\<rparr>))))))"

definition lru_map_api ::
  "oblock \<Rightarrow> bool \<Rightarrow> cn_result \<Rightarrow> lru_policy \<Rightarrow> (int \<times> cn_result \<times> lru_policy) res" where
  "lru_map_api ob write result s =
     (let lt = lru_transaction_set s (lru_transaction_init ob) in
      if lru_transaction_is_legal s lt then
        rbind (lru_transaction_commit lt result s) (\<lambda>(result, s).
        Inr (0, result, mark_dirty ob write (upd_stats inc_ios s)))
      else Inr (0, result\<lparr>r_op := CACHE_NUCLEUS_FAIL\<rparr>, s))"

definition lru_next_victim_api ::
  "oblock \<Rightarrow> lru_policy \<Rightarrow> (cache_nucleus_operation \<times> eptr option) res" where
  "lru_next_victim_api ob s =
     (let lt = lru_transaction_set s (lru_transaction_init ob) in
      Inr (if lru_transaction_is_legal s lt then
             if lt_hit lt then (CACHE_NUCLEUS_HIT, None)
             else if lt_evict lt then (CACHE_NUCLEUS_REPLACE, q_peek (lru_q s))
             else (CACHE_NUCLEUS_NEW, None)
           else (CACHE_NUCLEUS_FAIL, None)))"

definition lru_api :: "lru_policy policy_api" where
  "lru_api = nucleus_api lru_map_api lru_remove_api lru_insert_api lru_migrated_api
     lru_next_victim_api"

text \<open>
  \<open>lru_create\<close>: the memory of the policy and of the entries is zeroed when it is allocated,
  and the allocation does not fail in the model. The meta pool stays zeroed memory.
\<close>

definition zero_entry :: entry where
  "zero_entry = \<lparr>e_oblock = 0, e_time = 0, e_dirty = False, e_allocated = False,
                 e_migrating = False\<rparr>"

definition lru_init :: "cblock \<Rightarrow> lru_policy \<Rightarrow> lru_policy res" where
  "lru_init csize s =
     policy_init csize 0 CACHE_NUCLEUS_SINGLE_THREAD
       (s\<lparr>lru_q := [], cache_pool := epool_create CacheRegion csize\<rparr>)"

definition zero_lru :: lru_policy where
  "zero_lru = \<lparr>store = (\<lambda>_. zero_entry), wb = (\<lambda>_. []),
     thread_support = CACHE_NUCLEUS_SINGLE_THREAD, meta_size = 0, cache_size = 0,
     meta_pool = epool_create MetaRegion 0, cache_pool = epool_create CacheRegion 0,
     stats = stats_init, ht = [], cn_time = 0, lru_q = []\<rparr>"

definition lru_create :: "cblock \<Rightarrow> cblock \<Rightarrow> lru_policy res" where
  "lru_create csize msize = lru_init csize zero_lru"

section \<open>The invariant\<close>

text \<open>
  The queue holds the entries of the cache that are not migrating. There are at least two
  entries: with one, the address of an entry cannot be inferred.
\<close>

definition lru_ok :: "u32 \<Rightarrow> lru_policy \<Rightarrow> bool" where
  "lru_ok c s \<longleftrightarrow> cn_ok s \<and> ep_nr_entries (cache_pool s) = c \<and> 2 \<le> c \<and>
     ep_nr_entries (meta_pool s) = 0 \<and> distinct (lru_q s) \<and>
     set (lru_q s) = {e \<in> set (ht s). \<not> e_migrating (store s e)}"

lemma lru_okD:
  assumes "lru_ok c s"
  shows "cn_ok s" "ep_nr_entries (cache_pool s) = c" "2 \<le> c" "ep_nr_entries (meta_pool s) = 0"
    "distinct (lru_q s)" "set (lru_q s) = {e \<in> set (ht s). \<not> e_migrating (store s e)}"
  using assms by (simp_all add: lru_ok_def)

lemma no_metas:
  assumes "cn_ok s" "ep_nr_entries (meta_pool s) = 0"
  shows "metas (ht s) = {}" "set (ht s) = cached (ht s)"
proof -
  show m: "metas (ht s) = {}" using card_metas_le [OF assms(1)] assms(2) by simp
  have "e \<in> set (ht s) \<Longrightarrow> e \<in> cached (ht s) \<or> e \<in> metas (ht s)" for e
    by (cases "fst e") (auto simp: cached_def metas_def)
  then show "set (ht s) = cached (ht s)" using m by (auto simp: cached_def)
qed

lemma lru_cached: "lru_ok c s \<Longrightarrow> set (ht s) = cached (ht s)"
  by (rule no_metas) (auto dest: lru_okD)

lemma lru_region: "lru_ok c s \<Longrightarrow> e \<in> set (ht s) \<Longrightarrow> fst e = CacheRegion"
  using lru_cached [of c s] unfolding cached_def by blast

lemma lru_q_length:
  assumes "lru_ok c s"
  shows "length (lru_q s) \<le> unat c"
proof -
  have "length (lru_q s) = card (set (lru_q s))"
    using distinct_card [OF lru_okD(5) [OF assms]] by simp
  also have "\<dots> \<le> card (cached (ht s))"
    using lru_okD(6) [OF assms] lru_cached [OF assms] by (intro card_mono) auto
  also have "\<dots> \<le> unat c" using card_cached_le [OF lru_okD(1) [OF assms]] lru_okD(2) [OF assms] by simp
  finally show ?thesis .
qed

lemma lru_q_pos: "lru_ok c s \<Longrightarrow> q_length (lru_q s) > 0 \<longleftrightarrow> lru_q s \<noteq> []"
  using lru_q_length [of c s] unat_less_exp [of c]
  by (auto simp: q_length_def of_nat_pos_small)

section \<open>The branches of an access\<close>

lemma lru_map_hit:
  assumes ok: "lru_ok c s" and e: "ht_lookup ob s = Some e"
  shows "\<exists>cb s'. lru_map_api ob w r s = Inr (0, r\<lparr>r_op := CACHE_NUCLEUS_HIT, r_cblock := cb\<rparr>, s') \<and>
    store s' = (store s)(e := (store s e)\<lparr>e_dirty := e_dirty (store s e) \<or> w\<rparr>) \<and> ht s' = ht s \<and>
    stats s' = inc_ios (inc_hits (stats s)) \<and> cache_pool s' = cache_pool s \<and>
    lru_q s' = (if e_migrating (store s e) then lru_q s else remove1 e (lru_q s) @ [e]) \<and>
    epool_at (cache_pool s) cb = Some e \<and> lru_ok c s'"
proof -
  note D = lru_okD [OF ok]
  have mem: "e \<in> set (ht s)" "e_oblock (store s e) = ob" using lookup_Some [OF D(1)] e by auto
  then have c: "e \<in> cached (ht s)" using lru_cached [OF ok] by simp
  then have ip: "in_pool (cache_pool s) (Some e)"
    using cn_in_cache [OF D(1) mem(1)] by (simp add: in_cache_def cached_def)
  have nr: "2 \<le> ep_nr_entries (cache_pool s)" using D by simp
  define cb where "cb = of_nat (snd e) + ep_starting_index (cache_pool s)"
  define q where "q = (if e_migrating (store s e) then lru_q s else remove1 e (lru_q s) @ [e])"
  let ?s1 = "s\<lparr>lru_q := q, stats := inc_ios (inc_hits (stats s))\<rparr>"
  let ?s' = "upd_entry e (\<lambda>x. x\<lparr>e_dirty := e_dirty x \<or> w\<rparr>) ?s1"
  have ok1: "cn_ok ?s1" using D(1) by (simp add: cn_ok_def)
  have "lru_hit ob (r\<lparr>r_op := CACHE_NUCLEUS_HIT\<rparr>) s =
      Inr (r\<lparr>r_op := CACHE_NUCLEUS_HIT, r_cblock := cb\<rparr>, s\<lparr>lru_q := q\<rparr>)"
    using D(5) by (simp add: lru_hit_def e deref_def infer_cblock_ok(1) [OF ip nr] cb_def q_def
        q_push_def q_remove_def)
  moreover have "mark_dirty ob w ?s1 = ?s'" and ok': "cn_ok ?s'"
    using mark_dirty_cached [OF ok1, of e ob] c mem by simp_all
  ultimately have "lru_map_api ob w r s = Inr (0, r\<lparr>r_op := CACHE_NUCLEUS_HIT, r_cblock := cb\<rparr>, ?s')"
    by (simp add: lru_map_api_def lru_transaction_set_def lru_transaction_init_def e
        lru_transaction_is_legal_def lru_transaction_commit_def)
  moreover have "set q = set (lru_q s)" "distinct q"
    using D(5,6) mem by (auto simp: q_def)
  then have "lru_ok c ?s'" using ok' D by (auto simp: lru_ok_def)
  moreover have "epool_at (cache_pool s) cb = Some e"
    unfolding cb_def by (rule infer_cblock_ok(2) [OF ip nr])
  ultimately show ?thesis unfolding q_def
    by (intro exI [of _ cb] exI [of _ ?s']) (simp add: q_def)
qed

lemma lru_insert_ok:
  assumes ok: "lru_ok c s" and nf: "\<not> cache_is_full s" and new: "ht_lookup ob s = None"
  shows "\<exists>e cb cp s'. lru_insert ob r s = Inr (r\<lparr>r_cblock := cb\<rparr>, s') \<and>
    s' = s\<lparr>store := (store s)(e := (fresh_entry ob (store s e))\<lparr>e_migrating := True\<rparr>),
        cache_pool := cp, ht := e # ht s\<rparr> \<and> lru_ok c s' \<and>
    pool_geo cp = pool_geo (cache_pool s) \<and> epool_at (cache_pool s) cb = Some e \<and>
    fst e = CacheRegion \<and> e \<notin> set (ht s)"
proof -
  note D = lru_okD [OF ok]
  have "2 \<le> ep_nr_entries (cache_pool s)" using D by simp
  from insert_migrating_ok [OF D(1) nf new this]
  obtain e cb cp s1 s' where
    s': "s' = s\<lparr>store := (store s)(e := (fresh_entry ob (store s e))\<lparr>e_migrating := True\<rparr>),
        cache_pool := cp, ht := e # ht s\<rparr>"
    and run: "insert_in_cache ob (Some r) s = Inr (e, Some (r\<lparr>r_cblock := cb\<rparr>), s1)"
      "cn_migrating_entry e s1 = Inr s'"
    and cn: "cn_ok s'" and geo: "pool_geo cp = pool_geo (cache_pool s)"
      "epool_at (cache_pool s) cb = Some e" "fst e = CacheRegion" "e \<notin> set (ht s)" by blast
  have "lru_insert ob r s = Inr (r\<lparr>r_cblock := cb\<rparr>, s')"
    using run by (simp add: lru_insert_def deref_def)
  moreover have "lru_ok c s'"
    using cn D geo by (auto simp: lru_ok_def s' pool_geo_eq)
  ultimately show ?thesis using s' geo by blast
qed

text \<open>The end of an access that inserts a block: the statistics and the dirty mark.\<close>

lemma lru_map_insert:
  assumes ok: "lru_ok c s" and nf: "\<not> cache_is_full s" and new: "ht_lookup ob s = None"
  shows "\<exists>e cb s1 s'. lru_insert ob r s = Inr (r\<lparr>r_cblock := cb\<rparr>, s1) \<and>
    mark_dirty ob w (upd_stats inc_ios (upd_stats inc_misses s1)) = s' \<and>
    store s' = (store s)(e := promoted ob w (store s e)) \<and>
    ht s' = e # ht s \<and> lru_q s' = lru_q s \<and> stats s' = inc_ios (inc_misses (stats s)) \<and> lru_ok c s' \<and>
    pool_geo (cache_pool s') = pool_geo (cache_pool s) \<and> epool_at (cache_pool s) cb = Some e \<and>
    fst e = CacheRegion \<and> e \<notin> set (ht s)"
proof -
  obtain e cb cp s1 where 1: "lru_insert ob r s = Inr (r\<lparr>r_cblock := cb\<rparr>, s1)"
    and s1: "s1 = s\<lparr>store := (store s)(e := (fresh_entry ob (store s e))\<lparr>e_migrating := True\<rparr>),
        cache_pool := cp, ht := e # ht s\<rparr>"
    and ok1: "lru_ok c s1" and geo: "pool_geo cp = pool_geo (cache_pool s)"
      "epool_at (cache_pool s) cb = Some e" "fst e = CacheRegion" "e \<notin> set (ht s)"
    using lru_insert_ok [OF assms, of r] by blast
  let ?s2 = "upd_stats inc_ios (upd_stats inc_misses s1)"
  let ?s' = "upd_entry e (\<lambda>x. x\<lparr>e_dirty := e_dirty x \<or> w\<rparr>) ?s2"
  have "cn_ok ?s2" using lru_okD(1) [OF ok1] by simp
  moreover have "e \<in> cached (ht ?s2)" "e_oblock (store ?s2 e) = ob"
    using geo by (simp_all add: s1 cached_def)
  ultimately have m: "mark_dirty ob w ?s2 = ?s'" "cn_ok ?s'" by (rule mark_dirty_cached)+
  have "lru_ok c ?s'" using lru_okD [OF ok1] m(2) by (auto simp: lru_ok_def)
  then show ?thesis using 1 m geo
    by - (rule exI [of _ e], rule exI [of _ cb], rule exI [of _ s1], rule exI [of _ ?s'], simp add: s1)
qed

lemma lru_map_new:
  assumes ok: "lru_ok c s" and nf: "\<not> cache_is_full s" and new: "ht_lookup ob s = None"
  shows "\<exists>e cb s'. lru_map_api ob w r s = Inr (0, r\<lparr>r_op := CACHE_NUCLEUS_NEW, r_cblock := cb\<rparr>, s') \<and>
    store s' = (store s)(e := promoted ob w (store s e)) \<and>
    ht s' = e # ht s \<and> lru_q s' = lru_q s \<and> stats s' = inc_ios (inc_misses (stats s)) \<and> lru_ok c s' \<and>
    pool_geo (cache_pool s') = pool_geo (cache_pool s) \<and> epool_at (cache_pool s) cb = Some e \<and>
    fst e = CacheRegion \<and> e \<notin> set (ht s)"
proof -
  have "lru_map_api ob w r s =
      rbind (lru_insert ob (r\<lparr>r_op := CACHE_NUCLEUS_NEW\<rparr>) s) (\<lambda>(result, s).
      Inr (0, result, mark_dirty ob w (upd_stats inc_ios (upd_stats inc_misses s))))"
    using new nf
    by (cases "lru_insert ob (r\<lparr>r_op := CACHE_NUCLEUS_NEW\<rparr>) s")
      (auto simp: lru_map_api_def lru_transaction_set_def lru_transaction_init_def
        lru_transaction_is_legal_def lru_transaction_commit_def)
  moreover obtain e cb s1 s' where "lru_insert ob (r\<lparr>r_op := CACHE_NUCLEUS_NEW\<rparr>) s =
      Inr (r\<lparr>r_op := CACHE_NUCLEUS_NEW, r_cblock := cb\<rparr>, s1)"
    "mark_dirty ob w (upd_stats inc_ios (upd_stats inc_misses s1)) = s'"
    "store s' = (store s)(e := promoted ob w (store s e))"
    "ht s' = e # ht s" "lru_q s' = lru_q s" "stats s' = inc_ios (inc_misses (stats s))" "lru_ok c s'"
    "pool_geo (cache_pool s') = pool_geo (cache_pool s)" "epool_at (cache_pool s) cb = Some e"
    "fst e = CacheRegion" "e \<notin> set (ht s)"
    using lru_map_insert [OF assms, of "r\<lparr>r_op := CACHE_NUCLEUS_NEW\<rparr>" w] by blast
  ultimately show ?thesis
    by (intro exI [of _ e] exI [of _ cb] exI [of _ s']) simp
qed

text \<open>The eviction takes the entry at the front of the queue.\<close>

lemma lru_evict_ok:
  assumes ok: "lru_ok c s" and q: "lru_q s = e # rest"
  shows "\<exists>s'. lru_evict r s =
      Inr (r\<lparr>r_old_oblock := e_oblock (store s e), r_dirty_eviction := e_dirty (store s e)\<rparr>, s') \<and>
    store s' = (store s)(e := freed_entry (store s e)) \<and> ht s' = remove1 e (ht s) \<and>
    stats s' = inc_demotions (stats s) \<and> lru_q s' = rest \<and>
    lru_ok c s' \<and> pool_geo (cache_pool s') = pool_geo (cache_pool s)"
proof -
  note D = lru_okD [OF ok]
  have e: "e \<in> set (ht s)" "\<not> e_migrating (store s e)" using D(6) q by auto
  have er: "e \<notin> set rest" "distinct rest" using D(5) q by auto
  let ?s1 = "s\<lparr>lru_q := rest, stats := inc_demotions (stats s)\<rparr>"
  have cn1: "cn_ok ?s1" using D(1) by (simp add: cn_ok_def)
  have "e \<in> set (ht ?s1)" using e by simp
  from cache_nucleus_remove_ok [OF cn1 this] obtain cp mp s' where
    s': "s' = ?s1\<lparr>store := (store ?s1)(e := freed_entry (store ?s1 e)),
        wb := (\<lambda>q. q_remove e (wb ?s1 q)), cache_pool := cp, meta_pool := mp, ht := remove1 e (ht ?s1)\<rparr>"
    and run: "cache_nucleus_remove e ?s1 = Inr s'" and cn: "cn_ok s'"
    and geo: "pool_geo cp = pool_geo (cache_pool s)" "pool_geo mp = pool_geo (meta_pool s)"
    by auto
  have "lru_evict r s = Inr (r\<lparr>r_old_oblock := e_oblock (store s e),
      r_dirty_eviction := e_dirty (store s e)\<rparr>, s')"
    using run e er
    by (simp add: lru_evict_def q deref_def q_remove_def lru_remove_entry_def remove1_idem)
  moreover have "lru_ok c s'"
    using cn D(2,3,4) geo er D(6) q cn_facts(1) [OF D(1)] by (auto simp: lru_ok_def s' pool_geo_eq)
  ultimately show ?thesis using geo by (intro exI [of _ s']) (simp add: s')
qed

lemma lru_not_full_after_evict:
  assumes ok: "lru_ok c s" and e: "e \<in> set (ht s)" and ok': "lru_ok c s'" "ht s' = remove1 e (ht s)"
  shows "\<not> cache_is_full s'"
proof -
  note D = lru_okD [OF ok] and D' = lru_okD [OF ok'(1)]
  have "distinct (ht s)" by (rule cn_facts(1) [OF D(1)])
  then have "card (cached (ht s')) < card (cached (ht s))"
    using e lru_cached [OF ok] lru_cached [OF ok'(1)] ok'(2)
    by (intro psubset_card_mono) auto
  then show ?thesis
    using card_cached_le [OF D(1)] cache_is_full_iff [OF D'(1)] D(2) D'(2) by simp
qed

text \<open>
  An access that replaces: the block at the front of the queue leaves, its entry is freed
  and, as the only free one, taken for the new block.
\<close>

lemma lru_map_replace:
  assumes ok: "lru_ok c s" and full: "cache_is_full s" and new: "ht_lookup ob s = None"
    and q: "lru_q s = v # rest"
  shows "\<exists>cb s'. lru_map_api ob w r s =
      Inr (0, r\<lparr>r_op := CACHE_NUCLEUS_REPLACE, r_old_oblock := e_oblock (store s v),
                r_dirty_eviction := e_dirty (store s v), r_cblock := cb\<rparr>, s') \<and>
    store s' = (store s)(v := promoted ob w (freed_entry (store s v))) \<and>
    ht s' = v # remove1 v (ht s) \<and> lru_q s' = rest \<and>
    stats s' = inc_ios (inc_misses (inc_demotions (stats s))) \<and> lru_ok c s' \<and>
    pool_geo (cache_pool s') = pool_geo (cache_pool s) \<and> epool_at (cache_pool s) cb = Some v"
proof -
  note D = lru_okD [OF ok]
  define r1 where "r1 = r\<lparr>r_op := CACHE_NUCLEUS_REPLACE, r_old_oblock := e_oblock (store s v),
                r_dirty_eviction := e_dirty (store s v)\<rparr>"
  from lru_evict_ok [OF ok q, of "r\<lparr>r_op := CACHE_NUCLEUS_REPLACE\<rparr>"] obtain s1 where
    1: "lru_evict (r\<lparr>r_op := CACHE_NUCLEUS_REPLACE\<rparr>) s = Inr (r1, s1)"
    "store s1 = (store s)(v := freed_entry (store s v))" "ht s1 = remove1 v (ht s)"
    "stats s1 = inc_demotions (stats s)" "lru_q s1 = rest" "lru_ok c s1"
    "pool_geo (cache_pool s1) = pool_geo (cache_pool s)"
    unfolding r1_def by auto
  have v: "v \<in> set (ht s)" using D(6) q by auto
  have nf: "\<not> cache_is_full s1" by (rule lru_not_full_after_evict [OF ok v 1(6,3)])
  have dist: "distinct (ht s)" by (rule cn_facts(1) [OF D(1)])
  then have "v \<notin> set (ht s1)" using 1(3) by simp
  then have "ht_lookup ob s1 = None"
    using new dist by (auto simp: lookup_None 1(2,3) dest: notin_set_remove1)
  from lru_map_insert [OF 1(6) nf this, of r1 w] obtain e cb s2 s' where
    2: "lru_insert ob r1 s1 = Inr (r1\<lparr>r_cblock := cb\<rparr>, s2)"
    "mark_dirty ob w (upd_stats inc_ios (upd_stats inc_misses s2)) = s'"
    "store s' = (store s1)(e := promoted ob w (store s1 e))" "ht s' = e # ht s1"
    "lru_q s' = lru_q s1" "stats s' = inc_ios (inc_misses (stats s1))" "lru_ok c s'"
    "pool_geo (cache_pool s') = pool_geo (cache_pool s1)" "epool_at (cache_pool s1) cb = Some e"
    "fst e = CacheRegion" "e \<notin> set (ht s1)" by blast
  have at: "epool_at (cache_pool s) cb = Some e" using 2(9) pool_geo_cong(1) [OF 1(7)] by simp
  then have "e \<in> cached (ht s)" using full_cached [OF D(1) full] epool_at_in_pool by blast
  then have ev: "e = v" using 2(11) 1(3) dist by (auto simp: cached_def)
  have "length (lru_q s) > 0" using q by simp
  then have "lru_map_api ob w r s = Inr (0, r1\<lparr>r_cblock := cb\<rparr>, s')"
    using lru_q_pos [OF ok] full new q 1(1) 2(1,2)
    by (simp add: lru_map_api_def lru_transaction_set_def lru_transaction_init_def
        lru_transaction_is_legal_def lru_transaction_commit_def)
  moreover have "pool_geo (cache_pool s') = pool_geo (cache_pool s)" using 2(8) 1(7) by simp
  ultimately show ?thesis using 1 2 at ev unfolding r1_def
    by - (rule exI [of _ cb], rule exI [of _ s'], simp)
qed

lemma lru_map_fail:
  assumes ok: "lru_ok c s" and full: "cache_is_full s" and new: "ht_lookup ob s = None"
    and q: "lru_q s = []"
  shows "lru_map_api ob w r s = Inr (0, r\<lparr>r_op := CACHE_NUCLEUS_FAIL\<rparr>, s)"
  using assms by (simp add: lru_map_api_def lru_transaction_set_def lru_transaction_init_def
      lru_transaction_is_legal_def q_length_def)

lemma lru_migrated_ok:
  assumes ok: "lru_ok c s" and e: "ht_lookup ob s = Some e" and mig: "e_migrating (store s e)"
  shows "\<exists>s'. lru_migrated_api ob s = Inr s' \<and>
    store s' = (store s)(e := (store s e)\<lparr>e_migrating := False\<rparr>) \<and> ht s' = ht s \<and>
    lru_q s' = lru_q s @ [e] \<and> stats s' = inc_promotions (stats s) \<and>
    pool_geo (cache_pool s') = pool_geo (cache_pool s) \<and> lru_ok c s'"
proof -
  note D = lru_okD [OF ok]
  have mem: "e \<in> set (ht s)" using lookup_Some [OF D(1)] e by auto
  then have c: "e \<in> cached (ht s)" using lru_cached [OF ok] by simp
  then have ip: "in_pool (cache_pool s) (Some e)"
    using cn_in_cache [OF D(1) mem] by (simp add: in_cache_def cached_def)
  from cn_migrated_entry_ok [OF D(1) c mig] obtain cp s1 where
    1: "s1 = s\<lparr>store := (store s)(e := (store s e)\<lparr>e_migrating := False\<rparr>), cache_pool := cp\<rparr>"
    "cn_migrated_entry e s = Inr s1" "cn_ok s1" "pool_geo cp = pool_geo (cache_pool s)" by blast
  have q: "e \<notin> set (lru_q s)" using D(6) mig by simp
  let ?s' = "upd_stats inc_promotions (s1\<lparr>lru_q := lru_q s @ [e]\<rparr>)"
  have "lru_migrated_api ob s = Inr ?s'"
    using e ip 1(2) q by (simp add: lru_migrated_api_def log_assert_def deref_def q_push_def)
      (simp add: 1(1))
  moreover have "cn_ok ?s'" using 1(3) by (simp add: cn_ok_def)
  then have "lru_ok c ?s'"
    using D q mem 1(4) by (auto simp: lru_ok_def 1(1) pool_geo_eq)
  ultimately show ?thesis using 1(4) by (intro exI [of _ ?s']) (simp add: 1(1))
qed

lemma lru_remove_ok:
  assumes ok: "lru_ok c s" and e: "ht_lookup ob s = Some e"
  shows "\<exists>s'. lru_remove_api ob h s = Inr s' \<and>
    store s' = (store s)(e := freed_entry (store s e)) \<and> ht s' = remove1 e (ht s) \<and>
    lru_q s' = remove1 e (lru_q s) \<and>
    stats s' = (if e_migrating (store s e) then stats s else inc_demotions (stats s)) \<and>
    pool_geo (cache_pool s') = pool_geo (cache_pool s) \<and> lru_ok c s'"
proof -
  note D = lru_okD [OF ok]
  have mem: "e \<in> set (ht s)" using lookup_Some [OF D(1)] e by auto
  define s1 where "s1 = (if \<not> e_migrating (store s e)
    then upd_stats inc_demotions (s\<lparr>lru_q := q_remove e (lru_q s)\<rparr>) else s)"
  have same: "store s1 = store s" "ht s1 = ht s" "wb s1 = wb s" "cache_pool s1 = cache_pool s"
    "meta_pool s1 = meta_pool s" by (simp_all add: s1_def)
  then have cn1: "cn_ok s1" using D(1) by (simp add: cn_ok_def)
  have q1: "lru_q s1 = remove1 e (lru_q s)"
    using D(6) mem by (auto simp: s1_def q_remove_def remove1_idem)
  have "e \<in> set (ht s1)" using mem same by simp
  from cache_nucleus_remove_ok [OF cn1 this] obtain cp mp s' where
    s': "s' = s1\<lparr>store := (store s1)(e := freed_entry (store s1 e)),
        wb := (\<lambda>q. q_remove e (wb s1 q)), cache_pool := cp, meta_pool := mp, ht := remove1 e (ht s1)\<rparr>"
    and run: "cache_nucleus_remove e s1 = Inr s'" and cn: "cn_ok s'"
    and geo: "pool_geo cp = pool_geo (cache_pool s1)" "pool_geo mp = pool_geo (meta_pool s1)"
    by blast
  have "lru_remove_api ob h s = Inr s'"
    using e run by (simp add: lru_remove_api_def log_assert_def deref_def lru_remove_entry_def s1_def)
  moreover have "lru_q s' = remove1 e (lru_q s)" by (simp add: s' q1)
  moreover have "stats s' = (if e_migrating (store s e) then stats s else inc_demotions (stats s))"
    by (simp add: s' s1_def)
  moreover have "lru_ok c s'"
    using cn D(2,3,4) geo D(5,6) cn_facts(1) [OF D(1)]
    by (auto simp: lru_ok_def s' same q1 pool_geo_eq)
  ultimately show ?thesis using geo by (intro exI [of _ s']) (simp add: s' same)
qed

lemma lru_insert_api_ok:
  assumes ok: "lru_ok c s" and new: "ht_lookup ob s = None"
    and e: "epool_at (cache_pool s) cb = Some e" "e \<notin> set (ht s)"
  shows "\<exists>s'. lru_insert_api ob cb s = Inr s' \<and>
    store s' = (store s)(e := fresh_entry ob (store s e)) \<and> ht s' = e # ht s \<and>
    lru_q s' = lru_q s @ [e] \<and> pool_geo (cache_pool s') = pool_geo (cache_pool s) \<and> lru_ok c s'"
proof -
  note D = lru_okD [OF ok]
  from insert_in_cache_at_ok [OF D(1) new e] obtain cp s1 where
    1: "s1 = s\<lparr>store := (store s)(e := fresh_entry ob (store s e)), cache_pool := cp, ht := e # ht s\<rparr>"
    "insert_in_cache_at ob cb None s = Inr (e, None, s1)" "cn_ok s1"
    "pool_geo cp = pool_geo (cache_pool s)" "\<not> e_migrating (store s e)" by blast
  have q: "e \<notin> set (lru_q s)" using D(6) e by auto
  let ?s' = "s1\<lparr>lru_q := lru_q s @ [e]\<rparr>"
  have "lru_insert_api ob cb s = Inr ?s'"
    using 1(2) q by (simp add: lru_insert_api_def q_push_def) (simp add: 1(1))
  moreover have "cn_ok ?s'" using 1(3) by (simp add: cn_ok_def)
  then have "lru_ok c ?s'"
    using D q e 1(4,5) by (auto simp: lru_ok_def 1(1) pool_geo_eq)
  ultimately show ?thesis using 1(4) by (intro exI [of _ ?s']) (simp add: 1(1))
qed

section \<open>The contract\<close>

lemma lru_pview: "lru_ok c s \<Longrightarrow> pview lru_api s = cview (ht s) (store s)"
  unfolding lru_api_def by (rule pview_nucleus) (rule lru_okD)

lemma lru_keys: "lru_ok c s \<Longrightarrow> distinct (map (key_of (store s)) (ht s))"
  by (rule cn_facts(2)) (rule lru_okD)

lemma lru_lookup_view:
  assumes ok: "lru_ok c s"
  shows "ht_lookup ob s = Some e \<Longrightarrow>
      cview (ht s) (store s) ob = Some (e, e_migrating (store s e), e_dirty (store s e))"
    "ht_lookup ob s = None \<Longrightarrow> cview (ht s) (store s) ob = None"
    "cview (ht s) (store s) ob = Some (e, m, d) \<Longrightarrow> ht_lookup ob s = Some e"
    "cview (ht s) (store s) ob = None \<Longrightarrow> ht_lookup ob s = None"
proof -
  note D = lru_okD(1) [OF ok]
  show a: "ht_lookup ob s = Some e \<Longrightarrow>
      cview (ht s) (store s) ob = Some (e, e_migrating (store s e), e_dirty (store s e))" for e
  proof -
    fix e assume "ht_lookup ob s = Some e"
    then have e: "e \<in> set (ht s)" "e_oblock (store s e) = ob" using lookup_Some [OF D] by blast+
    have "fst e = CacheRegion" by (rule lru_region [OF ok e(1)])
    then show "cview (ht s) (store s) ob = Some (e, e_migrating (store s e), e_dirty (store s e))"
      using cview_entry [OF lru_keys [OF ok] e(1)] e(2) by simp
  qed
  show b: "ht_lookup ob s = None \<Longrightarrow> cview (ht s) (store s) ob = None"
    by (simp add: cview_def ht_lookup_def)
  show "ht_lookup ob s = Some e" if v: "cview (ht s) (store s) ob = Some (e, m, d)"
  proof (cases "ht_lookup ob s")
    case None
    then show ?thesis using b v by simp
  next
    case (Some e')
    then show ?thesis using a [OF Some] v by simp
  qed
  show "ht_lookup ob s = None" if v: "cview (ht s) (store s) ob = None"
  proof (cases "ht_lookup ob s")
    case (Some e')
    then show ?thesis using a [OF Some] v by simp
  qed
qed

lemma lru_located:
  assumes ok: "lru_ok c s'" and v: "cview (ht s') (store s') ob = Some (e, m, d)"
    and "epool_at (cache_pool s) cb = Some e" "pool_geo (cache_pool s') = pool_geo (cache_pool s)"
    and "r_cblock r = cb"
  shows "located lru_api ob r s'"
  using assms pool_geo_cong(1) [OF assms(4)] default_cache_lookup_view [OF lru_okD(1) [OF ok], of ob]
  by (simp add: located_def policy_calls lru_api_def nucleus_api_def default_cblock_lookup_def)

lemma lru_map_contract:
  assumes ok: "lru_ok c s"
  shows "\<exists>r s'. lru_map_api ob w r0 s = Inr (0, r, s') \<and> lru_ok c s' \<and>
    write_effect ob w r (cview (ht s) (store s)) (cview (ht s') (store s')) \<and> located lru_api ob r s' \<and>
    lru_next_victim_api ob s = Inr (r_op r, if r_op r = CACHE_NUCLEUS_REPLACE then q_peek (lru_q s) else None) \<and>
    (r_op r = CACHE_NUCLEUS_REPLACE \<longrightarrow>
      (\<exists>v. q_peek (lru_q s) = Some v \<and> e_oblock (store s v) = r_old_oblock r))"
proof (cases "ht_lookup ob s")
  case (Some e)
  from lru_map_hit [OF ok Some, of w r0] obtain cb s' where
    run: "lru_map_api ob w r0 s = Inr (0, r0\<lparr>r_op := CACHE_NUCLEUS_HIT, r_cblock := cb\<rparr>, s')"
    and st: "store s' = (store s)(e := (store s e)\<lparr>e_dirty := e_dirty (store s e) \<or> w\<rparr>)" "ht s' = ht s"
    "cache_pool s' = cache_pool s" "epool_at (cache_pool s) cb = Some e" "lru_ok c s'" by blast
  have e: "e \<in> cached (ht s)" "e_oblock (store s e) = ob"
    using lookup_Some [OF lru_okD(1) [OF ok]] Some lru_cached [OF ok] by auto
  have v: "cview (ht s') (store s') = (cview (ht s) (store s))(ob \<mapsto>
      (e, e_migrating (store s e), e_dirty (store s e) \<or> w))"
    using cview_upd [OF lru_keys [OF ok], of e "(store s e)\<lparr>e_dirty := e_dirty (store s e) \<or> w\<rparr>"] e
    by (simp add: st cached_def)
  have "write_effect ob w (r0\<lparr>r_op := CACHE_NUCLEUS_HIT, r_cblock := cb\<rparr>)
      (cview (ht s) (store s)) (cview (ht s') (store s'))"
    using lru_lookup_view(1) [OF ok Some] v unfolding write_effect_def by simp
  moreover have "located lru_api ob (r0\<lparr>r_op := CACHE_NUCLEUS_HIT, r_cblock := cb\<rparr>) s'"
    by (rule lru_located [OF st(5) _ st(4)]) (use v st(3) in auto)
  moreover have "lru_next_victim_api ob s = Inr (CACHE_NUCLEUS_HIT, None)"
    using Some by (simp add: lru_next_victim_api_def lru_transaction_set_def
        lru_transaction_init_def lru_transaction_is_legal_def)
  ultimately show ?thesis using run st(5) by (intro exI conjI) (assumption | simp)+
next
  case None
  note vn = lru_lookup_view(2) [OF ok None]
  show ?thesis
  proof (cases "cache_is_full s")
    case False
    from lru_map_new [OF ok False None, of w r0] obtain e cb s' where
      run: "lru_map_api ob w r0 s = Inr (0, r0\<lparr>r_op := CACHE_NUCLEUS_NEW, r_cblock := cb\<rparr>, s')"
      and st: "store s' = (store s)(e := promoted ob w (store s e))" "ht s' = e # ht s"
      "lru_ok c s'" "pool_geo (cache_pool s') = pool_geo (cache_pool s)"
      "epool_at (cache_pool s) cb = Some e" "fst e = CacheRegion" "e \<notin> set (ht s)" by blast
    have v: "cview (ht s') (store s') = (cview (ht s) (store s))(ob \<mapsto> (e, True, w))"
      using cview_fresh [OF st(7), of "store s" "promoted ob w (store s e)"] st(6)
      by (simp add: st(1,2))
    have "cview (ht s) (store s) ob' \<noteq> Some (e, x)" for ob' x
      using view_key [of "ht s" "store s" ob' e "fst x" "snd x"] st(7) by (auto simp: cached_def)
    then have "write_effect ob w (r0\<lparr>r_op := CACHE_NUCLEUS_NEW, r_cblock := cb\<rparr>)
        (cview (ht s) (store s)) (cview (ht s') (store s'))"
      using v vn by (simp add: write_effect_def del: split_paired_Ex split_paired_All) blast
    moreover have "located lru_api ob (r0\<lparr>r_op := CACHE_NUCLEUS_NEW, r_cblock := cb\<rparr>) s'"
      by (rule lru_located [OF st(3) _ st(5,4)]) (use v in auto)
    moreover have "lru_next_victim_api ob s = Inr (CACHE_NUCLEUS_NEW, None)"
      using None False by (simp add: lru_next_victim_api_def lru_transaction_set_def
          lru_transaction_init_def lru_transaction_is_legal_def)
    ultimately show ?thesis using run st(3) by (intro exI conjI) (assumption | simp)+
  next
    case True
    show ?thesis
    proof (cases "lru_q s")
      case Nil
      then have "lru_next_victim_api ob s = Inr (CACHE_NUCLEUS_FAIL, None)"
        using None True by (simp add: lru_next_victim_api_def lru_transaction_set_def
            lru_transaction_init_def lru_transaction_is_legal_def q_length_def)
      then show ?thesis using lru_map_fail [OF ok True None Nil, of w r0] ok vn
        by (simp add: write_effect_def located_def)
    next
      case (Cons v rest)
      from lru_map_replace [OF ok True None Cons, of w r0] obtain cb s' where
        run: "lru_map_api ob w r0 s =
          Inr (0, r0\<lparr>r_op := CACHE_NUCLEUS_REPLACE, r_old_oblock := e_oblock (store s v),
                r_dirty_eviction := e_dirty (store s v), r_cblock := cb\<rparr>, s')"
        and st: "store s' = (store s)(v := promoted ob w (freed_entry (store s v)))"
        "ht s' = v # remove1 v (ht s)" "lru_ok c s'"
        "pool_geo (cache_pool s') = pool_geo (cache_pool s)" "epool_at (cache_pool s) cb = Some v" by blast
      have vm: "v \<in> set (ht s)" "\<not> e_migrating (store s v)" using lru_okD(6) [OF ok] Cons by auto
      have vc: "fst v = CacheRegion" by (rule lru_region [OF ok vm(1)])
      have vr: "v \<notin> set (remove1 v (ht s))" using lru_keys [OF ok] by (simp add: distinct_map)
      have w: "cview (ht s') (store s') =
          (cview (ht s) (store s))(e_oblock (store s v) := None, ob \<mapsto> (v, True, w))"
        using cview_fresh [OF vr, of "store s" "promoted ob w (freed_entry (store s v))"]
          cview_remove1 [OF lru_keys [OF ok] vm(1)] vc by (simp add: st(1,2))
      have "write_effect ob w (r0\<lparr>r_op := CACHE_NUCLEUS_REPLACE, r_old_oblock := e_oblock (store s v),
                r_dirty_eviction := e_dirty (store s v), r_cblock := cb\<rparr>)
          (cview (ht s) (store s)) (cview (ht s') (store s'))"
        using w vn cview_entry [OF lru_keys [OF ok] vm(1)] vm vc by (simp add: write_effect_def)
      moreover have "located lru_api ob (r0\<lparr>r_op := CACHE_NUCLEUS_REPLACE,
                r_old_oblock := e_oblock (store s v),
                r_dirty_eviction := e_dirty (store s v), r_cblock := cb\<rparr>) s'"
        by (rule lru_located [OF st(3) _ st(5,4)]) (use w in auto)
      moreover have "lru_next_victim_api ob s = Inr (CACHE_NUCLEUS_REPLACE, Some v)"
        using None True Cons lru_q_pos [OF ok]
        by (simp add: lru_next_victim_api_def lru_transaction_set_def
            lru_transaction_init_def lru_transaction_is_legal_def)
      ultimately show ?thesis using run st(3) Cons
        by - (rule exI, rule exI, rule conjI, assumption, simp)
    qed
  qed
qed

text \<open>LRU keeps the contract of a policy, dirty marks included.\<close>

lemma lru_calls:
  "policy_map lru_api = lru_map_api" "policy_migrated lru_api = lru_migrated_api"
  "policy_remove lru_api = lru_remove_api" "policy_next_victim lru_api = lru_next_victim_api"
  "policy_set_time lru_api = default_set_time" "policy_residency lru_api = default_residency"
  "policy_cache_is_full lru_api = default_cache_is_full"
  "policy_cache_lookup lru_api = default_cache_lookup"
  by (simp_all add: policy_calls lru_api_def nucleus_api_def fun_eq_iff)

lemma lru_migrated_contract:
  assumes ok: "lru_ok c s" and v: "mview lru_api s ob = Some (e, True)"
  shows "succeeds (lru_migrated_api ob s)
    (\<lambda>s'. lru_ok c s' \<and> mview lru_api s' = (mview lru_api s)(ob \<mapsto> (e, False)))"
proof -
  obtain d where d: "cview (ht s) (store s) ob = Some (e, True, d)"
    using v by (auto simp: lru_pview [OF ok] clean_view_Some)
  note l = lru_lookup_view(3) [OF ok d] and k = view_key [OF d]
  from lru_migrated_ok [OF ok l] k obtain s' where s': "lru_migrated_api ob s = Inr s'"
    "store s' = (store s)(e := (store s e)\<lparr>e_migrating := False\<rparr>)" "ht s' = ht s" "lru_ok c s'"
    by blast
  have "cview (ht s') (store s') = (cview (ht s) (store s))(ob \<mapsto> (e, False, d))"
    using cview_upd [OF lru_keys [OF ok], of e "(store s e)\<lparr>e_migrating := False\<rparr>"] k
    by (simp add: s' cached_def)
  then show ?thesis using s' by (simp add: lru_pview [OF ok] lru_pview [OF s'(4)])
qed

lemma lru_remove_contract:
  assumes ok: "lru_ok c s" and v: "mview lru_api s ob \<noteq> None"
  shows "succeeds (lru_remove_api ob h s)
    (\<lambda>s'. lru_ok c s' \<and> mview lru_api s' = (mview lru_api s)(ob := None))"
proof -
  obtain e m d where d: "cview (ht s) (store s) ob = Some (e, m, d)"
    using v by (auto simp: lru_pview [OF ok])
  note l = lru_lookup_view(3) [OF ok d] and k = view_key [OF d]
  from lru_remove_ok [OF ok l] obtain s' where s': "lru_remove_api ob h s = Inr s'"
    "store s' = (store s)(e := freed_entry (store s e))" "ht s' = remove1 e (ht s)" "lru_ok c s'"
    by blast
  have "e \<in> set (ht s)" using k by (simp add: cached_def)
  from cview_freed [OF lru_keys [OF ok] this, of "freed_entry (store s e)"]
  have "cview (ht s') (store s') = (cview (ht s) (store s))(ob := None)"
    using k by (simp add: s')
  then show ?thesis using s' by (simp add: lru_pview [OF ok] lru_pview [OF s'(4)])
qed

lemma lru_set_time: "lru_ok c s \<Longrightarrow> lru_ok c (default_set_time t s) \<and>
    cview (ht (default_set_time t s)) (store (default_set_time t s)) = cview (ht s) (store s)"
  by (simp add: lru_ok_def default_set_time_def)

interpretation lru: write_policy lru_api "lru_ok c" "unat c" for c
proof
  fix s :: lru_policy and ob w r0 t e m m' ob'
  assume ok: "lru_ok c s"
  note D = lru_okD(1,2) [OF ok]
  obtain r s' where m: "lru_map_api ob w r0 s = Inr (0, r, s')" "lru_ok c s'"
    "write_effect ob w r (cview (ht s) (store s)) (cview (ht s') (store s'))" "located lru_api ob r s'"
    "lru_next_victim_api ob s = Inr (r_op r, if r_op r = CACHE_NUCLEUS_REPLACE then q_peek (lru_q s) else None)"
    using lru_map_contract [OF ok, of ob w r0] by blast
  show "succeeds (policy_map lru_api ob w r0 s) (\<lambda>(rc, r, s').
      rc = 0 \<and> lru_ok c s' \<and> map_effect ob r (mview lru_api s) (mview lru_api s') \<and> located lru_api ob r s')"
    using m write_effect_map [OF m(3)] by (simp add: lru_calls lru_pview [OF ok] lru_pview [OF m(2)])
  show "succeeds (policy_map lru_api ob w r0 s) (\<lambda>(rc, r, s').
      write_effect ob w r (pview lru_api s) (pview lru_api s'))"
    using m by (simp add: lru_calls lru_pview [OF ok] lru_pview [OF m(2)])
  show "succeeds (policy_next_victim lru_api ob s) (\<lambda>(op, v).
      succeeds (policy_map lru_api ob w r0 s) (\<lambda>(rc, r, s').
        op = CACHE_NUCLEUS_FAIL \<longleftrightarrow> r_op r = CACHE_NUCLEUS_FAIL))"
    using m by (simp add: lru_calls)
  show "mview lru_api s ob = Some (e, True) \<Longrightarrow> succeeds (policy_migrated lru_api ob s)
      (\<lambda>s'. lru_ok c s' \<and> mview lru_api s' = (mview lru_api s)(ob \<mapsto> (e, False)))"
    unfolding lru_calls by (rule lru_migrated_contract [OF ok])
  show "mview lru_api s ob \<noteq> None \<Longrightarrow> succeeds (policy_remove lru_api ob False s)
      (\<lambda>s'. lru_ok c s' \<and> mview lru_api s' = (mview lru_api s)(ob := None))"
    unfolding lru_calls by (rule lru_remove_contract [OF ok])
  show "lru_ok c (policy_set_time lru_api t s) \<and> mview lru_api (policy_set_time lru_api t s) = mview lru_api s"
    using lru_set_time [OF ok, of t] lru_pview [of c "default_set_time t s"]
    by (simp add: lru_calls lru_pview [OF ok])
  show "mview lru_api s ob = Some (e, m) \<Longrightarrow> mview lru_api s ob' = Some (e, m') \<Longrightarrow> ob = ob'"
    unfolding lru_pview [OF ok] by (rule nucleus_inj [OF D(1)])
  show "finite (dom (mview lru_api s)) \<and> card (dom (mview lru_api s)) \<le> unat c"
    using nucleus_finite [OF D(1)] nucleus_cap [OF D(1)] D(2) by (simp add: lru_pview [OF ok])
  show "policy_residency lru_api s = of_nat (card (dom (mview lru_api s)))"
    using nucleus_residency [OF D(1)] by (simp add: lru_calls lru_pview [OF ok])
  show "policy_cache_is_full lru_api s \<longleftrightarrow> card (dom (mview lru_api s)) = unat c"
    using nucleus_full [OF D(1)] D(2) by (simp add: lru_calls lru_pview [OF ok])
qed

lemma lru_create_ok:
  assumes "2 \<le> c"
  shows "\<exists>s. lru_create c msize = Inr s \<and> lru_ok c s \<and> lru_q s = [] \<and> ht s = []"
proof -
  let ?s0 = "zero_lru\<lparr>lru_q := [], cache_pool := epool_create CacheRegion c\<rparr>"
  obtain s' cp mp where s': "policy_init c 0 CACHE_NUCLEUS_SINGLE_THREAD ?s0 = Inr s'" "cn_ok s'" "ht s' = []"
    "s' = ?s0\<lparr>store := store s', cache_pool := cp, meta_pool := mp, stats := stats_init, ht := [],
           cache_size := c, meta_size := 0, thread_support := CACHE_NUCLEUS_SINGLE_THREAD, cn_time := 0\<rparr>"
    "ep_nr_entries cp = c" "ep_nr_entries mp = 0"
    using policy_init_ok [of ?s0 c 0 c 0 CACHE_NUCLEUS_SINGLE_THREAD] by (auto simp: zero_lru_def)
  have f: "lru_q s' = []" "cache_pool s' = cp" "meta_pool s' = mp"
    by (subst s'(4), simp add: zero_lru_def)+
  have "lru_ok c s'" using s' f assms by (simp add: lru_ok_def)
  then show ?thesis using s' f by (simp add: lru_create_def lru_init_def)
qed

end
