(* ===== verification/Migration.thy ===== *)
theory Migration
  imports Nucleus
begin

text \<open>
  The migration tracker of the simulator (\<open>src/src/sim/sim_migration_tracker.h\<close>): blocks that
  entered the cache wait in a queue until their migration is due, a fixed number of
  accesses later. The invariant \<open>mt_ok\<close> bounds the queue by the delay, so the pool of twice
  the delay never runs out, and has the due times strictly increasing modulo the width
  of the clock, so that looking at the front of the queue is enough.
\<close>

section \<open>The tracker\<close>

record migration_op = entry +
  migrated_time :: u32

text \<open>
  \<open>mt_table\<close>: has the bucket array of the hashtable been allocated? The tracker is a zeroed
  global variable that the simulator initialises only if there is a delay.
\<close>

record migration_tracker = "unit migration_op_ext entry_mem" +
  mt_table :: bool
  mt_ht :: "eptr list"
  mt_pool :: entry_pool
  mt_q :: "eptr list"
  mt_delay :: u32

definition mt_lookup :: "oblock \<Rightarrow> migration_tracker \<Rightarrow> eptr option res" where
  "mt_lookup ob m =
     (if mt_table m then Inr (tbl_lookup (key_of (store m)) (mt_ht m) ob) else Inl NullDeref)"

definition migration_remove :: "oblock \<Rightarrow> migration_tracker \<Rightarrow> migration_tracker res" where
  "migration_remove ob m =
     rbind (mt_lookup ob m) (\<lambda>ptr.
     case ptr of
       None \<Rightarrow> Inr m
     | Some e \<Rightarrow>
         let m = m\<lparr>store := (store m)(e := (store m e)\<lparr>migrated_time := 0\<rparr>),
                   mt_q := q_remove e (mt_q m)\<rparr> in
         rbind (tbl_remove e (mt_ht m)) (\<lambda>t.
         rbind (free_entry (mt_pool m) e (m\<lparr>mt_ht := t\<rparr>)) (\<lambda>(ep, m).
         Inr (m\<lparr>mt_pool := ep\<rparr>))))"

definition migration_add :: "u32 \<Rightarrow> oblock \<Rightarrow> migration_tracker \<Rightarrow> migration_tracker res" where
  "migration_add current_time ob m =
     rbind (mt_lookup ob m) (\<lambda>ptr.
     case ptr of
       Some _ \<Rightarrow> Inr m
     | None \<Rightarrow>
         rbind (alloc_entry (mt_pool m) m) (\<lambda>(new, ep, m).
         let m = m\<lparr>mt_pool := ep\<rparr> in
         rbind (deref new) (\<lambda>e.
         let m = m\<lparr>store := (store m)(e := (store m e)\<lparr>e_oblock := ob\<rparr>)\<rparr> in
         rbind (tbl_insert e (mt_ht m)) (\<lambda>t.
         let m = m\<lparr>mt_ht := t,
                   store := (store m)(e := (store m e)\<lparr>migrated_time := current_time + mt_delay m\<rparr>)\<rparr> in
         rbind (q_push [] (mt_q m) e) (\<lambda>q. Inr (m\<lparr>mt_q := q\<rparr>))))))"

definition migration_next ::
  "u32 \<Rightarrow> migration_tracker \<Rightarrow> (oblock option \<times> migration_tracker) res" where
  "migration_next current_time m =
     (if q_length (mt_q m) > 0 then
        rbind (deref (q_peek (mt_q m))) (\<lambda>next.
        if migrated_time (store m next) = current_time then
          rbind (migration_remove (e_oblock (store m next)) m) (\<lambda>m'.
          Inr (Some (e_oblock (store m next)), m'))
        else Inr (None, m))
      else Inr (None, m))"

definition zero_op :: migration_op where
  "zero_op = \<lparr>e_oblock = 0, e_time = 0, e_dirty = False, e_allocated = False,
              e_migrating = False, migrated_time = 0\<rparr>"

definition zero_tracker :: migration_tracker where
  "zero_tracker = \<lparr>store = (\<lambda>_. zero_op), wb = (\<lambda>_. []), mt_table = False, mt_ht = [],
     mt_pool = epool_create CacheRegion 0, mt_q = [], mt_delay = 0\<rparr>"

text \<open>The initialisation returns 0: the allocations do not fail in the model.\<close>

definition migration_tracker_init :: "u32 \<Rightarrow> migration_tracker \<Rightarrow> migration_tracker res" where
  "migration_tracker_init delay m =
     rbind (ht_init (ucast (2 * delay))) (\<lambda>_.
     rbind (epool_init 0 (epool_create CacheRegion (2 * delay)) m) (\<lambda>(ep, m).
     Inr (m\<lparr>mt_table := True, mt_ht := [], mt_pool := ep, mt_q := [], mt_delay := delay\<rparr>)))"

section \<open>The invariant\<close>

text \<open>
  The distance of an entry's due time from a time \<open>t\<close>, modulo the width of the clock, and
  the blocks that wait, the next one first.
\<close>

definition due_in :: "u32 \<Rightarrow> migration_tracker \<Rightarrow> eptr \<Rightarrow> nat" where
  "due_in t m e = unat (migrated_time (store m e) - t)"

definition waiting :: "migration_tracker \<Rightarrow> oblock list" where
  "waiting m = map (key_of (store m)) (mt_q m)"

definition mt_base :: "u32 \<Rightarrow> migration_tracker \<Rightarrow> bool" where
  "mt_base delay m \<longleftrightarrow> mt_table m \<and> wb m = (\<lambda>_. []) \<and> pool_ok (mt_pool m) (store m) \<and>
     ep_nr_entries (mt_pool m) = 2 * delay \<and> mt_delay m = delay \<and>
     set (mt_ht m) = alloc_set (mt_pool m) (store m) \<and>
     distinct (map (key_of (store m)) (mt_ht m)) \<and>
     distinct (mt_q m) \<and> set (mt_q m) = set (mt_ht m)"

text \<open>Before an access at time \<open>t\<close>: the waiting entries are due in less than the delay.\<close>

definition mt_ok :: "u32 \<Rightarrow> u32 \<Rightarrow> migration_tracker \<Rightarrow> bool" where
  "mt_ok delay t m \<longleftrightarrow> mt_base delay m \<and> sorted_wrt (<) (map (due_in t m) (mt_q m)) \<and>
     (\<forall>e \<in> set (mt_q m). due_in t m e < unat delay)"

text \<open>After \<open>migration_next\<close> at time \<open>t\<close>: besides, no entry is due.\<close>

definition mt_served :: "u32 \<Rightarrow> u32 \<Rightarrow> migration_tracker \<Rightarrow> bool" where
  "mt_served delay t m \<longleftrightarrow> mt_ok delay t m \<and> (\<forall>e \<in> set (mt_q m). 0 < due_in t m e)"

lemma sorted_wrt_less_length:
  assumes "sorted_wrt (<) xs" "\<forall>x \<in> set xs. x < (n::nat)"
  shows "length xs \<le> n"
proof -
  have "distinct xs" using assms(1) strict_sorted_iff by blast
  then have "length xs = card (set xs)" by (simp add: distinct_card)
  also have "\<dots> \<le> card {..<n}" by (rule card_mono) (use assms(2) in auto)
  finally show ?thesis by simp
qed

lemma mt_q_length: "mt_ok delay t m \<Longrightarrow> length (mt_q m) \<le> unat delay"
  using sorted_wrt_less_length [of "map (due_in t m) (mt_q m)" "unat delay"]
  by (simp add: mt_ok_def)

lemma mt_q_pos: "mt_ok delay t m \<Longrightarrow> q_length (mt_q m) > 0 \<longleftrightarrow> mt_q m \<noteq> []"
  using mt_q_length [of delay t m] unat_less_exp [of delay]
  by (auto simp: q_length_def of_nat_pos_small)

lemma mt_base_lookup:
  assumes "mt_base delay m"
  shows "e \<in> set (mt_q m) \<Longrightarrow> mt_lookup (e_oblock (store m e)) m = Inr (Some e)"
    "mt_lookup ob m = Inr None \<longleftrightarrow> ob \<notin> set (waiting m)"
proof -
  have d: "distinct (map (key_of (store m)) (mt_ht m))" "set (mt_q m) = set (mt_ht m)" "mt_table m"
    using assms by (simp_all add: mt_base_def)
  show "e \<in> set (mt_q m) \<Longrightarrow> mt_lookup (e_oblock (store m e)) m = Inr (Some e)"
    using tbl_lookup_Some [OF d(1), of "e_oblock (store m e)" e] d(2,3) by (simp add: mt_lookup_def)
  show "mt_lookup ob m = Inr None \<longleftrightarrow> ob \<notin> set (waiting m)"
    using d(2,3) by (simp add: mt_lookup_def waiting_def tbl_lookup_None)
qed

section \<open>The operations under the invariant\<close>

lemma migration_remove_ok:
  assumes ok: "mt_base delay m" and e: "e \<in> set (mt_q m)"
  shows "\<exists>m'. migration_remove (e_oblock (store m e)) m = Inr m' \<and> mt_base delay m' \<and>
     mt_q m' = remove1 e (mt_q m) \<and> (\<forall>p. p \<noteq> e \<longrightarrow> store m' p = store m p)"
proof -
  have B: "mt_table m" "wb m = (\<lambda>_. [])" "pool_ok (mt_pool m) (store m)"
    "ep_nr_entries (mt_pool m) = 2 * delay" "mt_delay m = delay"
    "set (mt_ht m) = alloc_set (mt_pool m) (store m)" "distinct (map (key_of (store m)) (mt_ht m))"
    "distinct (mt_q m)" "set (mt_q m) = set (mt_ht m)"
    using ok by (simp_all add: mt_base_def)
  let ?x = "(store m e)\<lparr>migrated_time := 0\<rparr>"
  let ?m1 = "m\<lparr>store := (store m)(e := ?x), mt_q := remove1 e (mt_q m), mt_ht := remove1 e (mt_ht m)\<rparr>"
  have same: "e_allocated (((store m)(e := ?x)) p) = e_allocated (store m p) \<and>
      e_migrating (((store m)(e := ?x)) p) = e_migrating (store m p)" for p by simp
  have po: "pool_ok (mt_pool m) (store ?m1)"
    "alloc_set (mt_pool m) (store ?m1) = alloc_set (mt_pool m) (store m)"
    using pool_ok_cong [OF B(3) same] by (simp_all del: fun_upd_apply)
  have "e \<in> alloc_set (mt_pool m) (store ?m1)" using e B po(2) by simp
  from free_entry_ok [OF po(1) this] obtain ep where ep:
    "free_entry (mt_pool m) e ?m1 = Inr (ep, upd_entry e freed_entry ?m1)"
    "pool_ok ep ((store ?m1)(e := freed_entry (store ?m1 e)))"
    "alloc_set ep ((store ?m1)(e := freed_entry (store ?m1 e))) = alloc_set (mt_pool m) (store ?m1) - {e}"
    "ep_nr_entries ep = ep_nr_entries (mt_pool m)" by blast
  let ?m' = "upd_entry e freed_entry ?m1\<lparr>mt_pool := ep\<rparr>"
  have "migration_remove (e_oblock (store m e)) m = Inr ?m'"
    using mt_base_lookup(1) [OF ok e] e B(9) ep(1)
    by (simp add: migration_remove_def tbl_remove_def q_remove_def)
  moreover have "mt_base delay ?m'"
  proof -
    have dt: "distinct (mt_ht m)" using B(7) by (simp add: distinct_map)
    then have k: "e \<notin> set (remove1 e (mt_ht m))" by simp
    have "distinct (map (key_of (store m)) (remove1 e (mt_ht m)))"
      using B(7,9) e by (simp add: distinct_map_remove1)
    then have "distinct (map (key_of ((store m)(e := freed_entry ?x))) (remove1 e (mt_ht m)))"
      unfolding map_key_upd [OF k] .
    then show ?thesis using B ep po dt by (simp add: mt_base_def fun_upd_same del: fun_upd_apply)
  qed
  ultimately show ?thesis by (intro exI [of _ ?m']) simp
qed

text \<open>The step of the queue at the start of an access: the block that is due comes out.\<close>

lemma migration_next_ok:
  assumes ok: "mt_ok delay t m"
  shows "\<exists>r m'. migration_next t m = Inr (r, m') \<and> mt_served delay t m' \<and>
    (case r of None \<Rightarrow> waiting m' = waiting m | Some ob \<Rightarrow> waiting m = ob # waiting m')"
proof (cases "mt_q m")
  case Nil
  then show ?thesis using ok by (simp add: migration_next_def q_length_def mt_served_def)
next
  case (Cons e rest)
  have base: "mt_base delay m" and so: "sorted_wrt (<) (map (due_in t m) (mt_q m))"
    and lt: "\<forall>p \<in> set (mt_q m). due_in t m p < unat delay" using ok by (simp_all add: mt_ok_def)
  have pos: "q_length (mt_q m) > 0" using mt_q_pos [OF ok] Cons by simp
  have due: "migrated_time (store m e) = t \<longleftrightarrow> due_in t m e = 0" by (simp add: due_in_def unat_eq_0)
  have later: "\<forall>p \<in> set rest. due_in t m e < due_in t m p" using so Cons by simp
  show ?thesis
  proof (cases "due_in t m e = 0")
    case False
    then have "migration_next t m = Inr (None, m)"
      using pos Cons due by (simp add: migration_next_def deref_def)
    moreover have "mt_served delay t m" using ok False later Cons by (auto simp: mt_served_def)
    ultimately show ?thesis by simp
  next
    case True
    have "e \<in> set (mt_q m)" using Cons by simp
    from migration_remove_ok [OF base this] obtain m' where m':
      "migration_remove (e_oblock (store m e)) m = Inr m'" "mt_base delay m'"
      "mt_q m' = rest" "\<forall>p. p \<noteq> e \<longrightarrow> store m' p = store m p"
      using Cons by auto
    have ne: "e \<notin> set rest" using base Cons by (simp add: mt_base_def)
    then have eq: "p \<in> set rest \<Longrightarrow> store m' p = store m p" for p using m'(4) by metis
    then have du: "map (due_in t m') rest = map (due_in t m) rest"
      and wa: "waiting m = e_oblock (store m e) # waiting m'"
      using Cons m'(3) by (auto simp: due_in_def waiting_def)
    have so': "sorted_wrt (<) (map (due_in t m') (mt_q m'))"
      unfolding m'(3) du using so Cons by simp
    have "migration_next t m = Inr (Some (e_oblock (store m e)), m')"
      using pos Cons due True m'(1) by (simp add: migration_next_def deref_def)
    moreover have "\<forall>p \<in> set rest. due_in t m' p < unat delay \<and> 0 < due_in t m' p"
      using lt later Cons eq by (auto simp: due_in_def)
    then have "mt_served delay t m'" using so' m'(2,3) by (simp add: mt_served_def mt_ok_def)
    ultimately show ?thesis using wa by simp
  qed
qed

text \<open>The end of an access: time advances, and a block may have been added.\<close>

lemma due_in_next:
  assumes "0 < due_in t m e"
  shows "due_in (t + 1) m e = due_in t m e - 1"
proof -
  have "migrated_time (store m e) - t \<noteq> 0" using assms by (auto simp: due_in_def)
  then have "unat (migrated_time (store m e) - t - 1) = unat (migrated_time (store m e) - t) - 1"
    by (rule unat_minus_one)
  moreover have "migrated_time (store m e) - (t + 1) = migrated_time (store m e) - t - 1" by simp
  ultimately show ?thesis unfolding due_in_def by metis
qed

lemma sorted_wrt_map_pred:
  "sorted_wrt (<) (map f xs) \<Longrightarrow> \<forall>x \<in> set xs. 0 < (f x :: nat) \<Longrightarrow> \<forall>x \<in> set xs. g x = f x - 1 \<Longrightarrow>
   sorted_wrt (<) (map g xs)"
  by (induction xs) auto

lemma mt_tick:
  assumes "mt_served delay t m"
  shows "mt_ok delay (t + 1) m"
proof -
  have a: "sorted_wrt (<) (map (due_in t m) (mt_q m))" "\<forall>e \<in> set (mt_q m). 0 < due_in t m e"
    "\<forall>e \<in> set (mt_q m). due_in t m e < unat delay" "mt_base delay m"
    using assms by (simp_all add: mt_served_def mt_ok_def)
  have n: "\<forall>e \<in> set (mt_q m). due_in (t + 1) m e = due_in t m e - 1"
    using due_in_next a(2) by blast
  show ?thesis
    using sorted_wrt_map_pred [OF a(1,2) n] a(3,4) n by (auto simp: mt_ok_def)
qed

lemma migration_add_ok:
  assumes ok: "mt_served delay t m" and new: "ob \<notin> set (waiting m)"
    and delay: "0 < delay" "unat delay < 2 ^ 31"
  shows "\<exists>m'. migration_add t ob m = Inr m' \<and> mt_ok delay (t + 1) m' \<and>
    waiting m' = waiting m @ [ob] \<and> migrated_time (store m' (last (mt_q m'))) = t + delay"
proof -
  have base: "mt_base delay m" and mo: "mt_ok delay t m" using ok by (simp_all add: mt_served_def mt_ok_def)
  have B: "mt_table m" "wb m = (\<lambda>_. [])" "pool_ok (mt_pool m) (store m)"
    "ep_nr_entries (mt_pool m) = 2 * delay" "mt_delay m = delay"
    "set (mt_ht m) = alloc_set (mt_pool m) (store m)" "distinct (map (key_of (store m)) (mt_ht m))"
    "distinct (mt_q m)" "set (mt_q m) = set (mt_ht m)"
    using base by (simp_all add: mt_base_def)
  have d: "unat (2 * delay) = 2 * unat delay"
    using delay(2) by (subst unat_mult_lem [THEN iffD1]) simp_all
  have "card (alloc_set (mt_pool m) (store m)) = length (mt_q m)"
    using B(6,9) distinct_card [OF B(8)] by simp
  then have "card (alloc_set (mt_pool m) (store m)) < unat (ep_nr_entries (mt_pool m))"
    using mt_q_length [OF mo] d delay(1) B(4) by (simp add: word_less_nat_alt)
  then obtain e rest where free: "ep_free (mt_pool m) = e # rest"
    using epool_empty_iff [OF B(3)] by (auto simp: epool_empty_def neq_Nil_conv)
  have nwb: "\<not> wb_linked m e" using B(2) by (simp add: wb_linked_def wb_queues_def)
  let ?ep = "(mt_pool m)\<lparr>ep_free := remove1 e (ep_free (mt_pool m)),
      ep_nr_allocated := ep_nr_allocated (mt_pool m) + 1\<rparr>"
  let ?x = "(store m e)\<lparr>e_allocated := True, e_oblock := ob, migrated_time := t + delay\<rparr>"
  have ef: "e \<in> set (ep_free (mt_pool m))" using free by simp
  have en: "e \<notin> alloc_set (mt_pool m) (store m)" "\<not> e_migrating (store m e)"
    using free_in_pool [OF B(3) ef] by (auto simp: alloc_set_def)
  then have nq: "e \<notin> set (mt_q m)" "e \<notin> set (mt_ht m)" using B(6,9) by simp_all
  let ?m' = "m\<lparr>store := (store m)(e := ?x), mt_pool := ?ep, mt_ht := e # mt_ht m, mt_q := mt_q m @ [e]\<rparr>"
  have l: "mt_lookup ob m = Inr None" using mt_base_lookup(2) [OF base] new by simp
  have run: "\<exists>m'. migration_add t ob m = Inr m' \<and> store m' = (store m)(e := ?x) \<and> mt_pool m' = ?ep \<and>
      mt_ht m' = e # mt_ht m \<and> mt_q m' = mt_q m @ [e] \<and> mt_table m' \<and> mt_delay m' = delay \<and> wb m' = wb m"
    using alloc_entry_ok [OF B(3) free nwb] l nq B(1,5)
    by (simp add: migration_add_def deref_def tbl_insert_def q_push_def)
  then obtain m' where m': "migration_add t ob m = Inr m'" "store m' = (store m)(e := ?x)"
    "mt_pool m' = ?ep" "mt_ht m' = e # mt_ht m" "mt_q m' = mt_q m @ [e]" "mt_table m'"
    "mt_delay m' = delay" "wb m' = wb m" by blast
  have xx: "?x = ?x\<lparr>e_allocated := True, e_migrating := False\<rparr>" using en(2) by simp
  have "pool_ok ?ep ((store m)(e := ?x))"
    "alloc_set ?ep ((store m)(e := ?x)) = insert e (alloc_set (mt_pool m) (store m))"
    using pool_ok_allocate [OF B(3) ef, of ?x] xx by simp_all
  moreover have "distinct (map (key_of (store m')) (mt_ht m'))"
    unfolding m'(2,4) using new B(9) by (intro distinct_key_Cons nq(2) B(7)) (simp add: waiting_def)
  ultimately have base': "mt_base delay m'"
    using m' B nq by (simp add: mt_base_def)
  have old: "p \<in> set (mt_q m) \<Longrightarrow> store m' p = store m p" for p using nq(1) m'(2) by auto
  then have due: "p \<in> set (mt_q m) \<Longrightarrow> due_in (t + 1) m' p = due_in (t + 1) m p" for p
    by (simp add: due_in_def)
  have "mt_ok delay (t + 1) m" by (rule mt_tick [OF ok])
  then have so: "sorted_wrt (<) (map (due_in (t + 1) m) (mt_q m))" by (simp add: mt_ok_def)
  have lt: "\<forall>p \<in> set (mt_q m). due_in (t + 1) m p < unat delay - 1"
    using ok due_in_next unfolding mt_served_def mt_ok_def by (metis diff_less_mono less_eq_Suc_le One_nat_def)
  have "due_in (t + 1) m' e = unat (delay - 1)" by (simp add: due_in_def m'(2))
  then have de: "due_in (t + 1) m' e = unat delay - 1"
    using delay(1) unat_minus_one [of delay] by auto
  have "sorted_wrt (<) (map (due_in (t + 1) m') (mt_q m'))"
    using so lt de due by (simp add: m'(5) sorted_wrt_append cong: map_cong)
  moreover have "\<forall>p \<in> set (mt_q m'). due_in (t + 1) m' p < unat delay"
    using lt de due delay(1) by (auto simp: m'(5) word_less_nat_alt)
  moreover have "waiting m' = waiting m @ [ob]"
    using old by (simp add: waiting_def m'(5)) (simp add: m'(2))
  moreover have "migrated_time (store m' (last (mt_q m'))) = t + delay" by (simp add: m'(5)) (simp add: m'(2))
  ultimately show ?thesis using m'(1) base' by (auto simp: mt_ok_def)
qed

lemma migration_tracker_init_ok:
  assumes "unat delay < 2 ^ 31" and wb0: "wb m0 = (\<lambda>_. [])"
  shows "\<exists>m. migration_tracker_init delay m0 = Inr m \<and> mt_ok delay t m \<and> waiting m = []"
proof -
  let ?p = "epool_create CacheRegion (2 * delay)"
  obtain k where k: "ht_init (ucast (2 * delay)) = Inr k" using ht_init_spec by blast
  define ep where "ep = ?p\<lparr>ep_starting_index := 0,
            ep_free := map (Pair (ep_region ?p)) (rev [0..<unat (ep_nr_entries ?p)]),
            ep_migrating := [], ep_nr_allocated := 0, ep_nr_migrating := 0\<rparr>"
  let ?st = "cleared ?p (store m0)"
  have i: "epool_init 0 ?p m0 = Inr (ep, m0\<lparr>store := ?st\<rparr>)"
    unfolding ep_def
    by (rule epool_init_ok) (simp_all add: epool_create_def wb_linked_def wb_queues_def wb0)
  have "pool_ok ep ?st" "alloc_set ep ?st = {}"
    by (rule epool_init_pool_ok(1,2) [OF ep_def], simp add: cleared_def)+
  moreover have "ep_nr_entries ep = 2 * delay" by (simp add: ep_def epool_create_def)
  ultimately show ?thesis using k i
    by (simp add: migration_tracker_init_def mt_ok_def mt_base_def waiting_def wb0)
qed

end
