(* ===== verification/Sim.thy ===== *)
theory Sim
  imports Policy Migration
begin

text \<open>
  The cache simulator (\<open>src/src/sim/main.c\<close>): one access of the trace against a policy, with its
  statistics, delayed migration and removals, and the loop over the trace. The policy
  is any one that keeps the contract \<open>runnable_policy\<close>; the trace is the list of the accesses its
  reader returns. The main result is that a run never faults.
\<close>

section \<open>State and options\<close>

record sim_options =
  opt_sampling_rate :: u64
  opt_migration_delay :: u64
  opt_remove_rate :: int

record sim_stats_struct =
  ss_write_hits :: u32
  ss_write_misses :: u32
  ss_read_hits :: u32
  ss_read_misses :: u32
  ss_dirty_evicts :: u32

definition zero_stats :: sim_stats_struct where
  "zero_stats = \<lparr>ss_write_hits = 0, ss_write_misses = 0, ss_read_hits = 0, ss_read_misses = 0,
                 ss_dirty_evicts = 0\<rparr>"

text \<open>\<open>sm_random\<close> counts the values drawn from the generator of the C library.\<close>

record 's sim =
  sm_policy :: 's
  sm_stats :: sim_stats_struct
  sm_tracker :: migration_tracker
  sm_random :: nat

type_synonym trace = "(oblock \<times> bool) list"

section \<open>The functions of the simulator\<close>

text \<open>\<open>rnd n\<close> is the value of the \<open>n\<close>-th call of \<open>random\<close> after the seeding.\<close>

definition remove_now :: "(nat \<Rightarrow> u32) \<Rightarrow> sim_options \<Rightarrow> u32 \<Rightarrow> 's sim \<Rightarrow> bool \<times> 's sim" where
  "remove_now rnd opts time st =
     (if opt_remove_rate opts = 0 then (False, st)
      else if opt_remove_rate opts > 0 then (sint time mod opt_remove_rate opts = 0, st)
      else (uint (rnd (sm_random st)) mod (- opt_remove_rate opts) = 0,
            st\<lparr>sm_random := sm_random st + 1\<rparr>))"

definition sim_prep :: "sim_options \<Rightarrow> 's \<Rightarrow> 's sim res" where
  "sim_prep opts policy =
     (let m = zero_tracker\<lparr>mt_delay := ucast (opt_migration_delay opts)\<rparr> in
      rbind (if opt_migration_delay opts > 0
             then migration_tracker_init (ucast (opt_migration_delay opts)) m else Inr m) (\<lambda>m.
      Inr \<lparr>sm_policy = policy, sm_stats = zero_stats, sm_tracker = m, sm_random = 0\<rparr>))"

definition count_hit :: "bool \<Rightarrow> sim_stats_struct \<Rightarrow> sim_stats_struct" where
  "count_hit write ss =
     (if write then ss\<lparr>ss_write_hits := ss_write_hits ss + 1\<rparr>
      else ss\<lparr>ss_read_hits := ss_read_hits ss + 1\<rparr>)"

definition count_miss :: "bool \<Rightarrow> sim_stats_struct \<Rightarrow> sim_stats_struct" where
  "count_miss write ss =
     (if write then ss\<lparr>ss_write_misses := ss_write_misses ss + 1\<rparr>
      else ss\<lparr>ss_read_misses := ss_read_misses ss + 1\<rparr>)"

text \<open>
  The assignment of \<open>result->op\<close> for a migrating entry is a comparison in the code: the
  operation stays what the caller initialised it to.
\<close>

definition sim_map ::
  "'s policy_api \<Rightarrow> oblock \<Rightarrow> bool \<Rightarrow> cn_result \<Rightarrow> 's sim \<Rightarrow> (cn_result \<times> 's sim) res" where
  "sim_map P ob write result st =
     (if (case policy_cache_lookup P ob (sm_policy st) of
            None \<Rightarrow> False
          | Some e \<Rightarrow> e_migrating (fn_entry P (sm_policy st) e)) then
        Inr (result, st\<lparr>sm_stats := count_hit write (sm_stats st)\<rparr>)
      else
        rbind (policy_map P ob write result (sm_policy st)) (\<lambda>(rc, result, s).
        if rc \<noteq> 0 then Inl Fatal
        else
          let ss = (if r_op result = CACHE_NUCLEUS_HIT then count_hit write (sm_stats st)
                    else count_miss write (sm_stats st));
              ss = (if r_dirty_eviction result
                    then ss\<lparr>ss_dirty_evicts := ss_dirty_evicts ss + 1\<rparr> else ss) in
          Inr (result, st\<lparr>sm_policy := s, sm_stats := ss\<rparr>)))"

lemma sim_map_policy:
  assumes "\<not> (case policy_cache_lookup P ob (sm_policy st) of None \<Rightarrow> False
      | Some e \<Rightarrow> e_migrating (fn_entry P (sm_policy st) e))"
    and "policy_map P ob w r0 (sm_policy st) = Inr (0, r, s)"
  shows "sim_map P ob w r0 st = Inr (r, st\<lparr>sm_policy := s, sm_stats :=
    (let ss = (if r_op r = CACHE_NUCLEUS_HIT then count_hit w (sm_stats st) else count_miss w (sm_stats st))
     in if r_dirty_eviction r then ss\<lparr>ss_dirty_evicts := ss_dirty_evicts ss + 1\<rparr> else ss)\<rparr>)"
  unfolding sim_map_def if_not_P [OF assms(1)] assms(2) by (simp add: Let_def)

text \<open>
  The reading part of \<open>sim_access\<close>: with a sampling rate above 1 the trace is read until
  the hash of a block is not above the threshold, and the hash replaces the block.
\<close>

fun read_sampled :: "u32 \<Rightarrow> trace \<Rightarrow> ((oblock \<times> bool) \<times> trace) option res" where
  "read_sampled thr [] = Inr None"
| "read_sampled thr ((ob, write) # rest) =
     rbind (hash_64 ob (of_nat (ffs (2 ^ 31)) - 1)) (\<lambda>h.
     if (ucast h :: u64) > ucast thr then read_sampled thr rest
     else Inr (Some ((ucast h, write), rest)))"

definition sim_read :: "sim_options \<Rightarrow> trace \<Rightarrow> ((oblock \<times> bool) \<times> trace) option res" where
  "sim_read opts tr =
     (if opt_sampling_rate opts = 1 then
        Inr (case tr of [] \<Rightarrow> None | x # rest \<Rightarrow> Some (x, rest))
      else
        rbind (udiv (2 ^ 31) (opt_sampling_rate opts)) (\<lambda>thr. read_sampled (ucast thr) tr))"

definition zero_result :: cn_result where
  "zero_result = \<lparr>r_op = CACHE_NUCLEUS_HIT, r_old_oblock = 0, r_cblock = 0, r_dirty_eviction = False\<rparr>"

text \<open>The rest of \<open>sim_access\<close>, for the access that was read.\<close>

definition entered :: "cn_result \<Rightarrow> bool" where
  "entered r \<longleftrightarrow> r_op r = CACHE_NUCLEUS_NEW \<or> r_op r = CACHE_NUCLEUS_REPLACE"

definition sim_migrate ::
  "'s policy_api \<Rightarrow> sim_options \<Rightarrow> u32 \<Rightarrow> oblock \<Rightarrow> cn_result \<Rightarrow> 's sim \<Rightarrow> 's sim res" where
  "sim_migrate P opts time ob result st =
     (if opt_migration_delay opts = 0 then
        if entered result then
          rbind (policy_migrated P ob (sm_policy st)) (\<lambda>s. Inr (st\<lparr>sm_policy := s\<rparr>))
        else Inr st
      else
        rbind (migration_next time (sm_tracker st)) (\<lambda>(next, m).
        rbind (case next of
                 None \<Rightarrow> Inr (sm_policy st)
               | Some mob \<Rightarrow>
                   if policy_cache_lookup P mob (sm_policy st) \<noteq> None
                   then policy_migrated P mob (sm_policy st) else Inr (sm_policy st)) (\<lambda>s.
        rbind (if entered result then migration_add time ob m else Inr m) (\<lambda>m.
        Inr (st\<lparr>sm_policy := s, sm_tracker := m\<rparr>)))))"

definition sim_removal ::
  "'s policy_api \<Rightarrow> (nat \<Rightarrow> u32) \<Rightarrow> sim_options \<Rightarrow> u32 \<Rightarrow> oblock \<Rightarrow> 's sim \<Rightarrow> 's sim res" where
  "sim_removal P rnd opts time ob st =
     (let (now, st) = remove_now rnd opts time st in
      if now \<and> policy_cache_lookup P ob (sm_policy st) \<noteq> None then
        rbind (migration_remove ob (sm_tracker st)) (\<lambda>m.
        rbind (policy_remove P ob True (sm_policy st)) (\<lambda>s.
        Inr (st\<lparr>sm_policy := s, sm_tracker := m\<rparr>)))
      else Inr st)"

definition sim_serve ::
  "'s policy_api \<Rightarrow> (nat \<Rightarrow> u32) \<Rightarrow> sim_options \<Rightarrow> u32 \<Rightarrow> oblock \<Rightarrow> bool \<Rightarrow> 's sim \<Rightarrow> 's sim res" where
  "sim_serve P rnd opts time ob write st =
     (let st = st\<lparr>sm_policy := policy_set_time P time (sm_policy st)\<rparr> in
      rbind (sim_map P ob write zero_result st) (\<lambda>(result, st).
      rbind (sim_migrate P opts time ob result st) (\<lambda>st.
      sim_removal P rnd opts time ob st)))"

text \<open>\<open>None\<close> for the trace: the reader reported its end.\<close>

definition sim_access ::
  "'s policy_api \<Rightarrow> (nat \<Rightarrow> u32) \<Rightarrow> sim_options \<Rightarrow> u32 \<Rightarrow> trace \<Rightarrow> 's sim \<Rightarrow> (trace option \<times> 's sim) res" where
  "sim_access P rnd opts time tr st =
     rbind (sim_read opts tr) (\<lambda>next.
     case next of
       None \<Rightarrow> Inr (None, st)
     | Some ((ob, write), rest) \<Rightarrow>
         rbind (sim_serve P rnd opts time ob write st) (\<lambda>st. Inr (Some rest, st)))"

lemma read_sampled_shorter:
  "read_sampled thr tr = Inr (Some (x, rest)) \<Longrightarrow> length rest < length tr"
  by (induction thr tr rule: read_sampled.induct) (auto split: if_splits)

lemma sim_read_shorter: "sim_read opts tr = Inr (Some (x, rest)) \<Longrightarrow> length rest < length tr"
  by (cases x) (auto simp: sim_read_def dest: read_sampled_shorter split: if_splits list.splits)

lemma sim_access_shorter: "sim_access P rnd opts time tr st = Inr (Some rest, st') \<Longrightarrow>
  length rest < length tr"
  using sim_read_shorter by (fastforce simp: sim_access_def split: option.splits)

text \<open>The loop of \<open>main\<close>: one access per tick of the clock until the trace ends.\<close>

function sim_run ::
  "'s policy_api \<Rightarrow> (nat \<Rightarrow> u32) \<Rightarrow> sim_options \<Rightarrow> u32 \<Rightarrow> trace \<Rightarrow> 's sim \<Rightarrow> 's sim res" where
  "sim_run P rnd opts time tr st =
     rbind (sim_access P rnd opts time tr st) (\<lambda>(next, st).
     case next of
       None \<Rightarrow> Inr st
     | Some rest \<Rightarrow> sim_run P rnd opts (time + 1) rest st)"
  by pat_completeness auto

termination
  by (relation "measure (\<lambda>(P, rnd, opts, time, tr, st). length tr)")
    (auto dest: sim_access_shorter)

lemma sim_run_empty:
  "sim_read opts tr = Inr None \<Longrightarrow> sim_run P rnd opts time tr st = Inr st"
  by (subst sim_run.simps) (simp add: sim_access_def)

lemma sim_run_step:
  "sim_read opts tr = Inr (Some ((ob, w), rest)) \<Longrightarrow>
   sim_run P rnd opts time tr st = rbind (sim_serve P rnd opts time ob w st) (\<lambda>st. sim_run P rnd opts (time + 1) rest st)"
  by (subst sim_run.simps) (simp add: sim_access_def rbind_assoc)

declare sim_run.simps [simp del]

section \<open>A run never faults\<close>

text \<open>
  The blocks of a policy whose migration has not been reported, and the invariant of the
  simulator before an access at a given time: without a delay no block is migrating,
  with a delay the migrating blocks are the ones that wait in the tracker.
\<close>

definition pending :: "view \<Rightarrow> oblock set" where
  "pending v = {ob. \<exists>e. v ob = Some (e, True)}"

definition sim_inv :: "'s policy_api \<Rightarrow> ('s \<Rightarrow> bool) \<Rightarrow> sim_options \<Rightarrow> u32 \<Rightarrow> 's sim \<Rightarrow> bool" where
  "sim_inv P I opts time st \<longleftrightarrow> I (sm_policy st) \<and>
     (if opt_migration_delay opts = 0 then pending (mview P (sm_policy st)) = {}
      else mt_ok (ucast (opt_migration_delay opts)) time (sm_tracker st) \<and>
        pending (mview P (sm_policy st)) = set (waiting (sm_tracker st)))"

text \<open>
  The options under which the run is proved: no removals, a delay that the clock and the
  pool can represent, a sampling rate that is not zero.
\<close>

definition plain_opts :: "sim_options \<Rightarrow> bool" where
  "plain_opts opts \<longleftrightarrow> opt_remove_rate opts = 0 \<and> opt_migration_delay opts < 2 ^ 31 \<and>
     opt_sampling_rate opts \<noteq> 0"

definition accesses :: "sim_stats_struct \<Rightarrow> u32" where
  "accesses ss = ss_write_hits ss + ss_write_misses ss + ss_read_hits ss + ss_read_misses ss"

lemma accesses_count [simp]:
  "accesses (count_hit w ss) = accesses ss + 1" "accesses (count_miss w ss) = accesses ss + 1"
  "accesses (ss\<lparr>ss_dirty_evicts := n\<rparr>) = accesses ss"
  by (simp_all add: accesses_def count_hit_def count_miss_def)

lemma mt_ok_distinct: "mt_ok delay t m \<Longrightarrow> distinct (waiting m)"
proof -
  assume "mt_ok delay t m"
  then have b: "distinct (map (key_of (store m)) (mt_ht m))" "set (mt_q m) = set (mt_ht m)"
    "distinct (mt_q m)" by (simp_all add: mt_ok_def mt_base_def)
  then have "inj_on (key_of (store m)) (set (mt_q m))" unfolding distinct_map by argo
  then show ?thesis using b(3) unfolding waiting_def distinct_map by blast
qed

lemma delay_facts:
  assumes "plain_opts opts" "opt_migration_delay opts \<noteq> 0"
  shows "0 < (ucast (opt_migration_delay opts) :: u32)" "unat (ucast (opt_migration_delay opts) :: u32) < 2 ^ 31"
proof -
  let ?d = "opt_migration_delay opts"
  have d: "unat ?d < 2 ^ 31" using assms(1) by (simp add: plain_opts_def word_less_nat_alt)
  have "(ucast ?d :: u32) = of_nat (unat ?d)" by simp
  then have "unat (ucast ?d :: u32) = unat ?d"
    using d unat_of_nat_small [of "unat ?d", where 'a = 32] by simp
  then show "0 < (ucast ?d :: u32)" "unat (ucast ?d :: u32) < 2 ^ 31"
    using d assms(2) by (simp_all add: word_less_nat_alt unat_gt_0 unat_eq_0)
qed

lemma effect_pending:
  assumes "map_effect ob r v v'"
  shows "pending v' = (if entered r then insert ob (pending v) else pending v) \<and>
    (entered r \<longrightarrow> ob \<notin> pending v)"
proof (cases "r_op r")
  case CACHE_NUCLEUS_NEW
  with assms obtain e where "v ob = None" "v' = v(ob \<mapsto> (e, True))"
    using map_effect_NEW by blast
  then show ?thesis using CACHE_NUCLEUS_NEW by (auto simp: pending_def entered_def)
next
  case CACHE_NUCLEUS_REPLACE
  with assms obtain e where "v ob = None" "v (r_old_oblock r) = Some (e, False)"
    "v' = v(r_old_oblock r := None, ob \<mapsto> (e, True))"
    using map_effect_REPLACE by blast
  then show ?thesis using CACHE_NUCLEUS_REPLACE by (auto simp: pending_def entered_def)
qed (use assms in \<open>auto simp: map_effect_def entered_def\<close>)

text \<open>Reading never faults: the hash keeps the 31 bits it is asked for.\<close>

lemma read_sampled_ok: "\<exists>next. read_sampled thr tr = Inr next"
proof (induction thr tr rule: read_sampled.induct)
  case (2 thr ob w rest)
  have b: "(of_nat (ffs (2 ^ 31)) - 1 :: u32) = of_nat 31"
    using ffs_pow2 [of 31] by simp
  obtain h where h: "hash_64 ob (of_nat 31) = Inr h"
    unfolding hash_64_def using hash_32_bound [of 31] by fastforce
  show ?case using 2 [unfolded b, OF h] unfolding read_sampled.simps b h by simp
qed simp

lemma sim_read_ok: "plain_opts opts \<Longrightarrow> \<exists>next. sim_read opts tr = Inr next"
  using read_sampled_ok by (simp add: sim_read_def udiv_def plain_opts_def)

lemma sim_prep_ok:
  assumes opts: "plain_opts opts" and I: "I s" "pending (mview P s) = {}"
  shows "\<exists>st. sim_prep opts s = Inr st \<and> sim_inv P I opts 1 st \<and> sm_policy st = s \<and>
    sm_stats st = zero_stats"
proof (cases "opt_migration_delay opts = 0")
  case True
  then show ?thesis using I by (simp add: sim_prep_def sim_inv_def)
next
  case False
  let ?d = "ucast (opt_migration_delay opts) :: u32"
  from migration_tracker_init_ok [OF delay_facts(2) [OF opts False], of "zero_tracker\<lparr>mt_delay := ?d\<rparr>"]
  obtain m where
    m: "migration_tracker_init ?d (zero_tracker\<lparr>mt_delay := ?d\<rparr>) = Inr m" "mt_ok ?d 1 m" "waiting m = []"
    by (auto simp: zero_tracker_def)
  have "0 < opt_migration_delay opts" using False by (simp add: word_gt_0)
  then show ?thesis using m I False by (simp add: sim_prep_def sim_inv_def)
qed

context runnable_policy
begin

lemma sim_map_ok:
  assumes "binv (Suc n) (sm_policy st)"
  shows "\<exists>r st'. sim_map P ob w zero_result st = Inr (r, st') \<and> binv n (sm_policy st') \<and>
    sm_tracker st' = sm_tracker st \<and>
    pending (mview P (sm_policy st')) =
      (if entered r then insert ob (pending (mview P (sm_policy st))) else pending (mview P (sm_policy st))) \<and>
    (entered r \<longrightarrow> ob \<notin> pending (mview P (sm_policy st))) \<and>
    accesses (sm_stats st') = accesses (sm_stats st) + 1"
proof (cases "case policy_cache_lookup P ob (sm_policy st) of None \<Rightarrow> False
    | Some e \<Rightarrow> e_migrating (fn_entry P (sm_policy st) e)")
  case True
  then show ?thesis using spend_law [OF assms]
    by (simp add: sim_map_def entered_def zero_result_def)
next
  case False
  let ?s = "sm_policy st"
  obtain r s' where m: "policy_map P ob w zero_result ?s = Inr (0, r, s')" "binv n s'"
    "map_effect ob r (mview P ?s) (mview P s')"
    using served_law [OF assms, of ob w zero_result] by (auto simp: succeeds_iff_Inr)
  define st' where "st' = st\<lparr>sm_policy := s', sm_stats :=
    (let ss = (if r_op r = CACHE_NUCLEUS_HIT then count_hit w (sm_stats st) else count_miss w (sm_stats st))
     in if r_dirty_eviction r then ss\<lparr>ss_dirty_evicts := ss_dirty_evicts ss + 1\<rparr> else ss)\<rparr>"
  have "sim_map P ob w zero_result st = Inr (r, st')"
    unfolding st'_def by (rule sim_map_policy [where P = P, OF False m(1)])
  moreover have "accesses (sm_stats st') = accesses (sm_stats st) + 1"
    by (simp add: st'_def Let_def)
  moreover have "sm_policy st' = s'" "sm_tracker st' = sm_tracker st" by (simp_all add: st'_def)
  ultimately show ?thesis using m(2) effect_pending [OF m(3)] by metis
qed

lemma migrated_ok:
  assumes "binv n s" "ob \<in> pending (mview P s)"
  shows "\<exists>s'. policy_migrated P ob s = Inr s' \<and> binv n s' \<and>
    pending (mview P s') = pending (mview P s) - {ob} \<and> policy_cache_lookup P ob s \<noteq> None"
proof -
  obtain e where e: "mview P s ob = Some (e, True)" using assms(2) by (auto simp: pending_def)
  from settled_law [OF assms(1) e] obtain s' where s': "policy_migrated P ob s = Inr s'" "binv n s'"
    "mview P s' = (mview P s)(ob \<mapsto> (e, False))" by (auto simp: succeeds_iff_Inr)
  moreover have "pending (mview P s') = pending (mview P s) - {ob}"
    by (auto simp: pending_def s'(3))
  moreover have "policy_cache_lookup P ob s \<noteq> None" using e by (simp add: lookup_view)
  ultimately show ?thesis by blast
qed

lemma sim_migrate_ok:
  assumes opts: "plain_opts opts" and i: "binv budget (sm_policy st)"
    and pend: "pending (mview P (sm_policy st)) =
      (if entered r then insert ob before else before)" "entered r \<Longrightarrow> ob \<notin> before"
    and before: "if opt_migration_delay opts = 0 then before = {}
      else mt_ok (ucast (opt_migration_delay opts)) time (sm_tracker st) \<and> before = set (waiting (sm_tracker st))"
  shows "\<exists>st'. sim_migrate P opts time ob r st = Inr st' \<and> sim_inv P (binv budget) opts (time + 1) st' \<and>
    sm_stats st' = sm_stats st"
proof (cases "opt_migration_delay opts = 0")
  case True
  show ?thesis
  proof (cases "entered r")
    case False
    then show ?thesis using True i pend before by (simp add: sim_migrate_def sim_inv_def)
  next
    case en: True
    then have "ob \<in> pending (mview P (sm_policy st))" using pend by simp
    from migrated_ok [OF i this] obtain s' where "policy_migrated P ob (sm_policy st) = Inr s'" "binv budget s'"
      "pending (mview P s') = pending (mview P (sm_policy st)) - {ob}" by blast
    then show ?thesis using True en pend before by (simp add: sim_migrate_def sim_inv_def)
  qed
next
  case False
  let ?d = "ucast (opt_migration_delay opts) :: u32"
  have mt: "mt_ok ?d time (sm_tracker st)" and bw: "before = set (waiting (sm_tracker st))"
    using before False by simp_all
  note dl = delay_facts [OF opts False]
  from migration_next_ok [OF mt] obtain n m where n: "migration_next time (sm_tracker st) = Inr (n, m)"
    "mt_served ?d time m"
    "case n of None \<Rightarrow> waiting m = waiting (sm_tracker st) | Some b \<Rightarrow> waiting (sm_tracker st) = b # waiting m"
    by blast
  have dist: "distinct (waiting (sm_tracker st))" by (rule mt_ok_distinct [OF mt])
  have "\<exists>s'. (case n of None \<Rightarrow> Inr (sm_policy st)
        | Some mob \<Rightarrow> if policy_cache_lookup P mob (sm_policy st) \<noteq> None
            then policy_migrated P mob (sm_policy st) else Inr (sm_policy st)) = Inr s' \<and> binv budget s' \<and>
      pending (mview P s') = (if entered r then insert ob (set (waiting m)) else set (waiting m))"
  proof (cases n)
    case None
    then show ?thesis using n(3) i pend bw by simp
  next
    case (Some b)
    then have w: "waiting (sm_tracker st) = b # waiting m" using n(3) by simp
    then have b: "b \<in> before" "b \<notin> set (waiting m)" "entered r \<Longrightarrow> b \<noteq> ob"
      using bw dist pend(2) by auto
    then have "b \<in> pending (mview P (sm_policy st))" using pend by simp
    from migrated_ok [OF i this] obtain s' where s': "policy_migrated P b (sm_policy st) = Inr s'" "binv budget s'"
      "pending (mview P s') = pending (mview P (sm_policy st)) - {b}"
      "policy_cache_lookup P b (sm_policy st) \<noteq> None" by blast
    then show ?thesis using Some pend bw w b by auto
  qed
  then obtain s' where s': "(case n of None \<Rightarrow> Inr (sm_policy st)
        | Some mob \<Rightarrow> if policy_cache_lookup P mob (sm_policy st) \<noteq> None
            then policy_migrated P mob (sm_policy st) else Inr (sm_policy st)) = Inr s'" "binv budget s'"
      "pending (mview P s') = (if entered r then insert ob (set (waiting m)) else set (waiting m))" by blast
  have new: "entered r \<Longrightarrow> ob \<notin> set (waiting m)"
    using pend(2) bw n(3) by (auto split: option.splits)
  have "\<exists>m'. (if entered r then migration_add time ob m else Inr m) = Inr m' \<and> mt_ok ?d (time + 1) m' \<and>
      set (waiting m') = (if entered r then insert ob (set (waiting m)) else set (waiting m))"
  proof (cases "entered r")
    case True
    from migration_add_ok [OF n(2) new [OF True] dl] True show ?thesis by auto
  qed (use mt_tick [OF n(2)] in simp)
  then obtain m' where "(if entered r then migration_add time ob m else Inr m) = Inr m'"
    "mt_ok ?d (time + 1) m'"
    "set (waiting m') = (if entered r then insert ob (set (waiting m)) else set (waiting m))" by blast
  then show ?thesis using False n(1) s' by (simp add: sim_migrate_def sim_inv_def)
qed

text \<open>One access, and the whole run.\<close>

lemma sim_serve_ok:
  assumes opts: "plain_opts opts" and ok: "sim_inv P (binv (Suc n)) opts time st"
  shows "\<exists>st'. sim_serve P rnd opts time ob w st = Inr st' \<and> sim_inv P (binv n) opts (time + 1) st' \<and>
    accesses (sm_stats st') = accesses (sm_stats st) + 1"
proof -
  let ?st = "st\<lparr>sm_policy := policy_set_time P time (sm_policy st)\<rparr>"
  have i: "binv (Suc n) (sm_policy st)" using ok by (simp add: sim_inv_def)
  note t = clocked_law [OF i, of time]
  have "binv (Suc n) (sm_policy ?st)" using t by simp
  from sim_map_ok [OF this, of ob w] obtain r st1 where 1:
    "sim_map P ob w zero_result ?st = Inr (r, st1)" "binv n (sm_policy st1)"
    "sm_tracker st1 = sm_tracker st"
    "pending (mview P (sm_policy st1)) =
      (if entered r then insert ob (pending (mview P (sm_policy st))) else pending (mview P (sm_policy st)))"
    "entered r \<longrightarrow> ob \<notin> pending (mview P (sm_policy st))"
    "accesses (sm_stats st1) = accesses (sm_stats st) + 1"
    using t by auto
  have "if opt_migration_delay opts = 0 then pending (mview P (sm_policy st)) = {}
      else mt_ok (ucast (opt_migration_delay opts)) time (sm_tracker st1) \<and>
        pending (mview P (sm_policy st)) = set (waiting (sm_tracker st1))"
    using ok 1(3) by (simp add: sim_inv_def)
  from sim_migrate_ok [OF opts 1(2,4) _ this] 1(5)
  obtain st2 where 2: "sim_migrate P opts time ob r st1 = Inr st2" "sim_inv P (binv n) opts (time + 1) st2"
    "sm_stats st2 = sm_stats st1" by blast
  have "opt_remove_rate opts = 0" using opts by (simp add: plain_opts_def)
  then have "sim_removal P rnd opts time ob st2 = Inr st2" by (simp add: sim_removal_def remove_now_def)
  then show ?thesis using 1 2 by (simp add: sim_serve_def)
qed

lemma budget: "binv m s \<Longrightarrow> n \<le> m \<Longrightarrow> binv n s"
  by (induction m) (auto simp: le_Suc_eq intro: spend_law)

lemma spend: "sim_inv P (binv m) opts time st \<Longrightarrow> n \<le> m \<Longrightarrow> sim_inv P (binv n) opts time st"
  by (auto simp: sim_inv_def intro: budget)

lemma sim_run_ok:
  assumes opts: "plain_opts opts" and ok: "sim_inv P (binv (n + length tr)) opts time st"
  shows "\<exists>st' k. sim_run P rnd opts time tr st = Inr st' \<and> sim_inv P (binv n) opts (time + of_nat k) st' \<and>
    accesses (sm_stats st') = accesses (sm_stats st) + of_nat k \<and>
    (opt_sampling_rate opts = 1 \<longrightarrow> k = length tr)"
  using ok
proof (induction "length tr" arbitrary: tr time st rule: less_induct)
  case less
  obtain nx where r: "sim_read opts tr = Inr nx" using sim_read_ok [OF opts] by blast
  show ?case
  proof (cases nx)
    case None
    then have "sim_access P rnd opts time tr st = Inr (None, st)" using r by (simp add: sim_access_def)
    then have "sim_run P rnd opts time tr st = Inr st" by (subst sim_run.simps) simp
    moreover have "opt_sampling_rate opts = 1 \<longrightarrow> length tr = 0"
      using r None by (auto simp: sim_read_def split: list.splits)
    ultimately show ?thesis using spend [OF less.prems, of n] by (intro exI [of _ st] exI [of _ 0]) simp
  next
    case (Some x)
    then obtain ob w rest where x: "nx = Some ((ob, w), rest)" by (cases x) auto
    have sh: "length rest < length tr" using sim_read_shorter r x by blast
    then have "Suc (n + length rest) \<le> n + length tr" by simp
    from sim_serve_ok [OF opts spend [OF less.prems this], of rnd ob w] obtain st1 where
      1: "sim_serve P rnd opts time ob w st = Inr st1" "sim_inv P (binv (n + length rest)) opts (time + 1) st1"
      "accesses (sm_stats st1) = accesses (sm_stats st) + 1" by blast
    from less.hyps [OF sh 1(2)] obtain st' k where
      2: "sim_run P rnd opts (time + 1) rest st1 = Inr st'" "sim_inv P (binv n) opts (time + 1 + of_nat k) st'"
      "accesses (sm_stats st') = accesses (sm_stats st1) + of_nat k"
      "opt_sampling_rate opts = 1 \<longrightarrow> k = length rest" by blast
    have "sim_access P rnd opts time tr st = Inr (Some rest, st1)"
      using r x 1(1) by (simp add: sim_access_def)
    then have "sim_run P rnd opts time tr st = Inr st'" using 2(1) by (subst sim_run.simps) simp
    moreover have "opt_sampling_rate opts = 1 \<longrightarrow> length tr = Suc (length rest)"
      using r x by (auto simp: sim_read_def split: list.splits)
    ultimately show ?thesis using 1 2
      by (intro exI [of _ st'] exI [of _ "Suc k"]) (auto simp: add.assoc)
  qed
qed

text \<open>
  Any policy that keeps the contract, started empty: the simulator reads a whole trace over it without a
  fault, and without sampling counts one hit or miss per access.
\<close>

lemma run_from_start:
  assumes opts: "plain_opts opts" and s: "binv (n + length tr) s" "pending (mview P s) = {}"
  shows "\<exists>st st'. sim_prep opts s = Inr st \<and> sim_run P rnd opts 1 tr st = Inr st' \<and> binv n (sm_policy st') \<and>
    (opt_sampling_rate opts = 1 \<longrightarrow> accesses (sm_stats st') = of_nat (length tr))"
proof -
  from sim_prep_ok [OF opts, of "binv (n + length tr)", OF s] obtain st where
    st: "sim_prep opts s = Inr st" "sim_inv P (binv (n + length tr)) opts 1 st" "sm_stats st = zero_stats" by blast
  from sim_run_ok [OF opts st(2), of rnd] obtain st' k where
    r: "sim_run P rnd opts 1 tr st = Inr st'" "sim_inv P (binv n) opts (1 + of_nat k) st'"
    "accesses (sm_stats st') = accesses (sm_stats st) + of_nat k"
    "opt_sampling_rate opts = 1 \<longrightarrow> k = length tr" by blast
  have "accesses (sm_stats st) = 0" by (simp add: st(3) accesses_def zero_stats_def)
  then show ?thesis using st(1) r by (auto simp: sim_inv_def)
qed

end

context access_policy
begin

lemmas sim_map_ok = metered.sim_map_ok
lemmas sim_run_ok = metered.sim_run_ok
lemmas run_from_start = metered.run_from_start

end

end
