(* ===== verification/Lru_Spec.thy ===== *)
theory Lru_Spec
  imports Lru Sim
begin

text \<open>
  What LRU means: an abstract cache that keeps a list of blocks in the order of their last
  use and the set of the blocks on their way into the cache. The policy of the theory
  \<open>Lru\<close> refines it operation by operation, and under the simulator the cache holds the
  last distinct blocks of the trace, as many as fit.
\<close>

text \<open>Entries are pairs of a region and an index, but are not to be taken apart.\<close>

declare split_paired_All [simp del] split_paired_Ex [simp del]

section \<open>The abstract cache\<close>

record lru_spec =
  recent :: "oblock list"
  on_way :: "oblock set"

definition spec_map ::
  "nat \<Rightarrow> oblock \<Rightarrow> lru_spec \<Rightarrow> cache_nucleus_operation \<times> oblock option \<times> lru_spec" where
  "spec_map c ob a =
     (if ob \<in> set (recent a) then
        (CACHE_NUCLEUS_HIT, None, a\<lparr>recent := remove1 ob (recent a) @ [ob]\<rparr>)
      else if ob \<in> on_way a then (CACHE_NUCLEUS_HIT, None, a)
      else if length (recent a) + card (on_way a) < c then
        (CACHE_NUCLEUS_NEW, None, a\<lparr>on_way := insert ob (on_way a)\<rparr>)
      else
        (case recent a of
           [] \<Rightarrow> (CACHE_NUCLEUS_FAIL, None, a)
         | old # rest \<Rightarrow>
             (CACHE_NUCLEUS_REPLACE, Some old, \<lparr>recent = rest, on_way = insert ob (on_way a)\<rparr>)))"

definition spec_migrated :: "oblock \<Rightarrow> lru_spec \<Rightarrow> lru_spec" where
  "spec_migrated ob a = \<lparr>recent = recent a @ [ob], on_way = on_way a - {ob}\<rparr>"

definition spec_remove :: "oblock \<Rightarrow> lru_spec \<Rightarrow> lru_spec" where
  "spec_remove ob a = \<lparr>recent = remove1 ob (recent a), on_way = on_way a - {ob}\<rparr>"

definition lru_abs :: "lru_policy \<Rightarrow> lru_spec" where
  "lru_abs s = \<lparr>recent = map (key_of (store s)) (lru_q s),
     on_way = key_of (store s) ` {e \<in> set (ht s). e_migrating (store s e)}\<rparr>"

section \<open>Refinement\<close>

lemma lru_keys_inj: "lru_ok c s \<Longrightarrow> inj_on (key_of (store s)) (set (ht s))"
  using lru_keys [of c s] by (simp add: distinct_map)

lemma lru_recent_distinct:
  assumes "lru_ok c s"
  shows "distinct (map (key_of (store s)) (lru_q s))"
  using lru_okD(5,6) [OF assms] lru_keys_inj [OF assms]
  by (auto simp: distinct_map inj_on_def)

lemma lru_abs_lookup:
  assumes ok: "lru_ok c s"
  shows "ob \<in> set (recent (lru_abs s)) \<longleftrightarrow> (\<exists>e. ht_lookup ob s = Some e \<and> \<not> e_migrating (store s e))"
    "ob \<in> on_way (lru_abs s) \<longleftrightarrow> (\<exists>e. ht_lookup ob s = Some e \<and> e_migrating (store s e))"
  using lru_okD(6) [OF ok] lookup_Some [OF lru_okD(1) [OF ok]] by (auto simp: lru_abs_def)

lemma lru_abs_size:
  assumes ok: "lru_ok c s"
  shows "length (recent (lru_abs s)) + card (on_way (lru_abs s)) = card (cached (ht s))"
proof -
  note D = lru_okD [OF ok]
  let ?M = "{e \<in> set (ht s). e_migrating (store s e)}"
  have "card (on_way (lru_abs s)) = card ?M"
    using card_image [OF inj_on_subset [OF lru_keys_inj [OF ok]], of ?M] by (simp add: lru_abs_def)
  moreover have "length (recent (lru_abs s)) = card (set (lru_q s))"
    using distinct_card [OF D(5)] by (simp add: lru_abs_def)
  moreover have "set (ht s) = set (lru_q s) \<union> ?M" "set (lru_q s) \<inter> ?M = {}" using D(6) by auto
  then have "card (set (ht s)) = card (set (lru_q s)) + card ?M" by (metis card_Un_disjoint List.finite_set finite_Un)
  ultimately show ?thesis using lru_cached [OF ok] by simp
qed

lemma lru_full_spec: "lru_ok c s \<Longrightarrow>
  cache_is_full s \<longleftrightarrow> \<not> length (recent (lru_abs s)) + card (on_way (lru_abs s)) < unat c"
  using lru_abs_size [of c s] cache_is_full_iff [OF lru_okD(1), of c s]
    card_cached_le [OF lru_okD(1), of c s] lru_okD(2) [of c s] by auto

lemma map_key_same: "\<forall>p \<in> set xs. e_oblock (st' p) = e_oblock (st p) \<Longrightarrow>
  map (key_of st') xs = map (key_of st) xs"
  by auto

lemma lru_abs_eqI:
  assumes "map (key_of (store s)) (lru_q s) = xs"
    "key_of (store s) ` {e \<in> set (ht s). e_migrating (store s e)} = M"
  shows "lru_abs s = \<lparr>recent = xs, on_way = M\<rparr>"
  using assms by (simp add: lru_abs_def)

lemma lru_map_refines:
  assumes ok: "lru_ok c s"
  shows "\<exists>r s'. lru_map_api ob w r0 s = Inr (0, r, s') \<and> lru_ok c s' \<and>
    (r_op r, evicted r, lru_abs s') = spec_map (unat c) ob (lru_abs s)"
proof (cases "ht_lookup ob s")
  case (Some e)
  note D = lru_okD [OF ok] and L = lru_abs_lookup [OF ok]
  have e: "e \<in> set (ht s)" "e_oblock (store s e) = ob" using Some lookup_Some [OF D(1)] by blast+
  from lru_map_hit [OF ok Some, of w r0] obtain cb s' where
    run: "lru_map_api ob w r0 s = Inr (0, r0\<lparr>r_op := CACHE_NUCLEUS_HIT, r_cblock := cb\<rparr>, s')"
    and st: "store s' = (store s)(e := (store s e)\<lparr>e_dirty := e_dirty (store s e) \<or> w\<rparr>)" "ht s' = ht s"
    "lru_q s' = (if e_migrating (store s e) then lru_q s else remove1 e (lru_q s) @ [e])"
    "lru_ok c s'" by blast
  have k: "e_oblock (store s' p) = e_oblock (store s p)" and
    m: "e_migrating (store s' p) = e_migrating (store s p)" for p by (auto simp: st(1))
  have way: "on_way (lru_abs s') = on_way (lru_abs s)"
    unfolding lru_abs_def using st(2) by (simp add: k m)
  have rec: "recent (lru_abs s') =
      (if e_migrating (store s e) then recent (lru_abs s) else remove1 ob (recent (lru_abs s)) @ [ob])"
  proof (cases "e_migrating (store s e)")
    case True
    then show ?thesis unfolding lru_abs_def st(3) by (simp add: k)
  next
    case False
    then have "e \<in> set (lru_q s)" using D(6) e by simp
    then have "map (key_of (store s)) (remove1 e (lru_q s)) = remove1 ob (map (key_of (store s)) (lru_q s))"
      using distinct_map_remove1 [OF lru_recent_distinct [OF ok]] e(2) by simp
    then show ?thesis using False e(2) unfolding lru_abs_def st(3) by (simp add: k)
  qed
  have "spec_map (unat c) ob (lru_abs s) = (CACHE_NUCLEUS_HIT, None, lru_abs s')"
  proof (cases "e_migrating (store s e)")
    case True
    then have "ob \<notin> set (recent (lru_abs s))" "ob \<in> on_way (lru_abs s)" using L Some by simp_all
    moreover have "lru_abs s' = lru_abs s" using rec way True by (intro lru_spec.equality) simp_all
    ultimately show ?thesis by (simp add: spec_map_def)
  next
    case False
    then have "ob \<in> set (recent (lru_abs s))" using L Some by simp
    moreover have "lru_abs s' = (lru_abs s)\<lparr>recent := remove1 ob (recent (lru_abs s)) @ [ob]\<rparr>"
      using rec way False by (intro lru_spec.equality) simp_all
    ultimately show ?thesis by (simp add: spec_map_def)
  qed
  then show ?thesis using run st(4) by (simp add: evicted_def)
next
  case None
  note D = lru_okD [OF ok] and L = lru_abs_lookup [OF ok] and F = lru_full_spec [OF ok]
  have no: "ob \<notin> set (recent (lru_abs s))" "ob \<notin> on_way (lru_abs s)" using L None by simp_all
  show ?thesis
  proof (cases "cache_is_full s")
    case False
    from lru_map_new [OF ok False None, of w r0] obtain e cb s' where
      run: "lru_map_api ob w r0 s = Inr (0, r0\<lparr>r_op := CACHE_NUCLEUS_NEW, r_cblock := cb\<rparr>, s')"
      and st: "store s' = (store s)(e := promoted ob w (store s e))" "ht s' = e # ht s"
      "lru_q s' = lru_q s" "lru_ok c s'" "e \<notin> set (ht s)" by blast
    have old: "p \<in> set (ht s) \<Longrightarrow> store s' p = store s p" for p using st(1,5) by auto
    have "recent (lru_abs s') = recent (lru_abs s)"
      using old D(6) by (simp add: lru_abs_def st(3))
    moreover have "{p \<in> set (ht s'). e_migrating (store s' p)} =
        insert e {p \<in> set (ht s). e_migrating (store s p)}"
      using st(1,2,5) by auto
    moreover have "key_of (store s') ` {p \<in> set (ht s). e_migrating (store s p)} =
        key_of (store s) ` {p \<in> set (ht s). e_migrating (store s p)}"
      by (rule image_cong) (use old in simp_all)
    ultimately have "recent (lru_abs s') = recent (lru_abs s)"
      "on_way (lru_abs s') = insert ob (on_way (lru_abs s))"
      unfolding lru_abs_def using st(1) by simp_all
    then have "lru_abs s' = (lru_abs s)\<lparr>on_way := insert ob (on_way (lru_abs s))\<rparr>"
      by (intro lru_spec.equality) simp_all
    then show ?thesis using run st(4) no F False by (simp add: spec_map_def evicted_def)
  next
    case True
    show ?thesis
    proof (cases "lru_q s")
      case Nil
      then have "recent (lru_abs s) = []" by (simp add: lru_abs_def)
      then show ?thesis using lru_map_fail [OF ok True None Nil, of w r0] ok no F True
        by (simp add: spec_map_def evicted_def)
    next
      case (Cons v rest)
      from lru_map_replace [OF ok True None Cons, of w r0] obtain cb s' where
        run: "lru_map_api ob w r0 s =
          Inr (0, r0\<lparr>r_op := CACHE_NUCLEUS_REPLACE, r_old_oblock := e_oblock (store s v),
                r_dirty_eviction := e_dirty (store s v), r_cblock := cb\<rparr>, s')"
        and st: "store s' = (store s)(v := promoted ob w (freed_entry (store s v)))"
        "ht s' = v # remove1 v (ht s)" "lru_q s' = rest" "lru_ok c s'" by blast
      have v: "v \<in> set (ht s)" "\<not> e_migrating (store s v)" "v \<notin> set rest"
        using D(5,6) Cons by auto
      have dh: "distinct (ht s)" by (rule cn_facts(1) [OF D(1)])
      have old: "p \<noteq> v \<Longrightarrow> store s' p = store s p" for p using st(1) by auto
      have "recent (lru_abs s') = map (key_of (store s)) rest"
        unfolding lru_abs_def st(3) lru_spec.simps st(1) by (rule map_key_upd [OF v(3)])
      moreover have "recent (lru_abs s) = e_oblock (store s v) # map (key_of (store s)) rest"
        by (simp add: lru_abs_def Cons)
      moreover have "{p \<in> set (ht s'). e_migrating (store s' p)} =
          insert v {p \<in> set (ht s). e_migrating (store s p)}"
        using st(1,2) v dh by auto
      moreover have "key_of (store s') ` {p \<in> set (ht s). e_migrating (store s p)} =
          key_of (store s) ` {p \<in> set (ht s). e_migrating (store s p)}"
        by (rule image_cong) (use st(1) v(2) in auto)
      ultimately have "on_way (lru_abs s') = insert ob (on_way (lru_abs s))"
        "recent (lru_abs s') = map (key_of (store s)) rest"
        "recent (lru_abs s) = e_oblock (store s v) # map (key_of (store s)) rest"
        unfolding lru_abs_def using st(1) by simp_all
      then have "lru_abs s' = \<lparr>recent = map (key_of (store s)) rest, on_way = insert ob (on_way (lru_abs s))\<rparr>"
        "recent (lru_abs s) = e_oblock (store s v) # map (key_of (store s)) rest"
        by (intro lru_spec.equality, simp_all)
      then show ?thesis using run st(4) no F True by (simp add: spec_map_def evicted_def)
    qed
  qed
qed

lemma lru_migrated_refines:
  assumes ok: "lru_ok c s" and ob: "ob \<in> on_way (lru_abs s)"
  shows "\<exists>s'. lru_migrated_api ob s = Inr s' \<and> lru_ok c s' \<and> lru_abs s' = spec_migrated ob (lru_abs s)"
proof -
  note D = lru_okD [OF ok]
  obtain e where l: "ht_lookup ob s = Some e" and m: "e_migrating (store s e)"
    using lru_abs_lookup(2) [OF ok] ob by blast
  have e: "e \<in> set (ht s)" "e_oblock (store s e) = ob" using l lookup_Some [OF D(1)] by blast+
  from lru_migrated_ok [OF ok l m] obtain s' where s': "lru_migrated_api ob s = Inr s'"
    "store s' = (store s)(e := (store s e)\<lparr>e_migrating := False\<rparr>)" "ht s' = ht s"
    "lru_q s' = lru_q s @ [e]" "lru_ok c s'" by blast
  have k: "e_oblock (store s' p) = e_oblock (store s p)" for p by (auto simp: s'(2))
  have "{p \<in> set (ht s'). e_migrating (store s' p)} = {p \<in> set (ht s). e_migrating (store s p)} - {e}"
    using s'(2,3) m by auto
  moreover have "key_of (store s) ` ({p \<in> set (ht s). e_migrating (store s p)} - {e}) =
      key_of (store s) ` {p \<in> set (ht s). e_migrating (store s p)} - {ob}"
    using inj_on_image_set_diff [OF lru_keys_inj [OF ok], of "{p \<in> set (ht s). e_migrating (store s p)}" "{e}"] e
    by auto
  ultimately have "lru_abs s' = spec_migrated ob (lru_abs s)"
    unfolding lru_abs_def spec_migrated_def using s'(4) e(2) by (simp add: k)
  then show ?thesis using s'(1,5) by blast
qed

lemma lru_remove_refines:
  assumes ok: "lru_ok c s" and ob: "ob \<in> set (recent (lru_abs s)) \<union> on_way (lru_abs s)"
  shows "\<exists>s'. lru_remove_api ob h s = Inr s' \<and> lru_ok c s' \<and> lru_abs s' = spec_remove ob (lru_abs s)"
proof -
  note D = lru_okD [OF ok]
  obtain e where l: "ht_lookup ob s = Some e" using lru_abs_lookup [OF ok] ob by blast
  have e: "e \<in> set (ht s)" "e_oblock (store s e) = ob" using l lookup_Some [OF D(1)] by blast+
  from lru_remove_ok [OF ok l] obtain s' where s': "lru_remove_api ob h s = Inr s'"
    "store s' = (store s)(e := freed_entry (store s e))" "ht s' = remove1 e (ht s)"
    "lru_q s' = remove1 e (lru_q s)" "lru_ok c s'" by blast
  have k: "e_oblock (store s' p) = e_oblock (store s p)" for p by (auto simp: s'(2))
  have dh: "distinct (ht s)" by (rule cn_facts(1) [OF D(1)])
  then have M: "{p \<in> set (ht s'). e_migrating (store s' p)} = {p \<in> set (ht s). e_migrating (store s p)} - {e}"
    using s'(2,3) by auto
  have way: "key_of (store s) ` ({p \<in> set (ht s). e_migrating (store s p)} - {e}) =
      key_of (store s) ` {p \<in> set (ht s). e_migrating (store s p)} - {ob}"
    using inj_on_image_set_diff [OF lru_keys_inj [OF ok], of "{p \<in> set (ht s). e_migrating (store s p)}" "{e}"] e
    by auto
  have rec: "map (key_of (store s)) (remove1 e (lru_q s)) = remove1 ob (map (key_of (store s)) (lru_q s))"
  proof (cases "e \<in> set (lru_q s)")
    case True
    then show ?thesis using distinct_map_remove1 [OF lru_recent_distinct [OF ok]] e(2) by simp
  next
    case False
    moreover have "ob \<notin> key_of (store s) ` set (lru_q s)"
      using False inj_onD [OF lru_keys_inj [OF ok], of e] e D(6) by auto
    ultimately show ?thesis by (simp add: remove1_idem)
  qed
  have "lru_abs s' = spec_remove ob (lru_abs s)"
    unfolding lru_abs_def spec_remove_def using s'(4) rec way M by (simp add: k)
  then show ?thesis using s'(1,5) by blast
qed

section \<open>The last distinct blocks\<close>

text \<open>
  The blocks of a trace in the order of their last use, and the last \<open>c\<close> of them. The
  library's \<open>remdups\<close> keeps the last occurrence.
\<close>

definition last_distinct :: "nat \<Rightarrow> oblock list \<Rightarrow> oblock list" where
  "last_distinct c tr = (let d = remdups tr in drop (length d - c) d)"

text \<open>One access to a cache in which nothing is migrating.\<close>

definition spec_access :: "nat \<Rightarrow> oblock \<Rightarrow> oblock list \<Rightarrow> oblock list" where
  "spec_access c ob q =
     (if ob \<in> set q then remove1 ob q @ [ob]
      else if length q < c then q @ [ob] else tl q @ [ob])"

lemma remdups_snoc: "remdups (tr @ [ob]) = remove1 ob (remdups tr) @ [ob]"
  by (induction tr) (auto simp: remove1_idem)

lemma last_distinct_snoc:
  assumes c: "1 \<le> c"
  shows "last_distinct c (tr @ [ob]) = spec_access c ob (last_distinct c tr)"
proof -
  define R where "R = remdups tr"
  define A where "A = take (length R - c) R"
  define K where "K = drop (length R - c) R"
  have R: "R = A @ K" "distinct R" by (simp_all add: A_def K_def R_def)
  have lens: "length A = length R - c" "length K = min c (length R)" by (auto simp: A_def K_def)
  have goal: "last_distinct c (tr @ [ob]) = drop (length (remove1 ob R @ [ob]) - c) (remove1 ob R @ [ob])"
    "last_distinct c tr = K"
    by (simp_all add: last_distinct_def remdups_snoc R_def K_def Let_def)
  show ?thesis
  proof (cases "ob \<in> set K")
    case True
    then have "ob \<notin> set A" using R by auto
    then have r: "remove1 ob R = A @ remove1 ob K" by (simp add: R(1) remove1_append)
    have "length K = Suc (length (remove1 ob K))"
      using True length_pos_if_in_set [OF True] by (simp add: length_remove1)
    then have "length (remove1 ob R @ [ob]) - c = length A" using lens by (simp add: r)
    then show ?thesis using True by (simp add: goal r spec_access_def)
  next
    case notK: False
    show ?thesis
    proof (cases "ob \<in> set A")
      case True
      then have r: "remove1 ob R = remove1 ob A @ K" by (simp add: R(1) remove1_append)
      have la: "length A = Suc (length (remove1 ob A))"
        using True length_pos_if_in_set [OF True] by (simp add: length_remove1)
      then have "length K = c" using lens by simp
      then have "length (remove1 ob R @ [ob]) - c = Suc (length (remove1 ob A))" using la c by (simp add: r)
      then show ?thesis using notK c \<open>length K = c\<close> by (simp add: goal r spec_access_def drop_Suc)
    next
      case False
      then have r: "remove1 ob R = R" using notK R(1) by (simp add: remove1_idem)
      show ?thesis
      proof (cases "length K < c")
        case True
        then have "A = []" using lens by auto
        then have RK: "R = K" using R(1) by simp
        have "remove1 ob R @ [ob] = K @ [ob]" using r RK by simp
        then show ?thesis using True notK by (simp add: goal spec_access_def)
      next
        case full: False
        then have "length K = c" "K \<noteq> []" using lens(2) c by auto
        moreover have "length R = length A + length K" using R(1) by simp
        ultimately have "length (R @ [ob]) - c = Suc (length A)" by simp
        then have "drop (length (R @ [ob]) - c) (R @ [ob]) = tl K @ [ob]"
          using \<open>K \<noteq> []\<close> unfolding R(1) by (cases K) simp_all
        then show ?thesis using notK full r by (simp add: goal spec_access_def)
      qed
    qed
  qed
qed

lemma last_distinct_mono: "c \<le> c' \<Longrightarrow> set (last_distinct c tr) \<subseteq> set (last_distinct c' tr)"
  by (simp add: last_distinct_def Let_def set_drop_subset_set_drop diff_le_mono2)

text \<open>The number of accesses of a trace that hit, after a prefix.\<close>

fun lru_hits :: "nat \<Rightarrow> oblock list \<Rightarrow> oblock list \<Rightarrow> nat" where
  "lru_hits c pre [] = 0"
| "lru_hits c pre (ob # tr) =
     (if ob \<in> set (last_distinct c pre) then 1 else 0) + lru_hits c (pre @ [ob]) tr"

lemma lru_hits_mono: "c \<le> c' \<Longrightarrow> lru_hits c pre tr \<le> lru_hits c' pre tr"
proof (induction tr arbitrary: pre)
  case (Cons ob tr)
  then show ?case using last_distinct_mono [OF Cons.prems, of pre] Cons.IH [OF Cons.prems, of "pre @ [ob]"]
    by (auto intro: le_SucI)
qed simp

lemma lru_hits_le: "lru_hits c pre tr \<le> length tr"
  by (induction tr arbitrary: pre) (auto simp: le_SucI)

section \<open>LRU under the simulator\<close>

definition hits :: "sim_stats_struct \<Rightarrow> u32" where
  "hits ss = ss_write_hits ss + ss_read_hits ss"

lemma hits_count [simp]:
  "hits (count_hit w ss) = hits ss + 1" "hits (count_miss w ss) = hits ss"
  "hits (ss\<lparr>ss_dirty_evicts := n\<rparr>) = hits ss"
  by (simp_all add: hits_def count_hit_def count_miss_def)

definition sync_opts :: "sim_options \<Rightarrow> bool" where
  "sync_opts opts \<longleftrightarrow> opt_remove_rate opts = 0 \<and> opt_migration_delay opts = 0 \<and> opt_sampling_rate opts = 1"

text \<open>The state of the simulator between two accesses: the queue is \<open>q\<close>, nothing migrates.\<close>

definition lru_at :: "u32 \<Rightarrow> oblock list \<Rightarrow> lru_policy sim \<Rightarrow> bool" where
  "lru_at c q st \<longleftrightarrow> lru_ok c (sm_policy st) \<and> lru_abs (sm_policy st) = \<lparr>recent = q, on_way = {}\<rparr>"

lemma spec_map_sync:
  assumes "1 \<le> c" "spec_map c ob \<lparr>recent = q, on_way = {}\<rparr> = (op, old, a)"
  shows "(op = CACHE_NUCLEUS_HIT \<and> ob \<in> set q \<and> a = \<lparr>recent = spec_access c ob q, on_way = {}\<rparr>) \<or>
    ((op = CACHE_NUCLEUS_NEW \<or> op = CACHE_NUCLEUS_REPLACE) \<and> ob \<notin> set q \<and> ob \<in> on_way a \<and>
     spec_migrated ob a = \<lparr>recent = spec_access c ob q, on_way = {}\<rparr>)"
  using assms
  by (cases q) (auto simp: spec_map_def spec_access_def spec_migrated_def split: if_splits)

lemma lru_abs_set_time: "lru_abs (default_set_time t s) = lru_abs s"
  by (simp add: lru_abs_def default_set_time_def)

lemma lru_entry_migrating: "e_migrating (fn_entry lru_api s e) = e_migrating (store s e)"
  by (simp add: lru_api_def nucleus_api_def entry.defs)

lemma lru_sim_map:
  assumes st: "lru_at c q st" and c: "2 \<le> c"
  shows "\<exists>r st'. sim_map lru_api ob w zero_result st = Inr (r, st') \<and> lru_ok c (sm_policy st') \<and>
    spec_map (unat c) ob \<lparr>recent = q, on_way = {}\<rparr> = (r_op r, evicted r, lru_abs (sm_policy st')) \<and>
    hits (sm_stats st') = hits (sm_stats st) + (if r_op r = CACHE_NUCLEUS_HIT then 1 else 0)"
proof -
  let ?s = "sm_policy st"
  have ok: "lru_ok c ?s" and a: "lru_abs ?s = \<lparr>recent = q, on_way = {}\<rparr>" using st by (simp_all add: lru_at_def)
  from lru_map_refines [OF ok, of ob w zero_result] obtain r s' where
    m: "lru_map_api ob w zero_result ?s = Inr (0, r, s')" "lru_ok c s'"
    "(r_op r, evicted r, lru_abs s') = spec_map (unat c) ob (lru_abs ?s)" by blast
  have nm: "\<not> (case policy_cache_lookup lru_api ob ?s of None \<Rightarrow> False
      | Some e \<Rightarrow> e_migrating (fn_entry lru_api ?s e))"
  proof (cases "ht_lookup ob ?s")
    case None
    then show ?thesis by (simp add: lru_calls default_cache_lookup_def in_cache_def)
  next
    case (Some e)
    then have "\<not> e_migrating (store ?s e)" using lru_abs_lookup(2) [OF ok, of ob] a by simp
    then show ?thesis using Some by (simp add: lru_calls default_cache_lookup_def lru_entry_migrating Let_def)
  qed
  define st' where "st' = st\<lparr>sm_policy := s', sm_stats :=
    (let ss = (if r_op r = CACHE_NUCLEUS_HIT then count_hit w (sm_stats st) else count_miss w (sm_stats st))
     in if r_dirty_eviction r then ss\<lparr>ss_dirty_evicts := ss_dirty_evicts ss + 1\<rparr> else ss)\<rparr>"
  have "sim_map lru_api ob w zero_result st = Inr (r, st')"
    unfolding st'_def by (rule sim_map_policy [OF nm]) (simp add: lru_calls m(1))
  moreover have "hits (sm_stats st') = hits (sm_stats st) + (if r_op r = CACHE_NUCLEUS_HIT then 1 else 0)"
    by (simp add: st'_def Let_def)
  moreover have "sm_policy st' = s'" by (simp add: st'_def)
  ultimately show ?thesis using m(2,3) a by (intro exI [of _ r] exI [of _ st']) simp
qed

lemma lru_serve:
  assumes opts: "sync_opts opts" and st: "lru_at c q st" and c: "2 \<le> c"
  shows "\<exists>st'. sim_serve lru_api rnd opts time ob w st = Inr st' \<and>
    lru_at c (spec_access (unat c) ob q) st' \<and>
    hits (sm_stats st') = hits (sm_stats st) + (if ob \<in> set q then 1 else 0)"
proof -
  let ?st = "st\<lparr>sm_policy := policy_set_time lru_api time (sm_policy st)\<rparr>"
  have "lru_at c q ?st"
    using st lru_set_time [of c "sm_policy st" time] by (simp add: lru_at_def lru_calls lru_abs_set_time)
  from lru_sim_map [OF this c, of ob w] obtain r st1 where
    1: "sim_map lru_api ob w zero_result ?st = Inr (r, st1)" "lru_ok c (sm_policy st1)"
    "spec_map (unat c) ob \<lparr>recent = q, on_way = {}\<rparr> = (r_op r, evicted r, lru_abs (sm_policy st1))"
    "hits (sm_stats st1) = hits (sm_stats st) + (if r_op r = CACHE_NUCLEUS_HIT then 1 else 0)" by auto
  have "1 \<le> unat c" using c by (simp add: word_le_nat_alt)
  note sp = spec_map_sync [OF this 1(3)]
  have rem: "sim_removal lru_api rnd opts time ob st2 = Inr st2" for st2
    using opts by (simp add: sim_removal_def remove_now_def sync_opts_def)
  have del: "opt_migration_delay opts = 0" using opts by (simp add: sync_opts_def)
  show ?thesis
  proof (cases "ob \<in> set q")
    case True
    then have h: "r_op r = CACHE_NUCLEUS_HIT" "lru_abs (sm_policy st1) = \<lparr>recent = spec_access (unat c) ob q, on_way = {}\<rparr>"
      using sp by auto
    then have "sim_migrate lru_api opts time ob r st1 = Inr st1"
      by (simp add: sim_migrate_def del entered_def)
    then show ?thesis using 1 h True rem by (simp add: sim_serve_def lru_at_def)
  next
    case False
    then have e: "entered r" "r_op r \<noteq> CACHE_NUCLEUS_HIT" "ob \<in> on_way (lru_abs (sm_policy st1))"
      "spec_migrated ob (lru_abs (sm_policy st1)) = \<lparr>recent = spec_access (unat c) ob q, on_way = {}\<rparr>"
      using sp by (auto simp: entered_def)
    from lru_migrated_refines [OF 1(2) e(3)] obtain s2 where
      s2: "lru_migrated_api ob (sm_policy st1) = Inr s2" "lru_ok c s2"
      "lru_abs s2 = spec_migrated ob (lru_abs (sm_policy st1))" by blast
    then have "sim_migrate lru_api opts time ob r st1 = Inr (st1\<lparr>sm_policy := s2\<rparr>)"
      by (simp add: sim_migrate_def del e(1) lru_calls)
    then show ?thesis using 1 s2 e False rem by (simp add: sim_serve_def lru_at_def)
  qed
qed

lemma lru_run:
  assumes opts: "sync_opts opts" and c: "2 \<le> c"
  shows "lru_at c (last_distinct (unat c) pre) st \<Longrightarrow>
    \<exists>st'. sim_run lru_api rnd opts time tr st = Inr st' \<and>
      lru_at c (last_distinct (unat c) (pre @ map fst tr)) st' \<and>
      hits (sm_stats st') = hits (sm_stats st) + of_nat (lru_hits (unat c) pre (map fst tr))"
proof (induction tr arbitrary: pre st time)
  case Nil
  have "sim_run lru_api rnd opts time [] st = Inr st"
    using opts by (subst sim_run.simps) (simp add: sim_access_def sim_read_def sync_opts_def)
  then show ?case using Nil by simp
next
  case (Cons x tr)
  obtain ob w where x: "x = (ob, w)" by (cases x)
  have c1: "1 \<le> unat c" using c by (simp add: word_le_nat_alt)
  from lru_serve [OF opts Cons.prems c, of rnd time ob w] obtain st1 where
    1: "sim_serve lru_api rnd opts time ob w st = Inr st1"
    "lru_at c (last_distinct (unat c) (pre @ [ob])) st1"
    "hits (sm_stats st1) = hits (sm_stats st) + (if ob \<in> set (last_distinct (unat c) pre) then 1 else 0)"
    unfolding last_distinct_snoc [OF c1] by blast
  from Cons.IH [OF 1(2), of "time + 1"] obtain st' where
    2: "sim_run lru_api rnd opts (time + 1) tr st1 = Inr st'"
    "lru_at c (last_distinct (unat c) ((pre @ [ob]) @ map fst tr)) st'"
    "hits (sm_stats st') = hits (sm_stats st1) + of_nat (lru_hits (unat c) (pre @ [ob]) (map fst tr))" by blast
  have "sim_run lru_api rnd opts time (x # tr) st = Inr st'"
    using opts 1(1) 2(1) by (subst sim_run.simps)
      (simp add: sim_access_def sim_read_def sync_opts_def x)
  then show ?case using 1 2 x by (simp add: add.assoc)
qed

lemma lru_from_create:
  assumes opts: "sync_opts opts" and c: "2 \<le> c"
  shows "\<exists>s st st'. lru_create c msize = Inr s \<and> sim_prep opts s = Inr st \<and>
    sim_run lru_api rnd opts 1 tr st = Inr st' \<and>
    lru_at c (last_distinct (unat c) (map fst tr)) st' \<and>
    hits (sm_stats st') = of_nat (lru_hits (unat c) [] (map fst tr))"
proof -
  obtain s where s: "lru_create c msize = Inr s" "lru_ok c s" "lru_q s = []" "ht s = []"
    using lru_create_ok [OF c, of msize] by blast
  define st where "st = \<lparr>sm_policy = s, sm_stats = zero_stats,
    sm_tracker = zero_tracker\<lparr>mt_delay := 0\<rparr>, sm_random = 0\<rparr>"
  have "sim_prep opts s = Inr st" using opts by (simp add: sim_prep_def sync_opts_def st_def)
  moreover have "lru_at c (last_distinct (unat c) []) st"
    using s by (simp add: lru_at_def st_def lru_abs_def last_distinct_def)
  from lru_run [OF opts c this, of rnd 1 tr] obtain st' where
    "sim_run lru_api rnd opts 1 tr st = Inr st'"
    "lru_at c (last_distinct (unat c) (map fst tr)) st'"
    "hits (sm_stats st') = hits (sm_stats st) + of_nat (lru_hits (unat c) [] (map fst tr))" by auto
  moreover have "hits (sm_stats st) = 0" by (simp add: st_def zero_stats_def hits_def)
  ultimately show ?thesis using s(1) by auto
qed

end
