(* ===== verification/Fomo.thy ===== *)
theory Fomo
  imports Policy
begin

text \<open>
  FOMO (\<open>src/src/fomo/fomo_policy.c\<close>, \<open>fomo_policy_struct.h\<close>): an admission policy in front of any
  other policy. It keeps a miss history, a queue of blocks without data, and switches at
  the end of every period between inserting every miss and filtering the misses that are
  not in the history. The theory has its transactions and API functions, its invariant,
  the decision rule over exact counts, and the proof that FOMO over a policy that keeps
  the contract \<open>cache_policy\<close> keeps it too.
\<close>

declare split_paired_All [simp del] split_paired_Ex [simp del]

section \<open>The policy\<close>

datatype fomo_state = FOMO_FILTER | FOMO_INSERT

lemma not_insert [simp]: "st \<noteq> FOMO_INSERT \<longleftrightarrow> st = FOMO_FILTER"
  by (cases st) simp_all

text \<open>\<open>fomo_entry\<close> adds to \<open>entry\<close> only the queue node. \<open>'s\<close> is the internal policy.\<close>

record 's fomo_policy = "unit cache_nucleus" +
  fomo_mh :: "eptr list"
  fo_ghost_size :: cblock
  fo_internal :: 's
  fo_state :: fomo_state
  fo_counter :: cblock
  fo_period_size :: cblock
  fo_c_hits :: u64
  fo_mh_hits :: u64
  fo_mh_hits_total :: u32

record fomo_transaction =
  ft_oblock :: oblock
  ft_filter :: bool
  ft_state :: fomo_state
  ft_c_hit :: bool
  ft_mh_hit :: bool
  ft_c_hits :: u64
  ft_mh_hits :: u64
  ft_mh_hits_total :: u32
  ft_counter :: u32

definition fomo_remove_entry :: "eptr \<Rightarrow> 's fomo_policy \<Rightarrow> 's fomo_policy res" where
  "fomo_remove_entry e s = cache_nucleus_remove e (s\<lparr>fomo_mh := q_remove e (fomo_mh s)\<rparr>)"

definition fomo_remove ::
  "'s policy_api \<Rightarrow> oblock \<Rightarrow> bool \<Rightarrow> 's fomo_policy \<Rightarrow> 's fomo_policy res" where
  "fomo_remove P ob remove_to_history s =
     rbind (case ht_lookup ob s of
              None \<Rightarrow> Inr s
            | Some e \<Rightarrow> if \<not> remove_to_history then fomo_remove_entry e s else Inr s) (\<lambda>s.
     rbind (policy_remove P ob remove_to_history (fo_internal s)) (\<lambda>i.
     Inr (s\<lparr>fo_internal := i\<rparr>)))"

definition fomo_transaction_init :: "'s fomo_policy \<Rightarrow> oblock \<Rightarrow> fomo_transaction" where
  "fomo_transaction_init s ob =
     \<lparr>ft_oblock = ob, ft_filter = True, ft_state = fo_state s, ft_c_hit = False,
      ft_mh_hit = False, ft_c_hits = fo_c_hits s, ft_mh_hits = fo_mh_hits s,
      ft_mh_hits_total = fo_mh_hits_total s, ft_counter = fo_counter s\<rparr>"

text \<open>\<open>fomo_transaction_set\<close> up to the counter of the period.\<close>

definition fomo_count_access ::
  "'s policy_api \<Rightarrow> 's fomo_policy \<Rightarrow> fomo_transaction \<Rightarrow> fomo_transaction" where
  "fomo_count_access P s ft =
     (let ft = ft\<lparr>ft_c_hit := policy_cache_lookup P (ft_oblock ft) (fo_internal s) \<noteq> None,
                  ft_mh_hit := ht_lookup (ft_oblock ft) s \<noteq> None\<rparr>;
          ft = (if ft_c_hit ft then ft\<lparr>ft_c_hits := ft_c_hits ft + 1000, ft_filter := False\<rparr> else ft);
          ft = (if ft_mh_hit ft
                then ft\<lparr>ft_mh_hits := ft_mh_hits ft + 1000, ft_filter := False,
                        ft_mh_hits_total := ft_mh_hits_total ft + 1\<rparr> else ft)
      in ft\<lparr>ft_counter := ft_counter ft + 1\<rparr>)"

text \<open>
  The end of a period. \<open>50 * period_size\<close> is computed in 32 bits. The test of fullness is the
  one on the internal policy's own pool, not the function pointer.
\<close>

definition fomo_end_period ::
  "'s policy_api \<Rightarrow> 's fomo_policy \<Rightarrow> fomo_transaction \<Rightarrow> fomo_transaction" where
  "fomo_end_period P s ft =
     (let ft = (if fn_pool_full P (fo_internal s) then
                  if ft_state ft = FOMO_FILTER \<and>
                     ft_mh_hits ft > ucast (50 * fo_period_size s) \<and>
                     ft_c_hits ft < ft_mh_hits ft
                  then ft\<lparr>ft_state := FOMO_INSERT\<rparr>
                  else if ft_state ft = FOMO_INSERT \<and> ft_c_hits ft \<ge> ft_mh_hits ft
                  then ft\<lparr>ft_state := FOMO_FILTER\<rparr>
                  else ft
                else ft)
      in ft\<lparr>ft_c_hits := 0, ft_mh_hits := 0, ft_counter := 0\<rparr>)"

definition fomo_transaction_set ::
  "'s policy_api \<Rightarrow> 's fomo_policy \<Rightarrow> fomo_transaction \<Rightarrow> fomo_transaction res" where
  "fomo_transaction_set P s ft =
     (let ft = fomo_count_access P s ft in
      rbind (umod (ft_counter ft) (fo_period_size s)) (\<lambda>rest.
      let ft = (if rest = 0 then fomo_end_period P s ft else ft) in
      Inr (if ft_state ft = FOMO_INSERT then ft\<lparr>ft_filter := False\<rparr>
           else ft\<lparr>ft_filter := ft_filter ft \<and> True\<rparr>)))"

definition fomo_transaction_is_legal ::
  "'s policy_api \<Rightarrow> 's fomo_policy \<Rightarrow> fomo_transaction \<Rightarrow> bool res" where
  "fomo_transaction_is_legal P s ft =
     (if \<not> ft_filter ft then
        rbind (policy_next_victim P (ft_oblock ft) (fo_internal s)) (\<lambda>(op, _).
        Inr (op \<noteq> CACHE_NUCLEUS_FAIL))
      else Inr True)"

text \<open>The first half of \<open>fomo_transaction_commit\<close>: the counters and the miss history.\<close>

definition fomo_commit_history :: "fomo_transaction \<Rightarrow> 's fomo_policy \<Rightarrow> 's fomo_policy res" where
  "fomo_commit_history ft s =
     (let s = s\<lparr>fo_counter := ft_counter ft, fo_c_hits := ft_c_hits ft, fo_mh_hits := ft_mh_hits ft,
                fo_state := ft_state ft, fo_mh_hits_total := ft_mh_hits_total ft\<rparr> in
      if ft_c_hit ft then
        if ft_mh_hit ft then
          rbind (deref (ht_lookup (ft_oblock ft) s)) (\<lambda>e. fomo_remove_entry e s)
        else Inr s
      else if ft_mh_hit ft then
        rbind (deref (ht_lookup (ft_oblock ft) s)) (\<lambda>e.
        if fo_state s = FOMO_FILTER then fomo_remove_entry e s
        else
          rbind (q_push [] (q_remove e (fomo_mh s)) e) (\<lambda>q. Inr (s\<lparr>fomo_mh := q\<rparr>)))
      else
        rbind (if q_length (fomo_mh s) = fo_ghost_size s
               then rbind (deref (q_peek (fomo_mh s))) (\<lambda>lru. fomo_remove_entry lru s)
               else Inr s) (\<lambda>s.
        rbind (insert_in_meta (ft_oblock ft) s) (\<lambda>(e, s).
        rbind (q_push [] (fomo_mh s) e) (\<lambda>q. Inr (s\<lparr>fomo_mh := q\<rparr>)))))"

text \<open>The internal policy is always told that the access is a read.\<close>

definition fomo_transaction_commit ::
  "'s policy_api \<Rightarrow> fomo_transaction \<Rightarrow> cn_result \<Rightarrow> 's fomo_policy \<Rightarrow> (cn_result \<times> 's fomo_policy) res" where
  "fomo_transaction_commit P ft result s =
     rbind (fomo_commit_history ft s) (\<lambda>s.
     if ft_filter ft then
       Inr (result\<lparr>r_op := CACHE_NUCLEUS_FILTER\<rparr>, upd_stats inc_filters s)
     else
       rbind (policy_map P (ft_oblock ft) False result (fo_internal s)) (\<lambda>(rc, result, i).
       Inr (result, s\<lparr>fo_internal := i\<rparr>)))"

definition fomo_map ::
  "'s policy_api \<Rightarrow> oblock \<Rightarrow> bool \<Rightarrow> cn_result \<Rightarrow> 's fomo_policy \<Rightarrow> (int \<times> cn_result \<times> 's fomo_policy) res" where
  "fomo_map P ob w result s =
     (let result = result\<lparr>r_op := CACHE_NUCLEUS_FAIL\<rparr> in
      rbind (fomo_transaction_set P s (fomo_transaction_init s ob)) (\<lambda>ft.
      rbind (fomo_transaction_is_legal P s ft) (\<lambda>legal.
      if legal then
        rbind (fomo_transaction_commit P ft result s) (\<lambda>(result, s). Inr (0, result, s))
      else Inr (0, result\<lparr>r_op := CACHE_NUCLEUS_FAIL\<rparr>, s))))"

definition fomo_insert :: "'s policy_api \<Rightarrow> oblock \<Rightarrow> cblock \<Rightarrow> 's fomo_policy \<Rightarrow> 's fomo_policy res" where
  "fomo_insert P ob cb s =
     rbind (policy_insert P ob cb (fo_internal s)) (\<lambda>i. Inr (s\<lparr>fo_internal := i\<rparr>))"

definition fomo_migrated :: "'s policy_api \<Rightarrow> oblock \<Rightarrow> 's fomo_policy \<Rightarrow> 's fomo_policy res" where
  "fomo_migrated P ob s =
     rbind (policy_migrated P ob (fo_internal s)) (\<lambda>i. Inr (s\<lparr>fo_internal := i\<rparr>))"

definition fomo_cache_lookup :: "'s policy_api \<Rightarrow> oblock \<Rightarrow> 's fomo_policy \<Rightarrow> eptr option" where
  "fomo_cache_lookup P ob s = policy_cache_lookup P ob (fo_internal s)"

definition fomo_meta_lookup :: "'s policy_api \<Rightarrow> oblock \<Rightarrow> 's fomo_policy \<Rightarrow> eptr option" where
  "fomo_meta_lookup P ob s = policy_meta_lookup P ob (fo_internal s)"

definition fomo_cblock_lookup :: "'s policy_api \<Rightarrow> cblock \<Rightarrow> 's fomo_policy \<Rightarrow> eptr option" where
  "fomo_cblock_lookup P cb s = policy_cblock_lookup P cb (fo_internal s)"

definition fomo_remap :: "'s policy_api \<Rightarrow> oblock \<Rightarrow> oblock \<Rightarrow> 's fomo_policy \<Rightarrow> 's fomo_policy res" where
  "fomo_remap P current new s =
     rbind (case ht_lookup new s of None \<Rightarrow> Inr s | Some e \<Rightarrow> fomo_remove_entry e s) (\<lambda>s.
     rbind (case ht_lookup current s of
              None \<Rightarrow> Inr s
            | Some e \<Rightarrow>
                rbind (ht_remove e s) (\<lambda>s.
                ht_insert e (upd_entry e (\<lambda>x. x\<lparr>e_oblock := new\<rparr>) s))) (\<lambda>s.
     rbind (policy_remap P current new (fo_internal s)) (\<lambda>i. Inr (s\<lparr>fo_internal := i\<rparr>))))"

definition fomo_get_stats :: "'s policy_api \<Rightarrow> 's fomo_policy \<Rightarrow> policy_stats \<Rightarrow> policy_stats" where
  "fomo_get_stats P s st =
     (let st = policy_get_stats P (fo_internal s) st in
      st\<lparr>st_filters := st_filters st + st_filters (stats s)\<rparr>)"

definition fomo_set_time :: "'s policy_api \<Rightarrow> u32 \<Rightarrow> 's fomo_policy \<Rightarrow> 's fomo_policy" where
  "fomo_set_time P time s =
     s\<lparr>cn_time := time, fo_internal := policy_set_time P time (fo_internal s)\<rparr>"

definition fomo_residency :: "'s policy_api \<Rightarrow> 's fomo_policy \<Rightarrow> cblock" where
  "fomo_residency P s = policy_residency P (fo_internal s)"

definition fomo_cache_is_full :: "'s policy_api \<Rightarrow> 's fomo_policy \<Rightarrow> bool" where
  "fomo_cache_is_full P s = policy_cache_is_full P (fo_internal s)"

definition fomo_infer_cblock :: "'s policy_api \<Rightarrow> 's fomo_policy \<Rightarrow> eptr \<Rightarrow> cblock res" where
  "fomo_infer_cblock P s e = policy_infer_cblock P (fo_internal s) e"

definition fomo_next_victim ::
  "'s policy_api \<Rightarrow> oblock \<Rightarrow> 's fomo_policy \<Rightarrow> (cache_nucleus_operation \<times> eptr option) res" where
  "fomo_next_victim P ob s =
     rbind (fomo_transaction_set P s (fomo_transaction_init s ob)) (\<lambda>ft.
     rbind (fomo_transaction_is_legal P s ft) (\<lambda>legal.
     if legal then
       if ft_filter ft then Inr (CACHE_NUCLEUS_FILTER, None)
       else policy_next_victim P ob (fo_internal s)
     else Inr (CACHE_NUCLEUS_FAIL, None)))"

definition fomo_api :: "'s policy_api \<Rightarrow> 's fomo_policy policy_api" where
  "fomo_api P =
     \<lparr>fn_map = fomo_map P, fn_remove = fomo_remove P, fn_insert = fomo_insert P,
      fn_migrated = fomo_migrated P, fn_cache_lookup = fomo_cache_lookup P,
      fn_meta_lookup = fomo_meta_lookup P, fn_cblock_lookup = fomo_cblock_lookup P,
      fn_remap = fomo_remap P, fn_get_stats = fomo_get_stats P, fn_set_time = fomo_set_time P,
      fn_residency = fomo_residency P, fn_cache_is_full = fomo_cache_is_full P,
      fn_infer_cblock = fomo_infer_cblock P, fn_next_victim = fomo_next_victim P,
      fn_entry = (\<lambda>s e. fn_entry P (fo_internal s) e), fn_pool_full = cache_is_full,
      fn_cache_size = cache_size\<rparr>"

text \<open>
  \<open>fomo_init\<close> and \<open>fomo_create\<close>. The cache pool of FOMO's own nucleus stays zeroed memory.
  The period is at least one access, so the remainder is defined.
\<close>

definition zero_fomo :: "'s \<Rightarrow> 's fomo_policy" where
  "zero_fomo i = \<lparr>store = (\<lambda>_. \<lparr>e_oblock = 0, e_time = 0, e_dirty = False, e_allocated = False,
       e_migrating = False\<rparr>), wb = (\<lambda>_. []),
     thread_support = CACHE_NUCLEUS_SINGLE_THREAD, meta_size = 0, cache_size = 0,
     meta_pool = epool_create MetaRegion 0, cache_pool = epool_create CacheRegion 0,
     stats = stats_init, ht = [], cn_time = 0, fomo_mh = [], fo_ghost_size = 0, fo_internal = i,
     fo_state = FOMO_FILTER, fo_counter = 0, fo_period_size = 0, fo_c_hits = 0, fo_mh_hits = 0,
     fo_mh_hits_total = 0\<rparr>"

definition fomo_init :: "cblock \<Rightarrow> 's \<Rightarrow> 's fomo_policy \<Rightarrow> 's fomo_policy res" where
  "fomo_init csize internal s =
     policy_init 0 csize CACHE_NUCLEUS_SINGLE_THREAD
       (s\<lparr>fo_internal := internal, fo_state := FOMO_INSERT, fomo_mh := [], fo_ghost_size := csize,
          fo_period_size := max_u (csize div 100) 1, fo_counter := 0, fo_c_hits := 0,
          fo_mh_hits := 0, fo_mh_hits_total := 0, meta_pool := epool_create MetaRegion csize\<rparr>)"

definition fomo_create ::
  "cblock \<Rightarrow> cblock \<Rightarrow> (cblock \<Rightarrow> cblock \<Rightarrow> 's res) \<Rightarrow> 's fomo_policy res" where
  "fomo_create csize msize policy_create =
     rbind (policy_create csize msize) (\<lambda>internal.
     fomo_init csize internal (zero_fomo internal))"

section \<open>The invariant\<close>

text \<open>
  The history is the queue of the entries of FOMO's nucleus. The hit counters count in
  thousandths; within a period they cannot wrap.
\<close>

definition fomo_counts_ok :: "'s fomo_policy \<Rightarrow> bool" where
  "fomo_counts_ok s \<longleftrightarrow> 1 \<le> unat (fo_period_size s) \<and> unat (fo_period_size s) \<le> 2 ^ 26 \<and>
     unat (fo_counter s) < unat (fo_period_size s) \<and>
     1000 dvd unat (fo_c_hits s) \<and> unat (fo_c_hits s) \<le> 1000 * unat (fo_counter s) \<and>
     1000 dvd unat (fo_mh_hits s) \<and> unat (fo_mh_hits s) \<le> 1000 * unat (fo_counter s)"

definition fomo_ok :: "('s \<Rightarrow> bool) \<Rightarrow> 's fomo_policy \<Rightarrow> bool" where
  "fomo_ok I s \<longleftrightarrow> cn_ok s \<and> I (fo_internal s) \<and> ep_nr_entries (cache_pool s) = 0 \<and>
     ep_nr_entries (meta_pool s) = fo_ghost_size s \<and> 1 \<le> fo_ghost_size s \<and>
     distinct (fomo_mh s) \<and> set (fomo_mh s) = set (ht s) \<and> fomo_counts_ok s"

lemma fomo_okD:
  assumes "fomo_ok I s"
  shows "cn_ok s" "I (fo_internal s)" "ep_nr_entries (cache_pool s) = 0"
    "ep_nr_entries (meta_pool s) = fo_ghost_size s" "1 \<le> fo_ghost_size s" "distinct (fomo_mh s)"
    "set (fomo_mh s) = set (ht s)" "fomo_counts_ok s"
  using assms by (simp_all add: fomo_ok_def)

lemma no_cached:
  assumes "cn_ok s" "ep_nr_entries (cache_pool s) = 0"
  shows "set (ht s) = metas (ht s)"
proof -
  have c: "cached (ht s) = {}" using card_cached_le [OF assms(1)] assms(2) by simp
  have "e \<in> set (ht s) \<Longrightarrow> e \<in> cached (ht s) \<or> e \<in> metas (ht s)" for e
    by (cases "fst e") (auto simp: cached_def metas_def)
  then show ?thesis using c by (auto simp: metas_def)
qed

lemma fomo_mh_card:
  assumes "fomo_ok I s"
  shows "length (fomo_mh s) = card (metas (ht s))"
  using distinct_card [OF fomo_okD(6) [OF assms]] fomo_okD(7) [OF assms]
    no_cached [OF fomo_okD(1,3) [OF assms]] by simp

text \<open>The history is never longer than the ghost size.\<close>

lemma fomo_mh_length: "fomo_ok I s \<Longrightarrow> length (fomo_mh s) \<le> unat (fo_ghost_size s)"
  using fomo_mh_card [of I s] card_metas_le [OF fomo_okD(1), of I s] fomo_okD(4) [of I s] by simp

lemma fomo_mh_full: "fomo_ok I s \<Longrightarrow> q_length (fomo_mh s) = fo_ghost_size s \<longleftrightarrow> meta_is_full s"
proof -
  assume ok: "fomo_ok I s"
  have l: "length (fomo_mh s) < 2 ^ 32"
    using fomo_mh_length [OF ok] unat_less_exp [of "fo_ghost_size s"] by simp
  then have "q_length (fomo_mh s) = fo_ghost_size s \<longleftrightarrow> length (fomo_mh s) = unat (fo_ghost_size s)"
    using unat_of_nat_small [of "length (fomo_mh s)", where 'a = 32]
    by (simp add: q_length_def word_unat_eq_iff)
  then show ?thesis
    using meta_is_full_iff [OF fomo_okD(1) [OF ok]] fomo_mh_card [OF ok] fomo_okD(4) [OF ok] by simp
qed

section \<open>The decision rule\<close>

text \<open>
  The rule in exact numbers: \<open>c\<close> hits in the cache and \<open>m\<close> hits in the miss history in a period
  of \<open>p\<close> accesses. FOMO starts to insert when more than 5 percent of the accesses hit the
  history and the cache has fewer hits than the history; it stops when the cache has at
  least as many. Nothing changes before the cache is full.
\<close>

definition fomo_decide :: "bool \<Rightarrow> fomo_state \<Rightarrow> nat \<Rightarrow> nat \<Rightarrow> nat \<Rightarrow> fomo_state" where
  "fomo_decide full st p c m =
     (if full \<and> st = FOMO_FILTER \<and> p < 20 * m \<and> c < m then FOMO_INSERT
      else if full \<and> st = FOMO_INSERT \<and> m \<le> c then FOMO_FILTER
      else st)"

definition c_count :: "'s fomo_policy \<Rightarrow> nat" where "c_count s = unat (fo_c_hits s) div 1000"
definition mh_count :: "'s fomo_policy \<Rightarrow> nat" where "mh_count s = unat (fo_mh_hits s) div 1000"

lemma fomo_set_ok:
  fixes s :: "'s fomo_policy" and P :: "'s policy_api" and ob :: oblock
  assumes cnt: "fomo_counts_ok s"
  defines "ch \<equiv> policy_cache_lookup P ob (fo_internal s) \<noteq> None"
    and "mh \<equiv> ht_lookup ob s \<noteq> None" and "p \<equiv> unat (fo_period_size s)"
  defines "c \<equiv> c_count s + (if ch then 1 else 0)" and "m \<equiv> mh_count s + (if mh then 1 else 0)"
  shows "\<exists>ft. fomo_transaction_set P s (fomo_transaction_init s ob) = Inr ft \<and> ft_oblock ft = ob \<and>
    ft_c_hit ft = ch \<and> ft_mh_hit ft = mh \<and>
    (if Suc (unat (fo_counter s)) = p
     then ft_state ft = fomo_decide (fn_pool_full P (fo_internal s)) (fo_state s) p c m \<and>
       ft_c_hits ft = 0 \<and> ft_mh_hits ft = 0 \<and> ft_counter ft = 0
     else ft_state ft = fo_state s \<and> unat (ft_c_hits ft) = 1000 * c \<and>
       unat (ft_mh_hits ft) = 1000 * m \<and> unat (ft_counter ft) = Suc (unat (fo_counter s))) \<and>
    (ft_filter ft \<longleftrightarrow> \<not> ch \<and> \<not> mh \<and> ft_state ft = FOMO_FILTER)"
proof -
  have p: "1 \<le> p" "p \<le> 2 ^ 26" and n: "unat (fo_counter s) < p"
    and ch0: "unat (fo_c_hits s) = 1000 * c_count s" "c_count s \<le> unat (fo_counter s)"
    and mh0: "unat (fo_mh_hits s) = 1000 * mh_count s" "mh_count s \<le> unat (fo_counter s)"
    using cnt by (auto simp: fomo_counts_ok_def p_def c_count_def mh_count_def)
  define n' where "n' = fo_counter s + 1"
  define c' where "c' = (if ch then fo_c_hits s + 1000 else fo_c_hits s)"
  define m' where "m' = (if mh then fo_mh_hits s + 1000 else fo_mh_hits s)"
  define t' where "t' = (if mh then fo_mh_hits_total s + 1 else fo_mh_hits_total s)"
  have un: "unat n' = Suc (unat (fo_counter s))"
    using n p unfolding n'_def by (subst unat_add_small) simp_all
  have uc: "unat c' = 1000 * c" and um: "unat m' = 1000 * m"
    using ch0 mh0 n p unfolding c'_def m'_def c_def m_def by (auto simp: unat_add_small)
  have per: "fo_period_size s \<noteq> 0" using p by (auto simp: p_def)
  have rest: "n' mod fo_period_size s = 0 \<longleftrightarrow> Suc (unat (fo_counter s)) = p"
  proof -
    have "n' mod fo_period_size s = 0 \<longleftrightarrow> unat n' mod p = 0"
      by (simp add: word_unat_eq_iff unat_mod p_def)
    also have "\<dots> \<longleftrightarrow> Suc (unat (fo_counter s)) = p"
      using n un by (cases "Suc (unat (fo_counter s)) = p") auto
    finally show ?thesis .
  qed
  have "unat (50 * fo_period_size s) = 50 * p"
    using p unfolding p_def by (subst unat_mult_small) simp_all
  then have thr: "ucast (50 * fo_period_size s) < m' \<longleftrightarrow> p < 20 * m"
    using um by (auto simp: word_less_nat_alt unat_ucast_up)
  have cm: "c' < m' \<longleftrightarrow> c < m" "m' \<le> c' \<longleftrightarrow> m \<le> c"
    using uc um by (simp_all add: word_less_nat_alt word_le_nat_alt)
  define st' where "st' = (if Suc (unat (fo_counter s)) = p
     then fomo_decide (fn_pool_full P (fo_internal s)) (fo_state s) p c m else fo_state s)"
  define last where "last \<longleftrightarrow> Suc (unat (fo_counter s)) = p"
  define f1 where "f1 = \<lparr>ft_oblock = ob, ft_filter = (\<not> ch \<and> \<not> mh), ft_state = fo_state s,
      ft_c_hit = ch, ft_mh_hit = mh, ft_c_hits = c', ft_mh_hits = m', ft_mh_hits_total = t',
      ft_counter = n'\<rparr>"
  define f2 where "f2 = (if last then \<lparr>ft_oblock = ob, ft_filter = (\<not> ch \<and> \<not> mh), ft_state = st',
      ft_c_hit = ch, ft_mh_hit = mh, ft_c_hits = 0, ft_mh_hits = 0, ft_mh_hits_total = t',
      ft_counter = 0\<rparr> else f1)"
  define ft where "ft = (if ft_state f2 = FOMO_INSERT then f2\<lparr>ft_filter := False\<rparr> else f2)"
  have 1: "fomo_count_access P s (fomo_transaction_init s ob) = f1"
    unfolding fomo_count_access_def fomo_transaction_init_def Let_def f1_def
    by (auto simp: ch_def mh_def n'_def c'_def m'_def t'_def)
  have "last \<Longrightarrow> fomo_end_period P s f1 = f2"
    unfolding fomo_end_period_def Let_def f2_def
    by (cases "fo_state s") (simp_all add: f1_def st'_def last_def fomo_decide_def thr cm not_less)
  then have 2: "(if n' mod fo_period_size s = 0 then fomo_end_period P s f1 else f1) = f2"
    using rest by (simp add: f2_def last_def)
  have u: "umod (ft_counter f1) (fo_period_size s) = Inr (n' mod fo_period_size s)"
    using per by (simp add: umod_def f1_def)
  have "fomo_transaction_set P s (fomo_transaction_init s ob) = Inr ft"
    unfolding fomo_transaction_set_def Let_def 1 u rbind.simps 2 ft_def by simp
  then show ?thesis
    by (intro exI [of _ ft]) (auto simp: ft_def f2_def f1_def last_def st'_def uc um un split: if_splits)
qed

section \<open>The miss history\<close>

definition history :: "'s fomo_policy \<Rightarrow> oblock list" where
  "history s = map (key_of (store s)) (fomo_mh s)"

text \<open>
  What an access does to the history, oldest block first: a hit in the cache takes the
  block out of it; a hit in the history alone takes it out while filtering and renews it
  while inserting; a miss enters it, at the cost of the oldest block if it is full.
\<close>

definition history_step ::
  "nat \<Rightarrow> bool \<Rightarrow> bool \<Rightarrow> fomo_state \<Rightarrow> oblock \<Rightarrow> oblock list \<Rightarrow> oblock list" where
  "history_step ghost c_hit mh_hit st ob h =
     (if c_hit then (if mh_hit then remove1 ob h else h)
      else if mh_hit then (if st = FOMO_FILTER then remove1 ob h else remove1 ob h @ [ob])
      else (if length h = ghost then tl h else h) @ [ob])"

definition with_counts :: "fomo_transaction \<Rightarrow> 's fomo_policy \<Rightarrow> 's fomo_policy" where
  "with_counts ft s = s\<lparr>fo_counter := ft_counter ft, fo_c_hits := ft_c_hits ft,
     fo_mh_hits := ft_mh_hits ft, fo_state := ft_state ft, fo_mh_hits_total := ft_mh_hits_total ft\<rparr>"

lemma fomo_ok_cong:
  assumes "fomo_ok I s" "cn_ok s'" "fo_internal s' = fo_internal s"
    "pool_geo (cache_pool s') = pool_geo (cache_pool s)" "pool_geo (meta_pool s') = pool_geo (meta_pool s)"
    "fo_ghost_size s' = fo_ghost_size s" "distinct (fomo_mh s')" "set (fomo_mh s') = set (ht s')"
    "fomo_counts_ok s'"
  shows "fomo_ok I s'"
  using assms by (simp add: fomo_ok_def pool_geo_eq)

lemma fomo_remove_entry_ok:
  assumes ok: "fomo_ok I s" and e: "e \<in> set (ht s)"
  shows "\<exists>w cp mp s'. s' = s\<lparr>fomo_mh := remove1 e (fomo_mh s),
        store := (store s)(e := freed_entry (store s e)), wb := w, cache_pool := cp, meta_pool := mp,
        ht := remove1 e (ht s)\<rparr> \<and>
     fomo_remove_entry e s = Inr s' \<and> fomo_ok I s' \<and>
     history s' = remove1 (e_oblock (store s e)) (history s)"
proof -
  note D = fomo_okD [OF ok]
  let ?s1 = "s\<lparr>fomo_mh := remove1 e (fomo_mh s)\<rparr>"
  have cn1: "cn_ok ?s1" and e1: "e \<in> set (ht ?s1)" using D(1) e by (simp_all add: cn_ok_def)
  from cache_nucleus_remove_ok [OF cn1 e1] obtain cp mp s' where
    s': "s' = s\<lparr>fomo_mh := remove1 e (fomo_mh s), store := (store s)(e := freed_entry (store s e)),
        wb := (\<lambda>q. q_remove e (wb s q)), cache_pool := cp, meta_pool := mp, ht := remove1 e (ht s)\<rparr>"
    and run: "cache_nucleus_remove e ?s1 = Inr s'" and cn: "cn_ok s'"
    and geo: "pool_geo cp = pool_geo (cache_pool s)" "pool_geo mp = pool_geo (meta_pool s)"
    by auto
  have dh: "distinct (ht s)" by (rule cn_facts(1) [OF D(1)])
  have ok': "fomo_ok I s'"
    by (rule fomo_ok_cong [OF ok cn]) (use D geo dh in \<open>auto simp: s' fomo_counts_ok_def\<close>)
  have n: "e \<notin> set (remove1 e (fomo_mh s))" using D(6) by simp
  have dk: "distinct (map (key_of (store s)) (fomo_mh s))"
    using D(6,7) cn_facts(2) [OF D(1)] by (simp add: distinct_map)
  have "history s' = map (key_of (store s)) (remove1 e (fomo_mh s))"
    unfolding history_def s' by (simp add: map_key_upd [OF n] del: fun_upd_apply)
  also have "\<dots> = remove1 (e_oblock (store s e)) (history s)"
    unfolding history_def using distinct_map_remove1 [OF dk] e D(7) by simp
  finally show ?thesis using run ok' s' by (auto simp: fomo_remove_entry_def q_remove_def)
qed

lemma fomo_with_counts:
  assumes "fomo_ok I s" "fomo_counts_ok (with_counts ft s)"
  shows "fomo_ok I (with_counts ft s)" "history (with_counts ft s) = history s"
    "ht_lookup ob (with_counts ft s) = ht_lookup ob s"
    "fo_internal (with_counts ft s) = fo_internal s" "stats (with_counts ft s) = stats s"
    "fo_ghost_size (with_counts ft s) = fo_ghost_size s"
    "fo_period_size (with_counts ft s) = fo_period_size s"
    "fo_state (with_counts ft s) = ft_state ft" "fo_counter (with_counts ft s) = ft_counter ft"
    "fo_c_hits (with_counts ft s) = ft_c_hits ft" "fo_mh_hits (with_counts ft s) = ft_mh_hits ft"
  using assms by (simp_all add: fomo_ok_def cn_ok_def with_counts_def history_def ht_lookup_def)

text \<open>A block enters a history that has room.\<close>

lemma fomo_history_insert:
  assumes ok: "fomo_ok I s" and nf: "\<not> meta_is_full s" and new: "ht_lookup ob s = None"
  shows "\<exists>e x mp s'. s' = s\<lparr>store := (store s)(e := x), meta_pool := mp, ht := e # ht s, fomo_mh := fomo_mh s @ [e]\<rparr> \<and>
    rbind (insert_in_meta ob s) (\<lambda>(e, s). rbind (q_push [] (fomo_mh s) e) (\<lambda>q. Inr (s\<lparr>fomo_mh := q\<rparr>))) = Inr s' \<and>
    fomo_ok I s' \<and> history s' = history s @ [ob]"
proof -
  note D = fomo_okD [OF ok]
  from insert_in_meta_ok [OF D(1) nf new] obtain e mp s1 where
    1: "s1 = s\<lparr>store := (store s)(e := fresh_entry ob (store s e)), meta_pool := mp, ht := e # ht s\<rparr>"
    "insert_in_meta ob s = Inr (e, s1)" "cn_ok s1" "pool_geo mp = pool_geo (meta_pool s)" "e \<notin> set (ht s)"
    by blast
  let ?s' = "s1\<lparr>fomo_mh := fomo_mh s @ [e]\<rparr>"
  have q: "e \<notin> set (fomo_mh s)" using 1(5) D(7) by simp
  have run: "rbind (insert_in_meta ob s) (\<lambda>(e, s). rbind (q_push [] (fomo_mh s) e) (\<lambda>q. Inr (s\<lparr>fomo_mh := q\<rparr>))) = Inr ?s'"
    using 1(2) q by (simp add: q_push_def) (simp add: 1(1))
  have cn: "cn_ok ?s'" using 1(3) by (simp add: cn_ok_def)
  have ok': "fomo_ok I ?s'"
    by (rule fomo_ok_cong [OF ok cn]) (use D 1(4) q in \<open>auto simp: 1(1) fomo_counts_ok_def\<close>)
  have "history ?s' = history s @ [ob]"
    unfolding history_def 1(1) by (simp add: map_key_upd [OF q] del: fun_upd_apply) simp
  moreover have "?s' = s\<lparr>store := (store s)(e := fresh_entry ob (store s e)), meta_pool := mp, ht := e # ht s,
      fomo_mh := fomo_mh s @ [e]\<rparr>" by (simp add: 1(1))
  ultimately show ?thesis using run ok' by blast
qed

lemma fomo_commit_history_ok:
  assumes ok: "fomo_ok I s" and cnt: "fomo_counts_ok (with_counts ft s)"
    and mh: "ft_mh_hit ft \<longleftrightarrow> ht_lookup (ft_oblock ft) s \<noteq> None"
  shows "\<exists>s'. fomo_commit_history ft s = Inr s' \<and> fomo_ok I s' \<and>
    history s' = history_step (unat (fo_ghost_size s)) (ft_c_hit ft) (ft_mh_hit ft) (ft_state ft)
      (ft_oblock ft) (history s) \<and>
    fo_internal s' = fo_internal s \<and> stats s' = stats s \<and> fo_state s' = ft_state ft \<and>
    fo_counter s' = ft_counter ft \<and> fo_c_hits s' = ft_c_hits ft \<and> fo_mh_hits s' = ft_mh_hits ft \<and>
    fo_period_size s' = fo_period_size s \<and> fo_ghost_size s' = fo_ghost_size s"
proof -
  let ?s1 = "with_counts ft s" and ?ob = "ft_oblock ft"
  note W = fomo_with_counts [OF ok cnt]
  have start: "fomo_commit_history ft s =
     (if ft_c_hit ft then
        if ft_mh_hit ft then rbind (deref (ht_lookup ?ob ?s1)) (\<lambda>e. fomo_remove_entry e ?s1) else Inr ?s1
      else if ft_mh_hit ft then
        rbind (deref (ht_lookup ?ob ?s1)) (\<lambda>e.
        if fo_state ?s1 = FOMO_FILTER then fomo_remove_entry e ?s1
        else rbind (q_push [] (q_remove e (fomo_mh ?s1)) e) (\<lambda>q. Inr (?s1\<lparr>fomo_mh := q\<rparr>)))
      else
        rbind (if q_length (fomo_mh ?s1) = fo_ghost_size ?s1
               then rbind (deref (q_peek (fomo_mh ?s1))) (\<lambda>lru. fomo_remove_entry lru ?s1)
               else Inr ?s1) (\<lambda>s.
        rbind (insert_in_meta ?ob s) (\<lambda>(e, s).
        rbind (q_push [] (fomo_mh s) e) (\<lambda>q. Inr (s\<lparr>fomo_mh := q\<rparr>)))))"
    unfolding fomo_commit_history_def with_counts_def Let_def by (rule refl)
  note D = fomo_okD [OF W(1)]
  show ?thesis
  proof (cases "ft_mh_hit ft")
    case True
    then obtain e where l: "ht_lookup ?ob ?s1 = Some e" using mh W(3) by auto
    then have e: "e \<in> set (ht ?s1)" "e_oblock (store ?s1 e) = ?ob"
      using lookup_Some [OF D(1)] by blast+
    show ?thesis
    proof (cases "ft_c_hit ft \<or> ft_state ft = FOMO_FILTER")
      case rem: True
      from fomo_remove_entry_ok [OF W(1) e(1)] obtain w cp mp s' where
        s': "s' = ?s1\<lparr>fomo_mh := remove1 e (fomo_mh ?s1),
          store := (store ?s1)(e := freed_entry (store ?s1 e)), wb := w, cache_pool := cp, meta_pool := mp,
          ht := remove1 e (ht ?s1)\<rparr>"
        "fomo_remove_entry e ?s1 = Inr s'" "fomo_ok I s'" "history s' = remove1 ?ob (history ?s1)"
        unfolding e(2) by blast
      have "fomo_commit_history ft s = Inr s'"
        unfolding start using True rem l s'(2) W(8) by (auto simp: deref_def)
      moreover have "history_step (unat (fo_ghost_size s)) (ft_c_hit ft) (ft_mh_hit ft) (ft_state ft)
          ?ob (history s) = remove1 ?ob (history s)"
        using True rem by (auto simp: history_step_def)
      ultimately show ?thesis using s'(3,4) W
        by (intro exI [of _ s']) (simp add: s'(1))
    next
      case False
      let ?s' = "?s1\<lparr>fomo_mh := remove1 e (fomo_mh ?s1) @ [e]\<rparr>"
      have em: "e \<in> set (fomo_mh ?s1)" using e(1) D(7) by simp
      have "fomo_commit_history ft s = Inr ?s'"
        unfolding start using True False l W(8) D(6) by (simp add: deref_def q_push_def q_remove_def)
      moreover have "fomo_ok I ?s'"
        by (rule fomo_ok_cong [OF W(1)]) (use D em in \<open>auto simp: cn_ok_def fomo_counts_ok_def\<close>)
      moreover have "history ?s' = remove1 ?ob (history ?s1) @ [?ob]"
      proof -
        have "distinct (map (key_of (store ?s1)) (fomo_mh ?s1))"
          using D(6,7) cn_facts(2) [OF D(1)] by (simp add: distinct_map)
        then show ?thesis using distinct_map_remove1 [OF _ em, of "key_of (store ?s1)"] e(2)
          by (simp add: history_def)
      qed
      moreover have "history_step (unat (fo_ghost_size s)) (ft_c_hit ft) (ft_mh_hit ft) (ft_state ft)
          ?ob (history s) = remove1 ?ob (history s) @ [?ob]"
        using True False by (auto simp: history_step_def)
      ultimately show ?thesis using W by (intro exI [of _ ?s']) simp
    qed
  next
    case no: False
    then have new: "ht_lookup ?ob ?s1 = None" using mh W(3) by simp
    show ?thesis
    proof (cases "ft_c_hit ft")
      case True
      then show ?thesis using W no unfolding start
        by (intro exI [of _ ?s1]) (simp add: history_step_def)
    next
      case False
      have hl: "length (history ?s1) = unat (fo_ghost_size ?s1) \<longleftrightarrow> q_length (fomo_mh ?s1) = fo_ghost_size ?s1"
        using fomo_mh_full [OF W(1)] meta_is_full_iff [OF D(1)] fomo_mh_card [OF W(1)] D(4)
        by (simp add: history_def)
      have "\<exists>s2. (if q_length (fomo_mh ?s1) = fo_ghost_size ?s1
               then rbind (deref (q_peek (fomo_mh ?s1))) (\<lambda>lru. fomo_remove_entry lru ?s1)
               else Inr ?s1) = Inr s2 \<and> fomo_ok I s2 \<and> \<not> meta_is_full s2 \<and> ht_lookup ?ob s2 = None \<and>
          history s2 = (if length (history ?s1) = unat (fo_ghost_size ?s1) then tl (history ?s1) else history ?s1) \<and>
          fo_internal s2 = fo_internal ?s1 \<and> stats s2 = stats ?s1 \<and> fo_state s2 = fo_state ?s1 \<and>
          fo_counter s2 = fo_counter ?s1 \<and> fo_c_hits s2 = fo_c_hits ?s1 \<and> fo_mh_hits s2 = fo_mh_hits ?s1 \<and>
          fo_period_size s2 = fo_period_size ?s1 \<and> fo_ghost_size s2 = fo_ghost_size ?s1"
      proof (cases "q_length (fomo_mh ?s1) = fo_ghost_size ?s1")
        case nf: False
        then show ?thesis using W(1) new fomo_mh_full [OF W(1)] hl by (intro exI [of _ ?s1]) simp
      next
        case full: True
        then have "length (fomo_mh ?s1) \<noteq> 0"
          using D(5) fomo_mh_full [OF W(1)] by (auto simp: q_length_def)
        then obtain e rest where q: "fomo_mh ?s1 = e # rest" by (cases "fomo_mh ?s1") auto
        then have e: "e \<in> set (ht ?s1)" using D(7) by auto
        from fomo_remove_entry_ok [OF W(1) e] obtain w cp mp s2 where
          s2: "s2 = ?s1\<lparr>fomo_mh := remove1 e (fomo_mh ?s1),
            store := (store ?s1)(e := freed_entry (store ?s1 e)), wb := w, cache_pool := cp, meta_pool := mp,
            ht := remove1 e (ht ?s1)\<rparr>"
          "fomo_remove_entry e ?s1 = Inr s2" "fomo_ok I s2"
          "history s2 = remove1 (e_oblock (store ?s1 e)) (history ?s1)" by blast
        have len: "length (fomo_mh s2) = length rest" by (simp add: s2(1) q)
        have "fo_ghost_size s2 = fo_ghost_size ?s1" by (simp add: s2(1))
        then have "\<not> meta_is_full s2"
          using full len q fomo_mh_full [OF W(1)] fomo_mh_full [OF s2(3)] fomo_mh_card [OF s2(3)]
            fomo_mh_card [OF W(1)] meta_is_full_iff [OF D(1)] meta_is_full_iff [OF fomo_okD(1) [OF s2(3)]]
            D(4) fomo_okD(4) [OF s2(3)] by simp
        moreover have "ht_lookup ?ob s2 = None"
          using new cn_facts(1) [OF D(1)] by (auto simp: lookup_None s2(1))
        moreover have "history s2 = tl (history ?s1)" using s2(4) by (simp add: history_def q)
        ultimately show ?thesis using s2(2,3) full hl q
          by (intro exI [of _ s2]) (simp add: deref_def s2(1))
      qed
      then obtain s2 where 2: "(if q_length (fomo_mh ?s1) = fo_ghost_size ?s1
               then rbind (deref (q_peek (fomo_mh ?s1))) (\<lambda>lru. fomo_remove_entry lru ?s1)
               else Inr ?s1) = Inr s2" "fomo_ok I s2" "\<not> meta_is_full s2" "ht_lookup ?ob s2 = None"
          "history s2 = (if length (history ?s1) = unat (fo_ghost_size ?s1) then tl (history ?s1) else history ?s1)"
        and same: "fo_internal s2 = fo_internal ?s1" "stats s2 = stats ?s1" "fo_state s2 = fo_state ?s1"
          "fo_counter s2 = fo_counter ?s1" "fo_c_hits s2 = fo_c_hits ?s1" "fo_mh_hits s2 = fo_mh_hits ?s1"
          "fo_period_size s2 = fo_period_size ?s1" "fo_ghost_size s2 = fo_ghost_size ?s1" by blast
      from fomo_history_insert [OF 2(2,3,4)] obtain e x mp s' where
        s': "s' = s2\<lparr>store := (store s2)(e := x), meta_pool := mp, ht := e # ht s2, fomo_mh := fomo_mh s2 @ [e]\<rparr>"
        "rbind (insert_in_meta ?ob s2) (\<lambda>(e, s). rbind (q_push [] (fomo_mh s) e) (\<lambda>q. Inr (s\<lparr>fomo_mh := q\<rparr>))) = Inr s'"
        "fomo_ok I s'" "history s' = history s2 @ [?ob]" by blast
      have "fomo_commit_history ft s = Inr s'"
        unfolding start using no False 2(1) s'(2) by simp
      then show ?thesis using s'(3,4) 2(5) same W no False
        by (intro exI [of _ s']) (simp add: s'(1) history_step_def)
    qed
  qed
qed

lemma fomo_counts_next:
  assumes cnt: "fomo_counts_ok s" and set: "fomo_transaction_set P s (fomo_transaction_init s ob) = Inr ft"
  shows "fomo_counts_ok (with_counts ft s)"
proof -
  have b: "c_count s \<le> unat (fo_counter s)" "mh_count s \<le> unat (fo_counter s)"
    using cnt by (auto simp: fomo_counts_ok_def c_count_def mh_count_def)
  show ?thesis
    using fomo_set_ok [OF cnt, of P ob] set cnt b
    by (auto simp: fomo_counts_ok_def with_counts_def split: if_splits)
qed

section \<open>The contract\<close>

lemma fomo_calls:
  "policy_map (fomo_api P) = fomo_map P" "policy_migrated (fomo_api P) = fomo_migrated P"
  "policy_remove (fomo_api P) = fomo_remove P" "policy_next_victim (fomo_api P) = fomo_next_victim P"
  "policy_set_time (fomo_api P) = fomo_set_time P" "policy_residency (fomo_api P) = fomo_residency P"
  "policy_cache_is_full (fomo_api P) = fomo_cache_is_full P"
  "policy_cache_lookup (fomo_api P) = fomo_cache_lookup P"
  "policy_cblock_lookup (fomo_api P) = fomo_cblock_lookup P"
  by (simp_all add: policy_calls fomo_api_def fun_eq_iff)

lemma fomo_pview: "pview (fomo_api P) s = pview P (fo_internal s)"
proof -
  have "fn_entry (fomo_api P) s = fn_entry P (fo_internal s)" by (simp add: fomo_api_def)
  then show ?thesis by (intro ext) (simp add: pview_def fomo_calls fomo_cache_lookup_def split: option.split)
qed

lemma fomo_internal_ok: "fomo_ok I s \<Longrightarrow> I i \<Longrightarrow> fomo_ok I (s\<lparr>fo_internal := i\<rparr>)"
  by (simp add: fomo_ok_def cn_ok_def fomo_counts_ok_def)

lemma fomo_filters_ok: "fomo_ok I s \<Longrightarrow> fomo_ok I (upd_stats f s)"
  by (simp add: fomo_ok_def cn_ok_def fomo_counts_ok_def)

text \<open>FOMO over a policy that keeps the contract.\<close>

locale fomo_over = access_policy
begin

text \<open>
  One access: it is filtered, or the internal policy cannot take it, or the internal policy
  maps it. The history steps unless the access fails.
\<close>

lemma fomo_map_cases:
  assumes ok: "fomo_ok inv s"
  shows "\<exists>ft. fomo_transaction_set P s (fomo_transaction_init s ob) = Inr ft \<and>
    ((ft_filter ft \<and> policy_cache_lookup P ob (fo_internal s) = None \<and>
      fomo_next_victim P ob s = Inr (CACHE_NUCLEUS_FILTER, None) \<and>
      (\<exists>s'. fomo_map P ob w r0 s = Inr (0, r0\<lparr>r_op := CACHE_NUCLEUS_FILTER\<rparr>, s') \<and> fomo_ok inv s' \<and>
        fo_internal s' = fo_internal s \<and> stats s' = inc_filters (stats s) \<and>
        fo_state s' = ft_state ft \<and> fo_counter s' = ft_counter ft \<and>
        history s' = history_step (unat (fo_ghost_size s)) False False (ft_state ft) ob (history s)))
    \<or> (\<not> ft_filter ft \<and> (\<exists>op v. policy_next_victim P ob (fo_internal s) = Inr (op, v) \<and>
       fomo_next_victim P ob s = Inr (op, if op = CACHE_NUCLEUS_FAIL then None else v) \<and>
       (if op = CACHE_NUCLEUS_FAIL
        then fomo_map P ob w r0 s = Inr (0, r0\<lparr>r_op := CACHE_NUCLEUS_FAIL\<rparr>, s) \<and>
          policy_cache_lookup P ob (fo_internal s) = None
        else (\<exists>r i s'. policy_map P ob False (r0\<lparr>r_op := CACHE_NUCLEUS_FAIL\<rparr>) (fo_internal s) = Inr (0, r, i) \<and>
          fomo_map P ob w r0 s = Inr (0, r, s') \<and> fo_internal s' = i \<and> fomo_ok inv s' \<and>
          r_op r \<noteq> CACHE_NUCLEUS_FAIL \<and>
          fo_state s' = ft_state ft \<and> fo_counter s' = ft_counter ft \<and>
          history s' = history_step (unat (fo_ghost_size s)) (policy_cache_lookup P ob (fo_internal s) \<noteq> None)
            (ht_lookup ob s \<noteq> None) (ft_state ft) ob (history s))))))"
proof -
  note D = fomo_okD [OF ok]
  from fomo_set_ok [OF D(8), of P ob] obtain ft where
    ft: "fomo_transaction_set P s (fomo_transaction_init s ob) = Inr ft" "ft_oblock ft = ob"
    "ft_c_hit ft \<longleftrightarrow> policy_cache_lookup P ob (fo_internal s) \<noteq> None"
    "ft_mh_hit ft \<longleftrightarrow> ht_lookup ob s \<noteq> None"
    "ft_filter ft \<longleftrightarrow> \<not> ft_c_hit ft \<and> \<not> ft_mh_hit ft \<and> ft_state ft = FOMO_FILTER" by blast
  have mh: "ft_mh_hit ft \<longleftrightarrow> ht_lookup (ft_oblock ft) s \<noteq> None" using ft(2,4) by simp
  from fomo_commit_history_ok [OF ok fomo_counts_next [OF D(8) ft(1)] mh]
  obtain s1 where s1: "fomo_commit_history ft s = Inr s1" "fomo_ok inv s1"
    "history s1 = history_step (unat (fo_ghost_size s)) (ft_c_hit ft) (ft_mh_hit ft) (ft_state ft) ob (history s)"
    "fo_internal s1 = fo_internal s" "stats s1 = stats s" "fo_state s1 = ft_state ft"
    "fo_counter s1 = ft_counter ft" unfolding ft(2) by blast
  show ?thesis
  proof (cases "ft_filter ft")
    case True
    let ?s' = "upd_stats inc_filters s1"
    have "fomo_map P ob w r0 s = Inr (0, r0\<lparr>r_op := CACHE_NUCLEUS_FILTER\<rparr>, ?s')"
      using True ft(1) s1(1) by (simp add: fomo_map_def fomo_transaction_is_legal_def fomo_transaction_commit_def)
    moreover have "fomo_next_victim P ob s = Inr (CACHE_NUCLEUS_FILTER, None)"
      using True ft(1) by (simp add: fomo_next_victim_def fomo_transaction_is_legal_def)
    moreover have "history ?s' = history s1" by (simp add: history_def)
    ultimately show ?thesis using True ft s1 fomo_filters_ok [OF s1(2), of inc_filters] by auto
  next
    case False
    let ?r0 = "r0\<lparr>r_op := CACHE_NUCLEUS_FAIL\<rparr>"
    obtain op v where v: "policy_next_victim P ob (fo_internal s) = Inr (op, v)"
      and agree: "succeeds (policy_map P ob False ?r0 (fo_internal s))
        (\<lambda>(rc, r, s'). op = CACHE_NUCLEUS_FAIL \<longleftrightarrow> r_op r = CACHE_NUCLEUS_FAIL)"
      using victim_law [OF D(2), of ob False ?r0] by (auto simp: succeeds_iff_Inr)
    obtain r i where m: "policy_map P ob False ?r0 (fo_internal s) = Inr (0, r, i)" "inv i"
      "map_effect ob r (mview P (fo_internal s)) (mview P i)"
      using map_law [OF D(2), of ob False ?r0] by (auto simp: succeeds_iff_Inr)
    have op: "op = CACHE_NUCLEUS_FAIL \<longleftrightarrow> r_op r = CACHE_NUCLEUS_FAIL" using agree m(1) by simp
    have legal: "fomo_transaction_is_legal P s ft = Inr (op \<noteq> CACHE_NUCLEUS_FAIL)"
      using False ft(2) v by (simp add: fomo_transaction_is_legal_def)
    have nv: "fomo_next_victim P ob s = Inr (op, if op = CACHE_NUCLEUS_FAIL then None else v)"
      using ft(1) legal False v by (simp add: fomo_next_victim_def)
    show ?thesis
    proof (cases "op = CACHE_NUCLEUS_FAIL")
      case True
      then have "mview P (fo_internal s) ob = None" using m(3) op by (simp add: map_effect_def)
      then have "policy_cache_lookup P ob (fo_internal s) = None" by (simp add: lookup_view)
      moreover have "fomo_map P ob w r0 s = Inr (0, ?r0, s)"
        using ft(1) legal True by (simp add: fomo_map_def)
      ultimately show ?thesis using ft(1) False v nv True by simp
    next
      case go: False
      let ?s' = "s1\<lparr>fo_internal := i\<rparr>"
      have "fomo_map P ob w r0 s = Inr (0, r, ?s')"
        using ft(1,2) legal go False s1(1,4) m(1) by (simp add: fomo_map_def fomo_transaction_commit_def)
      moreover have "fomo_ok inv ?s'" by (rule fomo_internal_ok [OF s1(2) m(2)])
      moreover have "history ?s' = history s1" by (simp add: history_def)
      ultimately show ?thesis using ft False v nv go op m(1) s1 by auto
    qed
  qed
qed

lemma fomo_map_contract:
  assumes ok: "fomo_ok inv s"
  shows "succeeds (fomo_map P ob w r0 s) (\<lambda>(rc, r, s'). rc = 0 \<and> fomo_ok inv s' \<and>
      map_effect ob r (mview P (fo_internal s)) (mview P (fo_internal s')) \<and> located P ob r (fo_internal s')) \<and>
    succeeds (fomo_next_victim P ob s) (\<lambda>(op, v). succeeds (fomo_map P ob w r0 s) (\<lambda>(rc, r, s').
      op = CACHE_NUCLEUS_FAIL \<longleftrightarrow> r_op r = CACHE_NUCLEUS_FAIL))"
proof -
  note D = fomo_okD [OF ok]
  have none: "policy_cache_lookup P ob (fo_internal s) = None \<Longrightarrow> mview P (fo_internal s) ob = None"
    by (simp add: lookup_view)
  have law: "policy_map P ob False r1 (fo_internal s) = Inr (0, r, i) \<Longrightarrow>
      map_effect ob r (mview P (fo_internal s)) (mview P i) \<and> located P ob r i" for r1 r i
    by (intro conjI map_lawD(3,4) [OF D(2)])
  from fomo_map_cases [OF ok, of ob w r0] show ?thesis
    using ok none law
    by (elim exE conjE disjE) (auto simp: map_effect_def located_def split: if_splits)
qed

end

sublocale fomo_over \<subseteq> fomo: access_policy "fomo_api P" "fomo_ok inv" cap
proof
  fix s and ob w r0 t e m m' ob'
  assume ok: "fomo_ok inv s"
  note D = fomo_okD [OF ok] and C = fomo_map_contract [OF ok, of ob w r0]
  note view = fomo_pview
  have loc: "located (fomo_api P) ob r s' = located P ob r (fo_internal s')" for r and s' :: "'a fomo_policy"
    by (simp add: located_def fomo_calls fomo_cache_lookup_def fomo_cblock_lookup_def)
  show "succeeds (policy_map (fomo_api P) ob w r0 s) (\<lambda>(rc, r, s').
      rc = 0 \<and> fomo_ok inv s' \<and> map_effect ob r (mview (fomo_api P) s) (mview (fomo_api P) s') \<and>
      located (fomo_api P) ob r s')"
    using C by (simp add: fomo_calls view loc)
  show "succeeds (policy_next_victim (fomo_api P) ob s) (\<lambda>(op, v).
      succeeds (policy_map (fomo_api P) ob w r0 s) (\<lambda>(rc, r, s').
        op = CACHE_NUCLEUS_FAIL \<longleftrightarrow> r_op r = CACHE_NUCLEUS_FAIL))"
    using C by (simp add: fomo_calls)
  show "mview (fomo_api P) s ob = Some (e, True) \<Longrightarrow> succeeds (policy_migrated (fomo_api P) ob s)
      (\<lambda>s'. fomo_ok inv s' \<and> mview (fomo_api P) s' = (mview (fomo_api P) s)(ob \<mapsto> (e, False)))"
    using migrated_law [OF D(2), of ob e] fomo_internal_ok [OF ok]
    by (auto simp: fomo_calls fomo_migrated_def view succeeds_iff_Inr)
  show "fomo_ok inv (policy_set_time (fomo_api P) t s) \<and>
      mview (fomo_api P) (policy_set_time (fomo_api P) t s) = mview (fomo_api P) s"
    using time_law [OF D(2), of t] ok
    by (simp add: fomo_calls fomo_set_time_def view fomo_ok_def cn_ok_def fomo_counts_ok_def)
  show "mview (fomo_api P) s ob = Some (e, m) \<Longrightarrow> mview (fomo_api P) s ob' = Some (e, m') \<Longrightarrow> ob = ob'"
    unfolding view by (rule inj_law [OF D(2)])
  show "finite (dom (mview (fomo_api P) s)) \<and> card (dom (mview (fomo_api P) s)) \<le> cap"
    unfolding view by (rule cap_law [OF D(2)])
  show "policy_residency (fomo_api P) s = of_nat (card (dom (mview (fomo_api P) s)))"
    unfolding view fomo_calls fomo_residency_def by (rule residency_law [OF D(2)])
  show "policy_cache_is_full (fomo_api P) s \<longleftrightarrow> card (dom (mview (fomo_api P) s)) = cap"
    unfolding view fomo_calls fomo_cache_is_full_def by (rule full_law [OF D(2)])
qed

context fomo_over
begin

lemma fomo_keeps_access: "access_policy (fomo_api P) (fomo_ok inv) cap"
  by (rule fomo.access_policy_axioms)

end

text \<open>A removal that is not remembered also takes the block from the history.\<close>

locale fomo_over_cache = fomo_over + cache_policy
begin

lemma fomo_removes:
  assumes ok: "fomo_ok inv s" and v: "mview (fomo_api P) s ob \<noteq> None"
  shows "succeeds (policy_remove (fomo_api P) ob False s)
    (\<lambda>s'. fomo_ok inv s' \<and> mview (fomo_api P) s' = (mview (fomo_api P) s)(ob := None))"
proof -
  note D = fomo_okD [OF ok]
  have "\<exists>s1. (case ht_lookup ob s of None \<Rightarrow> Inr s
      | Some e \<Rightarrow> if \<not> False then fomo_remove_entry e s else Inr s) = Inr s1 \<and> fomo_ok inv s1 \<and>
      fo_internal s1 = fo_internal s"
  proof (cases "ht_lookup ob s")
    case (Some e)
    then have "e \<in> set (ht s)" using lookup_Some [OF D(1)] by blast
    from fomo_remove_entry_ok [OF ok this] Some show ?thesis by auto
  qed (use ok in simp)
  then obtain s1 where s1: "(case ht_lookup ob s of None \<Rightarrow> Inr s
      | Some e \<Rightarrow> if \<not> False then fomo_remove_entry e s else Inr s) = Inr s1" "fomo_ok inv s1"
    "fo_internal s1 = fo_internal s" by blast
  then show ?thesis
    using remove_law [OF D(2), of ob] v fomo_internal_ok [OF s1(2)]
    unfolding fomo_calls fomo_remove_def s1(1) fomo_pview
    by (auto simp: succeeds_iff_Inr)
qed

end

lemma fomo_over_cacheI: "cache_policy P I cap \<Longrightarrow> fomo_over_cache P I cap"
  by (simp add: fomo_over_cache_def fomo_over_def cache_policy_def)

sublocale fomo_over_cache \<subseteq> fomo: cache_policy "fomo_api P" "fomo_ok inv" cap
  by unfold_locales (rule fomo_removes)

context fomo_over_cache
begin

lemma fomo_keeps_contract: "cache_policy (fomo_api P) (fomo_ok inv) cap"
  by (rule fomo.cache_policy_axioms)

end

section \<open>Creation\<close>

lemma fomo_init_ok:
  assumes "1 \<le> csize" "I i"
  shows "\<exists>s. fomo_init csize i (zero_fomo i) = Inr s \<and> fomo_ok I s \<and> history s = [] \<and>
    fo_internal s = i \<and> fo_state s = FOMO_INSERT \<and> fo_ghost_size s = csize \<and>
    fo_period_size s = max_u (csize div 100) 1 \<and> fo_counter s = 0 \<and> c_count s = 0 \<and> mh_count s = 0"
proof -
  let ?p = "max_u (csize div 100) 1"
  let ?s0 = "(zero_fomo i)\<lparr>fo_internal := i, fo_state := FOMO_INSERT, fomo_mh := [], fo_ghost_size := csize,
          fo_period_size := ?p, fo_counter := 0, fo_c_hits := 0,
          fo_mh_hits := 0, fo_mh_hits_total := 0, meta_pool := epool_create MetaRegion csize\<rparr>"
  have wb0: "wb ?s0 = (\<lambda>_. [])" and cp0: "cache_pool ?s0 = epool_create CacheRegion 0"
    and mp0: "meta_pool ?s0 = epool_create MetaRegion csize" by (simp_all add: zero_fomo_def)
  from policy_init_ok [OF cp0 mp0 wb0, of 0 csize CACHE_NUCLEUS_SINGLE_THREAD] obtain s' cp mp where
    s': "policy_init 0 csize CACHE_NUCLEUS_SINGLE_THREAD ?s0 = Inr s'" "cn_ok s'" "ht s' = []"
    and eq: "s' = ?s0\<lparr>store := store s', cache_pool := cp, meta_pool := mp, stats := stats_init, ht := [],
           cache_size := 0, meta_size := csize, thread_support := CACHE_NUCLEUS_SINGLE_THREAD, cn_time := 0\<rparr>"
    and nr: "ep_nr_entries cp = 0" "ep_nr_entries mp = csize" by blast
  have f: "cache_pool s' = cp" "meta_pool s' = mp" "fomo_mh s' = []" "fo_internal s' = i"
    "fo_state s' = FOMO_INSERT" "fo_ghost_size s' = csize" "fo_period_size s' = ?p" "fo_counter s' = 0"
    "fo_c_hits s' = 0" "fo_mh_hits s' = 0"
    by (subst eq, simp)+
  have "unat (csize div 100) \<le> 2 ^ 26"
    using unat_less_exp [of csize] by (simp add: unat_div)
  then have "1 \<le> unat ?p" "unat ?p \<le> 2 ^ 26" by (auto simp: max_u_def word_less_nat_alt)
  then have "fomo_ok I s'" using s' f nr assms by (simp add: fomo_ok_def fomo_counts_ok_def)
  then show ?thesis using s'(1) f
    by (simp add: fomo_init_def history_def c_count_def mh_count_def)
qed

end
