(* ===== verification/Systems.thy ===== *)
theory Systems
  imports Lru_Spec Fomo
begin

text \<open>
  The pieces put together: FOMO over LRU under the simulator, through the interpretations
  of the contracts on the models of the code.
\<close>

text \<open>FOMO over LRU keeps the contract of a policy.\<close>

interpretation fomo_lru: fomo_over_cache lru_api "lru_ok c" "unat c" for c
  by unfold_locales

text \<open>The run of the simulator, for the two policies.\<close>

lemmas lru_run_from_start = access_policy.run_from_start [OF lru.access_policy_axioms]
lemmas lru_sim_map_ok = access_policy.sim_map_ok [OF lru.access_policy_axioms]
lemmas fomo_run_from_start = access_policy.run_from_start [OF fomo_lru.fomo.access_policy_axioms]

lemma lru_pending_empty: "lru_ok c s \<Longrightarrow> ht s = [] \<Longrightarrow> pending (mview lru_api s) = {}"
  by (simp add: lru_pview pending_def clean_view_def)

text \<open>A new FOMO over a new LRU: in order, empty, and inserting.\<close>

lemma fomo_lru_create_ok:
  assumes c: "2 \<le> c"
  shows "\<exists>s. fomo_create c msize lru_create = Inr s \<and> fomo_ok (lru_ok c) s \<and>
    pending (mview (fomo_api lru_api) s) = {} \<and> history s = [] \<and>
    lru_abs (fo_internal s) = \<lparr>recent = [], on_way = {}\<rparr> \<and> fo_state s = FOMO_INSERT \<and>
    fo_ghost_size s = c \<and> fo_period_size s = max_u (c div 100) 1 \<and> fo_counter s = 0 \<and>
    c_count s = 0 \<and> mh_count s = 0"
proof -
  obtain i where i: "lru_create c msize = Inr i" "lru_ok c i" "lru_q i = []" "ht i = []"
    using lru_create_ok [OF c, of msize] by blast
  have "1 \<le> c" using c by (simp add: word_le_nat_alt)
  from fomo_init_ok [OF this, of "lru_ok c" i, OF i(2)] obtain s where
    s: "fomo_init c i (zero_fomo i) = Inr s" "fomo_ok (lru_ok c) s" "history s = []" "fo_internal s = i"
    "fo_state s = FOMO_INSERT" "fo_ghost_size s = c" "fo_period_size s = max_u (c div 100) 1"
    "fo_counter s = 0" "c_count s = 0" "mh_count s = 0" by blast
  have "lru_abs i = \<lparr>recent = [], on_way = {}\<rparr>" using i(3,4) by (simp add: lru_abs_def)
  moreover have "pending (mview (fomo_api lru_api) s) = {}"
    unfolding fomo_pview s(4) by (rule lru_pending_empty [OF i(2,4)])
  ultimately show ?thesis using s i(1) by (simp add: fomo_create_def)
qed

end
