(* ===== verification/Lru_Props.thy ===== *)
theory Lru_Props
  imports Lru_Spec
begin

text \<open>
  The properties of LRU: the states that calls of its API functions can reach, as a step
  relation with the precondition each function relies on, the invariant of the reachable
  states, and the refinement, prediction and writeback theorems of single calls.
\<close>

section \<open>Reachable states\<close>

text \<open>
  One call of an API function with the precondition its callers establish: the block whose migration is
  reported is on its way, a removed or remapped block is in the cache, an inserted block is
  not, and its place is free.
\<close>

inductive lru_step :: "lru_policy \<Rightarrow> lru_policy \<Rightarrow> bool" where
  step_map: "lru_map_api ob w r s = Inr (rc, r', s') \<Longrightarrow> lru_step s s'"
| step_migrated: "ht_lookup ob s = Some e \<Longrightarrow> e_migrating (store s e) \<Longrightarrow>
    lru_migrated_api ob s = Inr s' \<Longrightarrow> lru_step s s'"
| step_remove: "ht_lookup ob s = Some e \<Longrightarrow> lru_remove_api ob h s = Inr s' \<Longrightarrow> lru_step s s'"
| step_insert: "ht_lookup ob s = None \<Longrightarrow> epool_at (cache_pool s) cb = Some e \<Longrightarrow> e \<notin> set (ht s) \<Longrightarrow>
    lru_insert_api ob cb s = Inr s' \<Longrightarrow> lru_step s s'"
| step_remap: "ht_lookup ob s = Some e \<Longrightarrow> ht_lookup nob s = None \<Longrightarrow>
    default_remap ob nob s = Inr s' \<Longrightarrow> lru_step s s'"
| step_time: "lru_step s (default_set_time t s)"

inductive_cases lru_stepE: "lru_step s s'"

inductive lru_reach :: "cblock \<Rightarrow> lru_policy \<Rightarrow> bool" where
  reach_create: "lru_create c msize = Inr s \<Longrightarrow> lru_reach c s"
| reach_step: "lru_reach c s \<Longrightarrow> lru_step s s' \<Longrightarrow> lru_reach c s'"

lemma lru_remap_ok:
  assumes ok: "lru_ok c s" and e: "ht_lookup ob s = Some e" and new: "ht_lookup nob s = None"
  shows "\<exists>s'. default_remap ob nob s = Inr s' \<and> lru_ok c s' \<and> lru_q s' = lru_q s \<and>
    store s' = (store s)(e := (store s e)\<lparr>e_oblock := nob\<rparr>) \<and> ht s' = e # remove1 e (ht s)"
proof -
  note D = lru_okD [OF ok]
  have m: "e \<in> set (ht s)" "e_oblock (store s e) = ob" using e lookup_Some [OF D(1)] by blast+
  from default_remap_ok [OF D(1) m(1) new] obtain s' where
    s': "s' = s\<lparr>store := (store s)(e := (store s e)\<lparr>e_oblock := nob\<rparr>), ht := e # remove1 e (ht s)\<rparr>"
    "default_remap ob nob s = Inr s'" "cn_ok s'" unfolding m(2) by blast
  have f: "store s' = (store s)(e := (store s e)\<lparr>e_oblock := nob\<rparr>)" "ht s' = e # remove1 e (ht s)"
    "lru_q s' = lru_q s" "cache_pool s' = cache_pool s" "meta_pool s' = meta_pool s"
    using s'(1) by simp_all
  have "set (ht s') = set (ht s)" using m(1) cn_facts(1) [OF D(1)] by (auto simp: f(2))
  moreover have "e_migrating (store s' p) = e_migrating (store s p)" for p by (simp add: f(1))
  ultimately have "lru_ok c s'" unfolding lru_ok_def f(3-5) using s'(3) D by simp
  then show ?thesis using s'(2) f by blast
qed

lemma lru_step_ok: "lru_step s s' \<Longrightarrow> lru_ok c s \<Longrightarrow> lru_ok c s'"
proof (induction rule: lru_step.induct)
  case (step_map ob w r s rc r' s')
  then show ?case using lru_map_refines [of c s ob w r] by auto
next
  case (step_migrated ob s e s')
  then show ?case using lru_migrated_ok [of c s ob e] by auto
next
  case (step_remove ob s e h s')
  then show ?case using lru_remove_ok [of c s ob e h] by auto
next
  case (step_insert ob s cb e s')
  then show ?case using lru_insert_api_ok [of c s ob cb e] by auto
next
  case (step_remap ob s e nob s')
  then show ?case using lru_remap_ok [of c s ob e nob] by auto
next
  case (step_time s t)
  then show ?case using lru_set_time by blast
qed

lemma lru_reach_ok: "lru_reach c s \<Longrightarrow> 2 \<le> c \<Longrightarrow> lru_ok c s"
proof (induction rule: lru_reach.induct)
  case (reach_create c msize s)
  then show ?case using lru_create_ok [of c msize] by auto
next
  case (reach_step c s s')
  then show ?case using lru_step_ok by blast
qed

text \<open>Every call whose precondition holds succeeds.\<close>

lemma lru_map_succeeds: "lru_ok c s \<Longrightarrow> succeeds (lru_map_api ob w r s) (\<lambda>(rc, r', s'). rc = 0 \<and> lru_ok c s')"
  using lru_map_refines [of c s ob w r] by (auto simp: succeeds_iff_Inr)

lemma lru_migrated_succeeds: "lru_ok c s \<Longrightarrow> ht_lookup ob s = Some e \<Longrightarrow> e_migrating (store s e) \<Longrightarrow>
  succeeds (lru_migrated_api ob s) (lru_ok c)"
  using lru_migrated_ok [of c s ob e] by (auto simp: succeeds_iff_Inr)

lemma lru_remove_succeeds: "lru_ok c s \<Longrightarrow> ht_lookup ob s = Some e \<Longrightarrow> succeeds (lru_remove_api ob h s) (lru_ok c)"
  using lru_remove_ok [of c s ob e h] by (auto simp: succeeds_iff_Inr)

lemma lru_residency:
  assumes ok: "lru_ok c s"
  shows "unat (default_residency s) = length (recent (lru_abs s)) + card (on_way (lru_abs s))"
    "unat (default_residency s) \<le> unat c"
proof -
  have le: "card (cached (ht s)) \<le> unat c"
    using card_cached_le [OF lru_okD(1) [OF ok]] lru_okD(2) [OF ok] by simp
  then have "unat (of_nat (card (cached (ht s))) :: cblock) = card (cached (ht s))"
    using unat_less_exp [of c] by (intro unat_of_nat_small) simp
  then show "unat (default_residency s) = length (recent (lru_abs s)) + card (on_way (lru_abs s))"
    "unat (default_residency s) \<le> unat c"
    using residency_card [OF lru_okD(1) [OF ok]] lru_abs_size [OF ok] le by simp_all
qed

section \<open>Properties\<close>

text \<open>
  C8. Every state that calls of the API functions of an LRU cache of at least two blocks can reach
  satisfies its invariant: the number of resident blocks the cache reports is the number of
  blocks in the queue and on their way, it is at most the cache size, and an access, a
  report of a migration and a removal of a block that is there run to their end without a
  failed assertion or a null pointer.
\<close>
theorem lru_reachable:
  assumes "lru_reach c s" "2 \<le> c"
  shows "lru_ok c s \<and>
    unat (default_residency s) = length (recent (lru_abs s)) + card (on_way (lru_abs s)) \<and>
    unat (default_residency s) \<le> unat c \<and>
    succeeds (lru_map_api ob w r s) (\<lambda>(rc, r', s'). rc = 0 \<and> lru_reach c s') \<and>
    (\<forall>e. ht_lookup ob s = Some e \<longrightarrow> succeeds (lru_remove_api ob h s) (lru_reach c)) \<and>
    (\<forall>e. ht_lookup ob s = Some e \<longrightarrow> e_migrating (store s e) \<longrightarrow>
      succeeds (lru_migrated_api ob s) (lru_reach c))"
proof -
  have ok: "lru_ok c s" by (rule lru_reach_ok [OF assms])
  have "succeeds (lru_map_api ob w r s) (\<lambda>(rc, r', s'). rc = 0 \<and> lru_reach c s')"
    using lru_map_succeeds [OF ok, of ob w r] reach_step [OF assms(1) step_map]
    by (auto simp: succeeds_iff_Inr)
  moreover have "succeeds (lru_remove_api ob h s) (lru_reach c)" if "ht_lookup ob s = Some e" for e
    using lru_remove_succeeds [OF ok that, of h] reach_step [OF assms(1) step_remove [OF that]]
    by (auto simp: succeeds_iff_Inr)
  moreover have "succeeds (lru_migrated_api ob s) (lru_reach c)"
    if "ht_lookup ob s = Some e" "e_migrating (store s e)" for e
    using lru_migrated_succeeds [OF ok that] reach_step [OF assms(1) step_migrated [OF that]]
    by (auto simp: succeeds_iff_Inr)
  ultimately show ?thesis using ok lru_residency [OF ok] by blast
qed

theorem lru_reachable_witness:
  "\<exists>s. lru_create 2 0 = Inr s \<and> lru_reach 2 s \<and> unat (default_residency s) \<le> 2 \<and>
    succeeds (lru_map_api 7 True zero_result s) (\<lambda>(rc, r', s'). rc = 0 \<and> lru_reach 2 s')"
proof -
  have two: "2 \<le> (2 :: cblock)" by simp
  obtain s where s: "lru_create 2 0 = Inr s" using lru_create_ok [OF two, of 0] by blast
  have r: "lru_reach 2 s" by (rule reach_create [OF s])
  show ?thesis using lru_reachable [OF r two, of 7 True zero_result False] s r
    by (intro exI [of _ s]) simp
qed

text \<open>
  C6. An access to LRU does what the abstract LRU cache does: the operation reported, the
  evicted block and the new contents, recency order included, are the ones of \<open>spec_map\<close>.
\<close>
theorem lru_access_refines:
  assumes "lru_ok c s"
  shows "\<exists>r s'. lru_map_api ob w r0 s = Inr (0, r, s') \<and> lru_ok c s' \<and>
    (r_op r, evicted r, lru_abs s') = spec_map (unat c) ob (lru_abs s)"
  by (rule lru_map_refines [OF assms])

lemma lru_small_cache:
  "\<exists>s1 s2. lru_ok 2 s2 \<and> lru_abs s2 = \<lparr>recent = [7], on_way = {}\<rparr> \<and> lru_ok 2 s1 \<and>
    lru_abs s1 = \<lparr>recent = [], on_way = {7}\<rparr>"
proof -
  have two: "2 \<le> (2 :: cblock)" by simp
  obtain s where s: "lru_ok 2 s" "lru_q s = []" "ht s = []" using lru_create_ok [OF two, of 0] by blast
  have a: "lru_abs s = \<lparr>recent = [], on_way = {}\<rparr>" using s(2,3) by (simp add: lru_abs_def)
  have "spec_map (unat (2 :: cblock)) 7 (lru_abs s) = (CACHE_NUCLEUS_NEW, None, \<lparr>recent = [], on_way = {7}\<rparr>)"
    unfolding a by (simp add: spec_map_def)
  then obtain s1 where s1: "lru_ok 2 s1" "lru_abs s1 = \<lparr>recent = [], on_way = {7}\<rparr>"
    using lru_map_refines [OF s(1), of 7 True zero_result] by auto
  then have "7 \<in> on_way (lru_abs s1)" by simp
  from lru_migrated_refines [OF s1(1) this] s1 obtain s2 where
    "lru_ok 2 s2" "lru_abs s2 = \<lparr>recent = [7], on_way = {}\<rparr>" by (auto simp: spec_migrated_def)
  then show ?thesis using s1 by blast
qed

theorem lru_access_refines_witness:
  "\<exists>s r s'. lru_abs s = \<lparr>recent = [7], on_way = {}\<rparr> \<and> lru_map_api 7 True zero_result s = Inr (0, r, s') \<and>
    r_op r = CACHE_NUCLEUS_HIT \<and> lru_abs s' = \<lparr>recent = [7], on_way = {}\<rparr>"
proof -
  obtain s where s: "lru_ok 2 s" "lru_abs s = \<lparr>recent = [7], on_way = {}\<rparr>" using lru_small_cache by blast
  show ?thesis using lru_access_refines [OF s(1), of 7 True zero_result] s(2)
    by (auto simp: spec_map_def)
qed

text \<open>
  C14. \<open>lru_next_victim_api\<close> predicts exactly what the access that follows does: the operation
  and, for a replacement, the entry whose block leaves the cache.
\<close>
theorem lru_prediction:
  assumes "lru_ok c s"
  shows "\<exists>r s'. lru_map_api ob w r0 s = Inr (0, r, s') \<and>
    (\<exists>v. lru_next_victim_api ob s = Inr (r_op r, v) \<and>
      (if r_op r = CACHE_NUCLEUS_REPLACE
       then \<exists>e. v = Some e \<and> ht_lookup (r_old_oblock r) s = Some e \<and> ht_lookup (r_old_oblock r) s' = None
       else v = None))"
proof -
  from lru_map_contract [OF assms, of ob w r0] obtain r s' where
    m: "lru_map_api ob w r0 s = Inr (0, r, s')" "lru_ok c s'"
    "write_effect ob w r (cview (ht s) (store s)) (cview (ht s') (store s'))"
    "lru_next_victim_api ob s = Inr (r_op r, if r_op r = CACHE_NUCLEUS_REPLACE then q_peek (lru_q s) else None)"
    "r_op r = CACHE_NUCLEUS_REPLACE \<longrightarrow>
      (\<exists>v. q_peek (lru_q s) = Some v \<and> e_oblock (store s v) = r_old_oblock r)" by blast
  show ?thesis
  proof (cases "r_op r = CACHE_NUCLEUS_REPLACE")
    case True
    then obtain v where v: "q_peek (lru_q s) = Some v" "e_oblock (store s v) = r_old_oblock r" using m(5) by blast
    then have "v \<in> set (ht s)" using lru_okD(6) [OF assms] by (auto simp: q_peek_Some)
    then have "ht_lookup (r_old_oblock r) s = Some v" using v(2) lookup_Some [OF lru_okD(1) [OF assms]] by blast
    moreover have "cview (ht s') (store s') (r_old_oblock r) = None"
      using m(3) True by (auto simp: write_effect_def)
    then have "ht_lookup (r_old_oblock r) s' = None" by (rule lru_lookup_view(4) [OF m(2)])
    ultimately show ?thesis using m(1,4) True v(1) by simp
  next
    case False
    then show ?thesis using m(1,4) by simp
  qed
qed

theorem lru_prediction_witness:
  "\<exists>s r s'. lru_abs s = \<lparr>recent = [7], on_way = {}\<rparr> \<and> lru_map_api 8 True zero_result s = Inr (0, r, s') \<and>
    lru_next_victim_api 8 s = Inr (CACHE_NUCLEUS_NEW, None)"
proof -
  obtain s where s: "lru_ok 2 s" "lru_abs s = \<lparr>recent = [7], on_way = {}\<rparr>" using lru_small_cache by blast
  obtain r s' where r: "lru_map_api 8 True zero_result s = Inr (0, r, s')" "r_op r = CACHE_NUCLEUS_NEW"
    using lru_map_refines [OF s(1), of 8 True zero_result] s(2) by (auto simp: spec_map_def)
  show ?thesis using lru_prediction [OF s(1), of 8 True zero_result] r s(2) by auto
qed

text \<open>
  C13. No write is lost. The view maps a resident block to its entry, is it migrating and is it
  dirty. After an access the accessed block is dirty if it was or if it was written, the block that
  is replaced was not migrating, \<open>dirty_eviction\<close> tells if it was dirty, and nothing else changes.
\<close>
theorem lru_writeback:
  assumes "lru_ok c s"
  shows "succeeds (policy_map lru_api ob w r0 s)
    (\<lambda>(rc, r, s'). write_effect ob w r (pview lru_api s) (pview lru_api s'))"
  by (rule lru.write_law [OF assms])

theorem lru_writeback_witness:
  "\<exists>s. lru_abs s = \<lparr>recent = [7], on_way = {}\<rparr> \<and> succeeds (policy_map lru_api 7 True zero_result s)
    (\<lambda>(rc, r, s'). write_effect 7 True r (pview lru_api s) (pview lru_api s'))"
proof -
  obtain s where s: "lru_ok 2 s" "lru_abs s = \<lparr>recent = [7], on_way = {}\<rparr>" using lru_small_cache by blast
  show ?thesis using lru_writeback [OF s(1), of 7 True zero_result] s(2) by blast
qed

text \<open>
  The report of the end of a migration of a block that is on its way into the cache succeeds and
  makes it the most recently used one; a removal of a resident block forgets it and keeps the
  order of the others.
\<close>
theorem lru_updates_refine:
  assumes "lru_ok c s" "ob \<in> on_way (lru_abs s)" "ob' \<in> set (recent (lru_abs s)) \<union> on_way (lru_abs s)"
  shows "(\<exists>s'. lru_migrated_api ob s = Inr s' \<and> lru_ok c s' \<and> lru_abs s' = spec_migrated ob (lru_abs s)) \<and>
    (\<exists>s'. lru_remove_api ob' h s = Inr s' \<and> lru_ok c s' \<and> lru_abs s' = spec_remove ob' (lru_abs s))"
  using lru_migrated_refines [OF assms(1,2)] lru_remove_refines [OF assms(1,3)] by blast

theorem lru_updates_refine_witness:
  "\<exists>s s' s''. lru_abs s = \<lparr>recent = [], on_way = {7}\<rparr> \<and>
    lru_migrated_api 7 s = Inr s' \<and> lru_abs s' = \<lparr>recent = [7], on_way = {}\<rparr> \<and>
    lru_remove_api 7 False s = Inr s'' \<and> lru_abs s'' = \<lparr>recent = [], on_way = {}\<rparr>"
proof -
  obtain s where s: "lru_ok 2 s" "lru_abs s = \<lparr>recent = [], on_way = {7}\<rparr>" using lru_small_cache by blast
  then have "7 \<in> on_way (lru_abs s)" "7 \<in> set (recent (lru_abs s)) \<union> on_way (lru_abs s)" by simp_all
  from lru_updates_refine [OF s(1) this, of False] show ?thesis
    using s(2) by (auto simp: spec_migrated_def spec_remove_def)
qed

text \<open>
  Each access counts once in the statistics of LRU: as a hit or as a miss, a replacement as a
  demotion besides, and an access that fails not at all.
\<close>
theorem lru_statistics:
  assumes "lru_ok c s"
  shows "\<exists>r s'. lru_map_api ob w r0 s = Inr (0, r, s') \<and>
    stats s' = (case r_op r of
        CACHE_NUCLEUS_HIT \<Rightarrow> inc_ios (inc_hits (stats s))
      | CACHE_NUCLEUS_NEW \<Rightarrow> inc_ios (inc_misses (stats s))
      | CACHE_NUCLEUS_REPLACE \<Rightarrow> inc_ios (inc_misses (inc_demotions (stats s)))
      | _ \<Rightarrow> stats s)"
proof (cases "ht_lookup ob s")
  case (Some e)
  then show ?thesis using lru_map_hit [OF assms Some, of w r0] by auto
next
  case None
  show ?thesis
  proof (cases "cache_is_full s")
    case False
    then show ?thesis using lru_map_new [OF assms False None, of w r0] by auto
  next
    case True
    then show ?thesis
      using lru_map_fail [OF assms True None, of w r0] lru_map_replace [OF assms True None, of _ _ w r0]
      by (cases "lru_q s") auto
  qed
qed

theorem lru_statistics_witness:
  "\<exists>s r s'. lru_abs s = \<lparr>recent = [7], on_way = {}\<rparr> \<and> lru_map_api 7 True zero_result s = Inr (0, r, s') \<and>
    stats s' = inc_ios (inc_hits (stats s))"
proof -
  obtain s where s: "lru_ok 2 s" "lru_abs s = \<lparr>recent = [7], on_way = {}\<rparr>" using lru_small_cache by blast
  obtain r s' where r: "lru_map_api 7 True zero_result s = Inr (0, r, s')" "r_op r = CACHE_NUCLEUS_HIT"
    using lru_map_refines [OF s(1), of 7 True zero_result] s(2) by (auto simp: spec_map_def)
  show ?thesis using lru_statistics [OF s(1), of 7 True zero_result] r s(2) by auto
qed

text \<open>
  A cache of one block does not work: the first access reads the second element of the entry array,
  which has one, to compute the size of an entry.
\<close>
theorem lru_one_block_faults:
  "\<exists>s. lru_create 1 msize = Inr s \<and> lru_map_api ob w r s = Inl OutOfBounds"
proof -
  let ?pool = "\<lparr>ep_region = CacheRegion, ep_nr_entries = 1, ep_starting_index = 0,
    ep_free = [(CacheRegion, 0)], ep_migrating = [], ep_nr_allocated = 0, ep_nr_migrating = 0\<rparr>"
  obtain h where h: "ht_init 1 = Inr h" using ht_init_spec [of 1] by auto
  have "\<exists>s. lru_create 1 msize = Inr s \<and> cache_pool s = ?pool \<and> wb s = (\<lambda>_. []) \<and> ht s = [] \<and> store s = (\<lambda>_. zero_entry)"
    by (simp add: lru_create_def lru_init_def zero_lru_def policy_init_def epool_init_def
      epool_create_def epool_at_def deref_def wb_linked_def wb_queues_def h zero_entry_def fun_eq_iff)
  then obtain s where s: "lru_create 1 msize = Inr s" "cache_pool s = ?pool" "wb s = (\<lambda>_. [])" "ht s = []"
    "store s = (\<lambda>_. zero_entry)" by blast
  have "lru_map_api ob w r s = Inl OutOfBounds"
    by (simp add: lru_map_api_def lru_transaction_set_def lru_transaction_init_def ht_lookup_def
      tbl_lookup_def s(2-5) lru_transaction_is_legal_def cache_is_full_def epool_empty_def
      lru_transaction_commit_def lru_insert_def insert_in_cache_def alloc_pool_entry_def
      alloc_entry_def alloc_this_entry_def wb_linked_def wb_queues_def log_assert_def deref_def
      ht_insert_def tbl_insert_def infer_cblock_def)
  then show ?thesis using s(1) by blast
qed

end
