(* ===== verification/Fomo_Props.thy ===== *)
theory Fomo_Props
  imports Systems
begin

text \<open>
  The properties of FOMO: the contract it keeps over any policy, its decision rule, its
  miss history, what an access does over LRU, and what happens to the dirty marks below it.
\<close>

declare split_paired_All [simp del] split_paired_Ex [simp del]

text \<open>
  C7. FOMO can stand in front of any policy: if the policy below keeps the contract of a policy
  (no faults, an access has the effect it reports, migrations and removals do what they
  say, the residency is right), then FOMO over it keeps the contract too, with the
  same capacity.
\<close>
theorem fomo_contract:
  assumes "cache_policy P I cap"
  shows "cache_policy (fomo_api P) (fomo_ok I) cap"
  by (rule fomo_over_cache.fomo_keeps_contract, rule fomo_over_cacheI, rule assms)

theorem fomo_contract_witness:
  "cache_policy (fomo_api lru_api) (fomo_ok (lru_ok 2)) 2"
  using fomo_contract [OF lru.cache_policy_axioms, of 2] by simp

text \<open>
  C9. The decision of FOMO in exact numbers. Let \<open>c\<close> and \<open>m\<close> count the hits in the cache and in the miss
  history in the current period of \<open>p\<close> accesses, this one included. At the end of the period the state
  becomes \<open>fomo_decide\<close> of them and the counters restart; before the end the state stays and the
  counters count. The access is filtered exactly if it hits neither and the new state filters.
\<close>
theorem fomo_decision:
  assumes "fomo_counts_ok s"
    and "c = c_count s + (if policy_cache_lookup P ob (fo_internal s) \<noteq> None then 1 else 0)"
    and "m = mh_count s + (if ht_lookup ob s \<noteq> None then 1 else 0)"
    and "p = unat (fo_period_size s)"
  shows "\<exists>ft. fomo_transaction_set P s (fomo_transaction_init s ob) = Inr ft \<and>
    (if Suc (unat (fo_counter s)) = p
     then ft_state ft = fomo_decide (fn_pool_full P (fo_internal s)) (fo_state s) p c m \<and>
       ft_c_hits ft = 0 \<and> ft_mh_hits ft = 0 \<and> ft_counter ft = 0
     else ft_state ft = fo_state s \<and> unat (ft_c_hits ft) = 1000 * c \<and>
       unat (ft_mh_hits ft) = 1000 * m \<and> unat (ft_counter ft) = Suc (unat (fo_counter s))) \<and>
    (ft_filter ft \<longleftrightarrow> policy_cache_lookup P ob (fo_internal s) = None \<and> ht_lookup ob s = None \<and>
       ft_state ft = FOMO_FILTER)"
  using fomo_set_ok [OF assms(1), of P ob] unfolding assms(2-4) by auto

theorem fomo_decision_witness:
  "\<exists>s ft. fomo_create 2 0 lru_create = Inr s \<and>
    fomo_transaction_set lru_api s (fomo_transaction_init s 7) = Inr ft \<and> ft_filter ft = False \<and>
    ft_state ft = FOMO_INSERT \<and> ft_counter ft = 0"
proof -
  obtain s where s: "fomo_create 2 0 lru_create = Inr s" "fomo_ok (lru_ok 2) s" "fo_state s = FOMO_INSERT"
    "history s = []" "fo_counter s = 0" "c_count s = 0" "mh_count s = 0" "fo_period_size s = max_u (2 div 100) 1"
    "lru_abs (fo_internal s) = \<lparr>recent = [], on_way = {}\<rparr>"
    using fomo_lru_create_ok [of 2 0] by auto
  have p: "unat (fo_period_size s) = 1" by (simp add: s(8) max_u_def)
  have h: "ht_lookup 7 s = None"
    using s(4) fomo_okD(7) [OF s(2)] by (simp add: lookup_None history_def)
  have i: "lru_ok 2 (fo_internal s)" by (rule fomo_okD(2) [OF s(2)])
  have n: "ht_lookup 7 (fo_internal s) = None"
    using lru_abs_lookup [OF i, of 7] s(9) by (cases "ht_lookup 7 (fo_internal s)") auto
  then have l: "policy_cache_lookup lru_api 7 (fo_internal s) = None"
    by (simp add: lru_calls default_cache_lookup_def in_cache_def)
  have nf: "fn_pool_full lru_api (fo_internal s) = False"
    using lru_full_spec [OF i] s(9) by (simp add: lru_api_def nucleus_api_def)
  show ?thesis
    using fomo_decision [OF fomo_okD(8) [OF s(2)], of 0 lru_api 7 0 1] s h l p nf
    by (auto simp: fomo_decide_def)
qed

text \<open>
  The miss history holds at most as many blocks as the cache was created for, each of them once,
  oldest first, and the metadata entries in use are exactly its blocks.
\<close>
theorem fomo_history_bounded:
  assumes "fomo_ok I s"
  shows "length (history s) \<le> unat (fo_ghost_size s) \<and> distinct (history s) \<and>
    ep_nr_allocated (meta_pool s) = of_nat (length (history s))"
proof -
  note D = fomo_okD [OF assms] and F = cn_facts [OF fomo_okD(1) [OF assms]]
  have "distinct (history s)"
    using F(2) D(6,7) by (simp add: history_def distinct_map)
  moreover have "ep_nr_allocated (meta_pool s) = of_nat (card (metas (ht s)))"
    using nr_allocated_card [OF F(4)] cn_alloc_sets(2) [OF D(1)] by simp
  ultimately show ?thesis using fomo_mh_length [OF assms] fomo_mh_card [OF assms] by (simp add: history_def)
qed

theorem fomo_history_bounded_witness:
  "\<exists>s. fomo_create 2 0 lru_create = Inr s \<and> length (history s) \<le> 2 \<and> distinct (history s)"
proof -
  obtain s where s: "fomo_create 2 0 lru_create = Inr s" "fomo_ok (lru_ok 2) s" "fo_ghost_size s = 2"
    using fomo_lru_create_ok [of 2 0] by auto
  show ?thesis using fomo_history_bounded [OF s(2)] s(1,3) by auto
qed

text \<open>
  C10. An access to FOMO over LRU. Either it is filtered: it was in neither, LRU is not touched, one filtered
  access is counted; or LRU has nothing to evict and the access fails without any change; or LRU maps
  it. In the first and the last case the history makes its step. \<open>fomo_next_victim\<close> predicts which.
\<close>
theorem fomo_access:
  assumes "fomo_ok (lru_ok c) s"
  shows "\<exists>ft. fomo_transaction_set lru_api s (fomo_transaction_init s ob) = Inr ft \<and>
    ((ft_filter ft \<and> policy_cache_lookup lru_api ob (fo_internal s) = None \<and>
      fomo_next_victim lru_api ob s = Inr (CACHE_NUCLEUS_FILTER, None) \<and>
      (\<exists>s'. fomo_map lru_api ob w r0 s = Inr (0, r0\<lparr>r_op := CACHE_NUCLEUS_FILTER\<rparr>, s') \<and>
        fomo_ok (lru_ok c) s' \<and>
        fo_internal s' = fo_internal s \<and> stats s' = inc_filters (stats s) \<and>
        fo_state s' = ft_state ft \<and> fo_counter s' = ft_counter ft \<and>
        history s' = history_step (unat (fo_ghost_size s)) False False (ft_state ft) ob (history s)))
    \<or> (\<not> ft_filter ft \<and> (\<exists>op v. lru_next_victim_api ob (fo_internal s) = Inr (op, v) \<and>
       fomo_next_victim lru_api ob s = Inr (op, if op = CACHE_NUCLEUS_FAIL then None else v) \<and>
       (if op = CACHE_NUCLEUS_FAIL
        then fomo_map lru_api ob w r0 s = Inr (0, r0\<lparr>r_op := CACHE_NUCLEUS_FAIL\<rparr>, s) \<and>
          policy_cache_lookup lru_api ob (fo_internal s) = None
        else (\<exists>r i s'. lru_map_api ob False (r0\<lparr>r_op := CACHE_NUCLEUS_FAIL\<rparr>) (fo_internal s) = Inr (0, r, i) \<and>
          fomo_map lru_api ob w r0 s = Inr (0, r, s') \<and> fo_internal s' = i \<and> fomo_ok (lru_ok c) s' \<and>
          r_op r \<noteq> CACHE_NUCLEUS_FAIL \<and>
          fo_state s' = ft_state ft \<and> fo_counter s' = ft_counter ft \<and>
          history s' = history_step (unat (fo_ghost_size s)) (policy_cache_lookup lru_api ob (fo_internal s) \<noteq> None)
            (ht_lookup ob s \<noteq> None) (ft_state ft) ob (history s))))))"
  by (rule fomo_lru.fomo_map_cases [OF assms, of ob w r0, unfolded lru_calls(1,4)])

theorem fomo_access_witness:
  "\<exists>s ft. fomo_create 2 0 lru_create = Inr s \<and>
    fomo_transaction_set lru_api s (fomo_transaction_init s 7) = Inr ft \<and>
    (ft_filter ft \<longrightarrow> fomo_next_victim lru_api 7 s = Inr (CACHE_NUCLEUS_FILTER, None))"
proof -
  obtain s where s: "fomo_create 2 0 lru_create = Inr s" "fomo_ok (lru_ok 2) s"
    using fomo_lru_create_ok [of 2 0] by auto
  show ?thesis using fomo_access [OF s(2), of 7 True zero_result] s(1) by auto
qed

text \<open>
  FOMO forgets which accesses are writes: it passes every access on as a read. If no resident block
  of the LRU cache below is dirty, then after any access through FOMO, a write included, none is, and
  no eviction is reported as dirty.
\<close>
theorem fomo_drops_writes:
  assumes "fomo_ok (lru_ok c) s" "\<forall>b e m. pview (fomo_api lru_api) s b \<noteq> Some (e, m, True)"
    "\<not> r_dirty_eviction r0"
  shows "succeeds (fomo_map lru_api ob w r0 s) (\<lambda>(rc, r, s').
    (\<forall>b e m. pview (fomo_api lru_api) s' b \<noteq> Some (e, m, True)) \<and> 
    (r_op r = CACHE_NUCLEUS_REPLACE \<longrightarrow> \<not> r_dirty_eviction r))"
proof -
  let ?r0 = "r0\<lparr>r_op := CACHE_NUCLEUS_FAIL\<rparr>"
  have clean: "\<forall>b e m. pview lru_api (fo_internal s) b \<noteq> Some (e, m, True)" using assms(2) by (simp add: fomo_pview)
  have eff: "(\<forall>b e m. pview lru_api i b \<noteq> Some (e, m, True)) \<and>
      (r_op r = CACHE_NUCLEUS_REPLACE \<longrightarrow> \<not> r_dirty_eviction r)"
    if "lru_map_api ob False ?r0 (fo_internal s) = Inr (0, r, i)" for r i
  proof -
    have we: "write_effect ob False r (pview lru_api (fo_internal s)) (pview lru_api i)"
      using lru.write_law [OF fomo_okD(2) [OF assms(1)], of ob False ?r0] that by (simp add: lru_calls)
    then have "r_op r = CACHE_NUCLEUS_REPLACE \<longrightarrow> \<not> r_dirty_eviction r"
      using clean by (cases "r_dirty_eviction r") (auto simp: write_effect_def)
    moreover have "pview lru_api i b \<noteq> Some (e, m, True)" for b e m
      using we clean by (cases "r_op r") (auto simp: write_effect_def split: if_splits)
    ultimately show ?thesis by blast
  qed
  from fomo_lru.fomo_map_cases [OF assms(1), of ob w r0] show ?thesis
    using clean eff assms(3) by (auto simp: succeeds_iff_Inr fomo_pview lru_calls split: if_splits)
qed

theorem fomo_drops_writes_witness:
  "\<exists>s. fomo_create 2 0 lru_create = Inr s \<and> succeeds (fomo_map lru_api 7 True zero_result s) (\<lambda>(rc, r, s').
    (\<forall>b e m. pview (fomo_api lru_api) s' b \<noteq> Some (e, m, True)))"
proof -
  obtain s where s: "fomo_create 2 0 lru_create = Inr s" "fomo_ok (lru_ok 2) s"
    "lru_abs (fo_internal s) = \<lparr>recent = [], on_way = {}\<rparr>"
    using fomo_lru_create_ok [of 2 0] by auto
  have i: "lru_ok 2 (fo_internal s)" by (rule fomo_okD(2) [OF s(2)])
  have "ht_lookup b (fo_internal s) = None" for b
    using lru_abs_lookup [OF i, of b] s(3) by (cases "ht_lookup b (fo_internal s)") auto
  then have "pview (fomo_api lru_api) s b = None" for b
    unfolding fomo_pview lru_pview [OF i] by (rule lru_lookup_view(2) [OF i])
  then have c: "\<forall>b e m. pview (fomo_api lru_api) s b \<noteq> Some (e, m, True)" by simp
  have r: "\<not> r_dirty_eviction zero_result" by (simp add: zero_result_def)
  show ?thesis using fomo_drops_writes [OF s(2) c r, of 7 True] s(1)
    by (auto simp: succeeds_iff_Inr)
qed

end
