(* ===== verification/Queue_Props.thy ===== *)
theory Queue_Props
  imports Queue Hashtable
begin

text \<open>
  The properties of the two containers: any sequence of legal operations on the pointers of
  \<open>tools/queue.h\<close> behaves as on lists, and any sequence of operations on the buckets of
  \<open>tools/hashtable.h\<close> behaves as on a finite map.
\<close>

section \<open>Sequences of queue operations\<close>

datatype 'a queue_op = QInit 'a | QPush 'a 'a | QPop 'a | QRemove 'a

text \<open>
  On lists: an operation and what it returns. \<open>None\<close>: the caller breaks the rules of the header (it
  initialises a queue in use, pushes an item that is in a queue, uses what is no queue).
\<close>

fun list_op :: "'a queue_op \<Rightarrow> 'a set \<times> ('a \<Rightarrow> 'a list) \<Rightarrow> ('a option \<times> 'a set \<times> ('a \<Rightarrow> 'a list)) option" where
  "list_op (QInit q) (Q, f) =
     (if q \<in> Q \<or> (\<exists>r\<in>Q. q \<in> set (f r)) then None else Some (None, insert q Q, f(q := [])))"
| "list_op (QPush q x) (Q, f) =
     (if q \<in> Q \<and> x \<notin> Q \<and> (\<forall>r\<in>Q. x \<notin> set (f r)) then Some (None, Q, f(q := f q @ [x])) else None)"
| "list_op (QPop q) (Q, f) = (if q \<in> Q then Some (q_peek (f q), Q, f(q := tl (f q))) else None)"
| "list_op (QRemove x) (Q, f) = Some (None, Q, \<lambda>q. q_remove x (f q))"

fun list_ops :: "'a queue_op list \<Rightarrow> 'a set \<times> ('a \<Rightarrow> 'a list) \<Rightarrow> ('a option list \<times> 'a set \<times> ('a \<Rightarrow> 'a list)) option" where
  "list_ops [] c = Some ([], c)"
| "list_ops (a # as) c =
     (case list_op a c of
        None \<Rightarrow> None
      | Some (out, c) \<Rightarrow> (case list_ops as c of None \<Rightarrow> None | Some (outs, c) \<Rightarrow> Some (out # outs, c)))"

text \<open>On the memory.\<close>

fun ptr_out :: "'a lptr \<Rightarrow> 'a option" where
  "ptr_out (Ref x) = Some x"
| "ptr_out _ = None"

fun mem_op :: "'a queue_op \<Rightarrow> 'a queue_mem \<Rightarrow> ('a option \<times> 'a queue_mem) res" where
  "mem_op (QInit q) m = Inr (None, queue_init q m)"
| "mem_op (QPush q x) m = rbind (queue_push q x m) (\<lambda>m. Inr (None, m))"
| "mem_op (QPop q) m = rbind (queue_pop q m) (\<lambda>(p, m). Inr (ptr_out p, m))"
| "mem_op (QRemove x) m = rbind (queue_remove x m) (\<lambda>m. Inr (None, m))"

fun mem_ops :: "'a queue_op list \<Rightarrow> 'a queue_mem \<Rightarrow> ('a option list \<times> 'a queue_mem) res" where
  "mem_ops [] m = Inr ([], m)"
| "mem_ops (a # as) m =
     rbind (mem_op a m) (\<lambda>(out, m). rbind (mem_ops as m) (\<lambda>(outs, m). Inr (out # outs, m)))"

lemma mem_op_list:
  assumes "queues m Q f" "list_op a (Q, f) = Some (out, Q', f')"
  shows "\<exists>m'. mem_op a m = Inr (out, m') \<and> queues m' Q' f'"
proof (cases a)
  case (QInit q)
  then show ?thesis using assms queue_init_list [OF assms(1), of q] by (auto split: if_splits)
next
  case (QPush q x)
  then show ?thesis using assms queue_push_list [OF assms(1), of q x]
    by (auto simp: succeeds_iff_Inr split: if_splits)
next
  case (QPop q)
  then show ?thesis using assms queue_pop_list [OF assms(1), of q]
    by (auto simp: succeeds_iff_Inr split: if_splits option.splits)
next
  case (QRemove x)
  then show ?thesis using assms queue_remove_list [OF assms(1), of x] by (auto simp: succeeds_iff_Inr)
qed

text \<open>
  C11. Queues on pointers are queues on lists: for any sequence of initialisations, pushes, pops and
  removals that keeps the rules of the header, the pointer writes of \<open>queue.h\<close> run without touching
  a null or poisoned pointer, pop the same items in the same order as the lists, and leave
  every queue a well-formed ring with the length its list has.
\<close>
theorem queue_ops_refine:
  assumes "queues m Q f" "list_ops as (Q, f) = Some (outs, Q', f')"
  shows "\<exists>m'. mem_ops as m = Inr (outs, m') \<and> queues m' Q' f' \<and>
    (\<forall>q\<in>Q'. queue_length q m' = q_length (f' q) \<and> (queue_empty q m' \<longleftrightarrow> f' q = []))"
proof -
  have "\<exists>m'. mem_ops as m = Inr (outs, m') \<and> queues m' Q' f'" using assms
  proof (induction as arbitrary: m Q f outs)
    case (Cons a as)
    obtain out Q1 f1 where 1: "list_op a (Q, f) = Some (out, Q1, f1)"
      using Cons.prems(2) by (cases "list_op a (Q, f)") auto
    obtain outs1 where 2: "list_ops as (Q1, f1) = Some (outs1, Q', f')" "outs = out # outs1"
      using Cons.prems(2) 1 by (cases "list_ops as (Q1, f1)") auto
    from mem_op_list [OF Cons.prems(1) 1] obtain m1 where m1: "mem_op a m = Inr (out, m1)" "queues m1 Q1 f1" by blast
    from Cons.IH [OF m1(2) 2(1)] m1(1) 2(2) show ?case by auto
  qed simp
  then obtain m' where "mem_ops as m = Inr (outs, m')" and q: "queues m' Q' f'" by blast
  then show ?thesis by (auto simp: queue_length_list [OF q] queue_empty_list [OF q])
qed

theorem queue_ops_refine_witness:
  "\<exists>m'. mem_ops [QInit 0, QInit 1, QPush 0 10, QPush 0 11, QPush 1 12, QRemove 10, QPush 1 10, QPop 0, QPop 1, QPop 0]
      \<lparr>nxt = \<lambda>_. Null, prv = \<lambda>_. Null, qlen = \<lambda>_. 0, parent_queue = \<lambda>_. None\<rparr> =
    Inr ([None, None, None, None, None, None, None, Some (11::nat), Some 12, None], m') \<and>
    queue_empty 0 m' \<and> queue_length 1 m' = 1"
proof -
  let ?m = "\<lparr>nxt = \<lambda>_. Null, prv = \<lambda>_. Null, qlen = \<lambda>_. 0, parent_queue = \<lambda>_. None\<rparr> :: nat queue_mem"
  have m: "queues ?m {} (\<lambda>_. [])" by (simp add: queues_def)
  have l: "list_ops [QInit 0, QInit 1, QPush 0 10, QPush 0 11, QPush 1 12, QRemove 10, QPush 1 10, QPop 0, QPop 1, QPop 0]
      ({}, \<lambda>_. []) =
    Some ([None, None, None, None, None, None, None, Some (11::nat), Some 12, None], {1, 0},
      \<lambda>q. if q = 1 then [10] else [])"
    by (auto simp: q_remove_def fun_eq_iff insert_commute)
  show ?thesis using queue_ops_refine [OF m l] by (auto simp: q_length_def)
qed

section \<open>Sequences of hash table operations\<close>

datatype 'a table_op = HInsert 'a | HRemove 'a | HLookup oblock

text \<open>On a map from keys to entries; \<open>k\<close> gives the key of an entry.\<close>

fun map_op :: "('a \<Rightarrow> oblock) \<Rightarrow> 'a table_op \<Rightarrow> (oblock \<rightharpoonup> 'a) \<Rightarrow> ('a option \<times> (oblock \<rightharpoonup> 'a)) option" where
  "map_op k (HInsert e) M = (if M (k e) = None then Some (None, M(k e \<mapsto> e)) else None)"
| "map_op k (HRemove e) M = (if M (k e) = Some e then Some (None, M(k e := None)) else None)"
| "map_op k (HLookup ob) M = Some (M ob, M)"

fun map_ops :: "('a \<Rightarrow> oblock) \<Rightarrow> 'a table_op list \<Rightarrow> (oblock \<rightharpoonup> 'a) \<Rightarrow> ('a option list \<times> (oblock \<rightharpoonup> 'a)) option" where
  "map_ops k [] M = Some ([], M)"
| "map_ops k (a # as) M =
     (case map_op k a M of
        None \<Rightarrow> None
      | Some (out, M) \<Rightarrow> (case map_ops k as M of None \<Rightarrow> None | Some (outs, M) \<Rightarrow> Some (out # outs, M)))"

text \<open>On the memory; \<open>None\<close>: a search that does not end.\<close>

fun bucket_op :: "'a table_op \<Rightarrow> 'a hash_mem \<Rightarrow> ('a option \<times> 'a hash_mem) res option" where
  "bucket_op (HInsert e) m = Some (rbind (hash_insert e m) (\<lambda>m. Inr (None, m)))"
| "bucket_op (HRemove e) m = Some (rbind (hash_remove e m) (\<lambda>m. Inr (None, m)))"
| "bucket_op (HLookup ob) m = hash_lookup ob m"

fun bucket_ops :: "'a table_op list \<Rightarrow> 'a hash_mem \<Rightarrow> ('a option list \<times> 'a hash_mem) res option" where
  "bucket_ops [] m = Some (Inr ([], m))"
| "bucket_ops (a # as) m =
     (case bucket_op a m of
        None \<Rightarrow> None
      | Some (Inl f) \<Rightarrow> Some (Inl f)
      | Some (Inr (out, m)) \<Rightarrow>
          map_option (\<lambda>r. rbind r (\<lambda>(outs, m). Inr (out # outs, m))) (bucket_ops as m))"

text \<open>The memory holds a table of the entries of a map.\<close>

definition holds :: "'a hash_mem \<Rightarrow> (oblock \<rightharpoonup> 'a) \<Rightarrow> bool" where
  "holds m M \<longleftrightarrow> (\<exists>t. table m t \<and> distinct (map (key m) t) \<and> M = tbl_lookup (key m) t)"

lemma bucket_op_map:
  assumes "holds m M" "map_op (key m) a M = Some (out, M')"
  shows "\<exists>m'. bucket_op a m = Some (Inr (out, m')) \<and> holds m' M' \<and> key m' = key m"
proof -
  obtain t where t: "table m t" "distinct (map (key m) t)" "M = tbl_lookup (key m) t"
    using assms(1) by (auto simp: holds_def)
  show ?thesis
  proof (cases a)
    case (HInsert e)
    then have M: "M (key m e) = None" "M' = M(key m e \<mapsto> e)" "out = None" using assms(2) by (auto split: if_splits)
    then have n: "key m e \<notin> key m ` set t" using t(3) by (simp add: tbl_lookup_None)
    then have "e \<notin> set t" by blast
    from hash_insert_list [OF t(1) this] obtain m' where
      m': "hash_insert e m = Inr m'" "table m' (e # t)" "key m' = key m" by (auto simp: succeeds_iff_Inr)
    have "holds m' M'" unfolding holds_def m'(3)
      using m'(2) t(2,3) n M(2) by (intro exI [of _ "e # t"]) (auto simp: tbl_lookup_Cons fun_eq_iff)
    then show ?thesis using HInsert m' M(3) by simp
  next
    case (HRemove e)
    then have M: "M (key m e) = Some e" "M' = M(key m e := None)" "out = None" using assms(2) by (auto split: if_splits)
    then have e: "e \<in> set t" using t(3) tbl_lookup_SomeD by fastforce
    from hash_remove_list [OF t(1) this] obtain m' where
      m': "hash_remove e m = Inr m'" "table m' (remove1 e t)" "key m' = key m" by (auto simp: succeeds_iff_Inr)
    have d: "distinct (map (key m) (remove1 e t))"
      using t(2) e by (simp add: distinct_map_remove1 distinct_remove1)
    have "tbl_lookup (key m) (remove1 e t) ob = M' ob" for ob
    proof (cases "ob = key m e")
      case True
      have "ob \<notin> key m ` set (remove1 e t)"
        using t(2) e True by (auto simp: distinct_map inj_on_def)
      then show ?thesis using M(2) True by (simp add: tbl_lookup_None)
    next
      case False
      have "tbl_lookup (key m) (remove1 e t) ob = Some x \<longleftrightarrow> tbl_lookup (key m) t ob = Some x" for x
        unfolding tbl_lookup_Some [OF d] tbl_lookup_Some [OF t(2)] using False t(2) by (auto simp: distinct_map)
      then have "tbl_lookup (key m) (remove1 e t) ob = tbl_lookup (key m) t ob"
        by (metis option.exhaust)
      then show ?thesis using M(2) False t(3) by simp
    qed
    then have "holds m' M'" unfolding holds_def m'(3) using m'(2) d by (intro exI [of _ "remove1 e t"]) (auto simp: fun_eq_iff)
    then show ?thesis using HRemove m' M(3) by simp
  next
    case (HLookup ob)
    then show ?thesis using hash_lookup_list [OF t(1), of ob] t(2,3) assms(2) by (auto simp: holds_def)
  qed
qed

text \<open>
  C12. The hash table is a finite map: for any sequence of insertions of new keys, removals of present
  entries and lookups, the pointer operations on the buckets of \<open>hashtable.h\<close> run without a fault,
  every search of a bucket ends, every lookup returns what the map holds for the key, and the memory
  holds the resulting map. That a lookup moves the entry to the front of its bucket is not observable.
\<close>
theorem hash_ops_refine:
  assumes "holds m M" "map_ops (key m) as M = Some (outs, M')"
  shows "\<exists>m'. bucket_ops as m = Some (Inr (outs, m')) \<and> holds m' M' \<and> key m' = key m"
  using assms
proof (induction as arbitrary: m M outs)
  case (Cons a as)
  obtain out M1 where 1: "map_op (key m) a M = Some (out, M1)"
    using Cons.prems(2) by (cases "map_op (key m) a M") auto
  obtain outs1 where 2: "map_ops (key m) as M1 = Some (outs1, M')" "outs = out # outs1"
    using Cons.prems(2) 1 by (cases "map_ops (key m) as M1") auto
  from bucket_op_map [OF Cons.prems(1) 1] obtain m1 where
    m1: "bucket_op a m = Some (Inr (out, m1))" "holds m1 M1" "key m1 = key m" by blast
  from Cons.IH [OF m1(2)] 2(1) m1(1,3) 2(2) show ?case by auto
qed auto

theorem hash_ops_refine_witness:
  "\<exists>nb hb m'. ht_init 64 = Inr (nb, hb) \<and>
    bucket_ops [HInsert 3, HInsert 4, HLookup 4, HLookup 5, HRemove 4, HLookup 4, HLookup 3]
      \<lparr>hnext = \<lambda>_. Null, pprev = \<lambda>_. PNull, first = \<lambda>_. Null, key = id, nr_buckets = nb, hash_bits = hb\<rparr> =
    Some (Inr ([None, None, Some 4, None, None, None, Some 3], m'))"
proof -
  obtain nb hb where ht: "ht_init 64 = Inr (nb, hb)" using ht_init_spec [of 64] by blast
  let ?m = "\<lparr>hnext = \<lambda>_. Null, pprev = \<lambda>_. PNull, first = \<lambda>_. Null, key = id, nr_buckets = nb, hash_bits = hb\<rparr> :: oblock hash_mem"
  have h: "holds ?m Map.empty"
    unfolding holds_def
    by (rule exI [of _ "[]"]) (use ht in \<open>auto intro!: table_empty simp: tbl_lookup_def fun_eq_iff\<close>)
  have l: "\<exists>M'. map_ops (key ?m) [HInsert 3, HInsert 4, HLookup 4, HLookup 5, HRemove 4, HLookup 4, HLookup 3] Map.empty =
    Some ([None, None, Some 4, None, None, None, Some 3], M')" by simp
  then obtain M' where l: "map_ops (key ?m) [HInsert 3, HInsert 4, HLookup 4, HLookup 5, HRemove 4, HLookup 4, HLookup 3] Map.empty =
    Some ([None, None, Some 4, None, None, None, Some 3], M')" by blast
  show ?thesis using hash_ops_refine [OF h l] ht by blast
qed

section \<open>The index of a bucket\<close>

text \<open>
  With the number of bits that \<open>ht_init\<close> stores, the hash of every block is the index of a
  bucket that \<open>ht_init\<close> has allocated, and the table has a power of two of buckets, at least 16 and
  at most 2^31. No shift of the hash functions has a distance that is undefined.
\<close>
theorem hash_index_in_table:
  "\<exists>k nr_buckets hash_bits. 4 \<le> k \<and> k \<le> 31 \<and> ht_init nr = Inr (nr_buckets, hash_bits) \<and>
    unat nr_buckets = 2 ^ k \<and> succeeds (hash_64 ob (ucast hash_bits)) (\<lambda>h. h < nr_buckets)"
proof -
  obtain k where k: "4 \<le> k" "k \<le> 31" "ht_init nr = Inr (2 ^ k, of_nat k)" using ht_init_spec [of nr] by blast
  then show ?thesis using hash_64_in_table [OF k(3), of ob]
    by (intro exI [of _ k] exI [of _ "2 ^ k"] exI [of _ "of_nat k"]) (auto simp: unat_pow2)
qed

end
