(* ===== verification/Nucleus_Props.thy ===== *)
theory Nucleus_Props
  imports Nucleus
begin

text \<open>
  The properties of the entry pools and of the functions of the nucleus that every policy
  calls: accounting, addresses, allocation and release, insertion, removal and remapping on the view of
  the cached blocks.
\<close>

declare split_paired_All [simp del] split_paired_Ex [simp del]

section \<open>Pools\<close>

lemma pool_of_create: "\<exists>ep s. epool_init 0 (epool_create CacheRegion 2)
    \<lparr>store = \<lambda>_. \<lparr>e_oblock = 0, e_time = 0, e_dirty = False, e_allocated = False, e_migrating = False\<rparr>,
      wb = \<lambda>_. []\<rparr> = Inr (ep, s) \<and> pool_ok ep (store s) \<and> alloc_set ep (store s) = {} \<and> wb s = (\<lambda>_. []) \<and>
    ep_nr_entries ep = 2"
proof -
  let ?s = "\<lparr>store = \<lambda>_. \<lparr>e_oblock = 0, e_time = 0, e_dirty = False, e_allocated = False, e_migrating = False\<rparr>,
      wb = \<lambda>_. []\<rparr>" and ?ep = "epool_create CacheRegion 2"
  let ?ep' = "?ep\<lparr>ep_starting_index := 0,
            ep_free := map (Pair (ep_region ?ep)) (rev [0..<unat (ep_nr_entries ?ep)]),
            ep_migrating := [], ep_nr_allocated := 0, ep_nr_migrating := 0\<rparr>"
  let ?st = "cleared ?ep (store ?s)"
  have "epool_init 0 ?ep ?s = Inr (?ep', ?s\<lparr>store := ?st\<rparr>)"
    by (rule epool_init_ok) (simp_all add: epool_create_def wb_linked_def)
  moreover have "pool_ok ?ep' ?st \<and> alloc_set ?ep' ?st = {}"
    using epool_init_pool_ok(1,2) [OF refl, of ?ep ?st 0] by (simp add: cleared_def)
  moreover have "ep_nr_entries ?ep' = 2" by (simp add: epool_create_def)
  ultimately show ?thesis by (intro exI [of _ ?ep'] exI [of _ "?s\<lparr>store := ?st\<rparr>"]) simp
qed

text \<open>
  The counters of a pool agree with its entries: \<open>nr_allocated\<close> and the free list add up to the size,
  \<open>nr_migrating\<close> counts the migrating entries, which are allocated; \<open>alloc_entry\<close> returns \<open>NULL\<close> exactly if
  every entry is allocated, and otherwise an entry that was free and that now counts as
  allocated; freeing that entry gives the counters and the set of allocated entries back.
\<close>
theorem epool_alloc_free:
  assumes "pool_ok ep (store s)" "\<And>e. in_pool ep (Some e) \<Longrightarrow> \<not> e_allocated (store s e) \<Longrightarrow> \<not> wb_linked s e"
  shows "unat (ep_nr_allocated ep) + length (ep_free ep) = unat (ep_nr_entries ep) \<and>
    unat (ep_nr_migrating ep) = length (ep_migrating ep) \<and>
    length (ep_migrating ep) \<le> unat (ep_nr_allocated ep) \<and>
    (if unat (ep_nr_allocated ep) = unat (ep_nr_entries ep) then alloc_entry ep s = Inr (None, ep, s)
     else \<exists>e ep1 s1 ep2 s2. alloc_entry ep s = Inr (Some e, ep1, s1) \<and> in_pool ep (Some e) \<and>
       \<not> e_allocated (store s e) \<and> pool_ok ep1 (store s1) \<and>
       alloc_set ep1 (store s1) = insert e (alloc_set ep (store s)) \<and>
       ep_nr_allocated ep1 = ep_nr_allocated ep + 1 \<and>
       free_entry ep1 e s1 = Inr (ep2, s2) \<and> pool_ok ep2 (store s2) \<and>
       alloc_set ep2 (store s2) = alloc_set ep (store s) \<and> ep_nr_allocated ep2 = ep_nr_allocated ep)"
proof -
  note ok = assms(1)
  let ?A = "alloc_set ep (store s)"
  have small: "card ?A < 2 ^ LENGTH(32)" using card_alloc_small [OF ok] by simp
  have nr: "unat (ep_nr_allocated ep) = card ?A"
    unfolding nr_allocated_card [OF ok] by (rule unat_of_nat_small [OF small])
  have sum: "unat (ep_nr_allocated ep) + length (ep_free ep) = unat (ep_nr_entries ep)"
    using pool_partition [OF ok] nr by simp
  have "set (ep_migrating ep) \<subseteq> ?A" using ok by (auto simp: pool_ok_def)
  then have le: "length (ep_migrating ep) \<le> card ?A"
    using ok distinct_card [of "ep_migrating ep"] card_mono [OF finite_alloc_set]
    by (metis pool_ok_def)
  have mig: "unat (ep_nr_migrating ep) = length (ep_migrating ep)"
    using ok le small by (simp add: pool_ok_def unat_of_nat_small)
  show ?thesis
  proof (cases "ep_free ep")
    case Nil
    then show ?thesis using sum mig le nr alloc_entry_full [of ep s] by (simp add: epool_empty_def)
  next
    case (Cons e rest)
    then have e: "in_pool ep (Some e)" "\<not> e_allocated (store s e)" "\<not> e_migrating (store s e)" "e \<in> set (ep_free ep)"
      using pool_ok_free [OF ok, of e] free_not_migrating [OF ok, of e] by simp_all
    define ep1 where "ep1 = ep\<lparr>ep_free := remove1 e (ep_free ep), ep_nr_allocated := ep_nr_allocated ep + 1\<rparr>"
    define s1 where "s1 = upd_entry e (\<lambda>x. x\<lparr>e_allocated := True\<rparr>) s"
    have a: "alloc_entry ep s = Inr (Some e, ep1, s1)"
      unfolding ep1_def s1_def by (rule alloc_entry_ok [OF ok Cons assms(2) [OF e(1,2)]])
    have st1: "store s1 = (store s)(e := (store s e)\<lparr>e_allocated := True, e_migrating := False\<rparr>)"
      using e(3) by (cases "store s e") (simp add: s1_def)
    have 1: "pool_ok ep1 (store s1)" "alloc_set ep1 (store s1) = insert e ?A"
      using pool_ok_allocate [OF ok e(4), of "store s e"] unfolding st1 ep1_def by blast+
    from free_entry_ok [OF 1(1), of e] 1(2) obtain ep2 s2 where
      2: "free_entry ep1 e s1 = Inr (ep2, s2)" "pool_ok ep2 (store s2)"
      "alloc_set ep2 (store s2) = alloc_set ep1 (store s1) - {e}" by auto
    have "e \<notin> ?A" using e(2) by (simp add: alloc_set_def)
    then have A: "alloc_set ep2 (store s2) = ?A" using 2(3) 1(2) by simp
    then have "ep_nr_allocated ep2 = ep_nr_allocated ep"
      using nr_allocated_card [OF 2(2)] nr_allocated_card [OF ok] by simp
    moreover have "unat (ep_nr_allocated ep) \<noteq> unat (ep_nr_entries ep)" using sum Cons by simp
    moreover have "ep_nr_allocated ep1 = ep_nr_allocated ep + 1" by (simp add: ep1_def)
    ultimately have E: "\<exists>e ep1 s1 ep2 s2. alloc_entry ep s = Inr (Some e, ep1, s1) \<and> in_pool ep (Some e) \<and>
       \<not> e_allocated (store s e) \<and> pool_ok ep1 (store s1) \<and>
       alloc_set ep1 (store s1) = insert e (alloc_set ep (store s)) \<and>
       ep_nr_allocated ep1 = ep_nr_allocated ep + 1 \<and>
       free_entry ep1 e s1 = Inr (ep2, s2) \<and> pool_ok ep2 (store s2) \<and>
       alloc_set ep2 (store s2) = alloc_set ep (store s) \<and> ep_nr_allocated ep2 = ep_nr_allocated ep"
      using a e 1 2 A by blast
    show ?thesis using E sum mig le nr Cons by simp
  qed
qed

theorem epool_alloc_free_witness:
  "\<exists>ep s e ep1 s1. epool_init 0 (epool_create CacheRegion 2)
    \<lparr>store = \<lambda>_. \<lparr>e_oblock = 0, e_time = 0, e_dirty = False, e_allocated = False, e_migrating = False\<rparr>,
      wb = \<lambda>_. []\<rparr> = Inr (ep, s) \<and> alloc_entry ep s = Inr (Some e, ep1, s1) \<and> ep_nr_allocated ep1 = 1"
proof -
  obtain ep s where 1: "epool_init 0 (epool_create CacheRegion 2)
    \<lparr>store = \<lambda>_. \<lparr>e_oblock = 0, e_time = 0, e_dirty = False, e_allocated = False, e_migrating = False\<rparr>,
      wb = \<lambda>_. []\<rparr> = Inr (ep, s)" "pool_ok ep (store s)" "alloc_set ep (store s) = {}" "wb s = (\<lambda>_. [])"
    "ep_nr_entries ep = 2" using pool_of_create by blast
  have n: "ep_nr_allocated ep = 0" using nr_allocated_card [OF 1(2)] 1(3) by simp
  have w: "\<And>e. in_pool ep (Some e) \<Longrightarrow> \<not> e_allocated (store s e) \<Longrightarrow> \<not> wb_linked s e"
    using 1(4) by (simp add: wb_linked_def)
  show ?thesis using epool_alloc_free [OF 1(2) w] 1(1,5) n by auto
qed

text \<open>
  Entries and cache addresses determine each other: in a pool of at least two entries, the entry at
  an address is exactly the entry of the pool from which this address is inferred.
\<close>
theorem epool_address_roundtrip:
  assumes "2 \<le> ep_nr_entries ep"
  shows "epool_at ep cb = Some e \<longleftrightarrow> in_pool ep (Some e) \<and> infer_cblock ep e = Inr cb"
proof
  assume at: "epool_at ep cb = Some e"
  show "in_pool ep (Some e) \<and> infer_cblock ep e = Inr cb"
    using epool_at_in_pool [OF at] epool_at_infer [OF at assms] by simp
next
  assume "in_pool ep (Some e) \<and> infer_cblock ep e = Inr cb"
  then show "epool_at ep cb = Some e" using infer_cblock_ok [OF _ assms, of e] by auto
qed

theorem epool_address_roundtrip_witness:
  "infer_cblock ((epool_create CacheRegion 4)\<lparr>ep_starting_index := 10\<rparr>) (CacheRegion, 3) = Inr 13"
  using epool_address_roundtrip [of "(epool_create CacheRegion 4)\<lparr>ep_starting_index := 10\<rparr>" 13 "(CacheRegion, 3)"]
  by (simp add: epool_at_def epool_create_def)

section \<open>The nucleus\<close>

lemma small_nucleus:
  "\<exists>s :: unit cache_nucleus. cn_ok s \<and> ht s = [] \<and> \<not> cache_is_full s \<and> ep_nr_entries (cache_pool s) = 2"
proof -
  let ?s0 = "\<lparr>store = (\<lambda>_. \<lparr>e_oblock = 0, e_time = 0, e_dirty = False, e_allocated = False, e_migrating = False\<rparr>),
     wb = (\<lambda>_. []), thread_support = CACHE_NUCLEUS_SINGLE_THREAD, meta_size = 0, cache_size = 0,
     meta_pool = epool_create MetaRegion 0, cache_pool = epool_create CacheRegion 2,
     stats = stats_init, ht = [], cn_time = 0\<rparr> :: unit cache_nucleus"
  obtain s' cp mp where "cn_ok s'" "ht s' = []"
    and eq: "s' = ?s0\<lparr>store := store s', cache_pool := cp, meta_pool := mp, stats := stats_init, ht := [],
           cache_size := 2, meta_size := 0, thread_support := CACHE_NUCLEUS_SINGLE_THREAD, cn_time := 0\<rparr>"
    and nr: "ep_nr_entries cp = 2"
    using policy_init_ok [of ?s0 2 0 2 0 CACHE_NUCLEUS_SINGLE_THREAD] by auto
  moreover have "cache_pool s' = cp" by (subst eq) simp
  ultimately show ?thesis by (intro exI [of _ s']) (simp add: cache_is_full_iff cached_def)
qed

text \<open>
  C36. A block that is inserted in the cache occupies the address that is reported, clean and not
  migrating, and no other block moves; removing its entry again restores the view exactly.
\<close>
theorem nucleus_insert_remove:
  assumes "cn_ok s" "\<not> cache_is_full s" "ht_lookup ob s = None" "2 \<le> ep_nr_entries (cache_pool s)"
  shows "\<exists>e r' s' s''. insert_in_cache ob (Some r) s = Inr (e, Some r', s') \<and> cn_ok s' \<and>
    default_cblock_lookup (r_cblock r') s' = Some e \<and>
    cview (ht s') (store s') = (cview (ht s) (store s))(ob \<mapsto> (e, False, False)) \<and>
    cache_nucleus_remove e s' = Inr s'' \<and> cn_ok s'' \<and>
    cview (ht s'') (store s'') = cview (ht s) (store s)"
proof -
  from insert_in_cache_ok [OF assms, of r] obtain e cb cp s' where
    s': "s' = s\<lparr>store := (store s)(e := fresh_entry ob (store s e)), cache_pool := cp, ht := e # ht s\<rparr>"
    "insert_in_cache ob (Some r) s = Inr (e, Some (r\<lparr>r_cblock := cb\<rparr>), s')" "cn_ok s'"
    "pool_geo cp = pool_geo (cache_pool s)" "epool_at (cache_pool s) cb = Some e" "fst e = CacheRegion"
    "e \<notin> set (ht s)" "\<not> e_migrating (store s e)" by blast
  have f: "store s' = (store s)(e := fresh_entry ob (store s e))" "ht s' = e # ht s" "cache_pool s' = cp"
    by (simp_all add: s'(1))
  have v: "cview (ht s') (store s') = (cview (ht s) (store s))(ob \<mapsto> (e, False, False))"
    unfolding f(1,2) cview_fresh [OF s'(7)] using s'(6,8) by simp
  have "e \<in> set (ht s')" by (simp add: f(2))
  from cache_nucleus_remove_ok [OF s'(3) this] obtain cp' mp s'' where
    eq: "s'' = s'\<lparr>store := (store s')(e := freed_entry (store s' e)),
        wb := (\<lambda>q. q_remove e (wb s' q)), cache_pool := cp', meta_pool := mp, ht := remove1 e (ht s')\<rparr>"
    and rm: "cache_nucleus_remove e s' = Inr s''" "cn_ok s''" by blast
  have s'': "store s'' = (store s')(e := freed_entry (store s' e))" "ht s'' = remove1 e (ht s')"
    by (simp_all add: eq)
  have no: "cview (ht s) (store s) ob = None"
    using assms(3) by (auto simp: ht_lookup_def cview_def)
  have "cview (ht s'') (store s'') = (cview (ht s') (store s'))(e_oblock (store s' e) := None)"
    unfolding s''(1,2) by (rule cview_freed [OF cn_facts(2) [OF s'(3)] \<open>e \<in> set (ht s')\<close>])
  then have "cview (ht s'') (store s'') = cview (ht s) (store s)"
    using no by (simp add: v) (simp add: f(1) fun_upd_idem)
  moreover have "default_cblock_lookup cb s' = Some e"
    using s'(5) pool_geo_cong(1) [OF s'(4)] by (simp add: default_cblock_lookup_def f(3))
  ultimately show ?thesis using s'(2,3) rm v by (intro exI [of _ e] exI [of _ "r\<lparr>r_cblock := cb\<rparr>"] exI [of _ s'] exI [of _ s'']) simp
qed

theorem nucleus_insert_remove_witness:
  "\<exists>s :: unit cache_nucleus. \<exists>e r' s' s''. insert_in_cache 7 (Some \<lparr>r_op = CACHE_NUCLEUS_NEW, r_old_oblock = 0, r_cblock = 0, r_dirty_eviction = False\<rparr>) s
      = Inr (e, Some r', s') \<and>
    default_cblock_lookup (r_cblock r') s' = Some e \<and> cache_nucleus_remove e s' = Inr s''"
proof -
  obtain s :: "unit cache_nucleus" where s: "cn_ok s" "ht s = []" "\<not> cache_is_full s" "ep_nr_entries (cache_pool s) = 2"
    using small_nucleus by blast
  have l: "ht_lookup 7 s = None" "2 \<le> ep_nr_entries (cache_pool s)"
    using s(2,4) by (simp_all add: ht_lookup_def tbl_lookup_def)
  show ?thesis using nucleus_insert_remove [OF s(1,3) l] by blast
qed

text \<open>
  Remapping a resident block to a new block of the origin device keeps its entry, its address and its
  marks: in the view the old block disappears, the new block takes its place, nothing else changes.
\<close>
theorem nucleus_remap:
  assumes "cn_ok s" "ht_lookup cur s = Some e" "ht_lookup new s = None"
  shows "\<exists>s'. default_remap cur new s = Inr s' \<and> cn_ok s' \<and>
    cview (ht s') (store s') = (cview (ht s) (store s))(cur := None, new := cview (ht s) (store s) cur)"
proof -
  have e: "e \<in> set (ht s)" "e_oblock (store s e) = cur" using assms(2) lookup_Some [OF assms(1)] by blast+
  from default_remap_ok [OF assms(1) e(1) assms(3)] obtain s' where
    s': "s' = s\<lparr>store := (store s)(e := (store s e)\<lparr>e_oblock := new\<rparr>), ht := e # remove1 e (ht s)\<rparr>"
    "default_remap cur new s = Inr s'" "cn_ok s'" unfolding e(2) by blast
  have d: "distinct (map (key_of (store s)) (ht s))" "e \<notin> set (remove1 e (ht s))"
    using cn_facts(1,2) [OF assms(1)] by simp_all
  have "cview (ht s') (store s') =
      (cview (remove1 e (ht s)) (store s))(new := cview (ht s) (store s) cur)"
    using cview_fresh [OF d(2), of "store s" "(store s e)\<lparr>e_oblock := new\<rparr>"] cview_entry [OF d(1) e(1)] e(2)
    by (simp add: s'(1))
  then show ?thesis using s'(2,3) cview_remove1 [OF d(1) e(1)] e(2) by (intro exI [of _ s']) simp
qed

theorem nucleus_remap_witness:
  "\<exists>s s' :: unit cache_nucleus. ht_lookup 7 s \<noteq> None \<and> default_remap 7 8 s = Inr s' \<and>
    cview (ht s') (store s') 7 = None \<and> cview (ht s') (store s') 8 = cview (ht s) (store s) 7"
proof -
  obtain s :: "unit cache_nucleus" where s: "cn_ok s" "ht s = []" "\<not> cache_is_full s" "ep_nr_entries (cache_pool s) = 2"
    using small_nucleus by blast
  have l: "ht_lookup 7 s = None" "2 \<le> ep_nr_entries (cache_pool s)"
    using s(2,4) by (simp_all add: ht_lookup_def tbl_lookup_def)
  obtain e cp and s1 :: "unit cache_nucleus" where
    eq: "s1 = s\<lparr>store := (store s)(e := fresh_entry 7 (store s e)), cache_pool := cp, ht := e # ht s\<rparr>"
    and ok: "cn_ok s1"
    using insert_in_cache_ok [OF s(1,3) l, of "\<lparr>r_op = CACHE_NUCLEUS_NEW, r_old_oblock = 0, r_cblock = 0, r_dirty_eviction = False\<rparr>"]
    by blast
  have s1: "store s1 = (store s)(e := fresh_entry 7 (store s e))" "ht s1 = e # ht s" by (simp_all add: eq)
  have "ht_lookup 7 s1 = Some e" "ht_lookup 8 s1 = None"
    using s1(1,2) s(2) by (simp_all add: ht_lookup_def tbl_lookup_def)
  note h = this
  from nucleus_remap [OF ok h] obtain s' where
    "default_remap 7 8 s1 = Inr s'"
    "cview (ht s') (store s') = (cview (ht s1) (store s1))(7 := None, 8 := cview (ht s1) (store s1) 7)" by blast
  then show ?thesis using h(1) by (intro exI [of _ s1] exI [of _ s']) simp
qed

text \<open>
  \<open>policy_init\<close> on two freshly created pools leaves an empty nucleus in order: no block is resident, the
  residency is 0, and every entry of both pools is free.
\<close>
theorem nucleus_init:
  assumes "cache_pool s = epool_create CacheRegion nc" "meta_pool s = epool_create MetaRegion nm" "wb s = (\<lambda>_. [])"
  shows "\<exists>s'. policy_init csize msize thr s = Inr s' \<and> cn_ok s' \<and>
    cview (ht s') (store s') = Map.empty \<and> default_residency s' = 0 \<and> stats s' = stats_init \<and>
    (cache_is_full s' \<longleftrightarrow> nc = 0) \<and> (meta_is_full s' \<longleftrightarrow> nm = 0)"
proof -
  from policy_init_ok [OF assms, of csize msize thr] obtain s' cp mp where
    s': "policy_init csize msize thr s = Inr s'" "cn_ok s'" "ht s' = []"
    and eq: "s' = s\<lparr>store := store s', cache_pool := cp, meta_pool := mp, stats := stats_init, ht := [],
           cache_size := csize, meta_size := msize, thread_support := thr, cn_time := 0\<rparr>"
    and nr: "ep_nr_entries cp = nc" "ep_nr_entries mp = nm" by blast
  have f: "cache_pool s' = cp" "meta_pool s' = mp" "stats s' = stats_init" by (subst eq, simp)+
  show ?thesis using s' f nr
    by (intro exI [of _ s']) (auto simp: residency_card cache_is_full_iff meta_is_full_iff cached_def metas_def unat_eq_zero)
qed

theorem nucleus_init_witness:
  "\<exists>s'. policy_init 2 0 CACHE_NUCLEUS_SINGLE_THREAD (\<lparr>store = (\<lambda>_. \<lparr>e_oblock = 0, e_time = 0, e_dirty = False, e_allocated = False, e_migrating = False\<rparr>),
     wb = (\<lambda>_. []), thread_support = CACHE_NUCLEUS_SINGLE_THREAD, meta_size = 0, cache_size = 0,
     meta_pool = epool_create MetaRegion 0, cache_pool = epool_create CacheRegion 2,
     stats = stats_init, ht = [], cn_time = 0\<rparr> :: unit cache_nucleus) = Inr s' \<and> default_residency s' = 0 \<and>
     \<not> cache_is_full s'"
  using nucleus_init [of "\<lparr>store = (\<lambda>_. \<lparr>e_oblock = 0, e_time = 0, e_dirty = False, e_allocated = False, e_migrating = False\<rparr>),
     wb = (\<lambda>_. []), thread_support = CACHE_NUCLEUS_SINGLE_THREAD, meta_size = 0, cache_size = 0,
     meta_pool = epool_create MetaRegion 0, cache_pool = epool_create CacheRegion 2,
     stats = stats_init, ht = [], cn_time = 0\<rparr> :: unit cache_nucleus" 2 0 2 0 CACHE_NUCLEUS_SINGLE_THREAD]
  by auto

end
