(* ===== verification/Migration_Props.thy ===== *)
theory Migration_Props
  imports Migration
begin

text \<open>
  The properties of the migration tracker: a block comes out exactly when its migration is
  due, in the order of entry, and the pool of operations does not run out.
\<close>

declare split_paired_All [simp del] split_paired_Ex [simp del]

text \<open>The time at which the migration of a waiting block is due.\<close>

definition due_time :: "migration_tracker \<Rightarrow> oblock \<Rightarrow> u32 option" where
  "due_time m ob = map_option (\<lambda>e. migrated_time (store m e)) (find (\<lambda>e. e_oblock (store m e) = ob) (mt_q m))"

lemma due_time_waiting: "due_time m ob \<noteq> None \<longleftrightarrow> ob \<in> set (waiting m)"
  by (auto simp: due_time_def find_key_None waiting_def)

lemma mt_ok_base: "mt_ok delay t m \<Longrightarrow> mt_base delay m"
  by (simp add: mt_ok_def)

lemma waiting_distinct:
  assumes "mt_base delay m"
  shows "distinct (map (key_of (store m)) (mt_q m))"
proof -
  have d: "distinct (map (key_of (store m)) (mt_ht m))" "distinct (mt_q m)" "set (mt_q m) = set (mt_ht m)"
    using assms by (simp_all add: mt_base_def)
  then show ?thesis by (simp add: distinct_map)
qed

lemma due_time_Some:
  assumes "mt_base delay m"
  shows "due_time m ob = Some d \<longleftrightarrow>
    (\<exists>e \<in> set (mt_q m). e_oblock (store m e) = ob \<and> migrated_time (store m e) = d)"
proof -
  have "due_time m ob = Some d \<longleftrightarrow>
      (\<exists>e. find (\<lambda>e. e_oblock (store m e) = ob) (mt_q m) = Some e \<and> migrated_time (store m e) = d)"
    by (auto simp: due_time_def)
  then show ?thesis unfolding find_key_iff [OF waiting_distinct [OF assms]] by blast
qed

lemma due_now: "due_in t m e = 0 \<longleftrightarrow> migrated_time (store m e) = t"
  by (simp add: due_in_def unat_eq_zero)

text \<open>Only the front of the queue can be due.\<close>

lemma due_front:
  assumes "mt_ok delay t m" "e \<in> set (mt_q m)" "due_in t m e = 0"
  shows "mt_q m \<noteq> [] \<and> hd (mt_q m) = e"
proof -
  obtain x xs where q: "mt_q m = x # xs" using assms(2) by (cases "mt_q m") auto
  have "\<forall>y \<in> set xs. due_in t m x < due_in t m y" using assms(1) q by (auto simp: mt_ok_def)
  then have "e = x" using assms(2,3) q by auto
  then show ?thesis using q by simp
qed

lemma migration_next_step:
  assumes ok: "mt_ok delay t m"
  shows "\<exists>r m'. migration_next t m = Inr (r, m') \<and> mt_ok delay (t + 1) m' \<and>
    (\<forall>ob. r = Some ob \<longleftrightarrow> due_time m ob = Some t) \<and>
    (\<forall>ob. due_time m' ob = (if r = Some ob then None else due_time m ob))"
proof -
  note base = mt_ok_base [OF ok]
  show ?thesis
  proof (cases "\<exists>e \<in> set (mt_q m). due_in t m e = 0")
    case False
    then have nd: "\<forall>ob. due_time m ob \<noteq> Some t" by (auto simp: due_time_Some [OF base] due_now)
    have "migration_next t m = Inr (None, m)"
    proof (cases "mt_q m")
      case (Cons x xs)
      then have "migrated_time (store m x) \<noteq> t" using False by (auto simp: due_now)
      then show ?thesis using Cons by (simp add: migration_next_def deref_def)
    qed (simp add: migration_next_def q_length_def)
    moreover have "mt_ok delay (t + 1) m" by (rule mt_tick) (use ok False in \<open>auto simp: mt_served_def\<close>)
    ultimately show ?thesis using nd by (intro exI [of _ None] exI [of _ m]) auto
  next
    case True
    then obtain e where e: "e \<in> set (mt_q m)" "due_in t m e = 0" by blast
    let ?ob = "e_oblock (store m e)"
    from due_front [OF ok e] obtain xs where q: "mt_q m = e # xs" by (cases "mt_q m") auto
    from migration_remove_ok [OF base e(1)] obtain m' where
      m': "migration_remove ?ob m = Inr m'" "mt_base delay m'" "mt_q m' = remove1 e (mt_q m)"
      "\<forall>p. p \<noteq> e \<longrightarrow> store m' p = store m p" by blast
    have d: "distinct (mt_q m)" using base by (simp add: mt_base_def)
    have q': "mt_q m' = xs" "e \<notin> set xs" using m'(3) q d by simp_all
    have same: "\<forall>p \<in> set xs. store m' p = store m p" using m'(4) q'(2) by metis
    have "mt_q m \<noteq> []" using q by simp
    then have "migration_next t m = Inr (Some ?ob, m')"
      using q e(2) m'(1) mt_q_pos [OF ok] by (simp add: migration_next_def deref_def due_now)
    moreover have "mt_served delay t m'"
      using ok q q' same m'(2) e(2) by (auto simp: mt_served_def mt_ok_def due_in_def cong: map_cong)
    then have "mt_ok delay (t + 1) m'" by (rule mt_tick)
    moreover have "due_time m ob = Some t \<longleftrightarrow> ob = ?ob" for ob
    proof -
      have "p = e" if "p \<in> set (mt_q m)" "migrated_time (store m p) = t" for p
        using due_front [OF ok that(1)] due_front [OF ok e] that(2) by (simp add: due_now)
      then show ?thesis using e unfolding due_time_Some [OF base] due_now by blast
    qed
    moreover have "due_time m' ob = (if ob = ?ob then None else due_time m ob)" for ob
    proof -
      have k: "?ob \<notin> key_of (store m) ` set xs" using waiting_distinct [OF base] q by simp
      have f: "find (\<lambda>e. e_oblock (store m' e) = ob) xs = find (\<lambda>e. e_oblock (store m e) = ob) xs"
        by (rule find_cong) (use same in simp)
      show ?thesis
      proof (cases "ob = ?ob")
        case True
        then show ?thesis using k f by (simp add: due_time_def q' find_key_None)
      next
        case False
        have "map_option (\<lambda>e. migrated_time (store m' e)) (find (\<lambda>e. e_oblock (store m e) = ob) xs) =
            map_option (\<lambda>e. migrated_time (store m e)) (find (\<lambda>e. e_oblock (store m e) = ob) xs)"
          using same find_SomeD by (cases "find (\<lambda>e. e_oblock (store m e) = ob) xs") fastforce+
        then show ?thesis using False f by (simp add: due_time_def q q')
      qed
    qed
    ultimately show ?thesis by (intro exI [of _ "Some ?ob"] exI [of _ m']) auto
  qed
qed

text \<open>
  C33. At every access \<open>migration_next\<close> returns a block exactly if its migration is due at this time, no
  other block loses its place or its due time, and this holds across the wrap-around of the
  32-bit clock.
\<close>
theorem migration_on_time:
  assumes "mt_ok delay t m"
  shows "\<exists>r m'. migration_next t m = Inr (r, m') \<and> mt_ok delay (t + 1) m' \<and>
    (\<forall>ob. r = Some ob \<longleftrightarrow> due_time m ob = Some t) \<and>
    (\<forall>ob. due_time m' ob = (if r = Some ob then None else due_time m ob))"
  by (rule migration_next_step [OF assms])

lemma small_tracker: "\<exists>m. migration_tracker_init 3 zero_tracker = Inr m \<and> mt_ok 3 t m \<and> waiting m = []"
  by (rule migration_tracker_init_ok) (simp_all add: zero_tracker_def)

theorem migration_on_time_witness:
  "\<exists>m m'. migration_tracker_init 3 zero_tracker = Inr m \<and> migration_next 5 m = Inr (None, m')"
proof -
  obtain m where m: "migration_tracker_init 3 zero_tracker = Inr m" "mt_ok 3 5 m" "waiting m = []"
    using small_tracker by blast
  obtain r m' where r: "migration_next 5 m = Inr (r, m')" "\<forall>ob. r = Some ob \<longleftrightarrow> due_time m ob = Some 5"
    using migration_on_time [OF m(2)] by blast
  have "r = None" using r(2) due_time_waiting [of m] m(3) by (cases r) auto
  then show ?thesis using m(1) r(1) by blast
qed

text \<open>
  A block that enters the cache at time \<open>t\<close> is taken into the tracker, for which the pool always has an
  operation left, waits behind the blocks that wait already, and is due at \<open>t\<close> plus the delay.
\<close>
theorem migration_add_due:
  assumes "mt_served delay t m" "ob \<notin> set (waiting m)" "0 < delay" "unat delay < 2 ^ 31"
  shows "\<exists>m'. migration_add t ob m = Inr m' \<and> mt_ok delay (t + 1) m' \<and>
    waiting m' = waiting m @ [ob] \<and> length (waiting m') \<le> unat delay \<and> due_time m' ob = Some (t + delay)"
proof -
  from migration_add_ok [OF assms] obtain m' where
    m': "migration_add t ob m = Inr m'" "mt_ok delay (t + 1) m'" "waiting m' = waiting m @ [ob]"
    "migrated_time (store m' (last (mt_q m'))) = t + delay" by blast
  have "length (waiting m') \<le> unat delay" using mt_q_length [OF m'(2)] by (simp add: waiting_def)
  moreover have "mt_q m' \<noteq> []" using m'(3) by (auto simp: waiting_def)
  then have "last (mt_q m') \<in> set (mt_q m')" "e_oblock (store m' (last (mt_q m'))) = ob"
    using m'(3) last_map [of "mt_q m'" "key_of (store m')"] by (simp_all add: waiting_def)
  then have "due_time m' ob = Some (t + delay)"
    unfolding due_time_Some [OF mt_ok_base [OF m'(2)]] using m'(4) by blast
  ultimately show ?thesis using m' by blast
qed

theorem migration_add_due_witness:
  "\<exists>m m'. migration_tracker_init 3 zero_tracker = Inr m \<and> migration_add 5 7 m = Inr m' \<and>
    waiting m' = [7] \<and> due_time m' 7 = Some 8"
proof -
  obtain m where m: "migration_tracker_init 3 zero_tracker = Inr m" "mt_ok 3 5 m" "waiting m = []"
    using small_tracker by blast
  then have "mt_served 3 5 m" by (simp add: mt_served_def waiting_def)
  then show ?thesis using migration_add_due [of 3 5 m 7] m by auto
qed

end
