(* ===== verification/Parts.thy ===== *)
theory Parts
  imports Policy
begin

text \<open>
  Lemmas on policies that keep the entries of the hash table in queues of their own: the hash table splits
  into the cached, the migrating and the history entries, and this says what an insertion, a removal and the
  dirty mark do to the parts and to their keys. The policies LARC, ARC and LFU rest on it. At the end the calls of
  a driver, and the states they can reach.
\<close>

declare split_paired_All [simp del] split_paired_Ex [simp del]

lemma ht_split: "set t = cached t \<union> metas t" "cached t \<inter> metas t = {}"
proof -
  have "fst e = CacheRegion \<or> fst e = MetaRegion" for e :: eptr by (cases "fst e") auto
  then show "set t = cached t \<union> metas t" by (auto simp: cached_def metas_def)
  show "cached t \<inter> metas t = {}" by (auto simp: cached_def metas_def)
qed

text \<open>A queue is a part of the hash table: removal by entry is removal by key.\<close>

lemma map_remove1_key:
  assumes "distinct (map f t)" "set q \<subseteq> set t" "distinct q" "e \<in> set t"
  shows "map f (remove1 e q) = remove1 (f e) (map f q)"
proof (cases "e \<in> set q")
  case True
  have "inj_on f (set q)" using assms(1,2) by (auto simp: distinct_map intro: inj_on_subset)
  then show ?thesis using True assms(3) distinct_map_remove1 [of f q e] by (simp add: distinct_map)
next
  case False
  have "f e \<notin> f ` set q"
    using assms(1,2,4) False by (auto simp: distinct_map inj_on_def)
  then show ?thesis using False by (simp add: remove1_idem)
qed

lemma key_image_minus:
  assumes "distinct (map f t)" "A \<subseteq> set t" "e \<in> set t"
  shows "f ` (A - {e}) = f ` A - {f e}"
  using assms inj_on_image_set_diff [of f "set t" A "{e}"] by (auto simp: distinct_map)

lemma cached_remove1: "distinct t \<Longrightarrow> cached (remove1 e t) = cached t - {e}"
  and metas_remove1: "distinct t \<Longrightarrow> metas (remove1 e t) = metas t - {e}"
  by (auto simp: cached_def metas_def)

text \<open>
  The sets an insertion concerns: the new entry \<open>e\<close> is not in the table \<open>t\<close>, and \<open>Q\<close>, \<open>M\<close> and \<open>G\<close> are the
  resident, the migrating and the ghost entries of \<open>t\<close>.
\<close>

lemma cons_sets:
  assumes "e \<notin> set t"
  shows "{p \<in> cached (e # t). \<not> e_migrating ((st(e := x)) p)} =
      (if fst e = CacheRegion \<and> \<not> e_migrating x then insert e {p \<in> cached t. \<not> e_migrating (st p)}
       else {p \<in> cached t. \<not> e_migrating (st p)})"
    "{p \<in> cached (e # t). e_migrating ((st(e := x)) p)} =
      (if fst e = CacheRegion \<and> e_migrating x then insert e {p \<in> cached t. e_migrating (st p)}
       else {p \<in> cached t. e_migrating (st p)})"
    "(\<forall>p \<in> metas (e # t). \<not> e_migrating ((st(e := x)) p)) \<longleftrightarrow>
      (fst e = MetaRegion \<longrightarrow> \<not> e_migrating x) \<and> (\<forall>p \<in> metas t. \<not> e_migrating (st p))"
proof -
  have n: "e \<notin> cached t" "e \<notin> metas t" using assms by (simp_all add: cached_def metas_def)
  have u: "p \<noteq> e" if "p \<in> cached t \<or> p \<in> metas t" for p using n that by blast
  show "{p \<in> cached (e # t). \<not> e_migrating ((st(e := x)) p)} =
      (if fst e = CacheRegion \<and> \<not> e_migrating x then insert e {p \<in> cached t. \<not> e_migrating (st p)}
       else {p \<in> cached t. \<not> e_migrating (st p)})"
    using u unfolding cached_Cons by (simp only: fun_upd_apply split: if_split) blast
  show "{p \<in> cached (e # t). e_migrating ((st(e := x)) p)} =
      (if fst e = CacheRegion \<and> e_migrating x then insert e {p \<in> cached t. e_migrating (st p)}
       else {p \<in> cached t. e_migrating (st p)})"
    using u unfolding cached_Cons by (simp only: fun_upd_apply split: if_split) blast
  show "(\<forall>p \<in> metas (e # t). \<not> e_migrating ((st(e := x)) p)) \<longleftrightarrow>
      (fst e = MetaRegion \<longrightarrow> \<not> e_migrating x) \<and> (\<forall>p \<in> metas t. \<not> e_migrating (st p))"
    using u unfolding metas_Cons by (simp only: fun_upd_apply split: if_split) blast
qed

lemma keys_upd: "e \<notin> set t \<Longrightarrow> A \<subseteq> set t \<Longrightarrow> key_of (st(e := x)) ` A = key_of st ` A"
  by (intro image_cong) auto

lemma keys_upd_map: "e \<notin> set t \<Longrightarrow> set xs \<subseteq> set t \<Longrightarrow> map (key_of (st(e := x))) xs = map (key_of st) xs"
  by (intro map_cong) auto

text \<open>The dirty mark at the end of every \<open>map\<close> function, on any state of the nucleus.\<close>

lemma mark_dirty_cases:
  assumes ok: "cn_ok s"
  shows "cn_ok (mark_dirty ob w s)"
    "cview (ht (mark_dirty ob w s)) (store (mark_dirty ob w s)) = (cview (ht s) (store s))(ob :=
       map_option (\<lambda>(e, mig, d). (e, mig, d \<or> w)) (cview (ht s) (store s) ob))"
    "mark_dirty ob w s = s\<lparr>store := store (mark_dirty ob w s)\<rparr>"
    "e_oblock (store (mark_dirty ob w s) p) = e_oblock (store s p)"
    "e_migrating (store (mark_dirty ob w s) p) = e_migrating (store s p)"
proof -
  let ?s' = "mark_dirty ob w s"
  note dk = cn_facts(2) [OF ok]
  have "cn_ok ?s' \<and> cview (ht ?s') (store ?s') = (cview (ht s) (store s))(ob :=
       map_option (\<lambda>(e, mig, d). (e, mig, d \<or> w)) (cview (ht s) (store s) ob)) \<and>
    ?s' = s\<lparr>store := store ?s'\<rparr> \<and> e_oblock (store ?s' p) = e_oblock (store s p) \<and>
    e_migrating (store ?s' p) = e_migrating (store s p)"
  proof (cases "\<exists>e. ht_lookup ob s = Some e \<and> fst e = CacheRegion")
    case True
    then obtain e where e: "ht_lookup ob s = Some e" "fst e = CacheRegion" by blast
    have mem: "e \<in> set (ht s)" "e_oblock (store s e) = ob" using lookup_Some [OF ok] e by auto
    then have "e \<in> cached (ht s)" using e(2) by (simp add: cached_def)
    from mark_dirty_cached [OF ok this mem(2), of w]
    have m: "?s' = upd_entry e (\<lambda>x. x\<lparr>e_dirty := e_dirty x \<or> w\<rparr>) s" "cn_ok ?s'" by simp_all
    have "cview (ht s) ((store s)(e := (store s e)\<lparr>e_dirty := e_dirty (store s e) \<or> w\<rparr>)) =
        (cview (ht s) (store s))(ob := map_option (\<lambda>(e, mig, d). (e, mig, d \<or> w)) (cview (ht s) (store s) ob))"
      using cview_upd [OF dk mem(1), of "(store s e)\<lparr>e_dirty := e_dirty (store s e) \<or> w\<rparr>"]
        cview_entry [OF dk mem(1)] mem(2) e(2) by simp
    then show ?thesis using m(2) by (simp add: m(1))
  next
    case False
    then have v: "cview (ht s) (store s) ob = None"
      by (auto simp: cview_def ht_lookup_def split: option.split)
    have "?s' = s"
    proof (cases "ht_lookup ob s")
      case None
      then show ?thesis by (simp add: mark_dirty_def)
    next
      case (Some e)
      then have "e \<in> set (ht s)" "e_oblock (store s e) = ob" using lookup_Some [OF ok] by auto
      moreover from False Some have "e \<notin> cached (ht s)" by (simp add: cached_def)
      then have "e \<in> metas (ht s)" using ht_split(1) [of "ht s"] calculation(1) by blast
      ultimately show ?thesis using mark_dirty_meta [OF ok, of e ob w] by simp
    qed
    then show ?thesis using ok v by (simp add: fun_upd_idem)
  qed
  note all = this
  show "cn_ok ?s'" by (rule conjunct1 [OF all])
  show "cview (ht ?s') (store ?s') = (cview (ht s) (store s))(ob :=
       map_option (\<lambda>(e, mig, d). (e, mig, d \<or> w)) (cview (ht s) (store s) ob))"
    by (rule conjunct1 [OF conjunct2 [OF all]])
  show "?s' = s\<lparr>store := store ?s'\<rparr>" by (rule conjunct1 [OF conjunct2 [OF conjunct2 [OF all]]])
  show "e_oblock (store ?s' p) = e_oblock (store s p)" "e_migrating (store ?s' p) = e_migrating (store s p)"
    using conjunct2 [OF conjunct2 [OF conjunct2 [OF all]]] by simp_all
qed

section \<open>The contract of a policy that keeps its blocks in its own nucleus\<close>

text \<open>
  The default functions of the table are the same for all these policies: what such a policy has to prove is
  how its own five functions change the view of the cached blocks.
\<close>

definition resides :: "oblock \<Rightarrow> cn_result \<Rightarrow> ('e, 'm) cache_nucleus_scheme \<Rightarrow> bool" where
  "resides ob r s \<longleftrightarrow> (r_op r \<in> {CACHE_NUCLEUS_HIT, CACHE_NUCLEUS_NEW, CACHE_NUCLEUS_REPLACE} \<longrightarrow>
     (\<exists>e x. cview (ht s) (store s) ob = Some (e, x) \<and> epool_at (cache_pool s) (r_cblock r) = Some e))"

locale nucleus_access =
  fixes mp :: "oblock \<Rightarrow> bool \<Rightarrow> cn_result \<Rightarrow> ('e, 'm) cache_nucleus_scheme \<Rightarrow> (int \<times> cn_result \<times> ('e, 'm) cache_nucleus_scheme) res"
    and rm :: "oblock \<Rightarrow> bool \<Rightarrow> ('e, 'm) cache_nucleus_scheme \<Rightarrow> ('e, 'm) cache_nucleus_scheme res"
    and ins :: "oblock \<Rightarrow> cblock \<Rightarrow> ('e, 'm) cache_nucleus_scheme \<Rightarrow> ('e, 'm) cache_nucleus_scheme res"
    and mg :: "oblock \<Rightarrow> ('e, 'm) cache_nucleus_scheme \<Rightarrow> ('e, 'm) cache_nucleus_scheme res"
    and nv :: "oblock \<Rightarrow> ('e, 'm) cache_nucleus_scheme \<Rightarrow> (cache_nucleus_operation \<times> eptr option) res"
    and ok :: "('e, 'm) cache_nucleus_scheme \<Rightarrow> bool" and c :: cblock
  assumes nucleus_law: "ok s \<Longrightarrow> cn_ok s \<and> ep_nr_entries (cache_pool s) = c"
    and access_law: "ok s \<Longrightarrow> \<exists>r s'. mp ob w r0 s = Inr (0, r, s') \<and> ok s' \<and>
      write_effect ob w r (cview (ht s) (store s)) (cview (ht s') (store s')) \<and> resides ob r s' \<and>
      (\<exists>op v. nv ob s = Inr (op, v) \<and> (op = CACHE_NUCLEUS_FAIL \<longleftrightarrow> r_op r = CACHE_NUCLEUS_FAIL))"
    and promote_law: "ok s \<Longrightarrow> cview (ht s) (store s) ob = Some (e, True, d) \<Longrightarrow> \<exists>s'. mg ob s = Inr s' \<and> ok s' \<and>
      cview (ht s') (store s') = (cview (ht s) (store s))(ob \<mapsto> (e, False, d))"
    and clock_law: "ok s \<Longrightarrow> ok (default_set_time t s)"
begin

abbreviation api :: "('e, 'm) cache_nucleus_scheme policy_api" where
  "api \<equiv> nucleus_api mp rm ins mg nv"

lemma calls:
  "policy_map api = mp" "policy_migrated api = mg" "policy_remove api = rm" "policy_next_victim api = nv"
  "policy_set_time api = default_set_time" "policy_residency api = default_residency"
  "policy_cache_is_full api = default_cache_is_full" "policy_cache_lookup api = default_cache_lookup"
  "policy_cblock_lookup api = default_cblock_lookup"
  by (simp_all add: policy_calls nucleus_api_def fun_eq_iff)

lemma view: "ok s \<Longrightarrow> pview api s = cview (ht s) (store s)"
  using nucleus_law pview_nucleus by blast

lemma located: "ok s \<Longrightarrow> resides ob r s \<Longrightarrow> located api ob r s"
  using nucleus_law default_cache_lookup_view [of s ob]
  by (auto simp: resides_def located_def calls default_cblock_lookup_def)

lemma keeps_contract: "access_policy api ok (unat c)"
proof
  fix s :: "('e, 'm) cache_nucleus_scheme" and ob w r0 t e m m' ob'
  assume k: "ok s"
  note N = nucleus_law [OF k, THEN conjunct1] nucleus_law [OF k, THEN conjunct2]
  obtain r s' op v where m: "mp ob w r0 s = Inr (0, r, s')" "ok s'"
    "write_effect ob w r (cview (ht s) (store s)) (cview (ht s') (store s'))" "resides ob r s'"
    "nv ob s = Inr (op, v)" "op = CACHE_NUCLEUS_FAIL \<longleftrightarrow> r_op r = CACHE_NUCLEUS_FAIL"
    using access_law [OF k, of ob w r0] by blast
  show "succeeds (policy_map api ob w r0 s) (\<lambda>(rc, r, s').
      rc = 0 \<and> ok s' \<and> map_effect ob r (mview api s) (mview api s') \<and> located api ob r s')"
    using m write_effect_map [OF m(3)] located by (simp add: calls view [OF k] view [OF m(2)])
  show "succeeds (policy_next_victim api ob s) (\<lambda>(op, v). succeeds (policy_map api ob w r0 s)
      (\<lambda>(rc, r, s'). op = CACHE_NUCLEUS_FAIL \<longleftrightarrow> r_op r = CACHE_NUCLEUS_FAIL))"
    using m by (simp add: calls)
  show "mview api s ob = Some (e, True) \<Longrightarrow> succeeds (policy_migrated api ob s)
      (\<lambda>s'. ok s' \<and> mview api s' = (mview api s)(ob \<mapsto> (e, False)))"
  proof -
    assume "mview api s ob = Some (e, True)"
    then obtain d where "cview (ht s) (store s) ob = Some (e, True, d)"
      by (auto simp: view [OF k] clean_view_Some)
    from promote_law [OF k this] obtain s' where s': "mg ob s = Inr s'" "ok s'"
      "cview (ht s') (store s') = (cview (ht s) (store s))(ob \<mapsto> (e, False, d))" by blast
    then show ?thesis by (simp add: calls view [OF k] view [OF s'(2)])
  qed
  show "ok (policy_set_time api t s) \<and> mview api (policy_set_time api t s) = mview api s"
    using clock_law [OF k, of t] view [OF clock_law [OF k, of t]]
    by (simp add: calls view [OF k]) (simp add: default_set_time_def)
  show "mview api s ob = Some (e, m) \<Longrightarrow> mview api s ob' = Some (e, m') \<Longrightarrow> ob = ob'"
    unfolding view [OF k] by (rule nucleus_inj [OF N(1)])
  show "finite (dom (mview api s)) \<and> card (dom (mview api s)) \<le> unat c"
    using nucleus_finite [OF N(1)] nucleus_cap [OF N(1)] N(2) by (simp add: view [OF k])
  show "policy_residency api s = of_nat (card (dom (mview api s)))"
    using nucleus_residency [OF N(1)] by (simp add: calls view [OF k])
  show "policy_cache_is_full api s \<longleftrightarrow> card (dom (mview api s)) = unat c"
    using nucleus_full [OF N(1)] N(2) by (simp add: calls view [OF k])
qed

lemma starts_empty: "ok s \<Longrightarrow> ht s = [] \<Longrightarrow> mview api s = Map.empty"
  by (simp add: view clean_view_def fun_eq_iff)

end

sublocale nucleus_access \<subseteq> access_policy "nucleus_api mp rm ins mg nv" ok "unat c"
  by (rule keeps_contract)

text \<open>And what removals and dirty marks add.\<close>

locale nucleus_policy = nucleus_access +
  assumes demote_law: "ok s \<Longrightarrow> cview (ht s) (store s) ob \<noteq> None \<Longrightarrow> \<exists>s'. rm ob False s = Inr s' \<and> ok s' \<and>
      cview (ht s') (store s') = (cview (ht s) (store s))(ob := None)"
begin

lemma keeps_write_contract: "write_policy api ok (unat c)"
proof
  fix s :: "('a, 'b) cache_nucleus_scheme" and ob w r0
  assume k: "ok s"
  show "mview api s ob \<noteq> None \<Longrightarrow> succeeds (policy_remove api ob False s)
      (\<lambda>s'. ok s' \<and> mview api s' = (mview api s)(ob := None))"
  proof -
    assume "mview api s ob \<noteq> None"
    then have "cview (ht s) (store s) ob \<noteq> None" by (simp add: view [OF k])
    from demote_law [OF k this] obtain s' where s': "rm ob False s = Inr s'" "ok s'"
      "cview (ht s') (store s') = (cview (ht s) (store s))(ob := None)" by blast
    then show ?thesis by (simp add: calls view [OF k] view [OF s'(2)])
  qed
  obtain r s' where m: "mp ob w r0 s = Inr (0, r, s')" "ok s'"
    "write_effect ob w r (cview (ht s) (store s)) (cview (ht s') (store s'))"
    using access_law [OF k, of ob w r0] by blast
  show "succeeds (policy_map api ob w r0 s) (\<lambda>(rc, r, s'). write_effect ob w r (pview api s) (pview api s'))"
    using m by (simp add: calls view [OF k] view [OF m(2)])
qed

end

sublocale nucleus_policy \<subseteq> write_policy "nucleus_api mp rm ins mg nv" ok "unat c"
  by (rule keeps_write_contract)

text \<open>The effects of an access, with the mark at the end applied to the view before it.\<close>

abbreviation marked :: "oblock \<Rightarrow> bool \<Rightarrow> full_view \<Rightarrow> full_view" where
  "marked ob w v \<equiv> v(ob := map_option (\<lambda>(e, mig, d). (e, mig, d \<or> w)) (v ob))"

lemma write_effect_hit:
  "r_op r = CACHE_NUCLEUS_HIT \<Longrightarrow> v ob = Some (e, m, d) \<Longrightarrow> v1 = v \<Longrightarrow> write_effect ob w r v (marked ob w v1)"
  by (simp add: write_effect_def)

lemma write_effect_same:
  "r_op r = CACHE_NUCLEUS_FILTER \<or> r_op r = CACHE_NUCLEUS_FAIL \<Longrightarrow> v ob = None \<Longrightarrow> v1 = v \<Longrightarrow>
    write_effect ob w r v (marked ob w v1)"
  by (auto simp: write_effect_def fun_upd_idem)

lemma write_effect_new:
  assumes "r_op r = CACHE_NUCLEUS_NEW" "cview t st ob = None" "e \<notin> set t"
    "v1 = (cview t st)(ob \<mapsto> (e, True, False))"
  shows "write_effect ob w r (cview t st) (marked ob w v1)"
proof -
  have "\<forall>ob' x. cview t st ob' \<noteq> Some (e, x)"
  proof (intro allI notI)
    fix ob' and x :: "bool \<times> bool" assume "cview t st ob' = Some (e, x)"
    then have "e \<in> cached t" using view_key [of t st ob' e "fst x" "snd x"] by simp
    then show False using assms(3) by (simp add: cached_def)
  qed
  then show ?thesis unfolding write_effect_def assms(4) using assms(1,2)
    by (simp del: split_paired_All) (rule exI [of _ e], simp)
qed

lemma write_effect_replace:
  assumes "r_op r = CACHE_NUCLEUS_REPLACE" "v ob = None" "v (r_old_oblock r) = Some (e, False, r_dirty_eviction r)"
    "v1 = v(r_old_oblock r := None, ob \<mapsto> (e, True, False))"
  shows "write_effect ob w r v (marked ob w v1)"
  unfolding assms(4) using assms(1-3) by (simp add: write_effect_def)

lemma residesI:
  "cview (ht s) (store s) ob = Some (e, x) \<Longrightarrow> epool_at p (r_cblock r) = Some e \<Longrightarrow>
    pool_geo (cache_pool s) = pool_geo p \<Longrightarrow> resides ob r s"
  unfolding resides_def using pool_geo_cong(1) [of "cache_pool s" p] by auto

section \<open>Lookups after a removal and an insertion\<close>

lemma lookup_removed:
  assumes d: "distinct (map (key_of st) t)" and e: "e \<in> set t" and ob: "e_oblock (st e) = ob"
  shows "tbl_lookup (key_of (st(e := x))) (remove1 e t) ob' = (if ob' = ob then None else tbl_lookup (key_of st) t ob')"
proof -
  have dr: "distinct (map (key_of st) (remove1 e t))" and sr: "set (remove1 e t) = set t - {e}"
    using d e by (simp_all add: distinct_map_remove1 distinct_map)
  have "tbl_lookup (key_of (st(e := x))) (remove1 e t) ob' = tbl_lookup (key_of st) (remove1 e t) ob'"
    by (rule tbl_lookup_cong) (simp add: sr)
  also have "\<dots> = (if ob' = ob then None else tbl_lookup (key_of st) t ob')"
  proof (rule option_eqI)
    fix v
    have "v \<in> set t \<Longrightarrow> e_oblock (st v) = ob \<Longrightarrow> v = e" using inj_keys [OF d _ e, of v] ob by simp
    then show "tbl_lookup (key_of st) (remove1 e t) ob' = Some v \<longleftrightarrow>
        (if ob' = ob then None else tbl_lookup (key_of st) t ob') = Some v"
      using ob by (auto simp: tbl_lookup_Some [OF dr] tbl_lookup_Some [OF d] sr)
  qed
  finally show ?thesis .
qed

lemma lookup_added:
  assumes "e \<notin> set t" "e_oblock x = ob"
  shows "tbl_lookup (key_of (st(e := x))) (e # t) ob' = (if ob' = ob then Some e else tbl_lookup (key_of st) t ob')"
proof -
  have "tbl_lookup (key_of (st(e := x))) t ob' = tbl_lookup (key_of st) t ob'"
    by (rule tbl_lookup_cong) (use assms(1) in auto)
  then show ?thesis using assms(2) by (auto simp: tbl_lookup_Cons)
qed

section \<open>The free list of the cache is a stack\<close>

text \<open>
  The entry that was freed last is the one the next allocation takes: a replaced block hands its cache
  block to the block that replaces it, even when the cache has other free entries.
\<close>

definition next_free :: "('e, 'm) cache_nucleus_scheme \<Rightarrow> eptr option" where
  "next_free s = q_peek (ep_free (cache_pool s))"

lemma remove_next_free:
  assumes "cn_ok s" "e \<in> cached (ht s)" "cache_nucleus_remove e s = Inr s'"
  shows "next_free s' = Some e"
proof -
  have "in_pool (cache_pool s) (Some e)"
    using assms(1,2) cn_in_cache [OF assms(1)] by (simp add: in_cache_def cached_def)
  then show ?thesis
    using assms(3) by (auto simp: cache_nucleus_remove_def ht_remove_def wb_remove_def tbl_remove_def free_entry_def
        log_assert_def rbind_eq_Inr Let_def next_free_def split: if_splits)
qed

lemma remove_next_free_meta:
  assumes "cn_ok s" "e \<in> metas (ht s)" "cache_nucleus_remove e s = Inr s'"
  shows "next_free s' = next_free s"
proof -
  have "\<not> in_pool (cache_pool s) (Some e)"
    using assms(1,2) cn_in_cache [OF assms(1)] by (simp add: in_cache_def metas_def)
  then show ?thesis
    using assms(3) by (auto simp: cache_nucleus_remove_def ht_remove_def wb_remove_def tbl_remove_def free_entry_def
        log_assert_def rbind_eq_Inr Let_def next_free_def split: if_splits)
qed

lemma insert_next_free:
  assumes "insert_in_cache ob r s = Inr (e, r', s')"
  shows "next_free s = Some e"
  using assms by (auto simp: insert_in_cache_def alloc_pool_entry_def alloc_entry_def alloc_this_entry_def
      log_assert_def deref_def rbind_eq_Inr Let_def next_free_def split: list.splits option.splits if_splits)

section \<open>The states calls can reach\<close>

text \<open>
  A block is known if it is in the cache or remembered as a ghost. The place of a new block is free if
  no cached block has its entry.
\<close>

definition known :: "'s policy_api \<Rightarrow> oblock \<Rightarrow> 's \<Rightarrow> bool" where
  "known P ob s \<longleftrightarrow> policy_cache_lookup P ob s \<noteq> None \<or> policy_meta_lookup P ob s \<noteq> None"

definition free_place :: "'s policy_api \<Rightarrow> cblock \<Rightarrow> 's \<Rightarrow> bool" where
  "free_place P cb s \<longleftrightarrow> (\<exists>e. policy_cblock_lookup P cb s = Some e \<and>
     (\<forall>ob. policy_cache_lookup P ob s \<noteq> Some e))"

text \<open>
  One call through the function table, with the precondition its callers establish: the block whose
  migration is reported is on its way; a removed block is known, cached or ghost, and is moved to
  the history or not; a remapped block is known and its new number is not; an inserted block is not
  known and its place is free. \<open>policy_step\<close> has all calls but the insertion, \<open>policy_load\<close> is the insertion.
\<close>

inductive policy_step :: "'s policy_api \<Rightarrow> 's \<Rightarrow> 's \<Rightarrow> bool" for P where
  step_map: "policy_map P ob w r s = Inr (rc, r', s') \<Longrightarrow> policy_step P s s'"
| step_migrated: "mview P s ob = Some (e, True) \<Longrightarrow> policy_migrated P ob s = Inr s' \<Longrightarrow> policy_step P s s'"
| step_remove: "known P ob s \<Longrightarrow> policy_remove P ob h s = Inr s' \<Longrightarrow> policy_step P s s'"
| step_remap: "known P ob s \<Longrightarrow> \<not> known P nob s \<Longrightarrow> policy_remap P ob nob s = Inr s' \<Longrightarrow> policy_step P s s'"
| step_time: "policy_step P s (policy_set_time P t s)"

inductive policy_load :: "'s policy_api \<Rightarrow> 's \<Rightarrow> 's \<Rightarrow> bool" for P where
  load_insert: "\<not> known P ob s \<Longrightarrow> free_place P cb s \<Longrightarrow> policy_insert P ob cb s = Inr s' \<Longrightarrow> policy_load P s s'"

text \<open>
  \<open>policy_reach\<close>: all calls in any order. \<open>policy_loaded\<close>: only the insertions of the blocks a former instance
  has left in the cache, and \<open>policy_used\<close>: such insertions first, as the kernel does when it creates a
  target, and then all the other calls in any order.
\<close>

inductive policy_reach :: "'s policy_api \<Rightarrow> 's res \<Rightarrow> 's \<Rightarrow> bool" for P init where
  reach_init: "init = Inr s \<Longrightarrow> policy_reach P init s"
| reach_step: "policy_reach P init s \<Longrightarrow> policy_step P s s' \<Longrightarrow> policy_reach P init s'"
| reach_load: "policy_reach P init s \<Longrightarrow> policy_load P s s' \<Longrightarrow> policy_reach P init s'"

inductive policy_loaded :: "'s policy_api \<Rightarrow> 's res \<Rightarrow> 's \<Rightarrow> bool" for P init where
  loaded_init: "init = Inr s \<Longrightarrow> policy_loaded P init s"
| loaded_load: "policy_loaded P init s \<Longrightarrow> policy_load P s s' \<Longrightarrow> policy_loaded P init s'"

inductive policy_used :: "'s policy_api \<Rightarrow> 's res \<Rightarrow> 's \<Rightarrow> bool" for P init where
  used_loaded: "policy_loaded P init s \<Longrightarrow> policy_used P init s"
| used_step: "policy_used P init s \<Longrightarrow> policy_step P s s' \<Longrightarrow> policy_used P init s'"

text \<open>What a policy adds to the contract to keep its invariant under the calls of a driver.\<close>

locale managed_policy = cache_policy +
  assumes forget_law: "inv s \<Longrightarrow> known P ob s \<Longrightarrow> succeeds (policy_remove P ob h s) inv"
    and remap_law: "inv s \<Longrightarrow> known P ob s \<Longrightarrow> \<not> known P nob s \<Longrightarrow> succeeds (policy_remap P ob nob s) inv"
begin

lemma step_inv: "policy_step P s s' \<Longrightarrow> inv s \<Longrightarrow> inv s'"
proof (induction rule: policy_step.induct)
  case (step_map ob w r s rc r' s')
  then show ?case using map_law [of s ob w r] by simp
next
  case (step_migrated s ob e s')
  then show ?case using migrated_law [of s ob e] by simp
next
  case (step_remove ob s h s')
  then show ?case using forget_law [of s ob h] by simp
next
  case (step_remap ob s nob s')
  then show ?case using remap_law [of s ob nob] by simp
next
  case (step_time s t)
  then show ?case using time_law by blast
qed

lemma used_inv: "policy_used P init s \<Longrightarrow> (\<And>i. policy_loaded P init i \<Longrightarrow> inv i) \<Longrightarrow> inv s"
  by (induction rule: policy_used.induct) (use step_inv in blast)+

end

text \<open>\<open>fresh\<close> is what a policy keeps while blocks are loaded.\<close>

locale loadable_policy =
  fixes P :: "'s policy_api" and fresh :: "'s \<Rightarrow> bool"
  assumes load_law: "fresh s \<Longrightarrow> \<not> known P ob s \<Longrightarrow> free_place P cb s \<Longrightarrow> succeeds (policy_insert P ob cb s) fresh"
begin

lemma load_inv: "policy_load P s s' \<Longrightarrow> fresh s \<Longrightarrow> fresh s'"
  by (induction rule: policy_load.induct) (use load_law in fastforce)

lemma loaded_inv: "policy_loaded P init s \<Longrightarrow> (\<And>i. init = Inr i \<Longrightarrow> fresh i) \<Longrightarrow> fresh s"
  by (induction rule: policy_loaded.induct) (use load_inv in blast)+

end

locale driven_policy = managed_policy P inv cap + loadable_policy P inv
  for P :: "'s policy_api" and inv :: "'s \<Rightarrow> bool" and cap :: nat
begin

lemma reach_inv: "policy_reach P init s \<Longrightarrow> (\<And>i. init = Inr i \<Longrightarrow> inv i) \<Longrightarrow> inv s"
  by (induction rule: policy_reach.induct) (use step_inv load_inv in blast)+

end

text \<open>Known blocks and free places of a policy that keeps its blocks in its own nucleus.\<close>

lemma known_nucleus:
  assumes "cn_ok s"
  shows "known (nucleus_api mp rm ins mg nv) ob s \<longleftrightarrow> ht_lookup ob s \<noteq> None"
proof (cases "ht_lookup ob s")
  case None
  then show ?thesis by (simp add: known_def policy_calls nucleus_api_def default_cache_lookup_def
      default_meta_lookup_def in_cache_def in_meta_def)
next
  case (Some e)
  then have "e \<in> set (ht s)" using lookup_Some [OF assms] by blast
  then have "in_cache s (Some e) \<or> in_meta s (Some e)"
    using cn_in_cache [OF assms] cn_in_meta [OF assms] by (cases "fst e") blast+
  then show ?thesis using Some by (auto simp: known_def policy_calls nucleus_api_def default_cache_lookup_def
      default_meta_lookup_def Let_def)
qed

lemma free_place_nucleus:
  assumes ok: "cn_ok s" and free: "free_place (nucleus_api mp rm ins mg nv) cb s"
  shows "\<exists>e. epool_at (cache_pool s) cb = Some e \<and> e \<notin> set (ht s)"
proof -
  obtain e where e: "epool_at (cache_pool s) cb = Some e" "\<And>ob. default_cache_lookup ob s \<noteq> Some e"
    using free by (auto simp: free_place_def policy_calls nucleus_api_def default_cblock_lookup_def)
  have "e \<notin> set (ht s)"
  proof
    assume m: "e \<in> set (ht s)"
    then have "ht_lookup (e_oblock (store s e)) s = Some e" using lookup_Some [OF ok] by blast
    then show False using e(2) [of "e_oblock (store s e)"] epool_at_in_pool [OF e(1)]
      by (simp add: default_cache_lookup_def in_cache_def)
  qed
  then show ?thesis using e(1) by blast
qed

end
