(* ===== verification/Larc.thy ===== *)
theory Larc
  imports Parts
begin

text \<open>
  LARC (\<open>src/src/algs/larc/larc_policy.c\<close>, \<open>larc_policy_struct.h\<close>): an LRU queue of cached blocks behind
  a ghost queue of blocks without data, whose size adapts between a tenth and nine tenths of the metadata
  size. The theory has its transactions and API functions, its invariant with the bounds of the adaptive
  size, the abstract cache it refines and the contract of a policy.
\<close>

section \<open>The policy\<close>

datatype larc_list = LARC_Q | LARC_G | LARC_NULL

text \<open>\<open>larc_entry\<close> adds to \<open>entry\<close> only the node that links it into one of the two queues.\<close>

record larc_policy = "unit cache_nucleus" +
  larc_q :: "eptr list"
  larc_g :: "eptr list"
  larc_g_size :: cblock

record larc_transaction =
  lat_oblock :: oblock
  lat_g_size :: cblock
  lat_c_hit :: bool
  lat_c_evict :: bool
  lat_g_hit :: bool
  lat_g_evict :: bool
  lat_dest :: larc_list

definition larc_transaction_init :: "larc_policy \<Rightarrow> oblock \<Rightarrow> larc_transaction" where
  "larc_transaction_init s ob =
     \<lparr>lat_oblock = ob, lat_g_size = larc_g_size s, lat_c_hit = False, lat_c_evict = False,
      lat_g_hit = False, lat_g_evict = False, lat_dest = LARC_NULL\<rparr>"

definition larc_increase_g_size :: "larc_policy \<Rightarrow> cblock res" where
  "larc_increase_g_size s =
     (let c_size = meta_size s; g_size = larc_g_size s in
      rbind (udiv c_size g_size) (\<lambda>d. Inr (min_u ((9 * c_size) div 10) (g_size + d))))"

definition larc_decrease_g_size :: "larc_policy \<Rightarrow> cblock res" where
  "larc_decrease_g_size s =
     (let c_size = meta_size s; g_size = larc_g_size s in
      rbind (udiv c_size (c_size - g_size)) (\<lambda>tmp.
      Inr (if tmp < g_size then max_u (c_size div 10) (g_size - tmp) else c_size div 10)))"

definition larc_transaction_set :: "larc_policy \<Rightarrow> larc_transaction \<Rightarrow> larc_transaction res" where
  "larc_transaction_set s lt =
     (let e = ht_lookup (lat_oblock lt) s in
      if e \<noteq> None \<and> in_cache s e then
        rbind (larc_decrease_g_size s) (\<lambda>g.
        Inr (lt\<lparr>lat_c_hit := True, lat_g_size := g, lat_dest := LARC_Q\<rparr>))
      else
        rbind (larc_increase_g_size s) (\<lambda>g.
        let lt = lt\<lparr>lat_g_size := g\<rparr> in
        Inr (if e \<noteq> None \<and> in_meta s e then
               let lt = lt\<lparr>lat_g_hit := True, lat_dest := LARC_Q\<rparr> in
               if cache_is_full s then lt\<lparr>lat_c_evict := True\<rparr> else lt
             else if \<not> cache_is_full s then lt\<lparr>lat_dest := LARC_Q\<rparr>
             else
               let lt = lt\<lparr>lat_dest := LARC_G\<rparr> in
               if q_length (larc_g s) + 1 > lat_g_size lt then lt\<lparr>lat_g_evict := True\<rparr> else lt)))"

definition larc_transaction_is_legal :: "larc_policy \<Rightarrow> larc_transaction \<Rightarrow> bool" where
  "larc_transaction_is_legal s lt = (if lat_c_evict lt then q_length (larc_q s) > 0 else True)"

text \<open>\<open>queue_remove\<close> takes the entry out of the queue it is in.\<close>

definition larc_unlink :: "eptr \<Rightarrow> larc_policy \<Rightarrow> larc_policy" where
  "larc_unlink e s = s\<lparr>larc_q := q_remove e (larc_q s), larc_g := q_remove e (larc_g s)\<rparr>"

definition larc_remove_entry :: "eptr \<Rightarrow> larc_policy \<Rightarrow> larc_policy res" where
  "larc_remove_entry e s =
     (let s = (if \<not> e_migrating (store s e) then
                 let s = larc_unlink e s in
                 if in_cache s (Some e) then upd_stats inc_demotions s else s
               else s)
      in cache_nucleus_remove e s)"

text \<open>The queue to evict from is passed as the field of the policy it is; the result may be null.\<close>

definition larc_evict ::
  "(larc_policy \<Rightarrow> eptr list) \<Rightarrow> cn_result option \<Rightarrow> larc_policy \<Rightarrow> (cn_result option \<times> larc_policy) res" where
  "larc_evict q result s =
     rbind (deref (q_peek (q s))) (\<lambda>demoted.
     let result = map_option (\<lambda>r. r\<lparr>r_old_oblock := e_oblock (store s demoted),
                                     r_dirty_eviction := e_dirty (store s demoted)\<rparr>) result in
     rbind (larc_remove_entry demoted s) (\<lambda>s. Inr (result, s)))"

text \<open>The middle part of \<open>larc_transaction_commit\<close>: the block goes to its destination.\<close>

definition larc_place ::
  "larc_transaction \<Rightarrow> cn_result \<Rightarrow> larc_policy \<Rightarrow> (cn_result \<times> larc_policy) res" where
  "larc_place lt result s =
     (if lat_dest lt = LARC_Q then
        rbind (if lat_c_hit lt then
                 rbind (deref (ht_lookup (lat_oblock lt) s)) (\<lambda>e.
                 rbind (infer_cblock (cache_pool s) e) (\<lambda>cb.
                 let s = (if \<not> e_migrating (store s e) then larc_unlink e s else s) in
                 Inr (e, result\<lparr>r_cblock := cb, r_op := CACHE_NUCLEUS_HIT\<rparr>, upd_stats inc_hits s)))
               else
                 rbind (insert_in_cache (lat_oblock lt) (Some result) s) (\<lambda>(e, res, s).
                 rbind (deref res) (\<lambda>result.
                 rbind (cn_migrating_entry e s) (\<lambda>s.
                 Inr (e, result, upd_stats inc_misses s))))) (\<lambda>(e, result, s).
        if \<not> e_migrating (store s e) then
          rbind (q_push [larc_g s] (larc_q s) e) (\<lambda>q. Inr (result, s\<lparr>larc_q := q\<rparr>))
        else Inr (result, s))
      else
        rbind (insert_in_meta (lat_oblock lt) s) (\<lambda>(e, s).
        rbind (q_push [larc_q s] (larc_g s) e) (\<lambda>q.
        Inr (result\<lparr>r_op := CACHE_NUCLEUS_FILTER\<rparr>, upd_stats inc_filters (s\<lparr>larc_g := q\<rparr>)))))"

definition larc_transaction_commit ::
  "larc_transaction \<Rightarrow> cn_result \<Rightarrow> larc_policy \<Rightarrow> (cn_result \<times> larc_policy) res" where
  "larc_transaction_commit lt result s =
     (let s = s\<lparr>larc_g_size := lat_g_size lt\<rparr>;
          result = result\<lparr>r_op := CACHE_NUCLEUS_NEW\<rparr> in
      rbind (if lat_c_evict lt then
               rbind (larc_evict larc_q (Some result) s) (\<lambda>(res, s).
               rbind (deref res) (\<lambda>result. Inr (result\<lparr>r_op := CACHE_NUCLEUS_REPLACE\<rparr>, s)))
             else Inr (result, s)) (\<lambda>(result, s).
      rbind (if lat_g_hit lt then
               rbind (deref (ht_lookup (lat_oblock lt) s)) (\<lambda>e. larc_remove_entry e s)
             else Inr s) (\<lambda>s.
      rbind (larc_place lt result s) (\<lambda>(result, s).
      if lat_g_evict lt then rbind (larc_evict larc_g None s) (\<lambda>(_, s). Inr (result, s))
      else Inr (result, s)))))"

definition larc_remove_api :: "oblock \<Rightarrow> bool \<Rightarrow> larc_policy \<Rightarrow> larc_policy res" where
  "larc_remove_api ob remove_to_history s =
     rbind (deref (ht_lookup ob s)) (\<lambda>e. larc_remove_entry e s)"

definition larc_insert_api :: "oblock \<Rightarrow> cblock \<Rightarrow> larc_policy \<Rightarrow> larc_policy res" where
  "larc_insert_api ob cb s =
     rbind (insert_in_cache_at ob cb None s) (\<lambda>(e, _, s).
     rbind (q_push [larc_g s] (larc_q s) e) (\<lambda>q. Inr (s\<lparr>larc_q := q\<rparr>)))"

definition larc_migrated_api :: "oblock \<Rightarrow> larc_policy \<Rightarrow> larc_policy res" where
  "larc_migrated_api ob s =
     rbind (log_assert (ht_lookup ob s \<noteq> None)) (\<lambda>_.
     rbind (deref (ht_lookup ob s)) (\<lambda>e.
     rbind (log_assert (e_migrating (store s e))) (\<lambda>_.
     rbind (cn_migrated_entry e s) (\<lambda>s.
     rbind (q_push [larc_g s] (larc_q s) e) (\<lambda>q.
     Inr (upd_stats inc_promotions (s\<lparr>larc_q := q\<rparr>)))))))"

definition larc_map_api ::
  "oblock \<Rightarrow> bool \<Rightarrow> cn_result \<Rightarrow> larc_policy \<Rightarrow> (int \<times> cn_result \<times> larc_policy) res" where
  "larc_map_api ob write result s =
     rbind (larc_transaction_set s (larc_transaction_init s ob)) (\<lambda>lt.
     if larc_transaction_is_legal s lt then
       rbind (larc_transaction_commit lt result s) (\<lambda>(result, s).
       Inr (0, result, mark_dirty ob write (upd_stats inc_ios s)))
     else Inr (0, result\<lparr>r_op := CACHE_NUCLEUS_FAIL\<rparr>, s))"

definition larc_next_victim_api ::
  "oblock \<Rightarrow> larc_policy \<Rightarrow> (cache_nucleus_operation \<times> eptr option) res" where
  "larc_next_victim_api ob s =
     rbind (larc_transaction_set s (larc_transaction_init s ob)) (\<lambda>lt.
     Inr (if larc_transaction_is_legal s lt then
            if lat_c_evict lt then (CACHE_NUCLEUS_REPLACE, q_peek (larc_q s))
            else if lat_g_hit lt then (CACHE_NUCLEUS_NEW, None)
            else (CACHE_NUCLEUS_FILTER, None)
          else (CACHE_NUCLEUS_FAIL, None)))"

definition larc_api :: "larc_policy policy_api" where
  "larc_api = nucleus_api larc_map_api larc_remove_api larc_insert_api larc_migrated_api
     larc_next_victim_api"

definition zero_larc :: larc_policy where
  "zero_larc = \<lparr>store = (\<lambda>_. \<lparr>e_oblock = 0, e_time = 0, e_dirty = False, e_allocated = False,
       e_migrating = False\<rparr>), wb = (\<lambda>_. []),
     thread_support = CACHE_NUCLEUS_SINGLE_THREAD, meta_size = 0, cache_size = 0,
     meta_pool = epool_create MetaRegion 0, cache_pool = epool_create CacheRegion 0,
     stats = stats_init, ht = [], cn_time = 0, larc_q = [], larc_g = [], larc_g_size = 0\<rparr>"

definition larc_init :: "cblock \<Rightarrow> cblock \<Rightarrow> larc_policy \<Rightarrow> larc_policy res" where
  "larc_init csize msize s =
     policy_init csize msize CACHE_NUCLEUS_SINGLE_THREAD
       (s\<lparr>larc_q := [], larc_g := [], larc_g_size := msize div 10,
          cache_pool := epool_create CacheRegion csize, meta_pool := epool_create MetaRegion msize\<rparr>)"

definition larc_create :: "cblock \<Rightarrow> cblock \<Rightarrow> larc_policy res" where
  "larc_create csize msize = larc_init csize msize zero_larc"

section \<open>The invariant\<close>

text \<open>
  \<open>c\<close> and \<open>m\<close> are the sizes of the cache and of the metadata. The ghost queue is the metadata in use.
  Nine times the metadata size must fit 32 bits, and a tenth of it must not be zero.
\<close>

definition larc_base :: "u32 \<Rightarrow> u32 \<Rightarrow> larc_policy \<Rightarrow> bool" where
  "larc_base c m s \<longleftrightarrow> cn_ok s \<and> ep_nr_entries (cache_pool s) = c \<and> 2 \<le> c \<and>
     ep_nr_entries (meta_pool s) = m \<and> meta_size s = m \<and> 10 \<le> unat m \<and> 9 * unat m < 2 ^ 32 \<and>
     distinct (larc_q s) \<and> set (larc_q s) = {e \<in> cached (ht s). \<not> e_migrating (store s e)} \<and>
     distinct (larc_g s) \<and> set (larc_g s) = metas (ht s) \<and> (\<forall>e \<in> metas (ht s). \<not> e_migrating (store s e)) \<and>
     unat m div 10 \<le> unat (larc_g_size s) \<and> unat (larc_g_size s) \<le> 9 * unat m div 10"

text \<open>Between two calls the ghost queue is not longer than nine tenths of the metadata.\<close>

definition larc_ok :: "u32 \<Rightarrow> u32 \<Rightarrow> larc_policy \<Rightarrow> bool" where
  "larc_ok c m s \<longleftrightarrow> larc_base c m s \<and> length (larc_g s) \<le> 9 * unat m div 10"

lemma larc_baseD:
  assumes "larc_base c m s"
  shows "cn_ok s" "ep_nr_entries (cache_pool s) = c" "2 \<le> c" "ep_nr_entries (meta_pool s) = m"
    "meta_size s = m" "10 \<le> unat m" "9 * unat m < 2 ^ 32" "distinct (larc_q s)"
    "set (larc_q s) = {e \<in> cached (ht s). \<not> e_migrating (store s e)}" "distinct (larc_g s)"
    "set (larc_g s) = metas (ht s)" "\<forall>e \<in> metas (ht s). \<not> e_migrating (store s e)"
    "unat m div 10 \<le> unat (larc_g_size s)" "unat (larc_g_size s) \<le> 9 * unat m div 10"
  using assms unfolding larc_base_def by (safe, simp_all)

section \<open>The adaptive size\<close>

definition grow :: "nat \<Rightarrow> nat \<Rightarrow> nat" where
  "grow m g = min (9 * m div 10) (g + m div g)"

definition shrink :: "nat \<Rightarrow> nat \<Rightarrow> nat" where
  "shrink m g = (let t = m div (m - g) in if t < g then max (m div 10) (g - t) else m div 10)"

lemma grow_bounds:
  assumes "10 \<le> m" "m div 10 \<le> g" "g \<le> 9 * m div 10"
  shows "m div 10 \<le> grow m g" "grow m g \<le> 9 * m div 10" "g \<le> grow m g"
  using assms by (auto simp: grow_def)

lemma shrink_bounds:
  assumes "10 \<le> m" "m div 10 \<le> g" "g \<le> 9 * m div 10"
  shows "m div 10 \<le> shrink m g" "shrink m g \<le> 9 * m div 10" "shrink m g \<le> g"
  using assms by (auto simp: shrink_def Let_def)

lemma unat_div10: "unat (w div 10 :: u32) = unat w div 10"
  by (simp add: unat_div)

lemma larc_grow:
  assumes ok: "larc_base c m s"
  shows "\<exists>g. larc_increase_g_size s = Inr g \<and> unat g = grow (unat m) (unat (larc_g_size s))"
proof -
  note D = larc_baseD [OF ok]
  let ?g = "larc_g_size s"
  have g0: "0 < unat ?g" using D(6,13) by auto
  then have nz: "?g \<noteq> 0" by auto
  have nine: "unat (9 * m) = 9 * unat m"
    using D(7) by (subst unat_mult_lem [THEN iffD1]) simp_all
  have "unat m div unat ?g \<le> unat m" by (rule div_le_dividend)
  moreover have "9 * unat m div 10 \<le> unat m" by simp
  ultimately have "unat ?g + unat m div unat ?g < 2 ^ 32" using D(7,14) by linarith
  then have "unat ?g + unat m div unat ?g < 2 ^ LENGTH(32)" by simp
  then have "unat (?g + m div ?g) = unat ?g + unat m div unat ?g"
    by (subst unat_add_lem [THEN iffD1]) (simp_all add: unat_div)
  then have "unat (min_u ((9 * m) div 10) (?g + m div ?g)) = grow (unat m) (unat ?g)"
    by (simp add: min_u_eq grow_def min_def word_le_nat_alt unat_div10 nine)
  then show ?thesis using nz D(5) by (simp add: larc_increase_g_size_def udiv_def Let_def)
qed

lemma larc_shrink:
  assumes ok: "larc_base c m s"
  shows "\<exists>g. larc_decrease_g_size s = Inr g \<and> unat g = shrink (unat m) (unat (larc_g_size s))"
proof -
  note D = larc_baseD [OF ok]
  let ?g = "larc_g_size s"
  have lt: "unat ?g < unat m" using D(6,14) by linarith
  then have "?g \<le> m" by (simp add: word_le_nat_alt)
  then have sub: "unat (m - ?g) = unat m - unat ?g" by (rule unat_sub)
  then have nz: "m - ?g \<noteq> 0" using lt by auto
  let ?t = "m div (m - ?g)"
  have t: "unat ?t = unat m div (unat m - unat ?g)" by (simp add: unat_div sub)
  have "?t < ?g \<Longrightarrow> unat (?g - ?t) = unat ?g - unat ?t"
    by (intro unat_sub) simp
  then have "unat (if ?t < ?g then max_u (m div 10) (?g - ?t) else m div 10) = shrink (unat m) (unat ?g)"
    by (simp add: shrink_def Let_def t [symmetric] word_less_nat_alt max_u_eq max_def word_le_nat_alt unat_div10)
  then show ?thesis using nz D(5) by (simp add: larc_decrease_g_size_def udiv_def Let_def)
qed

section \<open>The abstract cache\<close>

text \<open>
  The cached blocks in the order of their last use, the blocks on their way into the cache, the ghosts,
  oldest first, and the size the ghost queue is to have.
\<close>

record larc_spec =
  lq :: "oblock list"
  lway :: "oblock set"
  lg :: "oblock list"
  lgs :: nat

definition larc_abs :: "larc_policy \<Rightarrow> larc_spec" where
  "larc_abs s = \<lparr>lq = map (key_of (store s)) (larc_q s),
     lway = key_of (store s) ` {e \<in> cached (ht s). e_migrating (store s e)},
     lg = map (key_of (store s)) (larc_g s), lgs = unat (larc_g_size s)\<rparr>"

text \<open>
  One access: a resident block is a hit and shrinks the ghost queue. Every miss lets it grow. A ghost is
  promoted, and replaces the least recently used block if the cache is full; if the cache is full of
  migrating blocks the access fails and changes nothing. Any other miss is cached while there is room, and
  becomes a ghost otherwise, at the cost of the oldest ghost if there are too many.
\<close>

definition spec_larc ::
  "nat \<Rightarrow> nat \<Rightarrow> oblock \<Rightarrow> larc_spec \<Rightarrow> cache_nucleus_operation \<times> oblock option \<times> larc_spec" where
  "spec_larc c m ob a =
     (let room = length (lq a) + card (lway a) < c; up = grow m (lgs a) in
      if ob \<in> set (lq a) then
        (CACHE_NUCLEUS_HIT, None, a\<lparr>lq := remove1 ob (lq a) @ [ob], lgs := shrink m (lgs a)\<rparr>)
      else if ob \<in> lway a then (CACHE_NUCLEUS_HIT, None, a\<lparr>lgs := shrink m (lgs a)\<rparr>)
      else if ob \<in> set (lg a) then
        (if room then
           (CACHE_NUCLEUS_NEW, None, a\<lparr>lway := insert ob (lway a), lg := remove1 ob (lg a), lgs := up\<rparr>)
         else
           case lq a of
             [] \<Rightarrow> (CACHE_NUCLEUS_FAIL, None, a)
           | old # rest \<Rightarrow>
               (CACHE_NUCLEUS_REPLACE, Some old,
                \<lparr>lq = rest, lway = insert ob (lway a), lg = remove1 ob (lg a), lgs = up\<rparr>))
      else if room then (CACHE_NUCLEUS_NEW, None, a\<lparr>lway := insert ob (lway a), lgs := up\<rparr>)
      else
        (CACHE_NUCLEUS_FILTER, None,
         a\<lparr>lg := (if Suc (length (lg a)) > up then tl (lg a @ [ob]) else lg a @ [ob]), lgs := up\<rparr>))"

section \<open>Lookups and sizes\<close>

lemma larc_keys: "larc_base c m s \<Longrightarrow> distinct (map (key_of (store s)) (ht s))"
  by (rule cn_facts(2)) (rule larc_baseD)

lemma larc_lookup:
  assumes ok: "larc_base c m s"
  shows "ob \<in> set (lq (larc_abs s)) \<longleftrightarrow>
      (\<exists>e. ht_lookup ob s = Some e \<and> fst e = CacheRegion \<and> \<not> e_migrating (store s e))"
    "ob \<in> lway (larc_abs s) \<longleftrightarrow>
      (\<exists>e. ht_lookup ob s = Some e \<and> fst e = CacheRegion \<and> e_migrating (store s e))"
    "ob \<in> set (lg (larc_abs s)) \<longleftrightarrow> (\<exists>e. ht_lookup ob s = Some e \<and> fst e = MetaRegion)"
  using larc_baseD(9,11) [OF ok] lookup_Some [OF larc_baseD(1) [OF ok]]
  by (auto simp: larc_abs_def cached_def metas_def)

lemma larc_count:
  assumes ok: "larc_base c m s"
  shows "length (lq (larc_abs s)) + card (lway (larc_abs s)) = card (cached (ht s))"
proof -
  note D = larc_baseD [OF ok]
  let ?M = "{e \<in> cached (ht s). e_migrating (store s e)}"
  have inj: "inj_on (key_of (store s)) (set (ht s))" using larc_keys [OF ok] by (simp add: distinct_map)
  have "card (lway (larc_abs s)) = card ?M"
    using card_image [OF inj_on_subset [OF inj, of ?M]] by (simp add: larc_abs_def cached_def)
  moreover have "length (lq (larc_abs s)) = card (set (larc_q s))"
    using distinct_card [OF D(8)] by (simp add: larc_abs_def)
  moreover have "cached (ht s) = set (larc_q s) \<union> ?M" "set (larc_q s) \<inter> ?M = {}" using D(9) by auto
  ultimately show ?thesis using card_Un_disjoint [of "set (larc_q s)" ?M] by simp
qed

lemma larc_full:
  assumes ok: "larc_base c m s"
  shows "cache_is_full s \<longleftrightarrow> \<not> length (lq (larc_abs s)) + card (lway (larc_abs s)) < unat c"
    "length (lq (larc_abs s)) + card (lway (larc_abs s)) \<le> unat c"
  unfolding larc_count [OF ok] using larc_baseD(1,2) [OF ok] cache_is_full_iff card_cached_le
  by (metis le_less nat_neq_iff)+

lemma larc_q_pos:
  assumes ok: "larc_base c m s"
  shows "q_length (larc_q s) > 0 \<longleftrightarrow> larc_q s \<noteq> []"
proof -
  note D = larc_baseD [OF ok]
  have "length (larc_q s) = card (set (larc_q s))" using distinct_card [OF D(8)] by simp
  also have "\<dots> \<le> card (cached (ht s))" using D(9) by (intro card_mono) auto
  also have "\<dots> \<le> unat c" using card_cached_le [OF D(1)] D(2) by simp
  finally have "length (larc_q s) < 2 ^ LENGTH(32)" using unat_less_exp [of c] by simp
  then show ?thesis by (auto simp: q_length_def of_nat_pos_small)
qed

lemma larc_g_over:
  assumes ok: "larc_ok c m s"
  shows "q_length (larc_g s) + 1 > g \<longleftrightarrow> Suc (length (larc_g s)) > unat g"
proof -
  have "length (larc_g s) \<le> 9 * unat m div 10" "9 * unat m < 4294967296"
    using ok larc_baseD(7) [of c m s] by (simp_all add: larc_ok_def)
  then have "Suc (length (larc_g s)) < 4294967296" by linarith
  then have "Suc (length (larc_g s)) < 2 ^ LENGTH(32)" by simp
  then have "unat (of_nat (Suc (length (larc_g s))) :: u32) = Suc (length (larc_g s))" by (rule unat_of_nat_small)
  then show ?thesis by (simp add: q_length_def word_less_nat_alt add.commute)
qed

lemma larc_meta_room:
  assumes ok: "larc_base c m s" and len: "length (larc_g s) \<le> 9 * unat m div 10"
  shows "\<not> meta_is_full s"
proof -
  note D = larc_baseD [OF ok]
  have "card (metas (ht s)) = length (larc_g s)" using distinct_card [OF D(10)] D(11) by simp
  then have "card (metas (ht s)) < unat m" using D(6) len by linarith
  then show ?thesis using meta_is_full_iff [OF D(1)] D(4) by simp
qed

section \<open>The steps of an access\<close>

lemma larc_abs_cong:
  assumes "larc_q s' = larc_q s" "larc_g s' = larc_g s" "larc_g_size s' = larc_g_size s" "ht s' = ht s"
    "\<And>p. e_oblock (store s' p) = e_oblock (store s p)" "\<And>p. e_migrating (store s' p) = e_migrating (store s p)"
  shows "larc_abs s' = larc_abs s"
  using assms by (simp add: larc_abs_def)

lemma larc_base_cong:
  assumes "larc_base c m s" "cn_ok s'" "pool_geo (cache_pool s') = pool_geo (cache_pool s)"
    "pool_geo (meta_pool s') = pool_geo (meta_pool s)" "meta_size s' = meta_size s"
    "larc_g_size s' = larc_g_size s"
    "distinct (larc_q s')" "set (larc_q s') = {e \<in> cached (ht s'). \<not> e_migrating (store s' e)}"
    "distinct (larc_g s')" "set (larc_g s') = metas (ht s')" "\<forall>e \<in> metas (ht s'). \<not> e_migrating (store s' e)"
  shows "larc_base c m s'"
  using larc_baseD [OF assms(1)] assms(2-) by (simp add: larc_base_def pool_geo_eq)

text \<open>An entry of either pool leaves.\<close>

lemma larc_remove_entry_ok:
  assumes ok: "larc_base c m s" and e: "e \<in> set (ht s)" and ob: "e_oblock (store s e) = ob"
  shows "\<exists>s'. larc_remove_entry e s = Inr s' \<and> larc_base c m s' \<and>
    larc_abs s' = \<lparr>lq = remove1 ob (lq (larc_abs s)), lway = lway (larc_abs s) - {ob},
      lg = remove1 ob (lg (larc_abs s)), lgs = lgs (larc_abs s)\<rparr> \<and>
    cview (ht s') (store s') = (cview (ht s) (store s))(ob := None) \<and>
    store s' = (store s)(e := freed_entry (store s e)) \<and> ht s' = remove1 e (ht s) \<and>
    pool_geo (cache_pool s') = pool_geo (cache_pool s) \<and> larc_g_size s' = larc_g_size s \<and>
    larc_q s' = remove1 e (larc_q s) \<and> larc_g s' = remove1 e (larc_g s)"
proof -
  note D = larc_baseD [OF ok]
  define s1 where "s1 = (if \<not> e_migrating (store s e) then
      let s = larc_unlink e s in if in_cache s (Some e) then upd_stats inc_demotions s else s
    else s)"
  have same: "store s1 = store s" "ht s1 = ht s" "wb s1 = wb s" "cache_pool s1 = cache_pool s"
    "meta_pool s1 = meta_pool s" "meta_size s1 = meta_size s" "larc_g_size s1 = larc_g_size s"
    by (simp_all add: s1_def larc_unlink_def Let_def)
  have q1: "larc_q s1 = remove1 e (larc_q s)" "larc_g s1 = remove1 e (larc_g s)"
    using D(9,11,12) by (auto simp: s1_def larc_unlink_def Let_def q_remove_def remove1_idem)
  have cn1: "cn_ok s1" using D(1) same by (simp add: cn_ok_def)
  have "e \<in> set (ht s1)" using e same by simp
  from cache_nucleus_remove_ok [OF cn1 this] obtain cp mp s' where
    s': "s' = s1\<lparr>store := (store s1)(e := freed_entry (store s1 e)),
        wb := (\<lambda>q. q_remove e (wb s1 q)), cache_pool := cp, meta_pool := mp, ht := remove1 e (ht s1)\<rparr>"
    and run: "cache_nucleus_remove e s1 = Inr s'" and cn: "cn_ok s'"
    and geo: "pool_geo cp = pool_geo (cache_pool s1)" "pool_geo mp = pool_geo (meta_pool s1)"
    by blast
  have f: "store s' = (store s)(e := freed_entry (store s e))" "ht s' = remove1 e (ht s)"
    "larc_q s' = remove1 e (larc_q s)" "larc_g s' = remove1 e (larc_g s)" "cache_pool s' = cp"
    "meta_pool s' = mp" "meta_size s' = meta_size s" "larc_g_size s' = larc_g_size s"
    by (simp_all add: s' same q1)
  have dh: "distinct (ht s)" by (rule cn_facts(1) [OF D(1)])
  have base: "larc_base c m s'"
    by (rule larc_base_cong [OF ok cn]) (use geo same D(8-12) in
      \<open>auto simp: f cached_remove1 [OF dh] metas_remove1 [OF dh]\<close>)
  have keys: "map (key_of (store s')) xs = map (key_of (store s)) xs" for xs by (simp add: f(1))
  note dk = larc_keys [OF ok]
  have sub: "set (larc_q s) \<subseteq> set (ht s)" "set (larc_g s) \<subseteq> set (ht s)"
    using D(9,11) by (auto simp: cached_def metas_def)
  have "{p \<in> cached (ht s'). e_migrating (store s' p)} = {p \<in> cached (ht s). e_migrating (store s p)} - {e}"
    by (auto simp: f(1,2) cached_remove1 [OF dh])
  moreover have "key_of (store s') ` A = key_of (store s) ` A" for A by (auto simp: f(1))
  moreover have "key_of (store s) ` ({p \<in> cached (ht s). e_migrating (store s p)} - {e}) =
      key_of (store s) ` {p \<in> cached (ht s). e_migrating (store s p)} - {ob}"
    using key_image_minus [OF dk _ e, of "{p \<in> cached (ht s). e_migrating (store s p)}"] ob
    by (auto simp: cached_def)
  ultimately have "lway (larc_abs s') = lway (larc_abs s) - {ob}" by (simp add: larc_abs_def)
  moreover have "lq (larc_abs s') = remove1 ob (lq (larc_abs s))" "lg (larc_abs s') = remove1 ob (lg (larc_abs s))"
    using map_remove1_key [OF dk sub(1) D(8) e] map_remove1_key [OF dk sub(2) D(10) e] ob
    by (simp_all add: larc_abs_def keys f(3,4))
  ultimately have "larc_abs s' = \<lparr>lq = remove1 ob (lq (larc_abs s)), lway = lway (larc_abs s) - {ob},
      lg = remove1 ob (lg (larc_abs s)), lgs = lgs (larc_abs s)\<rparr>"
    by (intro larc_spec.equality) (simp_all add: larc_abs_def f(8))
  moreover have "larc_remove_entry e s = Inr s'" using run by (simp add: larc_remove_entry_def s1_def Let_def)
  moreover have "cview (ht s') (store s') = (cview (ht s) (store s))(ob := None)"
    unfolding f(1,2) using cview_freed [OF dk e] ob by simp
  ultimately show ?thesis using base geo f same by (intro exI [of _ s']) simp
qed

lemma larc_subs:
  assumes "larc_base c m s"
  shows "set (larc_q s) \<subseteq> set (ht s)" "set (larc_g s) \<subseteq> set (ht s)"
    "{p \<in> cached (ht s). e_migrating (store s p)} \<subseteq> set (ht s)"
  using larc_baseD(9,11) [OF assms] by (auto simp: cached_def metas_def)

text \<open>A new block enters the cache.\<close>

lemma larc_insert_ok:
  assumes ok: "larc_base c m s" and nf: "\<not> cache_is_full s" and new: "ht_lookup (lat_oblock lt) s = None"
    and lt: "lat_dest lt = LARC_Q" "\<not> lat_c_hit lt" and ob: "lat_oblock lt = ob"
  shows "\<exists>e cb s'. larc_place lt r s = Inr (r\<lparr>r_cblock := cb\<rparr>, s') \<and> larc_base c m s' \<and>
    larc_abs s' = (larc_abs s)\<lparr>lway := insert ob (lway (larc_abs s))\<rparr> \<and>
    cview (ht s') (store s') = (cview (ht s) (store s))(ob \<mapsto> (e, True, False)) \<and>
    ht s' = e # ht s \<and> e \<notin> set (ht s) \<and> fst e = CacheRegion \<and>
    pool_geo (cache_pool s') = pool_geo (cache_pool s) \<and> epool_at (cache_pool s) cb = Some e \<and>
    larc_g s' = larc_g s"
proof -
  note D = larc_baseD [OF ok]
  have "2 \<le> ep_nr_entries (cache_pool s)" using D by simp
  from insert_migrating_ok [OF D(1) nf new this, of r]
  obtain e cb cp s1 s2 where
    s2: "s2 = s\<lparr>store := (store s)(e := (fresh_entry ob (store s e))\<lparr>e_migrating := True\<rparr>),
        cache_pool := cp, ht := e # ht s\<rparr>"
    and run: "insert_in_cache ob (Some r) s = Inr (e, Some (r\<lparr>r_cblock := cb\<rparr>), s1)"
      "cn_migrating_entry e s1 = Inr s2"
    and cn: "cn_ok s2" and geo: "pool_geo cp = pool_geo (cache_pool s)"
      "epool_at (cache_pool s) cb = Some e" "fst e = CacheRegion" "e \<notin> set (ht s)" unfolding ob by blast
  have ne: "e \<notin> set (larc_q s)" "e \<notin> set (larc_g s)" using larc_subs [OF ok] geo(4) by auto
  define x where "x = (fresh_entry ob (store s e))\<lparr>e_migrating := True\<rparr>"
  have x: "e_migrating x" "e_oblock x = ob" "\<not> e_dirty x" by (simp_all add: x_def)
  obtain s' where s': "s' = upd_stats inc_misses s2" by blast
  have f: "store s' = (store s)(e := x)" "ht s' = e # ht s"
    "larc_q s' = larc_q s" "larc_g s' = larc_g s" "cache_pool s' = cp" "meta_pool s' = meta_pool s"
    "meta_size s' = meta_size s" "larc_g_size s' = larc_g_size s" by (simp_all add: s' s2 x_def)
  have run': "larc_place lt r s = Inr (r\<lparr>r_cblock := cb\<rparr>, s')"
    using run by (simp add: larc_place_def lt ob deref_def s') (simp add: s2)
  have cn': "cn_ok s'" using cn by (simp add: s')
  note sets = cons_sets [OF geo(4), of "store s" x]
  have "set (larc_q s') = {p \<in> cached (ht s'). \<not> e_migrating (store s' p)}"
    "\<forall>p \<in> metas (ht s'). \<not> e_migrating (store s' p)" "set (larc_g s') = metas (ht s')"
    unfolding f(1-4) sets using D(9,11,12) geo(3) x(1) by (simp_all add: metas_Cons)
  then have base: "larc_base c m s'"
    by (intro larc_base_cong [OF ok cn']) (simp_all only: f geo D(8,10))
  have "key_of (store s') ` {p \<in> cached (ht s'). e_migrating (store s' p)} =
      insert ob (key_of (store s) ` {p \<in> cached (ht s). e_migrating (store s p)})"
    unfolding f(1,2) sets using geo(3) x keys_upd [OF geo(4) larc_subs(3) [OF ok], of "store s" x] by simp
  then have "larc_abs s' = (larc_abs s)\<lparr>lway := insert ob (lway (larc_abs s))\<rparr>"
    unfolding larc_abs_def by (simp add: f(1,3,4,8) ne keys_upd_map [OF geo(4) larc_subs(1) [OF ok]]
        keys_upd_map [OF geo(4) larc_subs(2) [OF ok]])
  moreover have "cview (ht s') (store s') = (cview (ht s) (store s))(ob \<mapsto> (e, True, False))"
    unfolding f(1,2) cview_fresh [OF geo(4)] using geo(3) x by simp
  ultimately show ?thesis using geo f(2,4,5) base run'
    by - (rule exI [of _ e], rule exI [of _ cb], rule exI [of _ s'], simp)
qed

text \<open>A new block becomes a ghost.\<close>

lemma larc_ghost_ok:
  assumes ok: "larc_base c m s" and nf: "\<not> meta_is_full s" and new: "ht_lookup (lat_oblock lt) s = None"
    and lt: "lat_dest lt = LARC_G" and ob: "lat_oblock lt = ob"
  shows "\<exists>s'. larc_place lt r s = Inr (r\<lparr>r_op := CACHE_NUCLEUS_FILTER\<rparr>, s') \<and> larc_base c m s' \<and>
    larc_abs s' = (larc_abs s)\<lparr>lg := lg (larc_abs s) @ [ob]\<rparr> \<and>
    cview (ht s') (store s') = (cview (ht s) (store s))(ob := None) \<and>
    pool_geo (cache_pool s') = pool_geo (cache_pool s)"
proof -
  note D = larc_baseD [OF ok]
  from insert_in_meta_ok [OF D(1) nf new] obtain e mp s1 where
    s1: "s1 = s\<lparr>store := (store s)(e := fresh_entry ob (store s e)), meta_pool := mp, ht := e # ht s\<rparr>"
    and run: "insert_in_meta ob s = Inr (e, s1)" and cn: "cn_ok s1"
    and geo: "pool_geo mp = pool_geo (meta_pool s)" "fst e = MetaRegion" "e \<notin> set (ht s)"
      "\<not> e_migrating (store s e)" unfolding ob by blast
  define x where "x = fresh_entry ob (store s e)"
  have x: "\<not> e_migrating x" "e_oblock x = ob" using geo(4) by (simp_all add: x_def)
  have ne: "e \<notin> set (larc_q s)" "e \<notin> set (larc_g s)" using larc_subs [OF ok] geo(3) by auto
  obtain s' where s': "s' = upd_stats inc_filters (s1\<lparr>larc_g := larc_g s @ [e]\<rparr>)" by blast
  have f: "store s' = (store s)(e := x)" "ht s' = e # ht s"
    "larc_q s' = larc_q s" "larc_g s' = larc_g s @ [e]" "cache_pool s' = cache_pool s" "meta_pool s' = mp"
    "meta_size s' = meta_size s" "larc_g_size s' = larc_g_size s" by (simp_all add: s' s1 x_def)
  have run': "larc_place lt r s = Inr (r\<lparr>r_op := CACHE_NUCLEUS_FILTER\<rparr>, s')"
    using run ne by (simp add: larc_place_def lt ob q_push_def s') (simp add: s1)
  have cn': "cn_ok s'" using cn by (simp add: s' cn_ok_def)
  note sets = cons_sets [OF geo(3), of "store s" x]
  have "set (larc_q s') = {p \<in> cached (ht s'). \<not> e_migrating (store s' p)}"
    "\<forall>p \<in> metas (ht s'). \<not> e_migrating (store s' p)" "set (larc_g s') = metas (ht s')" "distinct (larc_g s')"
    unfolding f(1-4) sets using D(9-12) geo(2) x(1) ne by (simp_all add: metas_Cons)
  then have base: "larc_base c m s'"
    by (intro larc_base_cong [OF ok cn']) (simp_all only: f geo D(8))
  have "key_of (store s') ` {p \<in> cached (ht s'). e_migrating (store s' p)} =
      key_of (store s) ` {p \<in> cached (ht s). e_migrating (store s p)}"
    unfolding f(1,2) sets using geo(2) x keys_upd [OF geo(3) larc_subs(3) [OF ok], of "store s" x] by simp
  then have "larc_abs s' = (larc_abs s)\<lparr>lg := lg (larc_abs s) @ [ob]\<rparr>"
    unfolding larc_abs_def by (simp add: f(1,3,4,8) x(2) ne keys_upd_map [OF geo(3) larc_subs(1) [OF ok]]
        keys_upd_map [OF geo(3) larc_subs(2) [OF ok]])
  moreover have "cview (ht s') (store s') = (cview (ht s) (store s))(ob := None)"
    unfolding f(1,2) cview_fresh [OF geo(3)] using geo(2) x(2) by simp
  ultimately show ?thesis using run' base f(5) by - (rule exI [of _ s'], simp)
qed

text \<open>A hit: a block that is not migrating becomes the most recently used.\<close>

lemma larc_hit_ok:
  assumes ok: "larc_base c m s" and e: "ht_lookup (lat_oblock lt) s = Some e" "fst e = CacheRegion"
    and lt: "lat_dest lt = LARC_Q" "lat_c_hit lt" and ob: "lat_oblock lt = ob"
  shows "\<exists>cb s'. larc_place lt r s = Inr (r\<lparr>r_cblock := cb, r_op := CACHE_NUCLEUS_HIT\<rparr>, s') \<and> larc_base c m s' \<and>
    larc_abs s' = (if e_migrating (store s e) then larc_abs s
      else (larc_abs s)\<lparr>lq := remove1 ob (lq (larc_abs s)) @ [ob]\<rparr>) \<and>
    store s' = store s \<and> ht s' = ht s \<and> larc_g s' = larc_g s \<and>
    cache_pool s' = cache_pool s \<and> epool_at (cache_pool s) cb = Some e"
proof -
  note D = larc_baseD [OF ok]
  have mem: "e \<in> set (ht s)" "e_oblock (store s e) = ob" using lookup_Some [OF D(1)] e ob by auto
  have ip: "in_pool (cache_pool s) (Some e)" using cn_in_cache [OF D(1) mem(1)] e(2) by (simp add: in_cache_def)
  have nr: "2 \<le> ep_nr_entries (cache_pool s)" using D by simp
  define cb where "cb = of_nat (snd e) + ep_starting_index (cache_pool s)"
  define q where "q = (if e_migrating (store s e) then larc_q s else remove1 e (larc_q s) @ [e])"
  let ?s' = "upd_stats inc_hits (s\<lparr>larc_q := q\<rparr>)"
  have c: "e \<in> cached (ht s)" using mem e(2) by (simp add: cached_def)
  have g: "e \<notin> set (larc_g s)" using D(11) e(2) by (auto simp: metas_def)
  have "larc_place lt r s = Inr (r\<lparr>r_cblock := cb, r_op := CACHE_NUCLEUS_HIT\<rparr>, ?s')"
    using D(8) g by (simp add: larc_place_def lt e(1) deref_def infer_cblock_ok(1) [OF ip nr] cb_def q_def
        larc_unlink_def q_push_def q_remove_def remove1_idem)
  moreover have "epool_at (cache_pool s) cb = Some e" unfolding cb_def by (rule infer_cblock_ok(2) [OF ip nr])
  moreover have qs: "set q = set (larc_q s)" "distinct q" using D(8,9) c by (auto simp: q_def)
  have cn': "cn_ok ?s'" using D(1) by (simp add: cn_ok_def)
  have "larc_base c m ?s'" by (rule larc_base_cong [OF ok cn']) (use D(9-12) qs in simp_all)
  moreover have "set (larc_q s) \<subseteq> set (ht s)" using D(9) by (auto simp: cached_def)
  then have "map (key_of (store s)) (remove1 e (larc_q s)) = remove1 ob (map (key_of (store s)) (larc_q s))"
    using map_remove1_key [OF larc_keys [OF ok] _ D(8) mem(1)] mem(2) by simp
  then have "larc_abs ?s' = (if e_migrating (store s e) then larc_abs s
      else (larc_abs s)\<lparr>lq := remove1 ob (lq (larc_abs s)) @ [ob]\<rparr>)"
    using mem(2) by (simp add: larc_abs_def q_def)
  ultimately show ?thesis by - (rule exI [of _ cb], rule exI [of _ ?s'], simp)
qed

section \<open>An access\<close>

lemma larc_resize:
  assumes ok: "larc_base c m s" and g: "unat m div 10 \<le> unat g" "unat g \<le> 9 * unat m div 10"
  shows "larc_base c m (s\<lparr>larc_g_size := g\<rparr>)"
    "larc_abs (s\<lparr>larc_g_size := g\<rparr>) = (larc_abs s)\<lparr>lgs := unat g\<rparr>"
  using larc_baseD [OF ok] g by (simp_all add: larc_base_def cn_ok_def larc_abs_def)

lemma larc_disjoint:
  assumes ok: "larc_base c m s"
  shows "distinct (lq (larc_abs s))" "distinct (lg (larc_abs s))"
    "ob \<in> set (lq (larc_abs s)) \<Longrightarrow> ob \<notin> lway (larc_abs s) \<and> ob \<notin> set (lg (larc_abs s))"
    "ob \<in> set (lg (larc_abs s)) \<Longrightarrow> ob \<notin> lway (larc_abs s) \<and> ob \<notin> set (lq (larc_abs s))"
proof -
  have "inj_on (key_of (store s)) (set (ht s))" using larc_keys [OF ok] by (simp add: distinct_map)
  then show "distinct (lq (larc_abs s))" "distinct (lg (larc_abs s))"
    using larc_subs [OF ok] larc_baseD(8,10) [OF ok] inj_on_subset
    by (fastforce simp: larc_abs_def distinct_map)+
  show "ob \<in> set (lq (larc_abs s)) \<Longrightarrow> ob \<notin> lway (larc_abs s) \<and> ob \<notin> set (lg (larc_abs s))"
    "ob \<in> set (lg (larc_abs s)) \<Longrightarrow> ob \<notin> lway (larc_abs s) \<and> ob \<notin> set (lq (larc_abs s))"
    unfolding larc_lookup [OF ok] by auto
qed

text \<open>The block at the head of a queue leaves.\<close>

lemma larc_evict_q:
  assumes ok: "larc_base c m s" and q: "larc_q s = e # es"
  shows "\<exists>s'. larc_evict larc_q (Some r) s =
      Inr (Some (r\<lparr>r_old_oblock := hd (lq (larc_abs s)), r_dirty_eviction := e_dirty (store s e)\<rparr>), s') \<and>
    larc_base c m s' \<and> larc_abs s' = (larc_abs s)\<lparr>lq := tl (lq (larc_abs s))\<rparr> \<and>
    cview (ht s) (store s) (hd (lq (larc_abs s))) = Some (e, False, e_dirty (store s e)) \<and>
    cview (ht s') (store s') = (cview (ht s) (store s))(hd (lq (larc_abs s)) := None) \<and>
    ht s' = remove1 e (ht s) \<and> pool_geo (cache_pool s') = pool_geo (cache_pool s)"
proof -
  have e: "e \<in> set (ht s)" using larc_subs(1) [OF ok] q by simp
  have em: "fst e = CacheRegion" "\<not> e_migrating (store s e)"
    using larc_baseD(9) [OF ok] q by (auto simp: cached_def)
  have h: "lq (larc_abs s) = e_oblock (store s e) # map (key_of (store s)) es" by (simp add: larc_abs_def q)
  then have "e_oblock (store s e) \<in> set (lq (larc_abs s))" by simp
  note dj = larc_disjoint(3) [OF ok this]
  from larc_remove_entry_ok [OF ok e refl] obtain s' where
    s': "larc_remove_entry e s = Inr s'" "larc_base c m s'"
    "larc_abs s' = \<lparr>lq = remove1 (e_oblock (store s e)) (lq (larc_abs s)),
      lway = lway (larc_abs s) - {e_oblock (store s e)},
      lg = remove1 (e_oblock (store s e)) (lg (larc_abs s)), lgs = lgs (larc_abs s)\<rparr>"
    "cview (ht s') (store s') = (cview (ht s) (store s))(e_oblock (store s e) := None)"
    "ht s' = remove1 e (ht s)" "pool_geo (cache_pool s') = pool_geo (cache_pool s)" by blast
  have "larc_abs s' = (larc_abs s)\<lparr>lq := tl (lq (larc_abs s))\<rparr>"
    using dj by (simp add: s'(3) h remove1_idem)
  moreover have "cview (ht s) (store s) (e_oblock (store s e)) = Some (e, False, e_dirty (store s e))"
    using cview_entry [OF larc_keys [OF ok] e] em by simp
  ultimately show ?thesis using s' by (simp add: larc_evict_def q_peek_def q deref_def h)
qed

lemma larc_evict_g:
  assumes ok: "larc_base c m s" and q: "larc_g s = e # es"
  shows "\<exists>s'. larc_evict larc_g None s = Inr (None, s') \<and>
    larc_base c m s' \<and> larc_abs s' = (larc_abs s)\<lparr>lg := tl (lg (larc_abs s))\<rparr> \<and>
    cview (ht s') (store s') = cview (ht s) (store s) \<and> pool_geo (cache_pool s') = pool_geo (cache_pool s)"
proof -
  have e: "e \<in> set (ht s)" using larc_subs(2) [OF ok] q by simp
  have em: "fst e = MetaRegion" using larc_baseD(11) [OF ok] q by (auto simp: metas_def)
  have h: "lg (larc_abs s) = e_oblock (store s e) # map (key_of (store s)) es" by (simp add: larc_abs_def q)
  then have "e_oblock (store s e) \<in> set (lg (larc_abs s))" by simp
  note dj = larc_disjoint(4) [OF ok this]
  from larc_remove_entry_ok [OF ok e refl] obtain s' where
    s': "larc_remove_entry e s = Inr s'" "larc_base c m s'"
    "larc_abs s' = \<lparr>lq = remove1 (e_oblock (store s e)) (lq (larc_abs s)),
      lway = lway (larc_abs s) - {e_oblock (store s e)},
      lg = remove1 (e_oblock (store s e)) (lg (larc_abs s)), lgs = lgs (larc_abs s)\<rparr>"
    "cview (ht s') (store s') = (cview (ht s) (store s))(e_oblock (store s e) := None)"
    "pool_geo (cache_pool s') = pool_geo (cache_pool s)" by blast
  have "larc_abs s' = (larc_abs s)\<lparr>lg := tl (lg (larc_abs s))\<rparr>"
    using dj by (simp add: s'(3) h remove1_idem)
  moreover have "cview (ht s) (store s) (e_oblock (store s e)) = None"
    using cview_entry [OF larc_keys [OF ok] e] em by simp
  ultimately show ?thesis using s' by (simp add: larc_evict_def q_peek_def q deref_def fun_upd_idem)
qed

text \<open>What every access ends with.\<close>

lemma larc_mark:
  assumes ok: "larc_base c m s" and s': "s' = mark_dirty ob w (upd_stats inc_ios s)"
  shows "larc_base c m s'" "larc_abs s' = larc_abs s"
    "cview (ht s') (store s') = (cview (ht s) (store s))(ob :=
       map_option (\<lambda>(e, mig, d). (e, mig, d \<or> w)) (cview (ht s) (store s) ob))"
    "cache_pool s' = cache_pool s"
proof -
  note D = larc_baseD [OF ok]
  obtain s1 where s1: "s1 = upd_stats inc_ios s" by blast
  have cn: "cn_ok s1" using D(1) by (simp add: s1)
  have f1: "store s1 = store s" "ht s1 = ht s" "larc_q s1 = larc_q s" "larc_g s1 = larc_g s"
    "cache_pool s1 = cache_pool s" "meta_pool s1 = meta_pool s" "meta_size s1 = meta_size s"
    "larc_g_size s1 = larc_g_size s" by (simp_all add: s1)
  note K = mark_dirty_cases [OF cn, of ob w, folded s1 s' [unfolded s1 [symmetric]]]
  have f: "ht s' = ht s" "larc_q s' = larc_q s" "larc_g s' = larc_g s"
    "cache_pool s' = cache_pool s" "meta_pool s' = meta_pool s" "meta_size s' = meta_size s"
    "larc_g_size s' = larc_g_size s" by (subst K(3), simp add: f1)+
  have k: "e_oblock (store s' p) = e_oblock (store s p)" "e_migrating (store s' p) = e_migrating (store s p)" for p
    using K(4,5) by (simp_all add: f1)
  show "larc_base c m s'"
    by (rule larc_base_cong [OF ok K(1)]) (simp_all add: f k D(8-12))
  show "larc_abs s' = larc_abs s" by (rule larc_abs_cong) (simp_all add: f k)
  show "cview (ht s') (store s') = (cview (ht s) (store s))(ob :=
       map_option (\<lambda>(e, mig, d). (e, mig, d \<or> w)) (cview (ht s) (store s) ob))"
    using K(2) by (simp only: f1)
  show "cache_pool s' = cache_pool s" by (rule f(4))
qed

text \<open>What an access is to do, and how it follows from what the commit does.\<close>

definition larc_serves :: "u32 \<Rightarrow> u32 \<Rightarrow> oblock \<Rightarrow> bool \<Rightarrow> cn_result \<Rightarrow> larc_policy \<Rightarrow> bool" where
  "larc_serves c m ob w r0 s \<longleftrightarrow> (\<exists>r s'. larc_map_api ob w r0 s = Inr (0, r, s') \<and> larc_ok c m s' \<and>
     spec_larc (unat c) (unat m) ob (larc_abs s) = (r_op r, evicted r, larc_abs s') \<and>
     write_effect ob w r (cview (ht s) (store s)) (cview (ht s') (store s')) \<and> resides ob r s' \<and>
     (\<exists>op v. larc_next_victim_api ob s = Inr (op, v) \<and> (op = CACHE_NUCLEUS_FAIL \<longleftrightarrow> r_op r = CACHE_NUCLEUS_FAIL)))"

lemma larc_finish:
  assumes "larc_transaction_set s (larc_transaction_init s ob) = Inr lt" "larc_transaction_is_legal s lt"
    and "larc_transaction_commit lt r0 s = Inr (r, s1)" and base: "larc_base c m s1"
    and len: "length (lg (larc_abs s1)) \<le> 9 * unat m div 10"
    and spec: "spec_larc (unat c) (unat m) ob (larc_abs s) = (r_op r, evicted r, larc_abs s1)"
    and eff: "write_effect ob w r (cview (ht s) (store s)) ((cview (ht s1) (store s1))(ob :=
       map_option (\<lambda>(e, mig, d). (e, mig, d \<or> w)) (cview (ht s1) (store s1) ob)))"
    and res: "resides ob r s1" and "r_op r \<noteq> CACHE_NUCLEUS_FAIL"
  shows "larc_serves c m ob w r0 s"
proof -
  obtain s' where s': "s' = mark_dirty ob w (upd_stats inc_ios s1)" by blast
  note M = larc_mark [OF base s']
  have "larc_map_api ob w r0 s = Inr (0, r, s')" using assms(1-3) by (simp add: larc_map_api_def s')
  moreover have "length (larc_g s') = length (larc_g s1)"
    using arg_cong [OF M(2), of "\<lambda>a. length (lg a)"] by (simp add: larc_abs_def)
  then have "larc_ok c m s'" using M(1) len by (simp add: larc_ok_def larc_abs_def)
  moreover have "resides ob r s'" using res unfolding resides_def M(3,4) by auto
  moreover have "\<exists>op v. larc_next_victim_api ob s = Inr (op, v) \<and> op \<noteq> CACHE_NUCLEUS_FAIL"
    using assms(1,2) by (simp add: larc_next_victim_api_def)
  ultimately show ?thesis unfolding larc_serves_def using spec eff M(2,3) assms(9) by auto
qed

lemma larc_lgs: "lgs (larc_abs s) = unat (larc_g_size s)"
  by (simp add: larc_abs_def)

lemma larc_len: "larc_ok c m s \<Longrightarrow> length (lg (larc_abs s)) \<le> 9 * unat m div 10"
  by (simp add: larc_ok_def larc_abs_def)

lemma larc_in_regions:
  assumes ok: "larc_base c m s" and e: "ht_lookup ob s = Some e"
  shows "in_cache s (Some e) \<longleftrightarrow> fst e = CacheRegion" "in_meta s (Some e) \<longleftrightarrow> fst e = MetaRegion"
  using cn_in_cache [OF larc_baseD(1) [OF ok]] cn_in_meta [OF larc_baseD(1) [OF ok]]
    lookup_Some [OF larc_baseD(1) [OF ok]] e by auto

text \<open>A resident block.\<close>

lemma larc_serve_hit:
  assumes ok: "larc_ok c m s" and e: "ht_lookup ob s = Some e" "fst e = CacheRegion"
  shows "larc_serves c m ob w r0 s"
proof -
  have b: "larc_base c m s" using ok by (simp add: larc_ok_def)
  note D = larc_baseD [OF b]
  obtain g where g: "larc_decrease_g_size s = Inr g" "unat g = shrink (unat m) (unat (larc_g_size s))"
    using larc_shrink [OF b] by blast
  obtain s1 where s1: "s1 = s\<lparr>larc_g_size := g\<rparr>" by blast
  have b1: "larc_base c m s1" and a1: "larc_abs s1 = (larc_abs s)\<lparr>lgs := unat g\<rparr>"
    unfolding s1 using shrink_bounds [OF D(6,13,14)] g(2) by (simp_all add: larc_resize [OF b])
  have f1: "ht s1 = ht s" "store s1 = store s" "cache_pool s1 = cache_pool s" by (simp_all add: s1)
  obtain lt where lt: "lt = \<lparr>lat_oblock = ob, lat_g_size = g, lat_c_hit = True, lat_c_evict = False,
      lat_g_hit = False, lat_g_evict = False, lat_dest = LARC_Q\<rparr>" by blast
  have set: "larc_transaction_set s (larc_transaction_init s ob) = Inr lt"
    using e g(1) larc_in_regions [OF b e(1)] by (simp add: larc_transaction_set_def larc_transaction_init_def lt)
  have leg: "larc_transaction_is_legal s lt" by (simp add: larc_transaction_is_legal_def lt)
  have "ht_lookup (lat_oblock lt) s1 = Some e" using e(1) by (simp add: lt ht_lookup_def f1)
  moreover have "lat_dest lt = LARC_Q" "lat_c_hit lt" "lat_oblock lt = ob" by (simp_all add: lt)
  ultimately obtain cb s2 where s2: "larc_place lt (r0\<lparr>r_op := CACHE_NUCLEUS_NEW\<rparr>) s1 =
      Inr (r0\<lparr>r_cblock := cb, r_op := CACHE_NUCLEUS_HIT\<rparr>, s2)" "larc_base c m s2"
    "larc_abs s2 = (if e_migrating (store s e) then larc_abs s1
      else (larc_abs s1)\<lparr>lq := remove1 ob (lq (larc_abs s1)) @ [ob]\<rparr>)"
    "store s2 = store s" "ht s2 = ht s" "cache_pool s2 = cache_pool s" "epool_at (cache_pool s) cb = Some e"
    using larc_hit_ok [OF b1 _ e(2), of lt ob "r0\<lparr>r_op := CACHE_NUCLEUS_NEW\<rparr>"] f1 by auto
  have com: "larc_transaction_commit lt r0 s = Inr (r0\<lparr>r_cblock := cb, r_op := CACHE_NUCLEUS_HIT\<rparr>, s2)"
    using s2(1) by (simp add: larc_transaction_commit_def lt) (simp add: lt [symmetric] s1)
  have mem: "e \<in> set (ht s)" "e_oblock (store s e) = ob" using lookup_Some [OF D(1)] e(1) by auto
  have v: "cview (ht s) (store s) ob = Some (e, e_migrating (store s e), e_dirty (store s e))"
    using cview_entry [OF larc_keys [OF b] mem(1)] mem(2) e(2) by simp
  have spec: "spec_larc (unat c) (unat m) ob (larc_abs s) = (CACHE_NUCLEUS_HIT, None, larc_abs s2)"
    using larc_lookup(1,2) [OF b, of ob] e g(2)
    by (cases "e_migrating (store s e)") (simp_all add: spec_larc_def s2(3) a1 larc_lgs Let_def)
  show ?thesis
  proof (rule larc_finish [OF set leg com s2(2)])
    show "length (lg (larc_abs s2)) \<le> 9 * unat m div 10" using larc_len [OF ok] by (simp add: s2(3) a1)
    show "write_effect ob w (r0\<lparr>r_cblock := cb, r_op := CACHE_NUCLEUS_HIT\<rparr>) (cview (ht s) (store s))
        (marked ob w (cview (ht s2) (store s2)))" by (rule write_effect_hit [where v = "cview (ht s) (store s)", OF _ v]) (simp_all add: s2(4,5))
    show "resides ob (r0\<lparr>r_cblock := cb, r_op := CACHE_NUCLEUS_HIT\<rparr>) s2"
      by (rule residesI [of s2 ob e _ "cache_pool s"]) (simp_all add: s2(4-7) v)
  qed (simp_all add: spec evicted_def)
qed

text \<open>A block that is nowhere, while the cache has room.\<close>

lemma larc_serve_new:
  assumes ok: "larc_ok c m s" and new: "ht_lookup ob s = None" and room: "\<not> cache_is_full s"
  shows "larc_serves c m ob w r0 s"
proof -
  have b: "larc_base c m s" using ok by (simp add: larc_ok_def)
  note D = larc_baseD [OF b]
  obtain g where g: "larc_increase_g_size s = Inr g" "unat g = grow (unat m) (unat (larc_g_size s))"
    using larc_grow [OF b] by blast
  obtain s1 where s1: "s1 = s\<lparr>larc_g_size := g\<rparr>" by blast
  have b1: "larc_base c m s1" and a1: "larc_abs s1 = (larc_abs s)\<lparr>lgs := unat g\<rparr>"
    unfolding s1 using grow_bounds [OF D(6,13,14)] g(2) by (simp_all add: larc_resize [OF b])
  have f1: "ht s1 = ht s" "store s1 = store s" "cache_pool s1 = cache_pool s" by (simp_all add: s1)
  obtain lt where lt: "lt = \<lparr>lat_oblock = ob, lat_g_size = g, lat_c_hit = False, lat_c_evict = False,
      lat_g_hit = False, lat_g_evict = False, lat_dest = LARC_Q\<rparr>" by blast
  have set: "larc_transaction_set s (larc_transaction_init s ob) = Inr lt"
    using new g(1) room by (simp add: larc_transaction_set_def larc_transaction_init_def lt)
  have leg: "larc_transaction_is_legal s lt" by (simp add: larc_transaction_is_legal_def lt)
  have "ht_lookup (lat_oblock lt) s1 = None" "\<not> cache_is_full s1"
    using new room by (simp_all add: lt ht_lookup_def f1 cache_is_full_def)
  moreover have "lat_dest lt = LARC_Q" "\<not> lat_c_hit lt" "lat_oblock lt = ob" by (simp_all add: lt)
  ultimately obtain e cb s2 where s2: "larc_place lt (r0\<lparr>r_op := CACHE_NUCLEUS_NEW\<rparr>) s1 =
      Inr (r0\<lparr>r_op := CACHE_NUCLEUS_NEW, r_cblock := cb\<rparr>, s2)" "larc_base c m s2"
    "larc_abs s2 = (larc_abs s1)\<lparr>lway := insert ob (lway (larc_abs s1))\<rparr>"
    "cview (ht s2) (store s2) = (cview (ht s) (store s))(ob \<mapsto> (e, True, False))"
    "e \<notin> set (ht s)" "pool_geo (cache_pool s2) = pool_geo (cache_pool s)" "epool_at (cache_pool s) cb = Some e"
    using larc_insert_ok [OF b1, of lt ob "r0\<lparr>r_op := CACHE_NUCLEUS_NEW\<rparr>"] f1 by auto
  have com: "larc_transaction_commit lt r0 s = Inr (r0\<lparr>r_op := CACHE_NUCLEUS_NEW, r_cblock := cb\<rparr>, s2)"
    using s2(1) by (simp add: larc_transaction_commit_def lt) (simp add: lt [symmetric] s1)
  have v: "cview (ht s) (store s) ob = None" using new by (simp add: cview_def ht_lookup_def)
  have spec: "spec_larc (unat c) (unat m) ob (larc_abs s) = (CACHE_NUCLEUS_NEW, None, larc_abs s2)"
    using larc_lookup [OF b, of ob] new room larc_full [OF b] g(2)
    by (simp add: spec_larc_def s2(3) a1 larc_lgs Let_def)
  show ?thesis
  proof (rule larc_finish [OF set leg com s2(2)])
    show "length (lg (larc_abs s2)) \<le> 9 * unat m div 10" using larc_len [OF ok] by (simp add: s2(3) a1)
    show "write_effect ob w (r0\<lparr>r_op := CACHE_NUCLEUS_NEW, r_cblock := cb\<rparr>) (cview (ht s) (store s))
        (marked ob w (cview (ht s2) (store s2)))" by (rule write_effect_new [OF _ v s2(5,4)]) simp
    show "resides ob (r0\<lparr>r_op := CACHE_NUCLEUS_NEW, r_cblock := cb\<rparr>) s2"
      by (rule residesI [of s2 ob e _ "cache_pool s"]) (simp_all add: s2(4,6,7))
  qed (simp_all add: spec evicted_def)
qed

text \<open>A block that is nowhere, while the cache is full: it becomes a ghost.\<close>

lemma larc_serve_filter:
  assumes ok: "larc_ok c m s" and new: "ht_lookup ob s = None" and full: "cache_is_full s"
  shows "larc_serves c m ob w r0 s"
proof -
  have b: "larc_base c m s" using ok by (simp add: larc_ok_def)
  note D = larc_baseD [OF b]
  obtain g where g: "larc_increase_g_size s = Inr g" "unat g = grow (unat m) (unat (larc_g_size s))"
    using larc_grow [OF b] by blast
  note G = grow_bounds [OF D(6,13,14)]
  obtain s1 where s1: "s1 = s\<lparr>larc_g_size := g\<rparr>" by blast
  have b1: "larc_base c m s1" and a1: "larc_abs s1 = (larc_abs s)\<lparr>lgs := unat g\<rparr>"
    unfolding s1 using G g(2) by (simp_all add: larc_resize [OF b])
  have f1: "ht s1 = ht s" "store s1 = store s" "cache_pool s1 = cache_pool s" by (simp_all add: s1)
  define over where "over \<longleftrightarrow> unat g < Suc (length (larc_g s))"
  obtain lt where lt: "lt = \<lparr>lat_oblock = ob, lat_g_size = g, lat_c_hit = False, lat_c_evict = False,
      lat_g_hit = False, lat_g_evict = over, lat_dest = LARC_G\<rparr>" by blast
  have set: "larc_transaction_set s (larc_transaction_init s ob) = Inr lt"
    using new g(1) full by (simp add: larc_transaction_set_def larc_transaction_init_def lt larc_g_over [OF ok] over_def Let_def)
  have leg: "larc_transaction_is_legal s lt" by (simp add: larc_transaction_is_legal_def lt)
  have "\<not> meta_is_full s1" using larc_meta_room [OF b1] larc_len [OF ok] arg_cong [OF a1, of "\<lambda>a. length (lg a)"]
    by (simp add: larc_abs_def)
  moreover have "ht_lookup (lat_oblock lt) s1 = None" using new by (simp add: lt ht_lookup_def f1)
  moreover have "lat_dest lt = LARC_G" "lat_oblock lt = ob" by (simp_all add: lt)
  ultimately obtain s2 where s2: "larc_place lt (r0\<lparr>r_op := CACHE_NUCLEUS_NEW\<rparr>) s1 =
      Inr (r0\<lparr>r_op := CACHE_NUCLEUS_FILTER\<rparr>, s2)" "larc_base c m s2"
    "larc_abs s2 = (larc_abs s1)\<lparr>lg := lg (larc_abs s1) @ [ob]\<rparr>"
    "cview (ht s2) (store s2) = (cview (ht s) (store s))(ob := None)"
    using larc_ghost_ok [OF b1, of lt ob "r0\<lparr>r_op := CACHE_NUCLEUS_NEW\<rparr>"] f1 by auto
  have v: "cview (ht s) (store s) ob = None" using new by (simp add: cview_def ht_lookup_def)
  have l: "lg (larc_abs s2) = lg (larc_abs s) @ [ob]" by (simp add: s2(3) a1)
  have len: "length (larc_g s) = length (lg (larc_abs s))" by (simp add: larc_abs_def)
  have "\<exists>s3. (if over then rbind (larc_evict larc_g None s2) (\<lambda>(_, s). Inr (r0\<lparr>r_op := CACHE_NUCLEUS_FILTER\<rparr>, s))
        else Inr (r0\<lparr>r_op := CACHE_NUCLEUS_FILTER\<rparr>, s2)) = Inr (r0\<lparr>r_op := CACHE_NUCLEUS_FILTER\<rparr>, s3) \<and>
      larc_base c m s3 \<and> larc_abs s3 = (larc_abs s)\<lparr>lgs := unat g,
        lg := (if over then tl (lg (larc_abs s) @ [ob]) else lg (larc_abs s) @ [ob])\<rparr> \<and>
      cview (ht s3) (store s3) = cview (ht s) (store s)"
  proof (cases over)
    case True
    have "larc_g s2 \<noteq> []" using l by (auto simp: larc_abs_def)
    then obtain e es where "larc_g s2 = e # es" by (cases "larc_g s2") auto
    from larc_evict_g [OF s2(2) this] True v show ?thesis
      by (auto simp: s2(4) s2(3) a1 fun_upd_idem)
  qed (use s2 v a1 in \<open>auto simp: fun_upd_idem\<close>)
  then obtain s3 where s3: "(if over then rbind (larc_evict larc_g None s2)
        (\<lambda>(_, s). Inr (r0\<lparr>r_op := CACHE_NUCLEUS_FILTER\<rparr>, s)) else Inr (r0\<lparr>r_op := CACHE_NUCLEUS_FILTER\<rparr>, s2)) =
      Inr (r0\<lparr>r_op := CACHE_NUCLEUS_FILTER\<rparr>, s3)" "larc_base c m s3"
    "larc_abs s3 = (larc_abs s)\<lparr>lgs := unat g,
        lg := (if over then tl (lg (larc_abs s) @ [ob]) else lg (larc_abs s) @ [ob])\<rparr>"
    "cview (ht s3) (store s3) = cview (ht s) (store s)" by blast
  have com: "larc_transaction_commit lt r0 s = Inr (r0\<lparr>r_op := CACHE_NUCLEUS_FILTER\<rparr>, s3)"
    using s2(1) s3(1) by (simp add: larc_transaction_commit_def lt) (simp add: lt [symmetric] s1)
  have spec: "spec_larc (unat c) (unat m) ob (larc_abs s) = (CACHE_NUCLEUS_FILTER, None, larc_abs s3)"
    using larc_lookup [OF b, of ob] new full larc_full [OF b] g(2)
    by (simp add: spec_larc_def s3(3) larc_lgs Let_def over_def len)
  show ?thesis
  proof (rule larc_finish [OF set leg com s3(2)])
    show "length (lg (larc_abs s3)) \<le> 9 * unat m div 10"
      using larc_len [OF ok] G(2) g(2) by (auto simp: s3(3) over_def len)
    show "write_effect ob w (r0\<lparr>r_op := CACHE_NUCLEUS_FILTER\<rparr>) (cview (ht s) (store s))
        (marked ob w (cview (ht s3) (store s3)))" by (rule write_effect_same) (simp_all add: s3(4) v)
  qed (simp_all add: spec evicted_def resides_def)
qed

text \<open>A ghost: it enters the cache, and the least recently used block makes room for it if there is none.\<close>

lemma larc_ghost_promote:
  assumes b: "larc_base c m s" and e: "ht_lookup ob s = Some e" "fst e = MetaRegion" and nf: "\<not> cache_is_full s"
    and lt: "lat_dest lt = LARC_Q" "\<not> lat_c_hit lt" "lat_oblock lt = ob"
  shows "\<exists>p cb s1 s2. larc_remove_entry e s = Inr s1 \<and> larc_place lt r s1 = Inr (r\<lparr>r_cblock := cb\<rparr>, s2) \<and>
    larc_base c m s2 \<and> larc_abs s2 = (larc_abs s)\<lparr>lway := insert ob (lway (larc_abs s)), lg := remove1 ob (lg (larc_abs s))\<rparr> \<and>
    cview (ht s2) (store s2) = (cview (ht s) (store s))(ob \<mapsto> (p, True, False)) \<and> p \<notin> set (ht s) \<and>
    pool_geo (cache_pool s2) = pool_geo (cache_pool s) \<and> epool_at (cache_pool s) cb = Some p"
proof -
  note D = larc_baseD [OF b]
  have mem: "e \<in> set (ht s)" "e_oblock (store s e) = ob" using lookup_Some [OF D(1)] e(1) by auto
  from larc_remove_entry_ok [OF b mem] obtain s1 where
    s1: "larc_remove_entry e s = Inr s1" "larc_base c m s1"
    "larc_abs s1 = \<lparr>lq = remove1 ob (lq (larc_abs s)), lway = lway (larc_abs s) - {ob},
      lg = remove1 ob (lg (larc_abs s)), lgs = lgs (larc_abs s)\<rparr>"
    "cview (ht s1) (store s1) = (cview (ht s) (store s))(ob := None)"
    "store s1 = (store s)(e := freed_entry (store s e))" "ht s1 = remove1 e (ht s)"
    "pool_geo (cache_pool s1) = pool_geo (cache_pool s)" by blast
  have "ob \<in> set (lg (larc_abs s))" using larc_lookup(3) [OF b] e by blast
  then have dj: "ob \<notin> lway (larc_abs s)" "ob \<notin> set (lq (larc_abs s))" using larc_disjoint(4) [OF b] by blast+
  then have a1: "larc_abs s1 = (larc_abs s)\<lparr>lg := remove1 ob (lg (larc_abs s))\<rparr>"
    by (simp add: s1(3) remove1_idem)
  have nf1: "\<not> cache_is_full s1" using nf unfolding larc_full [OF b] larc_full [OF s1(2)] by (simp add: a1)
  have new1: "ht_lookup (lat_oblock lt) s1 = None"
  proof (rule ccontr)
    assume "ht_lookup (lat_oblock lt) s1 \<noteq> None"
    then obtain p where p: "ht_lookup ob s1 = Some p" using lt(3) by auto
    then have "p \<in> set (ht s1)" "e_oblock (store s1 p) = ob" using lookup_Some [OF larc_baseD(1) [OF s1(2)]] by auto
    then have "p \<in> set (ht s) - {e}" "e_oblock (store s p) = ob"
      using cn_facts(1) [OF D(1)] by (auto simp: s1(5,6))
    then show False using inj_keys [OF larc_keys [OF b], of p e] mem by auto
  qed
  from larc_insert_ok [OF s1(2) nf1 new1 lt, of r] obtain p cb s2 where
    s2: "larc_place lt r s1 = Inr (r\<lparr>r_cblock := cb\<rparr>, s2)" "larc_base c m s2"
    "larc_abs s2 = (larc_abs s1)\<lparr>lway := insert ob (lway (larc_abs s1))\<rparr>"
    "cview (ht s2) (store s2) = (cview (ht s1) (store s1))(ob \<mapsto> (p, True, False))"
    "p \<notin> set (ht s1)" "fst p = CacheRegion" "pool_geo (cache_pool s2) = pool_geo (cache_pool s1)"
    "epool_at (cache_pool s1) cb = Some p" by blast
  have "p \<notin> set (ht s)" using s2(5,6) e(2) cn_facts(1) [OF D(1)] by (auto simp: s1(6))
  then show ?thesis using s1(1,4,7) s2 pool_geo_cong(1) [OF s1(7)]
    by - (rule exI [of _ p], rule exI [of _ cb], rule exI [of _ s1], rule exI [of _ s2], simp add: a1)
qed

lemma larc_serve_ghost:
  assumes ok: "larc_ok c m s" and e: "ht_lookup ob s = Some e" "fst e = MetaRegion"
  shows "larc_serves c m ob w r0 s"
proof -
  have b: "larc_base c m s" using ok by (simp add: larc_ok_def)
  note D = larc_baseD [OF b]
  obtain g where g: "larc_increase_g_size s = Inr g" "unat g = grow (unat m) (unat (larc_g_size s))"
    using larc_grow [OF b] by blast
  obtain s1 where s1: "s1 = s\<lparr>larc_g_size := g\<rparr>" by blast
  have b1: "larc_base c m s1" and a1: "larc_abs s1 = (larc_abs s)\<lparr>lgs := unat g\<rparr>"
    unfolding s1 using grow_bounds [OF D(6,13,14)] g(2) by (simp_all add: larc_resize [OF b])
  have f1: "ht s1 = ht s" "store s1 = store s" "cache_pool s1 = cache_pool s" "larc_q s1 = larc_q s"
    by (simp_all add: s1)
  obtain lt where lt: "lt = \<lparr>lat_oblock = ob, lat_g_size = g, lat_c_hit = False, lat_c_evict = cache_is_full s,
      lat_g_hit = True, lat_g_evict = False, lat_dest = LARC_Q\<rparr>" by blast
  have set: "larc_transaction_set s (larc_transaction_init s ob) = Inr lt"
    using e g(1) larc_in_regions [OF b e(1)]
    by (simp add: larc_transaction_set_def larc_transaction_init_def lt Let_def)
  have dest: "lat_dest lt = LARC_Q" "\<not> lat_c_hit lt" "lat_oblock lt = ob" by (simp_all add: lt)
  have v: "cview (ht s) (store s) ob = None"
    using e by (simp add: cview_def ht_lookup_def)
  have gm: "ob \<in> set (lg (larc_abs s))" using larc_lookup(3) [OF b] e by blast
  note dj = larc_disjoint(4) [OF b gm]
  have e1: "ht_lookup ob s1 = Some e" using e(1) by (simp add: ht_lookup_def f1)
  show ?thesis
  proof (cases "cache_is_full s")
    case False
    then have nf: "\<not> cache_is_full s1" by (simp add: cache_is_full_def f1)
    have leg: "larc_transaction_is_legal s lt" using False by (simp add: larc_transaction_is_legal_def lt)
    from larc_ghost_promote [OF b1 e1 e(2) nf dest, of "r0\<lparr>r_op := CACHE_NUCLEUS_NEW\<rparr>"] obtain p cb s2 s3 where
      s3: "larc_remove_entry e s1 = Inr s2"
      "larc_place lt (r0\<lparr>r_op := CACHE_NUCLEUS_NEW\<rparr>) s2 = Inr (r0\<lparr>r_op := CACHE_NUCLEUS_NEW, r_cblock := cb\<rparr>, s3)"
      "larc_base c m s3"
      "larc_abs s3 = (larc_abs s1)\<lparr>lway := insert ob (lway (larc_abs s1)), lg := remove1 ob (lg (larc_abs s1))\<rparr>"
      "cview (ht s3) (store s3) = (cview (ht s) (store s))(ob \<mapsto> (p, True, False))" "p \<notin> set (ht s)"
      "pool_geo (cache_pool s3) = pool_geo (cache_pool s)" "epool_at (cache_pool s) cb = Some p"
      unfolding f1 by blast
    have com: "larc_transaction_commit lt r0 s = Inr (r0\<lparr>r_op := CACHE_NUCLEUS_NEW, r_cblock := cb\<rparr>, s3)"
      using s3(1,2) e1 False
      by (simp add: larc_transaction_commit_def lt deref_def) (simp add: lt [symmetric] s1 deref_def False)
    have spec: "spec_larc (unat c) (unat m) ob (larc_abs s) = (CACHE_NUCLEUS_NEW, None, larc_abs s3)"
      using dj gm False larc_full [OF b] g(2) by (simp add: spec_larc_def s3(4) a1 larc_lgs Let_def)
    show ?thesis
    proof (rule larc_finish [OF set leg com s3(3)])
      show "length (lg (larc_abs s3)) \<le> 9 * unat m div 10"
        using larc_len [OF ok] length_remove1 [of ob "lg (larc_abs s)"] by (simp add: s3(4) a1 split: if_splits)
      show "write_effect ob w (r0\<lparr>r_op := CACHE_NUCLEUS_NEW, r_cblock := cb\<rparr>) (cview (ht s) (store s))
          (marked ob w (cview (ht s3) (store s3)))" by (rule write_effect_new [OF _ v s3(6,5)]) simp
      show "resides ob (r0\<lparr>r_op := CACHE_NUCLEUS_NEW, r_cblock := cb\<rparr>) s3"
        by (rule residesI [of s3 ob p _ "cache_pool s"]) (simp_all add: s3(5,7,8))
    qed (simp_all add: spec evicted_def)
  next
    case True
    show ?thesis
    proof (cases "larc_q s")
      case Nil
      then have ill: "\<not> larc_transaction_is_legal s lt"
        using True larc_q_pos [OF b] by (simp add: larc_transaction_is_legal_def lt)
      have "lq (larc_abs s) = []" using Nil by (simp add: larc_abs_def)
      then have "spec_larc (unat c) (unat m) ob (larc_abs s) = (CACHE_NUCLEUS_FAIL, None, larc_abs s)"
        using dj gm True larc_full [OF b] by (simp add: spec_larc_def)
      then show ?thesis using ill set v ok
        by (simp add: larc_serves_def larc_map_api_def larc_next_victim_api_def evicted_def write_effect_def resides_def)
    next
      case (Cons q qs)
      have leg: "larc_transaction_is_legal s lt"
        using Cons larc_q_pos [OF b] by (simp add: larc_transaction_is_legal_def lt)
      define old where "old = hd (lq (larc_abs s))"
      have q1: "larc_q s1 = q # qs" using Cons f1(4) by simp
      have lq1: "lq (larc_abs s1) = lq (larc_abs s)" by (simp add: a1)
      from larc_evict_q [OF b1 q1, of "r0\<lparr>r_op := CACHE_NUCLEUS_NEW\<rparr>", unfolded lq1, folded old_def]
      obtain s2 where s2: "larc_evict larc_q (Some (r0\<lparr>r_op := CACHE_NUCLEUS_NEW\<rparr>)) s1 =
          Inr (Some (r0\<lparr>r_op := CACHE_NUCLEUS_NEW, r_old_oblock := old, r_dirty_eviction := e_dirty (store s q)\<rparr>), s2)"
        "larc_base c m s2" "larc_abs s2 = (larc_abs s1)\<lparr>lq := tl (lq (larc_abs s))\<rparr>"
        "cview (ht s) (store s) old = Some (q, False, e_dirty (store s q))"
        "cview (ht s2) (store s2) = (cview (ht s) (store s))(old := None)"
        "ht s2 = remove1 q (ht s)" "pool_geo (cache_pool s2) = pool_geo (cache_pool s)"
        unfolding f1 by auto
      define r1 where "r1 = r0\<lparr>r_old_oblock := old, r_dirty_eviction := e_dirty (store s q),
          r_op := CACHE_NUCLEUS_REPLACE\<rparr>"
      have ne: "lq (larc_abs s) \<noteq> []" using Cons by (simp add: larc_abs_def)
      have nf2: "\<not> cache_is_full s2"
        using larc_full [OF s2(2)] larc_full [OF b] True ne by (cases "lq (larc_abs s)") (auto simp: s2(3) a1)
      have "ob \<in> set (lg (larc_abs s2))" using gm by (simp add: s2(3) a1)
      then obtain e2 where e2: "ht_lookup ob s2 = Some e2" "fst e2 = MetaRegion"
        using larc_lookup(3) [OF s2(2)] by blast
      from larc_ghost_promote [OF s2(2) e2 nf2 dest, of r1] obtain p cb s3 s4 where
        s4: "larc_remove_entry e2 s2 = Inr s3" "larc_place lt r1 s3 = Inr (r1\<lparr>r_cblock := cb\<rparr>, s4)"
        "larc_base c m s4"
        "larc_abs s4 = (larc_abs s2)\<lparr>lway := insert ob (lway (larc_abs s2)), lg := remove1 ob (lg (larc_abs s2))\<rparr>"
        "cview (ht s4) (store s4) = (cview (ht s2) (store s2))(ob \<mapsto> (p, True, False))" "p \<notin> set (ht s2)"
        "pool_geo (cache_pool s4) = pool_geo (cache_pool s2)" "epool_at (cache_pool s2) cb = Some p" by blast
      have "epool_at (cache_pool s) cb = Some p" using s4(8) pool_geo_cong(1) [OF s2(7)] by simp
      then have "p \<in> cached (ht s)" using full_cached [OF D(1) True] epool_at_in_pool by blast
      then have pq: "p = q" using s4(6) cn_facts(1) [OF D(1)] by (auto simp: s2(6) cached_def)
      have com: "larc_transaction_commit lt r0 s = Inr (r1\<lparr>r_cblock := cb\<rparr>, s4)"
        using s2(1) s4(1,2) e2 True
        by (simp add: larc_transaction_commit_def lt deref_def) (simp add: lt [symmetric] s1 deref_def True r1_def)
      have spec: "spec_larc (unat c) (unat m) ob (larc_abs s) = (CACHE_NUCLEUS_REPLACE, Some old, larc_abs s4)"
        using dj gm True larc_full [OF b] g(2) ne
        by (cases "lq (larc_abs s)") (simp_all add: spec_larc_def s4(4) s2(3) a1 larc_lgs Let_def old_def)
      show ?thesis
      proof (rule larc_finish [OF set leg com s4(3)])
        show "length (lg (larc_abs s4)) \<le> 9 * unat m div 10"
          using larc_len [OF ok] length_remove1 [of ob "lg (larc_abs s)"]
          by (simp add: s4(4) s2(3) a1 split: if_splits)
        show "write_effect ob w (r1\<lparr>r_cblock := cb\<rparr>) (cview (ht s) (store s))
            (marked ob w (cview (ht s4) (store s4)))"
          by (rule write_effect_replace [where v = "cview (ht s) (store s)" and e = q, OF _ v]) (simp_all add: r1_def s2(4,5) s4(5) pq)
        show "resides ob (r1\<lparr>r_cblock := cb\<rparr>) s4"
          by (rule residesI [of s4 ob p _ "cache_pool s2"]) (simp_all add: s4(5,7,8))
      qed (simp_all add: spec evicted_def r1_def)
    qed
  qed
qed

text \<open>Every access.\<close>

lemma larc_access:
  assumes ok: "larc_ok c m s"
  shows "larc_serves c m ob w r0 s"
proof (cases "ht_lookup ob s")
  case None
  then show ?thesis using larc_serve_new [OF ok] larc_serve_filter [OF ok] by blast
next
  case (Some e)
  then show ?thesis
    using larc_serve_hit [OF ok Some] larc_serve_ghost [OF ok Some] by (cases "fst e") auto
qed

section \<open>The other functions\<close>

lemma larc_cview_entry:
  assumes ok: "larc_base c m s" and v: "cview (ht s) (store s) ob = Some (e, mig, d)"
  shows "ht_lookup ob s = Some e" "e \<in> cached (ht s)" "e \<in> set (ht s)" "e_oblock (store s e) = ob"
    "mig = e_migrating (store s e)" "d = e_dirty (store s e)"
  using v view_key [OF v] by (auto simp: cview_def ht_lookup_def cached_def split: option.splits if_splits)

lemma larc_remove_ok:
  assumes ok: "larc_ok c m s" and e: "ht_lookup ob s = Some e"
  shows "\<exists>s'. larc_remove_api ob h s = Inr s' \<and> larc_ok c m s' \<and>
    larc_abs s' = \<lparr>lq = remove1 ob (lq (larc_abs s)), lway = lway (larc_abs s) - {ob},
      lg = remove1 ob (lg (larc_abs s)), lgs = lgs (larc_abs s)\<rparr> \<and>
    cview (ht s') (store s') = (cview (ht s) (store s))(ob := None)"
proof -
  have b: "larc_base c m s" using ok by (simp add: larc_ok_def)
  have mem: "e \<in> set (ht s)" "e_oblock (store s e) = ob" using lookup_Some [OF larc_baseD(1) [OF b]] e by auto
  from larc_remove_entry_ok [OF b mem] obtain s' where s': "larc_remove_entry e s = Inr s'" "larc_base c m s'"
    "larc_abs s' = \<lparr>lq = remove1 ob (lq (larc_abs s)), lway = lway (larc_abs s) - {ob},
      lg = remove1 ob (lg (larc_abs s)), lgs = lgs (larc_abs s)\<rparr>"
    "cview (ht s') (store s') = (cview (ht s) (store s))(ob := None)" "larc_g s' = remove1 e (larc_g s)" by blast
  have "length (larc_g s') \<le> length (larc_g s)" by (simp add: s'(5) length_remove1)
  then have "larc_ok c m s'" using s'(2) ok by (simp add: larc_ok_def)
  then show ?thesis using s' e by (simp add: larc_remove_api_def deref_def)
qed

lemma larc_migrated_ok:
  assumes ok: "larc_ok c m s" and v: "cview (ht s) (store s) ob = Some (e, True, d)"
  shows "\<exists>s'. larc_migrated_api ob s = Inr s' \<and> larc_ok c m s' \<and>
    larc_abs s' = (larc_abs s)\<lparr>lq := lq (larc_abs s) @ [ob], lway := lway (larc_abs s) - {ob}\<rparr> \<and>
    cview (ht s') (store s') = (cview (ht s) (store s))(ob \<mapsto> (e, False, d))"
proof -
  have b: "larc_base c m s" using ok by (simp add: larc_ok_def)
  note D = larc_baseD [OF b] and E = larc_cview_entry [OF b v]
  have mig: "e_migrating (store s e)" using E(5) by simp
  from cn_migrated_entry_ok [OF D(1) E(2) mig] obtain cp s1 where
    1: "s1 = s\<lparr>store := (store s)(e := (store s e)\<lparr>e_migrating := False\<rparr>), cache_pool := cp\<rparr>"
    "cn_migrated_entry e s = Inr s1" "cn_ok s1" "pool_geo cp = pool_geo (cache_pool s)" by blast
  have q: "e \<notin> set (larc_q s)" "e \<notin> set (larc_g s)" using D(9,11,12) mig by auto
  define x where "x = (store s e)\<lparr>e_migrating := False\<rparr>"
  have x: "\<not> e_migrating x" "e_oblock x = ob" "e_dirty x = d" using E(4,6) by (simp_all add: x_def)
  obtain s' where s': "s' = upd_stats inc_promotions (s1\<lparr>larc_q := larc_q s @ [e]\<rparr>)" by blast
  have f: "store s' = (store s)(e := x)" "ht s' = ht s" "larc_q s' = larc_q s @ [e]" "larc_g s' = larc_g s"
    "cache_pool s' = cp" "meta_pool s' = meta_pool s" "meta_size s' = meta_size s" "larc_g_size s' = larc_g_size s"
    by (simp_all add: s' 1(1) x_def)
  have run: "larc_migrated_api ob s = Inr s'"
    using E(1) mig 1(2) q by (simp add: larc_migrated_api_def log_assert_def deref_def q_push_def s') (simp add: 1(1))
  have cn: "cn_ok s'" using 1(3) by (simp add: s' cn_ok_def)
  have only: "p \<noteq> e" if "p \<in> metas (ht s)" for p using that E(2) by (auto simp: cached_def metas_def)
  have "set (larc_q s') = {p \<in> cached (ht s'). \<not> e_migrating (store s' p)}"
    using D(9) E(2) x(1) by (auto simp: f)
  moreover have "\<forall>p \<in> metas (ht s'). \<not> e_migrating (store s' p)" using D(12) only by (simp add: f)
  ultimately have "larc_base c m s'"
    by (intro larc_base_cong [OF b cn]) (simp_all add: f 1(4) D(8,10,11) q)
  then have "larc_ok c m s'" using ok by (simp add: larc_ok_def f)
  moreover have "larc_abs s' = (larc_abs s)\<lparr>lq := lq (larc_abs s) @ [ob], lway := lway (larc_abs s) - {ob}\<rparr>"
  proof -
    have k: "e_oblock (store s' p) = e_oblock (store s p)" for p using x(2) E(4) by (simp add: f)
    have "{p \<in> cached (ht s'). e_migrating (store s' p)} = {p \<in> cached (ht s). e_migrating (store s p)} - {e}"
      using x(1) by (auto simp: f)
    then show ?thesis
      using key_image_minus [OF larc_keys [OF b] larc_subs(3) [OF b] E(3)] E(4)
      by (simp add: larc_abs_def k f(3,4,8))
  qed
  moreover have "cview (ht s') (store s') = (cview (ht s) (store s))(ob \<mapsto> (e, False, d))"
    using cview_upd [OF larc_keys [OF b] E(3), of x] E(2,4) x by (simp add: f(1,2) cached_def)
  ultimately show ?thesis using run by blast
qed

lemma larc_insert_api_ok:
  assumes ok: "larc_ok c m s" and new: "ht_lookup ob s = None"
    and e: "epool_at (cache_pool s) cb = Some e" "e \<notin> set (ht s)"
  shows "\<exists>s'. larc_insert_api ob cb s = Inr s' \<and> larc_ok c m s' \<and>
    larc_abs s' = (larc_abs s)\<lparr>lq := lq (larc_abs s) @ [ob]\<rparr> \<and>
    cview (ht s') (store s') = (cview (ht s) (store s))(ob \<mapsto> (e, False, False))"
proof -
  have b: "larc_base c m s" using ok by (simp add: larc_ok_def)
  note D = larc_baseD [OF b]
  from insert_in_cache_at_ok [OF D(1) new e] obtain cp s1 where
    1: "s1 = s\<lparr>store := (store s)(e := fresh_entry ob (store s e)), cache_pool := cp, ht := e # ht s\<rparr>"
    "insert_in_cache_at ob cb None s = Inr (e, None, s1)" "cn_ok s1"
    "pool_geo cp = pool_geo (cache_pool s)" "fst e = CacheRegion" "\<not> e_migrating (store s e)" by blast
  define x where "x = fresh_entry ob (store s e)"
  have x: "\<not> e_migrating x" "e_oblock x = ob" "\<not> e_dirty x" using 1(6) by (simp_all add: x_def)
  have ne: "e \<notin> set (larc_q s)" "e \<notin> set (larc_g s)" using larc_subs [OF b] e(2) by auto
  obtain s' where s': "s' = s1\<lparr>larc_q := larc_q s @ [e]\<rparr>" by blast
  have f: "store s' = (store s)(e := x)" "ht s' = e # ht s" "larc_q s' = larc_q s @ [e]" "larc_g s' = larc_g s"
    "cache_pool s' = cp" "meta_pool s' = meta_pool s" "meta_size s' = meta_size s" "larc_g_size s' = larc_g_size s"
    by (simp_all add: s' 1(1) x_def)
  have run: "larc_insert_api ob cb s = Inr s'"
    using 1(2) ne by (simp add: larc_insert_api_def q_push_def s') (simp add: 1(1))
  have cn: "cn_ok s'" using 1(3) by (simp add: s' cn_ok_def)
  note sets = cons_sets [OF e(2), of "store s" x]
  have "set (larc_q s') = {p \<in> cached (ht s'). \<not> e_migrating (store s' p)}"
    "\<forall>p \<in> metas (ht s'). \<not> e_migrating (store s' p)" "set (larc_g s') = metas (ht s')" "distinct (larc_q s')"
    unfolding f(1-4) sets using D(8-12) 1(5) x(1) ne by (simp_all add: metas_Cons)
  then have "larc_base c m s'" by (intro larc_base_cong [OF b cn]) (simp_all only: f 1(4) D(10))
  then have "larc_ok c m s'" using ok by (simp add: larc_ok_def f)
  moreover have "cview (ht s') (store s') = (cview (ht s) (store s))(ob \<mapsto> (e, False, False))"
    unfolding f(1,2) cview_fresh [OF e(2)] using 1(5) x by simp
  moreover have "larc_abs s' = (larc_abs s)\<lparr>lq := lq (larc_abs s) @ [ob]\<rparr>"
    using larc_subs [OF b] x(2) keys_upd_map [OF e(2), of "larc_q s" "store s" x]
      keys_upd_map [OF e(2), of "larc_g s" "store s" x] keys_upd [OF e(2) larc_subs(3) [OF b], of "store s" x]
    unfolding larc_abs_def f(1-4,8) sets using x(1) by simp
  ultimately show ?thesis using run by blast
qed

lemma larc_remap_ok:
  assumes ok: "larc_ok c m s" and e: "ht_lookup ob s = Some e" and new: "ht_lookup nob s = None"
  shows "\<exists>s'. default_remap ob nob s = Inr s' \<and> larc_ok c m s'"
proof -
  have b: "larc_base c m s" using ok by (simp add: larc_ok_def)
  note D = larc_baseD [OF b]
  have mem: "e \<in> set (ht s)" "e_oblock (store s e) = ob" using e lookup_Some [OF D(1)] by blast+
  from default_remap_ok [OF D(1) mem(1) new] obtain s' where
    s': "s' = s\<lparr>store := (store s)(e := (store s e)\<lparr>e_oblock := nob\<rparr>), ht := e # remove1 e (ht s)\<rparr>"
    "default_remap ob nob s = Inr s'" "cn_ok s'" unfolding mem(2) by blast
  have f: "larc_q s' = larc_q s" "larc_g s' = larc_g s" "larc_g_size s' = larc_g_size s" "meta_size s' = meta_size s"
    "cache_pool s' = cache_pool s" "meta_pool s' = meta_pool s" using s'(1) by simp_all
  have "set (ht s') = set (ht s)" using mem(1) cn_facts(1) [OF D(1)] by (auto simp: s'(1))
  then have sets: "cached (ht s') = cached (ht s)" "metas (ht s') = metas (ht s)" by (simp_all add: cached_def metas_def)
  have mig: "e_migrating (store s' p) = e_migrating (store s p)" for p by (simp add: s'(1))
  have "larc_base c m s'" by (rule larc_base_cong [OF b s'(3)]) (simp_all add: f sets mig D(8-12))
  then have "larc_ok c m s'" using ok by (simp add: larc_ok_def f)
  then show ?thesis using s'(2) by blast
qed

section \<open>The contract\<close>

lemma larc_set_time: "larc_ok c m s \<Longrightarrow> larc_ok c m (default_set_time t s)"
  by (simp add: larc_ok_def larc_base_def default_set_time_def)

interpretation larc: nucleus_policy larc_map_api larc_remove_api larc_insert_api larc_migrated_api
  larc_next_victim_api "larc_ok c m" c for c m
proof
  fix s :: larc_policy and ob w r0 e d t
  assume ok: "larc_ok c m s"
  then have b: "larc_base c m s" by (simp add: larc_ok_def)
  show "cn_ok s \<and> ep_nr_entries (cache_pool s) = c" using larc_baseD(1,2) [OF b] by simp
  show "\<exists>r s'. larc_map_api ob w r0 s = Inr (0, r, s') \<and> larc_ok c m s' \<and>
      write_effect ob w r (cview (ht s) (store s)) (cview (ht s') (store s')) \<and> resides ob r s' \<and>
      (\<exists>op v. larc_next_victim_api ob s = Inr (op, v) \<and> (op = CACHE_NUCLEUS_FAIL \<longleftrightarrow> r_op r = CACHE_NUCLEUS_FAIL))"
    using larc_access [OF ok, of ob w r0] unfolding larc_serves_def by blast
  show "cview (ht s) (store s) ob = Some (e, True, d) \<Longrightarrow> \<exists>s'. larc_migrated_api ob s = Inr s' \<and> larc_ok c m s' \<and>
      cview (ht s') (store s') = (cview (ht s) (store s))(ob \<mapsto> (e, False, d))"
    using larc_migrated_ok [OF ok] by blast
  show "cview (ht s) (store s) ob \<noteq> None \<Longrightarrow> \<exists>s'. larc_remove_api ob False s = Inr s' \<and> larc_ok c m s' \<and>
      cview (ht s') (store s') = (cview (ht s) (store s))(ob := None)"
    using larc_remove_ok [OF ok] larc_cview_entry(1) [OF b] by (metis not_None_eq prod.exhaust)
  show "larc_ok c m (default_set_time t s)" by (rule larc_set_time [OF ok])
qed

lemma larc_create_ok:
  assumes "2 \<le> c" "10 \<le> unat m" "9 * unat m < 2 ^ 32"
  shows "\<exists>s. larc_create c m = Inr s \<and> larc_ok c m s \<and> ht s = [] \<and>
    larc_abs s = \<lparr>lq = [], lway = {}, lg = [], lgs = unat m div 10\<rparr>"
proof -
  let ?s0 = "zero_larc\<lparr>larc_q := [], larc_g := [], larc_g_size := m div 10,
      cache_pool := epool_create CacheRegion c, meta_pool := epool_create MetaRegion m\<rparr>"
  obtain s' cp mp where s': "policy_init c m CACHE_NUCLEUS_SINGLE_THREAD ?s0 = Inr s'" "cn_ok s'" "ht s' = []"
    "s' = ?s0\<lparr>store := store s', cache_pool := cp, meta_pool := mp, stats := stats_init, ht := [],
           cache_size := c, meta_size := m, thread_support := CACHE_NUCLEUS_SINGLE_THREAD, cn_time := 0\<rparr>"
    "ep_nr_entries cp = c" "ep_nr_entries mp = m"
    using policy_init_ok [of ?s0 c m c m CACHE_NUCLEUS_SINGLE_THREAD] by (auto simp: zero_larc_def)
  have f: "larc_q s' = []" "larc_g s' = []" "larc_g_size s' = m div 10" "cache_pool s' = cp" "meta_pool s' = mp"
    "meta_size s' = m"
    by (subst s'(4), simp add: zero_larc_def)+
  have "larc_ok c m s'" using s' f assms by (simp add: larc_ok_def larc_base_def unat_div10 cached_def metas_def)
  moreover have "larc_abs s' = \<lparr>lq = [], lway = {}, lg = [], lgs = unat m div 10\<rparr>"
    using s'(3) f by (simp add: larc_abs_def unat_div10 cached_def)
  ultimately show ?thesis using s' by (simp add: larc_create_def larc_init_def)
qed

end
