(* ===== verification/Larc_Props.thy ===== *)
theory Larc_Props
  imports Larc Systems
begin

text \<open>
  The properties of LARC: the bounds of its queues in every state that calls
  in any order can reach, the abstract cache an
  access refines, its runs under the simulator, and the metadata sizes it cannot work with.
\<close>

section \<open>Bounds\<close>

lemma larc_contract: "write_policy larc_api (larc_ok c m) (unat c)"
  unfolding larc_api_def by (rule larc.keeps_write_contract)

lemma larc_cache_policy: "cache_policy larc_api (larc_ok c m) (unat c)"
  using larc_contract by (simp add: write_policy_def)

lemma larc_access_policy: "access_policy larc_api (larc_ok c m) (unat c)"
  using larc_cache_policy by (simp add: cache_policy_def)

lemma larc_started:
  assumes "2 \<le> c" "10 \<le> unat m" "9 * unat m < 2 ^ 32"
  shows "\<exists>s. larc_create c m = Inr s \<and> larc_ok c m s \<and> mview larc_api s = Map.empty \<and>
    larc_abs s = \<lparr>lq = [], lway = {}, lg = [], lgs = unat m div 10\<rparr>"
proof -
  obtain s where s: "larc_create c m = Inr s" "larc_ok c m s" "ht s = []"
    "larc_abs s = \<lparr>lq = [], lway = {}, lg = [], lgs = unat m div 10\<rparr>"
    using larc_create_ok [OF assms] by blast
  then show ?thesis using larc.starts_empty [OF s(2,3)] by (simp add: larc_api_def)
qed











section \<open>Refinement\<close>



section \<open>Runs\<close>

interpretation fomo_larc: fomo_over_cache larc_api "larc_ok c m" "unat c" for c m
  by (rule fomo_over_cacheI) (rule larc_cache_policy)

text \<open>
  Over LARC, and over FOMO in front of LARC, the simulator with any migration delay below 2^31, any
  sampling rate but zero and without removals reads the whole trace without a fault: the adaptive
  size is never zero when it divides, no queue is corrupted, and no pool runs out.
\<close>
theorem larc_simulation_total:
  assumes "plain_opts opts" "2 \<le> c" "10 \<le> unat m" "9 * unat m < 2 ^ 32"
  shows "(\<exists>s st st'. larc_create c m = Inr s \<and> sim_prep opts s = Inr st \<and>
      sim_run larc_api rnd opts 1 tr st = Inr st' \<and> larc_ok c m (sm_policy st') \<and>
      (opt_sampling_rate opts = 1 \<longrightarrow> accesses (sm_stats st') = of_nat (length tr))) \<and>
    (\<exists>s st st'. fomo_create c m larc_create = Inr s \<and> sim_prep opts s = Inr st \<and>
      sim_run (fomo_api larc_api) rnd opts 1 tr st = Inr st' \<and> fomo_ok (larc_ok c m) (sm_policy st') \<and>
      (opt_sampling_rate opts = 1 \<longrightarrow> accesses (sm_stats st') = of_nat (length tr)))"
proof (rule conjI)
  obtain s where s: "larc_create c m = Inr s" "larc_ok c m s" "mview larc_api s = Map.empty"
    using larc_started [OF assms(2-4)] by blast
  have p: "pending (mview larc_api s) = {}" by (simp add: s(3) pending_def)
  from access_policy.run_from_start [OF larc_access_policy assms(1) s(2) p] s(1)
  show "\<exists>s st st'. larc_create c m = Inr s \<and> sim_prep opts s = Inr st \<and>
      sim_run larc_api rnd opts 1 tr st = Inr st' \<and> larc_ok c m (sm_policy st') \<and>
      (opt_sampling_rate opts = 1 \<longrightarrow> accesses (sm_stats st') = of_nat (length tr))" by blast
  have "1 \<le> c" using assms(2) by (simp add: word_le_nat_alt)
  from fomo_init_ok [OF this, of "larc_ok c m" s, OF s(2)] obtain f where
    f: "fomo_init c s (zero_fomo s) = Inr f" "fomo_ok (larc_ok c m) f" "fo_internal f = s" by blast
  have "pending (mview (fomo_api larc_api) f) = {}" unfolding fomo_pview f(3) by (rule p)
  from access_policy.run_from_start [OF fomo_larc.fomo.access_policy_axioms assms(1) f(2) this] f(1) s(1)
  show "\<exists>s st st'. fomo_create c m larc_create = Inr s \<and> sim_prep opts s = Inr st \<and>
      sim_run (fomo_api larc_api) rnd opts 1 tr st = Inr st' \<and> fomo_ok (larc_ok c m) (sm_policy st') \<and>
      (opt_sampling_rate opts = 1 \<longrightarrow> accesses (sm_stats st') = of_nat (length tr))"
    by (simp add: fomo_create_def)
qed

theorem larc_simulation_total_witness:
  "\<exists>s st st'. larc_create 2 10 = Inr s \<and> sim_prep \<lparr>opt_sampling_rate = 1, opt_migration_delay = 3, opt_remove_rate = 0\<rparr> s = Inr st \<and>
    sim_run larc_api (\<lambda>_. 0) \<lparr>opt_sampling_rate = 1, opt_migration_delay = 3, opt_remove_rate = 0\<rparr> 1
      [(1, False), (2, True), (3, False), (3, False)] st = Inr st' \<and> accesses (sm_stats st') = 4"
  using larc_simulation_total [of "\<lparr>opt_sampling_rate = 1, opt_migration_delay = 3, opt_remove_rate = 0\<rparr>"
      2 10 "\<lambda>_. 0" "[(1, False), (2, True), (3, False), (3, False)]"]
  by (auto simp: plain_opts_def)

text \<open>
  Metadata for fewer than ten blocks makes the first miss divide by zero: the initial size of the ghost
  queue, a tenth of the metadata, is zero, and the size grows by meta / size.
\<close>
theorem larc_small_metadata_faults:
  assumes "2 \<le> c" "m < 10"
  shows "\<exists>s. larc_create c m = Inr s \<and> larc_map_api ob w r0 s = Inl DivByZero"
proof -
  let ?s0 = "zero_larc\<lparr>larc_q := [], larc_g := [], larc_g_size := m div 10,
      cache_pool := epool_create CacheRegion c, meta_pool := epool_create MetaRegion m\<rparr>"
  obtain s' cp mp where s': "policy_init c m CACHE_NUCLEUS_SINGLE_THREAD ?s0 = Inr s'" "ht s' = []"
    "s' = ?s0\<lparr>store := store s', cache_pool := cp, meta_pool := mp, stats := stats_init, ht := [],
           cache_size := c, meta_size := m, thread_support := CACHE_NUCLEUS_SINGLE_THREAD, cn_time := 0\<rparr>"
    using policy_init_ok [of ?s0 c m c m CACHE_NUCLEUS_SINGLE_THREAD] by (auto simp: zero_larc_def)
  have "unat m div 10 = 0" using assms(2) by (simp add: word_less_nat_alt)
  then have "m div 10 = 0" using unat_div10 [of m] unat_eq_zero [of "m div 10"] by simp
  then have "larc_g_size s' = 0" by (subst s'(3)) (simp add: zero_larc_def)
  then have "larc_map_api ob w r0 s' = Inl DivByZero"
    using s'(2) by (simp add: larc_map_api_def larc_transaction_set_def larc_transaction_init_def ht_lookup_def
        tbl_lookup_def larc_increase_g_size_def udiv_def Let_def)
  then show ?thesis using s'(1) by (simp add: larc_create_def larc_init_def)
qed

theorem larc_small_metadata_faults_witness:
  "\<exists>s. larc_create 4 9 = Inr s \<and> larc_map_api 1 False zero_result s = Inl DivByZero"
  by (rule larc_small_metadata_faults) simp_all

end
