(* ===== verification/Arc.thy ===== *)
theory Arc
  imports Parts
begin

text \<open>
  ARC (\<open>src/src/algs/arc/arc_policy.c\<close>, \<open>arc_policy_struct.h\<close>): two queues of cached blocks, T1 (seen once) and
  T2 (seen again), each with a queue of ghosts behind it, B1 and B2, and a target \<open>p\<close> for the size of T1
  that adapts at every hit on a ghost. The theory has its transactions and API functions.
\<close>

section \<open>The policy\<close>

datatype arc_list = ARC_T1 | ARC_T2 | ARC_B1 | ARC_B2 | ARC_NULL

record arc_entry = entry +
  a_loc :: arc_list

text \<open>
  The arrays \<open>arc_q\<close> and \<open>length\<close> have four elements: their values at \<open>ARC_NULL\<close> stand for no memory, and the
  operations that index with a location from an entry fault there.
\<close>

record arc_policy = "unit arc_entry_ext cache_nucleus" +
  arc_q :: "arc_list \<Rightarrow> eptr list"
  arc_p :: cblock
  arc_length :: "arc_list \<Rightarrow> cblock"

record arc_transaction =
  at_oblock :: oblock
  at_p :: cblock
  at_current_loc :: arc_list
  at_dest :: arc_list
  at_cache_evict :: arc_list
  at_evict_T1_to_B1 :: bool
  at_meta_evict :: arc_list

definition arc_transaction_init :: "arc_policy \<Rightarrow> oblock \<Rightarrow> arc_transaction" where
  "arc_transaction_init s ob =
     \<lparr>at_oblock = ob, at_p = arc_p s, at_current_loc = ARC_NULL, at_dest = ARC_NULL,
      at_cache_evict = ARC_NULL, at_evict_T1_to_B1 = False, at_meta_evict = ARC_NULL\<rparr>"

definition arc_replace :: "arc_policy \<Rightarrow> arc_transaction \<Rightarrow> arc_transaction" where
  "arc_replace s a =
     (let T1_len = arc_length s ARC_T1 in
      if T1_len \<ge> 1 \<and> ((at_current_loc a = ARC_B2 \<and> T1_len = at_p a) \<or> T1_len > at_p a)
      then a\<lparr>at_cache_evict := ARC_T1, at_evict_T1_to_B1 := True\<rparr>
      else a\<lparr>at_cache_evict := ARC_T2\<rparr>)"

text \<open>The two adaptations of the target; the second is computed in 64 bits.\<close>

definition arc_raise_p :: "arc_policy \<Rightarrow> cblock res" where
  "arc_raise_p s =
     rbind (udiv (arc_length s ARC_B2) (arc_length s ARC_B1)) (\<lambda>d.
     Inr (min_u (cache_size s) (arc_p s + max_u d 1)))"

definition arc_lower_p :: "arc_policy \<Rightarrow> cblock res" where
  "arc_lower_p s =
     rbind (udiv (arc_length s ARC_B1) (arc_length s ARC_B2)) (\<lambda>d.
     let tmp = ucast (max_u d 1) :: u64 in
     Inr (if (ucast (arc_p s) :: u64) > tmp then ucast ((ucast (arc_p s) :: u64) - tmp) else 0))"

definition arc_transaction_set :: "arc_policy \<Rightarrow> arc_transaction \<Rightarrow> arc_transaction res" where
  "arc_transaction_set s a =
     (let T1_len = arc_length s ARC_T1; T2_len = arc_length s ARC_T2;
          B1_len = arc_length s ARC_B1; B2_len = arc_length s ARC_B2;
          L1_len = T1_len + B1_len; L2_len = T2_len + B2_len in
      case ht_lookup (at_oblock a) s of
        Some e \<Rightarrow>
          let a = a\<lparr>at_current_loc := a_loc (store s e)\<rparr> in
          if in_cache s (Some e) then Inr (a\<lparr>at_dest := ARC_T2\<rparr>)
          else if a_loc (store s e) = ARC_B1 then
            rbind (arc_raise_p s) (\<lambda>p. Inr ((arc_replace s (a\<lparr>at_p := p\<rparr>))\<lparr>at_dest := ARC_T2\<rparr>))
          else
            rbind (arc_lower_p s) (\<lambda>p. Inr ((arc_replace s (a\<lparr>at_p := p\<rparr>))\<lparr>at_dest := ARC_T2\<rparr>))
      | None \<Rightarrow>
          let a = (if L1_len = cache_size s then
                     if T1_len < cache_size s then arc_replace s (a\<lparr>at_meta_evict := ARC_B1\<rparr>)
                     else a\<lparr>at_cache_evict := ARC_T1\<rparr>
                   else if L1_len < cache_size s \<and> L1_len + L2_len \<ge> cache_size s then
                     arc_replace s (if L1_len + L2_len = 2 * cache_size s then a\<lparr>at_meta_evict := ARC_B2\<rparr> else a)
                   else a)
          in Inr (a\<lparr>at_dest := ARC_T1\<rparr>))"

definition arc_transaction_is_legal :: "arc_policy \<Rightarrow> arc_transaction \<Rightarrow> bool" where
  "arc_transaction_is_legal s a =
     (if at_cache_evict a \<noteq> ARC_NULL then q_length (arc_q s (at_cache_evict a)) > 0 else True)"

text \<open>\<open>queue_remove\<close> takes the entry out of the queue it is in, if any.\<close>

definition arc_unlink :: "eptr \<Rightarrow> arc_policy \<Rightarrow> arc_policy" where
  "arc_unlink e s = s\<lparr>arc_q := (\<lambda>l. q_remove e (arc_q s l))\<rparr>"

definition arc_enqueue :: "arc_list \<Rightarrow> eptr \<Rightarrow> arc_policy \<Rightarrow> arc_policy res" where
  "arc_enqueue l e s =
     (if l = ARC_NULL then Inl OutOfBounds
      else rbind (q_push (map (arc_q s) (filter (\<lambda>k. k \<noteq> l) [ARC_T1, ARC_T2, ARC_B1, ARC_B2])) (arc_q s l) e)
             (\<lambda>q. Inr (s\<lparr>arc_q := (arc_q s)(l := q)\<rparr>)))"

definition arc_shorten :: "arc_list \<Rightarrow> arc_policy \<Rightarrow> arc_policy res" where
  "arc_shorten l s =
     (if l = ARC_NULL then Inl OutOfBounds
      else Inr (s\<lparr>arc_length := (arc_length s)(l := arc_length s l - 1)\<rparr>))"

definition arc_remove_entry :: "eptr \<Rightarrow> arc_policy \<Rightarrow> arc_policy res" where
  "arc_remove_entry e s =
     rbind (arc_shorten (a_loc (store s e)) s) (\<lambda>s.
     let s = (if \<not> e_migrating (store s e) then
                let s = arc_unlink e s in
                if in_cache s (Some e) then upd_stats inc_demotions s else s
              else s)
     in cache_nucleus_remove e (upd_entry e (\<lambda>x. x\<lparr>a_loc := ARC_NULL\<rparr>) s))"

text \<open>The evicted entry is popped off its queue first; the result may be null.\<close>

definition arc_evict ::
  "arc_list \<Rightarrow> cn_result option \<Rightarrow> arc_policy \<Rightarrow> (cn_result option \<times> arc_policy) res" where
  "arc_evict l result s =
     (if l = ARC_NULL then Inl OutOfBounds
      else rbind (deref (q_peek (arc_q s l))) (\<lambda>evicted.
        let s = s\<lparr>arc_q := (arc_q s)(l := tl (arc_q s l))\<rparr>;
            result = map_option (\<lambda>r. r\<lparr>r_old_oblock := e_oblock (store s evicted),
                                        r_dirty_eviction := e_dirty (store s evicted)\<rparr>) result in
        rbind (arc_remove_entry evicted s) (\<lambda>s. Inr (result, s))))"

definition arc_set_for_list :: "eptr \<Rightarrow> arc_list \<Rightarrow> arc_policy \<Rightarrow> arc_policy res" where
  "arc_set_for_list e l s =
     rbind (if a_loc (store s e) \<noteq> ARC_NULL then arc_shorten (a_loc (store s e)) s else Inr s) (\<lambda>s.
     let s = upd_entry e (\<lambda>x. x\<lparr>a_loc := l\<rparr>) s in
     if l = ARC_NULL then Inl OutOfBounds
     else Inr (s\<lparr>arc_length := (arc_length s)(l := arc_length s l + 1)\<rparr>))"

text \<open>A new entry starts without a list: the store may still hold the one of its last use.\<close>

definition arc_set_new :: "eptr \<Rightarrow> arc_list \<Rightarrow> arc_policy \<Rightarrow> arc_policy res" where
  "arc_set_new e l s = arc_set_for_list e l (upd_entry e (\<lambda>x. x\<lparr>a_loc := ARC_NULL\<rparr>) s)"

definition arc_to_ghost :: "oblock \<Rightarrow> arc_list \<Rightarrow> arc_policy \<Rightarrow> arc_policy res" where
  "arc_to_ghost ob l s =
     rbind (insert_in_meta ob s) (\<lambda>(e, s).
     rbind (arc_set_new e l s) (arc_enqueue l e))"

text \<open>
  The three parts of \<open>arc_transaction_commit\<close> after the statistics: room is made in the cache, a hit is moved, or
  a new block enters.
\<close>

definition arc_make_room ::
  "arc_transaction \<Rightarrow> cn_result \<Rightarrow> arc_policy \<Rightarrow> (cn_result \<times> arc_policy) res" where
  "arc_make_room a result s =
     (if at_cache_evict a \<noteq> ARC_NULL then
        rbind (arc_evict (at_cache_evict a) (Some result) s) (\<lambda>(res, s).
        rbind (deref res) (\<lambda>result.
        if at_evict_T1_to_B1 a \<or> at_cache_evict a = ARC_T2 then
          rbind (arc_to_ghost (r_old_oblock result)
                  (if at_cache_evict a = ARC_T2 then ARC_B2 else ARC_B1) s) (\<lambda>s. Inr (result, s))
        else Inr (result, s)))
      else Inr (result, s))"

definition arc_touch ::
  "arc_list \<Rightarrow> eptr \<Rightarrow> bool \<Rightarrow> cn_result \<Rightarrow> arc_policy \<Rightarrow> (cn_result \<times> arc_policy) res" where
  "arc_touch dest e migrating result s =
     rbind (arc_set_for_list e dest s) (\<lambda>s.
     rbind (infer_cblock (cache_pool s) e) (\<lambda>cb.
     rbind (if \<not> migrating then arc_enqueue dest e (arc_unlink e s) else Inr s) (\<lambda>s.
     Inr (result\<lparr>r_cblock := cb\<rparr>, s))))"

definition arc_admit ::
  "arc_list \<Rightarrow> oblock \<Rightarrow> cn_result \<Rightarrow> arc_policy \<Rightarrow> (cn_result \<times> arc_policy) res" where
  "arc_admit dest ob result s =
     rbind (insert_in_cache ob (Some result) s) (\<lambda>(e, res, s).
     rbind (deref res) (\<lambda>result.
     rbind (arc_set_new e dest s) (\<lambda>s.
     rbind (cn_migrating_entry e s) (\<lambda>s. Inr (result, s)))))"

definition arc_transaction_commit ::
  "arc_transaction \<Rightarrow> cn_result \<Rightarrow> arc_policy \<Rightarrow> (cn_result \<times> arc_policy) res" where
  "arc_transaction_commit a result s =
     (let e = ht_lookup (at_oblock a) s;
          hit = (at_current_loc a = ARC_T1 \<or> at_current_loc a = ARC_T2);
          migrating = (case e of None \<Rightarrow> False | Some e \<Rightarrow> e_migrating (store s e));
          s = s\<lparr>arc_p := at_p a\<rparr>;
          s = (if hit then upd_stats inc_hits s else upd_stats inc_misses s);
          result = result\<lparr>r_op := (if hit then CACHE_NUCLEUS_HIT
                                   else if at_cache_evict a \<noteq> ARC_NULL then CACHE_NUCLEUS_REPLACE
                                   else CACHE_NUCLEUS_NEW)\<rparr> in
      rbind (if e \<noteq> None \<and> \<not> hit then rbind (deref e) (\<lambda>e. arc_remove_entry e s) else Inr s) (\<lambda>s.
      rbind (if at_meta_evict a \<noteq> ARC_NULL
             then rbind (arc_evict (at_meta_evict a) None s) (\<lambda>(_, s). Inr s) else Inr s) (\<lambda>s.
      rbind (arc_make_room a result s) (\<lambda>(result, s).
      if hit then rbind (deref e) (\<lambda>e. arc_touch (at_dest a) e migrating result s)
      else arc_admit (at_dest a) (at_oblock a) result s))))"

section \<open>API functions\<close>

definition arc_remove_api :: "oblock \<Rightarrow> bool \<Rightarrow> arc_policy \<Rightarrow> arc_policy res" where
  "arc_remove_api ob remove_to_history s =
     rbind (deref (ht_lookup ob s)) (\<lambda>e.
     let loc = a_loc (store s e); e_in_cache = in_cache s (Some e) in
     rbind (arc_remove_entry e s) (\<lambda>s.
     if e_in_cache \<and> remove_to_history then
       let dest = (if loc = ARC_T1 then ARC_B1 else ARC_B2) in
       rbind (if meta_is_full s then rbind (arc_evict dest None s) (\<lambda>(_, s). Inr s) else Inr s)
         (arc_to_ghost ob dest)
     else Inr s))"

definition arc_insert_api :: "oblock \<Rightarrow> cblock \<Rightarrow> arc_policy \<Rightarrow> arc_policy res" where
  "arc_insert_api ob cb s =
     rbind (insert_in_cache_at ob cb None s) (\<lambda>(e, _, s).
     rbind (arc_set_new e ARC_T1 s) (arc_enqueue ARC_T1 e))"

definition arc_migrated_api :: "oblock \<Rightarrow> arc_policy \<Rightarrow> arc_policy res" where
  "arc_migrated_api ob s =
     rbind (log_assert (ht_lookup ob s \<noteq> None)) (\<lambda>_.
     rbind (deref (ht_lookup ob s)) (\<lambda>e.
     rbind (log_assert (e_migrating (store s e))) (\<lambda>_.
     rbind (cn_migrated_entry e s) (\<lambda>s.
     rbind (log_assert (a_loc (store s e) \<noteq> ARC_NULL)) (\<lambda>_.
     rbind (arc_enqueue (a_loc (store s e)) e s) (\<lambda>s. Inr (upd_stats inc_promotions s)))))))"

definition arc_map_api ::
  "oblock \<Rightarrow> bool \<Rightarrow> cn_result \<Rightarrow> arc_policy \<Rightarrow> (int \<times> cn_result \<times> arc_policy) res" where
  "arc_map_api ob write result s =
     rbind (arc_transaction_set s (arc_transaction_init s ob)) (\<lambda>a.
     if arc_transaction_is_legal s a then
       rbind (arc_transaction_commit a result s) (\<lambda>(result, s).
       Inr (0, result, mark_dirty ob write (upd_stats inc_ios s)))
     else Inr (0, result\<lparr>r_op := CACHE_NUCLEUS_FAIL\<rparr>, s))"

definition arc_next_victim_api ::
  "oblock \<Rightarrow> arc_policy \<Rightarrow> (cache_nucleus_operation \<times> eptr option) res" where
  "arc_next_victim_api ob s =
     rbind (arc_transaction_set s (arc_transaction_init s ob)) (\<lambda>a.
     Inr (if arc_transaction_is_legal s a then
            if at_current_loc a = ARC_T1 \<or> at_current_loc a = ARC_T2 then (CACHE_NUCLEUS_HIT, None)
            else if at_cache_evict a \<noteq> ARC_NULL then (CACHE_NUCLEUS_REPLACE, q_peek (arc_q s (at_cache_evict a)))
            else (CACHE_NUCLEUS_NEW, None)
          else (CACHE_NUCLEUS_FAIL, None)))"

definition arc_api :: "arc_policy policy_api" where
  "arc_api = nucleus_api arc_map_api arc_remove_api arc_insert_api arc_migrated_api arc_next_victim_api"

definition zero_arc :: arc_policy where
  "zero_arc = \<lparr>store = (\<lambda>_. \<lparr>e_oblock = 0, e_time = 0, e_dirty = False, e_allocated = False,
       e_migrating = False, a_loc = ARC_T1\<rparr>), wb = (\<lambda>_. []),
     thread_support = CACHE_NUCLEUS_SINGLE_THREAD, meta_size = 0, cache_size = 0,
     meta_pool = epool_create MetaRegion 0, cache_pool = epool_create CacheRegion 0,
     stats = stats_init, ht = [], cn_time = 0, arc_q = (\<lambda>_. []), arc_p = 0, arc_length = (\<lambda>_. 0)\<rparr>"

definition arc_init :: "cblock \<Rightarrow> cblock \<Rightarrow> arc_policy \<Rightarrow> arc_policy res" where
  "arc_init csize msize s =
     policy_init csize msize CACHE_NUCLEUS_SINGLE_THREAD
       (s\<lparr>arc_q := (\<lambda>_. []), arc_length := (\<lambda>_. 0), arc_p := 0,
          cache_pool := epool_create CacheRegion csize, meta_pool := epool_create MetaRegion msize\<rparr>)"

definition arc_create :: "cblock \<Rightarrow> cblock \<Rightarrow> arc_policy res" where
  "arc_create csize msize = arc_init csize msize zero_arc"

end
