(* ===== verification/Arc_Inv.thy ===== *)
theory Arc_Inv
  imports Arc
begin

text \<open>
  The invariant of ARC: every entry of the hash table is at one location, the queue of a location holds its
  entries that are not migrating, and its length counts all of them. The lemmas say what each of the
  steps of an access does to the invariant and to the abstract lists.
\<close>

section \<open>Lists by location\<close>

fun arc_home :: "arc_list \<Rightarrow> region option" where
  "arc_home ARC_T1 = Some CacheRegion"
| "arc_home ARC_T2 = Some CacheRegion"
| "arc_home ARC_B1 = Some MetaRegion"
| "arc_home ARC_B2 = Some MetaRegion"
| "arc_home ARC_NULL = None"

definition at_loc :: "eptr list \<Rightarrow> (eptr \<Rightarrow> arc_entry) \<Rightarrow> arc_list \<Rightarrow> eptr set" where
  "at_loc t st l = {e \<in> set t. a_loc (st e) = l}"

definition arc_lists ::
  "(arc_list \<Rightarrow> eptr list) \<Rightarrow> (arc_list \<Rightarrow> u32) \<Rightarrow> eptr list \<Rightarrow> (eptr \<Rightarrow> arc_entry) \<Rightarrow> bool" where
  "arc_lists q n t st \<longleftrightarrow>
     (\<forall>l. distinct (q l) \<and> set (q l) = {e \<in> at_loc t st l. \<not> e_migrating (st e)} \<and> n l = of_nat (card (at_loc t st l))) \<and>
     (\<forall>e \<in> set t. arc_home (a_loc (st e)) = Some (fst e) \<and> (e_migrating (st e) \<longrightarrow> fst e = CacheRegion))"

lemma arc_listsD:
  assumes "arc_lists q n t st"
  shows "distinct (q l)" "set (q l) = {e \<in> at_loc t st l. \<not> e_migrating (st e)}" "n l = of_nat (card (at_loc t st l))"
    "e \<in> set t \<Longrightarrow> arc_home (a_loc (st e)) = Some (fst e)" "e \<in> set t \<Longrightarrow> e_migrating (st e) \<Longrightarrow> fst e = CacheRegion"
  using assms by (simp_all add: arc_lists_def)

lemma finite_at_loc [simp]: "finite (at_loc t st l)"
  by (simp add: at_loc_def)

lemma at_loc_remove: "distinct t \<Longrightarrow> at_loc (remove1 e t) (st(e := x)) l = at_loc t st l - {e}"
  by (auto simp: at_loc_def)

lemma at_loc_Cons: "e \<notin> set t \<Longrightarrow>
  at_loc (e # t) (st(e := x)) l = (if a_loc x = l then insert e (at_loc t st l) else at_loc t st l)"
  by (auto simp: at_loc_def)

lemma at_loc_notin: "e \<notin> set t \<Longrightarrow> e \<notin> at_loc t st l"
  by (simp add: at_loc_def)

lemma at_loc_in: "e \<in> at_loc t st l \<longleftrightarrow> e \<in> set t \<and> a_loc (st e) = l"
  by (simp add: at_loc_def)

lemma at_loc_cong: "set t' = set t \<Longrightarrow> at_loc t' st l = at_loc t st l"
  by (simp add: at_loc_def)

lemma arc_lists_set: "set t' = set t \<Longrightarrow> arc_lists q n t' st = arc_lists q n t st"
  by (simp add: arc_lists_def at_loc_def)

lemma of_nat_pred: "0 < k \<Longrightarrow> (of_nat (k - 1) :: u32) = of_nat k - 1"
  by (cases k) simp_all

lemma arc_lists_remove:
  assumes ok: "arc_lists q n t st" and e: "e \<in> set t" and d: "distinct t" and l: "a_loc (st e) = k"
  shows "arc_lists (\<lambda>l. remove1 e (q l)) (n(k := n k - 1)) (remove1 e t) (st(e := x))"
proof -
  note D = arc_listsD [OF ok]
  have "distinct (remove1 e (q l)) \<and>
      set (remove1 e (q l)) = {p \<in> at_loc (remove1 e t) (st(e := x)) l. \<not> e_migrating ((st(e := x)) p)} \<and>
      (n(k := n k - 1)) l = of_nat (card (at_loc (remove1 e t) (st(e := x)) l))" for l
  proof -
    have "0 < card (at_loc t st k)" using e l by (auto simp: card_gt_0_iff at_loc_def)
    then have "(of_nat (card (at_loc t st k - {e})) :: u32) = of_nat (card (at_loc t st k)) - 1"
      using e l of_nat_pred by (simp add: at_loc_in)
    moreover have "l \<noteq> k \<Longrightarrow> at_loc t st l - {e} = at_loc t st l" using l by (auto simp: at_loc_in)
    ultimately have "(n(k := n k - 1)) l = of_nat (card (at_loc t st l - {e}))" using D(3) by simp
    then show ?thesis unfolding at_loc_remove [OF d] using D(1,2) by auto
  qed
  moreover have "\<forall>p \<in> set (remove1 e t). arc_home (a_loc ((st(e := x)) p)) = Some (fst p) \<and>
      (e_migrating ((st(e := x)) p) \<longrightarrow> fst p = CacheRegion)"
    using D(4,5) d by simp
  ultimately show ?thesis unfolding arc_lists_def by blast
qed

lemma arc_lists_add:
  assumes ok: "arc_lists q n t st" and e: "e \<notin> set t" and l: "a_loc x = k" "arc_home k = Some (fst e)"
    and m: "\<not> e_migrating x"
  shows "arc_lists (q(k := q k @ [e])) (n(k := n k + 1)) (e # t) (st(e := x))"
proof -
  note D = arc_listsD [OF ok] and ne = at_loc_notin [OF e, of st]
  have other: "p \<noteq> e" if "p \<in> at_loc t st l" for p l using ne that by blast
  have "distinct ((q(k := q k @ [e])) l) \<and>
      set ((q(k := q k @ [e])) l) = {p \<in> at_loc (e # t) (st(e := x)) l. \<not> e_migrating ((st(e := x)) p)} \<and>
      (n(k := n k + 1)) l = of_nat (card (at_loc (e # t) (st(e := x)) l))" for l
    unfolding at_loc_Cons [OF e] using D(1-3) ne other l(1) m by auto
  moreover have "\<forall>p \<in> set (e # t). arc_home (a_loc ((st(e := x)) p)) = Some (fst p) \<and>
      (e_migrating ((st(e := x)) p) \<longrightarrow> fst p = CacheRegion)"
    using D(4,5) e l m by simp
  ultimately show ?thesis unfolding arc_lists_def by blast
qed

lemma arc_lists_admit:
  assumes ok: "arc_lists q n t st" and e: "e \<notin> set t" and l: "a_loc x = k" "arc_home k = Some (fst e)"
    and m: "e_migrating x" "fst e = CacheRegion"
  shows "arc_lists q (n(k := n k + 1)) (e # t) (st(e := x))"
proof -
  note D = arc_listsD [OF ok] and ne = at_loc_notin [OF e, of st]
  have other: "p \<noteq> e" if "p \<in> at_loc t st l" for p l using ne that by blast
  have "distinct (q l) \<and>
      set (q l) = {p \<in> at_loc (e # t) (st(e := x)) l. \<not> e_migrating ((st(e := x)) p)} \<and>
      (n(k := n k + 1)) l = of_nat (card (at_loc (e # t) (st(e := x)) l))" for l
    unfolding at_loc_Cons [OF e] using D(1-3) ne other l(1) m by auto
  moreover have "\<forall>p \<in> set (e # t). arc_home (a_loc ((st(e := x)) p)) = Some (fst p) \<and>
      (e_migrating ((st(e := x)) p) \<longrightarrow> fst p = CacheRegion)"
    using D(4,5) e l m by simp
  ultimately show ?thesis unfolding arc_lists_def by blast
qed

section \<open>The abstract lists\<close>

text \<open>For each location the blocks in its queue, the blocks at it that are migrating, and the target.\<close>

record arc_spec =
  aq :: "arc_list \<Rightarrow> oblock list"
  aw :: "arc_list \<Rightarrow> oblock set"
  ap :: nat

definition keyq :: "(eptr \<Rightarrow> arc_entry) \<Rightarrow> (arc_list \<Rightarrow> eptr list) \<Rightarrow> arc_list \<Rightarrow> oblock list" where
  "keyq st q l = map (key_of st) (q l)"

definition keyw :: "eptr list \<Rightarrow> (eptr \<Rightarrow> arc_entry) \<Rightarrow> arc_list \<Rightarrow> oblock set" where
  "keyw t st l = key_of st ` {e \<in> at_loc t st l. e_migrating (st e)}"

definition arc_abs :: "arc_policy \<Rightarrow> arc_spec" where
  "arc_abs s = \<lparr>aq = keyq (store s) (arc_q s), aw = keyw (ht s) (store s), ap = unat (arc_p s)\<rparr>"

definition spec_drop :: "oblock \<Rightarrow> arc_spec \<Rightarrow> arc_spec" where
  "spec_drop ob a = a\<lparr>aq := (\<lambda>l. remove1 ob (aq a l)), aw := (\<lambda>l. aw a l - {ob})\<rparr>"

definition spec_add :: "arc_list \<Rightarrow> oblock \<Rightarrow> arc_spec \<Rightarrow> arc_spec" where
  "spec_add l ob a = a\<lparr>aq := (aq a)(l := aq a l @ [ob])\<rparr>"

definition spec_admit :: "arc_list \<Rightarrow> oblock \<Rightarrow> arc_spec \<Rightarrow> arc_spec" where
  "spec_admit l ob a = a\<lparr>aw := (aw a)(l := insert ob (aw a l))\<rparr>"

definition spec_pop :: "arc_list \<Rightarrow> arc_spec \<Rightarrow> arc_spec" where
  "spec_pop l a = a\<lparr>aq := (aq a)(l := tl (aq a l))\<rparr>"

definition alen :: "arc_spec \<Rightarrow> arc_list \<Rightarrow> nat" where
  "alen a l = length (aq a l) + card (aw a l)"

lemma keyq_cong: "(\<And>e. e \<in> set (q l) \<Longrightarrow> e_oblock (st' e) = e_oblock (st e)) \<Longrightarrow> keyq st' q l = keyq st q l"
  by (simp add: keyq_def)

lemma arc_qs_sub: "arc_lists q n t st \<Longrightarrow> set (q l) \<subseteq> set t"
  by (auto simp: arc_listsD(2) at_loc_def)

lemma keyq_remove:
  assumes ok: "arc_lists q n t st" and e: "e \<in> set t" and k: "distinct (map (key_of st) t)" "e_oblock (st e) = ob"
  shows "keyq (st(e := x)) (\<lambda>l. remove1 e (q l)) = (\<lambda>l. remove1 ob (keyq st q l))"
proof
  fix l
  have "e \<notin> set (remove1 e (q l))" using arc_listsD(1) [OF ok] by simp
  then have "keyq (st(e := x)) (\<lambda>l. remove1 e (q l)) l = map (key_of st) (remove1 e (q l))"
    by (auto simp: keyq_def)
  also have "\<dots> = remove1 ob (map (key_of st) (q l))"
    using map_remove1_key [OF k(1) arc_qs_sub [OF ok] arc_listsD(1) [OF ok] e] k(2) by simp
  finally show "keyq (st(e := x)) (\<lambda>l. remove1 e (q l)) l = remove1 ob (keyq st q l)" by (simp add: keyq_def)
qed

lemma keyw_remove:
  assumes e: "e \<in> set t" and k: "distinct (map (key_of st) t)" "e_oblock (st e) = ob"
  shows "keyw (remove1 e t) (st(e := x)) = (\<lambda>l. keyw t st l - {ob})"
proof
  fix l
  have d: "distinct t" using k(1) by (simp add: distinct_map)
  let ?A = "{p \<in> at_loc t st l. e_migrating (st p)}"
  have "keyw (remove1 e t) (st(e := x)) l = key_of st ` (?A - {e})"
    unfolding keyw_def at_loc_remove [OF d] by (auto intro!: image_cong)
  then show "keyw (remove1 e t) (st(e := x)) l = keyw t st l - {ob}"
    using key_image_minus [OF k(1) _ e, of ?A] k(2) by (auto simp: keyw_def at_loc_def)
qed

lemma keyq_add:
  assumes ok: "arc_lists q n t st" and e: "e \<notin> set t" "e_oblock x = ob"
  shows "keyq (st(e := x)) (q(k := q k @ [e])) = (keyq st q)(k := keyq st q k @ [ob])"
    "keyq (st(e := x)) q = keyq st q"
  using arc_qs_sub [OF ok] e by (fastforce simp: keyq_def)+

lemma keyw_others:
  assumes "e \<notin> set t"
  shows "key_of (st(e := x)) ` {p \<in> at_loc t st l. e_migrating (st p)} = keyw t st l"
  using at_loc_notin [OF assms, of st l] unfolding keyw_def by (intro image_cong) auto

lemma keyw_add:
  assumes e: "e \<notin> set t" and m: "\<not> e_migrating x"
  shows "keyw (e # t) (st(e := x)) = keyw t st"
proof
  fix l
  have a: "{p \<in> at_loc (e # t) (st(e := x)) l. e_migrating ((st(e := x)) p)} = {p \<in> at_loc t st l. e_migrating (st p)}"
    using at_loc_notin [OF e, of st l] m by (auto simp: at_loc_Cons [OF e])
  show "keyw (e # t) (st(e := x)) l = keyw t st l"
    unfolding keyw_def [of "e # t"] a by (rule keyw_others [OF e])
qed

lemma keyw_admit:
  assumes e: "e \<notin> set t" and x: "e_migrating x" "a_loc x = k" "e_oblock x = ob"
  shows "keyw (e # t) (st(e := x)) = (keyw t st)(k := insert ob (keyw t st k))"
proof
  fix l
  let ?A = "{p \<in> at_loc t st l. e_migrating (st p)}"
  have a: "{p \<in> at_loc (e # t) (st(e := x)) l. e_migrating ((st(e := x)) p)} = (if l = k then insert e ?A else ?A)"
    using at_loc_notin [OF e, of st l] x by (auto simp: at_loc_Cons [OF e])
  show "keyw (e # t) (st(e := x)) l = ((keyw t st)(k := insert ob (keyw t st k))) l"
    unfolding keyw_def [of "e # t"] a using x(3) keyw_others [OF e, of st x l] by (cases "l = k") simp_all
qed

section \<open>The invariant\<close>

text \<open>\<open>c\<close> and \<open>m\<close> are the sizes of the cache and of the metadata; three times the cache size must fit 32 bits.\<close>

definition arc_base :: "u32 \<Rightarrow> u32 \<Rightarrow> arc_policy \<Rightarrow> bool" where
  "arc_base c m s \<longleftrightarrow> cn_ok s \<and> ep_nr_entries (cache_pool s) = c \<and> 2 \<le> c \<and> 3 * unat c < 2 ^ 32 \<and>
     cache_size s = c \<and> ep_nr_entries (meta_pool s) = m \<and> unat (arc_p s) \<le> unat c \<and>
     arc_lists (arc_q s) (arc_length s) (ht s) (store s)"

lemma arc_baseD:
  assumes "arc_base c m s"
  shows "cn_ok s" "ep_nr_entries (cache_pool s) = c" "2 \<le> c" "3 * unat c < 2 ^ 32" "cache_size s = c"
    "ep_nr_entries (meta_pool s) = m" "unat (arc_p s) \<le> unat c"
    "arc_lists (arc_q s) (arc_length s) (ht s) (store s)"
  using assms by (simp_all add: arc_base_def)

lemma arc_base_cong:
  assumes "arc_base c m s" "cn_ok s'" "pool_geo (cache_pool s') = pool_geo (cache_pool s)"
    "pool_geo (meta_pool s') = pool_geo (meta_pool s)" "cache_size s' = cache_size s" "unat (arc_p s') \<le> unat c"
    "arc_lists (arc_q s') (arc_length s') (ht s') (store s')"
  shows "arc_base c m s'"
  using arc_baseD [OF assms(1)] assms(2-) by (simp add: arc_base_def pool_geo_eq)

lemma arc_keys: "arc_base c m s \<Longrightarrow> distinct (map (key_of (store s)) (ht s))"
  by (rule cn_facts(2)) (rule arc_baseD)

lemma arc_region:
  assumes "arc_base c m s" "e \<in> set (ht s)"
  shows "fst e = CacheRegion \<longleftrightarrow> a_loc (store s e) \<in> {ARC_T1, ARC_T2}"
    "fst e = MetaRegion \<longleftrightarrow> a_loc (store s e) \<in> {ARC_B1, ARC_B2}" "a_loc (store s e) \<noteq> ARC_NULL"
  using arc_listsD(4) [OF arc_baseD(8) [OF assms(1)] assms(2)] by (cases "a_loc (store s e)"; simp)+

lemma arc_p_upd:
  assumes "arc_base c m s" "unat p \<le> unat c"
  shows "arc_base c m (s\<lparr>arc_p := p\<rparr>)" "arc_abs (s\<lparr>arc_p := p\<rparr>) = (arc_abs s)\<lparr>ap := unat p\<rparr>"
  using assms by (simp_all add: arc_base_def cn_ok_def arc_abs_def)

section \<open>The steps of an access\<close>

text \<open>
  An entry leaves. The queues may already be without the entry: \<open>arc_evict\<close> has popped it. \<open>s0\<close> is the state
  with it.
\<close>

lemma arc_remove_entry_ok:
  assumes ok: "arc_base c m s0" and e: "e \<in> set (ht s0)" and ob: "e_oblock (store s0 e) = ob"
    and s: "s = s0\<lparr>arc_q := q\<rparr>" "\<And>l. remove1 e (q l) = remove1 e (arc_q s0 l)"
    "e_migrating (store s0 e) \<Longrightarrow> q = arc_q s0"
  shows "\<exists>s'. arc_remove_entry e s = Inr s' \<and> arc_base c m s' \<and> arc_abs s' = spec_drop ob (arc_abs s0) \<and>
    cview (ht s') (store s') = (cview (ht s0) (store s0))(ob := None) \<and> ht s' = remove1 e (ht s0) \<and>
    (\<forall>ob'. ht_lookup ob' s' = (if ob' = ob then None else ht_lookup ob' s0)) \<and>
    pool_geo (cache_pool s') = pool_geo (cache_pool s0) \<and>
    next_free s' = (if fst e = CacheRegion then Some e else next_free s0)"
proof -
  note D = arc_baseD [OF ok]
  define k where "k = a_loc (store s0 e)"
  have kn: "k \<noteq> ARC_NULL" using arc_region(3) [OF ok e] by (simp add: k_def)
  define s1 where "s1 = s\<lparr>arc_length := (arc_length s)(k := arc_length s k - 1)\<rparr>"
  define s2 where "s2 = upd_entry e (\<lambda>x. x\<lparr>a_loc := ARC_NULL\<rparr>) (if \<not> e_migrating (store s1 e)
    then let s = arc_unlink e s1 in if in_cache s (Some e) then upd_stats inc_demotions s else s else s1)"
  have same: "store s2 = (store s0)(e := (store s0 e)\<lparr>a_loc := ARC_NULL\<rparr>)" "ht s2 = ht s0" "wb s2 = wb s0"
    "cache_pool s2 = cache_pool s0" "meta_pool s2 = meta_pool s0" "cache_size s2 = cache_size s0"
    "arc_length s2 = (arc_length s0)(k := arc_length s0 k - 1)" "arc_p s2 = arc_p s0"
    by (simp_all add: s2_def s1_def arc_unlink_def Let_def s(1))
  have "e \<notin> set (arc_q s0 l)" if "e_migrating (store s0 e)" for l
    using arc_listsD(2) [OF D(8), of l] that by auto
  then have q2: "arc_q s2 = (\<lambda>l. remove1 e (arc_q s0 l))"
    using s by (auto simp: s2_def s1_def arc_unlink_def Let_def q_remove_def remove1_idem fun_eq_iff)
  have cn2: "cn_ok s2"
  proof -
    have "cn_ok (s0\<lparr>store := (store s0)(e := (store s0 e)\<lparr>a_loc := ARC_NULL\<rparr>)\<rparr>)" by (rule cn_ok_upd [OF D(1)]) simp_all
    then show ?thesis by (simp add: cn_ok_def same)
  qed
  have e2: "e \<in> set (ht s2)" using e same by simp
  from cache_nucleus_remove_ok [OF cn2 e2] obtain cp mp s' where
    s': "s' = s2\<lparr>store := (store s2)(e := freed_entry (store s2 e)),
        wb := (\<lambda>q. q_remove e (wb s2 q)), cache_pool := cp, meta_pool := mp, ht := remove1 e (ht s2)\<rparr>"
    and run: "cache_nucleus_remove e s2 = Inr s'" and cn: "cn_ok s'"
    and geo: "pool_geo cp = pool_geo (cache_pool s2)" "pool_geo mp = pool_geo (meta_pool s2)"
    by blast
  define x where "x = freed_entry (store s2 e)"
  have f: "store s' = (store s0)(e := x)" "ht s' = remove1 e (ht s0)" "arc_q s' = (\<lambda>l. remove1 e (arc_q s0 l))"
    "arc_length s' = (arc_length s0)(k := arc_length s0 k - 1)" "cache_pool s' = cp" "meta_pool s' = mp"
    "cache_size s' = cache_size s0" "arc_p s' = arc_p s0"
    by (simp_all add: s' same q2 x_def)
  have run': "arc_remove_entry e s = Inr s'"
  proof -
    have "arc_shorten (a_loc (store s e)) s = Inr s1" using kn by (simp add: arc_shorten_def s1_def k_def s(1))
    then have "arc_remove_entry e s = cache_nucleus_remove e s2"
      by (simp only: arc_remove_entry_def rbind.simps s2_def Let_def)
    then show ?thesis using run by simp
  qed
  have dh: "distinct (ht s0)" by (rule cn_facts(1) [OF D(1)])
  note dk = arc_keys [OF ok]
  have base: "arc_base c m s'"
    by (rule arc_base_cong [OF ok cn])
      (simp_all add: f geo same(4,5) D(7) arc_lists_remove [OF D(8) e dh k_def [symmetric]])
  have "keyq (store s') (arc_q s') = (\<lambda>l. remove1 ob (keyq (store s0) (arc_q s0) l))"
    unfolding f by (rule keyq_remove [OF D(8) e dk ob])
  moreover have "keyw (ht s') (store s') = (\<lambda>l. keyw (ht s0) (store s0) l - {ob})"
    unfolding f by (rule keyw_remove [OF e dk ob])
  ultimately have "arc_abs s' = spec_drop ob (arc_abs s0)" by (simp add: arc_abs_def spec_drop_def f(8))
  moreover have "cview (ht s') (store s') = (cview (ht s0) (store s0))(ob := None)"
    unfolding f(1,2) using cview_freed [OF dk e] ob by simp
  moreover have "next_free s' = (if fst e = CacheRegion then Some e else next_free s0)"
  proof (cases "fst e")
    case CacheRegion
    then show ?thesis using remove_next_free [OF cn2 _ run] e2 by (simp add: cached_def)
  next
    case MetaRegion
    then show ?thesis using remove_next_free_meta [OF cn2 _ run] e2 by (simp add: metas_def next_free_def same(4))
  qed
  moreover have "\<forall>ob'. ht_lookup ob' s' = (if ob' = ob then None else ht_lookup ob' s0)"
    unfolding ht_lookup_def f(1,2) using lookup_removed [OF dk e ob] by blast
  ultimately show ?thesis using base run' f(2) geo same(4) by (intro exI [of _ s']) (simp add: f(5))
qed

lemma arc_set_new_eq:
  "l \<noteq> ARC_NULL \<Longrightarrow> arc_set_new e l s =
     Inr (s\<lparr>store := (store s)(e := (store s e)\<lparr>a_loc := l\<rparr>), arc_length := (arc_length s)(l := arc_length s l + 1)\<rparr>)"
  by (simp add: arc_set_new_def arc_set_for_list_def)

lemma arc_enqueue_eq:
  assumes "l \<noteq> ARC_NULL" "\<And>k. e \<notin> set (arc_q s k)"
  shows "arc_enqueue l e s = Inr (s\<lparr>arc_q := (arc_q s)(l := arc_q s l @ [e])\<rparr>)"
  using assms by (simp add: arc_enqueue_def q_push_def)

lemma arc_lookup:
  assumes ok: "arc_base c m s"
  shows "ob \<in> set (aq (arc_abs s) l) \<longleftrightarrow>
      (\<exists>e. ht_lookup ob s = Some e \<and> a_loc (store s e) = l \<and> \<not> e_migrating (store s e))"
    "ob \<in> aw (arc_abs s) l \<longleftrightarrow>
      (\<exists>e. ht_lookup ob s = Some e \<and> a_loc (store s e) = l \<and> e_migrating (store s e))"
  using arc_listsD(2) [OF arc_baseD(8) [OF ok], of l] lookup_Some [OF arc_baseD(1) [OF ok]]
  by (auto simp: arc_abs_def keyq_def keyw_def at_loc_def)

lemma arc_alen:
  assumes ok: "arc_base c m s"
  shows "alen (arc_abs s) l = card (at_loc (ht s) (store s) l)" "arc_length s l = of_nat (alen (arc_abs s) l)"
proof -
  note L = arc_listsD [OF arc_baseD(8) [OF ok]]
  let ?M = "{e \<in> at_loc (ht s) (store s) l. e_migrating (store s e)}"
  have inj: "inj_on (key_of (store s)) (set (ht s))" using arc_keys [OF ok] by (simp add: distinct_map)
  have "card (aw (arc_abs s) l) = card ?M"
    using card_image [OF inj_on_subset [OF inj, of ?M]] by (auto simp: arc_abs_def keyw_def at_loc_def)
  moreover have "length (aq (arc_abs s) l) = card (set (arc_q s l))"
    using distinct_card [OF L(1)] by (simp add: arc_abs_def keyq_def)
  moreover have "at_loc (ht s) (store s) l = set (arc_q s l) \<union> ?M" "set (arc_q s l) \<inter> ?M = {}" using L(2) by auto
  ultimately show "alen (arc_abs s) l = card (at_loc (ht s) (store s) l)"
    using card_Un_disjoint [of "set (arc_q s l)" ?M] by (simp add: alen_def)
  then show "arc_length s l = of_nat (alen (arc_abs s) l)" using L(3) by simp
qed

lemma arc_counts:
  assumes ok: "arc_base c m s"
  shows "alen (arc_abs s) ARC_T1 + alen (arc_abs s) ARC_T2 = card (cached (ht s))"
    "alen (arc_abs s) ARC_B1 + alen (arc_abs s) ARC_B2 = card (metas (ht s))"
proof -
  have c: "cached (ht s) = at_loc (ht s) (store s) ARC_T1 \<union> at_loc (ht s) (store s) ARC_T2"
    using arc_region(1) [OF ok] by (auto simp: cached_def at_loc_def)
  have b: "metas (ht s) = at_loc (ht s) (store s) ARC_B1 \<union> at_loc (ht s) (store s) ARC_B2"
    using arc_region(2) [OF ok] by (auto simp: metas_def at_loc_def)
  have d: "at_loc (ht s) (store s) ARC_T1 \<inter> at_loc (ht s) (store s) ARC_T2 = {}"
    "at_loc (ht s) (store s) ARC_B1 \<inter> at_loc (ht s) (store s) ARC_B2 = {}" by (auto simp: at_loc_def)
  show "alen (arc_abs s) ARC_T1 + alen (arc_abs s) ARC_T2 = card (cached (ht s))"
    "alen (arc_abs s) ARC_B1 + alen (arc_abs s) ARC_B2 = card (metas (ht s))"
    unfolding b c using card_Un_disjoint [OF _ _ d(1)] card_Un_disjoint [OF _ _ d(2)]
    by (simp_all add: arc_alen(1) [OF ok])
qed

lemma arc_full:
  assumes ok: "arc_base c m s"
  shows "cache_is_full s \<longleftrightarrow> alen (arc_abs s) ARC_T1 + alen (arc_abs s) ARC_T2 = unat c"
    "alen (arc_abs s) ARC_T1 + alen (arc_abs s) ARC_T2 \<le> unat c"
    "meta_is_full s \<longleftrightarrow> alen (arc_abs s) ARC_B1 + alen (arc_abs s) ARC_B2 = unat m"
  unfolding arc_counts [OF ok] using arc_baseD(1,2,6) [OF ok] cache_is_full_iff meta_is_full_iff card_cached_le
  by metis+

lemma arc_disjoint:
  assumes ok: "arc_base c m s"
  shows "distinct (aq (arc_abs s) l)" "ob \<in> set (aq (arc_abs s) l) \<Longrightarrow> ob \<notin> aw (arc_abs s) k"
    "ob \<in> set (aq (arc_abs s) l) \<Longrightarrow> ob \<in> set (aq (arc_abs s) k) \<Longrightarrow> l = k"
    "finite (aw (arc_abs s) l)"
proof -
  have "inj_on (key_of (store s)) (set (ht s))" using arc_keys [OF ok] by (simp add: distinct_map)
  then show "distinct (aq (arc_abs s) l)"
    using arc_qs_sub [OF arc_baseD(8) [OF ok], of l] arc_listsD(1) [OF arc_baseD(8) [OF ok], of l] inj_on_subset
    by (fastforce simp: arc_abs_def keyq_def distinct_map)
  show "ob \<in> set (aq (arc_abs s) l) \<Longrightarrow> ob \<notin> aw (arc_abs s) k"
    "ob \<in> set (aq (arc_abs s) l) \<Longrightarrow> ob \<in> set (aq (arc_abs s) k) \<Longrightarrow> l = k"
    unfolding arc_lookup [OF ok] by auto
  show "finite (aw (arc_abs s) l)" by (simp add: arc_abs_def keyw_def)
qed

lemma arc_no_ghost_way:
  assumes ok: "arc_base c m s" and l: "l = ARC_B1 \<or> l = ARC_B2"
  shows "aw (arc_abs s) l = {}"
proof -
  have "\<not> e_migrating (store s e)" if "e \<in> at_loc (ht s) (store s) l" for e
  proof
    have e: "e \<in> set (ht s)" "a_loc (store s e) = l" using that by (simp_all add: at_loc_def)
    assume "e_migrating (store s e)"
    then have "fst e = CacheRegion" using arc_listsD(5) [OF arc_baseD(8) [OF ok] e(1)] by blast
    then show False using arc_region(1) [OF ok e(1)] e(2) l by auto
  qed
  then show ?thesis by (simp add: arc_abs_def keyw_def)
qed

text \<open>The block at the head of a queue leaves.\<close>

lemma spec_drop_pop:
  assumes ok: "arc_base c m s" and q: "aq (arc_abs s) l = ob # obs"
  shows "spec_drop ob (arc_abs s) = spec_pop l (arc_abs s)"
proof -
  have m: "ob \<in> set (aq (arc_abs s) l)" using q by simp
  have "(\<lambda>k. remove1 ob (aq (arc_abs s) k)) = (aq (arc_abs s))(l := tl (aq (arc_abs s) l))"
  proof
    fix k
    show "remove1 ob (aq (arc_abs s) k) = ((aq (arc_abs s))(l := tl (aq (arc_abs s) l))) k"
    proof (cases "k = l")
      case True
      then show ?thesis by (simp add: q)
    next
      case False
      then have "ob \<notin> set (aq (arc_abs s) k)" using arc_disjoint(3) [OF ok m, of k] by blast
      then show ?thesis using False by (simp add: remove1_idem)
    qed
  qed
  moreover have "(\<lambda>k. aw (arc_abs s) k - {ob}) = aw (arc_abs s)"
    by (rule ext) (use arc_disjoint(2) [OF ok m] in simp)
  ultimately show ?thesis by (simp only: spec_drop_def spec_pop_def) simp
qed

lemma arc_evict_ok:
  assumes ok: "arc_base c m s" and q: "arc_q s l = e # es"
  shows "\<exists>s'. arc_evict l r s = Inr (map_option (\<lambda>r. r\<lparr>r_old_oblock := hd (aq (arc_abs s) l),
        r_dirty_eviction := e_dirty (store s e)\<rparr>) r, s') \<and>
    arc_base c m s' \<and> arc_abs s' = spec_pop l (arc_abs s) \<and>
    cview (ht s') (store s') = (cview (ht s) (store s))(hd (aq (arc_abs s) l) := None) \<and>
    e \<in> set (ht s) \<and> ht s' = remove1 e (ht s) \<and> e_oblock (store s e) = hd (aq (arc_abs s) l) \<and>
    \<not> e_migrating (store s e) \<and> a_loc (store s e) = l \<and>
    (\<forall>ob'. ht_lookup ob' s' = (if ob' = hd (aq (arc_abs s) l) then None else ht_lookup ob' s)) \<and>
    pool_geo (cache_pool s') = pool_geo (cache_pool s) \<and>
    next_free s' = (if fst e = CacheRegion then Some e else next_free s)"
proof -
  note L = arc_listsD [OF arc_baseD(8) [OF ok]]
  have e: "e \<in> set (ht s)" "\<not> e_migrating (store s e)" "a_loc (store s e) = l"
    using L(2) [of l] q by (auto simp: at_loc_def)
  have ln: "l \<noteq> ARC_NULL" using arc_region(3) [OF ok e(1)] e(3) by simp
  have h: "aq (arc_abs s) l = e_oblock (store s e) # map (key_of (store s)) es" by (simp add: arc_abs_def keyq_def q)
  let ?s = "s\<lparr>arc_q := (arc_q s)(l := tl (arc_q s l))\<rparr>"
  have "e \<notin> set (arc_q s k)" if "k \<noteq> l" for k using that L(2) [of k] e(3) by (auto simp: at_loc_def)
  then have same: "remove1 e (((arc_q s)(l := tl (arc_q s l))) k) = remove1 e (arc_q s k)" for k
    using L(1) [of l] q by (auto simp: remove1_idem)
  from arc_remove_entry_ok [OF ok e(1) refl, of ?s "(arc_q s)(l := tl (arc_q s l))"] same e(2) obtain s' where
    s': "arc_remove_entry e ?s = Inr s'" "arc_base c m s'" "arc_abs s' = spec_drop (e_oblock (store s e)) (arc_abs s)"
    "cview (ht s') (store s') = (cview (ht s) (store s))(e_oblock (store s e) := None)" "ht s' = remove1 e (ht s)"
    "\<forall>ob'. ht_lookup ob' s' = (if ob' = e_oblock (store s e) then None else ht_lookup ob' s)"
    "pool_geo (cache_pool s') = pool_geo (cache_pool s)"
    "next_free s' = (if fst e = CacheRegion then Some e else next_free s)" by auto
  have "arc_abs s' = spec_pop l (arc_abs s)" using s'(3) spec_drop_pop [OF ok h] by simp
  moreover have "arc_evict l r s = Inr (map_option (\<lambda>r. r\<lparr>r_old_oblock := e_oblock (store s e),
        r_dirty_eviction := e_dirty (store s e)\<rparr>) r, s')"
    using ln s'(1) q by (simp add: arc_evict_def deref_def)
  ultimately show ?thesis using s' e h by - (rule exI [of _ s'], simp)
qed

text \<open>An evicted block is remembered.\<close>

lemma arc_to_ghost_ok:
  assumes ok: "arc_base c m s" and nf: "\<not> meta_is_full s" and new: "ht_lookup ob s = None"
    and l: "l = ARC_B1 \<or> l = ARC_B2"
  shows "\<exists>e s'. arc_to_ghost ob l s = Inr s' \<and> arc_base c m s' \<and> arc_abs s' = spec_add l ob (arc_abs s) \<and>
    cview (ht s') (store s') = (cview (ht s) (store s))(ob := None) \<and> ht s' = e # ht s \<and> fst e = MetaRegion \<and>
    (\<forall>ob'. ht_lookup ob' s' = (if ob' = ob then Some e else ht_lookup ob' s)) \<and>
    pool_geo (cache_pool s') = pool_geo (cache_pool s) \<and> next_free s' = next_free s"
proof -
  note D = arc_baseD [OF ok]
  from insert_in_meta_ok [OF D(1) nf new] obtain e mp s1 where
    s1: "s1 = s\<lparr>store := (store s)(e := fresh_entry ob (store s e)), meta_pool := mp, ht := e # ht s\<rparr>"
    and run: "insert_in_meta ob s = Inr (e, s1)" and cn: "cn_ok s1"
    and geo: "pool_geo mp = pool_geo (meta_pool s)" "fst e = MetaRegion" "e \<notin> set (ht s)"
      "\<not> e_migrating (store s e)" by blast
  have ln: "l \<noteq> ARC_NULL" using l by auto
  define x where "x = (fresh_entry ob (store s e))\<lparr>a_loc := l\<rparr>"
  have x: "a_loc x = l" "\<not> e_migrating x" "e_oblock x = ob" using geo(4) by (simp_all add: x_def)
  have ne: "e \<notin> set (arc_q s k)" for k using arc_qs_sub [OF D(8), of k] geo(3) by auto
  have ne1: "e \<notin> set (arc_q s1 k)" for k using ne by (simp add: s1)
  obtain s' where s': "s' = s1\<lparr>store := (store s1)(e := (store s1 e)\<lparr>a_loc := l\<rparr>),
      arc_length := (arc_length s)(l := arc_length s l + 1), arc_q := (arc_q s)(l := arc_q s l @ [e])\<rparr>" by blast
  have f: "store s' = (store s)(e := x)" "ht s' = e # ht s" "arc_q s' = (arc_q s)(l := arc_q s l @ [e])"
    "arc_length s' = (arc_length s)(l := arc_length s l + 1)" "cache_pool s' = cache_pool s" "meta_pool s' = mp"
    "cache_size s' = cache_size s" "arc_p s' = arc_p s" by (simp_all add: s' s1 x_def)
  have run': "arc_to_ghost ob l s = Inr s'"
    using run ne1 by (simp add: arc_to_ghost_def arc_set_new_eq [OF ln] arc_enqueue_eq [OF ln] s') (simp add: s1)
  have cn': "cn_ok s'"
  proof -
    have "cn_ok (s1\<lparr>store := (store s1)(e := (store s1 e)\<lparr>a_loc := l\<rparr>)\<rparr>)" by (rule cn_ok_upd [OF cn]) simp_all
    then show ?thesis by (simp add: cn_ok_def s')
  qed
  have home: "arc_home l = Some (fst e)" using l geo(2) by auto
  have base: "arc_base c m s'"
    by (rule arc_base_cong [OF ok cn'])
      (simp_all add: f geo D(7) arc_lists_add [OF D(8) geo(3) x(1) home x(2)] del: fun_upd_apply)
  have "arc_abs s' = spec_add l ob (arc_abs s)"
    using keyq_add(1) [OF D(8) geo(3) x(3), of l] keyw_add [OF geo(3) x(2)]
    by (simp add: arc_abs_def spec_add_def f(1-3,8))
  moreover have "cview (ht s') (store s') = (cview (ht s) (store s))(ob := None)"
    unfolding f(1,2) cview_fresh [OF geo(3)] using geo(2) x(3) by simp
  moreover have "\<forall>ob'. ht_lookup ob' s' = (if ob' = ob then Some e else ht_lookup ob' s)"
    unfolding ht_lookup_def f(1,2) using lookup_added [OF geo(3) x(3)] by blast
  ultimately show ?thesis using base run' f(2,5) geo(2)
    by - (rule exI [of _ e], rule exI [of _ s'], simp add: next_free_def)
qed

text \<open>A new block enters the cache.\<close>

lemma arc_admit_ok:
  assumes ok: "arc_base c m s" and nf: "\<not> cache_is_full s" and new: "ht_lookup ob s = None"
    and l: "l = ARC_T1 \<or> l = ARC_T2"
  shows "\<exists>e cb s'. arc_admit l ob r s = Inr (r\<lparr>r_cblock := cb\<rparr>, s') \<and> arc_base c m s' \<and>
    arc_abs s' = spec_admit l ob (arc_abs s) \<and>
    cview (ht s') (store s') = (cview (ht s) (store s))(ob \<mapsto> (e, True, False)) \<and>
    e \<notin> set (ht s) \<and> next_free s = Some e \<and>
    pool_geo (cache_pool s') = pool_geo (cache_pool s) \<and> epool_at (cache_pool s) cb = Some e"
proof -
  note D = arc_baseD [OF ok]
  have "2 \<le> ep_nr_entries (cache_pool s)" using D by simp
  from insert_in_cache_ok [OF D(1) nf new this, of r] obtain e cb cp1 s1 where
    s1: "s1 = s\<lparr>store := (store s)(e := fresh_entry ob (store s e)), cache_pool := cp1, ht := e # ht s\<rparr>"
    and run1: "insert_in_cache ob (Some r) s = Inr (e, Some (r\<lparr>r_cblock := cb\<rparr>), s1)" and cn1: "cn_ok s1"
    and geo1: "pool_geo cp1 = pool_geo (cache_pool s)" "epool_at (cache_pool s) cb = Some e"
      "fst e = CacheRegion" "e \<notin> set (ht s)" "\<not> e_migrating (store s e)" by blast
  have ln: "l \<noteq> ARC_NULL" using l by auto
  obtain s2 where s2: "s2 = s1\<lparr>store := (store s1)(e := (store s1 e)\<lparr>a_loc := l\<rparr>),
      arc_length := (arc_length s1)(l := arc_length s1 l + 1)\<rparr>" by blast
  have run2: "arc_set_new e l s1 = Inr s2" by (simp add: arc_set_new_eq [OF ln] s2)
  have cn2: "cn_ok s2"
  proof -
    have "cn_ok (s1\<lparr>store := (store s1)(e := (store s1 e)\<lparr>a_loc := l\<rparr>)\<rparr>)" by (rule cn_ok_upd [OF cn1]) simp_all
    then show ?thesis by (simp add: cn_ok_def s2)
  qed
  have "e \<in> cached (ht s2)" "\<not> e_migrating (store s2 e)" using geo1 by (simp_all add: s2 s1 cached_def)
  from cn_migrating_entry_ok [OF cn2 this] obtain cp s' where
    s': "s' = s2\<lparr>store := (store s2)(e := (store s2 e)\<lparr>e_migrating := True\<rparr>), cache_pool := cp\<rparr>"
    and run3: "cn_migrating_entry e s2 = Inr s'" and cn': "cn_ok s'" and geo: "pool_geo cp = pool_geo (cache_pool s2)"
    by blast
  define x where "x = (fresh_entry ob (store s e))\<lparr>a_loc := l, e_migrating := True\<rparr>"
  have x: "a_loc x = l" "e_migrating x" "e_oblock x = ob" "\<not> e_dirty x" by (simp_all add: x_def)
  have f: "store s' = (store s)(e := x)" "ht s' = e # ht s" "arc_q s' = arc_q s"
    "arc_length s' = (arc_length s)(l := arc_length s l + 1)" "cache_pool s' = cp" "meta_pool s' = meta_pool s"
    "cache_size s' = cache_size s" "arc_p s' = arc_p s" by (simp_all add: s' s2 s1 x_def)
  have geo': "pool_geo cp = pool_geo (cache_pool s)" using geo geo1(1) by (simp add: s2 s1)
  have run: "arc_admit l ob r s = Inr (r\<lparr>r_cblock := cb\<rparr>, s')"
    using run1 run2 run3 by (simp add: arc_admit_def deref_def)
  have home: "arc_home l = Some (fst e)" using l geo1(3) by auto
  have base: "arc_base c m s'"
    by (rule arc_base_cong [OF ok cn'])
      (simp_all add: f geo' D(7) arc_lists_admit [OF D(8) geo1(4) x(1) home x(2) geo1(3)] del: fun_upd_apply)
  have "arc_abs s' = spec_admit l ob (arc_abs s)"
    using keyq_add(2) [OF D(8) geo1(4) x(3)] keyw_admit [OF geo1(4) x(2,1,3)]
    by (simp add: arc_abs_def spec_admit_def f(1-3,8))
  moreover have "cview (ht s') (store s') = (cview (ht s) (store s))(ob \<mapsto> (e, True, False))"
    unfolding f(1,2) cview_fresh [OF geo1(4)] using geo1(3) x by simp
  moreover have "next_free s = Some e" by (rule insert_next_free [OF run1])
  ultimately show ?thesis using base run geo1(2,4) geo' f(5)
    by - (rule exI [of _ e], rule exI [of _ cb], rule exI [of _ s'], simp)
qed

text \<open>A hit moves the block to the end of T2, or gives it T2 as its place to go to.\<close>

lemma arc_touch_ok:
  assumes ok: "arc_base c m s" and e: "ht_lookup ob s = Some e" "fst e = CacheRegion" and mig: "mig = e_migrating (store s e)"
  shows "\<exists>cb s'. arc_touch ARC_T2 e mig r s = Inr (r\<lparr>r_cblock := cb\<rparr>, s') \<and> arc_base c m s' \<and>
    arc_abs s' = (if mig then spec_admit ARC_T2 ob (spec_drop ob (arc_abs s)) else spec_add ARC_T2 ob (spec_drop ob (arc_abs s))) \<and>
    cview (ht s') (store s') = cview (ht s) (store s) \<and>
    cache_pool s' = cache_pool s \<and> epool_at (cache_pool s) cb = Some e"
proof -
  note D = arc_baseD [OF ok] and dk = arc_keys [OF ok]
  have mem: "e \<in> set (ht s)" "e_oblock (store s e) = ob" using lookup_Some [OF D(1)] e by auto
  define k where "k = a_loc (store s e)"
  have kn: "k \<noteq> ARC_NULL" using arc_region(3) [OF ok mem(1)] by (simp add: k_def)
  have ip: "in_pool (cache_pool s) (Some e)" using cn_in_cache [OF D(1) mem(1)] e(2) by (simp add: in_cache_def)
  have nr: "2 \<le> ep_nr_entries (cache_pool s)" using D by simp
  define cb where "cb = of_nat (snd e) + ep_starting_index (cache_pool s)"
  define n where "n = ((arc_length s)(k := arc_length s k - 1))"
  define q where "q = (\<lambda>l. remove1 e (arc_q s l))"
  define x where "x = (store s e)\<lparr>a_loc := ARC_T2\<rparr>"
  have x: "a_loc x = ARC_T2" "e_oblock x = ob" "e_migrating x = mig" "e_dirty x = e_dirty (store s e)"
    using mem(2) by (simp_all add: x_def mig)
  let ?t = "remove1 e (ht s)"
  have dh: "distinct (ht s)" by (rule cn_facts(1) [OF D(1)])
  have nt: "e \<notin> set ?t" and st: "set (e # ?t) = set (ht s)" using mem(1) dh by auto
  have home: "arc_home ARC_T2 = Some (fst e)" using e(2) by simp
  have qm: "q = arc_q s" if mig using arc_listsD(2) [OF D(8)] that mig by (auto simp: q_def remove1_idem fun_eq_iff)
  have nq: "e \<notin> set (q l)" for l using arc_listsD(1) [OF D(8)] by (simp add: q_def)
  have removed: "arc_lists q n ?t ((store s)(e := x))"
    unfolding q_def n_def by (rule arc_lists_remove [OF D(8) mem(1) dh k_def [symmetric]])
  have upd: "((store s)(e := x))(e := x) = (store s)(e := x)" by simp
  define q' where "q' = (if mig then arc_q s else q(ARC_T2 := q ARC_T2 @ [e]))"
  define n' where "n' = n(ARC_T2 := n ARC_T2 + 1)"
  have "arc_lists q' n' (e # ?t) ((store s)(e := x))"
    using arc_lists_add [OF removed nt x(1) home] arc_lists_admit [OF removed nt x(1) home _ e(2)] x(3)
    unfolding q'_def n'_def upd by (cases mig) (simp_all add: qm)
  then have lists: "arc_lists q' n' (ht s) ((store s)(e := x))" using arc_lists_set [OF st] by blast
  obtain s' where s': "s' = s\<lparr>store := (store s)(e := x), arc_length := n', arc_q := q'\<rparr>" by blast
  have f: "store s' = (store s)(e := x)" "ht s' = ht s" "arc_q s' = q'" "arc_length s' = n'"
    "cache_pool s' = cache_pool s" "meta_pool s' = meta_pool s" "cache_size s' = cache_size s" "arc_p s' = arc_p s"
    by (simp_all add: s')
  have run: "arc_touch ARC_T2 e mig r s = Inr (r\<lparr>r_cblock := cb\<rparr>, s')"
  proof -
    let ?s2 = "s\<lparr>store := (store s)(e := x), arc_length := n'\<rparr>"
    have 1: "arc_set_for_list e ARC_T2 s = Inr ?s2"
      using kn by (simp add: arc_set_for_list_def arc_shorten_def k_def n_def n'_def x_def)
    have 2: "infer_cblock (cache_pool ?s2) e = Inr cb" using infer_cblock_ok(1) [OF ip nr] by (simp add: cb_def)
    have 3: "(if \<not> mig then arc_enqueue ARC_T2 e (arc_unlink e ?s2) else Inr ?s2) = Inr s'"
    proof (cases mig)
      case True
      then show ?thesis by (simp add: s' q'_def)
    next
      case False
      have u: "arc_unlink e ?s2 = ?s2\<lparr>arc_q := q\<rparr>" by (simp add: arc_unlink_def q_remove_def q_def)
      have "arc_enqueue ARC_T2 e (?s2\<lparr>arc_q := q\<rparr>) = Inr (?s2\<lparr>arc_q := q(ARC_T2 := q ARC_T2 @ [e])\<rparr>)"
        by (subst arc_enqueue_eq) (simp_all add: nq)
      then show ?thesis using False by (simp add: u s' q'_def)
    qed
    show ?thesis unfolding arc_touch_def 1 rbind.simps 2 3 ..
  qed
  have cn': "cn_ok s'"
  proof -
    have "cn_ok (s\<lparr>store := (store s)(e := x)\<rparr>)" by (rule cn_ok_upd [OF D(1)]) (simp_all add: x_def)
    then show ?thesis by (simp add: cn_ok_def s')
  qed
  have base: "arc_base c m s'"
    by (rule arc_base_cong [OF ok cn']) (simp_all add: f D(7) lists del: fun_upd_apply)
  have kr: "keyq ((store s)(e := x)) q = (\<lambda>l. remove1 ob (keyq (store s) (arc_q s) l))"
    "keyw ?t ((store s)(e := x)) = (\<lambda>l. keyw (ht s) (store s) l - {ob})"
    unfolding q_def by (rule keyq_remove [OF D(8) mem(1) dk mem(2)], rule keyw_remove [OF mem(1) dk mem(2)])
  have kw: "keyw (ht s) ((store s)(e := x)) = keyw (e # ?t) ((store s)(e := x))"
    by (simp add: keyw_def fun_eq_iff at_loc_cong [OF st, symmetric])
  have abs: "arc_abs s' = (if mig then spec_admit ARC_T2 ob (spec_drop ob (arc_abs s)) else spec_add ARC_T2 ob (spec_drop ob (arc_abs s)))"
  proof (cases mig)
    case True
    then have "keyw (ht s) ((store s)(e := x)) = (keyw ?t ((store s)(e := x)))(ARC_T2 := insert ob (keyw ?t ((store s)(e := x)) ARC_T2))"
      unfolding kw using keyw_admit [OF nt _ x(1,2), of "(store s)(e := x)"] x(3) by simp
    then show ?thesis using True qm kr
      by (simp add: arc_abs_def spec_admit_def spec_drop_def f q'_def del: fun_upd_apply)
  next
    case False
    have "keyw (ht s) ((store s)(e := x)) = keyw ?t ((store s)(e := x))"
      unfolding kw using keyw_add [OF nt, of x "(store s)(e := x)"] x(3) False by simp
    moreover have "keyq ((store s)(e := x)) (q(ARC_T2 := q ARC_T2 @ [e])) =
        (keyq ((store s)(e := x)) q)(ARC_T2 := keyq ((store s)(e := x)) q ARC_T2 @ [ob])"
      using keyq_add(1) [OF removed nt x(2), of ARC_T2] by simp
    ultimately show ?thesis using False kr
      by (simp add: arc_abs_def spec_add_def spec_drop_def f q'_def del: fun_upd_apply)
  qed
  have "cview (ht s') (store s') = cview (ht s) (store s)"
    using cview_upd [OF dk mem(1), of x] cview_entry [OF dk mem(1)] e(2) x mem(2)
    by (simp add: f(1,2) mig fun_upd_idem)
  then show ?thesis using base abs run f(5) infer_cblock_ok(2) [OF ip nr]
    by - (rule exI [of _ cb], rule exI [of _ s'], simp add: cb_def)
qed

end
