(* ===== verification/Arc_Spec.thy ===== *)
theory Arc_Spec
  imports Arc_Inv
begin

text \<open>
  The abstract ARC cache and the proof that an access refines it: every case of an access, with the sizes it
  keeps, and the contract of a policy that follows.
\<close>

section \<open>The abstract cache\<close>

definition ghost_of :: "arc_list \<Rightarrow> arc_list" where
  "ghost_of v = (if v = ARC_T2 then ARC_B2 else ARC_B1)"

text \<open>The list that gives up a block, for the target \<open>p\<close>.\<close>

definition spec_victim :: "bool \<Rightarrow> nat \<Rightarrow> arc_spec \<Rightarrow> arc_list" where
  "spec_victim from_b2 p a =
     (if 1 \<le> alen a ARC_T1 \<and> (from_b2 \<and> alen a ARC_T1 = p \<or> p < alen a ARC_T1) then ARC_T1 else ARC_T2)"

text \<open>
  The least recently used block of the list \<open>v\<close> makes room for \<open>ob\<close>, and becomes a ghost if \<open>hist\<close>. \<open>b\<close> is the
  cache with the ghosts that go; without a block to evict the access fails and \<open>a\<close> stays.
\<close>

definition spec_leave :: "arc_list \<Rightarrow> bool \<Rightarrow> arc_spec \<Rightarrow> arc_spec" where
  "spec_leave v hist b =
     (if hist then spec_add (ghost_of v) (hd (aq b v)) (spec_pop v b) else spec_pop v b)"

definition spec_swap ::
  "arc_list \<Rightarrow> bool \<Rightarrow> oblock \<Rightarrow> arc_list \<Rightarrow> arc_spec \<Rightarrow> arc_spec \<Rightarrow> cache_nucleus_operation \<times> oblock option \<times> arc_spec" where
  "spec_swap v hist ob dest b a =
     (case aq a v of
        [] \<Rightarrow> (CACHE_NUCLEUS_FAIL, None, a)
      | old # _ \<Rightarrow> (CACHE_NUCLEUS_REPLACE, Some old, spec_admit dest ob (spec_leave v hist b)))"

definition spec_raise :: "nat \<Rightarrow> arc_spec \<Rightarrow> nat" where
  "spec_raise c a = min c (ap a + max (alen a ARC_B2 div alen a ARC_B1) 1)"

definition spec_lower :: "arc_spec \<Rightarrow> nat" where
  "spec_lower a = ap a - max (alen a ARC_B1 div alen a ARC_B2) 1"

definition spec_arc ::
  "nat \<Rightarrow> oblock \<Rightarrow> arc_spec \<Rightarrow> cache_nucleus_operation \<times> oblock option \<times> arc_spec" where
  "spec_arc c ob a =
     (if ob \<in> set (aq a ARC_T1) \<union> set (aq a ARC_T2) then
        (CACHE_NUCLEUS_HIT, None, spec_add ARC_T2 ob (spec_drop ob a))
      else if ob \<in> aw a ARC_T1 \<union> aw a ARC_T2 then
        (CACHE_NUCLEUS_HIT, None, spec_admit ARC_T2 ob (spec_drop ob a))
      else if ob \<in> set (aq a ARC_B1) then
        let p = spec_raise c a in
        spec_swap (spec_victim False p a) True ob ARC_T2 ((spec_drop ob a)\<lparr>ap := p\<rparr>) a
      else if ob \<in> set (aq a ARC_B2) then
        let p = spec_lower a in
        spec_swap (spec_victim True p a) True ob ARC_T2 ((spec_drop ob a)\<lparr>ap := p\<rparr>) a
      else
        let l1 = alen a ARC_T1 + alen a ARC_B1; l2 = alen a ARC_T2 + alen a ARC_B2 in
        if l1 = c then
          if alen a ARC_T1 < c then spec_swap (spec_victim False (ap a) a) True ob ARC_T1 (spec_pop ARC_B1 a) a
          else spec_swap ARC_T1 False ob ARC_T1 a a
        else if l1 < c \<and> c \<le> l1 + l2 then
          spec_swap (spec_victim False (ap a) a) True ob ARC_T1 (if l1 + l2 = 2 * c then spec_pop ARC_B2 a else a) a
        else (CACHE_NUCLEUS_NEW, None, spec_admit ARC_T1 ob a))"

section \<open>Sizes\<close>

lemma alen_pop: "aq a l \<noteq> [] \<Longrightarrow> alen (spec_pop l a) k = (if k = l then alen a l - 1 else alen a k)"
  by (cases "aq a l") (simp_all add: alen_def spec_pop_def)

lemma alen_add: "alen (spec_add l ob a) k = (if k = l then Suc (alen a l) else alen a k)"
  by (simp add: alen_def spec_add_def)

lemma alen_admit: "finite (aw a l) \<Longrightarrow> ob \<notin> aw a l \<Longrightarrow>
  alen (spec_admit l ob a) k = (if k = l then Suc (alen a l) else alen a k)"
  by (simp add: alen_def spec_admit_def)

lemma alen_p [simp]: "alen (a\<lparr>ap := p\<rparr>) l = alen a l"
  by (simp add: alen_def)

lemma alen_drop:
  assumes ok: "arc_base c m s" and at: "ob \<in> set (aq (arc_abs s) l) \<or> ob \<in> aw (arc_abs s) l"
  shows "alen (spec_drop ob (arc_abs s)) k = (if k = l then alen (arc_abs s) l - 1 else alen (arc_abs s) k)"
    "1 \<le> alen (arc_abs s) l"
proof -
  let ?a = "arc_abs s"
  note J = arc_disjoint [OF ok]
  have other: "ob \<notin> set (aq ?a k) \<and> ob \<notin> aw ?a k" if "k \<noteq> l"
    using at that unfolding arc_lookup [OF ok] by auto
  have drop: "alen (spec_drop ob ?a) k = length (remove1 ob (aq ?a k)) + card (aw ?a k - {ob})" for k
    by (simp add: alen_def spec_drop_def)
  consider "ob \<in> set (aq ?a l)" "ob \<notin> aw ?a l" | "ob \<notin> set (aq ?a l)" "ob \<in> aw ?a l"
    using at J(2) [of ob l l] by blast
  then have here: "alen (spec_drop ob ?a) l = alen ?a l - 1 \<and> 1 \<le> alen ?a l"
  proof cases
    case 1
    then have "0 < length (aq ?a l)" by (cases "aq ?a l") auto
    then have "length (aq ?a l) = Suc (length (aq ?a l) - 1)" by simp
    then show ?thesis using 1 unfolding drop alen_def [of ?a] by (simp add: length_remove1)
  next
    case 2
    then have "0 < card (aw ?a l)" using J(4) card_gt_0_iff by blast
    then have "card (aw ?a l) = Suc (card (aw ?a l) - 1)" by simp
    then show ?thesis using 2 J(4) unfolding drop alen_def [of ?a] by (simp add: remove1_idem)
  qed
  then show "1 \<le> alen ?a l" by simp
  show "alen (spec_drop ob ?a) k = (if k = l then alen ?a l - 1 else alen ?a k)"
  proof (cases "k = l")
    case True
    then show ?thesis using here by simp
  next
    case False
    then show ?thesis using other unfolding drop alen_def [of ?a] by (simp add: remove1_idem)
  qed
qed

text \<open>
  The bounds of ARC: T1 and its ghosts fit the cache, all lists together twice the cache. The metadata must hold all
  ghosts: it does if it is twice the cache, and if it is as large as the cache as long as there are ghosts
  only behind a full cache, which removals do not keep.
\<close>

definition arc_sizes :: "nat \<Rightarrow> nat \<Rightarrow> arc_spec \<Rightarrow> bool" where
  "arc_sizes c m a \<longleftrightarrow> alen a ARC_T1 + alen a ARC_B1 \<le> c \<and>
     alen a ARC_T1 + alen a ARC_T2 + alen a ARC_B1 + alen a ARC_B2 \<le> 2 * c \<and>
     (2 * c \<le> m \<or> c \<le> m \<and> (alen a ARC_T1 + alen a ARC_T2 = c \<or> alen a ARC_B1 + alen a ARC_B2 = 0))"

definition arc_ok :: "u32 \<Rightarrow> u32 \<Rightarrow> arc_policy \<Rightarrow> bool" where
  "arc_ok c m s \<longleftrightarrow> arc_base c m s \<and> arc_sizes (unat c) (unat m) (arc_abs s)"

lemma arc_okD:
  assumes "arc_ok c m s"
  shows "arc_base c m s" "arc_sizes (unat c) (unat m) (arc_abs s)"
  using assms by (simp_all add: arc_ok_def)

section \<open>Room for a block\<close>

lemma arc_head:
  assumes "aq (arc_abs s) v = old # rest"
  shows "\<exists>e es. arc_q s v = e # es \<and> e_oblock (store s e) = old"
  using assms by (cases "arc_q s v") (auto simp: arc_abs_def keyq_def)

lemma arc_swap_ok:
  assumes ok: "arc_base c m s" and v: "v = ARC_T1 \<or> v = ARC_T2" "at_cache_evict a = v"
    and hist: "hist \<longleftrightarrow> at_evict_T1_to_B1 a \<or> v = ARC_T2"
    and q: "aq (arc_abs s) v = old # rest" and new: "ht_lookup ob s = None"
    and room: "hist \<Longrightarrow> \<not> meta_is_full s" and dest: "dest = ARC_T1 \<or> dest = ARC_T2"
  shows "\<exists>e d cb s'. rbind (arc_make_room a r s) (\<lambda>(r, s). arc_admit dest ob r s) =
      Inr (r\<lparr>r_old_oblock := old, r_dirty_eviction := d, r_cblock := cb\<rparr>, s') \<and>
    arc_base c m s' \<and> arc_abs s' = spec_admit dest ob (spec_leave v hist (arc_abs s)) \<and>
    cview (ht s) (store s) old = Some (e, False, d) \<and>
    cview (ht s') (store s') = (cview (ht s) (store s))(old := None, ob \<mapsto> (e, True, False)) \<and>
    pool_geo (cache_pool s') = pool_geo (cache_pool s) \<and> epool_at (cache_pool s) cb = Some e"
proof -
  have vn: "v \<noteq> ARC_NULL" using v(1) by auto
  obtain e es where e: "arc_q s v = e # es" "e_oblock (store s e) = old" using arc_head [OF q] by blast
  let ?r = "r\<lparr>r_old_oblock := old, r_dirty_eviction := e_dirty (store s e)\<rparr>"
  from arc_evict_ok [OF ok e(1), of "Some r", unfolded q] obtain s1 where
    s1: "arc_evict v (Some r) s = Inr (Some ?r, s1)" "arc_base c m s1" "arc_abs s1 = spec_pop v (arc_abs s)"
    "cview (ht s1) (store s1) = (cview (ht s) (store s))(old := None)"
    "e \<in> set (ht s)" "\<not> e_migrating (store s e)" "a_loc (store s e) = v"
    "\<forall>ob'. ht_lookup ob' s1 = (if ob' = old then None else ht_lookup ob' s)"
    "pool_geo (cache_pool s1) = pool_geo (cache_pool s)"
    "next_free s1 = (if fst e = CacheRegion then Some e else next_free s)" by auto
  have ec: "fst e = CacheRegion" using arc_region(1) [OF ok s1(5)] s1(7) v(1) by auto
  have qne: "aq (arc_abs s) v \<noteq> []" using q by simp
  have a1: "alen (arc_abs s1) k = (if k = v then alen (arc_abs s) v - 1 else alen (arc_abs s) k)" for k
    unfolding s1(3) by (rule alen_pop [OF qne])
  have pos: "1 \<le> alen (arc_abs s) v" using q by (simp add: alen_def)
  have "alen (arc_abs s1) ARC_T1 + alen (arc_abs s1) ARC_T2 < alen (arc_abs s) ARC_T1 + alen (arc_abs s) ARC_T2"
    using v(1) pos unfolding a1 by auto
  then have nf: "\<not> cache_is_full s1" using arc_full(1) [OF s1(2)] arc_full(2) [OF ok] by linarith
  have room1: "\<not> meta_is_full s1" if hist
    using room [OF that] arc_full(3) [OF ok] arc_full(3) [OF s1(2)] v(1) unfolding a1 by auto
  have "\<exists>s2. (if hist then arc_to_ghost old (if v = ARC_T2 then ARC_B2 else ARC_B1) s1 else Inr s1) = Inr s2 \<and>
      arc_base c m s2 \<and> arc_abs s2 = spec_leave v hist (arc_abs s) \<and>
      cview (ht s2) (store s2) = (cview (ht s) (store s))(old := None) \<and> ht_lookup ob s2 = None \<and>
      pool_geo (cache_pool s2) = pool_geo (cache_pool s) \<and> next_free s2 = Some e \<and> \<not> cache_is_full s2"
  proof (cases hist)
    case True
    have n1: "ht_lookup old s1 = None" using s1(8) by simp
    have g: "ghost_of v = ARC_B1 \<or> ghost_of v = ARC_B2" by (simp add: ghost_of_def)
    from arc_to_ghost_ok [OF s1(2) room1 [OF True] n1 g] obtain p s2 where
      s2: "arc_to_ghost old (ghost_of v) s1 = Inr s2" "arc_base c m s2" "arc_abs s2 = spec_add (ghost_of v) old (arc_abs s1)"
      "cview (ht s2) (store s2) = (cview (ht s1) (store s1))(old := None)"
      "\<forall>ob'. ht_lookup ob' s2 = (if ob' = old then Some p else ht_lookup ob' s1)"
      "pool_geo (cache_pool s2) = pool_geo (cache_pool s1)" "next_free s2 = next_free s1" by blast
    have "ob \<noteq> old"
    proof
      assume "ob = old"
      then have "ht_lookup ob s = Some e" using lookup_Some [OF arc_baseD(1) [OF ok]] s1(5) e(2) by auto
      then show False using new by simp
    qed
    then have "ht_lookup ob s2 = None" using s2(5) s1(8) new by simp
    moreover have "\<not> cache_is_full s2"
      using s2(7) s1(10) ec by (auto simp: next_free_def cache_is_full_def epool_empty_def q_peek_def split: list.splits)
    ultimately show ?thesis using True s2 s1(3,4,9,10) q ec
      by (intro exI [of _ s2]) (simp add: spec_leave_def ghost_of_def)
  next
    case False
    then show ?thesis using s1 nf ec new by (intro exI [of _ s1]) (simp add: spec_leave_def)
  qed
  then obtain s2 where s2: "(if hist then arc_to_ghost old (if v = ARC_T2 then ARC_B2 else ARC_B1) s1 else Inr s1) = Inr s2"
    "arc_base c m s2" "arc_abs s2 = spec_leave v hist (arc_abs s)"
    "cview (ht s2) (store s2) = (cview (ht s) (store s))(old := None)" "ht_lookup ob s2 = None"
    "pool_geo (cache_pool s2) = pool_geo (cache_pool s)" "next_free s2 = Some e" "\<not> cache_is_full s2" by blast
  from arc_admit_ok [OF s2(2,8,5) dest, of ?r] obtain e' cb s' where
    s': "arc_admit dest ob ?r s2 = Inr (?r\<lparr>r_cblock := cb\<rparr>, s')" "arc_base c m s'"
    "arc_abs s' = spec_admit dest ob (arc_abs s2)"
    "cview (ht s') (store s') = (cview (ht s2) (store s2))(ob \<mapsto> (e', True, False))" "next_free s2 = Some e'"
    "pool_geo (cache_pool s') = pool_geo (cache_pool s2)" "epool_at (cache_pool s2) cb = Some e'" by blast
  have ee: "e' = e" using s2(7) s'(5) by simp
  have mr: "arc_make_room a r s = Inr (?r, s2)"
    using s1(1) s2(1) v vn hist by (cases hist) (auto simp: arc_make_room_def deref_def)
  have "rbind (arc_make_room a r s) (\<lambda>(r, s). arc_admit dest ob r s) = Inr (?r\<lparr>r_cblock := cb\<rparr>, s')"
    using s'(1) by (simp add: mr)
  moreover have "cview (ht s) (store s) old = Some (e, False, e_dirty (store s e))"
    using cview_entry [OF arc_keys [OF ok] s1(5)] ec e(2) s1(6) by simp
  ultimately show ?thesis using s' s2(3,4,6) pool_geo_cong(1) [OF s2(6)]
    by - (rule exI [of _ e], rule exI [of _ "e_dirty (store s e)"], rule exI [of _ cb], rule exI [of _ s'], simp add: ee)
qed

section \<open>An access\<close>

definition arc_serves :: "u32 \<Rightarrow> u32 \<Rightarrow> oblock \<Rightarrow> bool \<Rightarrow> cn_result \<Rightarrow> arc_policy \<Rightarrow> bool" where
  "arc_serves c m ob w r0 s \<longleftrightarrow> (\<exists>r s'. arc_map_api ob w r0 s = Inr (0, r, s') \<and> arc_ok c m s' \<and>
     spec_arc (unat c) ob (arc_abs s) = (r_op r, evicted r, arc_abs s') \<and>
     write_effect ob w r (cview (ht s) (store s)) (cview (ht s') (store s')) \<and> resides ob r s' \<and>
     (\<exists>op v. arc_next_victim_api ob s = Inr (op, v) \<and> (op = CACHE_NUCLEUS_FAIL \<longleftrightarrow> r_op r = CACHE_NUCLEUS_FAIL)))"

lemma arc_abs_cong:
  assumes "arc_q s' = arc_q s" "arc_p s' = arc_p s" "ht s' = ht s"
    "\<And>p. e_oblock (store s' p) = e_oblock (store s p)" "\<And>p. e_migrating (store s' p) = e_migrating (store s p)"
    "\<And>p. a_loc (store s' p) = a_loc (store s p)"
  shows "arc_abs s' = arc_abs s"
  using assms by (simp add: arc_abs_def keyq_def keyw_def at_loc_def fun_eq_iff)

lemma arc_lists_cong:
  assumes "\<And>p. e_migrating (st' p) = e_migrating (st p)" "\<And>p. a_loc (st' p) = a_loc (st p)"
  shows "arc_lists q n t st' = arc_lists q n t st"
  using assms by (simp add: arc_lists_def at_loc_def)

lemma arc_mark:
  assumes ok: "arc_base c m s" and s': "s' = mark_dirty ob w (upd_stats inc_ios s)"
  shows "arc_base c m s'" "arc_abs s' = arc_abs s"
    "cview (ht s') (store s') = marked ob w (cview (ht s) (store s))" "cache_pool s' = cache_pool s"
proof -
  note D = arc_baseD [OF ok]
  obtain s1 where s1: "s1 = upd_stats inc_ios s" by blast
  have cn: "cn_ok s1" using D(1) by (simp add: s1)
  have f1: "store s1 = store s" "ht s1 = ht s" "arc_q s1 = arc_q s" "arc_length s1 = arc_length s"
    "cache_pool s1 = cache_pool s" "meta_pool s1 = meta_pool s" "cache_size s1 = cache_size s" "arc_p s1 = arc_p s"
    by (simp_all add: s1)
  note K = mark_dirty_cases [OF cn, of ob w, folded s1 s' [unfolded s1 [symmetric]]]
  have f: "ht s' = ht s" "arc_q s' = arc_q s" "arc_length s' = arc_length s"
    "cache_pool s' = cache_pool s" "meta_pool s' = meta_pool s" "cache_size s' = cache_size s" "arc_p s' = arc_p s"
    by (subst K(3), simp add: f1)+
  have loc: "a_loc (store s' p) = a_loc (store s p)" for p
    unfolding s' mark_dirty_def by (simp split: option.splits)
  have k: "e_oblock (store s' p) = e_oblock (store s p)" "e_migrating (store s' p) = e_migrating (store s p)" for p
    using K(4,5) by (simp_all add: f1)
  show "arc_base c m s'"
    by (rule arc_base_cong [OF ok K(1)]) (simp_all add: f D(7,8) arc_lists_cong [of "store s'" "store s"] k loc)
  show "arc_abs s' = arc_abs s" by (rule arc_abs_cong) (simp_all add: f k loc)
  show "cview (ht s') (store s') = marked ob w (cview (ht s) (store s))" using K(2) by (simp only: f1)
  show "cache_pool s' = cache_pool s" by (rule f(4))
qed

lemma arc_finish:
  assumes "arc_transaction_set s (arc_transaction_init s ob) = Inr a" "arc_transaction_is_legal s a"
    and "arc_transaction_commit a r0 s = Inr (r, s1)" and base: "arc_base c m s1"
    and sizes: "arc_sizes (unat c) (unat m) (arc_abs s1)"
    and spec: "spec_arc (unat c) ob (arc_abs s) = (r_op r, evicted r, arc_abs s1)"
    and eff: "write_effect ob w r (cview (ht s) (store s)) (marked ob w (cview (ht s1) (store s1)))"
    and res: "resides ob r s1" and "r_op r \<noteq> CACHE_NUCLEUS_FAIL"
  shows "arc_serves c m ob w r0 s"
proof -
  obtain s' where s': "s' = mark_dirty ob w (upd_stats inc_ios s1)" by blast
  note M = arc_mark [OF base s']
  have "arc_map_api ob w r0 s = Inr (0, r, s')" using assms(1-3) by (simp add: arc_map_api_def s')
  moreover have "arc_ok c m s'" using M(1,2) sizes by (simp add: arc_ok_def)
  moreover have "resides ob r s'" using res unfolding resides_def M(3,4) by auto
  moreover have "\<exists>op v. arc_next_victim_api ob s = Inr (op, v) \<and> op \<noteq> CACHE_NUCLEUS_FAIL"
    using assms(1,2) by (simp add: arc_next_victim_api_def)
  ultimately show ?thesis unfolding arc_serves_def using spec eff M(2,3) assms(9) by auto
qed

text \<open>The words of the transaction in exact numbers.\<close>

lemma arc_lens:
  assumes ok: "arc_ok c m s"
  shows "unat (arc_length s l) = alen (arc_abs s) l"
    "unat (arc_length s ARC_T1 + arc_length s ARC_B1) = alen (arc_abs s) ARC_T1 + alen (arc_abs s) ARC_B1"
    "unat (arc_length s ARC_T1 + arc_length s ARC_B1 + (arc_length s ARC_T2 + arc_length s ARC_B2)) =
      alen (arc_abs s) ARC_T1 + alen (arc_abs s) ARC_T2 + alen (arc_abs s) ARC_B1 + alen (arc_abs s) ARC_B2"
    "alen (arc_abs s) l \<le> 2 * unat c"
proof -
  let ?a = "arc_abs s"
  note O = arc_okD [OF ok] and D = arc_baseD [OF arc_okD(1) [OF ok]]
  have tot: "alen ?a ARC_T1 + alen ?a ARC_T2 + alen ?a ARC_B1 + alen ?a ARC_B2 \<le> 2 * unat c"
    using O(2) by (simp add: arc_sizes_def)
  have "at_loc (ht s) (store s) ARC_NULL = {}" using arc_region(3) [OF O(1)] by (auto simp: at_loc_def)
  then have "alen ?a ARC_NULL = 0" using arc_alen(1) [OF O(1), of ARC_NULL] by simp
  then show le: "alen ?a l \<le> 2 * unat c" for l using tot by (cases l) simp_all
  have c: "3 * unat c < 4294967296" using D(4) by simp
  have small: "unat (of_nat k :: u32) = k" if "k \<le> 2 * unat c" for k
  proof -
    have "k < 4294967296" using that c by linarith
    then show ?thesis by (intro unat_of_nat_small) simp
  qed
  have n: "arc_length s l = of_nat (alen ?a l)" for l by (rule arc_alen(2) [OF O(1)])
  show "unat (arc_length s l) = alen ?a l" using n small [OF le] by simp
  have "arc_length s ARC_T1 + arc_length s ARC_B1 = of_nat (alen ?a ARC_T1 + alen ?a ARC_B1)" by (simp add: n)
  then show "unat (arc_length s ARC_T1 + arc_length s ARC_B1) = alen ?a ARC_T1 + alen ?a ARC_B1"
    using small [of "alen ?a ARC_T1 + alen ?a ARC_B1"] tot by simp
  have "arc_length s ARC_T1 + arc_length s ARC_B1 + (arc_length s ARC_T2 + arc_length s ARC_B2) =
      of_nat (alen ?a ARC_T1 + alen ?a ARC_T2 + alen ?a ARC_B1 + alen ?a ARC_B2)" by (simp add: n)
  then show "unat (arc_length s ARC_T1 + arc_length s ARC_B1 + (arc_length s ARC_T2 + arc_length s ARC_B2)) =
      alen ?a ARC_T1 + alen ?a ARC_T2 + alen ?a ARC_B1 + alen ?a ARC_B2" using small [OF tot] by simp
qed

lemma arc_ap: "ap (arc_abs s) = unat (arc_p s)"
  by (simp add: arc_abs_def)

lemma arc_raise_ok:
  assumes ok: "arc_ok c m s" and b1: "1 \<le> alen (arc_abs s) ARC_B1"
  shows "\<exists>p. arc_raise_p s = Inr p \<and> unat p = spec_raise (unat c) (arc_abs s)"
proof -
  let ?a = "arc_abs s"
  note O = arc_okD [OF ok] and D = arc_baseD [OF arc_okD(1) [OF ok]] and L = arc_lens [OF ok]
  have nz: "arc_length s ARC_B1 \<noteq> 0" using L(1) [of ARC_B1] b1 by auto
  let ?d = "max_u (arc_length s ARC_B2 div arc_length s ARC_B1) 1"
  have d: "unat ?d = max (alen ?a ARC_B2 div alen ?a ARC_B1) 1"
    by (simp add: max_u_eq max_def word_le_nat_alt unat_div L(1))
  have "alen ?a ARC_B2 div alen ?a ARC_B1 \<le> alen ?a ARC_B2" by (rule div_le_dividend)
  then have "unat ?d \<le> 2 * unat c" using L(4) [of ARC_B2] L(4) [of ARC_B1] b1 unfolding d by linarith
  then have "unat (arc_p s) + unat ?d < 4294967296" using D(4,7) by simp
  then have "unat (arc_p s) + unat ?d < 2 ^ LENGTH(32)" by simp
  then have "unat (arc_p s + ?d) = unat (arc_p s) + unat ?d" by (subst unat_add_lem [THEN iffD1]) simp_all
  then have "unat (min_u (cache_size s) (arc_p s + ?d)) = spec_raise (unat c) ?a"
    using D(5) by (simp add: min_u_eq spec_raise_def min_def word_le_nat_alt d arc_ap)
  then show ?thesis using nz by (simp add: arc_raise_p_def udiv_def)
qed

lemma arc_lower_ok:
  assumes ok: "arc_ok c m s" and b2: "1 \<le> alen (arc_abs s) ARC_B2"
  shows "\<exists>p. arc_lower_p s = Inr p \<and> unat p = spec_lower (arc_abs s)"
proof -
  let ?a = "arc_abs s"
  note L = arc_lens [OF ok]
  have nz: "arc_length s ARC_B2 \<noteq> 0" using L(1) [of ARC_B2] b2 by auto
  let ?d = "max_u (arc_length s ARC_B1 div arc_length s ARC_B2) 1"
  have d: "unat ?d = max (alen ?a ARC_B1 div alen ?a ARC_B2) 1"
    by (simp add: max_u_eq max_def word_le_nat_alt unat_div L(1))
  have u: "unat (ucast w :: u64) = unat w" for w :: u32 by (rule unat_ucast_up) simp
  have gt: "(ucast (arc_p s) :: u64) > ucast ?d \<longleftrightarrow> unat (arc_p s) > unat ?d"
    by (simp add: word_less_nat_alt u)
  have "unat (ucast ((ucast (arc_p s) :: u64) - ucast ?d) :: u32) = unat (arc_p s) - unat ?d" if "unat (arc_p s) > unat ?d"
  proof -
    have "unat ((ucast (arc_p s) :: u64) - ucast ?d) = unat (arc_p s) - unat ?d"
      using that by (subst unat_sub) (simp_all add: word_le_nat_alt u)
    then have "(ucast ((ucast (arc_p s) :: u64) - ucast ?d) :: u32) = of_nat (unat (arc_p s) - unat ?d)"
      by (metis of_nat_unat)
    moreover have "unat (arc_p s) - unat ?d < 2 ^ LENGTH(32)" using unat_less_exp [of "arc_p s"] by simp
    ultimately show ?thesis using unat_of_nat_small by metis
  qed
  then have "unat (if (ucast (arc_p s) :: u64) > ucast ?d
      then ucast ((ucast (arc_p s) :: u64) - ucast ?d) else 0 :: u32) = spec_lower ?a"
    by (auto simp: gt spec_lower_def d arc_ap)
  then show ?thesis using nz by (simp add: arc_lower_p_def udiv_def Let_def)
qed

lemma arc_replace_eq:
  assumes ok: "arc_ok c m s" and t: "\<not> at_evict_T1_to_B1 a"
    and v: "v = spec_victim (at_current_loc a = ARC_B2) (unat (at_p a)) (arc_abs s)"
  shows "arc_replace s a = a\<lparr>at_cache_evict := v, at_evict_T1_to_B1 := (v = ARC_T1)\<rparr>"
proof -
  note L = arc_lens(1) [OF ok, of ARC_T1]
  have "arc_length s ARC_T1 = at_p a \<longleftrightarrow> alen (arc_abs s) ARC_T1 = unat (at_p a)"
    using L word_unat_eq_iff [of "arc_length s ARC_T1" "at_p a"] by simp
  then show ?thesis using L t by (simp add: arc_replace_def Let_def v spec_victim_def word_le_nat_alt word_less_nat_alt)
qed

lemma spec_victim_cases: "spec_victim b p a = ARC_T1 \<or> spec_victim b p a = ARC_T2"
  by (simp add: spec_victim_def)

text \<open>An access that needs a block to be evicted: \<open>t\<close> is the cache without the ghosts that go.\<close>

lemma arc_legal:
  assumes ok: "arc_base c m s" and "at_cache_evict a = ARC_T1 \<or> at_cache_evict a = ARC_T2"
  shows "arc_transaction_is_legal s a \<longleftrightarrow> aq (arc_abs s) (at_cache_evict a) \<noteq> []"
proof -
  let ?v = "at_cache_evict a"
  have "length (arc_q s ?v) \<le> alen (arc_abs s) ?v" by (simp add: alen_def arc_abs_def keyq_def)
  also have "\<dots> \<le> unat c" using arc_full(2) [OF ok] assms(2) by auto
  finally have "length (arc_q s ?v) < 2 ^ LENGTH(32)" using unat_less_exp [of c] by simp
  then show ?thesis using assms(2)
    by (auto simp: arc_transaction_is_legal_def q_length_def of_nat_pos_small arc_abs_def keyq_def)
qed

lemma arc_serve_swap:
  assumes ok: "arc_ok c m s" and set: "arc_transaction_set s (arc_transaction_init s ob) = Inr a"
    and a: "at_oblock a = ob" "at_cache_evict a = v" "at_dest a = dest" "v = ARC_T1 \<or> v = ARC_T2"
      "dest = ARC_T1 \<or> dest = ARC_T2" "hist \<longleftrightarrow> at_evict_T1_to_B1 a \<or> v = ARC_T2"
      "at_current_loc a \<noteq> ARC_T1" "at_current_loc a \<noteq> ARC_T2"
    and none: "cview (ht s) (store s) ob = None"
    and pre: "rbind (if ht_lookup ob s \<noteq> None
        then rbind (deref (ht_lookup ob s)) (\<lambda>e. arc_remove_entry e (upd_stats inc_misses (s\<lparr>arc_p := at_p a\<rparr>)))
        else Inr (upd_stats inc_misses (s\<lparr>arc_p := at_p a\<rparr>))) (\<lambda>s.
      if at_meta_evict a \<noteq> ARC_NULL then rbind (arc_evict (at_meta_evict a) None s) (\<lambda>(_, s). Inr s) else Inr s) = Inr t"
    and t: "arc_base c m t" "cview (ht t) (store t) = cview (ht s) (store s)" "ht_lookup ob t = None"
      "aq (arc_abs t) v = aq (arc_abs s) v" "hist \<Longrightarrow> \<not> meta_is_full t"
      "pool_geo (cache_pool t) = pool_geo (cache_pool s)"
    and sizes: "aq (arc_abs s) v \<noteq> [] \<Longrightarrow> arc_sizes (unat c) (unat m) (spec_admit dest ob (spec_leave v hist (arc_abs t)))"
    and spec: "spec_arc (unat c) ob (arc_abs s) = spec_swap v hist ob dest (arc_abs t) (arc_abs s)"
  shows "arc_serves c m ob w r0 s"
proof (cases "aq (arc_abs s) v")
  case Nil
  note O = arc_okD [OF ok]
  have "\<not> arc_transaction_is_legal s a" using arc_legal [OF O(1), of a] a(2,4) Nil by simp
  then show ?thesis using set none ok Nil
    by (simp add: arc_serves_def arc_map_api_def arc_next_victim_api_def evicted_def write_effect_def resides_def
        spec spec_swap_def)
next
  case (Cons old rest)
  note O = arc_okD [OF ok]
  have leg: "arc_transaction_is_legal s a" using arc_legal [OF O(1), of a] a(2,4) Cons by simp
  have vn: "v \<noteq> ARC_NULL" using a(4) by auto
  have q2: "aq (arc_abs t) v = old # rest" using t(4) Cons by simp
  from arc_swap_ok [OF t(1) a(4) a(2) a(6) q2 t(3) t(5) a(5), of "r0\<lparr>r_op := CACHE_NUCLEUS_REPLACE\<rparr>"]
  obtain e d cb s' where
    s': "rbind (arc_make_room a (r0\<lparr>r_op := CACHE_NUCLEUS_REPLACE\<rparr>) t) (\<lambda>(r, s). arc_admit dest ob r s) =
      Inr (r0\<lparr>r_op := CACHE_NUCLEUS_REPLACE, r_old_oblock := old, r_dirty_eviction := d, r_cblock := cb\<rparr>, s')"
    "arc_base c m s'" "arc_abs s' = spec_admit dest ob (spec_leave v hist (arc_abs t))"
    "cview (ht t) (store t) old = Some (e, False, d)"
    "cview (ht s') (store s') = (cview (ht t) (store t))(old := None, ob \<mapsto> (e, True, False))"
    "pool_geo (cache_pool s') = pool_geo (cache_pool t)" "epool_at (cache_pool t) cb = Some e" by blast
  define r where "r = r0\<lparr>r_op := CACHE_NUCLEUS_REPLACE, r_old_oblock := old, r_dirty_eviction := d, r_cblock := cb\<rparr>"
  have com: "arc_transaction_commit a r0 s = Inr (r, s')"
  proof -
    have "arc_transaction_commit a r0 s = rbind (rbind (if ht_lookup ob s \<noteq> None
        then rbind (deref (ht_lookup ob s)) (\<lambda>e. arc_remove_entry e (upd_stats inc_misses (s\<lparr>arc_p := at_p a\<rparr>)))
        else Inr (upd_stats inc_misses (s\<lparr>arc_p := at_p a\<rparr>))) (\<lambda>s.
      if at_meta_evict a \<noteq> ARC_NULL then rbind (arc_evict (at_meta_evict a) None s) (\<lambda>(_, s). Inr s) else Inr s))
      (\<lambda>s. rbind (arc_make_room a (r0\<lparr>r_op := CACHE_NUCLEUS_REPLACE\<rparr>) s) (\<lambda>(r, s). arc_admit dest ob r s))"
      using a vn by (simp add: arc_transaction_commit_def Let_def rbind_assoc)
    then show ?thesis unfolding pre rbind.simps s'(1) r_def .
  qed
  show ?thesis
  proof (rule arc_finish [OF set leg com s'(2)])
    show "arc_sizes (unat c) (unat m) (arc_abs s')" unfolding s'(3) using sizes Cons by simp
    show "write_effect ob w r (cview (ht s) (store s)) (marked ob w (cview (ht s') (store s')))"
      by (rule write_effect_replace [where v = "cview (ht s) (store s)" and e = e, OF _ none])
        (use s'(4,5) t(2) in \<open>simp_all add: r_def\<close>)
    show "resides ob r s'"
      by (rule residesI [of s' ob e _ "cache_pool t"]) (simp_all add: s'(5-7) r_def)
  qed (simp_all add: r_def spec spec_swap_def Cons evicted_def s'(3))
qed

lemma arc_transaction_init_simps [simp]:
  "at_oblock (arc_transaction_init s ob) = ob" "at_p (arc_transaction_init s ob) = arc_p s"
  "at_current_loc (arc_transaction_init s ob) = ARC_NULL" "at_dest (arc_transaction_init s ob) = ARC_NULL"
  "at_cache_evict (arc_transaction_init s ob) = ARC_NULL" "\<not> at_evict_T1_to_B1 (arc_transaction_init s ob)"
  "at_meta_evict (arc_transaction_init s ob) = ARC_NULL"
  by (simp_all add: arc_transaction_init_def)

lemma arc_set_Some:
  assumes "ht_lookup ob s = Some e" "a = (arc_transaction_init s ob)\<lparr>at_current_loc := a_loc (store s e)\<rparr>"
  shows "arc_transaction_set s (arc_transaction_init s ob) =
    (if in_cache s (Some e) then Inr (a\<lparr>at_dest := ARC_T2\<rparr>)
     else rbind (if a_loc (store s e) = ARC_B1 then arc_raise_p s else arc_lower_p s)
       (\<lambda>p. Inr ((arc_replace s (a\<lparr>at_p := p\<rparr>))\<lparr>at_dest := ARC_T2\<rparr>)))"
  by (simp add: arc_transaction_set_def assms Let_def)

text \<open>A resident block.\<close>

lemma arc_serve_hit:
  assumes ok: "arc_ok c m s" and e: "ht_lookup ob s = Some e" "fst e = CacheRegion"
  shows "arc_serves c m ob w r0 s"
proof -
  note O = arc_okD [OF ok] and D = arc_baseD [OF arc_okD(1) [OF ok]]
  have mem: "e \<in> set (ht s)" "e_oblock (store s e) = ob" using lookup_Some [OF D(1)] e(1) by auto
  define l where "l = a_loc (store s e)"
  define mig where "mig = e_migrating (store s e)"
  have l: "l = ARC_T1 \<or> l = ARC_T2" using arc_region(1) [OF O(1) mem(1)] e(2) by (simp add: l_def)
  have ic: "in_cache s (Some e)" using cn_in_cache [OF D(1) mem(1)] e(2) by simp
  obtain a where a: "a = (arc_transaction_init s ob)\<lparr>at_current_loc := l, at_dest := ARC_T2\<rparr>" by blast
  have set: "arc_transaction_set s (arc_transaction_init s ob) = Inr a"
    using e(1) ic by (simp add: arc_transaction_set_def Let_def a l_def arc_transaction_init_def)
  have f: "at_oblock a = ob" "at_cache_evict a = ARC_NULL" "at_meta_evict a = ARC_NULL" "at_dest a = ARC_T2"
    "at_current_loc a = l" "at_p a = arc_p s" by (simp_all add: a arc_transaction_init_def)
  have leg: "arc_transaction_is_legal s a" by (simp add: arc_transaction_is_legal_def f)
  obtain s1 where s1: "s1 = upd_stats inc_hits (s\<lparr>arc_p := arc_p s\<rparr>)" by blast
  have b1: "arc_base c m s1" using D by (simp add: s1 arc_base_def cn_ok_def)
  have a1: "arc_abs s1 = arc_abs s" by (rule arc_abs_cong) (simp_all add: s1)
  have e1: "ht_lookup ob s1 = Some e" using e(1) by (simp add: ht_lookup_def s1)
  have m1: "mig = e_migrating (store s1 e)" by (simp add: mig_def s1)
  from arc_touch_ok [OF b1 e1 e(2) m1, of "r0\<lparr>r_op := CACHE_NUCLEUS_HIT\<rparr>"] obtain cb s' where
    s': "arc_touch ARC_T2 e mig (r0\<lparr>r_op := CACHE_NUCLEUS_HIT\<rparr>) s1 = Inr (r0\<lparr>r_op := CACHE_NUCLEUS_HIT, r_cblock := cb\<rparr>, s')"
    "arc_base c m s'" "arc_abs s' = (if mig then spec_admit ARC_T2 ob (spec_drop ob (arc_abs s))
      else spec_add ARC_T2 ob (spec_drop ob (arc_abs s)))"
    "cview (ht s') (store s') = cview (ht s1) (store s1)" "cache_pool s' = cache_pool s1"
    "epool_at (cache_pool s1) cb = Some e" unfolding a1 by blast
  have com: "arc_transaction_commit a r0 s = Inr (r0\<lparr>r_op := CACHE_NUCLEUS_HIT, r_cblock := cb\<rparr>, s')"
    using s'(1) l e(1) by (auto simp: arc_transaction_commit_def Let_def f arc_make_room_def deref_def s1 mig_def)
  have v: "cview (ht s) (store s) ob = Some (e, mig, e_dirty (store s e))"
    using cview_entry [OF arc_keys [OF O(1)] mem(1)] mem(2) e(2) by (simp add: mig_def)
  have at: "if mig then ob \<in> aw (arc_abs s) l else ob \<in> set (aq (arc_abs s) l)"
    using arc_lookup [OF O(1), of ob l] e(1) by (auto simp: l_def mig_def)
  have spec: "spec_arc (unat c) ob (arc_abs s) = (CACHE_NUCLEUS_HIT, None, arc_abs s')"
  proof (cases mig)
    case True
    then have "ob \<notin> set (aq (arc_abs s) k)" for k using at arc_disjoint(2) [OF O(1), of ob k l] by auto
    then show ?thesis using True at l by (auto simp: spec_arc_def s'(3))
  next
    case False
    then show ?thesis using at l by (auto simp: spec_arc_def s'(3))
  qed
  have "alen (arc_abs s') k = alen (spec_drop ob (arc_abs s)) k + (if k = ARC_T2 then 1 else 0)" for k
  proof (cases mig)
    case True
    have "finite (aw (spec_drop ob (arc_abs s)) ARC_T2)" "ob \<notin> aw (spec_drop ob (arc_abs s)) ARC_T2"
      using arc_disjoint(4) [OF O(1)] by (simp_all add: spec_drop_def)
    then show ?thesis using True by (simp add: s'(3) alen_admit)
  next
    case False
    then show ?thesis by (simp add: s'(3) alen_add)
  qed
  moreover have "ob \<in> set (aq (arc_abs s) l) \<or> ob \<in> aw (arc_abs s) l" using at by (auto split: if_splits)
  note dr = alen_drop [OF O(1) this]
  ultimately have len: "alen (arc_abs s') k = (if k = l then alen (arc_abs s) l - 1 else alen (arc_abs s) k) +
      (if k = ARC_T2 then 1 else 0)" for k using dr(1) by simp
  show ?thesis
  proof (rule arc_finish [OF set leg com s'(2)])
    show "arc_sizes (unat c) (unat m) (arc_abs s')"
      using O(2) l dr(2) unfolding arc_sizes_def len by auto
    show "write_effect ob w (r0\<lparr>r_op := CACHE_NUCLEUS_HIT, r_cblock := cb\<rparr>) (cview (ht s) (store s))
        (marked ob w (cview (ht s') (store s')))"
      by (rule write_effect_hit [where v = "cview (ht s) (store s)", OF _ v]) (simp_all add: s'(4), simp add: s1)
    show "resides ob (r0\<lparr>r_op := CACHE_NUCLEUS_HIT, r_cblock := cb\<rparr>) s'"
      by (rule residesI [of s' ob e "(mig, e_dirty (store s e))" "cache_pool s"])
        (use v s'(4-6) in \<open>simp_all add: s1\<close>)
  qed (simp_all add: spec evicted_def)
qed

text \<open>A ghost.\<close>

lemma arc_room_after:
  assumes "arc_sizes c m a" "1 \<le> alen a l" "l = ARC_B1 \<or> l = ARC_B2"
    "\<And>k. alen b k = (if k = l then alen a l - 1 else alen a k)"
    "v = ARC_T1 \<or> v = ARC_T2" "1 \<le> alen a v"
  shows "alen b ARC_B1 + alen b ARC_B2 < m"
  using assms unfolding arc_sizes_def assms(4) by auto

lemma spec_leave_len:
  assumes "aq b v \<noteq> []"
  shows "alen (spec_leave v hist b) k = (if k = v then alen b v - 1 else alen b k) +
    (if hist \<and> k = ghost_of v then 1 else 0)"
  by (simp add: spec_leave_def alen_add alen_pop [OF assms])

lemma spec_leave_way [simp]: "aw (spec_leave v hist b) = aw b"
  by (simp add: spec_leave_def spec_add_def spec_pop_def)

lemma arc_serve_ghost:
  assumes ok: "arc_ok c m s" and e: "ht_lookup ob s = Some e" "fst e = MetaRegion"
  shows "arc_serves c m ob w r0 s"
proof -
  note O = arc_okD [OF ok] and D = arc_baseD [OF arc_okD(1) [OF ok]]
  have mem: "e \<in> set (ht s)" "e_oblock (store s e) = ob" using lookup_Some [OF D(1)] e(1) by auto
  define l where "l = a_loc (store s e)"
  have l: "l = ARC_B1 \<or> l = ARC_B2" using arc_region(2) [OF O(1) mem(1)] e(2) by (simp add: l_def)
  have nm: "\<not> e_migrating (store s e)"
    using arc_listsD(5) [OF D(8) mem(1)] e(2) by auto
  have ic: "\<not> in_cache s (Some e)" using cn_in_cache [OF D(1) mem(1)] e(2) by simp
  have inq: "ob \<in> set (aq (arc_abs s) l)" using arc_lookup(1) [OF O(1), of ob l] e(1) nm by (auto simp: l_def)
  have nin: "ob \<notin> set (aq (arc_abs s) k)" if "k \<noteq> l" for k using arc_disjoint(3) [OF O(1) inq, of k] that by blast
  have nw: "ob \<notin> aw (arc_abs s) k" for k by (rule arc_disjoint(2) [OF O(1) inq])
  note dr = alen_drop [OF O(1) disjI1 [OF inq]]
  define p' where "p' = (if l = ARC_B1 then spec_raise (unat c) (arc_abs s) else spec_lower (arc_abs s))"
  have "\<exists>p. (if l = ARC_B1 then arc_raise_p s else arc_lower_p s) = Inr p \<and> unat p = p'"
    using l dr(2) arc_raise_ok [OF ok] arc_lower_ok [OF ok] by (auto simp: p'_def)
  then obtain p where p: "(if l = ARC_B1 then arc_raise_p s else arc_lower_p s) = Inr p" "unat p = p'" by blast
  have pc: "unat p \<le> unat c" using D(7) unfolding p(2) p'_def spec_raise_def spec_lower_def arc_ap by auto
  define v where "v = spec_victim (l = ARC_B2) p' (arc_abs s)"
  have v: "v = ARC_T1 \<or> v = ARC_T2" unfolding v_def by (rule spec_victim_cases)
  obtain a where a: "a = (arc_transaction_init s ob)\<lparr>at_current_loc := l, at_p := p, at_cache_evict := v,
      at_evict_T1_to_B1 := (v = ARC_T1), at_dest := ARC_T2\<rparr>" by blast
  have set: "arc_transaction_set s (arc_transaction_init s ob) = Inr a"
  proof -
    let ?a = "(arc_transaction_init s ob)\<lparr>at_current_loc := l, at_p := p\<rparr>"
    have "arc_replace s ?a = ?a\<lparr>at_cache_evict := v, at_evict_T1_to_B1 := (v = ARC_T1)\<rparr>"
      by (rule arc_replace_eq [OF ok]) (simp_all add: v_def p(2))
    then show ?thesis using arc_set_Some [OF e(1) refl] ic p(1) by (simp add: a l_def)
  qed
  have f: "at_oblock a = ob" "at_cache_evict a = v" "at_meta_evict a = ARC_NULL" "at_dest a = ARC_T2"
    "at_current_loc a = l" "at_p a = p" "at_evict_T1_to_B1 a \<longleftrightarrow> v = ARC_T1" by (simp_all add: a arc_transaction_init_def)
  obtain s1 where s1: "s1 = upd_stats inc_misses (s\<lparr>arc_p := p\<rparr>)" by blast
  have b1: "arc_base c m s1" using D pc by (simp add: s1 arc_base_def cn_ok_def)
  have a1: "arc_abs s1 = (arc_abs s)\<lparr>ap := p'\<rparr>" by (simp add: arc_abs_def s1 p(2))
  have m1: "e \<in> set (ht s1)" "e_oblock (store s1 e) = ob" using mem by (simp_all add: s1)
  from arc_remove_entry_ok [OF b1 m1, of s1 "arc_q s1"] obtain s2 where
    s2: "arc_remove_entry e s1 = Inr s2" "arc_base c m s2" "arc_abs s2 = spec_drop ob (arc_abs s1)"
    "cview (ht s2) (store s2) = (cview (ht s1) (store s1))(ob := None)"
    "\<forall>ob'. ht_lookup ob' s2 = (if ob' = ob then None else ht_lookup ob' s1)"
    "pool_geo (cache_pool s2) = pool_geo (cache_pool s1)" by auto
  have none: "cview (ht s) (store s) ob = None" using e by (simp add: cview_def ht_lookup_def)
  have a2: "arc_abs s2 = (spec_drop ob (arc_abs s))\<lparr>ap := p'\<rparr>" by (simp add: s2(3) a1 spec_drop_def)
  have q2: "aq (arc_abs s2) v = aq (arc_abs s) v"
    using nin [of v] v l by (auto simp: a2 spec_drop_def remove1_idem)
  have len2: "alen (arc_abs s2) k = (if k = l then alen (arc_abs s) l - 1 else alen (arc_abs s) k)" for k
    unfolding a2 alen_p by (rule dr(1))
  show ?thesis
  proof (cases "aq (arc_abs s) v = []")
    case True
    have ill: "\<not> arc_transaction_is_legal s a" using arc_legal [OF O(1), of a] f(2) v True by simp
    have "spec_arc (unat c) ob (arc_abs s) = (CACHE_NUCLEUS_FAIL, None, arc_abs s)"
      using inq nin nw l True by (auto simp: spec_arc_def spec_swap_def Let_def v_def p'_def)
    then show ?thesis using set none ok ill
      by (simp add: arc_serves_def arc_map_api_def arc_next_victim_api_def evicted_def write_effect_def resides_def)
  next
    case False
    have vlen: "1 \<le> alen (arc_abs s) v" using False by (cases "aq (arc_abs s) v") (simp_all add: alen_def)
    have "alen (arc_abs s2) ARC_B1 + alen (arc_abs s2) ARC_B2 < unat m"
      by (rule arc_room_after [OF O(2) dr(2) l len2 v vlen])
    then have room: "\<not> meta_is_full s2" using arc_full(3) [OF s2(2)] by simp
    have w2: "aw (arc_abs s2) k = aw (arc_abs s) k" for k using nw [of k] by (simp add: a2 spec_drop_def)
    have fin: "finite (aw (spec_leave v True (arc_abs s2)) ARC_T2)" "ob \<notin> aw (spec_leave v True (arc_abs s2)) ARC_T2"
      using arc_disjoint(4) [OF O(1)] nw by (simp_all add: w2)
    have len3: "alen (spec_admit ARC_T2 ob (spec_leave v True (arc_abs s2))) k =
        (if k = v then alen (arc_abs s2) v - 1 else alen (arc_abs s2) k) + (if k = ghost_of v then 1 else 0) +
        (if k = ARC_T2 then 1 else 0)" for k
      using False q2 by (simp add: alen_admit [OF fin] spec_leave_len)
    have sizes: "arc_sizes (unat c) (unat m) (spec_admit ARC_T2 ob (spec_leave v True (arc_abs s2)))"
      using O(2) v l dr(2) vlen unfolding arc_sizes_def len3 len2 ghost_of_def by auto
    have spec: "spec_arc (unat c) ob (arc_abs s) = spec_swap v True ob ARC_T2 (arc_abs s2) (arc_abs s)"
      using inq nin nw l by (auto simp: spec_arc_def Let_def v_def p'_def a2)
    show ?thesis
    proof (rule arc_serve_swap [where hist = True and t = s2, OF ok set f(1,2,4) v])
      show "rbind (if ht_lookup ob s \<noteq> None
        then rbind (deref (ht_lookup ob s)) (\<lambda>e. arc_remove_entry e (upd_stats inc_misses (s\<lparr>arc_p := at_p a\<rparr>)))
        else Inr (upd_stats inc_misses (s\<lparr>arc_p := at_p a\<rparr>))) (\<lambda>s.
        if at_meta_evict a \<noteq> ARC_NULL then rbind (arc_evict (at_meta_evict a) None s) (\<lambda>(_, s). Inr s) else Inr s) = Inr s2"
        using s2(1) by (simp add: e(1) deref_def f(3,6) s1)
      show "cview (ht s2) (store s2) = cview (ht s) (store s)"
        using s2(4) none by (simp add: s1 fun_upd_idem)
      show "pool_geo (cache_pool s2) = pool_geo (cache_pool s)" using s2(6) by (simp add: s1)
    qed (use f(5,7) l v none s2(2,5) q2 room sizes spec in auto)
  qed
qed

text \<open>A block that is nowhere.\<close>

lemma arc_set_None:
  assumes ok: "arc_ok c m s" and new: "ht_lookup ob s = None"
    and l1: "l1 = alen (arc_abs s) ARC_T1 + alen (arc_abs s) ARC_B1"
    and l2: "l2 = alen (arc_abs s) ARC_T2 + alen (arc_abs s) ARC_B2"
    and i: "i = arc_transaction_init s ob"
  shows "arc_transaction_set s i = Inr ((
    if l1 = unat c then
      if alen (arc_abs s) ARC_T1 < unat c then arc_replace s (i\<lparr>at_meta_evict := ARC_B1\<rparr>)
      else i\<lparr>at_cache_evict := ARC_T1\<rparr>
    else if l1 < unat c \<and> unat c \<le> l1 + l2 then
      arc_replace s (if l1 + l2 = 2 * unat c then i\<lparr>at_meta_evict := ARC_B2\<rparr> else i)
    else i)\<lparr>at_dest := ARC_T1\<rparr>)"
proof -
  note L = arc_lens [OF ok] and D = arc_baseD [OF arc_okD(1) [OF ok]]
  let ?n = "arc_length s"
  have c2: "unat (2 * c) = 2 * unat c"
  proof -
    have "unat (2 :: u32) * unat c < 4294967296" using D(4) by simp
    then have "unat (2 :: u32) * unat c < 2 ^ LENGTH(32)" by simp
    from unat_mult_small [OF this] show ?thesis by simp
  qed
  have "?n ARC_T1 + ?n ARC_B1 = c \<longleftrightarrow> l1 = unat c" "?n ARC_T1 + ?n ARC_B1 < c \<longleftrightarrow> l1 < unat c"
    unfolding word_unat_eq_iff [of "?n ARC_T1 + ?n ARC_B1"] word_less_nat_alt L(2) l1 by simp_all
  moreover have "?n ARC_T1 + ?n ARC_B1 + (?n ARC_T2 + ?n ARC_B2) = 2 * c \<longleftrightarrow> l1 + l2 = 2 * unat c"
    "c \<le> ?n ARC_T1 + ?n ARC_B1 + (?n ARC_T2 + ?n ARC_B2) \<longleftrightarrow> unat c \<le> l1 + l2"
    unfolding word_unat_eq_iff [of "?n ARC_T1 + ?n ARC_B1 + (?n ARC_T2 + ?n ARC_B2)"] word_le_nat_alt L(3) c2 l1 l2
    by (simp_all add: ac_simps)
  moreover have "?n ARC_T1 < c \<longleftrightarrow> alen (arc_abs s) ARC_T1 < unat c" by (simp add: word_less_nat_alt L(1))
  ultimately show ?thesis using new D(5) by (simp add: arc_transaction_set_def Let_def i)
qed

lemma arc_ghost_nonempty:
  assumes "arc_base c m s" "l = ARC_B1 \<or> l = ARC_B2" "0 < alen (arc_abs s) l"
  shows "aq (arc_abs s) l \<noteq> []"
  using assms(3) arc_no_ghost_way [OF assms(1,2)] by (simp add: alen_def)

lemma arc_serve_evict:
  assumes ok: "arc_ok c m s" and new: "ht_lookup ob s = None"
    and set: "arc_transaction_set s (arc_transaction_init s ob) = Inr a"
    and a: "at_oblock a = ob" "at_cache_evict a = v" "at_dest a = ARC_T1" "v = ARC_T1 \<or> v = ARC_T2"
      "hist \<longleftrightarrow> at_evict_T1_to_B1 a \<or> v = ARC_T2" "at_current_loc a = ARC_NULL" "at_p a = arc_p s" "at_meta_evict a = g"
    and g: "g = ARC_B1 \<or> g = ARC_B2 \<or> g = ARC_NULL" "g \<noteq> ARC_NULL \<Longrightarrow> aq (arc_abs s) g \<noteq> []"
    and b: "b = (if g = ARC_NULL then arc_abs s else spec_pop g (arc_abs s))"
    and room: "hist \<Longrightarrow> alen b ARC_B1 + alen b ARC_B2 < unat m"
    and sizes: "aq (arc_abs s) v \<noteq> [] \<Longrightarrow> arc_sizes (unat c) (unat m) (spec_admit ARC_T1 ob (spec_leave v hist b))"
    and spec: "spec_arc (unat c) ob (arc_abs s) = spec_swap v hist ob ARC_T1 b (arc_abs s)"
  shows "arc_serves c m ob w r0 s"
proof -
  note O = arc_okD [OF ok] and D = arc_baseD [OF arc_okD(1) [OF ok]]
  obtain s1 where s1: "s1 = upd_stats inc_misses (s\<lparr>arc_p := arc_p s\<rparr>)" by blast
  have b1: "arc_base c m s1" using D by (simp add: s1 arc_base_def cn_ok_def)
  have a1: "arc_abs s1 = arc_abs s" by (rule arc_abs_cong) (simp_all add: s1)
  have none: "cview (ht s) (store s) ob = None" using new by (simp add: cview_def ht_lookup_def)
  have new1: "ht_lookup ob s1 = None" using new by (simp add: ht_lookup_def s1)
  have "\<exists>t. (if g \<noteq> ARC_NULL then rbind (arc_evict g None s1) (\<lambda>(_, s). Inr s) else Inr s1) = Inr t \<and>
      arc_base c m t \<and> arc_abs t = b \<and> cview (ht t) (store t) = cview (ht s) (store s) \<and> ht_lookup ob t = None \<and>
      pool_geo (cache_pool t) = pool_geo (cache_pool s)"
  proof (cases "g = ARC_NULL")
    case True
    then show ?thesis using b1 a1 new1 b by (intro exI [of _ s1]) (simp, simp add: s1)
  next
    case False
    obtain old rest where q: "aq (arc_abs s1) g = old # rest" using g(2) [OF False] by (cases "aq (arc_abs s) g") (auto simp: a1)
    obtain e es where e: "arc_q s1 g = e # es" "e_oblock (store s1 e) = old" using arc_head [OF q] by blast
    from arc_evict_ok [OF b1 e(1), of None, unfolded q] obtain t where
      t: "arc_evict g None s1 = Inr (None, t)" "arc_base c m t" "arc_abs t = spec_pop g (arc_abs s1)"
      "cview (ht t) (store t) = (cview (ht s1) (store s1))(old := None)" "e \<in> set (ht s1)" "a_loc (store s1 e) = g"
      "\<forall>ob'. ht_lookup ob' t = (if ob' = old then None else ht_lookup ob' s1)"
      "pool_geo (cache_pool t) = pool_geo (cache_pool s1)" by auto
    have "fst e = MetaRegion" using arc_region(2) [OF b1 t(5)] t(6) g(1) False by auto
    then have "cview (ht s1) (store s1) old = None" using cview_entry [OF arc_keys [OF b1] t(5)] e(2) by simp
    then have "cview (ht t) (store t) = cview (ht s1) (store s1)" using t(4) by (simp add: fun_upd_idem)
    then show ?thesis using False t(1-3,7,8) new1 a1 b by (intro exI [of _ t]) (simp, simp add: s1)
  qed
  then obtain t where t: "(if g \<noteq> ARC_NULL then rbind (arc_evict g None s1) (\<lambda>(_, s). Inr s) else Inr s1) = Inr t"
    "arc_base c m t" "arc_abs t = b" "cview (ht t) (store t) = cview (ht s) (store s)" "ht_lookup ob t = None"
    "pool_geo (cache_pool t) = pool_geo (cache_pool s)" by blast
  have qv: "aq b v = aq (arc_abs s) v" using a(4) g(1) by (auto simp: b spec_pop_def)
  show ?thesis
  proof (rule arc_serve_swap [where hist = hist and t = t, OF ok set a(1,2,3,4)])
    show "rbind (if ht_lookup ob s \<noteq> None
        then rbind (deref (ht_lookup ob s)) (\<lambda>e. arc_remove_entry e (upd_stats inc_misses (s\<lparr>arc_p := at_p a\<rparr>)))
        else Inr (upd_stats inc_misses (s\<lparr>arc_p := at_p a\<rparr>))) (\<lambda>s.
        if at_meta_evict a \<noteq> ARC_NULL then rbind (arc_evict (at_meta_evict a) None s) (\<lambda>(_, s). Inr s) else Inr s) = Inr t"
      unfolding t(1) [symmetric] by (simp add: new a(7,8) s1)
    show "hist \<Longrightarrow> \<not> meta_is_full t" using room arc_full(3) [OF t(2)] by (simp add: t(3))
  qed (use a(5,6) none t(2,4,5,6) qv sizes spec in \<open>auto simp: t(3)\<close>)
qed

lemma arc_serve_new:
  assumes ok: "arc_ok c m s" and new: "ht_lookup ob s = None"
    and set: "arc_transaction_set s (arc_transaction_init s ob) = Inr ((arc_transaction_init s ob)\<lparr>at_dest := ARC_T1\<rparr>)"
    and room: "alen (arc_abs s) ARC_T1 + alen (arc_abs s) ARC_T2 < unat c"
    and sizes: "arc_sizes (unat c) (unat m) (spec_admit ARC_T1 ob (arc_abs s))"
    and spec: "spec_arc (unat c) ob (arc_abs s) = (CACHE_NUCLEUS_NEW, None, spec_admit ARC_T1 ob (arc_abs s))"
  shows "arc_serves c m ob w r0 s"
proof -
  note O = arc_okD [OF ok] and D = arc_baseD [OF arc_okD(1) [OF ok]]
  obtain a where a: "a = (arc_transaction_init s ob)\<lparr>at_dest := ARC_T1\<rparr>" by blast
  obtain s1 where s1: "s1 = upd_stats inc_misses (s\<lparr>arc_p := arc_p s\<rparr>)" by blast
  have b1: "arc_base c m s1" using D by (simp add: s1 arc_base_def cn_ok_def)
  have a1: "arc_abs s1 = arc_abs s" by (rule arc_abs_cong) (simp_all add: s1)
  have none: "cview (ht s) (store s) ob = None" using new by (simp add: cview_def ht_lookup_def)
  have new1: "ht_lookup ob s1 = None" using new by (simp add: ht_lookup_def s1)
  have nf: "\<not> cache_is_full s1" using arc_full(1) [OF b1] room by (simp add: a1)
  from arc_admit_ok [OF b1 nf new1, of ARC_T1 "r0\<lparr>r_op := CACHE_NUCLEUS_NEW\<rparr>"] obtain e cb s' where
    s': "arc_admit ARC_T1 ob (r0\<lparr>r_op := CACHE_NUCLEUS_NEW\<rparr>) s1 = Inr (r0\<lparr>r_op := CACHE_NUCLEUS_NEW, r_cblock := cb\<rparr>, s')"
    "arc_base c m s'" "arc_abs s' = spec_admit ARC_T1 ob (arc_abs s)"
    "cview (ht s') (store s') = (cview (ht s1) (store s1))(ob \<mapsto> (e, True, False))" "e \<notin> set (ht s1)"
    "pool_geo (cache_pool s') = pool_geo (cache_pool s1)" "epool_at (cache_pool s1) cb = Some e" unfolding a1 by blast
  have com: "arc_transaction_commit a r0 s = Inr (r0\<lparr>r_op := CACHE_NUCLEUS_NEW, r_cblock := cb\<rparr>, s')"
    using s'(1) new by (simp add: arc_transaction_commit_def Let_def a arc_make_room_def s1)
  have leg: "arc_transaction_is_legal s a" by (simp add: arc_transaction_is_legal_def a)
  show ?thesis
  proof (rule arc_finish [OF set [folded a] leg com s'(2)])
    show "arc_sizes (unat c) (unat m) (arc_abs s')" using sizes by (simp add: s'(3))
    have f1: "ht s1 = ht s" "store s1 = store s" by (simp_all add: s1)
    show "write_effect ob w (r0\<lparr>r_op := CACHE_NUCLEUS_NEW, r_cblock := cb\<rparr>) (cview (ht s) (store s))
        (marked ob w (cview (ht s') (store s')))"
      by (rule write_effect_new [OF _ none s'(5,4) [unfolded f1]]) simp
    show "resides ob (r0\<lparr>r_op := CACHE_NUCLEUS_NEW, r_cblock := cb\<rparr>) s'"
      by (rule residesI [of s' ob e _ "cache_pool s1"]) (simp_all add: s'(4,6,7))
  qed (simp_all add: spec evicted_def s'(3))
qed

lemma arc_absent:
  assumes "arc_base c m s" "ht_lookup ob s = None"
  shows "ob \<notin> set (aq (arc_abs s) l)" "ob \<notin> aw (arc_abs s) l"
  using assms by (simp_all add: arc_lookup [OF assms(1)])

text \<open>The three ways to make room for a new block: the case of a full T1 with ghosts, without, and of the rest.\<close>

lemma arc_serve_miss:
  assumes ok: "arc_ok c m s" and new: "ht_lookup ob s = None"
  shows "arc_serves c m ob w r0 s"
proof -
  let ?a = "arc_abs s" and ?i = "arc_transaction_init s ob"
  note O = arc_okD [OF ok] and D = arc_baseD [OF arc_okD(1) [OF ok]] and N = arc_absent [OF arc_okD(1) [OF ok] new]
  define l1 where "l1 = alen ?a ARC_T1 + alen ?a ARC_B1"
  define l2 where "l2 = alen ?a ARC_T2 + alen ?a ARC_B2"
  note set = arc_set_None [OF ok new l1_def l2_def refl]
  define v where "v = spec_victim False (ap ?a) ?a"
  have v: "v = ARC_T1 \<or> v = ARC_T2" unfolding v_def by (rule spec_victim_cases)
  have rep: "arc_replace s (?i\<lparr>at_meta_evict := g\<rparr>) = ?i\<lparr>at_meta_evict := g, at_cache_evict := v, at_evict_T1_to_B1 := (v = ARC_T1)\<rparr>" for g
    by (rule arc_replace_eq [OF ok, THEN trans]) (simp_all add: v_def arc_ap)
  have rep0: "arc_replace s ?i = ?i\<lparr>at_cache_evict := v, at_evict_T1_to_B1 := (v = ARC_T1)\<rparr>"
    by (rule arc_replace_eq [OF ok]) (simp_all add: v_def arc_ap)
  have tc: "alen ?a ARC_T1 + alen ?a ARC_T2 \<le> unat c" "2 \<le> unat c"
    using arc_full(2) [OF O(1)] D(3) by (simp_all add: word_le_nat_alt)
  have Z: "l1 \<le> unat c" "l1 + l2 \<le> 2 * unat c" "2 * unat c \<le> unat m \<or>
      unat c \<le> unat m \<and> (alen ?a ARC_T1 + alen ?a ARC_T2 = unat c \<or> alen ?a ARC_B1 + alen ?a ARC_B2 = 0)"
    using O(2) by (auto simp: arc_sizes_def l1_def l2_def)
  have spec: "spec_arc (unat c) ob ?a =
    (if l1 = unat c then
       if alen ?a ARC_T1 < unat c then spec_swap v True ob ARC_T1 (spec_pop ARC_B1 ?a) ?a
       else spec_swap ARC_T1 False ob ARC_T1 ?a ?a
     else if l1 < unat c \<and> unat c \<le> l1 + l2 then
       spec_swap v True ob ARC_T1 (if l1 + l2 = 2 * unat c then spec_pop ARC_B2 ?a else ?a) ?a
     else (CACHE_NUCLEUS_NEW, None, spec_admit ARC_T1 ob ?a))"
    using N by (simp add: spec_arc_def Let_def l1_def l2_def v_def)
  have fin: "finite (aw ?a ARC_T1)" by (rule arc_disjoint(4) [OF O(1)])
  have pos: "1 \<le> alen ?a v" if "aq ?a v \<noteq> []" using that by (cases "aq ?a v") (simp_all add: alen_def)
  have len: "alen (spec_admit ARC_T1 ob (spec_leave u hist b)) k =
      (if k = u then alen b u - 1 else alen b k) + (if hist \<and> k = ghost_of u then 1 else 0) + (if k = ARC_T1 then 1 else 0)"
    if "aw b = aw ?a" "aq b u \<noteq> []" for b u hist k
    using fin N(2) that(1) by (simp add: alen_admit spec_leave_len [OF that(2)])
  have popw: "aw (spec_pop g ?a) = aw ?a" for g by (simp add: spec_pop_def)
  have popq: "aq (spec_pop g ?a) u = aq ?a u" if "g \<noteq> u" for g u using that by (simp add: spec_pop_def)
  consider (ghosts) "l1 = unat c" "alen ?a ARC_T1 < unat c" | (full) "l1 = unat c" "alen ?a ARC_T1 = unat c"
    | (max) "l1 < unat c" "l1 + l2 = 2 * unat c" | (some) "l1 < unat c" "unat c \<le> l1 + l2" "l1 + l2 < 2 * unat c"
    | (room) "l1 < unat c" "l1 + l2 < unat c"
    using Z(1,2) l1_def by linarith
  then show ?thesis
  proof cases
    case ghosts
    have B: "0 < alen ?a ARC_B1" using ghosts l1_def by linarith
    note ne = arc_ghost_nonempty [OF O(1) disjI1 [OF refl] B]
    have lb: "alen (spec_pop ARC_B1 ?a) k = (if k = ARC_B1 then alen ?a ARC_B1 - 1 else alen ?a k)" for k
      by (rule alen_pop [OF ne])
    show ?thesis
    proof (rule arc_serve_evict [where g = ARC_B1 and v = v and hist = True, OF ok new])
      show "arc_transaction_set s ?i = Inr (?i\<lparr>at_meta_evict := ARC_B1, at_cache_evict := v,
          at_evict_T1_to_B1 := (v = ARC_T1), at_dest := ARC_T1\<rparr>)" using set ghosts by (simp add: rep)
      show "alen (spec_pop ARC_B1 ?a) ARC_B1 + alen (spec_pop ARC_B1 ?a) ARC_B2 < unat m"
        unfolding lb using B Z tc by (auto simp: l1_def l2_def)
      show "arc_sizes (unat c) (unat m) (spec_admit ARC_T1 ob (spec_leave v True (spec_pop ARC_B1 ?a)))" if q: "aq ?a v \<noteq> []"
      proof -
        have "aq (spec_pop ARC_B1 ?a) v \<noteq> []" using q popq [of ARC_B1 v] v by auto
        note L = len [OF popw this, of True]
        show ?thesis unfolding arc_sizes_def L lb using v pos [OF q] B Z tc ghosts by (auto simp: ghost_of_def l1_def l2_def)
      qed
    qed (use v ne spec ghosts in auto)
  next
    case full
    show ?thesis
    proof (rule arc_serve_evict [where g = ARC_NULL and v = ARC_T1 and hist = False, OF ok new])
      show "arc_transaction_set s ?i = Inr (?i\<lparr>at_cache_evict := ARC_T1, at_dest := ARC_T1\<rparr>)" using set full by simp
      show "arc_sizes (unat c) (unat m) (spec_admit ARC_T1 ob (spec_leave ARC_T1 False ?a))" if q: "aq ?a ARC_T1 \<noteq> []"
        unfolding arc_sizes_def len [OF refl q, of False] using full Z tc by (auto simp: l1_def l2_def)
    qed (use spec full in auto)
  next
    case max
    have B: "0 < alen ?a ARC_B2" using max tc l2_def by linarith
    note ne = arc_ghost_nonempty [OF O(1) disjI2 [OF refl] B]
    have lb: "alen (spec_pop ARC_B2 ?a) k = (if k = ARC_B2 then alen ?a ARC_B2 - 1 else alen ?a k)" for k
      by (rule alen_pop [OF ne])
    show ?thesis
    proof (rule arc_serve_evict [where g = ARC_B2 and v = v and hist = True, OF ok new])
      show "arc_transaction_set s ?i = Inr (?i\<lparr>at_meta_evict := ARC_B2, at_cache_evict := v,
          at_evict_T1_to_B1 := (v = ARC_T1), at_dest := ARC_T1\<rparr>)" using set max by (simp add: rep)
      show "alen (spec_pop ARC_B2 ?a) ARC_B1 + alen (spec_pop ARC_B2 ?a) ARC_B2 < unat m"
        unfolding lb using B Z tc by (auto simp: l1_def l2_def)
      show "arc_sizes (unat c) (unat m) (spec_admit ARC_T1 ob (spec_leave v True (spec_pop ARC_B2 ?a)))" if q: "aq ?a v \<noteq> []"
      proof -
        have "aq (spec_pop ARC_B2 ?a) v \<noteq> []" using q popq [of ARC_B2 v] v by auto
        note L = len [OF popw this, of True]
        show ?thesis unfolding arc_sizes_def L lb using v pos [OF q] B Z tc max by (auto simp: ghost_of_def l1_def l2_def)
      qed
    qed (use v ne spec max in auto)
  next
    case some
    show ?thesis
    proof (rule arc_serve_evict [where g = ARC_NULL and v = v and hist = True, OF ok new])
      show "arc_transaction_set s ?i = Inr (?i\<lparr>at_cache_evict := v, at_evict_T1_to_B1 := (v = ARC_T1), at_dest := ARC_T1\<rparr>)"
        using set some by (simp add: rep0)
      show "alen ?a ARC_B1 + alen ?a ARC_B2 < unat m" using some Z tc by (auto simp: l1_def l2_def)
      show "arc_sizes (unat c) (unat m) (spec_admit ARC_T1 ob (spec_leave v True ?a))" if q: "aq ?a v \<noteq> []"
        unfolding arc_sizes_def len [OF refl q, of True] using v pos [OF q] some Z tc by (auto simp: ghost_of_def l1_def l2_def)
    qed (use v spec some in auto)
  next
    case room
    show ?thesis
    proof (rule arc_serve_new [OF ok new])
      show "arc_transaction_set s ?i = Inr (?i\<lparr>at_dest := ARC_T1\<rparr>)" using set room by simp
      show "alen ?a ARC_T1 + alen ?a ARC_T2 < unat c" using room by (simp add: l1_def l2_def)
      show "arc_sizes (unat c) (unat m) (spec_admit ARC_T1 ob ?a)"
        unfolding arc_sizes_def alen_admit [OF fin N(2)] using room Z tc by (auto simp: l1_def l2_def)
      show "spec_arc (unat c) ob ?a = (CACHE_NUCLEUS_NEW, None, spec_admit ARC_T1 ob ?a)" using spec room by simp
    qed
  qed
qed

lemma arc_access:
  assumes "arc_ok c m s"
  shows "arc_serves c m ob w r0 s"
proof (cases "ht_lookup ob s")
  case None
  then show ?thesis by (rule arc_serve_miss [OF assms])
next
  case (Some e)
  then show ?thesis using arc_serve_hit [OF assms Some] arc_serve_ghost [OF assms Some] by (cases "fst e") auto
qed

end
