(* ===== verification/Arc_Props.thy ===== *)
theory Arc_Props
  imports Arc_Spec Systems
begin

text \<open>
  ARC keeps the contract of a policy, and its properties: the bounds of its lists in every state
  that loads and then any other calls can reach, the abstract cache an access refines, its runs under the simulator, and what
  removals do to it.
\<close>

section \<open>The other functions\<close>

lemma arc_cview_entry:
  assumes ok: "arc_base c m s" and v: "cview (ht s) (store s) ob = Some (e, mig, d)"
  shows "ht_lookup ob s = Some e" "e \<in> cached (ht s)" "e \<in> set (ht s)" "e_oblock (store s e) = ob"
    "mig = e_migrating (store s e)" "d = e_dirty (store s e)"
  using v view_key [OF v] by (auto simp: cview_def ht_lookup_def cached_def split: option.splits if_splits)

text \<open>The end of a migration: the block goes to the end of its list.\<close>

lemma arc_migrated_ok:
  assumes ok: "arc_ok c m s" and v: "cview (ht s) (store s) ob = Some (e, True, d)"
  shows "\<exists>l s'. arc_migrated_api ob s = Inr s' \<and> arc_ok c m s' \<and> (l = ARC_T1 \<or> l = ARC_T2) \<and> ob \<in> aw (arc_abs s) l \<and>
    arc_abs s' = spec_add l ob (spec_drop ob (arc_abs s)) \<and>
    cview (ht s') (store s') = (cview (ht s) (store s))(ob \<mapsto> (e, False, d))"
proof -
  note O = arc_okD [OF ok]
  note D = arc_baseD [OF O(1)] and E = arc_cview_entry [OF O(1) v] and dk = arc_keys [OF O(1)]
  have mig: "e_migrating (store s e)" using E(5) by simp
  have ec: "fst e = CacheRegion" using E(2) by (simp add: cached_def)
  define l where "l = a_loc (store s e)"
  have l: "l = ARC_T1 \<or> l = ARC_T2" using arc_region(1) [OF O(1) E(3)] ec by (simp add: l_def)
  then have ln: "l \<noteq> ARC_NULL" by auto
  from cn_migrated_entry_ok [OF D(1) E(2) mig] obtain cp s1 where
    1: "s1 = s\<lparr>store := (store s)(e := (store s e)\<lparr>e_migrating := False\<rparr>), cache_pool := cp\<rparr>"
    "cn_migrated_entry e s = Inr s1" "cn_ok s1" "pool_geo cp = pool_geo (cache_pool s)" by blast
  define x where "x = (store s e)\<lparr>e_migrating := False\<rparr>"
  have x: "\<not> e_migrating x" "e_oblock x = ob" "e_dirty x = d" "a_loc x = l" using E(4,6) by (simp_all add: x_def l_def)
  have nq: "e \<notin> set (arc_q s k)" for k using arc_listsD(2) [OF D(8)] mig by auto
  then have nq1: "e \<notin> set (arc_q s1 k)" for k by (simp add: 1(1))
  obtain s' where s': "s' = upd_stats inc_promotions (s1\<lparr>arc_q := (arc_q s)(l := arc_q s l @ [e])\<rparr>)" by blast
  have f: "store s' = (store s)(e := x)" "ht s' = ht s" "arc_q s' = (arc_q s)(l := arc_q s l @ [e])"
    "arc_length s' = arc_length s" "cache_pool s' = cp" "meta_pool s' = meta_pool s" "cache_size s' = cache_size s"
    "arc_p s' = arc_p s" by (simp_all add: s' 1(1) x_def)
  have l1: "a_loc (store s1 e) = l" by (simp add: 1(1) l_def)
  have run: "arc_migrated_api ob s = Inr s'"
    using E(1) mig ln by (simp add: arc_migrated_api_def log_assert_def deref_def 1(2) l1 arc_enqueue_eq [OF ln nq1] s')
      (simp add: 1(1))
  have cn: "cn_ok s'" using 1(3) by (simp add: s' cn_ok_def)
  let ?t = "remove1 e (ht s)"
  have dh: "distinct (ht s)" by (rule cn_facts(1) [OF D(1)])
  have nt: "e \<notin> set ?t" and st: "set (e # ?t) = set (ht s)" using E(3) dh by auto
  have home: "arc_home l = Some (fst e)" using l ec by auto
  have nr: "(\<lambda>k. remove1 e (arc_q s k)) = arc_q s" using nq by (simp add: remove1_idem fun_eq_iff)
  have removed: "arc_lists (arc_q s) ((arc_length s)(l := arc_length s l - 1)) ?t ((store s)(e := x))"
    using arc_lists_remove [OF D(8) E(3) dh l_def [symmetric], of x] unfolding nr .
  have "arc_lists (arc_q s') (arc_length s') (e # ?t) (store s')"
    using arc_lists_add [OF removed nt x(4) home x(1)] by (simp add: f del: fun_upd_apply)
      (simp only: fun_upd_upd fun_upd_same diff_add_cancel fun_upd_triv)
  then have lists: "arc_lists (arc_q s') (arc_length s') (ht s') (store s')" unfolding f(2) using arc_lists_set [OF st] by blast
  have base: "arc_base c m s'"
    by (rule arc_base_cong [OF O(1) cn]) (simp_all only: f 1(4) D(7) lists [unfolded f])
  have kr: "keyq ((store s)(e := x)) (arc_q s) = (\<lambda>k. remove1 ob (keyq (store s) (arc_q s) k))"
    "keyw ?t ((store s)(e := x)) = (\<lambda>k. keyw (ht s) (store s) k - {ob})"
    using keyq_remove [OF D(8) E(3) dk E(4), of x] keyw_remove [OF E(3) dk E(4), of x] unfolding nr by simp_all
  have "keyw (ht s) ((store s)(e := x)) = keyw (e # ?t) ((store s)(e := x))"
    by (simp add: keyw_def fun_eq_iff at_loc_cong [OF st, symmetric])
  also have "\<dots> = keyw ?t ((store s)(e := x))" using keyw_add [OF nt x(1), of "(store s)(e := x)"] by simp
  finally have kw: "keyw (ht s) ((store s)(e := x)) = keyw ?t ((store s)(e := x))" .
  have kq: "keyq ((store s)(e := x)) ((arc_q s)(l := arc_q s l @ [e])) =
      (keyq ((store s)(e := x)) (arc_q s))(l := keyq ((store s)(e := x)) (arc_q s) l @ [ob])"
    using keyq_add(1) [OF removed nt x(2), of l] by simp
  have abs: "arc_abs s' = spec_add l ob (spec_drop ob (arc_abs s))"
    by (simp add: arc_abs_def spec_add_def spec_drop_def f(1-3,8) kq kw kr del: fun_upd_apply)
  have at: "ob \<in> aw (arc_abs s) l" using arc_lookup(2) [OF O(1), of ob l] E(1) mig by (auto simp: l_def)
  have "alen (arc_abs s') k = alen (arc_abs s) k" for k
    using alen_drop [OF O(1) disjI2 [OF at]] by (simp add: abs alen_add)
  then have "arc_ok c m s'" using base O(2) by (simp add: arc_ok_def arc_sizes_def)
  moreover have "cview (ht s') (store s') = (cview (ht s) (store s))(ob \<mapsto> (e, False, d))"
    using cview_upd [OF dk E(3), of x] ec E(4) x by (simp add: f(1,2))
  ultimately show ?thesis using run abs at l by blast
qed

text \<open>
  A removal, with metadata that can hold the ghosts of an emptier cache. A block that is to be remembered
  becomes the most recent ghost of its list; a ghost is forgotten.
\<close>

definition spec_forget :: "bool \<Rightarrow> oblock \<Rightarrow> arc_spec \<Rightarrow> arc_spec" where
  "spec_forget h ob a =
     (if h \<and> ob \<in> set (aq a ARC_T1) \<union> aw a ARC_T1 then spec_add ARC_B1 ob (spec_drop ob a)
      else if h \<and> ob \<in> set (aq a ARC_T2) \<union> aw a ARC_T2 then spec_add ARC_B2 ob (spec_drop ob a)
      else spec_drop ob a)"

lemma arc_forget_ok:
  assumes ok: "arc_ok c m s" and big: "2 * unat c \<le> unat m" and e: "ht_lookup ob s = Some e"
  shows "\<exists>s'. arc_remove_api ob h s = Inr s' \<and> arc_ok c m s' \<and> arc_abs s' = spec_forget h ob (arc_abs s) \<and>
    cview (ht s') (store s') = (cview (ht s) (store s))(ob := None)"
proof -
  note O = arc_okD [OF ok]
  have mem: "e \<in> set (ht s)" "e_oblock (store s e) = ob" using lookup_Some [OF arc_baseD(1) [OF O(1)]] e by auto
  from arc_remove_entry_ok [OF O(1) mem, of s "arc_q s"] obtain s1 where
    s1: "arc_remove_entry e s = Inr s1" "arc_base c m s1" "arc_abs s1 = spec_drop ob (arc_abs s)"
    "cview (ht s1) (store s1) = (cview (ht s) (store s))(ob := None)" "ht_lookup ob s1 = None" by auto
  define l where "l = a_loc (store s e)"
  have at: "ob \<in> set (aq (arc_abs s) k) \<union> aw (arc_abs s) k \<longleftrightarrow> k = l" for k
    using arc_lookup [OF O(1), of ob k] e by (auto simp: l_def)
  then have "ob \<in> set (aq (arc_abs s) l) \<or> ob \<in> aw (arc_abs s) l" by blast
  note dl = alen_drop [OF O(1) this, folded s1(3)]
  have sz: "alen (arc_abs s) ARC_T1 + alen (arc_abs s) ARC_B1 \<le> unat c"
    "alen (arc_abs s) ARC_T1 + alen (arc_abs s) ARC_T2 + alen (arc_abs s) ARC_B1 + alen (arc_abs s) ARC_B2 \<le> 2 * unat c"
    using O(2) by (simp_all add: arc_sizes_def)
  have ec: "fst e = CacheRegion \<longleftrightarrow> l = ARC_T1 \<or> l = ARC_T2" using arc_region(1) [OF O(1) mem(1)] by (simp add: l_def)
  have ic: "in_cache s (Some e) \<longleftrightarrow> l = ARC_T1 \<or> l = ARC_T2"
    using cn_in_cache [OF arc_baseD(1) [OF O(1)] mem(1)] ec by simp
  show ?thesis
  proof (cases "h \<and> (l = ARC_T1 \<or> l = ARC_T2)")
    case False
    then have "arc_remove_api ob h s = Inr s1" using s1(1) e ic by (auto simp: arc_remove_api_def deref_def Let_def)
    moreover have "arc_abs s1 = spec_forget h ob (arc_abs s)" unfolding spec_forget_def at using s1(3) False by auto
    moreover have "alen (arc_abs s1) k \<le> alen (arc_abs s) k" for k by (simp add: dl(1))
    from this [of ARC_T1] this [of ARC_T2] this [of ARC_B1] this [of ARC_B2]
    have "arc_ok c m s1" using s1(2) sz big by (auto simp: arc_ok_def arc_sizes_def)
    ultimately show ?thesis using s1(4) by blast
  next
    case True
    define b where "b = ghost_of l"
    have b: "b = ARC_B1 \<or> b = ARC_B2" by (simp add: b_def ghost_of_def)
    have "alen (arc_abs s1) ARC_B1 + alen (arc_abs s1) ARC_B2 < unat m"
      using dl True sz big by auto
    then have nf: "\<not> meta_is_full s1" using arc_full(3) [OF s1(2)] by simp
    from arc_to_ghost_ok [OF s1(2) nf s1(5) b] obtain p s2 where
      s2: "arc_to_ghost ob b s1 = Inr s2" "arc_base c m s2" "arc_abs s2 = spec_add b ob (arc_abs s1)"
      "cview (ht s2) (store s2) = (cview (ht s1) (store s1))(ob := None)" by blast
    have d: "(if a_loc (store s e) = ARC_T1 then ARC_B1 else ARC_B2) = b" using True by (auto simp: b_def ghost_of_def l_def)
    have "arc_remove_api ob h s = Inr s2"
      using s1(1) e ic True nf s2(1) by (simp add: arc_remove_api_def deref_def Let_def d)
    moreover have "arc_abs s2 = spec_forget h ob (arc_abs s)"
      using True unfolding s2(3) s1(3) spec_forget_def at b_def ghost_of_def by auto
    moreover have "alen (arc_abs s2) k = (if k = b then Suc (alen (arc_abs s1) k) else alen (arc_abs s1) k)" for k
      unfolding s2(3) alen_add by simp
    then have "arc_ok c m s2" using s2(2) dl True sz big by (auto simp: arc_ok_def arc_sizes_def b_def ghost_of_def)
    ultimately show ?thesis using s1(4) s2(4) by auto
  qed
qed

lemma arc_remove_ok:
  assumes "arc_ok c m s" "2 * unat c \<le> unat m" "ht_lookup ob s = Some e"
  shows "\<exists>s'. arc_remove_api ob False s = Inr s' \<and> arc_ok c m s' \<and> arc_abs s' = spec_drop ob (arc_abs s) \<and>
    cview (ht s') (store s') = (cview (ht s) (store s))(ob := None)"
  using arc_forget_ok [OF assms, of False] by (simp add: spec_forget_def)

text \<open>A block gets another number.\<close>

lemma arc_remap_ok:
  assumes ok: "arc_ok c m s" and e: "ht_lookup ob s = Some e" and new: "ht_lookup nob s = None"
  shows "\<exists>s'. default_remap ob nob s = Inr s' \<and> arc_ok c m s' \<and> (\<forall>l. alen (arc_abs s') l = alen (arc_abs s) l)"
proof -
  note O = arc_okD [OF ok]
  note D = arc_baseD [OF O(1)]
  have mem: "e \<in> set (ht s)" "e_oblock (store s e) = ob" using e lookup_Some [OF D(1)] by blast+
  from default_remap_ok [OF D(1) mem(1) new] obtain s' where
    s': "s' = s\<lparr>store := (store s)(e := (store s e)\<lparr>e_oblock := nob\<rparr>), ht := e # remove1 e (ht s)\<rparr>"
    "default_remap ob nob s = Inr s'" "cn_ok s'" unfolding mem(2) by blast
  have f: "arc_q s' = arc_q s" "arc_length s' = arc_length s" "arc_p s' = arc_p s" "cache_size s' = cache_size s"
    "cache_pool s' = cache_pool s" "meta_pool s' = meta_pool s" using s'(1) by simp_all
  have same: "a_loc (store s' p) = a_loc (store s p)" "e_migrating (store s' p) = e_migrating (store s p)" for p
    by (simp_all add: s'(1))
  have set: "set (ht s') = set (ht s)" using mem(1) cn_facts(1) [OF D(1)] by (auto simp: s'(1))
  then have loc: "at_loc (ht s') (store s') l = at_loc (ht s) (store s) l" for l by (simp add: at_loc_def same)
  have "arc_lists (arc_q s') (arc_length s') (ht s') (store s')"
    using D(8) unfolding arc_lists_def loc set same f .
  then have b: "arc_base c m s'" by (intro arc_base_cong [OF O(1) s'(3)]) (simp_all add: f D(7))
  have "alen (arc_abs s') l = alen (arc_abs s) l" for l by (simp add: arc_alen(1) [OF b] arc_alen(1) [OF O(1)] loc)
  then show ?thesis using s'(2) b O(2) by (simp add: arc_ok_def arc_sizes_def)
qed

text \<open>A block is loaded into T1.\<close>

lemma arc_insert_api_ok:
  assumes ok: "arc_base c m s" and new: "ht_lookup ob s = None"
    and e: "epool_at (cache_pool s) cb = Some e" "e \<notin> set (ht s)"
  shows "\<exists>s'. arc_insert_api ob cb s = Inr s' \<and> arc_base c m s' \<and> arc_abs s' = spec_add ARC_T1 ob (arc_abs s)"
proof -
  note D = arc_baseD [OF ok]
  from insert_in_cache_at_ok [OF D(1) new e] obtain cp s1 where
    s1: "s1 = s\<lparr>store := (store s)(e := fresh_entry ob (store s e)), cache_pool := cp, ht := e # ht s\<rparr>"
    and run: "insert_in_cache_at ob cb None s = Inr (e, None, s1)" and cn: "cn_ok s1"
    and geo: "pool_geo cp = pool_geo (cache_pool s)" "fst e = CacheRegion" "\<not> e_migrating (store s e)" by blast
  have ln: "ARC_T1 \<noteq> ARC_NULL" by simp
  define x where "x = (fresh_entry ob (store s e))\<lparr>a_loc := ARC_T1\<rparr>"
  have x: "a_loc x = ARC_T1" "\<not> e_migrating x" "e_oblock x = ob" using geo(3) by (simp_all add: x_def)
  have ne: "e \<notin> set (arc_q s k)" for k using arc_qs_sub [OF D(8), of k] e(2) by auto
  have ne1: "e \<notin> set (arc_q s1 k)" for k using ne by (simp add: s1)
  obtain s' where s': "s' = s1\<lparr>store := (store s1)(e := (store s1 e)\<lparr>a_loc := ARC_T1\<rparr>),
      arc_length := (arc_length s)(ARC_T1 := arc_length s ARC_T1 + 1), arc_q := (arc_q s)(ARC_T1 := arc_q s ARC_T1 @ [e])\<rparr>"
    by blast
  have f: "store s' = (store s)(e := x)" "ht s' = e # ht s" "arc_q s' = (arc_q s)(ARC_T1 := arc_q s ARC_T1 @ [e])"
    "arc_length s' = (arc_length s)(ARC_T1 := arc_length s ARC_T1 + 1)" "cache_pool s' = cp" "meta_pool s' = meta_pool s"
    "cache_size s' = cache_size s" "arc_p s' = arc_p s" by (simp_all add: s' s1 x_def)
  have run': "arc_insert_api ob cb s = Inr s'"
    using run ne1 by (simp add: arc_insert_api_def arc_set_new_eq [OF ln] arc_enqueue_eq [OF ln] s') (simp add: s1)
  have cn': "cn_ok s'"
  proof -
    have "cn_ok (s1\<lparr>store := (store s1)(e := (store s1 e)\<lparr>a_loc := ARC_T1\<rparr>)\<rparr>)" by (rule cn_ok_upd [OF cn]) simp_all
    then show ?thesis by (simp add: cn_ok_def s')
  qed
  have home: "arc_home ARC_T1 = Some (fst e)" using geo(2) by simp
  have base: "arc_base c m s'"
    by (rule arc_base_cong [OF ok cn'])
      (simp_all add: f geo D(7) arc_lists_add [OF D(8) e(2) x(1) home x(2)] del: fun_upd_apply)
  have "arc_abs s' = spec_add ARC_T1 ob (arc_abs s)"
    using keyq_add(1) [OF D(8) e(2) x(3), of ARC_T1] keyw_add [OF e(2) x(2)]
    by (simp add: arc_abs_def spec_add_def f(1-3,8))
  then show ?thesis using base run' by blast
qed

lemma arc_set_time: "arc_ok c m s \<Longrightarrow> arc_ok c m (default_set_time t s)"
  by (simp add: arc_ok_def arc_base_def default_set_time_def) (simp add: arc_abs_def)

section \<open>The contract\<close>

interpretation arc: nucleus_access arc_map_api arc_remove_api arc_insert_api arc_migrated_api
  arc_next_victim_api "arc_ok c m" c for c m
proof
  fix s :: arc_policy and ob w r0 e d t
  assume ok: "arc_ok c m s"
  note O = arc_okD [OF ok]
  show "cn_ok s \<and> ep_nr_entries (cache_pool s) = c" using arc_baseD(1,2) [OF O(1)] by simp
  show "\<exists>r s'. arc_map_api ob w r0 s = Inr (0, r, s') \<and> arc_ok c m s' \<and>
      write_effect ob w r (cview (ht s) (store s)) (cview (ht s') (store s')) \<and> resides ob r s' \<and>
      (\<exists>op v. arc_next_victim_api ob s = Inr (op, v) \<and> (op = CACHE_NUCLEUS_FAIL \<longleftrightarrow> r_op r = CACHE_NUCLEUS_FAIL))"
    using arc_access [OF ok, of ob w r0] unfolding arc_serves_def by blast
  show "cview (ht s) (store s) ob = Some (e, True, d) \<Longrightarrow> \<exists>s'. arc_migrated_api ob s = Inr s' \<and> arc_ok c m s' \<and>
      cview (ht s') (store s') = (cview (ht s) (store s))(ob \<mapsto> (e, False, d))"
    using arc_migrated_ok [OF ok] by blast
  show "arc_ok c m (default_set_time t s)" by (rule arc_set_time [OF ok])
qed

interpretation arc_big: nucleus_policy arc_map_api arc_remove_api arc_insert_api arc_migrated_api
  arc_next_victim_api "\<lambda>s. arc_ok c m s \<and> 2 * unat c \<le> unat m" c for c m
proof
  fix s :: arc_policy and ob w r0 e d t
  assume ok: "arc_ok c m s \<and> 2 * unat c \<le> unat m"
  then have O: "arc_base c m s" by (simp add: arc_ok_def)
  show "cn_ok s \<and> ep_nr_entries (cache_pool s) = c" using arc_baseD(1,2) [OF O] by simp
  show "\<exists>r s'. arc_map_api ob w r0 s = Inr (0, r, s') \<and> (arc_ok c m s' \<and> 2 * unat c \<le> unat m) \<and>
      write_effect ob w r (cview (ht s) (store s)) (cview (ht s') (store s')) \<and> resides ob r s' \<and>
      (\<exists>op v. arc_next_victim_api ob s = Inr (op, v) \<and> (op = CACHE_NUCLEUS_FAIL \<longleftrightarrow> r_op r = CACHE_NUCLEUS_FAIL))"
    using arc_access [of c m s ob w r0] ok unfolding arc_serves_def by blast
  show "cview (ht s) (store s) ob = Some (e, True, d) \<Longrightarrow> \<exists>s'. arc_migrated_api ob s = Inr s' \<and>
      (arc_ok c m s' \<and> 2 * unat c \<le> unat m) \<and>
      cview (ht s') (store s') = (cview (ht s) (store s))(ob \<mapsto> (e, False, d))"
    using arc_migrated_ok [of c m s] ok by blast
  show "arc_ok c m (default_set_time t s) \<and> 2 * unat c \<le> unat m" using arc_set_time [of c m s t] ok by blast
  show "cview (ht s) (store s) ob \<noteq> None \<Longrightarrow> \<exists>s'. arc_remove_api ob False s = Inr s' \<and>
      (arc_ok c m s' \<and> 2 * unat c \<le> unat m) \<and> cview (ht s') (store s') = (cview (ht s) (store s))(ob := None)"
    using arc_remove_ok [of c m s ob] arc_cview_entry(1) [OF O, of ob] ok by (metis not_None_eq prod.exhaust)
qed

lemma arc_create_ok:
  assumes "2 \<le> c" "3 * unat c < 2 ^ 32" "unat c \<le> unat m"
  shows "\<exists>s. arc_create c m = Inr s \<and> arc_ok c m s \<and> ht s = [] \<and>
    arc_abs s = \<lparr>aq = (\<lambda>_. []), aw = (\<lambda>_. {}), ap = 0\<rparr>"
proof -
  let ?s0 = "zero_arc\<lparr>arc_q := (\<lambda>_. []), arc_length := (\<lambda>_. 0), arc_p := 0,
      cache_pool := epool_create CacheRegion c, meta_pool := epool_create MetaRegion m\<rparr>"
  obtain s' cp mp where s': "policy_init c m CACHE_NUCLEUS_SINGLE_THREAD ?s0 = Inr s'" "cn_ok s'" "ht s' = []"
    "s' = ?s0\<lparr>store := store s', cache_pool := cp, meta_pool := mp, stats := stats_init, ht := [],
           cache_size := c, meta_size := m, thread_support := CACHE_NUCLEUS_SINGLE_THREAD, cn_time := 0\<rparr>"
    "ep_nr_entries cp = c" "ep_nr_entries mp = m"
    using policy_init_ok [of ?s0 c m c m CACHE_NUCLEUS_SINGLE_THREAD] by (auto simp: zero_arc_def)
  have f: "arc_q s' = (\<lambda>_. [])" "arc_length s' = (\<lambda>_. 0)" "arc_p s' = 0" "cache_pool s' = cp" "meta_pool s' = mp"
    "cache_size s' = c"
    by (subst s'(4), simp add: zero_arc_def)+
  have abs: "arc_abs s' = \<lparr>aq = (\<lambda>_. []), aw = (\<lambda>_. {}), ap = 0\<rparr>"
    using s'(3) f by (simp add: arc_abs_def keyq_def keyw_def at_loc_def fun_eq_iff)
  have "arc_base c m s'" using s' f assms by (simp add: arc_base_def arc_lists_def at_loc_def)
  then have "arc_ok c m s'" using assms(3) by (simp add: arc_ok_def arc_sizes_def alen_def abs)
  then show ?thesis using s' abs by (simp add: arc_create_def arc_init_def)
qed

section \<open>Properties\<close>

lemma arc_access_policy: "access_policy arc_api (arc_ok c m) (unat c)"
  unfolding arc_api_def by (rule arc.keeps_contract)

lemma arc_big_cache_policy: "cache_policy arc_api (\<lambda>s. arc_ok c m s \<and> 2 * unat c \<le> unat m) (unat c)"
  using arc_big.keeps_write_contract [of c m] by (simp add: write_policy_def arc_api_def)

lemma arc_started:
  assumes "2 \<le> c" "3 * unat c < 2 ^ 32" "unat c \<le> unat m"
  shows "\<exists>s. arc_create c m = Inr s \<and> arc_ok c m s \<and> mview arc_api s = Map.empty \<and>
    arc_abs s = \<lparr>aq = (\<lambda>_. []), aw = (\<lambda>_. {}), ap = 0\<rparr>"
proof -
  obtain s where s: "arc_create c m = Inr s" "arc_ok c m s" "ht s = []"
    "arc_abs s = \<lparr>aq = (\<lambda>_. []), aw = (\<lambda>_. {}), ap = 0\<rparr>"
    using arc_create_ok [OF assms] by blast
  then show ?thesis using arc.starts_empty [OF s(2,3)] by (simp add: arc_api_def)
qed

text \<open>
  C18. An access to ARC refines the access of the abstract ARC cache: it never faults, and the operation it
  reports, the evicted block, the four lists in their order, the blocks on their way and the target for
  the size of T1 are those of \<open>spec_arc\<close>. A hit moves the block to the end of T2; a hit on a ghost moves
  the target by the ratio of the ghost lists, at least one, within the cache size; the victim is the
  least recently used block of T1 or T2 and becomes a ghost, except when T1 alone fills the cache.
\<close>
theorem arc_access_refines:
  assumes "arc_ok c m s"
  shows "\<exists>r s'. arc_map_api ob w r0 s = Inr (0, r, s') \<and> arc_ok c m s' \<and>
    spec_arc (unat c) ob (arc_abs s) = (r_op r, evicted r, arc_abs s')"
  using arc_access [OF assms, of ob w r0] unfolding arc_serves_def by blast

theorem arc_access_refines_witness:
  "\<exists>s r s'. arc_create 2 2 = Inr s \<and> arc_map_api 7 True zero_result s = Inr (0, r, s') \<and>
    r_op r = CACHE_NUCLEUS_NEW \<and> aw (arc_abs s') ARC_T1 = {7}"
proof -
  obtain s where s: "arc_create 2 2 = Inr s" "arc_ok 2 2 s"
    "arc_abs s = \<lparr>aq = (\<lambda>_. []), aw = (\<lambda>_. {}), ap = 0\<rparr>"
    using arc_started [of 2 2] by auto
  then obtain r s' where "arc_map_api 7 True zero_result s = Inr (0, r, s')" "CACHE_NUCLEUS_NEW = r_op r"
    "\<lparr>aq = \<lambda>_. [], aw = (\<lambda>_. {})(ARC_T1 := {7}), ap = 0\<rparr> = arc_abs s'"
    using arc_access_refines [OF s(2), of 7 True zero_result] by (auto simp: spec_arc_def alen_def spec_admit_def)
  then show ?thesis using s(1) by (metis arc_spec.select_convs(2) fun_upd_same)
qed

text \<open>
  The calls of a driver. While blocks are loaded they all are in T1 and there are no ghosts, so that T1 with its ghosts fits
  the cache whatever is loaded; later insertions would break that bound, on which the metadata relies.
\<close>

definition arc_loaded :: "u32 \<Rightarrow> u32 \<Rightarrow> arc_policy \<Rightarrow> bool" where
  "arc_loaded c m s \<longleftrightarrow> arc_ok c m s \<and> 2 * unat c \<le> unat m \<and>
     alen (arc_abs s) ARC_T2 = 0 \<and> alen (arc_abs s) ARC_B1 = 0 \<and> alen (arc_abs s) ARC_B2 = 0"

lemma arc_nucleus: "arc_ok c m s \<Longrightarrow> cn_ok s"
  by (rule arc_baseD(1)) (rule arc_okD(1))

lemma arc_known: "arc_ok c m s \<Longrightarrow> known arc_api ob s \<longleftrightarrow> ht_lookup ob s \<noteq> None"
  unfolding arc_api_def by (rule known_nucleus) (rule arc_nucleus)

lemma arc_place: "arc_ok c m s \<Longrightarrow> free_place arc_api cb s \<Longrightarrow>
  \<exists>e. epool_at (cache_pool s) cb = Some e \<and> e \<notin> set (ht s)"
  unfolding arc_api_def by (rule free_place_nucleus) (rule arc_nucleus)

lemma arc_calls: "policy_remove arc_api = arc_remove_api" "policy_insert arc_api = arc_insert_api"
  "policy_remap arc_api = default_remap"
  by (simp_all add: policy_calls arc_api_def nucleus_api_def fun_eq_iff)

lemma arc_forget:
  assumes ok: "arc_ok c m s" and big: "2 * unat c \<le> unat m" and k: "known arc_api ob s"
  shows "\<exists>s'. policy_remove arc_api ob h s = Inr s' \<and> arc_ok c m s' \<and> arc_abs s' = spec_forget h ob (arc_abs s)"
proof -
  obtain e where "ht_lookup ob s = Some e" using arc_known [OF ok, of ob] k by auto
  from arc_forget_ok [OF ok big this, of h] show ?thesis unfolding arc_calls by blast
qed

lemma arc_load:
  assumes ok: "arc_loaded c m s" and new: "\<not> known arc_api ob s" "free_place arc_api cb s"
  shows "\<exists>s'. policy_insert arc_api ob cb s = Inr s' \<and> arc_loaded c m s' \<and> arc_abs s' = spec_add ARC_T1 ob (arc_abs s)"
proof -
  have ok1: "arc_ok c m s" using ok by (simp add: arc_loaded_def)
  obtain e where e: "epool_at (cache_pool s) cb = Some e" "e \<notin> set (ht s)" using arc_place [OF ok1 new(2)] by blast
  have "ht_lookup ob s = None" using arc_known [OF ok1, of ob] new(1) by simp
  from arc_insert_api_ok [OF arc_okD(1) [OF ok1] this e] obtain s' where
    s': "arc_insert_api ob cb s = Inr s'" "arc_base c m s'" "arc_abs s' = spec_add ARC_T1 ob (arc_abs s)" by blast
  have "alen (arc_abs s') k = (if k = ARC_T1 then Suc (alen (arc_abs s) ARC_T1) else alen (arc_abs s) k)" for k
    unfolding s'(3) by (rule alen_add)
  then have "arc_loaded c m s'"
    using ok s'(2) arc_full(2) [OF s'(2)] by (simp add: arc_loaded_def arc_ok_def arc_sizes_def)
  then show ?thesis using s'(1,3) unfolding arc_calls by blast
qed

interpretation arc_managed: managed_policy arc_api "\<lambda>s. arc_ok c m s \<and> 2 * unat c \<le> unat m" "unat c" for c m
proof (intro managed_policy.intro arc_big_cache_policy managed_policy_axioms.intro)
  fix s ob h nob
  assume i: "arc_ok c m s \<and> 2 * unat c \<le> unat m"
  then have ok: "arc_ok c m s" and big: "2 * unat c \<le> unat m" by simp_all
  show "succeeds (policy_remove arc_api ob h s) (\<lambda>s. arc_ok c m s \<and> 2 * unat c \<le> unat m)" if k: "known arc_api ob s"
    using arc_forget [OF ok big k, of h] big unfolding succeeds_iff_Inr by blast
  show "succeeds (policy_remap arc_api ob nob s) (\<lambda>s. arc_ok c m s \<and> 2 * unat c \<le> unat m)"
    if k: "known arc_api ob s" "\<not> known arc_api nob s"
  proof -
    obtain e where e: "ht_lookup ob s = Some e" using arc_known [OF ok, of ob] k(1) by auto
    have "ht_lookup nob s = None" using arc_known [OF ok, of nob] k(2) by simp
    from arc_remap_ok [OF ok e this] show ?thesis using big unfolding arc_calls succeeds_iff_Inr by blast
  qed
qed

interpretation arc_loadable: loadable_policy arc_api "arc_loaded c m" for c m
  by unfold_locales (use arc_load in \<open>unfold succeeds_iff_Inr, blast\<close>)

lemma arc_listed:
  assumes "arc_base c m s"
  shows "ht_lookup ob s \<noteq> None \<longleftrightarrow> (\<exists>l. ob \<in> set (aq (arc_abs s) l) \<or> ob \<in> aw (arc_abs s) l)"
  unfolding arc_lookup [OF assms] by auto

text \<open>While the cache is not full, some place is free.\<close>

lemma arc_room:
  assumes ok: "arc_ok c m s" and room: "alen (arc_abs s) ARC_T1 + alen (arc_abs s) ARC_T2 < unat c"
  obtains cb where "free_place arc_api cb s"
proof -
  note B = arc_baseD [OF arc_okD(1) [OF ok]]
  have n: "unat (ep_nr_entries (cache_pool s)) = unat c" and r: "ep_region (cache_pool s) = CacheRegion"
    using B(2) nuc_okD(3) [OF B(1) [unfolded cn_ok_def]] by simp_all
  have "\<not> {e. in_pool (cache_pool s) (Some e)} \<subseteq> cached (ht s)"
  proof
    assume "{e. in_pool (cache_pool s) (Some e)} \<subseteq> cached (ht s)"
    moreover have "finite (cached (ht s))" by (simp add: cached_def)
    ultimately have "unat c \<le> card (cached (ht s))" using card_mono card_pool n by metis
    then show False using room unfolding arc_counts(1) [OF arc_okD(1) [OF ok]] by simp
  qed
  then obtain e where e: "in_pool (cache_pool s) (Some e)" "e \<notin> cached (ht s)" by blast
  then have free: "e \<notin> set (ht s)" using r by (simp add: cached_def in_pool_Some)
  obtain cb where cb: "epool_at (cache_pool s) cb = Some e" using infer_cblock_ok(2) [OF e(1)] B(2,3) by auto
  have "ht_lookup ob s \<noteq> Some e" for ob using free lookup_Some [OF B(1)] by blast
  then have "free_place arc_api cb s"
    using cb by (simp add: free_place_def policy_calls arc_api_def nucleus_api_def default_cblock_lookup_def
        default_cache_lookup_def in_cache_def Let_def)
  then show thesis by (rule that)
qed

lemma arc_start_loaded:
  assumes "2 \<le> c" "3 * unat c < 2 ^ 32" "2 * unat c \<le> unat m" "arc_create c m = Inr i"
  shows "arc_loaded c m i"
proof -
  have "unat c \<le> unat m" using assms(3) by simp
  from arc_started [OF assms(1,2) this] assms(3,4) show ?thesis by (auto simp: arc_loaded_def alen_def)
qed

lemma arc_used_ok:
  assumes "policy_used arc_api (arc_create c m) s" "2 \<le> c" "3 * unat c < 2 ^ 32" "2 * unat c \<le> unat m"
  shows "arc_ok c m s"
proof -
  have "arc_loaded c m i" if "policy_loaded arc_api (arc_create c m) i" for i
    using arc_loadable.loaded_inv [OF that] arc_start_loaded [OF assms(2-4)] by blast
  then have "arc_ok c m i \<and> 2 * unat c \<le> unat m" if "policy_loaded arc_api (arc_create c m) i" for i
    using that unfolding arc_loaded_def by blast
  from arc_managed.used_inv [OF assms(1) this] show ?thesis by blast
qed

text \<open>
  C19. Take an ARC cache of at least 2 blocks with metadata for twice as many, load any blocks into free places,
  and then call it in any way: accesses, reports of migrations, removals of cached blocks and of
  ghosts whether to the history or not, remappings, the clock. In every state so reached T1 and its ghosts
  together fit the cache, T1 and T2 fit the cache, all four lists together hold at most twice the cache size, the
  target is at most the cache size, and no block is in two lists or twice in one. A removal of a known block succeeds
  and leaves it at the end of the ghosts of its list if it was cached and is to be remembered, and nowhere otherwise; the
  load of an unknown block succeeds and puts it at the end of T1.
\<close>
theorem arc_bounds:
  assumes "policy_used arc_api (arc_create c m) s" "2 \<le> c" "3 * unat c < 2 ^ 32" "2 * unat c \<le> unat m"
  shows "alen (arc_abs s) ARC_T1 + alen (arc_abs s) ARC_B1 \<le> unat c \<and>
    alen (arc_abs s) ARC_T1 + alen (arc_abs s) ARC_T2 \<le> unat c \<and>
    alen (arc_abs s) ARC_T1 + alen (arc_abs s) ARC_T2 + alen (arc_abs s) ARC_B1 + alen (arc_abs s) ARC_B2 \<le> 2 * unat c \<and>
    ap (arc_abs s) \<le> unat c \<and>
    distinct (concat (map (aq (arc_abs s)) [ARC_T1, ARC_T2, ARC_B1, ARC_B2])) \<and>
    (aw (arc_abs s) ARC_T1 \<union> aw (arc_abs s) ARC_T2) \<inter>
      set (concat (map (aq (arc_abs s)) [ARC_T1, ARC_T2, ARC_B1, ARC_B2])) = {} \<and>
    (known arc_api ob s \<longrightarrow> (\<exists>s'. policy_remove arc_api ob h s = Inr s' \<and>
      arc_abs s' = spec_forget h ob (arc_abs s))) \<and>
    (policy_loaded arc_api (arc_create c m) s \<longrightarrow> \<not> known arc_api ob s \<longrightarrow> free_place arc_api cb s \<longrightarrow>
      (\<exists>s'. policy_insert arc_api ob cb s = Inr s' \<and> arc_abs s' = spec_add ARC_T1 ob (arc_abs s)))"
proof -
  have ok: "arc_ok c m s" by (rule arc_used_ok [OF assms])
  then have b: "arc_base c m s" and sz: "arc_sizes (unat c) (unat m) (arc_abs s)" by (simp_all add: arc_ok_def)
  note J = arc_disjoint [OF b]
  have q: "set (aq (arc_abs s) k) \<inter> set (aq (arc_abs s) l) = {}" if "k \<noteq> l" for k l
    using J(3) [of _ k l] that by blast
  have w: "aw (arc_abs s) k \<inter> set (aq (arc_abs s) l) = {}" for k l using J(2) [of _ l k] by blast
  have 1: "distinct (concat (map (aq (arc_abs s)) [ARC_T1, ARC_T2, ARC_B1, ARC_B2]))"
    by (simp add: J(1) q Int_Un_distrib)
  have 2: "(aw (arc_abs s) ARC_T1 \<union> aw (arc_abs s) ARC_T2) \<inter>
      set (concat (map (aq (arc_abs s)) [ARC_T1, ARC_T2, ARC_B1, ARC_B2])) = {}"
    by (simp add: w Int_Un_distrib Int_Un_distrib2)
  have 3: "\<exists>s'. policy_remove arc_api ob h s = Inr s' \<and> arc_abs s' = spec_forget h ob (arc_abs s)"
    if "known arc_api ob s" using arc_forget [OF ok assms(4) that] by blast
  have 4: "\<exists>s'. policy_insert arc_api ob cb s = Inr s' \<and> arc_abs s' = spec_add ARC_T1 ob (arc_abs s)"
    if l: "policy_loaded arc_api (arc_create c m) s" "\<not> known arc_api ob s" "free_place arc_api cb s"
    using arc_load [OF arc_loadable.loaded_inv [OF l(1) arc_start_loaded [OF assms(2-4)]] l(2,3)] by blast
  show ?thesis using sz arc_full(2) [OF b] arc_baseD(7) [OF b] 1 2 3 4 unfolding arc_sizes_def arc_ap by blast
qed

theorem arc_bounds_witness:
  "\<exists>s cb s' s''. arc_create 2 4 = Inr s \<and> policy_insert arc_api 7 cb s = Inr s' \<and> aq (arc_abs s') ARC_T1 = [7] \<and>
    policy_remove arc_api 7 True s' = Inr s'' \<and> aq (arc_abs s'') ARC_T1 = [] \<and> aq (arc_abs s'') ARC_B1 = [7] \<and>
    policy_used arc_api (arc_create 2 4) s'' \<and> ap (arc_abs s'') \<le> 2"
proof -
  obtain s where s: "arc_create 2 4 = Inr s" "arc_ok 2 4 s" "ht s = []"
    "arc_abs s = \<lparr>aq = (\<lambda>_. []), aw = (\<lambda>_. {}), ap = 0\<rparr>"
    using arc_create_ok [of 2 4] by auto
  have "ht_lookup 7 s = None" by (simp add: s(3) lookup_None)
  then have new: "\<not> known arc_api 7 s" using arc_known [OF s(2)] by simp
  obtain cb where place: "free_place arc_api cb s" using arc_room [OF s(2)] by (auto simp: s(4) alen_def)
  have l: "policy_loaded arc_api (arc_create 2 4) s" by (rule loaded_init [OF s(1)])
  from arc_bounds [OF used_loaded [OF l], of 7 _ cb] new place l obtain s' where
    s': "policy_insert arc_api 7 cb s = Inr s'" "arc_abs s' = spec_add ARC_T1 7 (arc_abs s)" by auto
  have u: "policy_used arc_api (arc_create 2 4) s'"
    by (rule used_loaded [OF loaded_load [OF l load_insert [OF new place s'(1)]]])
  have ok': "arc_ok 2 4 s'" using arc_used_ok [OF u] by simp
  have a': "aq (arc_abs s') = (\<lambda>_. [])(ARC_T1 := [7])" "aw (arc_abs s') = (\<lambda>_. {})" "ap (arc_abs s') = 0"
    by (simp_all add: s'(2) s(4) spec_add_def)
  then have "7 \<in> set (aq (arc_abs s') ARC_T1)" by simp
  then have k: "known arc_api 7 s'" using arc_lookup(1) [OF arc_okD(1) [OF ok']] arc_known [OF ok'] by auto
  from arc_bounds [OF u, of 7 True cb] k obtain s'' where
    s'': "policy_remove arc_api 7 True s' = Inr s''" "arc_abs s'' = spec_forget True 7 (arc_abs s')" by auto
  have "policy_used arc_api (arc_create 2 4) s''" by (rule used_step [OF u step_remove [OF k s''(1)]])
  moreover have "aq (arc_abs s'') ARC_T1 = []" "aq (arc_abs s'') ARC_B1 = [7]" "ap (arc_abs s'') = 0"
    by (simp_all add: s''(2) spec_forget_def spec_add_def spec_drop_def a')
  ultimately show ?thesis using s(1) s'(1) s''(1) a'(1)
    by - (rule exI [of _ s], rule exI [of _ cb], rule exI [of _ s'], rule exI [of _ s''], simp)
qed

text \<open>
  Why the loads come first: once calls have brought T1 and its ghosts to the size of the cache, an insertion at a
  free place succeeds and exceeds it.
\<close>
theorem arc_late_load:
  assumes "policy_used arc_api (arc_create c m) s" "2 \<le> c" "3 * unat c < 2 ^ 32" "2 * unat c \<le> unat m"
    and "alen (arc_abs s) ARC_T1 + alen (arc_abs s) ARC_B1 = unat c" "\<not> known arc_api ob s" "free_place arc_api cb s"
  shows "\<exists>s'. policy_insert arc_api ob cb s = Inr s' \<and> arc_abs s' = spec_add ARC_T1 ob (arc_abs s) \<and>
    alen (arc_abs s') ARC_T1 + alen (arc_abs s') ARC_B1 = unat c + 1"
proof -
  have ok: "arc_ok c m s" by (rule arc_used_ok [OF assms(1-4)])
  obtain e where e: "epool_at (cache_pool s) cb = Some e" "e \<notin> set (ht s)" using arc_place [OF ok assms(7)] by blast
  have "ht_lookup ob s = None" using arc_known [OF ok, of ob] assms(6) by simp
  from arc_insert_api_ok [OF arc_okD(1) [OF ok] this e] obtain s' where
    s': "arc_insert_api ob cb s = Inr s'" "arc_abs s' = spec_add ARC_T1 ob (arc_abs s)" by blast
  then show ?thesis using assms(5) unfolding arc_calls by (simp add: alen_add)
qed

theorem arc_late_load_witness:
  "\<exists>s cb s'. policy_used arc_api (arc_create 2 4) s \<and> policy_insert arc_api 9 cb s = Inr s' \<and>
    aq (arc_abs s') ARC_T1 = [8, 9] \<and> aq (arc_abs s') ARC_B1 = [7]"
proof -
  obtain s0 where s0: "arc_create 2 4 = Inr s0" "arc_abs s0 = \<lparr>aq = (\<lambda>_. []), aw = (\<lambda>_. {}), ap = 0\<rparr>"
    using arc_create_ok [of 2 4] by auto
  have load: "\<exists>s'. policy_loaded arc_api (arc_create 2 4) s' \<and> arc_abs s' = spec_add ARC_T1 ob (arc_abs s)"
    if l: "policy_loaded arc_api (arc_create 2 4) s" and a: "aw (arc_abs s) = (\<lambda>_. {})" "length (aq (arc_abs s) ARC_T1) < 2"
      "\<forall>l. ob \<notin> set (aq (arc_abs s) l)" for s ob
  proof -
    have ok: "arc_loaded 2 4 s" using arc_loadable.loaded_inv [OF l] arc_start_loaded [of 2 4] by simp
    then have ok1: "arc_ok 2 4 s" "alen (arc_abs s) ARC_T2 = 0" by (simp_all add: arc_loaded_def)
    obtain cb where cb: "free_place arc_api cb s" using arc_room [OF ok1(1)] ok1(2) a(1,2) by (auto simp: alen_def)
    have new: "\<not> known arc_api ob s" unfolding arc_known [OF ok1(1)] arc_listed [OF arc_okD(1) [OF ok1(1)]] using a(1,3) by simp
    show ?thesis using arc_load [OF ok new cb] loaded_load [OF l load_insert [OF new cb]] by blast
  qed
  obtain s1 where s1: "policy_loaded arc_api (arc_create 2 4) s1" "arc_abs s1 = spec_add ARC_T1 7 (arc_abs s0)"
    using load [OF loaded_init [OF s0(1)], of 7] by (auto simp: s0(2))
  obtain s2 where s2: "policy_loaded arc_api (arc_create 2 4) s2" "arc_abs s2 = spec_add ARC_T1 8 (arc_abs s1)"
    using load [OF s1(1), of 8] by (auto simp: s1(2) s0(2) spec_add_def)
  have u: "policy_used arc_api (arc_create 2 4) s2" by (rule used_loaded [OF s2(1)])
  have ok2: "arc_ok 2 4 s2" using arc_used_ok [OF u] by simp
  have k: "known arc_api 7 s2" unfolding arc_known [OF ok2] arc_listed [OF arc_okD(1) [OF ok2]]
    by (auto simp: s2(2) s1(2) s0(2) spec_add_def)
  obtain s3 where s3: "policy_remove arc_api 7 True s2 = Inr s3" "arc_abs s3 = spec_forget True 7 (arc_abs s2)"
    using arc_forget [OF ok2 _ k, of True] by auto
  have u3: "policy_used arc_api (arc_create 2 4) s3" by (rule used_step [OF u step_remove [OF k s3(1)]])
  have ok3: "arc_ok 2 4 s3" using arc_used_ok [OF u3] by simp
  have a3: "aq (arc_abs s3) = (\<lambda>_. [])(ARC_T1 := [8], ARC_B1 := [7])" "aw (arc_abs s3) = (\<lambda>_. {})"
    by (auto simp: s3(2) s2(2) s1(2) s0(2) spec_forget_def spec_add_def spec_drop_def fun_eq_iff)
  have new: "\<not> known arc_api 9 s3" unfolding arc_known [OF ok3] arc_listed [OF arc_okD(1) [OF ok3]] by (simp add: a3)
  obtain cb where cb: "free_place arc_api cb s3" using arc_room [OF ok3] by (auto simp: alen_def a3)
  from arc_late_load [OF u3 _ _ _ _ new cb] obtain s4 where
    "policy_insert arc_api 9 cb s3 = Inr s4" "arc_abs s4 = spec_add ARC_T1 9 (arc_abs s3)" by (auto simp: alen_def a3)
  moreover from this(2) have "aq (arc_abs s4) ARC_T1 = [8, 9]" "aq (arc_abs s4) ARC_B1 = [7]"
    by (simp_all add: spec_add_def a3)
  ultimately show ?thesis using u3 by blast
qed

interpretation fomo_arc: fomo_over arc_api "arc_ok c m" "unat c" for c m
  by (rule fomo_over.intro) (rule arc_access_policy)

text \<open>
  Over ARC with metadata for at least as many blocks as the cache, and over FOMO in front of ARC, the simulator with any migration delay below 2^31, any sampling rate but zero and without
  removals reads the whole trace without a fault: no division by the length of an empty ghost list, no
  pop of an empty queue, no pool that runs out.
\<close>
theorem arc_simulation_total:
  assumes "plain_opts opts" "2 \<le> c" "3 * unat c < 2 ^ 32" "unat c \<le> unat m"
  shows "(\<exists>s st st'. arc_create c m = Inr s \<and> sim_prep opts s = Inr st \<and>
      sim_run arc_api rnd opts 1 tr st = Inr st' \<and> arc_ok c m (sm_policy st') \<and>
      (opt_sampling_rate opts = 1 \<longrightarrow> accesses (sm_stats st') = of_nat (length tr))) \<and>
    (\<exists>s st st'. fomo_create c m arc_create = Inr s \<and> sim_prep opts s = Inr st \<and>
      sim_run (fomo_api arc_api) rnd opts 1 tr st = Inr st' \<and> fomo_ok (arc_ok c m) (sm_policy st') \<and>
      (opt_sampling_rate opts = 1 \<longrightarrow> accesses (sm_stats st') = of_nat (length tr)))"
proof (rule conjI)
  obtain s where s: "arc_create c m = Inr s" "arc_ok c m s" "mview arc_api s = Map.empty"
    using arc_started [OF assms(2-4)] by blast
  have p: "pending (mview arc_api s) = {}" by (simp add: s(3) pending_def)
  from access_policy.run_from_start [OF arc_access_policy assms(1) s(2) p] s(1)
  show "\<exists>s st st'. arc_create c m = Inr s \<and> sim_prep opts s = Inr st \<and>
      sim_run arc_api rnd opts 1 tr st = Inr st' \<and> arc_ok c m (sm_policy st') \<and>
      (opt_sampling_rate opts = 1 \<longrightarrow> accesses (sm_stats st') = of_nat (length tr))" by blast
  have "1 \<le> c" using assms(2) by (simp add: word_le_nat_alt)
  from fomo_init_ok [OF this, of "arc_ok c m" s] s(2) obtain f where
    f: "fomo_init c s (zero_fomo s) = Inr f" "fomo_ok (arc_ok c m) f" "fo_internal f = s" by blast
  have "pending (mview (fomo_api arc_api) f) = {}" unfolding fomo_pview f(3) by (rule p)
  from access_policy.run_from_start [OF fomo_arc.fomo.access_policy_axioms assms(1) f(2) this] f(1) s(1)
  show "\<exists>s st st'. fomo_create c m arc_create = Inr s \<and> sim_prep opts s = Inr st \<and>
      sim_run (fomo_api arc_api) rnd opts 1 tr st = Inr st' \<and> fomo_ok (arc_ok c m) (sm_policy st') \<and>
      (opt_sampling_rate opts = 1 \<longrightarrow> accesses (sm_stats st') = of_nat (length tr))"
    by (simp add: fomo_create_def)
qed

theorem arc_simulation_total_witness:
  "\<exists>s st st'. arc_create 2 2 = Inr s \<and> sim_prep \<lparr>opt_sampling_rate = 1, opt_migration_delay = 3, opt_remove_rate = 0\<rparr> s = Inr st \<and>
    sim_run arc_api (\<lambda>_. 0) \<lparr>opt_sampling_rate = 1, opt_migration_delay = 3, opt_remove_rate = 0\<rparr> 1
      [(1, False), (2, True), (3, False), (3, False)] st = Inr st' \<and> accesses (sm_stats st') = 4"
  using arc_simulation_total [of "\<lparr>opt_sampling_rate = 1, opt_migration_delay = 3, opt_remove_rate = 0\<rparr>"
      2 2 "\<lambda>_. 0" "[(1, False), (2, True), (3, False), (3, False)]"]
  by (auto simp: plain_opts_def)

end
