(* ===== verification/Heap.thy ===== *)
theory Heap
  imports Prelude "HOL-Library.Multiset"
begin

text \<open>
  The array heap of \<open>src/src/include/tools/heap.h\<close>: the operations on the array of pointers and on the
  keys and indices inside the heads, an algorithm on lists they implement, and the order it keeps.
\<close>

section \<open>Heaps\<close>

text \<open>
  A head holds its key and its place in the array. The heads live inside the structures of the client:
  \<open>heap_key\<close> and \<open>heap_index\<close> are these two fields of all heads. The \<open>compare\<close> function of the heap may read
  other memory of the client, so it is an argument of the operations that call it.
\<close>

record 'p heap =
  heap_arr :: "'p option list"
  heap_capacity :: u32
  heap_size :: u32
  heap_key :: "'p \<Rightarrow> u32"
  heap_index :: "'p \<Rightarrow> u32"

type_synonym 'p heap_compare = "('p \<Rightarrow> u32) \<Rightarrow> 'p \<Rightarrow> 'p \<Rightarrow> int"

definition heap_default_compare :: "'p heap_compare" where
  "heap_default_compare k a b = (if k a < k b then - 1 else if k a > k b then 1 else 0)"

definition arr_read :: "'p heap \<Rightarrow> u32 \<Rightarrow> 'p option res" where
  "arr_read h i = (if unat i < length (heap_arr h) then Inr (heap_arr h ! unat i) else Inl OutOfBounds)"

definition arr_write :: "u32 \<Rightarrow> 'p option \<Rightarrow> 'p heap \<Rightarrow> 'p heap res" where
  "arr_write i x h =
     (if unat i < length (heap_arr h) then Inr (h\<lparr>heap_arr := (heap_arr h)[unat i := x]\<rparr>) else Inl OutOfBounds)"

definition heap_init :: "u32 \<Rightarrow> 'p heap \<Rightarrow> 'p heap" where
  "heap_init capacity h =
     h\<lparr>heap_arr := replicate (unat capacity) None, heap_capacity := capacity, heap_size := 0\<rparr>"

definition heap_full :: "'p heap \<Rightarrow> bool" where
  "heap_full h \<longleftrightarrow> heap_size h = heap_capacity h"

definition heap_parent :: "'p heap \<Rightarrow> 'p \<Rightarrow> 'p option res" where
  "heap_parent h child =
     (if heap_index h child > 0 then arr_read h ((heap_index h child - 1) div 2) else Inr None)"

definition heap_left :: "'p heap \<Rightarrow> 'p \<Rightarrow> 'p option res" where
  "heap_left h parent =
     (let index = 2 * heap_index h parent + 1 in
      if index < heap_size h then arr_read h index else Inr None)"

definition heap_right :: "'p heap \<Rightarrow> 'p \<Rightarrow> 'p option res" where
  "heap_right h parent =
     (let index = 2 * heap_index h parent + 2 in
      if index < heap_size h then arr_read h index else Inr None)"

definition heap_swap :: "'p \<Rightarrow> 'p \<Rightarrow> 'p heap \<Rightarrow> 'p heap res" where
  "heap_swap a b h =
     (let a_index = heap_index h a;
          h = h\<lparr>heap_index := (heap_index h)(a := heap_index h b)\<rparr>;
          h = h\<lparr>heap_index := (heap_index h)(b := a_index)\<rparr> in
      rbind (arr_write (heap_index h a) (Some a) h) (\<lambda>h.
      arr_write (heap_index h b) (Some b) h))"

text \<open>The loop of \<open>heap_decrease_key\<close>.\<close>

partial_function (option) sift_up ::
  "'p heap_compare \<Rightarrow> 'p \<Rightarrow> 'p option \<Rightarrow> 'p heap \<Rightarrow> 'p heap res option" where
  "sift_up cmp c parent h =
     (if heap_index h c > 0 then
        (case parent of
           None \<Rightarrow> Some (Inl NullDeref)
         | Some p \<Rightarrow>
             if cmp (heap_key h) c p < 0 then
               (case rbind (heap_swap c p h) (\<lambda>h. rbind (heap_parent h c) (\<lambda>p. Inr (p, h))) of
                  Inl f \<Rightarrow> Some (Inl f)
                | Inr r \<Rightarrow> sift_up cmp c (fst r) (snd r))
             else Some (Inr h))
      else Some (Inr h))"

definition heap_decrease_key :: "'p heap_compare \<Rightarrow> 'p \<Rightarrow> u32 \<Rightarrow> 'p heap \<Rightarrow> 'p heap res" where
  "heap_decrease_key cmp c key h =
     rbind (heap_parent h c) (\<lambda>parent.
     rbind (log_assert (key \<le> heap_key h c)) (\<lambda>_.
     finished (sift_up cmp c parent (h\<lparr>heap_key := (heap_key h)(c := key)\<rparr>))))"

definition heap_insert :: "'p heap_compare \<Rightarrow> 'p \<Rightarrow> u32 \<Rightarrow> 'p heap \<Rightarrow> 'p heap res" where
  "heap_insert cmp c key h =
     (let index = heap_size h in
      rbind (log_assert (\<not> heap_full h)) (\<lambda>_.
      let h = h\<lparr>heap_size := heap_size h + 1, heap_key := (heap_key h)(c := key),
                heap_index := (heap_index h)(c := index)\<rparr> in
      rbind (arr_write index (Some c) h) (heap_decrease_key cmp c key)))"

text \<open>One call of \<open>heapify\<close>: the index of the recursive call, if there is one.\<close>

definition smaller_child :: "'p heap_compare \<Rightarrow> 'p heap \<Rightarrow> 'p option \<Rightarrow> 'p \<Rightarrow> 'p" where
  "smaller_child cmp h c m = (case c of None \<Rightarrow> m | Some c \<Rightarrow> if cmp (heap_key h) c m < 0 then c else m)"

definition heapify_step :: "'p heap_compare \<Rightarrow> u32 \<Rightarrow> 'p heap \<Rightarrow> (u32 option \<times> 'p heap) res" where
  "heapify_step cmp index h =
     rbind (arr_read h index) (\<lambda>i.
     rbind (deref i) (\<lambda>i.
     rbind (heap_left h i) (\<lambda>l.
     rbind (heap_right h i) (\<lambda>r.
     let m = smaller_child cmp h r (smaller_child cmp h l i) in
     if m \<noteq> i then rbind (heap_swap i m h) (\<lambda>h. Inr (Some (heap_index h i), h))
     else Inr (None, h)))))"

partial_function (option) heapify_loop :: "'p heap_compare \<Rightarrow> u32 \<Rightarrow> 'p heap \<Rightarrow> 'p heap res option" where
  "heapify_loop cmp index h =
     (if index \<ge> heap_size h then Some (Inr h)
      else
        (case heapify_step cmp index h of
           Inl f \<Rightarrow> Some (Inl f)
         | Inr r \<Rightarrow>
             (case fst r of
                None \<Rightarrow> Some (Inr (snd r))
              | Some i \<Rightarrow> heapify_loop cmp i (snd r))))"

definition heapify :: "'p heap_compare \<Rightarrow> u32 \<Rightarrow> 'p heap \<Rightarrow> 'p heap res" where
  "heapify cmp index h = finished (heapify_loop cmp index h)"

partial_function (option) build_loop :: "'p heap_compare \<Rightarrow> 'p option \<Rightarrow> 'p heap \<Rightarrow> 'p heap res option" where
  "build_loop cmp c h =
     (case c of
        None \<Rightarrow> Some (Inr h)
      | Some c \<Rightarrow>
          (case rbind (heapify cmp (heap_index h c) h) (\<lambda>h. rbind (heap_parent h c) (\<lambda>p. Inr (p, h))) of
             Inl f \<Rightarrow> Some (Inl f)
           | Inr r \<Rightarrow> build_loop cmp (fst r) (snd r)))"

definition heap_build :: "'p heap_compare \<Rightarrow> 'p heap \<Rightarrow> 'p heap res" where
  "heap_build cmp h =
     (if heap_size h = 0 then Inr h
      else rbind (arr_read h (heap_size h - 1)) (\<lambda>c. finished (build_loop cmp c h)))"

definition heap_set_compare :: "'p heap_compare \<Rightarrow> 'p heap \<Rightarrow> 'p heap res" where
  "heap_set_compare cmp h = heap_build cmp h"

definition heap_delete :: "'p heap_compare \<Rightarrow> 'p \<Rightarrow> 'p heap \<Rightarrow> 'p heap res" where
  "heap_delete cmp c h =
     rbind (arr_read h (heap_size h - 1)) (\<lambda>last.
     rbind (deref last) (\<lambda>last.
     rbind (heap_swap c last h) (\<lambda>h.
     rbind (arr_write (heap_index h c) None h) (\<lambda>h.
     let h = h\<lparr>heap_size := heap_size h - 1\<rparr> in
     if cmp (heap_key h) last c < 0 then heap_decrease_key cmp last (heap_key h last) h
     else heapify cmp (heap_index h last) h))))"

definition heap_min :: "'p heap \<Rightarrow> 'p option res" where
  "heap_min h = (if heap_size h = 0 then Inr None else arr_read h 0)"

definition heap_min_pop :: "'p heap_compare \<Rightarrow> 'p heap \<Rightarrow> ('p option \<times> 'p heap) res" where
  "heap_min_pop cmp h =
     rbind (heap_min h) (\<lambda>m.
     case m of
       None \<Rightarrow> Inr (None, h)
     | Some c \<Rightarrow> rbind (heap_delete cmp c h) (\<lambda>h. Inr (Some c, h)))"

definition in_heap :: "'p heap \<Rightarrow> 'p option \<Rightarrow> bool res" where
  "in_heap h c =
     (case c of
        None \<Rightarrow> Inr False
      | Some c \<Rightarrow>
          if heap_index h c \<ge> heap_size h then Inr False
          else rbind (arr_read h (heap_index h c)) (\<lambda>x. Inr (x = Some c)))"

section \<open>The algorithm on lists\<close>

text \<open>
  The heap as the list of its heads in the order of the array. \<open>up\<close> moves an element towards the root while
  it is less than its parent, \<open>down\<close> away from it while a child is less.
\<close>

definition exch :: "'p list \<Rightarrow> nat \<Rightarrow> nat \<Rightarrow> 'p list" where
  "exch xs i j = xs[i := xs ! j, j := xs ! i]"

definition parent :: "nat \<Rightarrow> nat" where
  "parent i = (i - 1) div 2"

function up :: "('p \<Rightarrow> 'p \<Rightarrow> bool) \<Rightarrow> 'p list \<Rightarrow> nat \<Rightarrow> 'p list" where
  "up lt xs i =
     (if 0 < i \<and> lt (xs ! i) (xs ! parent i) then up lt (exch xs i (parent i)) (parent i) else xs)"
  by pat_completeness auto
termination by (relation "measure (\<lambda>(_, _, i). i)") (auto simp: parent_def)

definition least :: "('p \<Rightarrow> 'p \<Rightarrow> bool) \<Rightarrow> 'p list \<Rightarrow> nat \<Rightarrow> nat" where
  "least lt xs i =
     (let m = (if 2 * i + 1 < length xs \<and> lt (xs ! (2 * i + 1)) (xs ! i) then 2 * i + 1 else i) in
      if 2 * i + 2 < length xs \<and> lt (xs ! (2 * i + 2)) (xs ! m) then 2 * i + 2 else m)"

lemma least_cases:
  "least lt xs i = i \<or> least lt xs i = 2 * i + 1 \<and> 2 * i + 1 < length xs \<or>
   least lt xs i = 2 * i + 2 \<and> 2 * i + 2 < length xs"
  by (auto simp: least_def Let_def)

lemma least_bound: "i < length xs \<Longrightarrow> least lt xs i < length xs" "i \<le> least lt xs i"
  using least_cases [of lt xs i] by auto

lemma least_parent: "least lt xs i \<noteq> i \<Longrightarrow> parent (least lt xs i) = i"
  using least_cases [of lt xs i] by (auto simp: parent_def)

lemma length_exch [simp]: "length (exch xs i j) = length xs"
  by (simp add: exch_def)

function down :: "('p \<Rightarrow> 'p \<Rightarrow> bool) \<Rightarrow> 'p list \<Rightarrow> nat \<Rightarrow> 'p list" where
  "down lt xs i =
     (if i < length xs \<and> least lt xs i \<noteq> i then down lt (exch xs i (least lt xs i)) (least lt xs i) else xs)"
  by pat_completeness auto
termination
proof (relation "measure (\<lambda>(_, xs, i). length xs - i)")
  fix lt :: "'p \<Rightarrow> 'p \<Rightarrow> bool" and xs :: "'p list" and i
  assume "i < length xs \<and> least lt xs i \<noteq> i"
  then show "((lt, exch xs i (least lt xs i), least lt xs i), lt, xs, i) \<in> measure (\<lambda>(_, xs, i). length xs - i)"
    using least_bound(2) [of i lt xs] by (simp; linarith)
qed simp

declare up.simps [simp del] down.simps [simp del]

lemma nth_exch: "i < length xs \<Longrightarrow> j < length xs \<Longrightarrow>
  exch xs i j ! k = (if k = j then xs ! i else if k = i then xs ! j else xs ! k)"
  by (simp add: exch_def nth_list_update)

lemma mset_exch: "i < length xs \<Longrightarrow> j < length xs \<Longrightarrow> mset (exch xs i j) = mset xs"
  by (simp add: exch_def mset_swap)

lemma exch_same: "exch xs i i = xs"
  by (simp add: exch_def)

lemma parent_less: "0 < i \<Longrightarrow> parent i < i"
  by (auto simp: parent_def)

lemma mset_up: "i < length xs \<Longrightarrow> mset (up lt xs i) = mset xs"
proof (induction lt xs i rule: up.induct)
  case (1 lt xs i)
  show ?case
  proof (cases "0 < i \<and> lt (xs ! i) (xs ! parent i)")
    case True
    then have "parent i < length xs" using 1(2) parent_less [of i] by simp
    then show ?thesis using 1 True mset_exch [of i xs "parent i"] by (subst up.simps) simp
  next
    case False
    then show ?thesis by (subst up.simps) (simp only: if_False)
  qed
qed

lemma mset_down: "mset (down lt xs i) = mset xs"
proof (induction lt xs i rule: down.induct)
  case (1 lt xs i)
  then show ?case using mset_exch [of i xs "least lt xs i"] least_bound(1) [of i xs lt] by (subst down.simps) auto
qed

lemma up_facts: "i < length xs \<Longrightarrow> length (up lt xs i) = length xs \<and> set (up lt xs i) = set xs"
  using mset_up [of i xs lt] mset_eq_length mset_eq_setD by blast

lemma down_facts: "length (down lt xs i) = length xs" "set (down lt xs i) = set xs"
  using mset_down [of lt xs i] mset_eq_length mset_eq_setD by blast+

section \<open>The order\<close>

text \<open>
  Every element is at least its parent. The comparison is that of a rank, which is how both comparison functions of
  the program order the heads.
\<close>

definition heap_ordered :: "('p \<Rightarrow> nat) \<Rightarrow> 'p list \<Rightarrow> bool" where
  "heap_ordered rank xs \<longleftrightarrow> (\<forall>i<length xs. 0 < i \<longrightarrow> rank (xs ! parent i) \<le> rank (xs ! i))"

text \<open>A heap but for the element at \<open>i\<close>, which may be too small, or too large.\<close>

definition ordered_but_up :: "('p \<Rightarrow> nat) \<Rightarrow> 'p list \<Rightarrow> nat \<Rightarrow> bool" where
  "ordered_but_up rank xs i \<longleftrightarrow>
     (\<forall>j<length xs. 0 < j \<and> j \<noteq> i \<longrightarrow> rank (xs ! parent j) \<le> rank (xs ! j)) \<and>
     (\<forall>j<length xs. 0 < j \<and> parent j = i \<and> 0 < i \<longrightarrow> rank (xs ! parent i) \<le> rank (xs ! j))"

definition ordered_but_down :: "('p \<Rightarrow> nat) \<Rightarrow> 'p list \<Rightarrow> nat \<Rightarrow> bool" where
  "ordered_but_down rank xs i \<longleftrightarrow>
     (\<forall>j<length xs. 0 < j \<and> parent j \<noteq> i \<longrightarrow> rank (xs ! parent j) \<le> rank (xs ! j)) \<and>
     (\<forall>j<length xs. 0 < j \<and> parent j = i \<and> 0 < i \<longrightarrow> rank (xs ! parent i) \<le> rank (xs ! j))"

lemma up_orders:
  assumes "ordered_but_up rank xs i" "i < length xs"
  shows "heap_ordered rank (up (\<lambda>a b. rank a < rank b) xs i)"
  using assms
proof (induction "\<lambda>a b. rank a < rank b" xs i rule: up.induct)
  case (1 xs i)
  note U = 1(2) [unfolded ordered_but_up_def]
  show ?case
  proof (cases "0 < i \<and> rank (xs ! i) < rank (xs ! parent i)")
    case True
    let ?p = "parent i"
    have p: "?p < i" "?p < length xs" using True parent_less [of i] 1(3) by simp_all
    have "ordered_but_up rank (exch xs i ?p) ?p" unfolding ordered_but_up_def length_exch
    proof (intro conjI allI impI)
      fix j assume j: "j < length xs" "0 < j \<and> j \<noteq> ?p"
      show "rank (exch xs i ?p ! parent j) \<le> rank (exch xs i ?p ! j)"
      proof (cases "j = i")
        case True
        then show ?thesis using p 1(3) \<open>0 < i \<and> rank (xs ! i) < rank (xs ! parent i)\<close> by (simp add: nth_exch)
      next
        case False
        have "rank (xs ! parent j) \<le> rank (xs ! j)" using U j False by blast
        moreover have "rank (xs ! ?p) \<le> rank (xs ! j)" if "parent j = i" using U j that True by blast
        ultimately show ?thesis using False j p 1(3) True by (auto simp: nth_exch)
      qed
    next
      fix j assume j: "j < length xs" "0 < j \<and> parent j = ?p \<and> 0 < ?p"
      have pp: "parent ?p < ?p" using j parent_less by blast
      have "rank (xs ! parent ?p) \<le> rank (xs ! ?p)" using U j p by auto
      moreover have "rank (xs ! ?p) \<le> rank (xs ! j)" if "j \<noteq> i" using U j that by auto
      ultimately show "rank (exch xs i ?p ! parent ?p) \<le> rank (exch xs i ?p ! j)"
        using j pp p 1(3) parent_less [of j] by (auto simp: nth_exch)
    qed
    then show ?thesis using 1(1) True p by (subst up.simps) simp
  next
    case False
    then have "heap_ordered rank xs" using U by (auto simp: heap_ordered_def not_less)
    then show ?thesis using False by (subst up.simps) auto
  qed
qed

lemma least_is_least:
  assumes "i < length xs" "lt = (\<lambda>a b. rank a < (rank b :: nat))"
  shows "rank (xs ! least lt xs i) \<le> rank (xs ! i)"
    "j < length xs \<Longrightarrow> 0 < j \<Longrightarrow> parent j = i \<Longrightarrow> rank (xs ! least lt xs i) \<le> rank (xs ! j)"
proof -
  show "rank (xs ! least lt xs i) \<le> rank (xs ! i)" using assms by (auto simp: least_def Let_def)
  assume j: "j < length xs" "0 < j" "parent j = i"
  then have "j = 2 * i + 1 \<or> j = 2 * i + 2" by (auto simp: parent_def)
  then show "rank (xs ! least lt xs i) \<le> rank (xs ! j)" using assms j(1) by (auto simp: least_def Let_def)
qed

lemma down_orders:
  assumes "ordered_but_down rank xs i"
  shows "heap_ordered rank (down (\<lambda>a b. rank a < rank b) xs i)"
  using assms
proof (induction "\<lambda>a b. rank a < rank b" xs i rule: down.induct)
  case (1 xs i)
  let ?lt = "\<lambda>a b. rank a < rank b"
  note U = 1(2) [unfolded ordered_but_down_def]
  let ?m = "least ?lt xs i"
  show ?case
  proof (cases "i < length xs \<and> ?m \<noteq> i")
    case True
    have m: "?m < length xs" "parent ?m = i" "i < ?m" "0 < ?m"
      using True least_bound(1) [of i xs ?lt] least_bound(2) [of i ?lt xs] least_parent [of ?lt xs i] by simp_all
    have i: "i < length xs" using True by simp
    note L = least_is_least [where rank = rank, OF i refl]
    have "ordered_but_down rank (exch xs i ?m) ?m" unfolding ordered_but_down_def length_exch
    proof (intro conjI allI impI)
      fix j assume j: "j < length xs" "0 < j \<and> parent j \<noteq> ?m"
      have jp: "parent j < j" using j parent_less by blast
      show "rank (exch xs i ?m ! parent j) \<le> rank (exch xs i ?m ! j)"
      proof (cases "parent j = i")
        case True
        then show ?thesis using j jp i m L by (auto simp: nth_exch)
      next
        case False
        have "rank (xs ! parent j) \<le> rank (xs ! j)" using U j False by blast
        moreover have "rank (xs ! parent j) \<le> rank (xs ! ?m)" if "j = i" using U m that j by auto
        moreover have "j \<noteq> ?m" using False m by auto
        ultimately show ?thesis using j False i m by (auto simp: nth_exch)
      qed
    next
      fix j assume j: "j < length xs" "0 < j \<and> parent j = ?m \<and> 0 < ?m"
      then have "?m < j" using parent_less by metis
      then have "j \<noteq> ?m" "j \<noteq> i" using m by auto
      moreover have "rank (xs ! parent j) \<le> rank (xs ! j)" using U j m by auto
      ultimately show "rank (exch xs i ?m ! parent ?m) \<le> rank (exch xs i ?m ! j)"
        using j i m by (simp add: nth_exch)
    qed
    then show ?thesis using 1(1) True by (subst down.simps) simp
  next
    case False
    have "rank (xs ! parent j) \<le> rank (xs ! j)" if "j < length xs" "0 < j" for j
    proof (cases "parent j = i")
      case True
      then have i: "i < length xs" using that parent_less [of j] by simp
      then have "?m = i" using False by simp
      then show ?thesis using least_is_least(2) [where rank = rank, OF i refl that True] True by simp
    qed (use U that in blast)
    then have "heap_ordered rank xs" by (simp add: heap_ordered_def)
    then show ?thesis using False by (subst down.simps) auto
  qed
qed

text \<open>The root is a least element.\<close>

lemma heap_root:
  assumes "heap_ordered rank xs" "i < length xs"
  shows "rank (xs ! 0) \<le> rank (xs ! i)"
  using assms(2)
proof (induction i rule: less_induct)
  case (less i)
  show ?case
  proof (cases "0 < i")
    case True
    have "rank (xs ! parent i) \<le> rank (xs ! i)" using assms(1) less(2) True by (simp add: heap_ordered_def)
    moreover have "rank (xs ! 0) \<le> rank (xs ! parent i)" using less parent_less [OF True] by simp
    ultimately show ?thesis by simp
  qed simp
qed

text \<open>The operations of a heap as a list.\<close>

definition heap_add :: "('p \<Rightarrow> 'p \<Rightarrow> bool) \<Rightarrow> 'p \<Rightarrow> 'p list \<Rightarrow> 'p list" where
  "heap_add lt x xs = up lt (xs @ [x]) (length xs)"

definition heap_drop :: "('p \<Rightarrow> 'p \<Rightarrow> bool) \<Rightarrow> nat \<Rightarrow> 'p list \<Rightarrow> 'p list" where
  "heap_drop lt i xs =
     (let n = length xs - 1; ys = butlast (exch xs i n) in
      if lt (xs ! n) (xs ! i) then up lt ys i else down lt ys i)"

section \<open>The operations implement the algorithm\<close>

text \<open>
  The heap \<open>h\<close> holds the list \<open>xs\<close>: the first cells of the array point to the elements, and every element knows its
  cell. The capacity is below 2^31, so that the indices of children do not wrap around.
\<close>

definition heap_at :: "'p heap \<Rightarrow> 'p list \<Rightarrow> bool" where
  "heap_at h xs \<longleftrightarrow> length (heap_arr h) = unat (heap_capacity h) \<and> 2 * unat (heap_capacity h) < 2 ^ 32 \<and>
     unat (heap_size h) = length xs \<and> length xs \<le> unat (heap_capacity h) \<and> distinct xs \<and>
     (\<forall>i<length xs. heap_arr h ! i = Some (xs ! i) \<and> heap_index h (xs ! i) = of_nat i)"

abbreviation compare_less :: "'p heap_compare \<Rightarrow> ('p \<Rightarrow> u32) \<Rightarrow> 'p \<Rightarrow> 'p \<Rightarrow> bool" where
  "compare_less cmp k a b \<equiv> cmp k a b < 0"

lemma heap_atD:
  assumes "heap_at h xs"
  shows "length (heap_arr h) = unat (heap_capacity h)" "2 * unat (heap_capacity h) < 4294967296"
    "unat (heap_size h) = length xs" "length xs \<le> unat (heap_capacity h)" "distinct xs"
    "i < length xs \<Longrightarrow> heap_arr h ! i = Some (xs ! i)" "i < length xs \<Longrightarrow> heap_index h (xs ! i) = of_nat i"
  using assms by (simp_all add: heap_at_def)

lemma heap_at_small:
  assumes "heap_at h xs" "i \<le> 2 * length xs"
  shows "unat (of_nat i :: u32) = i"
  using heap_atD(2,4) [OF assms(1)] assms(2) by (intro unat_of_nat_small) simp

lemma heap_at_index: "heap_at h xs \<Longrightarrow> i < length xs \<Longrightarrow> unat (heap_index h (xs ! i)) = i"
  using heap_at_small [of h xs i] by (simp add: heap_atD(7))

lemma arr_read_at: "heap_at h xs \<Longrightarrow> unat w = i \<Longrightarrow> i < length xs \<Longrightarrow> arr_read h w = Inr (Some (xs ! i))"
  using heap_atD(1,4) [of h xs] heap_atD(6) [of h xs i] by (simp add: arr_read_def)

lemma heap_parent_at:
  assumes "heap_at h xs" "i < length xs"
  shows "heap_parent h (xs ! i) = Inr (if 0 < i then Some (xs ! parent i) else None)"
proof (cases "0 < i")
  case True
  let ?w = "heap_index h (xs ! i)"
  have w: "unat ?w = i" by (rule heap_at_index [OF assms])
  have "(0 :: u32) < ?w" using w True by (simp add: word_less_nat_alt)
  moreover have "unat (?w - 1) = i - 1" using w True by (subst unat_sub) (simp_all add: word_le_nat_alt)
  then have "unat ((?w - 1) div 2) = parent i" by (simp add: unat_div parent_def)
  ultimately show ?thesis using arr_read_at [OF assms(1)] True parent_less [OF True] assms(2)
    by (simp add: heap_parent_def)
next
  case False
  then show ?thesis using heap_atD(7) [OF assms] by (simp add: heap_parent_def)
qed

lemma child_index:
  assumes "heap_at h xs" "i < length xs" "d = 1 \<or> d = 2"
  shows "unat (2 * heap_index h (xs ! i) + of_nat d :: u32) = 2 * i + d"
proof -
  have "2 * i + d \<le> 2 * length xs" using assms(2,3) by auto
  from heap_at_small [OF assms(1) this] heap_atD(7) [OF assms(1,2)] show ?thesis by simp
qed

lemma heap_child_at:
  assumes "heap_at h xs" "i < length xs"
  shows "heap_left h (xs ! i) = Inr (if 2 * i + 1 < length xs then Some (xs ! (2 * i + 1)) else None)"
    "heap_right h (xs ! i) = Inr (if 2 * i + 2 < length xs then Some (xs ! (2 * i + 2)) else None)"
proof -
  have c: "unat (2 * heap_index h (xs ! i) + 1) = 2 * i + 1" "unat (2 * heap_index h (xs ! i) + 2) = 2 * i + 2"
    using child_index [OF assms, of 1] child_index [OF assms, of 2] by simp_all
  show "heap_left h (xs ! i) = Inr (if 2 * i + 1 < length xs then Some (xs ! (2 * i + 1)) else None)"
    using arr_read_at [OF assms(1) c(1)] c(1) heap_atD(3) [OF assms(1)]
    by (simp add: heap_left_def Let_def word_less_nat_alt del: unat_add_lem)
  show "heap_right h (xs ! i) = Inr (if 2 * i + 2 < length xs then Some (xs ! (2 * i + 2)) else None)"
    using arr_read_at [OF assms(1) c(2)] c(2) heap_atD(3) [OF assms(1)]
    by (simp add: heap_right_def Let_def word_less_nat_alt)
qed

lemma heap_swap_at:
  assumes "heap_at h xs" "i < length xs" "j < length xs"
  shows "\<exists>h'. heap_swap (xs ! i) (xs ! j) h = Inr h' \<and> heap_at h' (exch xs i j) \<and> heap_key h' = heap_key h \<and>
    heap_size h' = heap_size h \<and> heap_capacity h' = heap_capacity h"
proof -
  note A = heap_atD [OF assms(1)]
  have ij: "unat (heap_index h (xs ! i)) = i" "unat (heap_index h (xs ! j)) = j"
    using heap_at_index [OF assms(1)] assms(2,3) by blast+
  have ne: "xs ! i = xs ! j \<longleftrightarrow> i = j" using nth_eq_iff_index_eq [OF A(5)] assms(2,3) by blast
  define arr where "arr = (heap_arr h)[j := Some (xs ! i), i := Some (xs ! j)]"
  define ix where "ix = (heap_index h)(xs ! i := heap_index h (xs ! j), xs ! j := heap_index h (xs ! i))"
  obtain h' where h': "h' = h\<lparr>heap_arr := arr, heap_index := ix\<rparr>" by blast
  have b: "i < length (heap_arr h)" "j < length (heap_arr h)" using A(1,4) assms(2,3) by simp_all
  have run: "heap_swap (xs ! i) (xs ! j) h = Inr h'"
  proof (cases "i = j")
    case True
    then show ?thesis using ij b by (simp add: heap_swap_def arr_write_def Let_def h' arr_def ix_def)
  next
    case False
    then show ?thesis using ij b ne by (simp add: heap_swap_def arr_write_def Let_def h' arr_def ix_def)
  qed
  have "heap_arr h' ! k = Some (exch xs i j ! k) \<and> heap_index h' (exch xs i j ! k) = of_nat k"
    if k: "k < length xs" for k
  proof -
    have kn: "xs ! k = xs ! i \<longleftrightarrow> k = i" "xs ! k = xs ! j \<longleftrightarrow> k = j"
      using nth_eq_iff_index_eq [OF A(5)] assms(2,3) k by blast+
    show ?thesis
      using A(6,7) k assms(2,3) b kn ne by (auto simp: h' arr_def ix_def nth_exch nth_list_update)
  qed
  moreover have "distinct (exch xs i j)" using A(5) assms(2,3) by (simp add: exch_def distinct_swap)
  ultimately have "heap_at h' (exch xs i j)" using A(1-4) by (simp add: heap_at_def h' arr_def)
  then show ?thesis using run by (simp add: h')
qed

text \<open>The loops end, without a fault.\<close>

lemma sift_up_at:
  assumes "heap_at h xs" "i < length xs"
  shows "\<exists>h'. sift_up cmp (xs ! i) (if 0 < i then Some (xs ! parent i) else None) h = Some (Inr h') \<and>
    heap_at h' (up (compare_less cmp (heap_key h)) xs i) \<and> heap_key h' = heap_key h \<and>
    heap_size h' = heap_size h \<and> heap_capacity h' = heap_capacity h"
  using assms
proof (induction "compare_less cmp (heap_key h)" xs i arbitrary: h rule: up.induct)
  case (1 xs i)
  let ?p = "parent i"
  have pos: "heap_index h (xs ! i) > 0 \<longleftrightarrow> 0 < i"
    using heap_at_index [OF 1(2,3)] by (simp add: word_less_nat_alt)
  show ?case
  proof (cases "0 < i \<and> cmp (heap_key h) (xs ! i) (xs ! ?p) < 0")
    case True
    then have p: "?p < length xs" "?p < i" using parent_less [of i] 1(3) by simp_all
    from heap_swap_at [OF 1(2,3) p(1)] obtain h1 where
      h1: "heap_swap (xs ! i) (xs ! ?p) h = Inr h1" "heap_at h1 (exch xs i ?p)" "heap_key h1 = heap_key h"
      "heap_size h1 = heap_size h" "heap_capacity h1 = heap_capacity h" by blast
    have at: "exch xs i ?p ! ?p = xs ! i" using 1(3) p by (simp add: nth_exch)
    have pr: "heap_parent h1 (xs ! i) = Inr (if 0 < ?p then Some (exch xs i ?p ! parent ?p) else None)"
      using heap_parent_at [OF h1(2), of ?p] p by (simp add: at)
    from 1(1) [OF True _ h1(2)] p h1(3) obtain h' where
      h': "sift_up cmp (xs ! i) (if 0 < ?p then Some (exch xs i ?p ! parent ?p) else None) h1 = Some (Inr h')"
      "heap_at h' (up (compare_less cmp (heap_key h)) (exch xs i ?p) ?p)" "heap_key h' = heap_key h1"
      "heap_size h' = heap_size h1" "heap_capacity h' = heap_capacity h1" by (auto simp: at)
    have "sift_up cmp (xs ! i) (if 0 < i then Some (xs ! ?p) else None) h = Some (Inr h')"
      by (subst sift_up.simps) (use True pos h1(1) pr h'(1) in simp)
    moreover have "up (compare_less cmp (heap_key h)) xs i = up (compare_less cmp (heap_key h)) (exch xs i ?p) ?p"
      by (subst up.simps) (use True in simp)
    ultimately show ?thesis using h' h1 by simp
  next
    case False
    have "sift_up cmp (xs ! i) (if 0 < i then Some (xs ! ?p) else None) h = Some (Inr h)"
      by (subst sift_up.simps) (use False pos in auto)
    moreover have "up (compare_less cmp (heap_key h)) xs i = xs" by (subst up.simps) (use False in auto)
    ultimately show ?thesis using 1(2) by simp
  qed
qed

lemma heap_atE:
  assumes "heap_at h xs" "x \<in> set xs"
  obtains i where "i < length xs" "x = xs ! i" "unat (heap_index h x) = i"
  using assms by (metis in_set_conv_nth heap_at_index)

lemma heapify_step_at:
  assumes "heap_at h xs" "unat w = i" "i < length xs"
    and m: "m = least (compare_less cmp (heap_key h)) xs i"
  shows "if m = i then heapify_step cmp w h = Inr (None, h)
    else \<exists>h'. heapify_step cmp w h = Inr (Some (of_nat m), h') \<and> heap_at h' (exch xs i m) \<and>
      heap_key h' = heap_key h \<and> heap_size h' = heap_size h \<and> heap_capacity h' = heap_capacity h"
proof -
  let ?k = "heap_key h"
  have mb: "m < length xs" unfolding m by (rule least_bound(1) [OF assms(3)])
  have ne: "xs ! m = xs ! i \<longleftrightarrow> m = i" using nth_eq_iff_index_eq [OF heap_atD(5) [OF assms(1)] mb assms(3)] .
  have sel: "smaller_child cmp h (if 2 * i + 2 < length xs then Some (xs ! (2 * i + 2)) else None)
      (smaller_child cmp h (if 2 * i + 1 < length xs then Some (xs ! (2 * i + 1)) else None) (xs ! i)) = xs ! m"
    by (auto simp: m least_def smaller_child_def Let_def)
  have st: "heapify_step cmp w h = (if xs ! m \<noteq> xs ! i then rbind (heap_swap (xs ! i) (xs ! m) h)
      (\<lambda>h. Inr (Some (heap_index h (xs ! i)), h)) else Inr (None, h))"
    by (simp only: heapify_step_def arr_read_at [OF assms(1-3)] heap_child_at [OF assms(1,3)] deref_def option.case
        rbind.simps sel Let_def)
  show ?thesis
  proof (cases "m = i")
    case True
    then show ?thesis using st by simp
  next
    case False
    from heap_swap_at [OF assms(1,3) mb] obtain h' where
      h': "heap_swap (xs ! i) (xs ! m) h = Inr h'" "heap_at h' (exch xs i m)" "heap_key h' = heap_key h"
      "heap_size h' = heap_size h" "heap_capacity h' = heap_capacity h" by blast
    have "exch xs i m ! m = xs ! i" using assms(3) mb by (simp add: nth_exch)
    then have "heap_index h' (xs ! i) = of_nat m" using heap_atD(7) [OF h'(2), of m] mb by simp
    then show ?thesis using False ne st h' by simp
  qed
qed

lemma heapify_at:
  assumes "heap_at h xs" "unat w = i"
  shows "\<exists>h'. heapify cmp w h = Inr h' \<and> heap_at h' (down (compare_less cmp (heap_key h)) xs i) \<and>
    heap_key h' = heap_key h \<and> heap_size h' = heap_size h \<and> heap_capacity h' = heap_capacity h"
proof -
  have "\<exists>h'. heapify_loop cmp w h = Some (Inr h') \<and> heap_at h' (down (compare_less cmp (heap_key h)) xs i) \<and>
    heap_key h' = heap_key h \<and> heap_size h' = heap_size h \<and> heap_capacity h' = heap_capacity h"
    using assms
  proof (induction "compare_less cmp (heap_key h)" xs i arbitrary: h w rule: down.induct)
    case (1 xs i)
    let ?lt = "compare_less cmp (heap_key h)"
    let ?m = "least ?lt xs i"
    have size: "w \<ge> heap_size h \<longleftrightarrow> length xs \<le> i"
      using heap_atD(3) [OF 1(2)] 1(3) by (simp add: word_le_nat_alt)
    show ?case
    proof (cases "i < length xs \<and> ?m \<noteq> i")
      case True
      then have i: "i < length xs" by simp
      from heapify_step_at [OF 1(2,3) i refl, of cmp] True obtain h1 where
        h1: "heapify_step cmp w h = Inr (Some (of_nat ?m), h1)" "heap_at h1 (exch xs i ?m)" "heap_key h1 = heap_key h"
        "heap_size h1 = heap_size h" "heap_capacity h1 = heap_capacity h" by auto
      have "?m < length xs" by (rule least_bound(1) [OF i])
      then have u: "unat (of_nat ?m :: u32) = ?m" by (intro heap_at_small [OF 1(2)]) simp
      from 1(1) [OF True _ h1(2) u] h1(3) obtain h' where
        h': "heapify_loop cmp (of_nat ?m) h1 = Some (Inr h')" "heap_at h' (down ?lt (exch xs i ?m) ?m)"
        "heap_key h' = heap_key h" "heap_size h' = heap_size h1" "heap_capacity h' = heap_capacity h1" by auto
      have "heapify_loop cmp w h = Some (Inr h')"
        by (subst heapify_loop.simps) (use i size h1(1) h'(1) in simp)
      moreover have "down ?lt xs i = down ?lt (exch xs i ?m) ?m" by (subst down.simps) (use True in simp)
      ultimately show ?thesis using h' h1 by simp
    next
      case False
      have "heapify_loop cmp w h = Some (Inr h)"
      proof (cases "i < length xs")
        case True
        then show ?thesis using False heapify_step_at [OF 1(2,3) True refl, of cmp] size
          by (subst heapify_loop.simps) simp
      qed (subst heapify_loop.simps, simp add: size)
      moreover have "down ?lt xs i = xs" by (subst down.simps) (use False in auto)
      ultimately show ?thesis using 1(2) by simp
    qed
  qed
  then show ?thesis by (auto simp: heapify_def)
qed

lemma heap_at_same:
  "heap_at h xs \<Longrightarrow> heap_at (h\<lparr>heap_key := k\<rparr>) xs"
  by (simp add: heap_at_def)

lemma heap_decrease_key_at:
  assumes "heap_at h xs" "i < length xs" "key \<le> heap_key h (xs ! i)"
  shows "\<exists>h'. heap_decrease_key cmp (xs ! i) key h = Inr h' \<and>
    heap_key h' = (heap_key h)(xs ! i := key) \<and> heap_at h' (up (compare_less cmp (heap_key h')) xs i) \<and>
    heap_size h' = heap_size h \<and> heap_capacity h' = heap_capacity h"
proof -
  let ?h = "h\<lparr>heap_key := (heap_key h)(xs ! i := key)\<rparr>"
  from sift_up_at [OF heap_at_same [OF assms(1)] assms(2), of cmp "(heap_key h)(xs ! i := key)"] obtain h' where
    "sift_up cmp (xs ! i) (if 0 < i then Some (xs ! parent i) else None) ?h = Some (Inr h')"
    "heap_at h' (up (compare_less cmp (heap_key ?h)) xs i)" "heap_key h' = heap_key ?h"
    "heap_size h' = heap_size ?h" "heap_capacity h' = heap_capacity ?h" by blast
  then show ?thesis using assms(3) by (simp add: heap_decrease_key_def heap_parent_at [OF assms(1,2)] log_assert_def)
qed

lemma heap_insert_at:
  assumes "heap_at h xs" "length xs < unat (heap_capacity h)" "x \<notin> set xs"
  shows "\<exists>h'. heap_insert cmp x key h = Inr h' \<and> heap_key h' = (heap_key h)(x := key) \<and>
    heap_at h' (heap_add (compare_less cmp (heap_key h')) x xs) \<and> heap_capacity h' = heap_capacity h"
proof -
  note A = heap_atD [OF assms(1)]
  let ?n = "length xs"
  have "heap_size h \<noteq> heap_capacity h" using A(3) assms(2) by auto
  then have nf: "\<not> heap_full h" by (simp add: heap_full_def)
  obtain h1 where h1: "h1 = h\<lparr>heap_size := heap_size h + 1, heap_key := (heap_key h)(x := key),
      heap_index := (heap_index h)(x := heap_size h), heap_arr := (heap_arr h)[?n := Some x]\<rparr>" by blast
  have f: "heap_size h1 = heap_size h + 1" "heap_key h1 = (heap_key h)(x := key)" "heap_capacity h1 = heap_capacity h"
    by (simp_all add: h1)
  have sz: "heap_size h = of_nat ?n" unfolding A(3) [symmetric] by simp
  have n1: "unat (heap_size h + 1) = Suc ?n" using A(2-4) assms(2) by (subst unat_add_small) simp_all
  have xn: "(xs @ [x]) ! ?n = x" by simp
  have "heap_arr h1 ! i = Some ((xs @ [x]) ! i) \<and> heap_index h1 ((xs @ [x]) ! i) = of_nat i"
    if i: "i < Suc ?n" for i
  proof (cases "i = ?n")
    case True
    then show ?thesis using A(1) assms(2) by (simp add: h1 sz)
  next
    case False
    then have "i < ?n" using i by simp
    moreover from this have "xs ! i \<noteq> x" using assms(3) nth_mem by blast
    ultimately show ?thesis using A(6,7) by (simp add: h1 nth_append)
  qed
  then have at: "heap_at h1 (xs @ [x])" using A(1,2,5) assms(2,3) n1 by (simp add: heap_at_def f) (simp add: h1)
  have w: "rbind (arr_write (heap_size h) (Some x) (h\<lparr>heap_size := heap_size h + 1,
      heap_key := (heap_key h)(x := key), heap_index := (heap_index h)(x := heap_size h)\<rparr>)) g = g h1" for g :: "_ \<Rightarrow> 'a heap res"
    using A(1,3) assms(2) by (simp add: arr_write_def h1)
  have run: "heap_insert cmp x key h = heap_decrease_key cmp x key h1"
    unfolding heap_insert_def Let_def using nf w by (simp add: log_assert_def)
  have "?n < length (xs @ [x])" by simp
  from heap_decrease_key_at [OF at this, of key cmp] obtain h' where
    "heap_decrease_key cmp x key h1 = Inr h'" "heap_key h' = (heap_key h1)(x := key)"
    "heap_at h' (up (compare_less cmp (heap_key h')) (xs @ [x]) ?n)" "heap_capacity h' = heap_capacity h1"
    by (auto simp: xn f)
  then show ?thesis by (simp add: run f heap_add_def)
qed

lemma heap_delete_at:
  assumes "heap_at h xs" "i < length xs" "\<not> cmp (heap_key h) (xs ! i) (xs ! i) < 0"
  shows "\<exists>h'. heap_delete cmp (xs ! i) h = Inr h' \<and> heap_key h' = heap_key h \<and>
    heap_at h' (heap_drop (compare_less cmp (heap_key h)) i xs) \<and> heap_capacity h' = heap_capacity h"
proof -
  note A = heap_atD [OF assms(1)]
  let ?lt = "compare_less cmp (heap_key h)"
  define n where "n = length xs - 1"
  define ys where "ys = butlast (exch xs i n)"
  have n: "n < length xs" "unat (heap_size h - 1) = n"
    using assms(2) A(3) by (simp_all add: n_def unat_sub word_le_nat_alt)
  from heap_swap_at [OF assms(1,2) n(1)] obtain h1 where
    h1: "heap_swap (xs ! i) (xs ! n) h = Inr h1" "heap_at h1 (exch xs i n)" "heap_key h1 = heap_key h"
    "heap_size h1 = heap_size h" "heap_capacity h1 = heap_capacity h" by blast
  note B = heap_atD [OF h1(2)]
  have xi: "exch xs i n ! n = xs ! i" "exch xs i n ! i = xs ! n" using assms(2) n(1) by (auto simp: nth_exch)
  have ix: "unat (heap_index h1 (xs ! i)) = n" using heap_at_index [OF h1(2), of n] n(1) xi(1) by simp
  obtain h2 where h2: "h2 = h1\<lparr>heap_arr := (heap_arr h1)[n := None], heap_size := heap_size h1 - 1\<rparr>" by blast
  have f: "heap_key h2 = heap_key h" "heap_capacity h2 = heap_capacity h" "heap_index h2 = heap_index h1"
    by (simp_all add: h2 h1)
  have ly: "length ys = n" by (simp add: ys_def n_def)
  have nth: "ys ! k = exch xs i n ! k" if "k < n" for k
    using that by (simp add: ys_def nth_butlast n_def)
  have dy: "distinct ys" using B(5) by (simp add: ys_def distinct_butlast)
  have cell: "heap_arr h2 ! k = Some (ys ! k) \<and> heap_index h2 (ys ! k) = of_nat k" if k: "k < n" for k
    using B(6,7) [of k] k n(1) by (simp add: h2 nth)
  have "unat (heap_size h2) = n" using n(2) h1(4) by (simp add: h2)
  moreover have "length (heap_arr h2) = unat (heap_capacity h2)" using B(1) by (simp add: h2)
  moreover have "n \<le> unat (heap_capacity h2)" using A(4) n(1) f(2) by simp
  ultimately have at: "heap_at h2 ys" using A(2) f(2) ly dy cell by (simp add: heap_at_def)
  have "arr_read h (heap_size h - 1) = Inr (Some (xs ! n))" by (rule arr_read_at [OF assms(1) n(2,1)])
  moreover have "n < length (heap_arr h1)" using B(1,4) n(1) by simp
  ultimately have run: "heap_delete cmp (xs ! i) h =
      (if cmp (heap_key h) (xs ! n) (xs ! i) < 0 then heap_decrease_key cmp (xs ! n) (heap_key h2 (xs ! n)) h2
       else heapify cmp (heap_index h2 (xs ! n)) h2)"
    by (simp add: heap_delete_def deref_def h1(1,3) arr_write_def ix Let_def h2)
  have drop: "heap_drop ?lt i xs = (if cmp (heap_key h) (xs ! n) (xs ! i) < 0 then up ?lt ys i else down ?lt ys i)"
    by (simp only: heap_drop_def Let_def n_def ys_def)
  show ?thesis
  proof (cases "cmp (heap_key h) (xs ! n) (xs ! i) < 0")
    case True
    then have "i \<noteq> n" using assms(3) by metis
    then have i: "i < length ys" using assms(2) by (simp add: ly n_def)
    have yi: "ys ! i = xs ! n" using i xi(2) by (simp add: nth ly)
    from heap_decrease_key_at [OF at i order_refl, of cmp, unfolded yi] True run drop show ?thesis by (auto simp: f)
  next
    case False
    have "unat (heap_index h2 (xs ! n)) = i"
      using heap_at_index [OF h1(2), of i] assms(2) xi(2) by (simp add: f)
    from heapify_at [OF at this, of cmp] False run drop show ?thesis by (auto simp: f)
  qed
qed

lemma heap_init_at:
  "2 * unat c < 2 ^ 32 \<Longrightarrow> heap_at (heap_init c h) []"
  by (simp add: heap_at_def heap_init_def)

lemma heap_min_at:
  assumes "heap_at h xs"
  shows "heap_min h = Inr (if xs = [] then None else Some (xs ! 0))"
proof -
  have "heap_size h = 0 \<longleftrightarrow> xs = []" using heap_atD(3) [OF assms] by (metis length_0_conv unat_eq_zero)
  then show ?thesis using arr_read_at [OF assms, of 0 0] by (simp add: heap_min_def)
qed

lemma in_heap_at:
  assumes "heap_at h xs"
  shows "in_heap h (Some c) = Inr (c \<in> set xs)"
proof (cases "heap_index h c \<ge> heap_size h")
  case True
  have "c \<notin> set xs"
  proof
    assume "c \<in> set xs"
    then obtain i where "i < length xs" "unat (heap_index h c) = i" using heap_atE [OF assms] by metis
    then show False using True heap_atD(3) [OF assms] by (simp add: word_le_nat_alt)
  qed
  then show ?thesis using True by (simp add: in_heap_def)
next
  case False
  let ?i = "unat (heap_index h c)"
  have i: "?i < length xs" using False heap_atD(3) [OF assms] by (simp add: word_le_nat_alt)
  have "xs ! ?i = c \<longleftrightarrow> c \<in> set xs"
  proof
    assume "c \<in> set xs"
    then show "xs ! ?i = c" using heap_atE [OF assms] by metis
  qed (use i nth_mem in metis)
  then show ?thesis using False by (simp add: in_heap_def arr_read_at [OF assms refl i])
qed

section \<open>The order of the operations\<close>

lemma set_exch: "i < length xs \<Longrightarrow> j < length xs \<Longrightarrow> set (exch xs i j) = set xs"
  by (rule mset_eq_setD [OF mset_exch])

lemma up_cong:
  assumes "i < length xs" "\<And>a b. a \<in> set xs \<Longrightarrow> b \<in> set xs \<Longrightarrow> lt a b = lt' a b"
  shows "up lt xs i = up lt' xs i"
  using assms
proof (induction lt xs i rule: up.induct)
  case (1 lt xs i)
  note same = 1(3)
  have p: "parent i < length xs" using 1(2) by (auto simp: parent_def)
  then have c: "lt (xs ! i) (xs ! parent i) = lt' (xs ! i) (xs ! parent i)" using same 1(2) by simp
  show ?case
  proof (cases "0 < i \<and> lt (xs ! i) (xs ! parent i)")
    case True
    then have "up lt (exch xs i (parent i)) (parent i) = up lt' (exch xs i (parent i)) (parent i)"
      using 1(1) p same set_exch [OF 1(2) p] by simp
    then show ?thesis using True c by (simp add: up.simps [of lt xs i] up.simps [of lt' xs i])
  next
    case False
    then have "up lt xs i = xs" "up lt' xs i = xs"
      using c by (simp_all only: up.simps [of lt xs i] up.simps [of lt' xs i] if_False)
    then show ?thesis by simp
  qed
qed

lemma down_cong:
  assumes "\<And>a b. a \<in> set xs \<Longrightarrow> b \<in> set xs \<Longrightarrow> lt a b = lt' a b"
  shows "down lt xs i = down lt' xs i"
  using assms
proof (induction lt xs i rule: down.induct)
  case (1 lt xs i)
  note same = 1(2)
  show ?case
  proof (cases "i < length xs")
    case True
    have at: "lt (xs ! a) (xs ! b) = lt' (xs ! a) (xs ! b)" if "a < length xs" "b < length xs" for a b
      using same that by simp
    have l: "least lt xs i = least lt' xs i"
    proof -
      define m where "m = (if 2 * i + 1 < length xs \<and> lt (xs ! (2 * i + 1)) (xs ! i) then 2 * i + 1 else i)"
      have m': "m = (if 2 * i + 1 < length xs \<and> lt' (xs ! (2 * i + 1)) (xs ! i) then 2 * i + 1 else i)"
        using at [of "2 * i + 1" i] True by (auto simp: m_def)
      have "m < length xs" using True by (simp add: m_def)
      then show ?thesis using at [of "2 * i + 2" m] unfolding least_def m_def [symmetric] m' [symmetric] Let_def by auto
    qed
    note m = least_bound(1) [OF True, of lt]
    show ?thesis
    proof (cases "least lt xs i = i")
      case False
      then have "down lt (exch xs i (least lt xs i)) (least lt xs i) = down lt' (exch xs i (least lt xs i)) (least lt xs i)"
        using 1(1) True same set_exch [OF True m] by simp
      then show ?thesis using True False l by (simp add: down.simps [of lt xs i] down.simps [of lt' xs i])
    next
      case eq: True
      then have "down lt xs i = xs" "down lt' xs i = xs"
        using l by (simp_all add: down.simps [of lt xs i] down.simps [of lt' xs i])
      then show ?thesis by simp
    qed
  next
    case False
    then have "down lt xs i = xs" "down lt' xs i = xs"
      by (simp_all add: down.simps [of lt xs i] down.simps [of lt' xs i])
    then show ?thesis by simp
  qed
qed

lemma heap_add_mset: "mset (heap_add lt x xs) = add_mset x (mset xs)"
  by (simp add: heap_add_def mset_up)

lemma heap_add_ordered:
  assumes "heap_ordered rank xs"
  shows "heap_ordered rank (heap_add (\<lambda>a b. rank a < rank b) x xs)"
  unfolding heap_add_def
proof (rule up_orders)
  have "rank ((xs @ [x]) ! parent j) \<le> rank ((xs @ [x]) ! j)" if "j < length xs" "0 < j" for j
    using assms that parent_less [OF that(2)] by (simp add: heap_ordered_def nth_append)
  moreover have "parent j \<noteq> length xs" if "j < Suc (length xs)" "0 < j" for j using parent_less [OF that(2)] that by simp
  ultimately show "ordered_but_up rank (xs @ [x]) (length xs)" by (auto simp: ordered_but_up_def less_Suc_eq)
qed simp

text \<open>The element taken out trades places with the last one.\<close>

lemma drop_last:
  assumes "i < length xs"
  shows "mset (butlast (exch xs i (length xs - 1))) = mset xs - {#xs ! i#}"
    "length (butlast (exch xs i (length xs - 1))) = length xs - 1"
    "k < length xs - 1 \<Longrightarrow> butlast (exch xs i (length xs - 1)) ! k = (if k = i then xs ! (length xs - 1) else xs ! k)"
proof -
  let ?e = "exch xs i (length xs - 1)"
  have n: "length xs - 1 < length xs" using assms by simp
  have ne: "?e \<noteq> []" using assms by (metis length_exch length_0_conv not_less0)
  have "last ?e = xs ! i" using ne assms by (simp add: last_conv_nth nth_exch)
  then have "?e = butlast ?e @ [xs ! i]" using ne by (metis append_butlast_last_id)
  then have "mset ?e = add_mset (xs ! i) (mset (butlast ?e))"
    by (metis mset.simps(2) mset_append union_mset_add_mset_right mset.simps(1) add.right_neutral)
  then show "mset (butlast ?e) = mset xs - {#xs ! i#}" using mset_exch [OF assms n] by (metis add_mset_remove_trivial)
  show "length (butlast ?e) = length xs - 1" by simp
  show "butlast ?e ! k = (if k = i then xs ! (length xs - 1) else xs ! k)" if "k < length xs - 1"
    using that assms by (simp add: nth_butlast nth_exch)
qed

lemma heap_drop_mset:
  assumes "i < length xs" "\<not> lt (xs ! i) (xs ! i)"
  shows "mset (heap_drop lt i xs) = mset xs - {#xs ! i#}"
proof (cases "lt (xs ! (length xs - 1)) (xs ! i)")
  case True
  then have "i \<noteq> length xs - 1" using assms(2) by metis
  then have "i < length (butlast (exch xs i (length xs - 1)))" using assms(1) by simp
  from mset_up [OF this, of lt] show ?thesis using True drop_last(1) [OF assms(1)] by (simp add: heap_drop_def Let_def)
next
  case False
  then show ?thesis using drop_last(1) [OF assms(1)] by (simp add: heap_drop_def Let_def mset_down)
qed

lemma heap_drop_ordered:
  assumes "heap_ordered rank xs" "i < length xs"
  shows "heap_ordered rank (heap_drop (\<lambda>a b. rank a < rank b) i xs)"
proof -
  define n where "n = length xs - 1"
  define ys where "ys = butlast (exch xs i n)"
  note D = drop_last [OF assms(2), folded n_def, folded ys_def]
  have o: "rank (xs ! parent j) \<le> rank (xs ! j)" if "j < length xs" "0 < j" for j
    using assms(1) that by (simp add: heap_ordered_def)
  have below: "parent j < n" "j < length xs" if "j < n" for j using that by (auto simp: parent_def n_def)
  have il: "i < length xs" by (rule assms(2))
  have grand: "rank (xs ! parent i) \<le> rank (xs ! j)" if "j < length xs" "0 < j" "parent j = i" "0 < i" for j
    using o [OF that(1,2)] o [OF il that(4)] that(3) by simp
  have pl: "parent j < j" if "0 < j" for j by (rule parent_less [OF that])
  show ?thesis
  proof (cases "rank (xs ! n) < rank (xs ! i)")
    case True
    then have "i < n" using assms(2) by (cases "i = n") (auto simp: n_def)
    then have "i < length ys" by (simp add: D(2))
    have "rank (ys ! parent j) \<le> rank (ys ! j)" if "j < n" "0 < j" "j \<noteq> i" for j
      using o [OF below(2) [OF that(1)] that(2)] that True by (auto simp: D(3) below(1) dest: less_imp_le)
    moreover have "rank (ys ! parent i) \<le> rank (ys ! j)" if "j < n" "0 < j" "parent j = i" "0 < i" for j
      using grand [OF below(2) [OF that(1)] that(2-4)] that \<open>i < n\<close> pl [OF that(2)] pl [OF that(4)]
      by (simp add: D(3) below(1))
    ultimately have "ordered_but_up rank ys i" by (simp add: ordered_but_up_def D(2))
    from up_orders [OF this \<open>i < length ys\<close>] True show ?thesis by (simp add: heap_drop_def Let_def n_def ys_def)
  next
    case False
    have "rank (ys ! parent j) \<le> rank (ys ! j)" if "j < n" "0 < j" "parent j \<noteq> i" for j
      using o [OF below(2) [OF that(1)] that(2)] that False by (auto simp: D(3) below(1))
    moreover have "rank (ys ! parent i) \<le> rank (ys ! j)" if "j < n" "0 < j" "parent j = i" "0 < i" for j
      using grand [OF below(2) [OF that(1)] that(2-4)] that pl [OF that(2)] pl [OF that(4)]
      by (simp add: D(3) below(1))
    ultimately have "ordered_but_down rank ys i" by (simp add: ordered_but_down_def D(2))
    from down_orders [OF this] False show ?thesis by (simp add: heap_drop_def Let_def n_def ys_def)
  qed
qed

text \<open>A key that grows, and one that shrinks.\<close>

lemma raised_but_down:
  assumes "heap_ordered r0 xs" "i < length xs" "distinct xs" "r0 (xs ! i) \<le> rank (xs ! i)"
    "\<And>x. x \<in> set xs \<Longrightarrow> x \<noteq> xs ! i \<Longrightarrow> rank x = r0 x"
  shows "ordered_but_down rank xs i"
proof -
  have r: "rank (xs ! j) = r0 (xs ! j)" if "j < length xs" "j \<noteq> i" for j
    using assms(5) [of "xs ! j"] nth_eq_iff_index_eq [OF assms(3) that(1) assms(2)] that by simp
  have o: "r0 (xs ! parent j) \<le> r0 (xs ! j)" if "j < length xs" "0 < j" for j
    using assms(1) that by (simp add: heap_ordered_def)
  have "rank (xs ! parent j) \<le> rank (xs ! j)" if "j < length xs" "0 < j" "parent j \<noteq> i" for j
  proof -
    have "parent j < length xs" using parent_less [OF that(2)] that(1) by simp
    moreover have "r0 (xs ! j) \<le> rank (xs ! j)" using assms(4) r that(1) by (cases "j = i") auto
    ultimately show ?thesis using r [of "parent j"] that(3) o [OF that(1,2)] by simp
  qed
  moreover have "rank (xs ! parent i) \<le> rank (xs ! j)" if "j < length xs" "0 < j" "parent j = i" "0 < i" for j
  proof -
    have "parent i < i" "i < j" using parent_less that by auto
    then have "rank (xs ! parent i) = r0 (xs ! parent i)" "rank (xs ! j) = r0 (xs ! j)" using r assms(2) that(1) by simp_all
    then show ?thesis using o [OF that(1,2)] o [OF assms(2) that(4)] that(3) by simp
  qed
  ultimately show ?thesis by (simp add: ordered_but_down_def)
qed

lemma lowered_but_up:
  assumes "heap_ordered r0 xs" "i < length xs" "distinct xs" "rank (xs ! i) \<le> r0 (xs ! i)"
    "\<And>x. x \<in> set xs \<Longrightarrow> x \<noteq> xs ! i \<Longrightarrow> rank x = r0 x"
  shows "ordered_but_up rank xs i"
proof -
  have r: "rank (xs ! j) = r0 (xs ! j)" if "j < length xs" "j \<noteq> i" for j
    using assms(5) [of "xs ! j"] nth_eq_iff_index_eq [OF assms(3) that(1) assms(2)] that by simp
  have o: "r0 (xs ! parent j) \<le> r0 (xs ! j)" if "j < length xs" "0 < j" for j
    using assms(1) that by (simp add: heap_ordered_def)
  have "rank (xs ! parent j) \<le> rank (xs ! j)" if "j < length xs" "0 < j" "j \<noteq> i" for j
  proof -
    have "parent j < length xs" using parent_less [OF that(2)] that(1) by simp
    then have "rank (xs ! parent j) \<le> r0 (xs ! parent j)" using assms(4) r by (cases "parent j = i") auto
    then show ?thesis using r [OF that(1,3)] o [OF that(1,2)] by simp
  qed
  moreover have "rank (xs ! parent i) \<le> rank (xs ! j)" if "j < length xs" "0 < j" "parent j = i" "0 < i" for j
  proof -
    have "parent i < i" "i < j" using parent_less that by auto
    then have "rank (xs ! parent i) = r0 (xs ! parent i)" "rank (xs ! j) = r0 (xs ! j)" using r assms(2) that(1) by simp_all
    then show ?thesis using o [OF that(1,2)] o [OF assms(2) that(4)] that(3) by simp
  qed
  ultimately show ?thesis by (simp add: ordered_but_up_def)
qed

end
