(* ===== verification/Heap_Props.thy ===== *)
theory Heap_Props
  imports Heap
begin

text \<open>
  What a heap promises: the interface of its comparison function, the operations of a heap in order under
  that interface, sorting by a heap, and where \<open>heap_build\<close> does not build one.
\<close>

section \<open>The interface of a comparison\<close>

text \<open>
  A comparison function orders the heads for which \<open>small\<close> holds by a rank. The rank of a head depends on
  no key but its own.
\<close>

definition heap_holds ::
  "(('p \<Rightarrow> u32) \<Rightarrow> 'p \<Rightarrow> nat) \<Rightarrow> (('p \<Rightarrow> u32) \<Rightarrow> 'p \<Rightarrow> bool) \<Rightarrow> 'p heap \<Rightarrow> 'p list \<Rightarrow> bool" where
  "heap_holds rank small h xs \<longleftrightarrow>
     heap_at h xs \<and> heap_ordered (rank (heap_key h)) xs \<and> (\<forall>x\<in>set xs. small (heap_key h) x)"

lemma heap_holdsD:
  assumes "heap_holds rank small h xs"
  shows "heap_at h xs" "heap_ordered (rank (heap_key h)) xs" "x \<in> set xs \<Longrightarrow> small (heap_key h) x"
  using assms by (simp_all add: heap_holds_def)

locale ranked_compare =
  fixes cmp :: "'p heap_compare" and rank :: "('p \<Rightarrow> u32) \<Rightarrow> 'p \<Rightarrow> nat" and small :: "('p \<Rightarrow> u32) \<Rightarrow> 'p \<Rightarrow> bool"
  assumes rank_law: "small k a \<Longrightarrow> small k b \<Longrightarrow> cmp k a b < 0 \<longleftrightarrow> rank k a < rank k b"
    and rank_own: "k a = k' a \<Longrightarrow> rank k a = rank k' a"
    and small_own: "k a = k' a \<Longrightarrow> small k a = small k' a"
begin

lemma less_rank:
  "\<forall>x\<in>set xs. small k x \<Longrightarrow> a \<in> set xs \<Longrightarrow> b \<in> set xs \<Longrightarrow> cmp k a b < 0 \<longleftrightarrow> rank k a < rank k b"
  using rank_law by blast

lemma upd_other:
  assumes "y \<noteq> x"
  shows "rank (k(x := v)) y = rank k y" "small (k(x := v)) y = small k y"
  by (rule rank_own small_own, simp add: assms)+

text \<open>\<open>heapify\<close> after the head at \<open>i\<close> became larger, in a heap ordered by \<open>r0\<close> before.\<close>

lemma heapify_ok:
  assumes "heap_at h xs" "heap_ordered r0 xs" "i < length xs" "r0 (xs ! i) \<le> rank (heap_key h) (xs ! i)"
    and rest: "\<And>x. x \<in> set xs \<Longrightarrow> x \<noteq> xs ! i \<Longrightarrow> rank (heap_key h) x = r0 x"
    and sm: "\<forall>x\<in>set xs. small (heap_key h) x"
  shows "\<exists>h' ys. heapify cmp (heap_index h (xs ! i)) h = Inr h' \<and> heap_holds rank small h' ys \<and>
    mset ys = mset xs \<and> heap_key h' = heap_key h"
proof -
  let ?k = "heap_key h"
  from heapify_at [OF assms(1) heap_at_index [OF assms(1,3)], of cmp] obtain h' where
    h': "heapify cmp (heap_index h (xs ! i)) h = Inr h'" "heap_at h' (down (compare_less cmp ?k) xs i)"
    "heap_key h' = ?k" by blast
  have eq: "down (compare_less cmp ?k) xs i = down (\<lambda>a b. rank ?k a < rank ?k b) xs i"
    by (rule down_cong) (rule less_rank [OF sm])
  have "heap_ordered (rank ?k) (down (compare_less cmp ?k) xs i)" unfolding eq
    by (rule down_orders) (rule raised_but_down [OF assms(2,3) heap_atD(5) [OF assms(1)] assms(4) rest])
  then have "heap_holds rank small h' (down (compare_less cmp ?k) xs i)"
    using h' sm by (simp add: heap_holds_def down_facts)
  then show ?thesis using h' mset_down by blast
qed

lemma decrease_ok:
  assumes "heap_holds rank small h xs" "x \<in> set xs" "key \<le> heap_key h x"
    and k: "k = (heap_key h)(x := key)" and "small k x" "rank k x \<le> rank (heap_key h) x"
  shows "\<exists>h' ys. heap_decrease_key cmp x key h = Inr h' \<and> heap_holds rank small h' ys \<and>
    mset ys = mset xs \<and> heap_key h' = k"
proof -
  note H = heap_holdsD [OF assms(1)]
  obtain i where i: "i < length xs" "x = xs ! i" using assms(2) in_set_conv_nth by metis
  from heap_decrease_key_at [OF H(1) i(1), of key cmp] assms(3) obtain h' where
    h': "heap_decrease_key cmp x key h = Inr h'" "heap_key h' = k" "heap_at h' (up (compare_less cmp k) xs i)"
    unfolding i(2) [symmetric] k by metis
  have other: "rank k y = rank (heap_key h) y" "small k y = small (heap_key h) y" if "y \<noteq> x" for y
    unfolding k by (rule upd_other [OF that])+
  have sm: "\<forall>y\<in>set xs. small k y"
  proof
    fix y assume "y \<in> set xs"
    then show "small k y" using H(3) other(2) [of y] assms(5) by (cases "y = x") auto
  qed
  have eq: "up (compare_less cmp k) xs i = up (\<lambda>a b. rank k a < rank k b) xs i"
    by (rule up_cong [OF i(1)]) (rule less_rank [OF sm])
  have "heap_ordered (rank k) (up (compare_less cmp k) xs i)" unfolding eq
    by (rule up_orders [OF lowered_but_up [OF H(2) i(1) heap_atD(5) [OF H(1)]] i(1)])
      (use assms(6) other i(2) in auto)
  then have "heap_holds rank small h' (up (compare_less cmp k) xs i)"
    using h' sm up_facts [OF i(1)] by (simp add: heap_holds_def)
  then show ?thesis using h' mset_up [OF i(1)] by blast
qed

lemma insert_ok:
  assumes "heap_holds rank small h xs" "length xs < unat (heap_capacity h)" "x \<notin> set xs"
    and k: "k = (heap_key h)(x := key)" and "small k x"
  shows "\<exists>h' ys. heap_insert cmp x key h = Inr h' \<and> heap_holds rank small h' ys \<and>
    mset ys = add_mset x (mset xs) \<and> heap_key h' = k \<and> heap_capacity h' = heap_capacity h"
proof -
  note H = heap_holdsD [OF assms(1)]
  from heap_insert_at [OF H(1) assms(2,3), of cmp key] obtain h' where
    h': "heap_insert cmp x key h = Inr h'" "heap_key h' = k" "heap_at h' (heap_add (compare_less cmp k) x xs)"
    "heap_capacity h' = heap_capacity h" unfolding k by metis
  have other: "rank k y = rank (heap_key h) y" "small k y = small (heap_key h) y" if "y \<in> set xs" for y
  proof -
    have "y \<noteq> x" using that assms(3) by blast
    then show "rank k y = rank (heap_key h) y" "small k y = small (heap_key h) y" unfolding k by (rule upd_other)+
  qed
  have sm: "\<forall>y\<in>set (xs @ [x]). small k y" using H(3) other(2) assms(5) by simp
  have "compare_less cmp k a b = (rank k a < rank k b)" if "a \<in> set (xs @ [x])" "b \<in> set (xs @ [x])" for a b
    by (rule less_rank [OF sm that])
  then have eq: "heap_add (compare_less cmp k) x xs = heap_add (\<lambda>a b. rank k a < rank k b) x xs"
    unfolding heap_add_def by (intro up_cong) simp_all
  have same: "heap_ordered (rank k) xs \<longleftrightarrow> heap_ordered (rank (heap_key h)) xs"
  proof -
    have p: "parent j < length xs" if "j < length xs" for j using that by (auto simp: parent_def)
    have r: "rank k (xs ! j) = rank (heap_key h) (xs ! j)" if "j < length xs" for j
      by (rule other(1)) (rule nth_mem [OF that])
    have "(rank k (xs ! parent j) \<le> rank k (xs ! j)) = (rank (heap_key h) (xs ! parent j) \<le> rank (heap_key h) (xs ! j))"
      if "j < length xs" for j unfolding r [OF that] r [OF p [OF that]] ..
    then show ?thesis unfolding heap_ordered_def by blast
  qed
  have "heap_ordered (rank k) (heap_add (compare_less cmp k) x xs)"
    unfolding eq by (rule heap_add_ordered [OF iffD2 [OF same H(2)]])
  moreover have "set (heap_add (compare_less cmp k) x xs) = set (xs @ [x])"
    by (rule mset_eq_setD) (simp add: heap_add_mset)
  ultimately have "heap_holds rank small h' (heap_add (compare_less cmp k) x xs)"
    using h' sm by (simp add: heap_holds_def)
  then show ?thesis
    by (intro exI [of _ h'] exI [of _ "heap_add (compare_less cmp k) x xs"]) (simp add: h' heap_add_mset)
qed

lemma delete_ok:
  assumes "heap_holds rank small h xs" "x \<in> set xs"
  shows "\<exists>h' ys. heap_delete cmp x h = Inr h' \<and> heap_holds rank small h' ys \<and>
    mset ys = mset xs - {#x#} \<and> heap_key h' = heap_key h \<and> heap_capacity h' = heap_capacity h"
proof -
  note H = heap_holdsD [OF assms(1)]
  let ?k = "heap_key h"
  have sm: "\<forall>y\<in>set xs. small ?k y" using H(3) by blast
  obtain i where i: "i < length xs" "x = xs ! i" using assms(2) in_set_conv_nth by metis
  have irr: "\<not> cmp ?k (xs ! i) (xs ! i) < 0" using less_rank [OF sm] i(1) by simp
  from heap_delete_at [of h xs i cmp, OF H(1) i(1) irr] obtain h' where
    h': "heap_delete cmp x h = Inr h'" "heap_key h' = ?k" "heap_at h' (heap_drop (compare_less cmp ?k) i xs)"
    "heap_capacity h' = heap_capacity h" unfolding i(2) by blast
  define n where "n = length xs - 1"
  have n: "n < length xs" using i(1) by (simp add: n_def)
  let ?ys = "butlast (exch xs i n)"
  have sub: "set ?ys \<subseteq> set xs" using set_exch [OF i(1) n] in_set_butlastD by fastforce
  have c: "cmp ?k (xs ! n) (xs ! i) < 0 \<longleftrightarrow> rank ?k (xs ! n) < rank ?k (xs ! i)"
    using less_rank [OF sm] i(1) n by simp
  have "up (compare_less cmp ?k) ?ys i = up (\<lambda>a b. rank ?k a < rank ?k b) ?ys i" if "i < length ?ys"
    by (rule up_cong [OF that]) (use less_rank [OF sm] sub in blast)
  moreover have "down (compare_less cmp ?k) ?ys i = down (\<lambda>a b. rank ?k a < rank ?k b) ?ys i"
    by (rule down_cong) (use less_rank [OF sm] sub in blast)
  moreover have "i < length ?ys" if "rank ?k (xs ! n) < rank ?k (xs ! i)"
    using that i(1) by (cases "i = n") (simp_all add: n_def)
  ultimately have eq: "heap_drop (compare_less cmp ?k) i xs = heap_drop (\<lambda>a b. rank ?k a < rank ?k b) i xs"
    unfolding heap_drop_def n_def [symmetric] Let_def c by simp
  have "mset (heap_drop (compare_less cmp ?k) i xs) = mset xs - {#x#}"
    using heap_drop_mset [OF i(1), of "compare_less cmp ?k"] irr i(2) by simp
  moreover from this have "set (heap_drop (compare_less cmp ?k) i xs) \<subseteq> set xs"
    by (metis in_diffD set_mset_mset subsetI)
  ultimately show ?thesis
    using h' sm heap_drop_ordered [OF H(2) i(1)] unfolding eq by (auto simp: heap_holds_def)
qed

lemma min_ok:
  assumes "heap_holds rank small h xs"
  shows "heap_min h = Inr (if xs = [] then None else Some (xs ! 0))"
    "y \<in> set xs \<Longrightarrow> rank (heap_key h) (xs ! 0) \<le> rank (heap_key h) y"
proof -
  note H = heap_holdsD [OF assms]
  show "heap_min h = Inr (if xs = [] then None else Some (xs ! 0))" by (rule heap_min_at [OF H(1)])
  show "rank (heap_key h) (xs ! 0) \<le> rank (heap_key h) y" if "y \<in> set xs"
    using that heap_root [OF H(2)] by (auto simp: in_set_conv_nth)
qed

lemma pop_ok:
  assumes "heap_holds rank small h xs" "xs \<noteq> []"
  shows "\<exists>x h' ys. heap_min_pop cmp h = Inr (Some x, h') \<and> heap_holds rank small h' ys \<and> x \<in> set xs \<and>
    (\<forall>y\<in>set xs. rank (heap_key h) x \<le> rank (heap_key h) y) \<and> mset ys = mset xs - {#x#} \<and>
    heap_key h' = heap_key h \<and> heap_capacity h' = heap_capacity h"
proof -
  have x: "xs ! 0 \<in> set xs" using assms(2) by simp
  from delete_ok [OF assms(1) x] show ?thesis
    using min_ok [OF assms(1)] assms(2) x by (auto simp: heap_min_pop_def)
qed

lemma pop_empty: "heap_holds rank small h [] \<Longrightarrow> heap_min_pop cmp h = Inr (None, h)"
  using min_ok(1) [of h "[]"] by (simp add: heap_min_pop_def)

end

section \<open>The default comparison\<close>

definition key_rank :: "('p \<Rightarrow> u32) \<Rightarrow> 'p \<Rightarrow> nat" where
  "key_rank k a = unat (k a)"

abbreviation any_key :: "('p \<Rightarrow> u32) \<Rightarrow> 'p \<Rightarrow> bool" where
  "any_key \<equiv> \<lambda>_ _. True"

interpretation default_heap: ranked_compare heap_default_compare key_rank any_key
  by unfold_locales (auto simp: heap_default_compare_def key_rank_def word_less_nat_alt)

section \<open>Priority queues\<close>

text \<open>The heap as a map from the heads in it to their keys, and the operations on the map.\<close>

datatype 'p heap_op = Insert 'p u32 | Delete 'p | Decrease 'p u32 | Pop

fun heap_do :: "'p heap_op \<Rightarrow> 'p heap \<Rightarrow> ('p option \<times> 'p heap) res" where
  "heap_do (Insert p k) h = rbind (heap_insert heap_default_compare p k h) (\<lambda>h. Inr (None, h))"
| "heap_do (Delete p) h = rbind (heap_delete heap_default_compare p h) (\<lambda>h. Inr (None, h))"
| "heap_do (Decrease p k) h = rbind (heap_decrease_key heap_default_compare p k h) (\<lambda>h. Inr (None, h))"
| "heap_do Pop h = heap_min_pop heap_default_compare h"

fun heap_legal :: "nat \<Rightarrow> ('p \<rightharpoonup> u32) \<Rightarrow> 'p heap_op \<Rightarrow> bool" where
  "heap_legal c m (Insert p k) \<longleftrightarrow> m p = None \<and> card (dom m) < c"
| "heap_legal c m (Delete p) \<longleftrightarrow> m p \<noteq> None"
| "heap_legal c m (Decrease p k) \<longleftrightarrow> (case m p of None \<Rightarrow> False | Some j \<Rightarrow> k \<le> j)"
| "heap_legal c m Pop \<longleftrightarrow> True"

fun priority_step :: "'p heap_op \<Rightarrow> ('p \<rightharpoonup> u32) \<Rightarrow> 'p option \<Rightarrow> ('p \<rightharpoonup> u32) \<Rightarrow> bool" where
  "priority_step (Insert p k) m out m' \<longleftrightarrow> out = None \<and> m' = m(p \<mapsto> k)"
| "priority_step (Delete p) m out m' \<longleftrightarrow> out = None \<and> m' = m(p := None)"
| "priority_step (Decrease p k) m out m' \<longleftrightarrow> out = None \<and> m' = m(p \<mapsto> k)"
| "priority_step Pop m out m' \<longleftrightarrow>
     (case out of
        None \<Rightarrow> m = Map.empty \<and> m' = m
      | Some p \<Rightarrow> p \<in> dom m \<and> (\<forall>q\<in>dom m. the (m p) \<le> the (m q)) \<and> m' = m(p := None))"

definition keys_in :: "'p heap \<Rightarrow> 'p set \<Rightarrow> 'p \<rightharpoonup> u32" where
  "keys_in h A = (\<lambda>p. if p \<in> A then Some (heap_key h p) else None)"

definition heap_sim :: "u32 \<Rightarrow> 'p heap \<Rightarrow> ('p \<rightharpoonup> u32) \<Rightarrow> bool" where
  "heap_sim c h m \<longleftrightarrow> heap_capacity h = c \<and> (\<exists>xs. heap_holds key_rank any_key h xs \<and> m = keys_in h (set xs))"

lemma mset_remove: "distinct xs \<Longrightarrow> mset ys = mset xs - {#x#} \<Longrightarrow> set ys = set xs - {x}"
  by (metis mset_remove1 mset_eq_setD set_remove1_eq)

lemma keys_in_dom [simp]: "dom (keys_in h A) = A"
  by (auto simp: keys_in_def split: if_splits)

lemma keys_in_same: "heap_key h' = heap_key h \<Longrightarrow> keys_in h' A = keys_in h A"
  by (intro ext) (simp add: keys_in_def)

lemma keys_in_minus: "keys_in h (A - {x}) = (keys_in h A)(x := None)"
  by (auto simp: keys_in_def)

lemma heap_init_holds: "2 * unat c < 2 ^ 32 \<Longrightarrow> heap_holds rank small (heap_init c h) []"
  by (simp add: heap_holds_def heap_init_at heap_ordered_def)

text \<open>
  C29. With its default comparison the array heap is a priority queue: in a heap that holds the heads of the
  map \<open>m\<close> with their keys, every insertion into a heap with room, deletion or decrease of a key of a head that
  is in it, and removal of the minimum runs without a fault, ends in a heap that again holds a map, and
  acts on the map as it should; in particular the head popped is one with the least key of all.
\<close>
theorem heap_refines:
  assumes "heap_sim c h m" "heap_legal (unat c) m op"
  shows "\<exists>out h' m'. heap_do op h = Inr (out, h') \<and> heap_sim c h' m' \<and> priority_step op m out m'"
proof -
  obtain xs where xs: "heap_holds key_rank any_key h xs" "m = keys_in h (set xs)" and c: "heap_capacity h = c"
    using assms(1) by (auto simp: heap_sim_def)
  note H = heap_holdsD [OF xs(1)] and dom = keys_in_dom [of h "set xs"]
  note dx = heap_atD(5) [OF H(1)]
  show ?thesis
  proof (cases op)
    case (Insert p k)
    then have p: "p \<notin> set xs" "length xs < unat (heap_capacity h)"
      using assms(2) c distinct_card [OF dx] by (auto simp: xs(2) keys_in_def [of h] dom [unfolded keys_in_def])
    from default_heap.insert_ok [OF xs(1) p(2,1) refl, of k] obtain h' ys where
      h': "heap_insert heap_default_compare p k h = Inr h'" "heap_holds key_rank any_key h' ys"
      "mset ys = add_mset p (mset xs)" "heap_key h' = (heap_key h)(p := k)" "heap_capacity h' = heap_capacity h" by auto
    have "set ys = insert p (set xs)" using mset_eq_setD [of ys "p # xs"] h'(3) by simp
    then have "keys_in h' (set ys) = m(p \<mapsto> k)" by (auto simp: keys_in_def h'(4) xs(2))
    then show ?thesis using h' c Insert by (auto simp: heap_sim_def)
  next
    case (Delete p)
    then have p: "p \<in> set xs" using assms(2) by (auto simp: xs(2) keys_in_def split: if_splits)
    from default_heap.delete_ok [OF xs(1) p] obtain h' ys where
      h': "heap_delete heap_default_compare p h = Inr h'" "heap_holds key_rank any_key h' ys"
      "mset ys = mset xs - {#p#}" "heap_key h' = heap_key h" "heap_capacity h' = heap_capacity h" by auto
    have "keys_in h' (set ys) = m(p := None)"
      by (simp only: mset_remove [OF dx h'(3)] keys_in_same [OF h'(4)] keys_in_minus xs(2))
    then show ?thesis using h' c Delete by (auto simp: heap_sim_def)
  next
    case (Decrease p k)
    then have p: "p \<in> set xs" "k \<le> heap_key h p"
      using assms(2) by (auto simp: xs(2) keys_in_def split: if_splits)
    then have "key_rank ((heap_key h)(p := k)) p \<le> key_rank (heap_key h) p" by (simp add: key_rank_def word_le_nat_alt)
    from default_heap.decrease_ok [OF xs(1) p refl _ this] obtain h' ys where
      h': "heap_decrease_key heap_default_compare p k h = Inr h'" "heap_holds key_rank any_key h' ys"
      "mset ys = mset xs" "heap_key h' = (heap_key h)(p := k)" by auto
    have cap: "heap_capacity h' = heap_capacity h"
    proof -
      obtain i where "i < length xs" "p = xs ! i" using p(1) in_set_conv_nth by metis
      then show ?thesis using heap_decrease_key_at [OF H(1), of i k heap_default_compare] p(2) h'(1) by auto
    qed
    have "keys_in h' (set ys) = m(p \<mapsto> k)"
      using mset_eq_setD [OF h'(3)] p(1) by (auto simp: keys_in_def h'(4) xs(2))
    then show ?thesis using h' c cap Decrease by (auto simp: heap_sim_def)
  next
    case Pop
    show ?thesis
    proof (cases "xs = []")
      case True
      then have "heap_min_pop heap_default_compare h = Inr (None, h)" using default_heap.pop_empty xs(1) by blast
      moreover have "m = Map.empty" by (simp add: xs(2) True keys_in_def)
      ultimately show ?thesis using Pop assms(1) by auto
    next
      case False
      from default_heap.pop_ok [OF xs(1) False] obtain p h' ys where
        h': "heap_min_pop heap_default_compare h = Inr (Some p, h')" "heap_holds key_rank any_key h' ys" "p \<in> set xs"
        "\<forall>y\<in>set xs. key_rank (heap_key h) p \<le> key_rank (heap_key h) y" "mset ys = mset xs - {#p#}"
        "heap_key h' = heap_key h" "heap_capacity h' = heap_capacity h" by blast
      have "keys_in h' (set ys) = m(p := None)"
        by (simp only: mset_remove [OF dx h'(5)] keys_in_same [OF h'(6)] keys_in_minus xs(2))
      moreover have "\<forall>q\<in>dom m. the (m p) \<le> the (m q)" "p \<in> dom m"
        using h'(3,4) unfolding xs(2) keys_in_dom by (simp_all add: keys_in_def key_rank_def word_le_nat_alt)
      ultimately show ?thesis using h' c Pop by (auto simp: heap_sim_def)
    qed
  qed
qed

definition empty_heap :: "nat heap" where
  "empty_heap = heap_init 3 \<lparr>heap_arr = [], heap_capacity = 0, heap_size = 0, heap_key = (\<lambda>_. 0), heap_index = (\<lambda>_. 0)\<rparr>"

lemma empty_heap_sim: "heap_sim 3 empty_heap Map.empty"
proof -
  have "heap_holds key_rank any_key empty_heap []" unfolding empty_heap_def by (rule heap_init_holds) simp
  then show ?thesis by (auto simp: heap_sim_def keys_in_def empty_heap_def heap_init_def)
qed

theorem heap_refines_witness:
  "\<exists>h'. heap_do (Insert 5 9) empty_heap = Inr (None, h') \<and> heap_sim 3 h' [5 \<mapsto> 9]"
  using heap_refines [OF empty_heap_sim, of "Insert 5 9"] by auto

section \<open>Sorting\<close>

fun heap_fill :: "('p \<times> u32) list \<Rightarrow> 'p heap \<Rightarrow> 'p heap res" where
  "heap_fill [] h = Inr h"
| "heap_fill ((p, k) # xs) h = rbind (heap_insert heap_default_compare p k h) (heap_fill xs)"

fun heap_drain :: "nat \<Rightarrow> 'p heap \<Rightarrow> ('p option list \<times> 'p heap) res" where
  "heap_drain 0 h = Inr ([], h)"
| "heap_drain (Suc n) h =
     rbind (heap_min_pop heap_default_compare h) (\<lambda>(x, h).
     rbind (heap_drain n h) (\<lambda>(xs, h). Inr (x # xs, h)))"

lemma heap_fill_ok:
  assumes "heap_holds key_rank any_key h ys" "distinct (map fst xs)" "fst ` set xs \<inter> set ys = {}"
    "length ys + length xs \<le> unat (heap_capacity h)"
  shows "\<exists>h' zs. heap_fill xs h = Inr h' \<and> heap_holds key_rank any_key h' zs \<and> mset zs = mset (map fst xs) + mset ys \<and>
    (\<forall>(p, k)\<in>set xs. heap_key h' p = k) \<and> (\<forall>p. p \<notin> fst ` set xs \<longrightarrow> heap_key h' p = heap_key h p)"
  using assms
proof (induction xs arbitrary: h ys)
  case (Cons x xs)
  obtain p k where x: "x = (p, k)" by fastforce
  have "length ys < unat (heap_capacity h)" "p \<notin> set ys" using Cons.prems(3,4) x by auto
  from default_heap.insert_ok [OF Cons.prems(1) this refl, of k] obtain h1 us where
    h1: "heap_insert heap_default_compare p k h = Inr h1" "heap_holds key_rank any_key h1 us"
    "mset us = add_mset p (mset ys)" "heap_key h1 = (heap_key h)(p := k)" "heap_capacity h1 = heap_capacity h" by auto
  have us: "set us = insert p (set ys)" "length us = Suc (length ys)"
    using mset_eq_setD [of us "p # ys"] mset_eq_length [of us "p # ys"] h1(3) by simp_all
  have d: "distinct (map fst xs)" "p \<notin> fst ` set xs" using Cons.prems(2) x by auto
  have "fst ` set xs \<inter> set us = {}" using Cons.prems(3) d us by auto
  moreover have "length us + length xs \<le> unat (heap_capacity h1)" using Cons.prems(4) us h1(5) by simp
  ultimately obtain h' zs where h': "heap_fill xs h1 = Inr h'" "heap_holds key_rank any_key h' zs"
    "mset zs = mset (map fst xs) + mset us" "\<forall>(p, k)\<in>set xs. heap_key h' p = k"
    "\<forall>p. p \<notin> fst ` set xs \<longrightarrow> heap_key h' p = heap_key h1 p"
    using Cons.IH [OF h1(2) d(1)] by blast
  then have "heap_key h' p = k" using d h1(4) by simp
  then show ?case using h1(1,3,4) h' by (intro exI [of _ h'] exI [of _ zs]) (auto simp: x)
qed auto

lemma heap_drain_ok:
  assumes "heap_holds key_rank any_key h xs" "n = length xs"
  shows "\<exists>ys h'. heap_drain n h = Inr (map Some ys, h') \<and> mset ys = mset xs \<and> sorted (map (heap_key h) ys) \<and>
    heap_holds key_rank any_key h' []"
  using assms
proof (induction n arbitrary: h xs)
  case 0
  then show ?case by (intro exI [of _ "[]"] exI [of _ h]) simp
next
  case (Suc n)
  then have ne: "xs \<noteq> []" by auto
  from default_heap.pop_ok [OF Suc.prems(1) ne] obtain x h1 us where
    h1: "heap_min_pop heap_default_compare h = Inr (Some x, h1)" "heap_holds key_rank any_key h1 us" "x \<in> set xs"
    "\<forall>y\<in>set xs. key_rank (heap_key h) x \<le> key_rank (heap_key h) y" "mset us = mset xs - {#x#}"
    "heap_key h1 = heap_key h" by blast
  have m: "mset xs = add_mset x (mset us)" using h1(3,5) by simp
  then have "n = length us" using Suc.prems(2) mset_eq_length [of xs "x # us"] by simp
  from Suc.IH [OF h1(2) this] obtain ys h' where
    h': "heap_drain n h1 = Inr (map Some ys, h')" "mset ys = mset us" "sorted (map (heap_key h) ys)"
    "heap_holds key_rank any_key h' []" unfolding h1(6) by blast
  have "set ys \<subseteq> set xs" using mset_eq_setD [OF h'(2)] m by (metis set_mset_add_mset_insert set_mset_mset subset_insertI)
  then have "sorted (map (heap_key h) (x # ys))"
    using h'(3) h1(4) by (auto simp: key_rank_def word_le_nat_alt)
  then show ?case using h1(1) h' m by (intro exI [of _ "x # ys"] exI [of _ h']) simp
qed

text \<open>
  A heap sorts: inserting any distinct heads, as many as the capacity allows, into an initialised heap and
  taking the minimum out as often runs without a fault and gives exactly these heads, in the order of
  their keys, and leaves the heap empty.
\<close>
theorem heap_sorts:
  assumes "distinct (map fst xs)" "length xs \<le> unat c" "2 * unat c < 2 ^ 32"
  shows "\<exists>h ys h'. heap_fill xs (heap_init c h0) = Inr h \<and> heap_drain (length xs) h = Inr (map Some ys, h') \<and>
    mset ys = mset (map fst xs) \<and> sorted (map (\<lambda>p. the (map_of xs p)) ys) \<and> heap_min h' = Inr None"
proof -
  have "unat (heap_capacity (heap_init c h0)) = unat c" by (simp add: heap_init_def)
  then have "length [] + length xs \<le> unat (heap_capacity (heap_init c h0))" using assms(2) by simp
  from heap_fill_ok [OF heap_init_holds [OF assms(3)] assms(1) _ this] obtain h zs where
    h: "heap_fill xs (heap_init c h0) = Inr h" "heap_holds key_rank any_key h zs" "mset zs = mset (map fst xs)"
    "\<forall>(p, k)\<in>set xs. heap_key h p = k" by auto
  have "length xs = length zs" using mset_eq_length [OF h(3)] by simp
  from heap_drain_ok [OF h(2) this] obtain ys h' where
    h': "heap_drain (length xs) h = Inr (map Some ys, h')" "mset ys = mset zs" "sorted (map (heap_key h) ys)"
    "heap_holds key_rank any_key h' []" by blast
  have "heap_key h p = the (map_of xs p)" if "p \<in> set ys" for p
  proof -
    have "p \<in> fst ` set xs" using that mset_eq_setD [of ys "map fst xs"] h'(2) h(3) by simp
    then obtain k where "(p, k) \<in> set xs" by auto
    then show ?thesis using h(4) assms(1) by auto
  qed
  then have "map (heap_key h) ys = map (\<lambda>p. the (map_of xs p)) ys" by simp
  moreover have "heap_min h' = Inr None" using default_heap.min_ok(1) [OF h'(4)] by simp
  ultimately show ?thesis using h h' by metis
qed

theorem heap_sorts_witness:
  "\<exists>h ys h'. heap_fill [(7::nat, 3), (8, 1), (9, 2)] (heap_init 3 empty_heap) = Inr h \<and>
    heap_drain 3 h = Inr (map Some ys, h') \<and> mset ys = {#7, 8, 9#} \<and> heap_min h' = Inr None"
proof -
  let ?xs = "[(7::nat, 3 :: u32), (8, 1), (9, 2)]"
  have "distinct (map fst ?xs)" "length ?xs \<le> unat (3 :: u32)" "2 * unat (3 :: u32) < 2 ^ 32" by simp_all
  moreover have "length ?xs = 3" "mset (map fst ?xs) = {#7, 8, 9#}" by simp_all
  ultimately show ?thesis using heap_sorts [of ?xs 3 empty_heap] by metis
qed

section \<open>The loops end\<close>

text \<open>
  C30. The loops of the heap end without a fault whatever the comparison function answers, even if it is not an
  order: from any index \<open>heapify\<close> only moves heads away from the root and the loop of \<open>heap_decrease_key\<close> only
  towards it, and both keep the heads of the heap.
\<close>
theorem heap_loops_end:
  assumes "heap_at h xs"
  shows "(\<exists>h' ys. heapify_loop cmp w h = Some (Inr h') \<and> heap_at h' ys \<and> mset ys = mset xs) \<and>
    (\<forall>i<length xs. \<exists>p h' ys. heap_parent h (xs ! i) = Inr p \<and> sift_up cmp (xs ! i) p h = Some (Inr h') \<and>
       heap_at h' ys \<and> mset ys = mset xs)"
proof (intro conjI allI impI)
  from heapify_at [OF assms refl, of cmp w] obtain h' where
    h': "heapify cmp w h = Inr h'" "heap_at h' (down (compare_less cmp (heap_key h)) xs (unat w))" by blast
  then have "heapify_loop cmp w h = Some (Inr h')" by (cases "heapify_loop cmp w h") (simp_all add: heapify_def)
  then show "\<exists>h' ys. heapify_loop cmp w h = Some (Inr h') \<and> heap_at h' ys \<and> mset ys = mset xs"
    using h'(2) mset_down by blast
  fix i assume i: "i < length xs"
  from sift_up_at [OF assms i, of cmp] heap_parent_at [OF assms i] mset_up [OF i]
  show "\<exists>p h' ys. heap_parent h (xs ! i) = Inr p \<and> sift_up cmp (xs ! i) p h = Some (Inr h') \<and>
       heap_at h' ys \<and> mset ys = mset xs" by blast
qed

theorem heap_loops_end_witness:
  "\<exists>h'. heapify_loop (\<lambda>_ _ _. - 1) 0 empty_heap = Some (Inr h') \<and> heap_at h' []"
proof -
  have "heap_at empty_heap []" unfolding empty_heap_def by (rule heap_init_at) simp
  from heap_loops_end [OF this, of "\<lambda>_ _ _. - 1" 0] show ?thesis by auto
qed

section \<open>Building\<close>

definition seven_heads :: "nat heap" where
  "seven_heads = \<lparr>heap_arr = map Some [0..<7], heap_capacity = 7, heap_size = 7,
     heap_key = (\<lambda>p. [1, 5, 2, 0, 6, 3, 4] ! p), heap_index = of_nat\<rparr>"

lemma heapify_in_place:
  assumes "heap_at h xs" "unat w = i" "i < length xs" "least (compare_less cmp (heap_key h)) xs i = i"
  shows "heapify cmp w h = Inr h"
proof -
  have "\<not> heap_size h \<le> w" using heap_atD(3) [OF assms(1)] assms(2,3) by (simp add: word_le_nat_alt)
  moreover have "heapify_step cmp w h = Inr (None, h)" using heapify_step_at [OF assms(1-3) refl, of cmp] assms(4) by simp
  ultimately show ?thesis by (simp add: heapify_def heapify_loop.simps)
qed

lemma seven_heads_at: "heap_at seven_heads [0..<7]"
  by (simp add: heap_at_def seven_heads_def)

lemma seven_heads_build: "heap_build heap_default_compare seven_heads = Inr seven_heads"
proof -
  let ?h = seven_heads and ?xs = "[0..<7]"
  have "least (compare_less heap_default_compare (heap_key ?h)) ?xs i = i" if "i = 6 \<or> i = 2 \<or> i = 0" for i
    using that by (auto simp: least_def seven_heads_def heap_default_compare_def)
  then have hy: "heapify heap_default_compare (of_nat i) ?h = Inr ?h" if "i = 6 \<or> i = 2 \<or> i = 0" for i
    using heapify_in_place [OF seven_heads_at, of "of_nat i" i] that by auto
  have p: "parent 6 = 2" "parent 2 = 0" by (simp_all add: parent_def)
  have q: "heap_parent ?h i = Inr (if 0 < i then Some (parent i) else None)" if "i < 7" for i
  proof -
    have "parent i < 7" using that by (auto simp: parent_def)
    then show ?thesis using heap_parent_at [OF seven_heads_at, of i] that by (simp del: upt_Suc upt_rec_numeral)
  qed
  have pr: "heap_parent ?h 6 = Inr (Some 2)" "heap_parent ?h 2 = Inr (Some 0)" "heap_parent ?h 0 = Inr None"
    by (simp_all add: q p)
  have ix: "heap_index ?h i = of_nat i" for i by (simp add: seven_heads_def)
  have "build_loop heap_default_compare None ?h = Some (Inr ?h)" by (subst build_loop.simps) simp
  then have "build_loop heap_default_compare (Some 0) ?h = Some (Inr ?h)"
    using hy [of 0] pr(3) by (subst build_loop.simps) (simp add: ix)
  then have "build_loop heap_default_compare (Some 2) ?h = Some (Inr ?h)"
    using hy [of 2] pr(2) by (subst build_loop.simps) (simp add: ix)
  then have "build_loop heap_default_compare (Some 6) ?h = Some (Inr ?h)"
    using hy [of 6] pr(1) by (subst build_loop.simps) (simp add: ix)
  moreover have "heap_size ?h \<noteq> 0" "arr_read ?h (heap_size ?h - 1) = Inr (Some 6)"
    by (simp_all add: seven_heads_def arr_read_def)
  ultimately show ?thesis by (simp add: heap_build_def)
qed

text \<open>
  \<open>heap_build\<close>, which \<open>heap_set_compare\<close> calls, does not build a heap: it restores the order only on the path
  from the last element to the root. In an array of seven heads with the keys 1, 5, 2, 0, 6, 3, 4 the path
  is in order, the array stays as it is, and \<open>heap_min\<close> returns the head with the key 1 although one has the
  key 0.
\<close>

theorem heap_build_incomplete:
  "heap_at seven_heads [0..<7] \<and>
   heap_build heap_default_compare seven_heads = Inr seven_heads \<and>
   heap_min seven_heads = Inr (Some 0) \<and> heap_key seven_heads 3 < heap_key seven_heads 0"
  using seven_heads_at seven_heads_build heap_min_at [OF seven_heads_at] by (simp add: seven_heads_def)

end
