(* ===== verification/Lfu.thy ===== *)
theory Lfu
  imports Parts Heap_Props
begin

text \<open>
  LFU (\<open>src/src/algs/lfu/lfu_policy.c\<close>, \<open>lfu_policy_struct.h\<close>): the resident blocks in a heap ordered by how often they
  were accessed, and by the time of the last access among equals. The theory has its transactions and API
  functions, and the comparison function as an instance of the interface of the heap.
\<close>

section \<open>The policy\<close>

text \<open>
  \<open>lfu_entry\<close> adds to \<open>entry\<close> the head of the heap: its two fields, of all entries, are \<open>heap_key\<close> and
  \<open>heap_index\<close> of the heap. The key is the number of accesses.
\<close>

record lfu_policy = "unit cache_nucleus" +
  lfu_heap :: "eptr heap"

text \<open>The differences are unsigned words read as \<open>int\<close>.\<close>

definition lfu_compare :: "(eptr \<Rightarrow> entry) \<Rightarrow> eptr heap_compare" where
  "lfu_compare st k a b =
     (if k a = k b then sint (e_time (st a) - e_time (st b)) else sint (k a - k b))"

record lfu_transaction =
  lft_oblock :: oblock
  lft_hit :: bool
  lft_evict :: bool

definition lfu_transaction_init :: "oblock \<Rightarrow> lfu_transaction" where
  "lfu_transaction_init ob = \<lparr>lft_oblock = ob, lft_hit = False, lft_evict = False\<rparr>"

definition lfu_transaction_set :: "lfu_policy \<Rightarrow> lfu_transaction \<Rightarrow> lfu_transaction" where
  "lfu_transaction_set s lt =
     (if ht_lookup (lft_oblock lt) s \<noteq> None then lt\<lparr>lft_hit := True\<rparr>
      else if cache_is_full s then lt\<lparr>lft_evict := True\<rparr> else lt)"

definition lfu_transaction_is_legal :: "lfu_policy \<Rightarrow> lfu_transaction \<Rightarrow> bool" where
  "lfu_transaction_is_legal s lt = (if lft_evict lt then heap_size (lfu_heap s) > 0 else True)"

definition lfu_remove_entry :: "eptr \<Rightarrow> lfu_policy \<Rightarrow> lfu_policy res" where
  "lfu_remove_entry e s =
     rbind (if \<not> e_migrating (store s e) then
              rbind (heap_delete (lfu_compare (store s)) e (lfu_heap s)) (\<lambda>h.
              Inr (upd_stats inc_demotions (s\<lparr>lfu_heap := h\<rparr>)))
            else Inr s) (cache_nucleus_remove e)"

text \<open>The three parts of \<open>lfu_transaction_commit\<close>: an eviction, a hit, a new block.\<close>

definition lfu_evict :: "cn_result \<Rightarrow> lfu_policy \<Rightarrow> (cn_result \<times> lfu_policy) res" where
  "lfu_evict result s =
     rbind (heap_min (lfu_heap s)) (\<lambda>demoted.
     rbind (deref demoted) (\<lambda>e.
     let result = result\<lparr>r_old_oblock := e_oblock (store s e), r_dirty_eviction := e_dirty (store s e)\<rparr> in
     rbind (lfu_remove_entry e s) (\<lambda>s. Inr (result\<lparr>r_op := CACHE_NUCLEUS_REPLACE\<rparr>, s))))"

definition lfu_touch :: "oblock \<Rightarrow> cn_result \<Rightarrow> lfu_policy \<Rightarrow> (cn_result \<times> lfu_policy) res" where
  "lfu_touch ob result s =
     rbind (deref (ht_lookup ob s)) (\<lambda>e.
     rbind (infer_cblock (cache_pool s) e) (\<lambda>cb.
     let s = upd_entry e (\<lambda>x. x\<lparr>e_time := cn_time s\<rparr>) s;
         h = lfu_heap s;
         h = h\<lparr>heap_key := (heap_key h)(e := heap_key h e + 1)\<rparr> in
     rbind (if \<not> e_migrating (store s e) then heapify (lfu_compare (store s)) (heap_index h e) h else Inr h) (\<lambda>h.
     Inr (result\<lparr>r_cblock := cb, r_op := CACHE_NUCLEUS_HIT\<rparr>, upd_stats inc_hits (s\<lparr>lfu_heap := h\<rparr>)))))"

definition lfu_admit :: "oblock \<Rightarrow> cn_result \<Rightarrow> lfu_policy \<Rightarrow> (cn_result \<times> lfu_policy) res" where
  "lfu_admit ob result s =
     rbind (insert_in_cache ob (Some result) s) (\<lambda>(e, res, s).
     rbind (deref res) (\<lambda>result.
     let s = upd_entry e (\<lambda>x. x\<lparr>e_time := cn_time s\<rparr>) s;
         h = lfu_heap s;
         s = s\<lparr>lfu_heap := h\<lparr>heap_key := (heap_key h)(e := 1)\<rparr>\<rparr> in
     rbind (cn_migrating_entry e s) (\<lambda>s. Inr (result, upd_stats inc_misses s))))"

definition lfu_transaction_commit ::
  "lfu_transaction \<Rightarrow> cn_result \<Rightarrow> lfu_policy \<Rightarrow> (cn_result \<times> lfu_policy) res" where
  "lfu_transaction_commit lt result s =
     (let result = result\<lparr>r_op := CACHE_NUCLEUS_NEW\<rparr> in
      rbind (if lft_evict lt then lfu_evict result s else Inr (result, s)) (\<lambda>(result, s).
      if lft_hit lt then lfu_touch (lft_oblock lt) result s
      else lfu_admit (lft_oblock lt) result s))"

section \<open>API functions\<close>

definition lfu_remove_api :: "oblock \<Rightarrow> bool \<Rightarrow> lfu_policy \<Rightarrow> lfu_policy res" where
  "lfu_remove_api ob remove_to_history s = rbind (deref (ht_lookup ob s)) (\<lambda>e. lfu_remove_entry e s)"

definition lfu_insert_api :: "oblock \<Rightarrow> cblock \<Rightarrow> lfu_policy \<Rightarrow> lfu_policy res" where
  "lfu_insert_api ob cb s =
     rbind (insert_in_cache_at ob cb None s) (\<lambda>(e, _, s).
     let s = upd_entry e (\<lambda>x. x\<lparr>e_time := cn_time s\<rparr>) s;
         h = lfu_heap s in
     rbind (heap_insert (lfu_compare (store s)) e 1 (h\<lparr>heap_key := (heap_key h)(e := 1)\<rparr>)) (\<lambda>h.
     Inr (s\<lparr>lfu_heap := h\<rparr>)))"

definition lfu_migrated_api :: "oblock \<Rightarrow> lfu_policy \<Rightarrow> lfu_policy res" where
  "lfu_migrated_api ob s =
     rbind (deref (ht_lookup ob s)) (\<lambda>e.
     rbind (cn_migrated_entry e s) (\<lambda>s.
     rbind (heap_insert (lfu_compare (store s)) e (heap_key (lfu_heap s) e) (lfu_heap s)) (\<lambda>h.
     Inr (upd_stats inc_promotions (s\<lparr>lfu_heap := h\<rparr>)))))"

definition lfu_map_api ::
  "oblock \<Rightarrow> bool \<Rightarrow> cn_result \<Rightarrow> lfu_policy \<Rightarrow> (int \<times> cn_result \<times> lfu_policy) res" where
  "lfu_map_api ob write result s =
     (let lt = lfu_transaction_set s (lfu_transaction_init ob) in
      if lfu_transaction_is_legal s lt then
        rbind (lfu_transaction_commit lt result s) (\<lambda>(result, s).
        Inr (0, result, mark_dirty ob write (upd_stats inc_ios s)))
      else Inr (0, result\<lparr>r_op := CACHE_NUCLEUS_FAIL\<rparr>, s))"

text \<open>
  \<open>lfu_next_victim_api\<close> sets only the block of its transaction. What the other two fields hold is
  whatever is on the stack, the argument \<open>lt\<close>.
\<close>

definition lfu_next_victim_api ::
  "lfu_transaction \<Rightarrow> oblock \<Rightarrow> lfu_policy \<Rightarrow> (cache_nucleus_operation \<times> eptr option) res" where
  "lfu_next_victim_api lt ob s =
     (let lt = lfu_transaction_set s (lt\<lparr>lft_oblock := ob\<rparr>) in
      if lfu_transaction_is_legal s lt then
        if lft_evict lt then
          rbind (heap_min (lfu_heap s)) (\<lambda>m. rbind (deref m) (\<lambda>e. Inr (CACHE_NUCLEUS_REPLACE, Some e)))
        else Inr (if lft_hit lt then CACHE_NUCLEUS_HIT else CACHE_NUCLEUS_NEW, None)
      else Inr (CACHE_NUCLEUS_FAIL, None))"

definition lfu_api :: "lfu_transaction \<Rightarrow> lfu_policy policy_api" where
  "lfu_api lt = nucleus_api lfu_map_api lfu_remove_api lfu_insert_api lfu_migrated_api (lfu_next_victim_api lt)"

definition zero_lfu :: lfu_policy where
  "zero_lfu = \<lparr>store = (\<lambda>_. \<lparr>e_oblock = 0, e_time = 0, e_dirty = False, e_allocated = False, e_migrating = False\<rparr>),
     wb = (\<lambda>_. []), thread_support = CACHE_NUCLEUS_SINGLE_THREAD, meta_size = 0, cache_size = 0,
     meta_pool = epool_create MetaRegion 0, cache_pool = epool_create CacheRegion 0,
     stats = stats_init, ht = [], cn_time = 0,
     lfu_heap = \<lparr>heap_arr = [], heap_capacity = 0, heap_size = 0, heap_key = (\<lambda>_. 0), heap_index = (\<lambda>_. 0)\<rparr>\<rparr>"

definition lfu_init :: "cblock \<Rightarrow> lfu_policy \<Rightarrow> lfu_policy res" where
  "lfu_init csize s =
     (let s = s\<lparr>cache_pool := epool_create CacheRegion csize, lfu_heap := heap_init csize (lfu_heap s)\<rparr> in
      rbind (heap_set_compare (lfu_compare (store s)) (lfu_heap s)) (\<lambda>h.
      policy_init csize 0 CACHE_NUCLEUS_SINGLE_THREAD (s\<lparr>lfu_heap := h\<rparr>)))"

definition lfu_create :: "cblock \<Rightarrow> cblock \<Rightarrow> lfu_policy res" where
  "lfu_create csize msize = lfu_init csize zero_lfu"

section \<open>The comparison\<close>

text \<open>
  Blocks are ranked by their number of accesses and then by the time of the last one. With both below 2^31 the
  differences have the right sign.
\<close>

definition lfu_rank :: "(eptr \<Rightarrow> entry) \<Rightarrow> (eptr \<Rightarrow> u32) \<Rightarrow> eptr \<Rightarrow> nat" where
  "lfu_rank st k e = unat (k e) * 2 ^ 32 + unat (e_time (st e))"

definition lfu_small :: "(eptr \<Rightarrow> entry) \<Rightarrow> (eptr \<Rightarrow> u32) \<Rightarrow> eptr \<Rightarrow> bool" where
  "lfu_small st k e \<longleftrightarrow> unat (k e) < 2 ^ 31 \<and> unat (e_time (st e)) < 2 ^ 31"

lemma sint_diff_less:
  assumes "unat a < 2 ^ 31" "unat b < 2 ^ 31"
  shows "sint (a - b :: u32) < 0 \<longleftrightarrow> unat a < unat b"
proof -
  have u: "uint a = int (unat a)" "uint b = int (unat b)" by simp_all
  have "sint (a - b) = signed_take_bit 31 (int (unat a) - int (unat b))"
    unfolding word_sub_wi u by (subst sint_sbintrunc') simp
  also have "\<dots> = int (unat a) - int (unat b)"
  proof (rule signed_take_bit_int_eq_self)
    have "unat a < 2147483648" "unat b < 2147483648" using assms by simp_all
    then have "- 2147483648 \<le> int (unat a) - int (unat b)" "int (unat a) - int (unat b) < 2147483648" by linarith+
    then show "- (2 ^ 31) \<le> int (unat a) - int (unat b)" "int (unat a) - int (unat b) < 2 ^ 31" by simp_all
  qed
  finally show ?thesis by linarith
qed

lemma lfu_compare_rank:
  assumes "lfu_small st k a" "lfu_small st k b"
  shows "lfu_compare st k a b < 0 \<longleftrightarrow> lfu_rank st k a < lfu_rank st k b"
proof -
  have t: "unat (e_time (st a)) < 2 ^ 32" "unat (e_time (st b)) < 2 ^ 32"
    using unat_less_exp [of "e_time (st a)"] unat_less_exp [of "e_time (st b)"] by simp_all
  show ?thesis
  proof (cases "k a = k b")
    case True
    then show ?thesis using assms by (simp add: lfu_compare_def lfu_rank_def lfu_small_def sint_diff_less)
  next
    case False
    then have ne: "unat (k a) \<noteq> unat (k b)" by (simp add: word_unat_eq_iff)
    have "lfu_compare st k a b < 0 \<longleftrightarrow> unat (k a) < unat (k b)"
      using False assms by (simp add: lfu_compare_def lfu_small_def sint_diff_less)
    moreover have "unat (k a) * 2 ^ 32 + unat (e_time (st a)) < unat (k b) * 2 ^ 32 + unat (e_time (st b))
        \<longleftrightarrow> unat (k a) < unat (k b)" using ne t by (simp; linarith)
    ultimately show ?thesis by (simp add: lfu_rank_def)
  qed
qed

interpretation lfu_order: ranked_compare "lfu_compare st" "lfu_rank st" "lfu_small st" for st
  by unfold_locales (simp_all add: lfu_compare_rank lfu_rank_def lfu_small_def)

lemma lfu_compare_irrefl: "\<not> lfu_compare st k a a < 0"
  by (simp add: lfu_compare_def)

end
