(* ===== verification/Lfu_Inv.thy ===== *)
theory Lfu_Inv
  imports Lfu
begin

text \<open>
  The invariant of LFU and what each step of an access does: the structure of the heap, which needs no
  bounds on the counters, and its order, which holds as long as the counters are below 2^31.
\<close>

section \<open>The heap of a state\<close>

definition heap_list :: "'p heap \<Rightarrow> 'p list" where
  "heap_list h = map the (take (unat (heap_size h)) (heap_arr h))"

lemma heap_list_at: "heap_at h xs \<Longrightarrow> heap_list h = xs"
  using heap_atD(1,3,4) [of h xs] heap_atD(6) [of h xs]
  by (auto simp: heap_list_def intro!: nth_equalityI)

definition heap_fine :: "'p heap \<Rightarrow> bool" where
  "heap_fine h \<longleftrightarrow> heap_at h (heap_list h)"

lemma heap_fineI: "heap_at h xs \<Longrightarrow> heap_fine h"
  by (simp add: heap_fine_def heap_list_at)

definition lfu_sorted :: "(eptr \<Rightarrow> entry) \<Rightarrow> eptr heap \<Rightarrow> bool" where
  "lfu_sorted st h \<longleftrightarrow> heap_holds (lfu_rank st) (lfu_small st) h (heap_list h)"

lemma lfu_sortedI: "heap_holds (lfu_rank st) (lfu_small st) h xs \<Longrightarrow> lfu_sorted st h"
  by (simp add: lfu_sorted_def heap_list_at [OF heap_holdsD(1) [of "lfu_rank st" "lfu_small st" h xs]])

lemma lfu_sorted_cong:
  assumes "\<And>x. x \<in> set (heap_list h) \<Longrightarrow> e_time (st' x) = e_time (st x)"
  shows "lfu_sorted st' h = lfu_sorted st h"
proof -
  have "lfu_rank st' (heap_key h) x = lfu_rank st (heap_key h) x"
    "lfu_small st' (heap_key h) x = lfu_small st (heap_key h) x" if "x \<in> set (heap_list h)" for x
    using assms [OF that] by (simp_all add: lfu_rank_def lfu_small_def)
  note same = this
  have "heap_ordered (lfu_rank st' (heap_key h)) (heap_list h) = heap_ordered (lfu_rank st (heap_key h)) (heap_list h)"
  proof -
    have p: "parent i < length (heap_list h)" if "i < length (heap_list h)" for i
      using that by (auto simp: parent_def)
    have "(lfu_rank st' (heap_key h) (heap_list h ! parent i) \<le> lfu_rank st' (heap_key h) (heap_list h ! i)) =
        (lfu_rank st (heap_key h) (heap_list h ! parent i) \<le> lfu_rank st (heap_key h) (heap_list h ! i))"
      if "i < length (heap_list h)" for i
      using same(1) [OF nth_mem [OF that]] same(1) [OF nth_mem [OF p [OF that]]] by simp
    then show ?thesis unfolding heap_ordered_def by blast
  qed
  moreover have "(\<forall>x\<in>set (heap_list h). lfu_small st' (heap_key h) x) = (\<forall>x\<in>set (heap_list h). lfu_small st (heap_key h) x)"
    using same(2) by blast
  ultimately show ?thesis unfolding lfu_sorted_def heap_holds_def by blast
qed

lemma lfu_sorted_key:
  assumes "lfu_sorted st h" "x \<notin> set (heap_list h)"
  shows "lfu_sorted st (h\<lparr>heap_key := (heap_key h)(x := k)\<rparr>)"
proof -
  let ?k = "(heap_key h)(x := k)" and ?xs = "heap_list h"
  have l: "heap_list (h\<lparr>heap_key := ?k\<rparr>) = ?xs" by (simp add: heap_list_def)
  note H = heap_holdsD [OF assms(1) [unfolded lfu_sorted_def]]
  have same: "lfu_rank st ?k y = lfu_rank st (heap_key h) y" "lfu_small st ?k y = lfu_small st (heap_key h) y"
    if "y \<in> set ?xs" for y using that assms(2) by (auto simp: lfu_rank_def lfu_small_def)
  have "(lfu_rank st ?k (?xs ! parent i) \<le> lfu_rank st ?k (?xs ! i)) =
      (lfu_rank st (heap_key h) (?xs ! parent i) \<le> lfu_rank st (heap_key h) (?xs ! i))" if "i < length ?xs" for i
  proof -
    have "parent i < length ?xs" using that by (auto simp: parent_def)
    then show ?thesis using same(1) [OF nth_mem [OF that]] same(1) [OF nth_mem [of "parent i" ?xs]] by simp
  qed
  then have "heap_ordered (lfu_rank st ?k) ?xs" using H(2) unfolding heap_ordered_def by blast
  moreover have "\<forall>y\<in>set ?xs. lfu_small st ?k y" using H(3) same(2) by blast
  ultimately show ?thesis using heap_at_same [OF H(1)] unfolding lfu_sorted_def heap_holds_def l by simp
qed

text \<open>The operations LFU uses, on the structure and on the order.\<close>

lemma lfu_heap_delete:
  assumes "heap_fine h" "x \<in> set (heap_list h)"
  shows "\<exists>h'. heap_delete (lfu_compare st) x h = Inr h' \<and> heap_fine h' \<and>
    set (heap_list h') = set (heap_list h) - {x} \<and> heap_key h' = heap_key h \<and> heap_capacity h' = heap_capacity h \<and>
    (lfu_sorted st h \<longrightarrow> lfu_sorted st h')"
proof -
  let ?xs = "heap_list h"
  have at: "heap_at h ?xs" using assms(1) by (simp add: heap_fine_def)
  obtain i where i: "i < length ?xs" "x = ?xs ! i" using assms(2) in_set_conv_nth by metis
  from heap_delete_at [of h ?xs i "lfu_compare st", OF at i(1) lfu_compare_irrefl] obtain h' where
    h': "heap_delete (lfu_compare st) x h = Inr h'" "heap_key h' = heap_key h"
    "heap_at h' (heap_drop (compare_less (lfu_compare st) (heap_key h)) i ?xs)" "heap_capacity h' = heap_capacity h"
    unfolding i(2) by blast
  have "mset (heap_list h') = mset ?xs - {#x#}"
    unfolding heap_list_at [OF h'(3)] i(2)
    by (rule heap_drop_mset [where lt = "compare_less (lfu_compare st) (heap_key h)", OF i(1) lfu_compare_irrefl])
  then have "set (heap_list h') = set ?xs - {x}" by (rule mset_remove [OF heap_atD(5) [OF at]])
  moreover have "lfu_sorted st h'" if "lfu_sorted st h"
    using lfu_order.delete_ok [OF that [unfolded lfu_sorted_def] assms(2)] h'(1) lfu_sortedI by auto
  ultimately show ?thesis using h' heap_fineI by blast
qed

lemma lfu_heap_insert:
  assumes "heap_fine h" "x \<notin> set (heap_list h)" "length (heap_list h) < unat (heap_capacity h)"
  shows "\<exists>h'. heap_insert (lfu_compare st) x k h = Inr h' \<and> heap_fine h' \<and>
    set (heap_list h') = insert x (set (heap_list h)) \<and> heap_key h' = (heap_key h)(x := k) \<and>
    heap_capacity h' = heap_capacity h \<and>
    (lfu_sorted st h \<and> lfu_small st ((heap_key h)(x := k)) x \<longrightarrow> lfu_sorted st h')"
proof -
  let ?xs = "heap_list h"
  have at: "heap_at h ?xs" using assms(1) by (simp add: heap_fine_def)
  from heap_insert_at [OF at assms(3,2), of "lfu_compare st" k] obtain h' where
    h': "heap_insert (lfu_compare st) x k h = Inr h'" "heap_key h' = (heap_key h)(x := k)"
    "heap_at h' (heap_add (compare_less (lfu_compare st) (heap_key h')) x ?xs)" "heap_capacity h' = heap_capacity h" by blast
  have "mset (heap_list h') = mset (x # ?xs)" unfolding heap_list_at [OF h'(3)] by (simp add: heap_add_mset)
  then have "set (heap_list h') = insert x (set ?xs)" using mset_eq_setD [of "heap_list h'" "x # ?xs"] by simp
  moreover have "lfu_sorted st h'" if srt: "lfu_sorted st h" and sx: "lfu_small st ((heap_key h)(x := k)) x"
  proof -
    from lfu_order.insert_ok [OF srt [unfolded lfu_sorted_def] assms(3,2) refl sx] obtain h2 ys where
      "heap_insert (lfu_compare st) x k h = Inr h2" "heap_holds (lfu_rank st) (lfu_small st) h2 ys" by blast
    then show ?thesis using h'(1) lfu_sortedI [of st h2 ys] by simp
  qed
  ultimately show ?thesis using h' heap_fineI by blast
qed

text \<open>The key of the head \<open>x\<close> was counted up and its time set: \<open>h0\<close> and \<open>st0\<close> are the heap and the store before.\<close>

lemma lfu_heapify:
  assumes "heap_fine h" "x \<in> set (heap_list h)"
    and h0: "heap_list h = heap_list h0" "heap_key h = (heap_key h0)(x := k)"
    and st: "\<And>y. y \<noteq> x \<Longrightarrow> e_time (st y) = e_time (st0 y)"
  shows "\<exists>h'. heapify (lfu_compare st) (heap_index h x) h = Inr h' \<and> heap_fine h' \<and>
    set (heap_list h') = set (heap_list h) \<and> heap_key h' = heap_key h \<and> heap_capacity h' = heap_capacity h \<and>
    (lfu_sorted st0 h0 \<and> unat (heap_key h0 x) < unat k \<and> lfu_small st (heap_key h) x \<longrightarrow> lfu_sorted st h')"
proof -
  let ?xs = "heap_list h"
  have at: "heap_at h ?xs" using assms(1) by (simp add: heap_fine_def)
  obtain i where i: "i < length ?xs" "x = ?xs ! i" using assms(2) in_set_conv_nth by metis
  from heapify_at [OF at refl, of "lfu_compare st" "heap_index h x"] obtain h' where
    h': "heapify (lfu_compare st) (heap_index h x) h = Inr h'"
    "heap_at h' (down (compare_less (lfu_compare st) (heap_key h)) ?xs (unat (heap_index h x)))"
    "heap_key h' = heap_key h" "heap_capacity h' = heap_capacity h" by blast
  have "set (heap_list h') = set ?xs" unfolding heap_list_at [OF h'(2)] by (rule down_facts)
  moreover have "lfu_sorted st h'"
    if s0: "lfu_sorted st0 h0" and grows: "unat (heap_key h0 x) < unat k" and sx: "lfu_small st (heap_key h) x"
  proof -
    note S = heap_holdsD [OF s0 [unfolded lfu_sorted_def]]
    have o: "heap_ordered (lfu_rank st0 (heap_key h0)) ?xs" using S(2) by (simp add: h0(1))
    have "unat (e_time (st0 x)) < 2 ^ 32" using unat_less_exp [of "e_time (st0 x)"] by simp
    then have up: "lfu_rank st0 (heap_key h0) (?xs ! i) \<le> lfu_rank st (heap_key h) (?xs ! i)"
      using grows unfolding i(2) [symmetric] by (simp add: lfu_rank_def h0(2))
    have rest: "lfu_rank st (heap_key h) y = lfu_rank st0 (heap_key h0) y" if "y \<noteq> ?xs ! i" for y
      using that st unfolding i(2) [symmetric] by (simp add: lfu_rank_def h0(2))
    have "lfu_small st (heap_key h) y" if "y \<in> set ?xs" for y
    proof (cases "y = x")
      case False
      have "lfu_small st0 (heap_key h0) y" using S(3) that by (simp add: h0(1))
      then show ?thesis using False st by (simp add: lfu_small_def h0(2))
    qed (use sx in simp)
    then have sm: "\<forall>y\<in>set ?xs. lfu_small st (heap_key h) y" by blast
    from lfu_order.heapify_ok [of h ?xs "lfu_rank st0 (heap_key h0)" i st, OF at o i(1) up rest sm]
    obtain h2 ys where "heapify (lfu_compare st) (heap_index h x) h = Inr h2"
      "heap_holds (lfu_rank st) (lfu_small st) h2 ys" unfolding i(2) [symmetric] by blast
    then show ?thesis using h'(1) lfu_sortedI by auto
  qed
  ultimately show ?thesis using h' heap_fineI by blast
qed

section \<open>The invariant\<close>

text \<open>The heap holds the entries of the cache that are not migrating.\<close>

definition lfu_base :: "u32 \<Rightarrow> lfu_policy \<Rightarrow> bool" where
  "lfu_base c s \<longleftrightarrow> cn_ok s \<and> ep_nr_entries (cache_pool s) = c \<and> 2 \<le> c \<and>
     ep_nr_entries (meta_pool s) = 0 \<and> heap_capacity (lfu_heap s) = c \<and> heap_fine (lfu_heap s) \<and>
     set (heap_list (lfu_heap s)) = {e \<in> set (ht s). \<not> e_migrating (store s e)}"

definition lfu_ordered :: "lfu_policy \<Rightarrow> bool" where
  "lfu_ordered s \<longleftrightarrow> lfu_sorted (store s) (lfu_heap s) \<and>
     (\<forall>e\<in>set (ht s). lfu_small (store s) (heap_key (lfu_heap s)) e)"

lemma lfu_baseD:
  assumes "lfu_base c s"
  shows "cn_ok s" "ep_nr_entries (cache_pool s) = c" "2 \<le> c" "ep_nr_entries (meta_pool s) = 0"
    "heap_capacity (lfu_heap s) = c" "heap_fine (lfu_heap s)"
    "set (heap_list (lfu_heap s)) = {e \<in> set (ht s). \<not> e_migrating (store s e)}"
  using assms by (simp_all add: lfu_base_def)

lemma lfu_base_cong:
  assumes "lfu_base c s" "cn_ok s'" "pool_geo (cache_pool s') = pool_geo (cache_pool s)"
    "pool_geo (meta_pool s') = pool_geo (meta_pool s)" "heap_capacity (lfu_heap s') = heap_capacity (lfu_heap s)"
    "heap_fine (lfu_heap s')" "set (heap_list (lfu_heap s')) = {e \<in> set (ht s'). \<not> e_migrating (store s' e)}"
  shows "lfu_base c s'"
  using lfu_baseD [OF assms(1)] assms(2-) by (simp add: lfu_base_def pool_geo_eq)

lemma lfu_keys: "lfu_base c s \<Longrightarrow> distinct (map (key_of (store s)) (ht s))"
  by (rule cn_facts(2)) (rule lfu_baseD)

lemma lfu_region:
  assumes "lfu_base c s" "e \<in> set (ht s)"
  shows "fst e = CacheRegion" "e \<in> cached (ht s)"
proof -
  note D = lfu_baseD [OF assms(1)]
  have "metas (ht s) = {}" using card_metas_le [OF D(1)] D(4) by simp
  then show "e \<in> cached (ht s)" using ht_split(1) [of "ht s"] assms(2) by blast
  then show "fst e = CacheRegion" by (simp add: cached_def)
qed

lemma lfu_heap_room:
  assumes ok: "lfu_base c s" and e: "e \<in> set (ht s)" "e \<notin> set (heap_list (lfu_heap s))"
  shows "length (heap_list (lfu_heap s)) < unat c"
proof -
  note D = lfu_baseD [OF ok]
  have "length (heap_list (lfu_heap s)) = card (set (heap_list (lfu_heap s)))"
    using D(6) distinct_card heap_atD(5) by (metis heap_fine_def)
  also have "\<dots> < card (cached (ht s))"
  proof (rule psubset_card_mono)
    have "set (heap_list (lfu_heap s)) \<subseteq> cached (ht s)" using lfu_region(2) [OF ok] unfolding D(7) by blast
    then show "set (heap_list (lfu_heap s)) \<subset> cached (ht s)" using e lfu_region(2) [OF ok e(1)] by blast
  qed simp
  also have "\<dots> \<le> unat c" using card_cached_le [OF D(1)] D(2) by simp
  finally show ?thesis .
qed

lemma lfu_heap_empty:
  assumes "lfu_base c s"
  shows "heap_size (lfu_heap s) > 0 \<longleftrightarrow> (\<exists>e\<in>set (ht s). \<not> e_migrating (store s e))"
proof -
  note D = lfu_baseD [OF assms]
  have "heap_size (lfu_heap s) > 0 \<longleftrightarrow> heap_list (lfu_heap s) \<noteq> []"
    using heap_atD(3) [of "lfu_heap s"] D(6) unfolding heap_fine_def
    by (metis length_greater_0_conv unat_gt_0 word_gt_0)
  also have "\<dots> \<longleftrightarrow> set (heap_list (lfu_heap s)) \<noteq> {}" by simp
  finally show ?thesis unfolding D(7) by auto
qed

section \<open>The abstract cache\<close>

text \<open>
  The blocks in the cache with the number and the time of their accesses, those that are resident and those
  on their way.
\<close>

record lfu_spec =
  lf_res :: "oblock \<rightharpoonup> nat \<times> nat"
  lf_way :: "oblock \<rightharpoonup> nat \<times> nat"

definition counts :: "lfu_policy \<Rightarrow> eptr \<Rightarrow> nat \<times> nat" where
  "counts s e = (unat (heap_key (lfu_heap s) e), unat (e_time (store s e)))"

definition counted :: "full_view \<Rightarrow> (eptr \<Rightarrow> nat \<times> nat) \<Rightarrow> bool \<Rightarrow> oblock \<rightharpoonup> nat \<times> nat" where
  "counted v k b ob = (case v ob of None \<Rightarrow> None | Some (e, m, d) \<Rightarrow> if m = b then Some (k e) else None)"

definition lfu_abs :: "lfu_policy \<Rightarrow> lfu_spec" where
  "lfu_abs s = \<lparr>lf_res = counted (cview (ht s) (store s)) (counts s) False,
                lf_way = counted (cview (ht s) (store s)) (counts s) True\<rparr>"

lemma counted_set:
  assumes "\<And>ob' e' m d. ob' \<noteq> ob \<Longrightarrow> v ob' = Some (e', m, d) \<Longrightarrow> k' e' = k e'"
  shows "counted (v(ob \<mapsto> (e, m, d))) k' b = (counted v k b)(ob := if m = b then Some (k' e) else None)"
  using assms by (auto simp: counted_def fun_eq_iff split: option.splits)

lemma counted_drop:
  assumes "\<And>ob' e' m d. ob' \<noteq> ob \<Longrightarrow> v ob' = Some (e', m, d) \<Longrightarrow> k' e' = k e'"
  shows "counted (v(ob := None)) k' b = (counted v k b)(ob := None)"
  using assms by (auto simp: counted_def fun_eq_iff split: option.splits)

lemma counted_same:
  assumes "\<And>ob' e' m d. v ob' = Some (e', m, d) \<Longrightarrow> k' e' = k e'"
  shows "counted v k' b = counted v k b"
  using assms by (auto simp: counted_def fun_eq_iff split: option.splits)

text \<open>Other blocks have other entries.\<close>

lemma view_other:
  "e_oblock (st e) = ob \<Longrightarrow> ob' \<noteq> ob \<Longrightarrow> cview t st ob' = Some (e', m, d) \<Longrightarrow> e' \<noteq> e"
  "e \<notin> set t \<Longrightarrow> cview t st ob' = Some (e', m, d) \<Longrightarrow> e' \<noteq> e"
  using view_key [of t st ob' e' m d] by (auto simp: cached_def)

section \<open>The steps of an access\<close>

lemma lfu_remove_entry_ok:
  assumes ok: "lfu_base c s" and e: "e \<in> set (ht s)" and ob: "e_oblock (store s e) = ob"
  shows "\<exists>s'. lfu_remove_entry e s = Inr s' \<and> lfu_base c s' \<and> (lfu_ordered s \<longrightarrow> lfu_ordered s') \<and>
    lfu_abs s' = \<lparr>lf_res = (lf_res (lfu_abs s))(ob := None), lf_way = (lf_way (lfu_abs s))(ob := None)\<rparr> \<and>
    cview (ht s') (store s') = (cview (ht s) (store s))(ob := None) \<and> ht s' = remove1 e (ht s) \<and>
    (\<forall>ob'. ht_lookup ob' s' = (if ob' = ob then None else ht_lookup ob' s)) \<and>
    pool_geo (cache_pool s') = pool_geo (cache_pool s) \<and> next_free s' = Some e \<and> cn_time s' = cn_time s"
proof -
  note D = lfu_baseD [OF ok] and dk = lfu_keys [OF ok]
  let ?st = "store s" and ?h = "lfu_heap s"
  have ec: "e \<in> cached (ht s)" "fst e = CacheRegion" using lfu_region [OF ok e] by blast+
  have "\<exists>h1. (if \<not> e_migrating (?st e) then heap_delete (lfu_compare ?st) e ?h else Inr ?h) = Inr h1 \<and> heap_fine h1 \<and>
      set (heap_list h1) = set (heap_list ?h) - {e} \<and> heap_key h1 = heap_key ?h \<and> heap_capacity h1 = heap_capacity ?h \<and>
      (lfu_sorted ?st ?h \<longrightarrow> lfu_sorted ?st h1)"
  proof (cases "e_migrating (?st e)")
    case True
    then have "e \<notin> set (heap_list ?h)" using D(7) by auto
    then show ?thesis using True D(6) by (intro exI [of _ ?h]) auto
  next
    case False
    then have "e \<in> set (heap_list ?h)" using D(7) e by auto
    from lfu_heap_delete [OF D(6) this, of ?st] show ?thesis using False by simp
  qed
  then obtain h1 where h1: "(if \<not> e_migrating (?st e) then heap_delete (lfu_compare ?st) e ?h else Inr ?h) = Inr h1"
    "heap_fine h1" "set (heap_list h1) = set (heap_list ?h) - {e}" "heap_key h1 = heap_key ?h"
    "heap_capacity h1 = heap_capacity ?h" "lfu_sorted ?st ?h \<longrightarrow> lfu_sorted ?st h1" by blast
  define s1 where "s1 = (if \<not> e_migrating (?st e) then upd_stats inc_demotions (s\<lparr>lfu_heap := h1\<rparr>) else s)"
  have f1: "store s1 = store s" "ht s1 = ht s" "wb s1 = wb s" "cache_pool s1 = cache_pool s" "meta_pool s1 = meta_pool s"
    "lfu_heap s1 = h1" "cn_time s1 = cn_time s" using h1(1) by (simp_all add: s1_def split: if_splits)
  have cn1: "cn_ok s1" using D(1) by (simp add: cn_ok_def f1)
  have "e \<in> set (ht s1)" using e by (simp add: f1)
  from cache_nucleus_remove_ok [OF cn1 this] obtain cp mp s' where
    s': "s' = s1\<lparr>store := (store s1)(e := freed_entry (store s1 e)),
        wb := (\<lambda>q. q_remove e (wb s1 q)), cache_pool := cp, meta_pool := mp, ht := remove1 e (ht s1)\<rparr>"
    and run: "cache_nucleus_remove e s1 = Inr s'" and cn: "cn_ok s'"
    and geo: "pool_geo cp = pool_geo (cache_pool s1)" "pool_geo mp = pool_geo (meta_pool s1)" by blast
  have f: "store s' = (store s)(e := freed_entry (store s e))" "ht s' = remove1 e (ht s)" "lfu_heap s' = h1"
    "cache_pool s' = cp" "meta_pool s' = mp" "cn_time s' = cn_time s" by (simp_all add: s' f1)
  have ran: "lfu_remove_entry e s = Inr s'"
    using h1(1) run by (cases "e_migrating (?st e)") (auto simp: lfu_remove_entry_def s1_def)
  have dh: "distinct (ht s)" by (rule cn_facts(1) [OF D(1)])
  have set': "set (ht s') = set (ht s) - {e}" using dh by (simp add: f)
  have base: "lfu_base c s'"
  proof (rule lfu_base_cong [OF ok cn])
    show "pool_geo (cache_pool s') = pool_geo (cache_pool s)" "pool_geo (meta_pool s') = pool_geo (meta_pool s)"
      using geo by (simp_all add: f f1)
    show "heap_capacity (lfu_heap s') = heap_capacity (lfu_heap s)" "heap_fine (lfu_heap s')"
      using h1 by (simp_all add: f)
    show "set (heap_list (lfu_heap s')) = {e \<in> set (ht s'). \<not> e_migrating (store s' e)}"
      unfolding set' unfolding f h1(3) D(7) by auto
  qed
  have ord: "lfu_ordered s'" if o: "lfu_ordered s"
  proof -
    have "lfu_sorted ?st h1" using o h1(6) by (simp add: lfu_ordered_def)
    moreover have "lfu_sorted (store s') h1 = lfu_sorted ?st h1"
      by (rule lfu_sorted_cong) (use h1(3) in \<open>auto simp: f\<close>)
    moreover have "lfu_small (store s') (heap_key h1) x" if "x \<in> set (ht s')" for x
    proof -
      have "x \<noteq> e" "x \<in> set (ht s)" using that set' by auto
      then show ?thesis using o by (simp add: lfu_ordered_def lfu_small_def f(1) h1(4))
    qed
    ultimately show ?thesis by (simp add: lfu_ordered_def f(3))
  qed
  have v: "cview (ht s') (store s') = (cview (ht s) (store s))(ob := None)"
    unfolding f(1,2) using cview_remove1 [OF dk e] ec(2) ob cview_upd_notin [of e "remove1 e (ht s)" "store s"] dh by simp
  have k: "counts s' e' = counts s e'" if "ob' \<noteq> ob" "cview (ht s) ?st ob' = Some (e', m, d)" for ob' e' m d
    using view_other(1) [OF ob that] by (simp add: counts_def f(1,3) h1(4))
  have abs: "lfu_abs s' = \<lparr>lf_res = (lf_res (lfu_abs s))(ob := None), lf_way = (lf_way (lfu_abs s))(ob := None)\<rparr>"
    unfolding lfu_abs_def v using counted_drop [of ob "cview (ht s) ?st" "counts s'" "counts s", OF k] by simp
  have look: "ht_lookup ob' s' = (if ob' = ob then None else ht_lookup ob' s)" for ob'
    unfolding ht_lookup_def f(1,2) by (rule lookup_removed [OF dk e ob])
  have "next_free s' = Some e" by (rule remove_next_free [OF cn1 _ run]) (use ec f1 in simp)
  then show ?thesis using ran base ord abs v look geo(1) f f1 by (intro exI [of _ s']) simp
qed

lemma lfu_admit_ok:
  assumes ok: "lfu_base c s" and nf: "\<not> cache_is_full s" and new: "ht_lookup ob s = None"
  shows "\<exists>e cb s'. lfu_admit ob r s = Inr (r\<lparr>r_cblock := cb\<rparr>, s') \<and> lfu_base c s' \<and>
    (lfu_ordered s \<and> unat (cn_time s) < 2 ^ 31 \<longrightarrow> lfu_ordered s') \<and>
    lfu_abs s' = \<lparr>lf_res = (lf_res (lfu_abs s))(ob := None), lf_way = (lf_way (lfu_abs s))(ob \<mapsto> (1, unat (cn_time s)))\<rparr> \<and>
    cview (ht s') (store s') = (cview (ht s) (store s))(ob \<mapsto> (e, True, False)) \<and>
    e \<notin> set (ht s) \<and> next_free s = Some e \<and>
    pool_geo (cache_pool s') = pool_geo (cache_pool s) \<and> epool_at (cache_pool s) cb = Some e"
proof -
  note D = lfu_baseD [OF ok]
  have "2 \<le> ep_nr_entries (cache_pool s)" using D by simp
  from insert_in_cache_ok [OF D(1) nf new this, of r] obtain e cb cp1 s1 where
    s1: "s1 = s\<lparr>store := (store s)(e := fresh_entry ob (store s e)), cache_pool := cp1, ht := e # ht s\<rparr>"
    and run1: "insert_in_cache ob (Some r) s = Inr (e, Some (r\<lparr>r_cblock := cb\<rparr>), s1)" and cn1: "cn_ok s1"
    and geo1: "pool_geo cp1 = pool_geo (cache_pool s)" "epool_at (cache_pool s) cb = Some e"
      "fst e = CacheRegion" "e \<notin> set (ht s)" "\<not> e_migrating (store s e)" by blast
  let ?h = "lfu_heap s"
  obtain h' where h': "h' = ?h\<lparr>heap_key := (heap_key ?h)(e := 1)\<rparr>" by blast
  have fh: "heap_list h' = heap_list ?h" "heap_key h' = (heap_key ?h)(e := 1)" "heap_capacity h' = heap_capacity ?h"
    by (simp_all add: h' heap_list_def)
  have fine: "heap_fine h'" using D(6) heap_at_same [of ?h] by (simp add: heap_fine_def fh) (simp add: h')
  obtain s2 where s2: "s2 = s1\<lparr>store := (store s1)(e := (store s1 e)\<lparr>e_time := cn_time s\<rparr>), lfu_heap := h'\<rparr>" by blast
  have cn2: "cn_ok s2"
  proof -
    have "cn_ok (s1\<lparr>store := (store s1)(e := (store s1 e)\<lparr>e_time := cn_time s\<rparr>)\<rparr>)" by (rule cn_ok_upd [OF cn1]) simp_all
    then show ?thesis by (simp add: cn_ok_def s2)
  qed
  have "e \<in> cached (ht s2)" "\<not> e_migrating (store s2 e)" using geo1 by (simp_all add: s2 s1 cached_def)
  from cn_migrating_entry_ok [OF cn2 this] obtain cp s3 where
    s3: "s3 = s2\<lparr>store := (store s2)(e := (store s2 e)\<lparr>e_migrating := True\<rparr>), cache_pool := cp\<rparr>"
    and run3: "cn_migrating_entry e s2 = Inr s3" and cn3: "cn_ok s3" and geo: "pool_geo cp = pool_geo (cache_pool s2)"
    by blast
  obtain s' where s': "s' = upd_stats inc_misses s3" by blast
  have cn': "cn_ok s'" using cn3 by (simp add: s')
  define x where "x = (fresh_entry ob (store s e))\<lparr>e_time := cn_time s, e_migrating := True\<rparr>"
  have x: "e_time x = cn_time s" "e_migrating x" "e_oblock x = ob" "\<not> e_dirty x" by (simp_all add: x_def)
  have f: "store s' = (store s)(e := x)" "ht s' = e # ht s" "lfu_heap s' = h'" "cache_pool s' = cp"
    "meta_pool s' = meta_pool s" by (simp_all add: s' s3 s2 s1 x_def)
  have geo': "pool_geo cp = pool_geo (cache_pool s)" using geo geo1(1) by (simp add: s2 s1)
  have run: "lfu_admit ob r s = Inr (r\<lparr>r_cblock := cb\<rparr>, s')"
    using run1 run3 by (simp add: lfu_admit_def deref_def s' Let_def s2 h' s1)
  have base: "lfu_base c s'"
  proof (rule lfu_base_cong [OF ok cn'])
    show "set (heap_list (lfu_heap s')) = {e \<in> set (ht s'). \<not> e_migrating (store s' e)}"
      unfolding f fh(1) D(7) using geo1(4) x(2) by auto
  qed (simp_all add: f geo' fh(3) fine)
  have nl: "e \<notin> set (heap_list ?h)" using D(7) geo1(4) by blast
  have ord: "lfu_ordered s'" if o: "lfu_ordered s" and t: "unat (cn_time s) < 2 ^ 31"
  proof -
    have "lfu_sorted (store s') h'"
    proof -
      have "lfu_sorted (store s) ?h" using o by (simp add: lfu_ordered_def)
      then have "lfu_sorted (store s) h'" using lfu_sorted_key nl by (simp add: h')
      moreover have "lfu_sorted (store s') h' = lfu_sorted (store s) h'"
        by (rule lfu_sorted_cong) (use nl in \<open>auto simp: f fh\<close>)
      ultimately show ?thesis by simp
    qed
    moreover have "lfu_small (store s') (heap_key h') y" if "y \<in> set (ht s')" for y
      using that o t by (cases "y = e") (auto simp: f fh lfu_ordered_def lfu_small_def x(1))
    ultimately show ?thesis by (simp add: lfu_ordered_def f(3))
  qed
  have v: "cview (ht s') (store s') = (cview (ht s) (store s))(ob \<mapsto> (e, True, False))"
    unfolding f(1,2) cview_fresh [OF geo1(4)] using geo1(3) x by simp
  have k: "counts s' e' = counts s e'" if "ob' \<noteq> ob" "cview (ht s) (store s) ob' = Some (e', m, d)" for ob' e' m d
    using view_other(2) [OF geo1(4) that(2)] by (simp add: counts_def f fh)
  have "counts s' e = (1, unat (cn_time s))" by (simp add: counts_def f fh x(1))
  then have abs: "lfu_abs s' = \<lparr>lf_res = (lf_res (lfu_abs s))(ob := None), lf_way = (lf_way (lfu_abs s))(ob \<mapsto> (1, unat (cn_time s)))\<rparr>"
    unfolding lfu_abs_def v using counted_set [of ob "cview (ht s) (store s)" "counts s'" "counts s", OF k] by simp
  have "next_free s = Some e" by (rule insert_next_free [OF run1])
  then show ?thesis using run base ord abs v geo1(2,4) geo' f(4)
    by - (rule exI [of _ e], rule exI [of _ cb], rule exI [of _ s'], simp)
qed

text \<open>A hit: the counter and the time of the entry, and its place in the heap.\<close>

lemma lfu_touch_ok:
  assumes ok: "lfu_base c s" and e: "ht_lookup ob s = Some e"
  shows "\<exists>cb s'. lfu_touch ob r s = Inr (r\<lparr>r_cblock := cb, r_op := CACHE_NUCLEUS_HIT\<rparr>, s') \<and> lfu_base c s' \<and>
    (lfu_ordered s \<and> unat (cn_time s) < 2 ^ 31 \<and> Suc (fst (counts s e)) < 2 ^ 31 \<longrightarrow> lfu_ordered s' \<and>
      lfu_abs s' = (if e_migrating (store s e)
        then (lfu_abs s)\<lparr>lf_way := (lf_way (lfu_abs s))(ob \<mapsto> (Suc (fst (counts s e)), unat (cn_time s)))\<rparr>
        else (lfu_abs s)\<lparr>lf_res := (lf_res (lfu_abs s))(ob \<mapsto> (Suc (fst (counts s e)), unat (cn_time s)))\<rparr>)) \<and>
    cview (ht s') (store s') = cview (ht s) (store s) \<and> cache_pool s' = cache_pool s \<and>
    epool_at (cache_pool s) cb = Some e"
proof -
  note D = lfu_baseD [OF ok] and dk = lfu_keys [OF ok]
  have mem: "e \<in> set (ht s)" "e_oblock (store s e) = ob" using lookup_Some [OF D(1)] e by auto
  have ec: "fst e = CacheRegion" by (rule lfu_region [OF ok mem(1)])
  have ip: "in_pool (cache_pool s) (Some e)" using cn_in_cache [OF D(1) mem(1)] ec by (simp add: in_cache_def)
  have nr: "2 \<le> ep_nr_entries (cache_pool s)" using D by simp
  define cb where "cb = of_nat (snd e) + ep_starting_index (cache_pool s)"
  let ?h = "lfu_heap s" and ?mig = "e_migrating (store s e)"
  define x where "x = (store s e)\<lparr>e_time := cn_time s\<rparr>"
  have x: "e_time x = cn_time s" "e_migrating x = ?mig" "e_oblock x = ob" "e_dirty x = e_dirty (store s e)"
    "e_allocated x = e_allocated (store s e)" using mem(2) by (simp_all add: x_def)
  define st where "st = (store s)(e := x)"
  define k where "k = heap_key ?h e + 1"
  obtain h where h: "h = ?h\<lparr>heap_key := (heap_key ?h)(e := k)\<rparr>" by blast
  have fh: "heap_list h = heap_list ?h" "heap_key h = (heap_key ?h)(e := k)" "heap_capacity h = heap_capacity ?h"
    "heap_index h = heap_index ?h" by (simp_all add: h heap_list_def)
  have fine: "heap_fine h" using D(6) heap_at_same [of ?h] by (simp add: heap_fine_def fh) (simp add: h)
  have ti: "e_time (st y) = e_time (store s y)" if "y \<noteq> e" for y using that by (simp add: st_def)
  have "\<exists>h'. (if \<not> ?mig then heapify (lfu_compare st) (heap_index h e) h else Inr h) = Inr h' \<and> heap_fine h' \<and>
      set (heap_list h') = set (heap_list h) \<and> heap_key h' = heap_key h \<and> heap_capacity h' = heap_capacity h \<and>
      (lfu_sorted (store s) ?h \<and> unat (heap_key ?h e) < unat k \<and> lfu_small st (heap_key h) e \<longrightarrow> lfu_sorted st h')"
  proof (cases ?mig)
    case True
    then have n: "e \<notin> set (heap_list ?h)" using D(7) by auto
    have "lfu_sorted st h" if "lfu_sorted (store s) ?h"
    proof -
      have "lfu_sorted (store s) h" using lfu_sorted_key [OF that n] by (simp add: h)
      moreover have "lfu_sorted st h = lfu_sorted (store s) h"
        by (rule lfu_sorted_cong) (use n ti fh(1) in metis)
      ultimately show ?thesis by simp
    qed
    then show ?thesis using True fine by (intro exI [of _ h]) simp
  next
    case False
    then have "e \<in> set (heap_list h)" using D(7) mem(1) by (simp add: fh)
    from lfu_heapify [OF fine this fh(1,2), of st "store s", OF ti] show ?thesis using False by simp
  qed
  then obtain h' where h': "(if \<not> ?mig then heapify (lfu_compare st) (heap_index h e) h else Inr h) = Inr h'"
    "heap_fine h'" "set (heap_list h') = set (heap_list h)" "heap_key h' = heap_key h" "heap_capacity h' = heap_capacity h"
    "lfu_sorted (store s) ?h \<and> unat (heap_key ?h e) < unat k \<and> lfu_small st (heap_key h) e \<longrightarrow> lfu_sorted st h'" by blast
  obtain s' where s': "s' = upd_stats inc_hits (s\<lparr>store := st, lfu_heap := h'\<rparr>)" by blast
  have f: "store s' = st" "ht s' = ht s" "lfu_heap s' = h'" "cache_pool s' = cache_pool s" "meta_pool s' = meta_pool s"
    by (simp_all add: s')
  have cn: "cn_ok s'"
  proof -
    have "cn_ok (s\<lparr>store := (store s)(e := x)\<rparr>)" by (rule cn_ok_upd [OF D(1)]) (use x mem in simp_all)
    then show ?thesis by (simp add: cn_ok_def s' st_def)
  qed
  have run: "lfu_touch ob r s = Inr (r\<lparr>r_cblock := cb, r_op := CACHE_NUCLEUS_HIT\<rparr>, s')"
  proof -
    have "upd_entry e (\<lambda>y. y\<lparr>e_time := cn_time s\<rparr>) s = s\<lparr>store := st\<rparr>" by (simp add: st_def x_def)
    moreover have "e_migrating (st e) = ?mig" by (simp add: st_def x(2))
    ultimately show ?thesis
      using h'(1) e unfolding h k_def
      by (cases ?mig) (simp_all add: lfu_touch_def deref_def infer_cblock_ok(1) [OF ip nr] cb_def Let_def s'
          fun_upd_same del: fun_upd_apply)
  qed
  have base: "lfu_base c s'"
  proof (rule lfu_base_cong [OF ok cn])
    have "e_migrating (st y) = e_migrating (store s y)" for y using x(2) by (simp add: st_def)
    then show "set (heap_list (lfu_heap s')) = {e \<in> set (ht s'). \<not> e_migrating (store s' e)}"
      by (simp add: f h'(3) fh(1) D(7))
  qed (simp_all add: f h' fh(3))
  have v: "cview (ht s') (store s') = cview (ht s) (store s)"
    unfolding f(1,2) st_def using cview_upd [OF dk mem(1), of x] cview_entry [OF dk mem(1)] ec x mem(2)
    by (simp add: fun_upd_idem)
  have fine_order: "lfu_ordered s' \<and> lfu_abs s' = (if ?mig
        then (lfu_abs s)\<lparr>lf_way := (lf_way (lfu_abs s))(ob \<mapsto> (Suc (fst (counts s e)), unat (cn_time s)))\<rparr>
        else (lfu_abs s)\<lparr>lf_res := (lf_res (lfu_abs s))(ob \<mapsto> (Suc (fst (counts s e)), unat (cn_time s)))\<rparr>)"
    if o: "lfu_ordered s" and t: "unat (cn_time s) < 2 ^ 31" and n: "Suc (fst (counts s e)) < 2 ^ 31"
  proof -
    have uk: "unat k = Suc (fst (counts s e))"
      unfolding k_def by (subst unat_add_small) (use n in \<open>simp_all add: counts_def\<close>)
    have sm: "lfu_small st (heap_key h) e" using t n uk by (simp add: lfu_small_def fh st_def x)
    have "lfu_sorted st h'" using h'(6) o uk sm by (simp add: lfu_ordered_def counts_def)
    moreover have "lfu_small st (heap_key h') y" if "y \<in> set (ht s)" for y
    proof (cases "y = e")
      case False
      then show ?thesis using o that ti by (simp add: lfu_ordered_def lfu_small_def h'(4) fh)
    qed (simp add: sm h'(4))
    ultimately have "lfu_ordered s'" by (simp add: lfu_ordered_def f)
    moreover have "counts s' e = (Suc (fst (counts s e)), unat (cn_time s))"
      by (simp add: counts_def f h'(4) fh(2) st_def x(1)) (simp add: uk counts_def)
    moreover have kk: "counts s' e' = counts s e'" if "ob' \<noteq> ob" "cview (ht s) (store s) ob' = Some (e', m, d)" for ob' e' m d
    proof -
      have "e' \<noteq> e" by (rule view_other(1) [where st = "store s" and t = "ht s", OF mem(2) that])
      then show ?thesis by (simp add: counts_def f h'(4) fh(2) st_def)
    qed
    moreover have "cview (ht s') (store s') = (cview (ht s) (store s))(ob \<mapsto> (e, ?mig, e_dirty (store s e)))"
      using v cview_entry [OF dk mem(1)] ec mem(2) by (simp add: fun_upd_idem)
    moreover have "lf_way (lfu_abs s) ob = None" if "\<not> ?mig"
      using that cview_entry [OF dk mem(1)] ec mem(2) by (simp add: lfu_abs_def counted_def)
    moreover have "lf_res (lfu_abs s) ob = None" if ?mig
      using that cview_entry [OF dk mem(1)] ec mem(2) by (simp add: lfu_abs_def counted_def)
    ultimately show ?thesis
      using counted_set [of ob "cview (ht s) (store s)" "counts s'" "counts s" e ?mig "e_dirty (store s e)", OF kk]
      by (auto simp: lfu_abs_def fun_upd_idem)
  qed
  have "epool_at (cache_pool s) cb = Some e" unfolding cb_def by (rule infer_cblock_ok(2) [OF ip nr])
  then show ?thesis using run base v f(4) fine_order
    by - (rule exI [of _ cb], rule exI [of _ s'], simp)
qed

section \<open>The other functions\<close>

lemma lfu_cview_entry:
  assumes ok: "lfu_base c s" and v: "cview (ht s) (store s) ob = Some (e, mig, d)"
  shows "ht_lookup ob s = Some e" "e \<in> cached (ht s)" "e \<in> set (ht s)" "e_oblock (store s e) = ob"
    "mig = e_migrating (store s e)" "d = e_dirty (store s e)"
  using v view_key [OF v] by (auto simp: cview_def ht_lookup_def cached_def split: option.splits if_splits)

lemma lfu_migrated_ok:
  assumes ok: "lfu_base c s" and v: "cview (ht s) (store s) ob = Some (e, True, d)"
  shows "\<exists>s'. lfu_migrated_api ob s = Inr s' \<and> lfu_base c s' \<and> (lfu_ordered s \<longrightarrow> lfu_ordered s') \<and>
    lfu_abs s' = \<lparr>lf_res = (lf_res (lfu_abs s))(ob := lf_way (lfu_abs s) ob), lf_way = (lf_way (lfu_abs s))(ob := None)\<rparr> \<and>
    cview (ht s') (store s') = (cview (ht s) (store s))(ob \<mapsto> (e, False, d))"
proof -
  note D = lfu_baseD [OF ok] and E = lfu_cview_entry [OF ok v] and dk = lfu_keys [OF ok]
  have mig: "e_migrating (store s e)" using E(5) by simp
  from cn_migrated_entry_ok [OF D(1) E(2) mig] obtain cp s1 where
    1: "s1 = s\<lparr>store := (store s)(e := (store s e)\<lparr>e_migrating := False\<rparr>), cache_pool := cp\<rparr>"
    "cn_migrated_entry e s = Inr s1" "cn_ok s1" "pool_geo cp = pool_geo (cache_pool s)" by blast
  let ?h = "lfu_heap s"
  have n: "e \<notin> set (heap_list ?h)" using D(7) mig by simp
  have room: "length (heap_list ?h) < unat (heap_capacity ?h)" using lfu_heap_room [OF ok E(3) n] D(5) by simp
  from lfu_heap_insert [OF D(6) n room, of "store s1" "heap_key ?h e"] obtain h' where
    h': "heap_insert (lfu_compare (store s1)) e (heap_key ?h e) ?h = Inr h'" "heap_fine h'"
    "set (heap_list h') = insert e (set (heap_list ?h))" "heap_key h' = heap_key ?h" "heap_capacity h' = heap_capacity ?h"
    "lfu_sorted (store s1) ?h \<and> lfu_small (store s1) (heap_key ?h) e \<longrightarrow> lfu_sorted (store s1) h'" by auto
  obtain s' where s': "s' = upd_stats inc_promotions (s1\<lparr>lfu_heap := h'\<rparr>)" by blast
  have f: "store s' = (store s)(e := (store s e)\<lparr>e_migrating := False\<rparr>)" "ht s' = ht s" "lfu_heap s' = h'"
    "cache_pool s' = cp" "meta_pool s' = meta_pool s" by (simp_all add: s' 1(1))
  have run: "lfu_migrated_api ob s = Inr s'"
    using E(1) 1(2) h'(1) by (simp add: lfu_migrated_api_def deref_def s') (simp add: 1(1))
  have cn: "cn_ok s'" using 1(3) by (simp add: s' cn_ok_def)
  have base: "lfu_base c s'"
  proof (rule lfu_base_cong [OF ok cn])
    show "set (heap_list (lfu_heap s')) = {e \<in> set (ht s'). \<not> e_migrating (store s' e)}"
      unfolding f h'(3) D(7) using E(3) by auto
  qed (simp_all add: f 1(4) h')
  have ti: "e_time (store s' y) = e_time (store s y)" for y by (simp add: f(1))
  have ord: "lfu_ordered s'" if o: "lfu_ordered s"
  proof -
    have s1: "store s1 = store s'" by (simp add: f 1(1))
    have "lfu_sorted (store s') ?h" using o lfu_sorted_cong [of ?h "store s'" "store s", OF ti] by (simp add: lfu_ordered_def)
    moreover have "lfu_small (store s') (heap_key ?h) y" if "y \<in> set (ht s)" for y
      using that o ti by (simp add: lfu_ordered_def lfu_small_def)
    ultimately show ?thesis using h'(6) E(3) by (simp add: lfu_ordered_def f(2,3) s1 h'(4))
  qed
  have v': "cview (ht s') (store s') = (cview (ht s) (store s))(ob \<mapsto> (e, False, d))"
    unfolding f(1,2) using cview_upd [OF dk E(3), of "(store s e)\<lparr>e_migrating := False\<rparr>"] E(4,6) lfu_region(1) [OF ok E(3)]
    by simp
  have k: "counts s' y = counts s y" for y using ti by (simp add: counts_def f(3) h'(4))
  have "lf_way (lfu_abs s) ob = Some (counts s e)" using v by (simp add: lfu_abs_def counted_def)
  then have "lfu_abs s' = \<lparr>lf_res = (lf_res (lfu_abs s))(ob := lf_way (lfu_abs s) ob), lf_way = (lf_way (lfu_abs s))(ob := None)\<rparr>"
    unfolding lfu_abs_def v' using counted_set [of ob "cview (ht s) (store s)" "counts s'" "counts s", OF k] k by simp
  then show ?thesis using run base ord v' by blast
qed

lemma lfu_remove_ok:
  assumes ok: "lfu_base c s" and e: "ht_lookup ob s = Some e"
  shows "\<exists>s'. lfu_remove_api ob hist s = Inr s' \<and> lfu_base c s' \<and> (lfu_ordered s \<longrightarrow> lfu_ordered s') \<and>
    lfu_abs s' = \<lparr>lf_res = (lf_res (lfu_abs s))(ob := None), lf_way = (lf_way (lfu_abs s))(ob := None)\<rparr> \<and>
    cview (ht s') (store s') = (cview (ht s) (store s))(ob := None)"
proof -
  have mem: "e \<in> set (ht s)" "e_oblock (store s e) = ob" using lookup_Some [OF lfu_baseD(1) [OF ok]] e by auto
  from lfu_remove_entry_ok [OF ok mem] show ?thesis using e by (simp add: lfu_remove_api_def deref_def) blast
qed

lemma lfu_set_time: "lfu_base c s \<Longrightarrow> lfu_base c (default_set_time t s)"
  by (simp add: lfu_base_def default_set_time_def cn_ok_def)

lemma lfu_set_time_order: "lfu_ordered (default_set_time t s) = lfu_ordered s" "lfu_abs (default_set_time t s) = lfu_abs s"
  by (simp_all add: lfu_ordered_def lfu_abs_def default_set_time_def counts_def [abs_def])

end
