(* ===== verification/Lfu_Props.thy ===== *)
theory Lfu_Props
  imports Lfu_Inv Systems
begin

text \<open>
  LFU keeps the contract of a policy whatever its counters do, and evicts a least frequently used block as
  long as they do not overflow. What its prediction reads off the stack.
\<close>

section \<open>An access\<close>

lemma lfu_mark:
  assumes ok: "lfu_base c s" and s': "s' = mark_dirty ob w (upd_stats inc_ios s)"
  shows "lfu_base c s'" "lfu_abs s' = lfu_abs s" "lfu_ordered s' = lfu_ordered s"
    "cview (ht s') (store s') = marked ob w (cview (ht s) (store s))" "cache_pool s' = cache_pool s"
proof -
  note D = lfu_baseD [OF ok]
  obtain s1 where s1: "s1 = upd_stats inc_ios s" by blast
  have cn: "cn_ok s1" using D(1) by (simp add: s1)
  have f1: "store s1 = store s" "ht s1 = ht s" "cache_pool s1 = cache_pool s" "meta_pool s1 = meta_pool s"
    "lfu_heap s1 = lfu_heap s" by (simp_all add: s1)
  note K = mark_dirty_cases [OF cn, of ob w, folded s1 s' [unfolded s1 [symmetric]]]
  have f: "ht s' = ht s" "cache_pool s' = cache_pool s" "meta_pool s' = meta_pool s" "lfu_heap s' = lfu_heap s"
    by (subst K(3), simp add: f1)+
  have ti: "e_time (store s' p) = e_time (store s p)" for p
    unfolding s' mark_dirty_def by (simp split: option.splits)
  have k: "e_migrating (store s' p) = e_migrating (store s p)" for p using K(5) by (simp add: f1)
  show "lfu_base c s'" by (rule lfu_base_cong [OF ok K(1)]) (simp_all add: f D(6,7) k)
  show v: "cview (ht s') (store s') = marked ob w (cview (ht s) (store s))" using K(2) by (simp only: f1)
  have kk: "counts s' = counts s" by (simp add: counts_def f ti fun_eq_iff)
  have "counted (marked ob w (cview (ht s) (store s))) (counts s) b = counted (cview (ht s) (store s)) (counts s) b" for b
    by (auto simp: counted_def fun_eq_iff split: option.splits)
  then show "lfu_abs s' = lfu_abs s" by (simp add: lfu_abs_def v kk del: fun_upd_apply)
  show "lfu_ordered s' = lfu_ordered s"
    using lfu_sorted_cong [of "lfu_heap s" "store s'" "store s"] ti by (simp add: lfu_ordered_def f lfu_small_def)
  show "cache_pool s' = cache_pool s" by (rule f(2))
qed

text \<open>
  The abstract access: \<open>c\<close> is the size of the cache and \<open>now\<close> the time. The evicted block is any of those with
  the fewest accesses and, among them, the earliest last access.
\<close>

definition used_less :: "nat \<times> nat \<Rightarrow> nat \<times> nat \<Rightarrow> bool" where
  "used_less x y \<longleftrightarrow> fst x < fst y \<or> fst x = fst y \<and> snd x < snd y"

definition spec_lfu ::
  "nat \<Rightarrow> nat \<Rightarrow> oblock \<Rightarrow> lfu_spec \<Rightarrow> cache_nucleus_operation \<Rightarrow> oblock option \<Rightarrow> lfu_spec \<Rightarrow> bool" where
  "spec_lfu c now ob a op ev a' \<longleftrightarrow>
     (case lf_res a ob of
        Some (n, _) \<Rightarrow> op = CACHE_NUCLEUS_HIT \<and> ev = None \<and> a' = a\<lparr>lf_res := (lf_res a)(ob \<mapsto> (Suc n, now))\<rparr>
      | None \<Rightarrow>
     (case lf_way a ob of
        Some (n, _) \<Rightarrow> op = CACHE_NUCLEUS_HIT \<and> ev = None \<and> a' = a\<lparr>lf_way := (lf_way a)(ob \<mapsto> (Suc n, now))\<rparr>
      | None \<Rightarrow>
     (if card (dom (lf_res a)) + card (dom (lf_way a)) < c then
        op = CACHE_NUCLEUS_NEW \<and> ev = None \<and> a' = a\<lparr>lf_way := (lf_way a)(ob \<mapsto> (1, now))\<rparr>
      else if dom (lf_res a) = {} then op = CACHE_NUCLEUS_FAIL \<and> ev = None \<and> a' = a
      else op = CACHE_NUCLEUS_REPLACE \<and> (\<exists>v \<in> dom (lf_res a). ev = Some v \<and>
        (\<forall>u \<in> dom (lf_res a). \<not> used_less (the (lf_res a u)) (the (lf_res a v))) \<and>
        a' = \<lparr>lf_res = (lf_res a)(v := None), lf_way = (lf_way a)(ob \<mapsto> (1, now))\<rparr>))))"

definition lfu_serves :: "u32 \<Rightarrow> lfu_transaction \<Rightarrow> oblock \<Rightarrow> bool \<Rightarrow> cn_result \<Rightarrow> lfu_policy \<Rightarrow> bool" where
  "lfu_serves c lt ob w r0 s \<longleftrightarrow> (\<exists>r s'. lfu_map_api ob w r0 s = Inr (0, r, s') \<and> lfu_base c s' \<and>
     (lfu_ordered s \<and> unat (cn_time s) < 2 ^ 31 \<and> (\<forall>n t. lf_res (lfu_abs s) ob = Some (n, t) \<or>
        lf_way (lfu_abs s) ob = Some (n, t) \<longrightarrow> Suc n < 2 ^ 31) \<longrightarrow>
      lfu_ordered s' \<and> spec_lfu (unat c) (unat (cn_time s)) ob (lfu_abs s) (r_op r) (evicted r) (lfu_abs s')) \<and>
     write_effect ob w r (cview (ht s) (store s)) (cview (ht s') (store s')) \<and> resides ob r s' \<and>
     (\<not> lft_evict lt \<longrightarrow>
      (\<exists>op v. lfu_next_victim_api lt ob s = Inr (op, v) \<and> (op = CACHE_NUCLEUS_FAIL \<longleftrightarrow> r_op r = CACHE_NUCLEUS_FAIL))))"

lemma lfu_finish:
  assumes run: "lfu_map_api ob w r0 s = Inr (0, r, mark_dirty ob w (upd_stats inc_ios s1))" and base: "lfu_base c s1"
    and spec: "lfu_ordered s \<Longrightarrow> unat (cn_time s) < 2 ^ 31 \<Longrightarrow> (\<forall>n t. lf_res (lfu_abs s) ob = Some (n, t) \<or>
        lf_way (lfu_abs s) ob = Some (n, t) \<longrightarrow> Suc n < 2 ^ 31) \<Longrightarrow>
      lfu_ordered s1 \<and> spec_lfu (unat c) (unat (cn_time s)) ob (lfu_abs s) (r_op r) (evicted r) (lfu_abs s1)"
    and eff: "write_effect ob w r (cview (ht s) (store s)) (marked ob w (cview (ht s1) (store s1)))"
    and res: "resides ob r s1" and "r_op r \<noteq> CACHE_NUCLEUS_FAIL"
    and nv: "\<not> lft_evict lt \<Longrightarrow> \<exists>op v. lfu_next_victim_api lt ob s = Inr (op, v) \<and> op \<noteq> CACHE_NUCLEUS_FAIL"
  shows "lfu_serves c lt ob w r0 s"
proof -
  obtain s' where s': "s' = mark_dirty ob w (upd_stats inc_ios s1)" by blast
  note M = lfu_mark [OF base s']
  have "lfu_map_api ob w r0 s = Inr (0, r, s')" using run by (simp add: s')
  moreover have "resides ob r s'" using res unfolding resides_def M(4,5) by auto
  ultimately show ?thesis unfolding lfu_serves_def using spec eff M(1-4) nv assms(6)
    by - (rule exI [of _ r], rule exI [of _ s'], simp)
qed

lemma lfu_view_None: "ht_lookup ob s = None \<Longrightarrow> cview (ht s) (store s) ob = None"
  by (simp add: cview_def ht_lookup_def)

lemma lfu_abs_None:
  "ht_lookup ob s = None \<Longrightarrow> lf_res (lfu_abs s) ob = None" "ht_lookup ob s = None \<Longrightarrow> lf_way (lfu_abs s) ob = None"
  by (simp_all add: lfu_abs_def counted_def lfu_view_None)

lemma lfu_view_entry:
  assumes ok: "lfu_base c s" and e: "e \<in> set (ht s)"
  shows "cview (ht s) (store s) (e_oblock (store s e)) = Some (e, e_migrating (store s e), e_dirty (store s e))"
  using cview_entry [OF lfu_keys [OF ok] e] lfu_region(1) [OF ok e] by simp

lemma counted_dom: "ob \<in> dom (counted v k b) \<longleftrightarrow> (\<exists>e d. v ob = Some (e, b, d))"
  by (cases "v ob") (auto simp: counted_def dom_def split: if_splits)

lemma lfu_counted:
  assumes ok: "lfu_base c s"
  shows "card (dom (lf_res (lfu_abs s))) + card (dom (lf_way (lfu_abs s))) = card (cached (ht s))"
    "v \<in> dom (lf_res (lfu_abs s)) \<longleftrightarrow> (\<exists>e\<in>set (heap_list (lfu_heap s)). v = e_oblock (store s e))"
    "e \<in> set (heap_list (lfu_heap s)) \<Longrightarrow> lf_res (lfu_abs s) (e_oblock (store s e)) = Some (counts s e)"
proof -
  let ?v = "cview (ht s) (store s)"
  note D = lfu_baseD [OF ok]
  have cd: "ob \<in> dom (lf_res (lfu_abs s)) \<longleftrightarrow> (\<exists>e d. ?v ob = Some (e, False, d))"
    "ob \<in> dom (lf_way (lfu_abs s)) \<longleftrightarrow> (\<exists>e d. ?v ob = Some (e, True, d))" for ob
    unfolding lfu_abs_def lfu_spec.select_convs by (rule counted_dom)+
  have "ob \<in> dom ?v \<longleftrightarrow> (\<exists>e m d. ?v ob = Some (e, m, d))" for ob by (cases "?v ob") auto
  then have "ob \<in> dom ?v \<longleftrightarrow> ob \<in> dom (lf_res (lfu_abs s)) \<or> ob \<in> dom (lf_way (lfu_abs s))" for ob
    unfolding cd by (metis (full_types))
  then have "dom (lf_res (lfu_abs s)) \<union> dom (lf_way (lfu_abs s)) = dom ?v" by blast
  moreover have "dom (lf_res (lfu_abs s)) \<inter> dom (lf_way (lfu_abs s)) = {}" 
  proof (rule equals0I)
    fix x assume "x \<in> dom (lf_res (lfu_abs s)) \<inter> dom (lf_way (lfu_abs s))"
    then show False using cd [of x] by auto
  qed
  moreover have "finite (dom ?v)" unfolding dom_cview [OF lfu_keys [OF ok]] by simp
  ultimately have "card (dom (lf_res (lfu_abs s))) + card (dom (lf_way (lfu_abs s))) = card (dom ?v)"
    by (metis card_Un_disjoint finite_Un)
  then show "card (dom (lf_res (lfu_abs s))) + card (dom (lf_way (lfu_abs s))) = card (cached (ht s))"
    using card_dom_cview [OF lfu_keys [OF ok]] by simp
  show look: "lf_res (lfu_abs s) (e_oblock (store s e)) = Some (counts s e)" if "e \<in> set (heap_list (lfu_heap s))" for e
    using that lfu_view_entry [OF ok, of e] D(7) by (simp add: lfu_abs_def counted_def)
  show "v \<in> dom (lf_res (lfu_abs s)) \<longleftrightarrow> (\<exists>e\<in>set (heap_list (lfu_heap s)). v = e_oblock (store s e))"
  proof
    assume "v \<in> dom (lf_res (lfu_abs s))"
    then obtain e d where v: "?v v = Some (e, False, d)" unfolding cd by blast
    note E = lfu_cview_entry [OF ok v]
    have "e \<in> set (heap_list (lfu_heap s))" unfolding D(7) using E(3,5) by simp
    then show "\<exists>e\<in>set (heap_list (lfu_heap s)). v = e_oblock (store s e)" using E(4) by blast
  qed (use look in auto)
qed

lemma lfu_full:
  assumes "lfu_base c s"
  shows "cache_is_full s \<longleftrightarrow> \<not> card (dom (lf_res (lfu_abs s))) + card (dom (lf_way (lfu_abs s))) < unat c"
  using cache_is_full_iff [OF lfu_baseD(1) [OF assms]] card_cached_le [OF lfu_baseD(1) [OF assms]] lfu_baseD(2) [OF assms]
  by (simp add: lfu_counted(1) [OF assms])

lemma lfu_set_hit: "ht_lookup ob s \<noteq> None \<Longrightarrow> lft_oblock lt = ob \<Longrightarrow> lfu_transaction_set s lt = lt\<lparr>lft_hit := True\<rparr>"
  by (simp add: lfu_transaction_set_def)

lemma lfu_serve_hit:
  assumes ok: "lfu_base c s" and e: "ht_lookup ob s = Some e"
  shows "lfu_serves c lt ob w r0 s"
proof -
  note D = lfu_baseD [OF ok]
  have mem: "e \<in> set (ht s)" "e_oblock (store s e) = ob" using lookup_Some [OF D(1)] e by auto
  note v = lfu_view_entry [OF ok mem(1), unfolded mem(2)]
  from lfu_touch_ok [OF ok e, of "r0\<lparr>r_op := CACHE_NUCLEUS_NEW\<rparr>"] obtain cb s1 where
    1: "lfu_touch ob (r0\<lparr>r_op := CACHE_NUCLEUS_NEW\<rparr>) s = Inr (r0\<lparr>r_op := CACHE_NUCLEUS_NEW, r_cblock := cb, r_op := CACHE_NUCLEUS_HIT\<rparr>, s1)"
    "lfu_base c s1" "cview (ht s1) (store s1) = cview (ht s) (store s)" "cache_pool s1 = cache_pool s"
    "epool_at (cache_pool s) cb = Some e"
    and o: "lfu_ordered s \<and> unat (cn_time s) < 2 ^ 31 \<and> Suc (fst (counts s e)) < 2 ^ 31 \<longrightarrow> lfu_ordered s1 \<and>
      lfu_abs s1 = (if e_migrating (store s e)
        then (lfu_abs s)\<lparr>lf_way := (lf_way (lfu_abs s))(ob \<mapsto> (Suc (fst (counts s e)), unat (cn_time s)))\<rparr>
        else (lfu_abs s)\<lparr>lf_res := (lf_res (lfu_abs s))(ob \<mapsto> (Suc (fst (counts s e)), unat (cn_time s)))\<rparr>)" by blast
  let ?r = "r0\<lparr>r_op := CACHE_NUCLEUS_NEW, r_cblock := cb, r_op := CACHE_NUCLEUS_HIT\<rparr>"
  have a: "lf_res (lfu_abs s) ob = (if e_migrating (store s e) then None else Some (counts s e))"
    "lf_way (lfu_abs s) ob = (if e_migrating (store s e) then Some (counts s e) else None)"
    using v by (simp_all add: lfu_abs_def counted_def)
  have cnt: "counts s e = (fst (counts s e), snd (counts s e))" by simp
  show ?thesis
  proof (rule lfu_finish [OF _ 1(2)])
    show "lfu_map_api ob w r0 s = Inr (0, ?r, mark_dirty ob w (upd_stats inc_ios s1))"
      using e 1(1) by (simp add: lfu_map_api_def lfu_transaction_set_def lfu_transaction_init_def
          lfu_transaction_is_legal_def lfu_transaction_commit_def Let_def)
    show "write_effect ob w ?r (cview (ht s) (store s)) (marked ob w (cview (ht s1) (store s1)))"
      by (rule write_effect_hit [where v = "cview (ht s) (store s)", OF _ v]) (simp_all add: 1(3))
    show "resides ob ?r s1"
      by (rule residesI [of s1 ob e "(e_migrating (store s e), e_dirty (store s e))" "cache_pool s"])
        (use v 1(3-5) in simp_all)
    show "\<exists>op v. lfu_next_victim_api lt ob s = Inr (op, v) \<and> op \<noteq> CACHE_NUCLEUS_FAIL" if "\<not> lft_evict lt"
      using that e by (simp add: lfu_next_victim_api_def lfu_transaction_set_def lfu_transaction_is_legal_def Let_def)
    show "lfu_ordered s1 \<and> spec_lfu (unat c) (unat (cn_time s)) ob (lfu_abs s) (r_op ?r) (evicted ?r) (lfu_abs s1)"
      if "lfu_ordered s" "unat (cn_time s) < 2 ^ 31" and small: "\<forall>n t. lf_res (lfu_abs s) ob = Some (n, t) \<or>
        lf_way (lfu_abs s) ob = Some (n, t) \<longrightarrow> Suc n < 2 ^ 31"
    proof -
      have "Suc (fst (counts s e)) < 2 ^ 31" using small a by (cases "e_migrating (store s e)") (metis cnt)+
      then have "lfu_ordered s1 \<and> lfu_abs s1 = (if e_migrating (store s e)
        then (lfu_abs s)\<lparr>lf_way := (lf_way (lfu_abs s))(ob \<mapsto> (Suc (fst (counts s e)), unat (cn_time s)))\<rparr>
        else (lfu_abs s)\<lparr>lf_res := (lf_res (lfu_abs s))(ob \<mapsto> (Suc (fst (counts s e)), unat (cn_time s)))\<rparr>)"
        using o that by blast
      then show ?thesis using a by (simp add: spec_lfu_def evicted_def split: prod.splits)
    qed
  qed simp
qed

lemma lfu_serve_miss:
  assumes ok: "lfu_base c s" and none: "ht_lookup ob s = None" and nf: "\<not> cache_is_full s"
  shows "lfu_serves c lt ob w r0 s"
proof -
  note D = lfu_baseD [OF ok] and vn = lfu_view_None [OF none]
  from lfu_admit_ok [OF ok nf none, of "r0\<lparr>r_op := CACHE_NUCLEUS_NEW\<rparr>"] obtain e cb s1 where
    1: "lfu_admit ob (r0\<lparr>r_op := CACHE_NUCLEUS_NEW\<rparr>) s = Inr (r0\<lparr>r_op := CACHE_NUCLEUS_NEW, r_cblock := cb\<rparr>, s1)"
    "lfu_base c s1" "lfu_ordered s \<and> unat (cn_time s) < 2 ^ 31 \<longrightarrow> lfu_ordered s1"
    "lfu_abs s1 = \<lparr>lf_res = (lf_res (lfu_abs s))(ob := None), lf_way = (lf_way (lfu_abs s))(ob \<mapsto> (1, unat (cn_time s)))\<rparr>"
    "cview (ht s1) (store s1) = (cview (ht s) (store s))(ob \<mapsto> (e, True, False))" "e \<notin> set (ht s)"
    "pool_geo (cache_pool s1) = pool_geo (cache_pool s)" "epool_at (cache_pool s) cb = Some e" by blast
  let ?r = "r0\<lparr>r_op := CACHE_NUCLEUS_NEW, r_cblock := cb\<rparr>"
  show ?thesis
  proof (rule lfu_finish [OF _ 1(2)])
    show "lfu_map_api ob w r0 s = Inr (0, ?r, mark_dirty ob w (upd_stats inc_ios s1))"
      using none nf 1(1) by (simp add: lfu_map_api_def lfu_transaction_set_def lfu_transaction_init_def
          lfu_transaction_is_legal_def lfu_transaction_commit_def Let_def)
    show "write_effect ob w ?r (cview (ht s) (store s)) (marked ob w (cview (ht s1) (store s1)))"
      by (rule write_effect_new [OF _ vn 1(6)]) (simp_all add: 1(5))
    show "resides ob ?r s1"
      by (rule residesI [of s1 ob e _ "cache_pool s"]) (use 1(5,7,8) in simp_all)
    show "\<exists>op v. lfu_next_victim_api lt ob s = Inr (op, v) \<and> op \<noteq> CACHE_NUCLEUS_FAIL" if "\<not> lft_evict lt"
      using that none nf by (simp add: lfu_next_victim_api_def lfu_transaction_set_def lfu_transaction_is_legal_def Let_def)
    show "lfu_ordered s1 \<and> spec_lfu (unat c) (unat (cn_time s)) ob (lfu_abs s) (r_op ?r) (evicted ?r) (lfu_abs s1)"
      if "lfu_ordered s" "unat (cn_time s) < 2 ^ 31"
    proof -
      have "lf_res (lfu_abs s) ob = None" "lf_way (lfu_abs s) ob = None" by (rule lfu_abs_None [OF none])+
      moreover have "card (dom (lf_res (lfu_abs s))) + card (dom (lf_way (lfu_abs s))) < unat c" using nf lfu_full [OF ok] by simp
      ultimately show ?thesis using 1(3,4) that by (simp add: spec_lfu_def evicted_def fun_upd_idem)
    qed
  qed simp
qed

text \<open>The root of the heap is a block with the fewest accesses.\<close>

lemma pair_rank:
  fixes a b k l :: nat
  assumes "a * 4294967296 + b \<le> k * 4294967296 + l" "b < 4294967296" "l < 4294967296"
  shows "a < k \<or> a = k \<and> b \<le> l"
  using assms by linarith

lemma lfu_root:
  assumes ok: "lfu_base c s" and o: "lfu_ordered s" and u: "u \<in> dom (lf_res (lfu_abs s))"
  shows "\<not> used_less (the (lf_res (lfu_abs s) u)) (counts s (heap_list (lfu_heap s) ! 0))"
proof -
  let ?h = "lfu_heap s"
  obtain e where e: "e \<in> set (heap_list ?h)" "u = e_oblock (store s e)" using u lfu_counted(2) [OF ok] by blast
  have so: "heap_holds (lfu_rank (store s)) (lfu_small (store s)) ?h (heap_list ?h)"
    using o by (simp add: lfu_ordered_def lfu_sorted_def)
  let ?r = "heap_list ?h ! 0"
  have "lfu_rank (store s) (heap_key ?h) ?r \<le> lfu_rank (store s) (heap_key ?h) e"
    by (rule lfu_order.min_ok(2) [OF so e(1)])
  then have lex: "unat (heap_key ?h ?r) < unat (heap_key ?h e) \<or> unat (heap_key ?h ?r) = unat (heap_key ?h e) \<and>
      unat (e_time (store s ?r)) \<le> unat (e_time (store s e))"
    unfolding lfu_rank_def by (intro pair_rank) (use unat_less_exp [of "e_time (store s e)"]
      unat_less_exp [of "e_time (store s ?r)"] in simp_all)
  have eq: "the (lf_res (lfu_abs s) u) = counts s e" using lfu_counted(3) [OF ok e(1)] e(2) by simp
  show ?thesis unfolding eq used_less_def counts_def fst_conv snd_conv using lex by linarith
qed

lemma lfu_serve_full:
  assumes ok: "lfu_base c s" and none: "ht_lookup ob s = None" and full: "cache_is_full s"
  shows "lfu_serves c lt ob w r0 s"
proof (cases "heap_list (lfu_heap s)")
  case Nil
  note D = lfu_baseD [OF ok]
  have "heap_size (lfu_heap s) = 0"
    using heap_atD(3) [of "lfu_heap s" "[]"] D(6) Nil by (simp add: heap_fine_def unat_eq_zero)
  then have run: "lfu_map_api ob w r0 s = Inr (0, r0\<lparr>r_op := CACHE_NUCLEUS_FAIL\<rparr>, s)"
    "lfu_next_victim_api lt ob s = Inr (CACHE_NUCLEUS_FAIL, None)"
    using none full by (simp_all add: lfu_map_api_def lfu_next_victim_api_def lfu_transaction_set_def
        lfu_transaction_init_def lfu_transaction_is_legal_def Let_def)
  have spec: "spec_lfu (unat c) (unat (cn_time s)) ob (lfu_abs s) CACHE_NUCLEUS_FAIL None (lfu_abs s)"
  proof -
    have "dom (lf_res (lfu_abs s)) = {}"
    proof (rule equals0I)
      fix v assume "v \<in> dom (lf_res (lfu_abs s))"
      then obtain e where "e \<in> set (heap_list (lfu_heap s))" using lfu_counted(2) [OF ok] by blast
      then show False using Nil by simp
    qed
    moreover have "\<not> card (dom (lf_res (lfu_abs s))) + card (dom (lf_way (lfu_abs s))) < unat c"
      using full lfu_full [OF ok] by blast
    ultimately show ?thesis unfolding spec_lfu_def lfu_abs_None [OF none] by simp
  qed
  show ?thesis unfolding lfu_serves_def
  proof (intro exI conjI impI)
    show "lfu_map_api ob w r0 s = Inr (0, r0\<lparr>r_op := CACHE_NUCLEUS_FAIL\<rparr>, s)"
      "lfu_next_victim_api lt ob s = Inr (CACHE_NUCLEUS_FAIL, None)" by (rule run)+
    show "write_effect ob w (r0\<lparr>r_op := CACHE_NUCLEUS_FAIL\<rparr>) (cview (ht s) (store s)) (cview (ht s) (store s))"
      by (simp add: write_effect_def lfu_view_None [OF none])
  qed (simp_all add: ok spec evicted_def resides_def)
next
  case (Cons e rest)
  note D = lfu_baseD [OF ok] and vn = lfu_view_None [OF none]
  have hl: "e \<in> set (heap_list (lfu_heap s))" using Cons by simp
  have mem: "e \<in> set (ht s)" "\<not> e_migrating (store s e)" using hl D(7) by auto
  define old where "old = e_oblock (store s e)"
  have size: "heap_size (lfu_heap s) > 0" using lfu_heap_empty [OF ok] mem by blast
  have mn: "heap_min (lfu_heap s) = Inr (Some e)"
    using heap_min_at [of "lfu_heap s" "heap_list (lfu_heap s)"] D(6) by (simp add: heap_fine_def Cons)
  from lfu_remove_entry_ok [OF ok mem(1) old_def [symmetric]] obtain s1 where
    1: "lfu_remove_entry e s = Inr s1" "lfu_base c s1" "lfu_ordered s \<longrightarrow> lfu_ordered s1"
    "lfu_abs s1 = \<lparr>lf_res = (lf_res (lfu_abs s))(old := None), lf_way = (lf_way (lfu_abs s))(old := None)\<rparr>"
    "cview (ht s1) (store s1) = (cview (ht s) (store s))(old := None)" "ht s1 = remove1 e (ht s)"
    "\<forall>ob'. ht_lookup ob' s1 = (if ob' = old then None else ht_lookup ob' s)"
    "pool_geo (cache_pool s1) = pool_geo (cache_pool s)" "next_free s1 = Some e" "cn_time s1 = cn_time s" by blast
  have none1: "ht_lookup ob s1 = None" using 1(7) none by simp
  have nf: "\<not> cache_is_full s1"
    using 1(9) by (auto simp: next_free_def cache_is_full_def epool_empty_def q_peek_def split: list.splits)
  let ?d = "e_dirty (store s e)"
  let ?r1 = "r0\<lparr>r_op := CACHE_NUCLEUS_NEW, r_old_oblock := old, r_dirty_eviction := ?d, r_op := CACHE_NUCLEUS_REPLACE\<rparr>"
  from lfu_admit_ok [OF 1(2) nf none1, of ?r1] obtain e' cb s2 where
    2: "lfu_admit ob ?r1 s1 = Inr (?r1\<lparr>r_cblock := cb\<rparr>, s2)" "lfu_base c s2"
    "lfu_ordered s1 \<and> unat (cn_time s1) < 2 ^ 31 \<longrightarrow> lfu_ordered s2"
    "lfu_abs s2 = \<lparr>lf_res = (lf_res (lfu_abs s1))(ob := None), lf_way = (lf_way (lfu_abs s1))(ob \<mapsto> (1, unat (cn_time s1)))\<rparr>"
    "cview (ht s2) (store s2) = (cview (ht s1) (store s1))(ob \<mapsto> (e', True, False))" "next_free s1 = Some e'"
    "pool_geo (cache_pool s2) = pool_geo (cache_pool s1)" "epool_at (cache_pool s1) cb = Some e'" by blast
  have ee: "e' = e" using 1(9) 2(6) by simp
  let ?r = "?r1\<lparr>r_cblock := cb\<rparr>"
  have vo: "cview (ht s) (store s) old = Some (e, False, ?d)" using lfu_view_entry [OF ok mem(1)] mem(2) by (simp add: old_def)
  show ?thesis
  proof (rule lfu_finish [OF _ 2(2)])
    show "lfu_map_api ob w r0 s = Inr (0, ?r, mark_dirty ob w (upd_stats inc_ios s2))"
      using none full size mn 1(1) 2(1) by (simp add: lfu_map_api_def lfu_transaction_set_def lfu_transaction_init_def
          lfu_transaction_is_legal_def lfu_transaction_commit_def lfu_evict_def deref_def Let_def old_def)
    show "write_effect ob w ?r (cview (ht s) (store s)) (marked ob w (cview (ht s2) (store s2)))"
      by (rule write_effect_replace [where v = "cview (ht s) (store s)" and e = e, OF _ vn])
        (use vo 1(5) 2(5) ee in simp_all)
    show "resides ob ?r s2"
      by (rule residesI [of s2 ob e _ "cache_pool s1"]) (use 2(5,7,8) ee in simp_all)
    show "\<exists>op v. lfu_next_victim_api lt ob s = Inr (op, v) \<and> op \<noteq> CACHE_NUCLEUS_FAIL"
      using none full size mn by (simp add: lfu_next_victim_api_def lfu_transaction_set_def
          lfu_transaction_is_legal_def deref_def Let_def)
    show "lfu_ordered s2 \<and> spec_lfu (unat c) (unat (cn_time s)) ob (lfu_abs s) (r_op ?r) (evicted ?r) (lfu_abs s2)"
      if o: "lfu_ordered s" and t: "unat (cn_time s) < 2 ^ 31"
    proof -
      have n: "lf_res (lfu_abs s) ob = None" "lf_way (lfu_abs s) ob = None" by (rule lfu_abs_None [OF none])+
      have at: "lf_res (lfu_abs s) old = Some (counts s e)" unfolding old_def by (rule lfu_counted(3) [OF ok hl])
      have way: "lf_way (lfu_abs s) old = None" using vo by (simp add: lfu_abs_def counted_def)
      have "\<forall>u \<in> dom (lf_res (lfu_abs s)). \<not> used_less (the (lf_res (lfu_abs s) u)) (the (lf_res (lfu_abs s) old))"
        using lfu_root [OF ok o] at by (simp add: Cons)
      moreover have "old \<in> dom (lf_res (lfu_abs s))" "lf_res (lfu_abs s) \<noteq> (\<lambda>_. None)" using at by auto
      moreover have "lfu_abs s2 = \<lparr>lf_res = (lf_res (lfu_abs s))(old := None), lf_way = (lf_way (lfu_abs s))(ob \<mapsto> (1, unat (cn_time s)))\<rparr>"
        using 2(4) 1(4,10) n way by (simp add: fun_upd_idem)
      ultimately show ?thesis
        using 1(3,10) 2(3) o t n at full lfu_full [OF ok] unfolding spec_lfu_def
        by (simp add: evicted_def)
    qed
  qed simp
qed

lemma lfu_access:
  assumes "lfu_base c s"
  shows "lfu_serves c lt ob w r0 s"
proof (cases "ht_lookup ob s")
  case None
  then show ?thesis using lfu_serve_miss [OF assms None] lfu_serve_full [OF assms None] by (cases "cache_is_full s") simp_all
qed (use lfu_serve_hit [OF assms] in simp)

section \<open>The contract\<close>

text \<open>It holds as long as the stack does not say that the access evicts.\<close>

interpretation lfu: nucleus_policy lfu_map_api lfu_remove_api lfu_insert_api lfu_migrated_api
  "lfu_next_victim_api \<lparr>lft_oblock = x, lft_hit = b, lft_evict = False\<rparr>" "lfu_base c" c for x b c
proof
  fix s :: lfu_policy and ob w r0 e d t
  assume ok: "lfu_base c s"
  show "cn_ok s \<and> ep_nr_entries (cache_pool s) = c" using lfu_baseD(1,2) [OF ok] by simp
  show "\<exists>r s'. lfu_map_api ob w r0 s = Inr (0, r, s') \<and> lfu_base c s' \<and>
      write_effect ob w r (cview (ht s) (store s)) (cview (ht s') (store s')) \<and> resides ob r s' \<and>
      (\<exists>op v. lfu_next_victim_api \<lparr>lft_oblock = x, lft_hit = b, lft_evict = False\<rparr> ob s = Inr (op, v) \<and>
        (op = CACHE_NUCLEUS_FAIL \<longleftrightarrow> r_op r = CACHE_NUCLEUS_FAIL))"
    using lfu_access [OF ok, of "\<lparr>lft_oblock = x, lft_hit = b, lft_evict = False\<rparr>" ob w r0]
    unfolding lfu_serves_def lfu_transaction.select_convs by blast
  show "cview (ht s) (store s) ob = Some (e, True, d) \<Longrightarrow> \<exists>s'. lfu_migrated_api ob s = Inr s' \<and> lfu_base c s' \<and>
      cview (ht s') (store s') = (cview (ht s) (store s))(ob \<mapsto> (e, False, d))"
    using lfu_migrated_ok [OF ok] by blast
  show "lfu_base c (default_set_time t s)" by (rule lfu_set_time [OF ok])
  show "cview (ht s) (store s) ob \<noteq> None \<Longrightarrow> \<exists>s'. lfu_remove_api ob False s = Inr s' \<and> lfu_base c s' \<and>
      cview (ht s') (store s') = (cview (ht s) (store s))(ob := None)"
    using lfu_remove_ok [OF ok] lfu_cview_entry(1) [OF ok, of ob] by (metis not_None_eq prod.exhaust)
qed

lemma lfu_create_ok:
  assumes "2 \<le> c" "2 * unat c < 2 ^ 32"
  shows "\<exists>s. lfu_create c m = Inr s \<and> lfu_base c s \<and> lfu_ordered s \<and> ht s = [] \<and>
    lfu_abs s = \<lparr>lf_res = Map.empty, lf_way = Map.empty\<rparr>"
proof -
  let ?h = "heap_init c (lfu_heap zero_lfu)"
  let ?s0 = "zero_lfu\<lparr>cache_pool := epool_create CacheRegion c, lfu_heap := ?h\<rparr>"
  obtain s' cp mp where s': "policy_init c 0 CACHE_NUCLEUS_SINGLE_THREAD ?s0 = Inr s'" "cn_ok s'" "ht s' = []"
    "s' = ?s0\<lparr>store := store s', cache_pool := cp, meta_pool := mp, stats := stats_init, ht := [],
           cache_size := c, meta_size := 0, thread_support := CACHE_NUCLEUS_SINGLE_THREAD, cn_time := 0\<rparr>"
    "ep_nr_entries cp = c" "ep_nr_entries mp = 0"
    using policy_init_ok [of ?s0 c 0 c 0 CACHE_NUCLEUS_SINGLE_THREAD] by (auto simp: zero_lfu_def)
  have f: "lfu_heap s' = ?h" "cache_pool s' = cp" "meta_pool s' = mp" by (subst s'(4), simp add: zero_lfu_def)+
  have at: "heap_at ?h []" using heap_init_at [of c] assms(2) by blast
  have l: "heap_list ?h = []" by (rule heap_list_at [OF at])
  have "lfu_base c s'" using s' f assms at l by (simp add: lfu_base_def heap_fine_def) (simp add: heap_init_def)
  moreover have "lfu_ordered s'"
    using s'(3) f l heap_init_holds [OF assms(2), of "lfu_rank (store s')" "lfu_small (store s')"]
    by (simp add: lfu_ordered_def lfu_sorted_def)
  moreover have "lfu_abs s' = \<lparr>lf_res = Map.empty, lf_way = Map.empty\<rparr>"
    using s'(3) by (simp add: lfu_abs_def counted_def fun_eq_iff)
  moreover have "heap_set_compare (lfu_compare (store zero_lfu)) ?h = Inr ?h"
    by (simp add: heap_set_compare_def heap_build_def heap_init_def)
  ultimately show ?thesis using s'(1,3) by (simp add: lfu_create_def lfu_init_def Let_def)
qed

section \<open>Properties\<close>

abbreviation stack_bits :: "oblock \<Rightarrow> bool \<Rightarrow> bool \<Rightarrow> lfu_transaction" where
  "stack_bits x b e \<equiv> \<lparr>lft_oblock = x, lft_hit = b, lft_evict = e\<rparr>"

lemma lfu_cache_policy: "cache_policy (lfu_api (stack_bits x b False)) (lfu_base c) (unat c)"
  using lfu.keeps_write_contract [of x b c] by (simp add: write_policy_def lfu_api_def)

lemma lfu_access_policy: "access_policy (lfu_api (stack_bits x b False)) (lfu_base c) (unat c)"
  using lfu_cache_policy by (simp add: cache_policy_def)

text \<open>
  C28. An access to LFU refines the access of the abstract LFU cache: it never faults, and the operation it
  reports, the evicted block, and the number and the time of the accesses of every block in the cache are
  those of \<open>spec_lfu\<close>. In particular the evicted block is one with the fewest accesses, and among those with
  the earliest last access. The counter of the block and the time must be below 2^31, as the difference of
  two words is read as a signed one.
\<close>
theorem lfu_access_refines:
  assumes "lfu_base c s" "lfu_ordered s" "unat (cn_time s) < 2 ^ 31"
    "\<forall>n t. lf_res (lfu_abs s) ob = Some (n, t) \<or> lf_way (lfu_abs s) ob = Some (n, t) \<longrightarrow> Suc n < 2 ^ 31"
  shows "\<exists>r s'. lfu_map_api ob w r0 s = Inr (0, r, s') \<and> lfu_base c s' \<and> lfu_ordered s' \<and>
    spec_lfu (unat c) (unat (cn_time s)) ob (lfu_abs s) (r_op r) (evicted r) (lfu_abs s')"
  using lfu_access [OF assms(1), of "stack_bits 0 False False" ob w r0] assms(2-4) unfolding lfu_serves_def by blast

theorem lfu_access_refines_witness:
  "\<exists>s r s'. lfu_create 2 0 = Inr s \<and> lfu_map_api 7 True zero_result s = Inr (0, r, s') \<and>
    r_op r = CACHE_NUCLEUS_NEW \<and> lf_way (lfu_abs s') 7 = Some (1, unat (cn_time s))"
proof -
  obtain s where s: "lfu_create 2 0 = Inr s" "lfu_base 2 s" "lfu_ordered s"
    "lfu_abs s = \<lparr>lf_res = Map.empty, lf_way = Map.empty\<rparr>"
    using lfu_create_ok [of 2 0] by auto
  have "cn_time s = 0" using s(1) by (auto simp: lfu_create_def lfu_init_def policy_init_def Let_def split: if_splits)
  then obtain r s' where "lfu_map_api 7 True zero_result s = Inr (0, r, s')"
    "spec_lfu 2 (unat (cn_time s)) 7 (lfu_abs s) (r_op r) (evicted r) (lfu_abs s')"
    using lfu_access_refines [OF s(2,3), of 7 True zero_result] s(4) by auto
  then show ?thesis using s(1,4) by (auto simp: spec_lfu_def)
qed

interpretation fomo_lfu: fomo_over_cache "lfu_api (stack_bits x b False)" "lfu_base c" "unat c" for x b c
  by (rule fomo_over_cacheI) (rule lfu_cache_policy)

text \<open>
  Over LFU, and over FOMO in front of LFU, the simulator with any migration delay below 2^31, any sampling
  rate but zero and without removals reads the whole trace without a fault, however far the counters
  run: the heap stays consistent and its loops end even when wrapped counters break its order. The stack under
  the prediction must not have the bit of an eviction set.
\<close>
theorem lfu_simulation_total:
  assumes "plain_opts opts" "2 \<le> c" "2 * unat c < 2 ^ 32"
  shows "(\<exists>s st st'. lfu_create c m = Inr s \<and> sim_prep opts s = Inr st \<and>
      sim_run (lfu_api (stack_bits x b False)) rnd opts 1 tr st = Inr st' \<and> lfu_base c (sm_policy st') \<and>
      (opt_sampling_rate opts = 1 \<longrightarrow> accesses (sm_stats st') = of_nat (length tr))) \<and>
    (\<exists>s st st'. fomo_create c m lfu_create = Inr s \<and> sim_prep opts s = Inr st \<and>
      sim_run (fomo_api (lfu_api (stack_bits x b False))) rnd opts 1 tr st = Inr st' \<and>
      fomo_ok (lfu_base c) (sm_policy st') \<and>
      (opt_sampling_rate opts = 1 \<longrightarrow> accesses (sm_stats st') = of_nat (length tr)))"
proof (rule conjI)
  let ?P = "lfu_api (stack_bits x b False)"
  obtain s where s: "lfu_create c m = Inr s" "lfu_base c s" "ht s = []"
    using lfu_create_ok [OF assms(2,3)] by blast
  have "mview ?P s = Map.empty" using lfu.starts_empty [OF s(2,3)] by (simp add: lfu_api_def)
  then have p: "pending (mview ?P s) = {}" by (simp add: pending_def)
  from access_policy.run_from_start [OF lfu_access_policy assms(1) s(2) p] s(1)
  show "\<exists>s st st'. lfu_create c m = Inr s \<and> sim_prep opts s = Inr st \<and>
      sim_run ?P rnd opts 1 tr st = Inr st' \<and> lfu_base c (sm_policy st') \<and>
      (opt_sampling_rate opts = 1 \<longrightarrow> accesses (sm_stats st') = of_nat (length tr))" by blast
  have "1 \<le> c" using assms(2) by (simp add: word_le_nat_alt)
  from fomo_init_ok [OF this, of "lfu_base c" s, OF s(2)] obtain f where
    f: "fomo_init c s (zero_fomo s) = Inr f" "fomo_ok (lfu_base c) f" "fo_internal f = s" by blast
  have "pending (mview (fomo_api ?P) f) = {}" unfolding fomo_pview f(3) by (rule p)
  from access_policy.run_from_start [OF fomo_lfu.fomo.access_policy_axioms assms(1) f(2) this] f(1) s(1)
  show "\<exists>s st st'. fomo_create c m lfu_create = Inr s \<and> sim_prep opts s = Inr st \<and>
      sim_run (fomo_api ?P) rnd opts 1 tr st = Inr st' \<and> fomo_ok (lfu_base c) (sm_policy st') \<and>
      (opt_sampling_rate opts = 1 \<longrightarrow> accesses (sm_stats st') = of_nat (length tr))"
    by (simp add: fomo_create_def)
qed

theorem lfu_simulation_total_witness:
  "\<exists>s st st'. lfu_create 2 0 = Inr s \<and> sim_prep \<lparr>opt_sampling_rate = 1, opt_migration_delay = 3, opt_remove_rate = 0\<rparr> s = Inr st \<and>
    sim_run (lfu_api (stack_bits 0 True False)) (\<lambda>_. 0) \<lparr>opt_sampling_rate = 1, opt_migration_delay = 3, opt_remove_rate = 0\<rparr> 1
      [(1, False), (2, True), (3, False), (3, False)] st = Inr st' \<and> accesses (sm_stats st') = 4"
  using lfu_simulation_total [of "\<lparr>opt_sampling_rate = 1, opt_migration_delay = 3, opt_remove_rate = 0\<rparr>"
      2 0 0 True "\<lambda>_. 0" "[(1, False), (2, True), (3, False), (3, False)]"]
  by (auto simp: plain_opts_def)

text \<open>
  The prediction of LFU depends on what the stack holds: if the bit of an eviction happens to be set, it
  predicts that any access to a cache without resident blocks fails, although the first access to a
  new cache puts the block in.
\<close>
theorem lfu_prediction_stack:
  assumes "2 \<le> c" "2 * unat c < 2 ^ 32"
  shows "\<exists>s r s'. lfu_create c m = Inr s \<and>
    lfu_next_victim_api (stack_bits x b True) ob s = Inr (CACHE_NUCLEUS_FAIL, None) \<and>
    lfu_map_api ob w r0 s = Inr (0, r, s') \<and> r_op r = CACHE_NUCLEUS_NEW"
proof -
  obtain s where s: "lfu_create c m = Inr s" "lfu_base c s" "lfu_ordered s" "ht s = []"
    "lfu_abs s = \<lparr>lf_res = Map.empty, lf_way = Map.empty\<rparr>"
    using lfu_create_ok [OF assms] by blast
  have none: "ht_lookup ob s = None" using s(4) by (simp add: ht_lookup_def tbl_lookup_def)
  have "unat c \<noteq> 0" using assms(1) by (auto simp: word_le_nat_alt)
  then have nf: "\<not> cache_is_full s" using lfu_full [OF s(2)] s(5) by simp
  have size: "\<not> 0 < heap_size (lfu_heap s)" using lfu_heap_empty [OF s(2)] s(4) by simp
  have "lfu_next_victim_api (stack_bits x b True) ob s = Inr (CACHE_NUCLEUS_FAIL, None)"
    using none nf size by (simp add: lfu_next_victim_api_def lfu_transaction_set_def lfu_transaction_is_legal_def Let_def)
  moreover have "cn_time s = 0"
    using s(1) by (auto simp: lfu_create_def lfu_init_def policy_init_def Let_def split: if_splits)
  then obtain r s' where "lfu_map_api ob w r0 s = Inr (0, r, s')"
    "spec_lfu (unat c) (unat (cn_time s)) ob (lfu_abs s) (r_op r) (evicted r) (lfu_abs s')"
    using lfu_access [OF s(2), of "stack_bits 0 False False" ob w r0] s(3,5) unfolding lfu_serves_def by auto
  moreover from this(2) have "r_op r = CACHE_NUCLEUS_NEW" using s(5) \<open>unat c \<noteq> 0\<close> by (simp add: spec_lfu_def)
  ultimately show ?thesis using s(1) by blast
qed

theorem lfu_prediction_stack_witness:
  "\<exists>s r s'. lfu_create 4 0 = Inr s \<and>
    lfu_next_victim_api (stack_bits 9 False True) 1 s = Inr (CACHE_NUCLEUS_FAIL, None) \<and>
    lfu_map_api 1 False zero_result s = Inr (0, r, s') \<and> r_op r = CACHE_NUCLEUS_NEW"
  by (rule lfu_prediction_stack) simp_all

text \<open>
  The comparison of LFU orders blocks by the number and the time of their accesses while both are below
  2^31, and turns the order of two counters around when they are more than 2^31 apart, as the note in
  \<open>heap.h\<close> warns about keys that are subtracted.
\<close>
theorem lfu_compare_order:
  "(lfu_small st k a \<and> lfu_small st k b \<longrightarrow>
      (lfu_compare st k a b < 0 \<longleftrightarrow> used_less (unat (k a), unat (e_time (st a))) (unat (k b), unat (e_time (st b))))) \<and>
   (unat (k a) + 2 ^ 31 < unat (k b) \<longrightarrow> lfu_compare st k a b > 0)"
proof (intro conjI impI)
  assume sm: "lfu_small st k a \<and> lfu_small st k b"
  have "k a = k b \<longleftrightarrow> unat (k a) = unat (k b)" by (simp add: word_unat_eq_iff)
  then show "lfu_compare st k a b < 0 \<longleftrightarrow> used_less (unat (k a), unat (e_time (st a))) (unat (k b), unat (e_time (st b)))"
    using sm sint_diff_less [of "k a" "k b"] sint_diff_less [of "e_time (st a)" "e_time (st b)"]
    unfolding lfu_compare_def used_less_def lfu_small_def fst_conv snd_conv by (cases "k a = k b") simp_all
next
  assume far: "unat (k a) + 2 ^ 31 < unat (k b)"
  have u: "uint (k a) = int (unat (k a))" "uint (k b) = int (unat (k b))" by simp_all
  have top: "unat (k b) < 4294967296" using unat_less_exp [of "k b"] by simp
  have f: "unat (k a) + 2147483648 < unat (k b)" using far by simp
  have "sint (k a - k b) = signed_take_bit 31 (int (unat (k a)) - int (unat (k b)))"
    unfolding word_sub_wi u by (subst sint_sbintrunc') simp
  also have "\<dots> = signed_take_bit 31 (int (unat (k a)) - int (unat (k b)) + 2 ^ 32)"
    by (rule signed_take_bit_eq_iff_take_bit_eq [THEN iffD2]) (simp add: take_bit_eq_mod)
  also have "\<dots> = int (unat (k a)) - int (unat (k b)) + 2 ^ 32"
  proof (rule signed_take_bit_int_eq_self)
    have "- 2147483648 \<le> int (unat (k a)) - int (unat (k b)) + 4294967296"
      "int (unat (k a)) - int (unat (k b)) + 4294967296 < 2147483648" using f top by linarith+
    then show "- (2 ^ 31) \<le> int (unat (k a)) - int (unat (k b)) + 2 ^ 32"
      "int (unat (k a)) - int (unat (k b)) + 2 ^ 32 < 2 ^ 31" by simp_all
  qed
  finally have "sint (k a - k b) = int (unat (k a)) - int (unat (k b)) + 4294967296" by simp
  moreover have "k a \<noteq> k b" using f by auto
  ultimately show "lfu_compare st k a b > 0" using f top unfolding lfu_compare_def by (simp; linarith)
qed

theorem lfu_compare_order_witness:
  "lfu_compare (\<lambda>_. zero_entry) (\<lambda>p. if p = (CacheRegion, 0) then 1 else 2147483650) (CacheRegion, 0) (CacheRegion, 1) > 0"
  using lfu_compare_order [of "\<lambda>_. zero_entry" "\<lambda>p. if p = (CacheRegion, 0) then 1 else 2147483650" "(CacheRegion, 0)" "(CacheRegion, 1)"]
  by simp

end
