(* ===== verification/Window.thy ===== *)
theory Window
  imports Prelude
begin

text \<open>
  The sliding window of \<open>src/src/include/tools/window_stats.h\<close>, an array used as a ring with the sum of
  its values, and the proof that it is the list of the last values pushed.
\<close>

section \<open>Rings\<close>

text \<open>
  An array of \<open>n\<close> elements as a ring: the \<open>len\<close> elements from index \<open>start\<close> on, and what a step of the start and a write
  behind the last element do to them.
\<close>

definition ring_values :: "'a list \<Rightarrow> nat \<Rightarrow> nat \<Rightarrow> nat \<Rightarrow> 'a list" where
  "ring_values vs n start len = map (\<lambda>i. vs ! ((start + i) mod n)) [0..<len]"

lemma ring_length [simp]: "length (ring_values vs n start len) = len"
  by (simp add: ring_values_def)

lemma ring_empty [simp]: "ring_values vs n start 0 = []"
  by (simp add: ring_values_def)

lemma ring_hd: "0 < len \<Longrightarrow> start < n \<Longrightarrow> hd (ring_values vs n start len) = vs ! start"
  by (simp add: ring_values_def hd_map)

lemma ring_pop: "ring_values vs n ((start + 1) mod n) (len - 1) = tl (ring_values vs n start len)"
proof (rule nth_equalityI)
  fix i assume "i < length (ring_values vs n ((start + 1) mod n) (len - 1))"
  then show "ring_values vs n ((start + 1) mod n) (len - 1) ! i = tl (ring_values vs n start len) ! i"
    by (simp add: ring_values_def nth_tl mod_add_left_eq [of "Suc start", simplified] less_diff_conv)
qed simp

lemma ring_push:
  assumes "len < n" "length vs = n"
  shows "ring_values (vs[(start + len) mod n := v]) n start (Suc len) = ring_values vs n start len @ [v]"
proof -
  have "(start + i) mod n \<noteq> (start + len) mod n" if "i < len" for i
  proof
    assume "(start + i) mod n = (start + len) mod n"
    then have "n dvd ((start + len) - (start + i))" using that by (metis mod_eq_dvd_iff_nat add_le_cancel_left less_imp_le_nat)
    then have "n \<le> len - i" using that by (simp add: dvd_imp_le)
    then show False using assms(1) by simp
  qed
  then have "(start + len) mod n \<noteq> (start + i) mod n" if "i < len" for i using that by metis
  then show ?thesis using assms by (auto simp: ring_values_def)
qed

text \<open>The index behind the last element.\<close>

lemma ring_end_pop: "0 < n \<Longrightarrow> 0 < len \<Longrightarrow> (((start :: nat) + 1) mod n + (len - 1)) mod n = (start + len) mod n"
  by (simp only: mod_add_left_eq) simp

lemma ring_end_push: "(((start :: nat) + len) mod n + 1) mod n = (start + Suc len) mod n"
  by (simp add: mod_Suc_eq)

section \<open>The window\<close>

record window_stats =
  ws_values :: "u64 list"
  ws_sum :: u64
  ws_start :: u32
  ws_end :: u32
  ws_len :: u32
  ws_size :: u32

definition window_stats_clear :: "window_stats \<Rightarrow> window_stats" where
  "window_stats_clear w = w\<lparr>ws_sum := 0, ws_start := 0, ws_end := 0, ws_len := 0\<rparr>"

text \<open>The array comes zeroed from the allocator.\<close>

definition window_stats_init :: "u32 \<Rightarrow> window_stats \<Rightarrow> window_stats" where
  "window_stats_init n w =
     (window_stats_clear (w\<lparr>ws_values := replicate (unat n) 0\<rparr>))\<lparr>ws_size := n\<rparr>"

definition value_at :: "u32 \<Rightarrow> window_stats \<Rightarrow> u64 res" where
  "value_at i w = (if unat i < length (ws_values w) then Inr (ws_values w ! unat i) else Inl OutOfBounds)"

definition set_value :: "u32 \<Rightarrow> u64 \<Rightarrow> window_stats \<Rightarrow> window_stats res" where
  "set_value i v w =
     (if unat i < length (ws_values w) then Inr (w\<lparr>ws_values := (ws_values w)[unat i := v]\<rparr>)
      else Inl OutOfBounds)"

definition window_stats_peek :: "window_stats \<Rightarrow> u64 res" where
  "window_stats_peek w = (if ws_len w < ws_size w then Inr 0 else value_at (ws_start w) w)"

definition window_stats_pop :: "window_stats \<Rightarrow> window_stats res" where
  "window_stats_pop w =
     (if ws_len w = 0 then Inr w
      else
        rbind (window_stats_peek w) (\<lambda>v.
        let w = w\<lparr>ws_sum := ws_sum w - v\<rparr> in
        rbind (umod (ws_start w + 1) (ws_size w)) (\<lambda>i.
        Inr (w\<lparr>ws_start := i, ws_len := ws_len w - 1\<rparr>))))"

definition window_stats_push :: "u64 \<Rightarrow> window_stats \<Rightarrow> window_stats res" where
  "window_stats_push v w =
     rbind (if ws_len w = ws_size w then window_stats_pop w else Inr w) (\<lambda>w.
     rbind (set_value (ws_end w) v w) (\<lambda>w.
     let w = w\<lparr>ws_sum := ws_sum w + v\<rparr> in
     rbind (umod (ws_end w + 1) (ws_size w)) (\<lambda>i.
     Inr (w\<lparr>ws_end := i, ws_len := ws_len w + 1\<rparr>))))"

definition window_stats_full :: "window_stats \<Rightarrow> bool" where
  "window_stats_full w \<longleftrightarrow> ws_len w = ws_size w"

section \<open>The window it stands for\<close>

text \<open>The values in the window, oldest first.\<close>

definition window_values :: "window_stats \<Rightarrow> u64 list" where
  "window_values w = ring_values (ws_values w) (unat (ws_size w)) (unat (ws_start w)) (unat (ws_len w))"

definition window_ok :: "window_stats \<Rightarrow> bool" where
  "window_ok w \<longleftrightarrow> 0 < ws_size w \<and> unat (ws_size w) < 2 ^ 31 \<and> length (ws_values w) = unat (ws_size w) \<and>
     ws_start w < ws_size w \<and> ws_len w \<le> ws_size w \<and>
     unat (ws_end w) = (unat (ws_start w) + unat (ws_len w)) mod unat (ws_size w) \<and>
     ws_sum w = sum_list (window_values w)"

text \<open>The last \<open>n\<close> elements after one more.\<close>

definition slide :: "nat \<Rightarrow> 'a \<Rightarrow> 'a list \<Rightarrow> 'a list" where
  "slide n x xs = (if length xs = n then tl xs else xs) @ [x]"

lemma length_slide [simp]: "0 < n \<Longrightarrow> length xs \<le> n \<Longrightarrow> length (slide n x xs) = min n (Suc (length xs))"
  by (auto simp: slide_def)

lemma slide_last: "0 < n \<Longrightarrow> length xs \<le> n \<Longrightarrow> slide n x xs = drop (Suc (length xs) - n) (xs @ [x])"
  by (auto simp: slide_def drop_Suc)

lemma window_length [simp]: "length (window_values w) = unat (ws_len w)"
  by (simp add: window_values_def)

lemma window_okD:
  assumes "window_ok w"
  shows "0 < unat (ws_size w)" "unat (ws_size w) < 2 ^ 31" "length (ws_values w) = unat (ws_size w)"
    "unat (ws_start w) < unat (ws_size w)" "unat (ws_len w) \<le> unat (ws_size w)"
    "unat (ws_end w) = (unat (ws_start w) + unat (ws_len w)) mod unat (ws_size w)"
    "ws_sum w = sum_list (window_values w)"
  using assms by (simp_all add: window_ok_def word_less_nat_alt word_le_nat_alt)

lemma next_index:
  assumes "unat (n :: u32) < 2 ^ 31" "unat i < unat n"
  shows "unat ((i + 1) mod n) = (unat i + 1) mod unat n"
proof -
  have "unat (i + 1) = unat i + 1" using assms by (subst unat_add_small) simp_all
  then show ?thesis by (simp add: unat_mod)
qed

lemma window_clear_ok:
  assumes "window_ok w"
  shows "window_ok (window_stats_clear w)" "window_values (window_stats_clear w) = []"
    "ws_size (window_stats_clear w) = ws_size w"
  using window_okD [OF assms] by (simp_all add: window_ok_def window_stats_clear_def window_values_def word_less_nat_alt)

lemma window_init_ok:
  assumes "0 < n" "unat n < 2 ^ 31"
  shows "window_ok (window_stats_init n w)" "window_values (window_stats_init n w) = []"
    "ws_size (window_stats_init n w) = n"
  using assms by (simp_all add: window_ok_def window_stats_init_def window_stats_clear_def window_values_def)

lemma window_peek_ok:
  assumes "window_ok w"
  shows "window_stats_peek w =
    Inr (if unat (ws_len w) = unat (ws_size w) then hd (window_values w) else 0)"
proof (cases "unat (ws_len w) = unat (ws_size w)")
  case True
  then have "hd (window_values w) = ws_values w ! unat (ws_start w)"
    using window_okD(1,4) [OF assms] by (simp add: window_values_def ring_hd)
  then show ?thesis using True window_okD [OF assms]
    by (simp add: window_stats_peek_def value_at_def word_less_nat_alt)
next
  case False
  then show ?thesis using window_okD(5) [OF assms]
    by (simp add: window_stats_peek_def word_less_nat_alt)
qed

text \<open>A full window loses its oldest value.\<close>

lemma window_pop_full:
  assumes ok: "window_ok w" and full: "ws_len w = ws_size w"
  shows "\<exists>w'. window_stats_pop w = Inr w' \<and> window_ok w' \<and> window_values w' = tl (window_values w) \<and>
    ws_size w' = ws_size w \<and> ws_end w' = ws_end w \<and> unat (ws_len w') < unat (ws_size w')"
proof -
  note D = window_okD [OF ok]
  let ?n = "unat (ws_size w)"
  define w' where "w' = w\<lparr>ws_sum := ws_sum w - hd (window_values w),
    ws_start := (ws_start w + 1) mod ws_size w, ws_len := ws_len w - 1\<rparr>"
  have nz: "ws_len w \<noteq> 0" "ws_size w \<noteq> 0" using D(1) full by auto
  then have pop: "window_stats_pop w = Inr w'"
    using window_peek_ok [OF ok] full by (simp add: window_stats_pop_def umod_def w'_def)
  have start: "unat (ws_start w') = (unat (ws_start w) + 1) mod ?n"
    unfolding w'_def using next_index [OF D(2,4)] by simp
  have len: "unat (ws_len w') = ?n - 1"
    unfolding w'_def using nz full by (simp add: unat_minus_one)
  have vals: "window_values w' = tl (window_values w)"
    unfolding window_values_def len start full
    using ring_pop [of "ws_values w" ?n "unat (ws_start w)" ?n] by (simp add: w'_def)
  have ne: "window_values w \<noteq> []" using D(1) full by (metis length_0_conv less_numeral_extra(3) window_length)
  then have "ws_sum w = hd (window_values w) + sum_list (tl (window_values w))"
    using D(7) by (metis list.collapse sum_list.Cons)
  then have sum: "ws_sum w' = sum_list (window_values w')" unfolding vals by (simp add: w'_def)
  have end_eq: "unat (ws_end w') = (unat (ws_start w') + unat (ws_len w')) mod unat (ws_size w')"
    using D(1,6) full start len ring_end_pop [of ?n ?n "unat (ws_start w)"] by (simp add: w'_def)
  have "window_ok w'" using D(1,2,3) start len sum end_eq
    by (simp add: window_ok_def word_less_nat_alt word_le_nat_alt) (simp add: w'_def)
  then show ?thesis using pop vals len D(1) by (intro exI [of _ w']) (simp add: w'_def)
qed

text \<open>A value goes in, the window holds the last ones.\<close>

lemma window_put:
  assumes ok: "window_ok w" and room: "unat (ws_len w) < unat (ws_size w)"
  shows "\<exists>w'. rbind (set_value (ws_end w) v w) (\<lambda>w.
     let w = w\<lparr>ws_sum := ws_sum w + v\<rparr> in
     rbind (umod (ws_end w + 1) (ws_size w)) (\<lambda>i.
     Inr (w\<lparr>ws_end := i, ws_len := ws_len w + 1\<rparr>))) = Inr w' \<and>
    window_ok w' \<and> window_values w' = window_values w @ [v] \<and> ws_size w' = ws_size w"
proof -
  note D = window_okD [OF ok]
  let ?n = "unat (ws_size w)" and ?s = "unat (ws_start w)" and ?l = "unat (ws_len w)"
  define w' where "w' = w\<lparr>ws_values := (ws_values w)[unat (ws_end w) := v], ws_sum := ws_sum w + v,
    ws_end := (ws_end w + 1) mod ws_size w, ws_len := ws_len w + 1\<rparr>"
  have e: "unat (ws_end w) < ?n" using D(1,6) by simp
  have put: "rbind (set_value (ws_end w) v w) (\<lambda>w.
     let w = w\<lparr>ws_sum := ws_sum w + v\<rparr> in
     rbind (umod (ws_end w + 1) (ws_size w)) (\<lambda>i.
     Inr (w\<lparr>ws_end := i, ws_len := ws_len w + 1\<rparr>))) = Inr w'"
    using e D(1,3) by (auto simp: set_value_def umod_def w'_def Let_def)
  have len: "unat (ws_len w') = Suc ?l"
    unfolding w'_def using room D(2) by (simp add: unat_add_small)
  have endw: "unat (ws_end w') = (unat (ws_end w) + 1) mod ?n"
    unfolding w'_def using next_index [OF D(2) e] by simp
  have vals: "window_values w' = window_values w @ [v]"
    unfolding window_values_def len using ring_push [OF room D(3), of ?s v] D(6) by (simp add: w'_def)
  have sum: "ws_sum w' = sum_list (window_values w')" using D(7) by (simp add: vals) (simp add: w'_def)
  have end_eq: "unat (ws_end w') = (unat (ws_start w') + unat (ws_len w')) mod unat (ws_size w')"
    using D(6) endw len by (simp add: w'_def mod_add_left_eq mod_Suc_eq)
  have "window_ok w'" using D sum end_eq len room
    by (simp add: window_ok_def word_less_nat_alt word_le_nat_alt) (simp add: w'_def)
  then show ?thesis using put vals by (intro exI [of _ w']) (simp add: w'_def)
qed

lemma window_push_ok:
  assumes ok: "window_ok w"
  shows "\<exists>w'. window_stats_push v w = Inr w' \<and> window_ok w' \<and> ws_size w' = ws_size w \<and>
    window_values w' = slide (unat (ws_size w)) v (window_values w)"
proof (cases "ws_len w = ws_size w")
  case True
  from window_pop_full [OF ok this] obtain w1 where w1: "window_stats_pop w = Inr w1" "window_ok w1"
    "window_values w1 = tl (window_values w)" "ws_size w1 = ws_size w" "unat (ws_len w1) < unat (ws_size w1)"
    by blast
  from window_put [OF w1(2,5), of v] obtain w' where "window_stats_push v w = Inr w'" "window_ok w'"
    "window_values w' = window_values w1 @ [v]" "ws_size w' = ws_size w1"
    using True w1(1) unfolding window_stats_push_def by auto
  then show ?thesis using True w1(3,4) by (simp add: slide_def)
next
  case False
  then have "unat (ws_len w) \<noteq> unat (ws_size w)" by (simp add: word_unat_eq_iff)
  then have "unat (ws_len w) < unat (ws_size w)" using window_okD(5) [OF ok] by simp
  from window_put [OF ok this, of v] obtain w' where "window_stats_push v w = Inr w'" "window_ok w'"
    "window_values w' = window_values w @ [v]" "ws_size w' = ws_size w"
    using False unfolding window_stats_push_def by auto
  then show ?thesis using \<open>unat (ws_len w) \<noteq> unat (ws_size w)\<close> by (simp add: slide_def)
qed

lemma window_full_iff: "window_ok w \<Longrightarrow> window_stats_full w \<longleftrightarrow> length (window_values w) = unat (ws_size w)"
  by (simp add: window_stats_full_def word_unat_eq_iff)

text \<open>A sequence of values goes in.\<close>

fun window_pushes :: "u64 list \<Rightarrow> window_stats \<Rightarrow> window_stats res" where
  "window_pushes [] w = Inr w"
| "window_pushes (v # vs) w = rbind (window_stats_push v w) (window_pushes vs)"

lemma window_pushes_ok:
  assumes "window_ok w"
  shows "\<exists>w'. window_pushes vs w = Inr w' \<and> window_ok w' \<and> ws_size w' = ws_size w \<and>
    window_values w' = fold (slide (unat (ws_size w))) vs (window_values w)"
  using assms
proof (induction vs arbitrary: w)
  case (Cons v vs)
  from window_push_ok [OF Cons.prems, of v] obtain w1 where w1: "window_stats_push v w = Inr w1" "window_ok w1"
    "ws_size w1 = ws_size w" "window_values w1 = slide (unat (ws_size w)) v (window_values w)" by blast
  from Cons.IH [OF w1(2)] show ?case using w1(1,3,4) by simp
qed simp

lemma fold_slide:
  assumes "0 < n" "length xs \<le> n"
  shows "fold (slide n) vs xs = drop (length xs + length vs - n) (xs @ vs)"
  using assms(2)
proof (induction vs arbitrary: xs)
  case (Cons v vs)
  let ?d = "Suc (length xs) - n"
  have "fold (slide n) (v # vs) xs = drop (length (slide n v xs) + length vs - n) (slide n v xs @ vs)"
    using Cons.IH [of "slide n v xs"] Cons.prems assms(1) by simp
  also have "slide n v xs @ vs = drop ?d (xs @ v # vs)"
    using slide_last [OF assms(1) Cons.prems, of v] assms(1) by (simp add: Suc_le_eq [symmetric])
  also have "drop (length (slide n v xs) + length vs - n) (drop ?d (xs @ v # vs)) =
      drop (length xs + length (v # vs) - n) (xs @ v # vs)"
  proof -
    have "length (slide n v xs) + length vs - n + ?d = length xs + length (v # vs) - n"
      using Cons.prems assms(1) by (cases "length xs = n") (auto simp: slide_def)
    then show ?thesis by (simp only: drop_drop)
  qed
  finally show ?case .
qed simp

text \<open>
  C31. A new window of n values, after any sequence of pushes, holds the last n of them in their order, or
  all of them if there were fewer, and keeps their sum; no push reads or writes outside the array. Its
  peek is the oldest value when it is full and 0 before.
\<close>
theorem window_stats_refines:
  assumes "0 < n" "unat n < 2 ^ 31"
  shows "\<exists>w. window_pushes vs (window_stats_init n w0) = Inr w \<and>
    window_values w = drop (length vs - unat n) vs \<and> ws_sum w = sum_list (window_values w) \<and>
    (window_stats_full w \<longleftrightarrow> unat n \<le> length vs) \<and>
    window_stats_peek w = Inr (if unat n \<le> length vs then vs ! (length vs - unat n) else 0)"
proof -
  note I = window_init_ok [OF assms, of w0]
  from window_pushes_ok [OF I(1), of vs] obtain w where w: "window_pushes vs (window_stats_init n w0) = Inr w" "window_ok w"
    "ws_size w = n" "window_values w = fold (slide (unat n)) vs []" unfolding I(2,3) by blast
  have n: "0 < unat n" using assms(1) by (simp add: word_less_nat_alt)
  have v: "window_values w = drop (length vs - unat n) vs" using w(4) fold_slide [OF n, of "[]" vs] by simp
  have l: "unat (ws_len w) = length vs - (length vs - unat n)" using v by (metis length_drop window_length)
  have full: "unat (ws_len w) = unat n \<longleftrightarrow> unat n \<le> length vs" using l n by auto
  have "unat n \<le> length vs \<Longrightarrow> hd (window_values w) = vs ! (length vs - unat n)"
    unfolding v using n by (simp add: hd_drop_conv_nth)
  then have "window_stats_peek w = Inr (if unat n \<le> length vs then vs ! (length vs - unat n) else 0)"
    using window_peek_ok [OF w(2)] w(3) full by simp
  moreover have "window_stats_full w \<longleftrightarrow> unat n \<le> length vs"
    using window_full_iff [OF w(2)] w(3) full by simp
  ultimately show ?thesis using w(1) v window_okD(7) [OF w(2)] by blast
qed

definition empty_window :: window_stats where
  "empty_window = \<lparr>ws_values = [], ws_sum = 0, ws_start = 0, ws_end = 0, ws_len = 0, ws_size = 0\<rparr>"

theorem window_stats_refines_witness:
  "\<exists>w. window_pushes [5, 6, 7, 8] (window_stats_init 3 empty_window) = Inr w \<and>
    window_values w = [6, 7, 8] \<and> ws_sum w = 21"
  using window_stats_refines [of 3 "[5, 6, 7, 8]" empty_window] by auto

end
