(* ===== verification/Marc.thy ===== *)
theory Marc
  imports Policy Window
begin

text \<open>
  mARC (\<open>src/src/algs/marc/marc_policy.c\<close>, \<open>marc_policy_struct.h\<close>): an admission filter in front of an ARC
  policy. It watches the hit rate of a sample of the accesses and of the phase it is in, and moves between
  the states UNSTABLE, STABLE and UNIQUE; in the last two a miss enters the cache only if its block
  is in the ghost list. The theory has its transactions and API functions, over any internal policy.
\<close>

section \<open>The policy\<close>

datatype marc_state = UNSTABLE | STABLE | UNIQUE

text \<open>\<open>marc_entry\<close> adds to \<open>entry\<close> only the queue node. \<open>'s\<close> is the internal policy.\<close>

record 's marc_policy = "unit cache_nucleus" +
  ma_internal :: 's
  ma_TABU :: u64
  ma_tabu_counter :: u64
  ma_state :: marc_state
  ghost_q :: "eptr list"
  ma_ghost_size :: u64
  ma_ghost_hits :: u64
  ma_ghost_hits_old :: u64
  ma_sample :: window_stats
  ma_sample_avg :: window_stats
  ma_phase_hits :: u64
  ma_phase_ios :: u64

record marc_transaction =
  mx_oblock :: oblock
  mx_write :: bool
  mx_tabu_counter :: u64
  mx_state :: marc_state
  mx_ghost_size :: u64
  mx_c_hit :: bool
  mx_save_sample_avg :: bool
  mx_sample_clear :: bool
  mx_sample_avg_clear :: bool
  mx_phase_clear :: bool
  mx_save_ghost_hits :: bool
  mx_ghost_remove :: bool
  mx_ghost_add :: bool
  mx_filter :: bool

definition marc_transaction_init :: "'s marc_policy \<Rightarrow> oblock \<Rightarrow> bool \<Rightarrow> marc_transaction" where
  "marc_transaction_init s ob write =
     \<lparr>mx_oblock = ob, mx_write = write, mx_tabu_counter = ma_tabu_counter s, mx_state = ma_state s,
      mx_ghost_size = ma_ghost_size s, mx_c_hit = False, mx_save_sample_avg = False,
      mx_sample_clear = False, mx_sample_avg_clear = False, mx_phase_clear = False,
      mx_save_ghost_hits = False, mx_ghost_remove = False, mx_ghost_add = False, mx_filter = True\<rparr>"

section \<open>The states\<close>

definition marc_change_state ::
  "'s policy_api \<Rightarrow> 's marc_policy \<Rightarrow> marc_state \<Rightarrow> marc_transaction \<Rightarrow> marc_transaction" where
  "marc_change_state P s state mt =
     (let mt = (if state \<noteq> UNSTABLE then mt\<lparr>mx_ghost_size := ucast (fn_cache_size P (ma_internal s) div 10)\<rparr>
                else mt\<lparr>mx_tabu_counter := 2 * ma_TABU s\<rparr>)
      in mt\<lparr>mx_state := state, mx_sample_clear := True, mx_sample_avg_clear := True,
            mx_phase_clear := state \<noteq> STABLE\<rparr>)"

text \<open>\<open>max\<close> and \<open>min\<close> are functions on \<open>unsigned\<close>: 64-bit arguments lose their upper half.\<close>

definition max_64 :: "u64 \<Rightarrow> u64 \<Rightarrow> u64" where
  "max_64 a b = ucast (max_u (ucast a) (ucast b))"

definition min_64 :: "u64 \<Rightarrow> u64 \<Rightarrow> u64" where
  "min_64 a b = ucast (min_u (ucast a) (ucast b))"

definition marc_ghost_decrease_size :: "'s policy_api \<Rightarrow> 's marc_policy \<Rightarrow> u64 \<Rightarrow> u64 res" where
  "marc_ghost_decrease_size P s ghost_size =
     (let csize = ucast (fn_cache_size P (ma_internal s)) in
      if ghost_size = csize then Inr (csize div 10)
      else
        rbind (udiv csize (csize - ghost_size)) (\<lambda>tmp.
        Inr (if ghost_size \<ge> tmp then max_64 (csize div 10) (ghost_size - tmp) else csize div 10)))"

definition marc_ghost_increase_size :: "'s policy_api \<Rightarrow> 's marc_policy \<Rightarrow> u64 \<Rightarrow> u64 res" where
  "marc_ghost_increase_size P s ghost_size =
     (let csize = ucast (fn_cache_size P (ma_internal s)) in
      rbind (udiv csize ghost_size) (\<lambda>tmp.
      Inr (min_64 ((9 * csize) div 10) (ghost_size + tmp))))"

definition marc_unst_uniq_check :: "u64 \<Rightarrow> u64 \<Rightarrow> bool" where
  "marc_unst_uniq_check hr_sample hr_state \<longleftrightarrow> hr_state div 2 > hr_sample \<or> hr_sample < 5"

definition marc_unst_stab_check :: "u64 \<Rightarrow> u64 \<Rightarrow> bool" where
  "marc_unst_stab_check hr_sample hr_state \<longleftrightarrow>
     hr_state < (11 * hr_sample) div 10 \<and> hr_state > (9 * hr_sample) div 10 \<or>
     hr_sample \<ge> hr_state \<and> hr_sample \<ge> 20"

definition marc_stab_unst_check :: "u64 \<Rightarrow> u64 \<Rightarrow> bool" where
  "marc_stab_unst_check hr_sample hr_state \<longleftrightarrow> hr_sample \<le> (7 * hr_state) div 10"

definition marc_uniq_unst_check :: "'s marc_policy \<Rightarrow> u64 \<Rightarrow> u64 \<Rightarrow> bool res" where
  "marc_uniq_unst_check s hr_sample hr_state =
     rbind (udiv ((ma_ghost_hits s - ma_ghost_hits_old s) * 100) (ma_TABU s)) (\<lambda>filter_hr.
     Inr (filter_hr > 10 \<or> hr_sample > 5))"

definition marc_try_transition ::
  "'s policy_api \<Rightarrow> 's marc_policy \<Rightarrow> u64 \<Rightarrow> u64 \<Rightarrow> marc_transaction \<Rightarrow> marc_transaction res" where
  "marc_try_transition P s hr_sample hr_state mt =
     (case ma_state s of
        UNSTABLE \<Rightarrow>
          Inr (if marc_unst_uniq_check hr_sample hr_state then marc_change_state P s UNIQUE mt
               else if marc_unst_stab_check hr_sample hr_state then marc_change_state P s STABLE mt
               else mt)
      | STABLE \<Rightarrow>
          Inr (if marc_stab_unst_check hr_sample hr_state then marc_change_state P s UNSTABLE mt else mt)
      | UNIQUE \<Rightarrow>
          rbind (marc_uniq_unst_check s hr_sample hr_state) (\<lambda>leave.
          Inr (if leave then marc_change_state P s UNSTABLE mt else mt)))"

section \<open>Transactions\<close>

text \<open>The first half of \<open>marc_transaction_set\<close>: the sample, and the state at the end of a period.\<close>

definition marc_observe ::
  "'s policy_api \<Rightarrow> 's marc_policy \<Rightarrow> marc_transaction \<Rightarrow> marc_transaction res" where
  "marc_observe P s mt =
     (let e = policy_cache_lookup P (mx_oblock mt) (ma_internal s);
          mt = (if ma_tabu_counter s > 0 then mt\<lparr>mx_tabu_counter := mx_tabu_counter mt - 1\<rparr> else mt);
          mt = mt\<lparr>mx_c_hit := e \<noteq> None\<rparr>;
          sample_full = ws_len (ma_sample s) + 1 \<ge> ws_size (ma_sample s) in
      if mx_tabu_counter mt = 0 \<and> sample_full then
        let mt = mt\<lparr>mx_tabu_counter := ma_TABU s\<rparr> in
        rbind (window_stats_peek (ma_sample s)) (\<lambda>oldest.
        rbind (udiv (100 * (ws_sum (ma_sample s) - oldest + of_bool (mx_c_hit mt)))
                 (ucast (ws_size (ma_sample s)))) (\<lambda>hr_sample.
        rbind (udiv (100 * (ma_phase_hits s + of_bool (mx_c_hit mt))) (ma_phase_ios s + 1)) (\<lambda>hr_state.
        let mt = mt\<lparr>mx_save_sample_avg := True\<rparr> in
        rbind (marc_try_transition P s hr_sample hr_state mt) (\<lambda>mt.
        Inr (mt\<lparr>mx_save_ghost_hits := True\<rparr>)))))
      else Inr mt)"

text \<open>The second half: the ghost list and its size, and is the access filtered.\<close>

definition marc_admit ::
  "'s policy_api \<Rightarrow> 's marc_policy \<Rightarrow> marc_transaction \<Rightarrow> marc_transaction res" where
  "marc_admit P s mt =
     (if mx_state mt \<noteq> UNSTABLE then
        if mx_c_hit mt then
          rbind (marc_ghost_decrease_size P s (mx_ghost_size mt)) (\<lambda>size.
          Inr (mt\<lparr>mx_filter := False, mx_ghost_size := size\<rparr>))
        else if policy_cache_is_full P (ma_internal s) then
          let g_hit = ht_lookup (mx_oblock mt) s \<noteq> None;
              mt = (if g_hit then mt\<lparr>mx_ghost_remove := True\<rparr> else mt);
              mt = (if g_hit then mt\<lparr>mx_filter := False\<rparr> else mt\<lparr>mx_ghost_add := True\<rparr>) in
          rbind (marc_ghost_increase_size P s (mx_ghost_size mt)) (\<lambda>size.
          Inr (mt\<lparr>mx_ghost_size := size\<rparr>))
        else Inr (mt\<lparr>mx_filter := False\<rparr>)
      else
        rbind (if policy_cache_is_full P (ma_internal s) then
                 if mx_c_hit mt then
                   rbind (marc_ghost_decrease_size P s (mx_ghost_size mt)) (\<lambda>size.
                   Inr (mt\<lparr>mx_ghost_size := size\<rparr>))
                 else
                   let mt = (if ht_lookup (mx_oblock mt) s \<noteq> None then mt\<lparr>mx_ghost_remove := True\<rparr> else mt);
                       mt = mt\<lparr>mx_ghost_add := True\<rparr> in
                   rbind (marc_ghost_increase_size P s (mx_ghost_size mt)) (\<lambda>size.
                   Inr (mt\<lparr>mx_ghost_size := size\<rparr>))
               else Inr mt) (\<lambda>mt.
        Inr (mt\<lparr>mx_filter := False\<rparr>)))"

definition marc_transaction_set ::
  "'s policy_api \<Rightarrow> 's marc_policy \<Rightarrow> marc_transaction \<Rightarrow> marc_transaction res" where
  "marc_transaction_set P s mt = rbind (marc_observe P s mt) (marc_admit P s)"

definition marc_transaction_is_legal ::
  "'s policy_api \<Rightarrow> 's marc_policy \<Rightarrow> marc_transaction \<Rightarrow> bool res" where
  "marc_transaction_is_legal P s mt =
     (if \<not> mx_filter mt then
        rbind (policy_next_victim P (mx_oblock mt) (ma_internal s)) (\<lambda>(op, _).
        Inr (op \<noteq> CACHE_NUCLEUS_FAIL))
      else Inr True)"

definition marc_remove_entry :: "eptr \<Rightarrow> 's marc_policy \<Rightarrow> 's marc_policy res" where
  "marc_remove_entry e s = cache_nucleus_remove e (s\<lparr>ghost_q := q_remove e (ghost_q s)\<rparr>)"

definition marc_ghost_evict :: "'s marc_policy \<Rightarrow> 's marc_policy res" where
  "marc_ghost_evict s = rbind (deref (q_peek (ghost_q s))) (\<lambda>e. marc_remove_entry e s)"

text \<open>
  \<open>marc_transaction_commit\<close> in two parts. The first one writes the counters and the windows; clearing
  the average clears the sample again.
\<close>

definition marc_commit_stats :: "marc_transaction \<Rightarrow> 's marc_policy \<Rightarrow> 's marc_policy res" where
  "marc_commit_stats mt s =
     (let s = s\<lparr>ma_tabu_counter := mx_tabu_counter mt, ma_ghost_size := mx_ghost_size mt, ma_state := mx_state mt\<rparr> in
      rbind (window_stats_push (of_bool (mx_c_hit mt)) (ma_sample s)) (\<lambda>w.
      let s = s\<lparr>ma_sample := w, ma_phase_hits := ma_phase_hits s + of_bool (mx_c_hit mt),
                ma_phase_ios := ma_phase_ios s + 1\<rparr> in
      rbind (if mx_save_sample_avg mt then
               rbind (udiv (100 * ws_sum (ma_sample s)) (ucast (ws_size (ma_sample s)))) (\<lambda>avg.
               rbind (window_stats_push avg (ma_sample_avg s)) (\<lambda>w.
               Inr (s\<lparr>ma_sample_avg := w\<rparr>)))
             else Inr s) (\<lambda>s.
      let s = (if mx_sample_clear mt then s\<lparr>ma_sample := window_stats_clear (ma_sample s)\<rparr> else s);
          s = (if mx_sample_avg_clear mt then s\<lparr>ma_sample := window_stats_clear (ma_sample s)\<rparr> else s);
          s = (if mx_phase_clear mt then s\<lparr>ma_phase_hits := 0, ma_phase_ios := 0\<rparr> else s) in
      Inr (if mx_save_ghost_hits mt then s\<lparr>ma_ghost_hits_old := ma_ghost_hits s\<rparr> else s))))"

definition marc_commit_ghost :: "marc_transaction \<Rightarrow> 's marc_policy \<Rightarrow> 's marc_policy res" where
  "marc_commit_ghost mt s =
     (if mx_ghost_remove mt \<and> mx_ghost_add mt then
        rbind (deref (ht_lookup (mx_oblock mt) s)) (\<lambda>e.
        let s = s\<lparr>ma_ghost_hits := ma_ghost_hits s + 1\<rparr> in
        rbind (q_push [] (q_remove e (ghost_q s)) e) (\<lambda>q. Inr (s\<lparr>ghost_q := q\<rparr>)))
      else if mx_ghost_remove mt then
        rbind (deref (ht_lookup (mx_oblock mt) s)) (\<lambda>e. marc_remove_entry e s)
      else if mx_ghost_add mt then
        rbind (insert_in_meta (mx_oblock mt) s) (\<lambda>(e, s).
        rbind (q_push [] (ghost_q s) e) (\<lambda>q. Inr (s\<lparr>ghost_q := q\<rparr>)))
      else Inr s)"

definition marc_transaction_commit ::
  "'s policy_api \<Rightarrow> marc_transaction \<Rightarrow> cn_result \<Rightarrow> 's marc_policy \<Rightarrow> (cn_result \<times> 's marc_policy) res" where
  "marc_transaction_commit P mt result s =
     rbind (marc_commit_stats mt s) (\<lambda>s.
     rbind (marc_commit_ghost mt s) (\<lambda>s.
     rbind (if \<not> mx_filter mt then
              rbind (policy_map P (mx_oblock mt) (mx_write mt) result (ma_internal s)) (\<lambda>(rc, result, i).
              Inr (result, s\<lparr>ma_internal := i\<rparr>))
            else Inr (result\<lparr>r_op := CACHE_NUCLEUS_FILTER\<rparr>, upd_stats inc_filters s)) (\<lambda>(result, s).
     if (ucast (q_length (ghost_q s)) :: u64) > ma_ghost_size s
     then rbind (marc_ghost_evict s) (\<lambda>s. Inr (result, s))
     else Inr (result, s))))"

section \<open>The API functions\<close>

definition marc_remove_api ::
  "'s policy_api \<Rightarrow> oblock \<Rightarrow> bool \<Rightarrow> 's marc_policy \<Rightarrow> 's marc_policy res" where
  "marc_remove_api P ob remove_to_history s =
     rbind (policy_remove P ob remove_to_history (ma_internal s)) (\<lambda>i. Inr (s\<lparr>ma_internal := i\<rparr>))"

definition marc_insert_api :: "'s policy_api \<Rightarrow> oblock \<Rightarrow> cblock \<Rightarrow> 's marc_policy \<Rightarrow> 's marc_policy res" where
  "marc_insert_api P ob cb s =
     rbind (policy_insert P ob cb (ma_internal s)) (\<lambda>i. Inr (s\<lparr>ma_internal := i\<rparr>))"

definition marc_migrated_api :: "'s policy_api \<Rightarrow> oblock \<Rightarrow> 's marc_policy \<Rightarrow> 's marc_policy res" where
  "marc_migrated_api P ob s =
     rbind (policy_migrated P ob (ma_internal s)) (\<lambda>i. Inr (s\<lparr>ma_internal := i\<rparr>))"

definition marc_map_api ::
  "'s policy_api \<Rightarrow> oblock \<Rightarrow> bool \<Rightarrow> cn_result \<Rightarrow> 's marc_policy \<Rightarrow> (int \<times> cn_result \<times> 's marc_policy) res" where
  "marc_map_api P ob write result s =
     rbind (marc_transaction_set P s (marc_transaction_init s ob write)) (\<lambda>mt.
     rbind (marc_transaction_is_legal P s mt) (\<lambda>legal.
     if legal then
       rbind (marc_transaction_commit P mt result s) (\<lambda>(result, s). Inr (0, result, s))
     else Inr (0, result\<lparr>r_op := CACHE_NUCLEUS_FAIL\<rparr>, s)))"

definition marc_cache_lookup_api :: "'s policy_api \<Rightarrow> oblock \<Rightarrow> 's marc_policy \<Rightarrow> eptr option" where
  "marc_cache_lookup_api P ob s = policy_cache_lookup P ob (ma_internal s)"

definition marc_meta_lookup_api :: "'s policy_api \<Rightarrow> oblock \<Rightarrow> 's marc_policy \<Rightarrow> eptr option" where
  "marc_meta_lookup_api P ob s = policy_meta_lookup P ob (ma_internal s)"

definition marc_cblock_lookup_api :: "'s policy_api \<Rightarrow> cblock \<Rightarrow> 's marc_policy \<Rightarrow> eptr option" where
  "marc_cblock_lookup_api P cb s = policy_cblock_lookup P cb (ma_internal s)"

definition marc_remap_api :: "'s policy_api \<Rightarrow> oblock \<Rightarrow> oblock \<Rightarrow> 's marc_policy \<Rightarrow> 's marc_policy res" where
  "marc_remap_api P current new s =
     rbind (policy_remap P current new (ma_internal s)) (\<lambda>i. Inr (s\<lparr>ma_internal := i\<rparr>))"

definition marc_get_stats_api :: "'s policy_api \<Rightarrow> 's marc_policy \<Rightarrow> policy_stats \<Rightarrow> policy_stats" where
  "marc_get_stats_api P s st =
     (let st = policy_get_stats P (ma_internal s) st in
      st\<lparr>st_filters := st_filters st + st_filters (stats s)\<rparr>)"

definition marc_set_time_api :: "'s policy_api \<Rightarrow> u32 \<Rightarrow> 's marc_policy \<Rightarrow> 's marc_policy" where
  "marc_set_time_api P time s =
     s\<lparr>ma_internal := policy_set_time P time (ma_internal s), cn_time := time\<rparr>"

definition marc_residency_api :: "'s policy_api \<Rightarrow> 's marc_policy \<Rightarrow> cblock" where
  "marc_residency_api P s = policy_residency P (ma_internal s)"

definition marc_cache_is_full_api :: "'s policy_api \<Rightarrow> 's marc_policy \<Rightarrow> bool" where
  "marc_cache_is_full_api P s = policy_cache_is_full P (ma_internal s)"

definition marc_infer_cblock_api :: "'s policy_api \<Rightarrow> 's marc_policy \<Rightarrow> eptr \<Rightarrow> cblock res" where
  "marc_infer_cblock_api P s e = policy_infer_cblock P (ma_internal s) e"

definition marc_next_victim_api ::
  "'s policy_api \<Rightarrow> oblock \<Rightarrow> 's marc_policy \<Rightarrow> (cache_nucleus_operation \<times> eptr option) res" where
  "marc_next_victim_api P ob s =
     rbind (marc_transaction_set P s (marc_transaction_init s ob False)) (\<lambda>mt.
     rbind (marc_transaction_is_legal P s mt) (\<lambda>legal.
     if legal then
       if \<not> mx_filter mt then policy_next_victim P ob (ma_internal s)
       else Inr (CACHE_NUCLEUS_FILTER, None)
     else Inr (CACHE_NUCLEUS_FAIL, None)))"

definition marc_api :: "'s policy_api \<Rightarrow> 's marc_policy policy_api" where
  "marc_api P =
     \<lparr>fn_map = marc_map_api P, fn_remove = marc_remove_api P, fn_insert = marc_insert_api P,
      fn_migrated = marc_migrated_api P, fn_cache_lookup = marc_cache_lookup_api P,
      fn_meta_lookup = marc_meta_lookup_api P, fn_cblock_lookup = marc_cblock_lookup_api P,
      fn_remap = marc_remap_api P, fn_get_stats = marc_get_stats_api P, fn_set_time = marc_set_time_api P,
      fn_residency = marc_residency_api P, fn_cache_is_full = marc_cache_is_full_api P,
      fn_infer_cblock = marc_infer_cblock_api P, fn_next_victim = marc_next_victim_api P,
      fn_entry = (\<lambda>s e. fn_entry P (ma_internal s) e), fn_pool_full = cache_is_full,
      fn_cache_size = cache_size\<rparr>"

section \<open>Creation\<close>

text \<open>
  \<open>marc_init\<close> and \<open>marc_create\<close>. The pool of the ghost list has as many entries as the cache, whatever
  the size of the metadata.
\<close>

definition zero_marc :: "'s \<Rightarrow> 's marc_policy" where
  "zero_marc i = \<lparr>store = (\<lambda>_. \<lparr>e_oblock = 0, e_time = 0, e_dirty = False, e_allocated = False,
       e_migrating = False\<rparr>), wb = (\<lambda>_. []),
     thread_support = CACHE_NUCLEUS_SINGLE_THREAD, meta_size = 0, cache_size = 0,
     meta_pool = epool_create MetaRegion 0, cache_pool = epool_create CacheRegion 0,
     stats = stats_init, ht = [], cn_time = 0, ma_internal = i, ma_TABU = 0, ma_tabu_counter = 0,
     ma_state = UNSTABLE, ghost_q = [], ma_ghost_size = 0, ma_ghost_hits = 0, ma_ghost_hits_old = 0,
     ma_sample = empty_window, ma_sample_avg = empty_window, ma_phase_hits = 0, ma_phase_ios = 0\<rparr>"

definition marc_init :: "cblock \<Rightarrow> cblock \<Rightarrow> 's \<Rightarrow> 's marc_policy \<Rightarrow> 's marc_policy res" where
  "marc_init csize msize internal s =
     rbind (policy_init 0 msize CACHE_NUCLEUS_SINGLE_THREAD
              (s\<lparr>meta_pool := epool_create MetaRegion csize\<rparr>)) (\<lambda>s.
     let tabu = ucast csize in
     Inr (s\<lparr>ma_internal := internal, ma_TABU := tabu, ma_tabu_counter := 2 * tabu, ma_state := UNSTABLE,
            ghost_q := [], ma_ghost_size := ucast csize, ma_ghost_hits := 0, ma_ghost_hits_old := 0,
            ma_sample := window_stats_init csize (ma_sample s),
            ma_sample_avg := window_stats_init 1 (ma_sample_avg s),
            ma_phase_hits := 0, ma_phase_ios := 0\<rparr>))"

definition marc_create ::
  "cblock \<Rightarrow> cblock \<Rightarrow> (cblock \<Rightarrow> cblock \<Rightarrow> 's res) \<Rightarrow> 's marc_policy res" where
  "marc_create csize msize create_internal =
     rbind (create_internal csize msize) (\<lambda>internal.
     marc_init csize msize internal (zero_marc internal))"

end
