(* ===== verification/Marc_Inv.thy ===== *)
theory Marc_Inv
  imports Marc
begin

text \<open>
  mARC in exact numbers: the state a reader of the paper would draw, what an access does to it, the
  invariant of the model, and the proof that the machine arithmetic of the transactions computes
  the exact values. The invariant carries the number of accesses still to come: the counters of a phase are
  multiplied by 100 in 64 bits.
\<close>

declare split_paired_All [simp del] split_paired_Ex [simp del]

section \<open>The exact rules\<close>

record marc_spec =
  as_state :: marc_state
  as_tabu :: nat
  as_size :: nat
  as_ghost :: "oblock list"
  as_sample :: "bool list"
  as_hits :: nat
  as_ios :: nat

definition hit_rate :: "nat \<Rightarrow> nat \<Rightarrow> nat" where
  "hit_rate hits ios = 100 * hits div ios"

text \<open>
  The state after a sample: an unstable cache becomes unique when the sample hits less than half as often as
  the phase or hardly at all, stable when both rates agree within a tenth or the sample is
  good and not worse. A stable cache becomes unstable when the sample has lost three tenths, a unique one when it hits
  at all. Hits on the ghost list play no part.
\<close>

definition exact_transition :: "marc_state \<Rightarrow> nat \<Rightarrow> nat \<Rightarrow> marc_state" where
  "exact_transition st sample phase =
     (case st of
        UNSTABLE \<Rightarrow>
          if sample < phase div 2 \<or> sample < 5 then UNIQUE
          else if phase < 11 * sample div 10 \<and> 9 * sample div 10 < phase \<or> phase \<le> sample \<and> 20 \<le> sample
          then STABLE else UNSTABLE
      | STABLE \<Rightarrow> if sample \<le> 7 * phase div 10 then UNSTABLE else STABLE
      | UNIQUE \<Rightarrow> if 5 < sample then UNSTABLE else UNIQUE)"

definition exact_decrease :: "nat \<Rightarrow> nat \<Rightarrow> nat" where
  "exact_decrease c g = (if g = c then c div 10 else max (c div 10) (g - c div (c - g)))"

definition exact_increase :: "nat \<Rightarrow> nat \<Rightarrow> nat" where
  "exact_increase c g = min (9 * c div 10) (g + c div g)"

section \<open>One access\<close>

definition spec_decides :: "nat \<Rightarrow> marc_spec \<Rightarrow> bool" where
  "spec_decides c a \<longleftrightarrow> as_tabu a \<le> 1 \<and> c \<le> Suc (length (as_sample a))"

definition spec_sample :: "nat \<Rightarrow> bool \<Rightarrow> marc_spec \<Rightarrow> bool list" where
  "spec_sample c hit a = slide c hit (as_sample a)"

definition spec_state :: "nat \<Rightarrow> bool \<Rightarrow> marc_spec \<Rightarrow> marc_state" where
  "spec_state c hit a =
     (if spec_decides c a
      then exact_transition (as_state a) (hit_rate (count_list (spec_sample c hit a) True) c)
             (hit_rate (as_hits a + of_bool hit) (Suc (as_ios a)))
      else as_state a)"

definition spec_tabu :: "nat \<Rightarrow> bool \<Rightarrow> marc_spec \<Rightarrow> nat" where
  "spec_tabu c hit a =
     (if spec_decides c a
      then if spec_state c hit a \<noteq> as_state a \<and> spec_state c hit a = UNSTABLE then 2 * c else c
      else as_tabu a - 1)"

text \<open>The size of the ghost list at the start, and after the access.\<close>

definition spec_size0 :: "nat \<Rightarrow> bool \<Rightarrow> marc_spec \<Rightarrow> nat" where
  "spec_size0 c hit a =
     (if spec_state c hit a \<noteq> as_state a \<and> spec_state c hit a \<noteq> UNSTABLE then c div 10 else as_size a)"

definition spec_size :: "nat \<Rightarrow> bool \<Rightarrow> bool \<Rightarrow> marc_spec \<Rightarrow> nat" where
  "spec_size c full hit a =
     (if hit then
        if spec_state c hit a \<noteq> UNSTABLE \<or> full then exact_decrease c (spec_size0 c hit a) else spec_size0 c hit a
      else if full then exact_increase c (spec_size0 c hit a) else spec_size0 c hit a)"

definition spec_filters :: "nat \<Rightarrow> bool \<Rightarrow> bool \<Rightarrow> oblock \<Rightarrow> marc_spec \<Rightarrow> bool" where
  "spec_filters c full hit ob a \<longleftrightarrow>
     spec_state c hit a \<noteq> UNSTABLE \<and> full \<and> \<not> hit \<and> ob \<notin> set (as_ghost a)"

text \<open>
  The ghost list, oldest block first: a miss on a full cache enters it or is renewed, except that outside
  UNSTABLE a block that is found in it leaves it for the cache. Then it loses its oldest block if it is
  too long.
\<close>

definition spec_ghost :: "nat \<Rightarrow> bool \<Rightarrow> bool \<Rightarrow> oblock \<Rightarrow> marc_spec \<Rightarrow> oblock list" where
  "spec_ghost c full hit ob a =
     (if hit \<or> \<not> full then as_ghost a
      else if spec_state c hit a \<noteq> UNSTABLE \<and> ob \<in> set (as_ghost a) then remove1 ob (as_ghost a)
      else remove1 ob (as_ghost a) @ [ob])"

definition spec_trim :: "nat \<Rightarrow> 'a list \<Rightarrow> 'a list" where
  "spec_trim n xs = (if n < length xs then tl xs else xs)"

definition spec_marc :: "nat \<Rightarrow> bool \<Rightarrow> bool \<Rightarrow> oblock \<Rightarrow> marc_spec \<Rightarrow> marc_spec" where
  "spec_marc c full hit ob a =
     (let st = spec_state c hit a; changed = (st \<noteq> as_state a); size = spec_size c full hit a in
      \<lparr>as_state = st, as_tabu = spec_tabu c hit a, as_size = size,
       as_ghost = spec_trim size (spec_ghost c full hit ob a),
       as_sample = (if changed then [] else spec_sample c hit a),
       as_hits = (if changed \<and> st \<noteq> STABLE then 0 else as_hits a + of_bool hit),
       as_ios = (if changed \<and> st \<noteq> STABLE then 0 else Suc (as_ios a))\<rparr>)"

section \<open>The invariant\<close>

definition size_ok :: "nat \<Rightarrow> nat \<Rightarrow> nat \<Rightarrow> bool" where
  "size_ok c g len \<longleftrightarrow> g = c \<and> len = 0 \<or> c div 10 \<le> g \<and> g \<le> 9 * c div 10"

text \<open>The ghost list and its entries.\<close>

definition ghost_ok :: "cblock \<Rightarrow> 's marc_policy \<Rightarrow> bool" where
  "ghost_ok c s \<longleftrightarrow> cn_ok s \<and> ep_nr_entries (cache_pool s) = 0 \<and> ep_nr_entries (meta_pool s) = c \<and>
     distinct (ghost_q s) \<and> set (ghost_q s) = set (ht s)"

definition sample_ok :: "cblock \<Rightarrow> window_stats \<Rightarrow> bool" where
  "sample_ok c w \<longleftrightarrow> window_ok w \<and> ws_size w = c \<and> set (window_values w) \<subseteq> {0, 1}"

text \<open>The counters; \<open>k\<close> accesses can still come.\<close>

definition phase_ok :: "nat \<Rightarrow> u64 \<Rightarrow> u64 \<Rightarrow> bool" where
  "phase_ok k h n \<longleftrightarrow> unat h \<le> unat n \<and> unat n + k < 2 ^ 57"

definition marc_ok :: "('s \<Rightarrow> bool) \<Rightarrow> cblock \<Rightarrow> nat \<Rightarrow> 's marc_policy \<Rightarrow> bool" where
  "marc_ok I c k s \<longleftrightarrow> ghost_ok c s \<and> I (ma_internal s) \<and> ma_TABU s = ucast c \<and>
     unat (ma_tabu_counter s) \<le> 2 * unat c \<and>
     size_ok (unat c) (unat (ma_ghost_size s)) (length (ghost_q s)) \<and>
     length (ghost_q s) \<le> 9 * unat c div 10 \<and>
     (ma_state s \<noteq> UNSTABLE \<longrightarrow> ma_ghost_hits s = ma_ghost_hits_old s) \<and>
     sample_ok c (ma_sample s) \<and> window_ok (ma_sample_avg s) \<and>
     phase_ok k (ma_phase_hits s) (ma_phase_ios s)"

lemma marc_okD:
  assumes "marc_ok I c k s"
  shows "ghost_ok c s" "I (ma_internal s)" "ma_TABU s = ucast c" "unat (ma_tabu_counter s) \<le> 2 * unat c"
    "size_ok (unat c) (unat (ma_ghost_size s)) (length (ghost_q s))"
    "length (ghost_q s) \<le> 9 * unat c div 10"
    "ma_state s \<noteq> UNSTABLE \<Longrightarrow> ma_ghost_hits s = ma_ghost_hits_old s"
    "sample_ok c (ma_sample s)" "window_ok (ma_sample_avg s)" "phase_ok k (ma_phase_hits s) (ma_phase_ios s)"
  using assms by (simp_all add: marc_ok_def)

definition marc_abs :: "'s marc_policy \<Rightarrow> marc_spec" where
  "marc_abs s = \<lparr>as_state = ma_state s, as_tabu = unat (ma_tabu_counter s), as_size = unat (ma_ghost_size s),
     as_ghost = map (key_of (store s)) (ghost_q s),
     as_sample = map (\<lambda>v. v \<noteq> 0) (window_values (ma_sample s)),
     as_hits = unat (ma_phase_hits s), as_ios = unat (ma_phase_ios s)\<rparr>"

lemma marc_abs_fields [simp]:
  "as_state (marc_abs s) = ma_state s" "as_tabu (marc_abs s) = unat (ma_tabu_counter s)"
  "as_size (marc_abs s) = unat (ma_ghost_size s)" "as_ghost (marc_abs s) = map (key_of (store s)) (ghost_q s)"
  "as_sample (marc_abs s) = map (\<lambda>v. v \<noteq> 0) (window_values (ma_sample s))"
  "as_hits (marc_abs s) = unat (ma_phase_hits s)" "as_ios (marc_abs s) = unat (ma_phase_ios s)"
  by (simp_all add: marc_abs_def)

section \<open>Machine arithmetic\<close>

lemma unat_ucast_64 [simp]: "unat (ucast (a :: u32) :: u64) = unat a"
  by (rule unat_ucast_up) simp

lemma max_64_small:
  assumes "unat a < 2 ^ 32" "unat b < 2 ^ 32"
  shows "unat (max_64 a b) = max (unat a) (unat b)"
proof -
  have "unat (ucast a :: u32) = unat a" "unat (ucast b :: u32) = unat b"
    using assms by (simp_all add: unsigned_ucast_eq take_bit_nat_eq_self)
  then show ?thesis by (auto simp: max_64_def max_u_def word_less_nat_alt)
qed

lemma min_64_small:
  assumes "unat a < 2 ^ 32" "unat b < 2 ^ 32"
  shows "unat (min_64 a b) = min (unat a) (unat b)"
proof -
  have "unat (ucast a :: u32) = unat a" "unat (ucast b :: u32) = unat b"
    using assms by (simp_all add: unsigned_ucast_eq take_bit_nat_eq_self)
  then show ?thesis by (auto simp: min_64_def min_u_def word_less_nat_alt)
qed

text \<open>A bound on the ratio of the cache to its ghost list.\<close>

lemma size_ratio:
  assumes "10 \<le> c" "c div 10 \<le> g"
  shows "c div g \<le> (19 :: nat)" "1 \<le> g"
proof -
  have g: "1 \<le> c div 10" "c < 10 * (c div 10) + 10" using assms(1) by (simp_all add: less_eq_div_iff_mult_less_eq)
  then show "1 \<le> g" using assms(2) by linarith
  then have "c < 20 * g" using g assms(2) by linarith
  then have "c div g < 20" using \<open>1 \<le> g\<close> by (simp add: div_less_iff_less_mult)
  then show "c div g \<le> 19" by simp
qed

lemma exact_size_ok:
  assumes "10 \<le> c" "size_ok c g n"
  shows "c div 10 \<le> exact_increase c g" "exact_increase c g \<le> 9 * c div 10"
    "c div 10 \<le> exact_decrease c g" "exact_decrease c g \<le> 9 * c div 10"
proof -
  have m: "c div 10 \<le> 9 * c div 10" by (intro div_le_mono) simp
  have g: "c div 10 \<le> g" using assms(2) by (auto simp: size_ok_def)
  then show "c div 10 \<le> exact_increase c g" using m by (simp add: exact_increase_def)
  show "exact_increase c g \<le> 9 * c div 10" by (simp add: exact_increase_def)
  show "c div 10 \<le> exact_decrease c g" by (simp add: exact_decrease_def)
  show "exact_decrease c g \<le> 9 * c div 10" using m assms(2) by (auto simp: exact_decrease_def size_ok_def)
qed

text \<open>The checks on rates up to 100 per cent.\<close>

lemma small_mult:
  assumes "unat (a :: u64) \<le> 100" "k \<le> 11"
  shows "unat (of_nat k * a) = k * unat a"
proof -
  have "k * unat a \<le> 11 * 100" using assms by (intro mult_le_mono) simp_all
  moreover have "unat (of_nat k :: u64) = k" using assms(2) by (intro unat_of_nat_small) simp
  ultimately show ?thesis by (subst unat_mult_small) simp_all
qed

lemma checks_exact:
  assumes "unat a \<le> 100" "unat b \<le> 100"
  shows "marc_unst_uniq_check a b \<longleftrightarrow> unat a < unat b div 2 \<or> unat a < 5"
    "marc_unst_stab_check a b \<longleftrightarrow>
       unat b < 11 * unat a div 10 \<and> 9 * unat a div 10 < unat b \<or> unat b \<le> unat a \<and> 20 \<le> unat a"
    "marc_stab_unst_check a b \<longleftrightarrow> unat a \<le> 7 * unat b div 10"
proof -
  have m: "unat (11 * a) = 11 * unat a" "unat (9 * a) = 9 * unat a" "unat (7 * b) = 7 * unat b"
    using small_mult [OF assms(1), of 11] small_mult [OF assms(1), of 9] small_mult [OF assms(2), of 7] by simp_all
  show "marc_unst_uniq_check a b \<longleftrightarrow> unat a < unat b div 2 \<or> unat a < 5"
    by (simp add: marc_unst_uniq_check_def word_less_nat_alt unat_div)
  show "marc_unst_stab_check a b \<longleftrightarrow>
       unat b < 11 * unat a div 10 \<and> 9 * unat a div 10 < unat b \<or> unat b \<le> unat a \<and> 20 \<le> unat a"
    by (simp add: marc_unst_stab_check_def word_less_nat_alt word_le_nat_alt unat_div m)
  show "marc_stab_unst_check a b \<longleftrightarrow> unat a \<le> 7 * unat b div 10"
    by (simp add: marc_stab_unst_check_def word_le_nat_alt unat_div m)
qed

text \<open>A rate, when its numerator does not overflow.\<close>

lemma rate_word:
  assumes "n \<le> d" "d < 2 ^ 57"
  shows "unat ((100 * of_nat n) div of_nat d :: u64) = hit_rate n d" "hit_rate n d \<le> 100"
proof -
  have "100 * n < 2 ^ 64" "d < 2 ^ 64" using assms by simp_all
  then have "unat (of_nat (100 * n) :: u64) = 100 * n" "unat (of_nat d :: u64) = d"
    by (intro unat_of_nat_small, simp)+
  moreover have "(100 * of_nat n :: u64) = of_nat (100 * n)" by simp
  ultimately show "unat ((100 * of_nat n) div of_nat d :: u64) = hit_rate n d"
    by (simp add: unat_div hit_rate_def del: of_nat_mult)
  have "100 * n div d \<le> 100 * d div d" using assms(1) by (intro div_le_mono) simp
  also have "\<dots> \<le> 100" by (cases "d = 0") simp_all
  finally show "hit_rate n d \<le> 100" by (simp add: hit_rate_def)
qed

lemma count_sum: "sum_list (map of_bool bs) = (of_nat (count_list bs True) :: u64)"
  by (induction bs) simp_all

lemma count_le: "count_list bs True \<le> length bs"
  by (rule count_le_length)

end
