(* ===== verification/Marc_Ghost.thy ===== *)
theory Marc_Ghost
  imports Marc_Inv
begin

text \<open>
  The ghost list of mARC: an entry leaves it, enters it or is renewed, and what that does to the
  list of the blocks it remembers.
\<close>

definition ghosts :: "'s marc_policy \<Rightarrow> oblock list" where
  "ghosts s = map (key_of (store s)) (ghost_q s)"

lemma ghost_okD:
  assumes "ghost_ok c s"
  shows "cn_ok s" "ep_nr_entries (cache_pool s) = 0" "ep_nr_entries (meta_pool s) = c"
    "distinct (ghost_q s)" "set (ghost_q s) = set (ht s)"
  using assms by (simp_all add: ghost_ok_def)

lemma ghost_metas:
  assumes "ghost_ok c s"
  shows "set (ht s) = metas (ht s)"
proof -
  note D = ghost_okD [OF assms]
  have c: "cached (ht s) = {}" using card_cached_le [OF D(1)] D(2) by simp
  have "e \<in> set (ht s) \<Longrightarrow> e \<in> cached (ht s) \<or> e \<in> metas (ht s)" for e
    by (cases "fst e") (auto simp: cached_def metas_def)
  then show ?thesis using c by (auto simp: metas_def)
qed

lemma ghost_room:
  assumes "ghost_ok c s" "length (ghost_q s) < unat c"
  shows "\<not> meta_is_full s"
proof -
  note D = ghost_okD [OF assms(1)]
  have "card (metas (ht s)) = length (ghost_q s)"
    using distinct_card [OF D(4)] D(5) ghost_metas [OF assms(1)] by simp
  then show ?thesis using meta_is_full_iff [OF D(1)] D(3) assms(2) by simp
qed

lemma ghost_keys: "ghost_ok c s \<Longrightarrow> distinct (ghosts s)"
  using cn_facts(2) [of s] by (simp add: ghost_ok_def ghosts_def distinct_map)

lemma ghost_lookup:
  assumes "ghost_ok c s"
  shows "ht_lookup ob s \<noteq> None \<longleftrightarrow> ob \<in> set (ghosts s)"
    "ht_lookup ob s = Some e \<Longrightarrow> e \<in> set (ht s) \<and> e_oblock (store s e) = ob"
proof -
  note D = ghost_okD [OF assms]
  show "ht_lookup ob s = Some e \<Longrightarrow> e \<in> set (ht s) \<and> e_oblock (store s e) = ob"
    using lookup_Some [OF D(1)] by blast
  show "ht_lookup ob s \<noteq> None \<longleftrightarrow> ob \<in> set (ghosts s)"
  proof
    assume "ht_lookup ob s \<noteq> None"
    then obtain e where "ht_lookup ob s = Some e" by blast
    then have "e \<in> set (ht s)" "e_oblock (store s e) = ob" using lookup_Some [OF D(1)] by blast+
    then show "ob \<in> set (ghosts s)" using D(5) by (auto simp: ghosts_def)
  next
    assume "ob \<in> set (ghosts s)"
    then obtain e where "e \<in> set (ht s)" "e_oblock (store s e) = ob" using D(5) by (auto simp: ghosts_def)
    then show "ht_lookup ob s \<noteq> None" using lookup_Some [OF D(1), of ob e] by simp
  qed
qed

lemma ghost_ok_cong:
  assumes "ghost_ok c s" "cn_ok s'" "pool_geo (cache_pool s') = pool_geo (cache_pool s)"
    "pool_geo (meta_pool s') = pool_geo (meta_pool s)" "distinct (ghost_q s')" "set (ghost_q s') = set (ht s')"
  shows "ghost_ok c s'"
  using assms by (simp add: ghost_ok_def pool_geo_eq)

text \<open>Everything but the ghost list and its entries.\<close>

definition same_rest :: "'s marc_policy \<Rightarrow> 's marc_policy \<Rightarrow> bool" where
  "same_rest s s' \<longleftrightarrow> ma_internal s' = ma_internal s \<and> ma_TABU s' = ma_TABU s \<and>
     ma_tabu_counter s' = ma_tabu_counter s \<and> ma_state s' = ma_state s \<and> ma_ghost_size s' = ma_ghost_size s \<and>
     ma_ghost_hits_old s' = ma_ghost_hits_old s \<and> ma_sample s' = ma_sample s \<and> ma_sample_avg s' = ma_sample_avg s \<and>
     ma_phase_hits s' = ma_phase_hits s \<and> ma_phase_ios s' = ma_phase_ios s \<and> stats s' = stats s"

lemma same_rest_refl [simp]: "same_rest s s"
  by (simp add: same_rest_def)

lemma ghost_remove_ok:
  assumes ok: "ghost_ok c s" and e: "e \<in> set (ht s)"
  shows "\<exists>s'. marc_remove_entry e s = Inr s' \<and> ghost_ok c s' \<and> ghosts s' = remove1 (e_oblock (store s e)) (ghosts s) \<and>
     same_rest s s' \<and> ma_ghost_hits s' = ma_ghost_hits s"
proof -
  note D = ghost_okD [OF ok]
  let ?s1 = "s\<lparr>ghost_q := remove1 e (ghost_q s)\<rparr>"
  have cn1: "cn_ok ?s1" and e1: "e \<in> set (ht ?s1)" using D(1) e by (simp_all add: cn_ok_def)
  from cache_nucleus_remove_ok [OF cn1 e1] obtain cp mp s' where
    s': "s' = s\<lparr>ghost_q := remove1 e (ghost_q s), store := (store s)(e := freed_entry (store s e)),
        wb := (\<lambda>q. q_remove e (wb s q)), cache_pool := cp, meta_pool := mp, ht := remove1 e (ht s)\<rparr>"
    and run: "cache_nucleus_remove e ?s1 = Inr s'" and cn: "cn_ok s'"
    and geo: "pool_geo cp = pool_geo (cache_pool s)" "pool_geo mp = pool_geo (meta_pool s)"
    by auto
  have ok': "ghost_ok c s'"
    by (rule ghost_ok_cong [OF ok cn]) (use D geo cn_facts(1) [OF D(1)] in \<open>auto simp: s'\<close>)
  have n: "e \<notin> set (remove1 e (ghost_q s))" using D(4) by simp
  have dk: "distinct (map (key_of (store s)) (ghost_q s))"
    using D(4,5) cn_facts(2) [OF D(1)] by (simp add: distinct_map)
  have "ghosts s' = map (key_of (store s)) (remove1 e (ghost_q s))"
    unfolding ghosts_def s' by (simp add: map_key_upd [OF n] del: fun_upd_apply)
  also have "\<dots> = remove1 (e_oblock (store s e)) (ghosts s)"
    unfolding ghosts_def using distinct_map_remove1 [OF dk] e D(5) by simp
  finally have g: "ghosts s' = remove1 (e_oblock (store s e)) (ghosts s)" .
  have "marc_remove_entry e s = Inr s'" using run by (simp add: marc_remove_entry_def q_remove_def)
  then show ?thesis using ok' g by (intro exI [of _ s']) (simp add: s' same_rest_def)
qed

lemma ghost_insert_ok:
  assumes ok: "ghost_ok c s" and room: "length (ghost_q s) < unat c" and new: "ht_lookup ob s = None"
  shows "\<exists>s'. rbind (insert_in_meta ob s) (\<lambda>(e, s). rbind (q_push [] (ghost_q s) e) (\<lambda>q. Inr (s\<lparr>ghost_q := q\<rparr>))) = Inr s' \<and>
    ghost_ok c s' \<and> ghosts s' = ghosts s @ [ob] \<and> same_rest s s' \<and> ma_ghost_hits s' = ma_ghost_hits s"
proof -
  note D = ghost_okD [OF ok]
  from insert_in_meta_ok [OF D(1) ghost_room [OF ok room] new] obtain e mp s1 where
    1: "s1 = s\<lparr>store := (store s)(e := fresh_entry ob (store s e)), meta_pool := mp, ht := e # ht s\<rparr>"
    "insert_in_meta ob s = Inr (e, s1)" "cn_ok s1" "pool_geo mp = pool_geo (meta_pool s)" "e \<notin> set (ht s)"
    by blast
  let ?s' = "s1\<lparr>ghost_q := ghost_q s @ [e]\<rparr>"
  have q: "e \<notin> set (ghost_q s)" using 1(5) D(5) by simp
  have run: "rbind (insert_in_meta ob s) (\<lambda>(e, s). rbind (q_push [] (ghost_q s) e) (\<lambda>q. Inr (s\<lparr>ghost_q := q\<rparr>))) = Inr ?s'"
    using 1(2) q by (simp add: q_push_def) (simp add: 1(1))
  have cn: "cn_ok ?s'" using 1(3) by (simp add: cn_ok_def)
  have ok': "ghost_ok c ?s'"
    by (rule ghost_ok_cong [OF ok cn]) (use D 1(4) q in \<open>auto simp: 1(1)\<close>)
  have "ghosts ?s' = ghosts s @ [ob]"
    unfolding ghosts_def 1(1) by (simp add: map_key_upd [OF q] del: fun_upd_apply) simp
  moreover have "same_rest s ?s'" "ma_ghost_hits ?s' = ma_ghost_hits s" by (simp_all add: 1(1) same_rest_def)
  ultimately show ?thesis using run ok' by blast
qed

lemma ghost_renew_ok:
  assumes ok: "ghost_ok c s" and l: "ht_lookup ob s = Some e"
  shows "\<exists>s'. rbind (q_push [] (q_remove e (ghost_q s)) e) (\<lambda>q. Inr (s\<lparr>ma_ghost_hits := ma_ghost_hits s + 1, ghost_q := q\<rparr>)) = Inr s' \<and>
    ghost_ok c s' \<and> ghosts s' = remove1 ob (ghosts s) @ [ob] \<and> same_rest s s'"
proof -
  note D = ghost_okD [OF ok]
  let ?s' = "s\<lparr>ma_ghost_hits := ma_ghost_hits s + 1, ghost_q := remove1 e (ghost_q s) @ [e]\<rparr>"
  have e: "e \<in> set (ghost_q s)" "e_oblock (store s e) = ob" using ghost_lookup(2) [OF ok l] D(5) by auto
  have run: "rbind (q_push [] (q_remove e (ghost_q s)) e) (\<lambda>q. Inr (s\<lparr>ma_ghost_hits := ma_ghost_hits s + 1, ghost_q := q\<rparr>)) = Inr ?s'"
    using D(4) by (simp add: q_push_def q_remove_def)
  have cn: "cn_ok ?s'" using D(1) by (simp add: cn_ok_def)
  have ok': "ghost_ok c ?s'"
    by (rule ghost_ok_cong [OF ok cn]) (use D e in auto)
  have dk: "distinct (map (key_of (store s)) (ghost_q s))"
    using D(4,5) cn_facts(2) [OF D(1)] by (simp add: distinct_map)
  have "ghosts ?s' = remove1 ob (ghosts s) @ [ob]"
    using distinct_map_remove1 [OF dk e(1)] e(2) by (simp add: ghosts_def)
  moreover have "same_rest s ?s'" by (simp add: same_rest_def)
  ultimately show ?thesis using run ok' by blast
qed

text \<open>The list loses its oldest block.\<close>

lemma ghost_evict_ok:
  assumes ok: "ghost_ok c s" and ne: "ghost_q s \<noteq> []"
  shows "\<exists>s'. marc_ghost_evict s = Inr s' \<and> ghost_ok c s' \<and> ghosts s' = tl (ghosts s) \<and> same_rest s s' \<and>
    ma_ghost_hits s' = ma_ghost_hits s"
proof -
  note D = ghost_okD [OF ok]
  obtain e r where q: "ghost_q s = e # r" using ne by (cases "ghost_q s") auto
  then have "e \<in> set (ht s)" using D(5) by auto
  from ghost_remove_ok [OF ok this] obtain s' where s': "marc_remove_entry e s = Inr s'" "ghost_ok c s'"
    "ghosts s' = remove1 (e_oblock (store s e)) (ghosts s)" "same_rest s s'" "ma_ghost_hits s' = ma_ghost_hits s" by blast
  have "ghosts s' = tl (ghosts s)" unfolding s'(3) by (simp add: ghosts_def q)
  then show ?thesis using s' q by (simp add: marc_ghost_evict_def q_peek_def deref_def)
qed

lemma ghost_ok_internal [simp]:
  "ghost_ok c (s\<lparr>ma_internal := i\<rparr>) = ghost_ok c s" "ghost_ok c (upd_stats f s) = ghost_ok c s"
  "ghosts (s\<lparr>ma_internal := i\<rparr>) = ghosts s" "ghosts (upd_stats f s) = ghosts s"
  by (simp_all add: ghost_ok_def cn_ok_def ghosts_def)

end
