(* ===== verification/Marc_Access.thy ===== *)
theory Marc_Access
  imports Marc_Ghost
begin

text \<open>
  An access to mARC over any internal policy that keeps the contract: the transaction computes the
  exact values, the commit stores them, and the invariant holds with one access less to come.
\<close>

section \<open>The sample\<close>

lemma sample_values:
  assumes "sample_ok c w"
  shows "window_values w = map of_bool (map (\<lambda>v. v \<noteq> 0) (window_values w))"
  unfolding map_map by (rule map_idI [symmetric]) (use assms in \<open>auto simp: sample_ok_def\<close>)

lemma sample_okD:
  assumes "sample_ok c w"
  shows "window_ok w" "ws_size w = c" "length (window_values w) \<le> unat c" "0 < unat c" "unat c < 2 ^ 31"
  using assms window_okD [of w] by (simp_all add: sample_ok_def)

lemma sample_full:
  assumes "sample_ok c w"
  shows "ws_len w + 1 \<ge> ws_size w \<longleftrightarrow> unat c \<le> Suc (length (window_values w))"
proof -
  note S = sample_okD [OF assms]
  have "unat (ws_len w + 1) = Suc (unat (ws_len w))"
    using S(3,5) by (subst unat_add_small) simp_all
  then show ?thesis using S(2) by (simp add: word_le_nat_alt)
qed

text \<open>The sum the code forms before it decides, with the window full but for this access.\<close>

lemma sample_sum:
  assumes ok: "sample_ok c w" and full: "unat c \<le> Suc (length (window_values w))"
  shows "\<exists>oldest. window_stats_peek w = Inr oldest \<and>
    ws_sum w - oldest + of_bool hit =
      of_nat (count_list (slide (unat c) hit (map (\<lambda>v. v \<noteq> 0) (window_values w))) True)"
proof -
  note S = sample_okD [OF ok]
  let ?bs = "map (\<lambda>v. v \<noteq> 0) (window_values w)"
  have sum: "ws_sum w = sum_list (map of_bool ?bs)"
    using window_okD(7) [OF S(1)] sample_values [OF ok] by simp
  show ?thesis
  proof (cases "length (window_values w) = unat c")
    case True
    then have "0 < length ?bs" using S(4) by simp
    then obtain b bs where b: "?bs = b # bs" by (metis length_greater_0_conv list.exhaust)
    have "hd (window_values w) = of_bool b"
      using sample_values [OF ok] b by (metis list.sel(1) list.simps(9))
    then have "window_stats_peek w = Inr (of_bool b)" using window_peek_ok [OF S(1)] True S(2) by simp
    moreover have "ws_sum w = of_bool b + of_nat (count_list bs True)"
      unfolding sum b by (simp add: count_sum del: map_map)
    moreover have "slide (unat c) hit ?bs = bs @ [hit]"
    proof -
      have "length (b # bs) = unat c" unfolding b [symmetric] using True by simp
      then show ?thesis unfolding b by (simp add: slide_def)
    qed
    ultimately show ?thesis by (intro exI [of _ "of_bool b"]) simp
  next
    case False
    then have "window_stats_peek w = Inr 0" using window_peek_ok [OF S(1)] S(2) by simp
    moreover have "slide (unat c) hit ?bs = ?bs @ [hit]" using False by (simp add: slide_def)
    ultimately show ?thesis using sum by (intro exI [of _ 0]) (simp add: count_sum del: map_map)
  qed
qed

section \<open>The transaction\<close>

definition observed :: "nat \<Rightarrow> bool \<Rightarrow> oblock \<Rightarrow> bool \<Rightarrow> marc_spec \<Rightarrow> u64 \<Rightarrow> u64 \<Rightarrow> marc_transaction" where
  "observed c hit ob w a t z =
     \<lparr>mx_oblock = ob, mx_write = w, mx_tabu_counter = t, mx_state = spec_state c hit a, mx_ghost_size = z,
      mx_c_hit = hit, mx_save_sample_avg = spec_decides c a, mx_sample_clear = (spec_state c hit a \<noteq> as_state a),
      mx_sample_avg_clear = (spec_state c hit a \<noteq> as_state a),
      mx_phase_clear = (spec_state c hit a \<noteq> as_state a \<and> spec_state c hit a \<noteq> STABLE),
      mx_save_ghost_hits = spec_decides c a, mx_ghost_remove = False, mx_ghost_add = False, mx_filter = True\<rparr>"

lemma marc_try_transition_ok:
  assumes "unat x \<le> 100" "unat y \<le> 100" "ma_state s \<noteq> UNSTABLE \<longrightarrow> ma_ghost_hits s = ma_ghost_hits_old s"
    "ma_TABU s \<noteq> 0"
  shows "marc_try_transition P s x y mt =
    Inr (let st = exact_transition (ma_state s) (unat x) (unat y) in
         if st = ma_state s then mt else marc_change_state P s st mt)"
proof (cases "ma_state s")
  case UNIQUE
  then have "marc_uniq_unst_check s x y = Inr (5 < unat x)"
    using assms(3,4) by (simp add: marc_uniq_unst_check_def udiv_def word_less_nat_alt)
  then show ?thesis using UNIQUE by (simp add: marc_try_transition_def exact_transition_def)
qed (use checks_exact [OF assms(1,2)] in \<open>auto simp: marc_try_transition_def exact_transition_def\<close>)

locale marc_over = access_policy +
  fixes c :: cblock
  assumes size_law: "inv s \<Longrightarrow> fn_cache_size P s = c"
    and cap_law': "cap = unat c"
    and size_bounds: "inv s \<Longrightarrow> 10 \<le> unat c \<and> unat c < 2 ^ 31"
begin

abbreviation ok :: "nat \<Rightarrow> 'a marc_policy \<Rightarrow> bool" where
  "ok \<equiv> marc_ok inv c"

lemma marc_observe_ok:
  fixes s :: "'a marc_policy" and ob :: oblock and w :: bool
  assumes ok: "ok (Suc k) s"
  defines "hit \<equiv> policy_cache_lookup P ob (ma_internal s) \<noteq> None"
  shows "\<exists>t z. marc_observe P s (marc_transaction_init s ob w) =
      Inr (observed (unat c) hit ob w (marc_abs s) t z) \<and>
    unat t = spec_tabu (unat c) hit (marc_abs s) \<and> unat z = spec_size0 (unat c) hit (marc_abs s)"
proof -
  note D = marc_okD [OF ok] and S = sample_okD [OF marc_okD(8) [OF ok]]
  let ?a = "marc_abs s" and ?C = "unat c"
  define t1 where "t1 = (if ma_tabu_counter s > 0 then ma_tabu_counter s - 1 else ma_tabu_counter s)"
  have t1: "unat t1 = as_tabu ?a - 1"
    by (auto simp: t1_def word_gt_0 unat_minus_one)
  define m1 where "m1 = (marc_transaction_init s ob w)\<lparr>mx_tabu_counter := t1, mx_c_hit := hit\<rparr>"
  have m1: "(let e = policy_cache_lookup P (mx_oblock (marc_transaction_init s ob w)) (ma_internal s);
          mt = (if ma_tabu_counter s > 0 then (marc_transaction_init s ob w)\<lparr>mx_tabu_counter :=
              mx_tabu_counter (marc_transaction_init s ob w) - 1\<rparr> else marc_transaction_init s ob w)
      in mt\<lparr>mx_c_hit := e \<noteq> None\<rparr>) = m1"
    by (simp add: m1_def hit_def t1_def marc_transaction_init_def)
  have dec: "mx_tabu_counter m1 = 0 \<and> ws_len (ma_sample s) + 1 \<ge> ws_size (ma_sample s) \<longleftrightarrow> spec_decides ?C ?a"
    using t1 unfolding sample_full [OF D(8)] by (simp add: m1_def spec_decides_def unat_eq_zero [symmetric])
  have start: "marc_observe P s (marc_transaction_init s ob w) =
    (if mx_tabu_counter m1 = 0 \<and> ws_len (ma_sample s) + 1 \<ge> ws_size (ma_sample s) then
       let mt = m1\<lparr>mx_tabu_counter := ma_TABU s\<rparr> in
        rbind (window_stats_peek (ma_sample s)) (\<lambda>oldest.
        rbind (udiv (100 * (ws_sum (ma_sample s) - oldest + of_bool (mx_c_hit mt)))
                 (ucast (ws_size (ma_sample s)))) (\<lambda>hr_sample.
        rbind (udiv (100 * (ma_phase_hits s + of_bool (mx_c_hit mt))) (ma_phase_ios s + 1)) (\<lambda>hr_state.
        let mt = mt\<lparr>mx_save_sample_avg := True\<rparr> in
        rbind (marc_try_transition P s hr_sample hr_state mt) (\<lambda>mt.
        Inr (mt\<lparr>mx_save_ghost_hits := True\<rparr>)))))
     else Inr m1)"
    unfolding marc_observe_def Let_def m1 [unfolded Let_def] by (rule refl)
  show ?thesis
  proof (cases "spec_decides ?C ?a")
    case False
    then have "marc_observe P s (marc_transaction_init s ob w) = Inr m1" unfolding start dec by simp
    moreover have "m1 = observed ?C hit ob w ?a t1 (ma_ghost_size s)"
      using False by (simp add: m1_def observed_def marc_transaction_init_def spec_state_def)
    ultimately show ?thesis using False t1
      by (intro exI [of _ t1] exI [of _ "ma_ghost_size s"]) (simp add: spec_tabu_def spec_size0_def spec_state_def)
  next
    case True
    from True have "?C \<le> Suc (length (window_values (ma_sample s)))" by (simp add: spec_decides_def)
    from sample_sum [OF D(8) this, of hit] obtain oldest where o: "window_stats_peek (ma_sample s) = Inr oldest"
      "ws_sum (ma_sample s) - oldest + of_bool hit = of_nat (count_list (spec_sample ?C hit ?a) True)"
      by (auto simp: spec_sample_def)
    let ?n = "count_list (spec_sample ?C hit ?a) True"
    have n: "?n \<le> ?C" "?C < 2 ^ 57"
      using count_le [of "spec_sample ?C hit ?a"] S(3,4,5) by (auto simp: spec_sample_def)
    define x :: u64 where "x = (100 * of_nat ?n) div of_nat ?C"
    have x: "unat x = hit_rate ?n ?C" "unat x \<le> 100" using rate_word [OF n] by (simp_all add: x_def)
    let ?h = "as_hits ?a + of_bool hit" and ?i = "Suc (as_ios ?a)"
    have h: "?h \<le> ?i" "?i < 2 ^ 57" using D(10) by (auto simp: phase_ok_def)
    define y :: u64 where "y = (100 * of_nat ?h) div of_nat ?i"
    have y: "unat y = hit_rate ?h ?i" "unat y \<le> 100" using rate_word [OF h] by (simp_all add: y_def)
    have cw: "(ucast (ws_size (ma_sample s)) :: u64) = of_nat ?C" "(of_nat ?C :: u64) \<noteq> 0"
      using S(2,4) by (simp_all add: word_unat_eq_iff)
    have hw: "ma_phase_hits s + of_bool hit = of_nat ?h" "ma_phase_ios s + 1 = of_nat ?i" by simp_all
    have iz: "(of_nat ?i :: u64) \<noteq> 0"
    proof -
      have "unat (of_nat ?i :: u64) = ?i" by (rule unat_of_nat_small) (use h(2) in simp)
      then show ?thesis by (metis nat.distinct(1) unat_0)
    qed
    have TABU: "ma_TABU s \<noteq> 0" using D(3) cw by simp
    define m2 where "m2 = m1\<lparr>mx_tabu_counter := ma_TABU s, mx_save_sample_avg := True\<rparr>"
    define st where "st = spec_state ?C hit ?a"
    have st: "exact_transition (ma_state s) (unat x) (unat y) = st"
      using True by (simp add: st_def spec_state_def x(1) y(1))
    define m3 where "m3 = (if st = ma_state s then m2 else marc_change_state P s st m2)"
    have tr: "marc_try_transition P s x y m2 = Inr m3"
      using marc_try_transition_ok [of x y s P m2, OF x(2) y(2) _ TABU] D(7) by (auto simp: st m3_def)
    have run: "marc_observe P s (marc_transaction_init s ob w) = Inr (m3\<lparr>mx_save_ghost_hits := True\<rparr>)"
    proof -
      have 1: "mx_c_hit (m1\<lparr>mx_tabu_counter := ma_TABU s\<rparr>) = hit" by (simp add: m1_def)
      have 2: "udiv (100 * (ws_sum (ma_sample s) - oldest + of_bool hit)) (ucast (ws_size (ma_sample s))) = Inr x"
        unfolding o(2) cw(1) x_def by (simp add: udiv_def cw(2) del: of_nat_unat)
      have 3: "udiv (100 * (ma_phase_hits s + of_bool hit)) (ma_phase_ios s + 1) = Inr y"
        unfolding hw y_def udiv_def if_not_P [OF iz] by (rule refl)
      show ?thesis
        unfolding start dec if_P [OF True] Let_def o(1) rbind.simps 1 2 3
        using tr by (simp add: m2_def)
    qed
    define t where "t = (if st \<noteq> ma_state s \<and> st = UNSTABLE then 2 * ma_TABU s else ma_TABU s)"
    define z where "z = (if st \<noteq> ma_state s \<and> st \<noteq> UNSTABLE then ucast (c div 10) else ma_ghost_size s)"
    have "m3\<lparr>mx_save_ghost_hits := True\<rparr> = observed ?C hit ob w ?a t z"
      using True size_law [OF D(2)] unfolding observed_def st_def [symmetric] m3_def m2_def t_def z_def m1_def
      by (simp add: marc_change_state_def marc_transaction_init_def)
    moreover have "unat t = spec_tabu ?C hit ?a"
    proof -
      have "unat (2 * ma_TABU s) = 2 * ?C" using S(5) by (subst unat_mult_small) (simp_all add: D(3))
      then show ?thesis using True by (simp add: t_def spec_tabu_def st_def [symmetric] D(3))
    qed
    moreover have "unat z = spec_size0 ?C hit ?a"
      by (simp add: z_def spec_size0_def st_def [symmetric] unat_div)
    ultimately show ?thesis using run by auto
  qed
qed

text \<open>The sizes of the ghost list.\<close>

lemma marc_sizes_ok:
  assumes i: "inv (ma_internal s)" and sz: "size_ok (unat c) (unat g) n"
  shows "\<exists>z. marc_ghost_decrease_size P s g = Inr z \<and> unat z = exact_decrease (unat c) (unat g)"
    "\<exists>z. marc_ghost_increase_size P s g = Inr z \<and> unat z = exact_increase (unat c) (unat g)"
proof -
  let ?C = "unat c" and ?g = "unat g"
  let ?c = "ucast c :: u64"
  have cs: "fn_cache_size P (ma_internal s) = c" by (rule size_law [OF i])
  have large: "10 \<le> unat c" "unat c < 2 ^ 31" using size_bounds [OF i] by simp_all
  have g: "?C div 10 \<le> ?g" "?g \<le> ?C" using sz by (auto simp: size_ok_def)
  note r = size_ratio [OF large(1) g(1)]
  show "\<exists>z. marc_ghost_decrease_size P s g = Inr z \<and> unat z = exact_decrease ?C ?g"
  proof (cases "?g = ?C")
    case True
    then have "g = ?c" by (simp add: word_unat_eq_iff)
    then show ?thesis using cs by (simp add: marc_ghost_decrease_size_def exact_decrease_def unat_div)
  next
    case False
    then have lt: "?g < ?C" using g(2) by simp
    then have d: "unat (?c - g) = ?C - ?g" by (subst unat_sub) (simp_all add: word_le_nat_alt)
    define tmp where "tmp = ?c div (?c - g)"
    have tmp: "unat tmp = ?C div (?C - ?g)" by (simp add: tmp_def unat_div d)
    have nz: "?c - g \<noteq> 0" using d lt by (metis unat_0 zero_less_diff less_irrefl)
    have ne: "g \<noteq> ?c" using False by auto
    define z where "z = (if g \<ge> tmp then max_64 (?c div 10) (g - tmp) else ?c div 10)"
    have run: "marc_ghost_decrease_size P s g = Inr z"
      using ne nz cs by (simp add: marc_ghost_decrease_size_def udiv_def tmp_def z_def Let_def)
    have "unat z = max (?C div 10) (?g - ?C div (?C - ?g))"
    proof (cases "g \<ge> tmp")
      case True
      then have le: "unat tmp \<le> ?g" by (simp add: word_le_nat_alt)
      have s: "unat (g - tmp) = ?g - unat tmp" using True by (rule unat_sub)
      have "unat (max_64 (?c div 10) (g - tmp)) = max (unat (?c div 10)) (unat (g - tmp))"
        using large(2) lt by (intro max_64_small) (simp_all add: unat_div s)
      then show ?thesis using True by (simp add: z_def s tmp unat_div)
    next
      case less: False
      then have "?g - ?C div (?C - ?g) = 0" using tmp by (simp add: word_le_nat_alt)
      then show ?thesis using less by (simp add: z_def unat_div)
    qed
    then show ?thesis using run False by (simp add: exact_decrease_def)
  qed
  have nz: "g \<noteq> 0" using r(2) by auto
  define z where "z = min_64 ((9 * ?c) div 10) (g + ?c div g)"
  have run: "marc_ghost_increase_size P s g = Inr z"
    using nz cs by (simp add: marc_ghost_increase_size_def udiv_def z_def Let_def)
  have q: "unat (?c div g) = ?C div ?g" by (simp add: unat_div)
  have p: "unat (g + ?c div g) = ?g + ?C div ?g"
    using r(1) g(2) large(2) q by (subst unat_add_small) simp_all
  have n: "unat (9 * ?c) = 9 * ?C" using large(2) by (subst unat_mult_small) simp_all
  have "unat z = min (9 * ?C div 10) (?g + ?C div ?g)"
    unfolding z_def using r(1) g(2) large(2) by (subst min_64_small) (simp_all add: unat_div p n)
  then show "\<exists>z. marc_ghost_increase_size P s g = Inr z \<and> unat z = exact_increase ?C ?g"
    using run by (simp add: exact_increase_def)
qed

definition admitted :: "bool \<Rightarrow> bool \<Rightarrow> oblock \<Rightarrow> bool \<Rightarrow> marc_spec \<Rightarrow> u64 \<Rightarrow> u64 \<Rightarrow> marc_transaction" where
  "admitted full hit ob w a t z =
     (observed (unat c) hit ob w a t z)\<lparr>mx_ghost_remove := \<not> hit \<and> full \<and> ob \<in> set (as_ghost a),
       mx_ghost_add := \<not> hit \<and> full \<and> (spec_state (unat c) hit a = UNSTABLE \<or> ob \<notin> set (as_ghost a)),
       mx_filter := spec_filters (unat c) full hit ob a\<rparr>"

lemma marc_admit_ok:
  assumes i: "inv (ma_internal s)" and z: "unat z = spec_size0 (unat c) hit a" and sz: "size_ok (unat c) (unat z) n"
    and g: "ht_lookup ob s \<noteq> None \<longleftrightarrow> ob \<in> set (as_ghost a)"
  defines "full \<equiv> policy_cache_is_full P (ma_internal s)"
  shows "\<exists>z'. marc_admit P s (observed (unat c) hit ob w a t z) = Inr (admitted full hit ob w a t z') \<and>
    unat z' = spec_size (unat c) full hit a"
proof -
  obtain zd zi where zd: "marc_ghost_decrease_size P s z = Inr zd" "unat zd = exact_decrease (unat c) (unat z)"
    and zi: "marc_ghost_increase_size P s z = Inr zi" "unat zi = exact_increase (unat c) (unat z)"
    using marc_sizes_ok [OF i sz] by blast
  define z' where "z' = (if hit then if spec_state (unat c) hit a \<noteq> UNSTABLE \<or> full then zd else z
    else if full then zi else z)"
  have "unat z' = spec_size (unat c) full hit a"
    using zd(2) zi(2) z by (simp add: z'_def spec_size_def)
  moreover have "marc_admit P s (observed (unat c) hit ob w a t z) = Inr (admitted full hit ob w a t z')"
    using zd(1) zi(1) g unfolding marc_admit_def admitted_def observed_def z'_def full_def
    by (simp add: spec_filters_def)
  ultimately show ?thesis by blast
qed

text \<open>The commit of the counters.\<close>

lemma slide_map: "map f (slide n x xs) = slide n (f x) (map f xs)"
  by (simp add: slide_def map_tl)

lemma set_tl_subset: "set (tl xs) \<subseteq> set xs"
  by (cases xs) auto

lemma sample_push_ok:
  assumes "sample_ok c w"
  shows "\<exists>w'. window_stats_push (of_bool hit) w = Inr w' \<and> sample_ok c w' \<and>
    map (\<lambda>v. v \<noteq> 0) (window_values w') = slide (unat c) hit (map (\<lambda>v. v \<noteq> 0) (window_values w))"
proof -
  note S = sample_okD [OF assms]
  from window_push_ok [OF S(1), of "of_bool hit"] obtain w' where w': "window_stats_push (of_bool hit) w = Inr w'"
    "window_ok w'" "ws_size w' = c" "window_values w' = slide (unat c) (of_bool hit) (window_values w)"
    using S(2) by auto
  have "set (slide (unat c) (of_bool hit) (window_values w)) \<subseteq> {0, 1}"
    using assms set_tl_subset [of "window_values w"] by (auto simp: slide_def sample_ok_def)
  then show ?thesis using w' by (intro exI [of _ w']) (simp add: sample_ok_def slide_map)
qed

lemma marc_commit_stats_ok:
  fixes s :: "'a marc_policy" and hit :: bool
  assumes ok: "ok (Suc k) s"
  defines "a \<equiv> marc_abs s" and "st \<equiv> spec_state (unat c) hit (marc_abs s)"
  shows "\<exists>wn av h n old s1. marc_commit_stats (admitted full hit ob w a t z) s = Inr s1 \<and>
    s1 = s\<lparr>ma_tabu_counter := t, ma_ghost_size := z, ma_state := st, ma_sample := wn, ma_sample_avg := av,
           ma_phase_hits := h, ma_phase_ios := n, ma_ghost_hits_old := old\<rparr> \<and>
    sample_ok c wn \<and> window_ok av \<and> phase_ok k h n \<and> (st \<noteq> UNSTABLE \<longrightarrow> ma_ghost_hits s = old) \<and>
    map (\<lambda>v. v \<noteq> 0) (window_values wn) = (if st \<noteq> as_state a then [] else spec_sample (unat c) hit a) \<and>
    unat h = (if st \<noteq> as_state a \<and> st \<noteq> STABLE then 0 else as_hits a + of_bool hit) \<and>
    unat n = (if st \<noteq> as_state a \<and> st \<noteq> STABLE then 0 else Suc (as_ios a))"
proof -
  note D = marc_okD [OF ok]
  have large: "10 \<le> unat c" using size_bounds [OF D(2)] by simp
  let ?mt = "admitted full hit ob w a t z"
  have mt: "mx_tabu_counter ?mt = t" "mx_ghost_size ?mt = z" "mx_state ?mt = st" "mx_c_hit ?mt = hit"
    "mx_save_sample_avg ?mt = spec_decides (unat c) a" "mx_sample_clear ?mt = (st \<noteq> as_state a)"
    "mx_sample_avg_clear ?mt = (st \<noteq> as_state a)" "mx_phase_clear ?mt = (st \<noteq> as_state a \<and> st \<noteq> STABLE)"
    "mx_save_ghost_hits ?mt = spec_decides (unat c) a"
    by (simp_all add: admitted_def observed_def st_def a_def)
  from sample_push_ok [OF D(8), of hit] obtain w1 where w1: "window_stats_push (of_bool hit) (ma_sample s) = Inr w1"
    "sample_ok c w1" "map (\<lambda>v. v \<noteq> 0) (window_values w1) = spec_sample (unat c) hit a"
    by (auto simp: spec_sample_def a_def)
  note S = sample_okD [OF w1(2)]
  define avg :: u64 where "avg = (100 * ws_sum w1) div ucast c"
  have cz: "(ucast c :: u64) \<noteq> 0" using large by (simp add: word_unat_eq_iff)
  from window_push_ok [OF D(9), of avg] obtain v1 where v1: "window_stats_push avg (ma_sample_avg s) = Inr v1"
    "window_ok v1" by blast
  define wn where "wn = (if st \<noteq> as_state a then window_stats_clear w1 else w1)"
  define av where "av = (if spec_decides (unat c) a then v1 else ma_sample_avg s)"
  define h where "h = (if st \<noteq> as_state a \<and> st \<noteq> STABLE then 0 else ma_phase_hits s + of_bool hit)"
  define n where "n = (if st \<noteq> as_state a \<and> st \<noteq> STABLE then 0 else ma_phase_ios s + 1)"
  define old where "old = (if spec_decides (unat c) a then ma_ghost_hits s else ma_ghost_hits_old s)"
  define s1 where "s1 = s\<lparr>ma_tabu_counter := t, ma_ghost_size := z, ma_state := st, ma_sample := wn,
    ma_sample_avg := av, ma_phase_hits := h, ma_phase_ios := n, ma_ghost_hits_old := old\<rparr>"
  have clear2: "window_stats_clear (window_stats_clear w1) = window_stats_clear w1"
    by (simp add: window_stats_clear_def)
  have run: "marc_commit_stats ?mt s = Inr s1"
    using w1(1) v1(1) S(2) cz unfolding marc_commit_stats_def mt s1_def wn_def av_def h_def n_def old_def Let_def
    by (simp add: udiv_def avg_def clear2)
  have sum: "unat (ma_phase_hits s + of_bool hit) = as_hits a + of_bool hit" "unat (ma_phase_ios s + 1) = Suc (as_ios a)"
    using D(10) by (auto simp: a_def phase_ok_def unat_add_small)
  then have hn: "unat h = (if st \<noteq> as_state a \<and> st \<noteq> STABLE then 0 else as_hits a + of_bool hit)"
    "unat n = (if st \<noteq> as_state a \<and> st \<noteq> STABLE then 0 else Suc (as_ios a))" by (simp_all add: h_def n_def)
  moreover have "phase_ok k h n" using hn D(10) by (auto simp: phase_ok_def a_def)
  moreover have "sample_ok c wn \<and>
      map (\<lambda>v. v \<noteq> 0) (window_values wn) = (if st \<noteq> as_state a then [] else spec_sample (unat c) hit a)"
    using w1(2,3) S window_clear_ok [OF S(1)] by (simp add: wn_def sample_ok_def)
  moreover have "window_ok av" using v1(2) D(9) by (simp add: av_def)
  moreover have "st \<noteq> UNSTABLE \<longrightarrow> ma_ghost_hits s = old"
    using D(7) by (auto simp: old_def st_def spec_state_def a_def)
  ultimately show ?thesis using run s1_def by blast
qed

text \<open>The commit of the ghost list.\<close>

lemma marc_commit_ghost_ok:
  assumes ok: "ghost_ok c s" and g: "as_ghost a = ghosts s" and room: "length (ghost_q s) < unat c"
  shows "\<exists>s'. marc_commit_ghost (admitted full hit ob w a t z) s = Inr s' \<and> ghost_ok c s' \<and>
    ghosts s' = spec_ghost (unat c) full hit ob a \<and> same_rest s s' \<and>
    (spec_state (unat c) hit a \<noteq> UNSTABLE \<longrightarrow> ma_ghost_hits s' = ma_ghost_hits s)"
proof -
  let ?mt = "admitted full hit ob w a t z" and ?u = "spec_state (unat c) hit a = UNSTABLE"
  have mt: "mx_oblock ?mt = ob" "mx_ghost_remove ?mt \<longleftrightarrow> \<not> hit \<and> full \<and> ob \<in> set (ghosts s)"
    "mx_ghost_add ?mt \<longleftrightarrow> \<not> hit \<and> full \<and> (?u \<or> ob \<notin> set (ghosts s))"
    by (simp_all add: admitted_def observed_def g)
  note L = ghost_lookup [OF ok, of ob]
  consider "hit \<or> \<not> full" | "\<not> hit" "full" "ob \<notin> set (ghosts s)" | "\<not> hit" "full" "ob \<in> set (ghosts s)" "?u"
    | "\<not> hit" "full" "ob \<in> set (ghosts s)" "\<not> ?u" by blast
  then show ?thesis
  proof cases
    case 1
    then show ?thesis using ok by (intro exI [of _ s]) (auto simp: marc_commit_ghost_def mt spec_ghost_def g)
  next
    case 2
    then have "ht_lookup ob s = None" using L(1) by blast
    from ghost_insert_ok [OF ok room this] obtain s' where s': "rbind (insert_in_meta ob s) (\<lambda>(e, s).
        rbind (q_push [] (ghost_q s) e) (\<lambda>q. Inr (s\<lparr>ghost_q := q\<rparr>))) = Inr s'" "ghost_ok c s'"
      "ghosts s' = ghosts s @ [ob]" "same_rest s s'" "ma_ghost_hits s' = ma_ghost_hits s" by blast
    have "marc_commit_ghost ?mt s = Inr s'" unfolding marc_commit_ghost_def mt using 2 s'(1) by simp
    moreover have "spec_ghost (unat c) full hit ob a = ghosts s @ [ob]"
      using 2 by (simp add: spec_ghost_def g remove1_idem)
    ultimately show ?thesis using s' by auto
  next
    case 3
    then obtain e where e: "ht_lookup ob s = Some e" using L(1) by blast
    from ghost_renew_ok [OF ok e] obtain s' where s': "rbind (q_push [] (q_remove e (ghost_q s)) e)
        (\<lambda>q. Inr (s\<lparr>ma_ghost_hits := ma_ghost_hits s + 1, ghost_q := q\<rparr>)) = Inr s'" "ghost_ok c s'"
      "ghosts s' = remove1 ob (ghosts s) @ [ob]" "same_rest s s'" by blast
    have "marc_commit_ghost ?mt s = Inr s'"
      unfolding marc_commit_ghost_def mt using 3 s'(1) e by (simp add: deref_def Let_def)
    moreover have "spec_ghost (unat c) full hit ob a = remove1 ob (ghosts s) @ [ob]"
      using 3 by (simp add: spec_ghost_def g)
    ultimately show ?thesis using 3 s' by auto
  next
    case 4
    then obtain e where e: "ht_lookup ob s = Some e" using L(1) by blast
    then have "e \<in> set (ht s)" "e_oblock (store s e) = ob" using L(2) by blast+
    then obtain s' where s': "marc_remove_entry e s = Inr s'" "ghost_ok c s'"
      "ghosts s' = remove1 ob (ghosts s)" "same_rest s s'" "ma_ghost_hits s' = ma_ghost_hits s"
      using ghost_remove_ok [OF ok, of e] by auto
    have "marc_commit_ghost ?mt s = Inr s'"
      unfolding marc_commit_ghost_def mt using 4 s'(1) e by (simp add: deref_def)
    moreover have "spec_ghost (unat c) full hit ob a = remove1 ob (ghosts s)"
      using 4 by (simp add: spec_ghost_def g)
    ultimately show ?thesis using s' by auto
  qed
qed

text \<open>The lengths that follow.\<close>

lemma spec_lengths:
  fixes a :: marc_spec and hit full :: bool and ob :: oblock
  assumes "size_ok (unat c) (as_size a) (length (as_ghost a))" "length (as_ghost a) \<le> 9 * unat c div 10"
    and large: "10 \<le> unat c"
  defines "z \<equiv> spec_size (unat c) full hit a"
  defines "g \<equiv> spec_trim z (spec_ghost (unat c) full hit ob a)"
  shows "size_ok (unat c) (spec_size0 (unat c) hit a) (length (as_ghost a))"
    "length g \<le> 9 * unat c div 10" "size_ok (unat c) z (length g)"
proof -
  have m: "unat c div 10 \<le> 9 * unat c div 10" by (intro div_le_mono) simp
  let ?z0 = "spec_size0 (unat c) hit a"
  show z0: "size_ok (unat c) ?z0 (length (as_ghost a))"
    using assms(1) m by (simp add: spec_size0_def) (simp add: size_ok_def)
  note E = exact_size_ok [OF large z0]
  have len: "length (spec_ghost (unat c) full hit ob a) \<le> Suc (length (as_ghost a))"
    by (auto simp: spec_ghost_def length_remove1)
  show "length g \<le> 9 * unat c div 10"
  proof (cases "hit \<or> \<not> full")
    case True
    then show ?thesis using assms(2) by (simp add: g_def spec_ghost_def spec_trim_def; linarith)
  next
    case False
    then have "z \<le> 9 * unat c div 10" using E(2) by (simp add: z_def spec_size_def)
    then show ?thesis using len assms(2) by (simp add: g_def spec_trim_def; linarith)
  qed
  show "size_ok (unat c) z (length g)"
  proof (cases "z = ?z0 \<and> (hit \<or> \<not> full)")
    case True
    then have "length g \<le> length (as_ghost a)" by (simp add: g_def spec_ghost_def spec_trim_def)
    then show ?thesis using z0 True by (auto simp: size_ok_def)
  next
    case False
    then have "z = exact_increase (unat c) ?z0 \<or> z = exact_decrease (unat c) ?z0"
      by (auto simp: z_def spec_size_def split: if_splits)
    then show ?thesis using E by (auto simp: size_ok_def)
  qed
qed

section \<open>One access\<close>

text \<open>Everything but the internal policy, after a commit.\<close>

lemma marc_commit_own:
  assumes ok: "ok (Suc k) s" and t: "unat t = spec_tabu (unat c) hit (marc_abs s)"
    and z: "unat z = spec_size (unat c) full hit (marc_abs s)"
  shows "\<exists>s2. rbind (marc_commit_stats (admitted full hit ob w (marc_abs s) t z) s)
        (marc_commit_ghost (admitted full hit ob w (marc_abs s) t z)) = Inr s2 \<and>
    ma_internal s2 = ma_internal s \<and> stats s2 = stats s \<and>
    (\<forall>s3. ghost_ok c s3 = ghost_ok c s2 \<and> ghosts s3 = ghosts s2 \<and> ghost_q s3 = ghost_q s2 \<and>
        (\<exists>i st. s3 = s2\<lparr>ma_internal := i, stats := st\<rparr> \<and> inv i) \<longrightarrow>
      (\<exists>s'. (if (ucast (q_length (ghost_q s3)) :: u64) > ma_ghost_size s3 then marc_ghost_evict s3 else Inr s3) = Inr s' \<and>
        ok k s' \<and> marc_abs s' = spec_marc (unat c) full hit ob (marc_abs s) \<and>
        ma_internal s' = ma_internal s3 \<and> stats s' = stats s3))"
proof -
  note D = marc_okD [OF ok]
  have large: "10 \<le> unat c" "unat c < 2 ^ 31" using size_bounds [OF D(2)] by simp_all
  let ?a = "marc_abs s" and ?C = "unat c" and ?mt = "admitted full hit ob w (marc_abs s) t z"
  let ?st = "spec_state ?C hit ?a"
  have ghosts: "as_ghost ?a = ghosts s" by (simp add: ghosts_def)
  from marc_commit_stats_ok [OF ok, of full hit ob w t z]
  obtain wn av h n old s1 where 1: "marc_commit_stats ?mt s = Inr s1"
    "s1 = s\<lparr>ma_tabu_counter := t, ma_ghost_size := z, ma_state := ?st, ma_sample := wn, ma_sample_avg := av,
           ma_phase_hits := h, ma_phase_ios := n, ma_ghost_hits_old := old\<rparr>"
    "sample_ok c wn" "window_ok av" "phase_ok k h n" "?st \<noteq> UNSTABLE \<longrightarrow> ma_ghost_hits s = old"
    "map (\<lambda>v. v \<noteq> 0) (window_values wn) = (if ?st \<noteq> as_state ?a then [] else spec_sample ?C hit ?a)"
    "unat h = (if ?st \<noteq> as_state ?a \<and> ?st \<noteq> STABLE then 0 else as_hits ?a + of_bool hit)"
    "unat n = (if ?st \<noteq> as_state ?a \<and> ?st \<noteq> STABLE then 0 else Suc (as_ios ?a))" by blast
  have g1: "ghost_ok c s1" "ghosts s1 = ghosts s" "ghost_q s1 = ghost_q s"
    using D(1) by (simp_all add: 1(2) ghost_ok_def cn_ok_def ghosts_def)
  have "length (ghost_q s1) < ?C"
    using D(6) g1(3) large(1) less_le_trans [of "9 * ?C div 10" ?C ?C] by (auto simp: div_less_iff_less_mult)
  from marc_commit_ghost_ok [OF g1(1) _ this, of ?a full hit ob w t z] obtain s2 where
    2: "marc_commit_ghost ?mt s1 = Inr s2" "ghost_ok c s2" "ghosts s2 = spec_ghost ?C full hit ob ?a"
      "same_rest s1 s2" "?st \<noteq> UNSTABLE \<longrightarrow> ma_ghost_hits s2 = ma_ghost_hits s1"
    using ghosts g1(2) by auto
  have r2: "ma_internal s2 = ma_internal s" "ma_TABU s2 = ma_TABU s" "ma_tabu_counter s2 = t" "ma_state s2 = ?st"
    "ma_ghost_size s2 = z" "ma_ghost_hits_old s2 = old" "ma_sample s2 = wn" "ma_sample_avg s2 = av"
    "ma_phase_hits s2 = h" "ma_phase_ios s2 = n" "?st \<noteq> UNSTABLE \<longrightarrow> ma_ghost_hits s2 = old"
    "stats s2 = stats s"
    using 2(4,5) 1(6) by (simp_all add: same_rest_def 1(2))
  have lens: "size_ok ?C (as_size ?a) (length (as_ghost ?a))" "length (as_ghost ?a) \<le> 9 * ?C div 10"
    using D(5,6) by simp_all
  note L = spec_lengths(2,3) [OF lens large(1), of full hit ob]
  have q2: "length (ghost_q s2) = length (spec_ghost ?C full hit ob ?a)" using 2(3) by (metis ghosts_def length_map)
  have len: "length (ghost_q s2) < 2 ^ 32"
    using D(6) large(2) q2 by (auto simp: spec_ghost_def length_remove1 split: if_splits)
  then have word: "(ucast (q_length (ghost_q s2)) :: u64) > z \<longleftrightarrow> unat z < length (ghost_q s2)"
    by (simp add: q_length_def word_less_nat_alt unat_of_nat_small)
  have step: "\<exists>s'. (if (ucast (q_length (ghost_q s3)) :: u64) > ma_ghost_size s3 then marc_ghost_evict s3 else Inr s3) = Inr s' \<and>
        ok k s' \<and> marc_abs s' = spec_marc ?C full hit ob ?a \<and> ma_internal s' = ma_internal s3 \<and> stats s' = stats s3"
    if g3: "ghost_ok c s3 = ghost_ok c s2" "ghosts s3 = ghosts s2" "ghost_q s3 = ghost_q s2"
      and s3: "s3 = s2\<lparr>ma_internal := i, stats := stt\<rparr>" "inv i" for s3 i stt
  proof -
    have r3: "ma_TABU s3 = ma_TABU s" "ma_tabu_counter s3 = t" "ma_state s3 = ?st"
      "ma_ghost_size s3 = z" "ma_ghost_hits_old s3 = old" "ma_sample s3 = wn" "ma_sample_avg s3 = av"
      "ma_phase_hits s3 = h" "ma_phase_ios s3 = n" "?st \<noteq> UNSTABLE \<longrightarrow> ma_ghost_hits s3 = old" "ma_internal s3 = i"
      using r2 by (simp_all add: s3(1))
    have g: "ghost_ok c s3" using 2(2) g3(1) by simp
    have "\<exists>s'. (if (ucast (q_length (ghost_q s3)) :: u64) > ma_ghost_size s3 then marc_ghost_evict s3 else Inr s3) = Inr s' \<and>
      ghost_ok c s' \<and> same_rest s3 s' \<and> ma_ghost_hits s' = ma_ghost_hits s3 \<and>
      ghosts s' = spec_trim (spec_size ?C full hit ?a) (spec_ghost ?C full hit ob ?a)"
    proof (cases "unat z < length (ghost_q s3)")
      case True
      then have "ghost_q s3 \<noteq> []" by auto
      from ghost_evict_ok [OF g this] show ?thesis
        using True word z q2 unfolding g3 r3 2(3) spec_trim_def by auto
    next
      case False
      then show ?thesis using word z q2 g unfolding g3 r3 2(3) spec_trim_def
        by (intro exI [of _ s3]) (simp add: g3(1,2) 2(3))
    qed
    then obtain s' where s': "(if (ucast (q_length (ghost_q s3)) :: u64) > ma_ghost_size s3 then marc_ghost_evict s3 else Inr s3) = Inr s'"
      "ghost_ok c s'" "same_rest s3 s'" "ma_ghost_hits s' = ma_ghost_hits s3"
      "ghosts s' = spec_trim (spec_size ?C full hit ?a) (spec_ghost ?C full hit ob ?a)" by blast
    have q: "length (ghost_q s') = length (ghosts s')" by (simp add: ghosts_def)
    have f: "ma_TABU s' = ma_TABU s" "ma_tabu_counter s' = t" "ma_state s' = ?st"
      "ma_ghost_size s' = z" "ma_ghost_hits_old s' = old" "ma_sample s' = wn" "ma_sample_avg s' = av"
      "ma_phase_hits s' = h" "ma_phase_ios s' = n" "?st \<noteq> UNSTABLE \<longrightarrow> ma_ghost_hits s' = old"
      "ma_internal s' = i" "stats s' = stats s3"
      using s'(3,4) r3 by (simp_all add: same_rest_def)
    have "spec_tabu ?C hit ?a \<le> 2 * ?C" using D(4) by (auto simp: spec_tabu_def)
    then have "ok k s'" unfolding marc_ok_def q s'(5) f
      using s'(2) s3(2) D(3) t z L 1(3,4,5) f(10) by simp
    moreover have "marc_abs s' = spec_marc ?C full hit ob ?a"
    proof -
      have "marc_abs s' = \<lparr>as_state = ?st, as_tabu = unat t, as_size = unat z, as_ghost = ghosts s',
          as_sample = map (\<lambda>v. v \<noteq> 0) (window_values wn), as_hits = unat h, as_ios = unat n\<rparr>"
        unfolding marc_abs_def [of s'] f ghosts_def by (rule refl)
      then show ?thesis unfolding s'(5) t z 1(7,8,9) by (simp add: spec_marc_def Let_def)
    qed
    ultimately show ?thesis using s'(1) f(11,12) r3(11) by auto
  qed
  have "rbind (marc_commit_stats ?mt s) (marc_commit_ghost ?mt) = Inr s2" using 1(1) 2(1) by simp
  then show ?thesis using r2(1,12) step by blast
qed

text \<open>The transaction as a whole.\<close>

lemma marc_set_ok:
  fixes s :: "'a marc_policy" and ob :: oblock and w :: bool
  assumes ok: "ok (Suc k) s"
  defines "hit \<equiv> policy_cache_lookup P ob (ma_internal s) \<noteq> None"
    and "full \<equiv> policy_cache_is_full P (ma_internal s)"
  shows "\<exists>t z. marc_transaction_set P s (marc_transaction_init s ob w) =
      Inr (admitted full hit ob w (marc_abs s) t z) \<and>
    unat t = spec_tabu (unat c) hit (marc_abs s) \<and> unat z = spec_size (unat c) full hit (marc_abs s)"
proof -
  note D = marc_okD [OF ok]
  from marc_observe_ok [OF ok, of ob w] obtain t z where
    1: "marc_observe P s (marc_transaction_init s ob w) = Inr (observed (unat c) hit ob w (marc_abs s) t z)"
    "unat t = spec_tabu (unat c) hit (marc_abs s)" "unat z = spec_size0 (unat c) hit (marc_abs s)"
    unfolding hit_def by blast
  have lens: "size_ok (unat c) (as_size (marc_abs s)) (length (as_ghost (marc_abs s)))"
    "length (as_ghost (marc_abs s)) \<le> 9 * unat c div 10" using D(5,6) by simp_all
  have sz: "size_ok (unat c) (unat z) (length (as_ghost (marc_abs s)))"
    unfolding 1(3) by (rule spec_lengths(1) [OF lens]) (use size_bounds [OF D(2)] in simp)
  have g: "ht_lookup ob s \<noteq> None \<longleftrightarrow> ob \<in> set (as_ghost (marc_abs s))"
    using ghost_lookup(1) [OF D(1)] by (simp add: ghosts_def)
  from marc_admit_ok [OF D(2) 1(3) sz g, of w t] show ?thesis
    using 1(1,2) unfolding marc_transaction_set_def full_def by auto
qed

text \<open>
  The cases of an access: filtered, impossible because the internal policy cannot take it, or passed on
  to the internal policy.
\<close>

definition marc_serves :: "nat \<Rightarrow> oblock \<Rightarrow> bool \<Rightarrow> cn_result \<Rightarrow> 'a marc_policy \<Rightarrow> bool" where
  "marc_serves k ob w r0 s \<longleftrightarrow>
     (let i = ma_internal s; hit = (policy_cache_lookup P ob i \<noteq> None); full = policy_cache_is_full P i in
      if spec_filters (unat c) full hit ob (marc_abs s)
      then marc_next_victim_api P ob s = Inr (CACHE_NUCLEUS_FILTER, None) \<and>
        (\<exists>s'. marc_map_api P ob w r0 s = Inr (0, r0\<lparr>r_op := CACHE_NUCLEUS_FILTER\<rparr>, s') \<and> ok k s' \<and>
          marc_abs s' = spec_marc (unat c) full hit ob (marc_abs s) \<and> ma_internal s' = i \<and>
          stats s' = inc_filters (stats s))
      else (\<exists>op v. policy_next_victim P ob i = Inr (op, v) \<and>
        (if op = CACHE_NUCLEUS_FAIL
         then marc_next_victim_api P ob s = Inr (CACHE_NUCLEUS_FAIL, None) \<and> \<not> hit \<and>
           marc_map_api P ob w r0 s = Inr (0, r0\<lparr>r_op := CACHE_NUCLEUS_FAIL\<rparr>, s)
         else marc_next_victim_api P ob s = Inr (op, v) \<and>
           (\<exists>r i' s'. policy_map P ob w r0 i = Inr (0, r, i') \<and> r_op r \<noteq> CACHE_NUCLEUS_FAIL \<and>
             marc_map_api P ob w r0 s = Inr (0, r, s') \<and> ok k s' \<and> ma_internal s' = i' \<and>
             marc_abs s' = spec_marc (unat c) full hit ob (marc_abs s) \<and> stats s' = stats s))))"

lemma marc_access:
  assumes ok: "ok (Suc k) s"
  shows "marc_serves k ob w r0 s"
proof -
  note D = marc_okD [OF ok]
  define hit where "hit = (policy_cache_lookup P ob (ma_internal s) \<noteq> None)"
  define full where "full = policy_cache_is_full P (ma_internal s)"
  let ?a = "marc_abs s"
  from marc_set_ok [OF ok, of ob w] obtain t z where
    set: "marc_transaction_set P s (marc_transaction_init s ob w) = Inr (admitted full hit ob w ?a t z)"
    "unat t = spec_tabu (unat c) hit ?a" "unat z = spec_size (unat c) full hit ?a"
    unfolding hit_def full_def by blast
  from marc_set_ok [OF ok, of ob False] obtain t' z' where
    set': "marc_transaction_set P s (marc_transaction_init s ob False) = Inr (admitted full hit ob False ?a t' z')"
    unfolding hit_def full_def by blast
  let ?mt = "admitted full hit ob w ?a t z"
  have mt: "mx_oblock (admitted full hit ob u ?a x y) = ob" "mx_write (admitted full hit ob u ?a x y) = u"
    "mx_filter (admitted full hit ob u ?a x y) = spec_filters (unat c) full hit ob ?a" for u x y
    by (simp_all add: admitted_def observed_def)
  from marc_commit_own [where w = w and ob = ob, OF ok set(2,3)] obtain s2 where
    s2: "rbind (marc_commit_stats ?mt s) (marc_commit_ghost ?mt) = Inr s2" "ma_internal s2 = ma_internal s"
    and st2: "stats s2 = stats s"
    and fin: "\<And>s3 i st. ghost_ok c s3 = ghost_ok c s2 \<Longrightarrow> ghosts s3 = ghosts s2 \<Longrightarrow> ghost_q s3 = ghost_q s2 \<Longrightarrow>
        s3 = s2\<lparr>ma_internal := i, stats := st\<rparr> \<Longrightarrow> inv i \<Longrightarrow>
      \<exists>s'. (if (ucast (q_length (ghost_q s3)) :: u64) > ma_ghost_size s3 then marc_ghost_evict s3 else Inr s3) = Inr s' \<and>
        ok k s' \<and> marc_abs s' = spec_marc (unat c) full hit ob ?a \<and>
        ma_internal s' = ma_internal s3 \<and> stats s' = stats s3"
    by blast
  have commit: "marc_transaction_commit P ?mt r0 s = rbind (if \<not> spec_filters (unat c) full hit ob ?a then
              rbind (policy_map P ob w r0 (ma_internal s2)) (\<lambda>(rc, result, i).
              Inr (result, s2\<lparr>ma_internal := i\<rparr>))
            else Inr (r0\<lparr>r_op := CACHE_NUCLEUS_FILTER\<rparr>, upd_stats inc_filters s2)) (\<lambda>(result, s).
     rbind (if (ucast (q_length (ghost_q s)) :: u64) > ma_ghost_size s then marc_ghost_evict s else Inr s)
       (\<lambda>s. Inr (result, s)))"
  proof -
    obtain s1 where "marc_commit_stats ?mt s = Inr s1" "marc_commit_ghost ?mt s1 = Inr s2" using s2(1) by auto
    then show ?thesis unfolding marc_transaction_commit_def mt
      by (auto intro!: arg_cong [of _ _ "rbind _"] ext split: if_splits)
  qed
  show ?thesis
  proof (cases "spec_filters (unat c) full hit ob ?a")
    case True
    let ?s3 = "upd_stats inc_filters s2"
    have "?s3 = s2\<lparr>ma_internal := ma_internal s2, stats := inc_filters (stats s2)\<rparr>" by simp
    from fin [of ?s3, OF _ _ _ this] obtain s' where s': "(if (ucast (q_length (ghost_q ?s3)) :: u64) > ma_ghost_size ?s3
        then marc_ghost_evict ?s3 else Inr ?s3) = Inr s'" "ok k s'"
      "marc_abs s' = spec_marc (unat c) full hit ob ?a" "ma_internal s' = ma_internal ?s3" "stats s' = stats ?s3"
      using D(2) s2(2) by auto
    have "marc_transaction_commit P ?mt r0 s = Inr (r0\<lparr>r_op := CACHE_NUCLEUS_FILTER\<rparr>, s')"
      unfolding commit using True s'(1) by simp
    then have "marc_map_api P ob w r0 s = Inr (0, r0\<lparr>r_op := CACHE_NUCLEUS_FILTER\<rparr>, s')"
      using True set(1) by (simp add: marc_map_api_def marc_transaction_is_legal_def mt)
    moreover have "marc_next_victim_api P ob s = Inr (CACHE_NUCLEUS_FILTER, None)"
      using True set' by (simp add: marc_next_victim_api_def marc_transaction_is_legal_def mt)
    ultimately show ?thesis
      unfolding marc_serves_def Let_def hit_def [symmetric] full_def [symmetric] if_P [OF True]
      using s' st2 s2(2) by simp
  next
    case False
    obtain op v where v: "policy_next_victim P ob (ma_internal s) = Inr (op, v)"
      and agree: "succeeds (policy_map P ob w r0 (ma_internal s))
        (\<lambda>(rc, r, s'). op = CACHE_NUCLEUS_FAIL \<longleftrightarrow> r_op r = CACHE_NUCLEUS_FAIL)"
      using victim_law [OF D(2), of ob w r0] by (auto simp: succeeds_iff_Inr)
    obtain r i where m: "policy_map P ob w r0 (ma_internal s) = Inr (0, r, i)" "inv i"
      "map_effect ob r (mview P (ma_internal s)) (mview P i)"
      using map_law [OF D(2), of ob w r0] by (auto simp: succeeds_iff_Inr)
    have op: "op = CACHE_NUCLEUS_FAIL \<longleftrightarrow> r_op r = CACHE_NUCLEUS_FAIL" using agree m(1) by simp
    have nv: "marc_next_victim_api P ob s = Inr (op, if op = CACHE_NUCLEUS_FAIL then None else v)"
      using False set' v by (simp add: marc_next_victim_api_def marc_transaction_is_legal_def mt)
    show ?thesis
    proof (cases "op = CACHE_NUCLEUS_FAIL")
      case True
      then have "mview P (ma_internal s) ob = None" using m(3) op by (simp add: map_effect_def)
      then have "\<not> hit" by (simp add: hit_def lookup_view)
      moreover have "marc_map_api P ob w r0 s = Inr (0, r0\<lparr>r_op := CACHE_NUCLEUS_FAIL\<rparr>, s)"
        using False True v set(1) by (simp add: marc_map_api_def marc_transaction_is_legal_def mt)
      ultimately show ?thesis
        unfolding marc_serves_def Let_def hit_def [symmetric] full_def [symmetric] if_not_P [OF False]
        using v nv True by simp
    next
      case go: False
      let ?s3 = "s2\<lparr>ma_internal := i\<rparr>"
      have "?s3 = s2\<lparr>ma_internal := i, stats := stats s2\<rparr>" by simp
      from fin [of ?s3, OF _ _ _ this m(2)] obtain s' where s': "(if (ucast (q_length (ghost_q ?s3)) :: u64) > ma_ghost_size ?s3
          then marc_ghost_evict ?s3 else Inr ?s3) = Inr s'" "ok k s'"
        "marc_abs s' = spec_marc (unat c) full hit ob ?a" "ma_internal s' = ma_internal ?s3" "stats s' = stats ?s3"
        by auto
      have "marc_transaction_commit P ?mt r0 s = Inr (r, s')"
        unfolding commit using False s'(1) m(1) s2(2) by simp
      then have "marc_map_api P ob w r0 s = Inr (0, r, s')"
        using False go v set(1) by (simp add: marc_map_api_def marc_transaction_is_legal_def mt)
      then show ?thesis
        unfolding marc_serves_def Let_def hit_def [symmetric] full_def [symmetric] if_not_P [OF False]
        using v nv go s' op m(1) st2 by simp
    qed
  qed
qed

end

end
