(* ===== verification/Marc_Props.thy ===== *)
theory Marc_Props
  imports Marc_Access Arc_Props
begin

text \<open>
  mARC keeps the metered contract of a policy, over any policy that keeps the contract and over ARC in
  particular; its creation, runs of the simulator whose blocks all fit the cache, computed in abstract states, and its properties.
\<close>

section \<open>The contract\<close>

lemma marc_calls:
  "policy_map (marc_api P) = marc_map_api P" "policy_migrated (marc_api P) = marc_migrated_api P"
  "policy_next_victim (marc_api P) = marc_next_victim_api P"
  "policy_set_time (marc_api P) = marc_set_time_api P" "policy_residency (marc_api P) = marc_residency_api P"
  "policy_cache_is_full (marc_api P) = marc_cache_is_full_api P"
  "policy_cache_lookup (marc_api P) = marc_cache_lookup_api P"
  "policy_cblock_lookup (marc_api P) = marc_cblock_lookup_api P"
  by (simp_all add: policy_calls marc_api_def fun_eq_iff)

lemma marc_pview: "pview (marc_api P) s = pview P (ma_internal s)"
proof -
  have "fn_entry (marc_api P) s = fn_entry P (ma_internal s)" by (simp add: marc_api_def)
  then show ?thesis by (intro ext) (simp add: pview_def marc_calls marc_cache_lookup_api_def split: option.split)
qed

lemma marc_located: "located (marc_api P) ob r s = located P ob r (ma_internal s)"
  by (simp add: located_def marc_calls marc_cache_lookup_api_def marc_cblock_lookup_api_def)

lemma marc_internal_ok: "marc_ok I c k s \<Longrightarrow> I i \<Longrightarrow> marc_ok I c k (s\<lparr>ma_internal := i\<rparr>)"
  by (simp add: marc_ok_def)

lemma marc_time_ok: "marc_ok I c k s \<Longrightarrow> marc_ok I c k (s\<lparr>cn_time := t\<rparr>)"
  by (simp add: marc_ok_def ghost_ok_def cn_ok_def)

lemma marc_spend: "marc_ok I c (Suc k) s \<Longrightarrow> marc_ok I c k s"
  by (simp add: marc_ok_def phase_ok_def)

context marc_over
begin

lemma marc_map_contract:
  assumes ok: "ok (Suc k) s"
  shows "succeeds (marc_map_api P ob w r0 s) (\<lambda>(rc, r, s'). rc = 0 \<and> ok k s' \<and>
      map_effect ob r (mview P (ma_internal s)) (mview P (ma_internal s')) \<and> located P ob r (ma_internal s')) \<and>
    succeeds (marc_next_victim_api P ob s) (\<lambda>(op, v). succeeds (marc_map_api P ob w r0 s) (\<lambda>(rc, r, s').
      op = CACHE_NUCLEUS_FAIL \<longleftrightarrow> r_op r = CACHE_NUCLEUS_FAIL))"
proof -
  note D = marc_okD [OF ok]
  let ?i = "ma_internal s"
  have none: "policy_cache_lookup P ob ?i = None \<Longrightarrow> mview P ?i ob = None" by (simp add: lookup_view)
  have law: "policy_map P ob w r0 ?i = Inr (0, r, i) \<Longrightarrow>
      map_effect ob r (mview P ?i) (mview P i) \<and> located P ob r i" for r i
    by (intro conjI map_lawD(3,4) [OF D(2)])
  note A = marc_access [OF ok, of ob w r0, unfolded marc_serves_def Let_def]
  show ?thesis
  proof (cases "spec_filters (unat c) (policy_cache_is_full P ?i) (policy_cache_lookup P ob ?i \<noteq> None) ob (marc_abs s)")
    case True
    obtain s' where s': "marc_next_victim_api P ob s = Inr (CACHE_NUCLEUS_FILTER, None)"
      "marc_map_api P ob w r0 s = Inr (0, r0\<lparr>r_op := CACHE_NUCLEUS_FILTER\<rparr>, s')" "ok k s'" "ma_internal s' = ?i"
      using A [unfolded if_P [OF True]] by blast
    have "policy_cache_lookup P ob ?i = None" using True unfolding spec_filters_def by blast
    then have "mview P ?i ob = None" by (rule none)
    then show ?thesis unfolding s'(1,2) using s'(3,4) by (simp add: map_effect_def located_def)
  next
    case False
    obtain op v where 1: "policy_next_victim P ob ?i = Inr (op, v)"
      "if op = CACHE_NUCLEUS_FAIL
         then marc_next_victim_api P ob s = Inr (CACHE_NUCLEUS_FAIL, None) \<and> \<not> (policy_cache_lookup P ob ?i \<noteq> None) \<and>
           marc_map_api P ob w r0 s = Inr (0, r0\<lparr>r_op := CACHE_NUCLEUS_FAIL\<rparr>, s)
         else marc_next_victim_api P ob s = Inr (op, v) \<and>
           (\<exists>r i' s'. policy_map P ob w r0 ?i = Inr (0, r, i') \<and> r_op r \<noteq> CACHE_NUCLEUS_FAIL \<and>
             marc_map_api P ob w r0 s = Inr (0, r, s') \<and> ok k s' \<and> ma_internal s' = i' \<and>
             marc_abs s' = spec_marc (unat c) (policy_cache_is_full P ?i) (policy_cache_lookup P ob ?i \<noteq> None) ob (marc_abs s) \<and>
             stats s' = stats s)"
      using A [unfolded if_not_P [OF False]] by blast
    show ?thesis
    proof (cases "op = CACHE_NUCLEUS_FAIL")
      case True
      then have f: "marc_next_victim_api P ob s = Inr (CACHE_NUCLEUS_FAIL, None)"
        "policy_cache_lookup P ob ?i = None" "marc_map_api P ob w r0 s = Inr (0, r0\<lparr>r_op := CACHE_NUCLEUS_FAIL\<rparr>, s)"
        using 1(2) by simp_all
      then show ?thesis unfolding f(1,3) using none [OF f(2)] marc_spend [OF ok] by (simp add: map_effect_def located_def)
    next
      case go: False
      then obtain r i' s' where "policy_map P ob w r0 ?i = Inr (0, r, i')" "r_op r \<noteq> CACHE_NUCLEUS_FAIL"
        "marc_map_api P ob w r0 s = Inr (0, r, s')" "ok k s'" "ma_internal s' = i'"
        "marc_next_victim_api P ob s = Inr (op, v)" using 1(2) unfolding if_not_P [OF go] by blast
      then show ?thesis using law go by simp
    qed
  qed
qed

lemma marc_keeps_contract: "metered_policy (marc_api P) ok cap"
proof
  fix s :: "'a marc_policy" and ob w r0 t e m m' ob' k
  note view = marc_pview
  show "ok (Suc k) s \<Longrightarrow> ok k s" by (rule marc_spend)
  show "ok (Suc k) s \<Longrightarrow> succeeds (policy_map (marc_api P) ob w r0 s) (\<lambda>(rc, r, s').
      rc = 0 \<and> ok k s' \<and> map_effect ob r (mview (marc_api P) s) (mview (marc_api P) s') \<and>
      located (marc_api P) ob r s')"
    using marc_map_contract [of k s ob w r0] by (simp add: marc_calls view marc_located)
  show "ok (Suc k) s \<Longrightarrow> succeeds (policy_next_victim (marc_api P) ob s) (\<lambda>(op, v).
      succeeds (policy_map (marc_api P) ob w r0 s) (\<lambda>(rc, r, s').
        op = CACHE_NUCLEUS_FAIL \<longleftrightarrow> r_op r = CACHE_NUCLEUS_FAIL))"
    using marc_map_contract [of k s ob w r0] by (simp add: marc_calls)
  assume ok: "ok k s"
  note D = marc_okD [OF ok]
  show "mview (marc_api P) s ob = Some (e, True) \<Longrightarrow> succeeds (policy_migrated (marc_api P) ob s)
      (\<lambda>s'. ok k s' \<and> mview (marc_api P) s' = (mview (marc_api P) s)(ob \<mapsto> (e, False)))"
    using migrated_law [OF D(2), of ob e] marc_internal_ok [OF ok]
    by (auto simp: marc_calls marc_migrated_api_def view succeeds_iff_Inr)
  show "ok k (policy_set_time (marc_api P) t s) \<and>
      mview (marc_api P) (policy_set_time (marc_api P) t s) = mview (marc_api P) s"
    using time_law [OF D(2), of t] marc_time_ok [OF marc_internal_ok [OF ok], of "policy_set_time P t (ma_internal s)" t]
    by (simp add: marc_calls marc_set_time_api_def view)
  show "mview (marc_api P) s ob = Some (e, m) \<Longrightarrow> mview (marc_api P) s ob' = Some (e, m') \<Longrightarrow> ob = ob'"
    unfolding view by (rule inj_law [OF D(2)])
  show "finite (dom (mview (marc_api P) s)) \<and> card (dom (mview (marc_api P) s)) \<le> cap"
    unfolding view by (rule cap_law [OF D(2)])
  show "policy_residency (marc_api P) s = of_nat (card (dom (mview (marc_api P) s)))"
    unfolding view marc_calls marc_residency_api_def by (rule residency_law [OF D(2)])
  show "policy_cache_is_full (marc_api P) s \<longleftrightarrow> card (dom (mview (marc_api P) s)) = cap"
    unfolding view marc_calls marc_cache_is_full_api_def by (rule full_law [OF D(2)])
qed

end

sublocale marc_over \<subseteq> marc: metered_policy "marc_api P" ok cap
  by (rule marc_keeps_contract)

section \<open>Creation\<close>

lemma marc_init_ok:
  assumes "10 \<le> unat c" "unat c < 2 ^ 31" "I i"
  shows "\<exists>s. marc_init c m i (zero_marc i) = Inr s \<and> ma_internal s = i \<and> (\<forall>k < 2 ^ 57. marc_ok I c k s) \<and>
    marc_abs s = \<lparr>as_state = UNSTABLE, as_tabu = 2 * unat c, as_size = unat c, as_ghost = [], as_sample = [],
      as_hits = 0, as_ios = 0\<rparr>"
proof -
  let ?s0 = "(zero_marc i)\<lparr>meta_pool := epool_create MetaRegion c\<rparr>"
  have wb0: "wb ?s0 = (\<lambda>_. [])" and cp0: "cache_pool ?s0 = epool_create CacheRegion 0"
    and mp0: "meta_pool ?s0 = epool_create MetaRegion c" by (simp_all add: zero_marc_def)
  from policy_init_ok [OF cp0 mp0 wb0, of 0 m CACHE_NUCLEUS_SINGLE_THREAD] obtain s1 cp mp where
    s1: "policy_init 0 m CACHE_NUCLEUS_SINGLE_THREAD ?s0 = Inr s1" "cn_ok s1" "ht s1 = []"
    and eq: "s1 = ?s0\<lparr>store := store s1, cache_pool := cp, meta_pool := mp, stats := stats_init, ht := [],
           cache_size := 0, meta_size := m, thread_support := CACHE_NUCLEUS_SINGLE_THREAD, cn_time := 0\<rparr>"
    and nr: "ep_nr_entries cp = 0" "ep_nr_entries mp = c" by blast
  have pools: "cache_pool s1 = cp" "meta_pool s1 = mp" by (subst eq, simp)+
  define s where "s = s1\<lparr>ma_internal := i, ma_TABU := ucast c, ma_tabu_counter := 2 * ucast c, ma_state := UNSTABLE,
            ghost_q := [], ma_ghost_size := ucast c, ma_ghost_hits := 0, ma_ghost_hits_old := 0,
            ma_sample := window_stats_init c (ma_sample s1),
            ma_sample_avg := window_stats_init 1 (ma_sample_avg s1),
            ma_phase_hits := 0, ma_phase_ios := 0\<rparr>"
  have run: "marc_init c m i (zero_marc i) = Inr s"
    using s1(1) by (simp add: marc_init_def Let_def s_def)
  have c0: "0 < c" using assms(1) by (simp add: word_less_nat_alt)
  note W = window_init_ok [OF c0 assms(2), of "ma_sample s1"] and W1 = window_init_ok [of 1 "ma_sample_avg s1"]
  have t: "unat (2 * ucast c :: u64) = 2 * unat c" using assms(2) by (subst unat_mult_small) simp_all
  have f: "ghost_q s = []" "ma_internal s = i" "ma_TABU s = ucast c" "ma_tabu_counter s = 2 * ucast c"
    "ma_state s = UNSTABLE" "ma_ghost_size s = ucast c" "ma_sample s = window_stats_init c (ma_sample s1)"
    "ma_sample_avg s = window_stats_init 1 (ma_sample_avg s1)" "ma_phase_hits s = 0" "ma_phase_ios s = 0"
    "cache_pool s = cp" "meta_pool s = mp" "ht s = []"
    using pools s1(3) by (simp_all add: s_def)
  have "cn_ok s" using s1(2) by (simp add: s_def cn_ok_def)
  then have "ghost_ok c s" using nr f by (simp add: ghost_ok_def)
  then have "marc_ok I c k s" if "k < 2 ^ 57" for k
    using that assms(3) W W1 t unfolding marc_ok_def f sample_ok_def phase_ok_def size_ok_def by simp
  moreover have "marc_abs s = \<lparr>as_state = UNSTABLE, as_tabu = 2 * unat c, as_size = unat c, as_ghost = [], as_sample = [],
      as_hits = 0, as_ios = 0\<rparr>"
    unfolding marc_abs_def f W(2) using t by simp
  ultimately show ?thesis using run f(2) by blast
qed

section \<open>mARC over ARC\<close>

abbreviation arc_inside :: "cblock \<Rightarrow> cblock \<Rightarrow> arc_policy \<Rightarrow> bool" where
  "arc_inside c m s \<equiv> arc_ok c m s \<and> 10 \<le> unat c"

interpretation marc_arc: marc_over arc_api "arc_inside c m" "unat c" c for c m
proof (rule marc_over.intro)
  show "access_policy arc_api (arc_inside c m) (unat c)"
    using arc_access_policy [of c m] by (auto simp: access_policy_def)
  show "marc_over_axioms arc_api (arc_inside c m) (unat c) c"
  proof
    fix s assume s: "arc_inside c m s"
    note B = arc_baseD [OF arc_okD(1) [OF s [THEN conjunct1]]]
    show "fn_cache_size arc_api s = c" using B(5) by (simp add: arc_api_def nucleus_api_def)
    show "10 \<le> unat c \<and> unat c < 2 ^ 31" using s B(4) by simp
  qed simp
qed

lemma marc_started:
  assumes "10 \<le> unat c" "3 * unat c < 2 ^ 32" "unat c \<le> unat m"
  shows "\<exists>s. marc_create c m arc_create = Inr s \<and> (\<forall>k < 2 ^ 57. marc_ok (arc_inside c m) c k s) \<and>
    mview (marc_api arc_api) s = Map.empty \<and>
    marc_abs s = \<lparr>as_state = UNSTABLE, as_tabu = 2 * unat c, as_size = unat c, as_ghost = [], as_sample = [],
      as_hits = 0, as_ios = 0\<rparr> \<and>
    arc_abs (ma_internal s) = \<lparr>aq = (\<lambda>_. []), aw = (\<lambda>_. {}), ap = 0\<rparr>"
proof -
  have c2: "2 \<le> c" "unat c < 2 ^ 31" using assms(1,2) by (simp_all add: word_le_nat_alt)
  obtain i where i: "arc_create c m = Inr i" "arc_ok c m i" "mview arc_api i = Map.empty"
    "arc_abs i = \<lparr>aq = (\<lambda>_. []), aw = (\<lambda>_. {}), ap = 0\<rparr>"
    using arc_started [OF c2(1) assms(2,3)] by blast
  from marc_init_ok [where I = "arc_inside c m" and m = m, OF assms(1) c2(2), of i] i(2) assms(1)
  obtain s where "marc_init c m i (zero_marc i) = Inr s" "ma_internal s = i" "\<forall>k < 2 ^ 57. marc_ok (arc_inside c m) c k s"
    "marc_abs s = \<lparr>as_state = UNSTABLE, as_tabu = 2 * unat c, as_size = unat c, as_ghost = [], as_sample = [],
      as_hits = 0, as_ios = 0\<rparr>" by blast
  then show ?thesis using i(1,3,4) by (simp add: marc_create_def marc_pview)
qed

text \<open>An access to mARC over ARC, with the access to ARC it stands for.\<close>

lemma marc_arc_map:
  assumes "marc_ok (arc_inside c m) c k s"
  obtains ri i' where "policy_map arc_api ob w r0 (ma_internal s) = Inr (0, ri, i')"
    "spec_arc (unat c) ob (arc_abs (ma_internal s)) = (r_op ri, evicted ri, arc_abs i')"
proof -
  have "arc_ok c m (ma_internal s)" using marc_okD(2) [OF assms] by simp
  from arc_access [OF this, of ob w r0] that show ?thesis
    unfolding arc_serves_def by (auto simp: policy_calls arc_api_def nucleus_api_def)
qed

lemma marc_arc_access:
  assumes ok: "marc_ok (arc_inside c m) c (Suc k) s"
    and ri: "policy_map arc_api ob w r0 (ma_internal s) = Inr (0, ri, i')"
  defines "full \<equiv> policy_cache_is_full arc_api (ma_internal s)"
    and "hit \<equiv> policy_cache_lookup arc_api ob (ma_internal s) \<noteq> None"
  shows "\<exists>r s'. marc_map_api arc_api ob w r0 s = Inr (0, r, s') \<and> marc_ok (arc_inside c m) c k s' \<and>
    (if spec_filters (unat c) full hit ob (marc_abs s)
     then r = r0\<lparr>r_op := CACHE_NUCLEUS_FILTER\<rparr> \<and> ma_internal s' = ma_internal s \<and>
       marc_abs s' = spec_marc (unat c) full hit ob (marc_abs s)
     else if r_op ri = CACHE_NUCLEUS_FAIL then r = r0\<lparr>r_op := CACHE_NUCLEUS_FAIL\<rparr> \<and> \<not> hit \<and> s' = s
     else r = ri \<and> ma_internal s' = i' \<and> marc_abs s' = spec_marc (unat c) full hit ob (marc_abs s))"
proof (cases "spec_filters (unat c) full hit ob (marc_abs s)")
  case True
  show ?thesis using marc_arc.marc_access [OF ok, of ob w r0, unfolded marc_arc.marc_serves_def Let_def,
      folded full_def hit_def, unfolded if_P [OF True]] unfolding if_P [OF True] by blast
next
  case False
  obtain op v where v: "policy_next_victim arc_api ob (ma_internal s) = Inr (op, v)"
    "if op = CACHE_NUCLEUS_FAIL
     then marc_next_victim_api arc_api ob s = Inr (CACHE_NUCLEUS_FAIL, None) \<and> \<not> hit \<and>
       marc_map_api arc_api ob w r0 s = Inr (0, r0\<lparr>r_op := CACHE_NUCLEUS_FAIL\<rparr>, s)
     else marc_next_victim_api arc_api ob s = Inr (op, v) \<and>
       (\<exists>r i' s'. policy_map arc_api ob w r0 (ma_internal s) = Inr (0, r, i') \<and> r_op r \<noteq> CACHE_NUCLEUS_FAIL \<and>
         marc_map_api arc_api ob w r0 s = Inr (0, r, s') \<and> marc_ok (arc_inside c m) c k s' \<and> ma_internal s' = i' \<and>
         marc_abs s' = spec_marc (unat c) full hit ob (marc_abs s) \<and> stats s' = stats s)"
    using marc_arc.marc_access [OF ok, of ob w r0, unfolded marc_arc.marc_serves_def Let_def,
      folded full_def hit_def, unfolded if_not_P [OF False]] by blast
  have fail: "op = CACHE_NUCLEUS_FAIL \<longleftrightarrow> r_op ri = CACHE_NUCLEUS_FAIL"
    using marc_arc.victim_law [OF marc_okD(2) [OF ok], of ob w r0] v(1) ri by simp
  show ?thesis
  proof (cases "op = CACHE_NUCLEUS_FAIL")
    case True
    then show ?thesis using v(2) fail marc_spend [OF ok] unfolding if_not_P [OF False] by auto
  next
    case go: False
    obtain r s' where "policy_map arc_api ob w r0 (ma_internal s) = Inr (0, r, ma_internal s')"
      "marc_map_api arc_api ob w r0 s = Inr (0, r, s')" "marc_ok (arc_inside c m) c k s'"
      "marc_abs s' = spec_marc (unat c) full hit ob (marc_abs s)"
      using v(2) [unfolded if_not_P [OF go]] by blast
    then show ?thesis using ri fail go unfolding if_not_P [OF False] by (intro exI [of _ r] exI [of _ s']) simp
  qed
qed

text \<open>
  A calm run of the simulator over mARC in front of ARC: no delay, no sampling, no removals, and fewer blocks than the
  cache holds. The abstract state is computed access by access; \<open>t1\<close> and \<open>t2\<close> are the lists of ARC.
\<close>

definition calm_opts :: sim_options where
  "calm_opts = \<lparr>opt_sampling_rate = 1, opt_migration_delay = 0, opt_remove_rate = 0\<rparr>"

definition calm :: "cblock \<Rightarrow> cblock \<Rightarrow> nat \<Rightarrow> marc_spec \<Rightarrow> oblock list \<Rightarrow> oblock list \<Rightarrow> arc_policy marc_policy sim \<Rightarrow> bool" where
  "calm c m k a t1 t2 st \<longleftrightarrow> marc_ok (arc_inside c m) c k (sm_policy st) \<and> marc_abs (sm_policy st) = a \<and>
     arc_abs (ma_internal (sm_policy st)) = \<lparr>aq = (\<lambda>_. [])(ARC_T1 := t1, ARC_T2 := t2), aw = (\<lambda>_. {}), ap = 0\<rparr>"

fun calm_run :: "nat \<Rightarrow> oblock list \<Rightarrow> marc_spec \<times> oblock list \<times> oblock list \<Rightarrow> (marc_spec \<times> oblock list \<times> oblock list) option" where
  "calm_run c [] x = Some x"
| "calm_run c (ob # obs) (a, t1, t2) =
     (if length t1 + length t2 < c then
        calm_run c obs
          (if ob \<in> set (t1 @ t2) then (spec_marc c False True ob a, remove1 ob t1, remove1 ob t2 @ [ob])
           else (spec_marc c False False ob a, t1 @ [ob], t2))
      else None)"

lemma arc_cached_iff:
  assumes ok: "arc_ok c m s"
  shows "policy_cache_lookup arc_api ob s \<noteq> None \<longleftrightarrow> (\<exists>l \<in> {ARC_T1, ARC_T2}. ob \<in> set (aq (arc_abs s) l) \<union> aw (arc_abs s) l)"
    "policy_cache_lookup arc_api ob s = Some e \<Longrightarrow> e_migrating (fn_entry arc_api s e) \<Longrightarrow>
      \<exists>l \<in> {ARC_T1, ARC_T2}. ob \<in> aw (arc_abs s) l"
    "policy_cache_is_full arc_api s \<longleftrightarrow> alen (arc_abs s) ARC_T1 + alen (arc_abs s) ARC_T2 = unat c"
proof -
  note O = arc_okD(1) [OF ok]
  have l: "policy_cache_lookup arc_api ob s = Some e \<longleftrightarrow>
      ht_lookup ob s = Some e \<and> (a_loc (store s e) = ARC_T1 \<or> a_loc (store s e) = ARC_T2)" for e
  proof (cases "ht_lookup ob s = Some e")
    case True
    then have e: "e \<in> set (ht s)" using lookup_Some [OF arc_baseD(1) [OF O]] by blast
    show ?thesis using True arc_region(1) [OF O e] cn_in_cache [OF arc_baseD(1) [OF O] e]
      by (auto simp: policy_calls arc_api_def nucleus_api_def default_cache_lookup_def in_cache_def)
  qed (auto simp: policy_calls arc_api_def nucleus_api_def default_cache_lookup_def Let_def)
  then show "policy_cache_lookup arc_api ob s \<noteq> None \<longleftrightarrow> (\<exists>l \<in> {ARC_T1, ARC_T2}. ob \<in> set (aq (arc_abs s) l) \<union> aw (arc_abs s) l)"
    unfolding Un_iff arc_lookup [OF O] by (auto simp: l)
  show "policy_cache_lookup arc_api ob s = Some e \<Longrightarrow> e_migrating (fn_entry arc_api s e) \<Longrightarrow>
      \<exists>l \<in> {ARC_T1, ARC_T2}. ob \<in> aw (arc_abs s) l"
    unfolding l arc_lookup [OF O] by (auto simp: arc_api_def nucleus_api_def entry.defs)
  show "policy_cache_is_full arc_api s \<longleftrightarrow> alen (arc_abs s) ARC_T1 + alen (arc_abs s) ARC_T2 = unat c"
    using arc_full(1) [OF O] by (simp add: policy_calls arc_api_def nucleus_api_def default_cache_is_full_def)
qed

text \<open>The clock, and the end of the migration of the only block on its way.\<close>

lemma marc_abs_internal: "marc_abs (s\<lparr>ma_internal := i\<rparr>) = marc_abs s"
  by (cases s) (simp add: marc_abs_def)

lemma marc_abs_time: "marc_abs (s\<lparr>cn_time := t\<rparr>) = marc_abs s"
  by (cases s) (simp add: marc_abs_def)

lemma arc_abs_time: "arc_abs (i\<lparr>cn_time := t\<rparr>) = arc_abs i"
  by (cases i) (simp add: arc_abs_def)

lemma marc_set_time_fields:
  "marc_set_time_api P t s = s\<lparr>ma_internal := policy_set_time P t (ma_internal s)\<rparr>\<lparr>cn_time := t\<rparr>"
  "ma_internal (marc_set_time_api P t s) = policy_set_time P t (ma_internal s)"
  by (cases s, simp add: marc_set_time_api_def)+

lemma marc_clock:
  assumes "marc_ok (arc_inside c m) c k s"
  shows "marc_ok (arc_inside c m) c k (policy_set_time (marc_api arc_api) t s)"
    "marc_abs (policy_set_time (marc_api arc_api) t s) = marc_abs s"
    "arc_abs (ma_internal (policy_set_time (marc_api arc_api) t s)) = arc_abs (ma_internal s)"
proof -
  show "marc_ok (arc_inside c m) c k (policy_set_time (marc_api arc_api) t s)"
    using marc_arc.marc.clocked_law [OF assms, of t] by blast
  have t: "policy_set_time arc_api t i = i\<lparr>cn_time := t\<rparr>" for i
    by (simp add: policy_calls arc_api_def nucleus_api_def default_set_time_def)
  show "marc_abs (policy_set_time (marc_api arc_api) t s) = marc_abs s"
    "arc_abs (ma_internal (policy_set_time (marc_api arc_api) t s)) = arc_abs (ma_internal s)"
    unfolding marc_calls marc_set_time_fields(2) t arc_abs_time
    unfolding marc_set_time_fields(1) marc_abs_time marc_abs_internal by (rule refl)+
qed

lemma marc_arrives:
  assumes ok: "marc_ok (arc_inside c m) c k s"
    and a: "arc_abs (ma_internal s) = \<lparr>aq = (\<lambda>_. [])(ARC_T1 := t1, ARC_T2 := t2), aw = (\<lambda>_. {})(ARC_T1 := {ob}), ap = 0\<rparr>"
    and new: "ob \<notin> set (t1 @ t2)"
  shows "\<exists>s'. policy_migrated (marc_api arc_api) ob s = Inr s' \<and> marc_ok (arc_inside c m) c k s' \<and> marc_abs s' = marc_abs s \<and>
    arc_abs (ma_internal s') = \<lparr>aq = (\<lambda>_. [])(ARC_T1 := t1 @ [ob], ARC_T2 := t2), aw = (\<lambda>_. {}), ap = 0\<rparr>"
proof -
  let ?i = "ma_internal s"
  have i: "arc_ok c m ?i" "10 \<le> unat c" using marc_okD(2) [OF ok] by simp_all
  note O = arc_okD(1) [OF i(1)]
  have "ob \<in> aw (arc_abs ?i) ARC_T1" by (simp add: a)
  then obtain e where e: "ht_lookup ob ?i = Some e" "a_loc (store ?i e) = ARC_T1" "e_migrating (store ?i e)"
    using arc_lookup(2) [OF O] by blast
  then have m: "e \<in> set (ht ?i)" "e_oblock (store ?i e) = ob" using lookup_Some [OF arc_baseD(1) [OF O]] by blast+
  have "fst e = CacheRegion" using arc_region(1) [OF O m(1)] e(2) by simp
  then have "cview (ht ?i) (store ?i) ob = Some (e, True, e_dirty (store ?i e))"
    using cview_entry [OF arc_keys [OF O] m(1)] m(2) e(3) by simp
  from arc_migrated_ok [OF i(1) this] obtain l i' where
    i': "arc_migrated_api ob ?i = Inr i'" "arc_ok c m i'" "ob \<in> aw (arc_abs ?i) l"
    "arc_abs i' = spec_add l ob (spec_drop ob (arc_abs ?i))" by blast
  have "l = ARC_T1" using i'(3) by (simp add: a split: if_splits)
  then have "arc_abs i' = \<lparr>aq = (\<lambda>_. [])(ARC_T1 := t1 @ [ob], ARC_T2 := t2), aw = (\<lambda>_. {}), ap = 0\<rparr>"
    using new by (simp add: i'(4) a spec_add_def spec_drop_def fun_eq_iff remove1_idem)
  moreover have "policy_migrated (marc_api arc_api) ob s = Inr (s\<lparr>ma_internal := i'\<rparr>)"
    using i'(1) by (simp add: marc_calls marc_migrated_api_def policy_calls arc_api_def nucleus_api_def)
  moreover have "marc_ok (arc_inside c m) c k (s\<lparr>ma_internal := i'\<rparr>)"
    by (rule marc_internal_ok [OF ok]) (use i'(2) i(2) in simp)
  ultimately show ?thesis using marc_abs_internal [of i' s]
    by (intro exI [of _ "s\<lparr>ma_internal := i'\<rparr>"]) simp
qed

lemma calm_arc:
  assumes "length t1 + length t2 < c"
  shows "spec_arc c ob \<lparr>aq = (\<lambda>_. [])(ARC_T1 := t1, ARC_T2 := t2), aw = (\<lambda>_. {}), ap = 0\<rparr> =
    (if ob \<in> set (t1 @ t2)
     then (CACHE_NUCLEUS_HIT, None, \<lparr>aq = (\<lambda>_. [])(ARC_T1 := remove1 ob t1, ARC_T2 := remove1 ob t2 @ [ob]), aw = (\<lambda>_. {}), ap = 0\<rparr>)
     else (CACHE_NUCLEUS_NEW, None, \<lparr>aq = (\<lambda>_. [])(ARC_T1 := t1, ARC_T2 := t2), aw = (\<lambda>_. {})(ARC_T1 := {ob}), ap = 0\<rparr>))"
  using assms by (auto simp: spec_arc_def spec_add_def spec_drop_def spec_admit_def alen_def Let_def fun_eq_iff)

lemma calm_serve:
  fixes ob :: oblock
  assumes st: "calm c m (Suc k) a t1 t2 st" and room: "length t1 + length t2 < unat c"
  defines "hit \<equiv> ob \<in> set (t1 @ t2)"
  shows "\<exists>st'. sim_serve (marc_api arc_api) rnd calm_opts time ob w st = Inr st' \<and>
    calm c m k (spec_marc (unat c) False hit ob a) (if hit then remove1 ob t1 else t1 @ [ob])
      (if hit then remove1 ob t2 @ [ob] else t2) st'"
proof -
  define s where "s = policy_set_time (marc_api arc_api) time (sm_policy st)"
  define empty where "empty = \<lparr>aq = (\<lambda>_. [])(ARC_T1 := t1, ARC_T2 := t2), aw = (\<lambda>_. {} :: oblock set), ap = 0\<rparr>"
  have s: "marc_ok (arc_inside c m) c (Suc k) s" "marc_abs s = a" "arc_abs (ma_internal s) = empty"
    using st marc_clock [of c m "Suc k" "sm_policy st" time] unfolding calm_def s_def empty_def by simp_all
  have i: "arc_ok c m (ma_internal s)" using marc_okD(2) [OF s(1)] by simp
  have full: "policy_cache_is_full arc_api (ma_internal s) = False"
    unfolding arc_cached_iff(3) [OF i] s(3) using room by (simp add: empty_def alen_def)
  have hit: "(policy_cache_lookup arc_api ob (ma_internal s) \<noteq> None) = hit"
    unfolding arc_cached_iff(1) [OF i] s(3) by (auto simp: empty_def hit_def)
  have still: "\<not> (case policy_cache_lookup (marc_api arc_api) ob s of None \<Rightarrow> False
      | Some e \<Rightarrow> e_migrating (fn_entry (marc_api arc_api) s e))"
  proof
    assume m: "case policy_cache_lookup (marc_api arc_api) ob s of None \<Rightarrow> False
      | Some e \<Rightarrow> e_migrating (fn_entry (marc_api arc_api) s e)"
    have "fn_entry (marc_api arc_api) s = fn_entry arc_api (ma_internal s)" by (simp add: marc_api_def)
    with m obtain e where "policy_cache_lookup arc_api ob (ma_internal s) = Some e"
      "e_migrating (fn_entry arc_api (ma_internal s) e)"
      by (auto simp: marc_calls marc_cache_lookup_api_def split: option.splits)
    from arc_cached_iff(2) [OF i this] show False unfolding s(3) by (simp add: empty_def)
  qed
  obtain ri i' where ri: "policy_map arc_api ob w zero_result (ma_internal s) = Inr (0, ri, i')"
    "spec_arc (unat c) ob (arc_abs (ma_internal s)) = (r_op ri, evicted ri, arc_abs i')"
    by (rule marc_arc_map [OF s(1)])
  have arc: "r_op ri = (if hit then CACHE_NUCLEUS_HIT else CACHE_NUCLEUS_NEW)"
    "arc_abs i' = (if hit then \<lparr>aq = (\<lambda>_. [])(ARC_T1 := remove1 ob t1, ARC_T2 := remove1 ob t2 @ [ob]), aw = (\<lambda>_. {}), ap = 0\<rparr>
      else \<lparr>aq = (\<lambda>_. [])(ARC_T1 := t1, ARC_T2 := t2), aw = (\<lambda>_. {})(ARC_T1 := {ob}), ap = 0\<rparr>)"
    using ri(2) unfolding s(3) empty_def calm_arc [OF room] hit_def [symmetric] by (simp_all split: if_splits)
  have "\<not> spec_filters (unat c) False hit ob (marc_abs s)" "r_op ri \<noteq> CACHE_NUCLEUS_FAIL"
    by (simp_all add: spec_filters_def arc(1))
  with marc_arc_access [OF s(1) ri(1)] obtain s' where
    s': "marc_map_api arc_api ob w zero_result s = Inr (0, ri, s')" "marc_ok (arc_inside c m) c k s'"
      "ma_internal s' = i'" "marc_abs s' = spec_marc (unat c) False hit ob a"
    unfolding full hit s(2) by auto
  let ?st = "st\<lparr>sm_policy := s\<rparr>"
  have now: "sm_policy ?st = s" by (cases st) simp
  obtain ss where map: "sim_map (marc_api arc_api) ob w zero_result ?st = Inr (ri, ?st\<lparr>sm_policy := s', sm_stats := ss\<rparr>)"
    using sim_map_policy [where P = "marc_api arc_api" and ob = ob and st = ?st and w = w and ?r0.0 = zero_result
        and r = ri and s = s', unfolded now, OF still] s'(1) by (simp add: marc_calls)
  have rem: "sim_removal (marc_api arc_api) rnd calm_opts time ob st2 = Inr st2" for st2
    by (simp add: sim_removal_def remove_now_def calm_opts_def)
  obtain s2 where s2: "sim_migrate (marc_api arc_api) calm_opts time ob ri (?st\<lparr>sm_policy := s', sm_stats := ss\<rparr>) =
      Inr (?st\<lparr>sm_policy := s2, sm_stats := ss\<rparr>)"
    "marc_ok (arc_inside c m) c k s2" "marc_abs s2 = spec_marc (unat c) False hit ob a"
    "arc_abs (ma_internal s2) = \<lparr>aq = (\<lambda>_. [])(ARC_T1 := if hit then remove1 ob t1 else t1 @ [ob],
       ARC_T2 := if hit then remove1 ob t2 @ [ob] else t2), aw = (\<lambda>_. {}), ap = 0\<rparr>"
  proof (cases hit)
    case True
    have "sim_migrate (marc_api arc_api) calm_opts time ob ri (?st\<lparr>sm_policy := s', sm_stats := ss\<rparr>) =
        Inr (?st\<lparr>sm_policy := s', sm_stats := ss\<rparr>)"
      by (simp add: sim_migrate_def calm_opts_def entered_def arc(1) True)
    then show thesis by (rule that [of s']) (simp_all add: s' arc(2) True)
  next
    case False
    have "arc_abs (ma_internal s') = \<lparr>aq = (\<lambda>_. [])(ARC_T1 := t1, ARC_T2 := t2), aw = (\<lambda>_. {})(ARC_T1 := {ob}), ap = 0\<rparr>"
      by (simp add: s'(3) arc(2) False)
    from marc_arrives [OF s'(2) this] obtain s2 where
      s2: "policy_migrated (marc_api arc_api) ob s' = Inr s2" "marc_ok (arc_inside c m) c k s2" "marc_abs s2 = marc_abs s'"
        "arc_abs (ma_internal s2) = \<lparr>aq = (\<lambda>_. [])(ARC_T1 := t1 @ [ob], ARC_T2 := t2), aw = (\<lambda>_. {}), ap = 0\<rparr>"
      using False unfolding hit_def by blast
    have "sim_migrate (marc_api arc_api) calm_opts time ob ri (?st\<lparr>sm_policy := s', sm_stats := ss\<rparr>) =
        Inr (?st\<lparr>sm_policy := s2, sm_stats := ss\<rparr>)"
      by (simp add: sim_migrate_def calm_opts_def entered_def arc(1) False s2(1))
    then show thesis by (rule that [of s2]) (simp_all add: s2 s'(4) False)
  qed
  let ?st2 = "?st\<lparr>sm_policy := s2, sm_stats := ss\<rparr>"
  have "sm_policy ?st2 = s2" by (cases st) simp
  then have "calm c m k (spec_marc (unat c) False hit ob a) (if hit then remove1 ob t1 else t1 @ [ob])
      (if hit then remove1 ob t2 @ [ob] else t2) ?st2" using s2(2-4) unfolding calm_def by simp
  moreover have "sim_serve (marc_api arc_api) rnd calm_opts time ob w st = Inr ?st2"
    unfolding sim_serve_def Let_def s_def [symmetric] map rbind.simps prod.case s2(1) rem by (rule refl)
  ultimately show ?thesis by blast
qed

lemma calm_sim:
  "calm c m (k + length obs) a t1 t2 st \<Longrightarrow> calm_run (unat c) obs (a, t1, t2) = Some (a', t1', t2') \<Longrightarrow>
   \<exists>st'. sim_run (marc_api arc_api) rnd calm_opts time (map (\<lambda>ob. (ob, False)) obs) st = Inr st' \<and>
     calm c m k a' t1' t2' st'"
proof (induction obs arbitrary: a t1 t2 st time)
  case Nil
  have "sim_read calm_opts [] = Inr None" by (simp add: sim_read_def calm_opts_def)
  from sim_run_empty [OF this] Nil show ?case by (intro exI [of _ st]) simp
next
  case (Cons ob obs)
  have room: "length t1 + length t2 < unat c" using Cons.prems(2) by (simp split: if_splits)
  have st: "calm c m (Suc (k + length obs)) a t1 t2 st" using Cons.prems(1) by simp
  from calm_serve [OF st room, where rnd = rnd and time = time and ob = ob and w = False] obtain st1 where
    1: "sim_serve (marc_api arc_api) rnd calm_opts time ob False st = Inr st1"
      "calm c m (k + length obs) (spec_marc (unat c) False (ob \<in> set (t1 @ t2)) ob a)
        (if ob \<in> set (t1 @ t2) then remove1 ob t1 else t1 @ [ob])
        (if ob \<in> set (t1 @ t2) then remove1 ob t2 @ [ob] else t2) st1" by blast
  have "calm_run (unat c) obs (spec_marc (unat c) False (ob \<in> set (t1 @ t2)) ob a,
      if ob \<in> set (t1 @ t2) then remove1 ob t1 else t1 @ [ob],
      if ob \<in> set (t1 @ t2) then remove1 ob t2 @ [ob] else t2) = Some (a', t1', t2')"
    using Cons.prems(2) room by (auto split: if_splits)
  from Cons.IH [OF 1(2) this, of "time + 1"] obtain st' where
    2: "sim_run (marc_api arc_api) rnd calm_opts (time + 1) (map (\<lambda>ob. (ob, False)) obs) st1 = Inr st'"
      "calm c m k a' t1' t2' st'" by blast
  have "sim_read calm_opts (map (\<lambda>ob. (ob, False)) (ob # obs)) = Inr (Some ((ob, False), map (\<lambda>ob. (ob, False)) obs))"
    by (simp add: sim_read_def calm_opts_def)
  from sim_run_step [OF this, of "marc_api arc_api" rnd time st] 1(1) 2 show ?case by simp
qed

section \<open>Properties\<close>

text \<open>
  C20. An access to mARC over ARC never faults and does what the exact rules say. It is filtered, without any effect
  on ARC, exactly if the state is not UNSTABLE, the cache is full and the block is neither cached nor in the
  ghost list; otherwise it is the access to ARC, whose operation, victim and lists are those of
  \<open>spec_arc\<close>. It fails, and then changes nothing, exactly if that access to ARC fails. In all other cases
  the state (from the hit rates of the sample and of the phase, on exact percentages), the time to the next
  decision, the size and the contents of the ghost list, the sample and the counters of the phase are
  those of \<open>spec_marc\<close>.
\<close>
theorem marc_access_refines:
  assumes "marc_ok (arc_inside c m) c (Suc k) s"
  shows "\<exists>r s' ri i'. marc_map_api arc_api ob w r0 s = Inr (0, r, s') \<and> marc_ok (arc_inside c m) c k s' \<and>
    policy_map arc_api ob w r0 (ma_internal s) = Inr (0, ri, i') \<and>
    spec_arc (unat c) ob (arc_abs (ma_internal s)) = (r_op ri, evicted ri, arc_abs i') \<and>
    (let full = policy_cache_is_full arc_api (ma_internal s);
         hit = policy_cache_lookup arc_api ob (ma_internal s) \<noteq> None in
     if spec_filters (unat c) full hit ob (marc_abs s)
     then r = r0\<lparr>r_op := CACHE_NUCLEUS_FILTER\<rparr> \<and> ma_internal s' = ma_internal s \<and>
       marc_abs s' = spec_marc (unat c) full hit ob (marc_abs s)
     else if r_op ri = CACHE_NUCLEUS_FAIL then r = r0\<lparr>r_op := CACHE_NUCLEUS_FAIL\<rparr> \<and> \<not> hit \<and> s' = s
     else r = ri \<and> ma_internal s' = i' \<and> marc_abs s' = spec_marc (unat c) full hit ob (marc_abs s))"
proof -
  obtain ri i' where ri: "policy_map arc_api ob w r0 (ma_internal s) = Inr (0, ri, i')"
    "spec_arc (unat c) ob (arc_abs (ma_internal s)) = (r_op ri, evicted ri, arc_abs i')"
    by (rule marc_arc_map [OF assms])
  from marc_arc_access [OF assms ri(1)] ri show ?thesis unfolding Let_def by blast
qed

theorem marc_access_refines_witness:
  "\<exists>s r s'. marc_create 10 10 arc_create = Inr s \<and> marc_map_api arc_api 7 True zero_result s = Inr (0, r, s') \<and>
    r_op r = CACHE_NUCLEUS_NEW \<and> aw (arc_abs (ma_internal s')) ARC_T1 = {7} \<and>
    as_tabu (marc_abs s') = 19 \<and> as_sample (marc_abs s') = [False] \<and> as_ios (marc_abs s') = 1"
proof -
  obtain s where s: "marc_create 10 10 arc_create = Inr s" "\<forall>k < 2 ^ 57. marc_ok (arc_inside 10 10) 10 k s"
    "mview (marc_api arc_api) s = Map.empty"
    "marc_abs s = \<lparr>as_state = UNSTABLE, as_tabu = 20, as_size = 10, as_ghost = [], as_sample = [], as_hits = 0, as_ios = 0\<rparr>"
    "arc_abs (ma_internal s) = \<lparr>aq = (\<lambda>_. []), aw = (\<lambda>_. {}), ap = 0\<rparr>"
    using marc_started [of 10 10] by auto
  have ok: "marc_ok (arc_inside 10 10) 10 (Suc 0) s" using s(2) by simp
  have no: "(policy_cache_lookup arc_api 7 (ma_internal s) \<noteq> None) = False"
    using s(3) by (simp add: lookup_view marc_pview)
  have nf: "\<not> spec_filters 10 f False 7 (marc_abs s)" for f
    unfolding s(4) by (simp add: spec_filters_def spec_state_def spec_decides_def)
  from marc_access_refines [OF ok, of 7 True zero_result]
  obtain r s' where r: "marc_map_api arc_api 7 True zero_result s = Inr (0, r, s')"
    "CACHE_NUCLEUS_NEW = r_op r"
    "\<lparr>aq = (\<lambda>_. []), aw = (\<lambda>_. {})(ARC_T1 := {7}), ap = 0\<rparr> = arc_abs (ma_internal s')"
    "marc_abs s' = spec_marc 10 (policy_cache_is_full arc_api (ma_internal s)) False 7 (marc_abs s)"
    unfolding no Let_def by (auto simp: nf s(5) spec_arc_def alen_def spec_admit_def)
  have "as_tabu (spec_marc 10 f False 7 (marc_abs s)) = 19 \<and> as_sample (spec_marc 10 f False 7 (marc_abs s)) = [False] \<and>
      as_ios (spec_marc 10 f False 7 (marc_abs s)) = 1" for f
    unfolding s(4) by (simp add: spec_marc_def Let_def spec_tabu_def spec_decides_def spec_state_def spec_sample_def slide_def)
  moreover have "aw (arc_abs (ma_internal s')) ARC_T1 = {7}" using r(3) by (metis arc_spec.select_convs(2) fun_upd_same)
  ultimately show ?thesis using s(1) r(1,2,4) by metis
qed

text \<open>
  C21. Over mARC in front of ARC, with a cache of at least ten blocks and metadata for as many, the simulator with any migration
  delay below 2^31, any sampling rate but zero and without removals reads every trace of fewer than 2^57 accesses without a
  fault: no division by zero in the rates and the sizes of the ghost list, no overflow of the
  counters of a phase, no entry missing in the pool of the ghost list.
\<close>
theorem marc_simulation_total:
  assumes "plain_opts opts" "10 \<le> unat c" "3 * unat c < 2 ^ 32" "unat c \<le> unat m" "length tr < 2 ^ 57"
  shows "\<exists>s st st'. marc_create c m arc_create = Inr s \<and> sim_prep opts s = Inr st \<and>
    sim_run (marc_api arc_api) rnd opts 1 tr st = Inr st' \<and>
    (opt_sampling_rate opts = 1 \<longrightarrow> accesses (sm_stats st') = of_nat (length tr))"
proof -
  obtain s where s: "marc_create c m arc_create = Inr s" "\<forall>k < 2 ^ 57. marc_ok (arc_inside c m) c k s"
    "mview (marc_api arc_api) s = Map.empty"
    using marc_started [OF assms(2-4)] by blast
  have "pending (mview (marc_api arc_api) s) = {}" by (simp add: s(3) pending_def)
  moreover have "marc_ok (arc_inside c m) c (0 + length tr) s" using s(2) assms(5) by simp
  ultimately show ?thesis using marc_arc.marc.run_from_start [where n = 0 and tr = tr and s = s and rnd = rnd, OF assms(1)] s(1) by blast
qed

theorem marc_simulation_total_witness:
  "\<exists>s st st'. marc_create 10 10 arc_create = Inr s \<and>
    sim_prep \<lparr>opt_sampling_rate = 1, opt_migration_delay = 3, opt_remove_rate = 0\<rparr> s = Inr st \<and>
    sim_run (marc_api arc_api) (\<lambda>_. 0) \<lparr>opt_sampling_rate = 1, opt_migration_delay = 3, opt_remove_rate = 0\<rparr> 1
      [(1, False), (2, True), (3, False), (3, False)] st = Inr st' \<and> accesses (sm_stats st') = 4"
  using marc_simulation_total [where opts = "\<lparr>opt_sampling_rate = 1, opt_migration_delay = 3, opt_remove_rate = 0\<rparr>"
      and c = 10 and m = 10 and tr = "[(1, False), (2, True), (3, False), (3, False)]" and rnd = "\<lambda>_. 0"]
  by (auto simp: plain_opts_def)

text \<open>
  C32. The first condition for leaving UNIQUE, more than ten hits on the ghost list per hundred accesses, can never hold: at the end
  of every such run, and so in every state between two accesses, a cache that is not UNSTABLE has
  counted no ghost hit since the last decision, and the check is whether the sample hits at all.
\<close>
theorem marc_filter_rate_dead:
  assumes "plain_opts opts" "10 \<le> unat c" "3 * unat c < 2 ^ 32" "unat c \<le> unat m" "length tr < 2 ^ 57"
  shows "\<exists>s st st'. marc_create c m arc_create = Inr s \<and> sim_prep opts s = Inr st \<and>
    sim_run (marc_api arc_api) rnd opts 1 tr st = Inr st' \<and>
    (ma_state (sm_policy st') \<noteq> UNSTABLE \<longrightarrow>
      (\<forall>x y. marc_uniq_unst_check (sm_policy st') x y = Inr (5 < x)))"
proof -
  obtain s where s: "marc_create c m arc_create = Inr s" "\<forall>k < 2 ^ 57. marc_ok (arc_inside c m) c k s"
    "mview (marc_api arc_api) s = Map.empty"
    using marc_started [OF assms(2-4)] by blast
  have p: "pending (mview (marc_api arc_api) s) = {}" by (simp add: s(3) pending_def)
  have "marc_ok (arc_inside c m) c (0 + length tr) s" using s(2) assms(5) by simp
  from marc_arc.marc.run_from_start [where rnd = rnd, OF assms(1) this p] obtain st st' where
    r: "sim_prep opts s = Inr st" "sim_run (marc_api arc_api) rnd opts 1 tr st = Inr st'"
      "marc_ok (arc_inside c m) c 0 (sm_policy st')" by blast
  have "(ucast c :: u64) \<noteq> 0" using assms(2) by (simp add: word_unat_eq_iff)
  then have "ma_state (sm_policy st') \<noteq> UNSTABLE \<longrightarrow>
      (\<forall>x y. marc_uniq_unst_check (sm_policy st') x y = Inr (5 < x))"
    using marc_okD(3,7) [OF r(3)] by (auto simp: marc_uniq_unst_check_def udiv_def word_less_nat_alt)
  then show ?thesis using s(1) r(1,2) by blast
qed

theorem marc_filter_rate_dead_witness:
  "\<exists>s st st'. marc_create 10 10 arc_create = Inr s \<and>
    sim_prep \<lparr>opt_sampling_rate = 1, opt_migration_delay = 0, opt_remove_rate = 0\<rparr> s = Inr st \<and>
    sim_run (marc_api arc_api) (\<lambda>_. 0) \<lparr>opt_sampling_rate = 1, opt_migration_delay = 0, opt_remove_rate = 0\<rparr> 1
      (map (\<lambda>ob. (ob, False)) ([1, 1, 1, 1, 1, 1, 1, 1, 1, 1, 1, 1] @ [2, 3, 4, 5, 6, 7, 8, 9])) st = Inr st' \<and>
    ma_state (sm_policy st') = UNIQUE \<and>
    marc_uniq_unst_check (sm_policy st') 6 0 = Inr True \<and> marc_uniq_unst_check (sm_policy st') 5 0 = Inr False"
proof -
  let ?obs = "[1, 1, 1, 1, 1, 1, 1, 1, 1, 1, 1, 1] @ [2, 3, 4, 5, 6, 7, 8, 9] :: oblock list"
  obtain s st st' where r: "marc_create 10 10 arc_create = Inr s" "sim_prep calm_opts s = Inr st"
    "sim_run (marc_api arc_api) (\<lambda>_. 0) calm_opts 1 (map (\<lambda>ob. (ob, False)) ?obs) st = Inr st'"
    "ma_state (sm_policy st') \<noteq> UNSTABLE \<longrightarrow> (\<forall>x y. marc_uniq_unst_check (sm_policy st') x y = Inr (5 < x))"
    using marc_filter_rate_dead [where opts = calm_opts and c = 10 and m = 10 and
        tr = "map (\<lambda>ob. (ob, False)) ?obs" and rnd = "\<lambda>_. 0"]
    by (auto simp: plain_opts_def calm_opts_def)
  have s: "\<forall>k < 2 ^ 57. marc_ok (arc_inside 10 10) 10 k s"
    "marc_abs s = \<lparr>as_state = UNSTABLE, as_tabu = 20, as_size = 10, as_ghost = [], as_sample = [], as_hits = 0, as_ios = 0\<rparr>"
    "arc_abs (ma_internal s) = \<lparr>aq = (\<lambda>_. []), aw = (\<lambda>_. {}), ap = 0\<rparr>"
    using marc_started [of 10 10] r(1) by auto
  have "sm_policy st = s" using r(2) by (auto simp: sim_prep_def calm_opts_def)
  then have "calm 10 10 (0 + length ?obs) (marc_abs s) [] [] st" using s(1,3) by (simp add: calm_def fun_eq_iff)
  moreover have "calm_run 10 ?obs (marc_abs s, [], []) = Some
    (\<lparr>as_state = UNIQUE, as_tabu = 10, as_size = 1, as_ghost = [], as_sample = [], as_hits = 0, as_ios = 0\<rparr>,
     [2, 3, 4, 5, 6, 7, 8, 9], [1])"
    unfolding s(2) by code_simp
  ultimately have "\<exists>st'. sim_run (marc_api arc_api) (\<lambda>_. 0) calm_opts 1 (map (\<lambda>ob. (ob, False)) ?obs) st = Inr st' \<and>
      calm 10 10 0 \<lparr>as_state = UNIQUE, as_tabu = 10, as_size = 1, as_ghost = [], as_sample = [], as_hits = 0, as_ios = 0\<rparr>
        [2, 3, 4, 5, 6, 7, 8, 9] [1] st'"
    using calm_sim [of 10 10 0 ?obs "marc_abs s" "[]" "[]" st] by simp
  then have "calm 10 10 0 \<lparr>as_state = UNIQUE, as_tabu = 10, as_size = 1, as_ghost = [], as_sample = [], as_hits = 0, as_ios = 0\<rparr>
        [2, 3, 4, 5, 6, 7, 8, 9] [1] st'" using r(3) by simp
  then have "ma_state (sm_policy st') = UNIQUE" by (simp add: calm_def marc_abs_def)
  then show ?thesis using r unfolding calm_opts_def by (intro exI [of _ s] exI [of _ st] exI [of _ st']) simp
qed

text \<open>
  With a cache of fewer than ten blocks the lower bound of the ghost list is 0: once the cache is full, a hit
  while the list still has its first size makes the size 0, and the next miss divides by it.
\<close>
theorem marc_small_cache_faults:
  assumes "fn_cache_size P (ma_internal s) = c" "c < 10"
  shows "marc_ghost_decrease_size P s (ucast c) = Inr 0 \<and> marc_ghost_increase_size P s 0 = Inl DivByZero"
proof -
  have "unat (ucast c :: u64) < 10" using assms(2) by (simp add: word_less_nat_alt)
  then have "unat ((ucast c :: u64) div 10) = 0" by (simp add: unat_div)
  then have "(ucast c :: u64) div 10 = 0" by (simp only: unat_eq_zero)
  then show ?thesis using assms(1)
    by (simp add: marc_ghost_decrease_size_def marc_ghost_increase_size_def udiv_def Let_def)
qed

theorem marc_small_cache_faults_witness:
  "\<exists>s. marc_create 9 9 arc_create = Inr s \<and> marc_ghost_decrease_size arc_api s 9 = Inr 0 \<and>
    marc_ghost_increase_size arc_api s 0 = Inl DivByZero"
proof -
  obtain i where i: "arc_create 9 9 = Inr i" "arc_ok 9 9 i" using arc_started [of 9 9] by auto
  have "fn_cache_size arc_api i = 9"
    using arc_baseD(5) [OF arc_okD(1) [OF i(2)]] by (simp add: arc_api_def nucleus_api_def)
  moreover obtain s where s: "marc_init 9 9 i (zero_marc i) = Inr s" "ma_internal s = i"
  proof -
    let ?s0 = "(zero_marc i)\<lparr>meta_pool := epool_create MetaRegion 9\<rparr>"
    have "cache_pool ?s0 = epool_create CacheRegion 0" "meta_pool ?s0 = epool_create MetaRegion 9" "wb ?s0 = (\<lambda>_. [])"
      by (simp_all add: zero_marc_def)
    from policy_init_ok [OF this, of 0 9 CACHE_NUCLEUS_SINGLE_THREAD]
    obtain s1 where "policy_init 0 9 CACHE_NUCLEUS_SINGLE_THREAD ?s0 = Inr s1" by blast
    then show ?thesis using that by (simp add: marc_init_def Let_def)
  qed
  ultimately show ?thesis using marc_small_cache_faults [of arc_api s 9] i(1) by (simp add: marc_create_def)
qed

end
