(* ===== verification/Lirs.thy ===== *)
theory Lirs
  imports Parts
begin

text \<open>
  LIRS (\<open>src/src/algs/lirs/lirs_policy.c\<close>, \<open>lirs_policy_struct.h\<close>): blocks with a low inter-reference recency
  (LIR) and a high one (HIR). The stack S holds the LIR blocks and the HIR blocks seen recently, with or
  without data; Q holds the HIR blocks that are cached, G those in S without data, and R all HIR blocks of S. The theory has the
  transactions and API functions.
\<close>

section \<open>The policy\<close>

record lirs_entry = entry +
  le_is_HIR :: bool

text \<open>An entry has three nodes: one for Q or G, one for S and one for R.\<close>

record lirs_policy = "unit lirs_entry_ext cache_nucleus" +
  lirs_q :: "eptr list"
  lirs_s :: "eptr list"
  lirs_r :: "eptr list"
  lirs_g :: "eptr list"
  lirs_hir_limit :: cblock
  lirs_lir_count :: cblock
  lirs_s_len :: cblock
  lirs_s_maxlen :: cblock
  lirs_last_oblock :: oblock

datatype lirs_flag = LIRS_G_FLAG | LIRS_Q_FLAG | LIRS_R_FLAG | LIRS_S_FLAG

record lirs_transaction =
  lt_oblock :: oblock
  lt_repeat :: bool
  lt_hir_evict :: bool
  lt_lir_evict :: bool
  lt_is_HIR :: bool
  lt_hir_remove :: bool
  lt_hir_add :: bool
  lt_lir_s_lru :: bool

definition lirs_transaction_init :: "oblock \<Rightarrow> lirs_transaction" where
  "lirs_transaction_init ob =
     \<lparr>lt_oblock = ob, lt_repeat = False, lt_hir_evict = False, lt_lir_evict = False, lt_is_HIR = True,
      lt_hir_remove = False, lt_hir_add = False, lt_lir_s_lru = False\<rparr>"

text \<open>
  In the last condition \<open>le\<close> is the entry at the bottom of S, not the one of the block: the code has assigned
  the variable again.
\<close>

definition lirs_transaction_set :: "lirs_policy \<Rightarrow> lirs_transaction \<Rightarrow> lirs_transaction res" where
  "lirs_transaction_set s lt =
     (let e = ht_lookup (lt_oblock lt) s in
      if lt_oblock lt = lirs_last_oblock s then Inr (lt\<lparr>lt_repeat := True\<rparr>)
      else
        let lt = (case e of None \<Rightarrow> lt | Some e \<Rightarrow> lt\<lparr>lt_is_HIR := le_is_HIR (store s e)\<rparr>);
            lt = (if \<not> in_cache s e then
                    if default_cache_is_full s then lt\<lparr>lt_hir_evict := True\<rparr>
                    else if cache_size s - default_residency s > lirs_hir_limit s then lt\<lparr>lt_is_HIR := False\<rparr>
                    else lt
                  else if e \<noteq> None \<and> lt_is_HIR lt then lt\<lparr>lt_hir_remove := True\<rparr>
                  else lt);
            le = q_peek (lirs_s s);
            lt = (case le of None \<Rightarrow> lt
                  | Some le \<Rightarrow> if lt_oblock lt = e_oblock (store s le) then lt\<lparr>lt_lir_s_lru := True\<rparr> else lt) in
        rbind (if e \<noteq> None \<and> lt_is_HIR lt
               then rbind (deref le) (\<lambda>le. Inr (le \<in> set (lirs_s s))) else Inr False) (\<lambda>in_s.
        Inr (if in_s then
               let lt = lt\<lparr>lt_is_HIR := False\<rparr> in
               if lirs_lir_count s + 1 > cache_size s - lirs_hir_limit s then lt\<lparr>lt_lir_evict := True\<rparr> else lt
             else if lt_is_HIR lt then lt\<lparr>lt_hir_add := True\<rparr> else lt)))"

definition lirs_transaction_is_legal :: "lirs_policy \<Rightarrow> lirs_transaction \<Rightarrow> bool" where
  "lirs_transaction_is_legal s lt \<longleftrightarrow>
     (if lt_hir_evict lt then q_length (lirs_q s) > 0 else True) \<and>
     (if lt_lir_evict lt then q_length (lirs_s s) > 0 else True)"

section \<open>Entries and queues\<close>

definition lirs_remove_from_queues :: "eptr \<Rightarrow> lirs_policy \<Rightarrow> lirs_policy" where
  "lirs_remove_from_queues le s =
     (let s = (if le \<in> set (lirs_q s) \<or> le \<in> set (lirs_g s)
               then s\<lparr>lirs_q := q_remove le (lirs_q s), lirs_g := q_remove le (lirs_g s)\<rparr> else s);
          s = (if le \<in> set (lirs_r s) then s\<lparr>lirs_r := q_remove le (lirs_r s)\<rparr> else s)
      in if le \<in> set (lirs_s s)
         then s\<lparr>lirs_s := q_remove le (lirs_s s), lirs_s_len := lirs_s_len s - 1\<rparr> else s)"

definition lirs_push_to_queues :: "eptr \<Rightarrow> lirs_flag set \<Rightarrow> lirs_policy \<Rightarrow> lirs_policy res" where
  "lirs_push_to_queues le flags s =
     rbind (log_assert (\<not> (LIRS_G_FLAG \<in> flags \<and> LIRS_Q_FLAG \<in> flags))) (\<lambda>_.
     rbind (if LIRS_G_FLAG \<in> flags
            then rbind (q_push [lirs_q s] (lirs_g s) le) (\<lambda>q. Inr (s\<lparr>lirs_g := q\<rparr>)) else Inr s) (\<lambda>s.
     rbind (if LIRS_Q_FLAG \<in> flags
            then rbind (q_push [lirs_g s] (lirs_q s) le) (\<lambda>q. Inr (s\<lparr>lirs_q := q\<rparr>)) else Inr s) (\<lambda>s.
     rbind (if LIRS_R_FLAG \<in> flags
            then rbind (q_push [] (lirs_r s) le) (\<lambda>q. Inr (s\<lparr>lirs_r := q\<rparr>)) else Inr s) (\<lambda>s.
     if LIRS_S_FLAG \<in> flags
     then rbind (q_push [] (lirs_s s) le) (\<lambda>q. Inr (s\<lparr>lirs_s := q\<rparr>)) else Inr s))))"

definition lirs_remove_entry :: "eptr \<Rightarrow> lirs_policy \<Rightarrow> lirs_policy res" where
  "lirs_remove_entry le s =
     (let s = lirs_remove_from_queues le s;
          s = (if \<not> le_is_HIR (store s le) then s\<lparr>lirs_lir_count := lirs_lir_count s - 1\<rparr> else s);
          s = (if in_cache s (Some le) \<and> \<not> e_migrating (store s le) then upd_stats inc_demotions s else s)
      in cache_nucleus_remove le s)"

definition lirs_g_evict :: "lirs_policy \<Rightarrow> lirs_policy res" where
  "lirs_g_evict s = rbind (deref (q_peek (lirs_g s))) (\<lambda>le. lirs_remove_entry le s)"

text \<open>\<open>queue_swap\<close> on the list of a queue that both items are in; a node that is not linked has no neighbours.\<close>

definition q_swap :: "eptr \<Rightarrow> eptr \<Rightarrow> eptr list \<Rightarrow> eptr list res" where
  "q_swap old new q =
     (if old \<in> set q \<and> new \<in> set q
      then Inr (map (\<lambda>x. if x = old then new else if x = new then old else x) q) else Inl Corrupt)"

definition lirs_replace_with_meta :: "eptr \<Rightarrow> lirs_policy \<Rightarrow> lirs_policy res" where
  "lirs_replace_with_meta cache_le s =
     (let ob = e_oblock (store s cache_le) in
      rbind (log_assert (cache_le \<in> set (lirs_s s))) (\<lambda>_.
      rbind (log_assert (le_is_HIR (store s cache_le))) (\<lambda>_.
      rbind (log_assert (in_cache s (Some cache_le))) (\<lambda>_.
      rbind (if meta_is_full s then lirs_g_evict s else Inr s) (\<lambda>s.
      rbind (insert_in_meta ob s) (\<lambda>(meta_le, s).
      let s = upd_entry meta_le (\<lambda>x. x\<lparr>le_is_HIR := True\<rparr>) s in
      rbind (lirs_push_to_queues meta_le {LIRS_G_FLAG, LIRS_R_FLAG, LIRS_S_FLAG} s) (\<lambda>s.
      let s = s\<lparr>lirs_s_len := lirs_s_len s + 1\<rparr> in
      rbind (q_swap cache_le meta_le (lirs_r s)) (\<lambda>r.
      rbind (q_swap cache_le meta_le (lirs_s s)) (\<lambda>q.
      lirs_remove_entry cache_le (s\<lparr>lirs_r := r, lirs_s := q\<rparr>))))))))))"

definition lirs_q_evict :: "cn_result \<Rightarrow> lirs_policy \<Rightarrow> (cn_result \<times> lirs_policy) res" where
  "lirs_q_evict result s =
     rbind (deref (q_peek (lirs_q s))) (\<lambda>le.
     let result = result\<lparr>r_old_oblock := e_oblock (store s le), r_dirty_eviction := e_dirty (store s le)\<rparr> in
     rbind (if le \<in> set (lirs_s s) then lirs_replace_with_meta le s else lirs_remove_entry le s) (\<lambda>s.
     Inr (result, s)))"

definition lirs_r_evict :: "lirs_policy \<Rightarrow> lirs_policy res" where
  "lirs_r_evict s =
     rbind (deref (q_peek (lirs_r s))) (\<lambda>le.
     let s = s\<lparr>lirs_s := q_remove le (lirs_s s), lirs_r := q_remove le (lirs_r s), lirs_s_len := lirs_s_len s - 1\<rparr> in
     if \<not> in_cache s (Some le) then lirs_remove_entry le s else Inr s)"

definition lirs_s_evict :: "lirs_policy \<Rightarrow> lirs_policy res" where
  "lirs_s_evict s =
     rbind (deref (q_peek (lirs_s s))) (\<lambda>le.
     rbind (log_assert (\<not> le_is_HIR (store s le))) (\<lambda>_.
     rbind (log_assert (in_cache s (Some le))) (\<lambda>_.
     let s = (upd_entry le (\<lambda>x. x\<lparr>le_is_HIR := True\<rparr>) s)\<lparr>lirs_lir_count := lirs_lir_count s - 1\<rparr> in
     lirs_push_to_queues le {LIRS_Q_FLAG} (lirs_remove_from_queues le s))))"

lemma cache_nucleus_remove_queues:
  "cache_nucleus_remove e s = Inr s' \<Longrightarrow> lirs_s s' = lirs_s s"
  by (auto simp: cache_nucleus_remove_def ht_remove_def tbl_remove_def wb_remove_def free_entry_def Let_def
      split: if_splits region.splits)

lemma lirs_remove_entry_shorter: "lirs_remove_entry e s = Inr s' \<Longrightarrow> length (lirs_s s') \<le> length (lirs_s s)"
  by (auto simp: lirs_remove_entry_def lirs_remove_from_queues_def Let_def q_remove_def length_remove1
      dest!: cache_nucleus_remove_queues split: if_splits)

lemma lirs_r_evict_shorter:
  assumes "lirs_r_evict s = Inr s'" "q_peek (lirs_r s) = q_peek (lirs_s s)"
  shows "length (lirs_s s') < length (lirs_s s)"
proof -
  obtain e where e: "q_peek (lirs_r s) = Some e" using assms(1) by (auto simp: lirs_r_evict_def deref_def split: option.splits)
  then have "e \<in> set (lirs_s s)" using assms(2) by (auto simp: q_peek_def split: list.splits)
  then have "0 < length (lirs_s s)" "length (q_remove e (lirs_s s)) = length (lirs_s s) - 1"
    by (auto simp: q_remove_def length_remove1 intro: length_pos_if_in_set)
  then have "length (q_remove e (lirs_s s)) < length (lirs_s s)" by simp
  then show ?thesis using assms(1) e
    by (auto simp: lirs_r_evict_def deref_def Let_def dest!: lirs_remove_entry_shorter split: if_splits)
qed

text \<open>The loop removes an entry of S per round.\<close>

function lirs_find_last_lir_lru :: "lirs_policy \<Rightarrow> lirs_policy res" where
  "lirs_find_last_lir_lru s =
     (case q_peek (lirs_s s) of
        None \<Rightarrow> Inr s
      | Some le \<Rightarrow>
          if \<not> le_is_HIR (store s le) then Inr s
          else if q_peek (lirs_r s) \<noteq> Some le then Inl AssertFail
          else rbind (lirs_r_evict s) lirs_find_last_lir_lru)"
  by pat_completeness auto

termination
  by (relation "measure (\<lambda>s. length (lirs_s s))") (auto intro: lirs_r_evict_shorter)

declare lirs_find_last_lir_lru.simps [simp del]

definition lirs_prune_s :: "lirs_policy \<Rightarrow> lirs_policy res" where
  "lirs_prune_s s = (if lirs_s_len s \<le> lirs_s_maxlen s then Inr s else lirs_r_evict s)"

section \<open>The commit\<close>

text \<open>
  The parts of \<open>lirs_transaction_commit\<close> after the repeat: the entry of the block leaves the queues,
  room is made, and the block enters or is promoted.
\<close>

definition lirs_detach :: "lirs_transaction \<Rightarrow> lirs_policy \<Rightarrow> lirs_policy res" where
  "lirs_detach lt s =
     (let e = ht_lookup (lt_oblock lt) s in
      rbind (if in_meta s e then rbind (deref e) (\<lambda>le. lirs_remove_entry le s)
             else case e of
               None \<Rightarrow> Inr s
             | Some le \<Rightarrow>
                 if in_cache s e \<and> \<not> e_migrating (store s le) then Inr (lirs_remove_from_queues le s)
                 else if e_migrating (store s le) then Inr (s\<lparr>lirs_s_len := lirs_s_len s - 1\<rparr>)
                 else Inr s) (\<lambda>s.
      if lt_lir_s_lru lt then lirs_find_last_lir_lru s else Inr s))"

definition lirs_enter ::
  "lirs_transaction \<Rightarrow> bool \<Rightarrow> eptr option \<Rightarrow> bool \<Rightarrow> cn_result \<Rightarrow> lirs_policy \<Rightarrow> (eptr \<times> cn_result \<times> lirs_policy) res" where
  "lirs_enter lt fresh e is_HIR result s =
     (if fresh then
        rbind (insert_in_cache (lt_oblock lt) (Some result) s) (\<lambda>(le, res, s).
        rbind (deref res) (\<lambda>result.
        let s = upd_entry le (\<lambda>x. x\<lparr>le_is_HIR := lt_is_HIR lt\<rparr>) s;
            s = (if \<not> lt_is_HIR lt then s\<lparr>lirs_lir_count := lirs_lir_count s + 1\<rparr> else s) in
        rbind (cn_migrating_entry le s) (\<lambda>s. Inr (le, result, s))))
      else
        rbind (deref e) (\<lambda>le.
        Inr (le, result,
             if is_HIR then (upd_entry le (\<lambda>x. x\<lparr>le_is_HIR := False\<rparr>) s)\<lparr>lirs_lir_count := lirs_lir_count s + 1\<rparr>
             else s)))"

definition lirs_transaction_commit ::
  "lirs_transaction \<Rightarrow> cn_result \<Rightarrow> lirs_policy \<Rightarrow> (cn_result \<times> lirs_policy) res" where
  "lirs_transaction_commit lt result s =
     (let e = ht_lookup (lt_oblock lt) s;
          is_HIR = (case e of None \<Rightarrow> True | Some le \<Rightarrow> le_is_HIR (store s le));
          fresh = (e = None \<or> in_meta s e);
          cached = in_cache s e;
          s = (if cached then upd_stats inc_hits s else upd_stats inc_misses s);
          result = result\<lparr>r_op := (if cached then CACHE_NUCLEUS_HIT
                                   else if lt_hir_evict lt then CACHE_NUCLEUS_REPLACE
                                   else CACHE_NUCLEUS_NEW)\<rparr> in
      if lt_repeat lt then Inr (result, s)
      else
        rbind (lirs_detach lt (s\<lparr>lirs_last_oblock := lt_oblock lt\<rparr>)) (\<lambda>s.
        rbind (if lt_hir_evict lt then lirs_q_evict result s else Inr (result, s)) (\<lambda>(result, s).
        rbind (lirs_enter lt fresh e is_HIR result s) (\<lambda>(le, result, s).
        rbind (if lt_lir_evict lt then rbind (lirs_s_evict s) lirs_find_last_lir_lru else Inr s) (\<lambda>s.
        rbind (if \<not> e_migrating (store s le)
               then lirs_push_to_queues le
                      (if lt_is_HIR lt then {LIRS_Q_FLAG, LIRS_R_FLAG, LIRS_S_FLAG} else {LIRS_S_FLAG}) s
               else Inr s) (\<lambda>s.
        rbind (lirs_prune_s (s\<lparr>lirs_s_len := lirs_s_len s + 1\<rparr>)) (\<lambda>s. Inr (result, s))))))))"

section \<open>API functions\<close>

definition lirs_remove_api :: "oblock \<Rightarrow> bool \<Rightarrow> lirs_policy \<Rightarrow> lirs_policy res" where
  "lirs_remove_api ob remove_to_history s =
     rbind (deref (ht_lookup ob s)) (\<lambda>le.
     rbind (if in_cache s (Some le) \<and> remove_to_history \<and> le_is_HIR (store s le) \<and> le \<in> set (lirs_s s)
            then lirs_replace_with_meta le s else lirs_remove_entry le s) lirs_prune_s)"

definition lirs_insert_api :: "oblock \<Rightarrow> cblock \<Rightarrow> lirs_policy \<Rightarrow> lirs_policy res" where
  "lirs_insert_api ob cb s =
     rbind (insert_in_cache_at ob cb None s) (\<lambda>(le, _, s).
     rbind (if cache_size s - default_residency s > lirs_hir_limit s then
              lirs_push_to_queues le {LIRS_S_FLAG}
                ((upd_entry le (\<lambda>x. x\<lparr>le_is_HIR := False\<rparr>) s)\<lparr>lirs_lir_count := lirs_lir_count s + 1\<rparr>)
            else
              lirs_push_to_queues le {LIRS_Q_FLAG, LIRS_R_FLAG, LIRS_S_FLAG}
                (upd_entry le (\<lambda>x. x\<lparr>le_is_HIR := True\<rparr>) s)) (\<lambda>s.
     Inr (s\<lparr>lirs_s_len := lirs_s_len s + 1\<rparr>)))"

definition lirs_migrated_api :: "oblock \<Rightarrow> lirs_policy \<Rightarrow> lirs_policy res" where
  "lirs_migrated_api ob s =
     rbind (log_assert (ht_lookup ob s \<noteq> None)) (\<lambda>_.
     rbind (deref (ht_lookup ob s)) (\<lambda>le.
     rbind (log_assert (e_migrating (store s le))) (\<lambda>_.
     rbind (cn_migrated_entry le s) (\<lambda>s.
     rbind (lirs_push_to_queues le
              (if le_is_HIR (store s le) then {LIRS_Q_FLAG, LIRS_R_FLAG, LIRS_S_FLAG} else {LIRS_S_FLAG}) s) (\<lambda>s.
     Inr (upd_stats inc_promotions s))))))"

definition lirs_map_api ::
  "oblock \<Rightarrow> bool \<Rightarrow> cn_result \<Rightarrow> lirs_policy \<Rightarrow> (int \<times> cn_result \<times> lirs_policy) res" where
  "lirs_map_api ob write result s =
     rbind (lirs_transaction_set s (lirs_transaction_init ob)) (\<lambda>lt.
     if lirs_transaction_is_legal s lt then
       rbind (lirs_transaction_commit lt result s) (\<lambda>(result, s).
       Inr (0, result, mark_dirty ob write (upd_stats inc_ios s)))
     else Inr (0, result\<lparr>r_op := CACHE_NUCLEUS_FAIL\<rparr>, s))"

definition lirs_next_victim_api ::
  "oblock \<Rightarrow> lirs_policy \<Rightarrow> (cache_nucleus_operation \<times> eptr option) res" where
  "lirs_next_victim_api ob s =
     rbind (lirs_transaction_set s (lirs_transaction_init ob)) (\<lambda>lt.
     Inr (if lirs_transaction_is_legal s lt then
            if default_cache_lookup ob s \<noteq> None then (CACHE_NUCLEUS_HIT, None)
            else if lt_hir_evict lt then (CACHE_NUCLEUS_REPLACE, q_peek (lirs_q s))
            else (CACHE_NUCLEUS_NEW, None)
          else (CACHE_NUCLEUS_FAIL, None)))"

definition lirs_api :: "lirs_policy policy_api" where
  "lirs_api = nucleus_api lirs_map_api lirs_remove_api lirs_insert_api lirs_migrated_api lirs_next_victim_api"

definition zero_lirs :: lirs_policy where
  "zero_lirs = \<lparr>store = (\<lambda>_. \<lparr>e_oblock = 0, e_time = 0, e_dirty = False, e_allocated = False,
       e_migrating = False, le_is_HIR = False\<rparr>), wb = (\<lambda>_. []),
     thread_support = CACHE_NUCLEUS_SINGLE_THREAD, meta_size = 0, cache_size = 0,
     meta_pool = epool_create MetaRegion 0, cache_pool = epool_create CacheRegion 0,
     stats = stats_init, ht = [], cn_time = 0, lirs_q = [], lirs_s = [], lirs_r = [], lirs_g = [],
     lirs_hir_limit = 0, lirs_lir_count = 0, lirs_s_len = 0, lirs_s_maxlen = 0, lirs_last_oblock = 0\<rparr>"

definition lirs_init :: "cblock \<Rightarrow> cblock \<Rightarrow> lirs_policy \<Rightarrow> lirs_policy res" where
  "lirs_init csize msize s =
     policy_init csize msize CACHE_NUCLEUS_SINGLE_THREAD
       (s\<lparr>lirs_q := [], lirs_r := [], lirs_s := [], lirs_g := [], lirs_hir_limit := max_u 2 (csize div 100),
          lirs_lir_count := 0, lirs_last_oblock := - 1, lirs_s_len := 0, lirs_s_maxlen := 2 * csize,
          cache_pool := epool_create CacheRegion csize, meta_pool := epool_create MetaRegion msize\<rparr>)"

definition lirs_create :: "cblock \<Rightarrow> cblock \<Rightarrow> lirs_policy res" where
  "lirs_create csize msize = lirs_init csize msize zero_lirs"

end
