(* ===== verification/Lirs_Spec.thy ===== *)
theory Lirs_Spec
  imports Prelude
begin

text \<open>
  What LIRS means when a block is in the cache as soon as it is accessed: the stack S from its bottom, the low blocks (LIR),
  the queue Q of the high ones (HIR) that are cached, and the queue G of the blocks of S that are not cached
  any more. The theory defines an access on these and proves the invariant of LIRS for it.
\<close>

section \<open>The abstract cache\<close>

record lirs_spec =
  stack :: "oblock list"
  low :: "oblock set"
  hirs :: "oblock list"
  remembered :: "oblock list"
  last_block :: oblock

text \<open>A high block leaves the stack; if it was not cached, it is forgotten.\<close>

definition spec_forget :: "oblock \<Rightarrow> lirs_spec \<Rightarrow> lirs_spec" where
  "spec_forget ob a = a\<lparr>stack := remove1 ob (stack a), remembered := remove1 ob (remembered a)\<rparr>"

text \<open>A cached block leaves its queues, to be put back at the top of the stack.\<close>

definition spec_take :: "oblock \<Rightarrow> lirs_spec \<Rightarrow> lirs_spec" where
  "spec_take ob a = a\<lparr>stack := remove1 ob (stack a), hirs := remove1 ob (hirs a)\<rparr>"

text \<open>Pruning: the bottom of the stack is a low block.\<close>

definition spec_prune :: "lirs_spec \<Rightarrow> lirs_spec" where
  "spec_prune a = fold spec_forget (takeWhile (\<lambda>x. x \<notin> low a) (stack a)) a"

text \<open>The bottom of the stack becomes a high block.\<close>

definition spec_demote :: "lirs_spec \<Rightarrow> lirs_spec" where
  "spec_demote a =
     (case stack a of [] \<Rightarrow> a | x # st \<Rightarrow> a\<lparr>stack := st, low := low a - {x}, hirs := hirs a @ [x]\<rparr>)"

definition spec_promote :: "oblock \<Rightarrow> lirs_spec \<Rightarrow> lirs_spec" where
  "spec_promote ob a = spec_prune (spec_demote (a\<lparr>low := insert ob (low a)\<rparr>))"

text \<open>The oldest high block leaves the cache. It is remembered if it is in the stack; \<open>m\<close> blocks can be remembered.\<close>

definition spec_retire :: "nat \<Rightarrow> lirs_spec \<Rightarrow> lirs_spec" where
  "spec_retire m a =
     (case hirs a of
        [] \<Rightarrow> a
      | x # q \<Rightarrow>
          if x \<in> set (stack a) then
            let a = (if length (remembered a) = m then spec_forget (hd (remembered a)) a else a)
            in a\<lparr>hirs := q, remembered := remembered a @ [x]\<rparr>
          else a\<lparr>hirs := q\<rparr>)"

definition spec_push :: "oblock \<Rightarrow> lirs_spec \<Rightarrow> lirs_spec" where
  "spec_push ob a = a\<lparr>stack := stack a @ [ob], hirs := (if ob \<in> low a then hirs a else hirs a @ [ob])\<rparr>"

text \<open>The length of the stack is limited, at the cost of its lowest high block.\<close>

definition spec_limit :: "nat \<Rightarrow> lirs_spec \<Rightarrow> lirs_spec" where
  "spec_limit n a =
     (if length (stack a) > n
      then case filter (\<lambda>x. x \<notin> low a) (stack a) of [] \<Rightarrow> a | x # _ \<Rightarrow> spec_forget x a else a)"

definition residents :: "lirs_spec \<Rightarrow> nat" where
  "residents a = card (low a) + length (hirs a)"

text \<open>An access: \<open>c\<close> is the size of the cache, of which \<open>h\<close> blocks are for high blocks.\<close>

definition spec_lirs :: "nat \<Rightarrow> nat \<Rightarrow> nat \<Rightarrow> oblock \<Rightarrow> lirs_spec \<Rightarrow> lirs_spec" where
  "spec_lirs c h m ob a =
     (if ob = last_block a then a
      else
        let a = a\<lparr>last_block := ob\<rparr> in
        spec_limit (2 * c) (spec_push ob
          (if ob \<in> low a then spec_prune (spec_take ob a)
           else if ob \<in> set (hirs a) then spec_promote ob (spec_take ob a)
           else if residents a < c then if residents a < c - h then a\<lparr>low := insert ob (low a)\<rparr> else a
           else if ob \<in> set (remembered a) then spec_promote ob (spec_retire m (spec_forget ob a))
           else spec_retire m a)))"

definition spec_cached :: "lirs_spec \<Rightarrow> oblock set" where
  "spec_cached a = low a \<union> set (hirs a)"

section \<open>The shape of the lists\<close>

lemma in_remove1: "y \<in> set (remove1 x xs) \<Longrightarrow> y \<in> set xs"
  by (metis notin_set_remove1)

lemma length_remove1_le: "length (remove1 x xs) \<le> length xs"
  by (simp add: length_remove1 le_diff_conv)


text \<open>The blocks of \<open>away\<close> are cached or about to be, and in none of the lists.\<close>

definition spec_wf :: "oblock set \<Rightarrow> lirs_spec \<Rightarrow> bool" where
  "spec_wf away a \<longleftrightarrow> distinct (stack a) \<and> distinct (hirs a) \<and> distinct (remembered a) \<and> finite (low a) \<and>
     low a \<inter> set (hirs a) = {} \<and> set (remembered a) \<subseteq> set (stack a) \<and> set (remembered a) \<inter> (low a \<union> set (hirs a)) = {} \<and>
     set (stack a) \<subseteq> low a \<union> set (hirs a) \<union> set (remembered a) \<and> low a - away \<subseteq> set (stack a) \<and>
     away \<inter> (set (stack a) \<union> set (hirs a) \<union> set (remembered a)) = {}"

lemma spec_wfD:
  assumes "spec_wf away a"
  shows "distinct (stack a)" "distinct (hirs a)" "distinct (remembered a)" "finite (low a)" "low a \<inter> set (hirs a) = {}"
    "set (remembered a) \<subseteq> set (stack a)" "set (remembered a) \<inter> (low a \<union> set (hirs a)) = {}"
    "set (stack a) \<subseteq> low a \<union> set (hirs a) \<union> set (remembered a)" "low a - away \<subseteq> set (stack a)"
    "away \<inter> (set (stack a) \<union> set (hirs a) \<union> set (remembered a)) = {}"
  using assms by (simp_all add: spec_wf_def)

lemma spec_forget_simps [simp]:
  "stack (spec_forget x a) = remove1 x (stack a)" "low (spec_forget x a) = low a" "hirs (spec_forget x a) = hirs a"
  "remembered (spec_forget x a) = remove1 x (remembered a)" "last_block (spec_forget x a) = last_block a"
  by (simp_all add: spec_forget_def)

lemma spec_take_simps [simp]:
  "stack (spec_take x a) = remove1 x (stack a)" "low (spec_take x a) = low a" "hirs (spec_take x a) = remove1 x (hirs a)"
  "remembered (spec_take x a) = remembered a" "last_block (spec_take x a) = last_block a"
  by (simp_all add: spec_take_def)

lemma spec_wf_forget: "spec_wf A a \<Longrightarrow> x \<notin> low a \<Longrightarrow> spec_wf A (spec_forget x a)"
  by (auto simp: spec_wf_def)

lemma spec_wf_take:
  assumes wf: "spec_wf {} a" and ob: "ob \<in> low a \<union> set (hirs a)"
  shows "spec_wf {ob} (spec_take ob a)"
  using spec_wfD [OF wf] ob unfolding spec_wf_def spec_take_simps by auto

lemma spec_wf_low: "spec_wf A a \<Longrightarrow> ob \<in> A \<Longrightarrow> spec_wf A (a\<lparr>low := insert ob (low a)\<rparr>)"
  by (auto simp: spec_wf_def)

lemma spec_wf_fresh: "spec_wf {} a \<Longrightarrow> ob \<notin> low a \<Longrightarrow> ob \<notin> set (hirs a) \<Longrightarrow> ob \<notin> set (remembered a) \<Longrightarrow> spec_wf {ob} a"
  by (auto simp: spec_wf_def)

lemma spec_wf_demote: "spec_wf A a \<Longrightarrow> stack a = x # st \<Longrightarrow> x \<in> low a \<Longrightarrow> spec_wf A (spec_demote a)"
  by (auto simp: spec_wf_def spec_demote_def)

lemma spec_wf_push: "spec_wf {ob} a \<Longrightarrow> spec_wf {} (spec_push ob a)"
  by (auto simp: spec_wf_def spec_push_def)

text \<open>One round of the loop that prunes.\<close>

lemma spec_prune_stop: "stack a = [] \<or> hd (stack a) \<in> low a \<Longrightarrow> spec_prune a = a"
  by (cases "stack a") (auto simp: spec_prune_def)

lemma spec_prune_step: "stack a = x # st \<Longrightarrow> x \<notin> low a \<Longrightarrow> spec_prune a = spec_prune (spec_forget x a)"
  by (simp add: spec_prune_def)

lemma spec_prune_facts:
  assumes "spec_wf A a"
  shows "spec_wf A (spec_prune a) \<and> stack (spec_prune a) = dropWhile (\<lambda>x. x \<notin> low a) (stack a) \<and> low (spec_prune a) = low a \<and>
    hirs (spec_prune a) = hirs a \<and> last_block (spec_prune a) = last_block a \<and> length (remembered (spec_prune a)) \<le> length (remembered a)"
  using assms
proof (induction "length (stack a)" arbitrary: a)
  case 0
  then show ?case by (simp add: spec_prune_stop)
next
  case (Suc n)
  show ?case
  proof (cases "hd (stack a) \<in> low a")
    case True
    then show ?thesis using Suc.hyps(2) Suc.prems by (cases "stack a") (simp_all add: spec_prune_stop)
  next
    case False
    obtain x st where x: "stack a = x # st" "x \<notin> low a" using False Suc.hyps(2) by (cases "stack a") auto
    have wf: "spec_wf A (spec_forget x a)" by (rule spec_wf_forget [OF Suc.prems x(2)])
    have n: "n = length (stack (spec_forget x a))" using x Suc.hyps(2) by simp
    have g: "length (remove1 x (remembered a)) \<le> length (remembered a)" by (simp add: length_remove1)
    show ?thesis using Suc.hyps(1) [OF n wf] x g by (simp add: spec_prune_step [OF x])
  qed
qed

lemma spec_prune_simps:
  assumes "spec_wf A a"
  shows "spec_wf A (spec_prune a)" "stack (spec_prune a) = dropWhile (\<lambda>x. x \<notin> low a) (stack a)" "low (spec_prune a) = low a"
    "hirs (spec_prune a) = hirs a" "last_block (spec_prune a) = last_block a" "length (remembered (spec_prune a)) \<le> length (remembered a)"
  using spec_prune_facts [OF assms] by blast+

lemma dropWhile_bottom: "dropWhile P xs = [] \<or> \<not> P (hd (dropWhile P xs))"
  by (induction xs) auto

lemma spec_retire_wf:
  assumes wf: "spec_wf A a" and q: "hirs a = x # q" and m: "0 < m"
  shows "spec_wf A (spec_retire m a)" "low (spec_retire m a) = low a" "hirs (spec_retire m a) = q"
    "last_block (spec_retire m a) = last_block a" "length (stack (spec_retire m a)) \<le> length (stack a)"
    "length (remembered a) \<le> m \<Longrightarrow> length (remembered (spec_retire m a)) \<le> m"
    "stack a \<noteq> [] \<Longrightarrow> hd (stack a) \<in> low a \<Longrightarrow> hd (stack (spec_retire m a)) = hd (stack a) \<and> stack (spec_retire m a) \<noteq> []"
    "set (remembered (spec_retire m a)) \<subseteq> insert x (set (remembered a))"
proof -
  note W = spec_wfD [OF wf]
  define b where "b = (if length (remembered a) = m then spec_forget (hd (remembered a)) a else a)"
  have g: "hd (remembered a) \<notin> low a" "hd (remembered a) \<noteq> x" "hd (remembered a) \<in> set (remembered a)" if "length (remembered a) = m"
  proof -
    show g: "hd (remembered a) \<in> set (remembered a)" using that m by (cases "remembered a") auto
    show "hd (remembered a) \<notin> low a" "hd (remembered a) \<noteq> x" using g W(7) q by auto
  qed
  have b: "spec_wf A b" "low b = low a" "hirs b = x # q" "last_block b = last_block a" "length (stack b) \<le> length (stack a)"
    "x \<in> set (stack a) \<Longrightarrow> x \<in> set (stack b)" "set (remembered b) \<subseteq> set (remembered a)"
    unfolding b_def using wf g spec_wf_forget [OF wf] q by (auto simp: length_remove1_le dest: in_remove1)
  have bg: "length (remembered a) \<le> m \<Longrightarrow> length (remembered b) < m"
    using g(3) m by (auto simp: b_def length_remove1)
  have bh: "hd (stack b) = hd (stack a) \<and> stack b \<noteq> []" if "stack a \<noteq> []" "hd (stack a) \<in> low a"
    using that g by (cases "stack a") (auto simp: b_def)
  have r: "spec_retire m a = (if x \<in> set (stack a) then b\<lparr>hirs := q, remembered := remembered b @ [x]\<rparr> else a\<lparr>hirs := q\<rparr>)"
    by (simp add: spec_retire_def q b_def Let_def)
  note B = spec_wfD [OF b(1)]
  show "low (spec_retire m a) = low a" "hirs (spec_retire m a) = q" "last_block (spec_retire m a) = last_block a"
    "length (stack (spec_retire m a)) \<le> length (stack a)" "set (remembered (spec_retire m a)) \<subseteq> insert x (set (remembered a))"
    using b by (auto simp: r)
  show "spec_wf A (spec_retire m a)"
  proof (cases "x \<in> set (stack a)")
    case True
    have "spec_wf A (b\<lparr>hirs := q, remembered := remembered b @ [x]\<rparr>)"
      using B b(6) [OF True] unfolding spec_wf_def by (auto simp: b(3))
    then show ?thesis using True by (simp add: r)
  next
    case False
    have "spec_wf A (a\<lparr>hirs := q\<rparr>)" using W False unfolding spec_wf_def by (auto simp: q)
    then show ?thesis using False by (simp add: r)
  qed
  show "length (remembered a) \<le> m \<Longrightarrow> length (remembered (spec_retire m a)) \<le> m" using bg by (auto simp: r)
  show "hd (stack (spec_retire m a)) = hd (stack a) \<and> stack (spec_retire m a) \<noteq> []"
    if "stack a \<noteq> []" "hd (stack a) \<in> low a" using bh [OF that] that(1) by (simp add: r)
qed

section \<open>The invariant\<close>

text \<open>
  The bottom of the stack is a low block; there are as many low blocks as there is room for, or as there are blocks; the
  stack is not longer than twice the cache; nothing is remembered before the cache is full; the last accessed
  block is cached.
\<close>

definition spec_ok :: "nat \<Rightarrow> nat \<Rightarrow> nat \<Rightarrow> lirs_spec \<Rightarrow> bool" where
  "spec_ok c h m a \<longleftrightarrow> spec_wf {} a \<and> (stack a = [] \<or> hd (stack a) \<in> low a) \<and> residents a \<le> c \<and>
     card (low a) = min (residents a) (c - h) \<and> (residents a < c \<longrightarrow> remembered a = []) \<and>
     length (stack a) \<le> 2 * c \<and> length (remembered a) \<le> m \<and> (residents a = 0 \<or> last_block a \<in> spec_cached a)"

lemma spec_okD:
  assumes "spec_ok c h m a"
  shows "spec_wf {} a" "stack a = [] \<or> hd (stack a) \<in> low a" "residents a \<le> c" "card (low a) = min (residents a) (c - h)"
    "residents a < c \<Longrightarrow> remembered a = []" "length (stack a) \<le> 2 * c" "length (remembered a) \<le> m"
    "residents a = 0 \<or> last_block a \<in> spec_cached a"
  using assms by (auto simp: spec_ok_def)

definition spec_empty :: lirs_spec where
  "spec_empty = \<lparr>stack = [], low = {}, hirs = [], remembered = [], last_block = - 1\<rparr>"

lemma spec_ok_empty: "spec_ok c h m spec_empty"
  by (simp add: spec_ok_def spec_wf_def spec_empty_def residents_def)

lemma spec_bottom:
  assumes ok: "spec_ok c h m a" and r: "0 < residents a" and h: "h < c"
  shows "\<exists>x st. stack a = x # st \<and> x \<in> low a"
proof -
  note D = spec_okD [OF ok]
  have "0 < card (low a)" using D(4) r h by simp
  then obtain y where "y \<in> low a" by fastforce
  then have "stack a \<noteq> []" using spec_wfD(9) [OF D(1)] by auto
  then show ?thesis using D(2) by (cases "stack a") auto
qed

text \<open>There is a high block in a stack that is longer than the low blocks are many.\<close>

lemma high_in_stack:
  assumes "distinct (stack a)" "finite (low a)" "card (low a) < length (stack a)"
  shows "filter (\<lambda>x. x \<notin> low a) (stack a) \<noteq> []"
proof
  assume "filter (\<lambda>x. x \<notin> low a) (stack a) = []"
  then have "set (stack a) \<subseteq> low a" by (auto simp: filter_empty_conv)
  then have "card (set (stack a)) \<le> card (low a)" by (rule card_mono [OF assms(2)])
  then show False using assms(1,3) by (simp add: distinct_card)
qed

lemma spec_limit_cases:
  assumes wf: "spec_wf A a" and l: "card (low a) \<le> n"
  obtains "spec_limit n a = a" "length (stack a) \<le> n"
  | x where "spec_limit n a = spec_forget x a" "x \<notin> low a" "x \<in> set (stack a)" "n < length (stack a)"
proof (cases "length (stack a) > n")
  case True
  have "filter (\<lambda>x. x \<notin> low a) (stack a) \<noteq> []"
    by (rule high_in_stack) (use spec_wfD [OF wf] l True in auto)
  then obtain x xs where x: "filter (\<lambda>x. x \<notin> low a) (stack a) = x # xs" by (auto simp: neq_Nil_conv)
  have "x \<in> set (filter (\<lambda>x. x \<notin> low a) (stack a))" unfolding x by simp
  then have "x \<notin> low a" "x \<in> set (stack a)" by simp_all
  then show thesis using True x by (intro that(2) [of x]) (simp_all add: spec_limit_def)
next
  case False
  then show thesis using that(1) by (simp add: spec_limit_def)
qed

lemma spec_limit_ok:
  assumes wf: "spec_wf {} a" and b: "stack a = [] \<or> hd (stack a) \<in> low a" and l: "card (low a) \<le> n"
    and n: "length (stack a) \<le> Suc n"
  shows "spec_wf {} (spec_limit n a)" "stack (spec_limit n a) = [] \<or> hd (stack (spec_limit n a)) \<in> low a"
    "low (spec_limit n a) = low a" "hirs (spec_limit n a) = hirs a" "last_block (spec_limit n a) = last_block a"
    "length (stack (spec_limit n a)) \<le> n" "length (remembered (spec_limit n a)) \<le> length (remembered a)"
    "set (remembered (spec_limit n a)) \<subseteq> set (remembered a)"
proof -
  have all: "spec_wf {} (spec_limit n a) \<and> (stack (spec_limit n a) = [] \<or> hd (stack (spec_limit n a)) \<in> low a) \<and>
    low (spec_limit n a) = low a \<and> hirs (spec_limit n a) = hirs a \<and> last_block (spec_limit n a) = last_block a \<and>
    length (stack (spec_limit n a)) \<le> n \<and> length (remembered (spec_limit n a)) \<le> length (remembered a) \<and>
    set (remembered (spec_limit n a)) \<subseteq> set (remembered a)"
  proof (rule spec_limit_cases [OF wf l])
    assume "spec_limit n a = a" "length (stack a) \<le> n"
    then show ?thesis using wf b by simp
  next
    fix x assume x: "spec_limit n a = spec_forget x a" "x \<notin> low a" "x \<in> set (stack a)" "n < length (stack a)"
    have "remove1 x (stack a) = [] \<or> hd (remove1 x (stack a)) \<in> low a"
      using b x(2,3) by (cases "stack a") auto
    then show ?thesis using x n spec_wf_forget [OF wf x(2)] by (auto simp: length_remove1 dest: in_remove1)
  qed
  then show "spec_wf {} (spec_limit n a)" "stack (spec_limit n a) = [] \<or> hd (stack (spec_limit n a)) \<in> low a"
    "low (spec_limit n a) = low a" "hirs (spec_limit n a) = hirs a" "last_block (spec_limit n a) = last_block a"
    "length (stack (spec_limit n a)) \<le> n" "length (remembered (spec_limit n a)) \<le> length (remembered a)"
    "set (remembered (spec_limit n a)) \<subseteq> set (remembered a)" by blast+
qed

text \<open>Pushing and trimming commute when there is a high block to take.\<close>

lemma spec_limit_push:
  assumes wf: "spec_wf {ob} a" and l: "card (low a) \<le> n"
  shows "spec_limit (Suc n) (spec_push ob a) = spec_push ob (spec_limit n a)"
proof -
  note W = spec_wfD [OF wf]
  have ns: "ob \<notin> set (stack a)" "ob \<notin> set (remembered a)" using W(10) by auto
  show ?thesis
  proof (cases "length (stack a) > n")
    case True
    have "filter (\<lambda>x. x \<notin> low a) (stack a) \<noteq> []" by (rule high_in_stack) (use W l True in auto)
    then obtain x xs where x: "filter (\<lambda>x. x \<notin> low a) (stack a) = x # xs" by (auto simp: neq_Nil_conv)
    have "x \<in> set (filter (\<lambda>x. x \<notin> low a) (stack a))" unfolding x by simp
    then have xs: "x \<in> set (stack a)" by simp
    then show ?thesis using True x ns
      by (auto simp: spec_limit_def spec_push_def spec_forget_def remove1_append)
  qed (simp add: spec_limit_def spec_push_def)
qed

section \<open>An access keeps the invariant\<close>

lemma spec_promote_facts:
  assumes wf: "spec_wf {ob} a" and x: "stack a = x # st" "x \<in> low a" and ob: "ob \<notin> low a"
  shows "spec_wf {ob} (spec_promote ob a)" "low (spec_promote ob a) = insert ob (low a) - {x}"
    "hirs (spec_promote ob a) = hirs a @ [x]" "last_block (spec_promote ob a) = last_block a"
    "stack (spec_promote ob a) = dropWhile (\<lambda>y. y \<notin> insert ob (low a) - {x}) st"
    "length (remembered (spec_promote ob a)) \<le> length (remembered a)" "card (low (spec_promote ob a)) = card (low a)"
proof -
  let ?a = "a\<lparr>low := insert ob (low a)\<rparr>"
  have xo: "x \<noteq> ob" using x ob by auto
  have w: "spec_wf {ob} (spec_demote ?a)"
    by (rule spec_wf_demote [where x = x and st = st, OF spec_wf_low [OF wf]]) (use x in simp_all)
  have d: "spec_demote ?a = ?a\<lparr>stack := st, low := insert ob (low a) - {x}, hirs := hirs a @ [x]\<rparr>"
    using x by (simp add: spec_demote_def)
  note P = spec_prune_simps [OF w]
  show "spec_wf {ob} (spec_promote ob a)" "low (spec_promote ob a) = insert ob (low a) - {x}"
    "hirs (spec_promote ob a) = hirs a @ [x]" "last_block (spec_promote ob a) = last_block a"
    "stack (spec_promote ob a) = dropWhile (\<lambda>y. y \<notin> insert ob (low a) - {x}) st"
    "length (remembered (spec_promote ob a)) \<le> length (remembered a)"
    using P unfolding spec_promote_def by (simp_all add: d)
  have "card (insert ob (low a) - {x}) = card (low a)"
    using x ob xo spec_wfD(4) [OF wf] by (simp add: card_insert_disjoint)
  then show "card (low (spec_promote ob a)) = card (low a)"
    using P(3) unfolding spec_promote_def by (simp add: d)
qed

text \<open>The state before the block is pushed, which is what an access has to establish.\<close>

definition spec_ready :: "nat \<Rightarrow> nat \<Rightarrow> nat \<Rightarrow> oblock \<Rightarrow> lirs_spec \<Rightarrow> bool" where
  "spec_ready c h m ob b \<longleftrightarrow> spec_wf {ob} b \<and> (stack b @ [ob] = [ob] \<and> ob \<in> low b \<or> stack b \<noteq> [] \<and> hd (stack b) \<in> low b) \<and>
     (let n = card (low b) + length (hirs b) + (if ob \<in> low b then 0 else 1) in
      n \<le> c \<and> card (low b) = min n (c - h) \<and> (n < c \<longrightarrow> remembered b = [])) \<and>
     length (stack b) \<le> 2 * c \<and> length (remembered b) \<le> m \<and> last_block b = ob"

lemma spec_readyI:
  assumes "spec_wf {ob} b" "stack b = [] \<Longrightarrow> ob \<in> low b" "stack b \<noteq> [] \<Longrightarrow> hd (stack b) \<in> low b"
    "card (low b) + length (hirs b) + (if ob \<in> low b then 0 else 1) = n" "n \<le> c" "card (low b) = min n (c - h)"
    "n < c \<Longrightarrow> remembered b = []" "length (stack b) \<le> 2 * c" "length (remembered b) \<le> m" "last_block b = ob"
  shows "spec_ready c h m ob b"
  using assms unfolding spec_ready_def Let_def by auto

lemma spec_ready_ok:
  assumes r: "spec_ready c h m ob b"
  shows "spec_ok c h m (spec_limit (2 * c) (spec_push ob b))"
proof -
  have R: "spec_wf {ob} b" "stack b @ [ob] = [ob] \<and> ob \<in> low b \<or> stack b \<noteq> [] \<and> hd (stack b) \<in> low b"
    "length (stack b) \<le> 2 * c" "length (remembered b) \<le> m" "last_block b = ob"
    using r by (auto simp: spec_ready_def Let_def)
  define n where "n = card (low b) + length (hirs b) + (if ob \<in> low b then 0 else 1)"
  have n: "n \<le> c" "card (low b) = min n (c - h)" "n < c \<Longrightarrow> remembered b = []"
    using r by (auto simp: spec_ready_def Let_def n_def)
  let ?p = "spec_push ob b"
  have p: "low ?p = low b" "remembered ?p = remembered b" "last_block ?p = ob" "length (stack ?p) \<le> Suc (2 * c)"
    "card (low b) + length (hirs ?p) = n" "stack ?p = stack b @ [ob]"
    "hirs ?p = (if ob \<in> low b then hirs b else hirs b @ [ob])"
    using R by (simp_all add: spec_push_def n_def)
  have "stack ?p = [] \<or> hd (stack ?p) \<in> low ?p" using R(2) unfolding p by (cases "stack b") auto
  moreover have "card (low ?p) \<le> 2 * c" unfolding p using n by simp
  ultimately have T: "spec_wf {} (spec_limit (2 * c) ?p)" "stack (spec_limit (2 * c) ?p) = [] \<or> hd (stack (spec_limit (2 * c) ?p)) \<in> low ?p"
    "low (spec_limit (2 * c) ?p) = low ?p" "hirs (spec_limit (2 * c) ?p) = hirs ?p" "last_block (spec_limit (2 * c) ?p) = last_block ?p"
    "length (stack (spec_limit (2 * c) ?p)) \<le> 2 * c" "length (remembered (spec_limit (2 * c) ?p)) \<le> length (remembered ?p)"
    "set (remembered (spec_limit (2 * c) ?p)) \<subseteq> set (remembered ?p)"
    using spec_limit_ok [OF spec_wf_push [OF R(1)], of "2 * c"] p(4) by blast+
  have "residents (spec_limit (2 * c) ?p) = n" unfolding residents_def T p(1) by (rule p(5))
  moreover have "ob \<in> low ?p \<union> set (hirs ?p)" unfolding p by simp
  ultimately show ?thesis using T n R(4) unfolding spec_ok_def spec_cached_def p(1-3) by auto
qed

lemma spec_wf_last [simp]: "spec_wf A (a\<lparr>last_block := ob\<rparr>) = spec_wf A a"
  by (simp add: spec_wf_def)

lemma shorter_stack: "length xs \<le> n \<Longrightarrow> length (dropWhile P (remove1 x xs)) \<le> n"
  by (rule order_trans [OF length_dropWhile_le order_trans [OF length_remove1_le]])

lemma spec_ready_low:
  assumes ok: "spec_ok c h m a" and ob: "ob \<in> low a"
  shows "spec_ready c h m ob (spec_prune (spec_take ob (a\<lparr>last_block := ob\<rparr>)))"
proof -
  note D = spec_okD [OF ok] and W = spec_wfD [OF spec_okD(1) [OF ok]]
  let ?a = "spec_take ob (a\<lparr>last_block := ob\<rparr>)"
  have w: "spec_wf {ob} ?a" by (rule spec_wf_take) (use D(1) ob in simp_all)
  have "ob \<notin> set (hirs a)" using ob W(5) by auto
  then have hr: "remove1 ob (hirs a) = hirs a" by (rule remove1_idem)
  note P = spec_prune_simps [OF w]
  have q: "low ?a = low a" "hirs ?a = hirs a" "stack ?a = remove1 ob (stack a)" "remembered ?a = remembered a"
    "last_block ?a = ob" using hr by simp_all
  show ?thesis
  proof (rule spec_readyI [where n = "residents a"])
    show "spec_wf {ob} (spec_prune ?a)" by (rule P(1))
    show "hd (stack (spec_prune ?a)) \<in> low (spec_prune ?a)" if "stack (spec_prune ?a) \<noteq> []"
      using that dropWhile_bottom [of "\<lambda>x. x \<notin> low a" "remove1 ob (stack a)"] unfolding P(2,3) q by auto
    show "length (stack (spec_prune ?a)) \<le> 2 * c"
      unfolding P(2) q by (rule shorter_stack [OF D(6)])
    show "residents a < c \<Longrightarrow> remembered (spec_prune ?a) = []" using P(6) D(5) by simp
    show "length (remembered (spec_prune ?a)) \<le> m" using P(6) D(7) by simp
    show "card (low (spec_prune ?a)) + length (hirs (spec_prune ?a)) + (if ob \<in> low (spec_prune ?a) then 0 else 1) = residents a"
      unfolding P(3,4) q using ob by (simp add: residents_def)
    show "card (low (spec_prune ?a)) = min (residents a) (c - h)" unfolding P(3) q by (rule D(4))
  qed (use P(3,5) D(3) ob in simp_all)
qed

lemma spec_ready_high:
  assumes ok: "spec_ok c h m a" and ob: "ob \<in> set (hirs a)" and h: "h < c"
  shows "spec_ready c h m ob (spec_promote ob (spec_take ob (a\<lparr>last_block := ob\<rparr>)))"
proof -
  note D = spec_okD [OF ok] and W = spec_wfD [OF spec_okD(1) [OF ok]]
  let ?a = "spec_take ob (a\<lparr>last_block := ob\<rparr>)"
  have w: "spec_wf {ob} ?a" by (rule spec_wf_take) (use D(1) ob in simp_all)
  have nl: "ob \<notin> low a" using ob W(5) by auto
  have r: "0 < residents a" using ob by (cases "hirs a") (auto simp: residents_def)
  obtain x st where x: "stack a = x # st" "x \<in> low a" using spec_bottom [OF ok r h] by blast
  have xo: "ob \<noteq> x" using x nl by auto
  then have t: "stack ?a = x # remove1 ob st" "x \<in> low ?a" "ob \<notin> low ?a" using x nl by simp_all
  note P = spec_promote_facts [OF w t]
  have q: "length (hirs a) = Suc (length (remove1 ob (hirs a)))"
    using length_pos_if_in_set [OF ob] by (simp add: length_remove1 ob)
  show ?thesis
  proof (rule spec_readyI [where n = "residents a"])
    show "spec_wf {ob} (spec_promote ob ?a)" by (rule P(1))
    show "hd (stack (spec_promote ob ?a)) \<in> low (spec_promote ob ?a)" if "stack (spec_promote ob ?a) \<noteq> []"
      using that dropWhile_bottom [of "\<lambda>y. y \<notin> insert ob (low ?a) - {x}" "remove1 ob st"] unfolding P(2,5) by auto
    show "length (stack (spec_promote ob ?a)) \<le> 2 * c"
      unfolding P(5) by (rule shorter_stack) (use D(6) x in simp)
    show "residents a < c \<Longrightarrow> remembered (spec_promote ob ?a) = []" using P(6) D(5) by simp
    show "length (remembered (spec_promote ob ?a)) \<le> m" using P(6) D(7) by simp
    show "card (low (spec_promote ob ?a)) + length (hirs (spec_promote ob ?a)) +
        (if ob \<in> low (spec_promote ob ?a) then 0 else 1) = residents a"
      unfolding P(7) unfolding P(2,3) using xo q by (simp add: residents_def)
    show "ob \<in> low (spec_promote ob ?a)" unfolding P(2) using xo by simp
  qed (use P D in simp_all)
qed

lemma stack_short:
  assumes wf: "spec_wf {} a" and g: "remembered a = []"
  shows "length (stack a) \<le> residents a"
proof -
  note W = spec_wfD [OF wf]
  have "card (set (stack a)) \<le> card (low a \<union> set (hirs a))" by (rule card_mono) (use W g in auto)
  also have "\<dots> \<le> card (low a) + card (set (hirs a))" by (rule card_Un_le)
  finally show ?thesis using W by (simp add: distinct_card residents_def)
qed

lemma spec_ready_new:
  assumes ok: "spec_ok c h m a" and ob: "ob \<notin> low a" "ob \<notin> set (hirs a)" and r: "residents a < c" and h: "h < c"
  shows "residents a < c - h \<Longrightarrow> spec_ready c h m ob (a\<lparr>last_block := ob, low := insert ob (low a)\<rparr>)"
    "\<not> residents a < c - h \<Longrightarrow> spec_ready c h m ob (a\<lparr>last_block := ob\<rparr>)"
proof -
  note D = spec_okD [OF ok] and W = spec_wfD [OF spec_okD(1) [OF ok]]
  have g: "remembered a = []" by (rule D(5) [OF r])
  have w: "spec_wf {ob} (a\<lparr>last_block := ob\<rparr>)"
    using spec_wf_fresh [OF D(1) ob] g by simp
  have s: "length (stack a) \<le> residents a" by (rule stack_short [OF D(1) g])
  show "spec_ready c h m ob (a\<lparr>last_block := ob, low := insert ob (low a)\<rparr>)" if n: "residents a < c - h"
  proof (rule spec_readyI [where n = "Suc (residents a)"])
    show "spec_wf {ob} (a\<lparr>last_block := ob, low := insert ob (low a)\<rparr>)" using spec_wf_low [OF w] by simp
    have "card (low a) = residents a" using n D(4) by simp
    then have "card (insert ob (low a)) = Suc (residents a)" using card_insert_disjoint [OF W(4) ob(1)] by simp
    then show "card (low (a\<lparr>last_block := ob, low := insert ob (low a)\<rparr>)) = min (Suc (residents a)) (c - h)"
      using n by simp
    show "hd (stack (a\<lparr>last_block := ob, low := insert ob (low a)\<rparr>)) \<in> low (a\<lparr>last_block := ob, low := insert ob (low a)\<rparr>)"
      if "stack (a\<lparr>last_block := ob, low := insert ob (low a)\<rparr>) \<noteq> []" using that D(2) by simp
  qed (use W(4) ob s r g in \<open>simp_all add: residents_def\<close>)
  show "spec_ready c h m ob (a\<lparr>last_block := ob\<rparr>)" if n: "\<not> residents a < c - h"
  proof -
    have "0 < residents a" using n h by simp
    then obtain x st where x: "stack a = x # st" "x \<in> low a" using spec_bottom [OF ok _ h] by blast
    show ?thesis
    proof (rule spec_readyI [where n = "Suc (residents a)"])
      show "card (low (a\<lparr>last_block := ob\<rparr>)) = min (Suc (residents a)) (c - h)" using n D(4) by simp
      show "length (stack (a\<lparr>last_block := ob\<rparr>)) \<le> 2 * c" using s r by simp
    qed (use w x ob g r in \<open>simp_all add: residents_def\<close>)
  qed
qed

lemma spec_ready_full:
  assumes ok: "spec_ok c h m a" and ob: "ob \<notin> low a" "ob \<notin> set (hirs a)" "ob \<notin> set (remembered a)"
    and r: "residents a = c" and h: "h < c" "0 < h" "0 < m"
  shows "spec_ready c h m ob (spec_retire m (a\<lparr>last_block := ob\<rparr>))"
proof -
  note D = spec_okD [OF ok]
  let ?a = "a\<lparr>last_block := ob\<rparr>"
  have w: "spec_wf {ob} ?a" using spec_wf_fresh [OF D(1) ob] by simp
  have "length (hirs a) = h" using D(4) r h by (simp add: residents_def)
  then obtain y q where q: "hirs ?a = y # q" using h by (cases "hirs a") auto
  obtain x st where x: "stack a = x # st" "x \<in> low a" using spec_bottom [OF ok _ h(1)] r h by auto
  note R = spec_retire_wf [OF w q h(3)]
  have b: "hd (stack (spec_retire m ?a)) = x \<and> stack (spec_retire m ?a) \<noteq> []" using R(7) x by simp
  show ?thesis
  proof (rule spec_readyI [where n = c])
    show "length (stack (spec_retire m ?a)) \<le> 2 * c" using R(5) D(6) by simp
    show "card (low (spec_retire m ?a)) + length (hirs (spec_retire m ?a)) +
        (if ob \<in> low (spec_retire m ?a) then 0 else 1) = c"
      unfolding R(2,3) using r q ob(1) by (simp add: residents_def)
    show "card (low (spec_retire m ?a)) = min c (c - h)" unfolding R(2) using D(4) r by simp
    show "length (remembered (spec_retire m ?a)) \<le> m" by (rule R(6)) (use D(7) in simp)
  qed (use R(1,2,4) b x(2) in simp_all)
qed

lemma spec_ready_ghost:
  assumes ok: "spec_ok c h m a" and ob: "ob \<notin> low a" "ob \<notin> set (hirs a)"
    and r: "residents a = c" and h: "h < c" "0 < h" "0 < m"
  shows "spec_ready c h m ob (spec_promote ob (spec_retire m (spec_forget ob (a\<lparr>last_block := ob\<rparr>))))"
proof -
  note D = spec_okD [OF ok] and W = spec_wfD [OF spec_okD(1) [OF ok]]
  let ?a = "spec_forget ob (a\<lparr>last_block := ob\<rparr>)"
  let ?b = "spec_retire m ?a"
  have "spec_wf {} ?a" by (rule spec_wf_forget) (use ob D(1) in simp_all)
  then have w: "spec_wf {ob} ?a" by (rule spec_wf_fresh) (use ob W(3) in simp_all)
  have "length (hirs a) = h" using D(4) r h by (simp add: residents_def)
  then obtain y q where q: "hirs ?a = y # q" using h by (cases "hirs a") auto
  obtain x st where x: "stack a = x # st" "x \<in> low a" using spec_bottom [OF ok _ h(1)] r h by auto
  have xo: "ob \<noteq> x" using x ob by auto
  note R = spec_retire_wf [OF w q h(3)]
  have "hd (stack ?b) = x \<and> stack ?b \<noteq> []" using R(7) x xo by simp
  then obtain st' where b: "stack ?b = x # st'" by (cases "stack ?b") auto
  have xl: "x \<in> low ?b" "ob \<notin> low ?b" unfolding R(2) using x ob by simp_all
  note P = spec_promote_facts [OF R(1) b xl]
  show ?thesis
  proof (rule spec_readyI [where n = c])
    show "spec_wf {ob} (spec_promote ob ?b)" by (rule P(1))
    show "hd (stack (spec_promote ob ?b)) \<in> low (spec_promote ob ?b)" if "stack (spec_promote ob ?b) \<noteq> []"
      using that dropWhile_bottom [of "\<lambda>y. y \<notin> insert ob (low ?b) - {x}" st'] unfolding P(2,5) by auto
    have "length (stack ?b) \<le> 2 * c" using R(5) D(6) by (simp add: length_remove1 split: if_splits)
    then show "length (stack (spec_promote ob ?b)) \<le> 2 * c"
      unfolding P(5) using b by (intro order_trans [OF length_dropWhile_le]) simp
    have "length (remembered ?a) \<le> m" using order_trans [OF length_remove1_le D(7)] by simp
    then show "length (remembered (spec_promote ob ?b)) \<le> m" using R(6) P(6) by simp
    show "ob \<in> low (spec_promote ob ?b)" unfolding P(2) using xo by simp
    then show "card (low (spec_promote ob ?b)) + length (hirs (spec_promote ob ?b)) +
        (if ob \<in> low (spec_promote ob ?b) then 0 else 1) = c"
      unfolding P(7) unfolding P(3) R(2,3) using r q by (simp add: residents_def)
    show "card (low (spec_promote ob ?b)) = min c (c - h)" unfolding P(7) R(2) using D(4) r by simp
  qed (use P(4) R(4) in simp_all)
qed

lemma spec_lirs_ok:
  assumes ok: "spec_ok c h m a" and h: "h < c" "0 < h" "0 < m"
  shows "spec_ok c h m (spec_lirs c h m ob a)"
proof (cases "ob = last_block a")
  case False
  have full: "residents a = c" if "\<not> residents a < c" using spec_okD(3) [OF ok] that by simp
  have e: "residents (a\<lparr>last_block := ob\<rparr>) = residents a" by (simp add: residents_def)
  consider (l) "ob \<in> low a" | (hh) "ob \<notin> low a" "ob \<in> set (hirs a)"
    | (n) "ob \<notin> low a" "ob \<notin> set (hirs a)" "residents a < c"
    | (g) "ob \<notin> low a" "ob \<notin> set (hirs a)" "\<not> residents a < c" "ob \<in> set (remembered a)"
    | (f) "ob \<notin> low a" "ob \<notin> set (hirs a)" "\<not> residents a < c" "ob \<notin> set (remembered a)" by blast
  then show ?thesis
  proof cases
    case l
    then show ?thesis using False spec_ready_ok [OF spec_ready_low [OF ok l]] by (simp add: spec_lirs_def Let_def)
  next
    case hh
    then show ?thesis using False spec_ready_ok [OF spec_ready_high [OF ok hh(2) h(1)]] by (simp add: spec_lirs_def Let_def)
  next
    case n
    then show ?thesis using False spec_ready_ok [OF spec_ready_new(1) [OF ok n h(1)]] spec_ready_ok [OF spec_ready_new(2) [OF ok n h(1)]]
      by (simp add: spec_lirs_def Let_def e)
  next
    case g
    then show ?thesis using False spec_ready_ok [OF spec_ready_ghost [OF ok g(1,2) full [OF g(3)] h]]
      by (simp add: spec_lirs_def Let_def e)
  next
    case f
    then show ?thesis using False spec_ready_ok [OF spec_ready_full [OF ok f(1,2,4) full [OF f(3)] h]]
      by (simp add: spec_lirs_def Let_def e)
  qed
qed (use ok in \<open>simp add: spec_lirs_def\<close>)

end
