(* ===== verification/Lirs_Inv.thy ===== *)
theory Lirs_Inv
  imports Lirs Lirs_Spec
begin

text \<open>
  The invariant of LIRS over entries, and what the steps of an access do to it and to the abstract cache of \<open>Lirs_Spec\<close>. The
  entries of \<open>X\<close> are cached, but away from the queues: the entry of the block that is accessed.
\<close>

declare split_paired_All [simp del] split_paired_Ex [simp del]

section \<open>A cached block becomes a remembered one\<close>

text \<open>
  \<open>lirs_replace_with_meta\<close> inserts an entry for a block that still has one in the cache, and then removes that one: for
  a moment the table has two entries with the same key.
\<close>

lemma free_entry_same:
  "free_entry ep e s = Inr (ep', s') \<Longrightarrow> store s2 e = store s e \<Longrightarrow> free_entry ep e s2 = Inr (ep', upd_entry e freed_entry s2)"
  by (auto simp: free_entry_def Let_def log_assert_def split: if_splits)

lemma insert_meta_remove:
  fixes s :: "('e, 'm) cache_nucleus_scheme"
  assumes ok: "cn_ok s" and e: "e \<in> cached (ht s)" and ob: "e_oblock (store s e) = ob" and nf: "\<not> meta_is_full s"
  shows "\<exists>e' mp cp. insert_in_meta ob s =
      Inr (e', s\<lparr>store := (store s)(e' := fresh_entry ob (store s e')), meta_pool := mp, ht := e' # ht s\<rparr>) \<and>
    fst e' = MetaRegion \<and> e' \<notin> set (ht s) \<and> \<not> e_migrating (store s e') \<and>
    pool_geo mp = pool_geo (meta_pool s) \<and> pool_geo cp = pool_geo (cache_pool s) \<and>
    (\<forall>x (s2 :: ('e, 'm) cache_nucleus_scheme). e_oblock x = ob \<longrightarrow> e_allocated x \<longrightarrow> \<not> e_migrating x \<longrightarrow> store s2 = (store s)(e' := x) \<longrightarrow> wb s2 = wb s \<longrightarrow>
      cache_pool s2 = cache_pool s \<longrightarrow> meta_pool s2 = mp \<longrightarrow> ht s2 = e' # ht s \<longrightarrow>
      cache_nucleus_remove e s2 = Inr (s2\<lparr>store := (store s2)(e := freed_entry (store s e)),
        wb := (\<lambda>q. q_remove e (wb s q)), cache_pool := cp, ht := e' # remove1 e (ht s)\<rparr>) \<and>
      cn_ok (s2\<lparr>store := (store s2)(e := freed_entry (store s e)),
        wb := (\<lambda>q. q_remove e (wb s q)), cache_pool := cp, ht := e' # remove1 e (ht s)\<rparr>))"
proof -
  have nuc: "nuc_ok (store s) (wb s) (cache_pool s) (meta_pool s) (ht s)" using ok by (simp add: cn_ok_def)
  have em: "e \<in> set (ht s)" "fst e = CacheRegion" using e by (simp_all add: cached_def)
  obtain e' rest where free: "ep_free (meta_pool s) = e' # rest"
    using nf by (auto simp: meta_is_full_def epool_empty_def neq_Nil_conv)
  have ef: "e' \<in> set (ep_free (meta_pool s))" using free by simp
  have nt: "e' \<notin> set (ht s)" "\<not> e_migrating (store s e')" using nuc_not_mem [OF nuc] ef by blast+
  have reg: "fst e' = MetaRegion"
    using free_in_pool [OF cn_facts(4) [OF ok] ef] cn_region [OF ok] by (simp add: in_pool_Some)
  have ne: "e \<noteq> e'" using em nt by blast
  define mp where "mp = (meta_pool s)\<lparr>ep_free := remove1 e' (ep_free (meta_pool s)),
    ep_nr_allocated := ep_nr_allocated (meta_pool s) + 1\<rparr>"
  have wbl: "\<not> wb_linked s e'" using wb_linked_ht [OF cn_facts(5) [OF ok] nt(1)] .
  have ins: "insert_in_meta ob s =
      Inr (e', s\<lparr>store := (store s)(e' := fresh_entry ob (store s e')), meta_pool := mp, ht := e' # ht s\<rparr>)"
    using alloc_entry_ok [OF cn_facts(4) [OF ok] free wbl] nt
    by (simp add: insert_in_meta_def alloc_pool_entry_def log_assert_def deref_def ht_insert_def tbl_insert_def mp_def)
  have a: "e \<in> alloc_set (cache_pool s) (store s)" using e cn_alloc_sets(1) [OF ok] by simp
  from free_entry_ok [OF cn_facts(3) [OF ok] a] obtain cp where cp:
    "free_entry (cache_pool s) e s = Inr (cp, upd_entry e freed_entry s)"
    "pool_ok cp ((store s)(e := freed_entry (store s e)))"
    "alloc_set cp ((store s)(e := freed_entry (store s e))) = alloc_set (cache_pool s) (store s) - {e}"
    "pool_geo cp = pool_geo (cache_pool s)" by (auto simp: pool_geo_eq)
  have rm: "fst e \<noteq> ep_region (meta_pool s)" using em cn_region [OF ok] by simp
  have "e \<notin> alloc_set (meta_pool s) (store s)" using em cn_alloc_sets(2) [OF ok] by (simp add: metas_def)
  then have removed: "nuc_ok ((store s)(e := freed_entry (store s e))) (\<lambda>q. q_remove e (wb s q)) cp (meta_pool s) (remove1 e (ht s))"
    using cp cn_region [OF ok] pool_ok_other [OF cn_facts(4) [OF ok] rm]
    by (intro nuc_ok_remove [OF nuc em(1)]) (simp_all add: pool_geo_eq)
  note dk = cn_facts(2) [OF ok]
  have dr: "e \<notin> set (remove1 e (ht s))" using cn_facts(1) [OF ok] by simp
  have "ob \<notin> key_of (store s) ` set (remove1 e (ht s))"
    using distinct_map_remove1 [OF dk em(1)] dk ob cn_facts(1) [OF ok]
    by (metis (no_types, lifting) list.set_map distinct_remove1 remove1_notin)
  moreover have "key_of ((store s)(e := freed_entry (store s e))) = key_of (store s)" by auto
  ultimately have new: "ob \<notin> key_of ((store s)(e := freed_entry (store s e))) ` set (remove1 e (ht s))" by argo
  have go: "cache_nucleus_remove e s2 = Inr (s2\<lparr>store := (store s2)(e := freed_entry (store s e)),
        wb := (\<lambda>q. q_remove e (wb s q)), cache_pool := cp, ht := e' # remove1 e (ht s)\<rparr>)"
    "cn_ok (s2\<lparr>store := (store s2)(e := freed_entry (store s e)),
        wb := (\<lambda>q. q_remove e (wb s q)), cache_pool := cp, ht := e' # remove1 e (ht s)\<rparr>)"
    if x: "e_oblock x = ob" "e_allocated x" "\<not> e_migrating x" and s2: "store s2 = (store s)(e' := x)" "wb s2 = wb s"
      "cache_pool s2 = cache_pool s" "meta_pool s2 = mp" "ht s2 = e' # ht s" for x and s2 :: "('e, 'm) cache_nucleus_scheme"
  proof -
    let ?s3 = "s2\<lparr>wb := (\<lambda>q. q_remove e (wb s q)), ht := e' # remove1 e (ht s)\<rparr>"
    have "ht_remove e (wb_remove e s2) = Inr ?s3"
      using em ne s2 by (simp add: ht_remove_def tbl_remove_def wb_remove_def)
    moreover have "in_pool (cache_pool s) (Some e)" using cn_in_cache [OF ok em(1)] em(2) by (simp add: in_cache_def)
    moreover have "free_entry (cache_pool s) e ?s3 = Inr (cp, upd_entry e freed_entry ?s3)"
      by (rule free_entry_same [OF cp(1)]) (use s2 ne in simp)
    ultimately show "cache_nucleus_remove e s2 = Inr (s2\<lparr>store := (store s2)(e := freed_entry (store s e)),
        wb := (\<lambda>q. q_remove e (wb s q)), cache_pool := cp, ht := e' # remove1 e (ht s)\<rparr>)"
      using s2 ne by (simp add: cache_nucleus_remove_def)
    show "cn_ok (s2\<lparr>store := (store s2)(e := freed_entry (store s e)),
        wb := (\<lambda>q. q_remove e (wb s q)), cache_pool := cp, ht := e' # remove1 e (ht s)\<rparr>)"
      using nuc_ok_insert_meta [OF removed ef new x] s2 fun_upd_twist [OF ne, of "store s" _ x]
      by (simp add: cn_ok_def mp_def del: fun_upd_apply)
  qed
  have "pool_geo mp = pool_geo (meta_pool s)" by (simp add: mp_def pool_geo_eq)
  then show ?thesis using ins reg nt cp(4) go by blast
qed

section \<open>The queues\<close>

definition lirs_lists ::
  "eptr set \<Rightarrow> eptr list \<Rightarrow> eptr list \<Rightarrow> eptr list \<Rightarrow> eptr list \<Rightarrow> eptr list \<Rightarrow> (eptr \<Rightarrow> lirs_entry) \<Rightarrow> bool" where
  "lirs_lists X S R Q G t st \<longleftrightarrow> distinct S \<and> distinct Q \<and> distinct G \<and> R = filter (\<lambda>e. le_is_HIR (st e)) S \<and>
     set S \<subseteq> set t - X \<and> set G = metas t \<and> metas t \<subseteq> set S \<and> (\<forall>e \<in> metas t. le_is_HIR (st e)) \<and>
     set Q = {e \<in> cached t. le_is_HIR (st e)} - X \<and> {e \<in> cached t. \<not> le_is_HIR (st e)} - X \<subseteq> set S \<and>
     X \<subseteq> cached t \<and> (\<forall>e \<in> set t. e_migrating (st e) \<longrightarrow> e \<in> X)"

lemma lirs_listsD:
  assumes "lirs_lists X S R Q G t st"
  shows "distinct S" "distinct Q" "distinct G" "R = filter (\<lambda>e. le_is_HIR (st e)) S" "set S \<subseteq> set t - X" "set G = metas t"
    "metas t \<subseteq> set S" "\<forall>e \<in> metas t. le_is_HIR (st e)" "set Q = {e \<in> cached t. le_is_HIR (st e)} - X"
    "{e \<in> cached t. \<not> le_is_HIR (st e)} - X \<subseteq> set S" "X \<subseteq> cached t" "\<forall>e \<in> set t. e_migrating (st e) \<longrightarrow> e \<in> X"
  using assms by (simp_all add: lirs_lists_def)

lemma filter_upd_notin: "e \<notin> set xs \<Longrightarrow> filter (\<lambda>p. P ((st(e := x)) p)) xs = filter (\<lambda>p. P (st p)) xs"
  by (rule filter_cong) auto

lemma filter_remove1_distinct: "distinct xs \<Longrightarrow> filter P (remove1 e xs) = remove1 e (filter P xs)"
  by (induction xs) (auto simp: remove1_idem)

lemma cached_in: "e \<in> cached t \<Longrightarrow> e \<in> set t" "e \<in> metas t \<Longrightarrow> e \<in> set t"
  by (simp_all add: cached_def metas_def)

text \<open>An entry is removed.\<close>

lemma lists_remove:
  assumes ok: "lirs_lists X S R Q G t st" and e: "e \<in> set t" "distinct t"
  shows "lirs_lists (X - {e}) (remove1 e S) (remove1 e R) (remove1 e Q) (remove1 e G) (remove1 e t) (st(e := x))"
proof -
  note L = lirs_listsD [OF ok]
  have n: "e \<notin> set (remove1 e S)" using L(1) by simp
  have r: "remove1 e R = filter (\<lambda>p. le_is_HIR ((st(e := x)) p)) (remove1 e S)"
    unfolding filter_upd_notin [OF n] using filter_remove1_distinct [OF L(1)] L(4) by simp
  show ?thesis unfolding lirs_lists_def r [symmetric] cached_remove1 [OF e(2)] metas_remove1 [OF e(2)]
    using L(1-3,5-12) e by auto
qed

text \<open>A cached entry leaves the queues.\<close>

lemma lists_away:
  assumes ok: "lirs_lists {} S R Q G t st" and e: "e \<in> cached t"
  shows "lirs_lists {e} (remove1 e S) (remove1 e R) (remove1 e Q) G t st"
proof -
  note L = lirs_listsD [OF ok]
  have ng: "e \<notin> metas t" using e ht_split(2) [of t] by auto
  have r: "remove1 e R = filter (\<lambda>p. le_is_HIR (st p)) (remove1 e S)"
    using filter_remove1_distinct [OF L(1)] L(4) by simp
  show ?thesis unfolding lirs_lists_def r [symmetric]
    using L(1-3,5-12) e ng by auto
qed

text \<open>A cached high entry leaves the stack.\<close>

lemma lists_forget:
  assumes ok: "lirs_lists X S R Q G t st" and e: "e \<in> cached t" "le_is_HIR (st e)"
  shows "lirs_lists X (remove1 e S) (remove1 e R) Q G t st"
proof -
  note L = lirs_listsD [OF ok]
  have ng: "e \<notin> metas t" using e ht_split(2) [of t] by auto
  have r: "remove1 e R = filter (\<lambda>p. le_is_HIR (st p)) (remove1 e S)"
    using filter_remove1_distinct [OF L(1)] L(4) by simp
  show ?thesis unfolding lirs_lists_def r [symmetric]
    using L(1-3,5-12) e ng by auto
qed

text \<open>The entry away changes, or a new entry is inserted and is away.\<close>

lemma lists_change:
  assumes ok: "lirs_lists {e} S R Q G t st"
  shows "lirs_lists {e} S R Q G t (st(e := x))"
proof -
  note L = lirs_listsD [OF ok]
  have n: "e \<notin> set S" "e \<notin> metas t" using L(5,7) by auto
  have r: "R = filter (\<lambda>p. le_is_HIR ((st(e := x)) p)) S" unfolding filter_upd_notin [OF n(1)] by (rule L(4))
  have c: "{p \<in> cached t. le_is_HIR ((st(e := x)) p)} - {e} = {p \<in> cached t. le_is_HIR (st p)} - {e}"
    "{p \<in> cached t. \<not> le_is_HIR ((st(e := x)) p)} - {e} = {p \<in> cached t. \<not> le_is_HIR (st p)} - {e}" by auto
  show ?thesis unfolding lirs_lists_def r [symmetric] c using L(1-3,5-12) n by auto
qed

lemma lists_admit:
  assumes ok: "lirs_lists {} S R Q G t st" and e: "e \<notin> set t" "fst e = CacheRegion"
  shows "lirs_lists {e} S R Q G (e # t) (st(e := x))"
proof -
  note L = lirs_listsD [OF ok]
  have n: "e \<notin> set S" "e \<notin> cached t" "e \<notin> metas t" using L(5) e by (auto simp: cached_def metas_def)
  have r: "R = filter (\<lambda>p. le_is_HIR ((st(e := x)) p)) S" unfolding filter_upd_notin [OF n(1)] by (rule L(4))
  have m: "metas (e # t) = metas t" "cached (e # t) = insert e (cached t)" using e(2) by (simp_all add: metas_Cons cached_Cons)
  have c: "{p \<in> insert e (cached t). le_is_HIR ((st(e := x)) p)} - {e} = {p \<in> cached t. le_is_HIR (st p)}"
    "{p \<in> insert e (cached t). \<not> le_is_HIR ((st(e := x)) p)} - {e} = {p \<in> cached t. \<not> le_is_HIR (st p)}" using n by auto
  show ?thesis unfolding lirs_lists_def r [symmetric] m c using L(1-3,5-12) n by auto
qed

text \<open>The entry away comes back, at the ends.\<close>

lemma lists_home:
  assumes ok: "lirs_lists {e} S R Q G t st" and m: "\<not> e_migrating (st e)"
  shows "lirs_lists {} (S @ [e]) (if le_is_HIR (st e) then R @ [e] else R) (if le_is_HIR (st e) then Q @ [e] else Q) G t st"
proof -
  note L = lirs_listsD [OF ok]
  have n: "e \<notin> set S" "e \<notin> set Q" "e \<notin> metas t" "e \<in> cached t" using L(5,7,9,11) by auto
  have em: "p \<in> set t \<Longrightarrow> \<not> e_migrating (st p)" for p using L(12) m by auto
  show ?thesis unfolding lirs_lists_def
    using L(1-11) n em cached_in(1) [OF n(4)] by auto
qed

text \<open>The bottom of the stack becomes high.\<close>

lemma lists_demote:
  assumes ok: "lirs_lists X (e # S) R Q G t st" and e: "\<not> le_is_HIR (st e)" "e_migrating x = e_migrating (st e)" "le_is_HIR x"
  shows "lirs_lists X S R (Q @ [e]) G t (st(e := x))" "e \<in> cached t" "e \<notin> X" "e \<notin> set Q" "e \<notin> set G"
proof -
  note L = lirs_listsD [OF ok]
  have et: "e \<in> set t" "e \<notin> X" using L(5) by auto
  have nm: "e \<notin> metas t" using L(8) e by auto
  then show ec: "e \<in> cached t" using et ht_split(1) [of t] by auto
  show "e \<notin> X" "e \<notin> set Q" "e \<notin> set G" using et L(6,9) nm e by auto
  have n: "e \<notin> set S" using L(1) by simp
  have r: "R = filter (\<lambda>p. le_is_HIR ((st(e := x)) p)) S" unfolding filter_upd_notin [OF n] using L(4) e by simp
  have c: "{p \<in> cached t. le_is_HIR ((st(e := x)) p)} = insert e {p \<in> cached t. le_is_HIR (st p)}"
    "{p \<in> cached t. \<not> le_is_HIR ((st(e := x)) p)} = {p \<in> cached t. \<not> le_is_HIR (st p)} - {e}" using e ec by auto
  show "lirs_lists X S R (Q @ [e]) G t (st(e := x))"
    unfolding lirs_lists_def r [symmetric] c using L(1-3,5-12) e et nm n by auto
qed

text \<open>A cached high entry of the stack is replaced by a metadata entry.\<close>

abbreviation renamed :: "eptr \<Rightarrow> eptr \<Rightarrow> eptr \<Rightarrow> eptr" where
  "renamed e e' \<equiv> (\<lambda>p. if p = e then e' else p)"

lemma map_renamed: "map (renamed e e') xs = xs" if "e \<notin> set xs"
  using that by (induction xs) auto

lemma distinct_renamed: "distinct xs \<Longrightarrow> e' \<notin> set xs \<Longrightarrow> distinct (map (renamed e e') xs)"
  by (induction xs) auto

lemma set_renamed: "e \<in> set xs \<Longrightarrow> set (map (renamed e e') xs) = insert e' (set xs - {e})"
  by (induction xs) (auto split: if_splits)

lemma lists_rename:
  assumes ok: "lirs_lists X S R Q G t st" and e: "e \<in> cached t" "le_is_HIR (st e)" "e \<in> set S" "distinct t"
    and e': "e' \<notin> set t" "fst e' = MetaRegion" "le_is_HIR x'" "\<not> e_migrating x'"
  shows "lirs_lists X (map (renamed e e') S) (map (renamed e e') R) (remove1 e Q) (G @ [e']) (e' # remove1 e t)
    (st(e' := x', e := x))"
proof -
  note L = lirs_listsD [OF ok]
  let ?st = "st(e' := x', e := x)"
  have et: "e \<in> set t" "e \<notin> X" "e \<notin> metas t" using L(5) e ht_split(2) [of t] by (auto simp: cached_def)
  have n: "e' \<notin> set S" "e' \<notin> cached t" "e' \<notin> metas t" "e' \<noteq> e" "e' \<notin> X"
    using L(5,11) e' et by (auto simp: cached_def metas_def)
  have ds: "distinct (map (renamed e e') S)" by (rule distinct_renamed [OF L(1) n(1)])
  have r: "map (renamed e e') R = filter (\<lambda>p. le_is_HIR (?st p)) (map (renamed e e') S)"
  proof -
    have "filter (\<lambda>p. le_is_HIR (?st p)) (map (renamed e e') S) = map (renamed e e') (filter (\<lambda>p. le_is_HIR (?st (renamed e e' p))) S)"
      by (simp add: filter_map comp_def)
    also have "filter (\<lambda>p. le_is_HIR (?st (renamed e e' p))) S = R"
      unfolding L(4) by (rule filter_cong) (use n e e' in auto)
    finally show ?thesis by (rule sym)
  qed
  have s: "set (map (renamed e e') S) = insert e' (set S - {e})" by (rule set_renamed [OF e(3)])
  have m: "metas (e' # remove1 e t) = insert e' (metas t)" "cached (e' # remove1 e t) = cached t - {e}"
    using e'(2) et(3) by (simp_all add: metas_Cons cached_Cons metas_remove1 [OF e(4)] cached_remove1 [OF e(4)])
  have c: "{p \<in> cached t - {e}. le_is_HIR (?st p)} = {p \<in> cached t. le_is_HIR (st p)} - {e}"
    "{p \<in> cached t - {e}. \<not> le_is_HIR (?st p)} = {p \<in> cached t. \<not> le_is_HIR (st p)} - {e}" using n by auto
  have h: "\<forall>p \<in> insert e' (metas t). le_is_HIR (?st p)" using L(8) n e' et by auto
  have mg: "\<forall>p \<in> set (e' # remove1 e t). e_migrating (?st p) \<longrightarrow> p \<in> X" using L(12) n e' e by auto
  show ?thesis unfolding lirs_lists_def s m c
    using r ds h mg L(1-3,5-7,9-11) n et e e' by (auto simp del: fun_upd_apply)
qed

section \<open>The invariant\<close>

text \<open>The number of blocks for high blocks; the size of the cache for a cache of \<open>c\<close> blocks.\<close>

definition lirs_h :: "cblock \<Rightarrow> nat" where
  "lirs_h c = max 2 (unat c div 100)"

definition lirs_sizes :: "cblock \<Rightarrow> cblock \<Rightarrow> bool" where
  "lirs_sizes c m \<longleftrightarrow> 3 \<le> unat c \<and> 1 \<le> unat m \<and> 2 * unat c < 2 ^ 32 \<and> unat c + unat m + 2 < 2 ^ 32"

definition low_entries :: "lirs_policy \<Rightarrow> eptr set" where
  "low_entries s = {e \<in> cached (ht s). \<not> le_is_HIR (store s e)}"

text \<open>The counter of the stack runs ahead by \<open>d\<close>: 1 while the block of the access is on its way.\<close>

definition lirs_base :: "cblock \<Rightarrow> cblock \<Rightarrow> eptr set \<Rightarrow> nat \<Rightarrow> lirs_policy \<Rightarrow> bool" where
  "lirs_base c m X d s \<longleftrightarrow> cn_ok s \<and> lirs_sizes c m \<and> ep_nr_entries (cache_pool s) = c \<and> ep_nr_entries (meta_pool s) = m \<and>
     cache_size s = c \<and> lirs_hir_limit s = max_u 2 (c div 100) \<and> lirs_s_maxlen s = 2 * c \<and>
     lirs_s_len s = of_nat (length (lirs_s s) + d) \<and> lirs_lir_count s = of_nat (card (low_entries s)) \<and>
     lirs_lists X (lirs_s s) (lirs_r s) (lirs_q s) (lirs_g s) (ht s) (store s)"

lemma lirs_baseD:
  assumes "lirs_base c m X d s"
  shows "cn_ok s" "lirs_sizes c m" "ep_nr_entries (cache_pool s) = c" "ep_nr_entries (meta_pool s) = m"
    "cache_size s = c" "lirs_hir_limit s = max_u 2 (c div 100)" "lirs_s_maxlen s = 2 * c"
    "lirs_s_len s = of_nat (length (lirs_s s) + d)" "lirs_lir_count s = of_nat (card (low_entries s))"
    "lirs_lists X (lirs_s s) (lirs_r s) (lirs_q s) (lirs_g s) (ht s) (store s)"
  using assms by (simp_all add: lirs_base_def)

lemma lirs_base_cong:
  assumes "lirs_base c m X d s" "cn_ok s'" "pool_geo (cache_pool s') = pool_geo (cache_pool s)"
    "pool_geo (meta_pool s') = pool_geo (meta_pool s)" "cache_size s' = cache_size s" "lirs_hir_limit s' = lirs_hir_limit s"
    "lirs_s_maxlen s' = lirs_s_maxlen s" "lirs_s_len s' = of_nat (length (lirs_s s') + d')"
    "lirs_lir_count s' = of_nat (card (low_entries s'))"
    "lirs_lists X' (lirs_s s') (lirs_r s') (lirs_q s') (lirs_g s') (ht s') (store s')"
  shows "lirs_base c m X' d' s'"
  using lirs_baseD [OF assms(1)] assms(2-) by (simp add: lirs_base_def pool_geo_eq)

definition lirs_abs :: "lirs_policy \<Rightarrow> lirs_spec" where
  "lirs_abs s = \<lparr>stack = map (key_of (store s)) (lirs_s s), low = key_of (store s) ` low_entries s,
     hirs = map (key_of (store s)) (lirs_q s), remembered = map (key_of (store s)) (lirs_g s),
     last_block = lirs_last_oblock s\<rparr>"

lemma lirs_abs_simps [simp]:
  "stack (lirs_abs s) = map (key_of (store s)) (lirs_s s)" "low (lirs_abs s) = key_of (store s) ` low_entries s"
  "hirs (lirs_abs s) = map (key_of (store s)) (lirs_q s)" "remembered (lirs_abs s) = map (key_of (store s)) (lirs_g s)"
  "last_block (lirs_abs s) = lirs_last_oblock s"
  by (simp_all add: lirs_abs_def)

lemma lirs_abs_eqI:
  assumes "map (key_of (store s)) (lirs_s s) = stack a" "key_of (store s) ` low_entries s = low a"
    "map (key_of (store s)) (lirs_q s) = hirs a" "map (key_of (store s)) (lirs_g s) = remembered a"
    "lirs_last_oblock s = last_block a"
  shows "lirs_abs s = a"
  using assms by (simp add: lirs_abs_def)

lemma low_entries_in: "e \<in> low_entries s \<Longrightarrow> e \<in> cached (ht s)" "e \<in> low_entries s \<Longrightarrow> e \<in> set (ht s)"
  by (simp_all add: low_entries_def cached_def)

lemma finite_low_entries [simp]: "finite (low_entries s)"
  by (rule finite_subset [of _ "cached (ht s)"]) (auto simp: low_entries_def)

text \<open>A change of entries that keeps the keys.\<close>

lemma same_keys: "e_oblock x = e_oblock (st e) \<Longrightarrow> key_of (st(e := x)) = key_of st"
  by auto

text \<open>Membership in the abstract lists is membership in the queues.\<close>

lemma lirs_keys: "lirs_base c m X d s \<Longrightarrow> distinct (map (key_of (store s)) (ht s))"
  by (rule cn_facts(2)) (rule lirs_baseD)

lemma lirs_inj: "lirs_base c m X d s \<Longrightarrow> inj_on (key_of (store s)) (set (ht s))"
  using lirs_keys by (auto simp: distinct_map)

lemma lirs_sub:
  assumes "lirs_base c m X d s"
  shows "set (lirs_s s) \<subseteq> set (ht s)" "set (lirs_q s) \<subseteq> set (ht s)" "set (lirs_g s) \<subseteq> set (ht s)" "set (lirs_r s) \<subseteq> set (ht s)"
    "X \<subseteq> set (ht s)" "low_entries s \<subseteq> set (ht s)"
  using lirs_listsD [OF lirs_baseD(10) [OF assms]] by (auto simp: cached_def metas_def low_entries_def)

lemma key_mem:
  assumes ok: "lirs_base c m X d s" and e: "e \<in> set (ht s)" and ob: "e_oblock (store s e) = ob" and A: "A \<subseteq> set (ht s)"
  shows "ob \<in> key_of (store s) ` A \<longleftrightarrow> e \<in> A"
  using inj_on_image_mem_iff [OF lirs_inj [OF ok] e A] ob by auto

lemma lirs_member:
  assumes ok: "lirs_base c m X d s" and e: "e \<in> set (ht s)" "e_oblock (store s e) = ob"
  shows "ob \<in> set (stack (lirs_abs s)) \<longleftrightarrow> e \<in> set (lirs_s s)" "ob \<in> set (hirs (lirs_abs s)) \<longleftrightarrow> e \<in> set (lirs_q s)"
    "ob \<in> set (remembered (lirs_abs s)) \<longleftrightarrow> e \<in> set (lirs_g s)" "ob \<in> low (lirs_abs s) \<longleftrightarrow> e \<in> low_entries s"
  using key_mem [OF ok e lirs_sub(1) [OF ok]] key_mem [OF ok e lirs_sub(2) [OF ok]] key_mem [OF ok e lirs_sub(3) [OF ok]]
    key_mem [OF ok e lirs_sub(6) [OF ok]] by simp_all

lemma lirs_remove_key:
  assumes ok: "lirs_base c m X d s" and e: "e \<in> set (ht s)" "e_oblock (store s e) = ob"
  shows "map (key_of (store s)) (remove1 e (lirs_s s)) = remove1 ob (stack (lirs_abs s))"
    "map (key_of (store s)) (remove1 e (lirs_q s)) = remove1 ob (hirs (lirs_abs s))"
    "map (key_of (store s)) (remove1 e (lirs_g s)) = remove1 ob (remembered (lirs_abs s))"
    "key_of (store s) ` (low_entries s - {e}) = low (lirs_abs s) - {ob}"
proof -
  note L = lirs_listsD [OF lirs_baseD(10) [OF ok]] and B = lirs_sub [OF ok]
  note R = map_remove1_key [OF lirs_keys [OF ok] _ _ e(1)]
  show "map (key_of (store s)) (remove1 e (lirs_s s)) = remove1 ob (stack (lirs_abs s))"
    using R [OF B(1) L(1)] e(2) by simp
  show "map (key_of (store s)) (remove1 e (lirs_q s)) = remove1 ob (hirs (lirs_abs s))"
    using R [OF B(2) L(2)] e(2) by simp
  show "map (key_of (store s)) (remove1 e (lirs_g s)) = remove1 ob (remembered (lirs_abs s))"
    using R [OF B(3) L(3)] e(2) by simp
  show "key_of (store s) ` (low_entries s - {e}) = low (lirs_abs s) - {ob}"
    using key_image_minus [OF lirs_keys [OF ok] B(6) e(1)] e(2) by simp
qed

lemma card_low: "lirs_base c m X d s \<Longrightarrow> card (low (lirs_abs s)) = card (low_entries s)"
  using card_image [OF inj_on_subset [OF lirs_inj lirs_sub(6)]] by simp

text \<open>At rest all cached blocks are low or in Q.\<close>

lemma lirs_wf:
  assumes ok: "lirs_base c m {} d s"
  shows "spec_wf {} (lirs_abs s)" "residents (lirs_abs s) = card (cached (ht s))"
proof -
  note L = lirs_listsD [OF lirs_baseD(10) [OF ok]] and B = lirs_sub [OF ok] and inj = lirs_inj [OF ok]
  have dist: "distinct xs \<Longrightarrow> set xs \<subseteq> set (ht s) \<Longrightarrow> distinct (map (key_of (store s)) xs)" for xs
    using inj_on_subset [OF inj] by (simp add: distinct_map)
  have dis: "A \<subseteq> set (ht s) \<Longrightarrow> C \<subseteq> set (ht s) \<Longrightarrow> A \<inter> C = {} \<Longrightarrow> key_of (store s) ` A \<inter> key_of (store s) ` C = {}" for A C
    using inj_on_image_Int [OF inj, of A C] by simp
  have lq: "low_entries s \<inter> set (lirs_q s) = {}" "cached (ht s) = low_entries s \<union> set (lirs_q s)"
    using L(9) by (auto simp: low_entries_def)
  have lg: "set (lirs_g s) \<inter> (low_entries s \<union> set (lirs_q s)) = {}"
    using L(6) ht_split(2) [of "ht s"] lq(2) by blast
  have st: "set (lirs_s s) \<subseteq> low_entries s \<union> set (lirs_q s) \<union> set (lirs_g s)"
    using B(1) L(6) ht_split(1) [of "ht s"] lq(2) by blast
  have lows: "low_entries s \<subseteq> set (lirs_s s)" using L(10) by (simp add: low_entries_def)
  show "spec_wf {} (lirs_abs s)"
    unfolding spec_wf_def lirs_abs_simps set_map
  proof (intro conjI)
    show "key_of (store s) ` low_entries s \<inter> key_of (store s) ` set (lirs_q s) = {}" by (rule dis [OF B(6,2) lq(1)])
    show "key_of (store s) ` set (lirs_g s) \<inter> (key_of (store s) ` low_entries s \<union> key_of (store s) ` set (lirs_q s)) = {}"
      using dis [OF B(3) Un_least [OF B(6,2)] lg] by (simp add: image_Un)
    show "key_of (store s) ` set (lirs_g s) \<subseteq> key_of (store s) ` set (lirs_s s)" using L(6,7) by auto
    show "key_of (store s) ` set (lirs_s s) \<subseteq> key_of (store s) ` low_entries s \<union> key_of (store s) ` set (lirs_q s) \<union>
        key_of (store s) ` set (lirs_g s)" using image_mono [OF st] by (simp add: image_Un)
    show "key_of (store s) ` low_entries s - {} \<subseteq> key_of (store s) ` set (lirs_s s)" using lows by auto
  qed (use dist L(1-3) B in simp_all)
  have "card (cached (ht s)) = card (low_entries s) + card (set (lirs_q s))"
    unfolding lq(2) by (rule card_Un_disjoint [OF _ _ lq(1)]) simp_all
  then show "residents (lirs_abs s) = card (cached (ht s))"
    using card_low [OF ok] distinct_card [OF L(2)] by (simp add: residents_def)
qed

end
