(* ===== verification/Lirs_Steps.thy ===== *)
theory Lirs_Steps
  imports Lirs_Inv
begin

text \<open>The steps of an access to LIRS, on the invariant and on the abstract cache.\<close>

declare split_paired_All [simp del] split_paired_Ex [simp del]

lemma remove_from_queues_eq:
  "lirs_remove_from_queues e s = s\<lparr>lirs_q := remove1 e (lirs_q s), lirs_g := remove1 e (lirs_g s),
     lirs_r := remove1 e (lirs_r s), lirs_s := remove1 e (lirs_s s),
     lirs_s_len := (if e \<in> set (lirs_s s) then lirs_s_len s - 1 else lirs_s_len s)\<rparr>"
  by (simp add: lirs_remove_from_queues_def q_remove_def remove1_idem Let_def)

lemma len_pred: "e \<in> set xs \<Longrightarrow> (of_nat (length (remove1 e xs) + d) :: u32) = of_nat (length xs + d) - 1"
  by (simp add: of_nat_length_remove1)

text \<open>What the steps leave alone: the entries away from the queues and the absence of blocks.\<close>

definition lirs_keeps :: "eptr set \<Rightarrow> lirs_policy \<Rightarrow> lirs_policy \<Rightarrow> bool" where
  "lirs_keeps X s s' \<longleftrightarrow> (\<forall>e \<in> X. store s' e = store s e) \<and> (\<forall>ob. ht_lookup ob s = None \<longrightarrow> ht_lookup ob s' = None)"

lemma lirs_keeps_refl [simp]: "lirs_keeps X s s"
  by (simp add: lirs_keeps_def)

lemma lirs_keeps_trans: "lirs_keeps X s s' \<Longrightarrow> lirs_keeps X s' s'' \<Longrightarrow> lirs_keeps X s s''"
  by (auto simp: lirs_keeps_def)

section \<open>An entry is removed\<close>

definition spec_erase :: "oblock \<Rightarrow> lirs_spec \<Rightarrow> lirs_spec" where
  "spec_erase ob a = a\<lparr>stack := remove1 ob (stack a), hirs := remove1 ob (hirs a), remembered := remove1 ob (remembered a)\<rparr>"

text \<open>The entry may have left the stack already: \<open>lirs_r_evict\<close> takes it out. \<open>s0\<close> is the state with it.\<close>

lemma lirs_remove_entry_ok:
  assumes ok: "lirs_base c m X d s0" and e: "e \<in> set (ht s0)" "e_oblock (store s0 e) = ob" and hi: "le_is_HIR (store s0 e)"
    and s: "s = s0 \<or> (e \<in> set (lirs_s s0) \<and> s = s0\<lparr>lirs_s := remove1 e (lirs_s s0), lirs_r := remove1 e (lirs_r s0),
      lirs_s_len := lirs_s_len s0 - 1\<rparr>)"
  shows "\<exists>s'. lirs_remove_entry e s = Inr s' \<and> lirs_base c m (X - {e}) d s' \<and> lirs_abs s' = spec_erase ob (lirs_abs s0) \<and>
    (\<forall>ob'. ht_lookup ob' s' = (if ob' = ob then None else ht_lookup ob' s0)) \<and> lirs_keeps (X - {e}) s0 s' \<and>
    lirs_s s' = remove1 e (lirs_s s0) \<and> lirs_r s' = remove1 e (lirs_r s0)"
proof -
  note D = lirs_baseD [OF ok] and L = lirs_listsD [OF lirs_baseD(10) [OF ok]]
  have d: "distinct (ht s0)" by (rule cn_facts(1) [OF D(1)])
  have dS: "e \<notin> set (remove1 e (lirs_s s0))" "e \<notin> set (remove1 e (lirs_r s0))" using L(1,4) by simp_all
  define s1 where "s1 = s0\<lparr>lirs_q := remove1 e (lirs_q s0), lirs_g := remove1 e (lirs_g s0),
     lirs_r := remove1 e (lirs_r s0), lirs_s := remove1 e (lirs_s s0),
     lirs_s_len := (if e \<in> set (lirs_s s0) then lirs_s_len s0 - 1 else lirs_s_len s0)\<rparr>"
  have s1: "lirs_remove_from_queues e s = s1"
    using s dS by (auto simp: remove_from_queues_eq s1_def remove1_idem)
  define s2 where "s2 = (if in_cache s1 (Some e) \<and> \<not> e_migrating (store s1 e) then upd_stats inc_demotions s1 else s1)"
  have same: "store s2 = store s0" "ht s2 = ht s0" "wb s2 = wb s0" "cache_pool s2 = cache_pool s0" "meta_pool s2 = meta_pool s0"
    "cache_size s2 = cache_size s0" "lirs_q s2 = remove1 e (lirs_q s0)" "lirs_g s2 = remove1 e (lirs_g s0)"
    "lirs_r s2 = remove1 e (lirs_r s0)" "lirs_s s2 = remove1 e (lirs_s s0)"
    "lirs_s_len s2 = (if e \<in> set (lirs_s s0) then lirs_s_len s0 - 1 else lirs_s_len s0)"
    "lirs_lir_count s2 = lirs_lir_count s0" "lirs_hir_limit s2 = lirs_hir_limit s0" "lirs_s_maxlen s2 = lirs_s_maxlen s0"
    "lirs_last_oblock s2 = lirs_last_oblock s0"
    by (simp_all add: s2_def s1_def)
  have cn2: "cn_ok s2" using D(1) by (simp add: cn_ok_def same)
  have e2: "e \<in> set (ht s2)" using e same by simp
  from cache_nucleus_remove_ok [OF cn2 e2] obtain cp mp s' where
    s': "s' = s2\<lparr>store := (store s2)(e := freed_entry (store s2 e)), wb := (\<lambda>q. q_remove e (wb s2 q)),
        cache_pool := cp, meta_pool := mp, ht := remove1 e (ht s2)\<rparr>"
    and run: "cache_nucleus_remove e s2 = Inr s'" and cn: "cn_ok s'"
    and geo: "pool_geo cp = pool_geo (cache_pool s2)" "pool_geo mp = pool_geo (meta_pool s2)" by blast
  have h: "(if \<not> le_is_HIR (store s1 e) then s1\<lparr>lirs_lir_count := lirs_lir_count s1 - 1\<rparr> else s1) = s1"
    using hi by (simp add: s1_def)
  have run': "lirs_remove_entry e s = Inr s'"
    using run unfolding lirs_remove_entry_def s1 Let_def h s2_def .
  have f: "store s' = (store s0)(e := freed_entry (store s0 e))" "ht s' = remove1 e (ht s0)" "lirs_q s' = remove1 e (lirs_q s0)"
    "lirs_g s' = remove1 e (lirs_g s0)" "lirs_r s' = remove1 e (lirs_r s0)" "lirs_s s' = remove1 e (lirs_s s0)"
    "lirs_s_len s' = (if e \<in> set (lirs_s s0) then lirs_s_len s0 - 1 else lirs_s_len s0)" "cache_pool s' = cp" "meta_pool s' = mp"
    "lirs_lir_count s' = lirs_lir_count s0" "lirs_hir_limit s' = lirs_hir_limit s0" "lirs_s_maxlen s' = lirs_s_maxlen s0"
    "lirs_last_oblock s' = lirs_last_oblock s0" "cache_size s' = cache_size s0"
    by (simp_all add: s' same)
  have low: "low_entries s' = low_entries s0"
    using hi by (auto simp: low_entries_def f(1,2) cached_remove1 [OF d])
  have base: "lirs_base c m (X - {e}) d s'"
  proof (rule lirs_base_cong [OF ok cn])
    show "lirs_s_len s' = of_nat (length (lirs_s s') + d)"
      using D(8) len_pred [of e "lirs_s s0" d] by (cases "e \<in> set (lirs_s s0)") (simp_all add: f(6,7) remove1_idem)
    show "lirs_lists (X - {e}) (lirs_s s') (lirs_r s') (lirs_q s') (lirs_g s') (ht s') (store s')"
      unfolding f(1-6) by (rule lists_remove [OF D(10) e(1) d])
  qed (use D(9) geo same(4,5) low in \<open>simp_all add: f(8-14)\<close>)
  have k: "key_of (store s') = key_of (store s0)" unfolding f(1) by (rule same_keys) simp
  have "lirs_abs s' = spec_erase ob (lirs_abs s0)"
  proof (rule lirs_abs_eqI)
  qed (unfold k f(3-6,13) low, use lirs_remove_key [OF ok e] in \<open>simp_all add: spec_erase_def\<close>)
  moreover have look: "\<forall>ob'. ht_lookup ob' s' = (if ob' = ob then None else ht_lookup ob' s0)"
    unfolding ht_lookup_def f(1,2) using lookup_removed [OF lirs_keys [OF ok] e] by blast
  moreover have "lirs_keeps (X - {e}) s0 s'" using look by (auto simp: lirs_keeps_def f(1))
  ultimately show ?thesis using run' base f(5,6) by blast
qed

text \<open>A remembered block is forgotten.\<close>

lemma lirs_remove_ghost:
  assumes ok: "lirs_base c m X d s0" and e: "e \<in> set (lirs_g s0)" "e_oblock (store s0 e) = ob"
    and s: "s = s0 \<or> (e \<in> set (lirs_s s0) \<and> s = s0\<lparr>lirs_s := remove1 e (lirs_s s0), lirs_r := remove1 e (lirs_r s0),
      lirs_s_len := lirs_s_len s0 - 1\<rparr>)"
  shows "\<exists>s'. lirs_remove_entry e s = Inr s' \<and> lirs_base c m X d s' \<and> lirs_abs s' = spec_forget ob (lirs_abs s0) \<and>
    ob \<notin> low (lirs_abs s0) \<and>
    (\<forall>ob'. ht_lookup ob' s' = (if ob' = ob then None else ht_lookup ob' s0)) \<and> lirs_keeps X s0 s' \<and>
    lirs_s s' = remove1 e (lirs_s s0) \<and> lirs_r s' = remove1 e (lirs_r s0)"
proof -
  note L = lirs_listsD [OF lirs_baseD(10) [OF ok]]
  have em: "e \<in> metas (ht s0)" using e(1) L(6) by simp
  then have et: "e \<in> set (ht s0)" "le_is_HIR (store s0 e)" "e \<notin> cached (ht s0)" "e \<notin> X"
    using L(8,11) ht_split(2) [of "ht s0"] by (auto simp: metas_def)
  have "e \<notin> set (lirs_q s0)" "e \<notin> low_entries s0" using et L(9) by (auto simp: low_entries_def)
  then have n: "ob \<notin> set (hirs (lirs_abs s0))" "ob \<notin> low (lirs_abs s0)"
    using lirs_member [OF ok et(1) e(2)] by blast+
  then have "spec_erase ob (lirs_abs s0) = spec_forget ob (lirs_abs s0)"
    by (simp add: spec_erase_def spec_forget_def remove1_idem)
  moreover have "X - {e} = X" using et(4) by simp
  ultimately show ?thesis using lirs_remove_entry_ok [OF ok et(1) e(2) et(2) s] n by auto
qed

section \<open>The bottom of the stack\<close>

text \<open>The lowest high block leaves the stack.\<close>

lemma lirs_r_evict_ok:
  assumes ok: "lirs_base c m X d s" and r: "lirs_r s = e # R"
  shows "\<exists>s'. lirs_r_evict s = Inr s' \<and> lirs_base c m X d s' \<and> lirs_abs s' = spec_forget (e_oblock (store s e)) (lirs_abs s) \<and>
    e_oblock (store s e) \<notin> low (lirs_abs s) \<and> lirs_keeps X s s' \<and> lirs_s s' = remove1 e (lirs_s s) \<and> e \<in> set (lirs_s s)"
proof -
  note D = lirs_baseD [OF ok] and L = lirs_listsD [OF lirs_baseD(10) [OF ok]]
  let ?ob = "e_oblock (store s e)"
  have "e \<in> set (lirs_r s)" by (simp add: r)
  then have e: "e \<in> set (lirs_s s)" "le_is_HIR (store s e)" using L(4) by auto
  then have et: "e \<in> set (ht s)" "e \<notin> X" using L(5) by auto
  let ?s1 = "s\<lparr>lirs_s := remove1 e (lirs_s s), lirs_r := remove1 e (lirs_r s), lirs_s_len := lirs_s_len s - 1\<rparr>"
  have nl: "e \<notin> low_entries s" using e(2) by (simp add: low_entries_def)
  then have nlow: "?ob \<notin> low (lirs_abs s)" using lirs_member(4) [OF ok et(1) refl] by blast
  show ?thesis
  proof (cases "fst e")
    case CacheRegion
    then have ec: "e \<in> cached (ht s)" using et by (simp add: cached_def)
    have "e \<notin> set (lirs_g s)" using ec L(6) ht_split(2) [of "ht s"] by auto
    then have ng: "?ob \<notin> set (remembered (lirs_abs s))" using lirs_member(3) [OF ok et(1) refl] by blast
    have low: "low_entries ?s1 = low_entries s" by (simp add: low_entries_def)
    have base: "lirs_base c m X d ?s1"
    proof (rule lirs_base_cong [OF ok])
      show "cn_ok ?s1" using D(1) by (simp add: cn_ok_def)
      show "lirs_s_len ?s1 = of_nat (length (lirs_s ?s1) + d)" using D(8) len_pred [OF e(1), of d] by simp
      show "lirs_lists X (lirs_s ?s1) (lirs_r ?s1) (lirs_q ?s1) (lirs_g ?s1) (ht ?s1) (store ?s1)"
        using lists_forget [OF D(10) ec e(2)] by simp
    qed (use D(9) low in simp_all)
    have "lirs_abs ?s1 = spec_forget ?ob (lirs_abs s)"
      using lirs_remove_key(1) [OF ok et(1) refl] ng low
      by (intro lirs_abs_eqI) (simp_all add: spec_forget_def remove1_idem)
    moreover have "lirs_r_evict s = Inr ?s1"
      using cn_in_cache [OF D(1) et(1)] CacheRegion
      by (simp add: lirs_r_evict_def r q_peek_def deref_def q_remove_def in_cache_def)
    moreover have "lirs_keeps X s ?s1" by (simp add: lirs_keeps_def ht_lookup_def)
    ultimately show ?thesis using base nlow e(1) by (intro exI [of _ ?s1]) simp
  next
    case MetaRegion
    then have "e \<in> set (lirs_g s)" using et L(6) by (simp add: metas_def)
    from lirs_remove_ghost [OF ok this refl, of ?s1] e(1) obtain s' where
      "lirs_remove_entry e ?s1 = Inr s'" "lirs_base c m X d s'" "lirs_abs s' = spec_forget ?ob (lirs_abs s)" "lirs_keeps X s s'"
      "lirs_s s' = remove1 e (lirs_s s)" by blast
    moreover have "lirs_r_evict s = lirs_remove_entry e ?s1"
      using cn_in_cache [OF D(1) et(1)] MetaRegion
      by (simp add: lirs_r_evict_def r q_peek_def deref_def q_remove_def in_cache_def)
    ultimately show ?thesis using nlow e(1) by auto
  qed
qed

text \<open>The loop that prunes the stack.\<close>

lemma lirs_find_last_ok:
  "lirs_base c m X d s \<Longrightarrow> \<exists>s'. lirs_find_last_lir_lru s = Inr s' \<and> lirs_base c m X d s' \<and>
    lirs_abs s' = spec_prune (lirs_abs s) \<and> lirs_keeps X s s'"
proof (induction "length (lirs_s s)" arbitrary: s)
  case 0
  then have "lirs_find_last_lir_lru s = Inr s"
    by (subst lirs_find_last_lir_lru.simps) (simp add: q_peek_def)
  moreover have "stack (lirs_abs s) = []" using 0 by simp
  then have "spec_prune (lirs_abs s) = lirs_abs s" by (simp add: spec_prune_stop)
  ultimately show ?case using 0 by (intro exI [of _ s]) simp
next
  case (Suc n)
  note ok = Suc.prems
  note L = lirs_listsD [OF lirs_baseD(10) [OF ok]]
  obtain e S where S: "lirs_s s = e # S" using Suc.hyps(2) by (cases "lirs_s s") auto
  have et: "e \<in> set (ht s)" using L(5) S by auto
  have st: "stack (lirs_abs s) = e_oblock (store s e) # map (key_of (store s)) S" by (simp add: S)
  show ?case
  proof (cases "le_is_HIR (store s e)")
    case False
    then have "lirs_find_last_lir_lru s = Inr s"
      by (subst lirs_find_last_lir_lru.simps) (simp add: q_peek_def S)
    moreover have "e \<in> low_entries s"
      using False L(8) et ht_split(1) [of "ht s"] by (auto simp: low_entries_def)
    then have "e_oblock (store s e) \<in> low (lirs_abs s)" by simp
    then have "spec_prune (lirs_abs s) = lirs_abs s" using st by (intro spec_prune_stop) simp
    ultimately show ?thesis using ok by (intro exI [of _ s]) simp
  next
    case True
    then have r: "lirs_r s = e # filter (\<lambda>e. le_is_HIR (store s e)) S" using L(4) S by simp
    from lirs_r_evict_ok [OF ok r] obtain s1 where
      s1: "lirs_r_evict s = Inr s1" "lirs_base c m X d s1" "lirs_abs s1 = spec_forget (e_oblock (store s e)) (lirs_abs s)"
      "e_oblock (store s e) \<notin> low (lirs_abs s)" "lirs_keeps X s s1" "lirs_s s1 = remove1 e (lirs_s s)" by blast
    have "n = length (lirs_s s1)" using Suc.hyps(2) by (simp add: s1(6) S)
    from Suc.hyps(1) [OF this s1(2)] obtain s' where
      s': "lirs_find_last_lir_lru s1 = Inr s'" "lirs_base c m X d s'" "lirs_abs s' = spec_prune (lirs_abs s1)" "lirs_keeps X s1 s'"
      by blast
    have "lirs_find_last_lir_lru s = Inr s'"
      using True r s1(1) s'(1) by (subst lirs_find_last_lir_lru.simps) (simp add: q_peek_def S)
    moreover have "lirs_abs s' = spec_prune (lirs_abs s)"
      unfolding s'(3) s1(3) using spec_prune_step [OF st s1(4)] by simp
    ultimately show ?thesis using s'(2) lirs_keeps_trans [OF s1(5) s'(4)] by blast
  qed
qed

text \<open>The stack is limited.\<close>

lemma lirs_prune_s_ok:
  assumes ok: "lirs_base c m X d s" and d: "d \<le> 1" and n: "n + d = 2 * unat c" and l: "card (low (lirs_abs s)) \<le> n"
  shows "\<exists>s'. lirs_prune_s s = Inr s' \<and> lirs_base c m X d s' \<and> lirs_abs s' = spec_limit n (lirs_abs s) \<and> lirs_keeps X s s'"
proof -
  note D = lirs_baseD [OF ok] and L = lirs_listsD [OF lirs_baseD(10) [OF ok]]
  have "length (lirs_s s) = card (set (lirs_s s))" using distinct_card [OF L(1)] by simp
  also have "\<dots> \<le> card (set (ht s))" by (rule card_mono) (use lirs_sub(1) [OF ok] in simp_all)
  also have "\<dots> = card (cached (ht s)) + card (metas (ht s))"
    using ht_split [of "ht s"] by (metis card_Un_disjoint finite_cached)
  finally have "length (lirs_s s) + d < 2 ^ 32"
    using card_cached_le [OF D(1)] card_metas_le [OF D(1)] D(2-4) d by (simp add: lirs_sizes_def)
  then have len: "unat (lirs_s_len s) = length (lirs_s s) + d"
    unfolding D(8) by (intro unat_of_nat_small) simp
  have "unat (2 * c) = 2 * unat c"
    using D(2) unat_mult_small [of 2 c] by (simp add: lirs_sizes_def)
  then have le: "lirs_s_len s \<le> lirs_s_maxlen s \<longleftrightarrow> length (lirs_s s) \<le> n"
    unfolding word_le_nat_alt D(7) len using n by linarith
  show ?thesis
  proof (cases "length (lirs_s s) \<le> n")
    case True
    then show ?thesis using ok le by (intro exI [of _ s]) (simp add: lirs_prune_s_def spec_limit_def)
  next
    case False
    have inj: "inj_on (key_of (store s)) (set (lirs_s s))" by (rule inj_on_subset [OF lirs_inj [OF ok] lirs_sub(1) [OF ok]])
    have "filter (\<lambda>x. x \<notin> low (lirs_abs s)) (stack (lirs_abs s)) \<noteq> []"
      by (rule high_in_stack) (use False l L(1) inj in \<open>simp_all add: distinct_map\<close>)
    moreover have "filter (\<lambda>x. x \<notin> low (lirs_abs s)) (stack (lirs_abs s)) = map (key_of (store s)) (lirs_r s)"
    proof -
      have "e_oblock (store s e) \<notin> low (lirs_abs s) \<longleftrightarrow> le_is_HIR (store s e)" if "e \<in> set (lirs_s s)" for e
      proof -
        have et: "e \<in> set (ht s)" using that lirs_sub(1) [OF ok] by auto
        have "e \<in> low_entries s \<longleftrightarrow> \<not> le_is_HIR (store s e)"
          using L(8) et ht_split(1) [of "ht s"] by (auto simp: low_entries_def)
        then show ?thesis using lirs_member(4) [OF ok et refl] by blast
      qed
      then have "filter (\<lambda>e. e_oblock (store s e) \<notin> low (lirs_abs s)) (lirs_s s) = lirs_r s"
        unfolding L(4) by (intro filter_cong) simp_all
      then show ?thesis unfolding lirs_abs_simps(1) filter_map comp_def by simp
    qed
    ultimately obtain e R where r: "lirs_r s = e # R"
      "filter (\<lambda>x. x \<notin> low (lirs_abs s)) (stack (lirs_abs s)) = e_oblock (store s e) # map (key_of (store s)) R"
      by (cases "lirs_r s") auto
    have "spec_limit n (lirs_abs s) = spec_forget (e_oblock (store s e)) (lirs_abs s)"
      using False r(2) by (simp only: spec_limit_def) simp
    moreover have "lirs_prune_s s = lirs_r_evict s" using False le by (simp add: lirs_prune_s_def)
    ultimately show ?thesis using lirs_r_evict_ok [OF ok r(1)] by auto
  qed
qed

section \<open>A block becomes high, or leaves the cache\<close>

lemma lirs_s_evict_ok:
  assumes ok: "lirs_base c m X d s" and a: "stack (lirs_abs s) = x # st" "x \<in> low (lirs_abs s)"
  shows "\<exists>s'. lirs_s_evict s = Inr s' \<and> lirs_base c m X d s' \<and> lirs_abs s' = spec_demote (lirs_abs s) \<and> lirs_keeps X s s'"
proof -
  note D = lirs_baseD [OF ok] and L = lirs_listsD [OF lirs_baseD(10) [OF ok]]
  obtain e S where S: "lirs_s s = e # S" "x = e_oblock (store s e)" using a(1) by (cases "lirs_s s") auto
  have et: "e \<in> set (ht s)" using L(5) S by auto
  have "e \<in> low_entries s" using a(2) lirs_member(4) [OF ok et refl] S(2) by blast
  then have ec: "e \<in> cached (ht s)" "\<not> le_is_HIR (store s e)" by (simp_all add: low_entries_def)
  let ?x = "(store s e)\<lparr>le_is_HIR := True\<rparr>"
  have "lirs_lists X (e # S) (lirs_r s) (lirs_q s) (lirs_g s) (ht s) (store s)" using D(10) S(1) by simp
  from lists_demote [OF this ec(2), of ?x]
  have LL: "lirs_lists X S (lirs_r s) (lirs_q s @ [e]) (lirs_g s) (ht s) ((store s)(e := ?x))" "e \<notin> X" "e \<notin> set (lirs_q s)"
    "e \<notin> set (lirs_g s)" by simp_all
  have nr: "e \<notin> set (lirs_r s)" using L(1,4) S ec(2) by auto
  define s1 where "s1 = s\<lparr>store := (store s)(e := ?x), lirs_lir_count := lirs_lir_count s - 1, lirs_s := S,
    lirs_s_len := lirs_s_len s - 1, lirs_q := lirs_q s @ [e]\<rparr>"
  have run: "lirs_s_evict s = Inr s1"
    using ec LL(3,4) nr S(1) cn_in_cache [OF D(1) et] remove1_idem [OF nr] remove1_idem [OF LL(3)] remove1_idem [OF LL(4)]
    by (simp add: lirs_s_evict_def q_peek_def deref_def log_assert_def in_cache_def cached_def remove_from_queues_eq
        lirs_push_to_queues_def q_push_def s1_def)
  have cn: "cn_ok s1"
  proof -
    have "cn_ok (s\<lparr>store := (store s)(e := ?x)\<rparr>)" by (rule cn_ok_upd [OF D(1)]) simp_all
    then show ?thesis by (simp add: cn_ok_def s1_def)
  qed
  have low: "low_entries s1 = low_entries s - {e}" by (auto simp: low_entries_def s1_def)
  have "e \<in> low_entries s" using ec by (simp add: low_entries_def)
  then have cl: "card (low_entries s) = Suc (card (low_entries s - {e}))" by (rule card.remove [OF finite_low_entries])
  have base: "lirs_base c m X d s1"
  proof (rule lirs_base_cong [OF ok cn])
    show "lirs_s_len s1 = of_nat (length (lirs_s s1) + d)" using D(8) S(1) by (simp add: s1_def)
    show "lirs_lir_count s1 = of_nat (card (low_entries s1))" unfolding low using D(9) cl by (simp add: s1_def)
    show "lirs_lists X (lirs_s s1) (lirs_r s1) (lirs_q s1) (lirs_g s1) (ht s1) (store s1)" using LL(1) by (simp add: s1_def)
  qed (simp_all add: s1_def)
  have k: "key_of (store s1) = key_of (store s)" unfolding s1_def by (simp add: fun_eq_iff)
  have "lirs_abs s1 = spec_demote (lirs_abs s)"
  proof (rule lirs_abs_eqI)
    show "key_of (store s1) ` low_entries s1 = low (spec_demote (lirs_abs s))"
      unfolding k low lirs_remove_key(4) [OF ok et refl] using a(1) S(2) by (simp add: spec_demote_def S(1))
  qed (unfold k, use S in \<open>simp_all add: spec_demote_def s1_def\<close>)
  moreover have "ht_lookup ob s1 = ht_lookup ob s" for ob
    unfolding ht_lookup_def using k by (simp add: s1_def)
  then have "lirs_keeps X s s1" using LL(2) by (auto simp: lirs_keeps_def s1_def)
  ultimately show ?thesis using run base by blast
qed

text \<open>\<open>queue_swap\<close> of an item with the last one, which is new, renames the item and moves it to the end.\<close>

lemma q_swap_last: "e \<in> set q \<Longrightarrow> e' \<notin> set q \<Longrightarrow> q_swap e e' (q @ [e']) = Inr (map (renamed e e') q @ [e])"
  by (auto simp: q_swap_def)

lemma remove1_snoc: "e \<notin> set q \<Longrightarrow> remove1 e (q @ [e]) = q"
  by (simp add: remove1_append)

lemma renamed_notin: "e \<notin> set (map (renamed e e') q)" if "e' \<noteq> e"
  using that by auto

text \<open>A cached high block of the stack becomes a remembered one: the metadata entry takes its place.\<close>

lemma lirs_rename_ok:
  assumes ok: "lirs_base c m X d s" and e: "e \<in> set (lirs_q s)" "e \<in> set (lirs_s s)" "e_oblock (store s e) = ob"
    and nf: "\<not> meta_is_full s"
  shows "\<exists>s'. rbind (insert_in_meta ob s) (\<lambda>(meta_le, s).
      let s = upd_entry meta_le (\<lambda>x. x\<lparr>le_is_HIR := True\<rparr>) s in
      rbind (lirs_push_to_queues meta_le {LIRS_G_FLAG, LIRS_R_FLAG, LIRS_S_FLAG} s) (\<lambda>s.
      let s = s\<lparr>lirs_s_len := lirs_s_len s + 1\<rparr> in
      rbind (q_swap e meta_le (lirs_r s)) (\<lambda>r.
      rbind (q_swap e meta_le (lirs_s s)) (\<lambda>q.
      lirs_remove_entry e (s\<lparr>lirs_r := r, lirs_s := q\<rparr>))))) = Inr s' \<and> lirs_base c m X d s' \<and>
    lirs_abs s' = (lirs_abs s)\<lparr>hirs := remove1 ob (hirs (lirs_abs s)), remembered := remembered (lirs_abs s) @ [ob]\<rparr> \<and>
    lirs_keeps X s s'"
proof -
  note D = lirs_baseD [OF ok] and L = lirs_listsD [OF lirs_baseD(10) [OF ok]]
  have d: "distinct (ht s)" by (rule cn_facts(1) [OF D(1)])
  have ec: "e \<in> cached (ht s)" "le_is_HIR (store s e)" "e \<notin> X" using e(1) L(9) by auto
  then have et: "e \<in> set (ht s)" by (simp add: cached_def)
  have er: "e \<in> set (lirs_r s)" using e(2) ec(2) L(4) by simp
  from insert_meta_remove [OF D(1) ec(1) e(3) nf] obtain e' mp cp where
    ins: "insert_in_meta ob s =
      Inr (e', s\<lparr>store := (store s)(e' := fresh_entry ob (store s e')), meta_pool := mp, ht := e' # ht s\<rparr>)"
    and e': "fst e' = MetaRegion" "e' \<notin> set (ht s)" "\<not> e_migrating (store s e')"
    and geo: "pool_geo mp = pool_geo (meta_pool s)" "pool_geo cp = pool_geo (cache_pool s)"
    and rem: "\<forall>x (s2 :: lirs_policy). e_oblock x = ob \<longrightarrow> e_allocated x \<longrightarrow> \<not> e_migrating x \<longrightarrow> store s2 = (store s)(e' := x) \<longrightarrow> wb s2 = wb s \<longrightarrow>
      cache_pool s2 = cache_pool s \<longrightarrow> meta_pool s2 = mp \<longrightarrow> ht s2 = e' # ht s \<longrightarrow>
      cache_nucleus_remove e s2 = Inr (s2\<lparr>store := (store s2)(e := freed_entry (store s e)),
        wb := (\<lambda>q. q_remove e (wb s q)), cache_pool := cp, ht := e' # remove1 e (ht s)\<rparr>) \<and>
      cn_ok (s2\<lparr>store := (store s2)(e := freed_entry (store s e)),
        wb := (\<lambda>q. q_remove e (wb s q)), cache_pool := cp, ht := e' # remove1 e (ht s)\<rparr>)" by blast
  have ne: "e' \<noteq> e" using e'(2) et by auto
  have n: "e' \<notin> set (lirs_s s)" "e' \<notin> set (lirs_r s)" "e' \<notin> set (lirs_q s)" "e' \<notin> set (lirs_g s)" "e \<notin> set (lirs_g s)" "e' \<notin> X"
    using lirs_sub [OF ok] e'(2) L(6) ec(1) ht_split(2) [of "ht s"] by auto
  let ?x = "(fresh_entry ob (store s e'))\<lparr>le_is_HIR := True\<rparr>"
  define s1 where "s1 = s\<lparr>meta_pool := mp, ht := e' # ht s, store := (store s)(e' := ?x), lirs_g := lirs_g s @ [e'],
    lirs_s_len := lirs_s_len s + 1, lirs_r := map (renamed e e') (lirs_r s) @ [e], lirs_s := map (renamed e e') (lirs_s s) @ [e]\<rparr>"
  define s2 where "s2 = s1\<lparr>lirs_q := remove1 e (lirs_q s), lirs_r := map (renamed e e') (lirs_r s),
    lirs_s := map (renamed e e') (lirs_s s), lirs_s_len := lirs_s_len s\<rparr>"
  have rq: "lirs_remove_from_queues e s1 = s2"
  proof -
    have r: "remove1 e (map (renamed e e') (lirs_r s) @ [e]) = map (renamed e e') (lirs_r s)"
      "remove1 e (map (renamed e e') (lirs_s s) @ [e]) = map (renamed e e') (lirs_s s)"
      by (rule remove1_snoc [OF renamed_notin [OF ne]])+
    have g: "remove1 e (lirs_g s @ [e']) = lirs_g s @ [e']" by (rule remove1_idem) (use n(5) ne in simp)
    show ?thesis unfolding remove_from_queues_eq s1_def s2_def by (simp add: r g)
  qed
  have "in_cache s2 (Some e) = in_cache s (Some e)" by (simp add: s2_def s1_def in_cache_def)
  then have ic: "in_cache s2 (Some e)" using cn_in_cache [OF D(1) et] ec(1) by (simp add: cached_def)
  define s3 where "s3 = (if \<not> e_migrating (store s2 e) then upd_stats inc_demotions s2 else s2)"
  have s3: "store s3 = (store s)(e' := ?x)" "wb s3 = wb s" "cache_pool s3 = cache_pool s" "meta_pool s3 = mp" "ht s3 = e' # ht s"
    "lirs_s s3 = map (renamed e e') (lirs_s s)" "lirs_r s3 = map (renamed e e') (lirs_r s)" "lirs_q s3 = remove1 e (lirs_q s)"
    "lirs_g s3 = lirs_g s @ [e']" "lirs_s_len s3 = lirs_s_len s" "lirs_lir_count s3 = lirs_lir_count s"
    "lirs_hir_limit s3 = lirs_hir_limit s" "lirs_s_maxlen s3 = lirs_s_maxlen s" "cache_size s3 = cache_size s"
    "lirs_last_oblock s3 = lirs_last_oblock s"
    by (simp_all add: s3_def s2_def s1_def)
  define s' where "s' = s3\<lparr>store := (store s3)(e := freed_entry (store s e)),
        wb := (\<lambda>q. q_remove e (wb s q)), cache_pool := cp, ht := e' # remove1 e (ht s)\<rparr>"
  have fin: "cache_nucleus_remove e s3 = Inr s'" "cn_ok s'"
    using rem [THEN spec [of _ ?x], THEN spec [of _ s3]] s3(1-5) e'(3) unfolding s'_def by simp_all
  have h: "(if \<not> le_is_HIR (store s2 e) then s2\<lparr>lirs_lir_count := lirs_lir_count s2 - 1\<rparr> else s2) = s2"
    using ec(2) ne by (simp add: s2_def s1_def)
  have "lirs_remove_entry e s1 = Inr s'"
    using fin(1) ic unfolding lirs_remove_entry_def rq Let_def h s3_def by simp
  moreover have "rbind (insert_in_meta ob s) (\<lambda>(meta_le, s).
      let s = upd_entry meta_le (\<lambda>x. x\<lparr>le_is_HIR := True\<rparr>) s in
      rbind (lirs_push_to_queues meta_le {LIRS_G_FLAG, LIRS_R_FLAG, LIRS_S_FLAG} s) (\<lambda>s.
      let s = s\<lparr>lirs_s_len := lirs_s_len s + 1\<rparr> in
      rbind (q_swap e meta_le (lirs_r s)) (\<lambda>r.
      rbind (q_swap e meta_le (lirs_s s)) (\<lambda>q.
      lirs_remove_entry e (s\<lparr>lirs_r := r, lirs_s := q\<rparr>))))) = lirs_remove_entry e s1"
    using n by (simp add: ins lirs_push_to_queues_def log_assert_def q_push_def q_swap_last [OF er] q_swap_last [OF e(2)] s1_def Let_def)
  moreover have low: "low_entries s' = low_entries s"
    using e' ec(2) ne by (auto simp: low_entries_def s'_def s3 cached_Cons cached_remove1 [OF d] cached_def)
  moreover have base: "lirs_base c m X d s'"
  proof (rule lirs_base_cong [OF ok fin(2)])
    show "lirs_lists X (lirs_s s') (lirs_r s') (lirs_q s') (lirs_g s') (ht s') (store s')"
      using lists_rename [OF D(10) ec(1,2) e(2) d e'(2,1), of ?x "freed_entry (store s e)"] e'(3) by (simp add: s'_def s3)
    show "lirs_lir_count s' = of_nat (card (low_entries s'))" unfolding low using D(9) by (simp add: s'_def s3)
  qed (use D(8) geo in \<open>simp_all add: s'_def s3\<close>)
  moreover have k: "e_oblock (store s' p) = (if p = e' then ob else e_oblock (store s p))" for p
    using ne by (simp add: s'_def s3)
  have same: "set xs \<subseteq> set (ht s) \<Longrightarrow> map (key_of (store s')) xs = map (key_of (store s)) xs" for xs
    using e'(2) by (auto simp: k)
  have "lirs_abs s' = (lirs_abs s)\<lparr>hirs := remove1 ob (hirs (lirs_abs s)), remembered := remembered (lirs_abs s) @ [ob]\<rparr>"
  proof (rule lirs_abs_eqI)
    have "map (key_of (store s')) (map (renamed e e') (lirs_s s)) = map (key_of (store s)) (lirs_s s)"
      using n(1) e(3) by (auto simp: k)
    then show "map (key_of (store s')) (lirs_s s') =
        stack ((lirs_abs s)\<lparr>hirs := remove1 ob (hirs (lirs_abs s)), remembered := remembered (lirs_abs s) @ [ob]\<rparr>)"
      by (simp add: s'_def s3)
    have "key_of (store s') ` low_entries s = key_of (store s) ` low_entries s"
      using lirs_sub(6) [OF ok] e'(2) by (auto simp: k image_def)
    then show "key_of (store s') ` low_entries s' =
        low ((lirs_abs s)\<lparr>hirs := remove1 ob (hirs (lirs_abs s)), remembered := remembered (lirs_abs s) @ [ob]\<rparr>)"
      unfolding low by simp
    have "set (remove1 e (lirs_q s)) \<subseteq> set (ht s)" using lirs_sub(2) [OF ok] set_remove1_subset [of e "lirs_q s"] by blast
    from same [OF this] show "map (key_of (store s')) (lirs_q s') =
        hirs ((lirs_abs s)\<lparr>hirs := remove1 ob (hirs (lirs_abs s)), remembered := remembered (lirs_abs s) @ [ob]\<rparr>)"
      using lirs_remove_key(2) [OF ok et e(3)] by (simp add: s'_def s3)
    show "map (key_of (store s')) (lirs_g s') =
        remembered ((lirs_abs s)\<lparr>hirs := remove1 ob (hirs (lirs_abs s)), remembered := remembered (lirs_abs s) @ [ob]\<rparr>)"
      using same [OF lirs_sub(3) [OF ok]] ne by (simp add: s'_def s3 k)
  qed (simp add: s'_def s3)
  moreover have "lirs_keeps X s s'"
  proof -
    have "ht_lookup b s' = None" if "ht_lookup b s = None" for b
    proof -
      have b: "b \<notin> key_of (store s) ` set (ht s)" using that lookup_None by blast
      then have "b \<noteq> ob" using et e(3) by auto
      moreover have "set (ht s') \<subseteq> insert e' (set (ht s))" using set_remove1_subset [of e "ht s"] by (auto simp: s'_def)
      ultimately have "b \<notin> key_of (store s') ` set (ht s')" using b by (auto simp: k)
      then show ?thesis using lookup_None by blast
    qed
    moreover have "\<forall>p \<in> X. store s' p = store s p" using n(6) ec(3) by (auto simp: s'_def s3)
    ultimately show ?thesis by (simp add: lirs_keeps_def)
  qed
  ultimately show ?thesis by auto
qed

lemma lirs_meta_full: "lirs_base c m X d s \<Longrightarrow> meta_is_full s \<longleftrightarrow> length (remembered (lirs_abs s)) = unat m"
  using meta_is_full_iff [OF lirs_baseD(1)] lirs_baseD(4) lirs_listsD(3,6) [OF lirs_baseD(10)]
  by (metis distinct_card length_map lirs_abs_simps(4))

lemma lirs_replace_ok:
  assumes ok: "lirs_base c m X d s" and e: "lirs_q s = e # q" "e \<in> set (lirs_s s)"
  shows "\<exists>s'. lirs_replace_with_meta e s = Inr s' \<and> lirs_base c m X d s' \<and>
    lirs_abs s' = spec_retire (unat m) (lirs_abs s) \<and> lirs_keeps X s s'"
proof -
  note D = lirs_baseD [OF ok] and L = lirs_listsD [OF lirs_baseD(10) [OF ok]]
  let ?ob = "e_oblock (store s e)"
  have eq: "e \<in> set (lirs_q s)" using e(1) by simp
  then have ec: "e \<in> cached (ht s)" "le_is_HIR (store s e)" using L(9) by auto
  then have et: "e \<in> set (ht s)" by (simp add: cached_def)
  have q: "hirs (lirs_abs s) = ?ob # map (key_of (store s)) q" by (simp add: e(1))
  have st: "?ob \<in> set (stack (lirs_abs s))" using e(2) by simp
  define body where "body = (\<lambda>s :: lirs_policy. rbind (insert_in_meta ?ob s) (\<lambda>(meta_le, s).
      let s = upd_entry meta_le (\<lambda>x. x\<lparr>le_is_HIR := True\<rparr>) s in
      rbind (lirs_push_to_queues meta_le {LIRS_G_FLAG, LIRS_R_FLAG, LIRS_S_FLAG} s) (\<lambda>s.
      let s = s\<lparr>lirs_s_len := lirs_s_len s + 1\<rparr> in
      rbind (q_swap e meta_le (lirs_r s)) (\<lambda>r.
      rbind (q_swap e meta_le (lirs_s s)) (\<lambda>q.
      lirs_remove_entry e (s\<lparr>lirs_r := r, lirs_s := q\<rparr>))))))"
  have run: "lirs_replace_with_meta e s = rbind (if meta_is_full s then lirs_g_evict s else Inr s) body"
    using e(2) ec(2) cn_in_cache [OF D(1) et] ec(1)
    by (simp add: lirs_replace_with_meta_def log_assert_def cached_def body_def)
  show ?thesis
  proof (cases "meta_is_full s")
    case False
    then have n: "length (remembered (lirs_abs s)) \<noteq> unat m" using lirs_meta_full [OF ok] by blast
    from lirs_rename_ok [OF ok eq e(2) refl False] obtain s' where
      "body s = Inr s'" "lirs_base c m X d s'" "lirs_keeps X s s'"
      "lirs_abs s' = (lirs_abs s)\<lparr>hirs := remove1 ?ob (hirs (lirs_abs s)), remembered := remembered (lirs_abs s) @ [?ob]\<rparr>"
      unfolding body_def by blast
    then show ?thesis using False n q st unfolding run by (simp add: spec_retire_def)
  next
    case True
    then have n: "length (remembered (lirs_abs s)) = unat m" using lirs_meta_full [OF ok] by blast
    then have "lirs_g s \<noteq> []" using D(2) by (auto simp: lirs_sizes_def)
    then obtain g G where g: "lirs_g s = g # G" by (auto simp: neq_Nil_conv)
    then have gm: "g \<in> set (lirs_g s)" by simp
    have ge: "g \<noteq> e" using gm L(6) ec(1) ht_split(2) [of "ht s"] by auto
    from lirs_remove_ghost [OF ok gm refl disjI1 [OF refl]] obtain s1 where
      s1: "lirs_remove_entry g s = Inr s1" "lirs_base c m X d s1" "lirs_abs s1 = spec_forget (e_oblock (store s g)) (lirs_abs s)"
      "lirs_keeps X s s1" "lirs_s s1 = remove1 g (lirs_s s)"
      "\<forall>ob'. ht_lookup ob' s1 = (if ob' = e_oblock (store s g) then None else ht_lookup ob' s)" by blast
    have gt: "g \<in> set (ht s)" using gm L(6) by (auto simp: metas_def)
    have go: "e_oblock (store s g) \<noteq> ?ob" using inj_onD [OF lirs_inj [OF ok] _ gt et] ge by blast
    have "ht_lookup ?ob s1 = Some e" using s1(6) go lookup_Some [OF D(1), of ?ob e] et by simp
    then have e1: "e \<in> set (ht s1)" "e_oblock (store s1 e) = ?ob" using lookup_Some [OF lirs_baseD(1) [OF s1(2)]] by blast+
    have "?ob \<in> set (hirs (lirs_abs s1))" using q by (simp add: s1(3))
    then have eq1: "e \<in> set (lirs_q s1)" using lirs_member(2) [OF s1(2) e1] by blast
    have es1: "e \<in> set (lirs_s s1)" using e(2) ge by (simp add: s1(5))
    have "1 \<le> unat m" using D(2) by (simp add: lirs_sizes_def)
    moreover have "length (remembered (lirs_abs s1)) = unat m - 1" using n g by (simp add: s1(3))
    ultimately have nf: "\<not> meta_is_full s1" unfolding lirs_meta_full [OF s1(2)] by linarith
    from lirs_rename_ok [OF s1(2) eq1 es1 e1(2) nf] obtain s' where
      s': "body s1 = Inr s'" "lirs_base c m X d s'" "lirs_keeps X s1 s'"
      "lirs_abs s' = (lirs_abs s1)\<lparr>hirs := remove1 ?ob (hirs (lirs_abs s1)), remembered := remembered (lirs_abs s1) @ [?ob]\<rparr>"
      unfolding body_def by blast
    have "lirs_g_evict s = Inr s1" using s1(1) by (simp add: lirs_g_evict_def g q_peek_def deref_def)
    moreover have "hd (remembered (lirs_abs s)) = e_oblock (store s g)" by (simp add: g)
    then have "lirs_abs s' = spec_retire (unat m) (lirs_abs s)"
      unfolding s'(4) s1(3) using q st n by (simp add: spec_retire_def)
    ultimately show ?thesis using True s' lirs_keeps_trans [OF s1(4) s'(3)] unfolding run by simp
  qed
qed

lemma lirs_q_evict_ok:
  assumes ok: "lirs_base c m X d s" and q: "hirs (lirs_abs s) = x # xs"
  shows "\<exists>r s'. lirs_q_evict r0 s = Inr (r, s') \<and> lirs_base c m X d s' \<and> lirs_abs s' = spec_retire (unat m) (lirs_abs s) \<and>
    lirs_keeps X s s' \<and> r_old_oblock r = x \<and> r_op r = r_op r0"
proof -
  note D = lirs_baseD [OF ok] and L = lirs_listsD [OF lirs_baseD(10) [OF ok]]
  obtain e es where e: "lirs_q s = e # es" "e_oblock (store s e) = x" using q by (cases "lirs_q s") auto
  then have eq: "e \<in> set (lirs_q s)" by simp
  then have ec: "e \<in> cached (ht s)" "le_is_HIR (store s e)" "e \<notin> X" using L(9) by auto
  then have et: "e \<in> set (ht s)" by (simp add: cached_def)
  show ?thesis
  proof (cases "e \<in> set (lirs_s s)")
    case True
    from lirs_replace_ok [OF ok e(1) True] show ?thesis using True e by (auto simp: lirs_q_evict_def q_peek_def deref_def)
  next
    case False
    have "e \<notin> set (lirs_g s)" using ec(1) L(6) ht_split(2) [of "ht s"] by auto
    then have n: "x \<notin> set (stack (lirs_abs s))" "x \<notin> set (remembered (lirs_abs s))"
      using lirs_member(1,3) [OF ok et e(2)] False by blast+
    have "spec_erase x (lirs_abs s) = (lirs_abs s)\<lparr>hirs := xs\<rparr>"
      using q remove1_idem [OF n(1)] remove1_idem [OF n(2)] by (simp only: spec_erase_def) simp
    then have "spec_erase x (lirs_abs s) = spec_retire (unat m) (lirs_abs s)"
      using q n(1) by (simp only: spec_retire_def) simp
    moreover have "X - {e} = X" using ec(3) by simp
    moreover from lirs_remove_entry_ok [OF ok et e(2) ec(2) disjI1 [OF refl]] obtain s' where
      "lirs_remove_entry e s = Inr s'" "lirs_base c m (X - {e}) d s'" "lirs_abs s' = spec_erase x (lirs_abs s)"
      "lirs_keeps (X - {e}) s s'" by blast
    ultimately show ?thesis using False e by (auto simp: lirs_q_evict_def q_peek_def deref_def)
  qed
qed

section \<open>The block of the access\<close>

text \<open>It leaves the queues.\<close>

lemma lirs_detach_cached:
  assumes ok: "lirs_base c m {} d s" and e: "e \<in> cached (ht s)" "e_oblock (store s e) = ob"
  shows "lirs_base c m {e} d (lirs_remove_from_queues e s)"
    "lirs_abs (lirs_remove_from_queues e s) = spec_take ob (lirs_abs s)"
proof -
  note D = lirs_baseD [OF ok] and L = lirs_listsD [OF lirs_baseD(10) [OF ok]]
  have et: "e \<in> set (ht s)" using e by (simp add: cached_def)
  have ng: "e \<notin> set (lirs_g s)" using e(1) L(6) ht_split(2) [of "ht s"] by auto
  define s1 where "s1 = lirs_remove_from_queues e s"
  have f: "lirs_q s1 = remove1 e (lirs_q s)" "lirs_g s1 = lirs_g s" "lirs_r s1 = remove1 e (lirs_r s)" "lirs_s s1 = remove1 e (lirs_s s)"
    "lirs_s_len s1 = (if e \<in> set (lirs_s s) then lirs_s_len s - 1 else lirs_s_len s)" "store s1 = store s" "ht s1 = ht s"
    "cache_pool s1 = cache_pool s" "meta_pool s1 = meta_pool s" "wb s1 = wb s" "cache_size s1 = cache_size s"
    "lirs_hir_limit s1 = lirs_hir_limit s" "lirs_s_maxlen s1 = lirs_s_maxlen s" "lirs_lir_count s1 = lirs_lir_count s"
    "lirs_last_oblock s1 = lirs_last_oblock s"
    using remove1_idem [OF ng] by (simp_all add: s1_def remove_from_queues_eq)
  have low: "low_entries s1 = low_entries s" by (simp add: low_entries_def f)
  have "lirs_base c m {e} d s1"
  proof (rule lirs_base_cong [OF ok])
    show "cn_ok s1" using D(1) by (simp add: cn_ok_def f)
    show "lirs_s_len s1 = of_nat (length (lirs_s s1) + d)"
      using D(8) len_pred [of e "lirs_s s" d] by (cases "e \<in> set (lirs_s s)") (simp_all add: f(4,5) remove1_idem)
    show "lirs_lists {e} (lirs_s s1) (lirs_r s1) (lirs_q s1) (lirs_g s1) (ht s1) (store s1)"
      unfolding f by (rule lists_away [OF D(10) e(1)])
  qed (use D(9) low in \<open>simp_all add: f\<close>)
  moreover have "lirs_abs s1 = spec_take ob (lirs_abs s)"
    by (rule lirs_abs_eqI) (use lirs_remove_key [OF ok et e(2)] low in \<open>simp_all add: f\<close>)
  ultimately show "lirs_base c m {e} d (lirs_remove_from_queues e s)"
    "lirs_abs (lirs_remove_from_queues e s) = spec_take ob (lirs_abs s)" by (simp_all add: s1_def)
qed

text \<open>A high block away from the queues becomes low.\<close>

lemma lirs_raise:
  assumes ok: "lirs_base c m {e} d s" and hi: "le_is_HIR (store s e)" and ob: "e_oblock (store s e) = ob"
  shows "lirs_base c m {e} d ((upd_entry e (\<lambda>x. x\<lparr>le_is_HIR := False\<rparr>) s)\<lparr>lirs_lir_count := lirs_lir_count s + 1\<rparr>)"
    "lirs_abs ((upd_entry e (\<lambda>x. x\<lparr>le_is_HIR := False\<rparr>) s)\<lparr>lirs_lir_count := lirs_lir_count s + 1\<rparr>) =
      (lirs_abs s)\<lparr>low := insert ob (low (lirs_abs s))\<rparr>"
proof -
  note D = lirs_baseD [OF ok] and L = lirs_listsD [OF lirs_baseD(10) [OF ok]]
  let ?x = "(store s e)\<lparr>le_is_HIR := False\<rparr>"
  define s1 where "s1 = (upd_entry e (\<lambda>x. x\<lparr>le_is_HIR := False\<rparr>) s)\<lparr>lirs_lir_count := lirs_lir_count s + 1\<rparr>"
  have ec: "e \<in> cached (ht s)" using L(11) by simp
  have low: "low_entries s1 = insert e (low_entries s)" "e \<notin> low_entries s"
    using ec hi by (auto simp: low_entries_def s1_def)
  have k: "key_of (store s1) = key_of (store s)" by (simp add: s1_def fun_eq_iff)
  have "lirs_base c m {e} d s1"
  proof (rule lirs_base_cong [OF ok])
    have "cn_ok (s\<lparr>store := (store s)(e := ?x)\<rparr>)" by (rule cn_ok_upd [OF D(1)]) simp_all
    then show "cn_ok s1" by (simp add: cn_ok_def s1_def)
    show "lirs_lir_count s1 = of_nat (card (low_entries s1))"
      unfolding low(1) using D(9) card_insert_disjoint [OF finite_low_entries low(2)] by (simp add: s1_def)
    show "lirs_lists {e} (lirs_s s1) (lirs_r s1) (lirs_q s1) (lirs_g s1) (ht s1) (store s1)"
      using lists_change [OF D(10), of ?x] by (simp add: s1_def)
  qed (use D(8) in \<open>simp_all add: s1_def\<close>)
  moreover have "lirs_abs s1 = (lirs_abs s)\<lparr>low := insert ob (low (lirs_abs s))\<rparr>"
  proof (rule lirs_abs_eqI)
  qed (unfold k low(1), use ob in \<open>simp_all add: s1_def\<close>)
  ultimately show "lirs_base c m {e} d ((upd_entry e (\<lambda>x. x\<lparr>le_is_HIR := False\<rparr>) s)\<lparr>lirs_lir_count := lirs_lir_count s + 1\<rparr>)"
    "lirs_abs ((upd_entry e (\<lambda>x. x\<lparr>le_is_HIR := False\<rparr>) s)\<lparr>lirs_lir_count := lirs_lir_count s + 1\<rparr>) =
      (lirs_abs s)\<lparr>low := insert ob (low (lirs_abs s))\<rparr>" by (simp_all add: s1_def)
qed

text \<open>It goes to the top.\<close>

definition lirs_pushed :: "eptr \<Rightarrow> lirs_policy \<Rightarrow> lirs_policy" where
  "lirs_pushed e s = (if le_is_HIR (store s e)
     then s\<lparr>lirs_q := lirs_q s @ [e], lirs_r := lirs_r s @ [e], lirs_s := lirs_s s @ [e]\<rparr> else s\<lparr>lirs_s := lirs_s s @ [e]\<rparr>)"

lemma lirs_push_run:
  assumes ok: "lirs_base c m {e} d s"
  shows "lirs_push_to_queues e (if le_is_HIR (store s e) then {LIRS_Q_FLAG, LIRS_R_FLAG, LIRS_S_FLAG} else {LIRS_S_FLAG}) s =
    Inr (lirs_pushed e s)"
proof -
  note L = lirs_listsD [OF lirs_baseD(10) [OF ok]]
  have "e \<notin> set (lirs_s s)" "e \<notin> set (lirs_q s)" "e \<notin> set (lirs_r s)" using L(4,5,9) by auto
  moreover have "e \<notin> set (lirs_g s)" using L(6,11) ht_split(2) [of "ht s"] by auto
  ultimately show ?thesis
    by (cases "le_is_HIR (store s e)") (simp_all add: lirs_push_to_queues_def log_assert_def q_push_def lirs_pushed_def)
qed

lemma lirs_pushed_ok:
  assumes ok: "lirs_base c m {e} (Suc d) s" and e: "\<not> e_migrating (store s e)" "e_oblock (store s e) = ob"
  shows "lirs_base c m {} d (lirs_pushed e s)" "lirs_abs (lirs_pushed e s) = spec_push ob (lirs_abs s)"
    "ht (lirs_pushed e s) = ht s" "store (lirs_pushed e s) = store s"
proof -
  note D = lirs_baseD [OF ok] and L = lirs_listsD [OF lirs_baseD(10) [OF ok]]
  have et: "e \<in> set (ht s)" using L(11) by (simp add: cached_def)
  have ec: "e \<in> low_entries s \<longleftrightarrow> \<not> le_is_HIR (store s e)" using L(11) by (simp add: low_entries_def)
  define s1 where "s1 = lirs_pushed e s"
  have f: "lirs_q s1 = (if le_is_HIR (store s e) then lirs_q s @ [e] else lirs_q s)"
    "lirs_r s1 = (if le_is_HIR (store s e) then lirs_r s @ [e] else lirs_r s)" "lirs_s s1 = lirs_s s @ [e]"
    "lirs_g s1 = lirs_g s" "lirs_s_len s1 = lirs_s_len s" "store s1 = store s" "ht s1 = ht s" "wb s1 = wb s"
    "cache_pool s1 = cache_pool s" "meta_pool s1 = meta_pool s" "cache_size s1 = cache_size s"
    "lirs_hir_limit s1 = lirs_hir_limit s" "lirs_s_maxlen s1 = lirs_s_maxlen s" "lirs_lir_count s1 = lirs_lir_count s"
    "lirs_last_oblock s1 = lirs_last_oblock s"
    by (simp_all add: s1_def lirs_pushed_def)
  have low: "low_entries s1 = low_entries s" by (simp add: low_entries_def f)
  have "lirs_base c m {} d s1"
  proof (rule lirs_base_cong [OF ok])
    show "cn_ok s1" using D(1) by (simp add: cn_ok_def f)
    show "lirs_lists {} (lirs_s s1) (lirs_r s1) (lirs_q s1) (lirs_g s1) (ht s1) (store s1)"
      using lists_home [OF D(10) e(1)] by (simp add: f)
  qed (use D(8,9) low in \<open>simp_all add: f\<close>)
  moreover have "lirs_abs s1 = spec_push ob (lirs_abs s)"
    using lirs_member(4) [OF ok et e(2)] ec e(2) low
    by (intro lirs_abs_eqI) (simp_all add: spec_push_def f)
  ultimately show "lirs_base c m {} d (lirs_pushed e s)" "lirs_abs (lirs_pushed e s) = spec_push ob (lirs_abs s)"
    "ht (lirs_pushed e s) = ht s" "store (lirs_pushed e s) = store s" using f by (simp_all add: s1_def)
qed

text \<open>A new block enters the cache, on its way.\<close>

lemma lirs_enter_fresh:
  assumes ok: "lirs_base c m {} d s" and new: "ht_lookup (lt_oblock lt) s = None" and nf: "\<not> cache_is_full s"
  shows "\<exists>e r s'. lirs_enter lt True e0 b r0 s = Inr (e, r, s') \<and> lirs_base c m {e} d s' \<and> e_migrating (store s' e) \<and>
    e_oblock (store s' e) = lt_oblock lt \<and> le_is_HIR (store s' e) = lt_is_HIR lt \<and> r_op r = r_op r0 \<and> r_old_oblock r = r_old_oblock r0 \<and>
    lirs_abs s' = (if lt_is_HIR lt then lirs_abs s else (lirs_abs s)\<lparr>low := insert (lt_oblock lt) (low (lirs_abs s))\<rparr>)"
proof -
  note D = lirs_baseD [OF ok] and L = lirs_listsD [OF lirs_baseD(10) [OF ok]]
  let ?ob = "lt_oblock lt"
  have "3 \<le> unat c" using D(2) by (simp add: lirs_sizes_def)
  then have two: "2 \<le> ep_nr_entries (cache_pool s)" unfolding D(3) word_le_nat_alt by simp
  from insert_in_cache_ok [OF D(1) nf new two, of r0] obtain e cb cp s1 where
    s1: "s1 = s\<lparr>store := (store s)(e := fresh_entry ?ob (store s e)), cache_pool := cp, ht := e # ht s\<rparr>"
    "insert_in_cache ?ob (Some r0) s = Inr (e, Some (r0\<lparr>r_cblock := cb\<rparr>), s1)" "cn_ok s1" "pool_geo cp = pool_geo (cache_pool s)"
    "fst e = CacheRegion" "e \<notin> set (ht s)" "\<not> e_migrating (store s e)" by blast
  let ?x = "(fresh_entry ?ob (store s e))\<lparr>le_is_HIR := lt_is_HIR lt\<rparr>"
  define s2 where "s2 = (let s = upd_entry e (\<lambda>x. x\<lparr>le_is_HIR := lt_is_HIR lt\<rparr>) s1
    in if \<not> lt_is_HIR lt then s\<lparr>lirs_lir_count := lirs_lir_count s + 1\<rparr> else s)"
  have f2: "store s2 = (store s)(e := ?x)" "ht s2 = e # ht s" "cache_pool s2 = cp" "meta_pool s2 = meta_pool s" "wb s2 = wb s"
    by (simp_all add: s2_def s1(1) Let_def)
  have cn2: "cn_ok s2"
  proof -
    have "cn_ok (s1\<lparr>store := (store s1)(e := (store s1 e)\<lparr>le_is_HIR := lt_is_HIR lt\<rparr>)\<rparr>)" by (rule cn_ok_upd [OF s1(3)]) simp_all
    then show ?thesis by (simp add: cn_ok_def f2 s1(1))
  qed
  have e2: "e \<in> cached (ht s2)" "\<not> e_migrating (store s2 e)" using s1(5,7) by (simp_all add: f2 cached_Cons)
  from cn_migrating_entry_ok [OF cn2 e2] obtain cp' s3 where
    s3: "s3 = s2\<lparr>store := (store s2)(e := (store s2 e)\<lparr>e_migrating := True\<rparr>), cache_pool := cp'\<rparr>"
    "cn_migrating_entry e s2 = Inr s3" "cn_ok s3" "pool_geo cp' = pool_geo (cache_pool s2)" by blast
  let ?y = "?x\<lparr>e_migrating := True\<rparr>"
  have f: "store s3 = (store s)(e := ?y)" "ht s3 = e # ht s" "cache_pool s3 = cp'" "meta_pool s3 = meta_pool s"
    "lirs_q s3 = lirs_q s" "lirs_g s3 = lirs_g s" "lirs_r s3 = lirs_r s" "lirs_s s3 = lirs_s s" "lirs_s_len s3 = lirs_s_len s"
    "cache_size s3 = cache_size s" "lirs_hir_limit s3 = lirs_hir_limit s" "lirs_s_maxlen s3 = lirs_s_maxlen s"
    "lirs_lir_count s3 = (if lt_is_HIR lt then lirs_lir_count s else lirs_lir_count s + 1)" "lirs_last_oblock s3 = lirs_last_oblock s"
    unfolding s3(1) f2 by (simp_all add: s2_def s1(1) Let_def)
  have run: "lirs_enter lt True e0 b r0 s = Inr (e, r0\<lparr>r_cblock := cb\<rparr>, s3)"
    using s1(2) s3(2) unfolding s2_def by (simp add: lirs_enter_def deref_def Let_def)
  have nl: "e \<notin> low_entries s" using s1(6) low_entries_in(2) by blast
  have low: "low_entries s3 = (if lt_is_HIR lt then low_entries s else insert e (low_entries s))"
  proof -
    have "p \<in> cached (ht s) \<Longrightarrow> p \<noteq> e" for p using s1(6) by (auto simp: cached_def)
    then show ?thesis using s1(5) unfolding low_entries_def f(1,2) cached_Cons by auto
  qed
  have base: "lirs_base c m {e} d s3"
  proof (rule lirs_base_cong [OF ok s3(3)])
    show "lirs_lir_count s3 = of_nat (card (low_entries s3))"
      unfolding low f(13) using D(9) card_insert_disjoint [OF finite_low_entries nl] by simp
    show "lirs_lists {e} (lirs_s s3) (lirs_r s3) (lirs_q s3) (lirs_g s3) (ht s3) (store s3)"
      unfolding f by (rule lists_admit [OF D(10) s1(6,5)])
  qed (use D(8) s1(4) s3(4) in \<open>simp_all add: f f2(3)\<close>)
  have same: "set xs \<subseteq> set (ht s) \<Longrightarrow> map (key_of (store s3)) xs = map (key_of (store s)) xs" for xs
    using s1(6) by (auto simp: f(1))
  have "key_of (store s3) ` low_entries s = key_of (store s) ` low_entries s"
    using nl by (intro image_cong) (auto simp: f(1))
  then have "lirs_abs s3 = (if lt_is_HIR lt then lirs_abs s else (lirs_abs s)\<lparr>low := insert ?ob (low (lirs_abs s))\<rparr>)"
    using same [OF lirs_sub(1) [OF ok]] same [OF lirs_sub(2) [OF ok]] same [OF lirs_sub(3) [OF ok]]
    by (intro lirs_abs_eqI) (simp_all add: f(5-14) low, simp_all add: f(1))
  then show ?thesis using run base by (intro exI [of _ e] exI [of _ "r0\<lparr>r_cblock := cb\<rparr>"] exI [of _ s3]) (simp add: f(1))
qed

end
