(* ===== verification/Lirs_Access.thy ===== *)
theory Lirs_Access
  imports Lirs_Steps
begin

text \<open>An access to LIRS: what the transaction decides, and that the commit is the access of \<open>spec_lirs\<close>.\<close>

declare split_paired_All [simp del] split_paired_Ex [simp del]

section \<open>What the transaction decides\<close>

definition lirs_ok :: "cblock \<Rightarrow> cblock \<Rightarrow> lirs_policy \<Rightarrow> bool" where
  "lirs_ok c m s \<longleftrightarrow> lirs_base c m {} 0 s \<and> spec_ok (unat c) (lirs_h c) (unat m) (lirs_abs s)"

lemma lirs_okD:
  assumes "lirs_ok c m s"
  shows "lirs_base c m {} 0 s" "spec_ok (unat c) (lirs_h c) (unat m) (lirs_abs s)"
  using assms by (simp_all add: lirs_ok_def)

lemma lirs_sizesD:
  assumes "lirs_sizes c m"
  shows "lirs_h c < unat c" "0 < lirs_h c" "0 < unat m" "0 < unat c" "2 * unat c < 2 ^ 32"
    "unat (max_u 2 (c div 100)) = lirs_h c"
proof -
  show "lirs_h c < unat c" "0 < lirs_h c" "0 < unat m" "0 < unat c" "2 * unat c < 2 ^ 32"
    using assms by (auto simp: lirs_sizes_def lirs_h_def)
  show "unat (max_u 2 (c div 100)) = lirs_h c"
    by (auto simp: max_u_def lirs_h_def word_less_nat_alt unat_div max_def)
qed

text \<open>The comparisons of the code on words are the ones of the abstract cache.\<close>

lemma lirs_counts:
  assumes ok: "lirs_ok c m s"
  shows "default_cache_is_full s \<longleftrightarrow> residents (lirs_abs s) = unat c"
    "cache_size s - default_residency s > lirs_hir_limit s \<longleftrightarrow> residents (lirs_abs s) < unat c - lirs_h c"
    "lirs_lir_count s + 1 > cache_size s - lirs_hir_limit s \<longleftrightarrow> card (low (lirs_abs s)) + 1 > unat c - lirs_h c"
proof -
  note O = lirs_okD [OF ok]
  note D = lirs_baseD [OF O(1)] and Z = lirs_sizesD [OF lirs_baseD(2) [OF O(1)]] and S = spec_okD [OF O(2)]
  have r: "residents (lirs_abs s) = card (cached (ht s))" by (rule lirs_wf(2) [OF O(1)])
  show "default_cache_is_full s \<longleftrightarrow> residents (lirs_abs s) = unat c"
    unfolding r default_cache_is_full_def using cache_is_full_iff [OF D(1)] D(3) by simp
  have c: "unat c < 2 ^ 32" using Z(5) by simp
  have small: "k \<le> unat c \<Longrightarrow> unat (of_nat k :: u32) = k" for k using c by (intro unat_of_nat_small) simp
  have "unat (default_residency s) = residents (lirs_abs s)"
    unfolding residency_card [OF D(1)] r [symmetric] by (rule small [OF S(3)])
  moreover have "unat (c - default_residency s) = unat c - unat (default_residency s)"
    using S(3) calculation by (intro unat_sub) (simp add: word_le_nat_alt)
  ultimately show "cache_size s - default_residency s > lirs_hir_limit s \<longleftrightarrow> residents (lirs_abs s) < unat c - lirs_h c"
    unfolding D(5,6) word_less_nat_alt Z(6) using S(3) by auto
  have "card (low_entries s) + 1 \<le> unat c"
    using S(4) Z(1,2) card_low [OF O(1)] by simp
  from small [OF this] have "unat (lirs_lir_count s + 1) = card (low (lirs_abs s)) + 1"
    unfolding D(9) card_low [OF O(1)] by (simp add: add.commute)
  moreover have "unat (c - max_u 2 (c div 100)) = unat c - lirs_h c"
    using Z(1,6) by (subst unat_sub) (simp_all add: word_le_nat_alt)
  ultimately show "lirs_lir_count s + 1 > cache_size s - lirs_hir_limit s \<longleftrightarrow> card (low (lirs_abs s)) + 1 > unat c - lirs_h c"
    unfolding D(5,6) word_less_nat_alt by simp
qed

text \<open>Where the block of the access is, by its entry.\<close>

lemma lirs_where:
  assumes ok: "lirs_base c m {} d s"
  shows "ob \<in> low (lirs_abs s) \<longleftrightarrow> (\<exists>e. ht_lookup ob s = Some e \<and> fst e = CacheRegion \<and> \<not> le_is_HIR (store s e))"
    "ob \<in> set (hirs (lirs_abs s)) \<longleftrightarrow> (\<exists>e. ht_lookup ob s = Some e \<and> fst e = CacheRegion \<and> le_is_HIR (store s e))"
    "ob \<in> set (remembered (lirs_abs s)) \<longleftrightarrow> (\<exists>e. ht_lookup ob s = Some e \<and> fst e = MetaRegion)"
proof -
  note D = lirs_baseD [OF ok] and L = lirs_listsD [OF lirs_baseD(10) [OF ok]] and P = lookup_Some [OF lirs_baseD(1) [OF ok]]
  show "ob \<in> low (lirs_abs s) \<longleftrightarrow> (\<exists>e. ht_lookup ob s = Some e \<and> fst e = CacheRegion \<and> \<not> le_is_HIR (store s e))"
    by (auto simp: P low_entries_def cached_def)
  show "ob \<in> set (hirs (lirs_abs s)) \<longleftrightarrow> (\<exists>e. ht_lookup ob s = Some e \<and> fst e = CacheRegion \<and> le_is_HIR (store s e))"
    by (auto simp: P L(9) cached_def)
  show "ob \<in> set (remembered (lirs_abs s)) \<longleftrightarrow> (\<exists>e. ht_lookup ob s = Some e \<and> fst e = MetaRegion)"
    by (auto simp: P L(6) metas_def)
qed

lemma lirs_peek_S:
  shows "q_peek (lirs_s s) = None \<longleftrightarrow> stack (lirs_abs s) = []"
    "q_peek (lirs_s s) = Some e \<Longrightarrow> stack (lirs_abs s) \<noteq> [] \<and> e_oblock (store s e) = hd (stack (lirs_abs s)) \<and> e \<in> set (lirs_s s)"
  by (auto simp: q_peek_def split: list.splits)

text \<open>There are as many low blocks as possible when a high block is cached or a block is remembered.\<close>

lemma low_full:
  assumes ok: "spec_ok c h m a" and ob: "ob \<in> set (hirs a) \<or> ob \<in> set (remembered a)" and h: "h < c"
  shows "card (low a) = c - h" "stack a \<noteq> []" "0 < residents a"
proof -
  note S = spec_okD [OF ok]
  have r: "card (low a) < residents a \<or> residents a = c"
    using ob S(3,5) by (cases "hirs a"; cases "residents a < c") (auto simp: residents_def)
  show "card (low a) = c - h" using r S(4) by auto
  show r0: "0 < residents a" using r h by auto
  show "stack a \<noteq> []" using spec_bottom [OF ok r0 h] by auto
qed

lemma lirs_legal:
  assumes ok: "lirs_ok c m s" and q: "lt_hir_evict lt \<Longrightarrow> lirs_q s \<noteq> []" and l: "lt_lir_evict lt \<Longrightarrow> lirs_s s \<noteq> []"
  shows "lirs_transaction_is_legal s lt"
proof -
  note O = lirs_okD [OF ok] and S = spec_okD [OF lirs_okD(2) [OF ok]]
  have c: "2 * unat c < 2 ^ 32" using lirs_sizesD(5) [OF lirs_baseD(2) [OF O(1)]] .
  have "length (lirs_s s) < 2 ^ 32" "length (lirs_q s) < 2 ^ 32" using S(3,6) c by (simp_all add: residents_def)
  then have u: "unat (q_length (lirs_s s)) = length (lirs_s s)" "unat (q_length (lirs_q s)) = length (lirs_q s)"
    unfolding q_length_def by (simp_all add: unat_of_nat_small)
  show ?thesis unfolding lirs_transaction_is_legal_def word_less_nat_alt u using q l by auto
qed

text \<open>The transaction, by the entry of the block.\<close>

lemma lirs_set_run:
  assumes nl: "ob \<noteq> lirs_last_oblock s" and full: "default_cache_is_full s \<longleftrightarrow> full"
    and roomy: "cache_size s - default_residency s > lirs_hir_limit s \<longleftrightarrow> roomy"
    and bottom: "(\<exists>x. q_peek (lirs_s s) = Some x \<and> e_oblock (store s x) = ob) \<longleftrightarrow> bottom"
    and many: "lirs_lir_count s + 1 > cache_size s - lirs_hir_limit s \<longleftrightarrow> many"
  shows "ht_lookup ob s = None \<Longrightarrow> lirs_transaction_set s (lirs_transaction_init ob) = Inr
      \<lparr>lt_oblock = ob, lt_repeat = False, lt_hir_evict = full, lt_lir_evict = False, lt_is_HIR = full \<or> \<not> roomy,
       lt_hir_remove = False, lt_hir_add = full \<or> \<not> roomy, lt_lir_s_lru = bottom\<rparr>"
    "ht_lookup ob s = Some e \<Longrightarrow> in_cache s (Some e) \<Longrightarrow> \<not> le_is_HIR (store s e) \<Longrightarrow>
      lirs_transaction_set s (lirs_transaction_init ob) = Inr
      \<lparr>lt_oblock = ob, lt_repeat = False, lt_hir_evict = False, lt_lir_evict = False, lt_is_HIR = False,
       lt_hir_remove = False, lt_hir_add = False, lt_lir_s_lru = bottom\<rparr>"
    "ht_lookup ob s = Some e \<Longrightarrow> in_cache s (Some e) \<Longrightarrow> le_is_HIR (store s e) \<Longrightarrow> lirs_s s \<noteq> [] \<Longrightarrow>
      lirs_transaction_set s (lirs_transaction_init ob) = Inr
      \<lparr>lt_oblock = ob, lt_repeat = False, lt_hir_evict = False, lt_lir_evict = many, lt_is_HIR = False,
       lt_hir_remove = True, lt_hir_add = False, lt_lir_s_lru = bottom\<rparr>"
    "ht_lookup ob s = Some e \<Longrightarrow> \<not> in_cache s (Some e) \<Longrightarrow> le_is_HIR (store s e) \<Longrightarrow> lirs_s s \<noteq> [] \<Longrightarrow> full \<Longrightarrow>
      lirs_transaction_set s (lirs_transaction_init ob) = Inr
      \<lparr>lt_oblock = ob, lt_repeat = False, lt_hir_evict = True, lt_lir_evict = many, lt_is_HIR = False,
       lt_hir_remove = False, lt_hir_add = False, lt_lir_s_lru = bottom\<rparr>"
proof -
  have nn [simp]: "\<not> in_cache s None" by (simp add: in_cache_def)
  note defs = lirs_transaction_set_def lirs_transaction_init_def Let_def q_peek_def deref_def
  show "ht_lookup ob s = None \<Longrightarrow> lirs_transaction_set s (lirs_transaction_init ob) = Inr
      \<lparr>lt_oblock = ob, lt_repeat = False, lt_hir_evict = full, lt_lir_evict = False, lt_is_HIR = full \<or> \<not> roomy,
       lt_hir_remove = False, lt_hir_add = full \<or> \<not> roomy, lt_lir_s_lru = bottom\<rparr>"
    using nl bottom by (cases "lirs_s s"; cases full; cases roomy; cases bottom) (simp_all add: defs full roomy many)
  show "ht_lookup ob s = Some e \<Longrightarrow> in_cache s (Some e) \<Longrightarrow> \<not> le_is_HIR (store s e) \<Longrightarrow>
      lirs_transaction_set s (lirs_transaction_init ob) = Inr
      \<lparr>lt_oblock = ob, lt_repeat = False, lt_hir_evict = False, lt_lir_evict = False, lt_is_HIR = False,
       lt_hir_remove = False, lt_hir_add = False, lt_lir_s_lru = bottom\<rparr>"
    using nl bottom by (cases "lirs_s s"; cases bottom) (simp_all add: defs full roomy many)
  show "ht_lookup ob s = Some e \<Longrightarrow> in_cache s (Some e) \<Longrightarrow> le_is_HIR (store s e) \<Longrightarrow> lirs_s s \<noteq> [] \<Longrightarrow>
      lirs_transaction_set s (lirs_transaction_init ob) = Inr
      \<lparr>lt_oblock = ob, lt_repeat = False, lt_hir_evict = False, lt_lir_evict = many, lt_is_HIR = False,
       lt_hir_remove = True, lt_hir_add = False, lt_lir_s_lru = bottom\<rparr>"
    using nl bottom by (cases "lirs_s s"; cases many; cases bottom) (simp_all add: defs full roomy many)
  show "ht_lookup ob s = Some e \<Longrightarrow> \<not> in_cache s (Some e) \<Longrightarrow> le_is_HIR (store s e) \<Longrightarrow> lirs_s s \<noteq> [] \<Longrightarrow> full \<Longrightarrow>
      lirs_transaction_set s (lirs_transaction_init ob) = Inr
      \<lparr>lt_oblock = ob, lt_repeat = False, lt_hir_evict = True, lt_lir_evict = many, lt_is_HIR = False,
       lt_hir_remove = False, lt_hir_add = False, lt_lir_s_lru = bottom\<rparr>"
    using nl bottom by (cases "lirs_s s"; cases many; cases bottom) (simp_all add: defs full roomy many)
qed

section \<open>The parts of the commit\<close>

text \<open>Statistics, the last accessed block and the counter of the stack.\<close>

lemma lirs_base_note:
  assumes ok: "lirs_base c m X d s"
  shows "lirs_base c m X d (s\<lparr>stats := x, lirs_last_oblock := ob\<rparr>)"
    "lirs_abs (s\<lparr>stats := x, lirs_last_oblock := ob\<rparr>) = (lirs_abs s)\<lparr>last_block := ob\<rparr>"
    "lirs_base c m X (Suc d) (s\<lparr>lirs_s_len := lirs_s_len s + 1\<rparr>)"
    "lirs_abs (s\<lparr>lirs_s_len := lirs_s_len s + 1\<rparr>) = lirs_abs s"
  using lirs_baseD [OF ok] by (simp_all add: lirs_base_def lirs_abs_def low_entries_def cn_ok_def ac_simps)

lemma lirs_base_stats:
  assumes ok: "lirs_base c m X d s"
  shows "lirs_base c m X d (upd_stats f s)" "lirs_abs (upd_stats f s) = lirs_abs s"
  using lirs_baseD [OF ok] by (simp_all add: lirs_base_def lirs_abs_def low_entries_def cn_ok_def)

lemma lirs_le_mark: "le_is_HIR (store (mark_dirty ob w s) p) = le_is_HIR (store s p)"
  by (simp add: mark_dirty_def split: option.splits)

lemma lirs_mark:
  assumes ok: "lirs_base c m X d s" and s': "s' = mark_dirty ob w (upd_stats inc_ios s)"
  shows "lirs_base c m X d s'" "lirs_abs s' = lirs_abs s" "ht s' = ht s"
    "e_oblock (store s' p) = e_oblock (store s p)" "e_migrating (store s' p) = e_migrating (store s p)"
    "le_is_HIR (store s' p) = le_is_HIR (store s p)"
proof -
  note D = lirs_baseD [OF ok]
  obtain s1 where s1: "s1 = upd_stats inc_ios s" by blast
  have cn: "cn_ok s1" using D(1) by (simp add: s1 cn_ok_def)
  have f1: "store s1 = store s" "ht s1 = ht s" "lirs_q s1 = lirs_q s" "lirs_s s1 = lirs_s s" "lirs_r s1 = lirs_r s" "lirs_g s1 = lirs_g s"
    "cache_pool s1 = cache_pool s" "meta_pool s1 = meta_pool s" "cache_size s1 = cache_size s" "lirs_s_len s1 = lirs_s_len s"
    "lirs_lir_count s1 = lirs_lir_count s" "lirs_s_maxlen s1 = lirs_s_maxlen s" "lirs_hir_limit s1 = lirs_hir_limit s"
    "lirs_last_oblock s1 = lirs_last_oblock s"
    by (simp_all add: s1)
  note K = mark_dirty_cases [OF cn, of ob w, folded s1 s' [unfolded s1 [symmetric]]]
  have f: "ht s' = ht s" "lirs_q s' = lirs_q s" "lirs_s s' = lirs_s s" "lirs_r s' = lirs_r s" "lirs_g s' = lirs_g s"
    "cache_pool s' = cache_pool s" "meta_pool s' = meta_pool s" "cache_size s' = cache_size s" "lirs_s_len s' = lirs_s_len s"
    "lirs_lir_count s' = lirs_lir_count s" "lirs_s_maxlen s' = lirs_s_maxlen s" "lirs_hir_limit s' = lirs_hir_limit s"
    "lirs_last_oblock s' = lirs_last_oblock s"
    by (subst K(3), simp add: f1)+
  have k: "e_oblock (store s' p) = e_oblock (store s p)" "e_migrating (store s' p) = e_migrating (store s p)"
    "le_is_HIR (store s' p) = le_is_HIR (store s p)" for p
    using K(4,5) lirs_le_mark [of ob w "upd_stats inc_ios s" p] by (simp_all add: f1 s')
  have low: "low_entries s' = low_entries s" by (simp add: low_entries_def f k)
  show "lirs_base c m X d s'"
    by (rule lirs_base_cong [OF ok K(1)]) (use D in \<open>simp_all add: f low lirs_lists_def k\<close>)
  show "lirs_abs s' = lirs_abs s" by (simp add: lirs_abs_def f low k)
  show "ht s' = ht s" "e_oblock (store s' p) = e_oblock (store s p)" "e_migrating (store s' p) = e_migrating (store s p)"
    "le_is_HIR (store s' p) = le_is_HIR (store s p)" by (rule f(1) k)+
qed

text \<open>The end of a hit: the block goes to the top, and the stack is limited.\<close>

lemma lirs_land:
  assumes ok: "lirs_base c m {e} 0 s" and e: "\<not> e_migrating (store s e)" "e_oblock (store s e) = ob" "\<not> le_is_HIR (store s e)"
    and l: "card (low (lirs_abs s)) \<le> unat c"
  shows "\<exists>s'. rbind (lirs_push_to_queues e {LIRS_S_FLAG} s) (\<lambda>s. lirs_prune_s (s\<lparr>lirs_s_len := lirs_s_len s + 1\<rparr>)) = Inr s' \<and>
    lirs_base c m {} 0 s' \<and> lirs_abs s' = spec_limit (2 * unat c) (spec_push ob (lirs_abs s))"
proof -
  define s1 where "s1 = s\<lparr>lirs_s_len := lirs_s_len s + 1\<rparr>"
  have b: "lirs_base c m {e} (Suc 0) s1" "lirs_abs s1 = lirs_abs s" unfolding s1_def by (rule lirs_base_note [OF ok])+
  have f: "store s1 = store s" by (simp add: s1_def)
  note P = lirs_pushed_ok [OF b(1), unfolded f, OF e(1,2)]
  have "lirs_push_to_queues e {LIRS_S_FLAG} s = Inr (lirs_pushed e s)" using lirs_push_run [OF ok] e(3) by simp
  moreover have "(lirs_pushed e s)\<lparr>lirs_s_len := lirs_s_len (lirs_pushed e s) + 1\<rparr> = lirs_pushed e s1"
    using e(3) by (simp add: lirs_pushed_def s1_def)
  moreover have "card (low (lirs_abs (lirs_pushed e s1))) \<le> 2 * unat c" unfolding P(2) b(2) using l by (simp add: spec_push_def)
  ultimately show ?thesis using lirs_prune_s_ok [OF P(1), of "2 * unat c"] by (auto simp: P(2) b(2))
qed

text \<open>The end of the migration.\<close>

lemma lirs_migrated_ok:
  assumes ok: "lirs_base c m {e} (Suc 0) s" and e: "e_migrating (store s e)" "e_oblock (store s e) = ob"
  shows "\<exists>s'. lirs_migrated_api ob s = Inr s' \<and> lirs_base c m {} 0 s' \<and> lirs_abs s' = spec_push ob (lirs_abs s)"
proof -
  note D = lirs_baseD [OF ok] and L = lirs_listsD [OF lirs_baseD(10) [OF ok]]
  have ec: "e \<in> cached (ht s)" using L(11) by simp
  then have lk: "ht_lookup ob s = Some e" using lookup_Some [OF D(1)] e(2) by (simp add: cached_def)
  from cn_migrated_entry_ok [OF D(1) ec e(1)] obtain cp s1 where
    1: "s1 = s\<lparr>store := (store s)(e := (store s e)\<lparr>e_migrating := False\<rparr>), cache_pool := cp\<rparr>"
    "cn_migrated_entry e s = Inr s1" "cn_ok s1" "pool_geo cp = pool_geo (cache_pool s)" by blast
  let ?x = "(store s e)\<lparr>e_migrating := False\<rparr>"
  have low: "low_entries s1 = low_entries s" by (auto simp: low_entries_def 1(1))
  have "lirs_base c m {e} (Suc 0) s1"
    by (rule lirs_base_cong [OF ok 1(3)]) (use D(8,9) lists_change [OF D(10)] in \<open>simp_all only: low, simp_all add: 1\<close>)
  note b = this
  have k: "key_of (store s1) = key_of (store s)" by (rule ext) (simp add: 1(1))
  have a: "lirs_abs s1 = lirs_abs s" unfolding lirs_abs_def k low by (simp add: 1(1))
  have e1: "\<not> e_migrating (store s1 e)" "e_oblock (store s1 e) = ob" using e(2) by (simp_all add: 1(1))
  note P = lirs_pushed_ok [OF b e1]
  have "lirs_migrated_api ob s = Inr (upd_stats inc_promotions (lirs_pushed e s1))"
    using lk e(1) lirs_push_run [OF b] by (simp add: lirs_migrated_api_def log_assert_def deref_def 1(2))
  then show ?thesis using lirs_base_stats [OF P(1)] P(2) a by simp
qed

section \<open>The accesses\<close>

definition lirs_bottom :: "lirs_policy \<Rightarrow> oblock \<Rightarrow> bool" where
  "lirs_bottom s ob \<longleftrightarrow> (\<exists>x. q_peek (lirs_s s) = Some x \<and> e_oblock (store s x) = ob)"

lemma lirs_bottom_iff: "lirs_bottom s ob \<longleftrightarrow> stack (lirs_abs s) \<noteq> [] \<and> hd (stack (lirs_abs s)) = ob"
  by (auto simp: lirs_bottom_def q_peek_def split: list.splits)

text \<open>A cached block leaves the queues; a low one may leave high ones at the bottom.\<close>

lemma lirs_leave:
  assumes ok: "lirs_base c m {} 0 s" and e: "ht_lookup ob s = Some e" "in_cache s (Some e)"
    and b: "stack (lirs_abs s) = [] \<or> hd (stack (lirs_abs s)) \<in> low (lirs_abs s)"
    and lt: "lt_oblock lt = ob" "lt_lir_s_lru lt = lirs_bottom s ob"
  shows "\<exists>s'. lirs_detach lt s = Inr s' \<and> lirs_base c m {e} 0 s' \<and> lirs_keeps {e} s s' \<and>
    lirs_abs s' = (if le_is_HIR (store s e) then spec_take ob (lirs_abs s) else spec_prune (spec_take ob (lirs_abs s)))"
proof -
  note D = lirs_baseD [OF ok] and L = lirs_listsD [OF lirs_baseD(10) [OF ok]]
  have em: "e \<in> set (ht s)" "e_oblock (store s e) = ob" using e(1) lookup_Some [OF D(1)] by blast+
  have reg: "fst e = CacheRegion" using cn_in_cache [OF D(1) em(1)] e(2) by simp
  have ec: "e \<in> cached (ht s)" using em(1) reg by (simp add: cached_def)
  have nm: "\<not> e_migrating (store s e)" "\<not> in_meta s (Some e)" using L(12) em(1) cn_in_meta [OF D(1) em(1)] reg by auto
  let ?s = "lirs_remove_from_queues e s"
  note A = lirs_detach_cached [OF ok ec em(2)]
  have k: "lirs_keeps {e} s ?s" by (simp add: lirs_keeps_def remove_from_queues_eq ht_lookup_def)
  have run: "lirs_detach lt s = (if lirs_bottom s ob then lirs_find_last_lir_lru ?s else Inr ?s)"
    using e nm lt by (simp add: lirs_detach_def)
  show ?thesis
  proof (cases "lirs_bottom s ob")
    case True
    then have "ob \<in> low (lirs_abs s)" using b unfolding lirs_bottom_iff by blast
    then have "\<not> le_is_HIR (store s e)" using lirs_where(1) [OF ok, of ob] e(1) by auto
    then show ?thesis using lirs_find_last_ok [OF A(1)] lirs_keeps_trans [OF k] run True A(2) by auto
  next
    case False
    have "stack (lirs_abs ?s) = [] \<or> hd (stack (lirs_abs ?s)) \<in> low (lirs_abs ?s)"
      using b False unfolding A(2) lirs_bottom_iff by (cases "stack (lirs_abs s)") auto
    then have "spec_prune (lirs_abs ?s) = lirs_abs ?s" by (rule spec_prune_stop)
    then show ?thesis using A k run False by (intro exI [of _ ?s]) simp
  qed
qed

lemma lirs_hit_low:
  assumes ok: "lirs_ok c m s" and new: "ob \<noteq> lirs_last_oblock s" and e: "ht_lookup ob s = Some e" "in_cache s (Some e)"
    "\<not> le_is_HIR (store s e)"
  shows "\<exists>lt r s'. lirs_transaction_set s (lirs_transaction_init ob) = Inr lt \<and> lirs_transaction_is_legal s lt \<and>
    lirs_transaction_commit lt r0 s = Inr (r, s') \<and> lirs_base c m {} 0 s' \<and> r_op r = CACHE_NUCLEUS_HIT \<and>
    lirs_abs s' = spec_limit (2 * unat c) (spec_push ob (spec_prune (spec_take ob ((lirs_abs s)\<lparr>last_block := ob\<rparr>))))"
proof -
  note O = lirs_okD [OF ok] and S = spec_okD [OF lirs_okD(2) [OF ok]]
  note D = lirs_baseD [OF O(1)] and L = lirs_listsD [OF lirs_baseD(10) [OF O(1)]]
  have em: "e \<in> set (ht s)" "e_oblock (store s e) = ob" using e(1) lookup_Some [OF D(1)] by blast+
  have nm: "\<not> e_migrating (store s e)" "\<not> in_meta s (Some e)"
    using L(12) em(1) cn_in_meta [OF D(1) em(1)] cn_in_cache [OF D(1) em(1)] e(2) by auto
  obtain lt where lt: "lt = \<lparr>lt_oblock = ob, lt_repeat = False, lt_hir_evict = False, lt_lir_evict = False, lt_is_HIR = False,
       lt_hir_remove = False, lt_hir_add = False, lt_lir_s_lru = lirs_bottom s ob\<rparr>" by blast
  have set: "lirs_transaction_set s (lirs_transaction_init ob) = Inr lt"
    unfolding lt by (rule lirs_set_run(2) [OF new refl refl lirs_bottom_def [symmetric] refl e])
  obtain s0 where s0: "s0 = s\<lparr>stats := inc_hits (stats s), lirs_last_oblock := ob\<rparr>" by blast
  have b0: "lirs_base c m {} 0 s0" "lirs_abs s0 = (lirs_abs s)\<lparr>last_block := ob\<rparr>" unfolding s0 by (rule lirs_base_note [OF O(1)])+
  have e0: "ht_lookup ob s0 = Some e" "in_cache s0 (Some e)" "store s0 = store s"
    using e by (simp_all add: s0 ht_lookup_def in_cache_def)
  have bot: "lirs_bottom s0 ob = lirs_bottom s ob" by (simp add: s0 lirs_bottom_def)
  from lirs_leave [OF b0(1) e0(1,2), of lt] obtain s1 where
    1: "lirs_detach lt s0 = Inr s1" "lirs_base c m {e} 0 s1" "lirs_keeps {e} s0 s1"
    "lirs_abs s1 = spec_prune (spec_take ob (lirs_abs s0))"
    using e(3) S(2) by (auto simp: lt bot b0(2) e0(3))
  have st: "store s1 e = store s e" using 1(3) e0(3) by (simp add: lirs_keeps_def)
  have W: "spec_wf {ob} (spec_take ob ((lirs_abs s)\<lparr>last_block := ob\<rparr>))"
    using lirs_where(1) [OF O(1), of ob] e cn_in_cache [OF D(1) em(1)] S(1) by (intro spec_wf_take) auto
  have "card (low (lirs_abs s1)) \<le> unat c"
    using S(3,4) unfolding 1(4) b0(2) spec_prune_simps(3) [OF W] by simp
  from lirs_land [OF 1(2) _ _ _ this, of ob] obtain s' where
    2: "rbind (lirs_push_to_queues e {LIRS_S_FLAG} s1) (\<lambda>s. lirs_prune_s (s\<lparr>lirs_s_len := lirs_s_len s + 1\<rparr>)) = Inr s'"
    "lirs_base c m {} 0 s'" "lirs_abs s' = spec_limit (2 * unat c) (spec_push ob (lirs_abs s1))"
    using nm em e(3) st by auto
  obtain s2 where 3: "lirs_push_to_queues e {LIRS_S_FLAG} s1 = Inr s2" "lirs_prune_s (s2\<lparr>lirs_s_len := lirs_s_len s2 + 1\<rparr>) = Inr s'"
    using 2(1) by auto
  have run: "lirs_transaction_commit lt r0 s = Inr (r0\<lparr>r_op := CACHE_NUCLEUS_HIT\<rparr>, s')"
    using e nm 1(1) 3 st unfolding s0
    by (simp add: lirs_transaction_commit_def lirs_enter_def deref_def lt Let_def)
  have legal: "lirs_transaction_is_legal s lt" by (simp add: lirs_transaction_is_legal_def lt)
  show ?thesis using set legal run 2(2,3) 1(4) b0(2) by simp
qed

text \<open>A high block away from the queues is promoted, at the cost of the block at the bottom.\<close>

lemma lirs_swap_low:
  assumes ok: "lirs_base c m {e} d s" and a: "stack (lirs_abs s) = x # st" "x \<in> low (lirs_abs s)"
  shows "\<exists>s'. rbind (lirs_s_evict s) lirs_find_last_lir_lru = Inr s' \<and> lirs_base c m {e} d s' \<and> store s' e = store s e \<and>
    lirs_abs s' = spec_prune (spec_demote (lirs_abs s))"
proof -
  from lirs_s_evict_ok [OF ok a] obtain s1 where
    1: "lirs_s_evict s = Inr s1" "lirs_base c m {e} d s1" "lirs_abs s1 = spec_demote (lirs_abs s)" "lirs_keeps {e} s s1" by blast
  from lirs_find_last_ok [OF 1(2)] obtain s2 where
    2: "lirs_find_last_lir_lru s1 = Inr s2" "lirs_base c m {e} d s2" "lirs_abs s2 = spec_prune (lirs_abs s1)" "lirs_keeps {e} s1 s2" by blast
  then show ?thesis using 1 lirs_keeps_trans [OF 1(4) 2(4)] by (intro exI [of _ s2]) (simp add: lirs_keeps_def)
qed

lemma lirs_hit_high:
  assumes ok: "lirs_ok c m s" and new: "ob \<noteq> lirs_last_oblock s" and e: "ht_lookup ob s = Some e" "in_cache s (Some e)"
    "le_is_HIR (store s e)"
  shows "\<exists>lt r s'. lirs_transaction_set s (lirs_transaction_init ob) = Inr lt \<and> lirs_transaction_is_legal s lt \<and>
    lirs_transaction_commit lt r0 s = Inr (r, s') \<and> lirs_base c m {} 0 s' \<and> r_op r = CACHE_NUCLEUS_HIT \<and>
    lirs_abs s' = spec_limit (2 * unat c) (spec_push ob (spec_promote ob (spec_take ob ((lirs_abs s)\<lparr>last_block := ob\<rparr>))))"
proof -
  note O = lirs_okD [OF ok] and S = spec_okD [OF lirs_okD(2) [OF ok]]
  note D = lirs_baseD [OF O(1)] and L = lirs_listsD [OF lirs_baseD(10) [OF O(1)]] and Z = lirs_sizesD [OF lirs_baseD(2) [OF O(1)]]
  have em: "e \<in> set (ht s)" "e_oblock (store s e) = ob" using e(1) lookup_Some [OF D(1)] by blast+
  have reg: "fst e = CacheRegion" using e(2) cn_in_cache [OF D(1) em(1)] by simp
  have nm: "\<not> e_migrating (store s e)" "\<not> in_meta s (Some e)"
    using L(12) em(1) cn_in_meta [OF D(1) em(1)] reg by auto
  have hi: "ob \<in> set (hirs (lirs_abs s))" "ob \<notin> low (lirs_abs s)"
    using lirs_where(1,2) [OF O(1), of ob] e reg by auto
  note F = low_full [OF O(2) disjI1 [OF hi(1)] Z(1)]
  have many: "lirs_lir_count s + 1 > cache_size s - lirs_hir_limit s \<longleftrightarrow> True" unfolding lirs_counts(3) [OF ok] using F(1) by simp
  have sne: "lirs_s s \<noteq> []" using F(2) by auto
  obtain x st where x: "stack (lirs_abs s) = x # st" "x \<in> low (lirs_abs s)" using spec_bottom [OF O(2) F(3) Z(1)] by blast
  obtain lt where lt: "lt = \<lparr>lt_oblock = ob, lt_repeat = False, lt_hir_evict = False, lt_lir_evict = True, lt_is_HIR = False,
       lt_hir_remove = True, lt_hir_add = False, lt_lir_s_lru = lirs_bottom s ob\<rparr>" by blast
  have set: "lirs_transaction_set s (lirs_transaction_init ob) = Inr lt"
    unfolding lt by (rule lirs_set_run(3) [OF new refl refl lirs_bottom_def [symmetric] many e sne])
  obtain s0 where s0: "s0 = s\<lparr>stats := inc_hits (stats s), lirs_last_oblock := ob\<rparr>" by blast
  have b0: "lirs_base c m {} 0 s0" "lirs_abs s0 = (lirs_abs s)\<lparr>last_block := ob\<rparr>" unfolding s0 by (rule lirs_base_note [OF O(1)])+
  have e0: "ht_lookup ob s0 = Some e" "in_cache s0 (Some e)" "store s0 = store s"
    using e by (simp_all add: s0 ht_lookup_def in_cache_def)
  have bot: "lirs_bottom s0 ob = lirs_bottom s ob" by (simp add: s0 lirs_bottom_def)
  from lirs_leave [OF b0(1) e0(1,2), of lt] obtain s1 where
    1: "lirs_detach lt s0 = Inr s1" "lirs_base c m {e} 0 s1" "lirs_keeps {e} s0 s1"
    "lirs_abs s1 = spec_take ob (lirs_abs s0)"
    using e(3) S(2) by (auto simp: lt bot b0(2) e0(3))
  have st: "store s1 e = store s e" using 1(3) e0(3) by (simp add: lirs_keeps_def)
  obtain s2 where s2: "s2 = (upd_entry e (\<lambda>x. x\<lparr>le_is_HIR := False\<rparr>) s1)\<lparr>lirs_lir_count := lirs_lir_count s1 + 1\<rparr>" by blast
  have b2: "lirs_base c m {e} 0 s2" "lirs_abs s2 = (lirs_abs s1)\<lparr>low := insert ob (low (lirs_abs s1))\<rparr>"
    unfolding s2 using lirs_raise [OF 1(2), of ob] st e(3) em(2) by simp_all
  have t2: "\<not> e_migrating (store s2 e)" "e_oblock (store s2 e) = ob" "\<not> le_is_HIR (store s2 e)"
    using st nm em by (simp_all add: s2)
  have xo: "ob \<noteq> x" using x(2) hi(2) by auto
  have x2: "stack (lirs_abs s2) = x # remove1 ob st" "x \<in> low (lirs_abs s2)"
    using x xo unfolding b2(2) 1(4) b0(2) by simp_all
  from lirs_swap_low [OF b2(1) x2] obtain s3 where
    3: "rbind (lirs_s_evict s2) lirs_find_last_lir_lru = Inr s3" "lirs_base c m {e} 0 s3" "store s3 e = store s2 e"
    "lirs_abs s3 = spec_prune (spec_demote (lirs_abs s2))" by blast
  have a3: "lirs_abs s3 = spec_promote ob (spec_take ob ((lirs_abs s)\<lparr>last_block := ob\<rparr>))"
    unfolding 3(4) b2(2) 1(4) b0(2) by (simp add: spec_promote_def)
  have W: "spec_wf {ob} (spec_take ob ((lirs_abs s)\<lparr>last_block := ob\<rparr>))"
    using hi(1) S(1) by (intro spec_wf_take) auto
  have sx: "stack (spec_take ob ((lirs_abs s)\<lparr>last_block := ob\<rparr>)) = x # remove1 ob st" "x \<in> low (spec_take ob ((lirs_abs s)\<lparr>last_block := ob\<rparr>))"
    "ob \<notin> low (spec_take ob ((lirs_abs s)\<lparr>last_block := ob\<rparr>))" using x xo hi(2) by simp_all
  have "card (low (lirs_abs s3)) \<le> unat c"
    unfolding a3 spec_promote_facts(7) [OF W sx] using S(3,4) by simp
  from lirs_land [OF 3(2) _ _ _ this, of ob] obtain s' where
    4: "rbind (lirs_push_to_queues e {LIRS_S_FLAG} s3) (\<lambda>s. lirs_prune_s (s\<lparr>lirs_s_len := lirs_s_len s + 1\<rparr>)) = Inr s'"
    "lirs_base c m {} 0 s'" "lirs_abs s' = spec_limit (2 * unat c) (spec_push ob (lirs_abs s3))"
    using t2 3(3) by auto
  obtain s4 where 5: "lirs_push_to_queues e {LIRS_S_FLAG} s3 = Inr s4" "lirs_prune_s (s4\<lparr>lirs_s_len := lirs_s_len s4 + 1\<rparr>) = Inr s'"
    using 4(1) by auto
  obtain s2' where q3: "lirs_s_evict s2 = Inr s2'" "lirs_find_last_lir_lru s2' = Inr s3" using 3(1) by auto
  have enter: "lirs_enter lt False (Some e) True r1 s1 = Inr (e, r1, s2)" for r1
    by (simp add: lirs_enter_def deref_def s2)
  have run: "lirs_transaction_commit lt r0 s = Inr (r0\<lparr>r_op := CACHE_NUCLEUS_HIT\<rparr>, s')"
    using e nm 1(1) q3 3(3) 5 t2(1) enter unfolding s0
    by (simp add: lirs_transaction_commit_def lt Let_def)
  have legal: "lirs_transaction_is_legal s lt" by (rule lirs_legal [OF ok]) (use sne in \<open>simp_all add: lt\<close>)
  show ?thesis using set legal run 4(2,3) a3 by simp
qed

text \<open>A block that is not cached enters on its way, after room has been made.\<close>

definition spec_room :: "nat \<Rightarrow> lirs_transaction \<Rightarrow> lirs_spec \<Rightarrow> lirs_spec" where
  "spec_room m lt a = (if lt_hir_evict lt then spec_retire m a else a)"

definition spec_enter :: "oblock \<Rightarrow> lirs_transaction \<Rightarrow> lirs_spec \<Rightarrow> lirs_spec" where
  "spec_enter ob lt a = (if lt_is_HIR lt then a else if lt_lir_evict lt then spec_promote ob a
     else a\<lparr>low := insert ob (low a)\<rparr>)"

lemma lirs_miss:
  assumes ok: "lirs_base c m {} 0 s" and new: "ht_lookup ob s = None" and lt: "lt_oblock lt = ob"
    and ev: "lt_hir_evict lt \<Longrightarrow> hirs (lirs_abs s) \<noteq> []" and room: "residents (spec_room (unat m) lt (lirs_abs s)) < unat c"
    and lir: "lt_lir_evict lt \<Longrightarrow> \<not> lt_is_HIR lt \<and> stack (spec_room (unat m) lt (lirs_abs s)) = x # st \<and>
      x \<in> low (spec_room (unat m) lt (lirs_abs s))"
    and l: "card (low (spec_enter ob lt (spec_room (unat m) lt (lirs_abs s)))) \<le> unat c"
  shows "\<exists>r e s'. rbind (if lt_hir_evict lt then lirs_q_evict r0 s else Inr (r0, s)) (\<lambda>(result, s).
        rbind (lirs_enter lt True e0 b result s) (\<lambda>(le, result, s).
        rbind (if lt_lir_evict lt then rbind (lirs_s_evict s) lirs_find_last_lir_lru else Inr s) (\<lambda>s.
        rbind (if \<not> e_migrating (store s le)
               then lirs_push_to_queues le
                      (if lt_is_HIR lt then {LIRS_Q_FLAG, LIRS_R_FLAG, LIRS_S_FLAG} else {LIRS_S_FLAG}) s
               else Inr s) (\<lambda>s.
        rbind (lirs_prune_s (s\<lparr>lirs_s_len := lirs_s_len s + 1\<rparr>)) (\<lambda>s. Inr (result, s)))))) = Inr (r, s') \<and>
    lirs_base c m {e} (Suc 0) s' \<and> e_migrating (store s' e) \<and> e_oblock (store s' e) = ob \<and> r_op r = r_op r0 \<and>
    (lt_hir_evict lt \<longrightarrow> r_old_oblock r = hd (hirs (lirs_abs s))) \<and>
    lirs_abs s' = spec_limit (2 * unat c - 1) (spec_enter ob lt (spec_room (unat m) lt (lirs_abs s)))"
proof -
  let ?a = "spec_room (unat m) lt (lirs_abs s)"
  note D = lirs_baseD [OF ok]
  have "\<exists>r1 s1. (if lt_hir_evict lt then lirs_q_evict r0 s else Inr (r0, s)) = Inr (r1, s1) \<and> lirs_base c m {} 0 s1 \<and>
    lirs_abs s1 = ?a \<and> ht_lookup ob s1 = None \<and> r_op r1 = r_op r0 \<and> (lt_hir_evict lt \<longrightarrow> r_old_oblock r1 = hd (hirs (lirs_abs s)))"
  proof (cases "lt_hir_evict lt")
    case True
    then obtain y ys where y: "hirs (lirs_abs s) = y # ys" using ev by (cases "hirs (lirs_abs s)") auto
    from lirs_q_evict_ok [OF ok y] show ?thesis using True new y by (fastforce simp: spec_room_def lirs_keeps_def)
  next
    case False
    then show ?thesis using ok new by (simp add: spec_room_def)
  qed
  then obtain r1 s1 where 1: "(if lt_hir_evict lt then lirs_q_evict r0 s else Inr (r0, s)) = Inr (r1, s1)" "lirs_base c m {} 0 s1"
    "lirs_abs s1 = ?a" "ht_lookup ob s1 = None" "r_op r1 = r_op r0" "lt_hir_evict lt \<longrightarrow> r_old_oblock r1 = hd (hirs (lirs_abs s))" by blast
  note D1 = lirs_baseD [OF 1(2)]
  have nf: "\<not> cache_is_full s1" using room cache_is_full_iff [OF D1(1)] lirs_wf(2) [OF 1(2)] by (simp add: 1(3) D1(3))
  from lirs_enter_fresh [OF 1(2) _ nf, of lt e0 b r1] obtain e r2 s2 where
    2: "lirs_enter lt True e0 b r1 s1 = Inr (e, r2, s2)" "lirs_base c m {e} 0 s2" "e_migrating (store s2 e)" "e_oblock (store s2 e) = ob"
    "r_op r2 = r_op r1" "r_old_oblock r2 = r_old_oblock r1"
    "lirs_abs s2 = (if lt_is_HIR lt then lirs_abs s1 else (lirs_abs s1)\<lparr>low := insert ob (low (lirs_abs s1))\<rparr>)"
    unfolding lt using 1(4) by blast
  have "\<exists>s3. (if lt_lir_evict lt then rbind (lirs_s_evict s2) lirs_find_last_lir_lru else Inr s2) = Inr s3 \<and>
    lirs_base c m {e} 0 s3 \<and> store s3 e = store s2 e \<and> lirs_abs s3 = spec_enter ob lt ?a"
  proof (cases "lt_lir_evict lt")
    case True
    have "stack (lirs_abs s2) = x # st" "x \<in> low (lirs_abs s2)" using lir [OF True] unfolding 2(7) 1(3) by simp_all
    from lirs_swap_low [OF 2(2) this] show ?thesis
      using True lir [OF True] unfolding 2(7) 1(3) by (simp add: spec_enter_def spec_promote_def)
  next
    case False
    then show ?thesis using 2(2) unfolding 2(7) 1(3) by (simp add: spec_enter_def 2(7) 1(3))
  qed
  then obtain s3 where 3: "(if lt_lir_evict lt then rbind (lirs_s_evict s2) lirs_find_last_lir_lru else Inr s2) = Inr s3"
    "lirs_base c m {e} 0 s3" "store s3 e = store s2 e" "lirs_abs s3 = spec_enter ob lt ?a" by blast
  obtain s4 where s4: "s4 = s3\<lparr>lirs_s_len := lirs_s_len s3 + 1\<rparr>" by blast
  have b4: "lirs_base c m {e} (Suc 0) s4" "lirs_abs s4 = lirs_abs s3" unfolding s4 by (rule lirs_base_note [OF 3(2)])+
  have "0 < unat c" using lirs_sizesD(4) [OF D(2)] .
  then have n: "(2 * unat c - 1) + Suc 0 = 2 * unat c" "card (low (lirs_abs s4)) \<le> 2 * unat c - 1"
    using l unfolding b4(2) 3(4) by simp_all
  from lirs_prune_s_ok [OF b4(1) _ n] obtain s' where
    4: "lirs_prune_s s4 = Inr s'" "lirs_base c m {e} (Suc 0) s'" "lirs_abs s' = spec_limit (2 * unat c - 1) (lirs_abs s4)" "lirs_keeps {e} s4 s'"
    by auto
  have st: "store s' e = store s2 e" using 4(4) 3(3) by (simp add: lirs_keeps_def s4)
  have "e_migrating (store s3 e)" using 2(3) 3(3) by simp
  then show ?thesis unfolding 1(1) using 2(1) 3(1) 4(1) 4(2) 2(3-6) 1(5,6) st unfolding s4
    by (intro exI [of _ r2] exI [of _ e] exI [of _ s']) (simp add: 4(3) b4(2) 3(4))
qed

lemma spec_readyD: "spec_ready c h m ob b \<Longrightarrow> spec_wf {ob} b" "spec_ready c h m ob b \<Longrightarrow> card (low b) \<le> c"
  by (auto simp: spec_ready_def Let_def)

text \<open>What a map of a block that is not cached comes to, with the end of its migration.\<close>

definition lirs_missed :: "cblock \<Rightarrow> cblock \<Rightarrow> oblock \<Rightarrow> bool \<Rightarrow> cn_result \<Rightarrow> lirs_policy \<Rightarrow> lirs_spec \<Rightarrow> bool" where
  "lirs_missed c m ob w r0 s a \<longleftrightarrow> (\<exists>r s' s''. lirs_map_api ob w r0 s = Inr (0, r, s') \<and>
     r_op r = (if residents (lirs_abs s) = unat c then CACHE_NUCLEUS_REPLACE else CACHE_NUCLEUS_NEW) \<and>
     (residents (lirs_abs s) = unat c \<longrightarrow> r_old_oblock r = hd (hirs (lirs_abs s))) \<and>
     lirs_migrated_api ob s' = Inr s'' \<and> lirs_base c m {} 0 s'' \<and> lirs_abs s'' = a)"

lemma lirs_missed_run:
  assumes ok: "lirs_ok c m s" and set: "lirs_transaction_set s (lirs_transaction_init ob) = Inr lt" and legal: "lirs_transaction_is_legal s lt"
    and lt: "lt_oblock lt = ob" "\<not> lt_repeat lt" "lt_hir_evict lt \<longleftrightarrow> residents (lirs_abs s) = unat c"
    and fresh: "ht_lookup ob s = None \<or> in_meta s (ht_lookup ob s)" "\<not> in_cache s (ht_lookup ob s)"
    and detach: "lirs_detach lt (s\<lparr>stats := inc_misses (stats s), lirs_last_oblock := ob\<rparr>) = Inr s1"
    and s1: "lirs_base c m {} 0 s1" "ht_lookup ob s1 = None" "hirs (lirs_abs s1) = hirs (lirs_abs s)"
    and ev: "lt_hir_evict lt \<Longrightarrow> hirs (lirs_abs s1) \<noteq> []" and room: "residents (spec_room (unat m) lt (lirs_abs s1)) < unat c"
    and lir: "lt_lir_evict lt \<Longrightarrow> \<not> lt_is_HIR lt \<and> stack (spec_room (unat m) lt (lirs_abs s1)) = x # st \<and>
      x \<in> low (spec_room (unat m) lt (lirs_abs s1))"
    and ready: "spec_ready (unat c) h (unat m) ob (spec_enter ob lt (spec_room (unat m) lt (lirs_abs s1)))"
  shows "lirs_missed c m ob w r0 s
    (spec_limit (2 * unat c) (spec_push ob (spec_enter ob lt (spec_room (unat m) lt (lirs_abs s1)))))"
proof -
  let ?a = "spec_enter ob lt (spec_room (unat m) lt (lirs_abs s1))"
  let ?r0 = "r0\<lparr>r_op := if lt_hir_evict lt then CACHE_NUCLEUS_REPLACE else CACHE_NUCLEUS_NEW\<rparr>"
  let ?hir = "case ht_lookup ob s of None \<Rightarrow> True | Some le \<Rightarrow> le_is_HIR (store s le)"
  note R = spec_readyD [OF ready]
  from lirs_miss [OF s1(1,2) lt(1) ev room lir R(2), of ?r0 "ht_lookup ob s" ?hir] obtain r e s2 where
    run: "rbind (if lt_hir_evict lt then lirs_q_evict ?r0 s1 else Inr (?r0, s1)) (\<lambda>(result, s').
        rbind (lirs_enter lt True (ht_lookup ob s) ?hir result s') (\<lambda>(le, result, s).
        rbind (if lt_lir_evict lt then rbind (lirs_s_evict s) lirs_find_last_lir_lru else Inr s) (\<lambda>s.
        rbind (if \<not> e_migrating (store s le)
               then lirs_push_to_queues le
                      (if lt_is_HIR lt then {LIRS_Q_FLAG, LIRS_R_FLAG, LIRS_S_FLAG} else {LIRS_S_FLAG}) s
               else Inr s) (\<lambda>s.
        rbind (lirs_prune_s (s\<lparr>lirs_s_len := lirs_s_len s + 1\<rparr>)) (\<lambda>s. Inr (result, s)))))) = Inr (r, s2)"
    and 2: "lirs_base c m {e} (Suc 0) s2" "e_migrating (store s2 e)" "e_oblock (store s2 e) = ob" "r_op r = r_op ?r0"
      "lt_hir_evict lt \<longrightarrow> r_old_oblock r = hd (hirs (lirs_abs s1))" "lirs_abs s2 = spec_limit (2 * unat c - 1) ?a" by blast
  have fr: "(ht_lookup ob s = None \<or> in_meta s (ht_lookup ob s)) = True" using fresh(1) by simp
  have commit: "lirs_transaction_commit lt r0 s = Inr (r, s2)"
    unfolding lirs_transaction_commit_def Let_def lt(1) fr if_not_P [OF fresh(2)] if_not_P [OF lt(2)] detach run by (simp only: rbind.simps)
      (use run in simp)
  obtain s3 where s3: "s3 = mark_dirty ob w (upd_stats inc_ios s2)" by blast
  note M = lirs_mark [OF 2(1) s3]
  have map: "lirs_map_api ob w r0 s = Inr (0, r, s3)"
    using set legal commit by (simp add: lirs_map_api_def s3)
  from lirs_migrated_ok [OF M(1), of ob] obtain s' where
    s': "lirs_migrated_api ob s3 = Inr s'" "lirs_base c m {} 0 s'" "lirs_abs s' = spec_push ob (lirs_abs s3)"
    using 2(2,3) M(4,5) by auto
  have "0 < unat c" using lirs_sizesD(4) [OF lirs_baseD(2) [OF s1(1)]] .
  then have n: "Suc (2 * unat c - 1) = 2 * unat c" "card (low ?a) \<le> 2 * unat c - 1" using R(2) by simp_all
  have "lirs_abs s' = spec_limit (2 * unat c) (spec_push ob ?a)"
    unfolding s'(3) M(2) 2(6) spec_limit_push [OF R(1) n(2), symmetric] n(1) ..
  then show ?thesis unfolding lirs_missed_def using map s'(1,2) 2(4,5) lt(3) s1(3)
    by (intro exI [of _ r] exI [of _ s3] exI [of _ s']) auto
qed

lemma residents_retire:
  assumes "spec_wf A a" "hirs a \<noteq> []" "0 < m"
  shows "residents (spec_retire m a) < residents a"
proof -
  obtain y q where y: "hirs a = y # q" using assms(2) by (cases "hirs a") auto
  show ?thesis using spec_retire_wf(2,3) [OF assms(1) y assms(3)] y by (simp add: residents_def)
qed

lemma lirs_miss_new:
  assumes ok: "lirs_ok c m s" and new: "ob \<noteq> last_block (lirs_abs s)" and nc: "ht_lookup ob s = None"
  shows "lirs_missed c m ob w r0 s (spec_lirs (unat c) (lirs_h c) (unat m) ob (lirs_abs s))"
proof -
  let ?c = "unat c" let ?h = "lirs_h c" let ?m = "unat m" let ?b = "(lirs_abs s)\<lparr>last_block := ob\<rparr>"
  note O = lirs_okD [OF ok] and S = spec_okD [OF lirs_okD(2) [OF ok]]
  note D = lirs_baseD [OF O(1)] and Z = lirs_sizesD [OF lirs_baseD(2) [OF O(1)]] and C = lirs_counts [OF ok]
  have w: "ob \<notin> low (lirs_abs s)" "ob \<notin> set (hirs (lirs_abs s))" "ob \<notin> set (remembered (lirs_abs s))"
    using lirs_where [OF O(1), of ob] nc by simp_all
  have "ob \<notin> set (stack (lirs_abs s))" using spec_wfD(8) [OF S(1)] w by blast
  then have bot: "lirs_bottom s ob \<longleftrightarrow> False" unfolding lirs_bottom_iff using hd_in_set by blast
  let ?full = "residents (lirs_abs s) = ?c" let ?roomy = "residents (lirs_abs s) < ?c - ?h"
  obtain lt where lt: "lt = \<lparr>lt_oblock = ob, lt_repeat = False, lt_hir_evict = ?full, lt_lir_evict = False,
       lt_is_HIR = (?full \<or> \<not> ?roomy), lt_hir_remove = False, lt_hir_add = (?full \<or> \<not> ?roomy), lt_lir_s_lru = False\<rparr>" by blast
  have nl: "ob \<noteq> lirs_last_oblock s" using new by simp
  have set: "lirs_transaction_set s (lirs_transaction_init ob) = Inr lt"
    unfolding lt by (rule lirs_set_run(1) [OF nl C(1,2) bot [unfolded lirs_bottom_def] refl nc])
  have q: "?full \<Longrightarrow> length (hirs (lirs_abs s)) = ?h" using S(4) Z(1) by (simp add: residents_def)
  then have qn: "?full \<Longrightarrow> hirs (lirs_abs s) \<noteq> []" using Z(2) by auto
  have legal: "lirs_transaction_is_legal s lt" by (rule lirs_legal [OF ok]) (use qn in \<open>auto simp: lt\<close>)
  note N = lirs_base_note(1,2) [OF O(1), where x = "inc_misses (stats s)" and ob = ob]
  have detach: "lirs_detach lt (s\<lparr>stats := inc_misses (stats s), lirs_last_oblock := ob\<rparr>) =
      Inr (s\<lparr>stats := inc_misses (stats s), lirs_last_oblock := ob\<rparr>)"
    using nc by (simp add: lirs_detach_def lt in_meta_def ht_lookup_def)
  have ne: "residents ?b = residents (lirs_abs s)" by (simp add: residents_def)
  have room: "residents (spec_room ?m lt ?b) < ?c"
  proof (cases ?full)
    case True
    then have "hirs ?b \<noteq> []" "spec_wf {} ?b" using qn S(1) by simp_all
    from residents_retire [OF this(2,1) Z(3)] show ?thesis using True ne by (simp add: spec_room_def lt del: lirs_abs_simps)
  next
    case False
    then show ?thesis using S(3) by (simp add: spec_room_def lt ne)
  qed
  let ?to = "spec_enter ob lt (spec_room ?m lt ?b)"
  have to: "?to = (if ?full then spec_retire ?m ?b else if ?roomy then ?b\<lparr>low := insert ob (low ?b)\<rparr> else ?b)"
    by (simp add: spec_enter_def spec_room_def lt)
  have ready: "spec_ready ?c ?h ?m ob ?to"
  proof (cases ?full)
    case True
    then show ?thesis unfolding to using spec_ready_full [OF O(2) w True Z(1-3)] by simp
  next
    case False
    then have r: "residents (lirs_abs s) < ?c" using S(3) by simp
    show ?thesis unfolding to if_not_P [OF False] using spec_ready_new [OF O(2) w(1,2) r Z(1)] by simp
  qed
  have "spec_lirs ?c ?h ?m ob (lirs_abs s) = spec_limit (2 * ?c) (spec_push ob ?to)"
  proof (cases ?full)
    case True
    then show ?thesis unfolding to using new w by (simp add: spec_lirs_def Let_def ne del: lirs_abs_simps)
  next
    case False
    then have r: "residents (lirs_abs s) < ?c" using S(3) by simp
    show ?thesis unfolding to if_not_P [OF False] using r new w by (simp add: spec_lirs_def Let_def ne del: lirs_abs_simps)
  qed
  moreover have "lirs_missed c m ob w r0 s (spec_limit (2 * ?c) (spec_push ob
      (spec_enter ob lt (spec_room ?m lt (lirs_abs (s\<lparr>stats := inc_misses (stats s), lirs_last_oblock := ob\<rparr>))))))"
    by (rule lirs_missed_run [OF ok set legal, where ?s1.0 = "s\<lparr>stats := inc_misses (stats s), lirs_last_oblock := ob\<rparr>"])
      (use nc N(1) detach qn room ready in \<open>simp_all add: lt N(2) in_cache_def ht_lookup_def\<close>)
  ultimately show ?thesis unfolding N(2) by simp
qed

lemma lirs_miss_ghost:
  assumes ok: "lirs_ok c m s" and new: "ob \<noteq> last_block (lirs_abs s)" and e: "ht_lookup ob s = Some e" "\<not> in_cache s (Some e)"
  shows "lirs_missed c m ob w r0 s (spec_lirs (unat c) (lirs_h c) (unat m) ob (lirs_abs s))"
proof -
  let ?c = "unat c" let ?h = "lirs_h c" let ?m = "unat m" let ?b = "spec_forget ob ((lirs_abs s)\<lparr>last_block := ob\<rparr>)"
  note O = lirs_okD [OF ok] and S = spec_okD [OF lirs_okD(2) [OF ok]]
  note D = lirs_baseD [OF O(1)] and Z = lirs_sizesD [OF lirs_baseD(2) [OF O(1)]] and C = lirs_counts [OF ok]
  note L = lirs_listsD [OF lirs_baseD(10) [OF O(1)]]
  have em: "e \<in> set (ht s)" "e_oblock (store s e) = ob" using e(1) lookup_Some [OF D(1)] by blast+
  have reg: "fst e = MetaRegion" using e(2) cn_in_cache [OF D(1) em(1)] by (cases "fst e") auto
  have eg: "e \<in> set (lirs_g s)" using L(6) em(1) reg by (simp add: metas_def)
  have hi: "le_is_HIR (store s e)" using L(8) em(1) reg by (simp add: metas_def)
  have w: "ob \<notin> low (lirs_abs s)" "ob \<notin> set (hirs (lirs_abs s))" "ob \<in> set (remembered (lirs_abs s))"
    using lirs_where [OF O(1), of ob] e(1) reg by simp_all
  then have "remembered (lirs_abs s) \<noteq> []" by auto
  then have full: "residents (lirs_abs s) = ?c" using S(3,5) by fastforce
  note F = low_full [OF O(2) disjI2 [OF w(3)] Z(1)]
  have many: "lirs_lir_count s + 1 > cache_size s - lirs_hir_limit s \<longleftrightarrow> True" unfolding C(3) using F(1) by simp
  have sne: "lirs_s s \<noteq> []" using F(2) by auto
  have bot: "lirs_bottom s ob \<longleftrightarrow> False" unfolding lirs_bottom_iff using S(2) w(1) by blast
  have fl: "default_cache_is_full s \<longleftrightarrow> True" using C(1) full by simp
  obtain lt where lt: "lt = \<lparr>lt_oblock = ob, lt_repeat = False, lt_hir_evict = True, lt_lir_evict = True, lt_is_HIR = False,
       lt_hir_remove = False, lt_hir_add = False, lt_lir_s_lru = False\<rparr>" by blast
  have nl: "ob \<noteq> lirs_last_oblock s" using new by simp
  have set: "lirs_transaction_set s (lirs_transaction_init ob) = Inr lt"
    unfolding lt by (rule lirs_set_run(4) [OF nl fl refl bot [unfolded lirs_bottom_def] many e hi sne TrueI])
  have "length (hirs (lirs_abs s)) = ?h" using S(4) Z(1) full by (simp add: residents_def)
  then have qn: "hirs (lirs_abs s) \<noteq> []" using Z(2) by auto
  have legal: "lirs_transaction_is_legal s lt" by (rule lirs_legal [OF ok]) (use qn sne in auto)
  obtain s0 where s0: "s0 = s\<lparr>stats := inc_misses (stats s), lirs_last_oblock := ob\<rparr>" by blast
  have b0: "lirs_base c m {} 0 s0" "lirs_abs s0 = (lirs_abs s)\<lparr>last_block := ob\<rparr>" unfolding s0 by (rule lirs_base_note [OF O(1)])+
  have e0: "e \<in> set (lirs_g s0)" "e_oblock (store s0 e) = ob" "ht_lookup ob s0 = Some e" "in_meta s0 (Some e)"
    using eg em e(1) cn_in_meta [OF D(1) em(1)] reg by (simp_all add: s0 ht_lookup_def in_meta_def)
  from lirs_remove_ghost [OF b0(1) e0(1,2) disjI1 [OF refl]] obtain s1 where
    1: "lirs_remove_entry e s0 = Inr s1" "lirs_base c m {} 0 s1" "lirs_abs s1 = ?b" "ht_lookup ob s1 = None"
    unfolding b0(2) by auto
  have detach: "lirs_detach lt s0 = Inr s1" using e0(3,4) 1(1) by (simp add: lirs_detach_def lt deref_def)
  have wf: "spec_wf {} ?b" by (rule spec_wf_forget) (use S(1) w(1) in simp_all)
  have qb: "hirs ?b = hirs (lirs_abs s)" "low ?b = low (lirs_abs s)" "residents ?b = ?c"
    using full by (simp_all add: residents_def)
  have room: "residents (spec_room ?m lt ?b) < ?c"
    using residents_retire [OF wf _ Z(3)] qn unfolding qb(1,3) by (simp add: spec_room_def lt)
  obtain y ys where y: "hirs ?b = y # ys" using qn qb(1) by (cases "hirs (lirs_abs s)") auto
  note R = spec_retire_wf [OF wf y Z(3)]
  obtain x xs where x: "stack (lirs_abs s) = x # xs" "x \<in> low (lirs_abs s)" using spec_bottom [OF O(2) F(3) Z(1)] by blast
  have xb: "stack ?b \<noteq> []" "hd (stack ?b) = x" "x \<in> low ?b" using x w(1) by auto
  then have "hd (stack (spec_retire ?m ?b)) = x" "stack (spec_retire ?m ?b) \<noteq> []" using R(7) by auto
  then obtain st where st: "stack (spec_room ?m lt ?b) = x # st" "x \<in> low (spec_room ?m lt ?b)"
    using xb(3) by (cases "stack (spec_retire ?m ?b)") (auto simp: spec_room_def lt R(2) simp del: lirs_abs_simps)
  let ?to = "spec_enter ob lt (spec_room ?m lt ?b)"
  have to: "?to = spec_promote ob (spec_retire ?m ?b)" by (simp add: spec_enter_def spec_room_def lt)
  have ready: "spec_ready ?c ?h ?m ob ?to" unfolding to by (rule spec_ready_ghost [OF O(2) w(1,2) full Z(1-3)])
  have ne: "residents ((lirs_abs s)\<lparr>last_block := ob\<rparr>) = residents (lirs_abs s)" by (simp add: residents_def)
  have "spec_lirs ?c ?h ?m ob (lirs_abs s) = spec_limit (2 * ?c) (spec_push ob ?to)"
    unfolding to using new w full by (simp add: spec_lirs_def Let_def ne del: lirs_abs_simps)
  moreover have "lirs_missed c m ob w r0 s (spec_limit (2 * ?c) (spec_push ob
      (spec_enter ob lt (spec_room ?m lt (lirs_abs s1)))))"
    by (rule lirs_missed_run [OF ok set legal _ _ _ _ _ detach [unfolded s0] 1(2,4)])
      (use e cn_in_meta [OF D(1) em(1)] reg full qn qb(1) room st ready in \<open>simp_all add: lt 1(3) del: lirs_abs_simps\<close>)
  ultimately show ?thesis unfolding 1(3) by simp
qed

section \<open>An access is the access of the abstract cache\<close>

text \<open>A block that is accessed twice in a row changes nothing.\<close>

lemma lirs_repeat:
  assumes ok: "lirs_ok c m s" and last: "ob = last_block (lirs_abs s)" and cached: "ob \<in> spec_cached (lirs_abs s)"
  shows "\<exists>r s'. lirs_map_api ob w r0 s = Inr (0, r, s') \<and> r_op r = CACHE_NUCLEUS_HIT \<and> lirs_base c m {} 0 s' \<and> lirs_abs s' = lirs_abs s"
proof -
  note O = lirs_okD [OF ok]
  note D = lirs_baseD [OF O(1)]
  obtain e where e: "ht_lookup ob s = Some e" "fst e = CacheRegion"
    using lirs_where(1,2) [OF O(1), of ob] cached unfolding spec_cached_def by blast
  then have ic: "in_cache s (Some e)" using cn_in_cache [OF D(1)] lookup_Some [OF D(1)] by auto
  have l: "ob = lirs_last_oblock s" using last by simp
  have set: "lirs_transaction_set s (lirs_transaction_init ob) = Inr ((lirs_transaction_init ob)\<lparr>lt_repeat := True\<rparr>)"
    using l by (simp add: lirs_transaction_set_def lirs_transaction_init_def)
  have legal: "lirs_transaction_is_legal s ((lirs_transaction_init ob)\<lparr>lt_repeat := True\<rparr>)"
    by (simp add: lirs_transaction_is_legal_def lirs_transaction_init_def)
  have commit: "lirs_transaction_commit ((lirs_transaction_init ob)\<lparr>lt_repeat := True\<rparr>) r0 s =
      Inr (r0\<lparr>r_op := CACHE_NUCLEUS_HIT\<rparr>, upd_stats inc_hits s)"
    using e ic by (simp add: lirs_transaction_commit_def lirs_transaction_init_def Let_def)
  note B = lirs_base_stats [OF O(1), of inc_hits]
  obtain s' where s': "s' = mark_dirty ob w (upd_stats inc_ios (upd_stats inc_hits s))" by blast
  show ?thesis using set legal commit lirs_mark(1,2) [OF B(1) s'] B(2)
    by (intro exI [of _ "r0\<lparr>r_op := CACHE_NUCLEUS_HIT\<rparr>"] exI [of _ s']) (simp add: lirs_map_api_def s')
qed

lemma lirs_access:
  assumes ok: "lirs_ok c m s" and start: "residents (lirs_abs s) = 0 \<Longrightarrow> ob \<noteq> last_block (lirs_abs s)"
  shows "\<exists>r s'. lirs_map_api ob w r0 s = Inr (0, r, s') \<and>
    (if ob \<in> spec_cached (lirs_abs s)
     then r_op r = CACHE_NUCLEUS_HIT \<and> lirs_ok c m s' \<and>
       lirs_abs s' = spec_lirs (unat c) (lirs_h c) (unat m) ob (lirs_abs s)
     else r_op r = (if residents (lirs_abs s) = unat c then CACHE_NUCLEUS_REPLACE else CACHE_NUCLEUS_NEW) \<and>
       (residents (lirs_abs s) = unat c \<longrightarrow> r_old_oblock r = hd (hirs (lirs_abs s))) \<and>
       (\<exists>s''. lirs_migrated_api ob s' = Inr s'' \<and> lirs_ok c m s'' \<and>
         lirs_abs s'' = spec_lirs (unat c) (lirs_h c) (unat m) ob (lirs_abs s)))"
proof -
  note O = lirs_okD [OF ok]
  note D = lirs_baseD [OF O(1)] and Z = lirs_sizesD [OF lirs_baseD(2) [OF O(1)]] and S = spec_okD [OF O(2)]
  note W = lirs_where [OF O(1), of ob]
  have kept: "spec_ok (unat c) (lirs_h c) (unat m) (spec_lirs (unat c) (lirs_h c) (unat m) ob (lirs_abs s))"
    by (rule spec_lirs_ok [OF O(2) Z(1-3)])
  have missed: ?thesis if "lirs_missed c m ob w r0 s (spec_lirs (unat c) (lirs_h c) (unat m) ob (lirs_abs s))"
    "ob \<notin> spec_cached (lirs_abs s)"
    using that kept unfolding lirs_missed_def lirs_ok_def by auto
  show ?thesis
  proof (cases "ob = last_block (lirs_abs s)")
    case True
    then have c: "ob \<in> spec_cached (lirs_abs s)" using S(8) start by metis
    have "spec_lirs (unat c) (lirs_h c) (unat m) ob (lirs_abs s) = lirs_abs s" using True by (simp add: spec_lirs_def)
    then show ?thesis using lirs_repeat [OF ok True c, of w r0] O(2) c by (auto simp: lirs_ok_def)
  next
    case new: False
    then have nl: "ob \<noteq> lirs_last_oblock s" by simp
    show ?thesis
    proof (cases "ht_lookup ob s")
      case None
      then have "ob \<notin> spec_cached (lirs_abs s)" using W by (simp add: spec_cached_def)
      then show ?thesis using missed lirs_miss_new [OF ok new None] by blast
    next
      case (Some e)
      then have em: "e \<in> set (ht s)" using lookup_Some [OF D(1)] by blast
      note ic = cn_in_cache [OF D(1) em]
      show ?thesis
      proof (cases "in_cache s (Some e)")
        case False
        then have "ob \<notin> spec_cached (lirs_abs s)" using W(1,2) Some ic by (auto simp: spec_cached_def)
        then show ?thesis using missed lirs_miss_ghost [OF ok new Some False] by blast
      next
        case True
        then have reg: "fst e = CacheRegion" using ic by simp
        have "\<exists>lt r s'. lirs_transaction_set s (lirs_transaction_init ob) = Inr lt \<and> lirs_transaction_is_legal s lt \<and>
          lirs_transaction_commit lt r0 s = Inr (r, s') \<and> lirs_base c m {} 0 s' \<and> r_op r = CACHE_NUCLEUS_HIT \<and>
          lirs_abs s' = spec_lirs (unat c) (lirs_h c) (unat m) ob (lirs_abs s) \<and> ob \<in> spec_cached (lirs_abs s)"
        proof (cases "le_is_HIR (store s e)")
          case hi: True
          then have h: "ob \<notin> low (lirs_abs s)" "ob \<in> set (hirs (lirs_abs s))" using W(1,2) Some reg by auto
          have "spec_lirs (unat c) (lirs_h c) (unat m) ob (lirs_abs s) = spec_limit (2 * unat c) (spec_push ob
              (spec_promote ob (spec_take ob ((lirs_abs s)\<lparr>last_block := ob\<rparr>))))"
            using h new by (simp add: spec_lirs_def Let_def del: lirs_abs_simps)
          then show ?thesis using lirs_hit_high [OF ok nl Some True hi, of r0] h(2) unfolding spec_cached_def by auto
        next
          case lo: False
          then have h: "ob \<in> low (lirs_abs s)" using W(1) Some reg by auto
          have "spec_lirs (unat c) (lirs_h c) (unat m) ob (lirs_abs s) = spec_limit (2 * unat c) (spec_push ob
              (spec_prune (spec_take ob ((lirs_abs s)\<lparr>last_block := ob\<rparr>))))"
            using h new by (simp add: spec_lirs_def Let_def del: lirs_abs_simps)
          then show ?thesis using lirs_hit_low [OF ok nl Some True lo, of r0] h unfolding spec_cached_def by auto
        qed
        then obtain lt r s' where run: "lirs_transaction_set s (lirs_transaction_init ob) = Inr lt" "lirs_transaction_is_legal s lt"
          "lirs_transaction_commit lt r0 s = Inr (r, s')" "lirs_base c m {} 0 s'" "r_op r = CACHE_NUCLEUS_HIT"
          "lirs_abs s' = spec_lirs (unat c) (lirs_h c) (unat m) ob (lirs_abs s)" "ob \<in> spec_cached (lirs_abs s)" by blast
        obtain s2 where s2: "s2 = mark_dirty ob w (upd_stats inc_ios s')" by blast
        note M = lirs_mark(1,2) [OF run(4) s2]
        have "lirs_map_api ob w r0 s = Inr (0, r, s2)" using run(1-3) by (simp add: lirs_map_api_def s2)
        then show ?thesis using M run(5-7) kept unfolding lirs_ok_def by (intro exI [of _ r] exI [of _ s2]) simp
      qed
    qed
  qed
qed

end
