(* ===== verification/Lirs_Run.thy ===== *)
theory Lirs_Run
  imports Lirs_Access Lru_Spec
begin

text \<open>LIRS under the simulator, from its creation, and what the abstract cache says about a whole trace.\<close>

declare split_paired_All [simp del] split_paired_Ex [simp del]

section \<open>Traces of the abstract cache\<close>

fun lirs_hits :: "nat \<Rightarrow> nat \<Rightarrow> nat \<Rightarrow> lirs_spec \<Rightarrow> oblock list \<Rightarrow> nat" where
  "lirs_hits c h m a [] = 0"
| "lirs_hits c h m a (ob # tr) = (if ob \<in> spec_cached a then 1 else 0) + lirs_hits c h m (spec_lirs c h m ob a) tr"

definition spec_blocks :: "lirs_spec \<Rightarrow> oblock set" where
  "spec_blocks a = set (stack a) \<union> low a \<union> set (hirs a) \<union> set (remembered a)"

lemma spec_limit_cached: "low (spec_limit n a) = low a" "hirs (spec_limit n a) = hirs a" "last_block (spec_limit n a) = last_block a"
  by (simp_all add: spec_limit_def split: list.splits)

lemma spec_lirs_cached: "ob \<noteq> last_block a \<Longrightarrow> ob \<in> spec_cached (spec_lirs c h m ob a)"
  by (simp add: spec_lirs_def Let_def spec_cached_def spec_limit_cached spec_push_def)

lemma spec_lirs_resident:
  assumes "residents a \<noteq> 0 \<or> ob \<noteq> last_block a" "finite (low (spec_lirs c h m ob a))"
  shows "residents (spec_lirs c h m ob a) \<noteq> 0"
proof (cases "ob = last_block a")
  case False
  from spec_lirs_cached [OF this, of c h m] show ?thesis
    using assms(2) by (auto simp: residents_def spec_cached_def)
qed (use assms(1) in \<open>simp add: spec_lirs_def\<close>)

text \<open>No other block than the accessed one appears anywhere.\<close>

lemma spec_blocks_forget: "spec_blocks (spec_forget x a) \<subseteq> spec_blocks a"
  by (auto simp: spec_blocks_def dest: in_remove1)

lemma spec_blocks_limit: "spec_blocks (spec_limit n a) \<subseteq> spec_blocks a"
  using spec_blocks_forget by (simp add: spec_limit_def split: list.splits)

lemma spec_blocks_push: "spec_blocks (spec_push ob a) \<subseteq> insert ob (spec_blocks a)"
  by (auto simp: spec_blocks_def spec_push_def)

lemma spec_blocks_fold: "spec_blocks (fold spec_forget xs a) \<subseteq> spec_blocks a"
proof (induction xs arbitrary: a)
  case (Cons x xs)
  show ?case using order_trans [OF Cons.IH spec_blocks_forget, of x a] by simp
qed simp

lemma spec_blocks_prune: "spec_blocks (spec_prune a) \<subseteq> spec_blocks a"
  unfolding spec_prune_def by (rule spec_blocks_fold)

lemma spec_blocks_take: "spec_blocks (spec_take x a) \<subseteq> spec_blocks a"
  by (auto simp: spec_blocks_def dest: in_remove1)

lemma spec_blocks_demote: "spec_blocks (spec_demote a) \<subseteq> spec_blocks a"
  by (auto simp: spec_blocks_def spec_demote_def split: list.splits)

lemma spec_blocks_low: "spec_blocks (a\<lparr>low := insert ob (low a)\<rparr>) = insert ob (spec_blocks a)"
  by (auto simp: spec_blocks_def)

lemma spec_blocks_promote: "spec_blocks (spec_promote ob a) \<subseteq> insert ob (spec_blocks a)"
  unfolding spec_promote_def using spec_blocks_prune spec_blocks_demote spec_blocks_low [of ob a] by blast

lemma spec_blocks_retire: "spec_blocks (spec_retire m a) \<subseteq> spec_blocks a"
proof (cases "hirs a")
  case (Cons x q)
  have "spec_blocks (if length (remembered a) = m then spec_forget (hd (remembered a)) a else a) \<subseteq> spec_blocks a"
    using spec_blocks_forget by auto
  then show ?thesis using Cons by (auto simp: spec_retire_def Let_def spec_blocks_def split: if_splits)
qed (simp add: spec_retire_def)

lemma spec_blocks_last: "spec_blocks (a\<lparr>last_block := ob\<rparr>) = spec_blocks a"
  by (simp add: spec_blocks_def)

lemma spec_blocks_lirs: "spec_blocks (spec_lirs c h m ob a) \<subseteq> insert ob (spec_blocks a)"
proof (cases "ob = last_block a")
  case False
  let ?b = "a\<lparr>last_block := ob\<rparr>"
  obtain b where b: "b = (if ob \<in> low ?b then spec_prune (spec_take ob ?b)
           else if ob \<in> set (hirs ?b) then spec_promote ob (spec_take ob ?b)
           else if residents ?b < c then if residents ?b < c - h then ?b\<lparr>low := insert ob (low ?b)\<rparr> else ?b
           else if ob \<in> set (remembered ?b) then spec_promote ob (spec_retire m (spec_forget ob ?b))
           else spec_retire m ?b)" by blast
  have "spec_blocks b \<subseteq> insert ob (spec_blocks a)"
    unfolding b using spec_blocks_prune [of "spec_take ob ?b"] spec_blocks_take [of ob ?b] spec_blocks_promote [of ob "spec_take ob ?b"]
      spec_blocks_promote [of ob "spec_retire m (spec_forget ob ?b)"] spec_blocks_retire [of m "spec_forget ob ?b"]
      spec_blocks_forget [of ob ?b] spec_blocks_retire [of m ?b] spec_blocks_low [of ob ?b] spec_blocks_last [of ob a]
    by (simp only: split: if_split) blast
  moreover have "spec_lirs c h m ob a = spec_limit (2 * c) (spec_push ob b)"
    unfolding b using False by (simp only: spec_lirs_def Let_def if_False)
  ultimately show ?thesis using spec_blocks_limit [of "2 * c" "spec_push ob b"] spec_blocks_push [of ob b] by auto
qed (auto simp: spec_lirs_def)

lemma spec_blocks_run: "spec_blocks (fold (spec_lirs c h m) tr a) \<subseteq> set tr \<union> spec_blocks a"
proof (induction tr arbitrary: a)
  case (Cons x tr)
  then show ?case using Cons.IH [of "spec_lirs c h m x a"] spec_blocks_lirs [of c h m x a] by auto
qed simp

text \<open>A scan over new blocks evicts none of the low blocks.\<close>

lemma spec_scan_step:
  assumes ok: "spec_ok c h m a" and full: "residents a = c" and ob: "ob \<notin> spec_blocks a" and h: "h < c" "0 < h" "0 < m"
  shows "low (spec_lirs c h m ob a) = low a" "residents (spec_lirs c h m ob a) = c"
proof -
  note S = spec_okD [OF ok]
  have n: "ob \<notin> low a" "ob \<notin> set (hirs a)" "ob \<notin> set (remembered a)" using ob by (auto simp: spec_blocks_def)
  have l: "ob \<noteq> last_block a" using S(8) n full h by (auto simp: spec_cached_def)
  have q: "length (hirs a) = h" using S(4) h full by (simp add: residents_def)
  then obtain x q where x: "hirs (a\<lparr>last_block := ob\<rparr>) = x # q" using h by (cases "hirs a") auto
  have "spec_wf {} (a\<lparr>last_block := ob\<rparr>)" using S(1) by simp
  note R = spec_retire_wf [OF this x h(3)]
  have e: "spec_lirs c h m ob a = spec_limit (2 * c) (spec_push ob (spec_retire m (a\<lparr>last_block := ob\<rparr>)))"
    using n l full by (simp add: spec_lirs_def Let_def residents_def)
  show lo: "low (spec_lirs c h m ob a) = low a" unfolding e spec_limit_cached by (simp add: spec_push_def R(2))
  have "hirs (spec_lirs c h m ob a) = q @ [ob]" unfolding e spec_limit_cached by (simp add: spec_push_def R(2,3) n)
  then show "residents (spec_lirs c h m ob a) = c" unfolding residents_def lo using full x by (simp add: residents_def)
qed

lemma spec_scan:
  assumes h: "h < c" "0 < h" "0 < m"
  shows "spec_ok c h m a \<Longrightarrow> residents a = c \<Longrightarrow> distinct scan \<Longrightarrow> set scan \<inter> spec_blocks a = {} \<Longrightarrow>
    low (fold (spec_lirs c h m) scan a) = low a"
proof (induction scan arbitrary: a)
  case (Cons x scan)
  have x: "x \<notin> spec_blocks a" using Cons.prems(4) by auto
  note T = spec_scan_step [OF Cons.prems(1,2) x h]
  have "set scan \<inter> spec_blocks (spec_lirs c h m x a) = {}"
    using Cons.prems(3,4) spec_blocks_lirs [of c h m x a] by auto
  from Cons.IH [OF spec_lirs_ok [OF Cons.prems(1) h] T(2) _ this] Cons.prems(3) T(1) show ?case by simp
qed simp

section \<open>Creation\<close>

lemma lirs_create_ok:
  assumes "2 \<le> c" "unat c + unat m < 2 ^ 32" "2 * unat c < 2 ^ 32"
  shows "\<exists>s. lirs_create c m = Inr s \<and> cn_ok s \<and> ht s = [] \<and> lirs_q s = [] \<and> lirs_s s = [] \<and> lirs_r s = [] \<and>
    lirs_g s = [] \<and> lirs_lir_count s = 0 \<and> lirs_s_len s = 0 \<and> lirs_s_maxlen s = 2 * c \<and>
    lirs_hir_limit s = max_u 2 (c div 100) \<and> lirs_last_oblock s = - 1 \<and> cache_size s = c \<and>
    ep_nr_entries (cache_pool s) = c \<and> ep_nr_entries (meta_pool s) = m"
proof -
  let ?s0 = "zero_lirs\<lparr>lirs_q := [], lirs_r := [], lirs_s := [], lirs_g := [], lirs_hir_limit := max_u 2 (c div 100),
          lirs_lir_count := 0, lirs_last_oblock := - 1, lirs_s_len := 0, lirs_s_maxlen := 2 * c,
          cache_pool := epool_create CacheRegion c, meta_pool := epool_create MetaRegion m\<rparr>"
  obtain s' cp mp where s': "policy_init c m CACHE_NUCLEUS_SINGLE_THREAD ?s0 = Inr s'" "cn_ok s'" "ht s' = []"
    "s' = ?s0\<lparr>store := store s', cache_pool := cp, meta_pool := mp, stats := stats_init, ht := [],
           cache_size := c, meta_size := m, thread_support := CACHE_NUCLEUS_SINGLE_THREAD, cn_time := 0\<rparr>"
    "ep_nr_entries cp = c" "ep_nr_entries mp = m"
    using policy_init_ok [of ?s0 c m c m CACHE_NUCLEUS_SINGLE_THREAD] assms by (auto simp: zero_lirs_def)
  have f: "lirs_q s' = []" "lirs_s s' = []" "lirs_r s' = []" "lirs_g s' = []" "lirs_lir_count s' = 0"
    "lirs_s_len s' = 0" "lirs_s_maxlen s' = 2 * c" "lirs_hir_limit s' = max_u 2 (c div 100)" "lirs_last_oblock s' = - 1"
    "cache_size s' = c" "cache_pool s' = cp" "meta_pool s' = mp"
    by (subst s'(4), simp add: zero_lirs_def)+
  show ?thesis using s' f by (simp add: lirs_create_def lirs_init_def)
qed

lemma lirs_started:
  assumes z: "lirs_sizes c m"
  shows "\<exists>s. lirs_create c m = Inr s \<and> lirs_ok c m s \<and> lirs_abs s = spec_empty"
proof -
  have "2 \<le> c" "unat c + unat m < 2 ^ 32" "2 * unat c < 2 ^ 32" using z by (auto simp: lirs_sizes_def word_le_nat_alt)
  from lirs_create_ok [OF this] obtain s where s: "lirs_create c m = Inr s" "cn_ok s" "ht s = []" "lirs_q s = []" "lirs_s s = []"
    "lirs_r s = []" "lirs_g s = []" "lirs_lir_count s = 0" "lirs_s_len s = 0" "lirs_s_maxlen s = 2 * c"
    "lirs_hir_limit s = max_u 2 (c div 100)" "lirs_last_oblock s = - 1" "cache_size s = c"
    "ep_nr_entries (cache_pool s) = c" "ep_nr_entries (meta_pool s) = m" by blast
  have low: "low_entries s = {}" by (simp add: low_entries_def s(3) cached_def)
  have "lirs_base c m {} 0 s" using s z by (simp add: lirs_base_def lirs_lists_def low cached_def metas_def)
  moreover have a: "lirs_abs s = spec_empty" by (simp add: lirs_abs_def spec_empty_def low s)
  ultimately show ?thesis using s(1) spec_ok_empty by (simp add: lirs_ok_def)
qed

section \<open>Under the simulator\<close>

definition lirs_at :: "cblock \<Rightarrow> cblock \<Rightarrow> lirs_spec \<Rightarrow> lirs_policy sim \<Rightarrow> bool" where
  "lirs_at c m a st \<longleftrightarrow> lirs_ok c m (sm_policy st) \<and> lirs_abs (sm_policy st) = a"

lemma lirs_calls:
  "policy_map lirs_api = lirs_map_api" "policy_migrated lirs_api = lirs_migrated_api"
  "policy_set_time lirs_api = default_set_time" "policy_cache_lookup lirs_api = default_cache_lookup"
  "e_migrating (fn_entry lirs_api s e) = e_migrating (store s e)"
  by (simp_all add: policy_calls lirs_api_def nucleus_api_def fun_eq_iff entry.defs)

lemma lirs_set_time: "lirs_ok c m s \<Longrightarrow> lirs_ok c m (default_set_time t s)" "lirs_abs (default_set_time t s) = lirs_abs s"
  by (simp_all add: lirs_ok_def lirs_base_def lirs_abs_def low_entries_def default_set_time_def cn_ok_def)

lemma lirs_serve:
  assumes opts: "sync_opts opts" and st: "lirs_at c m a st" and start: "residents a = 0 \<Longrightarrow> ob \<noteq> last_block a"
  shows "\<exists>st'. sim_serve lirs_api rnd opts time ob w st = Inr st' \<and>
    lirs_at c m (spec_lirs (unat c) (lirs_h c) (unat m) ob a) st' \<and>
    hits (sm_stats st') = hits (sm_stats st) + (if ob \<in> spec_cached a then 1 else 0)"
proof -
  let ?st = "st\<lparr>sm_policy := policy_set_time lirs_api time (sm_policy st)\<rparr>" and ?s = "default_set_time time (sm_policy st)"
  let ?b = "spec_lirs (unat c) (lirs_h c) (unat m) ob a"
  have ok: "lirs_ok c m ?s" "lirs_abs ?s = a" using st lirs_set_time by (simp_all add: lirs_at_def)
  from lirs_access [OF ok(1), of ob w zero_result] start obtain r s1 where
    1: "lirs_map_api ob w zero_result ?s = Inr (0, r, s1)"
    "if ob \<in> spec_cached a then r_op r = CACHE_NUCLEUS_HIT \<and> lirs_ok c m s1 \<and> lirs_abs s1 = ?b
     else r_op r = (if residents a = unat c then CACHE_NUCLEUS_REPLACE else CACHE_NUCLEUS_NEW) \<and>
       (residents a = unat c \<longrightarrow> r_old_oblock r = hd (hirs a)) \<and>
       (\<exists>s2. lirs_migrated_api ob s1 = Inr s2 \<and> lirs_ok c m s2 \<and> lirs_abs s2 = ?b)"
    unfolding ok(2) by blast
  note B = lirs_baseD [OF lirs_okD(1) [OF ok(1)]]
  have nm: "\<not> (case policy_cache_lookup lirs_api ob (sm_policy ?st) of None \<Rightarrow> False
      | Some e \<Rightarrow> e_migrating (fn_entry lirs_api (sm_policy ?st) e))"
  proof (cases "ht_lookup ob ?s")
    case None
    then show ?thesis by (simp add: lirs_calls default_cache_lookup_def in_cache_def)
  next
    case (Some e)
    then have "e \<in> set (ht ?s)" using lookup_Some [OF B(1)] by blast
    then have "\<not> e_migrating (store ?s e)" using lirs_listsD(12) [OF B(10)] by blast
    then show ?thesis using Some by (simp add: lirs_calls default_cache_lookup_def Let_def)
  qed
  define st1 where "st1 = ?st\<lparr>sm_policy := s1, sm_stats :=
    (let ss = (if r_op r = CACHE_NUCLEUS_HIT then count_hit w (sm_stats ?st) else count_miss w (sm_stats ?st))
     in if r_dirty_eviction r then ss\<lparr>ss_dirty_evicts := ss_dirty_evicts ss + 1\<rparr> else ss)\<rparr>"
  have map: "sim_map lirs_api ob w zero_result ?st = Inr (r, st1)"
    unfolding st1_def by (rule sim_map_policy [OF nm]) (simp add: lirs_calls 1(1))
  have st1: "sm_policy st1 = s1" "hits (sm_stats st1) = hits (sm_stats st) + (if r_op r = CACHE_NUCLEUS_HIT then 1 else 0)"
    by (simp_all add: st1_def Let_def)
  have rem: "sim_removal lirs_api rnd opts time ob st2 = Inr st2" for st2
    using opts by (simp add: sim_removal_def remove_now_def sync_opts_def)
  have del: "opt_migration_delay opts = 0" using opts by (simp add: sync_opts_def)
  show ?thesis
  proof (cases "ob \<in> spec_cached a")
    case True
    then have h: "r_op r = CACHE_NUCLEUS_HIT" "lirs_at c m ?b st1" using 1(2) st1(1) by (simp_all add: lirs_at_def)
    then have "sim_migrate lirs_api opts time ob r st1 = Inr st1" by (simp add: sim_migrate_def del entered_def)
    then show ?thesis using map h True rem st1(2) by (simp add: sim_serve_def)
  next
    case False
    then obtain s2 where s2: "lirs_migrated_api ob s1 = Inr s2" "lirs_ok c m s2" "lirs_abs s2 = ?b" using 1(2) by auto
    have e: "entered r" "r_op r \<noteq> CACHE_NUCLEUS_HIT" using 1(2) False by (auto simp: entered_def split: if_splits)
    then have "sim_migrate lirs_api opts time ob r st1 = Inr (st1\<lparr>sm_policy := s2\<rparr>)"
      using s2(1) by (simp add: sim_migrate_def del lirs_calls st1(1))
    then show ?thesis using map s2 e False rem st1(2) by (simp add: sim_serve_def lirs_at_def)
  qed
qed

lemma lirs_run:
  assumes opts: "sync_opts opts"
  shows "lirs_at c m a st \<Longrightarrow> (residents a = 0 \<Longrightarrow> tr \<noteq> [] \<Longrightarrow> fst (hd tr) \<noteq> last_block a) \<Longrightarrow>
    \<exists>st'. sim_run lirs_api rnd opts time tr st = Inr st' \<and>
      lirs_at c m (fold (spec_lirs (unat c) (lirs_h c) (unat m)) (map fst tr) a) st' \<and>
      hits (sm_stats st') = hits (sm_stats st) + of_nat (lirs_hits (unat c) (lirs_h c) (unat m) a (map fst tr))"
proof (induction tr arbitrary: a st time)
  case Nil
  have "sim_run lirs_api rnd opts time [] st = Inr st"
    using opts by (subst sim_run.simps) (simp add: sim_access_def sim_read_def sync_opts_def)
  then show ?case using Nil by simp
next
  case (Cons x tr)
  obtain ob w where x: "x = (ob, w)" by (cases x)
  let ?b = "spec_lirs (unat c) (lirs_h c) (unat m) ob a"
  have start: "residents a = 0 \<Longrightarrow> ob \<noteq> last_block a" using Cons.prems(2) x by simp
  from lirs_serve [OF opts Cons.prems(1) start, of rnd time w] obtain st1 where
    1: "sim_serve lirs_api rnd opts time ob w st = Inr st1" "lirs_at c m ?b st1"
    "hits (sm_stats st1) = hits (sm_stats st) + (if ob \<in> spec_cached a then 1 else 0)" by blast
  have "finite (low ?b)" using 1(2) lirs_okD(2) spec_okD(1) spec_wfD(4) unfolding lirs_at_def by metis
  then have "residents ?b \<noteq> 0" using spec_lirs_resident start by blast
  then have "residents ?b = 0 \<Longrightarrow> tr \<noteq> [] \<Longrightarrow> fst (hd tr) \<noteq> last_block ?b" by simp
  from Cons.IH [OF 1(2) this, of "time + 1"] obtain st' where
    2: "sim_run lirs_api rnd opts (time + 1) tr st1 = Inr st'"
    "lirs_at c m (fold (spec_lirs (unat c) (lirs_h c) (unat m)) (map fst tr) ?b) st'"
    "hits (sm_stats st') = hits (sm_stats st1) + of_nat (lirs_hits (unat c) (lirs_h c) (unat m) ?b (map fst tr))" by blast
  have "sim_run lirs_api rnd opts time (x # tr) st = Inr st'"
    using opts 1(1) 2(1) by (subst sim_run.simps) (simp add: sim_access_def sim_read_def sync_opts_def x)
  then show ?case using 1 2 x by (simp add: add.assoc)
qed

lemma lirs_from_create:
  assumes opts: "sync_opts opts" and z: "lirs_sizes c m" and first: "tr = [] \<or> fst (hd tr) \<noteq> - 1"
  shows "\<exists>s st st'. lirs_create c m = Inr s \<and> sim_prep opts s = Inr st \<and> sim_run lirs_api rnd opts 1 tr st = Inr st' \<and>
    lirs_at c m (fold (spec_lirs (unat c) (lirs_h c) (unat m)) (map fst tr) spec_empty) st' \<and>
    hits (sm_stats st') = of_nat (lirs_hits (unat c) (lirs_h c) (unat m) spec_empty (map fst tr))"
proof -
  obtain s where s: "lirs_create c m = Inr s" "lirs_ok c m s" "lirs_abs s = spec_empty" using lirs_started [OF z] by blast
  define st where "st = \<lparr>sm_policy = s, sm_stats = zero_stats,
    sm_tracker = zero_tracker\<lparr>mt_delay := 0\<rparr>, sm_random = 0\<rparr>"
  have prep: "sim_prep opts s = Inr st" using opts by (simp add: sim_prep_def sync_opts_def st_def)
  have at: "lirs_at c m spec_empty st" using s by (simp add: lirs_at_def st_def)
  have "tr \<noteq> [] \<Longrightarrow> fst (hd tr) \<noteq> last_block spec_empty" using first by (simp add: spec_empty_def)
  with lirs_run [OF opts at, of tr rnd 1] obtain st' where
    "sim_run lirs_api rnd opts 1 tr st = Inr st'"
    "lirs_at c m (fold (spec_lirs (unat c) (lirs_h c) (unat m)) (map fst tr) spec_empty) st'"
    "hits (sm_stats st') = hits (sm_stats st) + of_nat (lirs_hits (unat c) (lirs_h c) (unat m) spec_empty (map fst tr))" by auto
  moreover have "hits (sm_stats st) = 0" by (simp add: st_def zero_stats_def hits_def)
  ultimately show ?thesis using s(1) prep by auto
qed

end
