(* ===== verification/Lirs_Props.thy ===== *)
theory Lirs_Props
  imports Lirs_Run
begin

text \<open>The properties of LIRS.\<close>

section \<open>Properties\<close>

text \<open>
  C38. Block number 2^64 - 1, which LIRS uses for the last accessed block before there is one, makes a run of
  the simulator fail when the trace starts with it: the access is taken for a repeated one and reported
  as a new block although nothing is inserted, and the end of its migration is an assertion failure.
\<close>
theorem lirs_sentinel_faults:
  assumes "sync_opts opts" "2 \<le> c" "unat c + unat m < 2 ^ 32" "2 * unat c < 2 ^ 32"
  shows "\<exists>s st. lirs_create c m = Inr s \<and> sim_prep opts s = Inr st \<and>
    sim_run lirs_api rnd opts 1 ((- 1, w) # tr) st = Inl AssertFail"
proof -
  obtain s where s: "lirs_create c m = Inr s" "cn_ok s" "ht s = []" "lirs_last_oblock s = - 1"
    using lirs_create_ok [OF assms(2-4)] by blast
  define st where "st = \<lparr>sm_policy = s, sm_stats = zero_stats,
    sm_tracker = zero_tracker\<lparr>mt_delay := 0\<rparr>, sm_random = 0\<rparr>"
  have prep: "sim_prep opts s = Inr st" using assms(1) by (simp add: sim_prep_def sync_opts_def st_def)
  let ?s = "default_set_time 1 s"
  have f: "ht_lookup ob ?s = None" "in_cache ?s None = False" "lirs_last_oblock ?s = - 1" "ht ?s = []" for ob
    using s by (simp_all add: default_set_time_def ht_lookup_def tbl_lookup_def in_cache_def)
  obtain r s1 where m: "lirs_map_api (- 1) w zero_result ?s = Inr (0, r, s1)" "r_op r = CACHE_NUCLEUS_NEW" "ht s1 = []"
    "r_dirty_eviction r = False"
    using f by (simp add: lirs_map_api_def lirs_transaction_set_def lirs_transaction_init_def lirs_transaction_is_legal_def
        lirs_transaction_commit_def mark_dirty_def ht_lookup_def tbl_lookup_def in_cache_def zero_result_def Let_def)
  have calls: "policy_map lirs_api = lirs_map_api" "policy_migrated lirs_api = lirs_migrated_api"
    "policy_set_time lirs_api = default_set_time" "policy_cache_lookup lirs_api = default_cache_lookup"
    by (simp_all add: policy_calls lirs_api_def nucleus_api_def fun_eq_iff)
  have mg: "lirs_migrated_api (- 1) s1 = Inl AssertFail"
    by (simp add: lirs_migrated_api_def log_assert_def ht_lookup_def tbl_lookup_def m(3))
  have nm: "default_cache_lookup (- 1) ?s = None"
    using f by (simp add: default_cache_lookup_def Let_def in_cache_def)
  let ?st = "st\<lparr>sm_policy := ?s\<rparr>"
  obtain st1 where 1: "sim_map lirs_api (- 1) w zero_result ?st = Inr (r, st1)" "sm_policy st1 = s1"
    using sim_map_policy [of lirs_api ?st "- 1" w zero_result r s1] m(1) nm by (simp add: calls)
  have ser: "sim_serve lirs_api rnd opts 1 (- 1) w st = Inl AssertFail"
    using assms(1) 1 m(2) mg
    by (simp add: sim_serve_def calls st_def sim_migrate_def sync_opts_def entered_def)
  have "sim_run lirs_api rnd opts 1 ((- 1, w) # tr) st = Inl AssertFail"
    using assms(1) ser by (subst sim_run.simps) (simp add: sim_access_def sim_read_def sync_opts_def)
  then show ?thesis using s(1) prep by blast
qed

theorem lirs_sentinel_faults_witness:
  "\<exists>s st. lirs_create 4 4 = Inr s \<and> sim_prep \<lparr>opt_sampling_rate = 1, opt_migration_delay = 0, opt_remove_rate = 0\<rparr> s = Inr st \<and>
    sim_run lirs_api (\<lambda>_. 0) \<lparr>opt_sampling_rate = 1, opt_migration_delay = 0, opt_remove_rate = 0\<rparr> 1
      [(- 1, False)] st = Inl AssertFail"
  using lirs_sentinel_faults [of "\<lparr>opt_sampling_rate = 1, opt_migration_delay = 0, opt_remove_rate = 0\<rparr>" 4 4 "\<lambda>_. 0" False "[]"]
  by (simp add: sync_opts_def)

text \<open>
  C24. An access to LIRS, with the end of the migration it starts, refines the access of the abstract LIRS
  cache \<open>spec_lirs\<close>: nothing faults, the access is a hit exactly for a cached block, otherwise a new block
  as long as there is room and a replacement of the block at the head of Q when there is none, and the stack
  in its order, the set of low blocks, the queue Q and the queue G afterwards are the ones of the abstract cache:
  pruning, promotion with the demotion of the bottom of the stack, the swap with a metadata entry and the
  limits on the stack and on G included.
\<close>
theorem lirs_access_refines:
  assumes "lirs_ok c m s" "residents (lirs_abs s) = 0 \<Longrightarrow> ob \<noteq> last_block (lirs_abs s)"
  shows "\<exists>r s'. lirs_map_api ob w r0 s = Inr (0, r, s') \<and>
    (if ob \<in> spec_cached (lirs_abs s)
     then r_op r = CACHE_NUCLEUS_HIT \<and> lirs_ok c m s' \<and>
       lirs_abs s' = spec_lirs (unat c) (lirs_h c) (unat m) ob (lirs_abs s)
     else r_op r = (if residents (lirs_abs s) = unat c then CACHE_NUCLEUS_REPLACE else CACHE_NUCLEUS_NEW) \<and>
       (residents (lirs_abs s) = unat c \<longrightarrow> r_old_oblock r = hd (hirs (lirs_abs s))) \<and>
       (\<exists>s''. lirs_migrated_api ob s' = Inr s'' \<and> lirs_ok c m s'' \<and>
         lirs_abs s'' = spec_lirs (unat c) (lirs_h c) (unat m) ob (lirs_abs s)))"
  by (rule lirs_access [OF assms])

theorem lirs_access_refines_witness:
  "\<exists>s r s' s''. lirs_create 4 4 = Inr s \<and> lirs_map_api 7 True zero_result s = Inr (0, r, s') \<and> r_op r = CACHE_NUCLEUS_NEW \<and>
    lirs_migrated_api 7 s' = Inr s'' \<and> stack (lirs_abs s'') = [7] \<and> low (lirs_abs s'') = {7} \<and> hirs (lirs_abs s'') = []"
proof -
  have h: "lirs_h 4 = 2" by (simp add: lirs_h_def)
  have z: "lirs_sizes 4 4" by (simp add: lirs_sizes_def)
  obtain s where s: "lirs_create 4 4 = Inr s" "lirs_ok 4 4 s" "lirs_abs s = spec_empty" using lirs_started [OF z] by blast
  have e: "residents spec_empty = 0" "spec_cached spec_empty = {}" "last_block spec_empty = - 1"
    by (simp_all add: spec_empty_def residents_def spec_cached_def)
  have a: "spec_lirs 4 2 4 7 spec_empty = \<lparr>stack = [7], low = {7}, hirs = [], remembered = [], last_block = 7\<rparr>"
    by (simp add: spec_lirs_def spec_empty_def Let_def residents_def spec_push_def spec_limit_def)
  from lirs_access_refines [OF s(2), of 7 True zero_result] show ?thesis using s(1) a by (auto simp: s(3) e h simp del: lirs_abs_simps)
qed

text \<open>
  C25. Over LIRS the simulator without delay, sampling or removals computes the abstract LIRS cache: for
  every trace that does not start with block 2^64 - 1 it reads the whole trace without a fault, the final
  queues are those of \<open>spec_lirs\<close> folded over the trace from the empty cache, and it counts a hit exactly for the
  accesses to a block that is cached.
\<close>
theorem lirs_simulation:
  assumes "sync_opts opts" "lirs_sizes c m" "tr = [] \<or> fst (hd tr) \<noteq> - 1"
  shows "\<exists>s st st'. lirs_create c m = Inr s \<and> sim_prep opts s = Inr st \<and> sim_run lirs_api rnd opts 1 tr st = Inr st' \<and>
    lirs_abs (sm_policy st') = fold (spec_lirs (unat c) (lirs_h c) (unat m)) (map fst tr) spec_empty \<and>
    hits (sm_stats st') = of_nat (lirs_hits (unat c) (lirs_h c) (unat m) spec_empty (map fst tr))"
  using lirs_from_create [OF assms, of rnd] unfolding lirs_at_def by blast

theorem lirs_simulation_witness:
  "\<exists>s st st'. lirs_create 3 2 = Inr s \<and> sim_prep \<lparr>opt_sampling_rate = 1, opt_migration_delay = 0, opt_remove_rate = 0\<rparr> s = Inr st \<and>
    sim_run lirs_api (\<lambda>_. 0) \<lparr>opt_sampling_rate = 1, opt_migration_delay = 0, opt_remove_rate = 0\<rparr> 1
      [(1, False), (2, True), (3, False), (4, False), (1, False)] st = Inr st' \<and>
    stack (lirs_abs (sm_policy st')) = [1] \<and> hirs (lirs_abs (sm_policy st')) = [3, 4] \<and> hits (sm_stats st') = 1"
proof -
  have h: "lirs_h 3 = 2" by (simp add: lirs_h_def)
  have z: "lirs_sizes 3 2" by (simp add: lirs_sizes_def)
  note defs = spec_lirs_def spec_empty_def Let_def residents_def spec_push_def spec_limit_def spec_retire_def spec_forget_def
    spec_prune_def spec_take_def spec_cached_def
  have a1: "spec_lirs 3 2 2 1 spec_empty = \<lparr>stack = [1], low = {1}, hirs = [], remembered = [], last_block = 1\<rparr>"
    by (simp add: defs)
  have a2: "spec_lirs 3 2 2 2 \<lparr>stack = [1], low = {1}, hirs = [], remembered = [], last_block = 1\<rparr> =
      \<lparr>stack = [1, 2], low = {1}, hirs = [2], remembered = [], last_block = 2\<rparr>" by (simp add: defs)
  have a3: "spec_lirs 3 2 2 3 \<lparr>stack = [1, 2], low = {1}, hirs = [2], remembered = [], last_block = 2\<rparr> =
      \<lparr>stack = [1, 2, 3], low = {1}, hirs = [2, 3], remembered = [], last_block = 3\<rparr>" by (simp add: defs)
  have a4: "spec_lirs 3 2 2 4 \<lparr>stack = [1, 2, 3], low = {1}, hirs = [2, 3], remembered = [], last_block = 3\<rparr> =
      \<lparr>stack = [1, 2, 3, 4], low = {1}, hirs = [3, 4], remembered = [2], last_block = 4\<rparr>" by (simp add: defs)
  have a5: "spec_lirs 3 2 2 1 \<lparr>stack = [1, 2, 3, 4], low = {1}, hirs = [3, 4], remembered = [2], last_block = 4\<rparr> =
      \<lparr>stack = [1], low = {1}, hirs = [3, 4], remembered = [], last_block = 1\<rparr>" by (simp add: defs)
  have c: "spec_cached spec_empty = {}" by (simp add: spec_cached_def spec_empty_def)
  have hits: "lirs_hits 3 2 2 spec_empty [1, 2, 3, 4, 1] = 1"
    by (simp add: a1 a2 a3 a4 a5 c) (simp add: spec_cached_def)
  have fin: "fold (spec_lirs 3 2 2) [1, 2, 3, 4, 1] spec_empty =
      \<lparr>stack = [1], low = {1}, hirs = [3, 4], remembered = [], last_block = 1\<rparr>" by (simp add: a1 a2 a3 a4 a5)
  obtain s st st' where r: "lirs_create 3 2 = Inr s"
    "sim_prep \<lparr>opt_sampling_rate = 1, opt_migration_delay = 0, opt_remove_rate = 0\<rparr> s = Inr st"
    "sim_run lirs_api (\<lambda>_. 0) \<lparr>opt_sampling_rate = 1, opt_migration_delay = 0, opt_remove_rate = 0\<rparr> 1
      [(1, False), (2, True), (3, False), (4, False), (1, False)] st = Inr st'"
    "lirs_abs (sm_policy st') = fold (spec_lirs 3 2 2) [1, 2, 3, 4, 1] spec_empty"
    "hits (sm_stats st') = of_nat (lirs_hits 3 2 2 spec_empty [1, 2, 3, 4, 1])"
    using lirs_simulation [of "\<lparr>opt_sampling_rate = 1, opt_migration_delay = 0, opt_remove_rate = 0\<rparr>" 3 2
      "[(1, False), (2, True), (3, False), (4, False), (1, False)]" "\<lambda>_. 0"] z by (auto simp: sync_opts_def h)
  have "stack (lirs_abs (sm_policy st')) = [1]" "hirs (lirs_abs (sm_policy st')) = [3, 4]" "hits (sm_stats st') = 1"
    unfolding r(4,5) fin hits by simp_all
  then show ?thesis using r(1-3) by blast
qed

text \<open>
  C27. After any trace the queues of LIRS are within their bounds: the stack is at most twice as long as the
  cache is large, which is what its 32-bit counter counts; at most as many blocks as there are metadata entries
  are remembered; the low blocks are as many as the cache can hold besides its share for high blocks, or all
  cached blocks while there are fewer; the residency is the number of low blocks and of blocks in Q, which are
  different ones; and the bottom of the stack is a low block.
\<close>
theorem lirs_bounds:
  assumes "sync_opts opts" "lirs_sizes c m" "tr = [] \<or> fst (hd tr) \<noteq> - 1"
  shows "\<exists>s st st' p. lirs_create c m = Inr s \<and> sim_prep opts s = Inr st \<and> sim_run lirs_api rnd opts 1 tr st = Inr st' \<and>
    p = sm_policy st' \<and> length (lirs_s p) \<le> 2 * unat c \<and> unat (lirs_s_len p) = length (lirs_s p) \<and>
    length (lirs_g p) \<le> unat m \<and> unat (default_residency p) = unat (lirs_lir_count p) + length (lirs_q p) \<and>
    default_residency p \<le> c \<and> unat (lirs_lir_count p) = min (unat (default_residency p)) (unat c - lirs_h c) \<and>
    distinct (lirs_s p) \<and> distinct (lirs_q p) \<and> distinct (lirs_g p) \<and>
    (lirs_s p = [] \<or> \<not> le_is_HIR (store p (hd (lirs_s p))))"
proof -
  from lirs_from_create [OF assms, of rnd] obtain s st st' where
    run: "lirs_create c m = Inr s" "sim_prep opts s = Inr st" "sim_run lirs_api rnd opts 1 tr st = Inr st'"
    and ok: "lirs_ok c m (sm_policy st')" unfolding lirs_at_def by blast
  obtain p where p: "p = sm_policy st'" by blast
  note O = lirs_okD [OF ok, folded p]
  note D = lirs_baseD [OF O(1)] and S = spec_okD [OF O(2)] and L = lirs_listsD [OF lirs_baseD(10) [OF O(1)]]
  have c: "2 * unat c < 2 ^ 32" by (rule lirs_sizesD(5) [OF assms(2)])
  have len: "length (lirs_s p) \<le> 2 * unat c" "length (lirs_g p) \<le> unat m" using S(6,7) by simp_all
  have r: "residents (lirs_abs p) = card (low_entries p) + length (lirs_q p)" using card_low [OF O(1)] by (simp add: residents_def)
  have small: "k \<le> 2 * unat c \<Longrightarrow> unat (of_nat k :: u32) = k" for k using c by (intro unat_of_nat_small) simp
  have slen: "unat (lirs_s_len p) = length (lirs_s p)" unfolding D(8) using small [OF len(1)] by simp
  have lc: "unat (lirs_lir_count p) = card (low_entries p)" unfolding D(9) using S(3) r by (intro small) simp
  have res: "unat (default_residency p) = residents (lirs_abs p)"
    unfolding residency_card [OF D(1)] lirs_wf(2) [OF O(1), symmetric] using S(3) by (intro small) simp
  have bottom: "lirs_s p = [] \<or> \<not> le_is_HIR (store p (hd (lirs_s p)))"
  proof (cases "lirs_s p")
    case (Cons e S)
    have em: "e \<in> set (ht p)" using lirs_sub(1) [OF O(1)] Cons by auto
    have "e_oblock (store p e) \<in> low (lirs_abs p)" using S(2) Cons by auto
    then have "e \<in> low_entries p" using lirs_member(4) [OF O(1) em refl] by blast
    then show ?thesis using Cons by (simp add: low_entries_def)
  qed simp
  have "default_residency p \<le> c" unfolding word_le_nat_alt res by (rule S(3))
  moreover have "unat (lirs_lir_count p) = min (unat (default_residency p)) (unat c - lirs_h c)"
    unfolding lc res using S(4) card_low [OF O(1)] by simp
  ultimately show ?thesis using run p len slen lc res r L(1-3) bottom by auto
qed

theorem lirs_bounds_witness:
  "\<exists>s st st'. lirs_create 3 1 = Inr s \<and> sim_prep \<lparr>opt_sampling_rate = 1, opt_migration_delay = 0, opt_remove_rate = 0\<rparr> s = Inr st \<and>
    sim_run lirs_api (\<lambda>_. 0) \<lparr>opt_sampling_rate = 1, opt_migration_delay = 0, opt_remove_rate = 0\<rparr> 1
      [(1, False), (2, True), (3, False), (4, False), (2, False)] st = Inr st' \<and> length (lirs_s (sm_policy st')) \<le> 6"
  using lirs_bounds [of "\<lparr>opt_sampling_rate = 1, opt_migration_delay = 0, opt_remove_rate = 0\<rparr>" 3 1
      "[(1, False), (2, True), (3, False), (4, False), (2, False)]" "\<lambda>_. 0"]
  by (auto simp: sync_opts_def lirs_sizes_def)

text \<open>
  C26. LIRS resists scans: once a trace has filled the cache, accesses to any number of different blocks that the
  trace does not contain evict only high blocks. The low blocks stay what they were before the scan, and all
  of them are still cached.
\<close>
theorem lirs_scan_resistance:
  assumes "sync_opts opts" "lirs_sizes c m" "tr = [] \<or> fst (hd tr) \<noteq> - 1"
    and full: "residents (fold (spec_lirs (unat c) (lirs_h c) (unat m)) (map fst tr) spec_empty) = unat c"
    and scan: "distinct (map fst scan)" "set (map fst scan) \<inter> set (map fst tr) = {}"
  shows "\<exists>s st st1 st2. lirs_create c m = Inr s \<and> sim_prep opts s = Inr st \<and>
    sim_run lirs_api rnd opts 1 tr st = Inr st1 \<and> sim_run lirs_api rnd opts 1 (tr @ scan) st = Inr st2 \<and>
    low (lirs_abs (sm_policy st2)) = low (lirs_abs (sm_policy st1)) \<and>
    card (low (lirs_abs (sm_policy st1))) = unat c - lirs_h c \<and>
    low (lirs_abs (sm_policy st1)) \<subseteq> spec_cached (lirs_abs (sm_policy st2))"
proof -
  let ?f = "fold (spec_lirs (unat c) (lirs_h c) (unat m))"
  note Z = lirs_sizesD [OF assms(2)]
  have ne: "tr \<noteq> []" using full Z(4) by (auto simp: spec_empty_def residents_def)
  then have first: "tr @ scan = [] \<or> fst (hd (tr @ scan)) \<noteq> - 1" using assms(3) by simp
  from lirs_from_create [OF assms(1-3), of rnd] obtain s st st1 where
    1: "lirs_create c m = Inr s" "sim_prep opts s = Inr st" "sim_run lirs_api rnd opts 1 tr st = Inr st1"
      "lirs_ok c m (sm_policy st1)" "lirs_abs (sm_policy st1) = ?f (map fst tr) spec_empty" unfolding lirs_at_def by blast
  from lirs_from_create [OF assms(1,2) first, of rnd] 1(1,2) obtain st2 where
    2: "sim_run lirs_api rnd opts 1 (tr @ scan) st = Inr st2"
      "lirs_abs (sm_policy st2) = ?f (map fst scan) (?f (map fst tr) spec_empty)" unfolding lirs_at_def by auto
  have ok: "spec_ok (unat c) (lirs_h c) (unat m) (?f (map fst tr) spec_empty)" using lirs_okD(2) [OF 1(4)] 1(5) by simp
  have "spec_blocks spec_empty = {}" by (simp add: spec_blocks_def spec_empty_def)
  then have "set (map fst scan) \<inter> spec_blocks (?f (map fst tr) spec_empty) = {}"
    using scan(2) spec_blocks_run [of "unat c" "lirs_h c" "unat m" "map fst tr" spec_empty] by blast
  from spec_scan [OF Z(1-3) ok full scan(1) this] have "low (lirs_abs (sm_policy st2)) = low (lirs_abs (sm_policy st1))"
    unfolding 1(5) 2(2) .
  moreover have "card (low (lirs_abs (sm_policy st1))) = unat c - lirs_h c" unfolding 1(5) using spec_okD(4) [OF ok] full by simp
  ultimately show ?thesis using 1(1-3) 2(1) by (auto simp: spec_cached_def simp del: lirs_abs_simps)
qed

theorem lirs_scan_resistance_witness:
  "\<exists>s st st1 st2. lirs_create 3 2 = Inr s \<and> sim_prep \<lparr>opt_sampling_rate = 1, opt_migration_delay = 0, opt_remove_rate = 0\<rparr> s = Inr st \<and>
    sim_run lirs_api (\<lambda>_. 0) \<lparr>opt_sampling_rate = 1, opt_migration_delay = 0, opt_remove_rate = 0\<rparr> 1
      [(1, False), (2, True), (3, False)] st = Inr st1 \<and>
    sim_run lirs_api (\<lambda>_. 0) \<lparr>opt_sampling_rate = 1, opt_migration_delay = 0, opt_remove_rate = 0\<rparr> 1
      ([(1, False), (2, True), (3, False)] @ [(4, False), (5, False), (6, True), (7, False)]) st = Inr st2 \<and>
    low (lirs_abs (sm_policy st2)) = low (lirs_abs (sm_policy st1))"
proof -
  have h: "lirs_h 3 = 2" by (simp add: lirs_h_def)
  have z: "lirs_sizes 3 2" by (simp add: lirs_sizes_def)
  have "fold (spec_lirs 3 2 2) [1, 2, 3] spec_empty = \<lparr>stack = [1, 2, 3], low = {1}, hirs = [2, 3], remembered = [], last_block = 3\<rparr>"
    by (simp add: spec_lirs_def spec_empty_def Let_def residents_def spec_push_def spec_limit_def)
  then have "residents (fold (spec_lirs 3 2 2) [1, 2, 3] spec_empty) = 3" by (simp add: residents_def)
  then show ?thesis
    using lirs_scan_resistance [of "\<lparr>opt_sampling_rate = 1, opt_migration_delay = 0, opt_remove_rate = 0\<rparr>" 3 2
      "[(1, False), (2, True), (3, False)]" "[(4, False), (5, False), (6, True), (7, False)]" "\<lambda>_. 0"] z
    by (auto simp: sync_opts_def h simp del: lirs_abs_simps)
qed

end
