(* ===== verification/Mstar_Logic.thy ===== *)
theory Mstar_Logic
  imports Window
begin

text \<open>
  The decision logic of M* (\<open>src/src/mstar/mstar_phase.c\<close>, \<open>mstar_transitions.c\<close>, \<open>mstar_logic.c\<close> and their headers):
  windows over the hits of a phase, the seven thresholds for a change of state with the parameters that
  are adapted, and what every access does to them.
\<close>

section \<open>Windows\<close>

text \<open>
  The structure \<open>window_stats\<close> of M* is not the one of \<open>tools/window_stats.h\<close>; the names have the suffix \<open>ms\<close>. A
  window of size 0 has no array, and counts all values.
\<close>

record window_stats_ms =
  wm_values :: "u32 list"
  wm_sum :: u32
  wm_start :: u32
  wm_end :: u32
  wm_len :: u32
  wm_size :: u32

definition window_stats_init_ms :: "u32 \<Rightarrow> window_stats_ms \<Rightarrow> window_stats_ms" where
  "window_stats_init_ms n w =
     (if n > 0 then w\<lparr>wm_values := replicate (unat n) 0\<rparr> else w)
       \<lparr>wm_sum := 0, wm_start := 0, wm_end := 0, wm_len := 0, wm_size := n\<rparr>"

definition window_stats_clear_ms :: "window_stats_ms \<Rightarrow> window_stats_ms" where
  "window_stats_clear_ms w = w\<lparr>wm_sum := 0, wm_start := 0, wm_end := 0, wm_len := 0\<rparr>"

definition get_at :: "nat \<Rightarrow> u32 list \<Rightarrow> u32 res" where
  "get_at i vs = (if i < length vs then Inr (vs ! i) else Inl OutOfBounds)"

definition put_at :: "nat \<Rightarrow> u32 \<Rightarrow> u32 list \<Rightarrow> u32 list res" where
  "put_at i v vs = (if i < length vs then Inr (vs[i := v]) else Inl OutOfBounds)"

text \<open>The first \<open>n\<close> rounds of the loop of \<open>window_stats_copy\<close>.\<close>

fun copy_values :: "nat \<Rightarrow> u32 list \<Rightarrow> u32 list \<Rightarrow> u32 list res" where
  "copy_values 0 from to = Inr to"
| "copy_values (Suc i) from to =
     rbind (copy_values i from to) (\<lambda>to. rbind (get_at i from) (\<lambda>v. put_at i v to))"

definition window_stats_copy_ms :: "window_stats_ms \<Rightarrow> window_stats_ms \<Rightarrow> window_stats_ms res" where
  "window_stats_copy_ms to from =
     rbind (copy_values (unat (wm_size from)) (wm_values from) (wm_values to)) (\<lambda>vs.
     Inr (to\<lparr>wm_values := vs, wm_sum := wm_sum from, wm_start := wm_start from, wm_end := wm_end from,
             wm_len := wm_len from\<rparr>))"

definition window_stats_pop_ms :: "window_stats_ms \<Rightarrow> window_stats_ms res" where
  "window_stats_pop_ms w =
     (if wm_len w > 0 \<and> wm_size w > 0 then
        rbind (if wm_len w = wm_size w
               then rbind (get_at (unat (wm_start w)) (wm_values w)) (\<lambda>v. Inr (w\<lparr>wm_sum := wm_sum w - v\<rparr>))
               else Inr w) (\<lambda>w.
        rbind (umod (wm_start w + 1) (wm_size w)) (\<lambda>i.
        Inr (w\<lparr>wm_start := i, wm_len := wm_len w - 1\<rparr>)))
      else Inr w)"

definition window_stats_push_ms :: "u32 \<Rightarrow> window_stats_ms \<Rightarrow> window_stats_ms res" where
  "window_stats_push_ms v w =
     rbind (if wm_size w > 0 then
              rbind (if wm_len w = wm_size w then window_stats_pop_ms w else Inr w) (\<lambda>w.
              rbind (put_at (unat (wm_end w)) v (wm_values w)) (\<lambda>vs.
              let w = w\<lparr>wm_values := vs\<rparr> in
              rbind (umod (wm_end w + 1) (wm_size w)) (\<lambda>i. Inr (w\<lparr>wm_end := i\<rparr>))))
            else Inr w) (\<lambda>w.
     Inr (w\<lparr>wm_sum := wm_sum w + v, wm_len := wm_len w + 1\<rparr>))"

definition window_stats_average_ms :: "window_stats_ms \<Rightarrow> u32" where
  "window_stats_average_ms w = (if wm_len w = 0 then 0 else wm_sum w div wm_len w)"

definition window_stats_average_hundredths :: "window_stats_ms \<Rightarrow> u32" where
  "window_stats_average_hundredths w = (if wm_len w = 0 then 0 else (100 * wm_sum w) div wm_len w)"

record phase_stats =
  ps_cache_stats :: window_stats_ms
  ps_ghost_stats :: window_stats_ms

definition phase_stats_init :: "u32 \<Rightarrow> phase_stats \<Rightarrow> phase_stats" where
  "phase_stats_init n p =
     p\<lparr>ps_cache_stats := window_stats_init_ms n (ps_cache_stats p),
       ps_ghost_stats := window_stats_init_ms n (ps_ghost_stats p)\<rparr>"

definition phase_cache_hitrate :: "phase_stats \<Rightarrow> u32" where
  "phase_cache_hitrate p = window_stats_average_hundredths (ps_cache_stats p)"

definition phase_ghost_hitrate :: "phase_stats \<Rightarrow> u32" where
  "phase_ghost_hitrate p = window_stats_average_hundredths (ps_ghost_stats p)"

definition phase_stats_clear :: "phase_stats \<Rightarrow> phase_stats" where
  "phase_stats_clear p =
     p\<lparr>ps_cache_stats := window_stats_clear_ms (ps_cache_stats p),
       ps_ghost_stats := window_stats_clear_ms (ps_ghost_stats p)\<rparr>"

definition phase_stats_copy :: "phase_stats \<Rightarrow> phase_stats \<Rightarrow> phase_stats res" where
  "phase_stats_copy to from =
     rbind (window_stats_copy_ms (ps_cache_stats to) (ps_cache_stats from)) (\<lambda>c.
     rbind (window_stats_copy_ms (ps_ghost_stats to) (ps_ghost_stats from)) (\<lambda>g.
     Inr (to\<lparr>ps_cache_stats := c, ps_ghost_stats := g\<rparr>)))"

section \<open>Transitions\<close>

datatype mstar_state_id = STABLE | UNSTABLE | UNIQUE

text \<open>The functions a transition points to, by their names.\<close>

datatype improvement_f = transition_improved_hitrate_f | transition_improved_unique_f
datatype difficulty_f = transition_increase_param_f | transition_decrease_param_f

record mstar_transition =
  tr_min :: u32
  tr_max :: u32
  tr_stat :: u32
  tr_was_improvement :: improvement_f
  tr_increase_difficulty :: difficulty_f
  tr_decrease_difficulty :: difficulty_f

text \<open>The fields of \<open>mstar_transition_set\<close>; a pointer to a transition of the logic is the name of the field.\<close>

datatype mstar_transition_id =
    Unstable_stable_threshold | Unstable_stable_percent
  | Unstable_unique_threshold | Unstable_unique_percent
  | Stable_unstable_percent
  | Unique_unstable_threshold | Unique_unstable_percent

text \<open>\<open>adaptive\<close> tells which of its two functions \<open>enter_new_phase\<close> points to.\<close>

record mstar_logic =
  lo_this_phase :: phase_stats
  lo_prev_phase :: phase_stats
  lo_state_stats :: window_stats_ms
  lo_state :: mstar_state_id
  lo_TABU :: u32
  lo_tabu_counter :: u32
  lo_adaptive :: bool
  lo_transition_set :: "mstar_transition_id \<Rightarrow> mstar_transition"
  lo_last_transition :: "mstar_transition_id option"
  lo_recent_transition :: bool

definition transition_value :: "mstar_transition \<Rightarrow> u32" where
  "transition_value t = (tr_max t * tr_stat t) div 1000 + tr_min t"

definition transition_improved_hitrate :: "mstar_logic \<Rightarrow> bool" where
  "transition_improved_hitrate l \<longleftrightarrow> phase_cache_hitrate (lo_this_phase l) \<ge> phase_cache_hitrate (lo_prev_phase l)"

definition transition_improved_unique :: "mstar_logic \<Rightarrow> bool res" where
  "transition_improved_unique l =
     (let this_phase_avg = phase_cache_hitrate (lo_this_phase l);
          ghost_hits = wm_sum (ps_ghost_stats (lo_this_phase l));
          ghost_hits_old = wm_sum (ps_ghost_stats (lo_prev_phase l)) in
      rbind (udiv ((ghost_hits - ghost_hits_old) * 100) (lo_TABU l)) (\<lambda>gain.
      Inr (gain > transition_value (lo_transition_set l Unique_unstable_threshold) \<or>
           this_phase_avg > transition_value (lo_transition_set l Unique_unstable_percent))))"

definition set_stat :: "mstar_transition_id \<Rightarrow> u32 \<Rightarrow> mstar_logic \<Rightarrow> mstar_logic" where
  "set_stat t v l = l\<lparr>lo_transition_set := (lo_transition_set l)(t := (lo_transition_set l t)\<lparr>tr_stat := v\<rparr>)\<rparr>"

definition transition_increase_param :: "mstar_logic \<Rightarrow> mstar_logic res" where
  "transition_increase_param l =
     rbind (deref (lo_last_transition l)) (\<lambda>t.
     let cur = tr_stat (lo_transition_set l t) in
     if cur = 0 then Inr (set_stat t 1000 l)
     else rbind (udiv 1000 cur) (\<lambda>q. Inr (set_stat t (min_u 1000 (cur + q)) l)))"

definition transition_decrease_param :: "mstar_logic \<Rightarrow> mstar_logic res" where
  "transition_decrease_param l =
     rbind (deref (lo_last_transition l)) (\<lambda>t.
     let cur = tr_stat (lo_transition_set l t);
         cur = (if cur = 1000 then 0 else cur) in
     rbind (udiv 1000 (1000 - cur)) (\<lambda>tmp.
     Inr (set_stat t (if cur > tmp then max_u 0 (cur - tmp) else 0) l)))"

text \<open>Calls through the pointers.\<close>

definition was_improvement :: "improvement_f \<Rightarrow> mstar_logic \<Rightarrow> bool res" where
  "was_improvement f l =
     (case f of transition_improved_hitrate_f \<Rightarrow> Inr (transition_improved_hitrate l)
      | transition_improved_unique_f \<Rightarrow> transition_improved_unique l)"

definition change_difficulty :: "difficulty_f \<Rightarrow> mstar_logic \<Rightarrow> mstar_logic res" where
  "change_difficulty f l =
     (case f of transition_increase_param_f \<Rightarrow> transition_increase_param l
      | transition_decrease_param_f \<Rightarrow> transition_decrease_param l)"

definition unstable_stable_threshold :: mstar_transition where
  "unstable_stable_threshold = \<lparr>tr_min = 2, tr_max = 20, tr_stat = 555,
     tr_was_improvement = transition_improved_hitrate_f, tr_increase_difficulty = transition_decrease_param_f,
     tr_decrease_difficulty = transition_increase_param_f\<rparr>"

definition unstable_stable_percent :: mstar_transition where
  "unstable_stable_percent = \<lparr>tr_min = 105, tr_max = 150, tr_stat = 333,
     tr_was_improvement = transition_improved_hitrate_f, tr_increase_difficulty = transition_increase_param_f,
     tr_decrease_difficulty = transition_decrease_param_f\<rparr>"

definition unstable_unique_threshold :: mstar_transition where
  "unstable_unique_threshold = \<lparr>tr_min = 20, tr_max = 80, tr_stat = 500,
     tr_was_improvement = transition_improved_unique_f, tr_increase_difficulty = transition_decrease_param_f,
     tr_decrease_difficulty = transition_increase_param_f\<rparr>"

definition unstable_unique_percent :: mstar_transition where
  "unstable_unique_percent = \<lparr>tr_min = 2, tr_max = 25, tr_stat = 130,
     tr_was_improvement = transition_improved_unique_f, tr_increase_difficulty = transition_decrease_param_f,
     tr_decrease_difficulty = transition_increase_param_f\<rparr>"

definition stable_unstable_percent :: mstar_transition where
  "stable_unstable_percent = \<lparr>tr_min = 50, tr_max = 90, tr_stat = 500,
     tr_was_improvement = transition_improved_hitrate_f, tr_increase_difficulty = transition_decrease_param_f,
     tr_decrease_difficulty = transition_increase_param_f\<rparr>"

definition unique_unstable_threshold :: mstar_transition where
  "unique_unstable_threshold = \<lparr>tr_min = 1, tr_max = 30, tr_stat = 0,
     tr_was_improvement = transition_improved_hitrate_f, tr_increase_difficulty = transition_increase_param_f,
     tr_decrease_difficulty = transition_decrease_param_f\<rparr>"

definition unique_unstable_percent :: mstar_transition where
  "unique_unstable_percent = \<lparr>tr_min = 1, tr_max = 20, tr_stat = 237,
     tr_was_improvement = transition_improved_hitrate_f, tr_increase_difficulty = transition_increase_param_f,
     tr_decrease_difficulty = transition_decrease_param_f\<rparr>"

definition mstar_transition_set_init :: "mstar_transition_id \<Rightarrow> mstar_transition" where
  "mstar_transition_set_init t =
     (case t of
        Unstable_stable_threshold \<Rightarrow> unstable_stable_threshold
      | Unstable_stable_percent \<Rightarrow> unstable_stable_percent
      | Unstable_unique_threshold \<Rightarrow> unstable_unique_threshold
      | Unstable_unique_percent \<Rightarrow> unstable_unique_percent
      | Stable_unstable_percent \<Rightarrow> stable_unstable_percent
      | Unique_unstable_threshold \<Rightarrow> unique_unstable_threshold
      | Unique_unstable_percent \<Rightarrow> unique_unstable_percent)"

section \<open>States\<close>

definition state_transition_to :: "mstar_logic \<Rightarrow> mstar_transition_id \<Rightarrow> mstar_state_id \<Rightarrow> bool \<Rightarrow> mstar_logic res" where
  "state_transition_to l current_transition next_state clear_state_stats =
     (let l = l\<lparr>lo_last_transition := Some current_transition, lo_state := next_state,
                lo_recent_transition := True\<rparr>;
          l = (if next_state = UNSTABLE then l\<lparr>lo_tabu_counter := 2 * lo_TABU l\<rparr> else l);
          l = (if clear_state_stats then l\<lparr>lo_state_stats := window_stats_clear_ms (lo_state_stats l)\<rparr> else l) in
      rbind (phase_stats_copy (lo_prev_phase l) (lo_this_phase l)) (\<lambda>p.
      Inr (l\<lparr>lo_prev_phase := p, lo_this_phase := phase_stats_clear (lo_this_phase l)\<rparr>)))"

definition change_from_unstable_if_able :: "mstar_logic \<Rightarrow> mstar_logic res" where
  "change_from_unstable_if_able l =
     (let val = (\<lambda>t. transition_value (lo_transition_set l t));
          hr_sample = phase_cache_hitrate (lo_this_phase l);
          hr_state = window_stats_average_hundredths (lo_state_stats l) in
      if val Unstable_unique_threshold * hr_state > hr_sample then
        state_transition_to l Unstable_unique_threshold UNIQUE False
      else if hr_sample < val Unstable_unique_percent then
        state_transition_to l Unstable_unique_percent UNIQUE False
      else if 100 * hr_sample < (100 + val Unstable_stable_threshold) * hr_state \<and>
              100 * hr_sample > (100 - val Unstable_stable_threshold) * hr_state then
        state_transition_to l Unstable_stable_threshold STABLE True
      else if hr_sample \<ge> val Unstable_stable_percent * hr_state \<and> hr_sample \<ge> 20 then
        state_transition_to l Unstable_stable_percent STABLE True
      else Inr l)"

definition change_from_stable_if_able :: "mstar_logic \<Rightarrow> mstar_logic res" where
  "change_from_stable_if_able l =
     (let hr_sample = phase_cache_hitrate (lo_prev_phase l);
          hr_state = window_stats_average_hundredths (lo_state_stats l) in
      if 100 * hr_sample \<le> transition_value (lo_transition_set l Stable_unstable_percent) * hr_state then
        state_transition_to l Stable_unstable_percent UNSTABLE False
      else Inr l)"

definition change_from_unique_if_able :: "mstar_logic \<Rightarrow> mstar_logic res" where
  "change_from_unique_if_able l =
     (let hr_sample = phase_cache_hitrate (lo_this_phase l);
          filter_hr_sample = phase_ghost_hitrate (lo_this_phase l) in
      if transition_value (lo_transition_set l Unique_unstable_threshold) * hr_sample > 100 * filter_hr_sample then
        state_transition_to l Unique_unstable_threshold UNSTABLE False
      else if hr_sample > transition_value (lo_transition_set l Unique_unstable_percent) then
        state_transition_to l Unique_unstable_percent UNSTABLE False
      else Inr l)"

definition change_if_able :: "mstar_logic \<Rightarrow> mstar_logic res" where
  "change_if_able l =
     (case lo_state l of
        UNSTABLE \<Rightarrow> change_from_unstable_if_able l
      | STABLE \<Rightarrow> change_from_stable_if_able l
      | UNIQUE \<Rightarrow> change_from_unique_if_able l)"

section \<open>Phases\<close>

definition save_ghost_stats :: "mstar_logic \<Rightarrow> mstar_logic res" where
  "save_ghost_stats l =
     rbind (window_stats_copy_ms (ps_ghost_stats (lo_prev_phase l)) (ps_ghost_stats (lo_this_phase l))) (\<lambda>w.
     Inr (l\<lparr>lo_prev_phase := (lo_prev_phase l)\<lparr>ps_ghost_stats := w\<rparr>\<rparr>))"

definition static_new_phase :: "mstar_logic \<Rightarrow> mstar_logic res" where
  "static_new_phase l = rbind (save_ghost_stats (l\<lparr>lo_tabu_counter := lo_TABU l\<rparr>)) change_if_able"

definition adaptive_new_phase :: "mstar_logic \<Rightarrow> mstar_logic res" where
  "adaptive_new_phase l =
     (let l = l\<lparr>lo_tabu_counter := lo_TABU l\<rparr> in
      rbind (if lo_recent_transition l then
               let l' = l\<lparr>lo_recent_transition := False\<rparr> in
               rbind (deref (lo_last_transition l)) (\<lambda>t.
               let last_trans = lo_transition_set l t in
               rbind (was_improvement (tr_was_improvement last_trans) l') (\<lambda>better.
               change_difficulty (if better then tr_decrease_difficulty last_trans
                                  else tr_increase_difficulty last_trans) l'))
             else Inr l) (\<lambda>l.
      rbind (save_ghost_stats l) change_if_able))"

definition enter_new_phase :: "mstar_logic \<Rightarrow> mstar_logic res" where
  "enter_new_phase l = (if lo_adaptive l then adaptive_new_phase l else static_new_phase l)"

definition update_mstar :: "mstar_logic \<Rightarrow> bool \<Rightarrow> bool \<Rightarrow> mstar_logic res" where
  "update_mstar l cache_hit ghost_hit =
     rbind (window_stats_push_ms (of_bool cache_hit) (ps_cache_stats (lo_this_phase l))) (\<lambda>c.
     rbind (window_stats_push_ms (of_bool ghost_hit) (ps_ghost_stats (lo_this_phase l))) (\<lambda>g.
     rbind (window_stats_push_ms (of_bool cache_hit) (lo_state_stats l)) (\<lambda>w.
     let l = l\<lparr>lo_this_phase := (lo_this_phase l)\<lparr>ps_cache_stats := c, ps_ghost_stats := g\<rparr>, lo_state_stats := w\<rparr>;
         l = (if lo_tabu_counter l > 0 then l\<lparr>lo_tabu_counter := lo_tabu_counter l - 1\<rparr> else l) in
     if lo_tabu_counter l = 0 then enter_new_phase l else Inr l)))"

definition mstar_logic_init :: "bool \<Rightarrow> cblock \<Rightarrow> mstar_logic \<Rightarrow> mstar_logic" where
  "mstar_logic_init adaptive csize l =
     (let l = l\<lparr>lo_state := UNSTABLE, lo_recent_transition := False, lo_last_transition := None,
                lo_adaptive := adaptive, lo_TABU := csize, lo_tabu_counter := 2 * csize,
                lo_transition_set := mstar_transition_set_init\<rparr>;
          l = (if \<not> adaptive
               then set_stat Unique_unstable_percent 473
                      (set_stat Unique_unstable_threshold 310 (set_stat Unstable_unique_percent 260 l))
               else l)
      in l\<lparr>lo_this_phase := phase_stats_init csize (lo_this_phase l),
           lo_prev_phase := phase_stats_init csize (lo_prev_phase l),
           lo_state_stats := window_stats_init_ms 0 (lo_state_stats l)\<rparr>)"

end
