(* ===== verification/Mstar.thy ===== *)
theory Mstar
  imports Policy Mstar_Logic
begin

text \<open>
  M* (\<open>src/src/mstar/mstar_policy.c\<close>, \<open>mstar_policy_struct.h\<close>): an admission filter in front of any policy. It remembers
  the blocks of recent misses in a ghost list of a changing size; outside the state UNSTABLE a miss on a full cache
  enters the cache only if its block is remembered. The theory has its functions, over any internal policy.
\<close>

section \<open>The policy\<close>

text \<open>\<open>mstar_entry\<close> adds to \<open>entry\<close> only the queue node. \<open>'s\<close> is the internal policy.\<close>

record 's mstar_policy = "unit cache_nucleus" +
  mstar_g :: "eptr list"
  ms_ghost_size :: cblock
  ms_internal :: 's
  ms_logic :: mstar_logic

definition mstar_only_remove :: "eptr \<Rightarrow> 's mstar_policy \<Rightarrow> 's mstar_policy res" where
  "mstar_only_remove e s = cache_nucleus_remove e (s\<lparr>mstar_g := q_remove e (mstar_g s)\<rparr>)"

definition mstar_remove :: "'s policy_api \<Rightarrow> oblock \<Rightarrow> bool \<Rightarrow> 's mstar_policy \<Rightarrow> 's mstar_policy res" where
  "mstar_remove P ob remove_to_history s =
     rbind (case ht_lookup ob s of
              None \<Rightarrow> Inr s
            | Some e \<Rightarrow> if \<not> remove_to_history then mstar_only_remove e s else Inr s) (\<lambda>s.
     rbind (policy_remove P ob remove_to_history (ms_internal s)) (\<lambda>i. Inr (s\<lparr>ms_internal := i\<rparr>)))"

definition mstar_insert :: "'s policy_api \<Rightarrow> oblock \<Rightarrow> cblock \<Rightarrow> 's mstar_policy \<Rightarrow> 's mstar_policy res" where
  "mstar_insert P ob cb s =
     rbind (policy_insert P ob cb (ms_internal s)) (\<lambda>i. Inr (s\<lparr>ms_internal := i\<rparr>))"

definition mstar_migrated :: "'s policy_api \<Rightarrow> oblock \<Rightarrow> 's mstar_policy \<Rightarrow> 's mstar_policy res" where
  "mstar_migrated P ob s =
     rbind (policy_migrated P ob (ms_internal s)) (\<lambda>i. Inr (s\<lparr>ms_internal := i\<rparr>))"

section \<open>The ghost list\<close>

text \<open>\<open>queue_pop\<close> on the list of a queue.\<close>

definition q_pop :: "'a list \<Rightarrow> 'a option \<times> 'a list" where
  "q_pop q = (case q of [] \<Rightarrow> (None, []) | x # q \<Rightarrow> (Some x, q))"

text \<open>The pop unlinks the entry before \<open>mstar_only_remove\<close> unlinks it again, which has no effect on a node in no list.\<close>

definition mstar_evict :: "'s mstar_policy \<Rightarrow> 's mstar_policy res" where
  "mstar_evict s =
     (let (e, q) = q_pop (mstar_g s); s = s\<lparr>mstar_g := q\<rparr> in
      rbind (log_assert (e \<noteq> None)) (\<lambda>_.
      rbind (deref e) (\<lambda>e. mstar_only_remove e s)))"

definition mstar_ghost_length_control :: "'s mstar_policy \<Rightarrow> 's mstar_policy res" where
  "mstar_ghost_length_control s = (if q_length (mstar_g s) > ms_ghost_size s then mstar_evict s else Inr s)"

definition mstar_increase_ghost_size :: "'s mstar_policy \<Rightarrow> 's mstar_policy res" where
  "mstar_increase_ghost_size s =
     (let csize = meta_size s; ghost_size = ms_ghost_size s in
      rbind (log_assert (ghost_size > 0)) (\<lambda>_.
      rbind (udiv csize ghost_size) (\<lambda>q.
      Inr (s\<lparr>ms_ghost_size := min_u ((9 * csize) div 10) (ghost_size + q)\<rparr>))))"

definition mstar_decrease_ghost_size :: "'s mstar_policy \<Rightarrow> 's mstar_policy res" where
  "mstar_decrease_ghost_size s =
     (let csize = meta_size s; ghost_size = ms_ghost_size s in
      rbind (log_assert (csize > ghost_size)) (\<lambda>_.
      rbind (udiv csize (csize - ghost_size)) (\<lambda>tmp.
      Inr (s\<lparr>ms_ghost_size := (if ghost_size \<ge> tmp then max_u (csize div 10) (ghost_size - tmp)
                               else csize div 10)\<rparr>))))"

text \<open>A block is remembered.\<close>

definition mstar_remember :: "oblock \<Rightarrow> 's mstar_policy \<Rightarrow> 's mstar_policy res" where
  "mstar_remember ob s =
     rbind (insert_in_meta ob s) (\<lambda>(e, s).
     rbind (q_push [] (mstar_g s) e) (\<lambda>q. Inr (s\<lparr>mstar_g := q\<rparr>)))"

section \<open>Accesses\<close>

definition mstar_internal_map ::
  "'s policy_api \<Rightarrow> oblock \<Rightarrow> bool \<Rightarrow> cn_result \<Rightarrow> 's mstar_policy \<Rightarrow> (int \<times> cn_result \<times> 's mstar_policy) res" where
  "mstar_internal_map P ob write result s =
     rbind (policy_map P ob write result (ms_internal s)) (\<lambda>(r, result, i).
     Inr (r, result, s\<lparr>ms_internal := i\<rparr>))"

definition mstar_ghost_miss ::
  "'s policy_api \<Rightarrow> oblock \<Rightarrow> bool \<Rightarrow> cn_result \<Rightarrow> 's mstar_policy \<Rightarrow> (int \<times> cn_result \<times> 's mstar_policy) res" where
  "mstar_ghost_miss P ob write result s =
     (if policy_cache_is_full P (ms_internal s) then
        rbind (mstar_remember ob s) (\<lambda>s.
        rbind (mstar_increase_ghost_size s) (\<lambda>s.
        if lo_state (ms_logic s) \<noteq> UNSTABLE
        then Inr (0, result, upd_stats inc_ios (upd_stats inc_filters s))
        else mstar_internal_map P ob write result s))
      else mstar_internal_map P ob write result s)"

definition mstar_ghost_hit ::
  "'s policy_api \<Rightarrow> oblock \<Rightarrow> bool \<Rightarrow> cn_result \<Rightarrow> 's mstar_policy \<Rightarrow> (int \<times> cn_result \<times> 's mstar_policy) res" where
  "mstar_ghost_hit P ob write result s =
     rbind (if policy_cache_is_full P (ms_internal s) then
              rbind (deref (ht_lookup ob s)) (\<lambda>e.
              rbind (mstar_only_remove e s) (\<lambda>s.
              rbind (if lo_state (ms_logic s) = UNSTABLE then mstar_remember ob s else Inr s)
                mstar_increase_ghost_size))
            else Inr s) (\<lambda>s.
     mstar_internal_map P ob write result s)"

definition mstar_hit ::
  "'s policy_api \<Rightarrow> oblock \<Rightarrow> bool \<Rightarrow> cn_result \<Rightarrow> 's mstar_policy \<Rightarrow> (int \<times> cn_result \<times> 's mstar_policy) res" where
  "mstar_hit P ob write result s =
     rbind (mstar_internal_map P ob write result s) (\<lambda>(r, result, s).
     if lo_state (ms_logic s) \<noteq> UNSTABLE \<or> policy_cache_is_full P (ms_internal s)
     then rbind (mstar_decrease_ghost_size s) (\<lambda>s. Inr (r, result, s))
     else Inr (r, result, s))"

definition mstar_map ::
  "'s policy_api \<Rightarrow> oblock \<Rightarrow> bool \<Rightarrow> cn_result \<Rightarrow> 's mstar_policy \<Rightarrow> (int \<times> cn_result \<times> 's mstar_policy) res" where
  "mstar_map P ob write result s =
     (let cache_hit = policy_cache_lookup P ob (ms_internal s) \<noteq> None;
          ghost_hit = ht_lookup ob s \<noteq> None;
          result = result\<lparr>r_op := CACHE_NUCLEUS_FILTER\<rparr> in
      rbind (if cache_hit then mstar_hit P ob write result s
             else if ghost_hit then mstar_ghost_hit P ob write result s
             else mstar_ghost_miss P ob write result s) (\<lambda>(r, result, s).
      rbind (mstar_ghost_length_control s) (\<lambda>s.
      rbind (update_mstar (ms_logic s) cache_hit ghost_hit) (\<lambda>l.
      Inr (r, result, s\<lparr>ms_logic := l\<rparr>)))))"

section \<open>The other functions of the API\<close>

definition mstar_cache_lookup :: "'s policy_api \<Rightarrow> oblock \<Rightarrow> 's mstar_policy \<Rightarrow> eptr option" where
  "mstar_cache_lookup P ob s = policy_cache_lookup P ob (ms_internal s)"

definition mstar_meta_lookup :: "'s policy_api \<Rightarrow> oblock \<Rightarrow> 's mstar_policy \<Rightarrow> eptr option" where
  "mstar_meta_lookup P ob s = policy_meta_lookup P ob (ms_internal s)"

definition mstar_cblock_lookup :: "'s policy_api \<Rightarrow> cblock \<Rightarrow> 's mstar_policy \<Rightarrow> eptr option" where
  "mstar_cblock_lookup P cb s = policy_cblock_lookup P cb (ms_internal s)"

definition mstar_remap :: "'s policy_api \<Rightarrow> oblock \<Rightarrow> oblock \<Rightarrow> 's mstar_policy \<Rightarrow> 's mstar_policy res" where
  "mstar_remap P current new s =
     rbind (deref (ht_lookup current s)) (\<lambda>e.
     rbind (ht_remove e s) (\<lambda>s.
     rbind (ht_insert e (upd_entry e (\<lambda>x. x\<lparr>e_oblock := new\<rparr>) s)) (\<lambda>s.
     rbind (policy_remap P current new (ms_internal s)) (\<lambda>i. Inr (s\<lparr>ms_internal := i\<rparr>)))))"

definition mstar_get_stats :: "'s policy_api \<Rightarrow> 's mstar_policy \<Rightarrow> policy_stats \<Rightarrow> policy_stats" where
  "mstar_get_stats P s st =
     (let st = policy_get_stats P (ms_internal s) st in
      st\<lparr>st_filters := st_filters st + st_filters (stats s)\<rparr>)"

definition mstar_set_time :: "'s policy_api \<Rightarrow> u32 \<Rightarrow> 's mstar_policy \<Rightarrow> 's mstar_policy" where
  "mstar_set_time P time s =
     s\<lparr>ms_internal := policy_set_time P time (ms_internal s), cn_time := time\<rparr>"

definition mstar_residency :: "'s policy_api \<Rightarrow> 's mstar_policy \<Rightarrow> cblock" where
  "mstar_residency P s = policy_residency P (ms_internal s)"

definition mstar_cache_is_full :: "'s policy_api \<Rightarrow> 's mstar_policy \<Rightarrow> bool" where
  "mstar_cache_is_full P s = policy_cache_is_full P (ms_internal s)"

definition mstar_infer_cblock :: "'s policy_api \<Rightarrow> 's mstar_policy \<Rightarrow> eptr \<Rightarrow> cblock res" where
  "mstar_infer_cblock P s e = policy_infer_cblock P (ms_internal s) e"

definition mstar_next_victim ::
  "'s policy_api \<Rightarrow> oblock \<Rightarrow> 's mstar_policy \<Rightarrow> (cache_nucleus_operation \<times> eptr option) res" where
  "mstar_next_victim P ob s =
     (if policy_cache_lookup P ob (ms_internal s) \<noteq> None \<or> ht_lookup ob s \<noteq> None \<or>
         lo_state (ms_logic s) = UNSTABLE
      then policy_next_victim P ob (ms_internal s)
      else Inr (CACHE_NUCLEUS_FILTER, None))"

definition mstar_api :: "'s policy_api \<Rightarrow> 's mstar_policy policy_api" where
  "mstar_api P =
     \<lparr>fn_map = mstar_map P, fn_remove = mstar_remove P, fn_insert = mstar_insert P,
      fn_migrated = mstar_migrated P, fn_cache_lookup = mstar_cache_lookup P,
      fn_meta_lookup = mstar_meta_lookup P, fn_cblock_lookup = mstar_cblock_lookup P,
      fn_remap = mstar_remap P, fn_get_stats = mstar_get_stats P, fn_set_time = mstar_set_time P,
      fn_residency = mstar_residency P, fn_cache_is_full = mstar_cache_is_full P,
      fn_infer_cblock = mstar_infer_cblock P, fn_next_victim = mstar_next_victim P,
      fn_entry = (\<lambda>s e. fn_entry P (ms_internal s) e), fn_pool_full = cache_is_full,
      fn_cache_size = cache_size\<rparr>"

section \<open>Creation\<close>

text \<open>
  The pool of the ghost list has as many entries as the cache, whatever the size of the metadata; the size of
  the cache is kept in \<open>meta_size\<close>.
\<close>

definition empty_window_ms :: window_stats_ms where
  "empty_window_ms = \<lparr>wm_values = [], wm_sum = 0, wm_start = 0, wm_end = 0, wm_len = 0, wm_size = 0\<rparr>"

definition zero_transition :: mstar_transition where
  "zero_transition = \<lparr>tr_min = 0, tr_max = 0, tr_stat = 0, tr_was_improvement = transition_improved_hitrate_f,
     tr_increase_difficulty = transition_increase_param_f, tr_decrease_difficulty = transition_increase_param_f\<rparr>"

definition zero_logic :: mstar_logic where
  "zero_logic =
     (let p = \<lparr>ps_cache_stats = empty_window_ms, ps_ghost_stats = empty_window_ms\<rparr> in
      \<lparr>lo_this_phase = p, lo_prev_phase = p, lo_state_stats = empty_window_ms, lo_state = STABLE,
       lo_TABU = 0, lo_tabu_counter = 0, lo_adaptive = False, lo_transition_set = (\<lambda>_. zero_transition),
       lo_last_transition = None, lo_recent_transition = False\<rparr>)"

definition zero_mstar :: "'s \<Rightarrow> 's mstar_policy" where
  "zero_mstar i = \<lparr>store = (\<lambda>_. \<lparr>e_oblock = 0, e_time = 0, e_dirty = False, e_allocated = False,
       e_migrating = False\<rparr>), wb = (\<lambda>_. []),
     thread_support = CACHE_NUCLEUS_SINGLE_THREAD, meta_size = 0, cache_size = 0,
     meta_pool = epool_create MetaRegion 0, cache_pool = epool_create CacheRegion 0,
     stats = stats_init, ht = [], cn_time = 0, mstar_g = [], ms_ghost_size = 0, ms_internal = i,
     ms_logic = zero_logic\<rparr>"

definition mstar_init :: "cblock \<Rightarrow> cblock \<Rightarrow> 's \<Rightarrow> bool \<Rightarrow> 's mstar_policy \<Rightarrow> 's mstar_policy res" where
  "mstar_init csize msize internal adaptive s =
     policy_init 0 csize CACHE_NUCLEUS_SINGLE_THREAD
       (s\<lparr>ms_internal := internal, mstar_g := [], ms_ghost_size := (9 * csize) div 10,
          meta_pool := epool_create MetaRegion csize, ms_logic := mstar_logic_init adaptive csize (ms_logic s)\<rparr>)"

definition mstar_create ::
  "cblock \<Rightarrow> cblock \<Rightarrow> (cblock \<Rightarrow> cblock \<Rightarrow> 's res) \<Rightarrow> bool \<Rightarrow> 's mstar_policy res" where
  "mstar_create csize msize policy_create adaptive =
     rbind (policy_create csize msize) (\<lambda>internal.
     mstar_init csize msize internal adaptive (zero_mstar internal))"

end
