(* ===== verification/Mstar_Inv.thy ===== *)
theory Mstar_Inv
  imports Mstar_Logic
begin

text \<open>
  The decision logic of M* in exact numbers and lists of hits, and the proof that the machine follows it: every step
  runs without a fault, keeps the relation between the two, and takes the exact decision while the running
  counters do not overflow.
\<close>

declare split_paired_All [simp del] split_paired_Ex [simp del]

section \<open>The exact logic\<close>

text \<open>
  The hits of the current and of the last phase, of the cache and of the ghost list, oldest first; the hits and accesses
  since the counters of the state were cleared; the parameter of each transition, in thousandths.
\<close>

record logic_spec =
  al_state :: mstar_state_id
  al_tabu :: nat
  al_this :: "bool list"
  al_this_ghost :: "bool list"
  al_prev :: "bool list"
  al_prev_ghost :: "bool list"
  al_hits :: nat
  al_ios :: nat
  al_stat :: "mstar_transition_id \<Rightarrow> nat"
  al_last :: "mstar_transition_id option"
  al_recent :: bool
  al_adaptive :: bool

definition hits_in :: "bool list \<Rightarrow> nat" where
  "hits_in bs = count_list bs True"

definition rate :: "bool list \<Rightarrow> nat" where
  "rate bs = 100 * hits_in bs div length bs"

definition spec_value :: "mstar_transition_id \<Rightarrow> nat \<Rightarrow> nat" where
  "spec_value t stat =
     unat (tr_max (mstar_transition_set_init t)) * stat div 1000 + unat (tr_min (mstar_transition_set_init t))"

abbreviation al_value :: "logic_spec \<Rightarrow> mstar_transition_id \<Rightarrow> nat" where
  "al_value a t \<equiv> spec_value t (al_stat a t)"

definition spec_next :: "logic_spec \<Rightarrow> (mstar_transition_id \<times> mstar_state_id \<times> bool) option" where
  "spec_next a =
     (let now = rate (al_this a); before = 100 * al_hits a div al_ios a in
      case al_state a of
        UNSTABLE \<Rightarrow>
          if now < al_value a Unstable_unique_threshold * before then Some (Unstable_unique_threshold, UNIQUE, False)
          else if now < al_value a Unstable_unique_percent then Some (Unstable_unique_percent, UNIQUE, False)
          else if 100 * now < (100 + al_value a Unstable_stable_threshold) * before \<and>
                  (100 - al_value a Unstable_stable_threshold) * before < 100 * now
          then Some (Unstable_stable_threshold, STABLE, True)
          else if al_value a Unstable_stable_percent * before \<le> now \<and> 20 \<le> now
          then Some (Unstable_stable_percent, STABLE, True)
          else None
      | STABLE \<Rightarrow>
          if 100 * rate (al_prev a) \<le> al_value a Stable_unstable_percent * before
          then Some (Stable_unstable_percent, UNSTABLE, False) else None
      | UNIQUE \<Rightarrow>
          if 100 * rate (al_this_ghost a) < al_value a Unique_unstable_threshold * now
          then Some (Unique_unstable_threshold, UNSTABLE, False)
          else if al_value a Unique_unstable_percent < now then Some (Unique_unstable_percent, UNSTABLE, False)
          else None)"

definition spec_transition ::
  "nat \<Rightarrow> mstar_transition_id \<Rightarrow> mstar_state_id \<Rightarrow> bool \<Rightarrow> logic_spec \<Rightarrow> logic_spec" where
  "spec_transition c t next clear a =
     a\<lparr>al_last := Some t, al_state := next, al_recent := True,
       al_tabu := (if next = UNSTABLE then 2 * c else al_tabu a),
       al_hits := (if clear then 0 else al_hits a), al_ios := (if clear then 0 else al_ios a),
       al_prev := al_this a, al_prev_ghost := al_this_ghost a, al_this := [], al_this_ghost := []\<rparr>"

text \<open>The parameter grows by its inverse or shrinks by the inverse of its distance to 1000.\<close>

definition spec_increase :: "nat \<Rightarrow> nat" where
  "spec_increase st = (if st = 0 then 1000 else min 1000 (st + 1000 div st))"

definition spec_decrease :: "nat \<Rightarrow> nat" where
  "spec_decrease st = (let st = (if st = 1000 then 0 else st) in st - 1000 div (1000 - st))"

text \<open>
  Did the last transition pay off. A fall in the number of ghost hits counts as a gain: the difference of the
  unsigned counters wraps around.
\<close>

definition spec_improved :: "nat \<Rightarrow> improvement_f \<Rightarrow> logic_spec \<Rightarrow> bool" where
  "spec_improved c f a =
     (case f of
        transition_improved_hitrate_f \<Rightarrow> rate (al_prev a) \<le> rate (al_this a)
      | transition_improved_unique_f \<Rightarrow>
          hits_in (al_this_ghost a) < hits_in (al_prev_ghost a) \<or>
          al_value a Unique_unstable_threshold < 100 * (hits_in (al_this_ghost a) - hits_in (al_prev_ghost a)) div c \<or>
          al_value a Unique_unstable_percent < rate (al_this a))"

definition spec_difficulty :: "difficulty_f \<Rightarrow> nat \<Rightarrow> nat" where
  "spec_difficulty f = (case f of transition_increase_param_f \<Rightarrow> spec_increase | transition_decrease_param_f \<Rightarrow> spec_decrease)"

definition spec_adapt :: "nat \<Rightarrow> logic_spec \<Rightarrow> logic_spec" where
  "spec_adapt c a =
     (case al_last a of
        None \<Rightarrow> a
      | Some t \<Rightarrow>
          let tr = mstar_transition_set_init t;
              f = (if spec_improved c (tr_was_improvement tr) a
                   then tr_decrease_difficulty tr else tr_increase_difficulty tr)
          in a\<lparr>al_recent := False, al_stat := (al_stat a)(t := spec_difficulty f (al_stat a t))\<rparr>)"

definition spec_phase :: "nat \<Rightarrow> logic_spec \<Rightarrow> logic_spec" where
  "spec_phase c a =
     (let a = a\<lparr>al_tabu := c\<rparr>;
          a = (if al_adaptive a \<and> al_recent a then spec_adapt c a else a);
          a = a\<lparr>al_prev_ghost := al_this_ghost a\<rparr>
      in case spec_next a of None \<Rightarrow> a | Some (t, next, clear) \<Rightarrow> spec_transition c t next clear a)"

definition spec_observe :: "nat \<Rightarrow> bool \<Rightarrow> bool \<Rightarrow> logic_spec \<Rightarrow> logic_spec" where
  "spec_observe c hit ghost a =
     a\<lparr>al_this := slide c hit (al_this a), al_this_ghost := slide c ghost (al_this_ghost a),
       al_hits := al_hits a + of_bool hit, al_ios := Suc (al_ios a), al_tabu := al_tabu a - 1\<rparr>"

definition spec_update :: "nat \<Rightarrow> bool \<Rightarrow> bool \<Rightarrow> logic_spec \<Rightarrow> logic_spec" where
  "spec_update c hit ghost a =
     (let a = spec_observe c hit ghost a in if al_tabu a = 0 then spec_phase c a else a)"

section \<open>Windows of hits\<close>

definition window_values_ms :: "window_stats_ms \<Rightarrow> u32 list" where
  "window_values_ms w = ring_values (wm_values w) (unat (wm_size w)) (unat (wm_start w)) (unat (wm_len w))"

definition bits_ok :: "u32 \<Rightarrow> window_stats_ms \<Rightarrow> bool list \<Rightarrow> bool" where
  "bits_ok c w bs \<longleftrightarrow> wm_size w = c \<and> length (wm_values w) = unat c \<and> unat (wm_start w) < unat c \<and>
     unat (wm_len w) \<le> unat c \<and> unat (wm_end w) = (unat (wm_start w) + unat (wm_len w)) mod unat c \<and>
     window_values_ms w = map of_bool bs \<and> wm_sum w = of_nat (hits_in bs)"

text \<open>A window of size 0 only counts.\<close>

definition count_ok :: "window_stats_ms \<Rightarrow> nat \<Rightarrow> nat \<Rightarrow> bool" where
  "count_ok w h n \<longleftrightarrow> wm_size w = 0 \<and> wm_sum w = of_nat h \<and> wm_len w = of_nat n"

lemma bits_okD:
  assumes "bits_ok c w bs"
  shows "wm_size w = c" "length (wm_values w) = unat c" "unat (wm_start w) < unat c" "unat (wm_len w) \<le> unat c"
    "unat (wm_end w) = (unat (wm_start w) + unat (wm_len w)) mod unat c"
    "window_values_ms w = map of_bool bs" "wm_sum w = of_nat (hits_in bs)" "unat (wm_len w) = length bs"
proof -
  show "wm_size w = c" "length (wm_values w) = unat c" "unat (wm_start w) < unat c" "unat (wm_len w) \<le> unat c"
    "unat (wm_end w) = (unat (wm_start w) + unat (wm_len w)) mod unat c"
    "window_values_ms w = map of_bool bs" "wm_sum w = of_nat (hits_in bs)"
    using assms by (simp_all add: bits_ok_def)
  have "length (window_values_ms w) = length bs" using assms by (simp add: bits_ok_def)
  then show "unat (wm_len w) = length bs" by (simp add: window_values_ms_def)
qed

lemma hits_in_simps [simp]: "hits_in [] = 0" "hits_in (bs @ [b]) = hits_in bs + of_bool b"
  by (simp_all add: hits_in_def)

lemma hits_in_le: "hits_in bs \<le> length bs"
  unfolding hits_in_def by (rule count_le_length)

lemma hits_in_tl: "bs \<noteq> [] \<Longrightarrow> hits_in bs = of_bool (hd bs) + hits_in (tl bs)"
  by (cases bs) (auto simp: hits_in_def)

lemma rate_le: "rate bs \<le> 100"
proof -
  have "100 * hits_in bs div length bs \<le> 100 * length bs div length bs"
    using hits_in_le by (intro div_le_mono) simp
  also have "\<dots> \<le> 100" by (cases "bs = []") simp_all
  finally show ?thesis by (simp add: rate_def)
qed

lemma bits_init: "0 < c \<Longrightarrow> bits_ok c (window_stats_init_ms c w) []"
  by (simp add: bits_ok_def window_stats_init_ms_def window_values_ms_def word_less_nat_alt)

lemma bits_clear: "bits_ok c w bs \<Longrightarrow> bits_ok c (window_stats_clear_ms w) []"
  by (auto simp: bits_ok_def window_stats_clear_ms_def window_values_ms_def)

lemma count_init: "count_ok (window_stats_init_ms 0 w) 0 0"
  by (simp add: count_ok_def window_stats_init_ms_def)

lemma count_clear: "count_ok w h n \<Longrightarrow> count_ok (window_stats_clear_ms w) 0 0"
  by (simp add: count_ok_def window_stats_clear_ms_def)

lemma next_index_ms:
  assumes "unat i < unat (n :: u32)"
  shows "unat ((i + 1) mod n) = (unat i + 1) mod unat n"
proof -
  have "unat i + 1 < 2 ^ LENGTH(32)" using assms unat_less_exp [of n] by linarith
  then have "unat (i + 1) = unat i + 1" by (subst unat_add_small) simp_all
  then show ?thesis by (simp add: unat_mod)
qed

lemma bits_pop:
  assumes ok: "bits_ok c w bs" and full: "wm_len w = wm_size w"
  shows "\<exists>w'. window_stats_pop_ms w = Inr w' \<and> bits_ok c w' (tl bs) \<and> unat (wm_len w') < unat c"
proof -
  note D = bits_okD [OF ok]
  let ?n = "unat c"
  have n: "0 < ?n" "unat (wm_len w) = ?n" "c \<noteq> 0" using D(1,3) full by auto
  have ne: "bs \<noteq> []" using n D(8) by auto
  have v: "wm_values w ! unat (wm_start w) = of_bool (hd bs)"
    using ring_hd [of "unat (wm_len w)" "unat (wm_start w)" ?n "wm_values w"] D n ne
    by (simp add: window_values_ms_def hd_map)
  define w' where "w' = w\<lparr>wm_sum := wm_sum w - of_bool (hd bs), wm_start := (wm_start w + 1) mod c, wm_len := wm_len w - 1\<rparr>"
  have pop: "window_stats_pop_ms w = Inr w'"
    using D n full v by (simp add: window_stats_pop_ms_def get_at_def umod_def w'_def word_less_nat_alt)
  have start: "unat (wm_start w') = (unat (wm_start w) + 1) mod ?n" using next_index_ms [OF D(3)] by (simp add: w'_def)
  have len: "unat (wm_len w') = ?n - 1" using n full D(1) by (simp add: w'_def unat_minus_one)
  have "window_values_ms w' = tl (window_values_ms w)"
    using ring_pop [of "wm_values w" ?n "unat (wm_start w)" ?n] D(1) n(2) start len
    by (simp add: window_values_ms_def) (simp add: w'_def D(1))
  then have vals: "window_values_ms w' = map of_bool (tl bs)" using D(6) by (simp add: map_tl)
  have sum: "wm_sum w' = of_nat (hits_in (tl bs))"
    using D(7) hits_in_tl [OF ne] by (simp add: w'_def)
  have "unat (wm_end w') = (unat (wm_start w') + unat (wm_len w')) mod ?n"
    using D(5) n ring_end_pop [of ?n ?n "unat (wm_start w)"] start len by (simp add: w'_def)
  then have "bits_ok c w' (tl bs)"
    using D(1,2) n(1) start len vals sum by (simp add: bits_ok_def) (simp add: w'_def)
  then show ?thesis using pop len n(1) by auto
qed

lemma bits_put:
  assumes ok: "bits_ok c w bs" and room: "unat (wm_len w) < unat c"
  shows "\<exists>w'. rbind (put_at (unat (wm_end w)) (of_bool b) (wm_values w)) (\<lambda>vs.
      let w = w\<lparr>wm_values := vs\<rparr> in rbind (umod (wm_end w + 1) (wm_size w)) (\<lambda>i. Inr (w\<lparr>wm_end := i\<rparr>))) = Inr w' \<and>
    bits_ok c (w'\<lparr>wm_sum := wm_sum w' + of_bool b, wm_len := wm_len w' + 1\<rparr>) (bs @ [b])"
proof -
  note D = bits_okD [OF ok]
  let ?n = "unat c" and ?s = "unat (wm_start w)" and ?l = "unat (wm_len w)"
  have c: "c \<noteq> 0" and e: "unat (wm_end w) < ?n" using room D(5) by auto
  define w' where "w' = w\<lparr>wm_values := (wm_values w)[unat (wm_end w) := of_bool b], wm_end := (wm_end w + 1) mod c\<rparr>"
  have put: "rbind (put_at (unat (wm_end w)) (of_bool b) (wm_values w)) (\<lambda>vs.
      let w = w\<lparr>wm_values := vs\<rparr> in rbind (umod (wm_end w + 1) (wm_size w)) (\<lambda>i. Inr (w\<lparr>wm_end := i\<rparr>))) = Inr w'"
    using e c D(1,2) by (simp add: put_at_def umod_def w'_def Let_def)
  let ?w = "w'\<lparr>wm_sum := wm_sum w' + of_bool b, wm_len := wm_len w' + 1\<rparr>"
  have "?l + 1 < 2 ^ LENGTH(32)" using room unat_less_exp [of c] by linarith
  then have len: "unat (wm_len ?w) = Suc ?l" by (simp add: w'_def unat_add_small)
  have vals: "window_values_ms ?w = map of_bool (bs @ [b])"
    using ring_push [OF room D(2), of ?s "of_bool b"] D(1,5,6) len
    by (cases b) (simp_all add: window_values_ms_def w'_def)
  have en: "unat (wm_end ?w) = (?s + unat (wm_len ?w)) mod ?n"
    using next_index_ms [OF e] ring_end_push [of ?s ?l ?n] D(5) len by (simp add: w'_def)
  have sum: "wm_sum ?w = of_nat (hits_in (bs @ [b]))" using D(7) by (simp add: w'_def)
  have "bits_ok c ?w (bs @ [b])"
    using D(1,2,3) room len vals en sum unfolding bits_ok_def by (simp add: w'_def)
  then show ?thesis using put by blast
qed

lemma bits_push:
  assumes ok: "bits_ok c w bs"
  shows "\<exists>w'. window_stats_push_ms (of_bool b) w = Inr w' \<and> bits_ok c w' (slide (unat c) b bs)"
proof -
  note D = bits_okD [OF ok]
  have c: "wm_size w > 0" using D(1,3) by (auto simp: word_less_nat_alt)
  show ?thesis
  proof (cases "wm_len w = wm_size w")
    case True
    from bits_pop [OF ok this] obtain w1 where w1: "window_stats_pop_ms w = Inr w1" "bits_ok c w1 (tl bs)" "unat (wm_len w1) < unat c"
      by blast
    have "slide (unat c) b bs = tl bs @ [b]" using True D(1,8) by (simp add: slide_def)
    then show ?thesis using bits_put [OF w1(2,3), of b] w1(1) True c by (auto simp: window_stats_push_ms_def)
  next
    case False
    then have l: "unat (wm_len w) \<noteq> unat c" using D(1) by (simp add: word_unat_eq_iff)
    then have "slide (unat c) b bs = bs @ [b]" using D(8) by (simp add: slide_def)
    moreover have "unat (wm_len w) < unat c" using l D(4) by simp
    ultimately show ?thesis using bits_put [OF ok, of b] False c by (auto simp: window_stats_push_ms_def)
  qed
qed

lemma count_push: "count_ok w h n \<Longrightarrow>
  \<exists>w'. window_stats_push_ms (of_bool b) w = Inr w' \<and> count_ok w' (h + of_bool b) (Suc n)"
  by (simp add: window_stats_push_ms_def count_ok_def)

lemma copy_values_ok:
  assumes "i \<le> length from" "i \<le> length to"
  shows "copy_values i from to = Inr (take i from @ drop i to)"
  using assms
proof (induction i)
  case (Suc i)
  then have "copy_values i from to = Inr (take i from @ drop i to)" by simp
  moreover have "drop i to = to ! i # drop (Suc i) to" using Suc.prems by (simp add: Cons_nth_drop_Suc)
  ultimately show ?case using Suc.prems
    by (simp add: get_at_def put_at_def take_Suc_conv_app_nth list_update_append)
qed simp

lemma bits_copy:
  assumes "bits_ok c from bs" "bits_ok c to bs'"
  shows "\<exists>w. window_stats_copy_ms to from = Inr w \<and> bits_ok c w bs"
proof -
  note D = bits_okD [OF assms(1)] and E = bits_okD [OF assms(2)]
  have "copy_values (unat c) (wm_values from) (wm_values to) = Inr (wm_values from)"
    using copy_values_ok [of "unat c" "wm_values from" "wm_values to"] D(2) E(2) by simp
  then have "window_stats_copy_ms to from = Inr (to\<lparr>wm_values := wm_values from, wm_sum := wm_sum from,
      wm_start := wm_start from, wm_end := wm_end from, wm_len := wm_len from\<rparr>)"
    using D(1) by (simp add: window_stats_copy_ms_def)
  moreover have "bits_ok c (to\<lparr>wm_values := wm_values from, wm_sum := wm_sum from,
      wm_start := wm_start from, wm_end := wm_end from, wm_len := wm_len from\<rparr>) bs"
    using D E(1) by (simp add: bits_ok_def window_values_ms_def)
  ultimately show ?thesis by blast
qed

lemma bits_rate:
  assumes ok: "bits_ok c w bs" and small: "100 * unat c < 2 ^ 32"
  shows "unat (window_stats_average_hundredths w) = rate bs"
proof -
  note D = bits_okD [OF ok]
  have h: "hits_in bs \<le> unat c" using hits_in_le [of bs] D(4,8) by linarith
  then have "unat (wm_sum w) = hits_in bs" using D(7) small by (simp add: unat_of_nat_small)
  moreover have "unat (100 * wm_sum w) = 100 * unat (wm_sum w)"
    by (subst unat_mult_small) (use calculation h small in simp_all)
  ultimately show ?thesis using D(8)
    by (cases "wm_len w = 0") (auto simp: window_stats_average_hundredths_def rate_def unat_div)
qed

lemma bits_sum: "bits_ok c w bs \<Longrightarrow> unat (wm_sum w) = hits_in bs"
  using bits_okD(4,7,8) [of c w bs] hits_in_le [of bs] unat_less_exp [of c]
  by (simp add: unat_of_nat_small order_le_less_trans)

lemma count_rate:
  assumes ok: "count_ok w h n" and "h \<le> n" "100 * n < 2 ^ 32"
  shows "unat (window_stats_average_hundredths w) = 100 * h div n"
proof -
  have u: "unat (wm_sum w) = h" "unat (wm_len w) = n" using assms by (simp_all add: count_ok_def unat_of_nat_small)
  have "unat (100 * wm_sum w) = 100 * unat (wm_sum w)"
    by (subst unat_mult_small) (use u assms in simp_all)
  then show ?thesis using u
    by (cases "wm_len w = 0") (auto simp: window_stats_average_hundredths_def unat_div)
qed

section \<open>The relation\<close>

definition phase_rel :: "u32 \<Rightarrow> phase_stats \<Rightarrow> bool list \<Rightarrow> bool list \<Rightarrow> bool" where
  "phase_rel c p hs gs \<longleftrightarrow> bits_ok c (ps_cache_stats p) hs \<and> bits_ok c (ps_ghost_stats p) gs"

definition stats_rel :: "(mstar_transition_id \<Rightarrow> mstar_transition) \<Rightarrow> (mstar_transition_id \<Rightarrow> nat) \<Rightarrow> bool" where
  "stats_rel trs st \<longleftrightarrow> (\<forall>t. trs t = (mstar_transition_set_init t)\<lparr>tr_stat := of_nat (st t)\<rparr> \<and> st t \<le> 1000)"

definition logic_rel :: "u32 \<Rightarrow> mstar_logic \<Rightarrow> logic_spec \<Rightarrow> bool" where
  "logic_rel c l a \<longleftrightarrow>
     phase_rel c (lo_this_phase l) (al_this a) (al_this_ghost a) \<and>
     phase_rel c (lo_prev_phase l) (al_prev a) (al_prev_ghost a) \<and>
     count_ok (lo_state_stats l) (al_hits a) (al_ios a) \<and> al_hits a \<le> al_ios a \<and>
     lo_state l = al_state a \<and> lo_TABU l = c \<and> unat (lo_tabu_counter l) = al_tabu a \<and> al_tabu a \<le> 2 * unat c \<and>
     lo_adaptive l = al_adaptive a \<and> stats_rel (lo_transition_set l) (al_stat a) \<and>
     lo_last_transition l = al_last a \<and> lo_recent_transition l = al_recent a \<and> (al_recent a \<longrightarrow> al_last a \<noteq> None)"

text \<open>When every number the decisions compute with fits 32 bits.\<close>

definition exact :: "u32 \<Rightarrow> logic_spec \<Rightarrow> bool" where
  "exact c a \<longleftrightarrow> unat c \<le> 2 ^ 24 \<and> 100 * al_ios a < 2 ^ 32"

lemma logic_relD:
  assumes "logic_rel c l a"
  shows "phase_rel c (lo_this_phase l) (al_this a) (al_this_ghost a)"
    "phase_rel c (lo_prev_phase l) (al_prev a) (al_prev_ghost a)"
    "count_ok (lo_state_stats l) (al_hits a) (al_ios a)" "al_hits a \<le> al_ios a" "lo_state l = al_state a"
    "lo_TABU l = c" "unat (lo_tabu_counter l) = al_tabu a" "al_tabu a \<le> 2 * unat c" "lo_adaptive l = al_adaptive a"
    "stats_rel (lo_transition_set l) (al_stat a)" "lo_last_transition l = al_last a"
    "lo_recent_transition l = al_recent a" "al_recent a \<Longrightarrow> al_last a \<noteq> None"
  using assms by (simp_all add: logic_rel_def)

lemma phase_copy_ok:
  assumes "phase_rel c from hs gs" "phase_rel c to hs' gs'"
  shows "\<exists>p. phase_stats_copy to from = Inr p \<and> phase_rel c p hs gs"
proof -
  note C = assms(1) [unfolded phase_rel_def] assms(2) [unfolded phase_rel_def]
  obtain w where w: "window_stats_copy_ms (ps_cache_stats to) (ps_cache_stats from) = Inr w" "bits_ok c w hs"
    using bits_copy [of c "ps_cache_stats from" hs "ps_cache_stats to" hs'] C by blast
  obtain v where v: "window_stats_copy_ms (ps_ghost_stats to) (ps_ghost_stats from) = Inr v" "bits_ok c v gs"
    using bits_copy [of c "ps_ghost_stats from" gs "ps_ghost_stats to" gs'] C by blast
  show ?thesis using w v by (simp add: phase_stats_copy_def phase_rel_def)
qed

lemma phase_clear_ok: "phase_rel c p hs gs \<Longrightarrow> phase_rel c (phase_stats_clear p) [] []"
  by (auto simp: phase_rel_def phase_stats_clear_def intro: bits_clear)

section \<open>Parameters\<close>

lemma value_exact:
  assumes "st \<le> 1000"
  shows "unat (transition_value ((mstar_transition_set_init t)\<lparr>tr_stat := of_nat st\<rparr>)) = spec_value t st"
    "spec_value t st \<le> unat (tr_max (mstar_transition_set_init t)) + unat (tr_min (mstar_transition_set_init t))"
proof -
  let ?m = "tr_max (mstar_transition_set_init t)" and ?n = "tr_min (mstar_transition_set_init t)"
  have m: "unat ?m \<le> 150" "unat ?n \<le> 105"
    by (cases t; simp add: mstar_transition_set_init_def unstable_stable_threshold_def unstable_stable_percent_def
      unstable_unique_threshold_def unstable_unique_percent_def stable_unstable_percent_def
      unique_unstable_threshold_def unique_unstable_percent_def)+
  have st: "unat (of_nat st :: u32) = st" using assms by (simp add: unat_of_nat_small)
  have le: "unat ?m * st \<le> 150 * 1000" using m(1) assms by (rule mult_le_mono)
  then have p: "unat (?m * of_nat st) = unat ?m * st" by (subst unat_mult_small) (simp_all add: st)
  have d: "unat ?m * st div 1000 \<le> unat ?m"
    using mult_le_mono2 [OF assms, of "unat ?m"] div_le_mono [of "unat ?m * st" "unat ?m * 1000" 1000] by simp
  then have "unat (?m * of_nat st div 1000 + ?n) = unat (?m * of_nat st div 1000) + unat ?n"
    using m by (subst unat_add_small) (simp_all add: unat_div p)
  then show "unat (transition_value ((mstar_transition_set_init t)\<lparr>tr_stat := of_nat st\<rparr>)) = spec_value t st"
    by (simp add: transition_value_def spec_value_def unat_div p)
  show "spec_value t st \<le> unat ?m + unat ?n" using d by (simp add: spec_value_def)
qed

lemma spec_stat_le: "st \<le> 1000 \<Longrightarrow> spec_increase st \<le> 1000" "st \<le> 1000 \<Longrightarrow> spec_decrease st \<le> 1000"
  by (auto simp: spec_increase_def spec_decrease_def Let_def)

lemma set_stat_rel: "stats_rel (lo_transition_set l) st \<Longrightarrow> v \<le> 1000 \<Longrightarrow>
  stats_rel (lo_transition_set (set_stat t (of_nat v) l)) (st(t := v))"
  by (simp add: stats_rel_def set_stat_def)

lemma param_ok:
  assumes r: "stats_rel (lo_transition_set l) st" and t: "lo_last_transition l = Some t"
  shows "change_difficulty f l = Inr (set_stat t (of_nat (spec_difficulty f (st t))) l)"
proof -
  define x where "x = st t"
  have x: "x \<le> 1000" and s: "tr_stat (lo_transition_set l t) = of_nat x" using r by (simp_all add: stats_rel_def x_def)
  have ux: "unat (of_nat x :: u32) = x" using x by (simp add: unat_of_nat_small)
  have eq: "(of_nat x :: u32) = of_nat n \<longleftrightarrow> x = n" if "n \<le> 1000" for n
    using x that by (intro of_nat_eq_small) simp_all
  have zero: "(of_nat x :: u32) = 0 \<longleftrightarrow> x = 0" and top: "(of_nat x :: u32) = 1000 \<longleftrightarrow> x = 1000"
    using eq [of 0] eq [of 1000] by simp_all
  have small: "unat (of_nat k :: u32) = k" if "k \<le> 3000" for k using that by (intro unat_of_nat_small) simp
  show ?thesis
  proof (cases f)
    case transition_increase_param_f
    have "transition_increase_param l = Inr (set_stat t (of_nat (spec_increase x)) l)"
    proof (cases "x = 0")
      case True
      then show ?thesis using t s zero by (simp add: transition_increase_param_def deref_def spec_increase_def Let_def)
    next
      case False
      let ?q = "1000 div (of_nat x :: u32)"
      have q: "unat ?q = 1000 div x" by (simp add: unat_div ux)
      moreover have "x + 1000 div x \<le> 2000" using x div_le_dividend [of 1000 x] by linarith
      then have "x + 1000 div x < 2 ^ LENGTH(32)" by simp
      ultimately have "unat (of_nat x + ?q) = x + 1000 div x" by (subst unat_add_small) (simp_all add: ux)
      then have "unat (min_u 1000 (of_nat x + ?q)) = min 1000 (x + 1000 div x)" by (simp add: min_u_eq min_def word_le_nat_alt)
      then have "unat (min_u 1000 (of_nat x + ?q)) = unat (of_nat (min 1000 (x + 1000 div x)) :: u32)" by (simp add: small)
      then have "min_u 1000 (of_nat x + ?q) = of_nat (min 1000 (x + 1000 div x))" by (rule unsigned_word_eqI)
      then show ?thesis using t s False zero
        by (simp add: transition_increase_param_def deref_def spec_increase_def udiv_def Let_def del: of_nat_add)
    qed
    then show ?thesis using transition_increase_param_f by (simp add: change_difficulty_def spec_difficulty_def x_def)
  next
    case transition_decrease_param_f
    define y where "y = (if x = 1000 then 0 else x)"
    have y: "y < 1000" using x by (simp add: y_def)
    have cur: "(if (of_nat x :: u32) = 1000 then 0 else of_nat x) = (of_nat y :: u32)" using top by (simp add: y_def)
    have uy: "unat (of_nat y :: u32) = y" using y by (simp add: unat_of_nat_small)
    have sub: "unat (1000 - of_nat y :: u32) = 1000 - y"
      using unat_sub [of "of_nat y :: u32" 1000] uy y by (simp add: word_le_nat_alt)
    then have nz: "(1000 - of_nat y :: u32) \<noteq> 0" using y by (metis unat_0 zero_less_diff not_less_zero)
    let ?q = "1000 div (1000 - of_nat y :: u32)"
    have q: "unat ?q = 1000 div (1000 - y)" by (simp add: unat_div sub)
    have "unat (if of_nat y > ?q then max_u 0 (of_nat y - ?q) else 0) = y - 1000 div (1000 - y)"
      using unat_sub [of ?q "of_nat y"] q uy by (simp add: max_u_eq word_less_nat_alt word_le_nat_alt)
    then have "unat (if of_nat y > ?q then max_u 0 (of_nat y - ?q) else 0) = unat (of_nat (spec_decrease x) :: u32)"
      using y by (simp add: spec_decrease_def Let_def small flip: y_def)
    then have res: "(if of_nat y > ?q then max_u 0 (of_nat y - ?q) else 0) = (of_nat (spec_decrease x) :: u32)"
      by (rule unsigned_word_eqI)
    have "transition_decrease_param l = Inr (set_stat t (of_nat (spec_decrease x)) l)"
      unfolding transition_decrease_param_def t deref_def
      by (simp only: option.case rbind.simps Let_def s cur udiv_def if_not_P [OF nz] res)
    then show ?thesis using transition_decrease_param_f by (simp add: change_difficulty_def spec_difficulty_def x_def)
  qed
qed

section \<open>The steps\<close>

lemma transition_ok:
  assumes r: "logic_rel c l a" and c: "2 * unat c < 2 ^ 32"
  shows "\<exists>l'. state_transition_to l t next clear = Inr l' \<and> logic_rel c l' (spec_transition (unat c) t next clear a)"
proof -
  note D = logic_relD [OF r]
  from phase_copy_ok [OF D(1,2)] obtain p where p: "phase_stats_copy (lo_prev_phase l) (lo_this_phase l) = Inr p"
    "phase_rel c p (al_this a) (al_this_ghost a)" by blast
  let ?l = "l\<lparr>lo_last_transition := Some t, lo_state := next, lo_recent_transition := True,
    lo_tabu_counter := (if next = UNSTABLE then 2 * c else lo_tabu_counter l),
    lo_state_stats := (if clear then window_stats_clear_ms (lo_state_stats l) else lo_state_stats l),
    lo_prev_phase := p, lo_this_phase := phase_stats_clear (lo_this_phase l)\<rparr>"
  have run: "state_transition_to l t next clear = Inr ?l"
    using p(1) D(6) by (simp add: state_transition_to_def Let_def)
  have "unat (2 * c) = 2 * unat c" using c by (subst unat_mult_small) simp_all
  then have "logic_rel c ?l (spec_transition (unat c) t next clear a)"
    using D p(2) phase_clear_ok [OF D(1)] count_clear [OF D(3)] by (simp add: logic_rel_def spec_transition_def)
  then show ?thesis using run by blast
qed

definition follow :: "(mstar_transition_id \<times> mstar_state_id \<times> bool) option \<Rightarrow> mstar_logic \<Rightarrow> mstar_logic res" where
  "follow d l = (case d of None \<Rightarrow> Inr l | Some (t, next, clear) \<Rightarrow> state_transition_to l t next clear)"

definition spec_follow :: "nat \<Rightarrow> (mstar_transition_id \<times> mstar_state_id \<times> bool) option \<Rightarrow> logic_spec \<Rightarrow> logic_spec" where
  "spec_follow c d a = (case d of None \<Rightarrow> a | Some (t, next, clear) \<Rightarrow> spec_transition c t next clear a)"

lemma follow_ok:
  assumes "logic_rel c l a" "2 * unat c < 2 ^ 32"
  shows "\<exists>l'. follow d l = Inr l' \<and> logic_rel c l' (spec_follow (unat c) d a)"
  using assms transition_ok by (cases d) (auto simp: follow_def spec_follow_def split: prod.split)

lemma unat_mult_255:
  assumes "unat (a :: u32) \<le> 255" "unat (b :: u32) \<le> 100"
  shows "unat (a * b) = unat a * unat b"
proof -
  have "unat a * unat b \<le> 255 * 100" by (rule mult_le_mono [OF assms])
  then show ?thesis by (subst unat_mult_small) simp_all
qed

lemma change_ok:
  assumes r: "logic_rel c l a"
  shows "\<exists>d. change_if_able l = follow d l \<and> (exact c a \<longrightarrow> d = spec_next a)"
proof -
  note D = logic_relD [OF r]
  define V where "V = (\<lambda>t. transition_value (lo_transition_set l t))"
  define now where "now = phase_cache_hitrate (lo_this_phase l)"
  define prev where "prev = phase_cache_hitrate (lo_prev_phase l)"
  define ghost where "ghost = phase_ghost_hitrate (lo_this_phase l)"
  define before where "before = window_stats_average_hundredths (lo_state_stats l)"
  define d where "d = (case lo_state l of
      UNSTABLE \<Rightarrow>
        if V Unstable_unique_threshold * before > now then Some (Unstable_unique_threshold, UNIQUE, False)
        else if now < V Unstable_unique_percent then Some (Unstable_unique_percent, UNIQUE, False)
        else if 100 * now < (100 + V Unstable_stable_threshold) * before \<and>
                100 * now > (100 - V Unstable_stable_threshold) * before
        then Some (Unstable_stable_threshold, STABLE, True)
        else if now \<ge> V Unstable_stable_percent * before \<and> now \<ge> 20
        then Some (Unstable_stable_percent, STABLE, True) else None
    | STABLE \<Rightarrow> if 100 * prev \<le> V Stable_unstable_percent * before
        then Some (Stable_unstable_percent, UNSTABLE, False) else None
    | UNIQUE \<Rightarrow> if V Unique_unstable_threshold * now > 100 * ghost then Some (Unique_unstable_threshold, UNSTABLE, False)
        else if now > V Unique_unstable_percent then Some (Unique_unstable_percent, UNSTABLE, False) else None)"
  have run: "change_if_able l = follow d l"
    by (simp add: change_if_able_def change_from_unstable_if_able_def change_from_stable_if_able_def
        change_from_unique_if_able_def follow_def d_def V_def now_def prev_def ghost_def before_def Let_def split: mstar_state_id.split)
  have "d = spec_next a" if ex: "exact c a"
  proof -
    have c: "100 * unat c < 2 ^ 32" and n: "100 * al_ios a < 2 ^ 32" using ex by (simp_all add: exact_def)
    have u: "unat now = rate (al_this a)" "unat prev = rate (al_prev a)" "unat ghost = rate (al_this_ghost a)"
      using D(1,2) bits_rate [OF _ c]
      by (simp_all add: now_def prev_def ghost_def phase_rel_def phase_cache_hitrate_def phase_ghost_hitrate_def)
    have b: "unat before = 100 * al_hits a div al_ios a" using count_rate [OF D(3,4) n] by (simp add: before_def)
    have "100 * al_hits a div al_ios a \<le> 100 * al_ios a div al_ios a" using D(4) by (intro div_le_mono) simp
    also have "\<dots> \<le> 100" by (cases "al_ios a = 0") simp_all
    finally have le: "unat before \<le> 100" "unat now \<le> 100" "unat prev \<le> 100" "unat ghost \<le> 100"
      using rate_le b u by simp_all
    have v: "unat (V t) = al_value a t" "al_value a t \<le> unat (tr_max (mstar_transition_set_init t)) + unat (tr_min (mstar_transition_set_init t))" for t
      using D(10) value_exact [of "al_stat a t" t] by (simp_all add: stats_rel_def V_def)
    have m: "unat (tr_max (mstar_transition_set_init t)) + unat (tr_min (mstar_transition_set_init t)) \<le> 255" for t
      by (cases t; simp add: mstar_transition_set_init_def unstable_stable_threshold_def unstable_stable_percent_def
        unstable_unique_threshold_def unstable_unique_percent_def stable_unstable_percent_def
        unique_unstable_threshold_def unique_unstable_percent_def)
    have small: "unat (V t) \<le> 255" for t using v [of t] m [of t] by linarith
    have th: "al_value a Unstable_stable_threshold \<le> 22"
      using v(2) [of Unstable_stable_threshold] by (simp add: mstar_transition_set_init_def unstable_stable_threshold_def)
    then have w: "unat (100 + V Unstable_stable_threshold) = 100 + al_value a Unstable_stable_threshold"
      "unat (100 - V Unstable_stable_threshold) = 100 - al_value a Unstable_stable_threshold"
      using unat_sub [of "V Unstable_stable_threshold" 100] v(1) by (simp_all add: unat_add_small word_le_nat_alt)
    have p: "unat (V t * before) = al_value a t * unat before" "unat (V t * now) = al_value a t * unat now" for t
      using unat_mult_255 [OF small le(1)] unat_mult_255 [OF small le(2)] v(1) by simp_all
    have q: "unat ((100 + V Unstable_stable_threshold) * before) = (100 + al_value a Unstable_stable_threshold) * unat before"
      "unat ((100 - V Unstable_stable_threshold) * before) = (100 - al_value a Unstable_stable_threshold) * unat before"
      using unat_mult_255 [of "100 + V Unstable_stable_threshold" before] unat_mult_255 [of "100 - V Unstable_stable_threshold" before]
        le(1) th by (simp_all add: w)
    have h: "unat (100 * now) = 100 * unat now" "unat (100 * prev) = 100 * unat prev" "unat (100 * ghost) = 100 * unat ghost"
      using unat_mult_255 [of 100 now] unat_mult_255 [of 100 prev] unat_mult_255 [of 100 ghost] le by simp_all
    show ?thesis
      unfolding d_def spec_next_def D(5) Let_def word_less_nat_alt word_le_nat_alt p q h v(1) u b
      by (simp split: mstar_state_id.split)
  qed
  then show ?thesis using run by blast
qed

lemma improved_ok:
  assumes r: "logic_rel c l a" and c: "0 < c"
  shows "\<exists>b. was_improvement f l = Inr b \<and> (exact c a \<longrightarrow> b = spec_improved (unat c) f a)"
proof -
  note D = logic_relD [OF r]
  let ?now = "phase_cache_hitrate (lo_this_phase l)" and ?prev = "phase_cache_hitrate (lo_prev_phase l)"
  have rates: "unat ?now = rate (al_this a)" "unat ?prev = rate (al_prev a)" if "exact c a"
    using D(1,2) bits_rate [of c] that by (simp_all add: phase_rel_def phase_cache_hitrate_def exact_def)
  show ?thesis
  proof (cases f)
    case transition_improved_hitrate_f
    then show ?thesis using rates
      by (simp add: was_improvement_def transition_improved_hitrate_def spec_improved_def word_le_nat_alt)
  next
    case transition_improved_unique_f
    define g where "g = hits_in (al_this_ghost a)"
    define old where "old = hits_in (al_prev_ghost a)"
    have sums: "wm_sum (ps_ghost_stats (lo_this_phase l)) = of_nat g" "wm_sum (ps_ghost_stats (lo_prev_phase l)) = of_nat old"
      using D(1,2) by (simp_all add: phase_rel_def bits_ok_def g_def old_def)
    have le: "g \<le> unat c" "old \<le> unat c"
      using D(1,2) bits_okD(4,8) [of c] hits_in_le [of "al_this_ghost a"] hits_in_le [of "al_prev_ghost a"]
      unfolding phase_rel_def g_def old_def by (metis order_trans)+
    define th where "th = transition_value (lo_transition_set l Unique_unstable_threshold)"
    define pc where "pc = transition_value (lo_transition_set l Unique_unstable_percent)"
    have v: "unat th = al_value a Unique_unstable_threshold" "unat pc = al_value a Unique_unstable_percent"
      "al_value a Unique_unstable_threshold \<le> 31"
      using D(10) value_exact [of "al_stat a Unique_unstable_threshold" Unique_unstable_threshold]
        value_exact(1) [of "al_stat a Unique_unstable_percent" Unique_unstable_percent]
      by (simp_all add: stats_rel_def th_def pc_def mstar_transition_set_init_def unique_unstable_threshold_def)
    let ?b = "((of_nat g - of_nat old) * 100) div c > th \<or> ?now > pc"
    have run: "was_improvement f l = Inr ?b"
      using transition_improved_unique_f c D(6) sums
      by (auto simp: was_improvement_def transition_improved_unique_def udiv_def Let_def th_def pc_def)
    have "?b = spec_improved (unat c) f a" if ex: "exact c a"
    proof -
      have c24: "unat c \<le> 2 ^ 24" using ex by (simp add: exact_def)
      have gain: "(((of_nat g - of_nat old) * 100) div c > th) \<longleftrightarrow> g < old \<or> unat th < 100 * (g - old) div unat c"
      proof (cases "g < old")
        case True
        define d where "d = old - g"
        have d: "0 < d" "d \<le> 2 ^ 24" using True le(2) c24 by (simp_all add: d_def)
        have "(of_nat g :: u32) - of_nat old = - of_nat d" using True by (simp add: d_def of_nat_diff)
        then have "(of_nat g - of_nat old) * 100 = - (of_nat (100 * d) :: u32)" by simp
        moreover have "unat (- (of_nat (100 * d) :: u32)) = 2 ^ 32 - 100 * d"
        proof -
          have "100 * d \<le> 2 ^ 32" using d(2) by simp
          then have "(of_nat (2 ^ 32 - 100 * d) :: u32) = of_nat (2 ^ 32) - of_nat (100 * d)" by (rule of_nat_diff)
          then have "- (of_nat (100 * d) :: u32) = of_nat (2 ^ 32 - 100 * d)" by simp
          moreover have "unat (of_nat (2 ^ 32 - 100 * d) :: u32) = 2 ^ 32 - 100 * d"
            using d(1) by (intro unat_of_nat_small) simp
          ultimately show ?thesis by simp
        qed
        ultimately have "unat (((of_nat g - of_nat old) * 100) div c) = (2 ^ 32 - 100 * d) div unat c"
          by (simp add: unat_div)
        moreover have "32 \<le> (2 ^ 32 - 100 * d) div unat c"
        proof -
          have "32 * unat c \<le> 2 ^ 32 - 100 * d" using d(2) c24 by simp
          moreover have "0 < unat c" using c by (simp add: word_less_nat_alt)
          ultimately show ?thesis by (simp add: less_eq_div_iff_mult_less_eq)
        qed
        ultimately show ?thesis using True v by (simp add: word_less_nat_alt)
      next
        case False
        then have "(of_nat g :: u32) - of_nat old = of_nat (g - old)" by (simp add: of_nat_diff)
        then have "(of_nat g - of_nat old) * 100 = (of_nat (100 * (g - old)) :: u32)" by simp
        moreover have "unat (of_nat (100 * (g - old)) :: u32) = 100 * (g - old)"
          using le c24 by (intro unat_of_nat_small) simp
        ultimately have "unat (((of_nat g - of_nat old) * 100) div c) = 100 * (g - old) div unat c"
          by (simp add: unat_div del: of_nat_mult)
        then show ?thesis using False by (simp add: word_less_nat_alt)
      qed
      then show ?thesis using transition_improved_unique_f rates(1) [OF ex] v
        by (simp add: spec_improved_def g_def old_def word_less_nat_alt)
    qed
    then show ?thesis using run by blast
  qed
qed

text \<open>One adaptation, the end of a phase and one access.\<close>

lemma adapt_ok:
  assumes r: "logic_rel c l a" and rec: "al_recent a" and c: "0 < c"
  shows "\<exists>l' a'. (let l' = l\<lparr>lo_recent_transition := False\<rparr> in
      rbind (deref (lo_last_transition l)) (\<lambda>t.
      let last_trans = lo_transition_set l t in
      rbind (was_improvement (tr_was_improvement last_trans) l') (\<lambda>better.
      change_difficulty (if better then tr_decrease_difficulty last_trans
                         else tr_increase_difficulty last_trans) l'))) = Inr l' \<and>
    logic_rel c l' a' \<and> al_ios a' = al_ios a \<and> al_adaptive a' = al_adaptive a \<and> (exact c a \<longrightarrow> a' = spec_adapt (unat c) a)"
proof -
  note D = logic_relD [OF r]
  obtain t where t: "al_last a = Some t" using D(13) rec by blast
  let ?l = "l\<lparr>lo_recent_transition := False\<rparr>" and ?a = "a\<lparr>al_recent := False\<rparr>"
  let ?tr = "mstar_transition_set_init t"
  have r1: "logic_rel c ?l ?a" using r by (simp add: logic_rel_def)
  have tr: "tr_was_improvement (lo_transition_set l t) = tr_was_improvement ?tr"
    "tr_decrease_difficulty (lo_transition_set l t) = tr_decrease_difficulty ?tr"
    "tr_increase_difficulty (lo_transition_set l t) = tr_increase_difficulty ?tr"
    using D(10) by (simp_all add: stats_rel_def)
  obtain b where b: "was_improvement (tr_was_improvement ?tr) ?l = Inr b"
    "exact c ?a \<longrightarrow> b = spec_improved (unat c) (tr_was_improvement ?tr) ?a"
    using improved_ok [OF r1 c] by blast
  define f where "f = (if b then tr_decrease_difficulty ?tr else tr_increase_difficulty ?tr)"
  define v where "v = spec_difficulty f (al_stat a t)"
  have st: "stats_rel (lo_transition_set ?l) (al_stat a)" using D(10) by simp
  have last: "lo_last_transition ?l = Some t" using D(11) t by simp
  have run: "change_difficulty f ?l = Inr (set_stat t (of_nat v) ?l)"
    unfolding v_def by (rule param_ok [OF st last])
  have "al_stat a t \<le> 1000" using D(10) by (simp add: stats_rel_def)
  then have v: "v \<le> 1000" using spec_stat_le by (simp add: v_def spec_difficulty_def split: difficulty_f.split)
  let ?a' = "a\<lparr>al_recent := False, al_stat := (al_stat a)(t := v)\<rparr>"
  have "stats_rel (lo_transition_set (set_stat t (of_nat v) ?l)) ((al_stat a)(t := v))"
    by (rule set_stat_rel [OF st v])
  then have rel: "logic_rel c (set_stat t (of_nat v) ?l) ?a'"
    using r1 unfolding logic_rel_def by (simp add: set_stat_def)
  have "?a' = spec_adapt (unat c) a" if "exact c a"
  proof -
    have "b = spec_improved (unat c) (tr_was_improvement ?tr) a"
      using b(2) that by (simp add: exact_def spec_improved_def split: improvement_f.split)
    then show ?thesis using t by (simp add: spec_adapt_def v_def f_def Let_def)
  qed
  then show ?thesis using run rel b(1) D(11) t tr
    by (intro exI [of _ "set_stat t (of_nat v) ?l"] exI [of _ ?a']) (simp add: deref_def f_def Let_def split: if_splits)
qed

lemma phase_ok_ms:
  assumes r: "logic_rel c l a" and c: "0 < c" "2 * unat c < 2 ^ 32"
  shows "\<exists>l' a'. enter_new_phase l = Inr l' \<and> logic_rel c l' a' \<and> (exact c a \<longrightarrow> a' = spec_phase (unat c) a)"
proof -
  let ?l = "l\<lparr>lo_tabu_counter := lo_TABU l\<rparr>" and ?a = "a\<lparr>al_tabu := unat c\<rparr>"
  have r1: "logic_rel c ?l ?a" using r logic_relD(6) [OF r] by (simp add: logic_rel_def)
  have "\<exists>l1 a1. enter_new_phase l = rbind (save_ghost_stats l1) change_if_able \<and> logic_rel c l1 a1 \<and>
      al_ios a1 = al_ios a \<and> (exact c a \<longrightarrow> a1 = (if al_adaptive ?a \<and> al_recent ?a then spec_adapt (unat c) ?a else ?a))"
  proof (cases "al_adaptive a \<and> al_recent a")
    case False
    then have "enter_new_phase l = rbind (save_ghost_stats ?l) change_if_able"
      using logic_relD(9,12) [OF r] by (auto simp: enter_new_phase_def static_new_phase_def adaptive_new_phase_def Let_def)
    then show ?thesis using r1 False by (intro exI [of _ ?l] exI [of _ ?a]) auto
  next
    case True
    then have "al_recent ?a" by simp
    from adapt_ok [OF r1 this c(1)] obtain l1 a1 where 1: "(let l' = ?l\<lparr>lo_recent_transition := False\<rparr> in
      rbind (deref (lo_last_transition ?l)) (\<lambda>t.
      let last_trans = lo_transition_set ?l t in
      rbind (was_improvement (tr_was_improvement last_trans) l') (\<lambda>better.
      change_difficulty (if better then tr_decrease_difficulty last_trans
                         else tr_increase_difficulty last_trans) l'))) = Inr l1"
      "logic_rel c l1 a1" "al_ios a1 = al_ios ?a" "exact c ?a \<longrightarrow> a1 = spec_adapt (unat c) ?a" by blast
    have rec: "lo_adaptive l" "lo_recent_transition ?l" using True logic_relD(9,12) [OF r] by simp_all
    have "enter_new_phase l = rbind (save_ghost_stats l1) change_if_able"
      unfolding enter_new_phase_def if_P [OF rec(1)] adaptive_new_phase_def
      using 1(1) rec(2) by (simp only: Let_def if_P rbind.simps)
    then show ?thesis using 1 True by (intro exI [of _ l1] exI [of _ a1]) (simp add: exact_def)
  qed
  then obtain l1 a1 where 1: "enter_new_phase l = rbind (save_ghost_stats l1) change_if_able" "logic_rel c l1 a1"
    "al_ios a1 = al_ios a" "exact c a \<longrightarrow> a1 = (if al_adaptive ?a \<and> al_recent ?a then spec_adapt (unat c) ?a else ?a)" by blast
  note D = logic_relD [OF 1(2)]
  obtain w where w: "window_stats_copy_ms (ps_ghost_stats (lo_prev_phase l1)) (ps_ghost_stats (lo_this_phase l1)) = Inr w"
    "bits_ok c w (al_this_ghost a1)" using bits_copy D(1,2) unfolding phase_rel_def by blast
  let ?l2 = "l1\<lparr>lo_prev_phase := (lo_prev_phase l1)\<lparr>ps_ghost_stats := w\<rparr>\<rparr>" and ?a2 = "a1\<lparr>al_prev_ghost := al_this_ghost a1\<rparr>"
  have 2: "save_ghost_stats l1 = Inr ?l2" "logic_rel c ?l2 ?a2"
    using w D by (simp_all add: save_ghost_stats_def logic_rel_def phase_rel_def)
  obtain d where d: "change_if_able ?l2 = follow d ?l2" "exact c ?a2 \<longrightarrow> d = spec_next ?a2"
    using change_ok [OF 2(2)] by blast
  from follow_ok [OF 2(2) c(2), of d] obtain l' where l': "follow d ?l2 = Inr l'" "logic_rel c l' (spec_follow (unat c) d ?a2)" by blast
  have "spec_follow (unat c) d ?a2 = spec_phase (unat c) a" if "exact c a"
    using that d(2) 1(3,4) by (simp add: exact_def spec_phase_def spec_follow_def Let_def)
  then show ?thesis using 1(1) 2(1) d(1) l' by auto
qed

lemma update_ok:
  assumes r: "logic_rel c l a" and c: "0 < c" "2 * unat c < 2 ^ 32"
  shows "\<exists>l' a'. update_mstar l hit ghost = Inr l' \<and> logic_rel c l' a' \<and>
    (unat c \<le> 2 ^ 24 \<and> 100 * Suc (al_ios a) < 2 ^ 32 \<longrightarrow> a' = spec_update (unat c) hit ghost a)"
proof -
  note D = logic_relD [OF r]
  obtain h where h: "window_stats_push_ms (of_bool hit) (ps_cache_stats (lo_this_phase l)) = Inr h"
    "bits_ok c h (slide (unat c) hit (al_this a))" using bits_push D(1) unfolding phase_rel_def by blast
  obtain g where g: "window_stats_push_ms (of_bool ghost) (ps_ghost_stats (lo_this_phase l)) = Inr g"
    "bits_ok c g (slide (unat c) ghost (al_this_ghost a))" using bits_push D(1) unfolding phase_rel_def by blast
  obtain n where n: "window_stats_push_ms (of_bool hit) (lo_state_stats l) = Inr n"
    "count_ok n (al_hits a + of_bool hit) (Suc (al_ios a))" using count_push [OF D(3)] by blast
  let ?l = "l\<lparr>lo_this_phase := (lo_this_phase l)\<lparr>ps_cache_stats := h, ps_ghost_stats := g\<rparr>, lo_state_stats := n,
      lo_tabu_counter := (if lo_tabu_counter l > 0 then lo_tabu_counter l - 1 else lo_tabu_counter l)\<rparr>"
  have t: "unat (if lo_tabu_counter l > 0 then lo_tabu_counter l - 1 else lo_tabu_counter l) = al_tabu a - 1"
    using D(7) by (cases "lo_tabu_counter l = 0") (simp_all add: unat_minus_one word_gt_0)
  have rel: "logic_rel c ?l (spec_observe (unat c) hit ghost a)"
    using D h(2) g(2) n(2) t by (auto simp: logic_rel_def spec_observe_def phase_rel_def)
  have run: "update_mstar l hit ghost = (if al_tabu a - 1 = 0 then enter_new_phase ?l else Inr ?l)"
  proof -
    have z: "(if lo_tabu_counter l > 0 then lo_tabu_counter l - 1 else lo_tabu_counter l) = 0 \<longleftrightarrow> al_tabu a - 1 = 0"
      using t by (simp only: unat_eq_zero flip: t)
    show ?thesis
    proof (cases "lo_tabu_counter l = 0")
      case True
      then have e: "?l = l\<lparr>lo_this_phase := (lo_this_phase l)\<lparr>ps_cache_stats := h, ps_ghost_stats := g\<rparr>, lo_state_stats := n\<rparr>"
        by (cases l) simp
      have "al_tabu a = 0" using True D(7) by simp
      then show ?thesis unfolding e using True h(1) g(1) n(1) by (simp add: update_mstar_def Let_def)
    next
      case False
      then have p: "(lo_tabu_counter l > 0) = True" by (simp add: word_gt_0)
      show ?thesis using z h(1) g(1) n(1) unfolding p if_True by (simp add: update_mstar_def Let_def p)
    qed
  qed
  show ?thesis
  proof (cases "al_tabu a - 1 = 0")
    case False
    then show ?thesis using run rel by (auto simp: spec_update_def spec_observe_def Let_def)
  next
    case True
    from phase_ok_ms [OF rel c] obtain l' a' where "enter_new_phase ?l = Inr l'" "logic_rel c l' a'"
      "exact c (spec_observe (unat c) hit ghost a) \<longrightarrow> a' = spec_phase (unat c) (spec_observe (unat c) hit ghost a)" by blast
    then show ?thesis using run True by (auto simp: spec_update_def spec_observe_def exact_def Let_def)
  qed
qed

section \<open>The start\<close>

definition start_stat :: "bool \<Rightarrow> mstar_transition_id \<Rightarrow> nat" where
  "start_stat adaptive t =
     (case t of
        Unstable_stable_threshold \<Rightarrow> 555 | Unstable_stable_percent \<Rightarrow> 333
      | Unstable_unique_threshold \<Rightarrow> 500 | Unstable_unique_percent \<Rightarrow> if adaptive then 130 else 260
      | Stable_unstable_percent \<Rightarrow> 500
      | Unique_unstable_threshold \<Rightarrow> if adaptive then 0 else 310
      | Unique_unstable_percent \<Rightarrow> if adaptive then 237 else 473)"

definition start_logic :: "nat \<Rightarrow> bool \<Rightarrow> logic_spec" where
  "start_logic c adaptive =
     \<lparr>al_state = UNSTABLE, al_tabu = 2 * c, al_this = [], al_this_ghost = [], al_prev = [], al_prev_ghost = [],
      al_hits = 0, al_ios = 0, al_stat = start_stat adaptive, al_last = None, al_recent = False, al_adaptive = adaptive\<rparr>"

lemmas transition_defs = mstar_transition_set_init_def unstable_stable_threshold_def unstable_stable_percent_def
  unstable_unique_threshold_def unstable_unique_percent_def stable_unstable_percent_def
  unique_unstable_threshold_def unique_unstable_percent_def

lemma logic_init_ok:
  assumes "0 < c" "2 * unat c < 2 ^ 32"
  shows "logic_rel c (mstar_logic_init adaptive c l) (start_logic (unat c) adaptive)"
proof -
  have "unat (2 * c) = 2 * unat c" using assms(2) by (subst unat_mult_small) simp_all
  moreover have "stats_rel (lo_transition_set (mstar_logic_init adaptive c l)) (start_stat adaptive)"
    unfolding stats_rel_def
  proof
    fix t show "lo_transition_set (mstar_logic_init adaptive c l) t =
        (mstar_transition_set_init t)\<lparr>tr_stat := of_nat (start_stat adaptive t)\<rparr> \<and> start_stat adaptive t \<le> 1000"
      by (cases t) (simp_all add: mstar_logic_init_def set_stat_def start_stat_def transition_defs Let_def)
  qed
  ultimately show ?thesis using assms(1)
    by (simp add: logic_rel_def start_logic_def)
      (simp add: mstar_logic_init_def phase_rel_def phase_stats_init_def bits_init count_init set_stat_def Let_def)
qed

section \<open>Consequences\<close>

text \<open>The rule for leaving UNSTABLE compares the hit rate of the sample with many times that of the state.\<close>

lemma spec_unstable:
  assumes s: "al_state a = UNSTABLE" and h: "al_hits a \<le> al_ios a" and st: "\<forall>t. al_stat a t \<le> 1000"
    and n: "spec_next a = Some (t, next, clear)"
  shows "next = UNIQUE \<or> next = STABLE \<and> 100 * al_hits a div al_ios a = 0 \<and> 20 \<le> rate (al_this a)"
proof (rule ccontr)
  assume c: "\<not> ?thesis"
  define before where "before = 100 * al_hits a div al_ios a"
  define now where "now = rate (al_this a)"
  have v: "20 \<le> al_value a Unstable_unique_threshold" "105 \<le> al_value a Unstable_stable_percent"
    by (simp_all add: spec_value_def transition_defs)
  have th: "al_value a Unstable_stable_threshold \<le> 22"
    using value_exact(2) [of "al_stat a Unstable_stable_threshold" Unstable_stable_threshold] st by (simp add: transition_defs)
  have nlt: "\<not> now < al_value a Unstable_unique_threshold * before"
    using n c s by (auto simp: spec_next_def now_def before_def Let_def split: if_splits)
  have "20 * before \<le> al_value a Unstable_unique_threshold * before" by (rule mult_le_mono1 [OF v(1)])
  then have b: "20 * before \<le> now" using nlt by linarith
  have "(100 + al_value a Unstable_stable_threshold) * before \<le> 122 * before" using th by (intro mult_le_mono1) simp
  then have "\<not> 100 * now < (100 + al_value a Unstable_stable_threshold) * before" using b by linarith
  then have p: "al_value a Unstable_stable_percent * before \<le> now" "20 \<le> now" "next = STABLE"
    using n c s nlt by (auto simp: spec_next_def now_def before_def Let_def split: if_splits)
  have "105 * before \<le> al_value a Unstable_stable_percent * before" by (rule mult_le_mono1 [OF v(2)])
  then have "105 * before \<le> 100" using p(1) rate_le [of "al_this a"] unfolding now_def by linarith
  then have "before = 0" by simp
  then show False using c p by (simp add: before_def now_def)
qed

text \<open>It leaves whenever the state has a hit rate of at least six per cent.\<close>

lemma spec_unstable_leaves:
  assumes "al_state a = UNSTABLE" "6 \<le> 100 * al_hits a div al_ios a"
  shows "spec_next a = Some (Unstable_unique_threshold, UNIQUE, False)"
proof -
  have "20 * 6 \<le> al_value a Unstable_unique_threshold * (100 * al_hits a div al_ios a)"
    by (rule mult_le_mono [OF _ assms(2)]) (simp add: spec_value_def transition_defs)
  then have "rate (al_this a) < al_value a Unstable_unique_threshold * (100 * al_hits a div al_ios a)"
    using rate_le [of "al_this a"] by linarith
  then show ?thesis using assms(1) by (simp add: spec_next_def Let_def)
qed

end
