(* ===== verification/Ghost_List.thy ===== *)
theory Ghost_List
  imports Policy
begin

text \<open>
  A nucleus without cache entries whose metadata entries are all in one queue: the ghost list of an admission filter. An entry
  leaves it or enters it, and what that does to the list of the blocks it remembers. mARC and M* use it.
\<close>

declare split_paired_All [simp del] split_paired_Ex [simp del]

definition ghost_list_ok :: "cblock \<Rightarrow> eptr list \<Rightarrow> ('e, 'm) cache_nucleus_scheme \<Rightarrow> bool" where
  "ghost_list_ok c q s \<longleftrightarrow> cn_ok s \<and> ep_nr_entries (cache_pool s) = 0 \<and> ep_nr_entries (meta_pool s) = c \<and>
     distinct q \<and> set q = set (ht s)"

lemma ghost_list_okD:
  assumes "ghost_list_ok c q s"
  shows "cn_ok s" "ep_nr_entries (cache_pool s) = 0" "ep_nr_entries (meta_pool s) = c" "distinct q" "set q = set (ht s)"
  using assms by (simp_all add: ghost_list_ok_def)

lemma ghost_list_metas:
  assumes "ghost_list_ok c q s"
  shows "set (ht s) = metas (ht s)"
proof -
  note D = ghost_list_okD [OF assms]
  have c: "cached (ht s) = {}" using card_cached_le [OF D(1)] D(2) by simp
  have "e \<in> set (ht s) \<Longrightarrow> e \<in> cached (ht s) \<or> e \<in> metas (ht s)" for e
    by (cases "fst e") (auto simp: cached_def metas_def)
  then show ?thesis using c by (auto simp: metas_def)
qed

lemma ghost_list_room:
  assumes "ghost_list_ok c q s" "length q < unat c"
  shows "\<not> meta_is_full s"
proof -
  note D = ghost_list_okD [OF assms(1)]
  have "card (metas (ht s)) = length q"
    using distinct_card [OF D(4)] D(5) ghost_list_metas [OF assms(1)] by simp
  then show ?thesis using meta_is_full_iff [OF D(1)] D(3) assms(2) by simp
qed

lemma ghost_list_keys:
  assumes "ghost_list_ok c q s"
  shows "distinct (map (key_of (store s)) q)"
  using ghost_list_okD [OF assms] cn_facts(2) [of s] by (simp add: distinct_map)

lemma ghost_list_lookup:
  assumes "ghost_list_ok c q s"
  shows "ht_lookup ob s \<noteq> None \<longleftrightarrow> ob \<in> set (map (key_of (store s)) q)"
    "ht_lookup ob s = Some e \<Longrightarrow> e \<in> set q \<and> e_oblock (store s e) = ob"
proof -
  note D = ghost_list_okD [OF assms]
  show "ht_lookup ob s = Some e \<Longrightarrow> e \<in> set q \<and> e_oblock (store s e) = ob"
    using lookup_Some [OF D(1)] D(5) by blast
  show "ht_lookup ob s \<noteq> None \<longleftrightarrow> ob \<in> set (map (key_of (store s)) q)"
  proof
    assume "ht_lookup ob s \<noteq> None"
    then obtain e where "ht_lookup ob s = Some e" by blast
    then have "e \<in> set (ht s)" "e_oblock (store s e) = ob" using lookup_Some [OF D(1)] by blast+
    then show "ob \<in> set (map (key_of (store s)) q)" using D(5) by auto
  next
    assume "ob \<in> set (map (key_of (store s)) q)"
    then obtain e where "e \<in> set (ht s)" "e_oblock (store s e) = ob" using D(5) by auto
    then show "ht_lookup ob s \<noteq> None" using lookup_Some [OF D(1), of ob e] by simp
  qed
qed

lemma ghost_list_cong:
  assumes "ghost_list_ok c q s" "cn_ok s'" "pool_geo (cache_pool s') = pool_geo (cache_pool s)"
    "pool_geo (meta_pool s') = pool_geo (meta_pool s)" "distinct q'" "set q' = set (ht s')"
  shows "ghost_list_ok c q' s'"
  using assms by (simp add: ghost_list_ok_def pool_geo_eq)

lemma ghost_list_remove:
  assumes ok: "ghost_list_ok c q s" and e: "e \<in> set q"
  shows "\<exists>st w cp mp t s'. s' = s\<lparr>store := st, wb := w, cache_pool := cp, meta_pool := mp, ht := t\<rparr> \<and>
     cache_nucleus_remove e s = Inr s' \<and> ghost_list_ok c (remove1 e q) s' \<and>
     map (key_of st) (remove1 e q) = remove1 (e_oblock (store s e)) (map (key_of (store s)) q)"
proof -
  note D = ghost_list_okD [OF ok]
  have "e \<in> set (ht s)" using e D(5) by simp
  from cache_nucleus_remove_ok [OF D(1) this] obtain cp mp s' where
    s': "s' = s\<lparr>store := (store s)(e := freed_entry (store s e)), wb := (\<lambda>q. q_remove e (wb s q)), cache_pool := cp,
        meta_pool := mp, ht := remove1 e (ht s)\<rparr>"
    and run: "cache_nucleus_remove e s = Inr s'" and cn: "cn_ok s'"
    and geo: "pool_geo cp = pool_geo (cache_pool s)" "pool_geo mp = pool_geo (meta_pool s)"
    by auto
  have ok': "ghost_list_ok c (remove1 e q) s'"
    by (rule ghost_list_cong [OF ok cn]) (use D geo cn_facts(1) [OF D(1)] in \<open>auto simp: s'\<close>)
  have n: "e \<notin> set (remove1 e q)" using D(4) by simp
  have "map (key_of ((store s)(e := freed_entry (store s e)))) (remove1 e q) = map (key_of (store s)) (remove1 e q)"
    by (rule map_key_upd [OF n])
  also have "\<dots> = remove1 (e_oblock (store s e)) (map (key_of (store s)) q)"
    by (rule distinct_map_remove1 [OF ghost_list_keys [OF ok] e])
  finally show ?thesis using run ok' s' by blast
qed

lemma ghost_list_insert:
  assumes ok: "ghost_list_ok c q s" and room: "length q < unat c" and new: "ht_lookup ob s = None"
  shows "\<exists>e st mp t s'. s' = s\<lparr>store := st, meta_pool := mp, ht := t\<rparr> \<and> insert_in_meta ob s = Inr (e, s') \<and>
     e \<notin> set q \<and> ghost_list_ok c (q @ [e]) s' \<and> map (key_of st) (q @ [e]) = map (key_of (store s)) q @ [ob]"
proof -
  note D = ghost_list_okD [OF ok]
  from insert_in_meta_ok [OF D(1) ghost_list_room [OF ok room] new] obtain e mp s' where
    1: "s' = s\<lparr>store := (store s)(e := fresh_entry ob (store s e)), meta_pool := mp, ht := e # ht s\<rparr>"
    "insert_in_meta ob s = Inr (e, s')" "cn_ok s'" "pool_geo mp = pool_geo (meta_pool s)" "e \<notin> set (ht s)"
    by blast
  have q: "e \<notin> set q" using 1(5) D(5) by simp
  have ok': "ghost_list_ok c (q @ [e]) s'"
    by (rule ghost_list_cong [OF ok 1(3)]) (use D 1(4) q in \<open>auto simp: 1(1)\<close>)
  have "map (key_of ((store s)(e := fresh_entry ob (store s e)))) (q @ [e]) = map (key_of (store s)) q @ [ob]"
    by (simp add: map_key_upd [OF q] del: fun_upd_apply) simp
  then show ?thesis using 1(1,2) q ok' by blast
qed

end
