(* ===== verification/Mstar_Access.thy ===== *)
theory Mstar_Access
  imports Mstar Mstar_Inv Ghost_List Sim
begin

text \<open>
  An access to M* in exact terms: the ghost list and its size, the logic, and which accesses are filtered; and the proof
  that the model follows, over any policy that keeps the contract.
\<close>

section \<open>The exact rules\<close>

record mstar_spec =
  ap_size :: nat
  ap_ghost :: "oblock list"
  ap_logic :: logic_spec

definition spec_grow :: "nat \<Rightarrow> nat \<Rightarrow> nat" where
  "spec_grow c g = min (9 * c div 10) (g + c div g)"

definition spec_shrink :: "nat \<Rightarrow> nat \<Rightarrow> nat" where
  "spec_shrink c g = max (c div 10) (g - c div (c - g))"

definition spec_next_size :: "nat \<Rightarrow> bool \<Rightarrow> bool \<Rightarrow> mstar_spec \<Rightarrow> nat" where
  "spec_next_size c full hit A =
     (if hit then if al_state (ap_logic A) \<noteq> UNSTABLE \<or> full then spec_shrink c (ap_size A) else ap_size A
      else if full then spec_grow c (ap_size A) else ap_size A)"

text \<open>
  A miss on a full cache is remembered or renewed; outside UNSTABLE a remembered block leaves the list for the
  cache.
\<close>

definition spec_next_ghost :: "bool \<Rightarrow> bool \<Rightarrow> oblock \<Rightarrow> mstar_spec \<Rightarrow> oblock list" where
  "spec_next_ghost full hit ob A =
     (if hit \<or> \<not> full then ap_ghost A
      else if ob \<in> set (ap_ghost A) \<and> al_state (ap_logic A) \<noteq> UNSTABLE then remove1 ob (ap_ghost A)
      else remove1 ob (ap_ghost A) @ [ob])"

definition trim :: "nat \<Rightarrow> 'a list \<Rightarrow> 'a list" where
  "trim n xs = (if n < length xs then tl xs else xs)"

definition spec_bars :: "bool \<Rightarrow> bool \<Rightarrow> oblock \<Rightarrow> mstar_spec \<Rightarrow> bool" where
  "spec_bars full hit ob A \<longleftrightarrow> full \<and> \<not> hit \<and> ob \<notin> set (ap_ghost A) \<and> al_state (ap_logic A) \<noteq> UNSTABLE"

definition spec_mstar :: "nat \<Rightarrow> bool \<Rightarrow> bool \<Rightarrow> oblock \<Rightarrow> mstar_spec \<Rightarrow> mstar_spec" where
  "spec_mstar c full hit ob A =
     (let size = spec_next_size c full hit A in
      \<lparr>ap_size = size, ap_ghost = trim size (spec_next_ghost full hit ob A),
       ap_logic = spec_update c hit (ob \<in> set (ap_ghost A)) (ap_logic A)\<rparr>)"

section \<open>The ghost list\<close>

definition remembers :: "cblock \<Rightarrow> oblock list \<Rightarrow> 's mstar_policy \<Rightarrow> bool" where
  "remembers c ks s \<longleftrightarrow> ghost_list_ok c (mstar_g s) s \<and> map (key_of (store s)) (mstar_g s) = ks"

text \<open>The fields that the ghost list does not touch.\<close>

definition rest_of :: "'s mstar_policy \<Rightarrow> cblock \<times> cblock \<times> 's \<times> mstar_logic" where
  "rest_of s = (meta_size s, ms_ghost_size s, ms_internal s, ms_logic s)"

lemma ghost_list_frame [simp]:
  "ghost_list_ok c q (s\<lparr>mstar_g := g\<rparr>) = ghost_list_ok c q s"
  "ghost_list_ok c q (s\<lparr>ms_ghost_size := n\<rparr>) = ghost_list_ok c q s"
  "ghost_list_ok c q (s\<lparr>ms_internal := i\<rparr>) = ghost_list_ok c q s"
  "ghost_list_ok c q (s\<lparr>ms_logic := l\<rparr>) = ghost_list_ok c q s"
  "ghost_list_ok c q (s'\<lparr>stats := x\<rparr>) = ghost_list_ok c q s'"
  "ghost_list_ok c q (s'\<lparr>cn_time := t\<rparr>) = ghost_list_ok c q s'"
  by (simp_all add: ghost_list_ok_def cn_ok_def)

lemma remembers_frame [simp]:
  "remembers c ks (s\<lparr>ms_ghost_size := n\<rparr>) = remembers c ks s"
  "remembers c ks (s\<lparr>ms_internal := i\<rparr>) = remembers c ks s"
  "remembers c ks (s\<lparr>ms_logic := l\<rparr>) = remembers c ks s"
  "remembers c ks (s\<lparr>stats := x\<rparr>) = remembers c ks s"
  "remembers c ks (s\<lparr>cn_time := t\<rparr>) = remembers c ks s"
  by (simp_all add: remembers_def)

lemma remembers_facts:
  assumes "remembers c ks s"
  shows "distinct ks" "length (mstar_g s) = length ks" "ht_lookup ob s \<noteq> None \<longleftrightarrow> ob \<in> set ks"
proof -
  have ok: "ghost_list_ok c (mstar_g s) s" and k: "map (key_of (store s)) (mstar_g s) = ks"
    using assms by (simp_all add: remembers_def)
  show "distinct ks" using ghost_list_keys [OF ok] k by simp
  show "length (mstar_g s) = length ks" using k by (metis length_map)
  show "ht_lookup ob s \<noteq> None \<longleftrightarrow> ob \<in> set ks" using ghost_list_lookup(1) [OF ok, of ob] k by simp
qed

lemma forget_ok:
  assumes r: "remembers c ks s" and e: "e \<in> set (mstar_g s)" "e_oblock (store s e) = ob"
  shows "\<exists>s'. mstar_only_remove e s = Inr s' \<and> remembers c (remove1 ob ks) s' \<and> rest_of s' = rest_of s"
proof -
  have ok: "ghost_list_ok c (mstar_g s) (s\<lparr>mstar_g := remove1 e (mstar_g s)\<rparr>)" and k: "map (key_of (store s)) (mstar_g s) = ks"
    using r by (simp_all add: remembers_def)
  from ghost_list_remove [OF ok e(1)] obtain st w cp mp t s' where
    s': "s' = s\<lparr>mstar_g := remove1 e (mstar_g s), store := st, wb := w, cache_pool := cp, meta_pool := mp, ht := t\<rparr>"
    "cache_nucleus_remove e (s\<lparr>mstar_g := remove1 e (mstar_g s)\<rparr>) = Inr s'"
    "ghost_list_ok c (remove1 e (mstar_g s)) s'"
    "map (key_of st) (remove1 e (mstar_g s)) = remove1 (e_oblock (store s e)) (map (key_of (store s)) (mstar_g s))"
    by auto
  have f: "mstar_g s' = remove1 e (mstar_g s)" "store s' = st" by (simp_all add: s'(1))
  then have "remembers c (remove1 ob ks) s'" using s'(3,4) k e(2) by (simp add: remembers_def)
  moreover have "rest_of s' = rest_of s" by (simp add: s'(1) rest_of_def)
  ultimately show ?thesis using s'(2) by (simp add: mstar_only_remove_def q_remove_def)
qed

lemma remember_ok:
  assumes r: "remembers c ks s" and room: "length ks < unat c" and new: "ob \<notin> set ks"
  shows "\<exists>s'. mstar_remember ob s = Inr s' \<and> remembers c (ks @ [ob]) s' \<and> rest_of s' = rest_of s"
proof -
  have ok: "ghost_list_ok c (mstar_g s) s" and k: "map (key_of (store s)) (mstar_g s) = ks"
    using r by (simp_all add: remembers_def)
  have "length (mstar_g s) < unat c" "ht_lookup ob s = None"
    using remembers_facts(2,3) [OF r] room new by (auto simp del: not_None_eq)
  from ghost_list_insert [OF ok this] obtain e st mp t s' where
    s': "s' = s\<lparr>store := st, meta_pool := mp, ht := t\<rparr>" "insert_in_meta ob s = Inr (e, s')"
    "e \<notin> set (mstar_g s)" "ghost_list_ok c (mstar_g s @ [e]) s'"
    "map (key_of st) (mstar_g s @ [e]) = map (key_of (store s)) (mstar_g s) @ [ob]" by blast
  let ?s = "s'\<lparr>mstar_g := mstar_g s @ [e]\<rparr>"
  have g: "mstar_g s' = mstar_g s" by (simp add: s'(1))
  have "mstar_remember ob s = Inr ?s" using s'(2,3) g by (simp add: mstar_remember_def q_push_def)
  moreover have "remembers c (ks @ [ob]) ?s" using s'(4,5) k by (simp add: remembers_def) (simp add: s'(1))
  moreover have "rest_of ?s = rest_of s" by (simp add: s'(1) rest_of_def)
  ultimately show ?thesis by blast
qed

lemma evict_ok:
  assumes r: "remembers c ks s" and ne: "ks \<noteq> []"
  shows "\<exists>s'. mstar_evict s = Inr s' \<and> remembers c (tl ks) s' \<and> rest_of s' = rest_of s"
proof -
  have d: "distinct (mstar_g s)" and k: "map (key_of (store s)) (mstar_g s) = ks"
    using r by (simp_all add: remembers_def ghost_list_ok_def)
  obtain e q where q: "mstar_g s = e # q" using k ne by (cases "mstar_g s") auto
  obtain s' where s': "mstar_only_remove e s = Inr s'" "remembers c (remove1 (e_oblock (store s e)) ks) s'" "rest_of s' = rest_of s"
    using forget_ok [OF r, of e] q by auto
  have "mstar_only_remove e (s\<lparr>mstar_g := q\<rparr>) = mstar_only_remove e s"
    using d q by (simp add: mstar_only_remove_def q_remove_def remove1_idem)
  moreover have "remove1 (e_oblock (store s e)) ks = tl ks" using k q by auto
  ultimately show ?thesis using s' q by (simp add: mstar_evict_def q_pop_def log_assert_def deref_def)
qed

lemma control_ok:
  assumes r: "remembers c ks s" and le: "length ks \<le> unat c"
  shows "\<exists>s'. mstar_ghost_length_control s = Inr s' \<and> remembers c (trim (unat (ms_ghost_size s)) ks) s' \<and> rest_of s' = rest_of s"
proof -
  have "length ks < 2 ^ LENGTH(32)" using le unat_less_exp [of c] by linarith
  then have "unat (q_length (mstar_g s)) = length ks"
    using remembers_facts(2) [OF r] by (simp add: q_length_def unat_of_nat_small)
  then have t: "q_length (mstar_g s) > ms_ghost_size s \<longleftrightarrow> unat (ms_ghost_size s) < length ks"
    by (simp add: word_less_nat_alt)
  show ?thesis
  proof (cases "unat (ms_ghost_size s) < length ks")
    case True
    then have "ks \<noteq> []" by auto
    from evict_ok [OF r this] True t show ?thesis by (simp add: mstar_ghost_length_control_def trim_def)
  next
    case False
    then show ?thesis using r t by (simp add: mstar_ghost_length_control_def trim_def)
  qed
qed

section \<open>The size of the ghost list\<close>

definition size_in :: "nat \<Rightarrow> nat \<Rightarrow> bool" where
  "size_in c g \<longleftrightarrow> c div 10 \<le> g \<and> g \<le> 9 * c div 10"

lemma size_in_next:
  assumes "10 \<le> c" "size_in c g"
  shows "size_in c (spec_grow c g)" "size_in c (spec_shrink c g)"
proof -
  have "c div 10 \<le> 9 * c div 10" by (intro div_le_mono) simp
  then show "size_in c (spec_grow c g)" "size_in c (spec_shrink c g)"
    using assms(2) by (auto simp: size_in_def spec_grow_def spec_shrink_def)
qed

lemma unat_9:
  assumes "9 * unat c < 2 ^ 32"
  shows "unat ((9 * c) div 10 :: u32) = 9 * unat c div 10"
proof -
  have "unat (9 * c) = 9 * unat c" using assms by (subst unat_mult_small) simp_all
  then show ?thesis by (simp add: unat_div)
qed

lemma grow_ok:
  assumes m: "meta_size s = c" and c: "10 \<le> unat c" "9 * unat c < 2 ^ 32" and g: "size_in (unat c) (unat (ms_ghost_size s))"
  shows "\<exists>n. mstar_increase_ghost_size s = Inr (s\<lparr>ms_ghost_size := n\<rparr>) \<and> unat n = spec_grow (unat c) (unat (ms_ghost_size s))"
proof -
  let ?g = "ms_ghost_size s"
  have pos: "1 \<le> unat ?g" using g c(1) by (auto simp: size_in_def intro: order_trans [rotated])
  then have nz: "?g \<noteq> 0" "?g > 0" by (auto simp: word_less_nat_alt)
  have "unat c div unat ?g \<le> unat c" by (rule div_le_dividend)
  moreover have "unat ?g \<le> unat c" using g by (auto simp: size_in_def)
  ultimately have "unat ?g + unat (c div ?g) \<le> 2 * unat c" unfolding unat_div by linarith
  then have "unat ?g + unat (c div ?g) < 2 ^ LENGTH(32)" using c(2) by simp
  then have "unat (?g + c div ?g) = unat ?g + unat c div unat ?g" by (simp add: unat_add_small unat_div)
  then have "unat (min_u ((9 * c) div 10) (?g + c div ?g)) = spec_grow (unat c) (unat ?g)"
    using unat_9 [OF c(2)] by (simp add: spec_grow_def min_u_eq min_def word_le_nat_alt)
  then show ?thesis using m nz by (auto simp: mstar_increase_ghost_size_def log_assert_def udiv_def Let_def)
qed

lemma shrink_ok:
  assumes m: "meta_size s = c" and c: "10 \<le> unat c" and g: "size_in (unat c) (unat (ms_ghost_size s))"
  shows "\<exists>n. mstar_decrease_ghost_size s = Inr (s\<lparr>ms_ghost_size := n\<rparr>) \<and> unat n = spec_shrink (unat c) (unat (ms_ghost_size s))"
proof -
  let ?g = "ms_ghost_size s"
  have "9 * unat c div 10 < unat c" using c by simp
  then have lt: "unat ?g < unat c" using g by (simp add: size_in_def)
  then have gt: "c > ?g" "?g \<le> c" by (simp_all add: word_less_nat_alt word_le_nat_alt)
  have sub: "unat (c - ?g) = unat c - unat ?g" by (rule unat_sub [OF gt(2)])
  then have nz: "c - ?g \<noteq> 0" using lt by auto
  let ?t = "c div (c - ?g)"
  have t: "unat ?t = unat c div (unat c - unat ?g)" by (simp add: unat_div sub)
  have "unat (if ?g \<ge> ?t then max_u (c div 10) (?g - ?t) else c div 10) = spec_shrink (unat c) (unat ?g)"
    using unat_sub [of ?t ?g] t by (auto simp: spec_shrink_def max_u_eq max_def word_le_nat_alt unat_div)
  moreover have "mstar_decrease_ghost_size s =
      Inr (s\<lparr>ms_ghost_size := (if ?g \<ge> ?t then max_u (c div 10) (?g - ?t) else c div 10)\<rparr>)"
    unfolding mstar_decrease_ghost_size_def Let_def m log_assert_def udiv_def if_P [OF gt(1)] if_not_P [OF nz] rbind.simps ..
  ultimately show ?thesis by blast
qed

section \<open>The relation\<close>

definition mstar_rel :: "('s \<Rightarrow> bool) \<Rightarrow> cblock \<Rightarrow> 's mstar_policy \<Rightarrow> mstar_spec \<Rightarrow> bool" where
  "mstar_rel I c s A \<longleftrightarrow> remembers c (ap_ghost A) s \<and> unat (ms_ghost_size s) = ap_size A \<and>
     logic_rel c (ms_logic s) (ap_logic A) \<and> meta_size s = c \<and> size_in (unat c) (ap_size A) \<and>
     length (ap_ghost A) \<le> 9 * unat c div 10 \<and> I (ms_internal s)"

definition mstar_ok :: "('s \<Rightarrow> bool) \<Rightarrow> cblock \<Rightarrow> 's mstar_policy \<Rightarrow> bool" where
  "mstar_ok I c s \<longleftrightarrow> (\<exists>A. mstar_rel I c s A)"

lemma mstar_relD:
  assumes "mstar_rel I c s A"
  shows "remembers c (ap_ghost A) s" "unat (ms_ghost_size s) = ap_size A" "logic_rel c (ms_logic s) (ap_logic A)"
    "meta_size s = c" "size_in (unat c) (ap_size A)" "length (ap_ghost A) \<le> 9 * unat c div 10" "I (ms_internal s)"
    "lo_state (ms_logic s) = al_state (ap_logic A)" "ht_lookup ob s \<noteq> None \<longleftrightarrow> ob \<in> set (ap_ghost A)"
  using assms remembers_facts(3) [of c "ap_ghost A" s ob] by (simp_all add: mstar_rel_def logic_rel_def)

locale mstar_over = access_policy +
  fixes c :: cblock
  assumes big_c: "inv s \<Longrightarrow> 10 \<le> unat c" and small_c: "inv s \<Longrightarrow> 9 * unat c < 2 ^ 32"
begin

abbreviation rel :: "'a mstar_policy \<Rightarrow> mstar_spec \<Rightarrow> bool" where
  "rel s A \<equiv> mstar_rel inv c s A"

text \<open>The end of every access: the ghost list is cut, the logic is told.\<close>

lemma finish_ok:
  assumes R: "remembers c ks s" "length ks \<le> Suc (9 * unat c div 10)" and g: "size_in (unat c) (unat (ms_ghost_size s))"
    and L: "logic_rel c (ms_logic s) l" and m: "meta_size s = c" and i: "inv (ms_internal s)"
  shows "\<exists>s' A'. rbind (mstar_ghost_length_control s) (\<lambda>s. rbind (update_mstar (ms_logic s) hit ghost) (\<lambda>l.
      Inr (r, result, s\<lparr>ms_logic := l\<rparr>))) = Inr (r, result, s') \<and> rel s' A' \<and> ms_internal s' = ms_internal s \<and>
    ap_size A' = unat (ms_ghost_size s) \<and> ap_ghost A' = trim (unat (ms_ghost_size s)) ks \<and>
    (unat c \<le> 2 ^ 24 \<and> 100 * Suc (al_ios l) < 2 ^ 32 \<longrightarrow> ap_logic A' = spec_update (unat c) hit ghost l)"
proof -
  have le: "9 * unat c div 10 < unat c" using big_c [OF i] by simp
  then have "length ks \<le> unat c" using R(2) by simp
  from control_ok [OF R(1) this] obtain s1 where 1: "mstar_ghost_length_control s = Inr s1"
    "remembers c (trim (unat (ms_ghost_size s)) ks) s1" "rest_of s1 = rest_of s" by blast
  have f: "meta_size s1 = meta_size s" "ms_ghost_size s1 = ms_ghost_size s" "ms_internal s1 = ms_internal s"
    "ms_logic s1 = ms_logic s" using 1(3) by (simp_all add: rest_of_def)
  have c: "0 < c" "2 * unat c < 2 ^ 32" using big_c [OF i] small_c [OF i] by (simp_all add: word_less_nat_alt)
  from update_ok [OF L c, of hit ghost] obtain l' a' where u: "update_mstar (ms_logic s) hit ghost = Inr l'"
    "logic_rel c l' a'" "unat c \<le> 2 ^ 24 \<and> 100 * Suc (al_ios l) < 2 ^ 32 \<longrightarrow> a' = spec_update (unat c) hit ghost l" by blast
  let ?A = "\<lparr>ap_size = unat (ms_ghost_size s), ap_ghost = trim (unat (ms_ghost_size s)) ks, ap_logic = a'\<rparr>"
  have "length (trim (unat (ms_ghost_size s)) ks) \<le> 9 * unat c div 10"
    using R(2) g by (auto simp: trim_def size_in_def)
  then have "rel (s1\<lparr>ms_logic := l'\<rparr>) ?A" using 1(2) u(2) g m i f by (simp add: mstar_rel_def)
  then show ?thesis using 1(1) u f
    by (intro exI [of _ "s1\<lparr>ms_logic := l'\<rparr>"] exI [of _ ?A]) simp
qed

lemma internal_ok:
  assumes "inv (ms_internal s)"
  obtains r i' where "policy_map P ob w r0 (ms_internal s) = Inr (0, r, i')" "inv i'"
    "mstar_internal_map P ob w r0 s = Inr (0, r, s\<lparr>ms_internal := i'\<rparr>)"
proof -
  obtain x where x: "policy_map P ob w r0 (ms_internal s) = Inr x"
    using map_law [OF assms, of ob w r0] by (auto simp: succeeds_iff_Inr)
  obtain rc r i' where xx: "x = (rc, r, i')" by (cases x) auto
  then have "rc = 0" "inv i'" using map_lawD(1,2) [OF assms, of ob w r0] x by auto
  then show ?thesis using that x xx by (simp add: mstar_internal_map_def)
qed

text \<open>A miss on a full cache, up to the decision on its admission.\<close>

lemma full_miss_ok:
  assumes R: "rel s A" and new: "ob \<notin> set ks" and ks: "remembers c ks s1" "length ks \<le> 9 * unat c div 10"
    and rest: "rest_of s1 = rest_of s"
  shows "\<exists>s2. rbind (mstar_remember ob s1) mstar_increase_ghost_size = Inr s2 \<and> remembers c (ks @ [ob]) s2 \<and>
    unat (ms_ghost_size s2) = spec_grow (unat c) (ap_size A) \<and> meta_size s2 = c \<and> ms_internal s2 = ms_internal s \<and>
    ms_logic s2 = ms_logic s"
proof -
  note D = mstar_relD [OF R]
  have "9 * unat c div 10 < unat c" using big_c [OF D(7)] by simp
  then have "length ks < unat c" using ks(2) by simp
  from remember_ok [OF ks(1) this new] obtain s2 where 2: "mstar_remember ob s1 = Inr s2" "remembers c (ks @ [ob]) s2"
    "rest_of s2 = rest_of s1" by blast
  have f: "meta_size s2 = c" "ms_ghost_size s2 = ms_ghost_size s" "ms_internal s2 = ms_internal s" "ms_logic s2 = ms_logic s"
    using 2(3) rest D(4) by (simp_all add: rest_of_def)
  have "size_in (unat c) (unat (ms_ghost_size s2))" using f D(2,5) by simp
  from grow_ok [OF f(1) big_c [OF D(7)] small_c [OF D(7)] this] obtain n where
    "mstar_increase_ghost_size s2 = Inr (s2\<lparr>ms_ghost_size := n\<rparr>)" "unat n = spec_grow (unat c) (unat (ms_ghost_size s2))" by blast
  then show ?thesis using 2 f D(2) by (intro exI [of _ "s2\<lparr>ms_ghost_size := n\<rparr>"]) simp
qed

text \<open>A hit leaves the number of cached blocks as it is.\<close>

lemma hit_full:
  assumes "inv i" "policy_cache_lookup P ob i \<noteq> None" "policy_map P ob w r0 i = Inr (rc, r, i')"
  shows "policy_cache_is_full P i' = policy_cache_is_full P i" "r_op r = CACHE_NUCLEUS_HIT"
proof -
  have "mview P i ob \<noteq> None" using assms(2) by (simp add: lookup_view)
  then show h: "r_op r = CACHE_NUCLEUS_HIT" using cached_hits [OF assms(1,3)] by simp
  have "map_effect ob r (mview P i) (mview P i')" "inv i'" using map_lawD(2,3) [OF assms(1,3)] by simp_all
  then have "mview P i' = mview P i" using h by (simp add: map_effect_def)
  then show "policy_cache_is_full P i' = policy_cache_is_full P i"
    using full_law [OF assms(1)] full_law [OF \<open>inv i'\<close>] by simp
qed

text \<open>The access before its end, by cases.\<close>

definition serves :: "oblock \<Rightarrow> bool \<Rightarrow> cn_result \<Rightarrow> 'a mstar_policy \<Rightarrow> mstar_spec \<Rightarrow> (int \<times> cn_result \<times> 'a mstar_policy) res \<Rightarrow> bool" where
  "serves ob w r0 s A m \<longleftrightarrow>
     (let full = policy_cache_is_full P (ms_internal s); hit = policy_cache_lookup P ob (ms_internal s) \<noteq> None in
      \<exists>r s1. m = Inr (0, r, s1) \<and> remembers c (spec_next_ghost full hit ob A) s1 \<and>
        unat (ms_ghost_size s1) = spec_next_size (unat c) full hit A \<and> meta_size s1 = c \<and>
        ms_logic s1 = ms_logic s \<and> inv (ms_internal s1) \<and>
        (if spec_bars full hit ob A then r = r0 \<and> ms_internal s1 = ms_internal s
         else policy_map P ob w r0 (ms_internal s) = Inr (0, r, ms_internal s1)))"

lemma hit_serves:
  assumes R: "rel s A" and hit: "policy_cache_lookup P ob (ms_internal s) \<noteq> None"
  shows "serves ob w r0 s A (mstar_hit P ob w r0 s)"
proof -
  note D = mstar_relD [OF R]
  obtain r i' where i: "policy_map P ob w r0 (ms_internal s) = Inr (0, r, i')" "inv i'"
    "mstar_internal_map P ob w r0 s = Inr (0, r, s\<lparr>ms_internal := i'\<rparr>)" using internal_ok [OF D(7)] by blast
  let ?s = "s\<lparr>ms_internal := i'\<rparr>" and ?full = "policy_cache_is_full P (ms_internal s)"
  have full: "policy_cache_is_full P i' = ?full" by (rule hit_full(1) [OF D(7) hit i(1)])
  have "size_in (unat c) (unat (ms_ghost_size ?s))" using D(2,5) by simp
  from shrink_ok [OF _ big_c [OF D(7)] this] D(4) obtain n where n: "mstar_decrease_ghost_size ?s = Inr (?s\<lparr>ms_ghost_size := n\<rparr>)"
    "unat n = spec_shrink (unat c) (ap_size A)" using D(2) by auto
  define go where "go = (al_state (ap_logic A) \<noteq> UNSTABLE \<or> ?full)"
  have run: "mstar_hit P ob w r0 s = Inr (0, r, if go then ?s\<lparr>ms_ghost_size := n\<rparr> else ?s)"
    using i(3) n(1) full D(8) by (simp add: mstar_hit_def go_def)
  show ?thesis unfolding serves_def Let_def run using D i n(2) hit
    by (intro exI [of _ r] exI [of _ "if go then ?s\<lparr>ms_ghost_size := n\<rparr> else ?s"])
      (simp add: spec_next_ghost_def spec_next_size_def spec_bars_def go_def)
qed

lemma miss_serves:
  assumes R: "rel s A" and miss: "policy_cache_lookup P ob (ms_internal s) = None" and new: "ob \<notin> set (ap_ghost A)"
  shows "serves ob w r0 s A (mstar_ghost_miss P ob w r0 s)"
proof (cases "policy_cache_is_full P (ms_internal s)")
  case False
  note D = mstar_relD [OF R]
  obtain r i' where "policy_map P ob w r0 (ms_internal s) = Inr (0, r, i')" "inv i'"
    "mstar_internal_map P ob w r0 s = Inr (0, r, s\<lparr>ms_internal := i'\<rparr>)" using internal_ok [OF D(7)] by blast
  then show ?thesis using D miss False
    by (simp add: serves_def mstar_ghost_miss_def spec_next_ghost_def spec_next_size_def spec_bars_def)
next
  case True
  note D = mstar_relD [OF R]
  from full_miss_ok [OF R new D(1,6) refl] obtain s2 where 2: "rbind (mstar_remember ob s) mstar_increase_ghost_size = Inr s2"
    "remembers c (ap_ghost A @ [ob]) s2" "unat (ms_ghost_size s2) = spec_grow (unat c) (ap_size A)" "meta_size s2 = c"
    "ms_internal s2 = ms_internal s" "ms_logic s2 = ms_logic s" by blast
  have run: "mstar_ghost_miss P ob w r0 s =
      (if al_state (ap_logic A) \<noteq> UNSTABLE then Inr (0, r0, upd_stats inc_ios (upd_stats inc_filters s2))
       else mstar_internal_map P ob w r0 s2)"
  proof -
    obtain x where "mstar_remember ob s = Inr x" "mstar_increase_ghost_size x = Inr s2" using 2(1) by auto
    then show ?thesis using True 2(6) D(8) by (simp add: mstar_ghost_miss_def)
  qed
  show ?thesis
  proof (cases "al_state (ap_logic A) = UNSTABLE")
    case unst: True
    obtain r i' where "policy_map P ob w r0 (ms_internal s) = Inr (0, r, i')" "inv i'"
      "mstar_internal_map P ob w r0 s2 = Inr (0, r, s2\<lparr>ms_internal := i'\<rparr>)"
      using internal_ok [of s2 ob w r0] D(7) 2(5) by auto
    then show ?thesis using run unst 2 D miss True new
      by (simp add: serves_def spec_next_ghost_def spec_next_size_def spec_bars_def remove1_idem)
  next
    case False
    then show ?thesis using run 2 D miss True new
      by (simp add: serves_def spec_next_ghost_def spec_next_size_def spec_bars_def remove1_idem)
  qed
qed

lemma ghost_hit_serves:
  assumes R: "rel s A" and miss: "policy_cache_lookup P ob (ms_internal s) = None" and old: "ob \<in> set (ap_ghost A)"
  shows "serves ob w r0 s A (mstar_ghost_hit P ob w r0 s)"
proof (cases "policy_cache_is_full P (ms_internal s)")
  case False
  note D = mstar_relD [OF R]
  obtain r i' where "policy_map P ob w r0 (ms_internal s) = Inr (0, r, i')" "inv i'"
    "mstar_internal_map P ob w r0 s = Inr (0, r, s\<lparr>ms_internal := i'\<rparr>)" using internal_ok [OF D(7)] by blast
  then show ?thesis using D miss False
    by (simp add: serves_def mstar_ghost_hit_def spec_next_ghost_def spec_next_size_def spec_bars_def)
next
  case True
  note D = mstar_relD [OF R]
  have ok: "ghost_list_ok c (mstar_g s) s" using D(1) by (simp add: remembers_def)
  obtain e where e: "ht_lookup ob s = Some e" using D(9) [of ob] old by blast
  have "e \<in> set (mstar_g s)" "e_oblock (store s e) = ob" using ghost_list_lookup(2) [OF ok e] by simp_all
  from forget_ok [OF D(1) this] obtain s1 where 1: "mstar_only_remove e s = Inr s1"
    "remembers c (remove1 ob (ap_ghost A)) s1" "rest_of s1 = rest_of s" by blast
  have new: "ob \<notin> set (remove1 ob (ap_ghost A))" using remembers_facts(1) [OF D(1)] by simp
  have len: "length (remove1 ob (ap_ghost A)) \<le> 9 * unat c div 10"
    using D(6) by (auto simp: length_remove1 intro: order_trans [OF diff_le_self])
  have f: "meta_size s1 = c" "ms_ghost_size s1 = ms_ghost_size s" "ms_internal s1 = ms_internal s" "ms_logic s1 = ms_logic s"
    using 1(3) D(4) by (simp_all add: rest_of_def)
  define ks where "ks = spec_next_ghost True False ob A"
  have "\<exists>s2. rbind (if lo_state (ms_logic s1) = UNSTABLE then mstar_remember ob s1 else Inr s1) mstar_increase_ghost_size = Inr s2 \<and>
      remembers c ks s2 \<and> unat (ms_ghost_size s2) = spec_grow (unat c) (ap_size A) \<and> meta_size s2 = c \<and>
      ms_internal s2 = ms_internal s \<and> ms_logic s2 = ms_logic s"
  proof (cases "al_state (ap_logic A) = UNSTABLE")
    case unst: True
    then have "ks = remove1 ob (ap_ghost A) @ [ob]" by (simp add: ks_def spec_next_ghost_def)
    then show ?thesis using full_miss_ok [OF R new 1(2) len 1(3)] unst f(4) D(8) by simp
  next
    case False
    then have k: "ks = remove1 ob (ap_ghost A)" using old by (simp add: ks_def spec_next_ghost_def)
    have "size_in (unat c) (unat (ms_ghost_size s1))" using f D(2,5) by simp
    from grow_ok [OF f(1) big_c [OF D(7)] small_c [OF D(7)] this] obtain n where
      "mstar_increase_ghost_size s1 = Inr (s1\<lparr>ms_ghost_size := n\<rparr>)" "unat n = spec_grow (unat c) (unat (ms_ghost_size s1))" by blast
    then show ?thesis using False f D(2,8) 1(2) k by (intro exI [of _ "s1\<lparr>ms_ghost_size := n\<rparr>"]) simp
  qed
  then obtain s2 where 2: "rbind (if lo_state (ms_logic s1) = UNSTABLE then mstar_remember ob s1 else Inr s1) mstar_increase_ghost_size = Inr s2"
    "remembers c ks s2" "unat (ms_ghost_size s2) = spec_grow (unat c) (ap_size A)" "meta_size s2 = c"
    "ms_internal s2 = ms_internal s" "ms_logic s2 = ms_logic s" by blast
  obtain r i' where i: "policy_map P ob w r0 (ms_internal s) = Inr (0, r, i')" "inv i'"
    "mstar_internal_map P ob w r0 s2 = Inr (0, r, s2\<lparr>ms_internal := i'\<rparr>)"
    using internal_ok [of s2 ob w r0] D(7) 2(5) by auto
  have "mstar_ghost_hit P ob w r0 s = Inr (0, r, s2\<lparr>ms_internal := i'\<rparr>)"
    unfolding mstar_ghost_hit_def if_P [OF True] e deref_def option.case rbind.simps 1(1) 2(1) by (rule i(3))
  then show ?thesis using 2 i D miss True old
    by (simp add: serves_def ks_def spec_next_size_def spec_bars_def)
qed

lemma next_ghost_length: "length (spec_next_ghost full hit ob A) \<le> Suc (length (ap_ghost A))"
  by (auto simp: spec_next_ghost_def length_remove1 intro: order_trans [OF diff_le_self])

text \<open>The whole access.\<close>

lemma mstar_access:
  assumes R: "rel s A"
    and full: "full = policy_cache_is_full P (ms_internal s)" and hit: "hit = (policy_cache_lookup P ob (ms_internal s) \<noteq> None)"
  shows "\<exists>r s' A'. mstar_map P ob w r0 s = Inr (0, r, s') \<and> rel s' A' \<and>
    (unat c \<le> 2 ^ 24 \<and> 100 * Suc (al_ios (ap_logic A)) < 2 ^ 32 \<longrightarrow> A' = spec_mstar (unat c) full hit ob A) \<and>
    (if spec_bars full hit ob A then r = r0\<lparr>r_op := CACHE_NUCLEUS_FILTER\<rparr> \<and> ms_internal s' = ms_internal s
     else policy_map P ob w (r0\<lparr>r_op := CACHE_NUCLEUS_FILTER\<rparr>) (ms_internal s) = Inr (0, r, ms_internal s'))"
proof -
  note D = mstar_relD [OF R]
  let ?r = "r0\<lparr>r_op := CACHE_NUCLEUS_FILTER\<rparr>" and ?ghost = "ob \<in> set (ap_ghost A)"
  let ?m = "if hit then mstar_hit P ob w ?r s else if ht_lookup ob s \<noteq> None then mstar_ghost_hit P ob w ?r s
      else mstar_ghost_miss P ob w ?r s"
  have "serves ob w ?r s A ?m"
    using hit_serves [OF R] miss_serves [OF R] ghost_hit_serves [OF R] D(9) [of ob] unfolding hit
    by (auto simp del: not_None_eq)
  then obtain r s1 where 1: "?m = Inr (0, r, s1)" "remembers c (spec_next_ghost full hit ob A) s1"
    "unat (ms_ghost_size s1) = spec_next_size (unat c) full hit A" "meta_size s1 = c"
    "ms_logic s1 = ms_logic s" "inv (ms_internal s1)"
    "if spec_bars full hit ob A then r = ?r \<and> ms_internal s1 = ms_internal s
     else policy_map P ob w ?r (ms_internal s) = Inr (0, r, ms_internal s1)"
    unfolding serves_def Let_def full hit by blast
  have len: "length (spec_next_ghost full hit ob A) \<le> Suc (9 * unat c div 10)"
    using next_ghost_length [of full hit ob A] D(6) by linarith
  have sz: "size_in (unat c) (unat (ms_ghost_size s1))"
    using size_in_next [OF big_c [OF D(7)] D(5)] D(5) by (simp add: 1(3) spec_next_size_def)
  have L: "logic_rel c (ms_logic s1) (ap_logic A)" using D(3) 1(5) by simp
  from finish_ok [where hit = hit and ghost = ?ghost and r = "0 :: int" and result = r, OF 1(2) len sz L 1(4,6)] obtain s' A' where
    2: "rbind (mstar_ghost_length_control s1) (\<lambda>s. rbind (update_mstar (ms_logic s) hit ?ghost) (\<lambda>l.
      Inr (0 :: int, r, s\<lparr>ms_logic := l\<rparr>))) = Inr (0, r, s')" "rel s' A'" "ms_internal s' = ms_internal s1"
    "ap_size A' = unat (ms_ghost_size s1)" "ap_ghost A' = trim (unat (ms_ghost_size s1)) (spec_next_ghost full hit ob A)"
    "unat c \<le> 2 ^ 24 \<and> 100 * Suc (al_ios (ap_logic A)) < 2 ^ 32 \<longrightarrow> ap_logic A' = spec_update (unat c) hit ?ghost (ap_logic A)"
    by blast
  have g: "(ht_lookup ob s \<noteq> None) = ?ghost" by (rule D(9))
  have run: "mstar_map P ob w r0 s = Inr (0, r, s')"
    unfolding mstar_map_def Let_def hit [symmetric] 1(1) rbind.simps prod.case unfolding g by (rule 2(1))
  have "A' = spec_mstar (unat c) full hit ob A" if "unat c \<le> 2 ^ 24 \<and> 100 * Suc (al_ios (ap_logic A)) < 2 ^ 32"
    using 2(4,5) 2(6) [rule_format, OF that] 1(3) by (intro mstar_spec.equality) (simp_all add: spec_mstar_def Let_def)
  then show ?thesis using run 2(2,3) 1(7) by (intro exI [of _ r] exI [of _ s'] exI [of _ A']) simp
qed

end

end
