(* ===== verification/Mstar_Props.thy ===== *)
theory Mstar_Props
  imports Mstar_Access Arc_Props Lru_Props
begin

text \<open>
  M* keeps the contract of a policy, over any policy that keeps it; its creation, and its properties over LRU and
  ARC.
\<close>

section \<open>The contract\<close>

lemma mstar_calls:
  "policy_map (mstar_api P) = mstar_map P" "policy_migrated (mstar_api P) = mstar_migrated P"
  "policy_remove (mstar_api P) = mstar_remove P"
  "policy_next_victim (mstar_api P) = mstar_next_victim P"
  "policy_set_time (mstar_api P) = mstar_set_time P" "policy_residency (mstar_api P) = mstar_residency P"
  "policy_cache_is_full (mstar_api P) = mstar_cache_is_full P"
  "policy_cache_lookup (mstar_api P) = mstar_cache_lookup P"
  "policy_cblock_lookup (mstar_api P) = mstar_cblock_lookup P"
  by (simp_all add: policy_calls mstar_api_def fun_eq_iff)

lemma mstar_pview: "pview (mstar_api P) s = pview P (ms_internal s)"
proof -
  have "fn_entry (mstar_api P) s = fn_entry P (ms_internal s)" by (simp add: mstar_api_def)
  then show ?thesis by (intro ext) (simp add: pview_def mstar_calls mstar_cache_lookup_def split: option.split)
qed

lemma mstar_located: "located (mstar_api P) ob r s = located P ob r (ms_internal s)"
  by (simp add: located_def mstar_calls mstar_cache_lookup_def mstar_cblock_lookup_def)

lemma mstar_internal_rel: "mstar_rel I c s A \<Longrightarrow> I i \<Longrightarrow> mstar_rel I c (s\<lparr>ms_internal := i\<rparr>) A"
  by (simp add: mstar_rel_def)

lemma mstar_okI: "mstar_rel I c s A \<Longrightarrow> mstar_ok I c s"
  by (auto simp: mstar_ok_def)

lemma mstar_time_rel: "mstar_rel I c s A \<Longrightarrow> mstar_rel I c (s\<lparr>cn_time := t\<rparr>) A"
  by (simp add: mstar_rel_def)

context mstar_over
begin

lemma mstar_map_contract:
  assumes R: "rel s A"
  shows "\<exists>r s' A'. mstar_map P ob w r0 s = Inr (0, r, s') \<and> rel s' A' \<and>
      map_effect ob r (mview P (ms_internal s)) (mview P (ms_internal s')) \<and> located P ob r (ms_internal s')"
proof -
  note D = mstar_relD [OF R]
  let ?i = "ms_internal s"
  define full where "full = policy_cache_is_full P ?i"
  define hit where "hit = (policy_cache_lookup P ob ?i \<noteq> None)"
  from mstar_access [OF R full_def hit_def, of w r0] obtain r s' A' where
    m: "mstar_map P ob w r0 s = Inr (0, r, s')" "rel s' A'"
    "if spec_bars full hit ob A then r = r0\<lparr>r_op := CACHE_NUCLEUS_FILTER\<rparr> \<and> ms_internal s' = ?i
     else policy_map P ob w (r0\<lparr>r_op := CACHE_NUCLEUS_FILTER\<rparr>) ?i = Inr (0, r, ms_internal s')" by blast
  have "map_effect ob r (mview P ?i) (mview P (ms_internal s')) \<and> located P ob r (ms_internal s')"
  proof (cases "spec_bars full hit ob A")
    case True
    then have "policy_cache_lookup P ob ?i = None" unfolding spec_bars_def hit_def by blast
    then have "mview P ?i ob = None" by (simp add: lookup_view)
    then show ?thesis using m(3) True by (simp add: map_effect_def located_def)
  next
    case False
    then show ?thesis using m(3) map_lawD(3,4) [OF D(7)] by auto
  qed
  then show ?thesis using m by blast
qed

lemma mstar_keeps_contract: "runnable_policy (mstar_api P) (\<lambda>_. mstar_ok inv c) cap"
proof
  fix s :: "'a mstar_policy" and ob w r0 t e m m' ob' and k :: nat
  note view = mstar_pview
  assume ok: "mstar_ok inv c s"
  then obtain A where R: "rel s A" by (auto simp: mstar_ok_def)
  note D = mstar_relD [OF R]
  show "mstar_ok inv c s" by (rule ok)
  show "succeeds (policy_map (mstar_api P) ob w r0 s) (\<lambda>(rc, r, s').
      rc = 0 \<and> mstar_ok inv c s' \<and> map_effect ob r (mview (mstar_api P) s) (mview (mstar_api P) s') \<and>
      located (mstar_api P) ob r s')"
    using mstar_map_contract [OF R, of ob w r0] by (auto simp: mstar_calls view mstar_located mstar_ok_def)
  show "mview (mstar_api P) s ob = Some (e, True) \<Longrightarrow> succeeds (policy_migrated (mstar_api P) ob s)
      (\<lambda>s'. mstar_ok inv c s' \<and> mview (mstar_api P) s' = (mview (mstar_api P) s)(ob \<mapsto> (e, False)))"
    using migrated_law [OF D(7), of ob e] mstar_okI [OF mstar_internal_rel [OF R]]
    by (auto simp: mstar_calls mstar_migrated_def view succeeds_iff_Inr)
  show "mstar_ok inv c (policy_set_time (mstar_api P) t s) \<and>
      mview (mstar_api P) (policy_set_time (mstar_api P) t s) = mview (mstar_api P) s"
    using time_law [OF D(7), of t] mstar_time_rel [OF mstar_internal_rel [OF R], of "policy_set_time P t (ms_internal s)" t]
    by (auto simp: mstar_calls mstar_set_time_def view mstar_ok_def)
  show "mview (mstar_api P) s ob = Some (e, m) \<Longrightarrow> mview (mstar_api P) s ob' = Some (e, m') \<Longrightarrow> ob = ob'"
    unfolding view by (rule inj_law [OF D(7)])
  show "finite (dom (mview (mstar_api P) s)) \<and> card (dom (mview (mstar_api P) s)) \<le> cap"
    unfolding view by (rule cap_law [OF D(7)])
  show "policy_residency (mstar_api P) s = of_nat (card (dom (mview (mstar_api P) s)))"
    unfolding view mstar_calls mstar_residency_def by (rule residency_law [OF D(7)])
  show "policy_cache_is_full (mstar_api P) s \<longleftrightarrow> card (dom (mview (mstar_api P) s)) = cap"
    unfolding view mstar_calls mstar_cache_is_full_def by (rule full_law [OF D(7)])
qed

end

sublocale mstar_over \<subseteq> mstar: runnable_policy "mstar_api P" "\<lambda>_. mstar_ok inv c" cap
  by (rule mstar_keeps_contract)

text \<open>A removal that is not remembered also takes the block from the ghost list.\<close>

locale mstar_over_cache = mstar_over + cache_policy
begin

lemma mstar_removes:
  assumes ok: "mstar_ok inv c s" and v: "mview (mstar_api P) s ob \<noteq> None"
  shows "succeeds (policy_remove (mstar_api P) ob False s)
    (\<lambda>s'. mstar_ok inv c s' \<and> mview (mstar_api P) s' = (mview (mstar_api P) s)(ob := None))"
proof -
  obtain A where R: "rel s A" using ok by (auto simp: mstar_ok_def)
  note D = mstar_relD [OF R]
  have "\<exists>s1 ks. (case ht_lookup ob s of None \<Rightarrow> Inr s | Some e \<Rightarrow> mstar_only_remove e s) = Inr s1 \<and>
      remembers c ks s1 \<and> rest_of s1 = rest_of s \<and> length ks \<le> length (ap_ghost A)"
  proof (cases "ht_lookup ob s")
    case None
    then show ?thesis using D(1) by auto
  next
    case (Some e)
    have "ghost_list_ok c (mstar_g s) s" using D(1) by (simp add: remembers_def)
    then have "e \<in> set (mstar_g s)" "e_oblock (store s e) = ob" using ghost_list_lookup(2) Some by blast+
    from forget_ok [OF D(1) this] obtain s1 where "mstar_only_remove e s = Inr s1"
      "remembers c (remove1 ob (ap_ghost A)) s1" "rest_of s1 = rest_of s" by blast
    moreover have "length (remove1 ob (ap_ghost A)) \<le> length (ap_ghost A)" by (simp add: length_remove1)
    ultimately show ?thesis using Some by auto
  qed
  then obtain s1 ks where 1: "(case ht_lookup ob s of None \<Rightarrow> Inr s | Some e \<Rightarrow> mstar_only_remove e s) = Inr s1"
    "remembers c ks s1" "rest_of s1 = rest_of s" "length ks \<le> length (ap_ghost A)" by blast
  have f: "meta_size s1 = meta_size s" "ms_ghost_size s1 = ms_ghost_size s" "ms_internal s1 = ms_internal s"
    "ms_logic s1 = ms_logic s" using 1(3) by (simp_all add: rest_of_def)
  have "mview P (ms_internal s) ob \<noteq> None" using v by (simp add: mstar_pview)
  then obtain i' where i: "policy_remove P ob False (ms_internal s) = Inr i'" "inv i'"
    "mview P i' = (mview P (ms_internal s))(ob := None)" using remove_law [OF D(7), of ob] by (auto simp: succeeds_iff_Inr)
  have "rel (s1\<lparr>ms_internal := i'\<rparr>) (A\<lparr>ap_ghost := ks\<rparr>)" using D 1(2,4) i(2) f by (simp add: mstar_rel_def)
  moreover have "mstar_remove P ob False s = Inr (s1\<lparr>ms_internal := i'\<rparr>)"
  proof -
    have "(case ht_lookup ob s of None \<Rightarrow> Inr s | Some e \<Rightarrow> if \<not> False then mstar_only_remove e s else Inr s) = Inr s1"
      using 1(1) by (simp only: not_False_eq_True if_True)
    then show ?thesis unfolding mstar_remove_def by (simp only: rbind.simps f(3) i(1))
  qed
  ultimately show ?thesis using i(3) by (auto simp: mstar_calls mstar_pview mstar_ok_def)
qed

end

section \<open>Creation\<close>

lemma mstar_init_ok:
  assumes "10 \<le> unat c" "9 * unat c < 2 ^ 32" "I i"
  shows "\<exists>s. mstar_init c m i adaptive (zero_mstar i) = Inr s \<and> ms_internal s = i \<and>
    mstar_rel I c s \<lparr>ap_size = 9 * unat c div 10, ap_ghost = [], ap_logic = start_logic (unat c) adaptive\<rparr>"
proof -
  let ?l = "mstar_logic_init adaptive c zero_logic"
  let ?s0 = "(zero_mstar i)\<lparr>ms_internal := i, mstar_g := [], ms_ghost_size := (9 * c) div 10,
      meta_pool := epool_create MetaRegion c, ms_logic := ?l\<rparr>"
  have w: "cache_pool ?s0 = epool_create CacheRegion 0" "meta_pool ?s0 = epool_create MetaRegion c" "wb ?s0 = (\<lambda>_. [])"
    by (simp_all add: zero_mstar_def)
  obtain s' cp mp where s': "policy_init 0 c CACHE_NUCLEUS_SINGLE_THREAD ?s0 = Inr s'" "cn_ok s'" "ht s' = []"
    "s' = ?s0\<lparr>store := store s', cache_pool := cp, meta_pool := mp, stats := stats_init, ht := [],
           cache_size := 0, meta_size := c, thread_support := CACHE_NUCLEUS_SINGLE_THREAD, cn_time := 0\<rparr>"
    "ep_nr_entries cp = 0" "ep_nr_entries mp = c"
    using policy_init_ok [OF w, of 0 c CACHE_NUCLEUS_SINGLE_THREAD] by auto
  have f: "ms_internal s' = i" "mstar_g s' = []" "ms_ghost_size s' = (9 * c) div 10" "ms_logic s' = ?l"
    "meta_size s' = c" "cache_pool s' = cp" "meta_pool s' = mp" by (subst s'(4), simp)+
  have "0 < c" "2 * unat c < 2 ^ 32" using assms(1,2) by (simp_all add: word_less_nat_alt)
  then have "logic_rel c ?l (start_logic (unat c) adaptive)" by (rule logic_init_ok)
  moreover have "remembers c [] s'" using s'(2,3,5,6) f by (simp add: remembers_def ghost_list_ok_def)
  moreover have "size_in (unat c) (9 * unat c div 10)" using assms(1) by (auto simp: size_in_def intro: div_le_mono)
  ultimately have "mstar_rel I c s' \<lparr>ap_size = 9 * unat c div 10, ap_ghost = [], ap_logic = start_logic (unat c) adaptive\<rparr>"
    using assms(3) f unat_9 [OF assms(2)] by (simp add: mstar_rel_def)
  moreover have "mstar_init c m i adaptive (zero_mstar i) = Inr s'"
    using s'(1) by (simp add: mstar_init_def zero_mstar_def)
  ultimately show ?thesis using f(1) by blast
qed

section \<open>M* over LRU and ARC\<close>

abbreviation lru_inside :: "cblock \<Rightarrow> lru_policy \<Rightarrow> bool" where
  "lru_inside c s \<equiv> lru_ok c s \<and> 10 \<le> unat c \<and> 9 * unat c < 2 ^ 32"

abbreviation arc_behind :: "cblock \<Rightarrow> cblock \<Rightarrow> arc_policy \<Rightarrow> bool" where
  "arc_behind c m s \<equiv> arc_ok c m s \<and> 10 \<le> unat c \<and> 9 * unat c < 2 ^ 32"

text \<open>A restriction of the invariant by a condition on the parameters keeps a contract.\<close>

lemma cache_policy_restrict: "cache_policy Q J n \<Longrightarrow> cache_policy Q (\<lambda>s. J s \<and> C) n"
  by (cases C) (auto simp: cache_policy_def access_policy_def cache_policy_axioms_def)

lemma access_policy_restrict: "access_policy Q J n \<Longrightarrow> access_policy Q (\<lambda>s. J s \<and> C) n"
  by (cases C) (auto simp: access_policy_def)

interpretation mstar_lru: mstar_over_cache lru_api "lru_inside c" "unat c" c for c
proof (rule mstar_over_cache.intro)
  have p: "cache_policy lru_api (lru_inside c) (unat c)"
    by (rule cache_policy_restrict) (rule lru.cache_policy_axioms)
  show "mstar_over lru_api (lru_inside c) (unat c) c"
  proof (rule mstar_over.intro)
    show "access_policy lru_api (lru_inside c) (unat c)" using p by (rule cache_policy.axioms(1))
    show "mstar_over_axioms (lru_inside c) c" by unfold_locales simp_all
  qed
  show "cache_policy lru_api (lru_inside c) (unat c)" by (rule p)
qed

interpretation mstar_arc: mstar_over arc_api "arc_behind c m" "unat c" c for c m
proof (rule mstar_over.intro)
  show "access_policy arc_api (arc_behind c m) (unat c)" by (rule access_policy_restrict) (rule arc_access_policy)
  show "mstar_over_axioms (arc_behind c m) c" by unfold_locales simp_all
qed

lemma lru_full_iff:
  assumes "lru_ok c s"
  shows "policy_cache_is_full lru_api s \<longleftrightarrow> \<not> length (recent (lru_abs s)) + card (on_way (lru_abs s)) < unat c"
    "policy_cache_lookup lru_api ob s \<noteq> None \<longleftrightarrow> ob \<in> set (recent (lru_abs s)) \<union> on_way (lru_abs s)"
proof -
  show "policy_cache_is_full lru_api s \<longleftrightarrow> \<not> length (recent (lru_abs s)) + card (on_way (lru_abs s)) < unat c"
    using lru_full_spec [OF assms] by (simp add: lru_calls default_cache_is_full_def)
  note cn = lru_okD(1) [OF assms]
  have "policy_cache_lookup lru_api ob s = ht_lookup ob s"
  proof (cases "ht_lookup ob s")
    case None
    then show ?thesis by (simp add: lru_calls default_cache_lookup_def in_cache_def)
  next
    case (Some e)
    then have "e \<in> cached (ht s)" using lookup_Some [OF cn] lru_cached [OF assms] by blast
    then have "in_cache s (Some e)" using cn_in_cache [OF cn] by (simp add: in_cache_def cached_def)
    then show ?thesis using Some by (simp add: lru_calls default_cache_lookup_def Let_def)
  qed
  then show "policy_cache_lookup lru_api ob s \<noteq> None \<longleftrightarrow> ob \<in> set (recent (lru_abs s)) \<union> on_way (lru_abs s)"
    using lru_abs_lookup [OF assms, of ob] by auto
qed

lemma mstar_lru_started:
  assumes "10 \<le> unat c" "9 * unat c < 2 ^ 32"
  shows "\<exists>s. mstar_create c m lru_create adaptive = Inr s \<and> lru_abs (ms_internal s) = \<lparr>recent = [], on_way = {}\<rparr> \<and>
    mview (mstar_api lru_api) s = Map.empty \<and>
    mstar_rel (lru_inside c) c s \<lparr>ap_size = 9 * unat c div 10, ap_ghost = [], ap_logic = start_logic (unat c) adaptive\<rparr>"
proof -
  have "2 \<le> c" using assms(1) by (simp add: word_le_nat_alt)
  then obtain i where i: "lru_create c m = Inr i" "lru_ok c i" "lru_q i = []" "ht i = []" using lru_create_ok by blast
  have "lru_inside c i" using i(2) assms by simp
  from mstar_init_ok [where I = "lru_inside c" and m = m and adaptive = adaptive, OF assms this] obtain s where
    "mstar_init c m i adaptive (zero_mstar i) = Inr s" "ms_internal s = i"
    "mstar_rel (lru_inside c) c s \<lparr>ap_size = 9 * unat c div 10, ap_ghost = [], ap_logic = start_logic (unat c) adaptive\<rparr>" by blast
  moreover have "mview lru_api i = Map.empty" using i(2,4) by (simp add: lru_pview clean_view_def fun_eq_iff)
  moreover have "lru_abs i = \<lparr>recent = [], on_way = {}\<rparr>" using i(3,4) by (simp add: lru_abs_def)
  ultimately show ?thesis using i(1) by (simp add: mstar_create_def mstar_pview)
qed

lemma mstar_arc_started:
  assumes "10 \<le> unat c" "9 * unat c < 2 ^ 32" "unat c \<le> unat m"
  shows "\<exists>s. mstar_create c m arc_create adaptive = Inr s \<and> mview (mstar_api arc_api) s = Map.empty \<and>
    mstar_rel (arc_behind c m) c s \<lparr>ap_size = 9 * unat c div 10, ap_ghost = [], ap_logic = start_logic (unat c) adaptive\<rparr>"
proof -
  have "2 \<le> c" "3 * unat c < 2 ^ 32" using assms(1,2) by (simp_all add: word_le_nat_alt)
  then obtain i where i: "arc_create c m = Inr i" "arc_ok c m i" "mview arc_api i = Map.empty"
    using arc_started [OF _ _ assms(3)] by blast
  have "arc_behind c m i" using i(2) assms by simp
  from mstar_init_ok [where I = "arc_behind c m" and m = m and adaptive = adaptive, OF assms(1,2) this] obtain s where
    "mstar_init c m i adaptive (zero_mstar i) = Inr s" "ms_internal s = i"
    "mstar_rel (arc_behind c m) c s \<lparr>ap_size = 9 * unat c div 10, ap_ghost = [], ap_logic = start_logic (unat c) adaptive\<rparr>" by blast
  then show ?thesis using i(1,3) by (simp add: mstar_create_def mstar_pview)
qed

text \<open>The bounds of M*.\<close>

definition mstar_within :: "cblock \<Rightarrow> 's mstar_policy \<Rightarrow> bool" where
  "mstar_within c s \<longleftrightarrow> c div 10 \<le> ms_ghost_size s \<and> unat (ms_ghost_size s) \<le> 9 * unat c div 10 \<and>
     length (mstar_g s) \<le> 9 * unat c div 10 \<and> unat (lo_tabu_counter (ms_logic s)) \<le> 2 * unat c \<and>
     (\<forall>t. tr_stat (lo_transition_set (ms_logic s) t) \<le> 1000)"

lemma mstar_ok_within:
  assumes "mstar_ok I c s"
  shows "mstar_within c s"
proof -
  obtain A where R: "mstar_rel I c s A" using assms by (auto simp: mstar_ok_def)
  note D = mstar_relD [OF R] and L = logic_relD [OF mstar_relD(3) [OF R]]
  have "c div 10 \<le> ms_ghost_size s" using D(2,5) by (simp add: word_le_nat_alt unat_div size_in_def)
  moreover have "tr_stat (lo_transition_set (ms_logic s) t) \<le> 1000" for t
  proof -
    have "tr_stat (lo_transition_set (ms_logic s) t) = of_nat (al_stat (ap_logic A) t)" "al_stat (ap_logic A) t \<le> 1000"
      using L(10) by (simp_all add: stats_rel_def)
    then show ?thesis by (simp add: word_le_nat_alt unat_of_nat_small)
  qed
  ultimately show ?thesis
    using D(2,5,6) L(7,8) remembers_facts(2) [OF D(1)] by (simp add: mstar_within_def size_in_def)
qed

section \<open>Properties\<close>

text \<open>
  C22. An access to M* over LRU never faults and does what the exact rules say. It is filtered, without any effect on LRU,
  exactly if the cache is full, the block is neither cached nor remembered, and the state is not UNSTABLE; otherwise
  it is an access to LRU, with the operation, the victim and the contents of the abstract LRU cache. For caches of at most 2^24 blocks and
  while the accesses since the last reset of the counters of the state fit 32 bits when multiplied by 100, the ghost
  list in its order, its size, the state, the windows of hits, the time of the next decision and the adapted parameters
  are those of \<open>spec_mstar\<close>.
\<close>
theorem mstar_access_refines:
  assumes "mstar_rel (lru_inside c) c s A"
  shows "\<exists>r s' A'. mstar_map lru_api ob w r0 s = Inr (0, r, s') \<and> mstar_rel (lru_inside c) c s' A' \<and>
    (let L = lru_abs (ms_internal s);
         full = (\<not> length (recent L) + card (on_way L) < unat c); hit = (ob \<in> set (recent L) \<union> on_way L) in
     (unat c \<le> 2 ^ 24 \<and> 100 * Suc (al_ios (ap_logic A)) < 2 ^ 32 \<longrightarrow> A' = spec_mstar (unat c) full hit ob A) \<and>
     (if full \<and> \<not> hit \<and> ob \<notin> set (ap_ghost A) \<and> al_state (ap_logic A) \<noteq> UNSTABLE
      then r = r0\<lparr>r_op := CACHE_NUCLEUS_FILTER\<rparr> \<and> ms_internal s' = ms_internal s
      else (r_op r, evicted r, lru_abs (ms_internal s')) = spec_map (unat c) ob L))"
proof -
  let ?i = "ms_internal s"
  define L where "L = lru_abs ?i"
  define full where "full = (\<not> length (recent L) + card (on_way L) < unat c)"
  define hit where "hit = (ob \<in> set (recent L) \<union> on_way L)"
  have ok: "lru_ok c ?i" using mstar_relD(7) [OF assms] by simp
  have f: "full = policy_cache_is_full lru_api ?i" "hit = (policy_cache_lookup lru_api ob ?i \<noteq> None)"
    using lru_full_iff [OF ok] by (simp_all only: full_def hit_def L_def)
  from mstar_lru.mstar_access [OF assms f, of w r0] obtain r s' A' where
    m: "mstar_map lru_api ob w r0 s = Inr (0, r, s')" "mstar_rel (lru_inside c) c s' A'"
    "unat c \<le> 2 ^ 24 \<and> 100 * Suc (al_ios (ap_logic A)) < 2 ^ 32 \<longrightarrow> A' = spec_mstar (unat c) full hit ob A"
    "if spec_bars full hit ob A then r = r0\<lparr>r_op := CACHE_NUCLEUS_FILTER\<rparr> \<and> ms_internal s' = ?i
     else policy_map lru_api ob w (r0\<lparr>r_op := CACHE_NUCLEUS_FILTER\<rparr>) ?i = Inr (0, r, ms_internal s')" by blast
  have "(r_op r, evicted r, lru_abs (ms_internal s')) = spec_map (unat c) ob L" if "\<not> spec_bars full hit ob A"
    using m(4) that lru_map_refines [OF ok, of ob w "r0\<lparr>r_op := CACHE_NUCLEUS_FILTER\<rparr>"] by (auto simp: lru_calls L_def)
  then show ?thesis using m unfolding Let_def L_def [symmetric] full_def [symmetric] hit_def [symmetric] spec_bars_def [symmetric]
    by (intro exI [of _ r] exI [of _ s'] exI [of _ A']) simp
qed

theorem mstar_access_refines_witness:
  "\<exists>s A r s' A'. mstar_create 10 0 lru_create True = Inr s \<and> mstar_map lru_api 7 True zero_result s = Inr (0, r, s') \<and>
    r_op r = CACHE_NUCLEUS_NEW \<and> mstar_rel (lru_inside 10) 10 s' A' \<and> al_tabu (ap_logic A') = 19 \<and>
    al_this (ap_logic A') = [False]"
proof -
  obtain s where s: "mstar_create 10 0 lru_create True = Inr s" "lru_abs (ms_internal s) = \<lparr>recent = [], on_way = {}\<rparr>"
    "mstar_rel (lru_inside 10) 10 s \<lparr>ap_size = 9, ap_ghost = [], ap_logic = start_logic 10 True\<rparr>"
    using mstar_lru_started [of 10 0 True] by auto
  from mstar_access_refines [OF s(3), of 7 True zero_result] obtain r s' A' where
    "mstar_map lru_api 7 True zero_result s = Inr (0, r, s')" "mstar_rel (lru_inside 10) 10 s' A'"
    "A' = spec_mstar 10 False False 7 \<lparr>ap_size = 9, ap_ghost = [], ap_logic = start_logic 10 True\<rparr>"
    "(r_op r, evicted r, lru_abs (ms_internal s')) = spec_map 10 7 \<lparr>recent = [], on_way = {}\<rparr>"
    unfolding s(2) by (auto simp: start_logic_def)
  then show ?thesis using s(1)
    by (auto simp: spec_map_def spec_mstar_def spec_update_def spec_observe_def start_logic_def slide_def Let_def)
qed

text \<open>
  C23. Over M* in front of LRU or ARC, static or adaptive, with a cache of 10 to 2^32/9 blocks, the simulator with any migration delay
  below 2^31, any sampling rate but zero and without removals reads every trace without a fault: no division by
  zero in the rates, the sizes of the ghost list and the adaptation, no index outside a window, no entry
  missing in the pool of the ghost list. At the end the ghost list has between a tenth and nine tenths of the cache
  as its size, at most nine tenths as its length, and every adapted parameter is at most 1000.
\<close>
theorem mstar_simulation_total:
  assumes "plain_opts opts" "10 \<le> unat c" "9 * unat c < 2 ^ 32" "unat c \<le> unat m"
  shows "(\<exists>s st st'. mstar_create c m lru_create adaptive = Inr s \<and> sim_prep opts s = Inr st \<and>
      sim_run (mstar_api lru_api) rnd opts 1 tr st = Inr st' \<and> mstar_within c (sm_policy st') \<and>
      (opt_sampling_rate opts = 1 \<longrightarrow> accesses (sm_stats st') = of_nat (length tr))) \<and>
    (\<exists>s st st'. mstar_create c m arc_create adaptive = Inr s \<and> sim_prep opts s = Inr st \<and>
      sim_run (mstar_api arc_api) rnd opts 1 tr st = Inr st' \<and> mstar_within c (sm_policy st') \<and>
      (opt_sampling_rate opts = 1 \<longrightarrow> accesses (sm_stats st') = of_nat (length tr)))"
proof (rule conjI)
  obtain s A where s: "mstar_create c m lru_create adaptive = Inr s" "mview (mstar_api lru_api) s = Map.empty"
    "mstar_rel (lru_inside c) c s A"
    using mstar_lru_started [OF assms(2,3)] by blast
  have "mstar_ok (lru_inside c) c s" "pending (mview (mstar_api lru_api) s) = {}"
    using s(2,3) by (simp_all add: mstar_okI pending_def)
  from mstar_lru.mstar.run_from_start [where rnd = rnd and tr = tr, OF assms(1) this]
  show "\<exists>s st st'. mstar_create c m lru_create adaptive = Inr s \<and> sim_prep opts s = Inr st \<and>
      sim_run (mstar_api lru_api) rnd opts 1 tr st = Inr st' \<and> mstar_within c (sm_policy st') \<and>
      (opt_sampling_rate opts = 1 \<longrightarrow> accesses (sm_stats st') = of_nat (length tr))"
    using s(1) mstar_ok_within by blast
  obtain s A where s: "mstar_create c m arc_create adaptive = Inr s" "mview (mstar_api arc_api) s = Map.empty"
    "mstar_rel (arc_behind c m) c s A"
    using mstar_arc_started [OF assms(2-4)] by blast
  have "mstar_ok (arc_behind c m) c s" "pending (mview (mstar_api arc_api) s) = {}"
    using s(2,3) by (simp_all add: mstar_okI pending_def)
  from mstar_arc.mstar.run_from_start [where rnd = rnd and tr = tr, OF assms(1) this]
  show "\<exists>s st st'. mstar_create c m arc_create adaptive = Inr s \<and> sim_prep opts s = Inr st \<and>
      sim_run (mstar_api arc_api) rnd opts 1 tr st = Inr st' \<and> mstar_within c (sm_policy st') \<and>
      (opt_sampling_rate opts = 1 \<longrightarrow> accesses (sm_stats st') = of_nat (length tr))"
    using s(1) mstar_ok_within by blast
qed

theorem mstar_simulation_total_witness:
  "\<exists>s st st'. mstar_create 10 10 arc_create True = Inr s \<and>
    sim_prep \<lparr>opt_sampling_rate = 1, opt_migration_delay = 3, opt_remove_rate = 0\<rparr> s = Inr st \<and>
    sim_run (mstar_api arc_api) (\<lambda>_. 0) \<lparr>opt_sampling_rate = 1, opt_migration_delay = 3, opt_remove_rate = 0\<rparr> 1
      [(1, False), (2, True), (3, False), (3, False)] st = Inr st' \<and> accesses (sm_stats st') = 4"
  using mstar_simulation_total [where opts = "\<lparr>opt_sampling_rate = 1, opt_migration_delay = 3, opt_remove_rate = 0\<rparr>"
      and c = 10 and m = 10 and tr = "[(1, False), (2, True), (3, False), (3, False)]" and rnd = "\<lambda>_. 0" and adaptive = True]
  by (auto simp: plain_opts_def)

text \<open>
  C37. M* hardly ever becomes STABLE. When its decision in UNSTABLE computes with percentages, it moves to STABLE only if
  the hit rate of the state rounds to 0 per cent while the sample hits at least 20 per cent; and it always moves to UNIQUE, however
  well the sample hits, if the state has hit at least 6 per cent. The code compares the sample, in per cent, with
  the threshold of 20 to 100 per cent times the rate of the state, without the factor 100 of the other rules.
\<close>
theorem mstar_unstable_rule:
  assumes "logic_rel c l a" "exact c a" "2 * unat c < 2 ^ 32" "lo_state l = UNSTABLE"
  shows "\<exists>l'. change_if_able l = Inr l' \<and>
    (lo_state l' = STABLE \<longrightarrow>
       window_stats_average_hundredths (lo_state_stats l) = 0 \<and> 20 \<le> phase_cache_hitrate (lo_this_phase l)) \<and>
    (6 \<le> window_stats_average_hundredths (lo_state_stats l) \<longrightarrow> lo_state l' = UNIQUE)"
proof -
  note D = logic_relD [OF assms(1)]
  have st: "al_state a = UNSTABLE" using D(5) assms(4) by simp
  obtain d where d: "change_if_able l = follow d l" "d = spec_next a" using change_ok [OF assms(1)] assms(2) by blast
  from follow_ok [OF assms(1,3), of d] obtain l' where l': "follow d l = Inr l'" "logic_rel c l' (spec_follow (unat c) d a)" by blast
  have c: "100 * unat c < 2 ^ 32" "100 * al_ios a < 2 ^ 32" using assms(2) by (simp_all add: exact_def)
  have now: "unat (phase_cache_hitrate (lo_this_phase l)) = rate (al_this a)"
    using D(1) bits_rate [OF _ c(1)] by (simp add: phase_rel_def phase_cache_hitrate_def)
  have before: "unat (window_stats_average_hundredths (lo_state_stats l)) = 100 * al_hits a div al_ios a"
    by (rule count_rate [OF D(3,4) c(2)])
  have stat: "\<forall>t. al_stat a t \<le> 1000" using D(10) by (simp add: stats_rel_def)
  have state: "lo_state l' = (case spec_next a of None \<Rightarrow> UNSTABLE | Some (t, next, clear) \<Rightarrow> next)"
    using logic_relD(5) [OF l'(2)] st d(2) by (auto simp: spec_follow_def spec_transition_def split: option.split prod.split)
  have "lo_state l' = STABLE \<Longrightarrow> 100 * al_hits a div al_ios a = 0 \<and> 20 \<le> rate (al_this a)"
    using state spec_unstable [OF st D(4) stat] by (auto split: option.splits)
  moreover have "6 \<le> 100 * al_hits a div al_ios a \<Longrightarrow> lo_state l' = UNIQUE"
    using state spec_unstable_leaves [OF st] by simp
  ultimately show ?thesis using d(1) l'(1) now before by (auto simp: word_le_nat_alt unat_eq_zero)
qed

text \<open>The logic after its first access, a hit on a block of the ghost list.\<close>

lemma first_access:
  "\<exists>l. update_mstar (mstar_logic_init True 10 zero_logic) True True = Inr l \<and>
    logic_rel 10 l (spec_observe 10 True True (start_logic 10 True))"
proof -
  have "logic_rel 10 (mstar_logic_init True 10 zero_logic) (start_logic 10 True)"
    using logic_init_ok [of 10 True zero_logic] by simp
  from update_ok [OF this, of True True] obtain l a where
    "update_mstar (mstar_logic_init True 10 zero_logic) True True = Inr l" "logic_rel 10 l a"
    "a = spec_update 10 True True (start_logic 10 True)" by (auto simp: start_logic_def)
  moreover have "spec_update 10 True True (start_logic 10 True) = spec_observe 10 True True (start_logic 10 True)"
    by (simp add: spec_update_def spec_observe_def start_logic_def Let_def)
  ultimately show ?thesis by auto
qed

theorem mstar_unstable_rule_witness:
  "\<exists>l l'. update_mstar (mstar_logic_init True 10 zero_logic) True True = Inr l \<and>
    change_if_able l = Inr l' \<and> lo_state l' = UNIQUE"
proof -
  obtain l where l: "update_mstar (mstar_logic_init True 10 zero_logic) True True = Inr l"
    "logic_rel 10 l (spec_observe 10 True True (start_logic 10 True))" using first_access by blast
  note D = logic_relD [OF l(2)]
  have ex: "exact 10 (spec_observe 10 True True (start_logic 10 True))"
    by (simp add: exact_def spec_observe_def start_logic_def)
  have "unat (window_stats_average_hundredths (lo_state_stats l)) = 100"
    using count_rate [OF D(3,4)] by (simp add: spec_observe_def start_logic_def)
  then have "6 \<le> window_stats_average_hundredths (lo_state_stats l)" by (simp add: word_le_nat_alt)
  moreover have "lo_state l = UNSTABLE" using D(5) by (simp add: spec_observe_def start_logic_def)
  ultimately show ?thesis using mstar_unstable_rule [OF l(2) ex] l(1) by auto
qed

text \<open>
  When the ghost list has fewer hits than in the phase before, the adaptive M* takes its last step to UNIQUE for an
  improvement: the difference of the unsigned counters wraps around.
\<close>
theorem mstar_improvement_wraps:
  assumes "logic_rel c l a" "exact c a" "0 < c"
    "wm_sum (ps_ghost_stats (lo_this_phase l)) < wm_sum (ps_ghost_stats (lo_prev_phase l))"
  shows "transition_improved_unique l = Inr True"
proof -
  note D = logic_relD [OF assms(1)]
  obtain b where b: "was_improvement transition_improved_unique_f l = Inr b" "b = spec_improved (unat c) transition_improved_unique_f a"
    using improved_ok [OF assms(1,3), of transition_improved_unique_f] assms(2) by blast
  have "unat (wm_sum (ps_ghost_stats (lo_this_phase l))) = hits_in (al_this_ghost a)"
    "unat (wm_sum (ps_ghost_stats (lo_prev_phase l))) = hits_in (al_prev_ghost a)"
    using D(1,2) bits_sum unfolding phase_rel_def by blast+
  then have "hits_in (al_this_ghost a) < hits_in (al_prev_ghost a)" using assms(4) by (simp add: word_less_nat_alt)
  then show ?thesis using b by (simp add: was_improvement_def spec_improved_def)
qed

lemma first_transition:
  "\<exists>l l'. update_mstar (mstar_logic_init True 10 zero_logic) True True = Inr l \<and>
    state_transition_to l Unstable_unique_threshold UNIQUE False = Inr l' \<and>
    logic_rel 10 l' (spec_transition 10 Unstable_unique_threshold UNIQUE False (spec_observe 10 True True (start_logic 10 True)))"
proof -
  obtain l where l: "update_mstar (mstar_logic_init True 10 zero_logic) True True = Inr l"
    "logic_rel 10 l (spec_observe 10 True True (start_logic 10 True))" using first_access by blast
  then show ?thesis using transition_ok [OF l(2), of Unstable_unique_threshold UNIQUE False] by auto
qed

theorem mstar_improvement_wraps_witness:
  "\<exists>l l'. update_mstar (mstar_logic_init True 10 zero_logic) True True = Inr l \<and>
    state_transition_to l Unstable_unique_threshold UNIQUE False = Inr l' \<and> transition_improved_unique l' = Inr True"
proof -
  let ?a = "spec_transition 10 Unstable_unique_threshold UNIQUE False (spec_observe 10 True True (start_logic 10 True))"
  obtain l l' where l: "update_mstar (mstar_logic_init True 10 zero_logic) True True = Inr l"
    "state_transition_to l Unstable_unique_threshold UNIQUE False = Inr l'" "logic_rel 10 l' ?a" using first_transition by blast
  note D = logic_relD [OF l(3)]
  have "unat (wm_sum (ps_ghost_stats (lo_this_phase l'))) = 0" "unat (wm_sum (ps_ghost_stats (lo_prev_phase l'))) = 1"
    using D(1,2) bits_sum [of 10 "ps_ghost_stats (lo_this_phase l')" "[]"] bits_sum [of 10 "ps_ghost_stats (lo_prev_phase l')" "[True]"]
    by (simp_all add: phase_rel_def spec_transition_def spec_observe_def start_logic_def slide_def hits_in_def)
  then have "wm_sum (ps_ghost_stats (lo_this_phase l')) < wm_sum (ps_ghost_stats (lo_prev_phase l'))"
    by (simp add: word_less_nat_alt)
  moreover have "exact 10 ?a" by (simp add: exact_def spec_transition_def spec_observe_def start_logic_def)
  ultimately show ?thesis using mstar_improvement_wraps [OF l(3)] l(1,2) by auto
qed

text \<open>
  The prediction of M* is wrong outside UNSTABLE while the cache has room: it announces a filtered access for a block
  that is neither cached nor remembered, and the access enters the cache.
\<close>
theorem mstar_prediction_filters:
  assumes "mstar_rel (lru_inside c) c s A" "al_state (ap_logic A) \<noteq> UNSTABLE" "ob \<notin> set (ap_ghost A)"
    "ob \<notin> set (recent (lru_abs (ms_internal s))) \<union> on_way (lru_abs (ms_internal s))"
    "length (recent (lru_abs (ms_internal s))) + card (on_way (lru_abs (ms_internal s))) < unat c"
  shows "mstar_next_victim lru_api ob s = Inr (CACHE_NUCLEUS_FILTER, None) \<and>
    (\<exists>r s'. mstar_map lru_api ob w r0 s = Inr (0, r, s') \<and> r_op r = CACHE_NUCLEUS_NEW)"
proof -
  note D = mstar_relD [OF assms(1)]
  let ?i = "ms_internal s"
  have ok: "lru_ok c ?i" using D(7) by simp
  have f: "\<not> policy_cache_is_full lru_api ?i" "policy_cache_lookup lru_api ob ?i = None"
    using lru_full_iff [OF ok] assms(4,5) by blast+
  have "ht_lookup ob s = None" using D(9) [of ob] assms(3) by blast
  then have "mstar_next_victim lru_api ob s = Inr (CACHE_NUCLEUS_FILTER, None)"
    using f(2) assms(2) D(8) by (simp add: mstar_next_victim_def)
  moreover from mstar_lru.mstar_access [OF assms(1) refl refl, of ob w r0] obtain r s' where
    m: "mstar_map lru_api ob w r0 s = Inr (0, r, s')"
      "policy_map lru_api ob w (r0\<lparr>r_op := CACHE_NUCLEUS_FILTER\<rparr>) ?i = Inr (0, r, ms_internal s')"
    using f(1) by (auto simp: spec_bars_def)
  then have "(r_op r, evicted r, lru_abs (ms_internal s')) = spec_map (unat c) ob (lru_abs ?i)"
    using lru_map_refines [OF ok, of ob w "r0\<lparr>r_op := CACHE_NUCLEUS_FILTER\<rparr>"] by (auto simp: lru_calls)
  then have "r_op r = CACHE_NUCLEUS_NEW" using assms(4,5) by (simp add: spec_map_def)
  ultimately show ?thesis using m(1) by blast
qed

theorem mstar_prediction_filters_witness:
  "\<exists>s l r s'. mstar_create 10 0 lru_create True = Inr s \<and> lo_state l = UNIQUE \<and>
    mstar_next_victim lru_api 7 (s\<lparr>ms_logic := l\<rparr>) = Inr (CACHE_NUCLEUS_FILTER, None) \<and>
    mstar_map lru_api 7 False zero_result (s\<lparr>ms_logic := l\<rparr>) = Inr (0, r, s') \<and> r_op r = CACHE_NUCLEUS_NEW"
proof -
  let ?a = "spec_transition 10 Unstable_unique_threshold UNIQUE False (spec_observe 10 True True (start_logic 10 True))"
  obtain l where l: "logic_rel 10 l ?a" using first_transition by blast
  obtain s where s: "mstar_create 10 0 lru_create True = Inr s" "lru_abs (ms_internal s) = \<lparr>recent = [], on_way = {}\<rparr>"
    "mstar_rel (lru_inside 10) 10 s \<lparr>ap_size = 9, ap_ghost = [], ap_logic = start_logic 10 True\<rparr>"
    using mstar_lru_started [of 10 0 True] by auto
  have R: "mstar_rel (lru_inside 10) 10 (s\<lparr>ms_logic := l\<rparr>) \<lparr>ap_size = 9, ap_ghost = [], ap_logic = ?a\<rparr>"
    using s(3) l by (simp add: mstar_rel_def)
  have "lo_state l = UNIQUE" using logic_relD(5) [OF l] by (simp add: spec_transition_def)
  moreover have "mstar_next_victim lru_api 7 (s\<lparr>ms_logic := l\<rparr>) = Inr (CACHE_NUCLEUS_FILTER, None) \<and>
      (\<exists>r s'. mstar_map lru_api 7 False zero_result (s\<lparr>ms_logic := l\<rparr>) = Inr (0, r, s') \<and> r_op r = CACHE_NUCLEUS_NEW)"
    by (rule mstar_prediction_filters [OF R]) (simp_all add: s(2) spec_transition_def)
  ultimately show ?thesis using s(1) by blast
qed

end
