(* ===== verification/Trace_Reader.thy ===== *)
theory Trace_Reader
  imports Prelude
begin

text \<open>
  The trace readers (\<open>src/src/trace_reader/\<close>): how the requests of a trace, a start and a length each, become the
  accesses to single blocks that the simulator reads. A file is the list of what one \<open>fscanf\<close> after the other converts with
  the format of the reader; it ends where \<open>fscanf\<close> fails.
\<close>

section \<open>The parts the readers share\<close>

text \<open>The \<open>trace_reader\<close> of the code, its functions apart.\<close>

record 'l trace_reader =
  tr_use_duration :: bool
  tr_duration_hrs :: u32
  tr_file :: "'l list"

text \<open>\<open>struct fiu_struct\<close>, \<open>msr_struct\<close>, \<open>nexus_struct\<close> and \<open>visa_struct\<close> have the same fields.\<close>

record page_struct =
  pg_addr :: oblock
  pg_write :: bool
  pg_left :: u64
  pg_starting_time_set :: bool
  pg_starting_time :: u64
  pg_ending_time :: u64

definition page_info :: page_struct where
  "page_info = \<lparr>pg_addr = 0, pg_write = False, pg_left = 0, pg_starting_time_set = False, pg_starting_time = 0, pg_ending_time = 0\<rparr>"

type_synonym 'l page_reader = "'l trace_reader \<times> page_struct"

type_synonym access = "oblock \<times> bool"

definition page_init :: "'l list \<Rightarrow> u32 \<Rightarrow> 'l page_reader \<Rightarrow> 'l page_reader" where
  "page_init file duration_hrs = (\<lambda>(tr, info).
     let tr = tr\<lparr>tr_file := file\<rparr> in
     (if duration_hrs > 0 then tr\<lparr>tr_use_duration := True, tr_duration_hrs := duration_hrs\<rparr>
      else tr\<lparr>tr_use_duration := False\<rparr>,
      info\<lparr>pg_starting_time_set := False\<rparr>))"

text \<open>
  The loop over \<open>fscanf\<close> skips requests of size 0. A string is read into an array of 20 characters; \<open>fits\<close> says
  that it is short enough. The address is stored for the skipped ones too.
\<close>

fun scan :: "('l \<Rightarrow> bool) \<Rightarrow> ('l \<Rightarrow> oblock) \<Rightarrow> ('l \<Rightarrow> u64) \<Rightarrow> 'l list \<Rightarrow> oblock \<Rightarrow> (('l \<times> 'l list) option \<times> oblock) res" where
  "scan fits addr_of size_of [] addr = Inr (None, addr)"
| "scan fits addr_of size_of (l # ls) addr =
     (if \<not> fits l then Inl OutOfBounds
      else if size_of l = 0 then scan fits addr_of size_of ls (addr_of l)
      else Inr (Some (l, ls), addr_of l))"

definition io_fits :: "string \<Rightarrow> bool" where
  "io_fits io \<longleftrightarrow> length io < 20"

definition io_writes :: "string \<Rightarrow> bool" where
  "io_writes io = (case io of [] \<Rightarrow> False | c # _ \<Rightarrow> c = CHR ''W'')"

text \<open>The request is aligned and cut into units, the last one included if it is not full.\<close>

definition page_split :: "u64 \<Rightarrow> u64 \<Rightarrow> bool \<Rightarrow> page_struct \<Rightarrow> page_struct" where
  "page_split unit len write info =
     (let align = pg_addr info mod unit;
          info = info\<lparr>pg_addr := pg_addr info - align\<rparr>;
          len = len + align;
          info = info\<lparr>pg_write := write, pg_left := len div unit - 1\<rparr> in
      if len mod unit \<noteq> 0 then info\<lparr>pg_left := pg_left info + 1\<rparr> else info)"

text \<open>
  The check of the duration. The time of a request is \<open>ts\<close>, \<open>as_u64\<close> its conversion to 64 bits, \<open>after\<close> that time
  with an offset, \<open>exceeds\<close> its comparison with an integer.
\<close>

definition page_duration ::
  "('t \<Rightarrow> u64) \<Rightarrow> ('t \<Rightarrow> u64 \<Rightarrow> u64) \<Rightarrow> ('t \<Rightarrow> u64 \<Rightarrow> bool) \<Rightarrow> u64 \<Rightarrow> 'l trace_reader \<Rightarrow> 't \<Rightarrow> page_struct \<Rightarrow> bool \<times> page_struct" where
  "page_duration as_u64 after exceeds hour tr ts info =
     (if tr_use_duration tr then
        let info = (if \<not> pg_starting_time_set info then
                      info\<lparr>pg_starting_time := as_u64 ts, pg_ending_time := after ts (hour * ucast (tr_duration_hrs tr)),
                        pg_starting_time_set := True\<rparr> else info)
        in (exceeds ts (pg_ending_time info), info)
      else (False, info))"

text \<open>Integer times; and what the readers use of the floating-point numbers of C, as a parameter.\<close>

definition time_duration :: "u64 \<Rightarrow> 'l trace_reader \<Rightarrow> u64 \<Rightarrow> page_struct \<Rightarrow> bool \<times> page_struct" where
  "time_duration = page_duration (\<lambda>ts. ts) (+) (>)"

record 'f float_arith =
  fa_to_u64 :: "'f \<Rightarrow> u64"
  fa_plus :: "'f \<Rightarrow> u64 \<Rightarrow> 'f"
  fa_above :: "'f \<Rightarrow> u64 \<Rightarrow> bool"
  fa_less :: "'f \<Rightarrow> 'f \<Rightarrow> bool"

definition float_duration :: "'f float_arith \<Rightarrow> u64 \<Rightarrow> 'l trace_reader \<Rightarrow> 'f \<Rightarrow> page_struct \<Rightarrow> bool \<times> page_struct" where
  "float_duration F = page_duration (fa_to_u64 F) (\<lambda>ts d. fa_to_u64 F (fa_plus F ts d)) (fa_above F)"

section \<open>The readers\<close>

text \<open>\<open>basic\<close>: one block per line. The flag of the result stays what the simulator initialised it to.\<close>

definition basic_trace_init :: "oblock list \<Rightarrow> u32 \<Rightarrow> oblock trace_reader \<Rightarrow> oblock trace_reader" where
  "basic_trace_init file duration_hrs tr = tr\<lparr>tr_file := file, tr_use_duration := False\<rparr>"

definition basic_trace_read :: "oblock trace_reader \<Rightarrow> (access option \<times> oblock trace_reader) res" where
  "basic_trace_read tr =
     (case tr_file tr of [] \<Rightarrow> Inr (None, tr) | ob # rest \<Rightarrow> Inr (Some (ob, False), tr\<lparr>tr_file := rest\<rparr>))"

text \<open>\<open>fiu\<close>: times in nanoseconds, addresses and sizes in sectors, accesses in pages of 8 sectors.\<close>

record fiu_line =
  fl_ts :: u64
  fl_lba :: oblock
  fl_size :: u64
  fl_io :: string

definition FIU_BLOCKS_PER_PAGE :: u64 where "FIU_BLOCKS_PER_PAGE = 8"
definition FIU_HOUR_LENGTH :: u64 where "FIU_HOUR_LENGTH = 1000000000 * 60 * 60"

definition fiu_trace_init :: "fiu_line list \<Rightarrow> u32 \<Rightarrow> fiu_line page_reader \<Rightarrow> fiu_line page_reader" where
  "fiu_trace_init = page_init"

definition fiu_trace_read :: "fiu_line page_reader \<Rightarrow> (access option \<times> fiu_line page_reader) res" where
  "fiu_trace_read = (\<lambda>(tr, info).
     if pg_left info > 0 then
       let info = info\<lparr>pg_addr := pg_addr info + FIU_BLOCKS_PER_PAGE, pg_left := pg_left info - 1\<rparr>
       in Inr (Some (pg_addr info, pg_write info), tr, info)
     else
       rbind (scan (\<lambda>l. io_fits (fl_io l)) fl_lba fl_size (tr_file tr) (pg_addr info)) (\<lambda>(next, addr).
       let info = info\<lparr>pg_addr := addr\<rparr> in
       case next of
         None \<Rightarrow> Inr (None, tr\<lparr>tr_file := []\<rparr>, info)
       | Some (l, rest) \<Rightarrow>
           let tr = tr\<lparr>tr_file := rest\<rparr>;
               info = page_split FIU_BLOCKS_PER_PAGE (fl_size l) (io_writes (fl_io l)) info;
               (over, info) = time_duration FIU_HOUR_LENGTH tr (fl_ts l) info in
           Inr (if over then None else Some (pg_addr info, pg_write info), tr, info)))"

text \<open>\<open>msr\<close>: times in 100 nanoseconds, addresses and sizes in bytes, accesses in blocks of 512 bytes.\<close>

record msr_line =
  ml_ts :: u64
  ml_io :: char
  ml_offset :: oblock
  ml_size :: u64

definition MSR_BLOCK_SIZE :: u64 where "MSR_BLOCK_SIZE = 512"
definition MSR_HOUR_LENGTH :: u64 where "MSR_HOUR_LENGTH = 10000000 * 60 * 60"

definition msr_trace_init :: "msr_line list \<Rightarrow> u32 \<Rightarrow> msr_line page_reader \<Rightarrow> msr_line page_reader" where
  "msr_trace_init = page_init"

definition msr_trace_read :: "msr_line page_reader \<Rightarrow> (access option \<times> msr_line page_reader) res" where
  "msr_trace_read = (\<lambda>(tr, info).
     if pg_left info > 0 then
       let info = info\<lparr>pg_addr := pg_addr info + MSR_BLOCK_SIZE, pg_left := pg_left info - 1\<rparr>
       in Inr (Some (pg_addr info, pg_write info), tr, info)
     else
       rbind (scan (\<lambda>_. True) ml_offset ml_size (tr_file tr) (pg_addr info)) (\<lambda>(next, addr).
       let info = info\<lparr>pg_addr := addr\<rparr> in
       case next of
         None \<Rightarrow> Inr (None, tr\<lparr>tr_file := []\<rparr>, info)
       | Some (l, rest) \<Rightarrow>
           let tr = tr\<lparr>tr_file := rest\<rparr>;
               info = page_split MSR_BLOCK_SIZE (ml_size l) (ml_io l = CHR ''W'') info;
               (over, info) = time_duration MSR_HOUR_LENGTH tr (ml_ts l) info in
           Inr (if over then None else Some (pg_addr info, pg_write info), tr, info)))"

text \<open>\<open>visa\<close>: as \<open>fiu\<close>, with times in seconds as floating-point numbers.\<close>

record 'f visa_line =
  vl_ts :: 'f
  vl_lba :: oblock
  vl_size :: u64
  vl_io :: string

definition VISA_BLOCKS_PER_PAGE :: u64 where "VISA_BLOCKS_PER_PAGE = 8"
definition VISA_HOUR_LENGTH :: u64 where "VISA_HOUR_LENGTH = 60 * 60"

definition visa_trace_init :: "'f visa_line list \<Rightarrow> u32 \<Rightarrow> 'f visa_line page_reader \<Rightarrow> 'f visa_line page_reader" where
  "visa_trace_init = page_init"

definition visa_trace_read :: "'f float_arith \<Rightarrow> 'f visa_line page_reader \<Rightarrow> (access option \<times> 'f visa_line page_reader) res" where
  "visa_trace_read F = (\<lambda>(tr, info).
     if pg_left info > 0 then
       let info = info\<lparr>pg_addr := pg_addr info + VISA_BLOCKS_PER_PAGE, pg_left := pg_left info - 1\<rparr>
       in Inr (Some (pg_addr info, pg_write info), tr, info)
     else
       rbind (scan (\<lambda>l. io_fits (vl_io l)) vl_lba vl_size (tr_file tr) (pg_addr info)) (\<lambda>(next, addr).
       let info = info\<lparr>pg_addr := addr\<rparr> in
       case next of
         None \<Rightarrow> Inr (None, tr\<lparr>tr_file := []\<rparr>, info)
       | Some (l, rest) \<Rightarrow>
           let tr = tr\<lparr>tr_file := rest\<rparr>;
               info = page_split VISA_BLOCKS_PER_PAGE (vl_size l) (io_writes (vl_io l)) info;
               (over, info) = float_duration F VISA_HOUR_LENGTH tr (vl_ts l) info in
           Inr (if over then None else Some (pg_addr info, pg_write info), tr, info)))"

text \<open>
  \<open>nexus\<close>: the type of an access is a number; the flag for writes is set by the types 3 and 5 and never cleared. A last
  page that is not full is left out, because the sizes are said to contain an additional sector.
\<close>

record 'f nexus_line =
  nl_addr :: oblock
  nl_size :: u64
  nl_type :: u32
  nl_ts :: 'f

definition NEXUS_BLOCKS_PER_PAGE :: u64 where "NEXUS_BLOCKS_PER_PAGE = 8"
definition NEXUS_HOUR_LENGTH :: u64 where "NEXUS_HOUR_LENGTH = 1000000000 * 60 * 60"

definition nexus_trace_init :: "'f nexus_line list \<Rightarrow> u32 \<Rightarrow> 'f nexus_line page_reader \<Rightarrow> 'f nexus_line page_reader" where
  "nexus_trace_init = page_init"

definition nexus_trace_read :: "'f float_arith \<Rightarrow> 'f nexus_line page_reader \<Rightarrow> (access option \<times> 'f nexus_line page_reader) res" where
  "nexus_trace_read F = (\<lambda>(tr, info).
     if pg_left info > 0 then
       let info = info\<lparr>pg_addr := pg_addr info + NEXUS_BLOCKS_PER_PAGE, pg_left := pg_left info - 1\<rparr>
       in Inr (Some (pg_addr info, pg_write info), tr, info)
     else
       rbind (scan (\<lambda>_. True) nl_addr nl_size (tr_file tr) (pg_addr info)) (\<lambda>(next, addr).
       let info = info\<lparr>pg_addr := addr\<rparr> in
       case next of
         None \<Rightarrow> Inr (None, tr\<lparr>tr_file := []\<rparr>, info)
       | Some (l, rest) \<Rightarrow>
           let tr = tr\<lparr>tr_file := rest\<rparr>;
               align = pg_addr info mod NEXUS_BLOCKS_PER_PAGE;
               info = info\<lparr>pg_addr := pg_addr info - align\<rparr>;
               size = nl_size l + align;
               info = (if nl_type l = 5 \<or> nl_type l = 3 then info\<lparr>pg_write := True\<rparr> else info);
               info = info\<lparr>pg_left := size div NEXUS_BLOCKS_PER_PAGE - 1\<rparr>;
               (over, info) = float_duration F NEXUS_HOUR_LENGTH tr (nl_ts l) info in
           Inr (if over then None else Some (pg_addr info, pg_write info), tr, info)))"

text \<open>\<open>vscsi\<close>: the size is divided by 512 and the address counted up by one. Its times are kept as floating-point numbers.\<close>

record 'f vscsi_line =
  cl_io :: string
  cl_ts :: 'f
  cl_lba :: oblock
  cl_size :: u64

record 'f vscsi_struct =
  vs_addr :: oblock
  vs_write :: bool
  vs_left :: u64
  vs_starting_time_set :: bool
  vs_starting_time :: 'f
  vs_ending_time :: 'f

definition VSCSI_BLOCK_SIZE :: u64 where "VSCSI_BLOCK_SIZE = 512"
definition VSCSI_HOUR_LENGTH :: u64 where "VSCSI_HOUR_LENGTH = 60 * 60"

type_synonym 'f vscsi_reader = "'f vscsi_line trace_reader \<times> 'f vscsi_struct"

definition vscsi_trace_init :: "'f vscsi_line list \<Rightarrow> u32 \<Rightarrow> 'f vscsi_reader \<Rightarrow> 'f vscsi_reader" where
  "vscsi_trace_init file duration_hrs = (\<lambda>(tr, info).
     let tr = tr\<lparr>tr_file := file\<rparr> in
     (if duration_hrs > 0 then tr\<lparr>tr_use_duration := True, tr_duration_hrs := duration_hrs\<rparr>
      else tr\<lparr>tr_use_duration := False\<rparr>,
      info\<lparr>vs_starting_time_set := False\<rparr>))"

definition vscsi_split :: "u64 \<Rightarrow> bool \<Rightarrow> 'f vscsi_struct \<Rightarrow> 'f vscsi_struct" where
  "vscsi_split len write info =
     (let info = info\<lparr>vs_write := write, vs_left := len div VSCSI_BLOCK_SIZE\<rparr>;
          info = (if len mod VSCSI_BLOCK_SIZE \<noteq> 0 then info\<lparr>vs_left := vs_left info + 1\<rparr> else info)
      in info\<lparr>vs_left := vs_left info - 1\<rparr>)"

definition vscsi_duration :: "'f float_arith \<Rightarrow> 'f vscsi_line trace_reader \<Rightarrow> 'f \<Rightarrow> 'f vscsi_struct \<Rightarrow> bool \<times> 'f vscsi_struct" where
  "vscsi_duration F tr ts info =
     (if tr_use_duration tr then
        let info = (if \<not> vs_starting_time_set info then
              info\<lparr>vs_starting_time := ts, vs_ending_time := fa_plus F ts (VSCSI_HOUR_LENGTH * ucast (tr_duration_hrs tr)),
                vs_starting_time_set := True\<rparr> else info)
        in (fa_less F (vs_ending_time info) ts, info)
      else (False, info))"

definition vscsi_trace_read :: "'f float_arith \<Rightarrow> 'f vscsi_reader \<Rightarrow> (access option \<times> 'f vscsi_reader) res" where
  "vscsi_trace_read F = (\<lambda>(tr, info).
     if vs_left info > 0 then
       let info = info\<lparr>vs_addr := vs_addr info + 1, vs_left := vs_left info - 1\<rparr>
       in Inr (Some (vs_addr info, vs_write info), tr, info)
     else
       rbind (scan (\<lambda>l. io_fits (cl_io l)) cl_lba cl_size (tr_file tr) (vs_addr info)) (\<lambda>(next, addr).
       let info = info\<lparr>vs_addr := addr\<rparr> in
       case next of
         None \<Rightarrow> Inr (None, tr\<lparr>tr_file := []\<rparr>, info)
       | Some (l, rest) \<Rightarrow>
           let tr = tr\<lparr>tr_file := rest\<rparr>;
               info = vscsi_split (cl_size l) (io_writes (cl_io l)) info;
               (over, info) = vscsi_duration F tr (cl_ts l) info in
           Inr (if over then None else Some (vs_addr info, vs_write info), tr, info)))"

section \<open>The readers by name\<close>

definition tolower :: "char \<Rightarrow> char" where
  "tolower c = (if 65 \<le> (of_char c :: nat) \<and> (of_char c :: nat) \<le> 90 then char_of (of_char c + 32 :: nat) else c)"

text \<open>\<open>strncasecmp(a, b, n) == 0\<close> on strings without their terminating zeros.\<close>

definition strncasecmp_eq :: "nat \<Rightarrow> string \<Rightarrow> string \<Rightarrow> bool" where
  "strncasecmp_eq n a b \<longleftrightarrow> map tolower (take n a) = map tolower (take n b)"

definition trace_reader_names_match :: "string \<Rightarrow> string \<Rightarrow> bool" where
  "trace_reader_names_match = strncasecmp_eq 20"

datatype reader_name = basic_trace | fiu_trace | msr_trace | nexus_trace | visa_trace | vscsi_trace

definition find_trace_reader :: "string \<Rightarrow> reader_name option" where
  "find_trace_reader name =
     (if trace_reader_names_match name ''basic'' then Some basic_trace
      else if trace_reader_names_match name ''fiu'' then Some fiu_trace
      else if trace_reader_names_match name ''msr'' then Some msr_trace
      else if trace_reader_names_match name ''nexus'' then Some nexus_trace
      else if trace_reader_names_match name ''visa'' then Some visa_trace
      else if trace_reader_names_match name ''vscsi'' then Some vscsi_trace
      else None)"

text \<open>What \<open>fscanf\<close> converts from one file with each of the formats.\<close>

record 'f trace_file =
  as_basic :: "oblock list"
  as_fiu :: "fiu_line list"
  as_msr :: "msr_line list"
  as_nexus :: "'f nexus_line list"
  as_visa :: "'f visa_line list"
  as_vscsi :: "'f vscsi_line list"

datatype 'f reader =
    Basic "oblock trace_reader"
  | Fiu "fiu_line page_reader"
  | Msr "msr_line page_reader"
  | Nexus "'f nexus_line page_reader"
  | Visa "'f visa_line page_reader"
  | Vscsi "'f vscsi_reader"

definition zero_reader :: "'l trace_reader" where
  "zero_reader = \<lparr>tr_use_duration = False, tr_duration_hrs = 0, tr_file = []\<rparr>"

definition vscsi_info :: "'f \<Rightarrow> 'f vscsi_struct" where
  "vscsi_info zero = \<lparr>vs_addr = 0, vs_write = False, vs_left = 0, vs_starting_time_set = False,
     vs_starting_time = zero, vs_ending_time = zero\<rparr>"

text \<open>\<open>zero\<close> is the floating-point number 0.\<close>

definition reader_init :: "'f \<Rightarrow> reader_name \<Rightarrow> 'f trace_file \<Rightarrow> u32 \<Rightarrow> 'f reader" where
  "reader_init zero name file hrs =
     (case name of
        basic_trace \<Rightarrow> Basic (basic_trace_init (as_basic file) hrs zero_reader)
      | fiu_trace \<Rightarrow> Fiu (fiu_trace_init (as_fiu file) hrs (zero_reader, page_info))
      | msr_trace \<Rightarrow> Msr (msr_trace_init (as_msr file) hrs (zero_reader, page_info))
      | nexus_trace \<Rightarrow> Nexus (nexus_trace_init (as_nexus file) hrs (zero_reader, page_info))
      | visa_trace \<Rightarrow> Visa (visa_trace_init (as_visa file) hrs (zero_reader, page_info))
      | vscsi_trace \<Rightarrow> Vscsi (vscsi_trace_init (as_vscsi file) hrs (zero_reader, vscsi_info zero)))"

fun reader_read :: "'f float_arith \<Rightarrow> 'f reader \<Rightarrow> (access option \<times> 'f reader) res" where
  "reader_read F (Basic r) = rbind (basic_trace_read r) (\<lambda>(x, r). Inr (x, Basic r))"
| "reader_read F (Fiu r) = rbind (fiu_trace_read r) (\<lambda>(x, r). Inr (x, Fiu r))"
| "reader_read F (Msr r) = rbind (msr_trace_read r) (\<lambda>(x, r). Inr (x, Msr r))"
| "reader_read F (Nexus r) = rbind (nexus_trace_read F r) (\<lambda>(x, r). Inr (x, Nexus r))"
| "reader_read F (Visa r) = rbind (visa_trace_read F r) (\<lambda>(x, r). Inr (x, Visa r))"
| "reader_read F (Vscsi r) = rbind (vscsi_trace_read F r) (\<lambda>(x, r). Inr (x, Vscsi r))"

text \<open>All accesses of a trace: the reader is called until it reports the end.\<close>

fun reader_rest :: "'f reader \<Rightarrow> nat \<times> nat" where
  "reader_rest (Basic tr) = (length (tr_file tr), 0)"
| "reader_rest (Fiu (tr, info)) = (length (tr_file tr), unat (pg_left info))"
| "reader_rest (Msr (tr, info)) = (length (tr_file tr), unat (pg_left info))"
| "reader_rest (Nexus (tr, info)) = (length (tr_file tr), unat (pg_left info))"
| "reader_rest (Visa (tr, info)) = (length (tr_file tr), unat (pg_left info))"
| "reader_rest (Vscsi (tr, info)) = (length (tr_file tr), unat (vs_left info))"

lemma scan_shorter: "scan f a s ls addr = Inr (Some (l, rest), addr') \<Longrightarrow> length rest < length ls"
  by (induction f a s ls addr rule: scan.induct) (auto split: if_splits)

lemma unat_pred: "0 < (x :: u64) \<Longrightarrow> unat (x - 1) < unat x"
  by (simp add: unat_minus_one word_gt_0 unat_gt_0)

text \<open>The four readers with pages do the same with different units and lines.\<close>

definition page_read ::
  "u64 \<Rightarrow> ('l \<Rightarrow> bool) \<Rightarrow> ('l \<Rightarrow> oblock) \<Rightarrow> ('l \<Rightarrow> u64) \<Rightarrow> ('l \<Rightarrow> page_struct \<Rightarrow> page_struct) \<Rightarrow>
    ('l trace_reader \<Rightarrow> 'l \<Rightarrow> page_struct \<Rightarrow> bool \<times> page_struct) \<Rightarrow> 'l page_reader \<Rightarrow> (access option \<times> 'l page_reader) res" where
  "page_read unit fits addr_of size_of part dur = (\<lambda>(tr, info).
     if pg_left info > 0 then
       Inr (Some (pg_addr info + unit, pg_write info), tr, info\<lparr>pg_addr := pg_addr info + unit, pg_left := pg_left info - 1\<rparr>)
     else
       rbind (scan fits addr_of size_of (tr_file tr) (pg_addr info)) (\<lambda>(next, addr).
       case next of
         None \<Rightarrow> Inr (None, tr\<lparr>tr_file := []\<rparr>, info\<lparr>pg_addr := addr\<rparr>)
       | Some (l, rest) \<Rightarrow>
           let r = dur (tr\<lparr>tr_file := rest\<rparr>) l (part l (info\<lparr>pg_addr := addr\<rparr>)) in
           Inr (if fst r then None else Some (pg_addr (snd r), pg_write (snd r)), tr\<lparr>tr_file := rest\<rparr>, snd r)))"

definition nexus_cut :: "'f nexus_line \<Rightarrow> page_struct \<Rightarrow> page_struct" where
  "nexus_cut l info = (let align = pg_addr info mod NEXUS_BLOCKS_PER_PAGE;
     info = info\<lparr>pg_addr := pg_addr info - align\<rparr>;
     info = (if nl_type l = 5 \<or> nl_type l = 3 then info\<lparr>pg_write := True\<rparr> else info) in
     info\<lparr>pg_left := (nl_size l + align) div NEXUS_BLOCKS_PER_PAGE - 1\<rparr>)"

lemma fiu_read_eq: "fiu_trace_read = page_read FIU_BLOCKS_PER_PAGE (\<lambda>l. io_fits (fl_io l)) fl_lba fl_size
    (\<lambda>l. page_split FIU_BLOCKS_PER_PAGE (fl_size l) (io_writes (fl_io l))) (\<lambda>tr l. time_duration FIU_HOUR_LENGTH tr (fl_ts l))"
  by (simp add: fiu_trace_read_def page_read_def Let_def case_prod_beta cong: option.case_cong if_cong)

lemma msr_read_eq: "msr_trace_read = page_read MSR_BLOCK_SIZE (\<lambda>_. True) ml_offset ml_size
    (\<lambda>l. page_split MSR_BLOCK_SIZE (ml_size l) (ml_io l = CHR ''W'')) (\<lambda>tr l. time_duration MSR_HOUR_LENGTH tr (ml_ts l))"
  by (simp add: msr_trace_read_def page_read_def Let_def case_prod_beta cong: option.case_cong if_cong)

lemma visa_read_eq: "visa_trace_read F = page_read VISA_BLOCKS_PER_PAGE (\<lambda>l. io_fits (vl_io l)) vl_lba vl_size
    (\<lambda>l. page_split VISA_BLOCKS_PER_PAGE (vl_size l) (io_writes (vl_io l))) (\<lambda>tr l. float_duration F VISA_HOUR_LENGTH tr (vl_ts l))"
  by (simp add: visa_trace_read_def page_read_def Let_def case_prod_beta cong: option.case_cong if_cong)

lemma nexus_read_eq: "nexus_trace_read F = page_read NEXUS_BLOCKS_PER_PAGE (\<lambda>_. True) nl_addr nl_size nexus_cut
    (\<lambda>tr l. float_duration F NEXUS_HOUR_LENGTH tr (nl_ts l))"
  by (simp add: nexus_trace_read_def page_read_def nexus_cut_def Let_def case_prod_beta cong: option.case_cong if_cong)

lemma page_read_rest:
  assumes "page_read u f a s pt dur (tr, info) = Inr (Some x, tr', info')"
  shows "length (tr_file tr') < length (tr_file tr) \<or> tr' = tr \<and> unat (pg_left info') < unat (pg_left info)"
proof (cases "pg_left info > 0")
  case True
  then show ?thesis using assms by (auto simp: page_read_def unat_pred)
next
  case False
  let ?s = "scan f a s (tr_file tr) (pg_addr info)"
  obtain l rest addr where sc: "?s = Inr (Some (l, rest), addr)"
    using assms False by (cases ?s) (auto simp: page_read_def split: option.split_asm)
  have "tr' = tr\<lparr>tr_file := rest\<rparr>" using assms False by (simp add: page_read_def sc Let_def)
  then show ?thesis using scan_shorter [OF sc] by simp
qed

lemma reader_read_rest:
  assumes "reader_read F r = Inr (Some x, r')"
  shows "(reader_rest r', reader_rest r) \<in> less_than <*lex*> less_than"
proof (cases r)
  case (Basic tr)
  then show ?thesis using assms by (auto simp: basic_trace_read_def split: list.splits)
next
  case (Fiu p)
  then show ?thesis using assms by (cases p) (auto simp: fiu_read_eq dest: page_read_rest)
next
  case (Msr p)
  then show ?thesis using assms by (cases p) (auto simp: msr_read_eq dest: page_read_rest)
next
  case (Nexus p)
  then show ?thesis using assms by (cases p) (auto simp: nexus_read_eq dest: page_read_rest)
next
  case (Visa p)
  then show ?thesis using assms by (cases p) (auto simp: visa_read_eq dest: page_read_rest)
next
  case (Vscsi p)
  obtain tr info where p: "p = (tr, info)" by (cases p)
  show ?thesis
  proof (cases "vs_left info > 0")
    case True
    then show ?thesis using assms unfolding Vscsi p by (auto simp: vscsi_trace_read_def unat_pred Let_def)
  next
    case False
    let ?s = "scan (\<lambda>l. io_fits (cl_io l)) cl_lba cl_size (tr_file tr) (vs_addr info)"
    obtain l rest addr where sc: "?s = Inr (Some (l, rest), addr)"
      using assms False unfolding Vscsi p
      by (cases ?s) (auto simp: vscsi_trace_read_def Let_def split: option.split_asm)
    have "\<exists>info'. r' = Vscsi (tr\<lparr>tr_file := rest\<rparr>, info')"
      using assms False unfolding Vscsi p by (force simp: vscsi_trace_read_def sc Let_def case_prod_beta)
    then show ?thesis using scan_shorter [OF sc] unfolding Vscsi p by auto
  qed
qed

function read_all :: "'f float_arith \<Rightarrow> 'f reader \<Rightarrow> access list res" where
  "read_all F r =
     rbind (reader_read F r) (\<lambda>(next, r).
     case next of None \<Rightarrow> Inr [] | Some x \<Rightarrow> rbind (read_all F r) (\<lambda>xs. Inr (x # xs)))"
  by pat_completeness auto

termination
  by (relation "inv_image (less_than <*lex*> less_than) (\<lambda>(F, r). reader_rest r)") (auto dest: reader_read_rest)

declare read_all.simps [simp del]

end
