(* ===== verification/Trace_Props.thy ===== *)
theory Trace_Props
  imports Trace_Reader
begin

text \<open>What the trace readers read: the pages of the requested sectors, request after request.\<close>

declare split_paired_All [simp del] split_paired_Ex [simp del]

section \<open>The pages of a request\<close>

text \<open>The units that the sectors \<open>a\<close> to \<open>a + n - 1\<close> are in, each once.\<close>

definition page_accesses :: "nat \<Rightarrow> bool \<Rightarrow> nat \<Rightarrow> nat \<Rightarrow> access list" where
  "page_accesses u w a n = map (\<lambda>i. (of_nat (u * i), w)) (remdups_adj (map (\<lambda>k. k div u) [a..<a + n]))"

lemma div_Suc_cases: "0 < u \<Longrightarrow> Suc x div u = x div u \<or> Suc x div u = Suc (x div u)" for u :: nat
  by (simp add: div_Suc)

lemma remdups_div:
  assumes "0 < u"
  shows "remdups_adj (map (\<lambda>k. k div u) [a..<a + Suc n]) = [a div u..<Suc ((a + n) div u)]"
proof (induction n)
  case (Suc n)
  have m: "map (\<lambda>k. k div u) [a..<a + Suc (Suc n)] = map (\<lambda>k. k div u) [a..<a + n] @ [(a + n) div u, Suc (a + n) div u]" by simp
  have "a div u \<le> (a + n) div u" by (simp add: div_le_mono)
  then show ?case unfolding m remdups_adj_append_two using Suc div_Suc_cases [OF assms, of "a + n"] by auto
qed simp

lemma units_le: "0 < u \<Longrightarrow> N div u + (if N mod u = 0 then 0 else 1) \<le> N" for u N :: nat
proof -
  assume "0 < u"
  then have "N div u \<le> u * (N div u)" by simp
  moreover have "u * (N div u) + N mod u = N" by simp
  moreover have "(if N mod u = 0 then 0 else 1) \<le> N mod u" by simp
  ultimately show ?thesis by linarith
qed

text \<open>In words: the aligned start, and one unit after the other.\<close>

lemma page_count:
  fixes u :: nat
  assumes "0 < u" "0 < n"
  shows "Suc ((a + (n - 1)) div u) - a div u = (n + a mod u) div u + (if (n + a mod u) mod u = 0 then 0 else 1)"
proof -
  have a: "a = a div u * u + a mod u" by simp
  have "a + (n - 1) = a div u * u + (n + a mod u - 1)" using assms(2) a by linarith
  then have d: "(a + (n - 1)) div u = a div u + (n + a mod u - 1) div u"
    using assms(1) by (metis add.commute div_mult_self1 neq0_conv)
  obtain x where x: "n + a mod u = Suc x" using assms(2) by (cases "n + a mod u") auto
  have "Suc (x div u) = Suc x div u + (if Suc x mod u = 0 then 0 else 1)"
    using assms(1) by (simp add: div_Suc)
  then show ?thesis unfolding d x by simp
qed

lemma page_accesses_words:
  assumes u: "0 < unat u" and n: "0 < unat n" and small: "unat a + unat n < 2 ^ 64"
  shows "page_accesses (unat u) w (unat a) (unat n) = (a - a mod u, w) #
    map (\<lambda>i. (a - a mod u + u * of_nat (Suc i), w)) [0..<unat ((n + a mod u) div u - 1 + (if (n + a mod u) mod u \<noteq> 0 then 1 else 0))]"
proof -
  have le: "unat a mod unat u \<le> unat a" by simp
  have "unat n + unat a mod unat u < 2 ^ 64" using small le by linarith
  then have s: "unat (n + a mod u) = unat n + unat a mod unat u"
    by (subst unat_add_small) (simp_all add: unat_mod_distrib)
  have start: "a - a mod u = of_nat (unat u * (unat a div unat u))"
  proof (rule word_unat_eq_iff [THEN iffD2])
    have "unat (a - a mod u) = unat a - unat a mod unat u"
      by (subst unat_sub) (simp_all add: word_le_nat_alt unat_mod_distrib)
    moreover have "unat (of_nat (unat u * (unat a div unat u)) :: u64) = unat u * (unat a div unat u)"
      using unat_less_exp [of a] by (intro unat_of_nat_small) (simp add: order_le_less_trans [OF times_div_less_eq_dividend])
    ultimately show "unat (a - a mod u) = unat (of_nat (unat u * (unat a div unat u)) :: u64)"
      by (simp add: minus_mod_eq_mult_div)
  qed
  let ?q = "(n + a mod u) div u" let ?N = "unat n + unat a mod unat u"
  have q: "unat ?q = ?N div unat u" "unat ((n + a mod u) mod u) = ?N mod unat u"
    by (simp_all add: s unat_div_distrib unat_mod_distrib)
  define k where "k = ?N div unat u + (if ?N mod unat u = 0 then 0 else 1)"
  have kpos: "0 < k" using n u by (auto simp: k_def div_greater_zero_iff dest: dvd_imp_le)
  have nz: "(n + a mod u) mod u \<noteq> 0 \<longleftrightarrow> ?N mod unat u \<noteq> 0" using q(2) by (simp add: unat_eq_zero [symmetric])
  have kle: "k \<le> ?N" unfolding k_def by (rule units_le [OF u])
  have w: "?q - 1 + (if (n + a mod u) mod u \<noteq> 0 then 1 else 0) = of_nat (k - 1)"
  proof -
    have "?q = of_nat (?N div unat u)" using q(1) by (simp flip: q(1))
    moreover have "(of_nat (k - 1) :: u64) = of_nat k - 1" using kpos by (simp add: of_nat_diff)
    ultimately show ?thesis unfolding nz by (simp add: k_def)
  qed
  have "k - 1 < 2 ^ 64" using kle small le by linarith
  then have left: "unat (?q - 1 + (if (n + a mod u) mod u \<noteq> 0 then 1 else 0)) = k - 1"
    unfolding w by (intro unat_of_nat_small) simp
  obtain n' where n': "unat n = Suc n'" using n by (cases "unat n") auto
  have cnt: "Suc ((unat a + n') div unat u) - unat a div unat u = k"
    using page_count [OF u n, of "unat a"] by (simp add: n' k_def)
  have up: "[unat a div unat u..<Suc ((unat a + n') div unat u)] = map (\<lambda>i. unat a div unat u + i) [0..<k]"
    unfolding cnt [symmetric] by (rule nth_equalityI) (auto simp del: upt_Suc)
  have k1: "[0..<k] = 0 # map Suc [0..<k - 1]" using kpos by (simp add: upt_conv_Cons map_Suc_upt)
  show ?thesis unfolding left page_accesses_def n' remdups_div [OF u] up k1
    by (simp add: start distrib_left comp_def)
qed

text \<open>The requests that are read: without the empty ones, up to the first that is later than the duration after the first one.\<close>

definition timely :: "('l \<Rightarrow> u64) \<Rightarrow> ('l \<Rightarrow> 'l \<Rightarrow> bool) \<Rightarrow> u32 \<Rightarrow> 'l list \<Rightarrow> 'l list" where
  "timely size_of beyond hrs ls =
     (let ls = filter (\<lambda>l. size_of l \<noteq> 0) ls in takeWhile (\<lambda>l. hrs = 0 \<or> \<not> beyond (hd ls) l) ls)"

section \<open>Readers with pages\<close>

text \<open>
  A reader that is \<open>page_read\<close>, with any way of cutting a request. \<open>time_of\<close> is the time of a line; \<open>as_u64\<close>, \<open>after\<close> and
  \<open>exceeds\<close> are the arithmetic on times.
\<close>

locale page_format =
  fixes F :: "'f float_arith" and wrap :: "'l page_reader \<Rightarrow> 'f reader" and unit :: u64
    and fits :: "'l \<Rightarrow> bool" and addr_of :: "'l \<Rightarrow> oblock" and size_of :: "'l \<Rightarrow> u64" and part :: "'l \<Rightarrow> page_struct \<Rightarrow> page_struct"
    and time_of :: "'l \<Rightarrow> 't" and as_u64 :: "'t \<Rightarrow> u64" and after :: "'t \<Rightarrow> u64 \<Rightarrow> u64" and exceeds :: "'t \<Rightarrow> u64 \<Rightarrow> bool" and hour :: u64
  assumes read_wrap: "reader_read F (wrap r) =
    rbind (page_read unit fits addr_of size_of part (\<lambda>tr l. page_duration as_u64 after exceeds hour tr (time_of l)) r) (\<lambda>(x, r). Inr (x, wrap r))"
    and part_time: "pg_starting_time_set (part l i) = pg_starting_time_set i" "pg_ending_time (part l i) = pg_ending_time i"
begin

text \<open>The units that are left of a request come one after the other.\<close>

lemma read_left:
  "read_all F (wrap (tr, i)) = rbind (read_all F (wrap (tr, i\<lparr>pg_addr := pg_addr i + unit * pg_left i, pg_left := 0\<rparr>)))
     (\<lambda>xs. Inr (map (\<lambda>k. (pg_addr i + unit * of_nat (Suc k), pg_write i)) [0..<unat (pg_left i)] @ xs))"
proof (induction "unat (pg_left i)" arbitrary: i)
  case 0
  then have "pg_left i = 0" by (simp add: unat_eq_0)
  then show ?case by (cases i) simp
next
  case (Suc n)
  let ?i = "i\<lparr>pg_addr := pg_addr i + unit, pg_left := pg_left i - 1\<rparr>"
  have pos: "pg_left i > 0" using Suc.hyps(2) by (simp add: word_gt_0_no unat_gt_0 word_neq_0_conv [symmetric]) (metis nat.simps(3) unat_eq_0)
  have n: "n = unat (pg_left ?i)" using Suc.hyps(2) pos by (simp add: unat_minus_one word_gt_0)
  have last: "?i\<lparr>pg_addr := pg_addr ?i + unit * pg_left ?i, pg_left := 0\<rparr> = i\<lparr>pg_addr := pg_addr i + unit * pg_left i, pg_left := 0\<rparr>"
    by (simp add: algebra_simps)
  have eq: "(pg_addr i + unit, pg_write i) # map (\<lambda>k. (pg_addr ?i + unit * of_nat (Suc k), pg_write i)) [0..<n] @ xs =
      map (\<lambda>k. (pg_addr i + unit * of_nat (Suc k), pg_write i)) [0..<unat (pg_left i)] @ xs" for xs
    unfolding Suc.hyps(2) [symmetric] upt_conv_Cons [OF zero_less_Suc] map_Suc_upt [symmetric] by (simp add: algebra_simps)
  have "read_all F (wrap (tr, i)) = rbind (read_all F (wrap (tr, ?i))) (\<lambda>xs. Inr ((pg_addr i + unit, pg_write i) # xs))"
    using pos by (subst read_all.simps) (simp add: read_wrap page_read_def)
  also have "\<dots> = rbind (read_all F (wrap (tr, i\<lparr>pg_addr := pg_addr i + unit * pg_left i, pg_left := 0\<rparr>)))
      (\<lambda>xs. Inr ((pg_addr i + unit, pg_write i) # map (\<lambda>k. (pg_addr ?i + unit * of_nat (Suc k), pg_write i)) [0..<n] @ xs))"
    unfolding Suc.hyps(1) [OF n, unfolded last] by (simp add: rbind_assoc n)
  finally show ?case unfolding eq .
qed

text \<open>Lines of size 0 are skipped, and the file may end.\<close>

lemma read_end: "pg_left i = 0 \<Longrightarrow> tr_file tr = [] \<Longrightarrow> read_all F (wrap (tr, i)) = Inr []"
  by (subst read_all.simps) (simp add: read_wrap page_read_def)

lemma read_skip:
  assumes "pg_left i = 0" "tr_file tr = l # ls" "fits l" "size_of l = 0"
  shows "read_all F (wrap (tr, i)) = read_all F (wrap (tr\<lparr>tr_file := ls\<rparr>, i\<lparr>pg_addr := addr_of l\<rparr>))"
  by (subst (1 2) read_all.simps) (use assms in \<open>simp add: read_wrap page_read_def cong: option.case_cong\<close>)

text \<open>A request that is within the duration.\<close>

definition ending :: "'l trace_reader \<Rightarrow> 'l \<Rightarrow> page_struct \<Rightarrow> page_struct" where
  "ending tr l i = snd (page_duration as_u64 after exceeds hour tr (time_of l) i)"

definition late :: "'l trace_reader \<Rightarrow> 'l \<Rightarrow> page_struct \<Rightarrow> bool" where
  "late tr l i \<longleftrightarrow> tr_use_duration tr \<and>
     exceeds (time_of l) (if pg_starting_time_set i then pg_ending_time i else after (time_of l) (hour * ucast (tr_duration_hrs tr)))"

lemma ending_fields:
  "pg_addr (ending tr l i) = pg_addr i" "pg_write (ending tr l i) = pg_write i" "pg_left (ending tr l i) = pg_left i"
  "tr_use_duration tr \<Longrightarrow> pg_starting_time_set (ending tr l i)"
  "tr_use_duration tr \<Longrightarrow> pg_ending_time (ending tr l i) =
    (if pg_starting_time_set i then pg_ending_time i else after (time_of l) (hour * ucast (tr_duration_hrs tr)))"
  "fst (page_duration as_u64 after exceeds hour tr (time_of l) i) = late tr l i"
  by (simp_all add: ending_def late_def page_duration_def Let_def)

lemma read_late:
  assumes "pg_left i = 0" "tr_file tr = l # ls" "fits l" "size_of l \<noteq> 0" "late tr l i"
  shows "read_all F (wrap (tr, i)) = Inr []"
proof -
  have "late (tr\<lparr>tr_file := ls\<rparr>) l (part l (i\<lparr>pg_addr := addr_of l\<rparr>))" using assms(5) by (auto simp: late_def part_time split: if_splits)
  then show ?thesis using assms(1-4)
    by (subst read_all.simps) (simp add: read_wrap page_read_def Let_def ending_fields(6))
qed

lemma read_line:
  assumes "pg_left i = 0" "tr_file tr = l # ls" "fits l" "size_of l \<noteq> 0" "\<not> late tr l i"
  shows "read_all F (wrap (tr, i)) =
    (let j = part l (i\<lparr>pg_addr := addr_of l\<rparr>) in
     rbind (read_all F (wrap (tr\<lparr>tr_file := ls\<rparr>, (ending (tr\<lparr>tr_file := ls\<rparr>) l j)
         \<lparr>pg_addr := pg_addr j + unit * pg_left j, pg_left := 0\<rparr>)))
       (\<lambda>xs. Inr ((pg_addr j, pg_write j) # map (\<lambda>k. (pg_addr j + unit * of_nat (Suc k), pg_write j)) [0..<unat (pg_left j)] @ xs)))"
proof -
  let ?j = "part l (i\<lparr>pg_addr := addr_of l\<rparr>)" and ?tr = "tr\<lparr>tr_file := ls\<rparr>"
  have nl: "\<not> late ?tr l ?j" using assms(5) by (auto simp: late_def part_time split: if_splits)
  have "read_all F (wrap (tr, i)) = rbind (read_all F (wrap (?tr, ending ?tr l ?j))) (\<lambda>xs. Inr ((pg_addr ?j, pg_write ?j) # xs))"
    using assms(1-4) nl
    by (subst read_all.simps) (simp add: read_wrap page_read_def Let_def ending_fields(6) ending_fields(1,2) ending_def [symmetric])
  then show ?thesis unfolding read_left [of ?tr "ending ?tr l ?j"] Let_def by (simp add: rbind_assoc ending_fields(1-3))
qed

end

text \<open>A reader that cuts with \<open>page_split\<close>.\<close>

locale split_format = page_format F wrap unit fits addr_of size_of "\<lambda>l. page_split unit (size_of l) (write_of l)" time_of as_u64 after exceeds hour
  for F :: "'f float_arith" and wrap :: "'l page_reader \<Rightarrow> 'f reader" and unit :: u64
    and fits :: "'l \<Rightarrow> bool" and addr_of :: "'l \<Rightarrow> oblock" and size_of :: "'l \<Rightarrow> u64" and write_of :: "'l \<Rightarrow> bool"
    and time_of :: "'l \<Rightarrow> 't" and as_u64 :: "'t \<Rightarrow> u64" and after :: "'t \<Rightarrow> u64 \<Rightarrow> u64" and exceeds :: "'t \<Rightarrow> u64 \<Rightarrow> bool" and hour :: u64 +
  assumes unit: "0 < unat unit"
begin

definition pages :: "'l \<Rightarrow> access list" where
  "pages l = page_accesses (unat unit) (write_of l) (unat (addr_of l)) (unat (size_of l))"

lemma split_fields:
  "pg_addr (page_split unit n w i) = pg_addr i - pg_addr i mod unit" "pg_write (page_split unit n w i) = w"
  "pg_left (page_split unit n w i) =
    (n + pg_addr i mod unit) div unit - 1 + (if (n + pg_addr i mod unit) mod unit \<noteq> 0 then 1 else 0)"
  "pg_starting_time_set (page_split unit n w i) = pg_starting_time_set i" "pg_ending_time (page_split unit n w i) = pg_ending_time i"
  by (simp_all add: page_split_def Let_def)

lemma read_request:
  assumes "pg_left i = 0" "tr_file tr = l # ls" "fits l" "size_of l \<noteq> 0" "\<not> late tr l i"
    and small: "unat (addr_of l) + unat (size_of l) < 2 ^ 64"
  shows "\<exists>i'. pg_left i' = 0 \<and> (tr_use_duration tr \<longrightarrow> pg_starting_time_set i' \<and> pg_ending_time i' =
      (if pg_starting_time_set i then pg_ending_time i else after (time_of l) (hour * ucast (tr_duration_hrs tr)))) \<and>
    read_all F (wrap (tr, i)) = rbind (read_all F (wrap (tr\<lparr>tr_file := ls\<rparr>, i'))) (\<lambda>xs. Inr (pages l @ xs))"
proof -
  let ?j = "page_split unit (size_of l) (write_of l) (i\<lparr>pg_addr := addr_of l\<rparr>)" and ?tr = "tr\<lparr>tr_file := ls\<rparr>"
  let ?i = "(ending ?tr l ?j)\<lparr>pg_addr := pg_addr ?j + unit * pg_left ?j, pg_left := 0\<rparr>"
  have n: "0 < unat (size_of l)" using assms(4) by (simp add: unat_gt_0)
  have p: "(pg_addr ?j, pg_write ?j) # map (\<lambda>k. (pg_addr ?j + unit * of_nat (Suc k), pg_write ?j)) [0..<unat (pg_left ?j)] = pages l"
    unfolding split_fields pages_def page_accesses_words [OF unit n small] by simp
  have "read_all F (wrap (tr, i)) = rbind (read_all F (wrap (?tr, ?i))) (\<lambda>xs. Inr (pages l @ xs))"
    unfolding read_line [OF assms(1-5)] Let_def p [symmetric] append_Cons ..
  moreover have "tr_use_duration tr \<longrightarrow> pg_starting_time_set ?i \<and> pg_ending_time ?i =
      (if pg_starting_time_set i then pg_ending_time i else after (time_of l) (hour * ucast (tr_duration_hrs tr)))"
    by (simp add: ending_fields split_fields)
  moreover have "pg_left ?i = 0" by simp
  ultimately show ?thesis by blast
qed

lemma read_started:
  assumes "\<forall>l \<in> set (tr_file tr). fits l \<and> unat (addr_of l) + unat (size_of l) < 2 ^ 64"
  shows "pg_left i = 0 \<Longrightarrow> (tr_use_duration tr \<Longrightarrow> pg_starting_time_set i \<and> pg_ending_time i = e) \<Longrightarrow>
    read_all F (wrap (tr, i)) = Inr (concat (map pages (takeWhile (\<lambda>l. \<not> (tr_use_duration tr \<and> exceeds (time_of l) e))
      (filter (\<lambda>l. size_of l \<noteq> 0) (tr_file tr)))))"
  using assms
proof (induction "tr_file tr" arbitrary: tr i)
  case Nil
  then show ?case using read_end [OF Nil.prems(1)] by simp
next
  case (Cons l ls)
  let ?tr = "tr\<lparr>tr_file := ls\<rparr>"
  have f: "tr_file tr = l # ls" using Cons.hyps(2) by simp
  have l: "fits l" "unat (addr_of l) + unat (size_of l) < 2 ^ 64" using Cons.prems(3) f by auto
  have rest: "\<forall>l \<in> set (tr_file ?tr). fits l \<and> unat (addr_of l) + unat (size_of l) < 2 ^ 64" using Cons.prems(3) f by auto
  show ?case
  proof (cases "size_of l = 0")
    case True
    have "read_all F (wrap (tr, i)) = read_all F (wrap (?tr, i\<lparr>pg_addr := addr_of l\<rparr>))" by (rule read_skip [OF Cons.prems(1) f l(1) True])
    also have "\<dots> = Inr (concat (map pages (takeWhile (\<lambda>l. \<not> (tr_use_duration ?tr \<and> exceeds (time_of l) e))
        (filter (\<lambda>l. size_of l \<noteq> 0) (tr_file ?tr)))))"
      by (rule Cons.hyps(1)) (use Cons.prems(1,2) rest in auto)
    finally show ?thesis using True by (simp add: f)
  next
    case False
    show ?thesis
    proof (cases "late tr l i")
      case True
      then have "tr_use_duration tr \<and> exceeds (time_of l) e" using Cons.prems(2) by (auto simp: late_def)
      then show ?thesis using read_late [OF Cons.prems(1) f l(1) False True] False by (simp add: f)
    next
      case nl: False
      from read_request [OF Cons.prems(1) f l(1) False nl l(2)] obtain i' where
        i': "pg_left i' = 0" "tr_use_duration tr \<longrightarrow> pg_starting_time_set i' \<and> pg_ending_time i' =
          (if pg_starting_time_set i then pg_ending_time i else after (time_of l) (hour * ucast (tr_duration_hrs tr)))"
        "read_all F (wrap (tr, i)) = rbind (read_all F (wrap (?tr, i'))) (\<lambda>xs. Inr (pages l @ xs))" by blast
      have "read_all F (wrap (?tr, i')) = Inr (concat (map pages (takeWhile (\<lambda>l. \<not> (tr_use_duration ?tr \<and> exceeds (time_of l) e))
        (filter (\<lambda>l. size_of l \<noteq> 0) (tr_file ?tr)))))"
        by (rule Cons.hyps(1)) (use Cons.prems(2) i'(1,2) rest in auto)
      moreover have "\<not> (tr_use_duration tr \<and> exceeds (time_of l) e)" using nl Cons.prems(2) by (auto simp: late_def)
      ultimately show ?thesis using False by (simp add: i'(3) f)
    qed
  qed
qed

abbreviation "beyond hrs first l \<equiv> exceeds (time_of l) (after (time_of first) (hour * ucast hrs))"

lemma read_from_start:
  assumes "\<forall>l \<in> set ls. fits l \<and> unat (addr_of l) + unat (size_of l) < 2 ^ 64"
  shows "read_all F (wrap (page_init ls hrs (zero_reader, page_info))) = Inr (concat (map pages (timely size_of (beyond hrs) hrs ls)))"
proof -
  have skip: "\<forall>l \<in> set ls. fits l \<and> unat (addr_of l) + unat (size_of l) < 2 ^ 64 \<Longrightarrow> tr_file tr = ls \<Longrightarrow> tr_use_duration tr \<Longrightarrow>
    pg_left i = 0 \<Longrightarrow> \<not> pg_starting_time_set i \<Longrightarrow> tr_duration_hrs tr = hrs \<Longrightarrow> 0 < hrs \<Longrightarrow>
    read_all F (wrap (tr, i)) = Inr (concat (map pages (timely size_of (beyond hrs) hrs ls)))" for tr i ls
  proof (induction ls arbitrary: tr i)
    case Nil
    then show ?case using read_end [of i tr] by (simp add: timely_def)
  next
    case (Cons l ls)
    let ?tr = "tr\<lparr>tr_file := ls\<rparr>" and ?e = "after (time_of l) (hour * ucast hrs)"
    have l: "fits l" "unat (addr_of l) + unat (size_of l) < 2 ^ 64" using Cons.prems(1) by auto
    have hn: "hrs \<noteq> 0" using Cons.prems(7) by auto
    show ?case
    proof (cases "size_of l = 0")
      case True
      have "read_all F (wrap (tr, i)) = read_all F (wrap (?tr, i\<lparr>pg_addr := addr_of l\<rparr>))"
        by (rule read_skip [OF Cons.prems(4,2) l(1) True])
      also have "\<dots> = Inr (concat (map pages (timely size_of (beyond hrs) hrs ls)))" by (rule Cons.IH) (use Cons.prems in simp_all)
      finally show ?thesis using True by (simp add: timely_def)
    next
      case False
      show ?thesis
      proof (cases "late tr l i")
        case True
        then have "exceeds (time_of l) ?e" using Cons.prems(5,6) by (simp add: late_def)
        then show ?thesis using read_late [OF Cons.prems(4,2) l(1) False True] False hn by (simp add: timely_def)
      next
        case nl: False
        from read_request [OF Cons.prems(4,2) l(1) False nl l(2)] Cons.prems(3,5,6) obtain i' where
          i': "pg_left i' = 0" "pg_starting_time_set i'" "pg_ending_time i' = ?e"
          "read_all F (wrap (tr, i)) = rbind (read_all F (wrap (?tr, i'))) (\<lambda>xs. Inr (pages l @ xs))" by auto
        have "read_all F (wrap (?tr, i')) = Inr (concat (map pages (takeWhile (\<lambda>l. \<not> (tr_use_duration ?tr \<and> exceeds (time_of l) ?e))
          (filter (\<lambda>l. size_of l \<noteq> 0) (tr_file ?tr)))))"
          by (rule read_started) (use Cons.prems(1) i'(1-3) in simp_all)
        moreover have "\<not> exceeds (time_of l) ?e" using nl Cons.prems(3,5,6) by (simp add: late_def)
        ultimately show ?thesis using False Cons.prems(3) hn by (simp add: i'(4) timely_def)
      qed
    qed
  qed
  show ?thesis
  proof (cases "hrs = 0")
    case True
    then show ?thesis using read_started [of "zero_reader\<lparr>tr_file := ls, tr_use_duration := False\<rparr>" page_info] assms
      by (simp add: page_init_def page_info_def timely_def Let_def zero_reader_def)
  next
    case False
    then show ?thesis using skip [OF assms, of "zero_reader\<lparr>tr_file := ls, tr_use_duration := True, tr_duration_hrs := hrs\<rparr>"]
      by (simp add: page_init_def page_info_def word_gt_0)
  qed
qed

end

section \<open>The readers\<close>

interpretation fiu: split_format F Fiu FIU_BLOCKS_PER_PAGE "\<lambda>l. io_fits (fl_io l)" fl_lba fl_size "\<lambda>l. io_writes (fl_io l)"
  fl_ts "\<lambda>ts. ts" "(+)" "(>)" FIU_HOUR_LENGTH for F
  by unfold_locales (simp_all add: fiu_read_eq time_duration_def page_split_def Let_def FIU_BLOCKS_PER_PAGE_def)

interpretation msr: split_format F Msr MSR_BLOCK_SIZE "\<lambda>_. True" ml_offset ml_size "\<lambda>l. ml_io l = CHR ''W''"
  ml_ts "\<lambda>ts. ts" "(+)" "(>)" MSR_HOUR_LENGTH for F
  by unfold_locales (simp_all add: msr_read_eq time_duration_def page_split_def Let_def MSR_BLOCK_SIZE_def)

interpretation visa: split_format F Visa VISA_BLOCKS_PER_PAGE "\<lambda>l. io_fits (vl_io l)" vl_lba vl_size "\<lambda>l. io_writes (vl_io l)"
  vl_ts "fa_to_u64 F" "\<lambda>ts d. fa_to_u64 F (fa_plus F ts d)" "fa_above F" VISA_HOUR_LENGTH for F
  by unfold_locales (simp_all add: visa_read_eq float_duration_def page_split_def Let_def VISA_BLOCKS_PER_PAGE_def)

interpretation nexus: page_format F Nexus NEXUS_BLOCKS_PER_PAGE "\<lambda>_. True" nl_addr nl_size nexus_cut
  nl_ts "fa_to_u64 F" "\<lambda>ts d. fa_to_u64 F (fa_plus F ts d)" "fa_above F" NEXUS_HOUR_LENGTH for F
  by unfold_locales (simp_all add: nexus_read_eq float_duration_def nexus_cut_def Let_def)

text \<open>Whole numbers as one arithmetic of times.\<close>

definition whole_times :: "u64 float_arith" where
  "whole_times = \<lparr>fa_to_u64 = (\<lambda>x. x), fa_plus = (+), fa_above = (>), fa_less = (<)\<rparr>"

definition no_file :: "'f trace_file" where
  "no_file = \<lparr>as_basic = [], as_fiu = [], as_msr = [], as_nexus = [], as_visa = [], as_vscsi = []\<rparr>"

lemma page_units: "unat FIU_BLOCKS_PER_PAGE = 8" "unat MSR_BLOCK_SIZE = 512" "unat VISA_BLOCKS_PER_PAGE = 8"
  by (simp_all add: FIU_BLOCKS_PER_PAGE_def MSR_BLOCK_SIZE_def VISA_BLOCKS_PER_PAGE_def)

section \<open>Properties\<close>

text \<open>
  C39. The readers \<open>fiu\<close>, \<open>msr\<close> and \<open>visa\<close> turn a trace into the accesses to the pages of its requests: for each request of
  at least one sector, in their order, every page (8 sectors, or 512 bytes in \<open>msr\<close>) that contains a requested sector
  is read exactly once, in ascending order, with the kind of the request; and with a duration reading stops at the
  first request that is later than it. It holds when no address exceeds 64 bits and the words for the
  kind of access fit their buffer.
\<close>
theorem trace_readers_pages:
  "((\<forall>l \<in> set (as_fiu file). length (fl_io l) < 20 \<and> unat (fl_lba l) + unat (fl_size l) < 2 ^ 64) \<longrightarrow>
      read_all F (reader_init z fiu_trace file hrs) = Inr (concat (map
        (\<lambda>l. page_accesses 8 (io_writes (fl_io l)) (unat (fl_lba l)) (unat (fl_size l)))
        (timely fl_size (\<lambda>first l. fl_ts l > fl_ts first + FIU_HOUR_LENGTH * ucast hrs) hrs (as_fiu file))))) \<and>
    ((\<forall>l \<in> set (as_msr file). unat (ml_offset l) + unat (ml_size l) < 2 ^ 64) \<longrightarrow>
      read_all F (reader_init z msr_trace file hrs) = Inr (concat (map
        (\<lambda>l. page_accesses 512 (ml_io l = CHR ''W'') (unat (ml_offset l)) (unat (ml_size l)))
        (timely ml_size (\<lambda>first l. ml_ts l > ml_ts first + MSR_HOUR_LENGTH * ucast hrs) hrs (as_msr file))))) \<and>
    ((\<forall>l \<in> set (as_visa file). length (vl_io l) < 20 \<and> unat (vl_lba l) + unat (vl_size l) < 2 ^ 64) \<longrightarrow>
      read_all F (reader_init z visa_trace file hrs) = Inr (concat (map
        (\<lambda>l. page_accesses 8 (io_writes (vl_io l)) (unat (vl_lba l)) (unat (vl_size l)))
        (timely vl_size (\<lambda>first l. fa_above F (vl_ts l) (fa_to_u64 F (fa_plus F (vl_ts first) (VISA_HOUR_LENGTH * ucast hrs))))
          hrs (as_visa file)))))"
proof (intro conjI)
  show "(\<forall>l \<in> set (as_fiu file). length (fl_io l) < 20 \<and> unat (fl_lba l) + unat (fl_size l) < 2 ^ 64) \<longrightarrow>
      read_all F (reader_init z fiu_trace file hrs) = Inr (concat (map
        (\<lambda>l. page_accesses 8 (io_writes (fl_io l)) (unat (fl_lba l)) (unat (fl_size l)))
        (timely fl_size (\<lambda>first l. fl_ts l > fl_ts first + FIU_HOUR_LENGTH * ucast hrs) hrs (as_fiu file))))"
    using fiu.read_from_start [of "as_fiu file" F hrs, unfolded fiu.pages_def page_units]
    by (simp add: reader_init_def fiu_trace_init_def io_fits_def)
  show "(\<forall>l \<in> set (as_msr file). unat (ml_offset l) + unat (ml_size l) < 2 ^ 64) \<longrightarrow>
      read_all F (reader_init z msr_trace file hrs) = Inr (concat (map
        (\<lambda>l. page_accesses 512 (ml_io l = CHR ''W'') (unat (ml_offset l)) (unat (ml_size l)))
        (timely ml_size (\<lambda>first l. ml_ts l > ml_ts first + MSR_HOUR_LENGTH * ucast hrs) hrs (as_msr file))))"
    using msr.read_from_start [of "as_msr file" F hrs, unfolded msr.pages_def page_units]
    by (simp add: reader_init_def msr_trace_init_def)
  show "(\<forall>l \<in> set (as_visa file). length (vl_io l) < 20 \<and> unat (vl_lba l) + unat (vl_size l) < 2 ^ 64) \<longrightarrow>
      read_all F (reader_init z visa_trace file hrs) = Inr (concat (map
        (\<lambda>l. page_accesses 8 (io_writes (vl_io l)) (unat (vl_lba l)) (unat (vl_size l)))
        (timely vl_size (\<lambda>first l. fa_above F (vl_ts l) (fa_to_u64 F (fa_plus F (vl_ts first) (VISA_HOUR_LENGTH * ucast hrs))))
          hrs (as_visa file))))"
    using visa.read_from_start [of "as_visa file" F hrs, unfolded visa.pages_def page_units]
    by (simp add: reader_init_def visa_trace_init_def io_fits_def)
qed

theorem trace_readers_pages_witness:
  "read_all whole_times (reader_init 0 fiu_trace (no_file\<lparr>as_fiu := [\<lparr>fl_ts = 5, fl_lba = 30, fl_size = 12, fl_io = ''W''\<rparr>,
      \<lparr>fl_ts = 6, fl_lba = 7, fl_size = 0, fl_io = ''R''\<rparr>, \<lparr>fl_ts = 9, fl_lba = 16, fl_size = 8, fl_io = ''R''\<rparr>]\<rparr>) 0) =
    Inr [(24, True), (32, True), (40, True), (16, False)]"
proof -
  let ?ls = "[\<lparr>fl_ts = 5, fl_lba = 30, fl_size = 12, fl_io = ''W''\<rparr>,
      \<lparr>fl_ts = 6, fl_lba = 7, fl_size = 0, fl_io = ''R''\<rparr>, \<lparr>fl_ts = 9, fl_lba = 16, fl_size = 8, fl_io = ''R''\<rparr>]"
  have p: "page_accesses 8 True 30 12 = [(24, True), (32, True), (40, True)]" "page_accesses 8 False 16 8 = [(16, False)]"
    by (simp_all add: page_accesses_def upt_rec)
  have "read_all whole_times (reader_init 0 fiu_trace (no_file\<lparr>as_fiu := ?ls\<rparr>) 0) = Inr (concat (map
        (\<lambda>l. page_accesses 8 (io_writes (fl_io l)) (unat (fl_lba l)) (unat (fl_size l)))
        (timely fl_size (\<lambda>first l. fl_ts l > fl_ts first + FIU_HOUR_LENGTH * ucast (0 :: u32)) 0 ?ls)))"
    using trace_readers_pages [of "no_file\<lparr>as_fiu := ?ls\<rparr>" whole_times 0 0] by (simp add: no_file_def)
  then show ?thesis by (simp add: timely_def p io_writes_def)
qed

text \<open>
  C40. The reader \<open>nexus\<close> runs away at a request that is not longer than its part of one page: the number of pages left
  is counted down from 0 to 2^64 - 1, and the reader returns 2^64 accesses, eight sectors apart modulo 2^64, before it
  reads the next line.
\<close>
theorem nexus_small_request:
  assumes "tr_file tr = l # ls" "\<not> tr_use_duration tr" "pg_left info = 0"
    and "0 < nl_size l" "unat (nl_addr l) mod 8 + unat (nl_size l) < 8"
  shows "\<exists>xs info'. read_all F (Nexus (tr, info)) = rbind (read_all F (Nexus (tr\<lparr>tr_file := ls\<rparr>, info'))) (\<lambda>ys. Inr (xs @ ys)) \<and>
    pg_left info' = 0 \<and> length xs = 2 ^ 64 \<and> (\<forall>k < 2 ^ 64. fst (xs ! k) = nl_addr l - nl_addr l mod 8 + 8 * of_nat k)"
proof -
  let ?j = "nexus_cut l (info\<lparr>pg_addr := nl_addr l\<rparr>)"
  have nl: "\<not> nexus.late F tr l info" using assms(2) by (simp add: nexus.late_def)
  have nz: "nl_size l \<noteq> 0" using assms(4) by auto
  have "unat (nl_size l + nl_addr l mod 8) < 8"
    using assms(5) by (subst unat_add_small) (simp_all add: unat_mod_distrib)
  then have "(nl_size l + nl_addr l mod 8) div 8 = 0" by (simp add: word_unat_eq_iff unat_div_distrib)
  then have j: "pg_left ?j = - 1" "pg_addr ?j = nl_addr l - nl_addr l mod 8"
    by (simp_all add: nexus_cut_def Let_def NEXUS_BLOCKS_PER_PAGE_def)
  have n: "unat (pg_left ?j) = 2 ^ 64 - 1" unfolding j by (simp add: unsigned_minus_1_eq_mask mask_eq_exp_minus_1)
  define N where "N = (2 :: nat) ^ 64 - 1"
  define xs where "xs = (pg_addr ?j, pg_write ?j) # map (\<lambda>k. (pg_addr ?j + NEXUS_BLOCKS_PER_PAGE * of_nat (Suc k), pg_write ?j)) [0..<N]"
  let ?tr = "tr\<lparr>tr_file := ls\<rparr>"
  let ?i = "(nexus.ending F ?tr l ?j)\<lparr>pg_addr := pg_addr ?j + NEXUS_BLOCKS_PER_PAGE * pg_left ?j, pg_left := 0\<rparr>"
  have "read_all F (Nexus (tr, info)) = rbind (read_all F (Nexus (?tr, ?i))) (\<lambda>ys. Inr (xs @ ys))"
    unfolding nexus.read_line [OF assms(3,1) TrueI nz nl] Let_def n N_def [symmetric] xs_def append_Cons ..
  moreover have "pg_left ?i = 0" by simp
  moreover have "length xs = 2 ^ 64" by (simp add: xs_def N_def)
  moreover have "fst (xs ! k) = nl_addr l - nl_addr l mod 8 + 8 * of_nat k" if "k < 2 ^ 64" for k
  proof (cases k)
    case (Suc i)
    then have "i < N" using that by (simp add: N_def)
    then show ?thesis using Suc by (simp add: xs_def j NEXUS_BLOCKS_PER_PAGE_def)
  qed (simp add: xs_def j)
  ultimately show ?thesis by blast
qed

theorem nexus_small_request_witness:
  "\<exists>xs. read_all whole_times (Nexus (zero_reader\<lparr>tr_file := [\<lparr>nl_addr = 17, nl_size = 1, nl_type = 3, nl_ts = 0\<rparr>]\<rparr>, page_info)) = Inr xs \<and>
    length xs = 2 ^ 64 \<and> fst (xs ! 3) = 40"
proof -
  let ?l = "\<lparr>nl_addr = 17, nl_size = 1, nl_type = 3, nl_ts = 0\<rparr>"
  obtain xs i where x: "read_all whole_times (Nexus (zero_reader\<lparr>tr_file := [?l]\<rparr>, page_info)) =
      rbind (read_all whole_times (Nexus ((zero_reader\<lparr>tr_file := [?l]\<rparr>)\<lparr>tr_file := []\<rparr>, i))) (\<lambda>ys. Inr (xs @ ys))" "pg_left i = 0" "length xs = 2 ^ 64"
    "\<forall>k < 2 ^ 64. fst (xs ! k) = nl_addr ?l - nl_addr ?l mod 8 + 8 * of_nat k"
    using nexus_small_request [of "zero_reader\<lparr>tr_file := [?l]\<rparr>" ?l "[]" page_info whole_times] by (auto simp: zero_reader_def page_info_def)
  have "read_all whole_times (Nexus ((zero_reader\<lparr>tr_file := [?l]\<rparr>)\<lparr>tr_file := []\<rparr>, i)) = Inr []"
    by (rule nexus.read_end [OF x(2)]) simp
  moreover have "(3 :: nat) < 2 ^ 64" by simp
  then have "fst (xs ! 3) = 40" using x(4) by fastforce
  ultimately show ?thesis using x(1,3) by simp
qed

end
