(* ===== verification/Registry.thy ===== *)
theory Registry
  imports Trace_Reader Lru Larc Arc Lfu Lirs Marc Fomo Mstar
begin

text \<open>
  The registry of the policies (\<open>src/src/policy_registry/policy_registry.h\<close>): the functions that create a policy in front of
  another, and the search for a function by its name. A pointer to a function is a value of \<open>policy_id\<close>.
\<close>

section \<open>Policies in front of others\<close>

text \<open>\<open>marc_create\<close> of the code, whose internal policy is always ARC.\<close>

abbreviation marc_arc_create :: "cblock \<Rightarrow> cblock \<Rightarrow> arc_policy marc_policy res" where
  "marc_arc_create csize msize \<equiv> marc_create csize msize arc_create"

definition mstar_arc_create where "mstar_arc_create csize msize = mstar_create csize msize arc_create False"
definition mstar_arc_lw_create where "mstar_arc_lw_create csize msize = mstar_create csize msize arc_create True"
definition mstar_larc_create where "mstar_larc_create csize msize = mstar_create csize msize larc_create False"
definition mstar_larc_lw_create where "mstar_larc_lw_create csize msize = mstar_create csize msize larc_create True"
definition mstar_lfu_create where "mstar_lfu_create csize msize = mstar_create csize msize lfu_create False"
definition mstar_lfu_lw_create where "mstar_lfu_lw_create csize msize = mstar_create csize msize lfu_create True"
definition mstar_lirs_create where "mstar_lirs_create csize msize = mstar_create csize msize lirs_create False"
definition mstar_lirs_lw_create where "mstar_lirs_lw_create csize msize = mstar_create csize msize lirs_create True"
definition mstar_lru_create where "mstar_lru_create csize msize = mstar_create csize msize lru_create False"
definition mstar_lru_lw_create where "mstar_lru_lw_create csize msize = mstar_create csize msize lru_create True"
definition mstar_marc_create where "mstar_marc_create csize msize = mstar_create csize msize marc_arc_create False"
definition mstar_marc_lw_create where "mstar_marc_lw_create csize msize = mstar_create csize msize marc_arc_create True"

definition fomo_arc_create where "fomo_arc_create csize msize = fomo_create csize msize arc_create"
definition fomo_larc_create where "fomo_larc_create csize msize = fomo_create csize msize larc_create"
definition fomo_lfu_create where "fomo_lfu_create csize msize = fomo_create csize msize lfu_create"
definition fomo_lirs_create where "fomo_lirs_create csize msize = fomo_create csize msize lirs_create"
definition fomo_lru_create where "fomo_lru_create csize msize = fomo_create csize msize lru_create"
definition fomo_marc_create where "fomo_marc_create csize msize = fomo_create csize msize marc_arc_create"

lemmas registry_creates =
  mstar_arc_create_def mstar_arc_lw_create_def mstar_larc_create_def mstar_larc_lw_create_def
  mstar_lfu_create_def mstar_lfu_lw_create_def mstar_lirs_create_def mstar_lirs_lw_create_def
  mstar_lru_create_def mstar_lru_lw_create_def mstar_marc_create_def mstar_marc_lw_create_def
  fomo_arc_create_def fomo_larc_create_def fomo_lfu_create_def fomo_lirs_create_def fomo_lru_create_def fomo_marc_create_def

section \<open>The search\<close>

datatype base_policy = ARC | LARC | LFU | LIRS | LRU | MARC

text \<open>A policy of its own, behind M* (static or adaptive), behind FOMO.\<close>

datatype policy_id = Plain base_policy | Mstar base_policy bool | Fomo base_policy

definition POLICY_NAME_MAX_LENGTH :: nat where "POLICY_NAME_MAX_LENGTH = 60"

definition policy_name_match :: "string \<Rightarrow> string \<Rightarrow> bool" where
  "policy_name_match name_a name_b = strncasecmp_eq POLICY_NAME_MAX_LENGTH name_a name_b"

definition find_policy :: "string \<Rightarrow> policy_id option" where
  "find_policy name =
     (if policy_name_match name ''arc'' then Some (Plain ARC)
      else if policy_name_match name ''larc'' then Some (Plain LARC)
      else if policy_name_match name ''lfu'' then Some (Plain LFU)
      else if policy_name_match name ''lirs'' then Some (Plain LIRS)
      else if policy_name_match name ''lru'' then Some (Plain LRU)
      else if policy_name_match name ''marc'' then Some (Plain MARC)
      else if policy_name_match name ''mstar_arc'' then Some (Mstar ARC False)
      else if policy_name_match name ''mstar_arc_lw'' then Some (Mstar ARC True)
      else if policy_name_match name ''mstar_larc'' then Some (Mstar LARC False)
      else if policy_name_match name ''mstar_larc_lw'' then Some (Mstar LARC True)
      else if policy_name_match name ''mstar_lfu'' then Some (Mstar LFU False)
      else if policy_name_match name ''mstar_lfu_lw'' then Some (Mstar LFU True)
      else if policy_name_match name ''mstar_lirs'' then Some (Mstar LIRS False)
      else if policy_name_match name ''mstar_lirs_lw'' then Some (Mstar LIRS True)
      else if policy_name_match name ''mstar_lru'' then Some (Mstar LRU False)
      else if policy_name_match name ''mstar_lru_lw'' then Some (Mstar LRU True)
      else if policy_name_match name ''mstar_marc'' then Some (Mstar MARC False)
      else if policy_name_match name ''mstar_marc_lw'' then Some (Mstar MARC True)
      else if policy_name_match name ''fomo_arc'' then Some (Fomo ARC)
      else if policy_name_match name ''fomo_larc'' then Some (Fomo LARC)
      else if policy_name_match name ''fomo_lfu'' then Some (Fomo LFU)
      else if policy_name_match name ''fomo_lirs'' then Some (Fomo LIRS)
      else if policy_name_match name ''fomo_lru'' then Some (Fomo LRU)
      else if policy_name_match name ''fomo_marc'' then Some (Fomo MARC)
      else None)"

section \<open>How a policy is spelled\<close>

fun base_spelling :: "base_policy \<Rightarrow> string" where
  "base_spelling ARC = ''arc''"
| "base_spelling LARC = ''larc''"
| "base_spelling LFU = ''lfu''"
| "base_spelling LIRS = ''lirs''"
| "base_spelling LRU = ''lru''"
| "base_spelling MARC = ''marc''"

fun spelling :: "policy_id \<Rightarrow> string" where
  "spelling (Plain b) = base_spelling b"
| "spelling (Mstar b adaptive) = ''mstar_'' @ base_spelling b @ (if adaptive then ''_lw'' else [])"
| "spelling (Fomo b) = ''fomo_'' @ base_spelling b"

text \<open>The names differ, and they are in lower case and short.\<close>

lemma base_spelling_eq [simp]: "base_spelling b = base_spelling b' \<longleftrightarrow> b = b'"
  by (cases b; cases b') simp_all

lemma base_spelling_lw: "base_spelling b @ ''_lw'' \<noteq> base_spelling b'" "base_spelling b' \<noteq> base_spelling b @ ''_lw''"
  by (cases b; cases b'; simp)+

lemma base_spelling_start: "base_spelling b \<noteq> ''mstar_'' @ x" "base_spelling b \<noteq> ''fomo_'' @ x"
  by (cases b; simp)+

lemma fronts_differ: "''mstar_'' @ x \<noteq> ''fomo_'' @ y" by simp

lemma spelling_eq: "spelling n = spelling n' \<longleftrightarrow> n = n'"
  by (cases n; cases n')
    (use base_spelling_start base_spelling_start [symmetric] base_spelling_lw fronts_differ fronts_differ [symmetric]
      in \<open>auto simp del: append.simps\<close>)

definition folded_name :: "string \<Rightarrow> string" where
  "folded_name s = map tolower (take 60 s)"

lemma folded_base: "map tolower (base_spelling b) = base_spelling b" "length (base_spelling b) \<le> 4"
  by (cases b; simp add: tolower_def)+

lemma folded_spelling: "folded_name (spelling n) = spelling n"
proof -
  have "map tolower (spelling n) = spelling n" by (cases n) (simp_all add: folded_base(1) tolower_def)
  moreover have "length (spelling n) \<le> 60"
    by (cases n) (use folded_base(2) [THEN order_trans] in \<open>simp_all add: order_trans\<close>)
  ultimately show ?thesis by (simp add: folded_name_def)
qed

lemma policy_name_match_spelling: "policy_name_match s (spelling n) \<longleftrightarrow> folded_name s = spelling n"
  using folded_spelling [of n] by (simp add: policy_name_match_def strncasecmp_eq_def POLICY_NAME_MAX_LENGTH_def folded_name_def)

lemmas policy_name_matches =
  policy_name_match_spelling [where n = "Plain ARC", simplified]
  policy_name_match_spelling [where n = "Plain LARC", simplified]
  policy_name_match_spelling [where n = "Plain LFU", simplified]
  policy_name_match_spelling [where n = "Plain LIRS", simplified]
  policy_name_match_spelling [where n = "Plain LRU", simplified]
  policy_name_match_spelling [where n = "Plain MARC", simplified]
  policy_name_match_spelling [where n = "Mstar ARC False", simplified]
  policy_name_match_spelling [where n = "Mstar ARC True", simplified]
  policy_name_match_spelling [where n = "Mstar LARC False", simplified]
  policy_name_match_spelling [where n = "Mstar LARC True", simplified]
  policy_name_match_spelling [where n = "Mstar LFU False", simplified]
  policy_name_match_spelling [where n = "Mstar LFU True", simplified]
  policy_name_match_spelling [where n = "Mstar LIRS False", simplified]
  policy_name_match_spelling [where n = "Mstar LIRS True", simplified]
  policy_name_match_spelling [where n = "Mstar LRU False", simplified]
  policy_name_match_spelling [where n = "Mstar LRU True", simplified]
  policy_name_match_spelling [where n = "Mstar MARC False", simplified]
  policy_name_match_spelling [where n = "Mstar MARC True", simplified]
  policy_name_match_spelling [where n = "Fomo ARC", simplified]
  policy_name_match_spelling [where n = "Fomo LARC", simplified]
  policy_name_match_spelling [where n = "Fomo LFU", simplified]
  policy_name_match_spelling [where n = "Fomo LIRS", simplified]
  policy_name_match_spelling [where n = "Fomo LRU", simplified]
  policy_name_match_spelling [where n = "Fomo MARC", simplified]

lemma find_policy_Some: "find_policy s = Some n \<longleftrightarrow> folded_name s = spelling n"
proof
  show "find_policy s = Some n \<Longrightarrow> folded_name s = spelling n"
    unfolding find_policy_def policy_name_matches by (auto split: if_splits)
  assume "folded_name s = spelling n"
  then have "\<forall>n'. policy_name_match s (spelling n') \<longleftrightarrow> n' = n" by (auto simp: policy_name_match_spelling spelling_eq)
  then have m: "(policy_name_match s (spelling (Plain ARC)) \<longleftrightarrow> Plain ARC = n) \<and>
    (policy_name_match s (spelling (Plain LARC)) \<longleftrightarrow> Plain LARC = n) \<and>
    (policy_name_match s (spelling (Plain LFU)) \<longleftrightarrow> Plain LFU = n) \<and>
    (policy_name_match s (spelling (Plain LIRS)) \<longleftrightarrow> Plain LIRS = n) \<and>
    (policy_name_match s (spelling (Plain LRU)) \<longleftrightarrow> Plain LRU = n) \<and>
    (policy_name_match s (spelling (Plain MARC)) \<longleftrightarrow> Plain MARC = n) \<and>
    (policy_name_match s (spelling (Mstar ARC False)) \<longleftrightarrow> Mstar ARC False = n) \<and>
    (policy_name_match s (spelling (Mstar ARC True)) \<longleftrightarrow> Mstar ARC True = n) \<and>
    (policy_name_match s (spelling (Mstar LARC False)) \<longleftrightarrow> Mstar LARC False = n) \<and>
    (policy_name_match s (spelling (Mstar LARC True)) \<longleftrightarrow> Mstar LARC True = n) \<and>
    (policy_name_match s (spelling (Mstar LFU False)) \<longleftrightarrow> Mstar LFU False = n) \<and>
    (policy_name_match s (spelling (Mstar LFU True)) \<longleftrightarrow> Mstar LFU True = n) \<and>
    (policy_name_match s (spelling (Mstar LIRS False)) \<longleftrightarrow> Mstar LIRS False = n) \<and>
    (policy_name_match s (spelling (Mstar LIRS True)) \<longleftrightarrow> Mstar LIRS True = n) \<and>
    (policy_name_match s (spelling (Mstar LRU False)) \<longleftrightarrow> Mstar LRU False = n) \<and>
    (policy_name_match s (spelling (Mstar LRU True)) \<longleftrightarrow> Mstar LRU True = n) \<and>
    (policy_name_match s (spelling (Mstar MARC False)) \<longleftrightarrow> Mstar MARC False = n) \<and>
    (policy_name_match s (spelling (Mstar MARC True)) \<longleftrightarrow> Mstar MARC True = n) \<and>
    (policy_name_match s (spelling (Fomo ARC)) \<longleftrightarrow> Fomo ARC = n) \<and>
    (policy_name_match s (spelling (Fomo LARC)) \<longleftrightarrow> Fomo LARC = n) \<and>
    (policy_name_match s (spelling (Fomo LFU)) \<longleftrightarrow> Fomo LFU = n) \<and>
    (policy_name_match s (spelling (Fomo LIRS)) \<longleftrightarrow> Fomo LIRS = n) \<and>
    (policy_name_match s (spelling (Fomo LRU)) \<longleftrightarrow> Fomo LRU = n) \<and>
    (policy_name_match s (spelling (Fomo MARC)) \<longleftrightarrow> Fomo MARC = n)" by blast
  show "find_policy s = Some n"
    by (cases n rule: spelling.cases; cases "case n of Plain b \<Rightarrow> b | Mstar b _ \<Rightarrow> b | Fomo b \<Rightarrow> b"; use m in \<open>simp add: find_policy_def\<close>)
qed

end
