(* ===== verification/Wrapper.thy ===== *)
theory Wrapper
  imports Registry
begin

text \<open>
  The wrappers around the policies (\<open>src/src/include/alg_wrapper.h\<close>, \<open>*_wrapper.c\<close>) and their registry
  (\<open>policy_registry/wrapper_registry.h\<close>): a wrapper is a policy with flags that say what to print of it. The flags are set by
  their names, in a list separated by commas.
\<close>

section \<open>Flags by name\<close>

text \<open>An \<open>alg_field\<close> is the name of a flag and its value. The result 0 means that the name is known.\<close>

type_synonym alg_field = "string \<times> bool"

fun alg_field_set :: "string \<Rightarrow> alg_field list \<Rightarrow> int \<times> alg_field list" where
  "alg_field_set ident [] = (- 1, [])"
| "alg_field_set ident ((f, b) # fs) =
     (if ident = f then (0, (f, True) # fs)
      else let (r, fs) = alg_field_set ident fs in (r, (f, b) # fs))"

text \<open>The loop over the copy of the string; \<open>tmp\<close> is what was read since the last comma.\<close>

fun read_fields :: "string \<Rightarrow> string \<Rightarrow> alg_field list \<Rightarrow> int \<times> alg_field list" where
  "read_fields tmp [] fs = alg_field_set tmp fs"
| "read_fields tmp (c # str) fs =
     (if c = CHR '','' then
        let (r, fs) = alg_field_set tmp fs in
        if r \<noteq> 0 then (r, fs) else read_fields [] str fs
      else read_fields (tmp @ [c]) str fs)"

definition alg_wrapper_read :: "string \<Rightarrow> alg_field list \<Rightarrow> int \<times> alg_field list" where
  "alg_wrapper_read fields_str fs = read_fields [] fields_str fs"

section \<open>The wrappers\<close>

text \<open>What is printed: a line of numbers, the chain of blocks of a queue, the help.\<close>

datatype printed = Numbers "u32 list" | Chain "oblock list" | Usage

text \<open>The numbers of the enumerations of the states.\<close>

fun fomo_state_number :: "fomo_state \<Rightarrow> u32" where
  "fomo_state_number FOMO_FILTER = 0"
| "fomo_state_number FOMO_INSERT = 1"

fun marc_state_number :: "marc_state \<Rightarrow> u32" where
  "marc_state_number marc_state.UNSTABLE = 0"
| "marc_state_number marc_state.STABLE = 1"
| "marc_state_number marc_state.UNIQUE = 2"

fun mstar_state_number :: "mstar_state_id \<Rightarrow> u32" where
  "mstar_state_number mstar_state_id.STABLE = 0"
| "mstar_state_number mstar_state_id.UNSTABLE = 1"
| "mstar_state_number mstar_state_id.UNIQUE = 2"

text \<open>The wrapper of LRU prints its queue. The first block is read through the head of the queue without a test.\<close>

record lru_wrapper =
  lru_w_policy :: "lru_policy"
  lru_w_q :: bool

definition lru_wrapper_init :: "string option \<Rightarrow> lru_wrapper \<Rightarrow> int \<times> lru_wrapper" where
  "lru_wrapper_init fields_str w =
     (case fields_str of
        None \<Rightarrow> (0, w)
      | Some str \<Rightarrow> let (r, fs) = alg_wrapper_read str [(''lru_q'', lru_w_q w)] in (r, w\<lparr>lru_w_q := snd (fs ! 0)\<rparr>))"

definition lru_wrapper_print :: "lru_wrapper \<Rightarrow> printed list res" where
  "lru_wrapper_print w = (if lru_w_q w then
       (let lru = lru_w_policy w in
        rbind (deref (q_peek (lru_q lru))) (\<lambda>_. Inr [Chain (map (\<lambda>e. e_oblock (store lru e)) (lru_q lru))]))
     else Inr [])"

definition lru_wrapper_create :: "cblock \<Rightarrow> cblock \<Rightarrow> lru_wrapper res" where
  "lru_wrapper_create csize msize =
     rbind (lru_create csize msize) (\<lambda>cn. Inr \<lparr>lru_w_policy = cn, lru_w_q = False\<rparr>)"

text \<open>ARC: the target of T1.\<close>

record arc_wrapper =
  arc_w_policy :: "arc_policy"
  arc_w_p :: bool

definition arc_wrapper_init :: "string option \<Rightarrow> arc_wrapper \<Rightarrow> int \<times> arc_wrapper" where
  "arc_wrapper_init fields_str w =
     (case fields_str of
        None \<Rightarrow> (0, w)
      | Some str \<Rightarrow> let (r, fs) = alg_wrapper_read str [(''p'', arc_w_p w)] in (r, w\<lparr>arc_w_p := snd (fs ! 0)\<rparr>))"

definition arc_wrapper_print :: "arc_wrapper \<Rightarrow> printed list res" where
  "arc_wrapper_print w = Inr (if arc_w_p w then [Numbers [arc_p (arc_w_policy w)]] else [])"

definition arc_wrapper_create :: "cblock \<Rightarrow> cblock \<Rightarrow> arc_wrapper res" where
  "arc_wrapper_create csize msize =
     rbind (arc_create csize msize) (\<lambda>cn. Inr \<lparr>arc_w_policy = cn, arc_w_p = False\<rparr>)"

text \<open>LARC: the size of the ghost queue.\<close>

record larc_wrapper =
  larc_w_policy :: "larc_policy"
  larc_w_g_size :: bool

definition larc_wrapper_init :: "string option \<Rightarrow> larc_wrapper \<Rightarrow> int \<times> larc_wrapper" where
  "larc_wrapper_init fields_str w =
     (case fields_str of
        None \<Rightarrow> (0, w)
      | Some str \<Rightarrow> let (r, fs) = alg_wrapper_read str [(''g_size'', larc_w_g_size w)] in (r, w\<lparr>larc_w_g_size := snd (fs ! 0)\<rparr>))"

definition larc_wrapper_print :: "larc_wrapper \<Rightarrow> printed list res" where
  "larc_wrapper_print w = Inr (if larc_w_g_size w then [Numbers [larc_g_size (larc_w_policy w)]] else [])"

definition larc_wrapper_create :: "cblock \<Rightarrow> cblock \<Rightarrow> larc_wrapper res" where
  "larc_wrapper_create csize msize =
     rbind (larc_create csize msize) (\<lambda>cn. Inr \<lparr>larc_w_policy = cn, larc_w_g_size = False\<rparr>)"

text \<open>LFU: nothing.\<close>

record lfu_wrapper =
  lfu_w_policy :: "lfu_policy"

definition lfu_wrapper_init :: "string option \<Rightarrow> lfu_wrapper \<Rightarrow> int \<times> lfu_wrapper" where
  "lfu_wrapper_init fields_str w =
     (case fields_str of
        None \<Rightarrow> (0, w)
      | Some str \<Rightarrow> let (r, fs) = alg_wrapper_read str [] in (r, w))"

definition lfu_wrapper_print :: "lfu_wrapper \<Rightarrow> printed list res" where
  "lfu_wrapper_print w = Inr []"

definition lfu_wrapper_create :: "cblock \<Rightarrow> cblock \<Rightarrow> lfu_wrapper res" where
  "lfu_wrapper_create csize msize =
     rbind (lfu_create csize msize) (\<lambda>cn. Inr \<lparr>lfu_w_policy = cn\<rparr>)"

text \<open>LIRS: the number of its low blocks.\<close>

record lirs_wrapper =
  lirs_w_policy :: "lirs_policy"
  lirs_w_lir_count :: bool

definition lirs_wrapper_init :: "string option \<Rightarrow> lirs_wrapper \<Rightarrow> int \<times> lirs_wrapper" where
  "lirs_wrapper_init fields_str w =
     (case fields_str of
        None \<Rightarrow> (0, w)
      | Some str \<Rightarrow> let (r, fs) = alg_wrapper_read str [(''lir_count'', lirs_w_lir_count w)] in (r, w\<lparr>lirs_w_lir_count := snd (fs ! 0)\<rparr>))"

definition lirs_wrapper_print :: "lirs_wrapper \<Rightarrow> printed list res" where
  "lirs_wrapper_print w = Inr (if lirs_w_lir_count w then [Numbers [lirs_lir_count (lirs_w_policy w)]] else [])"

definition lirs_wrapper_create :: "cblock \<Rightarrow> cblock \<Rightarrow> lirs_wrapper res" where
  "lirs_wrapper_create csize msize =
     rbind (lirs_create csize msize) (\<lambda>cn. Inr \<lparr>lirs_w_policy = cn, lirs_w_lir_count = False\<rparr>)"

text \<open>mARC: its state.\<close>

record marc_wrapper =
  marc_w_policy :: "arc_policy marc_policy"
  marc_w_state :: bool

definition marc_wrapper_init :: "string option \<Rightarrow> marc_wrapper \<Rightarrow> int \<times> marc_wrapper" where
  "marc_wrapper_init fields_str w =
     (case fields_str of
        None \<Rightarrow> (0, w)
      | Some str \<Rightarrow> let (r, fs) = alg_wrapper_read str [(''state'', marc_w_state w)] in (r, w\<lparr>marc_w_state := snd (fs ! 0)\<rparr>))"

definition marc_wrapper_print :: "marc_wrapper \<Rightarrow> printed list res" where
  "marc_wrapper_print w = Inr (if marc_w_state w then [Numbers [marc_state_number (ma_state (marc_w_policy w))]] else [])"

definition marc_wrapper_create :: "cblock \<Rightarrow> cblock \<Rightarrow> marc_wrapper res" where
  "marc_wrapper_create csize msize =
     rbind (marc_create csize msize arc_create) (\<lambda>cn. Inr \<lparr>marc_w_policy = cn, marc_w_state = False\<rparr>)"

text \<open>FOMO: its state, and the hits in the miss history.\<close>

record 's fomo_wrapper =
  fomo_w_policy :: "'s fomo_policy"
  fomo_w_state :: bool
  fomo_w_history :: bool

definition fomo_wrapper_init :: "string option \<Rightarrow> 's fomo_wrapper \<Rightarrow> int \<times> 's fomo_wrapper" where
  "fomo_wrapper_init fields_str w =
     (case fields_str of
        None \<Rightarrow> (0, w)
      | Some str \<Rightarrow> let (r, fs) = alg_wrapper_read str [(''state'', fomo_w_state w), (''hr-miss-history'', fomo_w_history w)] in (r, w\<lparr>fomo_w_state := snd (fs ! 0), fomo_w_history := snd (fs ! 1)\<rparr>))"

definition fomo_wrapper_print :: "'s fomo_wrapper \<Rightarrow> printed list res" where
  "fomo_wrapper_print w = Inr
     ((if fomo_w_state w then [Numbers [fomo_state_number (fo_state (fomo_w_policy w))]] else []) @
      (if fomo_w_history w then [Numbers [fo_mh_hits_total (fomo_w_policy w)]] else []))"

definition fomo_wrapper_create :: "cblock \<Rightarrow> cblock \<Rightarrow> (cblock \<Rightarrow> cblock \<Rightarrow> 's res) \<Rightarrow> 's fomo_wrapper res" where
  "fomo_wrapper_create csize msize policy_create =
     rbind (fomo_create csize msize policy_create) (\<lambda>cn. Inr \<lparr>fomo_w_policy = cn, fomo_w_state = False, fomo_w_history = False\<rparr>)"

text \<open>M*: the state of its logic.\<close>

record 's mstar_wrapper =
  mstar_w_policy :: "'s mstar_policy"
  mstar_w_state :: bool

definition mstar_wrapper_init :: "string option \<Rightarrow> 's mstar_wrapper \<Rightarrow> int \<times> 's mstar_wrapper" where
  "mstar_wrapper_init fields_str w =
     (case fields_str of
        None \<Rightarrow> (0, w)
      | Some str \<Rightarrow> let (r, fs) = alg_wrapper_read str [(''state'', mstar_w_state w)] in (r, w\<lparr>mstar_w_state := snd (fs ! 0)\<rparr>))"

definition mstar_wrapper_print :: "'s mstar_wrapper \<Rightarrow> printed list res" where
  "mstar_wrapper_print w = Inr (if mstar_w_state w then [Numbers [mstar_state_number (lo_state (ms_logic (mstar_w_policy w)))]] else [])"

definition mstar_wrapper_create :: "cblock \<Rightarrow> cblock \<Rightarrow> (cblock \<Rightarrow> cblock \<Rightarrow> 's res) \<Rightarrow> bool \<Rightarrow> 's mstar_wrapper res" where
  "mstar_wrapper_create csize msize policy_create adaptive =
     rbind (mstar_create csize msize policy_create adaptive) (\<lambda>cn. Inr \<lparr>mstar_w_policy = cn, mstar_w_state = False\<rparr>)"

section \<open>The registry of the wrappers\<close>

definition mstar_arc_wrapper_create where
  "mstar_arc_wrapper_create csize msize = mstar_wrapper_create csize msize arc_create False"
definition mstar_arc_lw_wrapper_create where
  "mstar_arc_lw_wrapper_create csize msize = mstar_wrapper_create csize msize arc_create True"
definition mstar_larc_wrapper_create where
  "mstar_larc_wrapper_create csize msize = mstar_wrapper_create csize msize larc_create False"
definition mstar_larc_lw_wrapper_create where
  "mstar_larc_lw_wrapper_create csize msize = mstar_wrapper_create csize msize larc_create True"
definition mstar_lfu_wrapper_create where
  "mstar_lfu_wrapper_create csize msize = mstar_wrapper_create csize msize lfu_create False"
definition mstar_lfu_lw_wrapper_create where
  "mstar_lfu_lw_wrapper_create csize msize = mstar_wrapper_create csize msize lfu_create True"
definition mstar_lirs_wrapper_create where
  "mstar_lirs_wrapper_create csize msize = mstar_wrapper_create csize msize lirs_create False"
definition mstar_lirs_lw_wrapper_create where
  "mstar_lirs_lw_wrapper_create csize msize = mstar_wrapper_create csize msize lirs_create True"
definition mstar_lru_wrapper_create where
  "mstar_lru_wrapper_create csize msize = mstar_wrapper_create csize msize lru_create False"
definition mstar_lru_lw_wrapper_create where
  "mstar_lru_lw_wrapper_create csize msize = mstar_wrapper_create csize msize lru_create True"
definition mstar_marc_wrapper_create where
  "mstar_marc_wrapper_create csize msize = mstar_wrapper_create csize msize marc_arc_create False"
definition mstar_marc_lw_wrapper_create where
  "mstar_marc_lw_wrapper_create csize msize = mstar_wrapper_create csize msize marc_arc_create True"
definition fomo_arc_wrapper_create where
  "fomo_arc_wrapper_create csize msize = fomo_wrapper_create csize msize arc_create"
definition fomo_larc_wrapper_create where
  "fomo_larc_wrapper_create csize msize = fomo_wrapper_create csize msize larc_create"
definition fomo_lfu_wrapper_create where
  "fomo_lfu_wrapper_create csize msize = fomo_wrapper_create csize msize lfu_create"
definition fomo_lirs_wrapper_create where
  "fomo_lirs_wrapper_create csize msize = fomo_wrapper_create csize msize lirs_create"
definition fomo_lru_wrapper_create where
  "fomo_lru_wrapper_create csize msize = fomo_wrapper_create csize msize lru_create"
definition fomo_marc_wrapper_create where
  "fomo_marc_wrapper_create csize msize = fomo_wrapper_create csize msize marc_arc_create"

lemmas wrapper_creates =
  mstar_arc_wrapper_create_def mstar_arc_lw_wrapper_create_def
  mstar_larc_wrapper_create_def mstar_larc_lw_wrapper_create_def
  mstar_lfu_wrapper_create_def mstar_lfu_lw_wrapper_create_def
  mstar_lirs_wrapper_create_def mstar_lirs_lw_wrapper_create_def
  mstar_lru_wrapper_create_def mstar_lru_lw_wrapper_create_def
  mstar_marc_wrapper_create_def mstar_marc_lw_wrapper_create_def
  fomo_arc_wrapper_create_def
  fomo_larc_wrapper_create_def
  fomo_lfu_wrapper_create_def
  fomo_lirs_wrapper_create_def
  fomo_lru_wrapper_create_def
  fomo_marc_wrapper_create_def

definition wrapper_name_match :: "string \<Rightarrow> string \<Rightarrow> bool" where
  "wrapper_name_match name_a name_b = strncasecmp_eq POLICY_NAME_MAX_LENGTH name_a name_b"

definition find_wrapper :: "string \<Rightarrow> policy_id option" where
  "find_wrapper name =
     (if wrapper_name_match name ''arc'' then Some (Plain ARC)
      else if wrapper_name_match name ''larc'' then Some (Plain LARC)
      else if wrapper_name_match name ''lfu'' then Some (Plain LFU)
      else if wrapper_name_match name ''lirs'' then Some (Plain LIRS)
      else if wrapper_name_match name ''lru'' then Some (Plain LRU)
      else if wrapper_name_match name ''marc'' then Some (Plain MARC)
      else if wrapper_name_match name ''mstar_arc'' then Some (Mstar ARC False)
      else if wrapper_name_match name ''mstar_arc_lw'' then Some (Mstar ARC True)
      else if wrapper_name_match name ''mstar_larc'' then Some (Mstar LARC False)
      else if wrapper_name_match name ''mstar_larc_lw'' then Some (Mstar LARC True)
      else if wrapper_name_match name ''mstar_lfu'' then Some (Mstar LFU False)
      else if wrapper_name_match name ''mstar_lfu_lw'' then Some (Mstar LFU True)
      else if wrapper_name_match name ''mstar_lirs'' then Some (Mstar LIRS False)
      else if wrapper_name_match name ''mstar_lirs_lw'' then Some (Mstar LIRS True)
      else if wrapper_name_match name ''mstar_lru'' then Some (Mstar LRU False)
      else if wrapper_name_match name ''mstar_lru_lw'' then Some (Mstar LRU True)
      else if wrapper_name_match name ''mstar_marc'' then Some (Mstar MARC False)
      else if wrapper_name_match name ''mstar_marc_lw'' then Some (Mstar MARC True)
      else if wrapper_name_match name ''fomo_arc'' then Some (Fomo ARC)
      else if wrapper_name_match name ''fomo_larc'' then Some (Fomo LARC)
      else if wrapper_name_match name ''fomo_lfu'' then Some (Fomo LFU)
      else if wrapper_name_match name ''fomo_lirs'' then Some (Fomo LIRS)
      else if wrapper_name_match name ''fomo_lru'' then Some (Fomo LRU)
      else if wrapper_name_match name ''fomo_marc'' then Some (Fomo MARC)
      else None)"

lemma find_wrapper_policy: "find_wrapper s = find_policy s"
  unfolding find_wrapper_def find_policy_def wrapper_name_match_def policy_name_match_def ..

end
