(* ===== verification/Cache_Sim.thy ===== *)
theory Cache_Sim
  imports Wrapper Sim
begin

text \<open>
  The program \<open>cache-sim\<close> (\<open>src/src/sim/main.c\<close>, \<open>sim_args.h\<close>, \<open>ext/sim_outputter.h\<close>): arguments, the preparation of the trace, the
  policy and the output, and the loop that reads the trace access by access.
\<close>

section \<open>Options\<close>

datatype sim_output_mode = DEFAULT | WATCHER

record 'f run_options =
  ro_fp :: "'f trace_file"
  ro_policy_name :: string
  ro_cache_size :: cblock
  ro_trace_name :: string
  ro_duration_hrs :: u64
  ro_metadata_size :: int
  ro_window_size :: u64
  ro_output_mode :: sim_output_mode
  ro_sampling_rate :: u64
  ro_migration_delay :: u64
  ro_remove_rate :: int
  ro_watch_str :: string

text \<open>The initial value of \<open>options\<close>, with the standard input.\<close>

definition initial_options :: "'f trace_file \<Rightarrow> 'f run_options" where
  "initial_options stdin =
     \<lparr>ro_fp = stdin, ro_policy_name = [], ro_cache_size = 0, ro_trace_name = [], ro_duration_hrs = 0, ro_metadata_size = - 1,
      ro_window_size = 0, ro_output_mode = DEFAULT, ro_sampling_rate = 1, ro_migration_delay = 0, ro_remove_rate = 0,
      ro_watch_str = []\<rparr>"

text \<open>\<open>sscanf\<close> of a number: the spaces before it, a sign, digits. The rest of the string, or \<open>None\<close> if there is no number.\<close>

definition is_digit :: "char \<Rightarrow> bool" where
  "is_digit c \<longleftrightarrow> 48 \<le> (of_char c :: nat) \<and> (of_char c :: nat) \<le> 57"

definition is_space :: "char \<Rightarrow> bool" where
  "is_space c \<longleftrightarrow> (of_char c :: nat) = 32 \<or> 9 \<le> (of_char c :: nat) \<and> (of_char c :: nat) \<le> 13"

fun read_digits :: "nat \<Rightarrow> string \<Rightarrow> nat \<times> string" where
  "read_digits n [] = (n, [])"
| "read_digits n (c # cs) = (if is_digit c then read_digits (10 * n + (of_char c - 48)) cs else (n, c # cs))"

definition scan_integer :: "string \<Rightarrow> (int \<times> string) option" where
  "scan_integer str =
     (let str = dropWhile is_space str;
          neg = (str \<noteq> [] \<and> hd str = CHR ''-'');
          str = (if str \<noteq> [] \<and> (hd str = CHR ''-'' \<or> hd str = CHR ''+'') then tl str else str) in
      if str \<noteq> [] \<and> is_digit (hd str) then
        (let (n, rest) = read_digits 0 str in Some (if neg then - int n else int n, rest))
      else None)"

text \<open>
  \<open>%u\<close> and \<open>%lu\<close> read a number modulo its type, \<open>%ld\<close> a signed one; a number that is not there leaves the variable as it
  is. What happens to a number with too many digits is undefined.
\<close>

definition sscanf_u :: "string \<Rightarrow> 'w::len word \<Rightarrow> ('w word \<times> string option) res" where
  "sscanf_u str old =
     (case scan_integer str of
        None \<Rightarrow> Inr (old, None)
      | Some (n, rest) \<Rightarrow> if \<bar>n\<bar> < 2 ^ LENGTH('w) then Inr (word_of_int n, Some rest) else Inl Undefined)"

definition sscanf_ld :: "string \<Rightarrow> int \<Rightarrow> (int \<times> string option) res" where
  "sscanf_ld str old =
     (case scan_integer str of
        None \<Rightarrow> Inr (old, None)
      | Some (n, rest) \<Rightarrow> if - (2 ^ 63) \<le> n \<and> n < 2 ^ 63 then Inr (n, Some rest) else Inl Undefined)"

section \<open>Arguments\<close>

text \<open>
  \<open>getopt_long\<close> is not part of the program: the options come as the list of what its calls return, each with
  its argument, and the rest of the arguments as a list. \<open>duration_time\<close> keeps its value from one option to the next.
\<close>

definition handle_option ::
  "(string \<Rightarrow> 'f trace_file option) \<Rightarrow> char \<Rightarrow> string \<Rightarrow> char option \<Rightarrow> 'f run_options \<Rightarrow> (char option \<times> 'f run_options) option res" where
  "handle_option fopen c optarg duration_time options =
     (if c = CHR ''f'' then
        (case fopen optarg of None \<Rightarrow> Inl Fatal | Some file \<Rightarrow> Inr (Some (duration_time, options\<lparr>ro_fp := file\<rparr>)))
      else if c = CHR 0x60 then Inr None
      else if c = CHR ''d'' then
        rbind (sscanf_u optarg (ro_duration_hrs options)) (\<lambda>(hrs, rest).
        let duration_time = (case rest of Some (d # _) \<Rightarrow> Some d | _ \<Rightarrow> duration_time) in
        (case duration_time of
           None \<Rightarrow> Inl Undefined
         | Some d \<Rightarrow>
             if d = CHR ''d'' then Inr (Some (duration_time, options\<lparr>ro_duration_hrs := hrs * 24\<rparr>))
             else if d = CHR ''h'' then Inr (Some (duration_time, options\<lparr>ro_duration_hrs := hrs\<rparr>))
             else Inl Fatal))
      else if c = CHR ''m'' then
        rbind (sscanf_ld optarg (ro_metadata_size options)) (\<lambda>(m, _).
        rbind (log_assert (m \<ge> 0)) (\<lambda>_. Inr (Some (duration_time, options\<lparr>ro_metadata_size := m\<rparr>))))
      else if c = CHR ''w'' then
        rbind (sscanf_u optarg (ro_window_size options)) (\<lambda>(w, _). Inr (Some (duration_time, options\<lparr>ro_window_size := w\<rparr>)))
      else if c = CHR ''s'' then
        rbind (sscanf_u optarg (ro_sampling_rate options)) (\<lambda>(s, _).
        rbind (log_assert (s > 0)) (\<lambda>_. Inr (Some (duration_time, options\<lparr>ro_sampling_rate := s\<rparr>))))
      else if c = CHR '','' then
        rbind (sscanf_u optarg (ro_migration_delay options)) (\<lambda>(d, _). Inr (Some (duration_time, options\<lparr>ro_migration_delay := d\<rparr>)))
      else if c = CHR ''<'' then
        rbind (sscanf_ld optarg (ro_remove_rate options)) (\<lambda>(r, _). Inr (Some (duration_time, options\<lparr>ro_remove_rate := r\<rparr>)))
      else if c = CHR ''>'' then
        Inr (Some (duration_time, options\<lparr>ro_watch_str := optarg, ro_output_mode := WATCHER\<rparr>))
      else Inl Fatal)"

text \<open>\<open>None\<close>: the help was printed and the program ended.\<close>

fun handle_optional_args ::
  "(string \<Rightarrow> 'f trace_file option) \<Rightarrow> (char \<times> string) list \<Rightarrow> char option \<Rightarrow> 'f run_options \<Rightarrow> 'f run_options option res" where
  "handle_optional_args fopen [] dt options = Inr (Some options)"
| "handle_optional_args fopen ((c, optarg) # args) dt options =
     rbind (handle_option fopen c optarg dt options) (\<lambda>next.
     case next of None \<Rightarrow> Inr None | Some (dt, options) \<Rightarrow> handle_optional_args fopen args dt options)"

definition handle_required_args :: "string list \<Rightarrow> 'f run_options \<Rightarrow> 'f run_options res" where
  "handle_required_args argv options =
     (if length argv < 3 then Inl Fatal
      else
        let options = options\<lparr>ro_policy_name := argv ! 0\<rparr> in
        if find_policy (ro_policy_name options) = None then Inl Fatal
        else
          rbind (sscanf_u (argv ! 1) (ro_cache_size options)) (\<lambda>(size, found).
          if found = None then Inl Fatal
          else
            let options = options\<lparr>ro_cache_size := size\<rparr>;
                options = (if ro_metadata_size options = - 1
                           then options\<lparr>ro_metadata_size := uint (ro_cache_size options)\<rparr> else options);
                options = options\<lparr>ro_trace_name := argv ! 2\<rparr> in
            if find_trace_reader (ro_trace_name options) = None then Inl Fatal else Inr options))"

definition handle_args ::
  "(string \<Rightarrow> 'f trace_file option) \<Rightarrow> (char \<times> string) list \<Rightarrow> string list \<Rightarrow> 'f run_options \<Rightarrow> 'f run_options option res" where
  "handle_args fopen opts argv options =
     rbind (handle_optional_args fopen opts None options) (\<lambda>next.
     case next of None \<Rightarrow> Inr None | Some options \<Rightarrow> rbind (handle_required_args argv options) (\<lambda>options. Inr (Some options)))"

section \<open>Output\<close>

record sim_outputter =
  out_mode :: sim_output_mode
  out_interval :: u64

definition sim_outputter_init :: "sim_output_mode \<Rightarrow> u64 \<Rightarrow> sim_outputter" where
  "sim_outputter_init mode interval = \<lparr>out_mode = mode, out_interval = interval\<rparr>"

definition stats_line :: "policy_stats \<Rightarrow> sim_stats_struct \<Rightarrow> printed" where
  "stats_line ps ss = Numbers
     [st_hits ps, st_misses ps, st_filters ps, st_promotions ps, st_demotions ps, st_private_stat ps,
      ss_read_hits ss, ss_read_misses ss, ss_write_hits ss, ss_write_misses ss, ss_dirty_evicts ss]"

text \<open>\<open>print\<close> is the function of the wrapper.\<close>

definition sim_outputter_print ::
  "sim_outputter \<Rightarrow> 's policy_api \<Rightarrow> ('s \<Rightarrow> printed list res) \<Rightarrow> 's sim \<Rightarrow> u32 \<Rightarrow> bool \<Rightarrow> printed list res" where
  "sim_outputter_print out P print st io complete =
     (if \<not> complete \<and> (out_interval out = 0 \<or> ucast io mod out_interval out \<noteq> 0) then Inr []
      else case out_mode out of
             WATCHER \<Rightarrow> print (sm_policy st)
           | DEFAULT \<Rightarrow> Inr [stats_line (policy_get_stats P (sm_policy st) stats_init) (sm_stats st)])"

section \<open>The loop\<close>

text \<open>The part of \<open>sim_access\<close> that reads, on the reader.\<close>

function reader_sampled :: "'f float_arith \<Rightarrow> u32 \<Rightarrow> 'f reader \<Rightarrow> (access \<times> 'f reader) option res" where
  "reader_sampled F thr r =
     rbind (reader_read F r) (\<lambda>(next, r).
     case next of
       None \<Rightarrow> Inr None
     | Some (ob, write) \<Rightarrow>
         rbind (hash_64 ob (of_nat (ffs (2 ^ 31)) - 1)) (\<lambda>h.
         if (ucast h :: u64) > ucast thr then reader_sampled F thr r else Inr (Some ((ucast h, write), r))))"
  by pat_completeness auto

termination
  by (relation "inv_image (less_than <*lex*> less_than) (\<lambda>(F, thr, r). reader_rest r)") (auto dest: reader_read_rest)

declare reader_sampled.simps [simp del]

definition sim_read_from :: "'f float_arith \<Rightarrow> sim_options \<Rightarrow> 'f reader \<Rightarrow> (access \<times> 'f reader) option res" where
  "sim_read_from F opts r =
     (if opt_sampling_rate opts = 1 then rbind (reader_read F r) (\<lambda>(next, r). Inr (map_option (\<lambda>x. (x, r)) next))
      else rbind (udiv (2 ^ 31) (opt_sampling_rate opts)) (\<lambda>thr. reader_sampled F (ucast thr) r))"

lemma reader_sampled_rest:
  "reader_sampled F thr r = Inr (Some (x, r')) \<Longrightarrow> (reader_rest r', reader_rest r) \<in> less_than <*lex*> less_than"
proof (induction F thr r rule: reader_sampled.induct)
  case (1 F thr r)
  obtain nx r1 where n: "reader_read F r = Inr (nx, r1)"
    using 1(2) by (subst (asm) reader_sampled.simps) (cases "reader_read F r"; auto)
  obtain ob w where x: "nx = Some (ob, w)"
    using 1(2) n by (subst (asm) reader_sampled.simps) (auto split: option.splits)
  note step = reader_read_rest [OF n [unfolded x]]
  obtain h where h: "hash_64 ob (of_nat (ffs (2 ^ 31)) - 1) = Inr h"
    using 1(2) n x by (subst (asm) reader_sampled.simps) (cases "hash_64 ob (of_nat (ffs (2 ^ 31)) - 1)"; auto)
  show ?case
  proof (cases "(ucast h :: u64) > ucast thr")
    case True
    then have "reader_sampled F thr r1 = Inr (Some (x, r'))"
      using 1(2) n x h by (subst (asm) reader_sampled.simps) simp
    from 1(1) [OF n refl x refl h True this] have "(reader_rest r', reader_rest r1) \<in> less_than <*lex*> less_than" by simp
    then show ?thesis using step by (auto intro: trans_lex_prod [THEN transD])
  next
    case False
    then have "r' = r1" using 1(2) n x h by (subst (asm) reader_sampled.simps) simp
    then show ?thesis using step by simp
  qed
qed

lemma sim_read_from_rest:
  assumes "sim_read_from F opts r = Inr (Some (x, r'))"
  shows "(reader_rest r', reader_rest r) \<in> less_than <*lex*> less_than"
proof (cases "opt_sampling_rate opts = 1")
  case True
  obtain nx r1 where n: "reader_read F r = Inr (nx, r1)"
    using assms True by (cases "reader_read F r") (auto simp: sim_read_from_def)
  then have "nx = Some x" "r1 = r'" using assms True by (auto simp: sim_read_from_def)
  then show ?thesis using reader_read_rest n by blast
next
  case False
  obtain thr where "udiv (2 ^ 31) (opt_sampling_rate opts) = Inr thr"
    using assms False by (cases "udiv (2 ^ 31) (opt_sampling_rate opts)") (auto simp: sim_read_from_def)
  then have "reader_sampled F (ucast thr) r = Inr (Some (x, r'))" using assms False by (simp add: sim_read_from_def)
  then show ?thesis by (rule reader_sampled_rest)
qed

text \<open>The loop of \<open>main\<close>, with what it prints.\<close>

function main_loop ::
  "'f float_arith \<Rightarrow> 's policy_api \<Rightarrow> ('s \<Rightarrow> printed list res) \<Rightarrow> (nat \<Rightarrow> u32) \<Rightarrow> sim_options \<Rightarrow> sim_outputter \<Rightarrow>
    u32 \<Rightarrow> 'f reader \<Rightarrow> 's sim \<Rightarrow> (printed list \<times> 's sim) res" where
  "main_loop F P print rnd opts out time r st =
     rbind (sim_read_from F opts r) (\<lambda>next.
     case next of
       None \<Rightarrow> rbind (sim_outputter_print out P print st time True) (\<lambda>ls. Inr (ls, st))
     | Some ((ob, write), r) \<Rightarrow>
         rbind (sim_serve P rnd opts time ob write st) (\<lambda>st.
         rbind (sim_outputter_print out P print st time False) (\<lambda>now.
         rbind (main_loop F P print rnd opts out (time + 1) r st) (\<lambda>(ls, st). Inr (now @ ls, st)))))"
  by pat_completeness auto

termination
  by (relation "inv_image (less_than <*lex*> less_than) (\<lambda>(F, P, print, rnd, opts, out, time, r, st). reader_rest r)")
    (auto dest: sim_read_from_rest)

declare main_loop.simps [simp del]

section \<open>The program\<close>

text \<open>
  What the program finds around it: the arithmetic and the zero of floating-point numbers, the files, the standard input, the
  random numbers, and what \<open>lfu_next_victim_api\<close> reads off the stack.
\<close>

record 'f sim_env =
  env_floats :: "'f float_arith"
  env_zero :: 'f
  env_fopen :: "string \<Rightarrow> 'f trace_file option"
  env_stdin :: "'f trace_file"
  env_random :: "nat \<Rightarrow> u32"
  env_stack :: lfu_transaction

definition trace_prep :: "'f sim_env \<Rightarrow> 'f run_options \<Rightarrow> 'f reader res" where
  "trace_prep env options =
     rbind (deref (find_trace_reader (ro_trace_name options))) (\<lambda>name.
     Inr (reader_init (env_zero env) name (ro_fp options) (ucast (ro_duration_hrs options))))"

text \<open>The options that \<open>sim_access\<close> uses.\<close>

definition access_options :: "'f run_options \<Rightarrow> sim_options" where
  "access_options options =
     \<lparr>opt_sampling_rate = ro_sampling_rate options, opt_migration_delay = ro_migration_delay options,
      opt_remove_rate = ro_remove_rate options\<rparr>"

text \<open>\<open>main\<close> from the loop on, for a policy in its wrapper.\<close>

definition simulate ::
  "'f sim_env \<Rightarrow> 'f run_options \<Rightarrow> 'f reader \<Rightarrow> 's policy_api \<Rightarrow> ('s \<Rightarrow> printed list res) \<Rightarrow> 's \<Rightarrow> printed list res" where
  "simulate env options reader P print policy =
     (let opts = access_options options; out = sim_outputter_init (ro_output_mode options) (ro_window_size options) in
      rbind (sim_prep opts policy) (\<lambda>st.
      rbind (main_loop (env_floats env) P print (env_random env) opts out 1 reader st) (\<lambda>(ls, st). Inr ls)))"

text \<open>\<open>policy_prep\<close>: the sizes it passes to the wrapper, and the initialisation, whose result it drops.\<close>

definition prep_sizes :: "'f run_options \<Rightarrow> (cblock \<times> cblock) res" where
  "prep_sizes options =
     rbind (udiv (ucast (ro_cache_size options)) (ro_sampling_rate options)) (\<lambda>c.
     rbind (udiv (word_of_int (ro_metadata_size options)) (ro_sampling_rate options)) (\<lambda>m.
     Inr (ucast c, ucast m)))"

definition run_fomo where
  "run_fomo env options reader P created =
     rbind created (\<lambda>w. let w = snd (fomo_wrapper_init (Some (ro_watch_str options)) w) in
     simulate env options reader (fomo_api P) (\<lambda>s. fomo_wrapper_print (w\<lparr>fomo_w_policy := s\<rparr>)) (fomo_w_policy w))"

definition run_mstar where
  "run_mstar env options reader P created =
     rbind created (\<lambda>w. let w = snd (mstar_wrapper_init (Some (ro_watch_str options)) w) in
     simulate env options reader (mstar_api P) (\<lambda>s. mstar_wrapper_print (w\<lparr>mstar_w_policy := s\<rparr>)) (mstar_w_policy w))"

fun run_policy :: "'f sim_env \<Rightarrow> 'f run_options \<Rightarrow> 'f reader \<Rightarrow> cblock \<Rightarrow> cblock \<Rightarrow> policy_id \<Rightarrow> printed list res" where
  "run_policy env options reader c m (Plain ARC) =
     rbind (arc_wrapper_create c m) (\<lambda>w. let w = snd (arc_wrapper_init (Some (ro_watch_str options)) w) in
     simulate env options reader arc_api (\<lambda>s. arc_wrapper_print (w\<lparr>arc_w_policy := s\<rparr>)) (arc_w_policy w))"
| "run_policy env options reader c m (Plain LARC) =
     rbind (larc_wrapper_create c m) (\<lambda>w. let w = snd (larc_wrapper_init (Some (ro_watch_str options)) w) in
     simulate env options reader larc_api (\<lambda>s. larc_wrapper_print (w\<lparr>larc_w_policy := s\<rparr>)) (larc_w_policy w))"
| "run_policy env options reader c m (Plain LFU) =
     rbind (lfu_wrapper_create c m) (\<lambda>w. let w = snd (lfu_wrapper_init (Some (ro_watch_str options)) w) in
     simulate env options reader (lfu_api (env_stack env)) (\<lambda>s. lfu_wrapper_print (w\<lparr>lfu_w_policy := s\<rparr>)) (lfu_w_policy w))"
| "run_policy env options reader c m (Plain LIRS) =
     rbind (lirs_wrapper_create c m) (\<lambda>w. let w = snd (lirs_wrapper_init (Some (ro_watch_str options)) w) in
     simulate env options reader lirs_api (\<lambda>s. lirs_wrapper_print (w\<lparr>lirs_w_policy := s\<rparr>)) (lirs_w_policy w))"
| "run_policy env options reader c m (Plain LRU) =
     rbind (lru_wrapper_create c m) (\<lambda>w. let w = snd (lru_wrapper_init (Some (ro_watch_str options)) w) in
     simulate env options reader lru_api (\<lambda>s. lru_wrapper_print (w\<lparr>lru_w_policy := s\<rparr>)) (lru_w_policy w))"
| "run_policy env options reader c m (Plain MARC) =
     rbind (marc_wrapper_create c m) (\<lambda>w. let w = snd (marc_wrapper_init (Some (ro_watch_str options)) w) in
     simulate env options reader (marc_api arc_api) (\<lambda>s. marc_wrapper_print (w\<lparr>marc_w_policy := s\<rparr>)) (marc_w_policy w))"
| "run_policy env options reader c m (Mstar ARC False) = run_mstar env options reader arc_api (mstar_arc_wrapper_create c m)"
| "run_policy env options reader c m (Mstar ARC True) = run_mstar env options reader arc_api (mstar_arc_lw_wrapper_create c m)"
| "run_policy env options reader c m (Mstar LARC False) = run_mstar env options reader larc_api (mstar_larc_wrapper_create c m)"
| "run_policy env options reader c m (Mstar LARC True) = run_mstar env options reader larc_api (mstar_larc_lw_wrapper_create c m)"
| "run_policy env options reader c m (Mstar LFU False) = run_mstar env options reader (lfu_api (env_stack env)) (mstar_lfu_wrapper_create c m)"
| "run_policy env options reader c m (Mstar LFU True) = run_mstar env options reader (lfu_api (env_stack env)) (mstar_lfu_lw_wrapper_create c m)"
| "run_policy env options reader c m (Mstar LIRS False) = run_mstar env options reader lirs_api (mstar_lirs_wrapper_create c m)"
| "run_policy env options reader c m (Mstar LIRS True) = run_mstar env options reader lirs_api (mstar_lirs_lw_wrapper_create c m)"
| "run_policy env options reader c m (Mstar LRU False) = run_mstar env options reader lru_api (mstar_lru_wrapper_create c m)"
| "run_policy env options reader c m (Mstar LRU True) = run_mstar env options reader lru_api (mstar_lru_lw_wrapper_create c m)"
| "run_policy env options reader c m (Mstar MARC False) = run_mstar env options reader (marc_api arc_api) (mstar_marc_wrapper_create c m)"
| "run_policy env options reader c m (Mstar MARC True) = run_mstar env options reader (marc_api arc_api) (mstar_marc_lw_wrapper_create c m)"
| "run_policy env options reader c m (Fomo ARC) = run_fomo env options reader arc_api (fomo_arc_wrapper_create c m)"
| "run_policy env options reader c m (Fomo LARC) = run_fomo env options reader larc_api (fomo_larc_wrapper_create c m)"
| "run_policy env options reader c m (Fomo LFU) = run_fomo env options reader (lfu_api (env_stack env)) (fomo_lfu_wrapper_create c m)"
| "run_policy env options reader c m (Fomo LIRS) = run_fomo env options reader lirs_api (fomo_lirs_wrapper_create c m)"
| "run_policy env options reader c m (Fomo LRU) = run_fomo env options reader lru_api (fomo_lru_wrapper_create c m)"
| "run_policy env options reader c m (Fomo MARC) = run_fomo env options reader (marc_api arc_api) (fomo_marc_wrapper_create c m)"

definition policy_prep :: "'f sim_env \<Rightarrow> 'f run_options \<Rightarrow> 'f reader \<Rightarrow> printed list res" where
  "policy_prep env options reader =
     (case find_wrapper (ro_policy_name options) of
        None \<Rightarrow> Inl Fatal
      | Some n \<Rightarrow> rbind (prep_sizes options) (\<lambda>(c, m). run_policy env options reader c m n))"

definition cache_sim :: "'f sim_env \<Rightarrow> (char \<times> string) list \<Rightarrow> string list \<Rightarrow> printed list res" where
  "cache_sim env opts argv =
     rbind (handle_args (env_fopen env) opts argv (initial_options (env_stdin env))) (\<lambda>next.
     case next of
       None \<Rightarrow> Inr [Usage]
     | Some options \<Rightarrow> rbind (trace_prep env options) (\<lambda>reader. policy_prep env options reader))"

end
