(* ===== verification/Cache_Sim_Lib.thy ===== *)
theory Cache_Sim_Lib
  imports Cache_Sim Lru_Props Larc_Props Arc_Props Lfu_Props Marc_Props Lirs_Props Mstar_Props Fomo_Props
begin

text \<open>
  The loop of \<open>cache-sim\<close> against the runs over a list: the reader gives one access after the other, and the lines are printed in between.
\<close>

declare split_paired_All [simp del] split_paired_Ex [simp del]

section \<open>Reading\<close>

lemma read_all_Nil:
  assumes "read_all F r = Inr []"
  shows "\<exists>r'. reader_read F r = Inr (None, r')"
proof -
  obtain nx r1 where n: "reader_read F r = Inr (nx, r1)"
    using assms by (subst (asm) read_all.simps) (cases "reader_read F r"; auto)
  then have "nx = None" using assms by (subst (asm) read_all.simps) (auto split: option.splits)
  then show ?thesis using n by blast
qed

lemma read_all_Cons:
  assumes "read_all F r = Inr (x # xs)"
  shows "\<exists>r'. reader_read F r = Inr (Some x, r') \<and> read_all F r' = Inr xs"
proof -
  obtain nx r1 where n: "reader_read F r = Inr (nx, r1)"
    using assms by (subst (asm) read_all.simps) (cases "reader_read F r"; auto)
  show ?thesis
  proof (cases nx)
    case None
    then show ?thesis using assms n by (subst (asm) read_all.simps) simp
  next
    case (Some y)
    then show ?thesis using assms n by (subst (asm) read_all.simps) (cases "read_all F r1"; auto)
  qed
qed

definition same_reading ::
  "'f float_arith \<Rightarrow> (access \<times> trace) option res \<Rightarrow> (access \<times> 'f reader) option res \<Rightarrow> bool" where
  "same_reading F a b \<longleftrightarrow>
     (case a of Inl f \<Rightarrow> b = Inl f | Inr None \<Rightarrow> b = Inr None
      | Inr (Some (x, rest)) \<Rightarrow> \<exists>r'. b = Inr (Some (x, r')) \<and> read_all F r' = Inr rest)"

lemma same_reading_simps [simp]:
  "same_reading F (Inl f) b \<longleftrightarrow> b = Inl f" "same_reading F (Inr None) b \<longleftrightarrow> b = Inr None"
  "same_reading F (Inr (Some (x, rest))) b \<longleftrightarrow> (\<exists>r'. b = Inr (Some (x, r')) \<and> read_all F r' = Inr rest)"
  by (simp_all add: same_reading_def)

lemma reader_sampled_list:
  assumes "read_all F r = Inr tr"
  shows "same_reading F (read_sampled thr tr) (reader_sampled F thr r)"
  using assms
proof (induction tr arbitrary: r)
  case Nil
  then show ?case using read_all_Nil [OF Nil] by (subst reader_sampled.simps) auto
next
  case (Cons x tr)
  obtain ob w where x: "x = (ob, w)" by (cases x)
  from read_all_Cons [OF Cons.prems] obtain r1 where r1: "reader_read F r = Inr (Some (ob, w), r1)" "read_all F r1 = Inr tr"
    unfolding x by blast
  note IH = Cons.IH [OF r1(2)]
  show ?case
  proof (cases "hash_64 ob (of_nat (ffs (2 ^ 31)) - 1)")
    case (Inl f)
    then show ?thesis unfolding x by (subst reader_sampled.simps) (simp add: r1)
  next
    case (Inr h)
    show ?thesis
    proof (cases "(ucast h :: u64) > ucast thr")
      case True
      then have "reader_sampled F thr r = reader_sampled F thr r1" "read_sampled thr (x # tr) = read_sampled thr tr"
        unfolding x using Inr by (subst reader_sampled.simps, simp_all add: r1)
      then show ?thesis using IH by simp
    next
      case False
      then have "reader_sampled F thr r = Inr (Some ((ucast h, w), r1))" "read_sampled thr (x # tr) = Inr (Some ((ucast h, w), tr))"
        unfolding x using Inr by (subst reader_sampled.simps, simp_all add: r1)
      then show ?thesis using r1(2) by simp
    qed
  qed
qed

lemma sim_read_from_list:
  assumes "read_all F r = Inr tr"
  shows "same_reading F (sim_read opts tr) (sim_read_from F opts r)"
proof (cases "opt_sampling_rate opts = 1")
  case True
  show ?thesis
  proof (cases tr)
    case Nil
    then show ?thesis using read_all_Nil assms True by (fastforce simp: sim_read_def sim_read_from_def)
  next
    case (Cons x xs)
    then show ?thesis using read_all_Cons assms True by (fastforce simp: sim_read_def sim_read_from_def)
  qed
next
  case False
  then show ?thesis using reader_sampled_list [OF assms]
    by (cases "udiv (2 ^ 31) (opt_sampling_rate opts)") (simp_all add: sim_read_def sim_read_from_def)
qed

section \<open>The counters of a run\<close>

lemma sim_map_accesses: "sim_map P ob w r0 st = Inr (r, st') \<Longrightarrow> accesses (sm_stats st') = accesses (sm_stats st) + 1"
  by (cases "policy_map P ob w r0 (sm_policy st)") (auto simp: sim_map_def Let_def split: if_splits)

lemma sim_migrate_stats: "sim_migrate P opts time ob r st = Inr st' \<Longrightarrow> sm_stats st' = sm_stats st"
  unfolding sim_migrate_def
  by (auto split: if_splits)

lemma sim_removal_stats: "sim_removal P rnd opts time ob st = Inr st' \<Longrightarrow> sm_stats st' = sm_stats st"
  unfolding sim_removal_def remove_now_def Let_def
  by (auto split: if_splits)

lemma sim_serve_accesses:
  "sim_serve P rnd opts time ob w st = Inr st' \<Longrightarrow> accesses (sm_stats st') = accesses (sm_stats st) + 1"
  by (auto simp: sim_serve_def Let_def dest!: sim_removal_stats sim_migrate_stats sim_map_accesses)

section \<open>The loop\<close>

text \<open>The number of the lines that are printed during a run: one whenever the interval divides the time.\<close>

definition due :: "sim_outputter \<Rightarrow> u32 \<Rightarrow> bool" where
  "due out time \<longleftrightarrow> out_interval out \<noteq> 0 \<and> ucast time mod out_interval out = 0"

definition final_line :: "'s policy_api \<Rightarrow> 's sim \<Rightarrow> printed" where
  "final_line P st = stats_line (policy_get_stats P (sm_policy st) stats_init) (sm_stats st)"

lemma print_default:
  assumes "out_mode out = DEFAULT"
  shows "sim_outputter_print out P print st time complete = Inr (if complete \<or> due out time then [final_line P st] else [])"
  using assms by (simp add: sim_outputter_print_def due_def final_line_def)

lemma main_loop_default:
  assumes "out_mode out = DEFAULT" "read_all F r = Inr tr" "sim_run P rnd opts time tr st = Inr st'"
  shows "\<exists>ls. main_loop F P print rnd opts out time r st = Inr (ls @ [final_line P st'], st') \<and>
    (opt_sampling_rate opts = 1 \<longrightarrow> accesses (sm_stats st') = accesses (sm_stats st) + of_nat (length tr) \<and>
      length ls = length (filter (\<lambda>i. due out (time + of_nat i)) [0..<length tr]))"
  using assms(2,3)
proof (induction "length tr" arbitrary: tr r time st rule: less_induct)
  case less
  note same = sim_read_from_list [OF less.prems(1), of opts]
  obtain nx where nx: "sim_read opts tr = Inr nx"
    using less.prems(2) by (subst (asm) sim_run.simps) (auto simp: sim_access_def)
  show ?case
  proof (cases nx)
    case None
    then have "main_loop F P print rnd opts out time r st = Inr ([final_line P st], st)"
      using same nx by (subst main_loop.simps) (simp add: print_default [OF assms(1)])
    moreover have "st' = st" using sim_run_empty [OF nx [unfolded None], of P rnd time st] less.prems(2) by simp
    moreover have "opt_sampling_rate opts = 1 \<Longrightarrow> tr = []" using nx None by (auto simp: sim_read_def split: list.splits)
    ultimately show ?thesis by (intro exI [of _ "[]"]) auto
  next
    case (Some y)
    then obtain ob w rest where y: "sim_read opts tr = Inr (Some ((ob, w), rest))" using nx by (cases y) auto
    obtain r1 where r1: "sim_read_from F opts r = Inr (Some ((ob, w), r1))" "read_all F r1 = Inr rest"
      using same unfolding y by auto
    obtain st1 where st1: "sim_serve P rnd opts time ob w st = Inr st1" "sim_run P rnd opts (time + 1) rest st1 = Inr st'"
      using less.prems(2) unfolding sim_run_step [OF y] by auto
    from less.hyps [OF sim_read_shorter [OF y] r1(2) st1(2)] obtain ls where
      ls: "main_loop F P print rnd opts out (time + 1) r1 st1 = Inr (ls @ [final_line P st'], st')"
        "opt_sampling_rate opts = 1 \<longrightarrow> accesses (sm_stats st') = accesses (sm_stats st1) + of_nat (length rest) \<and>
          length ls = length (filter (\<lambda>i. due out (time + 1 + of_nat i)) [0..<length rest])" by blast
    have "main_loop F P print rnd opts out time r st =
        Inr (((if due out time then [final_line P st1] else []) @ ls) @ [final_line P st'], st')"
      by (subst main_loop.simps) (simp add: r1(1) st1(1) ls(1) print_default [OF assms(1)])
    moreover have "accesses (sm_stats st') = accesses (sm_stats st) + of_nat (length tr) \<and>
        length ((if due out time then [final_line P st1] else []) @ ls) =
          length (filter (\<lambda>i. due out (time + of_nat i)) [0..<length tr])" if "opt_sampling_rate opts = 1"
    proof -
      have "tr = (ob, w) # rest" using y that by (auto simp: sim_read_def split: list.splits)
      then have "[0..<length tr] = 0 # map Suc [0..<length rest]" by (simp add: upt_conv_Cons map_Suc_upt del: upt_Suc)
      then have "length (filter (\<lambda>i. due out (time + of_nat i)) [0..<length tr]) =
          (if due out time then 1 else 0) + length (filter (\<lambda>i. due out (time + 1 + of_nat i)) [0..<length rest])"
        by (simp add: filter_map comp_def ac_simps)
      then show ?thesis using ls(2) that sim_serve_accesses [OF st1(1)] \<open>tr = (ob, w) # rest\<close> by simp
    qed
    ultimately show ?thesis by blast
  qed
qed

lemma main_loop_quiet:
  assumes "out_interval out = 0" "read_all F r = Inr tr" "sim_run P rnd opts time tr st = Inr st'"
  shows "main_loop F P print rnd opts out time r st = rbind (sim_outputter_print out P print st' 0 True) (\<lambda>ls. Inr (ls, st'))"
  using assms(2,3)
proof (induction "length tr" arbitrary: tr r time st rule: less_induct)
  case less
  have quiet: "sim_outputter_print out P print s t False = Inr []" "sim_outputter_print out P print s t True =
      sim_outputter_print out P print s 0 True" for s t using assms(1) by (simp_all add: sim_outputter_print_def)
  note same = sim_read_from_list [OF less.prems(1), of opts]
  obtain nx where nx: "sim_read opts tr = Inr nx"
    using less.prems(2) by (subst (asm) sim_run.simps) (auto simp: sim_access_def)
  show ?case
  proof (cases nx)
    case None
    then have "st' = st" using sim_run_empty [OF nx [unfolded None], of P rnd time st] less.prems(2) by simp
    then show ?thesis using same nx None by (subst main_loop.simps) (simp add: quiet(2) [of st time])
  next
    case (Some y)
    then obtain ob w rest where y: "sim_read opts tr = Inr (Some ((ob, w), rest))" using nx by (cases y) auto
    obtain r1 where r1: "sim_read_from F opts r = Inr (Some ((ob, w), r1))" "read_all F r1 = Inr rest"
      using same unfolding y by auto
    obtain st1 where st1: "sim_serve P rnd opts time ob w st = Inr st1" "sim_run P rnd opts (time + 1) rest st1 = Inr st'"
      using less.prems(2) unfolding sim_run_step [OF y] by auto
    from less.hyps [OF sim_read_shorter [OF y] r1(2) st1(2)] show ?thesis
      by (subst main_loop.simps) (simp add: r1(1) st1(1) quiet(1) rbind_assoc)
  qed
qed

text \<open>The interval divides as many of the first \<open>n\<close> times as it fits into \<open>n\<close>.\<close>

lemma due_count:
  assumes "n < 2 ^ 32"
  shows "length (filter (\<lambda>i. due out (1 + of_nat i)) [0..<n]) = n div unat (out_interval out)"
  using assms
proof (induction n)
  case (Suc n)
  let ?w = "unat (out_interval out)"
  have u: "unat (ucast (1 + of_nat n :: u32) :: u64) = Suc n"
  proof -
    have "(1 + of_nat n :: u32) = of_nat (Suc n)" by simp
    then have "unat (1 + of_nat n :: u32) = Suc n" using Suc.prems unat_of_nat_small [of "Suc n", where 'a = 32] by simp
    then show ?thesis by (simp add: unsigned_ucast_eq take_bit_nat_eq_self)
  qed
  have "due out (1 + of_nat n) \<longleftrightarrow> ?w \<noteq> 0 \<and> Suc n mod ?w = 0"
    unfolding due_def word_unat_eq_iff [of "_ mod _"] unat_mod_distrib u by (simp add: unat_eq_0)
  then show ?case using Suc by (auto simp: div_Suc)
qed simp

section \<open>Runs that succeed\<close>

definition runs :: "'s policy_api \<Rightarrow> sim_options \<Rightarrow> trace \<Rightarrow> (nat \<Rightarrow> u32) \<Rightarrow> 's \<Rightarrow> bool" where
  "runs P opts tr rnd s \<longleftrightarrow> (\<exists>st st'. sim_prep opts s = Inr st \<and> sm_stats st = zero_stats \<and> sim_run P rnd opts 1 tr st = Inr st')"

lemma runsI:
  assumes "sim_prep opts s = Inr st" "sim_run P rnd opts 1 tr st = Inr st'"
  shows "runs P opts tr rnd s"
proof -
  have "sm_stats st = zero_stats" using assms(1) by (auto simp: sim_prep_def Let_def)
  then show ?thesis using assms unfolding runs_def by blast
qed

lemma runs_access:
  assumes "access_policy P I cap" "plain_opts opts" "I s" "mview P s = Map.empty"
  shows "runs P opts tr rnd s"
proof -
  have "pending (mview P s) = {}" by (simp add: assms(4) pending_def)
  from access_policy.run_from_start [OF assms(1-3) this] show ?thesis by (blast intro: runsI)
qed

lemma runs_fomo:
  assumes "access_policy P I (unat c)" "plain_opts opts" "1 \<le> c" "I s" "mview P s = Map.empty"
  shows "\<exists>f. fomo_init c s (zero_fomo s) = Inr f \<and> runs (fomo_api P) opts tr rnd f"
proof -
  from fomo_init_ok [OF assms(3), of I s, OF assms(4)] obtain f where
    f: "fomo_init c s (zero_fomo s) = Inr f" "fomo_ok I f" "fo_internal f = s" by blast
  have o: "fomo_over P I (unat c)" by (rule fomo_over.intro) (rule assms(1))
  have "mview (fomo_api P) f = Map.empty" unfolding fomo_pview f(3) by (rule assms(5))
  with fomo_over.fomo_keeps_access [OF o] assms(2) f(2) have "runs (fomo_api P) opts tr rnd f" by (rule runs_access)
  then show ?thesis using f(1) by blast
qed

lemma runs_mstar:
  assumes "access_policy P I (unat c)" "plain_opts opts" "10 \<le> unat c" "9 * unat c < 2 ^ 32" "I s" "mview P s = Map.empty"
  shows "\<exists>f. mstar_init c m s adaptive (zero_mstar s) = Inr f \<and> runs (mstar_api P) opts tr rnd f"
proof -
  let ?I = "\<lambda>s. I s \<and> 10 \<le> unat c \<and> 9 * unat c < 2 ^ 32"
  have o: "mstar_over P ?I (unat c) c"
    by (intro mstar_over.intro access_policy_restrict assms(1)) (simp add: mstar_over_axioms_def)
  have "?I s" using assms(3-5) by simp
  from mstar_init_ok [where I = ?I and m = m and adaptive = adaptive, OF assms(3,4) this] obtain f where
    f: "mstar_init c m s adaptive (zero_mstar s) = Inr f" "ms_internal f = s"
    "mstar_rel ?I c f \<lparr>ap_size = 9 * unat c div 10, ap_ghost = [], ap_logic = start_logic (unat c) adaptive\<rparr>" by blast
  have "mview (mstar_api P) f = Map.empty" unfolding mstar_pview f(2) by (rule assms(6))
  then have p: "pending (mview (mstar_api P) f) = {}" by (simp add: pending_def)
  from runnable_policy.run_from_start [OF mstar_over.mstar_keeps_contract [OF o] assms(2) mstar_okI [OF f(3)] p]
  show ?thesis using f(1) by (blast intro: runsI)
qed

end
