(* ===== verification/Cache_Sim_Props.thy ===== *)
theory Cache_Sim_Props
  imports Cache_Sim_Lib Trace_Props
begin

text \<open>
  The properties of \<open>cache-sim\<close> as a whole: from its arguments and its trace file to what it prints.
\<close>

declare split_paired_All [simp del] split_paired_Ex [simp del]

section \<open>Policies that start\<close>

definition startable :: "'s policy_api \<Rightarrow> (cblock \<Rightarrow> cblock \<Rightarrow> 's res) \<Rightarrow> cblock \<Rightarrow> cblock \<Rightarrow> bool" where
  "startable P create c m \<longleftrightarrow>
     (\<exists>I s. create c m = Inr s \<and> access_policy P I (unat c) \<and> I s \<and> mview P s = Map.empty)"

lemma startable_plain:
  assumes "startable P create c m" "plain_opts opts"
  shows "\<exists>s. create c m = Inr s \<and> runs P opts tr rnd s"
proof -
  obtain I s where s: "create c m = Inr s" "access_policy P I (unat c)" "I s" "mview P s = Map.empty"
    using assms(1) unfolding startable_def by blast
  from runs_access [OF s(2) assms(2) s(3,4)] show ?thesis using s(1) by blast
qed

lemma startable_fomo:
  assumes "startable P create c m" "plain_opts opts" "2 \<le> unat c"
  shows "\<exists>s. fomo_create c m create = Inr s \<and> runs (fomo_api P) opts tr rnd s"
proof -
  obtain I s where s: "create c m = Inr s" "access_policy P I (unat c)" "I s" "mview P s = Map.empty"
    using assms(1) unfolding startable_def by blast
  have "1 \<le> c" using assms(3) by (simp add: word_le_nat_alt)
  from runs_fomo [OF s(2) assms(2) this s(3,4)] show ?thesis using s(1) by (simp add: fomo_create_def)
qed

lemma startable_mstar:
  assumes "startable P create c m" "plain_opts opts" "10 \<le> unat c" "9 * unat c < 2 ^ 32"
  shows "\<exists>s. mstar_create c m create adaptive = Inr s \<and> runs (mstar_api P) opts tr rnd s"
proof -
  obtain I s where s: "create c m = Inr s" "access_policy P I (unat c)" "I s" "mview P s = Map.empty"
    using assms(1) unfolding startable_def by blast
  from runs_mstar [OF s(2) assms(2-4) s(3,4)] show ?thesis using s(1) by (simp add: mstar_create_def)
qed

lemma lru_startable:
  assumes "2 \<le> unat c"
  shows "startable lru_api lru_create c m"
proof -
  have "2 \<le> c" using assms by (simp add: word_le_nat_alt)
  then obtain s where "lru_create c m = Inr s" "lru_ok c s" "ht s = []" using lru_create_ok by blast
  moreover have "mview lru_api s = Map.empty" using calculation(2,3) by (simp add: lru_pview clean_view_def fun_eq_iff)
  ultimately show ?thesis unfolding startable_def using lru.access_policy_axioms by blast
qed

lemma larc_startable:
  assumes "2 \<le> unat c" "10 \<le> unat m" "9 * unat m < 2 ^ 32"
  shows "startable larc_api larc_create c m"
proof -
  have "2 \<le> c" using assms(1) by (simp add: word_le_nat_alt)
  from larc_started [OF this assms(2,3)] show ?thesis unfolding startable_def using larc_access_policy by blast
qed

lemma arc_startable:
  assumes "2 \<le> unat c" "3 * unat c < 2 ^ 32" "unat c \<le> unat m"
  shows "startable arc_api arc_create c m"
proof -
  have "2 \<le> c" using assms(1) by (simp add: word_le_nat_alt)
  from arc_started [OF this assms(2,3)] show ?thesis unfolding startable_def using arc_access_policy by blast
qed

lemma lfu_startable:
  assumes "2 \<le> unat c" "2 * unat c < 2 ^ 32" "\<not> lft_evict lt"
  shows "startable (lfu_api lt) lfu_create c m"
proof -
  have "2 \<le> c" using assms(1) by (simp add: word_le_nat_alt)
  then obtain s where s: "lfu_create c m = Inr s" "lfu_base c s" "ht s = []" using lfu_create_ok [OF _ assms(2)] by blast
  have lt: "lt = stack_bits (lft_oblock lt) (lft_hit lt) False" using assms(3) by simp
  have "mview (lfu_api lt) s = Map.empty" using lfu.starts_empty [OF s(2,3)] by (subst lt) (simp add: lfu_api_def)
  moreover have "access_policy (lfu_api lt) (lfu_base c) (unat c)" by (subst lt) (rule lfu_access_policy)
  ultimately show ?thesis unfolding startable_def using s(1,2) by blast
qed

lemma marc_runs:
  assumes "plain_opts opts" "10 \<le> unat c" "3 * unat c < 2 ^ 32" "unat c \<le> unat m" "length tr < 2 ^ 57"
  shows "\<exists>s. marc_create c m arc_create = Inr s \<and> runs (marc_api arc_api) opts tr rnd s"
proof -
  obtain s where s: "marc_create c m arc_create = Inr s" "\<forall>k < 2 ^ 57. marc_ok (arc_inside c m) c k s"
    "mview (marc_api arc_api) s = Map.empty"
    using marc_started [OF assms(2-4)] by blast
  have p: "pending (mview (marc_api arc_api) s) = {}" by (simp add: s(3) pending_def)
  have "marc_ok (arc_inside c m) c (0 + length tr) s" using s(2) assms(5) by simp
  from marc_arc.marc.run_from_start [OF assms(1) this p] s(1) show ?thesis by (blast intro: runsI)
qed

section \<open>The sizes that fit\<close>

text \<open>
  For which sizes of the cache and of the metadata a policy is proved to run. For LIRS the run must have no migration delay and
  must not start with the block that means \<open>none\<close>.
\<close>

fun base_fits :: "base_policy \<Rightarrow> nat \<Rightarrow> nat \<Rightarrow> bool" where
  "base_fits LRU c m \<longleftrightarrow> 2 \<le> c"
| "base_fits LFU c m \<longleftrightarrow> 2 \<le> c \<and> 2 * c < 2 ^ 32"
| "base_fits LARC c m \<longleftrightarrow> 2 \<le> c \<and> 10 \<le> m \<and> 9 * m < 2 ^ 32"
| "base_fits ARC c m \<longleftrightarrow> 2 \<le> c \<and> 3 * c < 2 ^ 32 \<and> c \<le> m"
| "base_fits MARC c m \<longleftrightarrow> False"
| "base_fits LIRS c m \<longleftrightarrow> False"

fun fits :: "policy_id \<Rightarrow> cblock \<Rightarrow> cblock \<Rightarrow> sim_options \<Rightarrow> trace \<Rightarrow> bool" where
  "fits (Plain MARC) c m opts tr \<longleftrightarrow> 10 \<le> unat c \<and> base_fits ARC (unat c) (unat m) \<and> length tr < 2 ^ 57"
| "fits (Plain LIRS) c m opts tr \<longleftrightarrow> sync_opts opts \<and> lirs_sizes c m \<and> (tr = [] \<or> fst (hd tr) \<noteq> - 1)"
| "fits (Plain b) c m opts tr \<longleftrightarrow> base_fits b (unat c) (unat m)"
| "fits (Fomo b) c m opts tr \<longleftrightarrow> base_fits b (unat c) (unat m)"
| "fits (Mstar b adaptive) c m opts tr \<longleftrightarrow> base_fits b (unat c) (unat m) \<and> 10 \<le> unat c \<and> 9 * unat c < 2 ^ 32"

section \<open>What is printed\<close>

text \<open>
  The last line has the statistics at the end; without sampling its hits and misses are the accesses of the trace, and before it comes
  a line for every full interval (none for the interval 0, since \<open>n div 0 = 0\<close>).
\<close>

definition reported :: "'f run_options \<Rightarrow> trace \<Rightarrow> printed list \<Rightarrow> bool" where
  "reported options tr out \<longleftrightarrow>
     (\<exists>ls ps ss. out = ls @ [stats_line ps ss] \<and>
       (ro_sampling_rate options = 1 \<longrightarrow> accesses ss = of_nat (length tr) \<and>
         (length tr < 2 ^ 32 \<longrightarrow> length ls = length tr div unat (ro_window_size options))))"

lemma simulate_reported:
  assumes "runs P (access_options options) tr (env_random env) s" "ro_output_mode options = DEFAULT"
    and "read_all (env_floats env) reader = Inr tr"
  shows "\<exists>out. simulate env options reader P print s = Inr out \<and> reported options tr out"
proof -
  let ?o = "access_options options" and ?out = "sim_outputter_init (ro_output_mode options) (ro_window_size options)"
  obtain st st' where st: "sim_prep ?o s = Inr st" "sm_stats st = zero_stats"
    "sim_run P (env_random env) ?o 1 tr st = Inr st'" using assms(1) unfolding runs_def by blast
  have mode: "out_mode ?out = DEFAULT" using assms(2) by (simp add: sim_outputter_init_def)
  from main_loop_default [OF mode assms(3) st(3), of print] obtain ls where
    ls: "main_loop (env_floats env) P print (env_random env) ?o ?out 1 reader st = Inr (ls @ [final_line P st'], st')"
    "opt_sampling_rate ?o = 1 \<longrightarrow> accesses (sm_stats st') = accesses (sm_stats st) + of_nat (length tr) \<and>
      length ls = length (filter (\<lambda>i. due ?out (1 + of_nat i)) [0..<length tr])" by blast
  have "accesses (sm_stats st) = 0" by (simp add: st(2) accesses_def zero_stats_def)
  then have "reported options tr (ls @ [final_line P st'])"
    unfolding reported_def final_line_def using ls(2) due_count [of "length tr" ?out]
    by (intro exI [of _ ls] exI [of _ "policy_get_stats P (sm_policy st') stats_init"] exI [of _ "sm_stats st'"])
      (simp add: access_options_def sim_outputter_init_def)
  then show ?thesis using st(1) ls(1) by (simp add: simulate_def Let_def)
qed

text \<open>The initialisation of a wrapper leaves the policy as it is.\<close>

lemma wrapper_inits [simp]:
  "lru_w_policy (snd (lru_wrapper_init fs w1)) = lru_w_policy w1"
  "arc_w_policy (snd (arc_wrapper_init fs w2)) = arc_w_policy w2"
  "larc_w_policy (snd (larc_wrapper_init fs w3)) = larc_w_policy w3"
  "lfu_w_policy (snd (lfu_wrapper_init fs w4)) = lfu_w_policy w4"
  "lirs_w_policy (snd (lirs_wrapper_init fs w5)) = lirs_w_policy w5"
  "marc_w_policy (snd (marc_wrapper_init fs w6)) = marc_w_policy w6"
  "fomo_w_policy (snd (fomo_wrapper_init fs w7)) = fomo_w_policy w7"
  "mstar_w_policy (snd (mstar_wrapper_init fs w8)) = mstar_w_policy w8"
  by (simp_all add: lru_wrapper_init_def arc_wrapper_init_def larc_wrapper_init_def lfu_wrapper_init_def lirs_wrapper_init_def
      marc_wrapper_init_def fomo_wrapper_init_def mstar_wrapper_init_def Let_def split: option.split prod.split)


text \<open>Options and a trace that can be read; the bit of an eviction is not set on the stack under the prediction of LFU.\<close>

definition prepared :: "'f sim_env \<Rightarrow> 'f run_options \<Rightarrow> 'f reader \<Rightarrow> trace \<Rightarrow> bool" where
  "prepared env options reader tr \<longleftrightarrow>
     plain_opts (access_options options) \<and> ro_output_mode options = DEFAULT \<and>
     read_all (env_floats env) reader = Inr tr \<and> \<not> lft_evict (env_stack env)"

lemma preparedD:
  assumes "prepared env options reader tr"
  shows "plain_opts (access_options options)" "ro_output_mode options = DEFAULT"
    "read_all (env_floats env) reader = Inr tr" "\<not> lft_evict (env_stack env)"
  using assms by (simp_all add: prepared_def)

lemma fomo_reported:
  assumes pr: "prepared env options reader tr" and "startable P create c m" "2 \<le> unat c"
  shows "\<exists>out. run_fomo env options reader P (fomo_wrapper_create c m create) = Inr out \<and> reported options tr out"
proof -
  note plain = preparedD(1) [OF pr] and mode = preparedD(2) [OF pr] and read = preparedD(3) [OF pr]
  from startable_fomo [OF assms(2) plain assms(3)] obtain s where
    s: "fomo_create c m create = Inr s" "runs (fomo_api P) (access_options options) tr (env_random env) s" by blast
  from simulate_reported [OF s(2) mode read] s(1) show ?thesis by (simp add: run_fomo_def fomo_wrapper_create_def Let_def)
qed

lemma mstar_reported:
  assumes pr: "prepared env options reader tr" and "startable P create c m" "10 \<le> unat c" "9 * unat c < 2 ^ 32"
  shows "\<exists>out. run_mstar env options reader P (mstar_wrapper_create c m create adaptive) = Inr out \<and> reported options tr out"
proof -
  note plain = preparedD(1) [OF pr] and mode = preparedD(2) [OF pr] and read = preparedD(3) [OF pr]
  from startable_mstar [OF assms(2) plain assms(3,4)] obtain s where
    s: "mstar_create c m create adaptive = Inr s" "runs (mstar_api P) (access_options options) tr (env_random env) s" by blast
  from simulate_reported [OF s(2) mode read] s(1) show ?thesis by (simp add: run_mstar_def mstar_wrapper_create_def Let_def)
qed

lemma plain_reported:
  assumes pr: "prepared env options reader tr" and "fits (Plain b) c m (access_options options) tr"
  shows "\<exists>out. run_policy env options reader c m (Plain b) = Inr out \<and> reported options tr out"
proof -
  note plain = preparedD(1) [OF pr] and mode = preparedD(2) [OF pr] and read = preparedD(3) [OF pr] and stack = preparedD(4) [OF pr]
  show ?thesis
  proof (cases b)
    case LRU
    then have "startable lru_api lru_create c m" using assms lru_startable by simp
    from startable_plain [OF this plain] obtain s where "lru_create c m = Inr s"
      "runs lru_api (access_options options) tr (env_random env) s" by blast
    with simulate_reported [OF this(2) mode read] LRU show ?thesis by (simp add: lru_wrapper_create_def Let_def)
  next
    case ARC
    then have "startable arc_api arc_create c m" using assms arc_startable by simp
    from startable_plain [OF this plain] obtain s where "arc_create c m = Inr s"
      "runs arc_api (access_options options) tr (env_random env) s" by blast
    with simulate_reported [OF this(2) mode read] ARC show ?thesis by (simp add: arc_wrapper_create_def Let_def)
  next
    case LARC
    then have "startable larc_api larc_create c m" using assms larc_startable by simp
    from startable_plain [OF this plain] obtain s where "larc_create c m = Inr s"
      "runs larc_api (access_options options) tr (env_random env) s" by blast
    with simulate_reported [OF this(2) mode read] LARC show ?thesis by (simp add: larc_wrapper_create_def Let_def)
  next
    case LFU
    then have "startable (lfu_api (env_stack env)) lfu_create c m" using assms lfu_startable stack by simp
    from startable_plain [OF this plain] obtain s where "lfu_create c m = Inr s"
      "runs (lfu_api (env_stack env)) (access_options options) tr (env_random env) s" by blast
    with simulate_reported [OF this(2) mode read] LFU show ?thesis by (simp add: lfu_wrapper_create_def Let_def)
  next
    case MARC
    then obtain s where "marc_create c m arc_create = Inr s"
      "runs (marc_api arc_api) (access_options options) tr (env_random env) s"
      using marc_runs [OF plain, of c m tr "env_random env"] assms by auto
    with simulate_reported [OF this(2) mode read] MARC show ?thesis by (simp add: marc_wrapper_create_def Let_def)
  next
    case LIRS
    then have l: "sync_opts (access_options options)" "lirs_sizes c m" "tr = [] \<or> fst (hd tr) \<noteq> - 1" using assms by simp_all
    from lirs_from_create [OF l, of "env_random env"] obtain s where "lirs_create c m = Inr s"
      "runs lirs_api (access_options options) tr (env_random env) s" by (blast intro: runsI)
    with simulate_reported [OF this(2) mode read] LIRS show ?thesis by (simp add: lirs_wrapper_create_def Let_def)
  qed
qed

lemma policy_reported:
  assumes pr: "prepared env options reader tr" and "fits n c m (access_options options) tr"
  shows "\<exists>out. run_policy env options reader c m n = Inr out \<and> reported options tr out"
proof (cases n)
  case (Plain b)
  then show ?thesis using plain_reported [OF pr] assms(2) by simp
next
  case (Fomo b)
  then show ?thesis using assms fomo_reported [OF pr lru_startable] fomo_reported [OF pr larc_startable]
      fomo_reported [OF pr arc_startable] fomo_reported [OF pr lfu_startable [OF _ _ preparedD(4) [OF pr]]]
    by (cases b) (simp_all add: wrapper_creates)
next
  case (Mstar b adaptive)
  show ?thesis using Mstar assms mstar_reported [OF pr lru_startable] mstar_reported [OF pr larc_startable]
      mstar_reported [OF pr arc_startable] mstar_reported [OF pr lfu_startable [OF _ _ preparedD(4) [OF pr]]]
    by (cases b; cases adaptive) (simp_all add: wrapper_creates)
qed

section \<open>From the arguments to the output\<close>

lemma handle_args_found:
  assumes "handle_args fopen opts argv o0 = Inr (Some options)"
  shows "\<exists>n t. find_policy (ro_policy_name options) = Some n \<and> find_trace_reader (ro_trace_name options) = Some t"
proof -
  obtain o1 where "handle_required_args argv o1 = Inr options"
    using assms by (auto simp: handle_args_def split: option.splits)
  then show ?thesis by (auto simp: handle_required_args_def Let_def split: if_splits)
qed

lemma cache_sim_policy:
  assumes "handle_args (env_fopen env) opts argv (initial_options (env_stdin env)) = Inr (Some options)"
    and "trace_prep env options = Inr reader" "find_policy (ro_policy_name options) = Some n" "prep_sizes options = Inr (c, m)"
  shows "cache_sim env opts argv = run_policy env options reader c m n"
  using assms by (simp add: cache_sim_def policy_prep_def find_wrapper_policy)

text \<open>
  C2. From its arguments and the trace to its output, \<open>cache-sim\<close> does its work for every policy of the registry but those in front of
  mARC and LIRS: if the arguments are accepted, with a migration delay below 2^31, without removals, and the sizes fit the policy, then
  the program runs over every trace that its reader reads to the end without a fault. It prints the statistics, and without
  sampling the hits and misses it counts for reads and writes are all the accesses of the trace, and one line is printed for every
  full interval before the last.
\<close>
theorem cache_sim_total:
  assumes "handle_args (env_fopen env) opts argv (initial_options (env_stdin env)) = Inr (Some options)"
    and "ro_output_mode options = DEFAULT" "plain_opts (access_options options)" "\<not> lft_evict (env_stack env)"
    and "trace_prep env options = Inr reader" "read_all (env_floats env) reader = Inr tr"
    and "find_policy (ro_policy_name options) = Some n" "prep_sizes options = Inr (c, m)"
    and "fits n c m (access_options options) tr"
  shows "\<exists>out. cache_sim env opts argv = Inr out \<and> reported options tr out"
proof -
  have "prepared env options reader tr" using assms(2-4,6) by (simp add: prepared_def)
  from policy_reported [OF this assms(9)] show ?thesis unfolding cache_sim_policy [OF assms(1,5,7,8)] .
qed

definition some_env :: "oblock list \<Rightarrow> u64 sim_env" where
  "some_env obs = \<lparr>env_floats = whole_times, env_zero = 0, env_fopen = (\<lambda>_. None), env_stdin = no_file\<lparr>as_basic := obs\<rparr>,
     env_random = (\<lambda>_. 0), env_stack = stack_bits 0 False False\<rparr>"

lemma read_basic: "read_all F (Basic (zero_reader\<lparr>tr_file := obs\<rparr>)) = Inr (map (\<lambda>ob. (ob, False)) obs)"
proof (induction obs)
  case Nil
  then show ?case by (subst read_all.simps) (simp add: basic_trace_read_def)
next
  case (Cons ob obs)
  then show ?case by (subst read_all.simps) (simp add: basic_trace_read_def)
qed

lemma trace_basic: "ro_trace_name options = ''basic'' \<Longrightarrow> ro_fp options = no_file\<lparr>as_basic := obs\<rparr> \<Longrightarrow>
    trace_prep env options = Inr (Basic (zero_reader\<lparr>tr_file := obs\<rparr>))"
  by (simp add: trace_prep_def find_trace_reader_def trace_reader_names_match_def strncasecmp_eq_def deref_def reader_init_def
      basic_trace_init_def no_file_def zero_reader_def)

definition run_with :: "string \<Rightarrow> cblock \<Rightarrow> u64 \<Rightarrow> u64 trace_file \<Rightarrow> u64 run_options" where
  "run_with name c w file = (initial_options file)\<lparr>ro_policy_name := name, ro_cache_size := c, ro_metadata_size := uint c,
     ro_trace_name := ''basic'', ro_window_size := w\<rparr>"

lemmas args_simps = handle_args_def handle_required_args_def handle_option_def sscanf_u_def scan_integer_def is_space_def is_digit_def
  initial_options_def run_with_def Let_def

theorem cache_sim_total_witness:
  "\<exists>out. cache_sim (some_env [1, 2, 1, 3, 1]) [(CHR ''w'', ''2'')] [''FOMO_lru'', ''4'', ''basic''] = Inr out \<and> length out = 3"
proof -
  let ?env = "some_env [1, 2, 1, 3, 1]" and ?tr = "map (\<lambda>ob. (ob, False)) [1, 2, 1, 3, 1] :: trace"
  let ?o = "run_with ''FOMO_lru'' 4 2 (no_file\<lparr>as_basic := [1, 2, 1, 3, 1]\<rparr>)"
  have f: "find_policy ''FOMO_lru'' = Some (Fomo LRU)" unfolding find_policy_Some by code_simp
  have t: "find_trace_reader ''basic'' = Some basic_trace"
    by (simp add: find_trace_reader_def trace_reader_names_match_def strncasecmp_eq_def)
  have a: "handle_args (env_fopen ?env) [(CHR ''w'', ''2'')] [''FOMO_lru'', ''4'', ''basic''] (initial_options (env_stdin ?env)) = Inr (Some ?o)"
    by (simp add: args_simps f t some_env_def)
  have o: "ro_output_mode ?o = DEFAULT" "plain_opts (access_options ?o)" "\<not> lft_evict (env_stack ?env)" "ro_sampling_rate ?o = 1"
    "ro_window_size ?o = 2"
    by (simp_all add: run_with_def initial_options_def plain_opts_def access_options_def some_env_def)
  have r: "trace_prep ?env ?o = Inr (Basic (zero_reader\<lparr>tr_file := [1, 2, 1, 3, 1]\<rparr>))"
    by (rule trace_basic) (simp_all add: run_with_def initial_options_def)
  have p: "prep_sizes ?o = Inr (4, 4)" by (simp add: prep_sizes_def run_with_def initial_options_def udiv_def)
  have n: "find_policy (ro_policy_name ?o) = Some (Fomo LRU)" using f by (simp add: run_with_def)
  have "fits (Fomo LRU) 4 4 (access_options ?o) ?tr" by simp
  from cache_sim_total [OF a o(1-3) r read_basic n p this] obtain out where
    out: "cache_sim ?env [(CHR ''w'', ''2'')] [''FOMO_lru'', ''4'', ''basic''] = Inr out" "reported ?o ?tr out" by blast
  then have "length out = 3" using o(4,5) by (auto simp: reported_def)
  then show ?thesis using out(1) by blast
qed

lemma simulate_quiet:
  assumes "ro_window_size options = 0" "read_all (env_floats env) reader = Inr tr"
    and "sim_prep (access_options options) s = Inr st" "sim_run P (env_random env) (access_options options) 1 tr st = Inr st'"
  shows "simulate env options reader P print s =
    (case ro_output_mode options of DEFAULT \<Rightarrow> Inr [final_line P st'] | WATCHER \<Rightarrow> print (sm_policy st'))"
proof -
  have "out_interval (sim_outputter_init (ro_output_mode options) (ro_window_size options)) = 0"
    using assms(1) by (simp add: sim_outputter_init_def)
  from main_loop_quiet [OF this assms(2,4), of print] show ?thesis
    unfolding simulate_def Let_def assms(3)
    by (simp add: sim_outputter_print_def sim_outputter_init_def final_line_def rbind_assoc split: sim_output_mode.split)
qed

lemma lru_wrapper_prints:
  assumes "lru_w_q w"
  shows "lru_wrapper_print w =
    (if lru_q (lru_w_policy w) = [] then Inl NullDeref else Inr [Chain (recent (lru_abs (lru_w_policy w)))])"
  using assms by (cases "lru_q (lru_w_policy w)")
    (simp_all add: lru_wrapper_print_def Let_def q_peek_def deref_def lru_abs_def)

text \<open>
  C3. \<open>cache-sim\<close> over LRU, without a migration delay, removals and sampling, prints one line at the end, whose hits are the accesses to a block
  that was among the last distinct ones before, as many as the cache holds. With \<open>--watch lru_q\<close> it prints these blocks
  in the order of their last use instead; but for an empty trace it reads through a null pointer.
\<close>
theorem cache_sim_lru:
  assumes "handle_args (env_fopen env) opts argv (initial_options (env_stdin env)) = Inr (Some options)"
    and "sync_opts (access_options options)" "ro_window_size options = 0" "2 \<le> ro_cache_size options"
    and "find_policy (ro_policy_name options) = Some (Plain LRU)"
    and "trace_prep env options = Inr reader" "read_all (env_floats env) reader = Inr tr"
    and "c = unat (ro_cache_size options)"
  shows "(ro_output_mode options = DEFAULT \<longrightarrow> (\<exists>ps ss. cache_sim env opts argv = Inr [stats_line ps ss] \<and>
      ss_read_hits ss + ss_write_hits ss = of_nat (lru_hits c [] (map fst tr)))) \<and>
    (ro_output_mode options = WATCHER \<and> ro_watch_str options = ''lru_q'' \<longrightarrow>
      cache_sim env opts argv = (if tr = [] then Inl NullDeref else Inr [Chain (last_distinct c (map fst tr))]))"
proof -
  let ?c = "ro_cache_size options"
  have one: "ro_sampling_rate options = 1" using assms(2) by (simp add: sync_opts_def access_options_def)
  have "(ucast (ucast ?c :: u64) :: u32) = ?c" by (rule ucast_up_ucast_id) (simp add: is_up)
  with one obtain m where m: "prep_sizes options = Inr (?c, m)" by (simp add: prep_sizes_def udiv_def)
  from lru_from_create [OF assms(2,4), of m "env_random env" tr] obtain s st st' where
    s: "lru_create ?c m = Inr s" "sim_prep (access_options options) s = Inr st"
      "sim_run lru_api (env_random env) (access_options options) 1 tr st = Inr st'" and
    at: "lru_at ?c (last_distinct c (map fst tr)) st'" "hits (sm_stats st') = of_nat (lru_hits c [] (map fst tr))"
    unfolding assms(8) by blast
  define w where "w = snd (lru_wrapper_init (Some (ro_watch_str options)) \<lparr>lru_w_policy = s, lru_w_q = False\<rparr>)"
  have w: "lru_w_policy w = s" by (simp add: w_def)
  have run: "cache_sim env opts argv = (case ro_output_mode options of
      DEFAULT \<Rightarrow> Inr [final_line lru_api st'] | WATCHER \<Rightarrow> lru_wrapper_print (w\<lparr>lru_w_policy := sm_policy st'\<rparr>))"
    unfolding cache_sim_policy [OF assms(1,6,5) m]
    using s(1) simulate_quiet [OF assms(3,7) s(2,3), of "\<lambda>s. lru_wrapper_print (w\<lparr>lru_w_policy := s\<rparr>)"]
    by (simp add: lru_wrapper_create_def Let_def w_def)
  have q: "recent (lru_abs (sm_policy st')) = last_distinct c (map fst tr)" using at(1) by (simp add: lru_at_def)
  have "0 < c" unfolding assms(8) using assms(4) by (simp add: word_le_nat_alt)
  have nil: "last_distinct c xs = [] \<longleftrightarrow> xs = []" for xs
  proof -
    have "last_distinct c xs = [] \<longleftrightarrow> length (remdups xs) \<le> length (remdups xs) - c"
      by (simp only: last_distinct_def Let_def drop_eq_Nil)
    also have "\<dots> \<longleftrightarrow> length (remdups xs) = 0" using \<open>0 < c\<close> by linarith
    finally show ?thesis by simp
  qed
  have "lru_q (sm_policy st') = [] \<longleftrightarrow> recent (lru_abs (sm_policy st')) = []" by (simp add: lru_abs_def)
  then have e: "lru_q (sm_policy st') = [] \<longleftrightarrow> tr = []" unfolding q nil by simp
  have watch: "ro_watch_str options = ''lru_q'' \<Longrightarrow> lru_w_q w"
    by (simp add: w_def lru_wrapper_init_def alg_wrapper_read_def)
  have "lru_wrapper_print (w\<lparr>lru_w_policy := sm_policy st'\<rparr>) =
      (if tr = [] then Inl NullDeref else Inr [Chain (last_distinct c (map fst tr))])" if "lru_w_q w"
    using lru_wrapper_prints [of "w\<lparr>lru_w_policy := sm_policy st'\<rparr>"] that unfolding q [symmetric] by (simp add: e)
  then show ?thesis unfolding run using at(2) watch by (auto simp: final_line_def hits_def add.commute)
qed

theorem cache_sim_lru_witness:
  "cache_sim (some_env [1, 2, 1, 3]) [(CHR ''>'', ''lru_q'')] [''lru'', ''2'', ''basic''] = Inr [Chain [1, 3]]"
proof -
  let ?env = "some_env [1, 2, 1, 3]" and ?tr = "map (\<lambda>ob. (ob, False)) [1, 2, 1, 3] :: trace"
  let ?o = "(run_with ''lru'' 2 0 (no_file\<lparr>as_basic := [1, 2, 1, 3]\<rparr>))\<lparr>ro_watch_str := ''lru_q'', ro_output_mode := WATCHER\<rparr>"
  have f: "find_policy ''lru'' = Some (Plain LRU)" unfolding find_policy_Some by code_simp
  have t: "find_trace_reader ''basic'' = Some basic_trace"
    by (simp add: find_trace_reader_def trace_reader_names_match_def strncasecmp_eq_def)
  have a: "handle_args (env_fopen ?env) [(CHR ''>'', ''lru_q'')] [''lru'', ''2'', ''basic''] (initial_options (env_stdin ?env)) = Inr (Some ?o)"
    by (simp add: args_simps f t some_env_def)
  have o: "sync_opts (access_options ?o)" "ro_window_size ?o = 0" "2 \<le> ro_cache_size ?o" "find_policy (ro_policy_name ?o) = Some (Plain LRU)"
    "2 = unat (ro_cache_size ?o)"
    by (simp_all add: run_with_def initial_options_def sync_opts_def access_options_def f)
  have r: "trace_prep ?env ?o = Inr (Basic (zero_reader\<lparr>tr_file := [1, 2, 1, 3]\<rparr>))"
    by (rule trace_basic) (simp_all add: run_with_def initial_options_def)
  have "ro_output_mode ?o = WATCHER" "ro_watch_str ?o = ''lru_q''" by simp_all
  moreover have "last_distinct 2 (map fst ?tr) = [1, 3]" by (simp add: last_distinct_def)
  ultimately show ?thesis using cache_sim_lru [OF a o(1-4) r read_basic o(5)] by simp
qed

section \<open>Names\<close>

text \<open>
  C34. A policy is found under its name and under no other: the search ignores the case of letters and whatever follows the first 60
  characters, no name hides another, and the wrappers are found under the same names.
\<close>
theorem policy_names:
  "(find_policy s = Some n \<longleftrightarrow> map tolower (take 60 s) = spelling n) \<and> find_policy (spelling n) = Some n \<and>
    find_wrapper s = find_policy s"
  using find_policy_Some [of s n] find_policy_Some [of "spelling n" n] folded_spelling [of n]
  by (simp add: folded_name_def find_wrapper_policy)

fun joined :: "string list \<Rightarrow> string" where
  "joined [] = []"
| "joined [p] = p"
| "joined (p # q # ps) = p @ CHR '','' # joined (q # ps)"

lemma alg_field_set_eq:
  "distinct (map fst fs) \<Longrightarrow> alg_field_set p fs =
     (if p \<in> fst ` set fs then (0, map (\<lambda>(i, b). (i, b \<or> i = p)) fs) else (- 1, fs))"
  by (induction p fs rule: alg_field_set.induct) (auto simp: image_iff intro!: map_idI [symmetric])

lemma read_fields_part:
  "CHR '','' \<notin> set p \<Longrightarrow> read_fields tmp (p @ CHR '','' # str) fs =
    (let (r, fs) = alg_field_set (tmp @ p) fs in if r \<noteq> 0 then (r, fs) else read_fields [] str fs)"
  "CHR '','' \<notin> set p \<Longrightarrow> read_fields tmp p fs = alg_field_set (tmp @ p) fs"
  by (induction p arbitrary: tmp) auto

text \<open>
  C35. The flags that a list of names turns on: all that are named before the first name that is not known, and the result is 0 only if
  every name is known.
\<close>
theorem watch_fields:
  assumes "ps \<noteq> []" "\<forall>p \<in> set ps. CHR '','' \<notin> set p" "distinct (map fst fs)"
  shows "alg_wrapper_read (joined ps) fs =
    (let known = takeWhile (\<lambda>p. p \<in> fst ` set fs) ps in
     (if known = ps then 0 else - 1, map (\<lambda>(i, b). (i, b \<or> i \<in> set known)) fs))"
  using assms
proof (induction ps arbitrary: fs rule: joined.induct)
  case (2 p)
  then show ?case
    by (auto simp: alg_wrapper_read_def read_fields_part alg_field_set_eq intro!: map_idI [symmetric])
next
  case (3 p q ps)
  let ?fs = "map (\<lambda>(i, b). (i, b \<or> i = p)) fs"
  have k: "fst ` set ?fs = fst ` set fs" by force
  have d: "map fst ?fs = map fst fs" by (simp add: comp_def case_prod_beta)
  have "distinct (map fst ?fs)" using 3(4) unfolding d .
  with 3 have IH: "alg_wrapper_read (joined (q # ps)) ?fs =
      (let known = takeWhile (\<lambda>p. p \<in> fst ` set ?fs) (q # ps) in
       (if known = q # ps then 0 else - 1, map (\<lambda>(i, b). (i, b \<or> i \<in> set known)) ?fs))" by simp
  show ?case
  proof (cases "p \<in> fst ` set fs")
    case True
    have "alg_wrapper_read (joined (p # q # ps)) fs = alg_wrapper_read (joined (q # ps)) ?fs"
      using 3(3,4) True by (simp add: alg_wrapper_read_def read_fields_part alg_field_set_eq)
    then show ?thesis unfolding IH k using True by (simp add: Let_def comp_def case_prod_beta disj_assoc)
  next
    case False
    then have "alg_wrapper_read (joined (p # q # ps)) fs = (- 1, fs)"
      using 3(3,4) by (simp add: alg_wrapper_read_def read_fields_part alg_field_set_eq)
    then show ?thesis using False by (simp add: map_idI case_prod_beta)
  qed
qed simp

theorem watch_fields_witness:
  "alg_wrapper_read ''state,states,hr-miss-history'' [(''state'', False), (''hr-miss-history'', False)] =
    (- 1, [(''state'', True), (''hr-miss-history'', False)])"
  using watch_fields [of "[''state'', ''states'', ''hr-miss-history'']" "[(''state'', False), (''hr-miss-history'', False)]"] by simp

end
