(* ===== verification/Spec2Isabelle.thy ===== *)
theory Spec2Isabelle
  imports Systems Lru_Props Fomo_Props Queue_Props Nucleus_Props Migration_Props Larc_Props Arc_Props Lfu_Props Marc_Props Lirs_Props Mstar_Props Trace_Props Cache_Sim_Props
begin

text \<open>
  FOMO, a library of cache replacement and admission policies for block devices, and its simulator
  (\<open>src/src\<close>). This is the root of a development that models the policies, the data structures below
  them and the simulator above them, and proves that they do what they are for.

  \<^bold>\<open>The program.\<close> A policy is a \<open>struct cache_nucleus\<close>: two pools of preallocated entries (for cached blocks and
  for metadata), a hash table from blocks of the origin device to entries, statistics, and a table of function pointers
  through which clients call it. Every policy extends it with queues or a heap. \<open>map\<close> serves an access: it
  builds a transaction, decides whether it is legal, commits it, and reports a hit, a new block, a replaced
  block, a filtered or a failed access. A block that enters the cache is migrating until \<open>migrated\<close> is called; it
  cannot be evicted meanwhile. FOMO, mARC and M* are policies in front of another policy. The simulator reads a trace,
  calls \<open>map\<close>, and reports the end of migrations after a delay.

  \<^bold>\<open>The model.\<close> Machine integers are words of their width. Entries are addresses into two blocks of memory, and a
  policy is a record with that memory, so that aliasing between table, queues and callers is in the model. An undefined
  or failing operation (a null pointer, a failed \<open>LOG_ASSERT\<close>, a division by zero, an index outside an array, a write to
  a node of a list it is not in) is a fault, the left side of the type \<open>res\<close>; loops that need not end are
  \<open>partial_function\<close>s whose missing result is the fault \<open>Endless\<close>. Queues and the hash table are modelled twice: on
  pointers, and as lists; the policies use the lists, and the theorems of \<open>Queue_Props\<close> justify it.

  \<^bold>\<open>The theories\<close>, with the files they model:
  \<^item> \<open>Prelude\<close>: types, faults and their calculus (\<open>succeeds\<close>), words, \<open>max\<close> and \<open>min\<close>.
  \<^item> \<open>Kernel_List\<close> (\<open>include/kernel/list.h\<close>), \<open>Queue\<close> (\<open>include/tools/queue.h\<close>), \<open>Hash\<close> and \<open>Hashtable\<close>
    (\<open>include/kernel/hash.h\<close>, \<open>include/tools/hashtable.h\<close>), \<open>Heap\<close> (\<open>include/tools/heap.h\<close>), \<open>Window\<close>
    (\<open>include/tools/window_stats.h\<close>): the data structures. \<open>Queue_Props\<close> and \<open>Heap_Props\<close> have their properties.
  \<^item> \<open>Epool\<close> (\<open>include/entry.h\<close>, \<open>include/tools/epool.h\<close>), \<open>Nucleus\<close> (\<open>include/cache_nucleus_*.h\<close>,
    \<open>include/policy_stats.h\<close>, \<open>include/writeback_tracker.h\<close>): entries, pools and the nucleus, with the invariant \<open>cn_ok\<close>
    that ties the flags of the entries, the free lists, the counters and the table together.
  \<^item> \<open>Policy\<close>: the table of functions and the contracts of a policy, as locales over the view of the cached
    blocks: \<open>runnable_policy\<close> for a bounded number of accesses, \<open>metered_policy\<close> with the prediction of victims,
    \<open>access_policy\<close> for any number of accesses, \<open>cache_policy\<close> with removals, \<open>write_policy\<close> with dirty marks. \<open>Parts\<close> has the shorter form for
    policies in their own nucleus, and the states that calls can reach: \<open>policy_reach\<close> by all calls in any order, \<open>policy_used\<close> by loading
    blocks first and all the other calls afterwards, with the locales \<open>managed_policy\<close>, \<open>loadable_policy\<close> and \<open>driven_policy\<close> for them.
  \<^item> \<open>Lru\<close>, \<open>Larc\<close>, \<open>Arc\<close>, \<open>Lfu\<close> (\<open>algs/*/*_policy.c\<close>): the policies, each with its invariant, its
    abstract cache (\<open>Lru_Spec\<close>, \<open>Arc_Spec\<close>, and inside the others) and its properties (\<open>*_Props\<close>).
  \<^item> \<open>Lirs\<close> (\<open>algs/lirs/lirs_policy.c\<close>): LIRS, without the general contract (its findings say why). \<open>Lirs_Spec\<close> has its abstract
    cache, \<open>Lirs_Inv\<close> the invariant, \<open>Lirs_Steps\<close> and \<open>Lirs_Access\<close> the refinement of every step and of an access,
    \<open>Lirs_Run\<close> the runs of the simulator.
  \<^item> \<open>Fomo\<close> (\<open>fomo/fomo_policy.c\<close>) and \<open>Marc\<close> (\<open>algs/marc/marc_policy.c\<close>): the policies in front of another, proved
    once over any policy that keeps the contract, and interpreted on LRU, LARC, ARC and LFU, and on ARC.
  \<^item> \<open>Mstar_Logic\<close> (\<open>mstar/mstar_phase.c\<close>, \<open>mstar_transitions.c\<close>, \<open>mstar_logic.c\<close>) and \<open>Mstar\<close> (\<open>mstar/mstar_policy.c\<close>):
    M* in front of another policy. \<open>Mstar_Inv\<close> has the exact logic, \<open>Ghost_List\<close> a nucleus that is a ghost list,
    \<open>Mstar_Access\<close> the accesses over any policy that keeps the contract, \<open>Mstar_Props\<close> LRU and ARC behind it.
  \<^item> \<open>Trace_Reader\<close> (\<open>trace_reader/*.h\<close>) and \<open>Trace_Props\<close>: the readers that turn the requests of a trace into accesses.
  \<^item> \<open>Migration\<close> (\<open>sim/sim_migration_tracker.h\<close>) and \<open>Sim\<close> (\<open>sim/main.c\<close>): the simulator, with the proof that no run
    over a policy that keeps the contract faults. \<open>Systems\<close> and this theory compose the policies with it.
  \<^item> \<open>Registry\<close> (\<open>policy_registry/policy_registry.h\<close>), \<open>Wrapper\<close> (\<open>include/alg_wrapper.h\<close>, \<open>*_wrapper.c\<close>,
    \<open>policy_registry/wrapper_registry.h\<close>): the policies by name, and what is printed of them. \<open>Cache_Sim\<close> (\<open>sim/main.c\<close>,
    \<open>sim/sim_args.h\<close>, \<open>sim/ext/sim_outputter.h\<close>): the program, from the arguments to the output; \<open>Cache_Sim_Lib\<close> relates
    its loop over a reader to the runs over a list, \<open>Cache_Sim_Props\<close> has its properties.

  \<^bold>\<open>What the theorems show.\<close> Every access to a policy refines an access to an abstract cache in exact numbers and lists:
  operation, victim, contents, order, adaptive sizes. An access to mARC is exactly the access to ARC behind it or is filtered. The
  invariants hold in every state the API can reach: for LRU and LARC by accesses, reports of migrations, removals, remappings and
  insertions in any order, for ARC with the insertions first (a later one can break the bound of T1 and its ghosts, \<open>arc_late_load\<close>).
  The prediction of \<open>next_victim\<close> agrees with the access that follows. Runs of the simulator read the whole trace without
  a fault; for LRU their hits are the accesses to one of the last distinct blocks, and a larger cache never
  has fewer; for LIRS a scan over new blocks evicts no low block. The trace readers read
  every page with a requested sector once, in order. The program \<open>cache-sim\<close> runs to its end for every policy that fits its sizes, and its
  counts are the accesses of the trace. The rest is about the data structures, and about errors: inputs at which the code faults.

  \<^bold>\<open>Bounds.\<close> Caches have at least two blocks, because \<open>infer_cblock\<close> reads two entries. LARC needs metadata for ten
  blocks and \<open>9 * m < 2^32\<close>; ARC \<open>3 * c < 2^32\<close> and as much metadata as cache, twice as much for removals; LFU
  \<open>2 * c < 2^32\<close>, and its order needs counters below \<open>2^31\<close>; LIRS three blocks, one of metadata and \<open>2 * c < 2^32\<close>, and its
  runs are without migration delay; mARC ten blocks and fewer than \<open>2^57\<close> accesses, because it
  multiplies 64-bit counters by 100; M* 10 to 2^32/9 blocks, and its rates are exact up to 2^24 blocks and while the
  accesses since the counters of the state were reset stay below 2^32/100. Runs have a migration delay below \<open>2^31\<close> and no removals. No fuel is used.

  \<^bold>\<open>Not modelled.\<close> Allocation is taken to succeed, and what only frees memory has no model. \<open>getopt_long\<close>, the text of the help and the format of the lines are not modelled,
  nor are the conversions of \<open>fscanf\<close>: a file is the list of what they give line by line; the arithmetic of \<open>float\<close> and \<open>double\<close> in the
  trace readers and the random numbers of the simulator are arguments. The
  kernel target and its patches, the algorithms that are no longer built, the classifiers the simulator does not call and
  \<open>fixedptc.h\<close> are left out.
\<close>

section \<open>LRU under the simulator\<close>

text \<open>
  C1. A run of the simulator without migration delay, removals and sampling, over a freshly created
  LRU cache of at least two blocks, reads the whole trace without a fault. Afterwards the cache
  holds, in this order, the last distinct blocks of the trace, as many as fit, none of them is
  migrating, and the hits counted are the accesses to a block that is among the last distinct
  blocks before it.
\<close>
theorem lru_simulation:
  assumes "sync_opts opts" "2 \<le> c"
  shows "\<exists>s st st'. lru_create c msize = Inr s \<and> sim_prep opts s = Inr st \<and>
    sim_run lru_api rnd opts 1 tr st = Inr st' \<and>
    lru_abs (sm_policy st') = \<lparr>recent = last_distinct (unat c) (map fst tr), on_way = {}\<rparr> \<and>
    hits (sm_stats st') = of_nat (lru_hits (unat c) [] (map fst tr))"
  using lru_from_create [OF assms, of msize rnd tr] by (auto simp: lru_at_def)

definition some_opts :: sim_options where
  "some_opts = \<lparr>opt_sampling_rate = 1, opt_migration_delay = 0, opt_remove_rate = 0\<rparr>"

theorem lru_simulation_witness:
  "\<exists>s st st'. lru_create 2 0 = Inr s \<and> sim_prep some_opts s = Inr st \<and>
    sim_run lru_api (\<lambda>_. 0) some_opts 1 [(1, False), (2, True), (1, False), (3, False)] st = Inr st' \<and>
    lru_abs (sm_policy st') = \<lparr>recent = [1, 3], on_way = {}\<rparr> \<and> hits (sm_stats st') = 1"
proof -
  have o: "sync_opts some_opts" and c: "2 \<le> (2 :: cblock)" by (simp_all add: sync_opts_def some_opts_def)
  have l: "last_distinct 2 [1, 2, 1, 3] = [1, 3]" "(of_nat (lru_hits 2 [] [1, 2, 1, 3]) :: u32) = 1"
    by (simp_all add: last_distinct_def)
  show ?thesis
    using lru_simulation [OF o c, of 0 "\<lambda>_. 0" "[(1, False), (2, True), (1, False), (3, False)]"] l
    by (simp del: lru_hits.simps)
qed

text \<open>
  C15. LRU has no Belady anomaly: over the same trace, of fewer than 2^32 accesses, a larger LRU cache
  has at least as many hits.
\<close>
theorem lru_no_belady:
  assumes "sync_opts opts" "2 \<le> c" "c \<le> c'" "length tr < 2 ^ 32"
  shows "\<exists>s1 st1 st1' s2 st2 st2'.
    lru_create c msize = Inr s1 \<and> sim_prep opts s1 = Inr st1 \<and> sim_run lru_api rnd opts 1 tr st1 = Inr st1' \<and>
    lru_create c' msize = Inr s2 \<and> sim_prep opts s2 = Inr st2 \<and> sim_run lru_api rnd opts 1 tr st2 = Inr st2' \<and>
    hits (sm_stats st1') \<le> hits (sm_stats st2')"
proof -
  let ?h = "\<lambda>c. lru_hits (unat c) [] (map fst tr)"
  have small: "?h c < 2 ^ LENGTH(32)" "?h c' < 2 ^ LENGTH(32)"
    using lru_hits_le [of _ "[]" "map fst tr"] assms(4) by (auto intro: le_less_trans)
  have "?h c \<le> ?h c'" using assms(3) by (intro lru_hits_mono) (simp add: word_le_nat_alt)
  then have le: "(of_nat (?h c) :: u32) \<le> of_nat (?h c')"
    using small by (simp add: word_le_nat_alt unat_of_nat_small)
  have c': "2 \<le> c'" using assms(2,3) by (rule order_trans)
  from lru_from_create [OF assms(1,2), of msize rnd tr] lru_from_create [OF assms(1) c', of msize rnd tr] le
  show ?thesis by (metis (no_types, lifting))
qed

theorem lru_no_belady_witness:
  "\<exists>s1 st1 st1' s2 st2 st2'.
    lru_create 2 0 = Inr s1 \<and> sim_prep some_opts s1 = Inr st1 \<and>
    sim_run lru_api (\<lambda>_. 0) some_opts 1 [(1, False), (2, True)] st1 = Inr st1' \<and>
    lru_create 3 0 = Inr s2 \<and> sim_prep some_opts s2 = Inr st2 \<and>
    sim_run lru_api (\<lambda>_. 0) some_opts 1 [(1, False), (2, True)] st2 = Inr st2' \<and>
    hits (sm_stats st1') \<le> hits (sm_stats st2')"
  by (rule lru_no_belady) (simp_all add: sync_opts_def some_opts_def)

section \<open>Runs never fault\<close>

text \<open>
  C4. Over LRU, the simulator with any migration delay below 2^31, any sampling rate but zero and
  without removals reads the whole trace without a fault: no assertion fails, no pool runs out, no
  list is corrupted. Without sampling it counts one hit or miss per access.
\<close>
theorem lru_simulation_total:
  assumes "plain_opts opts" "2 \<le> c"
  shows "\<exists>s st st'. lru_create c msize = Inr s \<and> sim_prep opts s = Inr st \<and>
    sim_run lru_api rnd opts 1 tr st = Inr st' \<and> lru_ok c (sm_policy st') \<and>
    (opt_sampling_rate opts = 1 \<longrightarrow> accesses (sm_stats st') = of_nat (length tr))"
proof -
  obtain s where s: "lru_create c msize = Inr s" "lru_ok c s" "ht s = []"
    using lru_create_ok [OF assms(2), of msize] by blast
  from lru_run_from_start [OF assms(1) s(2) lru_pending_empty [OF s(2,3)]] s(1) show ?thesis by blast
qed

theorem lru_simulation_total_witness:
  "\<exists>s st st'. lru_create 2 0 = Inr s \<and> sim_prep (some_opts\<lparr>opt_migration_delay := 3\<rparr>) s = Inr st \<and>
    sim_run lru_api (\<lambda>_. 0) (some_opts\<lparr>opt_migration_delay := 3\<rparr>) 1 [(1, False), (2, True), (3, False)] st = Inr st' \<and>
    accesses (sm_stats st') = 3"
  using lru_simulation_total [of "some_opts\<lparr>opt_migration_delay := 3\<rparr>" 2 0 "\<lambda>_. 0"
      "[(1, False), (2, True), (3, False)]"]
  by (auto simp: plain_opts_def some_opts_def)

text \<open>
  C5. The same for FOMO over LRU: the admission filter keeps every promise of the policy below it, so
  no run of the simulator faults.
\<close>
theorem fomo_simulation_total:
  assumes "plain_opts opts" "2 \<le> c"
  shows "\<exists>s st st'. fomo_create c msize lru_create = Inr s \<and> sim_prep opts s = Inr st \<and>
    sim_run (fomo_api lru_api) rnd opts 1 tr st = Inr st' \<and> fomo_ok (lru_ok c) (sm_policy st') \<and>
    (opt_sampling_rate opts = 1 \<longrightarrow> accesses (sm_stats st') = of_nat (length tr))"
proof -
  obtain s where s: "fomo_create c msize lru_create = Inr s" "fomo_ok (lru_ok c) s"
    "pending (mview (fomo_api lru_api) s) = {}" using fomo_lru_create_ok [OF assms(2), of msize] by blast
  from fomo_run_from_start [OF assms(1) s(2,3)] s(1) show ?thesis by blast
qed

theorem fomo_simulation_total_witness:
  "\<exists>s st st'. fomo_create 2 0 lru_create = Inr s \<and> sim_prep (some_opts\<lparr>opt_migration_delay := 3\<rparr>) s = Inr st \<and>
    sim_run (fomo_api lru_api) (\<lambda>_. 0) (some_opts\<lparr>opt_migration_delay := 3\<rparr>) 1
      [(1, False), (2, True), (3, False)] st = Inr st' \<and>
    accesses (sm_stats st') = 3"
  using fomo_simulation_total [of "some_opts\<lparr>opt_migration_delay := 3\<rparr>" 2 0 "\<lambda>_. 0"
      "[(1, False), (2, True), (3, False)]"]
  by (auto simp: plain_opts_def some_opts_def)

section \<open>Removals without a migration delay\<close>

text \<open>
  With removals but without a migration delay the simulator reads through a null pointer: the
  removal looks the block up in the migration tracker, which is initialised only if there is a
  delay. With LRU and a removal at every access it happens at the first access.
\<close>
theorem removal_without_delay_faults:
  assumes "2 \<le> c"
  shows "\<exists>s st. lru_create c msize = Inr s \<and> sim_prep (some_opts\<lparr>opt_remove_rate := 1\<rparr>) s = Inr st \<and>
    sim_run lru_api rnd (some_opts\<lparr>opt_remove_rate := 1\<rparr>) 1 ((ob, w) # tr) st = Inl NullDeref"
proof -
  let ?o = "some_opts\<lparr>opt_remove_rate := 1\<rparr>"
  obtain s where s: "lru_create c msize = Inr s" "lru_ok c s" "lru_q s = []" "ht s = []"
    using lru_create_ok [OF assms, of msize] by blast
  define st where "st = \<lparr>sm_policy = s, sm_stats = zero_stats,
    sm_tracker = zero_tracker\<lparr>mt_delay := 0\<rparr>, sm_random = 0\<rparr>"
  have prep: "sim_prep ?o s = Inr st" by (simp add: sim_prep_def some_opts_def st_def)
  let ?st = "st\<lparr>sm_policy := policy_set_time lru_api 1 (sm_policy st)\<rparr>"
  have at: "lru_at c [] ?st"
    using s lru_set_time [OF s(2), of 1]
    by (simp add: lru_at_def lru_calls lru_abs_set_time st_def) (simp add: lru_abs_def)
  from lru_sim_map [OF at assms, of ob w] obtain r st1 where
    1: "sim_map lru_api ob w zero_result ?st = Inr (r, st1)" "lru_ok c (sm_policy st1)"
    "spec_map (unat c) ob \<lparr>recent = [], on_way = {}\<rparr> = (r_op r, evicted r, lru_abs (sm_policy st1))" by blast
  have "1 \<le> unat c" using assms by (simp add: word_le_nat_alt)
  then have e: "entered r" and way: "ob \<in> on_way (lru_abs (sm_policy st1))"
    using spec_map_sync [OF _ 1(3)] by (auto simp: entered_def)
  from lru_sim_map_ok [of c ?st ob w] at 1(1) have "sm_tracker st1 = sm_tracker ?st"
    by (auto simp: lru_at_def)
  then have t: "mt_table (sm_tracker st1) = False" by (simp add: st_def zero_tracker_def)
  from lru_migrated_refines [OF 1(2) way] obtain s2 where
    s2: "lru_migrated_api ob (sm_policy st1) = Inr s2" "lru_ok c s2"
    "lru_abs s2 = spec_migrated ob (lru_abs (sm_policy st1))" by blast
  have mig: "sim_migrate lru_api ?o 1 ob r st1 = Inr (st1\<lparr>sm_policy := s2\<rparr>)"
    using s2(1) e by (simp add: sim_migrate_def some_opts_def lru_calls)
  have "ob \<in> set (recent (lru_abs s2))" using s2(3) by (simp add: spec_migrated_def)
  then obtain p where p: "ht_lookup ob s2 = Some p" using lru_abs_lookup(1) [OF s2(2)] by blast
  then have "p \<in> set (ht s2)" using lookup_Some [OF lru_okD(1) [OF s2(2)]] by blast
  then have "in_cache s2 (Some p)"
    using cn_in_cache [OF lru_okD(1) [OF s2(2)]] lru_region [OF s2(2)] by blast
  then have "policy_cache_lookup lru_api ob s2 \<noteq> None"
    using p by (simp add: lru_calls default_cache_lookup_def)
  then have rem: "sim_removal lru_api rnd ?o 1 ob (st1\<lparr>sm_policy := s2\<rparr>) = Inl NullDeref"
    using t by (simp add: sim_removal_def remove_now_def some_opts_def migration_remove_def mt_lookup_def)
  have "sim_serve lru_api rnd ?o 1 ob w st = Inl NullDeref"
    using 1(1) mig rem by (simp add: sim_serve_def)
  then have "sim_run lru_api rnd ?o 1 ((ob, w) # tr) st = Inl NullDeref"
    by (subst sim_run.simps) (simp add: sim_access_def sim_read_def some_opts_def)
  then show ?thesis using s(1) prep by blast
qed

theorem removal_without_delay_faults_witness:
  "\<exists>s st. lru_create 2 0 = Inr s \<and> sim_prep (some_opts\<lparr>opt_remove_rate := 1\<rparr>) s = Inr st \<and>
    sim_run lru_api (\<lambda>_. 0) (some_opts\<lparr>opt_remove_rate := 1\<rparr>) 1 [(7, False)] st = Inl NullDeref"
  by (rule removal_without_delay_faults) simp

end
